(* ===== verification/Prelude.thy ===== *)
theory Prelude
  imports Main "HOL-Library.Word" "HOL-Library.Code_Target_Nat"
begin

text \<open>
  Shared material of the CactKernel development: the machine types of the C code, the error
  numbers, little-endian reads from byte buffers, the cooperative blocking loop that every
  sleeping system call of the kernel has, and the arithmetic of one-slot-free ring buffers.

  Conventions. A C \<open>uint32_t\<close> that can wrap is a \<^typ>\<open>32 word\<close>; an index or
  a length that the code keeps below a constant is a \<^typ>\<open>nat\<close>. A byte buffer is a list
  of \<^typ>\<open>8 word\<close>. An integer result of a system call is an \<^typ>\<open>int\<close>, with the negated error
  number for a failure, as in the C code.
\<close>

unbundle bit_operations_syntax

section \<open>Machine types and error numbers\<close>

type_synonym u8 = "8 word"
type_synonym u16 = "16 word"
type_synonym u32 = "32 word"
type_synonym u64 = "64 word"
type_synonym byte = "8 word"
type_synonym bytes = "8 word list"

named_theorems kern_defs \<open>definitions of kernel operations unfolded by component proofs\<close>
named_theorems ring_simps \<open>facts on ring buffers\<close>

abbreviation (input) EINTR :: int where "EINTR \<equiv> 4"
abbreviation (input) EBADF :: int where "EBADF \<equiv> 9"
abbreviation (input) EAGAIN :: int where "EAGAIN \<equiv> 11"
abbreviation (input) ENOMEM :: int where "ENOMEM \<equiv> 12"
abbreviation (input) EFAULT :: int where "EFAULT \<equiv> 14"
abbreviation (input) EBUSY :: int where "EBUSY \<equiv> 16"
abbreviation (input) EINVAL :: int where "EINVAL \<equiv> 22"
abbreviation (input) ENOTTY :: int where "ENOTTY \<equiv> 25"
abbreviation (input) EMSGSIZE :: int where "EMSGSIZE \<equiv> 90"
abbreviation (input) ETIMEDOUT :: int where "ETIMEDOUT \<equiv> 110"

abbreviation (input) VFS_POLLIN :: u32 where "VFS_POLLIN \<equiv> 1"
abbreviation (input) VFS_POLLOUT :: u32 where "VFS_POLLOUT \<equiv> 4"
abbreviation (input) VFS_POLLERR :: u32 where "VFS_POLLERR \<equiv> 8"

text \<open>The C test \<open>x & m\<close> used as a condition.\<close>

definition flag :: "'a::len word \<Rightarrow> 'a word \<Rightarrow> bool" where
  "flag x m \<longleftrightarrow> x AND m \<noteq> 0"

text \<open>Characters of a C string literal as bytes.\<close>

definition cs :: "string \<Rightarrow> bytes" where
  "cs s = map of_char s"

section \<open>Little-endian reads and writes\<close>

fun le_nat :: "bytes \<Rightarrow> nat" where
  "le_nat [] = 0"
| "le_nat (b # bs) = unat b + 256 * le_nat bs"

fun nat_le :: "nat \<Rightarrow> nat \<Rightarrow> bytes" where
  "nat_le 0 x = []"
| "nat_le (Suc n) x = word_of_nat (x mod 256) # nat_le n (x div 256)"

definition slice :: "nat \<Rightarrow> nat \<Rightarrow> 'a list \<Rightarrow> 'a list" where
  "slice off n xs = take n (drop off xs)"

definition rd32 :: "bytes \<Rightarrow> nat \<Rightarrow> u32" where
  "rd32 bs off = word_of_nat (le_nat (slice off 4 bs))"

definition rd64 :: "bytes \<Rightarrow> nat \<Rightarrow> u64" where
  "rd64 bs off = word_of_nat (le_nat (slice off 8 bs))"

section \<open>Blocking calls\<close>

text \<open>
  A sleeping system call of this kernel is a loop: under a lock it looks at the state and either
  finishes or releases the lock and yields (\<open>schedule()\<close>, \<open>sched_sleep_ticks(1)\<close>), then
  looks again. One round is a function \<open>step\<close> whose value is \<open>Inl (r, s)\<close> when the
  call returns \<open>r\<close> and \<open>Inr s\<close> when it goes to sleep. What the rest of the system does
  during each sleep is an explicit list of state changes, one per sleep, in order. The value is
  \<open>Inr s\<close> when the list is used up and the call is still asleep.
\<close>

fun run_blocking :: "('s \<Rightarrow> ('r \<times> 's) + 's) \<Rightarrow> ('s \<Rightarrow> 's) list \<Rightarrow> 's \<Rightarrow> ('r \<times> 's) + 's" where
  "run_blocking step [] s = step s"
| "run_blocking step (e # es) s =
     (case step s of Inl r \<Rightarrow> Inl r | Inr s' \<Rightarrow> run_blocking step es (e s'))"

definition outcome_all :: "('s \<Rightarrow> bool) \<Rightarrow> ('r \<times> 's) + 's \<Rightarrow> bool" where
  "outcome_all I x \<longleftrightarrow> (case x of Inl p \<Rightarrow> I (snd p) | Inr s \<Rightarrow> I s)"

text \<open>What the other tasks do during a sleep changes the world, not the caller's byte count.\<close>

definition lift_others :: "('w \<Rightarrow> 'w) list \<Rightarrow> ('n \<times> 'w \<Rightarrow> 'n \<times> 'w) list" where
  "lift_others others = map (\<lambda>e (n, w). (n, e w)) others"

section \<open>Rings with one slot kept free\<close>

text \<open>
  The rings of the terminal and of the pseudo-terminals store at most \<open>N - 1\<close> bytes in \<open>N\<close>
  slots; the reader's index \<open>r\<close> equal to the writer's index \<open>w\<close> means empty.
\<close>

definition ring_fill :: "nat \<Rightarrow> nat \<Rightarrow> nat \<Rightarrow> nat" where
  "ring_fill N r w = (w + N - r) mod N"

definition ring_list :: "nat \<Rightarrow> 'a list \<Rightarrow> nat \<Rightarrow> nat \<Rightarrow> 'a list" where
  "ring_list N buf r w = map (\<lambda>k. buf ! ((r + k) mod N)) [0..<ring_fill N r w]"

definition ring_ok :: "nat \<Rightarrow> 'a list \<Rightarrow> nat \<Rightarrow> nat \<Rightarrow> bool" where
  "ring_ok N buf r w \<longleftrightarrow> length buf = N \<and> r < N \<and> w < N"

section \<open>Lemmas on bytes\<close>

lemma le_nat_bound: "le_nat bs < 256 ^ length bs"
proof (induction bs)
  case (Cons b bs)
  have "unat b < 256" using unsigned_less[of b] by simp
  moreover have "le_nat bs \<le> 256 ^ length bs - 1" using Cons by simp
  moreover have "(0::nat) < 256 ^ length bs" by simp
  ultimately have "unat b + 256 * le_nat bs < 256 + 256 * (256 ^ length bs - 1)" by linarith
  also have "\<dots> = 256 * 256 ^ length bs" by (simp add: diff_mult_distrib2)
  finally show ?case by simp
qed simp

lemma length_nat_le [simp]: "length (nat_le n x) = n"
  by (induction n arbitrary: x) auto

lemma le_nat_nat_le [simp]: "le_nat (nat_le n x) = x mod 256 ^ n"
proof (induction n arbitrary: x)
  case (Suc n)
  have "unat (word_of_nat (x mod 256) :: byte) = x mod 256"
    by (simp add: unat_of_nat)
  moreover have "x mod 256 + 256 * (x div 256 mod 256 ^ n) = x mod (256 * 256 ^ n)"
    by (simp add: mod_mult2_eq)
  ultimately show ?case by (simp add: Suc)
qed simp

lemma length_slice [simp]: "length (slice off n xs) = min n (length xs - off)"
  by (simp add: slice_def)

lemma slice_append_left: "off + n \<le> length xs \<Longrightarrow> slice off n (xs @ ys) = slice off n xs"
  by (simp add: slice_def)

lemma count_list_remove1: "count_list (remove1 a xs) b = count_list xs b - (if b = a then 1 else 0)"
  by (induction xs) auto

section \<open>Lemmas on 32-bit words\<close>

lemma unat_lt32: "unat w < 4294967296" for w :: u32
  using unsigned_less[of w, where ?'a = nat] by simp

lemma unat_of_nat32: "n < 2 ^ 32 \<Longrightarrow> unat (word_of_nat n :: u32) = n"
  by (simp add: unat_of_nat)

lemma unat_add32: "unat v + unat w < 2 ^ 32 \<Longrightarrow> unat (v + w) = unat v + unat w" for v w :: u32
  by (subst unat_word_ariths) simp

lemma unat_add_nat32: "unat w + n < 2 ^ 32 \<Longrightarrow> unat (w + word_of_nat n) = unat w + n" for w :: u32
  by (subst unat_add32) (simp_all add: unat_of_nat32)

section \<open>Lemmas on blocking calls\<close>

lemma run_blocking_append_asleep:
  "run_blocking step es s = Inr t \<Longrightarrow>
     run_blocking step (es @ e # es') s = run_blocking step es' (e t)"
  by (induction es arbitrary: s) (auto split: sum.splits)

lemma run_blocking_append_done:
  "run_blocking step es s = Inl r \<Longrightarrow> run_blocking step (es @ es') s = Inl r"
proof (induction es arbitrary: s)
  case Nil
  then show ?case by (cases es') auto
next
  case (Cons e es)
  then show ?case by (auto split: sum.splits)
qed

text \<open>The invariant rule: rounds and the other tasks keep \<open>I\<close>, so the outcome satisfies it.\<close>

lemma run_blocking_inv:
  assumes "I s"
    and step: "\<And>s. I s \<Longrightarrow> outcome_all I (step s)"
    and env: "\<And>e s. e \<in> set es \<Longrightarrow> I s \<Longrightarrow> I (e s)"
  shows "outcome_all I (run_blocking step es s)"
  using assms(1) env
proof (induction es arbitrary: s)
  case Nil
  then show ?case by (simp add: step)
next
  case (Cons e es)
  have s: "outcome_all I (step s)" using Cons.prems(1) by (rule step)
  show ?case
  proof (cases "step s")
    case (Inl p)
    then show ?thesis using s by simp
  next
    case (Inr s')
    then have "I (e s')" using s Cons.prems(2) by (simp add: outcome_all_def)
    then have "outcome_all I (run_blocking step es (e s'))"
      using Cons.prems(2) by (intro Cons.IH) simp_all
    then show ?thesis using Inr by simp
  qed
qed

section \<open>Lemmas on rings\<close>

lemma ring_fill_less [ring_simps]: "0 < N \<Longrightarrow> ring_fill N r w < N"
  by (simp add: ring_fill_def)

lemma ring_fill_cases:
  assumes "r < N" "w < N"
  shows "ring_fill N r w = (if r \<le> w then w - r else N - r + w)"
proof (cases "r \<le> w")
  case True
  then have "w + N - r = N + (w - r)" using assms by simp
  then have "(w + N - r) mod N = (w - r) mod N" by (simp only: mod_add_self1)
  then show ?thesis using True assms by (simp add: ring_fill_def)
next
  case False
  then show ?thesis using assms by (simp add: ring_fill_def)
qed

lemma ring_fill_0 [ring_simps]: "r < N \<Longrightarrow> w < N \<Longrightarrow> ring_fill N r w = 0 \<longleftrightarrow> r = w"
  by (auto simp: ring_fill_cases)

lemma ring_fill_full:
  "r < N \<Longrightarrow> w < N \<Longrightarrow> Suc w mod N = r \<longleftrightarrow> ring_fill N r w = N - 1"
  by (cases "Suc w = N") (auto simp: ring_fill_cases)

lemma ring_fill_push:
  "r < N \<Longrightarrow> w < N \<Longrightarrow> Suc w mod N \<noteq> r \<Longrightarrow> ring_fill N r (Suc w mod N) = Suc (ring_fill N r w)"
  by (cases "Suc w = N") (auto simp: ring_fill_cases)

lemma ring_fill_pop:
  "r < N \<Longrightarrow> w < N \<Longrightarrow> r \<noteq> w \<Longrightarrow> ring_fill N r w = Suc (ring_fill N (Suc r mod N) w)"
  by (cases "Suc r = N") (auto simp: ring_fill_cases)

lemma length_ring_list [simp]: "length (ring_list N buf r w) = ring_fill N r w"
  by (simp add: ring_list_def)

lemma ring_slot_neq:
  assumes "r < N" "w < N" "k < ring_fill N r w"
  shows "(r + k) mod N \<noteq> w"
proof (cases "r + k < N")
  case True
  then show ?thesis using assms by (auto simp: ring_fill_cases split: if_splits)
next
  case False
  then have "(r + k) mod N = r + k - N"
    using assms ring_fill_less[of N r w] by (simp add: mod_if)
  then show ?thesis using assms False by (auto simp: ring_fill_cases split: if_splits)
qed

lemma ring_slot_last:
  assumes "r < N" "w < N"
  shows "(r + ring_fill N r w) mod N = w"
  using assms by (auto simp: ring_fill_cases)

lemma ring_list_push:
  assumes "ring_ok N buf r w" "Suc w mod N \<noteq> r"
  shows "ring_list N (buf[w := c]) r (Suc w mod N) = ring_list N buf r w @ [c]"
proof -
  have b: "length buf = N" "r < N" "w < N" using assms by (auto simp: ring_ok_def)
  have "map (\<lambda>k. buf[w := c] ! ((r + k) mod N)) [0..<ring_fill N r w]
      = map (\<lambda>k. buf ! ((r + k) mod N)) [0..<ring_fill N r w]"
    using ring_slot_neq[OF b(2,3)] by (intro map_cong refl nth_list_update_neq) fastforce
  then show ?thesis
    using b assms(2) by (simp add: ring_list_def ring_fill_push ring_slot_last)
qed

lemma ring_list_pop:
  assumes "ring_ok N buf r w" "r \<noteq> w"
  shows "ring_list N buf r w = buf ! r # ring_list N buf (Suc r mod N) w"
proof -
  have b: "r < N" "w < N" using assms by (auto simp: ring_ok_def)
  have "[0..<Suc (ring_fill N (Suc r mod N) w)]
      = 0 # map Suc [0..<ring_fill N (Suc r mod N) w]"
    by (simp add: map_Suc_upt upt_conv_Cons)
  then show ?thesis
    using b by (simp add: ring_list_def ring_fill_pop[OF b assms(2)] mod_simps comp_def del: upt_Suc)
qed

lemma ring_list_empty [simp]: "0 < N \<Longrightarrow> ring_list N buf r r = []"
  by (simp add: ring_list_def ring_fill_def)

end
