(* ===== verification/Fifo.thy ===== *)
theory Fifo
  imports Prelude
begin

text \<open>
  The interface of a bounded byte queue, as the terminal, the pseudo-terminals and the local
  sockets use it: a \<open>push\<close> that drops the byte when the queue is full and a \<open>pop\<close> that
  reports an empty queue. The laws are stated through the list of queued bytes; what a client of
  such a queue gets (bursts keep their order, draining returns what was stored) is proved once
  here and used through the interpretations on the concrete rings.
\<close>

fun drain :: "('r \<Rightarrow> (byte \<times> 'r) option) \<Rightarrow> nat \<Rightarrow> 'r \<Rightarrow> bytes \<times> 'r" where
  "drain pop 0 r = ([], r)"
| "drain pop (Suc n) r =
     (case pop r of
        None \<Rightarrow> ([], r)
      | Some (c, r') \<Rightarrow> (let (cs, r'') = drain pop n r' in (c # cs, r'')))"

locale byte_fifo =
  fixes ok :: "'r \<Rightarrow> bool"
    and contents :: "'r \<Rightarrow> bytes"
    and capacity :: nat
    and push :: "byte \<Rightarrow> 'r \<Rightarrow> 'r"
    and pop :: "'r \<Rightarrow> (byte \<times> 'r) option"
  assumes bounded: "ok r \<Longrightarrow> length (contents r) \<le> capacity"
    and push_ok: "ok r \<Longrightarrow> ok (push c r)"
    and push_contents: "ok r \<Longrightarrow> contents (push c r) =
          (if length (contents r) < capacity then contents r @ [c] else contents r)"
    and pop_none: "ok r \<Longrightarrow> pop r = None \<longleftrightarrow> contents r = []"
    and pop_some: "ok r \<Longrightarrow> pop r = Some (c, r') \<Longrightarrow> ok r' \<and> contents r = c # contents r'"
begin

lemma fold_push_ok: "ok r \<Longrightarrow> ok (fold push xs r)"
  by (induction xs arbitrary: r) (auto simp: push_ok)

text \<open>A burst of bytes is stored in order, up to the free space; the rest is dropped.\<close>

lemma fold_push_contents:
  "ok r \<Longrightarrow> contents (fold push xs r) = contents r @ take (capacity - length (contents r)) xs"
proof (induction xs arbitrary: r)
  case (Cons x xs)
  have "contents (fold push xs (push x r)) =
      contents (push x r) @ take (capacity - length (contents (push x r))) xs"
    using Cons.prems by (intro Cons.IH push_ok)
  moreover have "capacity - length (contents r) = Suc (capacity - Suc (length (contents r)))"
    if "length (contents r) < capacity" using that by simp
  ultimately show ?case using Cons.prems by (simp add: push_contents)
qed simp

lemma fold_push_fits:
  "ok r \<Longrightarrow> length (contents r) + length xs \<le> capacity \<Longrightarrow>
     contents (fold push xs r) = contents r @ xs"
  by (simp add: fold_push_contents)

lemma drain_spec:
  "ok r \<Longrightarrow> fst (drain pop n r) = take n (contents r) \<and>
     ok (snd (drain pop n r)) \<and> contents (snd (drain pop n r)) = drop n (contents r)"
proof (induction n arbitrary: r)
  case (Suc n)
  show ?case
  proof (cases "pop r")
    case None
    then have "contents r = []" using Suc.prems pop_none by simp
    then show ?thesis using None Suc.prems by simp
  next
    case (Some p)
    obtain c r' where p: "p = (c, r')" by (cases p)
    have r': "ok r'" "contents r = c # contents r'"
      using pop_some Suc.prems Some p by auto
    then show ?thesis using Suc.IH[OF r'(1)] Some p by (simp add: split_beta)
  qed
qed simp

text \<open>What goes in comes out, in order: a burst that fits, then a long enough drain.\<close>

lemma push_then_drain:
  assumes "ok r" "length (contents r) + length xs \<le> capacity"
    and "length (contents r) + length xs \<le> n"
  shows "fst (drain pop n (fold push xs r)) = contents r @ xs"
  using drain_spec[OF fold_push_ok[OF assms(1)], of n xs] assms
  by (simp add: fold_push_fits)

end

end
