(* ===== verification/Links.thy ===== *)
theory Links
  imports Prelude
begin

text \<open>
  Lists made of pointers between objects, as the page cache and the local sockets keep them: what one
  meets when following the pointers, and how the list changes when an object is unlinked or appended.
\<close>

text \<open>\<open>seg nx h xs e\<close>: following \<open>nx\<close> from \<open>h\<close> one meets \<open>xs\<close> and then \<open>e\<close>.\<close>

fun seg :: "(nat \<Rightarrow> nat option) \<Rightarrow> nat option \<Rightarrow> nat list \<Rightarrow> nat option \<Rightarrow> bool" where
  "seg nx h [] e \<longleftrightarrow> h = e"
| "seg nx h (x # xs) e \<longleftrightarrow> h = Some x \<and> seg nx (nx x) xs e"

lemma seg_append: "seg nx h (xs @ ys) e \<longleftrightarrow> (\<exists>m. seg nx h xs m \<and> seg nx m ys e)"
  by (induction xs arbitrary: h) auto

lemma seg_cong: "(\<And>x. x \<in> set xs \<Longrightarrow> nx' x = nx x) \<Longrightarrow> seg nx' h xs e = seg nx h xs e"
  by (induction xs arbitrary: h) auto

lemma seg_frame: "seg nx h xs e \<Longrightarrow> (\<And>x. x \<in> set xs \<Longrightarrow> nx' x = nx x) \<Longrightarrow> seg nx' h xs e"
  by (induction xs arbitrary: h) auto

lemma seg_hd: "seg nx h xs None \<Longrightarrow> h = (case xs of [] \<Rightarrow> None | x # _ \<Rightarrow> Some x)"
  by (cases xs) auto

lemma seg_delete:
  assumes "seg nx h (ys @ p # zs) None" "distinct (ys @ p # zs)"
    and "\<And>i. i \<in> set ys \<union> set zs \<Longrightarrow> ys = [] \<or> i \<noteq> last ys \<Longrightarrow> nx' i = nx i" "ys \<noteq> [] \<Longrightarrow> nx' (last ys) = nx p"
  shows "seg nx' (if ys = [] then nx p else h) (ys @ zs) None"
proof -
  have z: "seg nx (nx p) zs None" and hy: "seg nx h ys (Some p)" using assms(1) by (auto simp: seg_append)
  have z': "seg nx' (nx p) zs None"
    using z seg_cong[of zs nx' nx] assms(2,3) by (metis UnI2 disjoint_iff distinct.simps(2) distinct_append last_in_set list.set_intros(2) set_ConsD)
  show ?thesis
  proof (cases ys rule: rev_cases)
    case Nil
    then show ?thesis using z' by simp
  next
    case (snoc us u)
    have "seg nx h us (Some u)" using hy snoc by (simp add: seg_append)
    then have "seg nx' h us (Some u)" using seg_cong[of us nx' nx] assms(2,3) snoc by auto
    then show ?thesis using snoc z' assms(4) by (simp add: seg_append)
  qed
qed

lemma seg_snoc:
  assumes "seg nx h xs None" "distinct xs" "p \<notin> set xs"
    and "\<And>i. i \<in> set xs \<Longrightarrow> i \<noteq> last xs \<Longrightarrow> nx' i = nx i" "xs \<noteq> [] \<Longrightarrow> nx' (last xs) = Some p" "nx' p = None"
  shows "seg nx' (if xs = [] then Some p else h) (xs @ [p]) None"
proof (cases xs rule: rev_cases)
  case (snoc us u)
  have "seg nx h us (Some u)" using assms(1) snoc by (auto simp: seg_append)
  then have "seg nx' h us (Some u)" using seg_cong[of us nx' nx] assms(2,4) snoc by auto
  then show ?thesis using snoc assms(5,6) by (simp add: seg_append)
qed (use assms(6) in simp)

end
