(* ===== verification/Heap.thy ===== *)
theory Heap
  imports Prelude "HOL-Library.AList"
begin

text \<open>
  Finite heaps as association lists from addresses to objects, with \<open>AList.update\<close> as the store and
  \<open>AList.delete\<close> as \<open>kfree\<close>, and the accounting lemmas: how a total over all live objects (bytes
  charged to a budget, references held on an object) changes with a store, an allocation and a
  release.
\<close>

definition heap_sum :: "('v \<Rightarrow> nat) \<Rightarrow> ('k \<times> 'v) list \<Rightarrow> nat" where
  "heap_sum f h = sum_list (map (\<lambda>p. f (snd p)) h)"

lemma heap_sum_Nil [simp]: "heap_sum f [] = 0"
  by (simp add: heap_sum_def)

lemma heap_sum_Cons [simp]: "heap_sum f ((k, v) # h) = f v + heap_sum f h"
  by (simp add: heap_sum_def)

lemma heap_sum_member:
  assumes "map_of h a = Some v"
  shows "f v \<le> heap_sum f h"
  using assms by (induction h) (auto split: if_splits)

lemma heap_sum_update_new:
  "map_of h a = None \<Longrightarrow> heap_sum f (AList.update a v h) = heap_sum f h + f v"
  by (induction h) (auto split: if_splits)

lemma heap_sum_update_old:
  "map_of h a = Some v \<Longrightarrow> heap_sum f (AList.update a v' h) + f v = heap_sum f h + f v'"
  by (induction h) (auto split: if_splits)

lemma heap_delete_absent: "map_of h a = None \<Longrightarrow> AList.delete a h = h"
  by (induction h) (auto split: if_splits)

lemma heap_delete_update_new: "map_of h a = None \<Longrightarrow> AList.delete a (AList.update a v h) = h"
  by (induction h) (auto split: if_splits)

lemma heap_sum_delete:
  "distinct (map fst h) \<Longrightarrow> map_of h a = Some v \<Longrightarrow> heap_sum f (AList.delete a h) + f v = heap_sum f h"
proof (induction h)
  case (Cons p h)
  show ?case
  proof (cases "fst p = a")
    case True
    then have "map_of h a = None" using Cons.prems(1) by (auto simp: map_of_eq_None_iff)
    then show ?thesis using Cons.prems True by (cases p) (simp add: heap_delete_absent)
  next
    case False
    then show ?thesis using Cons by (cases p) auto
  qed
qed simp

lemma heap_keys_update: "distinct (map fst h) \<Longrightarrow> distinct (map fst (AList.update a v h))"
  by (rule distinct_update)

lemma heap_lookup_update: "map_of (AList.update a v h) b = (if a = b then Some v else map_of h b)"
  by (simp add: update_conv')

lemma heap_lookup_delete: "map_of (AList.delete a h) b = (if a = b then None else map_of h b)"
  by (simp add: delete_conv' fun_upd_def)

lemma heap_keys_delete: "distinct (map fst h) \<Longrightarrow> distinct (map fst (AList.delete a h))"
  by (rule distinct_delete)

lemma heap_sum_zero: "heap_sum f h = 0 \<longleftrightarrow> (\<forall>p \<in> set h. f (snd p) = 0)"
  by (induction h) auto

lemma heap_sum_zero_map_of:
  "distinct (map fst h) \<Longrightarrow> heap_sum f h = 0 \<longleftrightarrow> (\<forall>a v. map_of h a = Some v \<longrightarrow> f v = 0)"
  unfolding heap_sum_zero by (auto simp: map_of_eq_Some_iff)

lemmas heap_lookup = heap_lookup_update heap_lookup_delete

end
