(* ===== verification/Usermem.thy ===== *)
theory Usermem
  imports Prelude
begin

text \<open>
  The user-pointer checks and copies of \<open>Cact/kernel/core/syscall/validate.c\<close>. The address
  space a system call sees is a function from 32-bit addresses to bytes; the kernel half and the
  identity-mapped low 128 MiB are ordinary addresses of it, so that a copy which strays into
  them is visible in the model. Address arithmetic wraps at 32 bits.
\<close>

section \<open>The address space\<close>

type_synonym umem = "u32 \<Rightarrow> byte"

definition mem_read :: "umem \<Rightarrow> u32 \<Rightarrow> nat \<Rightarrow> bytes" where
  "mem_read m a n = map (\<lambda>i. m (a + word_of_nat i)) [0..<n]"

definition mem_write :: "umem \<Rightarrow> u32 \<Rightarrow> bytes \<Rightarrow> umem" where
  "mem_write m a bs x = (if unat (x - a) < length bs then bs ! unat (x - a) else m x)"

definition KERNEL_BASE :: u32 where "KERNEL_BASE = 0xC0000000"
definition USER_SPACE_START :: u32 where "USER_SPACE_START = 0x08000000"

definition in_user :: "u32 \<Rightarrow> bool" where
  "in_user a \<longleftrightarrow> USER_SPACE_START \<le> a \<and> a < KERNEL_BASE"

section \<open>Checks and copies\<close>

definition validate_user_ptr :: "u32 \<Rightarrow> u32 \<Rightarrow> bool" where
  "validate_user_ptr addr sz =
     (if addr = 0 then False
      else if addr < USER_SPACE_START then False
      else if addr \<ge> KERNEL_BASE then False
      else if sz = 0 then True
      else let fin = addr + sz in
        if fin < addr then False
        else if fin > KERNEL_BASE then False
        else True)"



definition copy_to_user :: "umem \<Rightarrow> u32 \<Rightarrow> bytes \<Rightarrow> int \<times> umem" where
  "copy_to_user m dst src =
     (if \<not> validate_user_ptr dst (word_of_nat (length src)) then (-1, m)
      else (0, mem_write m dst src))"

definition copy_from_user :: "umem \<Rightarrow> u32 \<Rightarrow> nat \<Rightarrow> bytes option" where
  "copy_from_user m src n =
     (if \<not> validate_user_ptr src (word_of_nat n) then None else Some (mem_read m src n))"



section \<open>Lemmas\<close>

lemma length_mem_read [simp]: "length (mem_read m a n) = n"
  by (simp add: mem_read_def)

lemma mem_read_0 [simp]: "mem_read m a 0 = []"
  by (simp add: mem_read_def)

lemma nth_mem_read [simp]: "i < n \<Longrightarrow> mem_read m a n ! i = m (a + word_of_nat i)"
  by (simp add: mem_read_def)

lemma mem_write_outside: "length bs \<le> unat (x - a) \<Longrightarrow> mem_write m a bs x = m x"
  by (simp add: mem_write_def)

lemma mem_write_Nil [simp]: "mem_write m a [] = m"
  by (simp add: mem_write_def fun_eq_iff)

lemma mem_read_write:
  assumes "length bs \<le> 2 ^ 32"
  shows "mem_read (mem_write m a bs) a (length bs) = bs"
  using assms by (intro nth_equalityI) (auto simp: mem_write_def unat_of_nat)

text \<open>The pointer check is exactly ``the whole range lies in user space''.\<close>

lemma validate_user_ptr_iff:
  "validate_user_ptr addr sz \<longleftrightarrow>
     in_user addr \<and> unat addr + unat sz \<le> unat KERNEL_BASE"
proof -
  have s: "unat (addr + sz) = (unat addr + unat sz) mod 2 ^ 32"
    by (simp add: unat_word_ariths)
  have b: "unat addr < 2 ^ 32" "unat sz < 2 ^ 32"
    using unsigned_less[of addr] unsigned_less[of sz] by simp_all
  have k: "unat KERNEL_BASE = 0xC0000000" by (simp add: KERNEL_BASE_def)
  have z: "sz = 0 \<longleftrightarrow> unat sz = 0" by (simp add: unat_eq_0)
  have nz: "addr < USER_SPACE_START \<or> addr \<noteq> 0"
    by (auto simp: USER_SPACE_START_def)
  have wrap: "(unat addr + unat sz) mod 2 ^ 32 =
      (if unat addr + unat sz < 2 ^ 32 then unat addr + unat sz else unat addr + unat sz - 2 ^ 32)"
    using b by (simp add: mod_if)
  show ?thesis
    using b k z nz unfolding validate_user_ptr_def in_user_def Let_def word_less_nat_alt word_le_nat_alt s wrap
    by (auto split: if_splits)
qed

lemma in_user_range:
  assumes "validate_user_ptr addr (word_of_nat n)" "n < 2 ^ 32" "i < n"
  shows "in_user (addr + word_of_nat i)" "unat (addr + word_of_nat i) = unat addr + i"
proof -
  have u: "in_user addr" "unat addr + n \<le> unat KERNEL_BASE"
    using assms by (auto simp: validate_user_ptr_iff unat_of_nat32)
  have "unat KERNEL_BASE < 2 ^ 32" by (simp add: KERNEL_BASE_def)
  then show s: "unat (addr + word_of_nat i) = unat addr + i"
    using u assms by (simp add: unat_word_ariths unat_of_nat32)
  show "in_user (addr + word_of_nat i)"
    using u s assms by (simp add: in_user_def word_less_nat_alt word_le_nat_alt)
qed

lemma unat_diff_offset: "x = a + word_of_nat (unat (x - a))" for a x :: u32
  by simp

lemma copy_to_user_ret: "fst (copy_to_user m dst src) = 0 \<or> fst (copy_to_user m dst src) = -1"
  by (simp add: copy_to_user_def)

lemma copy_to_user_frame:
  assumes "length src < 2 ^ 32" "snd (copy_to_user m dst src) x \<noteq> m x"
  shows "in_user x \<and> unat dst \<le> unat x \<and> unat x < unat dst + length src"
proof -
  have v: "validate_user_ptr dst (word_of_nat (length src))"
    and c: "unat (x - dst) < length src"
    using assms(2) by (auto simp: copy_to_user_def mem_write_def split: if_splits)
  show ?thesis using in_user_range[OF v assms(1) c] c by simp
qed

lemma copy_from_to_user:
  assumes "length src < 2 ^ 32" "copy_to_user m dst src = (0, m')"
  shows "copy_from_user m' dst (length src) = Some src"
  using assms by (auto simp: copy_to_user_def copy_from_user_def mem_read_write split: if_splits)



section \<open>Properties\<close>

text \<open>
  C16: \<open>copy_to_user\<close> is confined: whatever pointer and data it is given, every byte of the
  address space that it changes lies in user space, at or above \<open>USER_SPACE_START\<close> and below
  \<open>KERNEL_BASE\<close>, and inside the destination buffer, without wrap-around; a result of \<open>-1\<close> means
  that nothing was written and a result of 0 that the buffer can be read back with the same bytes.
\<close>

theorem copy_to_user_confined:
  assumes "length src < 2 ^ 32" and "copy_to_user m dst src = (r, m')"
  shows "(\<forall>x. m' x \<noteq> m x \<longrightarrow> in_user x \<and> unat dst \<le> unat x \<and> unat x < unat dst + length src) \<and>
    (r = -1 \<and> m' = m \<or> r = 0 \<and> copy_from_user m' dst (length src) = Some src)"
proof (intro conjI allI impI)
  fix x
  assume "m' x \<noteq> m x"
  then show "in_user x" "unat dst \<le> unat x" "unat x < unat dst + length src"
    using copy_to_user_frame[OF assms(1), of m dst x] assms(2) by auto
next
  have "r = -1 \<and> m' = m \<or> r = 0"
    using assms(2) by (auto simp: copy_to_user_def split: if_splits)
  then show "r = -1 \<and> m' = m \<or> r = 0 \<and> copy_from_user m' dst (length src) = Some src"
    using copy_from_to_user[OF assms(1)] assms(2) by auto
qed

theorem copy_to_user_confined_witness:
  "fst (copy_to_user (\<lambda>_. 0) 0x08000000 [1, 2, 3]) = 0 \<and>
   copy_from_user (snd (copy_to_user (\<lambda>_. 0) 0x08000000 [1, 2, 3])) 0x08000000 3 = Some [1, 2, 3] \<and>
   copy_to_user (\<lambda>_. 0) 0xBFFFFFFE [1, 2, 3] = (-1, \<lambda>_. 0)"
proof -
  have a: "copy_to_user (\<lambda>_. 0) 0x08000000 [1, 2, 3] =
      (0, mem_write (\<lambda>_. 0) 0x08000000 [1, 2, 3])"
    by (simp add: copy_to_user_def validate_user_ptr_def USER_SPACE_START_def KERNEL_BASE_def)
  have b: "copy_to_user (\<lambda>_. 0) 0xBFFFFFFE [1, 2, 3] = (-1, \<lambda>_. 0)"
    by (simp add: copy_to_user_def validate_user_ptr_def USER_SPACE_START_def KERNEL_BASE_def)
  show ?thesis using copy_to_user_confined[OF _ a] a b by (simp add: numeral_3_eq_3)
qed



end
