(* ===== verification/Kstring.thy ===== *)
theory Kstring
  imports Usermem
begin

text \<open>
  The string and memory routines of \<open>Cact/kernel/core/klib.c\<close>, on the byte-addressed memory of
  \<open>Usermem\<close>. A C string is an address; it ends at the first zero byte. A \<open>char\<close> is signed.

  A loop that a counter bounds is a recursion on what is left of the counter. A loop that looks for
  a terminator without a counter of its own has one round per address before it would see the same
  addresses again; it is a recursion on that many rounds with the value \<open>None\<close> at the end, which is
  the loop that never ends (or, for the routines that count in an \<open>int\<close>, the count that overflows).
\<close>

section \<open>Comparing and measuring\<close>

definition INT_ROUNDS :: nat where "INT_ROUNDS = 2 ^ 31"
definition ADDR_ROUNDS :: nat where "ADDR_ROUNDS = 2 ^ 32"

fun compare_loop :: "nat \<Rightarrow> umem \<Rightarrow> u32 \<Rightarrow> u32 \<Rightarrow> int option" where
  "compare_loop 0 m s1 s2 = None"
| "compare_loop (Suc k) m s1 s2 =
     (if m s1 = m s2 then (if m s1 = 0 then Some 0 else compare_loop k m (s1 + 1) (s2 + 1))
      else Some (sint (m s1) - sint (m s2)))"

definition compare_string :: "umem \<Rightarrow> u32 \<Rightarrow> u32 \<Rightarrow> int option" where
  "compare_string m s1 s2 = compare_loop INT_ROUNDS m s1 s2"

definition strcmp :: "umem \<Rightarrow> u32 \<Rightarrow> u32 \<Rightarrow> int option" where
  "strcmp m s1 s2 = compare_string m s1 s2"

fun strlen_loop :: "nat \<Rightarrow> umem \<Rightarrow> u32 \<Rightarrow> nat option" where
  "strlen_loop 0 m s = None"
| "strlen_loop (Suc k) m s = (if m s = 0 then Some 0 else map_option Suc (strlen_loop k m (s + 1)))"

definition strlen :: "umem \<Rightarrow> u32 \<Rightarrow> nat option" where
  "strlen m s = strlen_loop INT_ROUNDS m s"

fun strncmp_loop :: "nat \<Rightarrow> umem \<Rightarrow> u32 \<Rightarrow> u32 \<Rightarrow> (u32 \<times> u32) option" where
  "strncmp_loop 0 m a b = None"
| "strncmp_loop (Suc k) m a b =
     (if m a \<noteq> 0 \<and> m a = m b then strncmp_loop k m (a + 1) (b + 1) else Some (a, b))"

definition strncmp :: "umem \<Rightarrow> u32 \<Rightarrow> u32 \<Rightarrow> int option" where
  "strncmp m a b = map_option (\<lambda>(a, b). sint (m a) - sint (m b)) (strncmp_loop ADDR_ROUNDS m a b)"

definition streq :: "umem \<Rightarrow> u32 \<Rightarrow> u32 \<Rightarrow> bool option" where
  "streq m a b = map_option (\<lambda>(a, b). m a = m b) (strncmp_loop ADDR_ROUNDS m a b)"

fun memcmp_loop :: "nat \<Rightarrow> umem \<Rightarrow> u32 \<Rightarrow> u32 \<Rightarrow> int" where
  "memcmp_loop 0 m p q = 0"
| "memcmp_loop (Suc k) m p q =
     (if m p \<noteq> m q then int (unat (m p)) - int (unat (m q)) else memcmp_loop k m (p + 1) (q + 1))"

definition memory_compare :: "umem \<Rightarrow> u32 \<Rightarrow> u32 \<Rightarrow> int \<Rightarrow> int" where
  "memory_compare m s1 s2 n = memcmp_loop (nat n) m s1 s2"

definition memcmp :: "umem \<Rightarrow> u32 \<Rightarrow> u32 \<Rightarrow> u32 \<Rightarrow> int" where
  "memcmp m a b len = memcmp_loop (unat len) m a b"

section \<open>Copying and filling\<close>

fun memset_loop :: "nat \<Rightarrow> umem \<Rightarrow> u32 \<Rightarrow> byte \<Rightarrow> umem" where
  "memset_loop 0 m p c = m"
| "memset_loop (Suc k) m p c = memset_loop k (m(p := c)) (p + 1) c"

definition memory_set :: "umem \<Rightarrow> u32 \<Rightarrow> int \<Rightarrow> int \<Rightarrow> umem" where
  "memory_set m dest val len = memset_loop (nat len) m dest (word_of_int val)"

definition memset :: "umem \<Rightarrow> u32 \<Rightarrow> int \<Rightarrow> u32 \<Rightarrow> umem" where
  "memset m dest val len = memset_loop (unat len) m dest (word_of_int val)"

fun memcpy_loop :: "nat \<Rightarrow> umem \<Rightarrow> u32 \<Rightarrow> u32 \<Rightarrow> umem" where
  "memcpy_loop 0 m d s = m"
| "memcpy_loop (Suc k) m d s = memcpy_loop k (m(d := m s)) (d + 1) (s + 1)"

definition memory_copy :: "umem \<Rightarrow> u32 \<Rightarrow> u32 \<Rightarrow> int \<Rightarrow> umem" where
  "memory_copy m dest src len = memcpy_loop (nat len) m dest src"

definition memcpy :: "umem \<Rightarrow> u32 \<Rightarrow> u32 \<Rightarrow> u32 \<Rightarrow> umem" where
  "memcpy m dest src len = memcpy_loop (unat len) m dest src"

text \<open>
  Copy characters until the terminator or until \<open>k\<close> are copied, then terminate. The second
  component is the number of characters copied.
\<close>

fun str_copy_loop :: "nat \<Rightarrow> umem \<Rightarrow> u32 \<Rightarrow> u32 \<Rightarrow> umem \<times> nat" where
  "str_copy_loop 0 m p s = (m(p := 0), 0)"
| "str_copy_loop (Suc k) m p s =
     (if m s = 0 then (m(p := 0), 0)
      else let (m', c) = str_copy_loop k (m(p := m s)) (p + 1) (s + 1) in (m', Suc c))"

definition strcpy :: "umem \<Rightarrow> u32 \<Rightarrow> u32 \<Rightarrow> umem" where
  "strcpy m dest src =
     (if dest = 0 \<or> src = 0 then m else fst (str_copy_loop (ADDR_ROUNDS - 1) m dest src))"

definition copy_string :: "umem \<Rightarrow> u32 \<Rightarrow> u32 \<Rightarrow> umem" where
  "copy_string m dest src = strcpy m dest src"

definition strcat :: "umem \<Rightarrow> u32 \<Rightarrow> u32 \<Rightarrow> umem option" where
  "strcat m dest src =
     (if dest = 0 \<or> src = 0 then Some m
      else map_option (\<lambda>n. fst (str_copy_loop (ADDR_ROUNDS - 1) m (dest + word_of_nat n) src)) (strlen m dest))"

definition strncpy :: "umem \<Rightarrow> u32 \<Rightarrow> u32 \<Rightarrow> int \<Rightarrow> umem" where
  "strncpy m dst src n = fst (str_copy_loop (nat (n - 1)) m dst src)"

definition strlcpy :: "umem \<Rightarrow> u32 \<Rightarrow> u32 \<Rightarrow> int \<Rightarrow> umem" where
  "strlcpy m dst src n = fst (str_copy_loop (nat (n - 1)) m dst src)"

definition buf_append :: "umem \<Rightarrow> u32 \<Rightarrow> int \<Rightarrow> int \<Rightarrow> u32 \<Rightarrow> int \<times> umem" where
  "buf_append m buf pos mx s =
     (let (m', c) = str_copy_loop (nat (mx - 1 - pos)) m (buf + word_of_int pos) s in (pos + int c, m'))"

text \<open>\<open>while (dst[i] && i < n) i++\<close>\<close>

fun strnlen_loop :: "nat \<Rightarrow> umem \<Rightarrow> u32 \<Rightarrow> nat" where
  "strnlen_loop 0 m d = 0"
| "strnlen_loop (Suc k) m d = (if m d \<noteq> 0 then Suc (strnlen_loop k m (d + 1)) else 0)"

definition strlcat :: "umem \<Rightarrow> u32 \<Rightarrow> u32 \<Rightarrow> int \<Rightarrow> umem" where
  "strlcat m dst src n =
     (let pos = strnlen_loop (nat n) m dst
      in fst (str_copy_loop (nat (n - 1 - int pos)) m (dst + word_of_nat pos) src))"

section \<open>C strings in memory\<close>

text \<open>\<open>cstr_at m a s\<close>: at address \<open>a\<close> the memory holds the string \<open>s\<close> and its terminator.\<close>

definition cstr_at :: "umem \<Rightarrow> u32 \<Rightarrow> bytes \<Rightarrow> bool" where
  "cstr_at m a s \<longleftrightarrow> mem_read m a (length s + 1) = s @ [0] \<and> 0 \<notin> set s \<and> length s < 2 ^ 31"

text \<open>The ranges of \<open>n\<close> bytes at \<open>a\<close> and of \<open>k\<close> bytes at \<open>b\<close> do not meet.\<close>

definition apart :: "u32 \<Rightarrow> nat \<Rightarrow> u32 \<Rightarrow> nat \<Rightarrow> bool" where
  "apart a n b k \<longleftrightarrow> (\<forall>i < n. \<forall>j < k. a + word_of_nat i \<noteq> b + word_of_nat j)"

lemma mem_read_Suc: "mem_read m a (Suc n) = m a # mem_read m (a + 1) n"
proof -
  have "[0..<Suc n] = 0 # map Suc [0..<n]" by (simp add: map_Suc_upt upt_conv_Cons)
  then show ?thesis by (simp add: mem_read_def algebra_simps comp_def del: upt_Suc)
qed

lemma cstr_at_Nil [simp]: "cstr_at m a [] \<longleftrightarrow> m a = 0"
  by (simp add: cstr_at_def mem_read_Suc)

lemma cstr_at_Cons [simp]:
  "cstr_at m a (c # s) \<longleftrightarrow> m a = c \<and> c \<noteq> 0 \<and> cstr_at m (a + 1) s \<and> length s + 1 < 2 ^ 31"
  by (auto simp: cstr_at_def mem_read_Suc)

lemma cstr_at_length: "cstr_at m a s \<Longrightarrow> length s < 2147483648"
  by (simp add: cstr_at_def)

lemma apart_Suc:
  "apart a (Suc n) b k \<Longrightarrow> apart (a + 1) n b k"
  unfolding apart_def
  by (metis (no_types, opaque_lifting) Suc_mono add.assoc of_nat_Suc)

lemma apart_Suc_right: "apart a n b (Suc k) \<Longrightarrow> apart a n (b + 1) k"
  unfolding apart_def
  by (metis (no_types, opaque_lifting) Suc_mono add.assoc of_nat_Suc)

lemma apart_0: "apart a (Suc n) b (Suc k) \<Longrightarrow> a \<noteq> b"
  unfolding apart_def by (metis add_0_right of_nat_0 zero_less_Suc)

lemma apartI:
  assumes "unat a + n \<le> 2 ^ 32" "unat b + k \<le> 2 ^ 32" "unat a + n \<le> unat b \<or> unat b + k \<le> unat a"
  shows "apart a n b k"
  unfolding apart_def
proof (intro allI impI notI)
  fix i j assume ij: "i < n" "j < k" and e: "a + word_of_nat i = b + word_of_nat j"
  have "unat (a + word_of_nat i) = unat a + i" "unat (b + word_of_nat j) = unat b + j"
    using assms(1,2) ij by (simp_all add: unat_add_nat32)
  then show False using assms(3) ij e by auto
qed

lemma mem_read_upd:
  assumes "apart a 1 b k"
  shows "mem_read (m(a := c)) b k = mem_read m b k"
  using assms by (intro nth_equalityI) (auto simp: apart_def)

lemma apart_le: "apart a n b k \<Longrightarrow> n' \<le> n \<Longrightarrow> k' \<le> k \<Longrightarrow> apart a n' b k'"
  unfolding apart_def by (meson order_less_le_trans)

lemma cstr_at_upd:
  assumes "cstr_at m b s" "apart a 1 b (length s + 1)"
  shows "cstr_at (m(a := c)) b s"
  using assms by (simp add: cstr_at_def mem_read_upd)

text \<open>Writing a list is writing its first byte and then the others.\<close>

lemma mem_write_Cons:
  assumes "length bs < 2 ^ 32"
  shows "mem_write m a (b # bs) = mem_write (m(a := b)) (a + 1) bs"
proof
  fix x
  have w: "unat (x - a) = Suc (unat (x - (a + 1)))" if "x \<noteq> a"
  proof -
    have e: "x - a = 1 + (x - (a + 1))" by simp
    then have "1 + (x - (a + 1)) \<noteq> 0" using that by simp
    then show ?thesis unfolding e by (rule unatSuc)
  qed
  show "mem_write m a (b # bs) x = mem_write (m(a := b)) (a + 1) bs x"
  proof (cases "x = a")
    case True
    have "unat (a - (a + 1)) = 2 ^ 32 - 1" by (simp add: unsigned_minus_1_eq_mask mask_eq_exp_minus_1)
    then show ?thesis using True assms by (simp add: mem_write_def)
  next
    case False
    then show ?thesis by (simp add: mem_write_def w[OF False])
  qed
qed

lemma mem_write_single [simp]: "mem_write m a [c] = m(a := c)"
  using mem_write_Cons[of "[]" m a c] by simp

lemma sint_inject [simp]: "sint v = sint w \<longleftrightarrow> v = w" for v w :: byte
  by (auto intro: signed_word_eqI)

lemma sint_eq_0 [simp]: "sint v = 0 \<longleftrightarrow> v = 0" for v :: byte
  using sint_inject[of v 0] by simp

section \<open>What the loops compute\<close>

lemma strlen_loop_cstr: "cstr_at m a s \<Longrightarrow> length s < k \<Longrightarrow> strlen_loop k m a = Some (length s)"
proof (induction s arbitrary: k a)
  case Nil
  then show ?case by (cases k) auto
next
  case (Cons c s)
  then show ?case by (cases k) auto
qed

lemma strlen_cstr: "cstr_at m a s \<Longrightarrow> strlen m a = Some (length s)"
  unfolding strlen_def by (rule strlen_loop_cstr) (auto simp: INT_ROUNDS_def dest: cstr_at_length)

text \<open>The difference at the first position where two strings differ.\<close>

fun str_diff :: "bytes \<Rightarrow> bytes \<Rightarrow> int" where
  "str_diff (x # xs) (y # ys) = (if x = y then str_diff xs ys else sint x - sint y)"
| "str_diff [] (y # ys) = - sint y"
| "str_diff (x # xs) [] = sint x"
| "str_diff [] [] = 0"

lemma str_diff_0: "0 \<notin> set xs \<Longrightarrow> 0 \<notin> set ys \<Longrightarrow> str_diff xs ys = 0 \<longleftrightarrow> xs = ys"
  by (induction xs ys rule: str_diff.induct) auto

lemma compare_loop_cstr:
  "cstr_at m a s \<Longrightarrow> cstr_at m b t \<Longrightarrow> length s < k \<Longrightarrow> compare_loop k m a b = Some (str_diff s t)"
proof (induction s t arbitrary: k a b rule: str_diff.induct)
  case (1 x xs y ys)
  then show ?case by (cases k) auto
next
  case (2 y ys)
  then show ?case by (cases k) auto
next
  case (3 x xs)
  then show ?case by (cases k) auto
next
  case 4
  then show ?case by (cases k) auto
qed

lemma strncmp_loop_cstr:
  "cstr_at m a s \<Longrightarrow> cstr_at m b t \<Longrightarrow> length s < k \<Longrightarrow>
     \<exists>a' b'. strncmp_loop k m a b = Some (a', b') \<and> sint (m a') - sint (m b') = str_diff s t"
proof (induction s t arbitrary: k a b rule: str_diff.induct)
  case (1 x xs y ys)
  then show ?case by (cases k) auto
next
  case (2 y ys)
  then show ?case by (cases k) auto
next
  case (3 x xs)
  then show ?case by (cases k) auto
next
  case 4
  then show ?case by (cases k) auto
qed

lemma memcmp_loop_0: "memcmp_loop k m p q = 0 \<longleftrightarrow> mem_read m p k = mem_read m q k"
  by (induction k arbitrary: p q) (auto simp: mem_read_Suc intro: word_uint_eqI)

lemma memset_loop_write: "k < 2 ^ 32 \<Longrightarrow> memset_loop k m p c = mem_write m p (replicate k c)"
  by (induction k arbitrary: m p) (simp_all add: mem_write_Cons)

lemma memcpy_loop_write:
  assumes "k < 2 ^ 32" "apart d k s k"
  shows "memcpy_loop k m d s = mem_write m d (mem_read m s k)"
  using assms
proof (induction k arbitrary: m d s)
  case (Suc k)
  have "apart d 1 (s + 1) k" using apart_Suc_right[OF Suc.prems(2)] by (rule apart_le) simp_all
  then have "mem_read (m(d := m s)) (s + 1) k = mem_read m (s + 1) k" by (rule mem_read_upd)
  then show ?case
    using Suc apart_Suc[OF apart_Suc_right] by (simp add: mem_read_Suc mem_write_Cons)
qed simp

lemma str_copy_loop_write:
  assumes "cstr_at m s str" "apart p (min k (length str) + 1) s (length str + 1)"
  shows "str_copy_loop k m p s = (mem_write m p (take k str @ [0]), min k (length str))"
  using assms
proof (induction k arbitrary: m p s str)
  case 0
  then show ?case by (simp add: fun_upd_def)
next
  case (Suc k)
  show ?case
  proof (cases str)
    case Nil
    then show ?thesis using Suc.prems by (simp add: fun_upd_def)
  next
    case (Cons c t)
    let ?m = "m(p := c)"
    have ap: "apart p (Suc (min k (length t) + 1)) s (Suc (length t + 1))" using Suc.prems(2) Cons by simp
    have "apart p 1 (s + 1) (length t + 1)" using apart_Suc_right[OF ap] by (rule apart_le) simp_all
    then have "cstr_at ?m (s + 1) t" using Suc.prems(1) Cons by (simp add: cstr_at_upd)
    then have "str_copy_loop k ?m (p + 1) (s + 1) = (mem_write ?m (p + 1) (take k t @ [0]), min k (length t))"
      using apart_Suc[OF apart_Suc_right[OF ap]] by (intro Suc.IH) (simp_all add: fun_upd_def)
    moreover have "length (take k t @ [0]) < 2 ^ 32"
      using cstr_at_length[OF Suc.prems(1)] Cons by simp
    ultimately show ?thesis using Suc.prems(1) Cons by (simp add: mem_write_Cons)
  qed
qed

lemma strnlen_loop_cstr: "cstr_at m a s \<Longrightarrow> strnlen_loop k m a = min k (length s)"
proof (induction s arbitrary: k a)
  case Nil
  then show ?case by (cases k) auto
next
  case (Cons c s)
  then show ?case by (cases k) auto
qed

text \<open>
  \<open>strlcat\<close> on a destination whose \<open>n\<close> bytes hold no terminator writes one past them.
\<close>

lemma strlcat_writes_past_buffer:
  assumes "\<forall>i < nat n. m (dst + word_of_nat i) \<noteq> 0" "0 \<le> n"
  shows "strlcat m dst src n = m(dst + word_of_nat (nat n) := 0)"
proof -
  have "strnlen_loop k m a = k" if "\<forall>i < k. m (a + word_of_nat i) \<noteq> 0" for k a
    using that
  proof (induction k arbitrary: a)
    case (Suc k)
    have "\<forall>i < k. m (a + 1 + word_of_nat i) \<noteq> 0"
      using Suc.prems by (metis Suc_mono add.assoc of_nat_Suc)
    then show ?case using Suc.IH Suc.prems[rule_format, of 0] by simp
  qed simp
  then show ?thesis using assms by (simp add: strlcat_def)
qed

section \<open>Properties\<close>

text \<open>
  String comparison decides equality. On two terminated strings \<open>strcmp\<close>, \<open>strncmp\<close> and
  \<open>streq\<close> return, the first two with the same value, the difference of the first characters that
  differ, which is 0 exactly when the strings are equal.
\<close>

theorem klib_string_compare:
  assumes "cstr_at m a s" "cstr_at m b t"
  shows "strcmp m a b = Some (str_diff s t) \<and> strncmp m a b = Some (str_diff s t) \<and>
    streq m a b = Some (s = t) \<and> (str_diff s t = 0 \<longleftrightarrow> s = t)"
proof -
  have z: "str_diff s t = 0 \<longleftrightarrow> s = t" using assms by (intro str_diff_0) (simp_all add: cstr_at_def)
  have l: "length s < 2 ^ 31" using cstr_at_length[OF assms(1)] by simp
  obtain a' b' where p: "strncmp_loop ADDR_ROUNDS m a b = Some (a', b')" "sint (m a') - sint (m b') = str_diff s t"
    using strncmp_loop_cstr[OF assms, of ADDR_ROUNDS] l by (auto simp: ADDR_ROUNDS_def)
  have "m a' = m b' \<longleftrightarrow> str_diff s t = 0" unfolding p(2)[symmetric] by auto
  then show ?thesis
    using p z compare_loop_cstr[OF assms, of INT_ROUNDS] l
    by (simp add: strcmp_def compare_string_def strncmp_def streq_def INT_ROUNDS_def)
qed

lemma apart_tail:
  assumes "apart dst n src k" "l \<le> n"
  shows "apart (dst + word_of_nat l) (n - l) src k"
  unfolding apart_def
proof (intro allI impI)
  fix i j assume ij: "i < n - l" "j < k"
  then have "l + i < n" by simp
  then have "dst + word_of_nat (l + i) \<noteq> src + word_of_nat j" using assms(1) ij(2) unfolding apart_def by blast
  then show "dst + word_of_nat l + word_of_nat i \<noteq> src + word_of_nat j" by (simp add: add.assoc)
qed

text \<open>
  C36: The bounded copies are exact and stay in their buffer. For a buffer of \<open>n \<ge> 1\<close> bytes with any
  contents, apart from a terminated source string, \<open>strncpy\<close> and \<open>strlcpy\<close> write the first \<open>n - 1\<close>
  characters of the string and a terminator and nothing else. When the buffer holds a terminated
  string, \<open>strlcat\<close> makes it the first \<open>n - 1\<close> characters of the concatenation.
\<close>

theorem klib_bounded_copies:
  assumes "cstr_at m src s" "0 < n" "apart dst (nat n) src (length s + 1)"
  shows "strlcpy m dst src n = mem_write m dst (take (nat n - 1) s @ [0]) \<and>
    strncpy m dst src n = mem_write m dst (take (nat n - 1) s @ [0]) \<and>
    (\<forall>d. cstr_at m dst d \<and> length d < nat n \<longrightarrow>
       strlcat m dst src n = mem_write m (dst + word_of_nat (length d)) (take (nat n - 1 - length d) s @ [0]))"
proof -
  have "apart dst (min (nat n - 1) (length s) + 1) src (length s + 1)"
    using assms(3) by (rule apart_le) (use assms(2) in auto)
  note w = str_copy_loop_write[OF assms(1) this]
  have "strlcat m dst src n = mem_write m (dst + word_of_nat (length d)) (take (nat n - 1 - length d) s @ [0])"
    if d: "cstr_at m dst d" "length d < nat n" for d
  proof -
    have k: "nat (n - 1 - int (length d)) = nat n - 1 - length d" using assms(2) by simp
    have "apart (dst + word_of_nat (length d)) (nat n - length d) src (length s + 1)" using assms(3) d(2) by (intro apart_tail) simp_all
    then have "apart (dst + word_of_nat (length d)) (min (nat n - 1 - length d) (length s) + 1) src (length s + 1)"
      by (rule apart_le) (use assms(2) d(2) in auto)
    moreover have "strnlen_loop (nat n) m dst = length d" using strnlen_loop_cstr[OF d(1)] d(2) by simp
    ultimately show ?thesis using str_copy_loop_write[OF assms(1)] assms(2) by (simp add: strlcat_def Let_def k)
  qed
  moreover have "nat (n - 1) = nat n - 1" using assms(2) by simp
  ultimately show ?thesis using w by (simp add: strlcpy_def strncpy_def Let_def)
qed

text \<open>A memory with \<open>ab\<close> at address 16, \<open>abc\<close> at 32 and zeros elsewhere.\<close>

definition kstr_example :: umem where
  "kstr_example = mem_write (mem_write (\<lambda>_. 0) 16 [97, 98]) 32 [97, 98, 99]"

lemma kstr_example_cstr:
  "cstr_at kstr_example 16 [97, 98]" "cstr_at kstr_example 32 [97, 98, 99]" "cstr_at kstr_example 64 []"
  by (simp_all add: kstr_example_def mem_write_def)

theorem klib_string_compare_witness:
  "strcmp kstr_example 16 32 = Some (- 99) \<and> streq kstr_example 16 32 = Some False"
  using klib_string_compare[OF kstr_example_cstr(1,2)] by simp

lemma kstr_example_apart: "apart 64 3 32 (Suc (Suc (Suc (Suc 0))))"
  by (rule apartI) simp_all

theorem klib_bounded_copies_witness:
  "strlcpy kstr_example 64 32 3 = mem_write kstr_example 64 [97, 98, 0]"
  using klib_bounded_copies[OF kstr_example_cstr(2), of 3 64] kstr_example_apart by simp

end
