(* ===== verification/Kprintf.thy ===== *)
theory Kprintf
  imports Kstring
begin

text \<open>
  Number conversion and formatted output of \<open>Cact/kernel/core/klib.c\<close>: \<open>itoa\<close>, \<open>atoi\<close>,
  \<open>hex_to_ascii\<close> and \<open>vsnprintf\<close>.

  The arguments of \<open>vsnprintf\<close> are the 32-bit words after the format on the stack, so an \<open>int\<close>, a
  \<open>long\<close> and a pointer take one word and a \<open>long long\<close> takes two; \<open>ap\<close> is the position of the
  next one. The format is the list of the bytes from its address on, the terminator and what
  follows it included; running off the list is the value \<open>None\<close>, as is a \<open>%s\<close> argument without
  a terminator. String arguments are read from the memory before the call: the output buffer does
  not overlap them. The value returned is the difference of two pointers into the buffer, which is an
  \<open>int\<close> when the buffer has at most 2 GiB.
\<close>

section \<open>Digits\<close>

text \<open>\<open>do { tmp[n++] = digit(v % b); v /= b; } while (v)\<close>, for the bases 8, 10 and 16.\<close>

function num_digits :: "(nat \<Rightarrow> byte) \<Rightarrow> nat \<Rightarrow> nat \<Rightarrow> bytes" where
  "num_digits f b v = f (v mod b) # (if b \<le> 1 \<or> v div b = 0 then [] else num_digits f b (v div b))"
  by pat_completeness auto
termination
  by (relation "measure (\<lambda>(f, b, v). v)") (auto intro!: div_less_dividend gr0I simp: not_le)

declare num_digits.simps [simp del]

definition dig_dec :: "nat \<Rightarrow> byte" where "dig_dec d = word_of_nat d + 48"
definition dig_hex :: "byte \<Rightarrow> nat \<Rightarrow> byte" where
  "dig_hex a d = (if d < 10 then word_of_nat d + 48 else word_of_nat (d - 10) + a)"

text \<open>The exchange loop of \<open>itoa\<close> from the outer positions \<open>j\<close> and \<open>k\<close> inwards.\<close>

function rev_loop :: "bytes \<Rightarrow> nat \<Rightarrow> nat \<Rightarrow> bytes" where
  "rev_loop xs j k = (if j < k then rev_loop (xs[j := xs ! k, k := xs ! j]) (j + 1) (k - 1) else xs)"
  by pat_completeness auto
termination
  by (relation "measure (\<lambda>(xs, j, k). k - j)") auto

declare rev_loop.simps [simp del]

text \<open>The value is the array \<open>str\<close> up to its terminator.\<close>

definition itoa :: "u32 \<Rightarrow> bytes" where
  "itoa n =
     (let sign = sint n < 0;
          un = (if sign then unat (- n) else unat n);
          s = num_digits dig_dec 10 un @ (if sign then [45] else [])
      in rev_loop s 0 (length s - 1) @ [0])"

text \<open>The \<open>int\<close> arithmetic wraps, as the machine's does.\<close>

fun atoi_loop :: "nat \<Rightarrow> umem \<Rightarrow> u32 \<Rightarrow> u32 \<Rightarrow> u32 option" where
  "atoi_loop 0 m s res = None"
| "atoi_loop (Suc k) m s res =
     (if m s = 0 then Some res
      else if sint (m s) < 48 \<or> sint (m s) > 57 then Some res
      else atoi_loop k m (s + 1) (res * 10 + ucast (m s) - 48))"

definition atoi :: "umem \<Rightarrow> u32 \<Rightarrow> u32 option" where
  "atoi m str =
     (if m str = 45 then map_option uminus (atoi_loop INT_ROUNDS m (str + 1) 0)
      else atoi_loop INT_ROUNDS m str 0)"

definition hex_to_ascii :: "u32 \<Rightarrow> bytes" where
  "hex_to_ascii n =
     [48, 120] @ map (\<lambda>i. let nibble = drop_bit (i * 4) n AND 0x0F in
        if nibble < 10 then ucast nibble + 48 else ucast (nibble - 10) + 65) [7, 6, 5, 4, 3, 2, 1, 0] @ [0]"

definition buf_append_int :: "umem \<Rightarrow> u32 \<Rightarrow> u32 \<Rightarrow> int \<Rightarrow> int \<Rightarrow> u32 \<Rightarrow> int \<times> umem" where
  "buf_append_int m tmp buf pos mx n = buf_append (mem_write m tmp (itoa n)) buf pos mx tmp"

section \<open>Conversion specifications\<close>

definition wrap32 :: "int \<Rightarrow> int" where "wrap32 x = sint (word_of_int x :: u32)"

record vs_spec =
  vs_left :: bool
  vs_plus :: bool
  vs_space :: bool
  vs_zero :: bool
  vs_alt :: bool
  vs_width :: int
  vs_prec :: int
  vs_lng :: nat

definition vs_spec0 :: vs_spec where
  "vs_spec0 = \<lparr> vs_left = False, vs_plus = False, vs_space = False, vs_zero = False, vs_alt = False,
     vs_width = 0, vs_prec = -1, vs_lng = 0 \<rparr>"

fun vs_flags :: "bytes \<Rightarrow> vs_spec \<Rightarrow> vs_spec \<times> bytes" where
  "vs_flags [] sp = (sp, [])"
| "vs_flags (c # f) sp =
     (if c = 45 then vs_flags f (sp\<lparr> vs_left := True \<rparr>)
      else if c = 43 then vs_flags f (sp\<lparr> vs_plus := True \<rparr>)
      else if c = 32 then vs_flags f (sp\<lparr> vs_space := True \<rparr>)
      else if c = 48 then vs_flags f (sp\<lparr> vs_zero := True \<rparr>)
      else if c = 35 then vs_flags f (sp\<lparr> vs_alt := True \<rparr>)
      else (sp, c # f))"

fun vs_number :: "int \<Rightarrow> bytes \<Rightarrow> int \<times> bytes" where
  "vs_number w [] = (w, [])"
| "vs_number w (c # f) =
     (if 48 \<le> sint c \<and> sint c \<le> 57 then vs_number (wrap32 (w * 10 + (sint c - 48))) f else (w, c # f))"

definition vs_get_width :: "(nat \<Rightarrow> u32) \<Rightarrow> bytes \<Rightarrow> nat \<Rightarrow> int \<times> bytes \<times> nat" where
  "vs_get_width va f ap =
     (case vs_number 0 f of (w, []) \<Rightarrow> (w, [], ap)
      | (w, c # f') \<Rightarrow> if c = 42 then (sint (va ap), f', ap + 1) else (w, c # f', ap))"

definition vs_get_prec :: "(nat \<Rightarrow> u32) \<Rightarrow> bytes \<Rightarrow> nat \<Rightarrow> int \<times> bytes \<times> nat" where
  "vs_get_prec va f ap =
     (case f of [] \<Rightarrow> (-1, [], ap)
      | c # f1 \<Rightarrow> if c \<noteq> 46 then (-1, c # f1, ap)
        else (case f1 of [] \<Rightarrow> (0, [], ap)
              | d # f2 \<Rightarrow> if d = 42 then (if sint (va ap) < 0 then -1 else sint (va ap), f2, ap + 1)
                else let (p, f3) = vs_number 0 (d # f2) in (p, f3, ap)))"

fun vs_length :: "nat \<Rightarrow> bytes \<Rightarrow> nat \<times> bytes" where
  "vs_length l [] = (l, [])"
| "vs_length l (c # f) =
     (if c = 108 then vs_length (l + 1) f
      else if c = 122 \<or> c = 116 then vs_length 1 f
      else (l, c # f))"

definition vs_parse :: "(nat \<Rightarrow> u32) \<Rightarrow> bytes \<Rightarrow> nat \<Rightarrow> vs_spec \<times> bytes \<times> nat" where
  "vs_parse va f ap =
     (let (sp, f1) = vs_flags f vs_spec0;
          (w, f2, ap2) = vs_get_width va f1 ap;
          (p, f3, ap3) = vs_get_prec va f2 ap2;
          (l, f4) = vs_length 0 f3
      in (sp\<lparr> vs_width := w, vs_prec := p, vs_lng := l \<rparr>, f4, ap3))"

section \<open>Conversions\<close>

text \<open>\<open>va_arg\<close> for the unsigned and the signed integer types.\<close>

definition va_unsigned :: "nat \<Rightarrow> (nat \<Rightarrow> u32) \<Rightarrow> nat \<Rightarrow> nat \<times> nat" where
  "va_unsigned lng va ap =
     (if lng \<ge> 2 then (unat (va ap) + 2 ^ 32 * unat (va (ap + 1)), ap + 2) else (unat (va ap), ap + 1))"

definition va_signed :: "nat \<Rightarrow> (nat \<Rightarrow> u32) \<Rightarrow> nat \<Rightarrow> int \<times> nat" where
  "va_signed lng va ap =
     (if lng \<ge> 2 then (sint (word_of_nat (fst (va_unsigned lng va ap)) :: u64), ap + 2)
      else (sint (va ap), ap + 1))"

text \<open>A converted number: the digits, least significant first, the sign, the prefix and the fill character.\<close>

record vs_num =
  vn_tmp :: bytes
  vn_sign :: bytes
  vn_pfx :: bytes
  vn_fill :: byte

definition vs_convert :: "byte \<Rightarrow> vs_spec \<Rightarrow> (nat \<Rightarrow> u32) \<Rightarrow> nat \<Rightarrow> (vs_num \<times> nat) option" where
  "vs_convert c sp va ap =
     (let fill = (if vs_zero sp then 48 else 32); lng = vs_lng sp;
          (v, ap') = va_unsigned lng va ap in
      if c = 100 \<or> c = 105 then
        (let (v, ap') = va_signed lng va ap;
             sign = (if v < 0 then [45] else if vs_plus sp then [43] else if vs_space sp then [32] else [])
         in Some (\<lparr> vn_tmp = num_digits dig_dec 10 (nat \<bar>v\<bar>), vn_sign = sign, vn_pfx = [], vn_fill = fill \<rparr>, ap'))
      else if c = 117 then
        Some (\<lparr> vn_tmp = num_digits dig_dec 10 v, vn_sign = [], vn_pfx = [], vn_fill = fill \<rparr>, ap')
      else if c = 111 then
        (let tmp = num_digits dig_dec 8 v in
         Some (\<lparr> vn_tmp = tmp @ (if vs_alt sp \<and> last tmp \<noteq> 48 then [48] else []),
                 vn_sign = [], vn_pfx = [], vn_fill = fill \<rparr>, ap'))
      else if c = 120 \<or> c = 88 then
        Some (\<lparr> vn_tmp = num_digits (dig_hex (if c = 120 then 97 else 65)) 16 v, vn_sign = [],
                vn_pfx = (if vs_alt sp \<and> v \<noteq> 0 then [48, c] else []), vn_fill = fill \<rparr>, ap')
      else if c = 112 then
        Some (\<lparr> vn_tmp = num_digits (dig_hex 97) 16 (unat (va ap)) @ [120, 48],
                vn_sign = [], vn_pfx = [], vn_fill = 32 \<rparr>, ap + 1)
      else None)"

text \<open>The precision as a least number of digits; \<open>tmp\<close> has 32 bytes and at most 31 are used.\<close>

definition vs_precision :: "byte \<Rightarrow> vs_spec \<Rightarrow> vs_num \<Rightarrow> vs_num" where
  "vs_precision c sp n =
     (if vs_prec sp \<ge> 0 \<and> c \<noteq> 112 then
        (let tmp = (if vs_prec sp = 0 \<and> vn_tmp n = [48] \<and> \<not> (vs_alt sp \<and> c = 111) then [] else vn_tmp n)
         in n\<lparr> vn_fill := 32, vn_tmp := tmp @ replicate (min (nat (vs_prec sp)) 31 - length tmp) 48 \<rparr>)
      else n)"

definition vs_layout :: "vs_spec \<Rightarrow> vs_num \<Rightarrow> bytes" where
  "vs_layout sp n =
     (let pad = nat (vs_width sp - int (length (vn_tmp n)) - int (length (vn_sign n)) - int (length (vn_pfx n))) in
      (if \<not> vs_left sp then
         (if vn_fill n = 48 then vn_sign n @ vn_pfx n @ replicate pad 48
          else replicate pad 32 @ vn_sign n @ vn_pfx n)
       else vn_sign n @ vn_pfx n) @
      rev (vn_tmp n) @ (if vs_left sp then replicate pad 32 else []))"

text \<open>\<open>while (s[len] && (prec < 0 || len < prec)) len++\<close>\<close>

fun vs_strlen :: "nat \<Rightarrow> umem \<Rightarrow> u32 \<Rightarrow> int \<Rightarrow> nat \<Rightarrow> nat option" where
  "vs_strlen 0 m s prec len = None"
| "vs_strlen (Suc k) m s prec len =
     (if m (s + word_of_nat len) \<noteq> 0 \<and> (prec < 0 \<or> int len < prec) then vs_strlen k m s prec (len + 1)
      else Some len)"

definition vs_string :: "umem \<Rightarrow> vs_spec \<Rightarrow> u32 \<Rightarrow> bytes option" where
  "vs_string m sp s =
     (let txt = (if s = 0 then Some (if vs_prec sp < 0 then cs ''(null)'' else take (nat (vs_prec sp)) (cs ''(null)''))
                 else map_option (mem_read m s) (vs_strlen INT_ROUNDS m s (vs_prec sp) 0))
      in map_option (\<lambda>t. let pad = replicate (nat (vs_width sp - int (length t))) 32
                         in if vs_left sp then t @ pad else pad @ t) txt)"

definition vs_char :: "vs_spec \<Rightarrow> u32 \<Rightarrow> bytes" where
  "vs_char sp w = (let pad = replicate (nat (vs_width sp - 1)) 32
     in if vs_left sp then ucast w # pad else pad @ [ucast w])"

text \<open>One directive after its \<open>%\<close>: its text, the format after it and the next argument.\<close>

definition vs_directive :: "umem \<Rightarrow> (nat \<Rightarrow> u32) \<Rightarrow> bytes \<Rightarrow> nat \<Rightarrow> (bytes \<times> bytes \<times> nat) option" where
  "vs_directive m va f ap =
     (let (sp, f1, ap1) = vs_parse va f ap in
      case f1 of [] \<Rightarrow> None
      | c # f2 \<Rightarrow>
         (if c = 115 then map_option (\<lambda>t. (t, f2, ap1 + 1)) (vs_string m sp (va ap1))
          else if c = 99 then Some (vs_char sp (va ap1), f2, ap1 + 1)
          else case vs_convert c sp va ap1 of
            None \<Rightarrow> Some ([], f2, ap1)
          | Some (n, ap2) \<Rightarrow> Some (vs_layout sp (vs_precision c sp n), f2, ap2)))"

lemma length_vs_flags: "length (snd (vs_flags f sp)) \<le> length f"
  by (induction f sp rule: vs_flags.induct) auto

lemma length_vs_number: "length (snd (vs_number w f)) \<le> length f"
  by (induction w f rule: vs_number.induct) auto

lemma length_vs_length: "length (snd (vs_length l f)) \<le> length f"
  by (induction l f rule: vs_length.induct) auto

lemma length_vs_get_width: "vs_get_width va f ap = (w, f', ap') \<Longrightarrow> length f' \<le> length f"
  using length_vs_number[of 0 f] by (auto simp: vs_get_width_def split: prod.splits list.splits if_splits)

lemma length_vs_get_prec: "vs_get_prec va f ap = (w, f', ap') \<Longrightarrow> length f' \<le> length f"
  unfolding vs_get_prec_def
  by (auto split: list.splits if_splits prod.splits) (metis length_vs_number snd_conv le_SucI length_Cons)+

lemma length_vs_parse: "vs_parse va f ap = (sp, f', ap') \<Longrightarrow> length f' \<le> length f"
proof -
  assume p: "vs_parse va f ap = (sp, f', ap')"
  obtain s1 f1 where 1: "vs_flags f vs_spec0 = (s1, f1)" by fastforce
  obtain w f2 a2 where 2: "vs_get_width va f1 ap = (w, f2, a2)" by (metis prod_cases3)
  obtain q f3 a3 where 3: "vs_get_prec va f2 a2 = (q, f3, a3)" by (metis prod_cases3)
  obtain l f4 where 4: "vs_length 0 f3 = (l, f4)" by fastforce
  have "f4 = f'" using p by (simp add: vs_parse_def 1 2 3 4)
  then show ?thesis
    using length_vs_flags[of f vs_spec0] length_vs_get_width[OF 2] length_vs_get_prec[OF 3] length_vs_length[of 0 f3]
    by (simp add: 1 4)
qed

lemma length_vs_directive:
  "vs_directive m va f ap = Some (t, f', ap') \<Longrightarrow> length f' < length f"
  unfolding vs_directive_def
  by (auto split: prod.splits list.splits if_splits option.splits dest!: length_vs_parse)

section \<open>Output\<close>

text \<open>The characters written so far and \<open>remaining\<close>, the room left with the place of the terminator.\<close>

definition vs_emit :: "byte \<Rightarrow> bytes \<times> nat \<Rightarrow> bytes \<times> nat" where
  "vs_emit c st = (let (out, remaining) = st in if remaining > 1 then (out @ [c], remaining - 1) else st)"

function vs_loop :: "umem \<Rightarrow> (nat \<Rightarrow> u32) \<Rightarrow> bytes \<Rightarrow> nat \<Rightarrow> bytes \<times> nat \<Rightarrow> (bytes \<times> nat) option" where
  "vs_loop m va fmt ap st =
     (case fmt of [] \<Rightarrow> None
      | c # f \<Rightarrow>
         if c = 0 then Some st
         else if c \<noteq> 37 then vs_loop m va f ap (vs_emit c st)
         else (case f of [] \<Rightarrow> None
           | d # f1 \<Rightarrow>
              if d = 37 then vs_loop m va f1 ap (vs_emit 37 st)
              else (case vs_directive m va (d # f1) ap of None \<Rightarrow> None
                | Some (txt, f2, ap2) \<Rightarrow> vs_loop m va f2 ap2 (fold vs_emit txt st))))"
  by pat_completeness auto
termination
  by (relation "measure (\<lambda>(m, va, fmt, ap, st). length fmt)") (auto dest!: length_vs_directive)

declare vs_loop.simps [simp del]

definition vsnprintf :: "umem \<Rightarrow> u32 \<Rightarrow> u32 \<Rightarrow> bytes \<Rightarrow> (nat \<Rightarrow> u32) \<Rightarrow> (int \<times> umem) option" where
  "vsnprintf m buf sz fmt va =
     (case vs_loop m va fmt 0 ([], unat sz) of None \<Rightarrow> None
      | Some (out, remaining) \<Rightarrow>
         (let m1 = mem_write m buf out in
          Some (int (length out),
            if remaining > 0 then m1(buf + word_of_nat (length out) := 0)
            else if sz > 0 then m1(buf + sz - 1 := 0) else m1)))"

definition snprintf :: "umem \<Rightarrow> u32 \<Rightarrow> u32 \<Rightarrow> bytes \<Rightarrow> (nat \<Rightarrow> u32) \<Rightarrow> (int \<times> umem) option" where
  "snprintf m buf sz fmt va = vsnprintf m buf sz fmt va"

section \<open>The text without a size limit\<close>

function vs_full :: "umem \<Rightarrow> (nat \<Rightarrow> u32) \<Rightarrow> bytes \<Rightarrow> nat \<Rightarrow> bytes option" where
  "vs_full m va fmt ap =
     (case fmt of [] \<Rightarrow> None
      | c # f \<Rightarrow>
         if c = 0 then Some []
         else if c \<noteq> 37 then map_option (Cons c) (vs_full m va f ap)
         else (case f of [] \<Rightarrow> None
           | d # f1 \<Rightarrow>
              if d = 37 then map_option (Cons 37) (vs_full m va f1 ap)
              else (case vs_directive m va (d # f1) ap of None \<Rightarrow> None
                | Some (txt, f2, ap2) \<Rightarrow> map_option (append txt) (vs_full m va f2 ap2))))"
  by pat_completeness auto
termination
  by (relation "measure (\<lambda>(m, va, fmt, ap). length fmt)") (auto dest!: length_vs_directive)

declare vs_full.simps [simp del]

lemma vs_emit_simps [simp]:
  "vs_emit c (out, Suc (Suc q)) = (out @ [c], Suc q)"
  "r \<le> 1 \<Longrightarrow> vs_emit c (out, r) = (out, r)"
  by (simp_all add: vs_emit_def)

lemma fold_vs_emit:
  "fold vs_emit xs (out, r) = (out @ take (r - 1) xs, r - min (r - 1) (length xs))"
proof (induction xs arbitrary: out r)
  case (Cons c xs)
  show ?case
  proof (cases "r > 1")
    case True
    then obtain q where "r = Suc (Suc q)" using that[of "r - 2"] by simp
    then show ?thesis by (simp add: Cons)
  next
    case False
    then show ?thesis by (simp add: Cons)
  qed
qed simp

lemma vs_loop_eqs [simp]:
  "vs_loop m va [] ap st = None"
  "vs_loop m va (0 # f) ap st = Some st"
  "c \<noteq> 0 \<Longrightarrow> c \<noteq> 37 \<Longrightarrow> vs_loop m va (c # f) ap st = vs_loop m va f ap (vs_emit c st)"
  "vs_loop m va [37] ap st = None"
  "vs_loop m va (37 # 37 # f) ap st = vs_loop m va f ap (vs_emit 37 st)"
  "d \<noteq> 37 \<Longrightarrow> vs_loop m va (37 # d # f) ap st = (case vs_directive m va (d # f) ap of None \<Rightarrow> None
     | Some (txt, f2, ap2) \<Rightarrow> vs_loop m va f2 ap2 (fold vs_emit txt st))"
  by (subst vs_loop.simps, simp)+

lemma vs_full_eqs [simp]:
  "vs_full m va [] ap = None"
  "vs_full m va (0 # f) ap = Some []"
  "c \<noteq> 0 \<Longrightarrow> c \<noteq> 37 \<Longrightarrow> vs_full m va (c # f) ap = map_option (Cons c) (vs_full m va f ap)"
  "vs_full m va [37] ap = None"
  "vs_full m va (37 # 37 # f) ap = map_option (Cons 37) (vs_full m va f ap)"
  "d \<noteq> 37 \<Longrightarrow> vs_full m va (37 # d # f) ap = (case vs_directive m va (d # f) ap of None \<Rightarrow> None
     | Some (txt, f2, ap2) \<Rightarrow> map_option (append txt) (vs_full m va f2 ap2))"
  by (subst vs_full.simps, simp)+

lemma vs_loop_full:
  "vs_loop m va fmt ap st = map_option (\<lambda>t. fold vs_emit t st) (vs_full m va fmt ap)"
proof (induction m va fmt ap st rule: vs_loop.induct)
  case (1 m va fmt ap st)
  consider "fmt = []" | f where "fmt = 0 # f" | c f where "fmt = c # f" "c \<noteq> 0" "c \<noteq> 37"
    | "fmt = [37]" | f where "fmt = 37 # 37 # f" | d f where "fmt = 37 # d # f" "d \<noteq> 37"
    by (metis list.exhaust)
  then show ?case
  proof cases
    case (3 c f)
    then show ?thesis using 1(1)[of c f] by (simp add: option.map_comp comp_def)
  next
    case (5 f)
    then show ?thesis using 1(2)[of 37 "37 # f" 37 f] by (simp add: option.map_comp comp_def)
  next
    case (6 d f)
    then show ?thesis
      using 1(3)[of 37 "d # f" d f]
      by (auto simp: option.map_comp comp_def split: option.splits)
  qed simp_all
qed

section \<open>Correctness of the number conversions\<close>

text \<open>The value of a list of digits, least significant first.\<close>

fun digits_val :: "nat \<Rightarrow> nat list \<Rightarrow> nat" where
  "digits_val b [] = 0"
| "digits_val b (d # ds) = d + b * digits_val b ds"

function nat_digits :: "nat \<Rightarrow> nat \<Rightarrow> nat list" where
  "nat_digits b v = v mod b # (if b \<le> 1 \<or> v div b = 0 then [] else nat_digits b (v div b))"
  by pat_completeness auto
termination
  by (relation "measure (\<lambda>(b, v). v)") (auto intro!: div_less_dividend gr0I simp: not_le)

declare nat_digits.simps [simp del]

lemma num_digits_map: "num_digits f b v = map f (nat_digits b v)"
  by (induction b v rule: nat_digits.induct) (subst num_digits.simps, subst nat_digits.simps, simp)

lemma digits_val_nat_digits: "1 < b \<Longrightarrow> digits_val b (nat_digits b v) = v"
  by (induction b v rule: nat_digits.induct) (subst nat_digits.simps, auto simp: div_eq_0_iff)

lemma nat_digits_less: "0 < b \<Longrightarrow> d \<in> set (nat_digits b v) \<Longrightarrow> d < b"
  by (induction b v rule: nat_digits.induct) (subst (asm) (2) nat_digits.simps, auto split: if_splits)

lemma length_nat_digits: "1 < b \<Longrightarrow> v < b ^ n \<Longrightarrow> 0 < n \<Longrightarrow> length (nat_digits b v) \<le> n"
proof (induction b v arbitrary: n rule: nat_digits.induct)
  case (1 b v)
  show ?case
  proof (cases "v div b = 0")
    case True
    then show ?thesis using 1 by (subst nat_digits.simps) simp
  next
    case False
    then have "n \<noteq> 1" using 1(2,3) by (auto simp: div_eq_0_iff)
    then obtain k where k: "n = Suc k" "0 < k" using 1(4) that[of "n - 1"] by simp
    have "v div b < b ^ k" using 1(2,3) k by (simp add: less_mult_imp_div_less mult.commute)
    then show ?thesis using 1 False k by (subst nat_digits.simps) simp
  qed
qed

lemma rev_loop_nth:
  assumes "k < length xs"
  shows "length (rev_loop xs j k) = length xs \<and>
    (\<forall>i < length xs. rev_loop xs j k ! i = (if j \<le> i \<and> i \<le> k then xs ! (j + k - i) else xs ! i))"
  using assms
proof (induction xs j k rule: rev_loop.induct)
  case (1 xs j k)
  show ?case
  proof (cases "j < k")
    case True
    let ?ys = "xs[j := xs ! k, k := xs ! j]"
    have IH: "length (rev_loop ?ys (j + 1) (k - 1)) = length ?ys"
      "\<forall>i < length ?ys. rev_loop ?ys (j + 1) (k - 1) ! i =
        (if j + 1 \<le> i \<and> i \<le> k - 1 then ?ys ! (j + 1 + (k - 1) - i) else ?ys ! i)"
      using 1(1)[OF True] 1(2) by simp_all
    have e: "rev_loop xs j k = rev_loop ?ys (j + 1) (k - 1)" using True by (subst rev_loop.simps) simp
    show ?thesis
      unfolding e using IH True 1(2) by (auto simp: nth_list_update)
  next
    case False
    then show ?thesis by (subst (1 2) rev_loop.simps) (auto intro!: arg_cong[where f = "nth xs"])
  qed
qed

lemma rev_loop_rev: "xs \<noteq> [] \<Longrightarrow> rev_loop xs 0 (length xs - 1) = rev xs"
  using rev_loop_nth[of "length xs - 1" xs 0] by (intro nth_equalityI) (auto simp: rev_nth)

lemma num_digits_not_Nil [simp]: "num_digits f b v \<noteq> []"
  by (subst num_digits.simps) simp

lemma uint_of_int32: "0 \<le> x \<Longrightarrow> x < 2 ^ 32 \<Longrightarrow> uint (word_of_int x :: u32) = x"
  by (simp add: uint_word_of_int_eq take_bit_int_eq_self)

lemma itoa_rev:
  "itoa n = (if sint n < 0 then [45] else []) @
     rev (num_digits dig_dec 10 (nat \<bar>sint n\<bar>)) @ [0]"
proof -
  have b: "- 2147483648 \<le> sint n" "sint n < 2147483648"
    using sint_greater_eq[of n] sint_lt[of n] by simp_all
  have "uint n = sint n" if "\<not> sint n < 0"
    using uint_of_int32[of "sint n"] that b by simp
  moreover have "uint (- n) = - sint n" if "sint n < 0"
    using uint_of_int32[of "- sint n"] that b by simp
  ultimately have u: "(if sint n < 0 then unat (- n) else unat n) = nat \<bar>sint n\<bar>"
    by (simp add: unat_eq_nat_uint)
  show ?thesis unfolding itoa_def Let_def u by (subst rev_loop_rev) simp_all
qed

lemma dig_dec_cases:
  assumes "d < 10"
  shows "dig_dec d \<noteq> 0" "\<not> (sint (dig_dec d) < 48 \<or> sint (dig_dec d) > 57)" "dig_dec d \<noteq> 45"
    "r * 10 + ucast (dig_dec d) - 48 = r * 10 + (word_of_nat d :: u32)"
proof -
  have "d \<in> {0, 1, 2, 3, 4, 5, 6, 7, 8, 9}" using assms by auto
  then show "dig_dec d \<noteq> 0" "\<not> (sint (dig_dec d) < 48 \<or> sint (dig_dec d) > 57)" "dig_dec d \<noteq> 45"
    "r * 10 + ucast (dig_dec d) - 48 = r * 10 + (word_of_nat d :: u32)"
    by (auto simp: dig_dec_def)
qed

lemma atoi_loop_digits:
  assumes "cstr_at m s (map dig_dec ds)" "\<forall>d \<in> set ds. d < 10" "length ds < k"
  shows "atoi_loop k m s r = Some (foldl (\<lambda>r d. r * 10 + word_of_nat d) r ds)"
  using assms
proof (induction ds arbitrary: k s r)
  case Nil
  then show ?case by (cases k) auto
next
  case (Cons d ds)
  then obtain k' where k: "k = Suc k'" by (cases k) auto
  have d: "d < 10" "m s = dig_dec d" using Cons.prems by auto
  show ?case
    unfolding k using Cons.IH[of "s + 1" k'] Cons.prems dig_dec_cases(1,2)[OF d(1)] d(2) k
    by (simp add: dig_dec_cases(4)[OF d(1)])
qed

lemma foldl_digits_val: "foldl (\<lambda>r d. r * 10 + word_of_nat d) 0 (rev ds) = (word_of_nat (digits_val 10 ds) :: u32)"
  by (induction ds) (simp_all add: algebra_simps)

lemma mem_write_snoc:
  assumes "length xs < 2 ^ 32"
  shows "mem_write m a (xs @ [c]) = (mem_write m a xs)(a + word_of_nat (length xs) := c)"
proof
  fix x
  have "unat (x - a) = length xs \<longleftrightarrow> x = a + word_of_nat (length xs)"
  proof
    assume "unat (x - a) = length xs"
    then have "word_of_nat (length xs) = x - a" using assms by (simp add: word_unat_eq_iff unat_of_nat32)
    then show "x = a + word_of_nat (length xs)" by simp
  next
    assume "x = a + word_of_nat (length xs)"
    then show "unat (x - a) = length xs" using assms by (simp add: unat_of_nat32)
  qed
  then show "mem_write m a (xs @ [c]) x = ((mem_write m a xs)(a + word_of_nat (length xs) := c)) x"
    by (auto simp: mem_write_def nth_append)
qed

lemma vsnprintf_full:
  "vsnprintf m buf sz fmt va = map_option (\<lambda>t. let out = take (unat sz - 1) t in
     (int (length out), if sz = 0 then m else mem_write m buf (out @ [0]))) (vs_full m va fmt 0)"
proof (cases "vs_full m va fmt 0")
  case None
  then show ?thesis by (simp add: vsnprintf_def vs_loop_full)
next
  case (Some t)
  let ?out = "take (unat sz - 1) t"
  have loop: "vs_loop m va fmt 0 ([], unat sz) = Some (?out, unat sz - min (unat sz - 1) (length t))"
    using Some by (simp add: vs_loop_full fold_vs_emit)
  show ?thesis
  proof (cases "sz = 0")
    case True
    then show ?thesis using loop Some by (simp add: vsnprintf_def)
  next
    case False
    then have p: "0 < unat sz" by (simp add: unat_gt_0)
    then have r: "unat sz - min (unat sz - 1) (length t) > 0" by linarith
    have "length ?out < 2 ^ 32" using unat_lt32[of sz] by simp
    from mem_write_snoc[OF this, of m buf 0] show ?thesis
      using loop r False Some unfolding vsnprintf_def Let_def by simp
  qed
qed

section \<open>Properties\<close>

text \<open>
  \<open>vsnprintf\<close> truncates and does nothing else. Whatever the format and the arguments, with a
  buffer of \<open>sz > 0\<close> bytes it leaves in it the first \<open>sz - 1\<close> characters of the text that the
  format denotes, and a terminator, and returns the number of characters stored; with \<open>sz = 0\<close> it
  stores nothing. It fails to return only where the unlimited text is undefined.
\<close>

theorem klib_vsnprintf_truncates:
  "vsnprintf m buf sz fmt va = map_option (\<lambda>t. let out = take (unat sz - 1) t in
     (int (length out), if sz = 0 then m else mem_write m buf (out @ [0]))) (vs_full m va fmt 0)"
  by (rule vsnprintf_full)

lemma length_num_digits: "1 < b \<Longrightarrow> v < b ^ n \<Longrightarrow> 0 < n \<Longrightarrow> length (num_digits f b v) \<le> n"
  by (simp add: num_digits_map length_nat_digits)

lemma va_unsigned_less: "fst (va_unsigned lng va ap) < 2 ^ 64"
  using unat_lt32[of "va ap"] unat_lt32[of "va (ap + 1)"] by (auto simp: va_unsigned_def)

lemma va_signed_abs: "nat \<bar>fst (va_signed lng va ap)\<bar> \<le> 2 ^ 63"
proof -
  let ?w = "word_of_nat (fst (va_unsigned lng va ap)) :: u64"
  have "\<bar>sint (va ap)\<bar> \<le> 2147483648" "\<bar>sint ?w\<bar> \<le> 9223372036854775808"
    using sint_greater_eq[of "va ap"] sint_lt[of "va ap"] sint_greater_eq[of ?w] sint_lt[of ?w] by simp_all
  then have "\<bar>fst (va_signed lng va ap)\<bar> \<le> 9223372036854775808" by (simp add: va_signed_def)
  then show ?thesis by (simp add: nat_le_iff)
qed

lemma vs_convert_tmp:
  assumes "vs_convert c sp va ap = Some (n, ap')"
  shows "length (vn_tmp n) \<le> 23"
proof -
  obtain v a1 where u: "va_unsigned (vs_lng sp) va ap = (v, a1)" by fastforce
  obtain i a2 where s: "va_signed (vs_lng sp) va ap = (i, a2)" by fastforce
  have v: "v < 2 ^ 64" using va_unsigned_less[of "vs_lng sp" va ap] u by simp
  have i: "nat \<bar>i\<bar> < 10 ^ 22" using va_signed_abs[of "vs_lng sp" va ap] s by simp
  have "length (num_digits f 10 v) \<le> 23" "length (num_digits f 8 v) \<le> 22" "length (num_digits f 16 v) \<le> 23"
    "length (num_digits f 10 (nat \<bar>i\<bar>)) \<le> 23" for f
    using v i by (intro length_num_digits; simp)+
  moreover have "length (num_digits f 16 (unat (va ap))) \<le> 21" for f
    using unat_lt32[of "va ap"] by (intro length_num_digits) simp_all
  moreover from calculation(2) have "length (num_digits f 8 v) \<le> 23" for f by (rule order_trans) simp
  ultimately show ?thesis
    using assms unfolding vs_convert_def u s Let_def
    by (auto split: if_splits)
qed

text \<open>
  C17: \<open>vsnprintf\<close> is memory safe. It changes no byte outside its \<open>sz\<close>-byte buffer, the value it
  returns is less than \<open>sz\<close> (or 0), and the 32-byte scratch array of a number conversion is never
  filled beyond 31 bytes, for any flags, width, precision and argument.
\<close>

theorem klib_vsnprintf_bounds:
  "(\<forall>r m'. vsnprintf m buf sz fmt va = Some (r, m') \<longrightarrow>
      0 \<le> r \<and> (r < int (unat sz) \<or> r = 0) \<and> (\<forall>x. m' x \<noteq> m x \<longrightarrow> unat (x - buf) < unat sz)) \<and>
   (\<forall>c sp ap n ap'. vs_convert c sp va ap = Some (n, ap') \<longrightarrow> length (vn_tmp (vs_precision c sp n)) \<le> 31)"
proof (intro conjI allI impI)
  fix r m' x
  assume "vsnprintf m buf sz fmt va = Some (r, m')"
  then obtain out rm where o: "vs_loop m va fmt 0 ([], unat sz) = Some (out, rm)" "r = int (length out)"
    by (auto simp: vsnprintf_def Let_def split: option.splits)
  then obtain t where t: "out = take (unat sz - 1) t" "rm = unat sz - min (unat sz - 1) (length t)"
    by (auto simp: vs_loop_full fold_vs_emit)
  have "length out \<le> unat sz - 1" using t(1) by simp
  then have "length out < unat sz \<or> length out = 0" by linarith
  then show "0 \<le> r" "r < int (unat sz) \<or> r = 0" unfolding o(2) by linarith+
  assume ch: "m' x \<noteq> m x"
  have "sz \<noteq> 0" using ch o t \<open>vsnprintf m buf sz fmt va = Some (r, m')\<close> by (auto simp: vsnprintf_def)
  then have p: "0 < unat sz" "rm > 0" using t(2) by (simp_all add: unat_gt_0 min_less_iff_disj)
  have l: "length out < unat sz" using t(1) p(1) by simp
  then have "length out < 2 ^ 32" using unat_lt32[of sz] by simp
  from mem_write_snoc[OF this, of m buf 0] have "m' = mem_write m buf (out @ [0])"
    using \<open>vsnprintf m buf sz fmt va = Some (r, m')\<close> o p(2) by (auto simp: vsnprintf_def Let_def)
  then show "unat (x - buf) < unat sz" using ch l by (auto simp: mem_write_def split: if_splits)
next
  fix c sp ap n ap'
  assume "vs_convert c sp va ap = Some (n, ap')"
  then have "length (vn_tmp n) \<le> 23" by (rule vs_convert_tmp)
  then show "length (vn_tmp (vs_precision c sp n)) \<le> 31" by (auto simp: vs_precision_def Let_def)
qed

lemma vs_full_d:
  "vs_full m va (37 # 100 # 0 # rest) 0 =
     Some ((if sint (va 0) < 0 then [45] else []) @ rev (num_digits dig_dec 10 (nat \<bar>sint (va 0)\<bar>)))"
  by (simp add: vs_directive_def vs_parse_def vs_get_width_def vs_get_prec_def vs_convert_def va_signed_def
      va_unsigned_def vs_spec0_def vs_precision_def vs_layout_def Let_def)

lemma dec_text:
  assumes "n < 10 ^ 10"
  shows "\<exists>ds. rev (num_digits dig_dec 10 n) = map dig_dec ds \<and> (\<forall>d \<in> set ds. d < 10) \<and> ds \<noteq> [] \<and>
    length ds \<le> 10 \<and> foldl (\<lambda>r d. r * 10 + word_of_nat d) 0 ds = (word_of_nat n :: u32)"
proof (intro exI conjI)
  let ?ds = "rev (nat_digits 10 n)"
  show "rev (num_digits dig_dec 10 n) = map dig_dec ?ds" by (simp add: num_digits_map rev_map)
  show "\<forall>d \<in> set ?ds. d < 10" using nat_digits_less[of 10 _ n] by auto
  show "?ds \<noteq> []" by (subst nat_digits.simps) simp
  show "length ?ds \<le> 10" using length_nat_digits[of 10 n 10] assms by simp
  show "foldl (\<lambda>r d. r * 10 + word_of_nat d) 0 ?ds = (word_of_nat n :: u32)"
    by (simp add: foldl_digits_val digits_val_nat_digits)
qed

lemma nat_abs_sint: "nat \<bar>sint n\<bar> < 10 ^ 10" for n :: u32
proof -
  have "\<bar>sint n\<bar> \<le> 2147483648" using sint_greater_eq[of n] sint_lt[of n] by simp
  then show ?thesis by (simp add: nat_less_iff)
qed

lemma length_itoa: "length (itoa n) \<le> 12"
  using length_num_digits[of 10 "nat \<bar>sint n\<bar>" 10 dig_dec] nat_abs_sint[of n]
  by (cases "sint n < 0") (simp_all add: itoa_rev)

lemma atoi_itoa:
  assumes "mem_read m a (length (itoa n)) = itoa n"
  shows "atoi m a = Some n"
proof -
  let ?k = "nat \<bar>sint n\<bar>"
  obtain ds where ds: "rev (num_digits dig_dec 10 ?k) = map dig_dec ds" "\<forall>d \<in> set ds. d < 10" "ds \<noteq> []"
      "length ds \<le> 10" "foldl (\<lambda>r d. r * 10 + word_of_nat d) 0 ds = (word_of_nat ?k :: u32)"
    using dec_text[OF nat_abs_sint[of n]] by auto
  have it: "itoa n = (if sint n < 0 then [45] else []) @ map dig_dec ds @ [0]" by (simp add: itoa_rev ds(1))
  have nz: "0 \<notin> set (map dig_dec ds)" using ds(2) dig_dec_cases(1) by fastforce
  have loop: "atoi_loop INT_ROUNDS m p 0 = Some (word_of_nat ?k)" if "cstr_at m p (map dig_dec ds)" for p
    using atoi_loop_digits[OF that ds(2), of INT_ROUNDS 0] ds(4,5) by (simp add: INT_ROUNDS_def)
  show "atoi m a = Some n"
  proof (cases "sint n < 0")
    case True
    then have "m a = 45 \<and> mem_read m (a + 1) (length ds + 1) = map dig_dec ds @ [0]"
      using assms by (simp add: it mem_read_Suc)
    then have "m a = 45" "cstr_at m (a + 1) (map dig_dec ds)" using nz ds(4) by (simp_all add: cstr_at_def)
    moreover have "- (word_of_nat ?k :: u32) = n" using True by (simp add: of_nat_nat)
    ultimately show ?thesis using loop by (simp add: atoi_def)
  next
    case False
    then have c: "cstr_at m a (map dig_dec ds)" using assms nz ds(4) by (simp add: it cstr_at_def)
    then have "m a \<noteq> 45" using ds(2,3) dig_dec_cases(3) by (cases ds) auto
    moreover have "(word_of_nat ?k :: u32) = n" using False by (simp add: of_nat_nat)
    ultimately show ?thesis using loop[OF c] by (simp add: atoi_def)
  qed
qed

text \<open>
  C37: Printing and reading an integer are inverse. For every 32-bit integer, \<open>snprintf\<close> with the
  format \<open>%d\<close> into a buffer of at least 12 bytes stores exactly the array that \<open>itoa\<close> makes, and
  \<open>atoi\<close> on the buffer gives the integer back, the most negative one included.
\<close>

theorem klib_int_roundtrip:
  assumes "12 \<le> unat sz"
  shows "\<exists>m'. snprintf m buf sz (cs ''%d'' @ 0 # rest) va = Some (int (length (itoa (va 0))) - 1, m') \<and>
    m' = mem_write m buf (itoa (va 0)) \<and> atoi m' buf = Some (va 0)"
proof -
  let ?n = "va 0" let ?t = "butlast (itoa ?n)"
  have it: "itoa ?n = ?t @ [0]" by (simp add: itoa_rev)
  have rd: "mem_read (mem_write m buf (itoa ?n)) buf (length (itoa ?n)) = itoa ?n"
    using length_itoa[of ?n] by (intro mem_read_write) simp
  have f: "vs_full m va (cs ''%d'' @ 0 # rest) 0 = Some ?t"
    using vs_full_d[of m va rest] by (simp add: cs_def itoa_rev butlast_append)
  have "take (unat sz - 1) ?t = ?t" using length_itoa[of ?n] assms by simp
  moreover have "sz \<noteq> 0" using assms by auto
  ultimately have "snprintf m buf sz (cs ''%d'' @ 0 # rest) va = Some (int (length ?t), mem_write m buf (itoa ?n))"
    using f it by (simp add: snprintf_def vsnprintf_full Let_def)
  moreover have "int (length ?t) = int (length (itoa ?n)) - 1" by (subst (2) it) simp
  ultimately show ?thesis using atoi_itoa[OF rd] by simp
qed

theorem klib_int_roundtrip_witness:
  "\<exists>m'. snprintf (\<lambda>_. 0) 0x1000 16 (cs ''%d'' @ [0]) (\<lambda>_. - 7) = Some (2, m') \<and> atoi m' 0x1000 = Some (- 7)"
proof -
  have "length (itoa (- 7)) = 3" by (simp add: itoa_rev num_digits.simps)
  then show ?thesis
    using klib_int_roundtrip[of 16 "\<lambda>_. 0" "0x1000" "[]" "\<lambda>_. - 7"] by auto
qed

theorem klib_vsnprintf_bounds_witness:
  "\<exists>m'. vsnprintf (\<lambda>_. 0) 0x1000 4 (cs ''hello'' @ [0]) (\<lambda>_. 0) = Some (3, m') \<and> m' 5000 = 0"
proof -
  let ?v = "vsnprintf (\<lambda>_. 0) 0x1000 4 (cs ''hello'' @ [0]) (\<lambda>_. 0)"
  have "vs_full (\<lambda>_. 0) (\<lambda>_. 0) (cs ''hello'' @ [0]) 0 = Some (cs ''hello'')" by (simp add: cs_def)
  then obtain m' where m': "?v = Some (3, m')"
    by (auto simp: vsnprintf_full cs_def)
  have "m' 5000 = 0"
  proof (rule ccontr)
    assume "m' 5000 \<noteq> 0"
    then have "unat ((5000 :: u32) - 0x1000) < unat (4 :: u32)"
      using klib_vsnprintf_bounds[of "\<lambda>_. 0" "0x1000" 4 "cs ''hello'' @ [0]" "\<lambda>_. 0"] m' by blast
    then show False by simp
  qed
  then show ?thesis using m' by blast
qed

section \<open>A format that ends in a percent sign\<close>

text \<open>
  The conversion character is not checked for the terminator: after a final \<open>%\<close> the loop steps over
  the terminator and goes on with whatever follows the format in memory.
\<close>

lemma vsnprintf_trailing_percent_overruns:
  "vs_loop m va (37 # 0 # f) ap st = vs_loop m va f ap st"
  by (simp add: vs_directive_def vs_parse_def vs_get_width_def vs_get_prec_def vs_convert_def Let_def
      split: prod.splits)

end
