(* ===== verification/Eventfd.thy ===== *)
theory Eventfd
  imports Prelude
begin

text \<open>
  The event counter node of \<open>Cact/fs/eventfd/eventfd.c\<close>: a 64-bit counter with blocking
  reads and writes, a reference-counted node, and the saturating in-kernel signal. The model keeps
  the counter at its width. A node whose last reference is dropped loses its state; a call that
  still looks at it is the outcome \<open>EUseAfterFree\<close>.
\<close>

section \<open>State\<close>

abbreviation (input) CACT_EFD_SEMAPHORE :: u32 where "CACT_EFD_SEMAPHORE \<equiv> 0x1"
abbreviation (input) CACT_EFD_NONBLOCK :: u32 where "CACT_EFD_NONBLOCK \<equiv> 0x800"

definition EVENTFD_MAX_COUNTER :: u64 where
  "EVENTFD_MAX_COUNTER = NOT 0 - 1"

record eventfd_state =
  ef_counter :: u64
  ef_flags :: u32

record efd_node =
  efn_ops :: bool \<comment> \<open>\<open>node->ops == &eventfd_ops\<close>\<close>
  efn_refcount :: u32
  efn_priv :: "eventfd_state option"
  efn_freed :: bool

datatype efd_ret = ERet int bytes | EUseAfterFree

section \<open>Operations\<close>

definition eventfd_create_vnode :: "bool \<Rightarrow> bool \<Rightarrow> u32 \<Rightarrow> u32 \<Rightarrow> efd_node option" where
  "eventfd_create_vnode node_alloc state_alloc initval flags =
     (if \<not> node_alloc then None
      else if \<not> state_alloc then None
      else Some \<lparr> efn_ops = True, efn_refcount = 0,
                  efn_priv = Some \<lparr> ef_counter = ucast initval,
                    ef_flags = flags AND (CACT_EFD_SEMAPHORE OR CACT_EFD_NONBLOCK) \<rparr>,
                  efn_freed = False \<rparr>)"

definition eventfd_open :: "efd_node \<Rightarrow> efd_node" where
  "eventfd_open n = (if efn_ops n then n\<lparr> efn_refcount := efn_refcount n + 1 \<rparr> else n)"

definition eventfd_node_put :: "efd_node \<Rightarrow> efd_node" where
  "eventfd_node_put n =
     (if \<not> efn_ops n then n
      else let rc = (if efn_refcount n > 0 then efn_refcount n - 1 else efn_refcount n)
        in if rc = 0 then n\<lparr> efn_refcount := rc, efn_priv := None, efn_freed := True \<rparr>
           else n\<lparr> efn_refcount := rc \<rparr>)"

definition eventfd_close :: "efd_node \<Rightarrow> efd_node" where
  "eventfd_close n = eventfd_node_put n"

text \<open>One round of the read loop (the body under the lock, then \<open>schedule()\<close>).\<close>

definition eventfd_read_step :: "efd_node \<Rightarrow> (efd_ret \<times> efd_node) + efd_node" where
  "eventfd_read_step n =
     (if efn_freed n then Inl (EUseAfterFree, n)
      else if \<not> efn_ops n then Inl (ERet (-1) [], n)
      else case efn_priv n of None \<Rightarrow> Inl (ERet (-1) [], n)
      | Some s \<Rightarrow>
         (let readable = (ef_counter s > 0) in
          if \<not> readable \<and> flag (ef_flags s) CACT_EFD_NONBLOCK then Inl (ERet (- EAGAIN) [], n)
          else if readable then
            (if flag (ef_flags s) CACT_EFD_SEMAPHORE
             then Inl (ERet 8 (nat_le 8 1),
                       n\<lparr> efn_priv := Some (s\<lparr> ef_counter := ef_counter s - 1 \<rparr>) \<rparr>)
             else Inl (ERet 8 (nat_le 8 (unat (ef_counter s))),
                       n\<lparr> efn_priv := Some (s\<lparr> ef_counter := 0 \<rparr>) \<rparr>))
          else Inr n))"

definition eventfd_read :: "u32 \<Rightarrow> (efd_node \<Rightarrow> efd_node) list \<Rightarrow> efd_node \<Rightarrow> (efd_ret \<times> efd_node) + efd_node" where
  "eventfd_read sz others n =
     (if \<not> efn_ops n \<or> efn_priv n = None then Inl (ERet (-1) [], n)
      else if sz < 8 then Inl (ERet (- EINVAL) [], n)
      else run_blocking eventfd_read_step others n)"

definition eventfd_write_step :: "u64 \<Rightarrow> efd_node \<Rightarrow> (efd_ret \<times> efd_node) + efd_node" where
  "eventfd_write_step add n =
     (if efn_freed n then Inl (EUseAfterFree, n)
      else if \<not> efn_ops n then Inl (ERet (-1) [], n)
      else case efn_priv n of None \<Rightarrow> Inl (ERet (-1) [], n)
      | Some s \<Rightarrow>
         (let fits = (ef_counter s \<le> EVENTFD_MAX_COUNTER - add) in
          if \<not> fits \<and> flag (ef_flags s) CACT_EFD_NONBLOCK then Inl (ERet (- EAGAIN) [], n)
          else if fits then
            Inl (ERet 8 [], n\<lparr> efn_priv := Some (s\<lparr> ef_counter := ef_counter s + add \<rparr>) \<rparr>)
          else Inr n))"

definition eventfd_write :: "bytes \<Rightarrow> (efd_node \<Rightarrow> efd_node) list \<Rightarrow> efd_node \<Rightarrow> (efd_ret \<times> efd_node) + efd_node" where
  "eventfd_write buf others n =
     (if \<not> efn_ops n \<or> efn_priv n = None then Inl (ERet (-1) [], n)
      else if length buf < 8 then Inl (ERet (- EINVAL) [], n)
      else let add = rd64 buf 0 in
        if add = NOT 0 then Inl (ERet (- EINVAL) [], n)
        else run_blocking (eventfd_write_step add) others n)"

definition eventfd_poll :: "efd_node \<Rightarrow> u32 \<Rightarrow> u32" where
  "eventfd_poll n events =
     (case (if efn_ops n then efn_priv n else None) of
        None \<Rightarrow> VFS_POLLERR
      | Some s \<Rightarrow> if ef_counter s > 0 \<and> flag events VFS_POLLIN then VFS_POLLIN else 0)"

text \<open>
  \<open>eventfd_node_get(fd, &out)\<close>; the descriptor table's answer for \<open>fd\<close> is the argument
  \<open>f\<close> (\<open>None\<close>: no file or no node).
\<close>

definition eventfd_node_get :: "bool \<Rightarrow> efd_node option \<Rightarrow> int \<times> efd_node option" where
  "eventfd_node_get have_out f =
     (if \<not> have_out then (- EINVAL, None)
      else case f of None \<Rightarrow> (- EBADF, None)
      | Some n \<Rightarrow> if \<not> efn_ops n then (- EINVAL, None)
          else (0, Some (n\<lparr> efn_refcount := efn_refcount n + 1 \<rparr>)))"

definition eventfd_node_signal :: "u64 \<Rightarrow> efd_node \<Rightarrow> int \<times> efd_node" where
  "eventfd_node_signal k n =
     (case (if efn_ops n then efn_priv n else None) of
        None \<Rightarrow> (- EINVAL, n)
      | Some s \<Rightarrow>
         if k = NOT 0 then (- EINVAL, n)
         else if ef_counter s \<le> EVENTFD_MAX_COUNTER - k
         then (0, n\<lparr> efn_priv := Some (s\<lparr> ef_counter := ef_counter s + k \<rparr>) \<rparr>)
         else (0, n\<lparr> efn_priv := Some (s\<lparr> ef_counter := EVENTFD_MAX_COUNTER \<rparr>) \<rparr>))"

section \<open>Reachable nodes\<close>

text \<open>
  Everything tasks can do to one node: descriptor opens and closes, rounds of readers and writers,
  in-kernel signals, in any order.
\<close>

inductive efd_reachable :: "efd_node \<Rightarrow> bool" where
  efd_create: "eventfd_create_vnode a b initval fl = Some n \<Longrightarrow> efd_reachable n"
| efd_open: "efd_reachable n \<Longrightarrow> efd_reachable (eventfd_open n)"
| efd_close: "efd_reachable n \<Longrightarrow> efd_reachable (eventfd_close n)"
| efd_read: "efd_reachable n \<Longrightarrow> eventfd_read_step n = Inl (r, n') \<Longrightarrow> efd_reachable n'"
| efd_write: "efd_reachable n \<Longrightarrow> add \<noteq> NOT 0 \<Longrightarrow> eventfd_write_step add n = Inl (r, n') \<Longrightarrow> efd_reachable n'"
| efd_signal: "efd_reachable n \<Longrightarrow> efd_reachable (snd (eventfd_node_signal k n))"

definition efd_inv :: "efd_node \<Rightarrow> bool" where
  "efd_inv n \<longleftrightarrow> efn_ops n \<and> (efn_freed n \<longleftrightarrow> efn_priv n = None) \<and>
     (\<forall>s. efn_priv n = Some s \<longrightarrow> ef_counter s \<le> EVENTFD_MAX_COUNTER)"

text \<open>
  A sequence of non-blocking calls on one node, with the totals of what the accepted writes
  added and of what the reads delivered.
\<close>

datatype efd_op = EOpWrite u64 | EOpRead

fun efd_exec :: "efd_op list \<Rightarrow> efd_node \<Rightarrow> nat \<times> nat \<times> efd_node" where
  "efd_exec [] n = (0, 0, n)"
| "efd_exec (EOpWrite v # ops) n =
     (case eventfd_write (nat_le 8 (unat v)) [] n of
        Inl (ERet r _, n') \<Rightarrow>
          (let (w, d, n'') = efd_exec ops n' in ((if r = 8 then unat v + w else w), d, n''))
      | Inl (EUseAfterFree, n') \<Rightarrow> efd_exec ops n'
      | Inr n' \<Rightarrow> efd_exec ops n')"
| "efd_exec (EOpRead # ops) n =
     (case eventfd_read 8 [] n of
        Inl (ERet r buf, n') \<Rightarrow>
          (let (w, d, n'') = efd_exec ops n' in (w, (if r = 8 then le_nat buf + d else d), n''))
      | Inl (EUseAfterFree, n') \<Rightarrow> efd_exec ops n'
      | Inr n' \<Rightarrow> efd_exec ops n')"

definition efd_count :: "efd_node \<Rightarrow> nat" where
  "efd_count n = (case efn_priv n of None \<Rightarrow> 0 | Some s \<Rightarrow> unat (ef_counter s))"

text \<open>A concrete node for the witnesses: a plain counter holding \<open>c\<close>.\<close>

definition efd_example :: "u64 \<Rightarrow> efd_node" where
  "efd_example c = \<lparr> efn_ops = True, efn_refcount = 0,
     efn_priv = Some \<lparr> ef_counter = c, ef_flags = 0 \<rparr>, efn_freed = False \<rparr>"

section \<open>Lemmas\<close>

lemma efd_max_unat: "unat EVENTFD_MAX_COUNTER = 2 ^ 64 - 2"
  by (simp add: EVENTFD_MAX_COUNTER_def)

lemma efd_add_le_max: "k \<noteq> NOT 0 \<Longrightarrow> k \<le> EVENTFD_MAX_COUNTER" for k :: u64
proof -
  assume "k \<noteq> NOT 0"
  then have "unat k \<noteq> unat (NOT 0 :: u64)" by (metis word_unat_eq_iff)
  then have "unat k \<noteq> 2 ^ 64 - 1" by (simp add: unsigned_minus_1_eq_mask mask_eq_exp_minus_1)
  moreover have "unat k < 2 ^ 64" using unsigned_less[of k] by simp
  ultimately show ?thesis by (simp add: word_le_nat_alt efd_max_unat)
qed

text \<open>The guard of the write path is exactly ``the sum does not exceed the maximum''.\<close>

lemma efd_fits_iff:
  fixes c k :: u64
  assumes "k \<noteq> NOT 0"
  shows "c \<le> EVENTFD_MAX_COUNTER - k \<longleftrightarrow> unat c + unat k \<le> 2 ^ 64 - 2"
proof -
  have k: "k \<le> EVENTFD_MAX_COUNTER" using assms by (rule efd_add_le_max)
  then have "unat (EVENTFD_MAX_COUNTER - k) = 2 ^ 64 - 2 - unat k"
    by (simp add: unat_sub efd_max_unat)
  moreover have "unat k \<le> 2 ^ 64 - 2" using k by (simp add: word_le_nat_alt efd_max_unat)
  ultimately show ?thesis unfolding word_le_nat_alt by linarith
qed

lemma efd_fits_sum:
  fixes c k :: u64
  assumes "k \<noteq> NOT 0" "c \<le> EVENTFD_MAX_COUNTER - k"
  shows "unat (c + k) = unat c + unat k" "c + k \<le> EVENTFD_MAX_COUNTER"
proof -
  have b: "unat c + unat k \<le> 2 ^ 64 - 2" using efd_fits_iff assms by simp
  then show s: "unat (c + k) = unat c + unat k" by (simp add: unat_word_ariths)
  show "c + k \<le> EVENTFD_MAX_COUNTER" using b by (simp add: word_le_nat_alt efd_max_unat s)
qed

lemma efd_inv_create: "eventfd_create_vnode a b initval fl = Some n \<Longrightarrow> efd_inv n"
proof -
  assume c: "eventfd_create_vnode a b initval fl = Some n"
  have b: "unat initval < 2 ^ 32" using unsigned_less[of initval] by simp
  then have "unat (ucast initval :: u64) = unat initval"
    by (simp add: unsigned_ucast_eq take_bit_nat_eq_self)
  with b have "ucast initval \<le> EVENTFD_MAX_COUNTER"
    by (simp add: word_le_nat_alt efd_max_unat)
  then show ?thesis using c by (auto simp: eventfd_create_vnode_def efd_inv_def split: if_splits)
qed

lemma efd_inv_open: "efd_inv n \<Longrightarrow> efd_inv (eventfd_open n)"
  by (simp add: efd_inv_def eventfd_open_def)

lemma efd_inv_put: "efd_inv n \<Longrightarrow> efd_inv (eventfd_node_put n)"
  by (auto simp: efd_inv_def eventfd_node_put_def Let_def)

lemma efd_unat_dec: "0 < c \<Longrightarrow> unat (c - 1) = unat c - 1" for c :: u64
  by (simp add: unat_sub word_le_nat_alt unat_gt_0 Suc_leI word_gt_0)

lemma efd_dec_le: "0 < c \<Longrightarrow> c \<le> m \<Longrightarrow> c - 1 \<le> m" for c m :: u64
  by (simp add: word_le_nat_alt efd_unat_dec)

lemma efd_inv_read: "efd_inv n \<Longrightarrow> outcome_all efd_inv (eventfd_read_step n)"
  by (auto simp: efd_inv_def eventfd_read_step_def outcome_all_def Let_def efd_dec_le
      split: option.splits)

lemma efd_inv_write: "efd_inv n \<Longrightarrow> add \<noteq> NOT 0 \<Longrightarrow> outcome_all efd_inv (eventfd_write_step add n)"
  by (auto simp: efd_inv_def eventfd_write_step_def outcome_all_def Let_def efd_fits_sum
      split: option.splits)

lemma efd_inv_signal: "efd_inv n \<Longrightarrow> efd_inv (snd (eventfd_node_signal k n))"
  by (auto simp: efd_inv_def eventfd_node_signal_def efd_fits_sum split: option.splits)

lemma efd_reachable_inv: "efd_reachable n \<Longrightarrow> efd_inv n"
proof (induction rule: efd_reachable.induct)
  case (efd_read n r n')
  then show ?case using efd_inv_read[of n] by (simp add: outcome_all_def)
next
  case (efd_write n add r n')
  then show ?case using efd_inv_write[of n add] by (simp add: outcome_all_def)
qed (auto simp: efd_inv_create efd_inv_open efd_inv_put eventfd_close_def efd_inv_signal)

lemma efd_unat_u64: "unat v < 2 ^ 64" for v :: u64
  using unsigned_less[of v] by simp

lemma rd64_nat_le: "rd64 (nat_le 8 (unat v)) 0 = v" for v :: u64
proof -
  have "(256::nat) ^ 8 = 2 ^ 64" by simp
  then have "le_nat (nat_le 8 (unat v)) = unat v"
    using efd_unat_u64[of v] by (simp only: le_nat_nat_le) simp
  then show ?thesis by (simp add: rd64_def slice_def)
qed

lemma le_nat_counter: "le_nat (nat_le 8 (unat v)) = unat v" for v :: u64
  using efd_unat_u64[of v] by simp

lemma efd_write_accounts:
  fixes v :: u64
  assumes "efd_inv n"
  shows "case eventfd_write (nat_le 8 (unat v)) [] n of
      Inl (ERet r _, n') \<Rightarrow> efd_inv n' \<and> efd_count n' = efd_count n + (if r = 8 then unat v else 0)
    | Inl (EUseAfterFree, n') \<Rightarrow> False
    | Inr n' \<Rightarrow> n' = n"
  using assms efd_inv_write[OF assms, of v]
  by (auto simp: eventfd_write_def rd64_nat_le eventfd_write_step_def Let_def efd_count_def
      efd_inv_def outcome_all_def efd_fits_sum split: option.splits)

lemma efd_read_accounts:
  assumes "efd_inv n"
  shows "case eventfd_read 8 [] n of
      Inl (ERet r buf, n') \<Rightarrow> efd_inv n' \<and> efd_count n = efd_count n' + (if r = 8 then le_nat buf else 0)
    | Inl (EUseAfterFree, n') \<Rightarrow> False
    | Inr n' \<Rightarrow> n' = n"
proof -
  have "le_nat (nat_le 8 1) = 1" by simp
  then show ?thesis
    using assms efd_inv_read[OF assms]
    by (auto simp: eventfd_read_def eventfd_read_step_def Let_def efd_count_def
        efd_inv_def outcome_all_def efd_unat_dec le_nat_counter unat_gt_0 Suc_leI word_gt_0
        simp del: le_nat_nat_le split: option.splits)
qed

lemma efd_asleep_counter:
  "run_blocking eventfd_read_step es n = Inr m \<Longrightarrow>
     \<exists>s. efn_priv m = Some s \<and> ef_counter s = 0 \<and> \<not> efn_freed m \<and> efn_ops m"
proof (induction es arbitrary: n)
  case Nil
  then show ?case
    by (auto simp: eventfd_read_step_def Let_def word_gt_0 split: option.splits if_splits)
next
  case (Cons e es)
  then show ?case by (auto split: sum.splits)
qed

section \<open>Properties\<close>

text \<open>
  In every reachable state of an event counter the 64-bit counter is at most \<open>2^64 - 2\<close>, and
  a write that reports success adds its value exactly, without wrap-around.
\<close>

theorem eventfd_counter_never_wraps:
  assumes "efd_reachable n" and "efn_priv n = Some s" and "add \<noteq> NOT 0"
    and "eventfd_write_step add n = Inl (ERet 8 b, n')"
  shows "unat (ef_counter s) \<le> 2 ^ 64 - 2 \<and> efd_inv n' \<and> efd_count n' = unat (ef_counter s) + unat add"
proof -
  have inv: "efd_inv n" using assms(1) by (rule efd_reachable_inv)
  have "ef_counter s \<le> EVENTFD_MAX_COUNTER" using inv assms(2) by (simp add: efd_inv_def)
  moreover have "efd_inv n'" using efd_inv_write[OF inv assms(3)] assms(4) by (simp add: outcome_all_def)
  moreover have "efd_count n' = unat (ef_counter s) + unat add"
    using assms by (auto simp: eventfd_write_step_def Let_def efd_count_def efd_fits_sum split: if_splits)
  ultimately show ?thesis by (simp add: word_le_nat_alt efd_max_unat)
qed

theorem eventfd_counter_never_wraps_witness:
  "efd_reachable (efd_example 5) \<and>
   eventfd_write_step 7 (efd_example 5) = Inl (ERet 8 [], efd_example 12) \<and>
   efd_count (efd_example 12) = 12"
proof -
  have "eventfd_create_vnode True True 5 0 = Some (efd_example 5)"
    by (simp add: eventfd_create_vnode_def efd_example_def)
  then have r: "efd_reachable (efd_example 5)" by (rule efd_create)
  have w: "eventfd_write_step 7 (efd_example 5) = Inl (ERet 8 [], efd_example 12)"
    by (simp add: eventfd_write_step_def efd_example_def Let_def EVENTFD_MAX_COUNTER_def)
  have p: "efn_priv (efd_example 5) = Some \<lparr> ef_counter = 5, ef_flags = 0 \<rparr>"
    by (simp add: efd_example_def)
  show ?thesis using eventfd_counter_never_wraps[OF r p _ w] r w by simp
qed

text \<open>
  C20: Over any sequence of non-blocking reads and writes, in counter and in semaphore mode, nothing
  is lost and nothing is invented: the initial count plus everything the accepted writes added
  equals everything the reads delivered plus the final count.
\<close>

theorem eventfd_conservation:
  assumes "efd_inv n" and "efd_exec ops n = (written, delivered, n')"
  shows "efd_count n + written = delivered + efd_count n'"
  using assms
proof (induction ops n arbitrary: written delivered n' rule: efd_exec.induct)
  case (1 n)
  then show ?case by simp
next
  case (2 v ops n)
  note acc = efd_write_accounts[OF "2.prems"(1), of v]
  show ?case
  proof (cases "eventfd_write (nat_le 8 (unat v)) [] n")
    case (Inl p)
    obtain r b n1 where p: "p = (ERet r b, n1)"
      using acc Inl by (cases p; cases "fst p") auto
    obtain w d n2 where rec: "efd_exec ops n1 = (w, d, n2)" by (metis prod_cases3)
    have "efd_count n1 + w = d + efd_count n2"
      using "2.IH"(1)[OF Inl p[symmetric] refl _ rec] acc Inl p by simp
    then show ?thesis using acc Inl p rec "2.prems"(2) by (auto split: if_splits)
  next
    case (Inr n1)
    then show ?thesis using "2.IH"(3)[OF Inr] "2.prems" acc by simp
  qed
next
  case (3 ops n)
  note acc = efd_read_accounts[OF "3.prems"(1)]
  show ?case
  proof (cases "eventfd_read 8 [] n")
    case (Inl p)
    obtain r b n1 where p: "p = (ERet r b, n1)"
      using acc Inl by (cases p; cases "fst p") auto
    obtain w d n2 where rec: "efd_exec ops n1 = (w, d, n2)" by (metis prod_cases3)
    have "efd_count n1 + w = d + efd_count n2"
      using "3.IH"(1)[OF Inl p[symmetric] refl _ rec] acc Inl p by simp
    then show ?thesis using acc Inl p rec "3.prems"(2) by (auto split: if_splits)
  next
    case (Inr n1)
    then show ?thesis using "3.IH"(3)[OF Inr] "3.prems" acc by simp
  qed
qed

theorem eventfd_conservation_witness:
  "efd_exec [EOpWrite 7, EOpRead, EOpWrite 1] (efd_example 5) = (8, 12, efd_example 1) \<and>
   efd_count (efd_example 5) + 8 = 12 + efd_count (efd_example 1)"
proof -
  have i: "efd_inv (efd_example 5)"
    by (simp add: efd_inv_def efd_example_def EVENTFD_MAX_COUNTER_def)
  have e: "efd_exec [EOpWrite 7, EOpRead, EOpWrite 1] (efd_example 5) = (8, 12, efd_example 1)"
    by code_simp
  show ?thesis using eventfd_conservation[OF i e] e by simp
qed

text \<open>
  C33: A sleeping reader is woken by the first accepted write: if a blocking read on a plain counter
  is asleep after the steps \<open>es\<close> and another task's write of a nonzero \<open>add\<close>, other than the value
  \<open>2^64 - 1\<close> that no write accepts, then succeeds before anything else happens, the
  read returns 8 bytes holding exactly \<open>add\<close> and leaves the counter at zero.
\<close>

theorem eventfd_write_wakes_reader:
  assumes "eventfd_read sz es n = Inr m"
    and "efn_priv m = Some s" and "\<not> flag (ef_flags s) CACT_EFD_SEMAPHORE"
    and "add \<noteq> 0" and "add \<noteq> NOT 0"
    and "eventfd_write_step add m = Inl (ERet 8 b, m')"
  shows "eventfd_read sz (es @ (\<lambda>_. m') # rest) n =
    Inl (ERet 8 (nat_le 8 (unat add)), m'\<lparr> efn_priv := Some (s\<lparr> ef_counter := 0 \<rparr>) \<rparr>)"
proof -
  have asleep: "run_blocking eventfd_read_step es n = Inr m"
    and pre: "efn_ops n" "efn_priv n \<noteq> None" "\<not> sz < 8"
    using assms(1) by (auto simp: eventfd_read_def split: if_splits)
  have m: "ef_counter s = 0" "\<not> efn_freed m" "efn_ops m"
    using efd_asleep_counter[OF asleep] assms(2) by auto
  have m': "m' = m\<lparr> efn_priv := Some (s\<lparr> ef_counter := add \<rparr>) \<rparr>"
    using assms(6,2) m by (auto simp: eventfd_write_step_def Let_def split: if_splits)
  have "eventfd_read_step m' =
      Inl (ERet 8 (nat_le 8 (unat add)), m'\<lparr> efn_priv := Some (s\<lparr> ef_counter := 0 \<rparr>) \<rparr>)"
    using m assms(3,4) by (simp add: m' eventfd_read_step_def Let_def word_gt_0)
  then have "run_blocking eventfd_read_step rest m' =
      Inl (ERet 8 (nat_le 8 (unat add)), m'\<lparr> efn_priv := Some (s\<lparr> ef_counter := 0 \<rparr>) \<rparr>)"
    by (cases rest) simp_all
  then show ?thesis
    using pre run_blocking_append_asleep[OF asleep, of "\<lambda>_. m'" rest] by (simp add: eventfd_read_def)
qed

theorem eventfd_write_wakes_reader_witness:
  "eventfd_read 8 [\<lambda>_. efd_example 0] (efd_example 0) = Inr (efd_example 0) \<and>
   eventfd_read 8 ([\<lambda>_. efd_example 0] @ (\<lambda>_. efd_example 9) # []) (efd_example 0) =
     Inl (ERet 8 (nat_le 8 9), efd_example 0)"
proof -
  have a: "eventfd_read 8 [\<lambda>_. efd_example 0] (efd_example 0) = Inr (efd_example 0)"
    by (simp add: eventfd_read_def eventfd_read_step_def efd_example_def Let_def flag_def)
  have w: "eventfd_write_step 9 (efd_example 0) = Inl (ERet 8 [], efd_example 9)"
    by (simp add: eventfd_write_step_def efd_example_def Let_def EVENTFD_MAX_COUNTER_def)
  have p: "efn_priv (efd_example 0) = Some \<lparr> ef_counter = 0, ef_flags = 0 \<rparr>"
    by (simp add: efd_example_def)
  have "(efd_example 9)\<lparr> efn_priv := Some (\<lparr> ef_counter = 0, ef_flags = 0 \<rparr>\<lparr> ef_counter := 0 \<rparr>) \<rparr>
      = efd_example 0"
    by (simp add: efd_example_def)
  then show ?thesis
    using eventfd_write_wakes_reader[OF a p _ _ _ w, of "[]"] a by (simp add: flag_def)
qed

end
