(* ===== verification/Timerfd.thy ===== *)
theory Timerfd
  imports Usermem
begin

text \<open>
  The timer node of \<open>Cact/fs/timerfd/timerfd.c\<close>. Deadlines are absolute ticks of a 100 Hz
  32-bit clock and are compared by the sign of the wrapped difference; expiries are counted lazily
  by \<open>tfd_sweep\<close>. The value of \<open>timer_ticks_get()\<close> is an argument, or a field of the world
  that a sleeping reader shares with the other tasks.
\<close>

section \<open>State\<close>

abbreviation (input) CACT_TFD_NONBLOCK :: u32 where "CACT_TFD_NONBLOCK \<equiv> 0x800"
abbreviation (input) CACT_TFD_TIMER_ABSTIME :: u32 where "CACT_TFD_TIMER_ABSTIME \<equiv> 1"
abbreviation (input) CACT_TIMERFD_SETTIME :: u32 where "CACT_TIMERFD_SETTIME \<equiv> 0x3A10"
abbreviation (input) CACT_TIMERFD_GETTIME :: u32 where "CACT_TIMERFD_GETTIME \<equiv> 0x3A11"

record timerfd_state =
  tf_expiry_at :: u32
  tf_interval_ticks :: u32
  tf_count :: u64
  tf_flags :: u32

record tfd_node =
  tfn_ops :: bool \<comment> \<open>\<open>node->ops == &timerfd_ops\<close>\<close>
  tfn_refcount :: u32
  tfn_priv :: "timerfd_state option"
  tfn_freed :: bool

record cact_timerfd_spec =
  ts_flags :: u32
  ts_it_value_ms :: u32
  ts_it_interval_ms :: u32
  ts_old_value_ms :: u32
  ts_old_interval_ms :: u32

definition spec_bytes :: "cact_timerfd_spec \<Rightarrow> bytes" where
  "spec_bytes a = nat_le 4 (unat (ts_flags a)) @ nat_le 4 (unat (ts_it_value_ms a)) @
     nat_le 4 (unat (ts_it_interval_ms a)) @ nat_le 4 (unat (ts_old_value_ms a)) @
     nat_le 4 (unat (ts_old_interval_ms a))"

definition bytes_spec :: "bytes \<Rightarrow> cact_timerfd_spec" where
  "bytes_spec bs = \<lparr> ts_flags = rd32 bs 0, ts_it_value_ms = rd32 bs 4, ts_it_interval_ms = rd32 bs 8,
     ts_old_value_ms = rd32 bs 12, ts_old_interval_ms = rd32 bs 16 \<rparr>"

section \<open>Operations\<close>

definition tfd_state :: "tfd_node \<Rightarrow> timerfd_state option" where
  "tfd_state n = (if tfn_ops n then tfn_priv n else None)"

definition tfd_expired :: "u32 \<Rightarrow> u32 \<Rightarrow> bool" where
  "tfd_expired now deadline \<longleftrightarrow> sint (now - deadline) \<ge> 0"

function tfd_sweep_loop :: "nat \<Rightarrow> u32 \<Rightarrow> timerfd_state \<Rightarrow> timerfd_state" where
  "tfd_sweep_loop guard now s =
     (if tf_expiry_at s \<noteq> 0 \<and> tfd_expired now (tf_expiry_at s) then
        let s1 = s\<lparr> tf_count := tf_count s + 1 \<rparr> in
        if tf_interval_ticks s1 = 0 then s1\<lparr> tf_expiry_at := 0 \<rparr>
        else let nxt = tf_expiry_at s1 + tf_interval_ticks s1 in
          if nxt \<le> tf_expiry_at s1 \<or> Suc guard > 100000 then s1\<lparr> tf_expiry_at := 0 \<rparr>
          else tfd_sweep_loop (Suc guard) now (s1\<lparr> tf_expiry_at := nxt \<rparr>)
      else s)"
  by pat_completeness auto
termination
  by (relation "measure (\<lambda>(g, _, _). 100001 - g)") auto

declare tfd_sweep_loop.simps [simp del]

definition tfd_sweep :: "timerfd_state \<Rightarrow> u32 \<Rightarrow> timerfd_state" where
  "tfd_sweep s now = tfd_sweep_loop 0 now s"

datatype tfd_ret = TRet int bytes | TUseAfterFree

text \<open>The world a sleeping reader shares with the rest of the system: the node and the clock.\<close>

record tfd_world =
  tw_node :: tfd_node
  tw_now :: u32

definition timerfd_read_step :: "tfd_world \<Rightarrow> (tfd_ret \<times> tfd_world) + tfd_world" where
  "timerfd_read_step w =
     (let n = tw_node w in
      if tfn_freed n then Inl (TUseAfterFree, w)
      else if \<not> tfn_ops n then Inl (TRet (-1) [], w)
      else case tfn_priv n of None \<Rightarrow> Inl (TUseAfterFree, w)
      | Some s0 \<Rightarrow>
         (let s = tfd_sweep s0 (tw_now w) in
          if tf_count s > 0 then
            Inl (TRet 8 (nat_le 8 (unat (tf_count s))),
                 w\<lparr> tw_node := n\<lparr> tfn_priv := Some (s\<lparr> tf_count := 0 \<rparr>) \<rparr> \<rparr>)
          else if flag (tf_flags s) CACT_TFD_NONBLOCK then
            Inl (TRet (- EAGAIN) [], w\<lparr> tw_node := n\<lparr> tfn_priv := Some s \<rparr> \<rparr>)
          else Inr (w\<lparr> tw_node := n\<lparr> tfn_priv := Some s \<rparr> \<rparr>)))"

definition timerfd_read :: "u32 \<Rightarrow> (tfd_world \<Rightarrow> tfd_world) list \<Rightarrow> tfd_world \<Rightarrow> (tfd_ret \<times> tfd_world) + tfd_world" where
  "timerfd_read sz others w =
     (if tfd_state (tw_node w) = None then Inl (TRet (-1) [], w)
      else if sz < 8 then Inl (TRet (- EINVAL) [], w)
      else run_blocking timerfd_read_step others w)"

definition timerfd_write :: "tfd_node \<Rightarrow> bytes \<Rightarrow> int" where
  "timerfd_write n buf = - EINVAL"

definition timerfd_open :: "tfd_node \<Rightarrow> tfd_node" where
  "timerfd_open n = (if tfn_ops n then n\<lparr> tfn_refcount := tfn_refcount n + 1 \<rparr> else n)"

definition timerfd_close :: "tfd_node \<Rightarrow> tfd_node" where
  "timerfd_close n =
     (if \<not> tfn_ops n then n
      else let rc = (if tfn_refcount n > 0 then tfn_refcount n - 1 else tfn_refcount n)
        in if rc = 0 then n\<lparr> tfn_refcount := rc, tfn_priv := None, tfn_freed := True \<rparr>
           else n\<lparr> tfn_refcount := rc \<rparr>)"

definition timerfd_poll :: "u32 \<Rightarrow> tfd_node \<Rightarrow> u32 \<Rightarrow> u32 \<times> tfd_node" where
  "timerfd_poll now n events =
     (case tfd_state n of None \<Rightarrow> (VFS_POLLERR, n)
      | Some s0 \<Rightarrow>
         (let s = tfd_sweep s0 now in
          (if tf_count s > 0 \<and> flag events VFS_POLLIN then VFS_POLLIN else 0,
           n\<lparr> tfn_priv := Some s \<rparr>)))"

text \<open>The unsigned round-up \<open>(ms + 10 - 1) / 10\<close>, with its 32-bit wrap, and the floor of one tick.\<close>

definition ms_to_ticks :: "u32 \<Rightarrow> u32" where
  "ms_to_ticks ms =
     (if ms \<noteq> 0 then let t = (ms + 10 - 1) div 10 in if t = 0 then 1 else t else 0)"

definition spec_to_state :: "timerfd_state \<Rightarrow> cact_timerfd_spec \<Rightarrow> u32 \<Rightarrow> timerfd_state" where
  "spec_to_state s a now =
     (let value_ticks = ms_to_ticks (ts_it_value_ms a);
          interval_ticks = ms_to_ticks (ts_it_interval_ms a);
          s1 = s\<lparr> tf_interval_ticks := interval_ticks, tf_count := 0 \<rparr>
      in if value_ticks = 0 then s1\<lparr> tf_expiry_at := 0 \<rparr>
         else if flag (ts_flags a) CACT_TFD_TIMER_ABSTIME then
           (if tfd_expired now value_ticks then s1\<lparr> tf_expiry_at := now - 1 \<rparr>
            else s1\<lparr> tf_expiry_at := value_ticks \<rparr>)
         else s1\<lparr> tf_expiry_at := now + value_ticks \<rparr>)"

definition state_to_spec :: "timerfd_state \<Rightarrow> u32 \<Rightarrow> cact_timerfd_spec \<Rightarrow> cact_timerfd_spec" where
  "state_to_spec s now out =
     (let out1 = out\<lparr> ts_it_interval_ms := tf_interval_ticks s * 10 \<rparr> in
      if tf_expiry_at s = 0 then out1\<lparr> ts_it_value_ms := 0 \<rparr>
      else if tfd_expired now (tf_expiry_at s) then out1\<lparr> ts_it_value_ms := 0 \<rparr>
      else let left = tf_expiry_at s - now; ms = left * 10 in
        out1\<lparr> ts_it_value_ms := (if ms = 0 then 1 else ms) \<rparr>)"

definition timerfd_settime ::
  "timerfd_state \<Rightarrow> u32 \<Rightarrow> cact_timerfd_spec \<Rightarrow> cact_timerfd_spec \<Rightarrow> timerfd_state \<times> cact_timerfd_spec" where
  "timerfd_settime s now a out =
     (let old_value_ms =
            (if tf_expiry_at s \<noteq> 0 \<and> \<not> tfd_expired now (tf_expiry_at s) then
               let ms = (tf_expiry_at s - now) * 10 in if ms = 0 then 1 else ms
             else 0)
      in (spec_to_state s a now,
          out\<lparr> ts_old_value_ms := old_value_ms, ts_old_interval_ms := tf_interval_ticks s * 10 \<rparr>))"

text \<open>\<open>_timerfd_gettime\<close> reads the clock twice.\<close>

definition timerfd_gettime ::
  "timerfd_state \<Rightarrow> u32 \<Rightarrow> u32 \<Rightarrow> cact_timerfd_spec \<Rightarrow> timerfd_state \<times> cact_timerfd_spec" where
  "timerfd_gettime s now1 now2 out =
     (let s1 = tfd_sweep s now1 in (s1, state_to_spec s1 now2 (out\<lparr> ts_flags := 0 \<rparr>)))"

text \<open>
  The ioctl handler. \<open>stk\<close> is what the stack slot of the local \<open>out\<close> holds before the
  handler writes to it.
\<close>

definition timerfd_ioctl ::
  "u32 \<Rightarrow> u32 \<Rightarrow> cact_timerfd_spec \<Rightarrow> umem \<Rightarrow> tfd_node \<Rightarrow> u32 \<Rightarrow> u32 \<Rightarrow> int \<times> tfd_node \<times> umem" where
  "timerfd_ioctl now1 now2 stk m n cmd arg =
     (case tfd_state n of None \<Rightarrow> (- ENOTTY, n, m)
      | Some s \<Rightarrow>
         if cmd = CACT_TIMERFD_SETTIME then
           (if arg = 0 then (- EINVAL, n, m)
            else case copy_from_user m arg 20 of None \<Rightarrow> (- EFAULT, n, m)
            | Some bs \<Rightarrow>
               (let (s1, out) = timerfd_settime s now1 (bytes_spec bs) (stk\<lparr> ts_flags := 0 \<rparr>);
                    (r, m1) = copy_to_user m arg (spec_bytes out)
                in (r, n\<lparr> tfn_priv := Some s1 \<rparr>, m1)))
         else if cmd = CACT_TIMERFD_GETTIME then
           (if arg = 0 then (- EINVAL, n, m)
            else let (s1, out) = timerfd_gettime s now1 now2 (stk\<lparr> ts_flags := 0 \<rparr>);
                     (r, m1) = copy_to_user m arg (spec_bytes out)
                 in (r, n\<lparr> tfn_priv := Some s1 \<rparr>, m1))
         else (- ENOTTY, n, m))"

definition timerfd_create_vnode :: "bool \<Rightarrow> bool \<Rightarrow> u32 \<Rightarrow> tfd_node option" where
  "timerfd_create_vnode node_alloc state_alloc flags =
     (if \<not> node_alloc then None
      else if \<not> state_alloc then None
      else Some \<lparr> tfn_ops = True, tfn_refcount = 0,
                  tfn_priv = Some \<lparr> tf_expiry_at = 0, tf_interval_ticks = 0, tf_count = 0,
                    tf_flags = flags AND CACT_TFD_NONBLOCK \<rparr>,
                  tfn_freed = False \<rparr>)"


definition tfd_example :: "u32 \<Rightarrow> u32 \<Rightarrow> timerfd_state" where
  "tfd_example e i = \<lparr> tf_expiry_at = e, tf_interval_ticks = i, tf_count = 0, tf_flags = 0x800 \<rparr>"

section \<open>Lemmas\<close>

text \<open>Within half of the clock's range the signed comparison is the order of the ticks.\<close>

lemma tfd_expired_iff:
  assumes "unat now < unat d + 2 ^ 31" "unat d < unat now + 2 ^ 31"
  shows "tfd_expired now d \<longleftrightarrow> unat d \<le> unat now"
proof -
  have i: "uint now = int (unat now)" "uint d = int (unat d)" by simp_all
  have a: "unat now < unat d + 2147483648" "unat d < unat now + 2147483648" using assms by simp_all
  have r: "- 2147483648 \<le> uint now - uint d" using a unfolding i by linarith
  have r': "uint now - uint d < 2147483648" using a unfolding i by linarith
  have "uint (now - d) = take_bit 32 (uint now - uint d)"
    by (simp add: uint_word_ariths(2) take_bit_eq_mod)
  then have "sint (now - d) = signed_take_bit 31 (take_bit 32 (uint now - uint d))"
    by (simp add: sint_uint)
  also have "\<dots> = signed_take_bit 31 (uint now - uint d)"
    by (simp only: signed_take_bit_take_bit) simp
  also have "\<dots> = uint now - uint d"
    using r r' by (intro signed_take_bit_int_eq_self) simp_all
  finally show ?thesis unfolding tfd_expired_def i by linarith
qed

lemma ms_to_ticks_ceil:
  assumes "0 < unat ms" "unat ms \<le> 2 ^ 32 - 10"
  shows "unat (ms_to_ticks ms) = (unat ms + 9) div 10"
proof -
  have e: "ms + 10 - 1 = ms + 9" by simp
  have "unat (ms + 9) = unat ms + 9"
    using assms by (subst unat_word_ariths) simp
  then have d: "unat ((ms + 10 - 1) div 10) = (unat ms + 9) div 10"
    unfolding e by (simp add: unat_div)
  moreover have "(unat ms + 9) div 10 \<noteq> 0" using assms by (simp add: div_greater_zero_iff)
  ultimately show ?thesis using assms(1) by (auto simp: ms_to_ticks_def Let_def)
qed

text \<open>A one-shot timer expires once, at its deadline.\<close>

lemma tfd_sweep_oneshot:
  assumes "tf_interval_ticks s = 0" "tf_expiry_at s \<noteq> 0"
    and "unat now < unat (tf_expiry_at s) + 2 ^ 31" "unat (tf_expiry_at s) < unat now + 2 ^ 31"
  shows "tfd_sweep s now =
    (if unat (tf_expiry_at s) \<le> unat now
     then s\<lparr> tf_count := tf_count s + 1, tf_expiry_at := 0 \<rparr> else s)"
  using assms tfd_expired_iff[OF assms(3,4)]
  by (simp add: tfd_sweep_def tfd_sweep_loop.simps[of 0 now s] Let_def)

lemma tfd_sweep_loop_not_due:
  assumes "unat now < unat (tf_expiry_at s)" "unat (tf_expiry_at s) < unat now + 2 ^ 31"
  shows "tfd_sweep_loop g now s = s"
  using assms tfd_expired_iff[of now "tf_expiry_at s"] by (simp add: tfd_sweep_loop.simps[of g])

text \<open>\<open>k + 1\<close> deadlines of a periodic timer have passed.\<close>

lemma tfd_sweep_loop_periodic:
  fixes s :: timerfd_state
  defines "i \<equiv> unat (tf_interval_ticks s)"
  assumes "0 < i" "0 < unat (tf_expiry_at s)"
    and "unat (tf_expiry_at s) + k * i \<le> unat now" "unat now < unat (tf_expiry_at s) + Suc k * i"
    and "unat now + i < 2 ^ 32" "unat now < unat (tf_expiry_at s) + 2 ^ 31" "i < 2 ^ 31"
    and "g + Suc k \<le> 100000"
  shows "tfd_sweep_loop g now s = s\<lparr> tf_count := tf_count s + word_of_nat (Suc k),
    tf_expiry_at := tf_expiry_at s + word_of_nat (Suc k) * tf_interval_ticks s \<rparr>"
  using assms(2-) unfolding i_def
proof (induction k arbitrary: g s)
  case (0 g s)
  let ?s = "s\<lparr> tf_count := tf_count s + 1, tf_expiry_at := tf_expiry_at s + tf_interval_ticks s \<rparr>"
  have e: "tfd_expired now (tf_expiry_at s)" using 0 by (subst tfd_expired_iff) simp_all
  have n: "unat (tf_expiry_at s + tf_interval_ticks s) = unat (tf_expiry_at s) + unat (tf_interval_ticks s)"
    using 0 by (subst unat_word_ariths) simp
  have "tfd_sweep_loop (Suc g) now ?s = ?s"
    using 0 n by (intro tfd_sweep_loop_not_due) simp_all
  then show ?case
    using 0 e n by (simp add: tfd_sweep_loop.simps[of g] Let_def word_le_nat_alt unat_gt_0)
next
  case (Suc k g s)
  let ?s = "s\<lparr> tf_count := tf_count s + 1, tf_expiry_at := tf_expiry_at s + tf_interval_ticks s \<rparr>"
  have e: "tfd_expired now (tf_expiry_at s)" using Suc.prems by (subst tfd_expired_iff) simp_all
  have n: "unat (tf_expiry_at s + tf_interval_ticks s) = unat (tf_expiry_at s) + unat (tf_interval_ticks s)"
    using Suc.prems by (subst unat_word_ariths) simp
  have "tfd_sweep_loop (Suc g) now ?s = ?s\<lparr> tf_count := tf_count ?s + word_of_nat (Suc k),
    tf_expiry_at := tf_expiry_at ?s + word_of_nat (Suc k) * tf_interval_ticks ?s \<rparr>"
    using Suc.prems n by (intro Suc.IH) simp_all
  then have "tfd_sweep_loop g now s = ?s\<lparr> tf_count := tf_count ?s + word_of_nat (Suc k),
    tf_expiry_at := tf_expiry_at ?s + word_of_nat (Suc k) * tf_interval_ticks ?s \<rparr>"
    using Suc.prems e n by (simp add: tfd_sweep_loop.simps[of g] Let_def word_le_nat_alt unat_gt_0)
  then show ?case by (simp add: algebra_simps)
qed

section \<open>Properties\<close>

text \<open>
  C21: The lazy expiry count of a periodic timer is exact. If \<open>k + 1\<close> deadlines have passed at
  tick \<open>now\<close> (at most 100000 of them, and no wrap of the clock), one sweep adds exactly \<open>k + 1\<close>
  expirations, keeps the phase (the next deadline is the first one after \<open>now\<close> on the original
  grid) and a second sweep at the same tick changes nothing.
\<close>

theorem timerfd_sweep_exact:
  fixes s :: timerfd_state
  defines "i \<equiv> unat (tf_interval_ticks s)" and "e \<equiv> unat (tf_expiry_at s)"
  assumes "0 < i" "0 < e" "e \<le> unat now"
    and "unat now + i < 2 ^ 32" "unat now < e + 2 ^ 31" "i < 2 ^ 31"
    and "(unat now - e) div i < 100000"
  shows "let k = (unat now - e) div i; s' = tfd_sweep s now in
    tf_count s' = tf_count s + word_of_nat (k + 1) \<and>
    unat (tf_expiry_at s') = e + (k + 1) * i \<and>
    unat now < unat (tf_expiry_at s') \<and> unat (tf_expiry_at s') \<le> unat now + i \<and>
    tfd_sweep s' now = s'"
proof -
  define k where "k = (unat now - e) div i"
  have ki: "k * i \<le> unat now - e" "unat now - e < Suc k * i"
    using assms(3) by (simp_all add: k_def dividend_less_div_times)
  then have b: "e + k * i \<le> unat now" "unat now < e + Suc k * i" using assms(5) by linarith+
  have sw: "tfd_sweep s now = s\<lparr> tf_count := tf_count s + word_of_nat (Suc k),
      tf_expiry_at := tf_expiry_at s + word_of_nat (Suc k) * tf_interval_ticks s \<rparr>"
    unfolding tfd_sweep_def
    using assms(3-) b by (intro tfd_sweep_loop_periodic) (simp_all add: i_def e_def k_def)
  have lt: "e + Suc k * i < 2 ^ 32" using b(1) assms(6) by simp
  have "tf_expiry_at s + word_of_nat (Suc k) * tf_interval_ticks s = word_of_nat (e + Suc k * i)"
    by (simp add: e_def i_def algebra_simps)
  then have x: "unat (tf_expiry_at s + word_of_nat (Suc k) * tf_interval_ticks s) = e + Suc k * i"
    using lt by (simp only: unat_of_nat32)
  have "tfd_sweep (tfd_sweep s now) now = tfd_sweep s now"
    unfolding tfd_sweep_def[of "tfd_sweep s now"]
    using x b assms(8) by (intro tfd_sweep_loop_not_due) (simp_all add: sw)
  then show ?thesis using x b unfolding Let_def k_def[symmetric] by (simp add: sw)
qed

theorem timerfd_sweep_exact_witness:
  "tf_count (tfd_sweep (tfd_example 10 3) 20) = 4 \<and> unat (tf_expiry_at (tfd_sweep (tfd_example 10 3) 20)) = 22"
  using timerfd_sweep_exact[of "tfd_example 10 3" 20] by (simp add: tfd_example_def Let_def)

text \<open>
  A one-shot timer armed through \<open>CACT_TIMERFD_SETTIME\<close> for \<open>v\<close> milliseconds fires on time:
  a non-blocking read at tick \<open>t\<close> reports \<open>EAGAIN\<close> before \<open>now + ceil(v / 10)\<close> and from
  then on exactly one expiration, for every \<open>v\<close> up to \<open>2^32 - 10\<close> (while the clock does not wrap).
\<close>

theorem timerfd_oneshot_on_time:
  assumes "timerfd_ioctl now now2 stk m n CACT_TIMERFD_SETTIME arg = (0, n', m')"
    and "a = bytes_spec (mem_read m arg 20)"
    and "ts_it_interval_ms a = 0" "\<not> flag (ts_flags a) CACT_TFD_TIMER_ABSTIME"
    and "0 < unat (ts_it_value_ms a)" "unat (ts_it_value_ms a) \<le> 2 ^ 32 - 10"
    and "d = unat now + (unat (ts_it_value_ms a) + 9) div 10" "d < 2 ^ 32"
    and "tfn_priv n = Some s" "flag (tf_flags s) CACT_TFD_NONBLOCK" "\<not> tfn_freed n"
    and "unat now \<le> unat t" "unat t < unat now + 2 ^ 31"
  shows "\<exists>w'. timerfd_read 8 [] \<lparr> tw_node = n', tw_now = t \<rparr> =
    Inl (if unat t < d then TRet (- EAGAIN) [] else TRet 8 (nat_le 8 1), w')"
proof -
  let ?v = "ms_to_ticks (ts_it_value_ms a)"
  have v: "unat ?v = (unat (ts_it_value_ms a) + 9) div 10"
    using assms(5,6) by (rule ms_to_ticks_ceil)
  then have v0: "?v \<noteq> 0" using assms(5) by (auto simp: div_eq_0_iff)
  have e: "unat (now + ?v) = d" using v assms(7,8) by (simp add: unat_word_ariths)
  have dpos: "0 < d" using v v0 assms(7) by (simp add: unat_gt_0 flip: v)
  have ops: "tfn_ops n" using assms(1) by (auto simp: timerfd_ioctl_def tfd_state_def split: if_splits)
  let ?s = "s\<lparr> tf_interval_ticks := 0, tf_count := 0, tf_expiry_at := now + ?v \<rparr>"
  have "spec_to_state s a now = ?s"
    using assms(3,4) v0 by (simp add: spec_to_state_def Let_def) (simp add: ms_to_ticks_def)
  moreover have "n' = n\<lparr> tfn_priv := Some (spec_to_state s a now) \<rparr>"
    using assms(1,2,9) ops
    by (auto simp: timerfd_ioctl_def tfd_state_def timerfd_settime_def copy_from_user_def Let_def
        split: if_splits prod.splits)
  ultimately have n': "n' = n\<lparr> tfn_priv := Some ?s \<rparr>" by simp
  have nz: "now + ?v \<noteq> 0" using e dpos by auto
  have lim: "d < unat t + 2 ^ 31" "unat t < d + 2 ^ 31" using assms(6,7,12,13) by simp_all
  have sw: "tfd_sweep ?s t = (if d \<le> unat t then ?s\<lparr> tf_count := 1, tf_expiry_at := 0 \<rparr> else ?s)"
    using tfd_sweep_oneshot[of ?s t] e nz lim by simp
  show ?thesis
    using assms(10,11) ops
    by (simp add: timerfd_read_def tfd_state_def n' timerfd_read_step_def Let_def sw not_less)
qed

definition tfd_example_node :: "timerfd_state \<Rightarrow> tfd_node" where
  "tfd_example_node s = \<lparr> tfn_ops = True, tfn_refcount = 1, tfn_priv = Some s, tfn_freed = False \<rparr>"

definition tfd_example_spec :: cact_timerfd_spec where
  "tfd_example_spec = \<lparr> ts_flags = 0, ts_it_value_ms = 25, ts_it_interval_ms = 0,
     ts_old_value_ms = 0, ts_old_interval_ms = 0 \<rparr>"

theorem timerfd_oneshot_on_time_witness:
  "let m = mem_write (\<lambda>_. 0) 0x08000000 (spec_bytes tfd_example_spec);
       p = timerfd_ioctl 7 7 tfd_example_spec m (tfd_example_node (tfd_example 0 0)) 0x3A10 0x08000000
   in fst p = 0 \<and>
      (\<exists>w. timerfd_read 8 [] \<lparr> tw_node = fst (snd p), tw_now = 9 \<rparr> = Inl (TRet (- EAGAIN) [], w)) \<and>
      (\<exists>w. timerfd_read 8 [] \<lparr> tw_node = fst (snd p), tw_now = 10 \<rparr> = Inl (TRet 8 (nat_le 8 1), w))"
proof -
  let ?m = "mem_write (\<lambda>_. 0) 0x08000000 (spec_bytes tfd_example_spec)"
  let ?s = "tfd_example 0 0"
  let ?p = "timerfd_ioctl 7 7 tfd_example_spec ?m (tfd_example_node ?s) 0x3A10 0x08000000"
  have r: "fst ?p = 0" by code_simp
  then have p: "?p = (0, fst (snd ?p), snd (snd ?p))" by (metis prod.collapse)
  have a: "tfd_example_spec = bytes_spec (mem_read ?m 0x08000000 20)" by code_simp
  have f: "ts_it_interval_ms tfd_example_spec = 0" "ts_it_value_ms tfd_example_spec = 25"
    "\<not> flag (ts_flags tfd_example_spec) 1" by (simp_all add: tfd_example_spec_def flag_def)
  have n: "tfn_priv (tfd_example_node ?s) = Some ?s" "\<not> tfn_freed (tfd_example_node ?s)"
    by (simp_all add: tfd_example_node_def)
  have g: "flag (tf_flags ?s) 0x800" by (simp add: tfd_example_def flag_def)
  show ?thesis
    using timerfd_oneshot_on_time[OF p a f(1,3) _ _ refl _ n(1) g n(2), of 9]
      timerfd_oneshot_on_time[OF p a f(1,3) _ _ refl _ n(1) g n(2), of 10] r f(2)
    unfolding Let_def by simp
qed

section \<open>Where the code departs from its interface\<close>

text \<open>
  A request of \<open>2^32 - 9\<close> ms or more wraps in the rounding and becomes a request of one tick.
\<close>

lemma timerfd_huge_timeout_is_one_tick:
  assumes "2 ^ 32 - 9 \<le> unat ms"
  shows "ms_to_ticks ms = 1"
proof -
  have b: "unat ms < 2 ^ 32" using unsigned_less[of ms] by simp
  have e: "ms + 10 - 1 = ms + 9" by simp
  have "unat (ms + 9) = unat ms + 9 - 2 ^ 32"
    using assms b by (subst unat_word_ariths) (simp add: mod_if)
  then have "unat ((ms + 10 - 1) div 10) = 0" using b unfolding e by (simp add: unat_div)
  then have "(ms + 10 - 1) div 10 = 0" by (simp only: unat_eq_0)
  moreover have "ms \<noteq> 0" using assms by auto
  ultimately show ?thesis by (simp add: ms_to_ticks_def)
qed

text \<open>
  A periodic timer that is not looked at for 100001 periods is disarmed for good (with a period of
  one tick, after less than 17 minutes).
\<close>

lemma tfd_sweep_loop_gives_up:
  fixes s :: timerfd_state
  assumes "g + k = 100000" "0 < unat (tf_interval_ticks s)" "0 < unat (tf_expiry_at s)"
    and "unat (tf_expiry_at s) + k * unat (tf_interval_ticks s) \<le> unat now"
    and "unat now < unat (tf_expiry_at s) + 2 ^ 31"
  shows "tf_expiry_at (tfd_sweep_loop g now s) = 0"
  using assms
proof (induction k arbitrary: g s)
  case (0 g s)
  then have "tfd_expired now (tf_expiry_at s)" by (subst tfd_expired_iff) simp_all
  then show ?case using 0 by (subst tfd_sweep_loop.simps) (simp add: Let_def unat_gt_0)
next
  case (Suc k g s)
  let ?s = "s\<lparr> tf_count := tf_count s + 1, tf_expiry_at := tf_expiry_at s + tf_interval_ticks s \<rparr>"
  have e: "tfd_expired now (tf_expiry_at s)" using Suc.prems by (subst tfd_expired_iff) simp_all
  have "unat now < 2 ^ 32" using unsigned_less[of now] by simp
  then have n: "unat (tf_expiry_at s + tf_interval_ticks s) = unat (tf_expiry_at s) + unat (tf_interval_ticks s)"
    using Suc.prems by (subst unat_word_ariths) simp
  have "tf_expiry_at (tfd_sweep_loop (Suc g) now ?s) = 0"
    using Suc.prems n by (intro Suc.IH) simp_all
  then show ?case
    using Suc.prems e n by (simp add: tfd_sweep_loop.simps[of g] Let_def word_le_nat_alt unat_gt_0)
qed

lemma timerfd_unread_timer_dies:
  assumes "0 < unat (tf_interval_ticks s)" "0 < unat (tf_expiry_at s)"
    and "unat (tf_expiry_at s) + 100000 * unat (tf_interval_ticks s) \<le> unat now"
    and "unat now < unat (tf_expiry_at s) + 2 ^ 31"
  shows "tf_expiry_at (tfd_sweep s now) = 0"
  unfolding tfd_sweep_def using assms by (intro tfd_sweep_loop_gives_up[where k = 100000]) simp_all

text \<open>
  \<open>CACT_TIMERFD_SETTIME\<close> returns two words of the kernel stack to the caller: the fields
  \<open>it_value_ms\<close> and \<open>it_interval_ms\<close> of the reply are never set.
\<close>

lemma timerfd_settime_leaks_stack:
  "ts_it_value_ms (snd (timerfd_settime s now a stk)) = ts_it_value_ms stk \<and>
   ts_it_interval_ms (snd (timerfd_settime s now a stk)) = ts_it_interval_ms stk"
  by (simp add: timerfd_settime_def)

text \<open>An absolute deadline that has passed is stored as \<open>now - 1\<close>, which at tick 1 means disarmed.\<close>

lemma timerfd_abstime_at_tick_one:
  assumes "flag (ts_flags a) CACT_TFD_TIMER_ABSTIME" "ts_it_value_ms a = 5"
  shows "tf_expiry_at (spec_to_state s a 1) = 0"
  using assms by (simp add: spec_to_state_def ms_to_ticks_def tfd_expired_def Let_def)

end
