(* ===== verification/Mqueue.thy ===== *)
theory Mqueue
  imports Usermem Heap "HOL-Library.Multiset"
begin

text \<open>
  The POSIX message-queue filesystem of \<open>Cact/fs/mqueue/mqueue.c\<close>: the priority-ordered
  message list, the byte budget that all queues share, the directory layer with its
  reference-counted nodes, the blocking send and receive calls and the attribute and notification
  calls. Nodes live in a heap from addresses to nodes, so that unlinking a queue that is still
  open, and the release of a node, are explicit. A call that finds its node gone has the outcome
  \<open>MUseAfterFree\<close>.
\<close>

section \<open>State\<close>

abbreviation (input) MQ_NAME_LEN :: nat where "MQ_NAME_LEN \<equiv> 128"
abbreviation (input) MQ_MAXMSG_MAX :: int where "MQ_MAXMSG_MAX \<equiv> 256"
abbreviation (input) MQ_MSGSIZE_MAX :: int where "MQ_MSGSIZE_MAX \<equiv> 8192"
abbreviation (input) MQ_BYTES_MAX :: u32 where "MQ_BYTES_MAX \<equiv> 4194304"
abbreviation (input) MQ_DEFAULT_MAXMSG :: int where "MQ_DEFAULT_MAXMSG \<equiv> 10"
abbreviation (input) MQ_DEFAULT_MSGSIZE :: int where "MQ_DEFAULT_MSGSIZE \<equiv> 8192"
abbreviation (input) MQ_PRIO_MAX :: u32 where "MQ_PRIO_MAX \<equiv> 32"
abbreviation (input) MQ_O_ACCMODE :: u32 where "MQ_O_ACCMODE \<equiv> 3"
abbreviation (input) MQ_O_WRONLY :: u32 where "MQ_O_WRONLY \<equiv> 1"
abbreviation (input) MQ_O_NONBLOCK :: u32 where "MQ_O_NONBLOCK \<equiv> 0x800"
abbreviation (input) SIZEOF_MQ_MSG :: nat where "SIZEOF_MQ_MSG \<equiv> 12"

record mq_msg =
  mm_prio :: u32
  mm_data :: bytes \<comment> \<open>\<open>m->len\<close> is its length\<close>

definition mm_len :: "mq_msg \<Rightarrow> nat" where
  "mm_len m = length (mm_data m)"

record mqueue =
  mq_maxmsg :: int
  mq_msgsize :: int
  mq_curmsgs :: u32
  mq_configured :: bool
  mq_head :: "mq_msg list"
  mq_notify_pid :: u32
  mq_notify_sig :: u32

datatype mq_priv = PQueue mqueue | PDir "(bytes \<times> nat) list"

record mq_node =
  mn_name :: bytes
  mn_dir :: bool \<comment> \<open>\<open>type == VFS_DIRECTORY\<close>\<close>
  mn_inode :: u32
  mn_refcount :: u32
  mn_priv :: mq_priv

text \<open>The module's state: the heap of nodes, the inode counter and the shared byte budget.\<close>

record mqfs =
  fs_nodes :: "(nat \<times> mq_node) list"
  fs_inode_ctr :: u32
  fs_bytes :: u32

definition mq_node_at :: "mqfs \<Rightarrow> nat \<Rightarrow> mq_node option" where
  "mq_node_at fs a = map_of (fs_nodes fs) a"

definition mq_set_node :: "nat \<Rightarrow> mq_node \<Rightarrow> mqfs \<Rightarrow> mqfs" where
  "mq_set_node a n fs = fs\<lparr> fs_nodes := AList.update a n (fs_nodes fs) \<rparr>"

definition mq_queue_at :: "mqfs \<Rightarrow> nat \<Rightarrow> mqueue option" where
  "mq_queue_at fs a = (case mq_node_at fs a of
     Some n \<Rightarrow> (case mn_priv n of PQueue q \<Rightarrow> Some q | PDir _ \<Rightarrow> None) | None \<Rightarrow> None)"

definition mq_set_queue :: "nat \<Rightarrow> mqueue \<Rightarrow> mqfs \<Rightarrow> mqfs" where
  "mq_set_queue a q fs = (case mq_node_at fs a of
     Some n \<Rightarrow> mq_set_node a (n\<lparr> mn_priv := PQueue q \<rparr>) fs | None \<Rightarrow> fs)"

definition mq_children :: "mqfs \<Rightarrow> nat \<Rightarrow> (bytes \<times> nat) list option" where
  "mq_children fs a = (case mq_node_at fs a of
     Some n \<Rightarrow> (case mn_priv n of PDir es \<Rightarrow> Some es | PQueue _ \<Rightarrow> None) | None \<Rightarrow> None)"

definition mq_set_children :: "nat \<Rightarrow> (bytes \<times> nat) list \<Rightarrow> mqfs \<Rightarrow> mqfs" where
  "mq_set_children a es fs = (case mq_node_at fs a of
     Some n \<Rightarrow> mq_set_node a (n\<lparr> mn_priv := PDir es \<rparr>) fs | None \<Rightarrow> fs)"

section \<open>Byte budget and message list\<close>

definition mq_reserve_bytes :: "nat \<Rightarrow> mqfs \<Rightarrow> bool \<times> mqfs" where
  "mq_reserve_bytes n fs =
     (let b = fs_bytes fs + word_of_nat n in
      if b > MQ_BYTES_MAX then (False, fs\<lparr> fs_bytes := b - word_of_nat n \<rparr>)
      else (True, fs\<lparr> fs_bytes := b \<rparr>))"

definition mq_release_bytes :: "nat \<Rightarrow> mqfs \<Rightarrow> mqfs" where
  "mq_release_bytes n fs = fs\<lparr> fs_bytes := fs_bytes fs - word_of_nat n \<rparr>"

text \<open>\<open>alloc\<close> is whether \<open>kmalloc\<close> succeeds; the caller fills in priority and data.\<close>

definition mq_alloc_msg :: "bool \<Rightarrow> nat \<Rightarrow> mqfs \<Rightarrow> bool \<times> mqfs" where
  "mq_alloc_msg alloc len fs =
     (let total = SIZEOF_MQ_MSG + len;
          (ok, fs1) = mq_reserve_bytes total fs
      in if \<not> ok then (False, fs1)
         else if \<not> alloc then (False, mq_release_bytes total fs1)
         else (True, fs1))"

definition mq_free_msg :: "mq_msg \<Rightarrow> mqfs \<Rightarrow> mqfs" where
  "mq_free_msg m fs = mq_release_bytes (SIZEOF_MQ_MSG + mm_len m) fs"

fun mq_enqueue :: "mq_msg \<Rightarrow> mq_msg list \<Rightarrow> mq_msg list" where
  "mq_enqueue m [] = [m]"
| "mq_enqueue m (x # xs) = (if mm_prio x \<ge> mm_prio m then x # mq_enqueue m xs else m # x # xs)"

definition mq_dequeue :: "mqueue \<Rightarrow> mq_msg option \<times> mqueue" where
  "mq_dequeue q = (case mq_head q of [] \<Rightarrow> (None, q)
     | m # ms \<Rightarrow> (Some m, q\<lparr> mq_head := ms, mq_curmsgs := mq_curmsgs q - 1 \<rparr>))"

definition mq_free_node :: "nat \<Rightarrow> mqfs \<Rightarrow> mqfs" where
  "mq_free_node a fs =
     (let fs1 = (case mq_queue_at fs a of None \<Rightarrow> fs | Some q \<Rightarrow> fold mq_free_msg (mq_head q) fs)
      in fs1\<lparr> fs_nodes := AList.delete a (fs_nodes fs1) \<rparr>)"

section \<open>Directory layer and node lifetime\<close>

text \<open>
  Names are the bytes before the terminator. The VFS calls \<open>walk\<close> and \<open>readdir\<close> on directory
  nodes only.
\<close>

definition mq_find_dirent :: "(bytes \<times> nat) list \<Rightarrow> bytes \<Rightarrow> nat option" where
  "mq_find_dirent es name = map_of es name"

definition mq_ref :: "nat \<Rightarrow> mqfs \<Rightarrow> mqfs" where
  "mq_ref a fs = (case mq_node_at fs a of None \<Rightarrow> fs
     | Some n \<Rightarrow> mq_set_node a (n\<lparr> mn_refcount := mn_refcount n + 1 \<rparr>) fs)"

definition mq_add_dirent :: "bool \<Rightarrow> nat \<Rightarrow> bytes \<Rightarrow> nat \<Rightarrow> mqfs \<Rightarrow> int \<times> mqfs" where
  "mq_add_dirent alloc dir name node fs =
     (case mq_children fs dir of None \<Rightarrow> (-1, fs)
      | Some es \<Rightarrow>
         if mq_find_dirent es name \<noteq> None then (-1, fs)
         else if \<not> alloc then (-1, fs)
         else (0, mq_ref node (mq_set_children dir ((take (MQ_NAME_LEN - 1) name, node) # es) fs)))"

definition mq_walk :: "mqfs \<Rightarrow> nat \<Rightarrow> bytes \<Rightarrow> nat option" where
  "mq_walk fs dir name = (case mq_children fs dir of None \<Rightarrow> None | Some es \<Rightarrow> mq_find_dirent es name)"

definition mq_readdir :: "mqfs \<Rightarrow> nat \<Rightarrow> nat \<Rightarrow> (bytes \<times> u32) option" where
  "mq_readdir fs dir index =
     (case mq_children fs dir of None \<Rightarrow> None
      | Some es \<Rightarrow>
         if index < length es then
           (let (name, a) = es ! index in
            map_option (\<lambda>n. (take 127 name, mn_inode n)) (mq_node_at fs a))
         else None)"

text \<open>
  \<open>_mq_create\<close>: \<open>node\<close> and \<open>qalloc\<close>, \<open>dalloc\<close> are the results of the three allocations
  (\<open>None\<close> / \<open>False\<close> for a failure; the address of the new node otherwise).
\<close>

definition mq_create :: "nat option \<Rightarrow> bool \<Rightarrow> bool \<Rightarrow> nat \<Rightarrow> bytes \<Rightarrow> mqfs \<Rightarrow> int \<times> mqfs" where
  "mq_create node qalloc dalloc dir name fs =
     (case mq_children fs dir of None \<Rightarrow> (-1, fs)
      | Some es \<Rightarrow>
         if mq_find_dirent es name \<noteq> None then (-1, fs)
         else case node of None \<Rightarrow> (-1, fs)
         | Some a \<Rightarrow>
            if \<not> qalloc then (-1, fs)
            else
              let q = \<lparr> mq_maxmsg = MQ_DEFAULT_MAXMSG, mq_msgsize = MQ_DEFAULT_MSGSIZE,
                        mq_curmsgs = 0, mq_configured = False, mq_head = [],
                        mq_notify_pid = 0, mq_notify_sig = 0 \<rparr>;
                  n = \<lparr> mn_name = take 127 name, mn_dir = False, mn_inode = fs_inode_ctr fs,
                        mn_refcount = 0, mn_priv = PQueue q \<rparr>;
                  fs1 = (mq_set_node a n fs)\<lparr> fs_inode_ctr := fs_inode_ctr fs + 1 \<rparr>;
                  (rc, fs2) = mq_add_dirent dalloc dir name a fs1
              in if rc \<noteq> 0 then (-1, fs2\<lparr> fs_nodes := AList.delete a (fs_nodes fs2) \<rparr>)
                 else (0, fs2))"

text \<open>
  Drop one reference and free the node with the last one; \<open>_mq_close\<close> frees files only
  (\<open>only_file\<close>), \<open>_mq_delete\<close> does not look at the type.
\<close>

definition mq_unref :: "bool \<Rightarrow> nat \<Rightarrow> mqfs \<Rightarrow> mqfs" where
  "mq_unref only_file a fs = (case mq_node_at fs a of None \<Rightarrow> fs
     | Some n \<Rightarrow>
        (let fs1 = mq_set_node a (n\<lparr> mn_refcount := mn_refcount n - 1 \<rparr>) fs
         in if mn_refcount n = 1 \<and> (only_file \<longrightarrow> \<not> mn_dir n) then mq_free_node a fs1 else fs1))"

fun mq_unlink :: "bytes \<Rightarrow> (bytes \<times> nat) list \<Rightarrow> (bytes \<times> nat) list" where
  "mq_unlink name [] = []"
| "mq_unlink name ((k, a) # es) = (if k = name then es else (k, a) # mq_unlink name es)"

definition mq_delete :: "nat \<Rightarrow> bytes \<Rightarrow> mqfs \<Rightarrow> int \<times> mqfs" where
  "mq_delete dir name fs =
     (case mq_children fs dir of None \<Rightarrow> (-1, fs)
      | Some es \<Rightarrow>
         (case mq_find_dirent es name of None \<Rightarrow> (-1, fs)
          | Some a \<Rightarrow> (0, mq_unref False a (mq_set_children dir (mq_unlink name es) fs))))"

definition mq_open :: "nat \<Rightarrow> mqfs \<Rightarrow> mqfs" where
  "mq_open a fs = mq_ref a fs"

definition mq_close :: "nat \<Rightarrow> mqfs \<Rightarrow> mqfs" where
  "mq_close a fs = (case mq_node_at fs a of None \<Rightarrow> fs
     | Some n \<Rightarrow> if mn_refcount n = 0 then fs else mq_unref True a fs)"

definition mqueue_create_root :: "nat option \<Rightarrow> bool \<Rightarrow> bytes option \<Rightarrow> mqfs \<Rightarrow> nat option \<times> mqfs" where
  "mqueue_create_root node dalloc name fs =
     (case node of None \<Rightarrow> (None, fs)
      | Some a \<Rightarrow>
         if \<not> dalloc then (None, fs)
         else (Some a,
           (mq_set_node a \<lparr> mn_name = take 127 (case name of Some s \<Rightarrow> s | None \<Rightarrow> cs ''mqueue''),
                            mn_dir = True, mn_inode = fs_inode_ctr fs, mn_refcount = 1,
                            mn_priv = PDir [] \<rparr> fs)\<lparr> fs_inode_ctr := fs_inode_ctr fs + 1 \<rparr>))"

section \<open>System calls on a queue\<close>

text \<open>
  What the calls see of the rest of the system: the filesystem, the caller's address space, the
  tick counter, whether a catchable signal is pending for the caller, whether the next \<open>kmalloc\<close>
  succeeds, and the signals that \<open>task_signal\<close> has been asked to send (process, signal bit).
\<close>

record mq_world =
  mw_fs :: mqfs
  mw_mem :: umem
  mw_now :: u32
  mw_sigpend :: bool
  mw_alloc :: bool
  mw_signals :: "(u32 \<times> u32) list"

datatype mq_ret = MRet int | MUseAfterFree

record cact_mq_msg =
  cm_ptr :: u32
  cm_len :: u32
  cm_prio :: u32
  cm_timeout :: u32

record cact_mq_attr =
  ca_flags :: u32
  ca_maxmsg :: u32
  ca_msgsize :: u32
  ca_curmsgs :: u32

definition bytes_mq_msg :: "bytes \<Rightarrow> cact_mq_msg" where
  "bytes_mq_msg bs = \<lparr> cm_ptr = rd32 bs 0, cm_len = rd32 bs 4, cm_prio = rd32 bs 8, cm_timeout = rd32 bs 12 \<rparr>"

definition mq_msg_bytes :: "cact_mq_msg \<Rightarrow> bytes" where
  "mq_msg_bytes a = nat_le 4 (unat (cm_ptr a)) @ nat_le 4 (unat (cm_len a)) @
     nat_le 4 (unat (cm_prio a)) @ nat_le 4 (unat (cm_timeout a))"

definition bytes_mq_attr :: "bytes \<Rightarrow> cact_mq_attr" where
  "bytes_mq_attr bs = \<lparr> ca_flags = rd32 bs 0, ca_maxmsg = rd32 bs 4, ca_msgsize = rd32 bs 8, ca_curmsgs = rd32 bs 12 \<rparr>"

text \<open>The four reserved words are zero (\<open>memset\<close>).\<close>

definition mq_attr_bytes :: "cact_mq_attr \<Rightarrow> bytes" where
  "mq_attr_bytes a = nat_le 4 (unat (ca_flags a)) @ nat_le 4 (unat (ca_maxmsg a)) @
     nat_le 4 (unat (ca_msgsize a)) @ nat_le 4 (unat (ca_curmsgs a)) @ nat_le 16 0"

record mq_wait =
  wt_infinite :: bool
  wt_poll :: bool
  wt_deadline :: u32

definition mq_wait_init :: "u32 \<Rightarrow> u32 \<Rightarrow> u32 \<Rightarrow> mq_wait" where
  "mq_wait_init flags timeout_ms now =
     (let t = (if flag flags MQ_O_NONBLOCK then 0 else timeout_ms);
          inf = (sint t < 0); pl = (t = 0)
      in \<lparr> wt_infinite = inf, wt_poll = pl,
           wt_deadline = (if \<not> inf \<and> \<not> pl then now + (t + 9) div 10 else 0) \<rparr>)"

text \<open>A result of 0 means: slept one tick, look again.\<close>

definition mq_wait_step :: "mq_wait \<Rightarrow> mq_world \<Rightarrow> int" where
  "mq_wait_step wt w =
     (if wt_poll wt then - EAGAIN
      else if mw_sigpend w then - EINTR
      else if \<not> wt_infinite wt \<and> sint (mw_now w - wt_deadline wt) \<ge> 0 then - ETIMEDOUT
      else 0)"

definition mq_do_init :: "nat \<Rightarrow> u32 \<Rightarrow> mq_world \<Rightarrow> mq_ret \<times> mq_world" where
  "mq_do_init node arg w =
     (if arg = 0 then (MRet (- EINVAL), w)
      else case copy_from_user (mw_mem w) arg 32 of None \<Rightarrow> (MRet (- EFAULT), w)
      | Some bs \<Rightarrow>
         (case mq_queue_at (mw_fs w) node of None \<Rightarrow> (MUseAfterFree, w)
          | Some q \<Rightarrow>
             (let a = bytes_mq_attr bs; mx = sint (ca_maxmsg a); sz = sint (ca_msgsize a) in
              if mq_configured q then (MRet (- EINVAL), w)
              else if mx \<le> 0 \<or> mx > MQ_MAXMSG_MAX then (MRet (- EINVAL), w)
              else if sz \<le> 0 \<or> sz > MQ_MSGSIZE_MAX then (MRet (- EINVAL), w)
              else (MRet 0, w\<lparr> mw_fs := mq_set_queue node
                     (q\<lparr> mq_maxmsg := mx, mq_msgsize := sz, mq_configured := True \<rparr>) (mw_fs w) \<rparr>))))"

definition mq_send_step :: "nat \<Rightarrow> cact_mq_msg \<Rightarrow> mq_wait \<Rightarrow> mq_world \<Rightarrow> (mq_ret \<times> mq_world) + mq_world" where
  "mq_send_step node a wt w =
     (case mq_queue_at (mw_fs w) node of None \<Rightarrow> Inl (MUseAfterFree, w)
      | Some q \<Rightarrow>
         if cm_len a > word_of_int (mq_msgsize q) then Inl (MRet (- EMSGSIZE), w)
         else if mq_curmsgs q < word_of_int (mq_maxmsg q) then
           (let (ok, fs1) = mq_alloc_msg (mw_alloc w) (unat (cm_len a)) (mw_fs w) in
            if \<not> ok then Inl (MRet (- ENOMEM), w\<lparr> mw_fs := fs1 \<rparr>)
            else case copy_from_user (mw_mem w) (cm_ptr a) (unat (cm_len a)) of
              None \<Rightarrow> Inl (MRet (- EFAULT),
                        w\<lparr> mw_fs := mq_release_bytes (SIZEOF_MQ_MSG + unat (cm_len a)) fs1 \<rparr>)
            | Some dat \<Rightarrow>
               (let m = \<lparr> mm_prio = cm_prio a, mm_data = dat \<rparr>;
                    q1 = q\<lparr> mq_head := mq_enqueue m (mq_head q), mq_curmsgs := mq_curmsgs q + 1 \<rparr>;
                    notify = (mq_curmsgs q1 = 1 \<and> mq_notify_pid q1 \<noteq> 0);
                    q2 = (if notify then q1\<lparr> mq_notify_pid := 0, mq_notify_sig := 0 \<rparr> else q1)
                in Inl (MRet 0, w\<lparr> mw_fs := mq_set_queue node q2 fs1,
                     mw_signals := mw_signals w @
                       (if notify then [(mq_notify_pid q1, mq_notify_sig q1)] else []) \<rparr>)))
         else (let rc = mq_wait_step wt w in if rc \<noteq> 0 then Inl (MRet rc, w) else Inr w))"

definition mq_do_send ::
  "nat \<Rightarrow> u32 \<Rightarrow> u32 \<Rightarrow> (mq_world \<Rightarrow> mq_world) list \<Rightarrow> mq_world \<Rightarrow> (mq_ret \<times> mq_world) + mq_world" where
  "mq_do_send node flags arg others w =
     (if arg = 0 then Inl (MRet (- EINVAL), w)
      else case copy_from_user (mw_mem w) arg 16 of None \<Rightarrow> Inl (MRet (- EFAULT), w)
      | Some bs \<Rightarrow>
         (let a = bytes_mq_msg bs in
          if cm_ptr a = 0 \<or> cm_len a = 0 then Inl (MRet (- EINVAL), w)
          else if \<not> validate_user_ptr (cm_ptr a) (cm_len a) then Inl (MRet (- EFAULT), w)
          else if cm_prio a \<ge> MQ_PRIO_MAX then Inl (MRet (- EINVAL), w)
          else if flags AND MQ_O_ACCMODE = 0 then Inl (MRet (- EBADF), w)
          else run_blocking (mq_send_step node a (mq_wait_init flags (cm_timeout a) (mw_now w))) others w))"

definition mq_receive_step ::
  "nat \<Rightarrow> u32 \<Rightarrow> cact_mq_msg \<Rightarrow> mq_wait \<Rightarrow> mq_world \<Rightarrow> (mq_ret \<times> mq_world) + mq_world" where
  "mq_receive_step node arg a wt w =
     (case mq_queue_at (mw_fs w) node of None \<Rightarrow> Inl (MUseAfterFree, w)
      | Some q \<Rightarrow>
         (case mq_dequeue q of
            (Some m, q1) \<Rightarrow>
              (let (rc, mem1) = copy_to_user (mw_mem w) (cm_ptr a) (mm_data m);
                   w1 = w\<lparr> mw_fs := mq_free_msg m (mq_set_queue node q1 (mw_fs w)), mw_mem := mem1 \<rparr>
               in if rc \<noteq> 0 then Inl (MRet (- EFAULT), w1)
                  else let (r, mem2) = copy_to_user mem1 arg
                             (mq_msg_bytes (a\<lparr> cm_len := word_of_nat (mm_len m), cm_prio := mm_prio m \<rparr>))
                       in Inl (MRet r, w1\<lparr> mw_mem := mem2 \<rparr>))
          | (None, _) \<Rightarrow>
              (let rc = mq_wait_step wt w in if rc \<noteq> 0 then Inl (MRet rc, w) else Inr w)))"

definition mq_do_receive ::
  "nat \<Rightarrow> u32 \<Rightarrow> u32 \<Rightarrow> (mq_world \<Rightarrow> mq_world) list \<Rightarrow> mq_world \<Rightarrow> (mq_ret \<times> mq_world) + mq_world" where
  "mq_do_receive node flags arg others w =
     (if arg = 0 then Inl (MRet (- EINVAL), w)
      else case copy_from_user (mw_mem w) arg 16 of None \<Rightarrow> Inl (MRet (- EFAULT), w)
      | Some bs \<Rightarrow>
         (let a = bytes_mq_msg bs in
          if cm_ptr a = 0 \<or> cm_len a = 0 then Inl (MRet (- EINVAL), w)
          else if \<not> validate_user_ptr (cm_ptr a) (cm_len a) then Inl (MRet (- EFAULT), w)
          else if flags AND MQ_O_ACCMODE = MQ_O_WRONLY then Inl (MRet (- EBADF), w)
          else case mq_queue_at (mw_fs w) node of None \<Rightarrow> Inl (MUseAfterFree, w)
          | Some q \<Rightarrow>
             if cm_len a < word_of_int (mq_msgsize q) then Inl (MRet (- EMSGSIZE), w)
             else run_blocking
               (mq_receive_step node arg a (mq_wait_init flags (cm_timeout a) (mw_now w))) others w))"

definition mq_attr_of :: "mqueue \<Rightarrow> u32 \<Rightarrow> cact_mq_attr" where
  "mq_attr_of q flags =
     \<lparr> ca_flags = (if flag flags MQ_O_NONBLOCK then MQ_O_NONBLOCK else 0),
       ca_maxmsg = word_of_int (mq_maxmsg q), ca_msgsize = word_of_int (mq_msgsize q),
       ca_curmsgs = mq_curmsgs q \<rparr>"

definition mq_do_getattr :: "nat \<Rightarrow> u32 \<Rightarrow> u32 \<Rightarrow> mq_world \<Rightarrow> mq_ret \<times> mq_world" where
  "mq_do_getattr node flags arg w =
     (if arg = 0 then (MRet (- EINVAL), w)
      else case mq_queue_at (mw_fs w) node of None \<Rightarrow> (MUseAfterFree, w)
      | Some q \<Rightarrow>
         (let (r, m1) = copy_to_user (mw_mem w) arg (mq_attr_bytes (mq_attr_of q flags))
          in (MRet r, w\<lparr> mw_mem := m1 \<rparr>)))"

text \<open>The second component is the descriptor's new flag word.\<close>

definition mq_do_setattr :: "nat \<Rightarrow> u32 \<Rightarrow> u32 \<Rightarrow> mq_world \<Rightarrow> mq_ret \<times> u32 \<times> mq_world" where
  "mq_do_setattr node flags arg w =
     (if arg = 0 then (MRet (- EINVAL), flags, w)
      else case copy_from_user (mw_mem w) arg 32 of None \<Rightarrow> (MRet (- EFAULT), flags, w)
      | Some bs \<Rightarrow>
         (case mq_queue_at (mw_fs w) node of None \<Rightarrow> (MUseAfterFree, flags, w)
          | Some q \<Rightarrow>
             (let fl = (if flag (ca_flags (bytes_mq_attr bs)) MQ_O_NONBLOCK
                        then flags OR MQ_O_NONBLOCK else flags AND NOT MQ_O_NONBLOCK);
                  (r, m1) = copy_to_user (mw_mem w) arg (mq_attr_bytes (mq_attr_of q flags))
              in (MRet r, fl, w\<lparr> mw_mem := m1 \<rparr>))))"

text \<open>\<open>me\<close> is the caller's process id, 0 when there is no current task.\<close>

definition mq_do_notify :: "nat \<Rightarrow> u32 \<Rightarrow> u32 \<Rightarrow> mq_world \<Rightarrow> mq_ret \<times> mq_world" where
  "mq_do_notify node me arg w =
     (if arg = 0 then (MRet (- EINVAL), w)
      else case copy_from_user (mw_mem w) arg 4 of None \<Rightarrow> (MRet (- EFAULT), w)
      | Some bs \<Rightarrow>
         (case mq_queue_at (mw_fs w) node of None \<Rightarrow> (MUseAfterFree, w)
          | Some q \<Rightarrow>
             (let signo = rd32 bs 0 in
              if signo = 0 then
                (MRet 0, w\<lparr> mw_fs := mq_set_queue node
                   (q\<lparr> mq_notify_pid := 0, mq_notify_sig := 0 \<rparr>) (mw_fs w) \<rparr>)
              else if me = 0 then (MRet (- EINVAL), w)
              else if mq_notify_pid q \<noteq> 0 then (MRet (- EBUSY), w)
              else if mq_curmsgs q > 0 then
                (MRet 0, w\<lparr> mw_signals := mw_signals w @ [(me, signo)] \<rparr>)
              else (MRet 0, w\<lparr> mw_fs := mq_set_queue node
                      (q\<lparr> mq_notify_pid := me, mq_notify_sig := signo \<rparr>) (mw_fs w) \<rparr>))))"

abbreviation (input) CACT_MQCTL_INIT :: u32 where "CACT_MQCTL_INIT \<equiv> 0x4001"
abbreviation (input) CACT_MQCTL_SEND :: u32 where "CACT_MQCTL_SEND \<equiv> 0x4002"
abbreviation (input) CACT_MQCTL_RECEIVE :: u32 where "CACT_MQCTL_RECEIVE \<equiv> 0x4003"
abbreviation (input) CACT_MQCTL_GETATTR :: u32 where "CACT_MQCTL_GETATTR \<equiv> 0x4004"
abbreviation (input) CACT_MQCTL_SETATTR :: u32 where "CACT_MQCTL_SETATTR \<equiv> 0x4005"
abbreviation (input) CACT_MQCTL_NOTIFY :: u32 where "CACT_MQCTL_NOTIFY \<equiv> 0x4006"

text \<open>\<open>f\<close> is the descriptor's flag word, \<open>None\<close> when the file has no private pointer.\<close>

definition mq_ioctl ::
  "u32 \<Rightarrow> nat \<Rightarrow> u32 option \<Rightarrow> u32 \<Rightarrow> u32 \<Rightarrow> (mq_world \<Rightarrow> mq_world) list \<Rightarrow> mq_world \<Rightarrow>
     ((mq_ret \<times> u32 option) \<times> mq_world) + mq_world" where
  "mq_ioctl me node f cmd arg others w =
     (case f of None \<Rightarrow> Inl ((MRet (- EINVAL), f), w)
      | Some flags \<Rightarrow>
         let ret = (\<lambda>(r, w'). Inl ((r, f), w'));
             sleepy = (\<lambda>x. case x of Inl p \<Rightarrow> ret p | Inr w' \<Rightarrow> Inr w')
         in
         if cmd = CACT_MQCTL_INIT then ret (mq_do_init node arg w)
         else if cmd = CACT_MQCTL_SEND then sleepy (mq_do_send node flags arg others w)
         else if cmd = CACT_MQCTL_RECEIVE then sleepy (mq_do_receive node flags arg others w)
         else if cmd = CACT_MQCTL_GETATTR then ret (mq_do_getattr node flags arg w)
         else if cmd = CACT_MQCTL_SETATTR then
           (let (r, fl, w') = mq_do_setattr node flags arg w in Inl ((r, Some fl), w'))
         else if cmd = CACT_MQCTL_NOTIFY then ret (mq_do_notify node me arg w)
         else Inl ((MRet (- ENOTTY), f), w))"

definition mq_poll :: "mqfs \<Rightarrow> nat \<Rightarrow> u32 \<Rightarrow> u32" where
  "mq_poll fs node events =
     (case mq_queue_at fs node of None \<Rightarrow> VFS_POLLERR
      | Some q \<Rightarrow>
         (if flag events VFS_POLLIN \<and> mq_curmsgs q > 0 then VFS_POLLIN else 0) OR
         (if flag events VFS_POLLOUT \<and> mq_curmsgs q < word_of_int (mq_maxmsg q) then VFS_POLLOUT else 0))"

section \<open>Invariants\<close>

definition mq_msg_cost :: "mq_msg \<Rightarrow> nat" where
  "mq_msg_cost m = SIZEOF_MQ_MSG + mm_len m"

definition mq_queue_cost :: "mqueue \<Rightarrow> nat" where
  "mq_queue_cost q = sum_list (map mq_msg_cost (mq_head q))"

definition mq_node_cost :: "mq_node \<Rightarrow> nat" where
  "mq_node_cost n = (case mn_priv n of PQueue q \<Rightarrow> mq_queue_cost q | PDir _ \<Rightarrow> 0)"

text \<open>The directory entries of one node that name address \<open>a\<close>.\<close>

definition mq_node_links :: "nat \<Rightarrow> mq_node \<Rightarrow> nat" where
  "mq_node_links a n = (case mn_priv n of PQueue _ \<Rightarrow> 0 | PDir es \<Rightarrow> count_list (map snd es) a)"

abbreviation mq_total :: "mqfs \<Rightarrow> nat" where "mq_total fs \<equiv> heap_sum mq_node_cost (fs_nodes fs)"
abbreviation mq_links :: "mqfs \<Rightarrow> nat \<Rightarrow> nat" where "mq_links fs a \<equiv> heap_sum (mq_node_links a) (fs_nodes fs)"

definition mq_queue_ok :: "mqueue \<Rightarrow> bool" where
  "mq_queue_ok q \<longleftrightarrow>
     sorted_wrt (\<lambda>x y. mm_prio x \<ge> mm_prio y) (mq_head q) \<and>
     unat (mq_curmsgs q) = length (mq_head q) \<and> length (mq_head q) \<le> 256 \<and>
     0 < mq_maxmsg q \<and> mq_maxmsg q \<le> MQ_MAXMSG_MAX \<and>
     0 < mq_msgsize q \<and> mq_msgsize q \<le> MQ_MSGSIZE_MAX \<and>
     (\<forall>m \<in> set (mq_head q). mm_prio m < MQ_PRIO_MAX \<and> 0 < mm_len m \<and> mm_len m \<le> 8192)"

definition mq_node_ok :: "mq_node \<Rightarrow> bool" where
  "mq_node_ok n = (case mn_priv n of PQueue q \<Rightarrow> \<not> mn_dir n \<and> mq_queue_ok q | PDir _ \<Rightarrow> mn_dir n)"

text \<open>Heap shape and accounting.\<close>

definition mq_shape :: "mqfs \<Rightarrow> bool" where
  "mq_shape fs \<longleftrightarrow> distinct (map fst (fs_nodes fs)) \<and>
     (\<forall>a n. mq_node_at fs a = Some n \<longrightarrow> mq_node_ok n)"

definition mq_fs_ok :: "mqfs \<Rightarrow> bool" where
  "mq_fs_ok fs \<longleftrightarrow> mq_shape fs \<and> unat (fs_bytes fs) = mq_total fs \<and> mq_total fs \<le> 4194304"

text \<open>
  Reference counts, with \<open>opens\<close> the nodes the open descriptors of the system refer to, one entry
  per descriptor: a node's count is its links plus its descriptors (plus the mount's hold on a
  directory), and every node that is linked or open exists.
\<close>

definition mq_refs_ok :: "mqfs \<Rightarrow> nat list \<Rightarrow> bool" where
  "mq_refs_ok fs opens \<longleftrightarrow>
     (\<forall>a n. mq_node_at fs a = Some n \<longrightarrow>
        unat (mn_refcount n) = mq_links fs a + count_list opens a + (if mn_dir n then 1 else 0) \<and>
        mn_refcount n \<noteq> 0) \<and>
     (\<forall>a. 0 < mq_links fs a \<longrightarrow> (\<exists>n. mq_node_at fs a = Some n \<and> \<not> mn_dir n)) \<and>
     (\<forall>a. 0 < count_list opens a \<longrightarrow> mq_node_at fs a \<noteq> None)"

text \<open>
  The states the kernel can be in. \<open>mq_reach fs opens\<close>: the filesystem is \<open>fs\<close> and the open
  descriptors are \<open>opens\<close>. A fresh node gets an address that is not in use; the number of
  descriptors on one node stays below \<open>2^32 - 1\<close>.
\<close>

inductive mq_reach :: "mqfs \<Rightarrow> nat list \<Rightarrow> bool" where
  mq_reach_root: "mqueue_create_root (Some a) True name \<lparr> fs_nodes = [], fs_inode_ctr = 1, fs_bytes = 0 \<rparr> = (Some a, fs)
     \<Longrightarrow> mq_reach fs []"
| mq_reach_create: "mq_reach fs os \<Longrightarrow> (case node of Some a \<Rightarrow> mq_node_at fs a = None | None \<Rightarrow> True)
     \<Longrightarrow> mq_create node qa da dir name fs = (r, fs') \<Longrightarrow> mq_reach fs' os"
| mq_reach_delete: "mq_reach fs os \<Longrightarrow> mq_delete dir name fs = (r, fs') \<Longrightarrow> mq_reach fs' os"
| mq_reach_open: "mq_reach fs os \<Longrightarrow> mq_node_at fs a = Some n \<Longrightarrow> mn_refcount n \<noteq> - 1
     \<Longrightarrow> mq_reach (mq_open a fs) (a # os)"
| mq_reach_close: "mq_reach fs os \<Longrightarrow> a \<in> set os \<Longrightarrow> mq_reach (mq_close a fs) (remove1 a os)"
| mq_reach_init: "mq_reach (mw_fs w) os \<Longrightarrow> a \<in> set os \<Longrightarrow> mq_do_init a arg w = (r, w') \<Longrightarrow> mq_reach (mw_fs w') os"
| mq_reach_send: "mq_reach (mw_fs w) os \<Longrightarrow> a \<in> set os \<Longrightarrow> cm_prio c < MQ_PRIO_MAX \<Longrightarrow> cm_len c \<noteq> 0
     \<Longrightarrow> mq_send_step a c wt w = Inl (r, w') \<Longrightarrow> mq_reach (mw_fs w') os"
| mq_reach_receive: "mq_reach (mw_fs w) os \<Longrightarrow> a \<in> set os
     \<Longrightarrow> mq_receive_step a arg c wt w = Inl (r, w') \<Longrightarrow> mq_reach (mw_fs w') os"
| mq_reach_notify: "mq_reach (mw_fs w) os \<Longrightarrow> a \<in> set os \<Longrightarrow> mq_do_notify a me arg w = (r, w')
     \<Longrightarrow> mq_reach (mw_fs w') os"

section \<open>Lemmas on the message list\<close>

definition mq_key :: "mq_msg \<Rightarrow> int" where
  "mq_key m = - uint (mm_prio m)"

lemma mq_key_le: "mq_key x \<le> mq_key y \<longleftrightarrow> mm_prio y \<le> mm_prio x"
  by (simp add: mq_key_def word_le_def)

lemma mset_mq_enqueue [simp]: "mset (mq_enqueue m xs) = add_mset m (mset xs)"
  by (induction xs) auto

lemma set_mq_enqueue [simp]: "set (mq_enqueue m xs) = insert m (set xs)"
  by (induction xs) auto

lemma length_mq_enqueue [simp]: "length (mq_enqueue m xs) = Suc (length xs)"
  by (induction xs) auto

lemma sum_mq_enqueue: "sum_list (map f (mq_enqueue m xs)) = f m + sum_list (map f xs)" for f :: "mq_msg \<Rightarrow> nat"
  by (induction xs) auto

lemma sorted_mq_enqueue:
  "sorted_wrt (\<lambda>x y. mm_prio x \<ge> mm_prio y) xs \<Longrightarrow>
     sorted_wrt (\<lambda>x y. mm_prio x \<ge> mm_prio y) (mq_enqueue m xs)"
proof (induction xs)
  case (Cons x xs)
  show ?case
  proof (cases "mm_prio m \<le> mm_prio x")
    case True
    then show ?thesis using Cons by auto
  next
    case False
    then have "mm_prio y \<le> mm_prio m" if "y \<in> set (x # xs)" for y
      using Cons.prems that by (auto dest: order_trans)
    then show ?thesis using Cons.prems False by auto
  qed
qed simp

text \<open>Among messages of one priority the new one comes last.\<close>

lemma filter_mq_enqueue:
  "sorted_wrt (\<lambda>x y. mm_prio x \<ge> mm_prio y) xs \<Longrightarrow>
     filter (\<lambda>x. mm_prio x = p) (mq_enqueue m xs) = filter (\<lambda>x. mm_prio x = p) (xs @ [m])"
proof (induction xs)
  case (Cons x xs)
  show ?case
  proof (cases "mm_prio m \<le> mm_prio x")
    case True
    then show ?thesis using Cons by auto
  next
    case False
    then have "mm_prio y < mm_prio m" if "y \<in> set (x # xs)" for y
      using Cons.prems that by (auto dest: le_less_trans)
    then have "filter (\<lambda>y. mm_prio y = mm_prio m) (x # xs) = []" by (force simp: filter_empty_conv)
    then show ?thesis using False by (cases "mm_prio m = p") auto
  qed
qed simp

text \<open>The list kept by \<open>mq_enqueue\<close> is the stable sort of the arrivals by decreasing priority.\<close>

lemma mq_enqueue_sort:
  "mq_enqueue m (sort_key mq_key arr) = sort_key mq_key (arr @ [m])"
proof (rule properties_for_sort_key[symmetric])
  have s: "sorted_wrt (\<lambda>x y. mm_prio x \<ge> mm_prio y) (sort_key mq_key arr)"
    using sorted_sort_key[of mq_key arr] by (simp add: sorted_map mq_key_le)
  show "mset (mq_enqueue m (sort_key mq_key arr)) = mset (arr @ [m])" by simp
  show "sorted (map mq_key (mq_enqueue m (sort_key mq_key arr)))"
    using sorted_mq_enqueue[OF s] by (simp add: sorted_map mq_key_le)
  fix k
  have eq: "(\<lambda>x. mq_key k = mq_key x) = (\<lambda>x. mm_prio x = mm_prio k)"
    by (auto simp: mq_key_def fun_eq_iff dest: unsigned_word_eqI)
  have "filter (\<lambda>x. mm_prio x = mm_prio k) (sort_key mq_key arr) = filter (\<lambda>x. mm_prio x = mm_prio k) arr"
    using sort_key_stable[of mq_key "mq_key k" arr] unfolding eq[symmetric]
    by (simp add: eq_commute[of "mq_key k"])
  then show "filter (\<lambda>x. mq_key k = mq_key x) (mq_enqueue m (sort_key mq_key arr)) =
      filter (\<lambda>x. mq_key k = mq_key x) (arr @ [m])"
    unfolding eq by (simp add: filter_mq_enqueue[OF s])
qed

text \<open>The head of the list is the earliest arrival among those of the highest priority.\<close>

lemma mq_sort_head:
  assumes "sort_key mq_key arr = m # rest"
  obtains xs ys where "arr = xs @ m # ys" "\<forall>x \<in> set xs. mm_prio x < mm_prio m"
    "\<forall>y \<in> set ys. mm_prio y \<le> mm_prio m" "rest = sort_key mq_key (xs @ ys)"
proof -
  have st: "filter (\<lambda>x. mq_key x = k) (m # rest) = filter (\<lambda>x. mq_key x = k) arr" for k
    using sort_key_stable[of mq_key k arr] assms by simp
  have ms: "mset arr = add_mset m (mset rest)" using assms by (metis mset.simps(2) mset_sort)
  have so: "sorted (map mq_key (m # rest))" using sorted_sort_key[of mq_key arr] assms by simp
  have le: "mm_prio y \<le> mm_prio m" if "y \<in> set arr" for y
  proof -
    have "y \<in> set (m # rest)" using that assms by (metis set_sort)
    then show ?thesis using so by (auto simp: mq_key_le)
  qed
  have "\<exists>x \<in> set arr. mq_key x = mq_key m" using ms by (metis set_mset_mset union_single_eq_member)
  from split_list_first_prop[OF this]
  obtain xs m' ys where arr: "arr = xs @ m' # ys" "mq_key m' = mq_key m"
      "\<forall>x \<in> set xs. mq_key x \<noteq> mq_key m"
    by blast
  have "filter (\<lambda>x. mq_key x = mq_key m) xs = []" using arr(3) by (simp add: filter_empty_conv)
  then have hd: "m' = m" using st[of "mq_key m"] arr(1,2) by simp
  have lt: "mm_prio x < mm_prio m" if "x \<in> set xs" for x
    using le[of x] arr that by (metis UnI1 mq_key_def order_le_imp_less_or_eq set_append)
  have "rest = sort_key mq_key (xs @ ys)"
  proof (rule properties_for_sort_key[symmetric])
    show "mset rest = mset (xs @ ys)" using ms arr hd by simp
    show "sorted (map mq_key rest)" using so by simp
    fix k
    have "filter (\<lambda>x. mq_key x = mq_key k) (m # rest) = filter (\<lambda>x. mq_key x = mq_key k) (xs @ m # ys)"
      using st[of "mq_key k"] arr hd by simp
    moreover have "filter (\<lambda>x. mq_key x = mq_key k) xs = []" if "mq_key m = mq_key k"
      using arr(3) that by (simp add: filter_empty_conv)
    ultimately have "filter (\<lambda>x. mq_key x = mq_key k) rest = filter (\<lambda>x. mq_key x = mq_key k) (xs @ ys)"
      by (cases "mq_key m = mq_key k") simp_all
    then show "filter (\<lambda>x. mq_key k = mq_key x) rest = filter (\<lambda>x. mq_key k = mq_key x) (xs @ ys)"
      by (simp add: eq_commute[of "mq_key k"])
  qed
  then show ?thesis using that[of xs ys] arr(1) hd lt le by auto
qed

section \<open>Lemmas on the heap\<close>

lemma mq_node_at_set_node [simp]:
  "mq_node_at (mq_set_node a n fs) b = (if a = b then Some n else mq_node_at fs b)"
  by (simp add: mq_node_at_def mq_set_node_def heap_lookup)

lemma mq_set_node_fields [simp]:
  "fs_bytes (mq_set_node a n fs) = fs_bytes fs" "fs_inode_ctr (mq_set_node a n fs) = fs_inode_ctr fs"
  by (simp_all add: mq_set_node_def)

lemma mq_node_at_cong: "fs_nodes fs = fs_nodes fs' \<Longrightarrow> mq_node_at fs = mq_node_at fs'"
  by (simp add: mq_node_at_def fun_eq_iff)

lemma mq_node_at_bytes [simp]: "mq_node_at (fs\<lparr> fs_bytes := b \<rparr>) = mq_node_at fs"
  "mq_node_at (fs\<lparr> fs_inode_ctr := c \<rparr>) = mq_node_at fs"
  by (simp_all add: mq_node_at_def fun_eq_iff)

lemma mq_queue_at_iff:
  "mq_queue_at fs a = Some q \<longleftrightarrow> (\<exists>n. mq_node_at fs a = Some n \<and> mn_priv n = PQueue q)"
  by (auto simp: mq_queue_at_def split: option.splits mq_priv.splits)

lemma mq_children_iff:
  "mq_children fs a = Some es \<longleftrightarrow> (\<exists>n. mq_node_at fs a = Some n \<and> mn_priv n = PDir es)"
  by (auto simp: mq_children_def split: option.splits mq_priv.splits)

lemma mq_shape_set_node:
  "mq_shape fs \<Longrightarrow> mq_node_ok n \<Longrightarrow> mq_shape (mq_set_node a n fs)"
  by (simp add: mq_shape_def) (simp add: mq_set_node_def heap_keys_update)

lemma mq_shape_bytes [simp]: "mq_shape (fs\<lparr> fs_bytes := b \<rparr>) = mq_shape fs"
  "mq_shape (fs\<lparr> fs_inode_ctr := c \<rparr>) = mq_shape fs"
  by (simp_all add: mq_shape_def)

lemma mq_refs_bytes [simp]: "mq_refs_ok (fs\<lparr> fs_bytes := b \<rparr>) os = mq_refs_ok fs os"
  "mq_refs_ok (fs\<lparr> fs_inode_ctr := c \<rparr>) os = mq_refs_ok fs os"
  by (simp_all add: mq_refs_ok_def)

lemma mq_sum_set_node:
  "mq_node_at fs a = Some n \<Longrightarrow>
     heap_sum f (fs_nodes (mq_set_node a n' fs)) + f n = heap_sum f (fs_nodes fs) + f n'"
  by (simp add: mq_node_at_def mq_set_node_def heap_sum_update_old)

lemma mq_sum_set_node_new:
  "mq_node_at fs a = None \<Longrightarrow>
     heap_sum f (fs_nodes (mq_set_node a n' fs)) = heap_sum f (fs_nodes fs) + f n'"
  by (simp add: mq_node_at_def mq_set_node_def heap_sum_update_new)

text \<open>Replacing a queue's state: the shape, the total and the references.\<close>

lemma mq_set_queue_shape:
  assumes "mq_shape fs" "mq_queue_at fs a = Some q" "mq_queue_ok q'"
  shows "mq_shape (mq_set_queue a q' fs)"
proof -
  obtain n where n: "mq_node_at fs a = Some n" "mn_priv n = PQueue q"
    using assms(2) by (auto simp: mq_queue_at_iff)
  then have "mq_node_ok n" using assms(1) by (simp add: mq_shape_def)
  then show ?thesis
    using assms n by (simp add: mq_set_queue_def mq_shape_set_node mq_node_ok_def)
qed

lemma mq_set_queue_total:
  assumes "mq_queue_at fs a = Some q"
  shows "mq_total (mq_set_queue a q' fs) + mq_queue_cost q = mq_total fs + mq_queue_cost q'"
proof -
  obtain n where n: "mq_node_at fs a = Some n" "mn_priv n = PQueue q"
    using assms by (auto simp: mq_queue_at_iff)
  then show ?thesis
    using mq_sum_set_node[OF n(1), of mq_node_cost "n\<lparr> mn_priv := PQueue q' \<rparr>"]
    by (simp add: mq_set_queue_def mq_node_cost_def)
qed

lemma mq_set_queue_links:
  assumes "mq_queue_at fs a = Some q"
  shows "mq_links (mq_set_queue a q' fs) b = mq_links fs b"
proof -
  obtain n where n: "mq_node_at fs a = Some n" "mn_priv n = PQueue q"
    using assms by (auto simp: mq_queue_at_iff)
  then show ?thesis
    using mq_sum_set_node[OF n(1), of "mq_node_links b" "n\<lparr> mn_priv := PQueue q' \<rparr>"]
    by (simp add: mq_set_queue_def mq_node_links_def)
qed

lemma mq_refs_linked:
  "mq_refs_ok fs os \<Longrightarrow> 0 < mq_links fs a \<Longrightarrow> mq_node_at fs a = Some n \<Longrightarrow> \<not> mn_dir n"
  unfolding mq_refs_ok_def by (metis option.inject)

lemma mq_set_queue_refs:
  assumes "mq_queue_at fs a = Some q" "mq_refs_ok fs os"
  shows "mq_refs_ok (mq_set_queue a q' fs) os"
proof -
  obtain n where n: "mq_node_at fs a = Some n" "mn_priv n = PQueue q"
    using assms by (auto simp: mq_queue_at_iff)
  have at: "mq_node_at (mq_set_queue a q' fs) b =
      (if a = b then Some (n\<lparr> mn_priv := PQueue q' \<rparr>) else mq_node_at fs b)" for b
    using n by (simp add: mq_set_queue_def)
  show ?thesis
    using assms(2) n mq_refs_linked[OF assms(2) _ n(1)] unfolding mq_refs_ok_def at mq_set_queue_links[OF assms(1)] by auto
qed

lemma mq_set_queue_bytes [simp]: "fs_bytes (mq_set_queue a q' fs) = fs_bytes fs"
  by (simp add: mq_set_queue_def split: option.splits)

text \<open>The budget.\<close>

lemma mq_alloc_fail: "mq_alloc_msg alloc len fs = (False, fs1) \<Longrightarrow> fs1 = fs"
  by (auto simp: mq_alloc_msg_def mq_reserve_bytes_def mq_release_bytes_def Let_def split: if_splits)

lemma mq_alloc_ok:
  assumes "mq_alloc_msg alloc len fs = (True, fs1)" "unat (fs_bytes fs) \<le> 4194304" "len \<le> 8192"
  shows "fs1 = fs\<lparr> fs_bytes := fs_bytes fs + word_of_nat (12 + len) \<rparr>"
    "unat (fs_bytes fs1) = unat (fs_bytes fs) + (12 + len)" "unat (fs_bytes fs1) \<le> 4194304"
proof -
  show e: "fs1 = fs\<lparr> fs_bytes := fs_bytes fs + word_of_nat (12 + len) \<rparr>"
    using assms(1) by (auto simp: mq_alloc_msg_def mq_reserve_bytes_def Let_def split: if_splits)
  have "unat (fs_bytes fs + word_of_nat (12 + len)) = unat (fs_bytes fs) + (12 + len)"
    using assms(2,3) by (intro unat_add_nat32) simp
  then show "unat (fs_bytes fs1) = unat (fs_bytes fs) + (12 + len)" using e by simp
  have "fs_bytes fs + word_of_nat (12 + len) \<le> 4194304"
    using assms(1) by (auto simp: mq_alloc_msg_def mq_reserve_bytes_def Let_def not_less split: if_splits)
  then show "unat (fs_bytes fs1) \<le> 4194304" using e by (simp add: word_le_nat_alt)
qed

lemma mq_release_unat:
  assumes "n \<le> unat (fs_bytes fs)"
  shows "unat (fs_bytes (mq_release_bytes n fs)) = unat (fs_bytes fs) - n"
proof -
  have "n < 2 ^ 32" using assms unat_lt32[of "fs_bytes fs"] by simp
  then have "unat (word_of_nat n :: u32) = n" by (rule unat_of_nat32)
  then show ?thesis using assms by (simp add: mq_release_bytes_def unat_sub word_le_nat_alt)
qed

lemma mq_limit_word: "0 < k \<Longrightarrow> k \<le> 8192 \<Longrightarrow> unat (word_of_int k :: u32) = nat k"
  by (simp add: unsigned_of_int take_bit_int_eq_self flip: nat_take_bit_eq)

lemma mq_fs_ok_queue: "mq_fs_ok fs \<Longrightarrow> mq_queue_at fs a = Some q \<Longrightarrow> mq_queue_ok q"
  by (force simp: mq_fs_ok_def mq_shape_def mq_queue_at_iff mq_node_ok_def)

lemma mq_queue_cost_le: "mq_queue_at fs a = Some q \<Longrightarrow> mq_queue_cost q \<le> mq_total fs"
proof -
  assume "mq_queue_at fs a = Some q"
  then obtain n where "mq_node_at fs a = Some n" "mn_priv n = PQueue q"
    by (auto simp: mq_queue_at_iff)
  then show ?thesis
    using heap_sum_member[of "fs_nodes fs" a n mq_node_cost] by (simp add: mq_node_at_def mq_node_cost_def)
qed

lemma mq_fs_ok_set_queue:
  assumes "mq_fs_ok fs" "mq_queue_at fs a = Some q" "mq_queue_ok q'"
    and "unat b + mq_queue_cost q = unat (fs_bytes fs) + mq_queue_cost q'" "unat b \<le> 4194304"
  shows "mq_fs_ok ((mq_set_queue a q' fs)\<lparr> fs_bytes := b \<rparr>)"
  using assms mq_set_queue_total[OF assms(2), of q'] mq_set_queue_shape[OF _ assms(2,3)]
  by (simp add: mq_fs_ok_def)

lemma mq_send_new_queue_ok:
  assumes "mq_queue_ok q" "mq_curmsgs q < word_of_int (mq_maxmsg q)"
    and "mm_prio m < MQ_PRIO_MAX" "0 < mm_len m" "mm_len m \<le> 8192"
  shows "mq_queue_ok (q\<lparr> mq_head := mq_enqueue m (mq_head q), mq_curmsgs := mq_curmsgs q + 1 \<rparr>)"
proof -
  have "unat (mq_curmsgs q) < unat (word_of_int (mq_maxmsg q) :: u32)"
    using assms(2) by (simp add: word_less_nat_alt)
  then have l: "length (mq_head q) < 256"
    using assms(1) mq_limit_word[of "mq_maxmsg q"] by (auto simp: mq_queue_ok_def)
  moreover have "unat (mq_curmsgs q + 1) = Suc (length (mq_head q))"
    using assms(1) l by (subst unat_word_ariths) (simp add: mq_queue_ok_def)
  ultimately show ?thesis
    using assms by (auto simp: mq_queue_ok_def sorted_mq_enqueue)
qed

lemma mq_set_queue_set_bytes:
  "mq_set_queue a q (fs\<lparr> fs_bytes := b \<rparr>) = (mq_set_queue a q fs)\<lparr> fs_bytes := b \<rparr>"
  by (simp add: mq_set_queue_def mq_set_node_def split: option.splits)

text \<open>The queue a successful send leaves, and the notification it fires.\<close>

definition mq_sent_queue :: "mq_msg \<Rightarrow> mqueue \<Rightarrow> mqueue" where
  "mq_sent_queue m q =
     (let q1 = q\<lparr> mq_head := mq_enqueue m (mq_head q), mq_curmsgs := mq_curmsgs q + 1 \<rparr>
      in if mq_curmsgs q1 = 1 \<and> mq_notify_pid q1 \<noteq> 0
         then q1\<lparr> mq_notify_pid := 0, mq_notify_sig := 0 \<rparr> else q1)"

lemma mq_sent_queue_fields [simp]:
  "mq_head (mq_sent_queue m q) = mq_enqueue m (mq_head q)"
  "mq_curmsgs (mq_sent_queue m q) = mq_curmsgs q + 1"
  "mq_maxmsg (mq_sent_queue m q) = mq_maxmsg q" "mq_msgsize (mq_sent_queue m q) = mq_msgsize q"
  "mq_configured (mq_sent_queue m q) = mq_configured q"
  by (simp_all add: mq_sent_queue_def Let_def)

lemma mq_queue_ok_cong:
  assumes "mq_head q = mq_head q'" "mq_curmsgs q = mq_curmsgs q'" "mq_maxmsg q = mq_maxmsg q'"
    "mq_msgsize q = mq_msgsize q'"
  shows "mq_queue_ok q = mq_queue_ok q'"
  using assms by (simp add: mq_queue_ok_def)

text \<open>Every round of a send leaves the filesystem alone or stores the whole message.\<close>

lemma mq_send_step_cases:
  assumes "mq_send_step a c wt w = Inl (r, w')" "mq_fs_ok (mw_fs w)"
  obtains (unchanged) "mw_fs w' = mw_fs w" "r \<noteq> MRet 0"
  | (stored) q m where "r = MRet 0" "mq_queue_at (mw_fs w) a = Some q"
      "m = \<lparr> mm_prio = cm_prio c, mm_data = mem_read (mw_mem w) (cm_ptr c) (unat (cm_len c)) \<rparr>"
      "mq_curmsgs q < word_of_int (mq_maxmsg q)" "unat (cm_len c) \<le> nat (mq_msgsize q)"
      "mw_fs w' = (mq_set_queue a (mq_sent_queue m q) (mw_fs w))
         \<lparr> fs_bytes := fs_bytes (mw_fs w) + word_of_nat (12 + unat (cm_len c)) \<rparr>"
      "unat (fs_bytes (mw_fs w')) = unat (fs_bytes (mw_fs w)) + (12 + unat (cm_len c))"
      "unat (fs_bytes (mw_fs w')) \<le> 4194304" "mw_mem w' = mw_mem w"
proof (cases "mq_queue_at (mw_fs w) a")
  case None
  then show ?thesis using assms unchanged by (simp add: mq_send_step_def)
next
  case (Some q)
  note q = mq_fs_ok_queue[OF assms(2) Some]
  show ?thesis
  proof (cases "cm_len c \<le> word_of_int (mq_msgsize q) \<and> mq_curmsgs q < word_of_int (mq_maxmsg q)")
    case False
    then show ?thesis
      using assms(1) Some unchanged
      by (auto simp: mq_send_step_def mq_wait_step_def Let_def split: if_splits)
  next
    case True
    have len: "unat (cm_len c) \<le> nat (mq_msgsize q)" "unat (cm_len c) \<le> 8192"
      using True q mq_limit_word[of "mq_msgsize q"] by (auto simp: mq_queue_ok_def word_le_nat_alt)
    obtain ok fs1 where al: "mq_alloc_msg (mw_alloc w) (unat (cm_len c)) (mw_fs w) = (ok, fs1)"
      by (cases "mq_alloc_msg (mw_alloc w) (unat (cm_len c)) (mw_fs w)")
    show ?thesis
    proof (cases ok)
      case False
      then show ?thesis
        using assms(1) Some True al mq_alloc_fail[of "mw_alloc w" _ "mw_fs w" fs1] unchanged
        by (auto simp: mq_send_step_def split: if_splits)
    next
      case ok: True
      have ub: "unat (fs_bytes (mw_fs w)) \<le> 4194304" using assms(2) by (simp add: mq_fs_ok_def)
      note fs1 = mq_alloc_ok[OF al[unfolded ok[THEN eqTrueI]] ub len(2)]
      show ?thesis
      proof (cases "copy_from_user (mw_mem w) (cm_ptr c) (unat (cm_len c))")
        case None
        have "mw_fs w' = mw_fs w" "r = MRet (- EFAULT)"
          using assms(1) Some True al ok None fs1(1)
          by (auto simp: mq_send_step_def mq_release_bytes_def not_less[symmetric])
        then show ?thesis using unchanged by simp
      next
        case dat: (Some dat)
        then have d: "dat = mem_read (mw_mem w) (cm_ptr c) (unat (cm_len c))"
          by (simp add: copy_from_user_def split: if_splits)
        have "r = MRet 0" "mw_fs w' = mq_set_queue a (mq_sent_queue \<lparr> mm_prio = cm_prio c, mm_data = dat \<rparr> q) fs1"
          "mw_mem w' = mw_mem w"
          using assms(1) Some True al ok dat
          by (auto simp: mq_send_step_def mq_sent_queue_def Let_def not_less[symmetric])
        then show ?thesis
          using fs1 True len(1) d Some
          by (intro stored[of q "\<lparr> mm_prio = cm_prio c, mm_data = dat \<rparr>"])
            (simp_all add: mq_set_queue_set_bytes)
      qed
    qed
  qed
qed

definition mq_inv :: "mqfs \<Rightarrow> nat list \<Rightarrow> bool" where
  "mq_inv fs os \<longleftrightarrow> mq_fs_ok fs \<and> mq_refs_ok fs os"

lemma mq_inv_set_queue:
  assumes "mq_inv fs os" "mq_queue_at fs a = Some q" "mq_queue_ok q'"
    and "unat b + mq_queue_cost q = unat (fs_bytes fs) + mq_queue_cost q'" "unat b \<le> 4194304"
  shows "mq_inv ((mq_set_queue a q' fs)\<lparr> fs_bytes := b \<rparr>) os"
  using assms mq_fs_ok_set_queue[of fs a q q' b] mq_set_queue_refs[of fs a q os q']
  by (simp add: mq_inv_def)

text \<open>The same with an unchanged budget.\<close>

lemma mq_inv_set_queue_same:
  assumes "mq_inv fs os" "mq_queue_at fs a = Some q" "mq_queue_ok q'" "mq_head q' = mq_head q"
  shows "mq_inv (mq_set_queue a q' fs) os"
proof -
  have "mq_inv ((mq_set_queue a q' fs)\<lparr> fs_bytes := fs_bytes fs \<rparr>) os"
    using assms by (intro mq_inv_set_queue) (auto simp: mq_queue_cost_def mq_inv_def mq_fs_ok_def)
  moreover have "(mq_set_queue a q' fs)\<lparr> fs_bytes := fs_bytes fs \<rparr> = mq_set_queue a q' fs"
    by (metis mq_set_queue_bytes mqfs.surjective mqfs.update_convs(3))
  ultimately show ?thesis by simp
qed

lemma mq_inv_send:
  assumes "mq_inv (mw_fs w) os" "cm_prio c < MQ_PRIO_MAX" "cm_len c \<noteq> 0"
    and "mq_send_step a c wt w = Inl (r, w')"
  shows "mq_inv (mw_fs w') os"
proof -
  have ok: "mq_fs_ok (mw_fs w)" using assms(1) by (simp add: mq_inv_def)
  show ?thesis using assms(4) ok
  proof (cases rule: mq_send_step_cases)
    case unchanged
    then show ?thesis using assms(1) by simp
  next
    case (stored q m)
    have q: "mq_queue_ok q" using ok stored(2) by (rule mq_fs_ok_queue)
    have len: "mm_len m = unat (cm_len c)" using stored(3) by (simp add: mm_len_def)
    have b: "0 < mm_len m" "mm_len m \<le> 8192"
      using len stored(5) q assms(3) by (auto simp: mq_queue_ok_def unat_gt_0)
    have "mq_queue_ok (mq_sent_queue m q) =
        mq_queue_ok (q\<lparr> mq_head := mq_enqueue m (mq_head q), mq_curmsgs := mq_curmsgs q + 1 \<rparr>)"
      by (rule mq_queue_ok_cong) simp_all
    then have "mq_queue_ok (mq_sent_queue m q)"
      using mq_send_new_queue_ok[OF q stored(4) _ b] assms(2) stored(3) by simp
    moreover have "mq_queue_cost (mq_sent_queue m q) = mq_queue_cost q + (12 + unat (cm_len c))"
      using len by (simp add: mq_queue_cost_def sum_mq_enqueue mq_msg_cost_def)
    ultimately show ?thesis
      using mq_inv_set_queue[OF assms(1) stored(2), of "mq_sent_queue m q"] stored(6,7,8) by simp
  qed
qed

text \<open>Every round of a receive leaves the filesystem alone or takes the head message.\<close>

lemma mq_receive_step_cases:
  assumes "mq_receive_step a arg c wt w = Inl (r, w')"
  obtains (unchanged) "mw_fs w' = mw_fs w" "mw_mem w' = mw_mem w" "r \<noteq> MRet 0"
      "\<And>q. mq_queue_at (mw_fs w) a = Some q \<Longrightarrow> mq_head q = []"
  | (taken) q m ms where "mq_queue_at (mw_fs w) a = Some q" "mq_head q = m # ms"
      "mw_fs w' = mq_free_msg m (mq_set_queue a (q\<lparr> mq_head := ms, mq_curmsgs := mq_curmsgs q - 1 \<rparr>) (mw_fs w))"
proof (cases "mq_queue_at (mw_fs w) a")
  case None
  then show ?thesis using assms unchanged by (simp add: mq_receive_step_def)
next
  case (Some q)
  show ?thesis
  proof (cases "mq_head q")
    case Nil
    then show ?thesis
      using assms Some unchanged
      by (auto simp: mq_receive_step_def mq_dequeue_def mq_wait_step_def Let_def split: if_splits)
  next
    case (Cons m ms)
    then have "mw_fs w' = mq_free_msg m (mq_set_queue a (q\<lparr> mq_head := ms, mq_curmsgs := mq_curmsgs q - 1 \<rparr>) (mw_fs w))"
      using assms Some by (auto simp: mq_receive_step_def mq_dequeue_def Let_def split: if_splits prod.splits)
    then show ?thesis using taken Some Cons by simp
  qed
qed

lemma mq_inv_receive:
  assumes "mq_inv (mw_fs w) os" "mq_receive_step a arg c wt w = Inl (r, w')"
  shows "mq_inv (mw_fs w') os"
  using assms(2)
proof (cases rule: mq_receive_step_cases)
  case unchanged
  then show ?thesis using assms(1) by simp
next
  case (taken q m ms)
  let ?fs = "mw_fs w" let ?q = "q\<lparr> mq_head := ms, mq_curmsgs := mq_curmsgs q - 1 \<rparr>"
  have ok: "mq_fs_ok ?fs" using assms(1) by (simp add: mq_inv_def)
  have q: "mq_queue_ok q" using ok taken(1) by (rule mq_fs_ok_queue)
  have cost: "mq_queue_cost q = mq_msg_cost m + mq_queue_cost ?q" using taken(2) by (simp add: mq_queue_cost_def)
  then have le: "mq_msg_cost m \<le> unat (fs_bytes ?fs)"
    using mq_queue_cost_le[OF taken(1)] ok by (simp add: mq_fs_ok_def)
  have "unat (mq_curmsgs q - 1) = length ms"
    using q taken(2) by (simp add: mq_queue_ok_def unat_sub word_le_nat_alt)
  then have "mq_queue_ok ?q" using q taken(2) by (simp add: mq_queue_ok_def)
  moreover have "unat (fs_bytes (mq_release_bytes (mq_msg_cost m) ?fs)) = unat (fs_bytes ?fs) - mq_msg_cost m"
    using le by (rule mq_release_unat)
  ultimately have "mq_inv ((mq_set_queue a ?q ?fs)\<lparr> fs_bytes := fs_bytes (mq_release_bytes (mq_msg_cost m) ?fs) \<rparr>) os"
    using cost le ok by (intro mq_inv_set_queue[OF assms(1) taken(1)]) (auto simp: mq_fs_ok_def)
  then show ?thesis
    using taken(3) by (simp add: mq_free_msg_def mq_release_bytes_def mq_msg_cost_def)
qed

lemma mq_inv_queue: "mq_inv fs os \<Longrightarrow> mq_queue_at fs a = Some q \<Longrightarrow> mq_queue_ok q"
  by (auto simp: mq_inv_def intro: mq_fs_ok_queue)

lemma mq_inv_limits:
  assumes "mq_inv fs os" "mq_queue_at fs a = Some q" "0 < mx" "mx \<le> 256" "0 < sz" "sz \<le> 8192"
  shows "mq_inv (mq_set_queue a (q\<lparr> mq_maxmsg := mx, mq_msgsize := sz, mq_configured := True \<rparr>) fs) os"
  using mq_inv_queue[OF assms(1,2)] assms(3-)
  by (intro mq_inv_set_queue_same[OF assms(1,2)]) (simp_all add: mq_queue_ok_def)

lemma mq_inv_notify_set:
  assumes "mq_inv fs os" "mq_queue_at fs a = Some q"
  shows "mq_inv (mq_set_queue a (q\<lparr> mq_notify_pid := p, mq_notify_sig := sg \<rparr>) fs) os"
  using mq_inv_queue[OF assms]
  by (intro mq_inv_set_queue_same[OF assms]) (simp_all add: mq_queue_ok_def)

lemma mq_inv_init:
  assumes "mq_inv (mw_fs w) os" "mq_do_init a arg w = (r, w')"
  shows "mq_inv (mw_fs w') os"
  using assms
  by (auto simp: mq_do_init_def Let_def not_le not_less split: if_splits option.splits
      intro!: mq_inv_limits)

lemma mq_inv_notify:
  assumes "mq_inv (mw_fs w) os" "mq_do_notify a me arg w = (r, w')"
  shows "mq_inv (mw_fs w') os"
  using assms
  by (auto simp: mq_do_notify_def Let_def split: if_splits option.splits intro!: mq_inv_notify_set)

text \<open>Directory operations and references.\<close>

lemma mq_unlink_count:
  "map_of es name = Some a \<Longrightarrow>
     count_list (map snd (mq_unlink name es)) b + (if a = b then 1 else 0) = count_list (map snd es) b"
  by (induction name es rule: mq_unlink.induct) (auto split: if_splits)

lemma mq_children_shape:
  assumes "mq_shape fs" "mq_children fs d = Some es"
  obtains n where "mq_node_at fs d = Some n" "mn_priv n = PDir es" "mn_dir n"
  using assms by (force simp: mq_shape_def mq_children_iff mq_node_ok_def)

lemma mq_set_children_shape:
  assumes "mq_shape fs" "mq_children fs d = Some es"
  shows "mq_shape (mq_set_children d es' fs)" "mq_total (mq_set_children d es' fs) = mq_total fs"
    "mq_links (mq_set_children d es' fs) a + count_list (map snd es) a =
       mq_links fs a + count_list (map snd es') a"
    "fs_bytes (mq_set_children d es' fs) = fs_bytes fs"
proof -
  obtain n where n: "mq_node_at fs d = Some n" "mn_priv n = PDir es" "mn_dir n"
    using assms by (rule mq_children_shape)
  let ?n = "n\<lparr> mn_priv := PDir es' \<rparr>"
  have s: "mq_set_children d es' fs = mq_set_node d ?n fs" using n by (simp add: mq_set_children_def)
  show "mq_shape (mq_set_children d es' fs)"
    unfolding s using assms(1) n by (intro mq_shape_set_node) (simp_all add: mq_node_ok_def)
  show "mq_total (mq_set_children d es' fs) = mq_total fs"
    unfolding s using mq_sum_set_node[OF n(1), of mq_node_cost ?n] n(2) by (simp add: mq_node_cost_def)
  show "mq_links (mq_set_children d es' fs) a + count_list (map snd es) a =
      mq_links fs a + count_list (map snd es') a"
    unfolding s using mq_sum_set_node[OF n(1), of "mq_node_links a" ?n] n(2) by (simp add: mq_node_links_def)
  show "fs_bytes (mq_set_children d es' fs) = fs_bytes fs" unfolding s by simp
qed

lemma mq_set_children_at:
  "mq_children fs d = Some es \<Longrightarrow> mq_node_at (mq_set_children d es' fs) b =
     (if d = b then map_option (\<lambda>n. n\<lparr> mn_priv := PDir es' \<rparr>) (mq_node_at fs d) else mq_node_at fs b)"
  by (auto simp: mq_set_children_def mq_children_iff)

text \<open>A reference more, a reference less: shape, total and links stay.\<close>

lemma mq_set_refcount:
  assumes "mq_shape fs" "mq_node_at fs a = Some n"
  shows "mq_shape (mq_set_node a (n\<lparr> mn_refcount := c \<rparr>) fs)"
    "mq_total (mq_set_node a (n\<lparr> mn_refcount := c \<rparr>) fs) = mq_total fs"
    "mq_links (mq_set_node a (n\<lparr> mn_refcount := c \<rparr>) fs) b = mq_links fs b"
proof -
  have "mq_node_ok n" using assms by (simp add: mq_shape_def)
  then show "mq_shape (mq_set_node a (n\<lparr> mn_refcount := c \<rparr>) fs)"
    using assms(1) by (intro mq_shape_set_node) (simp_all add: mq_node_ok_def split: mq_priv.splits)
  show "mq_total (mq_set_node a (n\<lparr> mn_refcount := c \<rparr>) fs) = mq_total fs"
    using mq_sum_set_node[OF assms(2), of mq_node_cost "n\<lparr> mn_refcount := c \<rparr>"] by (simp add: mq_node_cost_def)
  show "mq_links (mq_set_node a (n\<lparr> mn_refcount := c \<rparr>) fs) b = mq_links fs b"
    using mq_sum_set_node[OF assms(2), of "mq_node_links b" "n\<lparr> mn_refcount := c \<rparr>"]
    by (simp add: mq_node_links_def)
qed

text \<open>Freeing a node returns exactly the bytes of its messages.\<close>

lemma mq_fold_free:
  assumes "sum_list (map mq_msg_cost ms) \<le> unat (fs_bytes fs)"
  shows "fs_nodes (fold mq_free_msg ms fs) = fs_nodes fs"
    "unat (fs_bytes (fold mq_free_msg ms fs)) = unat (fs_bytes fs) - sum_list (map mq_msg_cost ms)"
  using assms
proof (induction ms arbitrary: fs)
  case (Cons m ms)
  {
    case 1
    then show ?case
      using Cons.IH(1)[of "mq_free_msg m fs"] mq_release_unat[of "mq_msg_cost m" fs]
      by (simp add: mq_free_msg_def mq_msg_cost_def mq_release_bytes_def)
  next
    case 2
    then have r: "unat (fs_bytes (mq_free_msg m fs)) = unat (fs_bytes fs) - mq_msg_cost m"
      using mq_release_unat[of "mq_msg_cost m" fs] by (simp add: mq_free_msg_def mq_msg_cost_def)
    show ?case using Cons.IH(2)[of "mq_free_msg m fs"] 2 r by simp
  }
qed simp_all

lemma mq_free_node_props:
  assumes "mq_shape fs" "unat (fs_bytes fs) = mq_total fs" "mq_node_at fs a = Some n" "\<not> mn_dir n"
  shows "mq_shape (mq_free_node a fs)"
    "unat (fs_bytes (mq_free_node a fs)) = mq_total (mq_free_node a fs)"
    "mq_total (mq_free_node a fs) \<le> mq_total fs"
    "mq_links (mq_free_node a fs) b = mq_links fs b"
    "mq_node_at (mq_free_node a fs) b = (if a = b then None else mq_node_at fs b)"
proof -
  have "mq_node_ok n" using assms by (simp add: mq_shape_def)
  then obtain q where q: "mn_priv n = PQueue q"
    using assms(4) by (cases "mn_priv n") (auto simp: mq_node_ok_def)
  then have qa: "mq_queue_at fs a = Some q" using assms(3) by (simp add: mq_queue_at_def)
  let ?fs = "fold mq_free_msg (mq_head q) fs"
  have c: "sum_list (map mq_msg_cost (mq_head q)) \<le> unat (fs_bytes fs)"
    using mq_queue_cost_le[OF qa] assms(2) by (simp add: mq_queue_cost_def)
  note f = mq_fold_free[OF c]
  have nodes: "fs_nodes (mq_free_node a fs) = AList.delete a (fs_nodes fs)"
    using f(1) qa by (simp add: mq_free_node_def)
  have m: "map_of (fs_nodes fs) a = Some n" using assms(3) by (simp add: mq_node_at_def)
  have d: "distinct (map fst (fs_nodes fs))" using assms(1) by (simp add: mq_shape_def)
  show at: "mq_node_at (mq_free_node a fs) b = (if a = b then None else mq_node_at fs b)" for b
    by (simp add: mq_node_at_def nodes heap_lookup)
  show "mq_shape (mq_free_node a fs)"
    using assms(1) d by (auto simp: mq_shape_def at nodes heap_keys_delete)
  have s: "heap_sum g (fs_nodes (mq_free_node a fs)) + g n = heap_sum g (fs_nodes fs)" for g
    unfolding nodes using d m by (rule heap_sum_delete)
  show "unat (fs_bytes (mq_free_node a fs)) = mq_total (mq_free_node a fs)"
    using f(2) qa s[of mq_node_cost] assms(2) q
    by (simp add: mq_free_node_def mq_node_cost_def mq_queue_cost_def Let_def)
  show "mq_total (mq_free_node a fs) \<le> mq_total fs" using s[of mq_node_cost] by simp
  show "mq_links (mq_free_node a fs) b = mq_links fs b"
    using s[of "mq_node_links b"] q by (simp add: mq_node_links_def)
qed

lemma mq_refs_okI:
  assumes "\<And>a n. mq_node_at fs a = Some n \<Longrightarrow>
      unat (mn_refcount n) = mq_links fs a + count_list os a + (if mn_dir n then 1 else 0) \<and> mn_refcount n \<noteq> 0"
    and "\<And>a. 0 < mq_links fs a \<Longrightarrow> \<exists>n. mq_node_at fs a = Some n \<and> \<not> mn_dir n"
    and "\<And>a. 0 < count_list os a \<Longrightarrow> mq_node_at fs a \<noteq> None"
  shows "mq_refs_ok fs os"
  using assms unfolding mq_refs_ok_def by blast

lemma mq_refs_at:
  "mq_refs_ok fs os \<Longrightarrow> mq_node_at fs a = Some n \<Longrightarrow>
     unat (mn_refcount n) = mq_links fs a + count_list os a + (if mn_dir n then 1 else 0) \<and> mn_refcount n \<noteq> 0"
  by (simp add: mq_refs_ok_def)

lemma unat_dec32: "c \<noteq> 0 \<Longrightarrow> unat (c - 1) = unat c - 1" for c :: u32
  by (simp add: unat_sub word_le_nat_alt unat_gt_0 Suc_leI word_gt_0)

text \<open>
  The effect of dropping one reference on \<open>a\<close>, stated against any bookkeeping of links and
  descriptors in which that reference is already gone.
\<close>

lemma mq_unref_inv:
  assumes fs: "mq_fs_ok fs" and n: "mq_node_at fs a = Some n" "mn_refcount n \<noteq> 0"
    and rc: "unat (mn_refcount n) = Suc (mq_links fs a + count_list os a + (if mn_dir n then 1 else 0))"
    and others: "\<And>b m. b \<noteq> a \<Longrightarrow> mq_node_at fs b = Some m \<Longrightarrow>
        unat (mn_refcount m) = mq_links fs b + count_list os b + (if mn_dir m then 1 else 0) \<and> mn_refcount m \<noteq> 0"
    and links: "\<And>b. 0 < mq_links fs b \<Longrightarrow> \<exists>m. mq_node_at fs b = Some m \<and> \<not> mn_dir m"
    and opens: "\<And>b. 0 < count_list os b \<Longrightarrow> mq_node_at fs b \<noteq> None"
    and dir: "mn_dir n \<Longrightarrow> only"
  shows "mq_inv (mq_unref only a fs) os"
proof -
  have sh: "mq_shape fs" using fs by (simp add: mq_fs_ok_def)
  let ?n = "n\<lparr> mn_refcount := mn_refcount n - 1 \<rparr>"
  let ?fs = "mq_set_node a ?n fs"
  note sr = mq_set_refcount[OF sh n(1), where c = "mn_refcount n - 1"]
  have ok: "mq_fs_ok ?fs" using fs sr by (simp add: mq_fs_ok_def)
  have dec: "unat (mn_refcount ?n) = mq_links fs a + count_list os a + (if mn_dir n then 1 else 0)"
    using rc unat_dec32[OF n(2)] by simp
  show ?thesis
  proof (cases "mn_refcount n = 1 \<and> (only \<longrightarrow> \<not> mn_dir n)")
    case True
    then have isfile: "\<not> mn_dir n" using dir by blast
    have zero: "mq_links fs a = 0" "count_list os a = 0" using dec True isfile by simp_all
    have fa: "mq_node_at ?fs a = Some ?n" "\<not> mn_dir ?n" using isfile by simp_all
    note fr = mq_free_node_props[OF sr(1) _ fa]
    have u: "unat (fs_bytes ?fs) = mq_total ?fs" using ok by (simp add: mq_fs_ok_def)
    have "mq_fs_ok (mq_free_node a ?fs)"
      using fr(1,2,3)[OF u] ok unfolding mq_fs_ok_def by linarith
    moreover have "mq_refs_ok (mq_free_node a ?fs) os"
    proof (rule mq_refs_okI, unfold fr(4)[OF u] fr(5)[OF u] sr(3))
      fix b m
      assume "(if a = b then None else mq_node_at ?fs b) = Some m"
      then have "b \<noteq> a" "mq_node_at fs b = Some m" by (auto split: if_splits)
      then show "unat (mn_refcount m) = mq_links fs b + count_list os b + (if mn_dir m then 1 else 0) \<and>
          mn_refcount m \<noteq> 0" by (rule others)
    next
      fix b
      assume l: "0 < mq_links fs b"
      then have "b \<noteq> a" using zero by auto
      then show "\<exists>m. (if a = b then None else mq_node_at ?fs b) = Some m \<and> \<not> mn_dir m"
        using links[OF l] by simp
    next
      fix b
      assume o: "0 < count_list os b"
      then have "b \<noteq> a" using zero by auto
      then show "(if a = b then None else mq_node_at ?fs b) \<noteq> None" using opens[OF o] by simp
    qed
    ultimately show ?thesis using n(1) True by (simp add: mq_unref_def mq_inv_def Let_def)
  next
    case False
    have pos: "mn_refcount n - 1 \<noteq> 0"
    proof -
      have one: "mn_refcount n = 1" if "unat (mn_refcount n) = Suc 0"
        using that by (metis One_nat_def unat_1 word_unat_eq_iff)
      have "unat (mn_refcount ?n) \<noteq> 0"
        using False dec rc one by (cases "mn_dir n"; cases "mq_links fs a = 0") auto
      then show ?thesis by auto
    qed
    have "mq_refs_ok ?fs os"
    proof (rule mq_refs_okI, unfold sr(3))
      fix b m
      assume "mq_node_at ?fs b = Some m"
      then show "unat (mn_refcount m) = mq_links fs b + count_list os b + (if mn_dir m then 1 else 0) \<and>
          mn_refcount m \<noteq> 0"
        using dec pos others[of b m] by (cases "b = a") auto
    next
      fix b
      assume "0 < mq_links fs b"
      from links[OF this] show "\<exists>m. mq_node_at ?fs b = Some m \<and> \<not> mn_dir m"
        using n(1) by auto
    next
      fix b
      assume "0 < count_list os b"
      from opens[OF this] show "mq_node_at ?fs b \<noteq> None" by simp
    qed
    then show ?thesis using n(1) False ok by (auto simp: mq_unref_def mq_inv_def Let_def)
  qed
qed

lemma mq_inv_close:
  assumes "mq_inv fs os" "a \<in> set os"
  shows "mq_inv (mq_close a fs) (remove1 a os)"
proof -
  have fs: "mq_fs_ok fs" and refs: "mq_refs_ok fs os" using assms(1) by (simp_all add: mq_inv_def)
  have c: "0 < count_list os a" using assms(2) by (simp add: count_list_0_iff flip: neq0_conv)
  then obtain n where n: "mq_node_at fs a = Some n" using refs unfolding mq_refs_ok_def by blast
  note r = mq_refs_at[OF refs n]
  have c': "count_list (remove1 a os) b = count_list os b - (if a = b then 1 else 0)" for b
    by (simp add: count_list_remove1)
  have "mq_inv (mq_unref True a fs) (remove1 a os)"
  proof (rule mq_unref_inv[OF fs n])
    show "mn_refcount n \<noteq> 0" using r by simp
    show "unat (mn_refcount n) =
        Suc (mq_links fs a + count_list (remove1 a os) a + (if mn_dir n then 1 else 0))"
      using r c by (simp add: c')
    show "unat (mn_refcount m) =
        mq_links fs b + count_list (remove1 a os) b + (if mn_dir m then 1 else 0) \<and> mn_refcount m \<noteq> 0"
      if "b \<noteq> a" "mq_node_at fs b = Some m" for b m
      using mq_refs_at[OF refs that(2)] that(1) by (simp add: c')
    show "\<exists>m. mq_node_at fs b = Some m \<and> \<not> mn_dir m" if "0 < mq_links fs b" for b
      using refs that by (simp add: mq_refs_ok_def)
    show "mq_node_at fs b \<noteq> None" if "0 < count_list (remove1 a os) b" for b
      using refs that unfolding mq_refs_ok_def c' by (metis diff_is_0_eq' gr0I le0 less_numeral_extra(3))
  qed simp
  then show ?thesis using n r by (simp add: mq_close_def)
qed

lemma mq_inv_open:
  assumes "mq_inv fs os" "mq_node_at fs a = Some n" "mn_refcount n \<noteq> - 1"
  shows "mq_inv (mq_open a fs) (a # os)"
proof -
  have fs: "mq_fs_ok fs" and refs: "mq_refs_ok fs os" using assms(1) by (simp_all add: mq_inv_def)
  have sh: "mq_shape fs" using fs by (simp add: mq_fs_ok_def)
  note sr = mq_set_refcount[OF sh assms(2), where c = "mn_refcount n + 1"]
  have nz: "mn_refcount n + 1 \<noteq> 0" using assms(3) by (metis add.commute add_eq_0_iff)
  then have inc: "unat (mn_refcount n + 1) = Suc (unat (mn_refcount n))" using unatSuc[of "mn_refcount n"] by (simp add: add.commute)
  have "mq_refs_ok (mq_set_node a (n\<lparr> mn_refcount := mn_refcount n + 1 \<rparr>) fs) (a # os)"
  proof (rule mq_refs_okI, unfold sr(3))
    fix b m
    assume "mq_node_at (mq_set_node a (n\<lparr> mn_refcount := mn_refcount n + 1 \<rparr>) fs) b = Some m"
    then show "unat (mn_refcount m) = mq_links fs b + count_list (a # os) b + (if mn_dir m then 1 else 0) \<and>
        mn_refcount m \<noteq> 0"
      using mq_refs_at[OF refs assms(2)] mq_refs_at[OF refs, of b m] inc nz by (cases "b = a") auto
  next
    fix b
    assume "0 < mq_links fs b"
    then have "\<exists>m. mq_node_at fs b = Some m \<and> \<not> mn_dir m"
      using refs by (simp add: mq_refs_ok_def)
    then show "\<exists>m. mq_node_at (mq_set_node a (n\<lparr> mn_refcount := mn_refcount n + 1 \<rparr>) fs) b = Some m \<and> \<not> mn_dir m"
      using assms(2) by auto
  next
    fix b
    assume "0 < count_list (a # os) b"
    then show "mq_node_at (mq_set_node a (n\<lparr> mn_refcount := mn_refcount n + 1 \<rparr>) fs) b \<noteq> None"
      using refs by (auto simp: mq_refs_ok_def split: if_splits)
  qed
  then have "mq_refs_ok (mq_open a fs) (a # os)"
    using assms(2) by (simp add: mq_open_def mq_ref_def)
  moreover have "mq_fs_ok (mq_open a fs)"
    using fs sr assms(2) by (simp add: mq_open_def mq_ref_def mq_fs_ok_def)
  ultimately show ?thesis by (simp add: mq_inv_def)
qed

lemma mq_inv_delete:
  assumes "mq_inv fs os" "mq_delete d name fs = (r, fs')"
  shows "mq_inv fs' os"
proof (cases "\<exists>es a. mq_children fs d = Some es \<and> map_of es name = Some a")
  case False
  then show ?thesis
    using assms by (auto simp: mq_delete_def mq_find_dirent_def split: option.splits)
next
  case True
  then obtain es a where es: "mq_children fs d = Some es" "map_of es name = Some a" by blast
  have fs: "mq_fs_ok fs" and refs: "mq_refs_ok fs os" using assms(1) by (simp_all add: mq_inv_def)
  have sh: "mq_shape fs" using fs by (simp add: mq_fs_ok_def)
  let ?fs = "mq_set_children d (mq_unlink name es) fs"
  note sc = mq_set_children_shape[OF sh es(1), where es' = "mq_unlink name es"]
  note at = mq_set_children_at[OF es(1), where es' = "mq_unlink name es"]
  have l: "mq_links ?fs b + (if a = b then 1 else 0) = mq_links fs b" for b
    using sc(3)[of b] mq_unlink_count[OF es(2), of b] by linarith
  have "0 < mq_links fs a" using l[of a] by simp
  then obtain n where n: "mq_node_at fs a = Some n" "\<not> mn_dir n"
    using refs unfolding mq_refs_ok_def by blast
  obtain nd where nd: "mq_node_at fs d = Some nd" "mn_dir nd"
    using sh es(1) by (rule mq_children_shape)
  have ad: "a \<noteq> d" using n nd by auto
  have "mq_inv (mq_unref False a ?fs) os"
  proof (rule mq_unref_inv)
    show "mq_fs_ok ?fs" using fs sc by (simp add: mq_fs_ok_def)
    show "mq_node_at ?fs a = Some n" using n ad at[of a] by simp
    show "mn_refcount n \<noteq> 0" using mq_refs_at[OF refs n(1)] by simp
    show "unat (mn_refcount n) = Suc (mq_links ?fs a + count_list os a + (if mn_dir n then 1 else 0))"
      using mq_refs_at[OF refs n(1)] l[of a] by simp
    show "unat (mn_refcount m) = mq_links ?fs b + count_list os b + (if mn_dir m then 1 else 0) \<and>
        mn_refcount m \<noteq> 0" if "b \<noteq> a" "mq_node_at ?fs b = Some m" for b m
      using that mq_refs_at[OF refs, of b] l[of b] nd(1) unfolding at by (auto split: if_splits)
    show "\<exists>m. mq_node_at ?fs b = Some m \<and> \<not> mn_dir m" if "0 < mq_links ?fs b" for b
    proof -
      have "0 < mq_links fs b" using that l[of b] by simp
      then obtain m where m: "mq_node_at fs b = Some m" "\<not> mn_dir m"
        using refs unfolding mq_refs_ok_def by blast
      then have "b \<noteq> d" using nd by auto
      then show ?thesis using m at[of b] by simp
    qed
    show "mq_node_at ?fs b \<noteq> None" if "0 < count_list os b" for b
      using refs that nd(1) unfolding mq_refs_ok_def at by auto
    show "False" if "mn_dir n" using that n by simp
  qed
  then show ?thesis using assms(2) es by (simp add: mq_delete_def mq_find_dirent_def)
qed

lemma mq_inv_root:
  assumes "mqueue_create_root (Some a) True name \<lparr> fs_nodes = [], fs_inode_ctr = 1, fs_bytes = 0 \<rparr> = (Some a, fs)"
  shows "mq_inv fs []"
  using assms
  by (auto simp: mqueue_create_root_def mq_inv_def mq_fs_ok_def mq_shape_def mq_refs_ok_def
      mq_set_node_def mq_node_at_def mq_node_ok_def mq_node_cost_def mq_node_links_def split: if_splits)

lemma mq_new_queue_ok:
  "mq_queue_ok \<lparr> mq_maxmsg = 10, mq_msgsize = 8192, mq_curmsgs = 0, mq_configured = c, mq_head = [],
     mq_notify_pid = p, mq_notify_sig = s \<rparr>"
  by (simp add: mq_queue_ok_def)

text \<open>A fresh node gets its first link.\<close>

lemma mq_inv_link_new:
  assumes inv: "mq_inv fs os" and es: "mq_children fs d = Some es" and a: "mq_node_at fs a = None"
    and n: "mn_priv n = PQueue q" "mq_queue_ok q" "mq_head q = []" "\<not> mn_dir n" "mn_refcount n = 0"
  shows "mq_inv (mq_ref a (mq_set_children d ((k, a) # es) (mq_set_node a n fs))) os"
proof -
  have fs: "mq_fs_ok fs" and refs: "mq_refs_ok fs os" using inv by (simp_all add: mq_inv_def)
  have sh: "mq_shape fs" using fs by (simp add: mq_fs_ok_def)
  have l0: "mq_links fs a = 0" using refs a by (auto simp: mq_refs_ok_def)
  have c0: "count_list os a = 0" using refs a by (auto simp: mq_refs_ok_def)
  obtain nd where nd: "mq_node_at fs d = Some nd" "mn_priv nd = PDir es" "mn_dir nd"
    using sh es by (rule mq_children_shape)
  have da: "d \<noteq> a" using nd a by auto
  let ?f1 = "mq_set_node a n fs"
  let ?f2 = "mq_set_children d ((k, a) # es) ?f1"
  let ?f3 = "mq_set_node a (n\<lparr> mn_refcount := 1 \<rparr>) ?f2"
  have sh1: "mq_shape ?f1" using sh n by (intro mq_shape_set_node) (simp_all add: mq_node_ok_def)
  have es1: "mq_children ?f1 d = Some es" using nd da by (simp add: mq_children_iff)
  have t1: "mq_total ?f1 = mq_total fs"
    using mq_sum_set_node_new[OF a, of mq_node_cost n] n by (simp add: mq_node_cost_def mq_queue_cost_def)
  have l1: "mq_links ?f1 b = mq_links fs b" for b
    using mq_sum_set_node_new[OF a, of "mq_node_links b" n] n by (simp add: mq_node_links_def)
  note s2 = mq_set_children_shape[OF sh1 es1, where es' = "(k, a) # es"]
  note at2 = mq_set_children_at[OF es1, where es' = "(k, a) # es"]
  have a2: "mq_node_at ?f2 a = Some n" using da at2[of a] by simp
  note s3 = mq_set_refcount[OF s2(1) a2, where c = 1]
  have l3: "mq_links ?f3 b = mq_links fs b + (if a = b then 1 else 0)" for b
    using s3(3)[of b] s2(3)[of b] l1[of b] by (auto split: if_splits)
  have ref: "mq_ref a ?f2 = ?f3" using a2 n(5) by (simp add: mq_ref_def)
  have "mq_fs_ok ?f3" using fs s3(1,2) s2(2,4) t1 by (simp add: mq_fs_ok_def)
  moreover have "mq_refs_ok ?f3 os"
  proof (rule mq_refs_okI, unfold l3)
    fix b m
    assume b: "mq_node_at ?f3 b = Some m"
    show "unat (mn_refcount m) = mq_links fs b + (if a = b then 1 else 0) + count_list os b +
        (if mn_dir m then 1 else 0) \<and> mn_refcount m \<noteq> 0"
    proof (cases "b = a")
      case True
      then show ?thesis using b l0 c0 n by auto
    next
      case False
      then show ?thesis
        using b nd at2[of b] mq_refs_at[OF refs nd(1)] mq_refs_at[OF refs, of b] by (cases "b = d") auto
    qed
  next
    fix b
    assume "0 < mq_links fs b + (if a = b then 1 else 0)"
    then have "b = a \<or> (\<exists>m. mq_node_at fs b = Some m \<and> \<not> mn_dir m)"
      using refs by (auto simp: mq_refs_ok_def split: if_splits)
    then show "\<exists>m. mq_node_at ?f3 b = Some m \<and> \<not> mn_dir m"
      using nd n at2[of b] by (cases "b = a") auto
  next
    fix b
    assume "0 < count_list os b"
    then have "mq_node_at fs b \<noteq> None" using refs by (simp add: mq_refs_ok_def)
    then show "mq_node_at ?f3 b \<noteq> None" using at2[of b] nd(1) by auto
  qed
  ultimately show ?thesis unfolding ref by (simp add: mq_inv_def)
qed

lemma mq_inv_ctr: "mq_inv (fs\<lparr> fs_inode_ctr := c \<rparr>) os = mq_inv fs os"
  by (simp add: mq_inv_def mq_fs_ok_def)

lemma mq_ctr_commute:
  "mq_set_children d es (fs\<lparr> fs_inode_ctr := c \<rparr>) = (mq_set_children d es fs)\<lparr> fs_inode_ctr := c \<rparr>"
  "mq_ref a (fs\<lparr> fs_inode_ctr := c \<rparr>) = (mq_ref a fs)\<lparr> fs_inode_ctr := c \<rparr>"
  "mq_children (fs\<lparr> fs_inode_ctr := c \<rparr>) d = mq_children fs d"
  by (simp_all add: mq_set_children_def mq_ref_def mq_children_def mq_set_node_def split: option.splits)

lemma mq_inv_create:
  assumes "mq_inv fs os" "case node of Some a \<Rightarrow> mq_node_at fs a = None | None \<Rightarrow> True"
    and "mq_create node qa da d name fs = (r, fs')"
  shows "mq_inv fs' os"
proof (cases "\<exists>es a. mq_children fs d = Some es \<and> mq_find_dirent es name = None \<and> node = Some a \<and> qa")
  case False
  then show ?thesis
    using assms(1,3) by (auto simp: mq_create_def split: option.splits if_splits)
next
  case True
  then obtain es a where c: "mq_children fs d = Some es" "mq_find_dirent es name = None" "node = Some a" qa
    by blast
  have a: "mq_node_at fs a = None" using assms(2) c(3) by simp
  let ?q = "\<lparr> mq_maxmsg = 10, mq_msgsize = 8192, mq_curmsgs = 0, mq_configured = False, mq_head = [],
     mq_notify_pid = 0, mq_notify_sig = 0 \<rparr>"
  let ?n = "\<lparr> mn_name = take 127 name, mn_dir = False, mn_inode = fs_inode_ctr fs, mn_refcount = 0,
     mn_priv = PQueue ?q \<rparr>"
  let ?f1 = "mq_set_node a ?n fs"
  have es1: "mq_children ?f1 d = Some es"
    using c(1) a by (auto simp: mq_children_iff)
  show ?thesis
  proof (cases da)
    case True
    have "mq_inv (mq_ref a (mq_set_children d ((take 127 name, a) # es) ?f1)) os"
      by (rule mq_inv_link_new[OF assms(1) c(1) a, where q = ?q]) (simp_all add: mq_new_queue_ok)
    then show ?thesis
      using assms(3) c True es1 by (auto simp: mq_create_def mq_add_dirent_def Let_def mq_ctr_commute mq_inv_ctr)
  next
    case False
    have "AList.delete a (fs_nodes ?f1) = fs_nodes fs"
      using a by (simp add: mq_set_node_def mq_node_at_def heap_delete_update_new)
    then have "fs' = fs\<lparr> fs_inode_ctr := fs_inode_ctr fs + 1 \<rparr>"
      using assms(3) c False es1
      by (auto simp: mq_create_def mq_add_dirent_def Let_def mq_ctr_commute mq_set_node_def)
    then show ?thesis using assms(1) by (simp add: mq_inv_ctr)
  qed
qed

lemma mq_reach_inv: "mq_reach fs os \<Longrightarrow> mq_inv fs os"
proof (induction rule: mq_reach.induct)
  case (mq_reach_root a name fs)
  then show ?case by (rule mq_inv_root)
next
  case (mq_reach_create fs os node qa da dir name r fs')
  show ?case using mq_reach_create.IH mq_reach_create.hyps(2,3) by (rule mq_inv_create)
next
  case (mq_reach_delete fs os dir name r fs')
  show ?case using mq_reach_delete.IH mq_reach_delete.hyps(2) by (rule mq_inv_delete)
next
  case (mq_reach_open fs os a n)
  show ?case using mq_reach_open.IH mq_reach_open.hyps(2,3) by (rule mq_inv_open)
next
  case (mq_reach_close fs os a)
  show ?case using mq_reach_close.IH mq_reach_close.hyps(2) by (rule mq_inv_close)
next
  case (mq_reach_init w os a arg r w')
  show ?case using mq_reach_init.IH mq_reach_init.hyps(3) by (rule mq_inv_init)
next
  case (mq_reach_send w os a c wt r w')
  show ?case using mq_reach_send.IH mq_reach_send.hyps(3,4,5) by (rule mq_inv_send)
next
  case (mq_reach_receive w os a arg c wt r w')
  show ?case using mq_reach_receive.IH mq_reach_receive.hyps(3) by (rule mq_inv_receive)
next
  case (mq_reach_notify w os a me arg r w')
  show ?case using mq_reach_notify.IH mq_reach_notify.hyps(3) by (rule mq_inv_notify)
qed

text \<open>The specification: the earliest arrival among those of the highest priority.\<close>

definition mq_spec_receive :: "mq_msg list \<Rightarrow> (mq_msg \<times> mq_msg list) option" where
  "mq_spec_receive arr = (if arr = [] then None
     else let p = Max (mm_prio ` set arr); m = hd (filter (\<lambda>m. mm_prio m = p) arr) in Some (m, remove1 m arr))"

lemma mq_spec_receive_sort:
  assumes "sort_key mq_key arr = m # rest"
  shows "\<exists>arr'. mq_spec_receive arr = Some (m, arr') \<and> rest = sort_key mq_key arr'"
proof -
  obtain xs ys where arr: "arr = xs @ m # ys" "\<forall>x \<in> set xs. mm_prio x < mm_prio m"
      "\<forall>y \<in> set ys. mm_prio y \<le> mm_prio m" "rest = sort_key mq_key (xs @ ys)"
    using assms by (rule mq_sort_head)
  have p: "Max (mm_prio ` set arr) = mm_prio m"
    using arr(1-3) by (intro Max_eqI) (auto intro: less_imp_le)
  have f: "filter (\<lambda>x. mm_prio x = mm_prio m) xs = []" using arr(2) by (auto simp: filter_empty_conv)
  have "m \<notin> set xs" using arr(2) by auto
  then have "mq_spec_receive arr = Some (m, xs @ ys)"
    using p f arr(1) by (simp add: mq_spec_receive_def Let_def remove1_append)
  then show ?thesis using arr(4) by blast
qed

lemma mq_queue_at_set_queue:
  "mq_queue_at fs a = Some q \<Longrightarrow> mq_queue_at (mq_set_queue a q' fs) a = Some q'"
  by (auto simp: mq_queue_at_iff mq_set_queue_def)

lemma mq_queue_at_bytes [simp]: "mq_queue_at (fs\<lparr> fs_bytes := b \<rparr>) a = mq_queue_at fs a"
  by (simp add: mq_queue_at_def)

lemma mq_queue_at_free_msg [simp]: "mq_queue_at (mq_free_msg m fs) a = mq_queue_at fs a"
  by (simp add: mq_free_msg_def mq_release_bytes_def)

text \<open>What a receive that takes \<open>m\<close> does to the caller's memory.\<close>

lemma mq_receive_step_mem:
  assumes "mq_receive_step a arg c wt w = Inl (MRet 0, w')" "mq_queue_at (mw_fs w) a = Some q"
    and "mq_head q = m # ms"
  obtains mem1 where "copy_to_user (mw_mem w) (cm_ptr c) (mm_data m) = (0, mem1)"
    "copy_to_user mem1 arg (mq_msg_bytes (c\<lparr> cm_len := word_of_nat (mm_len m), cm_prio := mm_prio m \<rparr>)) = (0, mw_mem w')"
  using assms by (auto simp: mq_receive_step_def mq_dequeue_def Let_def split: if_splits prod.splits)

section \<open>Properties\<close>

text \<open>
  C19: Priority order. The message list refines the specification ``messages in order of arrival, the
  earliest one of the highest priority is delivered first'': if the list represents the arrivals
  \<open>arr\<close>, an accepted send represents \<open>arr\<close> with the new message at the end, and a receive
  on a non-empty queue never sleeps, takes exactly the message the specification names and
  represents the remaining arrivals.
\<close>

theorem mq_priority_order:
  assumes "mq_fs_ok (mw_fs w)" "mq_queue_at (mw_fs w) a = Some q" "mq_head q = sort_key mq_key arr"
  shows "(mq_send_step a c wt w = Inl (MRet 0, w1) \<longrightarrow>
      (\<exists>q1. mq_queue_at (mw_fs w1) a = Some q1 \<and> mq_head q1 = sort_key mq_key
        (arr @ [\<lparr> mm_prio = cm_prio c, mm_data = mem_read (mw_mem w) (cm_ptr c) (unat (cm_len c)) \<rparr>]))) \<and>
    (arr \<noteq> [] \<longrightarrow> (\<exists>r w2 q2 m arr2. mq_receive_step a arg c wt w = Inl (r, w2) \<and>
        mq_spec_receive arr = Some (m, arr2) \<and>
        mq_queue_at (mw_fs w2) a = Some q2 \<and> mq_head q2 = sort_key mq_key arr2 \<and>
        (r = MRet 0 \<longrightarrow> (\<exists>mem1. copy_to_user (mw_mem w) (cm_ptr c) (mm_data m) = (0, mem1)))))"
proof (intro conjI impI)
  assume "mq_send_step a c wt w = Inl (MRet 0, w1)"
  from this assms(1) show "\<exists>q1. mq_queue_at (mw_fs w1) a = Some q1 \<and> mq_head q1 = sort_key mq_key
      (arr @ [\<lparr> mm_prio = cm_prio c, mm_data = mem_read (mw_mem w) (cm_ptr c) (unat (cm_len c)) \<rparr>])"
  proof (cases rule: mq_send_step_cases)
    case (stored q' m)
    then show ?thesis
      using assms mq_queue_at_set_queue[OF assms(2)] by (simp add: mq_enqueue_sort)
  qed simp
next
  assume "arr \<noteq> []"
  then obtain m ms where h: "mq_head q = m # ms"
    using assms(3) by (metis length_0_conv length_sort list.exhaust)
  then obtain arr2 where arr2: "mq_spec_receive arr = Some (m, arr2)" "ms = sort_key mq_key arr2"
    using mq_spec_receive_sort[of arr m ms] assms(3) by auto
  have "mq_receive_step a arg c wt w \<noteq> Inr w2" for w2
    using assms(2) h by (auto simp: mq_receive_step_def mq_dequeue_def Let_def split: prod.splits)
  then obtain r w2 where step: "mq_receive_step a arg c wt w = Inl (r, w2)"
    by (metis old.sum.exhaust prod.collapse)
  from step have "\<exists>q2. mq_queue_at (mw_fs w2) a = Some q2 \<and> mq_head q2 = ms"
  proof (cases rule: mq_receive_step_cases)
    case unchanged
    then show ?thesis using assms(2) h by simp
  next
    case (taken q' m' ms')
    then show ?thesis using assms(2) h mq_queue_at_set_queue[OF assms(2)] by simp
  qed
  moreover have "r = MRet 0 \<Longrightarrow> \<exists>mem1. copy_to_user (mw_mem w) (cm_ptr c) (mm_data m) = (0, mem1)"
    using step assms(2) h by (blast elim: mq_receive_step_mem)
  ultimately show "\<exists>r w2 q2 m arr2. mq_receive_step a arg c wt w = Inl (r, w2) \<and>
      mq_spec_receive arr = Some (m, arr2) \<and>
      mq_queue_at (mw_fs w2) a = Some q2 \<and> mq_head q2 = sort_key mq_key arr2 \<and>
      (r = MRet 0 \<longrightarrow> (\<exists>mem1. copy_to_user (mw_mem w) (cm_ptr c) (mm_data m) = (0, mem1)))"
    using step arr2 by blast
qed

text \<open>
  C10: The byte budget is exact. In every reachable state of the filesystem the global counter equals
  the sum of the sizes of all messages queued in all live queues, stays within 4 MiB, and every
  queue is ordered, bounded by 256 messages of at most 8192 bytes, with a true message count.
\<close>

theorem mq_budget_exact:
  assumes "mq_reach fs opens"
  shows "unat (fs_bytes fs) = heap_sum mq_node_cost (fs_nodes fs) \<and>
    heap_sum mq_node_cost (fs_nodes fs) \<le> 4194304 \<and>
    (\<forall>a q. mq_queue_at fs a = Some q \<longrightarrow> mq_queue_ok q)"
  using mq_reach_inv[OF assms] mq_inv_queue[OF mq_reach_inv[OF assms]]
  by (simp add: mq_inv_def mq_fs_ok_def)

text \<open>
  C25: Lifetime. In every reachable state each open descriptor and each name refers to a node that
  still exists, also after its name has been removed, and no file outlives its last reference: a node
  in the heap that is not a directory has a name or an open descriptor.
\<close>

theorem mq_lifetime:
  assumes "mq_reach fs opens"
  shows "(\<forall>a \<in> set opens. \<exists>n. mq_node_at fs a = Some n) \<and>
    (\<forall>d es a. mq_children fs d = Some es \<and> a \<in> snd ` set es \<longrightarrow> (\<exists>q. mq_queue_at fs a = Some q)) \<and>
    (\<forall>a n. mq_node_at fs a = Some n \<and> \<not> mn_dir n \<longrightarrow>
       a \<in> set opens \<or> (\<exists>d es. mq_children fs d = Some es \<and> a \<in> snd ` set es))"
proof -
  have fs: "mq_shape fs" and refs: "mq_refs_ok fs opens"
    using mq_reach_inv[OF assms] by (auto simp: mq_inv_def mq_fs_ok_def)
  have cpos: "0 < count_list xs a \<longleftrightarrow> a \<in> set xs" for xs and a :: nat
    by (simp add: count_list_0_iff flip: neq0_conv)
  have link: "0 < mq_links fs a \<longleftrightarrow> (\<exists>d es. mq_children fs d = Some es \<and> a \<in> snd ` set es)" for a
  proof -
    have "mq_links fs a = 0 \<longleftrightarrow> (\<forall>d n. mq_node_at fs d = Some n \<longrightarrow> mq_node_links a n = 0)"
      using fs heap_sum_zero_map_of[of "fs_nodes fs"] by (simp add: mq_shape_def mq_node_at_def)
    moreover have "mq_node_links a n = 0 \<longleftrightarrow> (\<forall>es. mn_priv n = PDir es \<longrightarrow> a \<notin> snd ` set es)" for n
      by (cases "mn_priv n") (simp_all add: mq_node_links_def count_list_0_iff)
    ultimately have "mq_links fs a = 0 \<longleftrightarrow> (\<forall>d es. mq_children fs d = Some es \<longrightarrow> a \<notin> snd ` set es)"
      unfolding mq_children_iff by blast
    then show ?thesis by (metis neq0_conv)
  qed
  have "\<exists>q. mq_queue_at fs a = Some q" if l: "0 < mq_links fs a" for a
  proof -
    obtain n where n: "mq_node_at fs a = Some n" "\<not> mn_dir n"
      using refs l unfolding mq_refs_ok_def by blast
    then have "mq_node_ok n" using fs by (simp add: mq_shape_def)
    then show ?thesis using n by (cases "mn_priv n") (auto simp: mq_node_ok_def mq_queue_at_iff)
  qed
  moreover have "\<exists>n. mq_node_at fs a = Some n" if "a \<in> set opens" for a
    using refs that unfolding mq_refs_ok_def cpos by blast
  moreover have "a \<in> set opens \<or> 0 < mq_links fs a" if "mq_node_at fs a = Some n" "\<not> mn_dir n" for a n
    using mq_refs_at[OF refs that(1)] that(2) cpos[of opens a] by (cases "mq_links fs a = 0") (auto simp: unat_eq_0)
  ultimately show ?thesis unfolding link by blast
qed

text \<open>
  A message travels unchanged. On an empty queue, an accepted send of \<open>len\<close> bytes followed by a
  successful receive leaves in the receiver's buffer exactly the bytes the sender had, tells the
  receiver the length and the priority, empties the queue again and gives the budget back.
\<close>

theorem mq_roundtrip:
  assumes "mq_fs_ok (mw_fs w)" "mq_queue_at (mw_fs w) a = Some q" "mq_head q = []"
    and "mq_send_step a c wt w = Inl (MRet 0, w1)"
    and "mq_receive_step a arg c' wt' w1 = Inl (MRet 0, w2)"
    and "\<forall>i < unat (cm_len c). 16 \<le> unat (cm_ptr c' + word_of_nat i - arg)"
  shows "mem_read (mw_mem w2) (cm_ptr c') (unat (cm_len c)) = mem_read (mw_mem w) (cm_ptr c) (unat (cm_len c)) \<and>
    mem_read (mw_mem w2) arg 16 = mq_msg_bytes (c'\<lparr> cm_len := cm_len c, cm_prio := cm_prio c \<rparr>) \<and>
    fs_bytes (mw_fs w2) = fs_bytes (mw_fs w) \<and>
    (\<exists>q2. mq_queue_at (mw_fs w2) a = Some q2 \<and> mq_head q2 = [])"
proof -
  let ?n = "unat (cm_len c)" let ?d = "mem_read (mw_mem w) (cm_ptr c) ?n"
  let ?m = "\<lparr> mm_prio = cm_prio c, mm_data = ?d \<rparr>"
  have n32: "?n < 2 ^ 32" using unat_lt32[of "cm_len c"] by simp
  from assms(4,1) have w1: "mw_fs w1 = (mq_set_queue a (mq_sent_queue ?m q) (mw_fs w))
      \<lparr> fs_bytes := fs_bytes (mw_fs w) + word_of_nat (12 + ?n) \<rparr>"
  proof (cases rule: mq_send_step_cases)
    case (stored q' m')
    then show ?thesis using assms(2) by simp
  qed simp
  have q1: "mq_queue_at (mw_fs w1) a = Some (mq_sent_queue ?m q)" "mq_head (mq_sent_queue ?m q) = ?m # []"
    using w1 mq_queue_at_set_queue[OF assms(2)] assms(3) by simp_all
  from assms(5) have w2: "mw_fs w2 = mq_free_msg ?m (mq_set_queue a
      ((mq_sent_queue ?m q)\<lparr> mq_head := [], mq_curmsgs := mq_curmsgs (mq_sent_queue ?m q) - 1 \<rparr>) (mw_fs w1))"
  proof (cases rule: mq_receive_step_cases)
    case (taken q' m' ms')
    then show ?thesis using q1 by simp
  qed simp
  obtain mem1 where m1: "copy_to_user (mw_mem w1) (cm_ptr c') ?d = (0, mem1)"
    and m2: "copy_to_user mem1 arg (mq_msg_bytes (c'\<lparr> cm_len := word_of_nat (mm_len ?m), cm_prio := mm_prio ?m \<rparr>)) = (0, mw_mem w2)"
    using assms(5) q1 by (rule mq_receive_step_mem) simp
  have len: "word_of_nat (mm_len ?m) = cm_len c" by (simp add: mm_len_def)
  have arg: "mem_read (mw_mem w2) arg 16 = mq_msg_bytes (c'\<lparr> cm_len := cm_len c, cm_prio := cm_prio c \<rparr>)"
    using copy_from_to_user[OF _ m2] len by (simp add: copy_from_user_def mq_msg_bytes_def split: if_splits)
  have "mem_read mem1 (cm_ptr c') ?n = ?d"
    using copy_from_to_user[OF _ m1] n32 by (simp add: copy_from_user_def split: if_splits)
  moreover have "mw_mem w2 (cm_ptr c' + word_of_nat i) = mem1 (cm_ptr c' + word_of_nat i)" if "i < ?n" for i
  proof -
    have "mw_mem w2 = mem_write mem1 arg (mq_msg_bytes (c'\<lparr> cm_len := cm_len c, cm_prio := cm_prio c \<rparr>))"
      using m2 len by (auto simp: copy_to_user_def split: if_splits)
    then show ?thesis using assms(6) that by (simp add: mem_write_outside mq_msg_bytes_def)
  qed
  ultimately have buf: "mem_read (mw_mem w2) (cm_ptr c') ?n = ?d"
    by (auto simp: mem_read_def)
  have "fs_bytes (mw_fs w2) = fs_bytes (mw_fs w)"
    using w1 w2 by (simp add: mq_free_msg_def mq_release_bytes_def mm_len_def)
  moreover have "\<exists>q2. mq_queue_at (mw_fs w2) a = Some q2 \<and> mq_head q2 = []"
    using w2 mq_queue_at_set_queue[OF q1(1)] by simp
  ultimately show ?thesis using buf arg by blast
qed

section \<open>Witnesses\<close>

text \<open>A filesystem with one open queue at address 1, made by the operations themselves.\<close>

definition mq_example_fs :: mqfs where
  "mq_example_fs =
     mq_open 1 (snd (mq_create (Some 1) True True 0 (cs ''q'') (snd (mqueue_create_root (Some 0) True None
       \<lparr> fs_nodes = [], fs_inode_ctr = 1, fs_bytes = 0 \<rparr>))))"

definition mq_example_mem :: umem where
  "mq_example_mem = mem_write (\<lambda>_. 0) 0x08001000 [104, 105, 33]"

definition mq_example_world :: mq_world where
  "mq_example_world = \<lparr> mw_fs = mq_example_fs, mw_mem = mq_example_mem, mw_now = 0,
     mw_sigpend = False, mw_alloc = True, mw_signals = [] \<rparr>"

definition mq_example_call :: "u32 \<Rightarrow> u32 \<Rightarrow> u32 \<Rightarrow> cact_mq_msg" where
  "mq_example_call p len prio = \<lparr> cm_ptr = p, cm_len = len, cm_prio = prio, cm_timeout = 0 \<rparr>"

definition mq_example_wait :: mq_wait where
  "mq_example_wait = mq_wait_init 2 0 0"

definition mq_example_sent :: mq_world where
  "mq_example_sent = (case mq_send_step 1 (mq_example_call 0x08001000 3 5) mq_example_wait mq_example_world of
     Inl (r, w) \<Rightarrow> w | Inr w \<Rightarrow> w)"

lemma mq_example_reach: "mq_reach mq_example_fs [1]"
proof -
  let ?z = "\<lparr> fs_nodes = [], fs_inode_ctr = 1, fs_bytes = 0 \<rparr>"
  let ?r = "snd (mqueue_create_root (Some 0) True None ?z)"
  let ?c = "snd (mq_create (Some 1) True True 0 (cs ''q'') ?r)"
  have "fst (mqueue_create_root (Some 0) True None ?z) = Some 0" by code_simp
  then have "mqueue_create_root (Some 0) True None ?z = (Some 0, ?r)" by (metis prod.collapse)
  then have r: "mq_reach ?r []" by (rule mq_reach_root)
  have "mq_node_at ?r 1 = None" by code_simp
  then have c: "mq_reach ?c []"
    by (intro mq_reach_create[OF r, where node = "Some 1" and qa = True and da = True and dir = 0 and name = "cs ''q''"
        and r = "fst (mq_create (Some 1) True True 0 (cs ''q'') ?r)"]) simp_all
  have "map_option mn_refcount (mq_node_at ?c 1) = Some 1" by code_simp
  then obtain n where n: "mq_node_at ?c 1 = Some n" "mn_refcount n = 1" by auto
  have "mq_reach (mq_open 1 ?c) (1 # [])" using c n(1) by (rule mq_reach_open) (simp add: n(2))
  then show ?thesis by (simp add: mq_example_fs_def)
qed

lemma mq_example_ok: "mq_fs_ok mq_example_fs"
  using mq_reach_inv[OF mq_example_reach] by (simp add: mq_inv_def)

definition mq_example_queue :: mqueue where
  "mq_example_queue = \<lparr> mq_maxmsg = 10, mq_msgsize = 8192, mq_curmsgs = 0, mq_configured = False,
     mq_head = [], mq_notify_pid = 0, mq_notify_sig = 0 \<rparr>"

lemma mq_example_at: "mq_queue_at mq_example_fs 1 = Some mq_example_queue"
  by code_simp

lemma mq_example_send:
  "mq_send_step 1 (mq_example_call 0x08001000 3 5) mq_example_wait mq_example_world = Inl (MRet 0, mq_example_sent)"
proof -
  have "(case mq_send_step 1 (mq_example_call 0x08001000 3 5) mq_example_wait mq_example_world of
      Inl (r, w) \<Rightarrow> r = MRet 0 | Inr w \<Rightarrow> False)" by code_simp
  then show ?thesis unfolding mq_example_sent_def by (auto split: sum.splits)
qed

theorem mq_priority_order_witness:
  "\<exists>q1. mq_queue_at (mw_fs mq_example_sent) 1 = Some q1 \<and>
     mq_head q1 = [\<lparr> mm_prio = 5, mm_data = [104, 105, 33] \<rparr>]"
proof -
  have "mq_head mq_example_queue = sort_key mq_key []" by (simp add: mq_example_queue_def)
  moreover have "mem_read (mw_mem mq_example_world) (cm_ptr (mq_example_call 0x08001000 3 5)) (unat (cm_len (mq_example_call 0x08001000 3 5))) = [104, 105, 33]"
    by code_simp
  ultimately show ?thesis
    using mq_priority_order[of mq_example_world 1 mq_example_queue "[]" "mq_example_call 0x08001000 3 5"
        mq_example_wait mq_example_sent] mq_example_ok mq_example_at mq_example_send
    by (simp add: mq_example_world_def mq_example_call_def)
qed

theorem mq_budget_exact_witness: "unat (fs_bytes mq_example_fs) = heap_sum mq_node_cost (fs_nodes mq_example_fs)"
  using mq_budget_exact[OF mq_example_reach] by simp

theorem mq_lifetime_witness:
  "let fs = snd (mq_delete 0 (cs ''q'') mq_example_fs) in
     mq_walk fs 0 (cs ''q'') = None \<and> (\<exists>n. mq_node_at fs 1 = Some n)"
proof -
  let ?fs = "snd (mq_delete 0 (cs ''q'') mq_example_fs)"
  have "mq_reach ?fs [1]"
    by (rule mq_reach_delete[OF mq_example_reach, of 0 "cs ''q''" "fst (mq_delete 0 (cs ''q'') mq_example_fs)"]) simp
  moreover have "mq_walk ?fs 0 (cs ''q'') = None" by code_simp
  ultimately show ?thesis using mq_lifetime[of ?fs "[1]"] by (simp add: Let_def)
qed

theorem mq_roundtrip_witness:
  "\<exists>w2. mq_receive_step 1 0x08002000 (mq_example_call 0x08003000 8192 0) mq_example_wait mq_example_sent = Inl (MRet 0, w2) \<and>
     mem_read (mw_mem w2) 0x08003000 3 = [104, 105, 33] \<and> fs_bytes (mw_fs w2) = 0"
proof -
  let ?c = "mq_example_call 0x08001000 3 5" and ?c' = "mq_example_call 0x08003000 8192 0"
  have "(case mq_receive_step 1 0x08002000 ?c' mq_example_wait mq_example_sent of
      Inl (r, w) \<Rightarrow> r = MRet 0 | Inr w \<Rightarrow> False)" by code_simp
  then obtain w2 where w2: "mq_receive_step 1 0x08002000 ?c' mq_example_wait mq_example_sent = Inl (MRet 0, w2)"
    by (auto split: sum.splits)
  have l: "unat (cm_len ?c) = 3" "cm_ptr ?c' = 0x08003000" by (simp_all add: mq_example_call_def)
  have d: "\<forall>i < unat (cm_len ?c). 16 \<le> unat (cm_ptr ?c' + word_of_nat i - 0x08002000)"
    unfolding l by (simp add: numeral_3_eq_3 All_less_Suc)
  have r: "mem_read (mw_mem mq_example_world) (cm_ptr ?c) (unat (cm_len ?c)) = [104, 105, 33]"
    "mq_head mq_example_queue = []" "fs_bytes (mw_fs mq_example_world) = 0" by code_simp+
  have f: "mq_fs_ok (mw_fs mq_example_world)" "mq_queue_at (mw_fs mq_example_world) 1 = Some mq_example_queue"
    using mq_example_ok mq_example_at by (simp_all add: mq_example_world_def)
  show ?thesis
    using mq_roundtrip[OF f r(2) mq_example_send w2 d] r w2 unfolding l by auto
qed

section \<open>Where the code departs from its interface\<close>

text \<open>
  \<open>CACT_MQCTL_INIT\<close> is accepted while messages that were sent under the default limits are
  still queued: they stay, and the limit drops below their size.
\<close>

lemma mq_init_keeps_long_messages:
  assumes "mq_queue_at (mw_fs w) a = Some q" "\<not> mq_configured q" "arg \<noteq> 0"
    and "copy_from_user (mw_mem w) arg 32 = Some bs"
    and "0 < sint (ca_maxmsg (bytes_mq_attr bs))" "sint (ca_maxmsg (bytes_mq_attr bs)) \<le> 256"
    and "0 < sint (ca_msgsize (bytes_mq_attr bs))" "sint (ca_msgsize (bytes_mq_attr bs)) \<le> 8192"
  shows "\<exists>w' q'. mq_do_init a arg w = (MRet 0, w') \<and> mq_queue_at (mw_fs w') a = Some q' \<and>
    mq_head q' = mq_head q \<and> mq_msgsize q' = sint (ca_msgsize (bytes_mq_attr bs))"
  using assms mq_queue_at_set_queue[OF assms(1)] by (simp add: mq_do_init_def Let_def)

text \<open>
  A receiver then only has to offer a buffer of the new size, and the copy writes the whole old
  message: the byte just past the end of the buffer is overwritten.
\<close>

lemma mq_receive_overruns_buffer:
  assumes "mq_queue_at (mw_fs w) a = Some q" "mq_head q = m # ms" "mm_len m < 2 ^ 32"
    and "mq_receive_step a arg c wt w = Inl (MRet 0, w')"
    and "unat (cm_len c) < mm_len m" "16 \<le> unat (cm_ptr c + cm_len c - arg)"
  shows "mw_mem w' (cm_ptr c + cm_len c) = mm_data m ! unat (cm_len c)"
proof -
  obtain mem1 where m1: "copy_to_user (mw_mem w) (cm_ptr c) (mm_data m) = (0, mem1)"
    and m2: "copy_to_user mem1 arg (mq_msg_bytes (c\<lparr> cm_len := word_of_nat (mm_len m), cm_prio := mm_prio m \<rparr>)) = (0, mw_mem w')"
    using assms(4,1,2) by (rule mq_receive_step_mem)
  have "mem1 (cm_ptr c + cm_len c) = mm_data m ! unat (cm_len c)"
    using m1 assms(5) by (auto simp: copy_to_user_def mem_write_def mm_len_def split: if_splits)
  moreover have "mw_mem w' = mem_write mem1 arg
      (mq_msg_bytes (c\<lparr> cm_len := word_of_nat (mm_len m), cm_prio := mm_prio m \<rparr>))"
    using m2 by (auto simp: copy_to_user_def split: if_splits)
  ultimately show ?thesis using assms(6) by (simp add: mem_write_outside mq_msg_bytes_def)
qed

end
