(* ===== verification/Pty.thy ===== *)
theory Pty
  imports Usermem Fifo
begin

text \<open>
  Pseudo-terminal pairs: the table and the two byte rings of \<open>Cact/fs/pty/pty.c\<close> and the
  device nodes \<open>/dev/ptmx\<close> and \<open>/dev/pts/N\<close> of \<open>Cact/fs/vfs/devfs/devfs_proc.c\<close>.
  Each read and write call is a loop that yields when its ring is empty or full; one round of
  such a loop runs until it has to yield or to return.
\<close>

section \<open>State\<close>

definition PTY_MAX :: nat where "PTY_MAX = 16"
definition PTY_BUF :: nat where "PTY_BUF = 4096"

record pty_ring =
  pr_buf :: bytes
  pr_r :: nat
  pr_w :: nat

record pty =
  pt_used :: bool
  pt_locked :: bool
  pt_master_open :: bool
  pt_slave_open :: bool
  pt_m2s :: pty_ring
  pt_s2m :: pty_ring

record pty_world =
  pw_ptys :: "pty list"
  pw_mem :: umem

definition pty_zero_ring :: pty_ring where
  "pty_zero_ring = \<lparr> pr_buf = replicate PTY_BUF 0, pr_r = 0, pr_w = 0 \<rparr>"

definition pty_zero :: pty where
  "pty_zero = \<lparr> pt_used = False, pt_locked = False, pt_master_open = False, pt_slave_open = False,
     pt_m2s = pty_zero_ring, pt_s2m = pty_zero_ring \<rparr>"

section \<open>Rings\<close>

definition ring_used :: "nat \<Rightarrow> nat \<Rightarrow> nat" where
  "ring_used r w = (if w \<ge> r then w - r else PTY_BUF - r + w)"

definition ring_space :: "nat \<Rightarrow> nat \<Rightarrow> nat" where
  "ring_space r w = PTY_BUF - 1 - ring_used r w"

definition pty_ring_get :: "pty_ring \<Rightarrow> (byte \<times> pty_ring) option" where
  "pty_ring_get g =
     (if ring_used (pr_r g) (pr_w g) = 0 then None
      else Some (pr_buf g ! pr_r g, g\<lparr> pr_r := (pr_r g + 1) mod PTY_BUF \<rparr>))"

definition pty_ring_put :: "byte \<Rightarrow> pty_ring \<Rightarrow> pty_ring option" where
  "pty_ring_put c g =
     (if ring_space (pr_r g) (pr_w g) = 0 then None
      else Some (g\<lparr> pr_buf := (pr_buf g)[pr_w g := c], pr_w := (pr_w g + 1) mod PTY_BUF \<rparr>))"

text \<open>
  The read loop from the point where \<open>k\<close> bytes are still wanted: the first component says whether
  the call returns (it has its bytes, or the ring is empty and the peer is closed) or yields.
\<close>

fun pty_read_go :: "bool \<Rightarrow> nat \<Rightarrow> pty_ring \<Rightarrow> bool \<times> bytes \<times> pty_ring" where
  "pty_read_go peer 0 g = (True, [], g)"
| "pty_read_go peer (Suc k) g =
     (case pty_ring_get g of
        None \<Rightarrow> (\<not> peer, [], g)
      | Some (c, g') \<Rightarrow> (let (fin, bs, g'') = pty_read_go peer k g' in (fin, c # bs, g'')))"

text \<open>The write loop on the bytes that are left; it returns the bytes it has not written.\<close>

fun pty_write_go :: "bool \<Rightarrow> bytes \<Rightarrow> pty_ring \<Rightarrow> bool \<times> bytes \<times> pty_ring" where
  "pty_write_go peer [] g = (True, [], g)"
| "pty_write_go peer (c # xs) g =
     (case pty_ring_put c g of
        None \<Rightarrow> (\<not> peer, c # xs, g)
      | Some g' \<Rightarrow> pty_write_go peer xs g')"

section \<open>The table\<close>

fun pty_alloc_from :: "nat \<Rightarrow> pty list \<Rightarrow> int \<times> pty list" where
  "pty_alloc_from i [] = (-1, [])"
| "pty_alloc_from i (p # ps) =
     (if \<not> pt_used p then
        (int i, pty_zero\<lparr> pt_used := True, pt_locked := True, pt_master_open := True \<rparr> # ps)
      else let (r, ps') = pty_alloc_from (Suc i) ps in (r, p # ps'))"

definition pty_alloc :: "pty list \<Rightarrow> int \<times> pty list" where
  "pty_alloc ps = pty_alloc_from 0 ps"

definition pty_in :: "int \<Rightarrow> bool" where
  "pty_in i \<longleftrightarrow> i \<ge> 0 \<and> i < int PTY_MAX"

definition pty_used :: "pty list \<Rightarrow> int \<Rightarrow> bool" where
  "pty_used ps i \<longleftrightarrow> pty_in i \<and> pt_used (ps ! nat i)"

definition pty_unlocked :: "pty list \<Rightarrow> int \<Rightarrow> bool" where
  "pty_unlocked ps i \<longleftrightarrow> pty_in i \<and> pt_used (ps ! nat i) \<and> \<not> pt_locked (ps ! nat i)"

definition pty_lock :: "int \<Rightarrow> int \<Rightarrow> pty list \<Rightarrow> pty list" where
  "pty_lock i locked ps =
     (if pty_in i then ps[nat i := (ps ! nat i)\<lparr> pt_locked := (locked \<noteq> 0) \<rparr>] else ps)"

definition pty_close_master :: "int \<Rightarrow> pty list \<Rightarrow> pty list" where
  "pty_close_master i ps =
     (if \<not> pty_in i then ps
      else let p = (ps ! nat i)\<lparr> pt_master_open := False \<rparr>
        in ps[nat i := (if \<not> pt_slave_open p then p\<lparr> pt_used := False \<rparr> else p)])"

definition pty_close_slave :: "int \<Rightarrow> pty list \<Rightarrow> pty list" where
  "pty_close_slave i ps =
     (if \<not> pty_in i then ps
      else let p = (ps ! nat i)\<lparr> pt_slave_open := False \<rparr>
        in ps[nat i := (if \<not> pt_master_open p then p\<lparr> pt_used := False \<rparr> else p)])"

definition pty_slave_opened :: "int \<Rightarrow> pty list \<Rightarrow> pty list" where
  "pty_slave_opened i ps =
     (if pty_in i then ps[nat i := (ps ! nat i)\<lparr> pt_slave_open := True \<rparr>] else ps)"

section \<open>Reads and writes\<close>

text \<open>
  The four calls differ in the ring they work on and in the end whose closing stops them. A round
  works on the number of bytes transferred so far and the shared world.
\<close>

datatype pty_end = Master | Slave

definition peer_open :: "pty_end \<Rightarrow> pty \<Rightarrow> bool" where
  "peer_open e p = (case e of Master \<Rightarrow> pt_slave_open p | Slave \<Rightarrow> pt_master_open p)"

definition in_ring :: "pty_end \<Rightarrow> pty \<Rightarrow> pty_ring" where
  "in_ring e p = (case e of Master \<Rightarrow> pt_s2m p | Slave \<Rightarrow> pt_m2s p)"

definition set_in_ring :: "pty_end \<Rightarrow> pty_ring \<Rightarrow> pty \<Rightarrow> pty" where
  "set_in_ring e g p = (case e of Master \<Rightarrow> p\<lparr> pt_s2m := g \<rparr> | Slave \<Rightarrow> p\<lparr> pt_m2s := g \<rparr>)"

definition out_ring :: "pty_end \<Rightarrow> pty \<Rightarrow> pty_ring" where
  "out_ring e p = (case e of Master \<Rightarrow> pt_m2s p | Slave \<Rightarrow> pt_s2m p)"

definition set_out_ring :: "pty_end \<Rightarrow> pty_ring \<Rightarrow> pty \<Rightarrow> pty" where
  "set_out_ring e g p = (case e of Master \<Rightarrow> p\<lparr> pt_m2s := g \<rparr> | Slave \<Rightarrow> p\<lparr> pt_s2m := g \<rparr>)"

definition pty_read_step ::
  "pty_end \<Rightarrow> nat \<Rightarrow> nat \<Rightarrow> u32 \<Rightarrow> nat \<times> pty_world \<Rightarrow> (int \<times> nat \<times> pty_world) + (nat \<times> pty_world)" where
  "pty_read_step e i sz buf s =
     (let (n, w) = s; p = pw_ptys w ! i;
          (fin, bs, g) = pty_read_go (peer_open e p) (sz - n) (in_ring e p);
          n' = n + length bs;
          w' = w\<lparr> pw_ptys := (pw_ptys w)[i := set_in_ring e g p],
                  pw_mem := mem_write (pw_mem w) (buf + word_of_nat n) bs \<rparr>
      in if fin then Inl (int n', n', w') else Inr (n', w'))"

definition pty_write_step ::
  "pty_end \<Rightarrow> nat \<Rightarrow> nat \<Rightarrow> u32 \<Rightarrow> nat \<times> pty_world \<Rightarrow> (int \<times> nat \<times> pty_world) + (nat \<times> pty_world)" where
  "pty_write_step e i sz buf s =
     (let (n, w) = s; p = pw_ptys w ! i;
          (fin, rest, g) = pty_write_go (peer_open e p)
             (mem_read (pw_mem w) (buf + word_of_nat n) (sz - n)) (out_ring e p);
          n' = sz - length rest;
          w' = w\<lparr> pw_ptys := (pw_ptys w)[i := set_out_ring e g p] \<rparr>
      in if fin then Inl (int n', n', w') else Inr (n', w'))"

definition pty_read ::
  "pty_end \<Rightarrow> int \<Rightarrow> u32 \<Rightarrow> u32 \<Rightarrow> (pty_world \<Rightarrow> pty_world) list \<Rightarrow> pty_world \<Rightarrow>
     (int \<times> nat \<times> pty_world) + (nat \<times> pty_world)" where
  "pty_read e i sz buf others w =
     (if \<not> pty_in i \<or> \<not> pt_used (pw_ptys w ! nat i) then Inl (-1, 0, w)
      else if buf = 0 \<or> \<not> validate_user_ptr buf sz then Inl (-1, 0, w)
      else run_blocking (pty_read_step e (nat i) (unat sz) buf) (lift_others others) (0, w))"

definition pty_write ::
  "pty_end \<Rightarrow> int \<Rightarrow> u32 \<Rightarrow> u32 \<Rightarrow> (pty_world \<Rightarrow> pty_world) list \<Rightarrow> pty_world \<Rightarrow>
     (int \<times> nat \<times> pty_world) + (nat \<times> pty_world)" where
  "pty_write e i sz buf others w =
     (if \<not> pty_in i \<or> \<not> pt_used (pw_ptys w ! nat i) then Inl (-1, 0, w)
      else if buf = 0 \<or> \<not> validate_user_ptr buf sz then Inl (-1, 0, w)
      else run_blocking (pty_write_step e (nat i) (unat sz) buf) (lift_others others) (0, w))"

definition pty_master_read :: "int \<Rightarrow> u32 \<Rightarrow> u32 \<Rightarrow> (pty_world \<Rightarrow> pty_world) list \<Rightarrow> pty_world \<Rightarrow>
     (int \<times> nat \<times> pty_world) + (nat \<times> pty_world)" where
  "pty_master_read = pty_read Master"

definition pty_master_write :: "int \<Rightarrow> u32 \<Rightarrow> u32 \<Rightarrow> (pty_world \<Rightarrow> pty_world) list \<Rightarrow> pty_world \<Rightarrow>
     (int \<times> nat \<times> pty_world) + (nat \<times> pty_world)" where
  "pty_master_write = pty_write Master"

definition pty_slave_read :: "int \<Rightarrow> u32 \<Rightarrow> u32 \<Rightarrow> (pty_world \<Rightarrow> pty_world) list \<Rightarrow> pty_world \<Rightarrow>
     (int \<times> nat \<times> pty_world) + (nat \<times> pty_world)" where
  "pty_slave_read = pty_read Slave"

definition pty_slave_write :: "int \<Rightarrow> u32 \<Rightarrow> u32 \<Rightarrow> (pty_world \<Rightarrow> pty_world) list \<Rightarrow> pty_world \<Rightarrow>
     (int \<times> nat \<times> pty_world) + (nat \<times> pty_world)" where
  "pty_slave_write = pty_write Slave"

section \<open>Device nodes\<close>

text \<open>The private word of an open file: 0, or the pair's number plus one.\<close>

definition ptmx_open :: "pty list \<Rightarrow> nat \<times> pty list" where
  "ptmx_open ps = (let (i, ps') = pty_alloc ps in (if i < 0 then 0 else nat (i + 1), ps'))"

definition ptmx_release :: "nat \<Rightarrow> pty list \<Rightarrow> nat \<times> pty list" where
  "ptmx_release priv ps = (if priv \<noteq> 0 then (0, pty_close_master (int priv - 1) ps) else (priv, ps))"

definition pts_open :: "nat \<Rightarrow> pty list \<Rightarrow> nat \<times> pty list" where
  "pts_open node ps =
     (if \<not> pty_used ps (int node) then (0, ps)
      else if \<not> pty_unlocked ps (int node) then (0, ps)
      else (node + 1, pty_slave_opened (int node) ps))"

definition pts_release :: "nat \<Rightarrow> pty list \<Rightarrow> nat \<times> pty list" where
  "pts_release priv ps = (if priv \<noteq> 0 then (0, pty_close_slave (int priv - 1) ps) else (priv, ps))"

definition pts_read :: "nat \<Rightarrow> u32 \<Rightarrow> u32 \<Rightarrow> (pty_world \<Rightarrow> pty_world) list \<Rightarrow> pty_world \<Rightarrow>
     (int \<times> nat \<times> pty_world) + (nat \<times> pty_world)" where
  "pts_read priv sz buf others w =
     (if priv = 0 then Inl (-1, 0, w) else pty_slave_read (int priv - 1) sz buf others w)"

definition pts_write :: "nat \<Rightarrow> u32 \<Rightarrow> u32 \<Rightarrow> (pty_world \<Rightarrow> pty_world) list \<Rightarrow> pty_world \<Rightarrow>
     (int \<times> nat \<times> pty_world) + (nat \<times> pty_world)" where
  "pts_write priv sz buf others w =
     (if priv = 0 then Inl (-1, 0, w) else pty_slave_write (int priv - 1) sz buf others w)"

definition ptmx_read :: "nat \<Rightarrow> u32 \<Rightarrow> u32 \<Rightarrow> (pty_world \<Rightarrow> pty_world) list \<Rightarrow> pty_world \<Rightarrow>
     (int \<times> nat \<times> pty_world) + (nat \<times> pty_world)" where
  "ptmx_read priv sz buf others w =
     (if priv = 0 then Inl (-1, 0, w) else pty_master_read (int priv - 1) sz buf others w)"

definition ptmx_write :: "nat \<Rightarrow> u32 \<Rightarrow> u32 \<Rightarrow> (pty_world \<Rightarrow> pty_world) list \<Rightarrow> pty_world \<Rightarrow>
     (int \<times> nat \<times> pty_world) + (nat \<times> pty_world)" where
  "ptmx_write priv sz buf others w =
     (if priv = 0 then Inl (-1, 0, w) else pty_master_write (int priv - 1) sz buf others w)"

abbreviation (input) CACT_PTYCTL_GET_NUMBER :: u32 where "CACT_PTYCTL_GET_NUMBER \<equiv> 0x3E00"
abbreviation (input) CACT_PTYCTL_LOCK :: u32 where "CACT_PTYCTL_LOCK \<equiv> 0x3E01"
abbreviation (input) TIOCGPTN :: u32 where "TIOCGPTN \<equiv> 0x80045430"
abbreviation (input) TIOCSPTLCK :: u32 where "TIOCSPTLCK \<equiv> 0x40045431"

definition ptmx_ioctl :: "nat \<Rightarrow> u32 \<Rightarrow> u32 \<Rightarrow> pty_world \<Rightarrow> int \<times> pty_world" where
  "ptmx_ioctl priv cmd arg w =
     (if priv = 0 then (-1, w)
      else let i = int priv - 1 in
        if cmd = CACT_PTYCTL_GET_NUMBER \<or> cmd = TIOCGPTN then
          (if arg = 0 \<or> \<not> validate_user_ptr arg 4 then (-1, w)
           else (0, w\<lparr> pw_mem := mem_write (pw_mem w) arg (nat_le 4 (nat i)) \<rparr>))
        else if cmd = CACT_PTYCTL_LOCK \<or> cmd = TIOCSPTLCK then
          (if arg = 0 then (-1, w)
           else case copy_from_user (pw_mem w) arg 4 of None \<Rightarrow> (-1, w)
           | Some bs \<Rightarrow> (0, w\<lparr> pw_ptys := pty_lock i (sint (rd32 bs 0)) (pw_ptys w) \<rparr>))
        else (-1, w))"

section \<open>The rings as byte queues\<close>

definition pty_ring_ok :: "pty_ring \<Rightarrow> bool" where
  "pty_ring_ok g = ring_ok PTY_BUF (pr_buf g) (pr_r g) (pr_w g)"

definition pty_contents :: "pty_ring \<Rightarrow> bytes" where
  "pty_contents g = ring_list PTY_BUF (pr_buf g) (pr_r g) (pr_w g)"

definition pty_push :: "byte \<Rightarrow> pty_ring \<Rightarrow> pty_ring" where
  "pty_push c g = (case pty_ring_put c g of None \<Rightarrow> g | Some g' \<Rightarrow> g')"

lemma ring_used_fill: "pty_ring_ok g \<Longrightarrow> ring_used (pr_r g) (pr_w g) = ring_fill PTY_BUF (pr_r g) (pr_w g)"
  by (simp add: pty_ring_ok_def ring_ok_def ring_used_def ring_fill_cases)

lemma pty_buf_pos [simp]: "0 < PTY_BUF" "Suc 0 < PTY_BUF"
  by (simp_all add: PTY_BUF_def)

lemma pty_full_iff:
  "pty_ring_ok g \<Longrightarrow> ring_space (pr_r g) (pr_w g) = 0 \<longleftrightarrow> Suc (pr_w g) mod PTY_BUF = pr_r g"
proof -
  assume ok: "pty_ring_ok g"
  then have b: "pr_r g < PTY_BUF" "pr_w g < PTY_BUF" by (simp_all add: pty_ring_ok_def ring_ok_def)
  have "ring_fill PTY_BUF (pr_r g) (pr_w g) < PTY_BUF" by (simp add: ring_fill_less)
  then show ?thesis using ring_fill_full[OF b] by (auto simp: ring_space_def ring_used_fill[OF ok])
qed

interpretation pq: byte_fifo pty_ring_ok pty_contents "PTY_BUF - 1" pty_push pty_ring_get
proof
  fix r :: pty_ring and c r'
  assume ok: "pty_ring_ok r"
  then have b: "length (pr_buf r) = PTY_BUF" "pr_r r < PTY_BUF" "pr_w r < PTY_BUF"
    by (simp_all add: pty_ring_ok_def ring_ok_def)
  have len: "length (pty_contents r) = ring_fill PTY_BUF (pr_r r) (pr_w r)" by (simp add: pty_contents_def)
  show "length (pty_contents r) \<le> PTY_BUF - 1"
    using ring_fill_less[of PTY_BUF "pr_r r" "pr_w r"] by (simp add: len)
  show "pty_ring_ok (pty_push c r)"
    using b by (auto simp: pty_push_def pty_ring_put_def pty_ring_ok_def ring_ok_def)
  show "pty_contents (pty_push c r) =
      (if length (pty_contents r) < PTY_BUF - 1 then pty_contents r @ [c] else pty_contents r)"
  proof (cases "Suc (pr_w r) mod PTY_BUF = pr_r r")
    case True
    then show ?thesis
      using ok pty_full_iff[OF ok] ring_fill_full[OF b(2,3)] by (simp add: pty_push_def pty_ring_put_def len)
  next
    case False
    then have "ring_fill PTY_BUF (pr_r r) (pr_w r) < PTY_BUF - 1"
      using ring_fill_full[OF b(2,3)] ring_fill_less[of PTY_BUF "pr_r r" "pr_w r"] by simp
    then show ?thesis
      using False pty_full_iff[OF ok] ring_list_push[of PTY_BUF "pr_buf r" "pr_r r" "pr_w r" c] ok
      by (simp add: pty_push_def pty_ring_put_def len) (simp add: pty_contents_def pty_ring_ok_def)
  qed
  have e: "ring_used (pr_r r) (pr_w r) = 0 \<longleftrightarrow> pr_r r = pr_w r"
    using b by (simp add: ring_used_fill[OF ok] ring_fill_0)
  show "pty_ring_get r = None \<longleftrightarrow> pty_contents r = []"
    using ring_fill_0[OF b(2,3)] e len by (simp add: pty_ring_get_def flip: length_0_conv)
  assume g: "pty_ring_get r = Some (c, r')"
  then have "pr_r r \<noteq> pr_w r" using e by (auto simp: pty_ring_get_def split: if_splits)
  moreover have "ring_ok PTY_BUF (pr_buf r) (pr_r r) (pr_w r)" using ok by (simp add: pty_ring_ok_def)
  ultimately have "ring_list PTY_BUF (pr_buf r) (pr_r r) (pr_w r) =
      pr_buf r ! pr_r r # ring_list PTY_BUF (pr_buf r) (Suc (pr_r r) mod PTY_BUF) (pr_w r)"
    by (intro ring_list_pop)
  then show "pty_ring_ok r' \<and> pty_contents r = c # pty_contents r'"
    using g b ok by (auto simp: pty_ring_get_def pty_contents_def pty_ring_ok_def ring_ok_def split: if_splits)
qed

section \<open>Lemmas\<close>

text \<open>A read round drains the queue; it returns unless the ring ran dry with the peer open.\<close>

lemma pty_read_go_drain:
  "pty_read_go peer k g = (let (bs, g') = drain pty_ring_get k g in (length bs = k \<or> \<not> peer, bs, g'))"
proof (induction peer k g rule: pty_read_go.induct)
  case (2 peer k g)
  show ?case
  proof (cases "pty_ring_get g")
    case (Some q)
    then show ?thesis using 2[OF Some] by (cases q) (simp add: split_beta Let_def)
  qed simp
qed simp

lemma pty_read_go_spec:
  assumes "pty_ring_ok g" "pty_read_go peer k g = (fin, bs, g')"
  shows "bs = take k (pty_contents g)" "pty_contents g' = drop k (pty_contents g)" "pty_ring_ok g'"
    "fin \<longleftrightarrow> k \<le> length (pty_contents g) \<or> \<not> peer"
  using pq.drain_spec[OF assms(1), of k] assms(2)
  by (auto simp: pty_read_go_drain split_beta Let_def)

text \<open>A write round stores what fits, in order.\<close>

lemma pty_write_go_spec:
  assumes "pty_ring_ok g" "pty_write_go peer bs g = (fin, rest, g')"
  shows "pty_ring_ok g' \<and> rest = drop (PTY_BUF - 1 - length (pty_contents g)) bs \<and>
    pty_contents g' = pty_contents g @ take (PTY_BUF - 1 - length (pty_contents g)) bs \<and>
    (fin \<longleftrightarrow> rest = [] \<or> \<not> peer)"
  using assms
proof (induction peer bs g rule: pty_write_go.induct)
  case (2 peer c xs g)
  have full: "pty_ring_put c g = None \<longleftrightarrow> length (pty_contents g) = PTY_BUF - 1"
  proof -
    have b: "pr_r g < PTY_BUF" "pr_w g < PTY_BUF"
      using 2(2) by (simp_all add: pty_ring_ok_def ring_ok_def)
    show ?thesis
      using pty_full_iff[OF 2(2)] ring_fill_full[OF b] by (simp add: pty_ring_put_def pty_contents_def)
  qed
  show ?case
  proof (cases "pty_ring_put c g")
    case None
    then show ?thesis using 2(2,3) full by auto
  next
    case (Some g1)
    have lt: "length (pty_contents g) < PTY_BUF - 1"
      using pq.bounded[OF 2(2)] full Some by (simp add: le_neq_implies_less)
    have g1: "pty_ring_ok g1" "pty_contents g1 = pty_contents g @ [c]"
      using pq.push_ok[OF 2(2), of c] pq.push_contents[OF 2(2), of c] lt Some by (simp_all add: pty_push_def)
    have "PTY_BUF - 1 - length (pty_contents g) = Suc (PTY_BUF - 1 - length (pty_contents g1))"
      using lt g1(2) by simp
    then show ?thesis using 2(1)[OF Some g1(1)] 2(3) Some g1(2) by simp
  qed
qed auto

section \<open>Interleaved rounds on one pair\<close>

text \<open>
  One operation is one round of a read or write loop at one end; \<open>pty_exec\<close> runs a sequence of
  them and collects, for each end, the bytes its writes handed over and the bytes its reads got.
\<close>

datatype pty_op = PWrite pty_end bytes | PRead pty_end nat

definition pty_exec_op :: "pty_op \<Rightarrow> (pty_end \<Rightarrow> bytes) \<times> (pty_end \<Rightarrow> bytes) \<times> pty \<Rightarrow>
    (pty_end \<Rightarrow> bytes) \<times> (pty_end \<Rightarrow> bytes) \<times> pty" where
  "pty_exec_op opn s = (let (wr, rd, p) = s in
     case opn of
       PWrite e bs \<Rightarrow>
         (let (fin, rest, g) = pty_write_go (peer_open e p) bs (out_ring e p)
          in (wr(e := wr e @ take (length bs - length rest) bs), rd, set_out_ring e g p))
     | PRead e k \<Rightarrow>
         (let (fin, bs, g) = pty_read_go (peer_open e p) k (in_ring e p)
          in (wr, rd(e := rd e @ bs), set_in_ring e g p)))"

definition pty_exec :: "pty_op list \<Rightarrow> pty \<Rightarrow> (pty_end \<Rightarrow> bytes) \<times> (pty_end \<Rightarrow> bytes) \<times> pty" where
  "pty_exec ops p = fold pty_exec_op ops ((\<lambda>_. []), (\<lambda>_. []), p)"

definition pty_ok :: "pty \<Rightarrow> bool" where
  "pty_ok p \<longleftrightarrow> pty_ring_ok (pt_m2s p) \<and> pty_ring_ok (pt_s2m p)"

definition pty_other :: "pty_end \<Rightarrow> pty_end" where
  "pty_other e = (case e of Master \<Rightarrow> Slave | Slave \<Rightarrow> Master)"

lemmas pty_end_simps = peer_open_def in_ring_def out_ring_def set_in_ring_def set_out_ring_def pty_other_def

definition pty_conserved :: "pty \<Rightarrow> (pty_end \<Rightarrow> bytes) \<times> (pty_end \<Rightarrow> bytes) \<times> pty \<Rightarrow> bool" where
  "pty_conserved p0 s \<longleftrightarrow> (case s of (wr, rd, p) \<Rightarrow> pty_ok p \<and>
     (\<forall>e. pty_contents (out_ring e p0) @ wr e = rd (pty_other e) @ pty_contents (out_ring e p)))"

lemma pty_exec_op_conserved: "pty_conserved p0 s \<Longrightarrow> pty_conserved p0 (pty_exec_op opn s)"
proof -
  assume c: "pty_conserved p0 s"
  obtain wr rd p where s: "s = (wr, rd, p)" by (cases s)
  have ok: "pty_ring_ok (pt_m2s p)" "pty_ring_ok (pt_s2m p)"
    and eq: "\<And>e. pty_contents (out_ring e p0) @ wr e = rd (pty_other e) @ pty_contents (out_ring e p)"
    using c by (auto simp: s pty_conserved_def pty_ok_def)
  have r: "pty_ring_ok (out_ring e p)" "pty_ring_ok (in_ring e p)" for e
    using ok by (cases e; simp add: pty_end_simps)+
  show ?thesis
  proof (cases opn)
    case (PWrite e bs)
    obtain fin rest g where w: "pty_write_go (peer_open e p) bs (out_ring e p) = (fin, rest, g)"
      by (cases "pty_write_go (peer_open e p) bs (out_ring e p)")
    note sp = pty_write_go_spec[OF r(1) w]
    let ?k = "PTY_BUF - 1 - length (pty_contents (out_ring e p))"
    have "take (length bs - length rest) bs = take ?k bs" using sp by (cases "?k \<le> length bs") auto
    then show ?thesis
      using PWrite w sp ok eq[of Master] eq[of Slave]
      by (cases e) (auto simp: s pty_exec_op_def pty_conserved_def pty_ok_def pty_end_simps split: pty_end.splits)
  next
    case (PRead e k)
    obtain fin bs g where w: "pty_read_go (peer_open e p) k (in_ring e p) = (fin, bs, g)"
      by (cases "pty_read_go (peer_open e p) k (in_ring e p)")
    note sp = pty_read_go_spec[OF r(2) w]
    show ?thesis
      using PRead w sp ok eq[of Master] eq[of Slave]
      by (cases e) (auto simp: s pty_exec_op_def pty_conserved_def pty_ok_def pty_end_simps split: pty_end.splits)
  qed
qed

section \<open>Properties\<close>

text \<open>
  C22: A pair is a faithful transport. Whatever read and write rounds the two ends interleave, in each
  direction the bytes that were in the ring at the start followed by the bytes accepted from the
  writer are exactly the bytes delivered to the reader followed by the bytes still in the ring: no
  loss, no duplication, no reordering, and the two directions do not mix.
\<close>

theorem pty_transport:
  assumes "pty_ok p" "pty_exec ops p = (wr, rd, p')"
  shows "pty_contents (out_ring e p) @ wr e = rd (pty_other e) @ pty_contents (out_ring e p')"
proof -
  have "pty_conserved p s \<Longrightarrow> pty_conserved p (fold pty_exec_op ops s)" for s
    by (induction ops arbitrary: s) (simp_all add: pty_exec_op_conserved)
  from this[of "((\<lambda>_. []), (\<lambda>_. []), p)"] have "pty_conserved p (pty_exec ops p)"
    using assms(1) by (simp add: pty_conserved_def pty_exec_def)
  then show ?thesis using assms(2) by (simp add: pty_conserved_def)
qed

lemma pty_zero_ok: "pty_ok pty_zero" "pty_contents pty_zero_ring = []"
  by (simp_all add: pty_ok_def pty_zero_def pty_zero_ring_def pty_ring_ok_def ring_ok_def pty_contents_def)

theorem pty_transport_witness:
  "pty_exec [PWrite Master [7, 8], PRead Slave 1] pty_zero =
     ((\<lambda>_. [])(Master := [7, 8]), (\<lambda>_. [])(Slave := [7]), snd (snd (pty_exec [PWrite Master [7, 8], PRead Slave 1] pty_zero))) \<and>
   pty_contents (pt_m2s (snd (snd (pty_exec [PWrite Master [7, 8], PRead Slave 1] pty_zero)))) = [8]"
proof -
  let ?x = "pty_exec [PWrite Master [7, 8], PRead Slave 1] pty_zero"
  have x: "?x = ((\<lambda>_. [])(Master := [7, 8]), (\<lambda>_. [])(Slave := [7]), snd (snd ?x))"
    by (simp add: pty_exec_def pty_exec_op_def pty_end_simps pty_zero_def pty_zero_ring_def pty_ring_put_def
        pty_ring_get_def ring_used_def ring_space_def PTY_BUF_def)
  from pty_transport[OF pty_zero_ok(1) x, of Master]
  have "pty_contents (pt_m2s (snd (snd ?x))) = [8]"
    using pty_zero_ok(2) by (simp add: pty_end_simps pty_zero_def)
  then show ?thesis using x by simp
qed

text \<open>
  What the master writes the slave reads. On a pair in use whose master-to-slave ring is empty, a
  write of at most 4095 bytes returns at once with all of them taken, and a slave read of as many
  bytes then returns at once with exactly these bytes in its buffer.
\<close>

theorem pty_write_read_roundtrip:
  assumes "pty_in i" "length (pw_ptys w) = PTY_MAX" "pt_used (pw_ptys w ! nat i)"
    and "pty_ok (pw_ptys w ! nat i)" "pty_contents (pt_m2s (pw_ptys w ! nat i)) = []"
    and "buf \<noteq> 0" "validate_user_ptr buf sz" "buf2 \<noteq> 0" "validate_user_ptr buf2 sz"
    and "unat sz \<le> PTY_BUF - 1"
  shows "\<exists>w1 w2. pty_master_write i sz buf [] w = Inl (int (unat sz), unat sz, w1) \<and>
    pty_slave_read i sz buf2 [] w1 = Inl (int (unat sz), unat sz, w2) \<and>
    mem_read (pw_mem w2) buf2 (unat sz) = mem_read (pw_mem w) buf (unat sz)"
proof -
  let ?p = "pw_ptys w ! nat i" let ?d = "mem_read (pw_mem w) buf (unat sz)"
  have i: "nat i < length (pw_ptys w)" using assms(1,2) by (auto simp: pty_in_def)
  have m2s: "pty_ring_ok (pt_m2s ?p)" using assms(4) by (simp add: pty_ok_def)
  obtain fin rest g where w: "pty_write_go (pt_slave_open ?p) ?d (pt_m2s ?p) = (fin, rest, g)"
    by (cases "pty_write_go (pt_slave_open ?p) ?d (pt_m2s ?p)")
  have g: "pty_ring_ok g" "rest = []" "pty_contents g = ?d" fin
    using pty_write_go_spec[OF m2s w] assms(5,10) by auto
  let ?w1 = "w\<lparr> pw_ptys := (pw_ptys w)[nat i := ?p\<lparr> pt_m2s := g \<rparr>] \<rparr>"
  have wr: "pty_master_write i sz buf [] w = Inl (int (unat sz), unat sz, ?w1)"
    using assms(1,3,6,7) w g(2,4)
    by (simp add: pty_master_write_def pty_write_def pty_write_step_def lift_others_def pty_end_simps)
  obtain fin' bs g' where r: "pty_read_go (pt_master_open ?p) (unat sz) g = (fin', bs, g')"
    by (cases "pty_read_go (pt_master_open ?p) (unat sz) g")
  have r': "bs = ?d" fin' using pty_read_go_spec[OF g(1) r] g(3) by simp_all
  let ?w2 = "?w1\<lparr> pw_ptys := (pw_ptys ?w1)[nat i := (pw_ptys ?w1 ! nat i)\<lparr> pt_m2s := g' \<rparr>],
      pw_mem := mem_write (pw_mem w) buf2 ?d \<rparr>"
  have rd: "pty_slave_read i sz buf2 [] ?w1 = Inl (int (unat sz), unat sz, ?w2)"
    using assms(1,3,8,9) r r' i
    by (simp add: pty_slave_read_def pty_read_def pty_read_step_def lift_others_def pty_end_simps Let_def)
  have "mem_read (mem_write (pw_mem w) buf2 ?d) buf2 (length ?d) = ?d"
    using assms(10) by (intro mem_read_write) (simp add: PTY_BUF_def)
  then have "mem_read (pw_mem ?w2) buf2 (unat sz) = ?d" by simp
  with wr rd show ?thesis by blast
qed

definition pty_example_world :: pty_world where
  "pty_example_world = \<lparr> pw_ptys = pty_zero\<lparr> pt_used := True, pt_master_open := True, pt_slave_open := True \<rparr> #
     replicate 15 pty_zero, pw_mem = (\<lambda>_. 5) \<rparr>"

theorem pty_write_read_roundtrip_witness:
  "\<exists>w1 w2. pty_master_write 0 3 0x08000000 [] pty_example_world = Inl (3, 3, w1) \<and>
    pty_slave_read 0 3 0x09000000 [] w1 = Inl (3, 3, w2) \<and> mem_read (pw_mem w2) 0x09000000 3 = [5, 5, 5]"
proof -
  have v: "validate_user_ptr 0x08000000 3" "validate_user_ptr 0x09000000 3"
    by (simp_all add: validate_user_ptr_def USER_SPACE_START_def KERNEL_BASE_def)
  have "pty_ok (pw_ptys pty_example_world ! 0)" "pty_contents (pt_m2s (pw_ptys pty_example_world ! 0)) = []"
    using pty_zero_ok by (simp_all add: pty_example_world_def pty_zero_def pty_ok_def)
  moreover have "mem_read (pw_mem pty_example_world) 0x08000000 3 = [5, 5, 5]"
    by (simp add: pty_example_world_def mem_read_def numeral_3_eq_3)
  ultimately show ?thesis
    using pty_write_read_roundtrip[of 0 pty_example_world "0x08000000" 3 "0x09000000"] v
    by (simp add: pty_in_def PTY_MAX_def PTY_BUF_def) (simp add: pty_example_world_def)
qed

section \<open>Where the code departs from its interface\<close>

text \<open>
  The open state of a slave is one bit, not a count. Two files on the same slave, one of them closed,
  then the master closed: the pair is recycled although the second slave file is still open, and
  that file (private word 1) now belongs to the next process that opens \<open>/dev/ptmx\<close> (master
  private word 1 as well).
\<close>

lemma pts_second_open_survives_recycling:
  assumes "\<not> pt_used p0"
  shows "let (m, ps1) = ptmx_open (p0 # ps);
             ps2 = pty_lock 0 0 ps1;
             (f1, ps3) = pts_open 0 ps2;
             (f2, ps4) = pts_open 0 ps3;
             (_, ps5) = pts_release f1 ps4;
             (_, ps6) = ptmx_release m ps5;
             (m', ps7) = ptmx_open ps6
         in f1 = 1 \<and> f2 = 1 \<and> m' = 1 \<and> pt_used (ps7 ! 0) \<and> pt_locked (ps7 ! 0)"
  using assms
  by (simp add: ptmx_open_def pty_alloc_def pty_lock_def pts_open_def pts_release_def ptmx_release_def
      pty_used_def pty_unlocked_def pty_slave_opened_def pty_close_slave_def pty_close_master_def
      pty_in_def PTY_MAX_def pty_zero_def Let_def)

end
