(* ===== verification/Tty.thy ===== *)
theory Tty
  imports Usermem Fifo
begin

text \<open>
  Virtual terminals and their line discipline: \<open>Cact/drivers/tty/tty.c\<close>. Each terminal has a
  scrollback of recent output, a termios, an input ring and a line being edited. The state also
  holds what the driver reads or drives outside of itself: the caller's address space, the
  foreground process group and the process groups alive, the pending-signal mask of the caller,
  whether a framebuffer is present, the device nodes that are registered, the signals sent and the
  text that was drawn.
\<close>

section \<open>State\<close>

definition TTY_MAX_VT :: nat where "TTY_MAX_VT = 63"
definition TTY_OUTBUF :: nat where "TTY_OUTBUF = 4096"
definition TTY_IBUF :: nat where "TTY_IBUF = 1024"
definition TTY_LINE_MAX :: nat where "TTY_LINE_MAX = TTY_IBUF - 2"
definition TTY_CTTY_MAX :: nat where "TTY_CTTY_MAX = 32"

abbreviation (input) TTY_ISIG :: u32 where "TTY_ISIG \<equiv> 0x1"
abbreviation (input) TTY_ICANON :: u32 where "TTY_ICANON \<equiv> 0x2"
abbreviation (input) TTY_ECHO :: u32 where "TTY_ECHO \<equiv> 0x8"
abbreviation (input) TTY_ECHOE :: u32 where "TTY_ECHOE \<equiv> 0x10"
abbreviation (input) TTY_ECHOK :: u32 where "TTY_ECHOK \<equiv> 0x20"
abbreviation (input) TTY_NCCS :: nat where "TTY_NCCS \<equiv> 19"
abbreviation (input) TTY_VINTR :: nat where "TTY_VINTR \<equiv> 0"
abbreviation (input) TTY_VQUIT :: nat where "TTY_VQUIT \<equiv> 1"
abbreviation (input) TTY_VERASE :: nat where "TTY_VERASE \<equiv> 2"
abbreviation (input) TTY_VKILL :: nat where "TTY_VKILL \<equiv> 3"
abbreviation (input) TTY_VEOF :: nat where "TTY_VEOF \<equiv> 4"
abbreviation (input) TTY_VSUSP :: nat where "TTY_VSUSP \<equiv> 10"
abbreviation (input) TTY_VWERASE :: nat where "TTY_VWERASE \<equiv> 14"
abbreviation (input) SIGSTOP :: u32 where "SIGSTOP \<equiv> 0x4"
abbreviation (input) SIGCHLD :: u32 where "SIGCHLD \<equiv> 0x40"
abbreviation (input) SIGWINCH :: u32 where "SIGWINCH \<equiv> 0x200"
abbreviation (input) SIGINT :: u32 where "SIGINT \<equiv> 0x800"
abbreviation (input) SIGQUIT :: u32 where "SIGQUIT \<equiv> 0x1000"

text \<open>The structure is 36 bytes long; \<open>c_pad\<close> is the padding byte after \<open>c_cc\<close>.\<close>

record tty_termios =
  c_iflag :: u32
  c_oflag :: u32
  c_cflag :: u32
  c_lflag :: u32
  c_cc :: bytes
  c_pad :: byte

record tty_vt =
  vt_out :: bytes
  vt_out_len :: nat
  vt_tio :: tty_termios
  vt_in_buf :: bytes
  vt_in_wr :: nat
  vt_in_rd :: nat
  vt_line_buf :: bytes
  vt_line_len :: nat
  vt_eof :: bool

record tty_state =
  tt_vts :: "tty_vt list" \<comment> \<open>index 1 to \<open>TTY_MAX_VT\<close>\<close>
  tt_ready :: bool
  tt_cur :: int
  tt_num :: int
  tt_pending :: int
  tt_ctty :: "(u32 \<times> int) list"
  tt_fg :: u32 \<comment> \<open>\<open>terminal_fg_pgid\<close>\<close>
  tt_pgids :: "u32 list" \<comment> \<open>process groups of the task list\<close>
  tt_sigpend :: u32
  tt_fb :: bool
  tt_nodes :: "nat list"
  tt_signals :: "(u32 \<times> u32) list"
  tt_screen :: bytes
  tt_mem :: umem

definition vt_at :: "nat \<Rightarrow> tty_state \<Rightarrow> tty_vt" where
  "vt_at i t = tt_vts t ! i"

definition upd_vt :: "nat \<Rightarrow> (tty_vt \<Rightarrow> tty_vt) \<Rightarrow> tty_state \<Rightarrow> tty_state" where
  "upd_vt i f t = t\<lparr> tt_vts := (tt_vts t)[i := f (tt_vts t ! i)] \<rparr>"

definition tty_count :: "tty_state \<Rightarrow> int" where "tty_count t = tt_num t"
definition tty_active :: "tty_state \<Rightarrow> int" where "tty_active t = tt_cur t"

definition tty_index :: "tty_state \<Rightarrow> int \<Rightarrow> int" where
  "tty_index t idx = (if idx \<le> 0 then tt_cur t else idx)"

definition tty_vt_range :: "int \<Rightarrow> bool" where
  "tty_vt_range i \<longleftrightarrow> \<not> (i < 1 \<or> i > int TTY_MAX_VT)"

definition tty_termios_default :: tty_termios where
  "tty_termios_default = \<lparr> c_iflag = 0, c_oflag = 0, c_cflag = 0,
     c_lflag = TTY_ISIG OR TTY_ICANON OR TTY_ECHO OR TTY_ECHOE OR TTY_ECHOK,
     c_cc = (replicate TTY_NCCS 0)[TTY_VINTR := 0x03, TTY_VQUIT := 0x1C, TTY_VERASE := 0x7F,
       TTY_VKILL := 0x15, TTY_VEOF := 0x04, 5 := 0, 6 := 1, 8 := 0x11, 9 := 0x13, TTY_VSUSP := 0x1A,
       11 := 0, TTY_VWERASE := 0x17, 15 := 0x16, 16 := 0],
     c_pad = 0 \<rparr>"

section \<open>Scrollback\<close>

definition vt_append :: "bytes \<Rightarrow> tty_vt \<Rightarrow> tty_vt" where
  "vt_append buf v =
     (let n = length buf in
      if n \<ge> TTY_OUTBUF then
        v\<lparr> vt_out := drop (n - TTY_OUTBUF) buf, vt_out_len := TTY_OUTBUF \<rparr>
      else
        let v1 = (if vt_out_len v + n > TTY_OUTBUF then
                    let drp = vt_out_len v + n - TTY_OUTBUF; keep = vt_out_len v - drp
                    in v\<lparr> vt_out := slice drp keep (vt_out v) @ drop keep (vt_out v), vt_out_len := keep \<rparr>
                  else v)
        in v1\<lparr> vt_out := take (vt_out_len v1) (vt_out v1) @ buf @ drop (vt_out_len v1 + n) (vt_out v1),
               vt_out_len := vt_out_len v1 + n \<rparr>)"

definition console_on_write :: "bytes \<Rightarrow> tty_state \<Rightarrow> tty_state" where
  "console_on_write buf t = (if buf \<noteq> [] then upd_vt (nat (tt_cur t)) (vt_append buf) t else t)"

text \<open>\<open>console_puts\<close>: the text up to its terminator is recorded and drawn.\<close>

definition console_puts :: "bytes \<Rightarrow> tty_state \<Rightarrow> tty_state" where
  "console_puts msg t =
     (let s = takeWhile (\<lambda>c. c \<noteq> 0) msg; t1 = console_on_write s t
      in t1\<lparr> tt_screen := tt_screen t1 @ s \<rparr>)"

definition vt_echo_char :: "nat \<Rightarrow> byte \<Rightarrow> tty_state \<Rightarrow> tty_state" where
  "vt_echo_char i c t =
     (if int i \<noteq> tt_cur t then t
      else if \<not> tt_fb t then t
      else console_puts [c] t)"

definition vt_echo_str :: "nat \<Rightarrow> bytes \<Rightarrow> tty_state \<Rightarrow> tty_state" where
  "vt_echo_str i s t = fold (vt_echo_char i) (takeWhile (\<lambda>c. c \<noteq> 0) s) t"

section \<open>Input queue and line editing\<close>

definition in_push :: "byte \<Rightarrow> tty_vt \<Rightarrow> tty_vt" where
  "in_push c v =
     (let nxt = (vt_in_wr v + 1) mod TTY_IBUF in
      if nxt = vt_in_rd v then v
      else v\<lparr> vt_in_buf := (vt_in_buf v)[vt_in_wr v := c], vt_in_wr := nxt \<rparr>)"

definition line_clear :: "tty_vt \<Rightarrow> tty_vt" where
  "line_clear v = v\<lparr> vt_line_len := 0 \<rparr>"

definition line_commit :: "bool \<Rightarrow> tty_vt \<Rightarrow> tty_vt" where
  "line_commit add_newline v =
     (let v1 = fold in_push (take (vt_line_len v) (vt_line_buf v)) v;
          v2 = (if add_newline then in_push 10 v1 else v1)
      in line_clear v2)"

definition tty_signal_fg :: "u32 \<Rightarrow> tty_state \<Rightarrow> tty_state" where
  "tty_signal_fg sig t =
     (if tt_fg t \<noteq> 0 then t\<lparr> tt_signals := tt_signals t @ [(tt_fg t, sig)] \<rparr> else t)"

definition is_blank :: "byte \<Rightarrow> bool" where
  "is_blank c \<longleftrightarrow> c = 32 \<or> c = 9"

text \<open>The two \<open>while\<close> loops of \<open>line_werase\<close>: the length that is left.\<close>

fun skip_back :: "(byte \<Rightarrow> bool) \<Rightarrow> bytes \<Rightarrow> nat \<Rightarrow> nat" where
  "skip_back P buf 0 = 0"
| "skip_back P buf (Suc n) = (if P (buf ! n) then skip_back P buf n else Suc n)"

text \<open>One \<open>"\b \b"\<close> per erased character.\<close>

definition echo_erase :: "nat \<Rightarrow> nat \<Rightarrow> tty_state \<Rightarrow> tty_state" where
  "echo_erase i k t = (vt_echo_str i [8, 32, 8] ^^ k) t"

definition line_werase :: "nat \<Rightarrow> tty_state \<Rightarrow> tty_state" where
  "line_werase i t =
     (let v = vt_at i t;
          n = skip_back (\<lambda>c. \<not> is_blank c) (vt_line_buf v) (skip_back is_blank (vt_line_buf v) (vt_line_len v));
          t1 = (if flag (c_lflag (vt_tio v)) TTY_ECHO then echo_erase i (vt_line_len v - n) t else t)
      in upd_vt i (\<lambda>v. v\<lparr> vt_line_len := n \<rparr>) t1)"

text \<open>A signal character: to the foreground group, or to the reader when there is none.\<close>

definition tty_sigchar :: "nat \<Rightarrow> byte \<Rightarrow> u32 \<Rightarrow> bytes \<Rightarrow> tty_state \<Rightarrow> tty_state" where
  "tty_sigchar i c sig msg t =
     (if tt_fg t \<noteq> 0 then
        let t1 = upd_vt i line_clear (tty_signal_fg sig t)
        in if flag (c_lflag (vt_tio (vt_at i t1))) TTY_ECHO then vt_echo_str i msg t1 else t1
      else upd_vt i (in_push c) t)"

text \<open>Canonical mode: edit the line, commit it at a newline or at end of file.\<close>

definition tty_canon :: "nat \<Rightarrow> byte \<Rightarrow> tty_state \<Rightarrow> tty_state" where
  "tty_canon i c t =
     (let tio = vt_tio (vt_at i t); cc = c_cc tio; lf = c_lflag tio;
          echo = (\<lambda>s t. if flag lf TTY_ECHO then vt_echo_str i s t else t)
      in
      if c = cc ! TTY_VEOF then
        (if vt_line_len (vt_at i t) = 0 then upd_vt i (\<lambda>v. v\<lparr> vt_eof := True \<rparr>) t
         else upd_vt i (line_commit False) t)
      else if c = 10 \<or> c = 13 then upd_vt i (line_commit True) (echo [13, 10] t)
      else if c = cc ! TTY_VERASE \<or> c = 8 then
        (if vt_line_len (vt_at i t) > 0
         then echo [8, 32, 8] (upd_vt i (\<lambda>v. v\<lparr> vt_line_len := vt_line_len v - 1 \<rparr>) t) else t)
      else if c = cc ! TTY_VKILL then
        upd_vt i line_clear
          (if flag lf TTY_ECHO then echo_erase i (vt_line_len (vt_at i t)) t else t)
      else if c = cc ! TTY_VWERASE then line_werase i t
      else if vt_line_len (vt_at i t) < TTY_LINE_MAX then
        (let t1 = upd_vt i (\<lambda>v. v\<lparr> vt_line_buf := (vt_line_buf v)[vt_line_len v := c],
                                   vt_line_len := vt_line_len v + 1 \<rparr>) t
         in if flag lf TTY_ECHO \<and> c \<ge> 0x20 \<and> c < 0x7f then vt_echo_char i c t1 else t1)
      else t)"

definition tty_input :: "int \<Rightarrow> byte \<Rightarrow> tty_state \<Rightarrow> tty_state" where
  "tty_input idx c t =
     (if c = 0 then t
      else let ii = tty_index t idx in
      if \<not> tty_vt_range ii then t
      else
        let i = nat ii; cc = c_cc (vt_tio (vt_at i t)); lf = c_lflag (vt_tio (vt_at i t)) in
        if flag lf TTY_ISIG \<and> c = cc ! TTY_VINTR then tty_sigchar i c SIGINT (cs ''^C'' @ [13, 10]) t
        else if flag lf TTY_ISIG \<and> c = cc ! TTY_VQUIT then tty_sigchar i c SIGQUIT [94, 92, 13, 10] t
        else if flag lf TTY_ISIG \<and> c = cc ! TTY_VSUSP then tty_sigchar i c SIGSTOP (cs ''^Z'' @ [13, 10]) t
        else if \<not> flag lf TTY_ICANON then upd_vt i (in_push c) t
        else tty_canon i c t)"

section \<open>Terminal lifetime and switching\<close>

text \<open>\<open>reg n\<close> is whether \<open>register_chrdev("ttyn", ...)\<close> succeeds.\<close>

definition tty_vt_reset :: "tty_vt \<Rightarrow> tty_vt" where
  "tty_vt_reset v = v\<lparr> vt_tio := tty_termios_default, vt_in_wr := 0, vt_in_rd := 0,
     vt_line_len := 0, vt_eof := False \<rparr>"

definition tty_vt_register :: "(nat \<Rightarrow> bool) \<Rightarrow> int \<Rightarrow> tty_state \<Rightarrow> int \<times> tty_state" where
  "tty_vt_register reg n t =
     (if \<not> tty_vt_range n then (-1, t)
      else if \<not> reg (nat n) then (-1, t)
      else (0, upd_vt (nat n) tty_vt_reset (t\<lparr> tt_nodes := nat n # tt_nodes t \<rparr>)))"

definition tty_vt_unregister :: "int \<Rightarrow> tty_state \<Rightarrow> tty_state" where
  "tty_vt_unregister n t =
     t\<lparr> tt_nodes := removeAll (nat n) (tt_nodes t),
        tt_ctty := map (\<lambda>(pid, idx). (pid, if idx = n then 0 else idx)) (tt_ctty t) \<rparr>"

definition tty_alloc :: "(nat \<Rightarrow> bool) \<Rightarrow> tty_state \<Rightarrow> int \<times> tty_state" where
  "tty_alloc reg t =
     (if tt_num t \<ge> int TTY_MAX_VT then (-1, t)
      else let n = tt_num t + 1; (r, t1) = tty_vt_register reg n t in
        if r \<noteq> 0 then (-1, t1)
        else (n, (upd_vt (nat n) (\<lambda>v. v\<lparr> vt_out := replicate TTY_OUTBUF 0, vt_out_len := 0 \<rparr>) t1)
                   \<lparr> tt_num := n \<rparr>))"

definition tty_free :: "int \<Rightarrow> tty_state \<Rightarrow> int \<times> tty_state" where
  "tty_free n t =
     (if n < 1 \<or> n \<noteq> tt_num t then (-1, t)
      else if n = tt_cur t then (-1, t)
      else (0, (tty_vt_unregister n t)\<lparr> tt_num := n - 1 \<rparr>))"

definition tty_init :: "(nat \<Rightarrow> bool) \<Rightarrow> tty_state \<Rightarrow> tty_state" where
  "tty_init reg t =
     (if tt_ready t then t
      else
        let t1 = t\<lparr> tt_ctty := replicate TTY_CTTY_MAX (0, 0), tt_cur := 1, tt_num := 0, tt_ready := True \<rparr>;
            t2 = (if reg 0 then t1\<lparr> tt_nodes := 0 # tt_nodes t1 \<rparr> else t1);
            (r, t3) = tty_vt_register reg 1 t2
        in if r \<noteq> 0 then t3 else t3\<lparr> tt_num := 1 \<rparr>)"

text \<open>
  The bytes that \<open>_console_emit\<close> interprets: it stops at a null byte in the text or after an escape
  character, while one that cuts a control sequence short is skipped.
\<close>

datatype esc_state = EscText | EscSeen | EscCsi

fun console_emit :: "esc_state \<Rightarrow> bytes \<Rightarrow> bytes" where
  "console_emit st [] = []"
| "console_emit EscText (c # r) = (if c = 0 then [] else c # console_emit (if c = 27 then EscSeen else EscText) r)"
| "console_emit EscSeen (c # r) = (if c = 0 then [] else c # console_emit (if c = 91 then EscCsi else EscText) r)"
| "console_emit EscCsi (c # r) =
     (if c = 0 then console_emit EscText r
      else c # console_emit (if 48 \<le> c \<and> c \<le> 57 \<or> c = 59 then EscCsi else EscText) r)"

text \<open>Repaint: the framebuffer is cleared and the scrollback replayed.\<close>

definition vt_render :: "nat \<Rightarrow> tty_state \<Rightarrow> tty_state" where
  "vt_render i t =
     (if \<not> tt_fb t then t
      else t\<lparr> tt_screen := console_emit EscText (take (vt_out_len (vt_at i t)) (vt_out (vt_at i t))) \<rparr>)"

text \<open>\<open>while (tty_num < n) if (tty_alloc() < 0) return -1;\<close>, with \<open>k\<close> terminals to go.\<close>

fun tty_alloc_upto :: "(nat \<Rightarrow> bool) \<Rightarrow> nat \<Rightarrow> int \<Rightarrow> tty_state \<Rightarrow> bool \<times> tty_state" where
  "tty_alloc_upto reg 0 n t = (True, t)"
| "tty_alloc_upto reg (Suc k) n t =
     (if tt_num t < n then
        (let (r, t1) = tty_alloc reg t in if r < 0 then (False, t1) else tty_alloc_upto reg k n t1)
      else (True, t))"

definition tty_activate :: "(nat \<Rightarrow> bool) \<Rightarrow> int \<Rightarrow> tty_state \<Rightarrow> int \<times> tty_state" where
  "tty_activate reg n t =
     (if \<not> tty_vt_range n then (-1, t)
      else let (ok, t1) = tty_alloc_upto reg (nat (n - tt_num t)) n t in
        if \<not> ok then (-1, t1)
        else if n = tt_cur t1 then (0, t1)
        else (0, vt_render (nat n) (t1\<lparr> tt_cur := n \<rparr>)))"

definition tty_activate_deferred :: "int \<Rightarrow> tty_state \<Rightarrow> tty_state" where
  "tty_activate_deferred n t = (if \<not> tty_vt_range n then t else t\<lparr> tt_pending := n \<rparr>)"

text \<open>One turn of the console task, between two sleeps.\<close>

definition tty_console_task :: "(nat \<Rightarrow> bool) \<Rightarrow> tty_state \<Rightarrow> tty_state" where
  "tty_console_task reg t =
     (let want = tt_pending t in
      if want \<noteq> 0 then snd (tty_activate reg want (t\<lparr> tt_pending := 0 \<rparr>)) else t)"

section \<open>Writing and reading\<close>

text \<open>The chunks of at most 255 bytes that \<open>tty_write\<close> hands to \<open>console_puts\<close>.\<close>

function tty_chunks :: "bytes \<Rightarrow> bytes list" where
  "tty_chunks bs = (if bs = [] then [] else take 255 bs # tty_chunks (drop 255 bs))"
  by pat_completeness auto
termination
  by (relation "measure length") (auto simp: min_def)

declare tty_chunks.simps [simp del]

definition tty_write :: "int \<Rightarrow> u32 \<Rightarrow> u32 \<Rightarrow> tty_state \<Rightarrow> int \<times> tty_state" where
  "tty_write idx sz buf t =
     (if sz = 0 then (0, t)
      else if buf = 0 \<or> \<not> validate_user_ptr buf sz then (-1, t)
      else let i = tty_index t idx in
      if \<not> tty_vt_range i then (-1, t)
      else let dat = mem_read (tt_mem t) buf (unat sz) in
        (int (unat sz),
         if i = tt_cur t then fold console_puts (tty_chunks dat) t
         else upd_vt (nat i) (vt_append dat) t))"

datatype tty_status = TtyRet int | TtySleep

text \<open>
  The read loop on terminal \<open>i\<close> from the point where \<open>k\<close> of \<open>sz\<close> bytes have been taken and
  \<open>m = sz - k\<close> are wanted: it ends with a return value or goes to sleep; the bytes it took are the
  second component.
\<close>

fun tty_read_go :: "nat \<Rightarrow> nat \<Rightarrow> nat \<Rightarrow> nat \<Rightarrow> tty_state \<Rightarrow> tty_status \<times> bytes \<times> tty_state" where
  "tty_read_go i sz k 0 t = (TtyRet (int k), [], t)"
| "tty_read_go i sz k (Suc m) t =
     (if int i \<noteq> tt_cur t then (TtySleep, [], t)
      else let v = vt_at i t in
      if vt_in_rd v = vt_in_wr v then
        (if vt_eof v then (TtyRet (int k), [], upd_vt i (\<lambda>v. v\<lparr> vt_eof := False \<rparr>) t)
         else if tt_sigpend t AND NOT (SIGCHLD OR SIGWINCH) \<noteq> 0 then (TtyRet (- EINTR), [], t)
         else (TtySleep, [], t))
      else
        let c = vt_in_buf v ! vt_in_rd v;
            t1 = upd_vt i (\<lambda>v. v\<lparr> vt_in_rd := (vt_in_rd v + 1) mod TTY_IBUF \<rparr>) t;
            v1 = vt_at i t1
        in
        if c = 10 \<or> sz \<le> 1 \<or> (\<not> flag (c_lflag (vt_tio v1)) TTY_ICANON \<and> vt_in_rd v1 = vt_in_wr v1)
        then (TtyRet (int (k + 1)), [c], t1)
        else (let (st, bs, t2) = tty_read_go i sz (k + 1) m t1 in (st, c # bs, t2)))"

definition tty_read_step ::
  "nat \<Rightarrow> nat \<Rightarrow> u32 \<Rightarrow> nat \<times> tty_state \<Rightarrow> (int \<times> nat \<times> tty_state) + (nat \<times> tty_state)" where
  "tty_read_step i sz buf s =
     (let (k, t) = s; (st, bs, t1) = tty_read_go i sz k (sz - k) t; k' = k + length bs;
          t2 = t1\<lparr> tt_mem := mem_write (tt_mem t1) (buf + word_of_nat k) bs \<rparr>
      in case st of TtyRet r \<Rightarrow> Inl (r, k', t2) | TtySleep \<Rightarrow> Inr (k', t2))"

definition tty_read ::
  "int \<Rightarrow> u32 \<Rightarrow> u32 \<Rightarrow> (tty_state \<Rightarrow> tty_state) list \<Rightarrow> tty_state \<Rightarrow>
     (int \<times> nat \<times> tty_state) + (nat \<times> tty_state)" where
  "tty_read idx sz buf others t =
     (if sz = 0 then Inl (0, 0, t)
      else let i = tty_index t idx in
      if \<not> tty_vt_range i then Inl (-1, 0, t)
      else run_blocking (tty_read_step (nat i) (unat sz) buf) (map (\<lambda>e (k, t). (k, e t)) others) (0, t))"

section \<open>Controlling terminals and ioctls\<close>

text \<open>\<open>me\<close> is the caller's process id, \<open>None\<close> when there is no current task.\<close>

definition tty_get_ctty :: "u32 option \<Rightarrow> tty_state \<Rightarrow> int" where
  "tty_get_ctty me t = (case me of None \<Rightarrow> 0
     | Some pid \<Rightarrow> (case find (\<lambda>e. fst e = pid) (tt_ctty t) of None \<Rightarrow> 0 | Some e \<Rightarrow> snd e))"

text \<open>The scan of \<open>tty_set_ctty\<close>: the entry of the process, and the first free slot before it.\<close>

fun ctty_scan :: "u32 \<Rightarrow> nat \<Rightarrow> nat option \<Rightarrow> (u32 \<times> int) list \<Rightarrow> nat option \<times> nat option" where
  "ctty_scan pid i free [] = (None, free)"
| "ctty_scan pid i free (e # es) =
     (if fst e = pid then (Some i, free)
      else ctty_scan pid (Suc i) (if free = None \<and> fst e = 0 then Some i else free) es)"

definition tty_set_ctty :: "u32 option \<Rightarrow> int \<Rightarrow> tty_state \<Rightarrow> tty_state" where
  "tty_set_ctty me idx t = (case me of None \<Rightarrow> t
     | Some pid \<Rightarrow>
        (let n = (if idx \<le> 0 then tt_cur t else idx) in
         case ctty_scan pid 0 None (tt_ctty t) of
           (Some i, _) \<Rightarrow> t\<lparr> tt_ctty := (tt_ctty t)[i := (fst (tt_ctty t ! i), n)] \<rparr>
         | (None, free) \<Rightarrow>
             (let slot = (case free of None \<Rightarrow> 0 | Some i \<Rightarrow> i)
              in t\<lparr> tt_ctty := (tt_ctty t)[slot := (pid, n)] \<rparr>)))"

definition tty_clear_ctty :: "u32 \<Rightarrow> tty_state \<Rightarrow> tty_state" where
  "tty_clear_ctty pid t = t\<lparr> tt_ctty := map (\<lambda>e. if fst e = pid then (0, 0) else e) (tt_ctty t) \<rparr>"

definition termios_bytes :: "tty_termios \<Rightarrow> bytes" where
  "termios_bytes a = nat_le 4 (unat (c_iflag a)) @ nat_le 4 (unat (c_oflag a)) @
     nat_le 4 (unat (c_cflag a)) @ nat_le 4 (unat (c_lflag a)) @ c_cc a @ [c_pad a]"

definition bytes_termios :: "bytes \<Rightarrow> tty_termios" where
  "bytes_termios bs = \<lparr> c_iflag = rd32 bs 0, c_oflag = rd32 bs 4, c_cflag = rd32 bs 8, c_lflag = rd32 bs 12,
     c_cc = slice 16 19 bs, c_pad = bs ! 35 \<rparr>"

definition put_int :: "u32 \<Rightarrow> int \<Rightarrow> tty_state \<Rightarrow> tty_state" where
  "put_int arg x t = t\<lparr> tt_mem := mem_write (tt_mem t) arg (nat_le 4 (unat (word_of_int x :: u32))) \<rparr>"

definition get_int :: "u32 \<Rightarrow> tty_state \<Rightarrow> int option" where
  "get_int arg t =
     (if arg = 0 then None else map_option (\<lambda>bs. sint (rd32 bs 0)) (copy_from_user (tt_mem t) arg 4))"

abbreviation (input) CACT_TTYCTL_GET_INDEX :: u32 where "CACT_TTYCTL_GET_INDEX \<equiv> 0x3D00"
abbreviation (input) CACT_TTYCTL_VT_ACTIVATE :: u32 where "CACT_TTYCTL_VT_ACTIVATE \<equiv> 0x3D01"
abbreviation (input) CACT_TTYCTL_VT_GETSTATE :: u32 where "CACT_TTYCTL_VT_GETSTATE \<equiv> 0x3D02"
abbreviation (input) CACT_TTYCTL_SET_CTTY :: u32 where "CACT_TTYCTL_SET_CTTY \<equiv> 0x3D03"
abbreviation (input) CACT_TTYCTL_GET_CTTY :: u32 where "CACT_TTYCTL_GET_CTTY \<equiv> 0x3D04"
abbreviation (input) CACT_TTYCTL_SET_FG :: u32 where "CACT_TTYCTL_SET_FG \<equiv> 0x3D05"
abbreviation (input) CACT_TTYCTL_VT_OPENQRY :: u32 where "CACT_TTYCTL_VT_OPENQRY \<equiv> 0x3D06"
abbreviation (input) CACT_TTYCTL_VT_DISALLOCATE :: u32 where "CACT_TTYCTL_VT_DISALLOCATE \<equiv> 0x3D07"
abbreviation (input) TTY_TCGETS :: u32 where "TTY_TCGETS \<equiv> 0x5401"
abbreviation (input) TTY_TCSETS :: u32 where "TTY_TCSETS \<equiv> 0x5402"
abbreviation (input) TTY_TCSETSW :: u32 where "TTY_TCSETSW \<equiv> 0x5403"
abbreviation (input) TTY_TCSETSF :: u32 where "TTY_TCSETSF \<equiv> 0x5404"

definition tty_flush_input :: "tty_vt \<Rightarrow> tty_vt" where
  "tty_flush_input v = (line_clear v)\<lparr> vt_in_rd := vt_in_wr v, vt_eof := False \<rparr>"

definition tty_ioctl :: "(nat \<Rightarrow> bool) \<Rightarrow> u32 option \<Rightarrow> int \<Rightarrow> u32 \<Rightarrow> u32 \<Rightarrow> tty_state \<Rightarrow> int \<times> tty_state" where
  "tty_ioctl reg me idx cmd arg t =
     (if cmd = CACT_TTYCTL_GET_INDEX then
        (if arg = 0 \<or> \<not> validate_user_ptr arg 4 then (-1, t) else (0, put_int arg idx t))
      else if cmd = CACT_TTYCTL_VT_ACTIVATE then
        (case get_int arg t of None \<Rightarrow> (-1, t) | Some n \<Rightarrow> tty_activate reg n t)
      else if cmd = CACT_TTYCTL_VT_GETSTATE then
        (if arg = 0 \<or> \<not> validate_user_ptr arg 4 then (-1, t)
         else let (r, m) = copy_to_user (tt_mem t) arg
                    (nat_le 2 (nat (tt_cur t) mod 65536) @ nat_le 2 (nat (tt_num t) mod 65536))
              in (r, t\<lparr> tt_mem := m \<rparr>))
      else if cmd = CACT_TTYCTL_VT_OPENQRY then
        (if arg = 0 \<or> \<not> validate_user_ptr arg 4 then (-1, t)
         else (0, put_int arg (if tt_num t < int TTY_MAX_VT then tt_num t + 1 else 0) t))
      else if cmd = CACT_TTYCTL_VT_DISALLOCATE then
        (case get_int arg t of None \<Rightarrow> (-1, t) | Some n \<Rightarrow> tty_free n t)
      else if cmd = CACT_TTYCTL_SET_CTTY then
        (case get_int arg t of None \<Rightarrow> (-1, t)
         | Some n \<Rightarrow> if n < 0 \<or> n > tt_num t then (-1, t) else (0, tty_set_ctty me n t))
      else if cmd = CACT_TTYCTL_GET_CTTY then
        (if arg = 0 \<or> \<not> validate_user_ptr arg 4 then (-1, t) else (0, put_int arg (tty_get_ctty me t) t))
      else if cmd = CACT_TTYCTL_SET_FG then
        (if arg = 0 then (-1, t)
         else case copy_from_user (tt_mem t) arg 4 of None \<Rightarrow> (-1, t)
         | Some bs \<Rightarrow>
            (let pgid = rd32 bs 0 in
             if pgid \<noteq> 0 \<and> pgid \<notin> set (tt_pgids t) then (-3, t) else (0, t\<lparr> tt_fg := pgid \<rparr>)))
      else if cmd = TTY_TCGETS then
        (if arg = 0 \<or> \<not> validate_user_ptr arg 36 then (-1, t)
         else let (r, m) = copy_to_user (tt_mem t) arg (termios_bytes (vt_tio (vt_at (nat (tty_index t idx)) t)))
              in (r, t\<lparr> tt_mem := m \<rparr>))
      else if cmd = TTY_TCSETS \<or> cmd = TTY_TCSETSW \<or> cmd = TTY_TCSETSF then
        (if arg = 0 then (-1, t)
         else case copy_from_user (tt_mem t) arg 36 of None \<Rightarrow> (-1, t)
         | Some bs \<Rightarrow>
            (let i = tty_index t idx in
             if \<not> tty_vt_range i then (-1, t)
             else let t1 = (if cmd = TTY_TCSETSF then upd_vt (nat i) tty_flush_input t else t)
                  in (0, upd_vt (nat i) (\<lambda>v. v\<lparr> vt_tio := bytes_termios bs \<rparr>) t1)))
      else (-1, t))"

section \<open>Abstract line discipline\<close>

text \<open>
  The same component on lists: the line being edited, the bytes ready for the reader (at most 1023,
  what does not fit is dropped) and the pending end of file.
\<close>

record line_disc =
  ld_line :: bytes
  ld_queue :: bytes
  ld_eof :: bool

definition ld_push :: "bytes \<Rightarrow> line_disc \<Rightarrow> line_disc" where
  "ld_push bs d = d\<lparr> ld_queue := ld_queue d @ take (1023 - length (ld_queue d)) bs \<rparr>"

definition werase_spec :: "bytes \<Rightarrow> bytes" where
  "werase_spec xs = rev (dropWhile (\<lambda>c. \<not> is_blank c) (dropWhile is_blank (rev xs)))"

definition ld_canon :: "tty_termios \<Rightarrow> byte \<Rightarrow> line_disc \<Rightarrow> line_disc" where
  "ld_canon tio c d =
     (let cc = c_cc tio in
      if c = cc ! TTY_VEOF then
        (if ld_line d = [] then d\<lparr> ld_eof := True \<rparr> else (ld_push (ld_line d) d)\<lparr> ld_line := [] \<rparr>)
      else if c = 10 \<or> c = 13 then (ld_push (ld_line d @ [10]) d)\<lparr> ld_line := [] \<rparr>
      else if c = cc ! TTY_VERASE \<or> c = 8 then d\<lparr> ld_line := butlast (ld_line d) \<rparr>
      else if c = cc ! TTY_VKILL then d\<lparr> ld_line := [] \<rparr>
      else if c = cc ! TTY_VWERASE then d\<lparr> ld_line := werase_spec (ld_line d) \<rparr>
      else if length (ld_line d) < TTY_LINE_MAX then d\<lparr> ld_line := ld_line d @ [c] \<rparr>
      else d)"

definition ld_input :: "tty_termios \<Rightarrow> bool \<Rightarrow> byte \<Rightarrow> line_disc \<Rightarrow> line_disc" where
  "ld_input tio fg c d =
     (let cc = c_cc tio; lf = c_lflag tio in
      if flag lf TTY_ISIG \<and> (c = cc ! TTY_VINTR \<or> c = cc ! TTY_VQUIT \<or> c = cc ! TTY_VSUSP) then
        (if fg then d\<lparr> ld_line := [] \<rparr> else ld_push [c] d)
      else if \<not> flag lf TTY_ICANON then ld_push [c] d
      else ld_canon tio c d)"

definition vt_queue :: "tty_vt \<Rightarrow> bytes" where
  "vt_queue v = ring_list TTY_IBUF (vt_in_buf v) (vt_in_rd v) (vt_in_wr v)"

definition vt_abs :: "tty_vt \<Rightarrow> line_disc" where
  "vt_abs v = \<lparr> ld_line = take (vt_line_len v) (vt_line_buf v), ld_queue = vt_queue v, ld_eof = vt_eof v \<rparr>"

definition vt_text :: "tty_vt \<Rightarrow> bytes" where
  "vt_text v = take (vt_out_len v) (vt_out v)"

definition lastn :: "nat \<Rightarrow> 'a list \<Rightarrow> 'a list" where
  "lastn n xs = drop (length xs - n) xs"

section \<open>Invariant\<close>

definition vt_out_ok :: "tty_vt \<Rightarrow> bool" where
  "vt_out_ok v \<longleftrightarrow> length (vt_out v) = TTY_OUTBUF \<and> vt_out_len v \<le> TTY_OUTBUF"

definition vt_in_ok :: "tty_vt \<Rightarrow> bool" where
  "vt_in_ok v \<longleftrightarrow> ring_ok TTY_IBUF (vt_in_buf v) (vt_in_rd v) (vt_in_wr v) \<and>
     length (vt_line_buf v) = TTY_LINE_MAX \<and> vt_line_len v \<le> TTY_LINE_MAX \<and> length (c_cc (vt_tio v)) = TTY_NCCS"

definition tty_ok :: "tty_state \<Rightarrow> bool" where
  "tty_ok t \<longleftrightarrow> length (tt_vts t) = TTY_MAX_VT + 1 \<and> (\<forall>v \<in> set (tt_vts t). vt_out_ok v \<and> vt_in_ok v) \<and>
     1 \<le> tt_cur t \<and> tt_cur t \<le> tt_num t \<and> tt_num t \<le> int TTY_MAX_VT \<and>
     length (tt_ctty t) = TTY_CTTY_MAX \<and> (\<forall>e \<in> set (tt_ctty t). 0 \<le> snd e \<and> snd e \<le> tt_num t) \<and>
     set (tt_nodes t) = {0..nat (tt_num t)} \<and> (tt_pending t = 0 \<or> tty_vt_range (tt_pending t))"

section \<open>Lemmas on one terminal\<close>

lemma tty_ibuf_pos [simp]: "0 < TTY_IBUF"
  by (simp add: TTY_IBUF_def)

text \<open>The input ring is a byte queue of capacity 1023.\<close>

definition vt_pop :: "tty_vt \<Rightarrow> (byte \<times> tty_vt) option" where
  "vt_pop v = (if vt_in_rd v = vt_in_wr v then None
     else Some (vt_in_buf v ! vt_in_rd v, v\<lparr> vt_in_rd := (vt_in_rd v + 1) mod TTY_IBUF \<rparr>))"

interpretation tq: byte_fifo vt_in_ok vt_queue 1023 in_push vt_pop
proof
  fix r :: tty_vt and c r'
  assume ok: "vt_in_ok r"
  then have rk: "ring_ok TTY_IBUF (vt_in_buf r) (vt_in_rd r) (vt_in_wr r)" by (simp add: vt_in_ok_def)
  then have b: "length (vt_in_buf r) = TTY_IBUF" "vt_in_rd r < TTY_IBUF" "vt_in_wr r < TTY_IBUF"
    by (simp_all add: ring_ok_def)
  have len: "length (vt_queue r) = ring_fill TTY_IBUF (vt_in_rd r) (vt_in_wr r)" by (simp add: vt_queue_def)
  have lt: "ring_fill TTY_IBUF (vt_in_rd r) (vt_in_wr r) < 1024"
    using ring_fill_less[of TTY_IBUF "vt_in_rd r" "vt_in_wr r"] by (simp add: TTY_IBUF_def)
  show "length (vt_queue r) \<le> 1023" using lt by (simp add: len)
  show "vt_in_ok (in_push c r)"
    using ok b by (auto simp: in_push_def vt_in_ok_def ring_ok_def Let_def)
  have full: "Suc (vt_in_wr r) mod TTY_IBUF = vt_in_rd r \<longleftrightarrow> length (vt_queue r) = 1023"
    using ring_fill_full[OF b(2,3)] by (simp add: len TTY_IBUF_def)
  show "vt_queue (in_push c r) = (if length (vt_queue r) < 1023 then vt_queue r @ [c] else vt_queue r)"
  proof (cases "Suc (vt_in_wr r) mod TTY_IBUF = vt_in_rd r")
    case True
    then show ?thesis using full by (simp add: in_push_def Let_def)
  next
    case False
    then have "length (vt_queue r) < 1023" using full lt len by simp
    then show ?thesis
      using False ring_list_push[OF rk False, of c] by (simp add: in_push_def Let_def vt_queue_def)
  qed
  show "vt_pop r = None \<longleftrightarrow> vt_queue r = []"
    using ring_fill_0[OF b(2,3)] len by (simp add: vt_pop_def flip: length_0_conv)
  assume g: "vt_pop r = Some (c, r')"
  then have ne: "vt_in_rd r \<noteq> vt_in_wr r" by (auto simp: vt_pop_def split: if_splits)
  have "vt_queue r = vt_in_buf r ! vt_in_rd r #
      ring_list TTY_IBUF (vt_in_buf r) (Suc (vt_in_rd r) mod TTY_IBUF) (vt_in_wr r)"
    unfolding vt_queue_def using rk ne by (rule ring_list_pop)
  then show "vt_in_ok r' \<and> vt_queue r = c # vt_queue r'"
    using g b ok by (auto simp: vt_pop_def vt_queue_def vt_in_ok_def ring_ok_def split: if_splits)
qed

lemma in_push_fields [simp]:
  "vt_line_buf (in_push c v) = vt_line_buf v" "vt_line_len (in_push c v) = vt_line_len v"
  "vt_eof (in_push c v) = vt_eof v" "vt_tio (in_push c v) = vt_tio v"
  "vt_out (in_push c v) = vt_out v" "vt_out_len (in_push c v) = vt_out_len v"
  by (simp_all add: in_push_def Let_def)

lemma fold_in_push_fields [simp]:
  "vt_line_buf (fold in_push xs v) = vt_line_buf v" "vt_line_len (fold in_push xs v) = vt_line_len v"
  "vt_eof (fold in_push xs v) = vt_eof v" "vt_tio (fold in_push xs v) = vt_tio v"
  "vt_out (fold in_push xs v) = vt_out v" "vt_out_len (fold in_push xs v) = vt_out_len v"
  by (induction xs arbitrary: v) simp_all

text \<open>Committing a line is one burst into the queue.\<close>

lemma line_commit_fold:
  "line_commit nl v = line_clear (fold in_push (take (vt_line_len v) (vt_line_buf v) @ (if nl then [10] else [])) v)"
  by (simp add: line_commit_def Let_def)

lemma vt_queue_line_clear [simp]: "vt_queue (line_clear v) = vt_queue v"
  by (simp add: vt_queue_def line_clear_def)

lemma vt_in_ok_line_clear [simp]: "vt_in_ok v \<Longrightarrow> vt_in_ok (line_clear v)"
  by (simp add: vt_in_ok_def line_clear_def)

lemma vt_abs_line_commit:
  assumes "vt_in_ok v"
  shows "vt_abs (line_commit nl v) =
    (ld_push (ld_line (vt_abs v) @ (if nl then [10] else [])) (vt_abs v))\<lparr> ld_line := [] \<rparr>"
proof -
  let ?xs = "take (vt_line_len v) (vt_line_buf v) @ (if nl then [10] else [])"
  have "vt_queue (fold in_push ?xs v) = vt_queue v @ take (1023 - length (vt_queue v)) ?xs"
    using assms by (rule tq.fold_push_contents)
  then show ?thesis
    by (simp add: line_commit_fold vt_abs_def ld_push_def) (simp add: line_clear_def)
qed

lemma vt_abs_in_push:
  assumes "vt_in_ok v"
  shows "vt_abs (in_push c v) = ld_push [c] (vt_abs v)"
  using tq.push_contents[OF assms, of c] by (auto simp: vt_abs_def ld_push_def take_Cons')

lemma vt_in_ok_line_commit: "vt_in_ok v \<Longrightarrow> vt_in_ok (line_commit nl v)"
  by (simp add: line_commit_fold tq.fold_push_ok)

text \<open>The scrollback holds the last 4096 bytes.\<close>

lemma lastn_append_lastn: "lastn n (lastn n xs @ ys) = lastn n (xs @ ys)"
proof (cases "length xs \<le> n")
  case False
  then have "length xs + length ys - n = (n + length ys - n) + (length xs - n)" by simp
  then have "drop (length xs + length ys - n) xs = drop (n + length ys - n) (drop (length xs - n) xs)"
    by (simp only: drop_drop)
  then show ?thesis using False by (simp add: lastn_def)
qed (simp add: lastn_def)

text \<open>The three paths of \<open>vt_append\<close>: replace, shift down and add, add.\<close>

lemma vt_append_cases:
  assumes "vt_out_ok v"
  obtains (replace) "TTY_OUTBUF \<le> length buf"
      "vt_append buf v = v\<lparr> vt_out := drop (length buf - TTY_OUTBUF) buf, vt_out_len := TTY_OUTBUF \<rparr>"
  | (shift) d tl where "length buf < TTY_OUTBUF" "d + TTY_OUTBUF = vt_out_len v + length buf" "d \<le> vt_out_len v"
      "vt_append buf v = v\<lparr> vt_out := slice d (vt_out_len v - d) (vt_out v) @ buf @ tl, vt_out_len := TTY_OUTBUF \<rparr>"
      "length (slice d (vt_out_len v - d) (vt_out v) @ buf @ tl) = TTY_OUTBUF"
  | (add) "vt_out_len v + length buf \<le> TTY_OUTBUF"
      "vt_append buf v = v\<lparr> vt_out := take (vt_out_len v) (vt_out v) @ buf @ drop (vt_out_len v + length buf) (vt_out v),
         vt_out_len := vt_out_len v + length buf \<rparr>"
proof -
  have l: "length (vt_out v) = TTY_OUTBUF" "vt_out_len v \<le> TTY_OUTBUF"
    using assms by (simp_all add: vt_out_ok_def)
  consider "TTY_OUTBUF \<le> length buf" | "length buf < TTY_OUTBUF" "TTY_OUTBUF < vt_out_len v + length buf"
    | "length buf < TTY_OUTBUF" "vt_out_len v + length buf \<le> TTY_OUTBUF" by linarith
  then show ?thesis
  proof cases
    case 1
    then show ?thesis using replace by (simp add: vt_append_def)
  next
    case 2
    define d where "d = vt_out_len v + length buf - TTY_OUTBUF"
    define keep where "keep = vt_out_len v - d"
    have dk: "d + TTY_OUTBUF = vt_out_len v + length buf" "d \<le> vt_out_len v" "keep + length buf = TTY_OUTBUF"
      "d + keep = vt_out_len v" using 2 l by (simp_all add: d_def keep_def)
    let ?m = "slice d keep (vt_out v) @ drop keep (vt_out v)"
    have ls: "length (slice d keep (vt_out v)) = keep" using dk l by simp
    have tk: "take keep ?m = slice d keep (vt_out v)" using ls by simp
    have le: "length (take keep ?m @ buf @ drop (keep + length buf) ?m) = TTY_OUTBUF"
      using ls l dk by simp
    have ap: "vt_append buf v = v\<lparr> vt_out := take keep ?m @ buf @ drop (keep + length buf) ?m, vt_out_len := keep + length buf \<rparr>"
      using 2 unfolding vt_append_def Let_def keep_def d_def by (simp del: take_append drop_append)
    show ?thesis
    proof (rule shift[of d "drop (keep + length buf) ?m"], fold keep_def)
      show "vt_append buf v = v\<lparr> vt_out := slice d keep (vt_out v) @ buf @ drop (keep + length buf) ?m,
          vt_out_len := TTY_OUTBUF \<rparr>" using ap unfolding tk dk(3) .
      show "length (slice d keep (vt_out v) @ buf @ drop (keep + length buf) ?m) = TTY_OUTBUF"
        using le unfolding tk .
    qed (use 2 dk in simp_all)
  next
    case 3
    then show ?thesis using add by (simp add: vt_append_def Let_def)
  qed
qed

lemma vt_append_ok:
  assumes "vt_out_ok v"
  shows "vt_out_ok (vt_append buf v)"
  using assms
proof (cases rule: vt_append_cases[of v buf])
  case replace
  then show ?thesis by (simp add: vt_out_ok_def)
next
  case (shift d tl)
  then show ?thesis by (simp add: vt_out_ok_def)
next
  case add
  then show ?thesis using assms by (simp add: vt_out_ok_def)
qed

lemma vt_append_text:
  assumes "vt_out_ok v"
  shows "vt_text (vt_append buf v) = lastn TTY_OUTBUF (vt_text v @ buf)"
proof -
  have l: "length (vt_out v) = TTY_OUTBUF" "vt_out_len v \<le> TTY_OUTBUF"
    using assms by (simp_all add: vt_out_ok_def)
  from assms show ?thesis
  proof (cases rule: vt_append_cases[of v buf])
    case replace
    then show ?thesis using l by (simp add: vt_text_def lastn_def)
  next
    case (shift d tl)
    have ls: "length (slice d (vt_out_len v - d) (vt_out v)) = vt_out_len v - d" using l by simp
    have e: "length (slice d (vt_out_len v - d) (vt_out v) @ buf) = TTY_OUTBUF"
      using ls shift(2,3) by simp
    have "vt_text (vt_append buf v) = take TTY_OUTBUF ((slice d (vt_out_len v - d) (vt_out v) @ buf) @ tl)"
      using shift(4) by (simp add: vt_text_def)
    also have "\<dots> = slice d (vt_out_len v - d) (vt_out v) @ buf" using e by simp
    also have "slice d (vt_out_len v - d) (vt_out v) = drop d (take (vt_out_len v) (vt_out v))"
      by (simp add: slice_def drop_take)
    finally show ?thesis using shift(2,3) l by (simp add: vt_text_def lastn_def flip: shift(2))
  next
    case add
    then show ?thesis using l by (simp add: vt_text_def lastn_def)
  qed
qed

section \<open>Drawing leaves the input side alone\<close>

text \<open>The input side of a terminal: everything but its scrollback.\<close>

definition vt_inp :: "tty_vt \<Rightarrow> tty_vt" where
  "vt_inp v = v\<lparr> vt_out := [], vt_out_len := 0 \<rparr>"

lemma vt_inp_cong:
  assumes "vt_inp v = vt_inp v'"
  shows "vt_abs v = vt_abs v'" "vt_in_ok v = vt_in_ok v'" "vt_tio v = vt_tio v'" "vt_queue v = vt_queue v'"
    "vt_line_len v = vt_line_len v'" "vt_line_buf v = vt_line_buf v'"
proof -
  have f: "vt_tio v = vt_tio v'" "vt_in_buf v = vt_in_buf v'" "vt_in_wr v = vt_in_wr v'"
    "vt_in_rd v = vt_in_rd v'" "vt_line_buf v = vt_line_buf v'" "vt_line_len v = vt_line_len v'"
    "vt_eof v = vt_eof v'"
    using assms by (cases v; cases v'; simp add: vt_inp_def)+
  then show "vt_abs v = vt_abs v'" "vt_in_ok v = vt_in_ok v'" "vt_tio v = vt_tio v'" "vt_queue v = vt_queue v'"
    "vt_line_len v = vt_line_len v'" "vt_line_buf v = vt_line_buf v'"
    by (simp_all add: vt_abs_def vt_queue_def vt_in_ok_def)
qed

lemma vt_inp_append [simp]: "vt_inp (vt_append buf v) = vt_inp v"
  by (simp add: vt_inp_def vt_append_def Let_def)

text \<open>\<open>drawn t t'\<close>: from \<open>t\<close> to \<open>t'\<close> only scrollbacks and the screen changed.\<close>

definition drawn :: "tty_state \<Rightarrow> tty_state \<Rightarrow> bool" where
  "drawn t t' \<longleftrightarrow> map vt_inp (tt_vts t') = map vt_inp (tt_vts t) \<and>
     ((\<forall>v \<in> set (tt_vts t). vt_out_ok v) \<longrightarrow> (\<forall>v \<in> set (tt_vts t'). vt_out_ok v)) \<and>
     t'\<lparr> tt_vts := [], tt_screen := [] \<rparr> = t\<lparr> tt_vts := [], tt_screen := [] \<rparr>"

lemma drawn_refl [simp]: "drawn t t"
  by (simp add: drawn_def)

lemma drawn_trans: "drawn t t' \<Longrightarrow> drawn t' t'' \<Longrightarrow> drawn t t''"
  unfolding drawn_def by argo

lemma drawn_upd_out:
  assumes "\<And>v. vt_inp (f v) = vt_inp v" "\<And>v. vt_out_ok v \<Longrightarrow> vt_out_ok (f v)"
  shows "drawn t (upd_vt i f t)"
proof (cases "i < length (tt_vts t)")
  case True
  then have m: "tt_vts t ! i \<in> set (tt_vts t)" by simp
  have "map vt_inp ((tt_vts t)[i := f (tt_vts t ! i)]) = map vt_inp (tt_vts t)"
    using assms(1) by (simp add: map_update) (metis True list_update_id nth_map)
  moreover have "\<forall>v \<in> set ((tt_vts t)[i := f (tt_vts t ! i)]). vt_out_ok v" if "\<forall>v \<in> set (tt_vts t). vt_out_ok v"
    using that assms(2) m set_update_subset_insert[of "tt_vts t" i "f (tt_vts t ! i)"] by blast
  ultimately show ?thesis by (simp add: drawn_def upd_vt_def)
qed (simp add: drawn_def upd_vt_def list_update_beyond not_less)

lemma drawn_console_puts: "drawn t (console_puts msg t)"
proof -
  let ?s = "takeWhile (\<lambda>c. c \<noteq> 0) msg"
  have "drawn t (console_on_write ?s t)"
    by (auto simp: console_on_write_def intro!: drawn_upd_out vt_append_ok)
  moreover have "drawn t1 (t1\<lparr> tt_screen := x \<rparr>)" for t1 x by (simp add: drawn_def)
  ultimately show ?thesis unfolding console_puts_def Let_def by (rule drawn_trans)
qed

lemma drawn_fold:
  assumes "\<And>x t. drawn t (f x t)"
  shows "drawn t (fold f xs t)"
  using assms by (induction xs arbitrary: t) (auto intro: drawn_trans)

lemma drawn_funpow:
  assumes "\<And>t. drawn t (f t)"
  shows "drawn t ((f ^^ k) t)"
  using assms by (induction k arbitrary: t) (auto intro: drawn_trans)

lemma drawn_echo_char: "drawn t (vt_echo_char i c t)"
  by (simp add: vt_echo_char_def drawn_console_puts)

lemma drawn_echo_str: "drawn t (vt_echo_str i s t)"
  unfolding vt_echo_str_def by (intro drawn_fold drawn_echo_char)

lemma drawn_echo_erase: "drawn t (echo_erase i k t)"
  unfolding echo_erase_def by (intro drawn_funpow drawn_echo_str)

lemma drawn_if: "drawn t t' \<Longrightarrow> drawn t (if b then t' else t)"
  by simp

lemma drawn_length: "drawn t t' \<Longrightarrow> length (tt_vts t') = length (tt_vts t)"
  unfolding drawn_def by (metis length_map)

lemma drawn_vt:
  assumes "drawn t t'" "j < length (tt_vts t)"
  shows "vt_inp (vt_at j t') = vt_inp (vt_at j t)"
  using assms drawn_length[OF assms(1)] unfolding drawn_def vt_at_def by (metis nth_map)

lemma drawn_fields:
  assumes "drawn t t'"
  shows "tt_cur t' = tt_cur t" "tt_num t' = tt_num t" "tt_ctty t' = tt_ctty t" "tt_nodes t' = tt_nodes t"
    "tt_fg t' = tt_fg t" "tt_pending t' = tt_pending t" "tt_mem t' = tt_mem t" "tt_sigpend t' = tt_sigpend t"
  using assms by (cases t; cases t'; simp add: drawn_def)+

section \<open>The line discipline refines its specification\<close>

lemma vt_at_upd: "i < length (tt_vts t) \<Longrightarrow> vt_at j (upd_vt i f t) = (if j = i then f (vt_at i t) else vt_at j t)"
  by (simp add: vt_at_def upd_vt_def)

lemma length_upd_vt [simp]: "length (tt_vts (upd_vt i f t)) = length (tt_vts t)"
  by (simp add: upd_vt_def)

lemma skip_back_le: "skip_back P buf n \<le> n"
  by (induction n) auto

lemma skip_back_take:
  "n \<le> length buf \<Longrightarrow> take (skip_back P buf n) buf = rev (dropWhile P (rev (take n buf)))"
proof (induction n)
  case (Suc n)
  then show ?case by (simp add: take_Suc_conv_app_nth)
qed simp

lemma skip_back_twice:
  assumes "n \<le> length buf"
  shows "take (skip_back (\<lambda>c. \<not> is_blank c) buf (skip_back is_blank buf n)) buf = werase_spec (take n buf)"
proof -
  have "skip_back is_blank buf n \<le> length buf" using skip_back_le[of is_blank buf n] assms by simp
  then show ?thesis
    using assms by (simp add: skip_back_take werase_spec_def)
qed

text \<open>A state change of terminal \<open>i\<close> after some drawing, seen through the abstraction.\<close>

lemma abs_after_draw:
  assumes "drawn t t1" "i < length (tt_vts t)" "j < length (tt_vts t)"
    and "vt_abs (f (vt_at i t1)) = d"
  shows "vt_abs (vt_at j (upd_vt i f t1)) = (if j = i then d else vt_abs (vt_at j t))"
  using assms vt_inp_cong(1)[OF drawn_vt[OF assms(1,3)]] drawn_length[OF assms(1)] by (simp add: vt_at_upd)

lemma abs_then_draw:
  assumes "drawn (upd_vt i f t) t2" "i < length (tt_vts t)" "j < length (tt_vts t)"
  shows "vt_abs (vt_at j t2) = (if j = i then vt_abs (f (vt_at i t)) else vt_abs (vt_at j t))"
  using assms vt_inp_cong(1)[OF drawn_vt[OF assms(1), of j]] by (simp add: vt_at_upd)

lemma vt_abs_fields [simp]:
  "ld_line (vt_abs v) = take (vt_line_len v) (vt_line_buf v)" "ld_queue (vt_abs v) = vt_queue v"
  "ld_eof (vt_abs v) = vt_eof v"
  by (simp_all add: vt_abs_def)

lemma vt_abs_line_len:
  "vt_abs (v\<lparr> vt_line_len := n \<rparr>) = (vt_abs v)\<lparr> ld_line := take n (vt_line_buf v) \<rparr>"
  by (simp add: vt_abs_def vt_queue_def)

lemma vt_abs_line_clear: "vt_abs (line_clear v) = (vt_abs v)\<lparr> ld_line := [] \<rparr>"
  by (simp add: line_clear_def vt_abs_line_len)

lemma vt_abs_eof: "vt_abs (v\<lparr> vt_eof := b \<rparr>) = (vt_abs v)\<lparr> ld_eof := b \<rparr>"
  by (simp add: vt_abs_def vt_queue_def)

lemma vt_abs_type:
  assumes "vt_in_ok v" "vt_line_len v < TTY_LINE_MAX"
  shows "vt_abs (v\<lparr> vt_line_buf := (vt_line_buf v)[vt_line_len v := c], vt_line_len := vt_line_len v + 1 \<rparr>) =
    (vt_abs v)\<lparr> ld_line := ld_line (vt_abs v) @ [c] \<rparr>"
  using assms by (simp add: vt_abs_def vt_queue_def vt_in_ok_def take_Suc_conv_app_nth)

lemma tty_sigchar_abs:
  assumes "i < length (tt_vts t)" "j < length (tt_vts t)" "vt_in_ok (vt_at i t)"
  shows "vt_abs (vt_at j (tty_sigchar i c sig msg t)) = (if j = i then
    (if tt_fg t \<noteq> 0 then (vt_abs (vt_at i t))\<lparr> ld_line := [] \<rparr> else ld_push [c] (vt_abs (vt_at i t)))
    else vt_abs (vt_at j t))"
proof (cases "tt_fg t = 0")
  case True
  then show ?thesis using assms by (simp add: tty_sigchar_def vt_at_upd vt_abs_in_push)
next
  case False
  let ?t = "tty_signal_fg sig t"
  have v: "tt_vts ?t = tt_vts t" by (simp add: tty_signal_fg_def)
  then have at: "vt_at k ?t = vt_at k t" for k by (simp add: vt_at_def)
  have "drawn (upd_vt i line_clear ?t) (tty_sigchar i c sig msg t)"
    using False by (simp add: tty_sigchar_def Let_def drawn_echo_str)
  from abs_then_draw[OF this, of j] show ?thesis
    using assms False v by (simp add: at vt_abs_line_clear)
qed

text \<open>One keystroke in canonical mode, on the concrete state and on the specification.\<close>

lemma tty_canon_type:
  assumes i: "i < length (tt_vts t)" and j: "j < length (tt_vts t)" and ok: "vt_in_ok (vt_at i t)"
    and cc: "cc = c_cc (vt_tio (vt_at i t))"
    and c: "c \<noteq> cc ! TTY_VEOF" "\<not> (c = 10 \<or> c = 13)" "\<not> (c = cc ! TTY_VERASE \<or> c = 8)"
      "c \<noteq> cc ! TTY_VKILL" "c \<noteq> cc ! TTY_VWERASE"
  shows "vt_abs (vt_at j (tty_canon i c t)) =
    (if j = i then ld_canon (vt_tio (vt_at i t)) c (vt_abs (vt_at i t)) else vt_abs (vt_at j t))"
proof -
  let ?v = "vt_at i t" let ?lf = "c_lflag (vt_tio ?v)"
  let ?f = "\<lambda>v. v\<lparr> vt_line_buf := (vt_line_buf v)[vt_line_len v := c], vt_line_len := vt_line_len v + 1 \<rparr>"
  let ?t1 = "upd_vt i ?f t"
  have d: "drawn ?t1 (if flag ?lf TTY_ECHO \<and> c \<ge> 0x20 \<and> c < 0x7f then vt_echo_char i c ?t1 else ?t1)"
    by (intro drawn_if drawn_echo_char)
  have l: "length (take (vt_line_len ?v) (vt_line_buf ?v)) = vt_line_len ?v"
    using ok by (simp add: vt_in_ok_def)
  show ?thesis
  proof (cases "vt_line_len ?v < TTY_LINE_MAX")
    case True
    have "tty_canon i c t =
        (if flag ?lf TTY_ECHO \<and> c \<ge> 0x20 \<and> c < 0x7f then vt_echo_char i c ?t1 else ?t1)"
      unfolding tty_canon_def Let_def cc[symmetric] using c True by simp
    moreover have "ld_canon (vt_tio ?v) c (vt_abs ?v) = vt_abs (?f ?v)"
      unfolding ld_canon_def Let_def vt_abs_type[OF ok True] cc[symmetric] using c True l by simp
    ultimately show ?thesis using abs_then_draw[OF d i j] by (simp only:)
  next
    case False
    then show ?thesis unfolding tty_canon_def ld_canon_def Let_def cc[symmetric] using c l by simp
  qed
qed

lemma tty_canon_erase:
  assumes i: "i < length (tt_vts t)" and j: "j < length (tt_vts t)" and ok: "vt_in_ok (vt_at i t)"
    and cc: "cc = c_cc (vt_tio (vt_at i t))"
    and c: "c \<noteq> cc ! TTY_VEOF" "\<not> (c = 10 \<or> c = 13)" "c = cc ! TTY_VERASE \<or> c = 8 \<or> c = cc ! TTY_VKILL \<or> c = cc ! TTY_VWERASE"
  shows "vt_abs (vt_at j (tty_canon i c t)) =
    (if j = i then ld_canon (vt_tio (vt_at i t)) c (vt_abs (vt_at i t)) else vt_abs (vt_at j t))"
proof -
  let ?v = "vt_at i t" let ?lf = "c_lflag (vt_tio ?v)"
  note go = tty_canon_def ld_canon_def Let_def cc[symmetric] if_not_P[OF c(1)] if_not_P[OF c(2)]
  show ?thesis
  proof (cases "c = cc ! TTY_VERASE \<or> c = 8")
    case True
    let ?t1 = "upd_vt i (\<lambda>v. v\<lparr> vt_line_len := vt_line_len v - 1 \<rparr>) t"
    have d: "drawn ?t1 (if flag ?lf TTY_ECHO then vt_echo_str i [8, 32, 8] ?t1 else ?t1)"
      by (intro drawn_if drawn_echo_str)
    have "butlast (take (vt_line_len ?v) (vt_line_buf ?v)) = take (vt_line_len ?v - 1) (vt_line_buf ?v)"
      using ok by (simp add: vt_in_ok_def butlast_take)
    then show ?thesis
      unfolding go if_P[OF True] using abs_then_draw[OF d i j] by (auto simp: vt_abs_line_len)
  next
    case ne: False
    show ?thesis
    proof (cases "c = cc ! TTY_VKILL")
      case True
      have d: "drawn t (if flag ?lf TTY_ECHO then echo_erase i (vt_line_len ?v) t else t)"
        by (intro drawn_if drawn_echo_erase)
      have "vt_abs (line_clear (vt_at i (if flag ?lf TTY_ECHO then echo_erase i (vt_line_len ?v) t else t))) =
          (vt_abs ?v)\<lparr> ld_line := [] \<rparr>"
        using vt_inp_cong[OF drawn_vt[OF d i]] by (simp add: vt_abs_line_clear)
      from abs_after_draw[OF d i j, where f = line_clear, OF this] show ?thesis
        unfolding go if_not_P[OF ne] if_P[OF True] .
    next
      case nk: False
      then have w: "c = cc ! TTY_VWERASE" using c(3) ne by blast
      let ?n = "skip_back (\<lambda>c. \<not> is_blank c) (vt_line_buf ?v) (skip_back is_blank (vt_line_buf ?v) (vt_line_len ?v))"
      let ?t1 = "if flag ?lf TTY_ECHO then echo_erase i (vt_line_len ?v - ?n) t else t"
      have d: "drawn t ?t1" by (intro drawn_if drawn_echo_erase)
      have "take ?n (vt_line_buf ?v) = werase_spec (take (vt_line_len ?v) (vt_line_buf ?v))"
        using ok by (intro skip_back_twice) (simp add: vt_in_ok_def)
      then have "vt_abs ((vt_at i ?t1)\<lparr> vt_line_len := ?n \<rparr>) = (vt_abs ?v)\<lparr> ld_line := werase_spec (ld_line (vt_abs ?v)) \<rparr>"
        using vt_inp_cong[OF drawn_vt[OF d i]] by (simp add: vt_abs_line_len)
      from abs_after_draw[OF d i j, where f = "\<lambda>v. v\<lparr> vt_line_len := ?n \<rparr>", OF this] show ?thesis
        unfolding go line_werase_def if_not_P[OF ne] if_not_P[OF nk] if_P[OF w] .
    qed
  qed
qed

lemma tty_canon_refines:
  assumes i: "i < length (tt_vts t)" and j: "j < length (tt_vts t)" and ok: "vt_in_ok (vt_at i t)"
  shows "vt_abs (vt_at j (tty_canon i c t)) =
    (if j = i then ld_canon (vt_tio (vt_at i t)) c (vt_abs (vt_at i t)) else vt_abs (vt_at j t))"
proof -
  let ?v = "vt_at i t" let ?lf = "c_lflag (vt_tio ?v)"
  define cc where "cc = c_cc (vt_tio ?v)"
  note go = tty_canon_def ld_canon_def Let_def cc_def[symmetric]
  consider (eof) "c = cc ! TTY_VEOF" | (nl) "c \<noteq> cc ! TTY_VEOF" "c = 10 \<or> c = 13"
    | (other) "c \<noteq> cc ! TTY_VEOF" "\<not> (c = 10 \<or> c = 13)" by blast
  then show ?thesis
  proof cases
    case eof
    have "take (vt_line_len ?v) (vt_line_buf ?v) = [] \<longleftrightarrow> vt_line_len ?v = 0"
      using ok by (auto simp: vt_in_ok_def TTY_LINE_MAX_def TTY_IBUF_def)
    then show ?thesis
      unfolding go if_P[OF eof] using i ok by (simp add: vt_at_upd vt_abs_eof vt_abs_line_commit)
  next
    case nl
    have d: "drawn t (if flag ?lf TTY_ECHO then vt_echo_str i [13, 10] t else t)"
      by (intro drawn_if drawn_echo_str)
    have "vt_abs (line_commit True (vt_at i (if flag ?lf TTY_ECHO then vt_echo_str i [13, 10] t else t))) =
        (ld_push (ld_line (vt_abs ?v) @ [10]) (vt_abs ?v))\<lparr> ld_line := [] \<rparr>"
      using vt_inp_cong[OF drawn_vt[OF d i]] ok by (simp add: vt_abs_line_commit del: vt_abs_fields)
    from abs_after_draw[OF d i j, where f = "line_commit True", OF this] show ?thesis
      unfolding go if_not_P[OF nl(1)] if_P[OF nl(2)] .
  next
    case other
    then show ?thesis
      using tty_canon_type[OF i j ok cc_def other] tty_canon_erase[OF i j ok cc_def other] by blast
  qed
qed

text \<open>The signal characters.\<close>

lemma tty_input_signal:
  assumes "c \<noteq> 0" "tty_vt_range (tty_index t idx)" "i = nat (tty_index t idx)"
    and "cc = c_cc (vt_tio (vt_at i t))" "flag (c_lflag (vt_tio (vt_at i t))) TTY_ISIG"
    and "c = cc ! TTY_VINTR \<or> c = cc ! TTY_VQUIT \<or> c = cc ! TTY_VSUSP"
  shows "\<exists>sg msg. tty_input idx c t = tty_sigchar i c sg msg t"
proof -
  have "tty_input idx c t = (if c = cc ! TTY_VINTR then tty_sigchar i c SIGINT (cs ''^C'' @ [13, 10]) t
      else if c = cc ! TTY_VQUIT then tty_sigchar i c SIGQUIT [94, 92, 13, 10] t
      else tty_sigchar i c SIGSTOP (cs ''^Z'' @ [13, 10]) t)"
    using assms unfolding tty_input_def Let_def by auto
  then show ?thesis by (metis (full_types))
qed

lemma tty_input_refines:
  assumes len: "length (tt_vts t) = TTY_MAX_VT + 1" and c: "c \<noteq> 0" and r: "tty_vt_range (tty_index t idx)"
    and i: "i = nat (tty_index t idx)" and ok: "vt_in_ok (vt_at i t)" and j: "j \<le> TTY_MAX_VT"
  shows "vt_abs (vt_at j (tty_input idx c t)) =
    (if j = i then ld_input (vt_tio (vt_at i t)) (tt_fg t \<noteq> 0) c (vt_abs (vt_at i t)) else vt_abs (vt_at j t))"
proof -
  let ?v = "vt_at i t" let ?lf = "c_lflag (vt_tio ?v)"
  define cc where "cc = c_cc (vt_tio ?v)"
  have ij: "i < length (tt_vts t)" "j < length (tt_vts t)" using len r i j by (auto simp: tty_vt_range_def)
  show ?thesis
  proof (cases "flag ?lf TTY_ISIG \<and> (c = cc ! TTY_VINTR \<or> c = cc ! TTY_VQUIT \<or> c = cc ! TTY_VSUSP)")
    case True
    then obtain sg msg where e: "tty_input idx c t = tty_sigchar i c sg msg t"
      using tty_input_signal[OF c r i cc_def] by blast
    show ?thesis
      unfolding e tty_sigchar_abs[OF ij ok] ld_input_def Let_def cc_def[symmetric] if_P[OF True] by simp
  next
    case False
    then have e: "tty_input idx c t = (if \<not> flag ?lf TTY_ICANON then upd_vt i (in_push c) t else tty_canon i c t)"
      unfolding tty_input_def Let_def i[symmetric] cc_def[symmetric] using c r by auto
    show ?thesis
      unfolding e ld_input_def Let_def cc_def[symmetric] if_not_P[OF False]
      using ij ok tty_canon_refines[OF ij ok, of c] by (auto simp: vt_at_upd vt_abs_in_push split: if_splits)
  qed
qed

section \<open>What keystrokes and output leave alone\<close>

definition tty_vts_ok :: "tty_state \<Rightarrow> bool" where
  "tty_vts_ok t \<longleftrightarrow> length (tt_vts t) = TTY_MAX_VT + 1 \<and> (\<forall>v \<in> set (tt_vts t). vt_out_ok v \<and> vt_in_ok v)"

text \<open>
  \<open>tty_keep t t'\<close>: the terminals stay well-formed, with their termios, and the global fields
  that do not belong to one terminal are unchanged (the signals sent apart).
\<close>

definition tty_keep :: "tty_state \<Rightarrow> tty_state \<Rightarrow> bool" where
  "tty_keep t t' \<longleftrightarrow> (tty_vts_ok t \<longrightarrow> tty_vts_ok t') \<and> map vt_tio (tt_vts t') = map vt_tio (tt_vts t) \<and>
     tt_cur t' = tt_cur t \<and> tt_num t' = tt_num t \<and> tt_ctty t' = tt_ctty t \<and> tt_nodes t' = tt_nodes t \<and>
     tt_fg t' = tt_fg t \<and> tt_pending t' = tt_pending t \<and> tt_mem t' = tt_mem t \<and> tt_sigpend t' = tt_sigpend t"

named_theorems keep_intros \<open>operations that keep the global state\<close>

lemma keep_refl [keep_intros]: "tty_keep t t"
  by (simp add: tty_keep_def)

lemma keep_trans: "tty_keep t t' \<Longrightarrow> tty_keep t' t'' \<Longrightarrow> tty_keep t t''"
  unfolding tty_keep_def by argo

lemma keep_if: "(P \<Longrightarrow> tty_keep t a) \<Longrightarrow> (\<not> P \<Longrightarrow> tty_keep t b) \<Longrightarrow> tty_keep t (if P then a else b)"
  by simp

lemma keep_drawn:
  assumes "drawn t t'"
  shows "tty_keep t t'"
proof -
  have len: "length (tt_vts t') = length (tt_vts t)" using assms by (rule drawn_length)
  have inp: "vt_inp (tt_vts t' ! j) = vt_inp (tt_vts t ! j)" if "j < length (tt_vts t)" for j
    using drawn_vt[OF assms that] by (simp add: vt_at_def)
  have "map vt_tio (tt_vts t') = map vt_tio (tt_vts t)"
    using vt_inp_cong(3)[OF inp] len by (intro nth_equalityI) simp_all
  moreover have "tty_vts_ok t'" if "tty_vts_ok t"
  proof -
    have "\<forall>v \<in> set (tt_vts t'). vt_out_ok v" using assms that by (simp add: drawn_def tty_vts_ok_def)
    moreover have "vt_in_ok v" if "v \<in> set (tt_vts t')" for v
    proof -
      obtain j where j: "j < length (tt_vts t)" "v = tt_vts t' ! j"
        using \<open>v \<in> set (tt_vts t')\<close> len by (metis in_set_conv_nth)
      then have "vt_in_ok (tt_vts t ! j)" using \<open>tty_vts_ok t\<close> by (simp add: tty_vts_ok_def)
      then show ?thesis using vt_inp_cong(2)[OF inp[OF j(1)]] j(2) by simp
    qed
    ultimately show ?thesis using that len by (simp add: tty_vts_ok_def)
  qed
  ultimately show ?thesis using drawn_fields[OF assms] by (simp add: tty_keep_def)
qed

lemma keep_upd:
  assumes "\<And>v. vt_in_ok v \<Longrightarrow> vt_in_ok (f v)" "\<And>v. vt_out_ok v \<Longrightarrow> vt_out_ok (f v)"
    and "\<And>v. vt_tio (f v) = vt_tio v"
  shows "tty_keep t (upd_vt i f t)"
proof (cases "i < length (tt_vts t)")
  case True
  then have m: "tt_vts t ! i \<in> set (tt_vts t)" by simp
  have "map vt_tio ((tt_vts t)[i := f (tt_vts t ! i)]) = map vt_tio (tt_vts t)"
    using True assms(3) by (simp add: map_update) (metis list_update_id nth_map)
  moreover have "tty_vts_ok (upd_vt i f t)" if "tty_vts_ok t"
    using that assms(1,2) m set_update_subset_insert[of "tt_vts t" i "f (tt_vts t ! i)"]
    by (auto simp: tty_vts_ok_def upd_vt_def)
  ultimately show ?thesis by (simp add: tty_keep_def) (simp add: upd_vt_def)
next
  case False
  then have "upd_vt i f t = t" by (simp add: upd_vt_def list_update_beyond not_less)
  then show ?thesis by (simp add: keep_refl)
qed

lemma vt_out_ok_in [simp]:
  "vt_out_ok (in_push c v) = vt_out_ok v" "vt_out_ok (line_clear v) = vt_out_ok v"
  "vt_out_ok (line_commit nl v) = vt_out_ok v" "vt_out_ok (v\<lparr> vt_line_len := n \<rparr>) = vt_out_ok v"
  "vt_out_ok (v\<lparr> vt_eof := b \<rparr>) = vt_out_ok v" "vt_out_ok (v\<lparr> vt_line_buf := lb \<rparr>) = vt_out_ok v"
  by (simp_all add: vt_out_ok_def line_clear_def line_commit_fold)

lemma keep_in_push [keep_intros]: "tty_keep t (upd_vt i (in_push c) t)"
  by (intro keep_upd) (simp_all add: tq.push_ok)

lemma keep_line_commit [keep_intros]: "tty_keep t (upd_vt i (line_commit nl) t)"
  by (intro keep_upd) (simp_all add: vt_in_ok_line_commit, simp add: line_commit_fold line_clear_def)

lemma keep_line_clear [keep_intros]: "tty_keep t (upd_vt i line_clear t)"
  by (intro keep_upd) (simp_all, simp add: line_clear_def)

lemma keep_eof [keep_intros]: "tty_keep t (upd_vt i (\<lambda>v. v\<lparr> vt_eof := b \<rparr>) t)"
  by (intro keep_upd) (simp_all add: vt_in_ok_def)

lemma keep_dec [keep_intros]: "tty_keep t (upd_vt i (\<lambda>v. v\<lparr> vt_line_len := vt_line_len v - 1 \<rparr>) t)"
  by (intro keep_upd) (auto simp: vt_in_ok_def)

lemma keep_echo_str [keep_intros]: "tty_keep t t' \<Longrightarrow> tty_keep t (vt_echo_str i s t')"
  by (rule keep_trans[OF _ keep_drawn[OF drawn_echo_str]])

lemma keep_echo_char [keep_intros]: "tty_keep t t' \<Longrightarrow> tty_keep t (vt_echo_char i c t')"
  by (rule keep_trans[OF _ keep_drawn[OF drawn_echo_char]])

lemma keep_echo_erase [keep_intros]: "tty_keep t (echo_erase i k t)"
  by (rule keep_drawn[OF drawn_echo_erase])

lemma keep_signal_fg [keep_intros]: "tty_keep t (tty_signal_fg sg t)"
  by (simp add: tty_signal_fg_def tty_keep_def tty_vts_ok_def)

lemma keep_sigchar [keep_intros]: "tty_keep t (tty_sigchar i c sg msg t)"
  unfolding tty_sigchar_def Let_def
  by (intro keep_if keep_intros keep_trans[OF keep_signal_fg keep_line_clear])

text \<open>Changes that are well-formed because of the terminal they are applied to.\<close>

lemma keep_upd_at:
  assumes "vt_in_ok (vt_at i t) \<Longrightarrow> vt_in_ok (f (vt_at i t))" "vt_out_ok (vt_at i t) \<Longrightarrow> vt_out_ok (f (vt_at i t))"
    and "vt_tio (f (vt_at i t)) = vt_tio (vt_at i t)"
  shows "tty_keep t (upd_vt i f t)"
proof -
  have e: "upd_vt i f t = upd_vt i (\<lambda>v. if v = vt_at i t then f v else v) t"
    by (simp add: upd_vt_def vt_at_def)
  show ?thesis unfolding e using assms by (intro keep_upd) auto
qed

lemma keep_canon [keep_intros]:
  assumes "i < length (tt_vts t)"
  shows "tty_keep t (tty_canon i c t)"
proof -
  have ty: "tty_keep t (upd_vt i (\<lambda>v. v\<lparr> vt_line_buf := (vt_line_buf v)[vt_line_len v := c],
      vt_line_len := vt_line_len v + 1 \<rparr>) t)" if "vt_line_len (vt_at i t) < TTY_LINE_MAX"
    using that by (intro keep_upd_at) (auto simp: vt_in_ok_def vt_out_ok_def)
  have we: "tty_keep t (line_werase i t)"
  proof -
    let ?v = "vt_at i t"
    let ?n = "skip_back (\<lambda>c. \<not> is_blank c) (vt_line_buf ?v) (skip_back is_blank (vt_line_buf ?v) (vt_line_len ?v))"
    let ?t1 = "if flag (c_lflag (vt_tio ?v)) TTY_ECHO then echo_erase i (vt_line_len ?v - ?n) t else t"
    have d: "drawn t ?t1" by (intro drawn_if drawn_echo_erase)
    have n: "?n \<le> vt_line_len ?v" by (meson order_trans skip_back_le)
    have "vt_line_len (vt_at i ?t1) = vt_line_len ?v" using vt_inp_cong(5)[OF drawn_vt[OF d assms]] .
    then have "tty_keep ?t1 (upd_vt i (\<lambda>v. v\<lparr> vt_line_len := ?n \<rparr>) ?t1)"
      using n by (intro keep_upd_at) (auto simp: vt_in_ok_def)
    then show ?thesis unfolding line_werase_def Let_def by (rule keep_trans[OF keep_drawn[OF d]])
  qed
  show ?thesis
    unfolding tty_canon_def Let_def
    by (intro keep_if we ty keep_eof keep_line_commit keep_trans[OF _ keep_line_commit]
        keep_trans[OF _ keep_line_clear] keep_echo_str keep_echo_char keep_echo_erase keep_dec keep_refl)
qed

lemma keep_input: "length (tt_vts t) = TTY_MAX_VT + 1 \<Longrightarrow> tty_keep t (tty_input idx c t)"
  unfolding tty_input_def Let_def
  by (intro keep_if keep_intros) (auto simp: tty_vt_range_def not_less)

section \<open>Reading a line\<close>

lemma vt_at_pop:
  assumes "i < length (tt_vts t)" "vt_pop (vt_at i t) = Some (c, v')"
  shows "vt_at i (upd_vt i (\<lambda>v. v\<lparr> vt_in_rd := (vt_in_rd v + 1) mod TTY_IBUF \<rparr>) t) = v'"
    "c = vt_in_buf (vt_at i t) ! vt_in_rd (vt_at i t)" "vt_in_rd (vt_at i t) \<noteq> vt_in_wr (vt_at i t)"
    "vt_tio v' = vt_tio (vt_at i t)"
  using assms by (auto simp: vt_at_upd vt_pop_def split: if_splits)

text \<open>In canonical mode a read that is long enough takes exactly one line and does not sleep.\<close>

lemma tty_read_go_line:
  assumes "int i = tt_cur t" "i < length (tt_vts t)" "vt_in_ok (vt_at i t)"
    and "flag (c_lflag (vt_tio (vt_at i t))) TTY_ICANON"
    and "vt_queue (vt_at i t) = l @ 10 # rest" "10 \<notin> set l" "length l < m" "m \<le> sz"
  shows "\<exists>t'. tty_read_go i sz k m t = (TtyRet (int (k + length l + 1)), l @ [10], t') \<and>
    vt_queue (vt_at i t') = rest \<and> tt_mem t' = tt_mem t"
  using assms
proof (induction l arbitrary: k m t)
  case Nil
  obtain m' where m': "m = Suc m'" using Nil.prems(7) by (cases m) auto
  obtain c v' where p: "vt_pop (vt_at i t) = Some (c, v')"
    using tq.pop_none[OF Nil.prems(3)] Nil.prems(5) by (cases "vt_pop (vt_at i t)") auto
  have c: "c = 10" "vt_queue v' = rest" using tq.pop_some[OF Nil.prems(3) p] Nil.prems(5) by auto
  note at = vt_at_pop[OF Nil.prems(2) p]
  show ?case
    using Nil.prems(1) at c unfolding m' by (simp add: Let_def) (simp add: upd_vt_def)
next
  case (Cons x l)
  obtain m' where m': "m = Suc m'" using Cons.prems(7) by (cases m) auto
  obtain c v' where p: "vt_pop (vt_at i t) = Some (c, v')"
    using tq.pop_none[OF Cons.prems(3)] Cons.prems(5) by (cases "vt_pop (vt_at i t)") auto
  have c: "c = x" "vt_queue v' = l @ 10 # rest" "vt_in_ok v'"
    using tq.pop_some[OF Cons.prems(3) p] Cons.prems(5) by auto
  note at = vt_at_pop[OF Cons.prems(2) p]
  let ?t1 = "upd_vt i (\<lambda>v. v\<lparr> vt_in_rd := (vt_in_rd v + 1) mod TTY_IBUF \<rparr>) t"
  have "int i = tt_cur ?t1" "i < length (tt_vts ?t1)" "vt_in_ok (vt_at i ?t1)"
    "flag (c_lflag (vt_tio (vt_at i ?t1))) TTY_ICANON" "vt_queue (vt_at i ?t1) = l @ 10 # rest" "tt_mem ?t1 = tt_mem t"
    using Cons.prems at c by (simp_all add: upd_vt_def)
  then obtain t' where t': "tty_read_go i sz (k + 1) m' ?t1 = (TtyRet (int (k + 1 + length l + 1)), l @ [10], t')"
      "vt_queue (vt_at i t') = rest" "tt_mem t' = tt_mem t"
    using Cons.IH[of ?t1 m' "k + 1"] Cons.prems(6-8) m' by auto
  have go: "\<not> (c = 10 \<or> sz \<le> 1 \<or> (\<not> flag (c_lflag (vt_tio (vt_at i ?t1))) TTY_ICANON \<and>
      vt_in_rd (vt_at i ?t1) = vt_in_wr (vt_at i ?t1)))"
    using c(1) Cons.prems(4,6-8) at by auto
  have "tty_read_go i sz k m t = (TtyRet (int (k + 1 + length l + 1)), x # l @ [10], t')"
    unfolding m' tty_read_go.simps(2) Let_def at(2)[symmetric] if_not_P[OF go] t'(1)
    using Cons.prems(1) at c by simp
  then show ?case using t' by simp
qed

section \<open>The global invariant\<close>

lemma tty_ok_alt:
  "tty_ok t \<longleftrightarrow> tty_vts_ok t \<and> 1 \<le> tt_cur t \<and> tt_cur t \<le> tt_num t \<and> tt_num t \<le> int TTY_MAX_VT \<and>
     length (tt_ctty t) = TTY_CTTY_MAX \<and> (\<forall>e \<in> set (tt_ctty t). 0 \<le> snd e \<and> snd e \<le> tt_num t) \<and>
     set (tt_nodes t) = {0..nat (tt_num t)} \<and> (tt_pending t = 0 \<or> tty_vt_range (tt_pending t))"
  by (auto simp: tty_ok_def tty_vts_ok_def)

lemma tty_ok_keep: "tty_ok t \<Longrightarrow> tty_keep t t' \<Longrightarrow> tty_ok t'"
  by (simp add: tty_ok_alt tty_keep_def)

lemma tty_ok_mem [simp]: "tty_ok (t\<lparr> tt_mem := m \<rparr>) = tty_ok t" "tty_ok (t\<lparr> tt_fg := f \<rparr>) = tty_ok t"
  "tty_ok (t\<lparr> tt_screen := sc \<rparr>) = tty_ok t" "tty_ok (t\<lparr> tt_sigpend := p \<rparr>) = tty_ok t"
  "tty_ok (t\<lparr> tt_pgids := g \<rparr>) = tty_ok t"
  by (simp_all add: tty_ok_def)

text \<open>A change of one terminal that keeps it well-formed.\<close>

lemma tty_ok_upd:
  assumes "tty_ok t" "\<And>v. vt_in_ok v \<Longrightarrow> vt_in_ok (f v)" "\<And>v. vt_out_ok v \<Longrightarrow> vt_out_ok (f v)"
  shows "tty_ok (upd_vt i f t)"
proof (cases "i < length (tt_vts t)")
  case True
  then have "tt_vts t ! i \<in> set (tt_vts t)" by simp
  then have "tty_vts_ok (upd_vt i f t)"
    using assms set_update_subset_insert[of "tt_vts t" i "f (tt_vts t ! i)"]
    by (auto simp: tty_ok_alt tty_vts_ok_def upd_vt_def)
  then show ?thesis using assms(1) by (simp add: tty_ok_alt) (simp add: upd_vt_def)
next
  case False
  then have "upd_vt i f t = t" by (simp add: upd_vt_def list_update_beyond not_less)
  then show ?thesis using assms(1) by simp
qed

lemma vt_reset_ok: "vt_in_ok v \<Longrightarrow> vt_in_ok (tty_vt_reset v)" "vt_out_ok v \<Longrightarrow> vt_out_ok (tty_vt_reset v)"
  by (simp_all add: vt_in_ok_def tty_vt_reset_def ring_ok_def tty_termios_default_def vt_out_ok_def)

text \<open>The terminals after a successful allocation.\<close>

definition tty_allocated :: "tty_state \<Rightarrow> tty_state" where
  "tty_allocated t = (let n = nat (tt_num t + 1) in
     upd_vt n (\<lambda>v. v\<lparr> vt_out := replicate TTY_OUTBUF 0, vt_out_len := 0 \<rparr>)
       (upd_vt n tty_vt_reset (t\<lparr> tt_nodes := n # tt_nodes t, tt_num := tt_num t + 1 \<rparr>)))"

lemma tty_alloc_eq:
  assumes "0 \<le> tt_num t"
  shows "tty_alloc reg t =
    (if tt_num t < int TTY_MAX_VT \<and> reg (nat (tt_num t + 1)) then (tt_num t + 1, tty_allocated t) else (-1, t))"
  using assms by (simp add: tty_alloc_def tty_vt_register_def tty_vt_range_def tty_allocated_def Let_def upd_vt_def)

lemma tty_allocated_fields [simp]:
  "tt_num (tty_allocated t) = tt_num t + 1" "tt_cur (tty_allocated t) = tt_cur t"
  "tt_pending (tty_allocated t) = tt_pending t"
  by (simp_all add: tty_allocated_def upd_vt_def Let_def)

lemma tty_ok_allocated:
  assumes "tty_ok t" "tt_num t < int TTY_MAX_VT"
  shows "tty_ok (tty_allocated t)"
proof -
  let ?n = "nat (tt_num t + 1)"
  have pos: "0 \<le> tt_num t" using assms(1) by (simp add: tty_ok_def)
  have "{0..?n} = insert ?n {0..nat (tt_num t)}" using pos by auto
  then have t1: "tty_ok (t\<lparr> tt_nodes := ?n # tt_nodes t, tt_num := tt_num t + 1 \<rparr>)"
    using assms by (auto simp: tty_ok_alt tty_vts_ok_def)
  have "tty_ok (upd_vt ?n tty_vt_reset (t\<lparr> tt_nodes := ?n # tt_nodes t, tt_num := tt_num t + 1 \<rparr>))"
    using t1 by (rule tty_ok_upd) (simp_all add: vt_reset_ok)
  then show ?thesis
    unfolding tty_allocated_def Let_def
    by (rule tty_ok_upd) (simp_all add: vt_in_ok_def vt_out_ok_def)
qed

lemma tty_ok_alloc_upto:
  assumes "tty_ok t" "tty_alloc_upto reg k n t = (ok, t')"
  shows "tty_ok t' \<and> tt_cur t' = tt_cur t \<and> tt_pending t' = tt_pending t \<and> (ok \<longrightarrow> nat (n - tt_num t) \<le> k \<longrightarrow> n \<le> tt_num t')"
  using assms
proof (induction reg k n t arbitrary: ok t' rule: tty_alloc_upto.induct)
  case (1 reg n t)
  then show ?case by auto
next
  case (2 reg k n t)
  have pos: "0 \<le> tt_num t" using "2.prems"(1) by (simp add: tty_ok_def)
  show ?case
  proof (cases "tt_num t < n \<and> tt_num t < int TTY_MAX_VT \<and> reg (nat (tt_num t + 1))")
    case True
    then have "tty_alloc_upto reg k n (tty_allocated t) = (ok, t')"
      using "2.prems"(2) pos by (simp add: tty_alloc_eq)
    then show ?thesis
      using "2.IH"[of "(tt_num t + 1, tty_allocated t)" "tt_num t + 1" "tty_allocated t"] True pos
        tty_ok_allocated[OF "2.prems"(1)] by (auto simp: tty_alloc_eq)
  next
    case False
    then show ?thesis
      using "2.prems" pos by (auto simp: tty_alloc_eq split: if_splits)
  qed
qed

lemma tty_ok_activate:
  assumes "tty_ok t" "tty_activate reg n t = (r, t')"
  shows "tty_ok t'" "r = 0 \<Longrightarrow> tt_cur t' = n"
proof -
  obtain ok t1 where u: "tty_alloc_upto reg (nat (n - tt_num t)) n t = (ok, t1)"
    by (cases "tty_alloc_upto reg (nat (n - tt_num t)) n t")
  note k = tty_ok_alloc_upto[OF assms(1) u]
  have ok': "tty_ok (t1\<lparr> tt_cur := n \<rparr>)" if "ok" "tty_vt_range n"
    using k that by (auto simp: tty_ok_alt tty_vts_ok_def tty_vt_range_def)
  have "tty_ok (vt_render (nat n) (t1\<lparr> tt_cur := n \<rparr>))" if "ok" "tty_vt_range n"
    using ok'[OF that] by (simp add: vt_render_def)
  then show "tty_ok t'"
    using assms u k by (auto simp: tty_activate_def split: if_splits)
  show "r = 0 \<Longrightarrow> tt_cur t' = n"
    using assms(2) u by (auto simp: tty_activate_def vt_render_def split: if_splits)
qed

lemma tty_ok_free:
  assumes "tty_ok t" "tty_free n t = (r, t')"
  shows "tty_ok t'"
proof (cases "n < 1 \<or> n \<noteq> tt_num t \<or> n = tt_cur t")
  case True
  then show ?thesis using assms by (auto simp: tty_free_def split: if_splits)
next
  case False
  then have n: "n = tt_num t" "1 < n" "tt_cur t \<le> n - 1" using assms(1) by (auto simp: tty_ok_def)
  have t': "t' = (tty_vt_unregister n t)\<lparr> tt_num := n - 1 \<rparr>" using assms(2) False by (simp add: tty_free_def)
  have "{0..nat n} - {nat n} = {0..nat (n - 1)}" using n by auto
  moreover have "0 \<le> (if x = n then 0 else x) \<and> (if x = n then 0 else x) \<le> n - 1" if "0 \<le> x" "x \<le> n" for x
    using that n by auto
  ultimately show ?thesis
    using assms(1) n unfolding t' tty_ok_alt tty_vt_unregister_def tty_vts_ok_def by auto
qed

lemma tty_ok_ctty:
  assumes "tty_ok t" "0 \<le> x" "x \<le> tt_num t"
  shows "tty_ok (t\<lparr> tt_ctty := (tt_ctty t)[i := (p, x)] \<rparr>)"
proof -
  have "set ((tt_ctty t)[i := (p, x)]) \<subseteq> insert (p, x) (set (tt_ctty t))"
    by (rule set_update_subset_insert)
  then show ?thesis using assms by (auto simp: tty_ok_alt tty_vts_ok_def)
qed

lemma tty_ok_set_ctty:
  assumes "tty_ok t" "n \<le> tt_num t"
  shows "tty_ok (tty_set_ctty me n t)"
proof -
  define x where "x = (if n \<le> 0 then tt_cur t else n)"
  have "0 \<le> x" "x \<le> tt_num t" using assms by (auto simp: tty_ok_def x_def)
  then have up: "tty_ok (t\<lparr> tt_ctty := (tt_ctty t)[i := (p, x)] \<rparr>)" for i p
    by (rule tty_ok_ctty[OF assms(1)])
  show ?thesis
    unfolding tty_set_ctty_def x_def[symmetric] Let_def
    using up assms(1) by (auto split: option.splits prod.splits)
qed

lemma tty_ok_clear_ctty: "tty_ok t \<Longrightarrow> tty_ok (tty_clear_ctty pid t)"
  by (auto simp: tty_ok_alt tty_vts_ok_def tty_clear_ctty_def)

lemma tty_ok_write: "tty_ok t \<Longrightarrow> tty_ok (snd (tty_write idx sz buf t))"
proof -
  assume ok: "tty_ok t"
  have "tty_ok (fold console_puts xs t)" for xs
    using keep_drawn[OF drawn_fold[of console_puts, OF drawn_console_puts]] ok tty_ok_keep by blast
  moreover have "tty_ok (upd_vt i (vt_append dat) t)" for i dat
    using ok keep_drawn[OF drawn_upd_out[of "vt_append dat" t i]] vt_append_ok tty_ok_keep by simp
  ultimately show ?thesis using ok by (simp add: tty_write_def Let_def)
qed

lemma vt_in_ok_rd: "vt_in_ok v \<Longrightarrow> vt_in_ok (v\<lparr> vt_in_rd := (vt_in_rd v + 1) mod TTY_IBUF \<rparr>)"
  by (simp add: vt_in_ok_def ring_ok_def)

lemma tty_ok_read_go: "tty_ok t \<Longrightarrow> tty_read_go i sz k m t = (st, bs, t') \<Longrightarrow> tty_ok t'"
proof (induction i sz k m t arbitrary: st bs t' rule: tty_read_go.induct)
  case (2 i sz k m t)
  let ?t1 = "upd_vt i (\<lambda>v. v\<lparr> vt_in_rd := (vt_in_rd v + 1) mod TTY_IBUF \<rparr>) t"
  have t1: "tty_ok ?t1" using "2.prems"(1) by (rule tty_ok_upd) (simp_all add: vt_in_ok_rd[simplified] vt_out_ok_def)
  have e: "tty_ok (upd_vt i (\<lambda>v. v\<lparr> vt_eof := False \<rparr>) t)"
    using "2.prems"(1) by (rule tty_ok_upd) (simp_all add: vt_in_ok_def)
  show ?case
    using "2.prems" "2.IH"[OF _ refl _ refl refl refl _ t1] t1 e
    by (auto simp: Let_def split: if_splits prod.splits)
qed auto

lemma tty_ok_read_step:
  "tty_ok t \<Longrightarrow> outcome_all (\<lambda>(k, t). tty_ok t) (tty_read_step i sz buf (k, t))"
  using tty_ok_read_go[of t i sz k "sz - k"]
  by (auto simp: tty_read_step_def outcome_all_def Let_def split: prod.splits tty_status.splits)

lemma tty_ok_ioctl:
  assumes "tty_ok t" "tty_ioctl reg me idx cmd arg t = (r, t')"
  shows "tty_ok t'"
proof -
  have "tty_ok (upd_vt i (\<lambda>v. v\<lparr> vt_tio := bytes_termios (mem_read m a 36) \<rparr>) t)" if "tty_ok t" for t i m a
    using that by (rule tty_ok_upd) (simp_all add: vt_in_ok_def vt_out_ok_def bytes_termios_def)
  moreover have "tty_ok (upd_vt i tty_flush_input t)" for i
    using assms(1) by (rule tty_ok_upd)
      (simp_all add: tty_flush_input_def line_clear_def vt_in_ok_def vt_out_ok_def ring_ok_def)
  ultimately show ?thesis
    using assms tty_ok_activate[OF assms(1)] tty_ok_free[OF assms(1)] tty_ok_set_ctty[OF assms(1)]
    by (auto simp: tty_ioctl_def put_int_def Let_def copy_from_user_def split: if_splits option.splits prod.splits)
qed

text \<open>
  The states the driver can be in: initialised on well-formed terminals, with \<open>/dev/tty0\<close> and
  \<open>/dev/tty1\<close> registered at boot, then keystrokes, system calls and the console task in any order, with
  arbitrary changes of what the driver only reads. Later registrations may fail or succeed at each call.
\<close>

inductive tty_reach :: "tty_state \<Rightarrow> bool" where
  reach_init: "tty_vts_ok t \<Longrightarrow> \<not> tt_ready t \<Longrightarrow> tt_nodes t = [] \<Longrightarrow> tt_pending t = 0 \<Longrightarrow> reg 0 \<Longrightarrow> reg 1 \<Longrightarrow>
     tty_reach (tty_init reg t)"
| reach_input: "tty_reach t \<Longrightarrow> tty_reach (tty_input idx c t)"
| reach_write: "tty_reach t \<Longrightarrow> tty_reach (snd (tty_write idx sz buf t))"
| reach_read: "tty_reach t \<Longrightarrow> tty_read_step i n buf (k, t) = Inl (r, k', t') \<Longrightarrow> tty_reach t'"
| reach_asleep: "tty_reach t \<Longrightarrow> tty_read_step i n buf (k, t) = Inr (k', t') \<Longrightarrow> tty_reach t'"
| reach_ioctl: "tty_reach t \<Longrightarrow> tty_ioctl reg me idx cmd arg t = (r, t') \<Longrightarrow> tty_reach t'"
| reach_deferred: "tty_reach t \<Longrightarrow> tty_reach (tty_activate_deferred n t)"
| reach_task: "tty_reach t \<Longrightarrow> tty_reach (tty_console_task reg t)"
| reach_exit: "tty_reach t \<Longrightarrow> tty_reach (tty_clear_ctty pid t)"
| reach_printk: "tty_reach t \<Longrightarrow> tty_reach (console_puts msg t)"
| reach_env: "tty_reach t \<Longrightarrow> tty_reach (t\<lparr> tt_mem := m, tt_sigpend := p, tt_pgids := g \<rparr>)"

lemma tty_ok_deferred: "tty_ok t \<Longrightarrow> tty_ok (tty_activate_deferred n t)"
  by (simp add: tty_activate_deferred_def tty_ok_def)

lemma tty_ok_env: "tty_ok t \<Longrightarrow> tty_ok (t\<lparr> tt_mem := m, tt_sigpend := p, tt_pgids := g \<rparr>)"
  by (simp add: tty_ok_def)

lemma tty_ok_init:
  assumes "tty_vts_ok t" "\<not> tt_ready t" "tt_nodes t = []" "tt_pending t = 0" "reg 0" "reg 1"
  shows "tty_ok (tty_init reg t)"
proof -
  let ?t = "t\<lparr> tt_ctty := replicate TTY_CTTY_MAX (0, 0), tt_cur := 1, tt_num := 1, tt_ready := True,
    tt_nodes := [1, 0] \<rparr>"
  have "tty_ok ?t" using assms by (auto simp: tty_ok_alt tty_vts_ok_def TTY_MAX_VT_def TTY_CTTY_MAX_def)
  then have "tty_ok (upd_vt 1 tty_vt_reset ?t)" by (rule tty_ok_upd) (simp_all add: vt_reset_ok)
  moreover have "tty_init reg t = upd_vt 1 tty_vt_reset ?t"
    using assms by (simp add: tty_init_def tty_vt_register_def tty_vt_range_def TTY_MAX_VT_def upd_vt_def Let_def)
  ultimately show ?thesis by simp
qed

lemma tty_reach_ok: "tty_reach t \<Longrightarrow> tty_ok t"
proof (induction rule: tty_reach.induct)
  case (reach_init t reg)
  then show ?case by (rule tty_ok_init)
next
  case (reach_input t idx c)
  have "length (tt_vts t) = TTY_MAX_VT + 1" using reach_input.IH by (simp add: tty_ok_def)
  then show ?case using tty_ok_keep[OF reach_input.IH keep_input] by simp
next
  case (reach_read t i n buf k r k' t')
  then show ?case using tty_ok_read_step[of t i n buf k] by (simp add: outcome_all_def)
next
  case (reach_asleep t i n buf k k' t')
  then show ?case using tty_ok_read_step[of t i n buf k] by (simp add: outcome_all_def)
next
  case (reach_task t reg)
  have "tty_ok (t\<lparr> tt_pending := 0 \<rparr>)" using reach_task by (simp add: tty_ok_def)
  then show ?case
    using reach_task tty_ok_activate(1)[of "t\<lparr> tt_pending := 0 \<rparr>" reg "tt_pending t"]
    by (simp add: tty_console_task_def Let_def) (metis prod.collapse)
next
  case (reach_printk t msg)
  then show ?case using keep_drawn[OF drawn_console_puts] tty_ok_keep by blast
next
  case (reach_ioctl t reg me idx cmd arg r t')
  show ?case using reach_ioctl.IH reach_ioctl.hyps(2) by (rule tty_ok_ioctl)
qed (simp_all add: tty_ok_write tty_ok_clear_ctty tty_ok_deferred tty_ok_env)

section \<open>Properties\<close>

text \<open>
  C27: The terminal table stays consistent. When \<open>/dev/tty0\<close> and \<open>/dev/tty1\<close> could be registered at
  boot, then in every state reached from there, also when later registrations fail, the active
  terminal is an allocated one, the allocated terminals are exactly \<open>1..tty_num\<close> with their device nodes (and
  \<open>/dev/tty0\<close>) registered, no controlling-terminal entry names a terminal that does not exist,
  and all ring, line and scrollback indices are inside their arrays.
\<close>

theorem tty_table_consistent:
  assumes "tty_reach t"
  shows "1 \<le> tt_cur t \<and> tt_cur t \<le> tt_num t \<and> tt_num t \<le> 63 \<and> set (tt_nodes t) = {0..nat (tt_num t)} \<and>
    (\<forall>e \<in> set (tt_ctty t). 0 \<le> snd e \<and> snd e \<le> tt_num t) \<and>
    (\<forall>v \<in> set (tt_vts t). vt_in_rd v < 1024 \<and> vt_in_wr v < 1024 \<and> vt_line_len v \<le> 1022 \<and> vt_out_len v \<le> 4096)"
  using tty_reach_ok[OF assms]
  by (auto simp: tty_ok_def vt_in_ok_def vt_out_ok_def ring_ok_def TTY_MAX_VT_def TTY_IBUF_def
      TTY_LINE_MAX_def TTY_OUTBUF_def)

definition tty_example_vt :: tty_vt where
  "tty_example_vt = \<lparr> vt_out = replicate TTY_OUTBUF 0, vt_out_len = 0, vt_tio = tty_termios_default,
     vt_in_buf = replicate TTY_IBUF 0, vt_in_wr = 0, vt_in_rd = 0, vt_line_buf = replicate TTY_LINE_MAX 0,
     vt_line_len = 0, vt_eof = False \<rparr>"

definition tty_example :: tty_state where
  "tty_example = \<lparr> tt_vts = replicate (TTY_MAX_VT + 1) tty_example_vt, tt_ready = False, tt_cur = 1, tt_num = 0,
     tt_pending = 0, tt_ctty = [], tt_fg = 0, tt_pgids = [], tt_sigpend = 0, tt_fb = True, tt_nodes = [],
     tt_signals = [], tt_screen = [], tt_mem = (\<lambda>_. 65) \<rparr>"

lemma tty_example_vt_ok: "vt_in_ok tty_example_vt" "vt_out_ok tty_example_vt"
  by (simp_all add: tty_example_vt_def vt_in_ok_def vt_out_ok_def ring_ok_def tty_termios_default_def)

lemma tty_example_reach: "tty_reach (tty_init (\<lambda>_. True) tty_example)"
  by (rule reach_init) (simp_all add: tty_vts_ok_def tty_example_def tty_example_vt_ok)

text \<open>
  When \<open>/dev/tty1\<close> could not be registered, \<open>tty_init\<close> returns with terminal 1 active and no terminal
  allocated.
\<close>

lemma tty_init_without_tty1:
  assumes "\<not> tt_ready t" "\<not> reg 1"
  shows "tt_ready (tty_init reg t) \<and> tt_cur (tty_init reg t) = 1 \<and> tt_num (tty_init reg t) = 0"
  using assms by (simp add: tty_init_def tty_vt_register_def tty_vt_range_def TTY_MAX_VT_def Let_def)

theorem tty_table_consistent_witness:
  "tt_cur (tty_init (\<lambda>_. True) tty_example) \<le> tt_num (tty_init (\<lambda>_. True) tty_example)"
  using tty_table_consistent[OF tty_example_reach] by simp

text \<open>
  C3: The line discipline is correct. In every reachable state a keystroke changes the terminal it
  is for exactly as the list specification \<open>ld_input\<close> says (line editing, signal characters, raw
  mode, end of file, the bounded queue) and leaves the input side of all other terminals alone.
\<close>

theorem tty_line_discipline:
  assumes "tty_reach t" "c \<noteq> 0" "tty_vt_range (tty_index t idx)" "j \<le> TTY_MAX_VT"
  shows "vt_abs (vt_at j (tty_input idx c t)) =
    (if j = nat (tty_index t idx)
     then ld_input (vt_tio (vt_at j t)) (tt_fg t \<noteq> 0) c (vt_abs (vt_at j t)) else vt_abs (vt_at j t))"
proof -
  have ok: "tty_vts_ok t" using tty_reach_ok[OF assms(1)] by (simp add: tty_ok_alt)
  then have "vt_in_ok (vt_at (nat (tty_index t idx)) t)"
    using assms(3) by (auto simp: tty_vts_ok_def vt_at_def tty_vt_range_def)
  then show ?thesis
    using tty_input_refines[OF _ assms(2,3) refl _ assms(4)] ok by (simp add: tty_vts_ok_def)
qed

theorem tty_line_discipline_witness:
  "vt_abs (vt_at 1 (tty_input 0 97 (tty_init (\<lambda>_. True) tty_example))) =
     \<lparr> ld_line = [97], ld_queue = [], ld_eof = False \<rparr>"
proof -
  let ?t = "tty_init (\<lambda>_. True) tty_example"
  have t: "tty_init (\<lambda>_. True) tty_example = upd_vt 1 tty_vt_reset (tty_example\<lparr> tt_ctty := replicate TTY_CTTY_MAX (0, 0), tt_cur := 1, tt_num := 1,
      tt_ready := True, tt_nodes := [1, 0] \<rparr>)"
    by (simp add: tty_init_def tty_vt_register_def tty_vt_range_def TTY_MAX_VT_def upd_vt_def Let_def tty_example_def)
  have at: "vt_at 1 ?t = tty_example_vt"
    unfolding t by (simp add: vt_at_def upd_vt_def tty_example_def TTY_MAX_VT_def)
      (simp add: tty_vt_reset_def tty_example_vt_def)
  have i: "tty_index ?t 0 = 1" "tty_vt_range 1" "tt_fg ?t = 0"
    unfolding t by (simp_all add: tty_index_def tty_vt_range_def TTY_MAX_VT_def upd_vt_def tty_example_def)
  have "ld_input (vt_tio tty_example_vt) False 97 (vt_abs tty_example_vt) = \<lparr> ld_line = [97], ld_queue = [], ld_eof = False \<rparr>"
    by (simp add: ld_input_def ld_canon_def tty_example_vt_def tty_termios_default_def vt_abs_def vt_queue_def flag_def
        TTY_LINE_MAX_def TTY_IBUF_def)
  then show ?thesis
    using tty_line_discipline[OF tty_example_reach, of 97 0 1] at i by (simp add: TTY_MAX_VT_def)
qed

section \<open>A typed line reaches the reader\<close>

definition tty_plain :: "tty_termios \<Rightarrow> byte \<Rightarrow> bool" where
  "tty_plain tio c \<longleftrightarrow> c \<noteq> 0 \<and>
     \<not> (flag (c_lflag tio) TTY_ISIG \<and> (c = c_cc tio ! TTY_VINTR \<or> c = c_cc tio ! TTY_VQUIT \<or> c = c_cc tio ! TTY_VSUSP)) \<and>
     c \<noteq> c_cc tio ! TTY_VEOF"

definition tty_ordinary :: "tty_termios \<Rightarrow> byte \<Rightarrow> bool" where
  "tty_ordinary tio c \<longleftrightarrow> tty_plain tio c \<and> c \<noteq> 10 \<and> c \<noteq> 13 \<and> c \<noteq> 8 \<and> c \<noteq> c_cc tio ! TTY_VERASE \<and>
     c \<noteq> c_cc tio ! TTY_VKILL \<and> c \<noteq> c_cc tio ! TTY_VWERASE"

lemma ld_input_ordinary:
  assumes "tty_ordinary tio c" "flag (c_lflag tio) TTY_ICANON" "length (ld_line d) < TTY_LINE_MAX"
  shows "ld_input tio fg c d = d\<lparr> ld_line := ld_line d @ [c] \<rparr>"
proof -
  have ns: "\<not> (flag (c_lflag tio) TTY_ISIG \<and> (c = c_cc tio ! TTY_VINTR \<or> c = c_cc tio ! TTY_VQUIT \<or> c = c_cc tio ! TTY_VSUSP))"
    using assms(1) by (simp add: tty_ordinary_def tty_plain_def)
  show ?thesis
    unfolding ld_input_def Let_def if_not_P[OF ns] ld_canon_def
    using assms by (simp add: tty_ordinary_def tty_plain_def)
qed

lemma ld_input_newline:
  assumes "tty_plain tio 10" "flag (c_lflag tio) TTY_ICANON"
  shows "ld_input tio fg 10 d = (ld_push (ld_line d @ [10]) d)\<lparr> ld_line := [] \<rparr>"
proof -
  have ns: "\<not> (flag (c_lflag tio) TTY_ISIG \<and> (10 = c_cc tio ! TTY_VINTR \<or> 10 = c_cc tio ! TTY_VQUIT \<or> 10 = c_cc tio ! TTY_VSUSP))"
    using assms(1) by (simp add: tty_plain_def)
  show ?thesis
    unfolding ld_input_def Let_def if_not_P[OF ns] ld_canon_def using assms by (simp add: tty_plain_def)
qed

text \<open>One keystroke on the active terminal of a well-formed state.\<close>

lemma tty_input_active:
  assumes "tty_ok t" "c \<noteq> 0" "i = nat (tt_cur t)"
  shows "tty_ok (tty_input 0 c t)" "tt_cur (tty_input 0 c t) = tt_cur t" "tt_mem (tty_input 0 c t) = tt_mem t"
    "vt_tio (vt_at i (tty_input 0 c t)) = vt_tio (vt_at i t)"
    "vt_abs (vt_at i (tty_input 0 c t)) = ld_input (vt_tio (vt_at i t)) (tt_fg t \<noteq> 0) c (vt_abs (vt_at i t))"
    "tt_sigpend (tty_input 0 c t) = tt_sigpend t"
proof -
  have len: "length (tt_vts t) = TTY_MAX_VT + 1" using assms(1) by (simp add: tty_ok_def)
  have keep: "tty_keep t (tty_input 0 c t)" by (rule keep_input[OF len])
  then show "tty_ok (tty_input 0 c t)" by (rule tty_ok_keep[OF assms(1)])
  show "tt_cur (tty_input 0 c t) = tt_cur t" "tt_mem (tty_input 0 c t) = tt_mem t"
    "tt_sigpend (tty_input 0 c t) = tt_sigpend t" using keep by (simp_all add: tty_keep_def)
  have i: "i < length (tt_vts t)" using assms(1,3) len by (auto simp: tty_ok_def)
  have m: "map vt_tio (tt_vts (tty_input 0 c t)) = map vt_tio (tt_vts t)" using keep by (simp add: tty_keep_def)
  then have "length (tt_vts (tty_input 0 c t)) = length (tt_vts t)" by (metis length_map)
  then show "vt_tio (vt_at i (tty_input 0 c t)) = vt_tio (vt_at i t)"
    using m i unfolding vt_at_def by (metis nth_map)
  have r: "tty_index t 0 = tt_cur t" "tty_vt_range (tt_cur t)"
    using assms(1) by (auto simp: tty_index_def tty_vt_range_def tty_ok_def)
  have "vt_in_ok (vt_at i t)" using assms(1) i by (auto simp: tty_ok_def vt_at_def)
  then show "vt_abs (vt_at i (tty_input 0 c t)) = ld_input (vt_tio (vt_at i t)) (tt_fg t \<noteq> 0) c (vt_abs (vt_at i t))"
    using tty_input_refines[OF len assms(2), of 0 i i] r assms(3) i len by simp
qed

lemma tty_type_line:
  assumes "tty_ok t" "i = nat (tt_cur t)" "flag (c_lflag (vt_tio (vt_at i t))) TTY_ICANON"
    and "\<forall>c \<in> set xs. tty_ordinary (vt_tio (vt_at i t)) c"
    and "length (ld_line (vt_abs (vt_at i t))) + length xs \<le> TTY_LINE_MAX"
  shows "let t1 = fold (tty_input 0) xs t in tty_ok t1 \<and> tt_cur t1 = tt_cur t \<and> tt_mem t1 = tt_mem t \<and>
    tt_sigpend t1 = tt_sigpend t \<and> vt_tio (vt_at i t1) = vt_tio (vt_at i t) \<and>
    vt_abs (vt_at i t1) = (vt_abs (vt_at i t))\<lparr> ld_line := ld_line (vt_abs (vt_at i t)) @ xs \<rparr>"
  using assms
proof (induction xs arbitrary: t)
  case (Cons c xs)
  let ?t1 = "tty_input 0 c t"
  have c: "c \<noteq> 0" "tty_ordinary (vt_tio (vt_at i t)) c" using Cons.prems(4) by (auto simp: tty_ordinary_def tty_plain_def)
  note a = tty_input_active[OF Cons.prems(1) c(1) Cons.prems(2)]
  have ab: "vt_abs (vt_at i ?t1) = (vt_abs (vt_at i t))\<lparr> ld_line := ld_line (vt_abs (vt_at i t)) @ [c] \<rparr>"
    unfolding a(5) using Cons.prems(3,5) c(2) by (intro ld_input_ordinary) (simp_all del: vt_abs_fields)
  have "let t2 = fold (tty_input 0) xs ?t1 in tty_ok t2 \<and> tt_cur t2 = tt_cur ?t1 \<and> tt_mem t2 = tt_mem ?t1 \<and>
      tt_sigpend t2 = tt_sigpend ?t1 \<and> vt_tio (vt_at i t2) = vt_tio (vt_at i ?t1) \<and>
      vt_abs (vt_at i t2) = (vt_abs (vt_at i ?t1))\<lparr> ld_line := ld_line (vt_abs (vt_at i ?t1)) @ xs \<rparr>"
    using Cons.prems a(1,2,4) ab by (intro Cons.IH) (simp_all del: vt_abs_fields)
  then show ?case using a(2,3,4,6) unfolding Let_def ab by (simp del: vt_abs_fields)
qed simp

text \<open>
  C28: What is typed is what is read. On the active terminal in canonical mode, with nothing queued,
  typing any ordinary characters (at most 1022) and a newline makes a read with a large enough
  buffer return at once with exactly these characters and the newline.
\<close>

theorem tty_line_roundtrip:
  assumes "tty_reach t" "v = vt_at (nat (tt_cur t)) t"
    and "flag (c_lflag (vt_tio v)) TTY_ICANON" "ld_line (vt_abs v) = []" "ld_queue (vt_abs v) = []"
    and "\<forall>c \<in> set xs. tty_ordinary (vt_tio v) c" "tty_plain (vt_tio v) 10"
    and "length xs \<le> TTY_LINE_MAX" "length xs < unat sz"
  shows "\<exists>t'. tty_read 0 sz buf [] (tty_input 0 10 (fold (tty_input 0) xs t)) =
      Inl (int (length xs + 1), length xs + 1, t') \<and>
    mem_read (tt_mem t') buf (length xs + 1) = xs @ [10]"
proof -
  let ?i = "nat (tt_cur t)" let ?t1 = "fold (tty_input 0) xs t" let ?t2 = "tty_input 0 10 ?t1"
  have ok: "tty_ok t" using assms(1) by (rule tty_reach_ok)
  have t1: "tty_ok ?t1" "tt_cur ?t1 = tt_cur t" "vt_tio (vt_at ?i ?t1) = vt_tio v"
    "vt_abs (vt_at ?i ?t1) = (vt_abs v)\<lparr> ld_line := xs \<rparr>"
    using tty_type_line[OF ok refl, of xs, folded assms(2), OF assms(3,6)] assms(4,8)
    by (simp_all add: Let_def assms(2) del: vt_abs_fields)
  note a = tty_input_active[OF t1(1), of 10 ?i]
  have t2: "tty_ok ?t2" "tt_cur ?t2 = tt_cur t" "vt_tio (vt_at ?i ?t2) = vt_tio v"
    using a t1 by simp_all
  have "vt_abs (vt_at ?i ?t2) = (ld_push (xs @ [10]) ((vt_abs v)\<lparr> ld_line := xs \<rparr>))\<lparr> ld_line := [] \<rparr>"
    using a(5) t1 ld_input_newline[OF assms(7,3)] by simp
  then have q: "ld_queue (vt_abs (vt_at ?i ?t2)) = xs @ [10]"
    using assms(5,8) by (simp add: ld_push_def TTY_LINE_MAX_def TTY_IBUF_def del: vt_abs_fields)
  have i: "?i < length (tt_vts ?t2)" "int ?i = tt_cur ?t2" "vt_in_ok (vt_at ?i ?t2)"
    using t2 ok by (auto simp: tty_ok_def vt_at_def)
  have nl: "10 \<notin> set xs" using assms(6) by (auto simp: tty_ordinary_def)
  obtain t' where t': "tty_read_go ?i (unat sz) 0 (unat sz) ?t2 = (TtyRet (int (0 + length xs + 1)), xs @ [10], t')"
    using tty_read_go_line[OF i(2,1,3), of xs "[]" "unat sz" "unat sz" 0] assms(3,9) t2(3) q nl by auto
  have "sz \<noteq> 0" using assms(9) by auto
  moreover have "tty_index ?t2 0 = tt_cur t" "tty_vt_range (tt_cur t)"
    using t2(2) ok by (auto simp: tty_index_def tty_vt_range_def tty_ok_def)
  ultimately have "tty_read 0 sz buf [] ?t2 =
      Inl (int (length xs + 1), length xs + 1, t'\<lparr> tt_mem := mem_write (tt_mem t') buf (xs @ [10]) \<rparr>)"
    using t' by (simp add: tty_read_def tty_read_step_def Let_def)
  moreover have "length (xs @ [10]) \<le> 2 ^ 32" using assms(8) by (simp add: TTY_LINE_MAX_def TTY_IBUF_def)
  from mem_read_write[OF this, of "tt_mem t'" buf]
  have "mem_read (mem_write (tt_mem t') buf (xs @ [10])) buf (length xs + 1) = xs @ [10]" by simp
  ultimately show ?thesis by simp
qed

lemma tty_example_plain:
  "flag (c_lflag tty_termios_default) TTY_ICANON" "tty_plain tty_termios_default 10"
  "tty_ordinary tty_termios_default 104" "tty_ordinary tty_termios_default 105"
  by (simp_all add: tty_plain_def tty_ordinary_def tty_termios_default_def flag_def)

lemma tty_example_init:
  "tty_init (\<lambda>_. True) tty_example = upd_vt 1 tty_vt_reset (tty_example\<lparr> tt_ctty := replicate TTY_CTTY_MAX (0, 0),
     tt_cur := 1, tt_num := 1, tt_ready := True, tt_nodes := [1, 0] \<rparr>)"
  by (simp add: tty_init_def tty_vt_register_def tty_vt_range_def TTY_MAX_VT_def upd_vt_def Let_def tty_example_def)

lemma tty_example_at: "vt_at 1 (tty_init (\<lambda>_. True) tty_example) = tty_example_vt"
  unfolding tty_example_init by (simp add: vt_at_def upd_vt_def tty_example_def TTY_MAX_VT_def)
    (simp add: tty_vt_reset_def tty_example_vt_def)

text \<open>Typing \<open>hi\<close> and Enter on the freshly initialised console.\<close>

theorem tty_line_roundtrip_witness:
  "\<exists>t'. tty_read 0 80 0x08000000 [] (tty_input 0 10 (fold (tty_input 0) [104, 105] (tty_init (\<lambda>_. True) tty_example))) =
      Inl (3, 3, t') \<and> mem_read (tt_mem t') 0x08000000 3 = [104, 105, 10]"
proof -
  have cur: "tt_cur (tty_init (\<lambda>_. True) tty_example) = 1"
    unfolding tty_example_init by (simp add: upd_vt_def)
  have v: "vt_tio tty_example_vt = tty_termios_default" "ld_line (vt_abs tty_example_vt) = []"
    "ld_queue (vt_abs tty_example_vt) = []"
    by (simp_all add: tty_example_vt_def vt_queue_def)
  show ?thesis
    using tty_line_roundtrip[OF tty_example_reach refl, of "[104, 105]" 80 "0x08000000"]
    unfolding cur nat_one_as_int[symmetric] nat_1 tty_example_at[simplified] v
    by (simp add: tty_example_at[simplified] v tty_example_plain numeral_3_eq_3 TTY_LINE_MAX_def TTY_IBUF_def del: vt_abs_fields)
qed

section \<open>Hidden terminals keep their output\<close>

lemma tty_write_hidden:
  assumes "1 \<le> n" "n \<le> int TTY_MAX_VT" "n \<noteq> tt_cur t" "sz \<noteq> 0" "buf \<noteq> 0" "validate_user_ptr buf sz"
  shows "tty_write n sz buf t = (int (unat sz), upd_vt (nat n) (vt_append (mem_read (tt_mem t) buf (unat sz))) t)"
  using assms by (simp add: tty_write_def tty_index_def tty_vt_range_def Let_def)

lemma tty_writes_hidden:
  assumes "vt_out_ok (vt_at (nat n) t)" "nat n < length (tt_vts t)" "1 \<le> n" "n \<le> int TTY_MAX_VT" "n \<noteq> tt_cur t"
    and "list_all (\<lambda>(sz, buf). sz \<noteq> 0 \<and> buf \<noteq> 0 \<and> validate_user_ptr buf sz) ws"
  shows "let t1 = fold (\<lambda>(sz, buf) t. snd (tty_write n sz buf t)) ws t in
    vt_text (vt_at (nat n) t1) = lastn TTY_OUTBUF (vt_text (vt_at (nat n) t) @
      concat (map (\<lambda>(sz, buf). mem_read (tt_mem t) buf (unat sz)) ws)) \<and>
    tt_cur t1 = tt_cur t \<and> tt_num t1 = tt_num t \<and> tt_fb t1 = tt_fb t \<and> tt_screen t1 = tt_screen t"
  using assms
proof (induction ws arbitrary: t)
  case Nil
  then show ?case by (auto simp: vt_text_def vt_out_ok_def lastn_def)
next
  case (Cons w ws)
  obtain sz buf where w: "w = (sz, buf)" by (cases w)
  let ?d = "mem_read (tt_mem t) buf (unat sz)"
  let ?t1 = "upd_vt (nat n) (vt_append ?d) t"
  have e: "snd (tty_write n sz buf t) = ?t1" using Cons.prems w by (subst tty_write_hidden) auto
  have at: "vt_at (nat n) ?t1 = vt_append ?d (vt_at (nat n) t)" using Cons.prems(2) by (simp add: vt_at_upd)
  have f: "tt_mem ?t1 = tt_mem t" "tt_cur ?t1 = tt_cur t" "tt_num ?t1 = tt_num t" "tt_fb ?t1 = tt_fb t"
    "tt_screen ?t1 = tt_screen t" by (simp_all add: upd_vt_def)
  have "vt_out_ok (vt_at (nat n) ?t1)" unfolding at using Cons.prems(1) by (rule vt_append_ok)
  note IH = Cons.IH[OF this, simplified length_upd_vt f, OF Cons.prems(2-5)]
  show ?case
    using IH Cons.prems(6) unfolding w at vt_append_text[OF Cons.prems(1)]
    by (simp add: e Let_def f lastn_append_lastn)
qed

lemma console_emit_all: "0 \<notin> set bs \<Longrightarrow> console_emit st bs = bs"
  by (induction st bs rule: console_emit.induct) auto

text \<open>
  C35: Output to a terminal that is not shown is not lost. In the states of C27, on a machine with a
  display, any sequence of writes of valid, non-empty user buffers to an allocated terminal that is
  hidden leaves the screen as it is. Switching to that terminal afterwards clears the screen and gives to the
  renderer its earlier text followed by everything written, up to the last 4096 bytes. The renderer
  stops at a null byte, as \<open>console_emit\<close> says; when there is none among these bytes, all of them are
  shown.
\<close>

theorem tty_hidden_output_replayed:
  assumes "tty_reach t" "1 \<le> n" "n \<le> tt_num t" "n \<noteq> tt_cur t" "tt_fb t"
    and "list_all (\<lambda>(sz, buf). sz \<noteq> 0 \<and> buf \<noteq> 0 \<and> validate_user_ptr buf sz) ws"
    and "t1 = fold (\<lambda>(sz, buf) t. snd (tty_write n sz buf t)) ws t"
    and "shown = lastn 4096 (vt_text (vt_at (nat n) t) @ concat (map (\<lambda>(sz, buf). mem_read (tt_mem t) buf (unat sz)) ws))"
  shows "tt_screen t1 = tt_screen t \<and>
    (\<exists>t2. tty_activate reg n t1 = (0, t2) \<and> tt_cur t2 = n \<and>
       tt_screen t2 = console_emit EscText shown \<and> (0 \<notin> set shown \<longrightarrow> tt_screen t2 = shown))"
proof -
  have ok: "tty_ok t" using assms(1) by (rule tty_reach_ok)
  then have n: "n \<le> int TTY_MAX_VT" "nat n < length (tt_vts t)" using assms(2,3) by (auto simp: tty_ok_def)
  then have "vt_out_ok (vt_at (nat n) t)" using ok by (auto simp: tty_ok_def vt_at_def)
  note w = tty_writes_hidden[OF this n(2) assms(2) n(1) assms(4,6), folded assms(7), unfolded Let_def]
  have "tty_activate reg n t1 = (0, vt_render (nat n) (t1\<lparr> tt_cur := n \<rparr>))"
    using w assms(2-4) n(1) by (simp add: tty_activate_def tty_vt_range_def)
  moreover have "tt_screen (vt_render (nat n) (t1\<lparr> tt_cur := n \<rparr>)) = console_emit EscText (vt_text (vt_at (nat n) t1))"
    using w assms(5) by (simp add: vt_render_def vt_text_def vt_at_def)
  moreover have "tt_cur (vt_render (nat n) (t1\<lparr> tt_cur := n \<rparr>)) = n" by (simp add: vt_render_def)
  ultimately show ?thesis using w assms(8) console_emit_all[of shown] by (simp add: TTY_OUTBUF_def)
qed

text \<open>Two terminals, the second one shown.\<close>

definition tty_example2 :: tty_state where
  "tty_example2 = tty_console_task (\<lambda>_. True) (tty_activate_deferred 2 (tty_init (\<lambda>_. True) tty_example))"

lemma tty_example2_reach: "tty_reach tty_example2"
  unfolding tty_example2_def by (intro reach_task reach_deferred tty_example_reach)

lemma tty_example2_fields:
  "tt_cur tty_example2 = 2" "tt_num tty_example2 = 2" "tt_fb tty_example2"
  "tt_mem tty_example2 = (\<lambda>_. 65)" "vt_text (vt_at 1 tty_example2) = []"
  unfolding tty_example2_def tty_example_init
  by (simp_all add: tty_console_task_def tty_activate_deferred_def tty_activate_def tty_vt_range_def tty_alloc_def
      tty_vt_register_def upd_vt_def vt_render_def vt_at_def TTY_MAX_VT_def tty_example_def tty_example_vt_def
      vt_text_def tty_vt_reset_def Let_def)

theorem tty_hidden_output_replayed_witness:
  "\<exists>t2. tty_activate (\<lambda>_. True) 1 (snd (tty_write 1 2 0x08000000 tty_example2)) = (0, t2) \<and> tt_screen t2 = [65, 65]"
proof -
  have "lastn 4096 (mem_read (\<lambda>_. 65) 0x08000000 2) = [65, 65]"
    by (simp add: lastn_def mem_read_def upt_rec)
  then show ?thesis
    using tty_hidden_output_replayed[OF tty_example2_reach, of 1 "[(2, 0x08000000)]", OF _ _ _ _ _ refl refl]
    by (auto simp: tty_example2_fields tty_example2_fields(5)[simplified] validate_user_ptr_def in_user_def KERNEL_BASE_def USER_SPACE_START_def)
qed

section \<open>What a canonical read does without a newline\<close>

lemma tty_read_go_partial:
  assumes "int i = tt_cur t" "i < length (tt_vts t)" "vt_in_ok (vt_at i t)"
    and "flag (c_lflag (vt_tio (vt_at i t))) TTY_ICANON" "\<not> vt_eof (vt_at i t)"
    and "vt_queue (vt_at i t) = l" "10 \<notin> set l" "length l < m" "m \<le> sz"
  shows "\<exists>t'. tty_read_go i sz k m t =
      (if tt_sigpend t AND NOT (SIGCHLD OR SIGWINCH) \<noteq> 0 then TtyRet (- EINTR) else TtySleep, l, t') \<and>
    vt_queue (vt_at i t') = []"
  using assms
proof (induction l arbitrary: k m t)
  case Nil
  obtain m' where m': "m = Suc m'" using Nil.prems(8) by (cases m) auto
  have "vt_in_rd (vt_at i t) = vt_in_wr (vt_at i t)"
    using tq.pop_none[OF Nil.prems(3)] Nil.prems(6) by (simp add: vt_pop_def split: if_splits)
  then show ?case using Nil.prems unfolding m' by simp
next
  case (Cons x l)
  obtain m' where m': "m = Suc m'" using Cons.prems(8) by (cases m) auto
  obtain c v' where p: "vt_pop (vt_at i t) = Some (c, v')"
    using tq.pop_none[OF Cons.prems(3)] Cons.prems(6) by (cases "vt_pop (vt_at i t)") auto
  have c: "c = x" "vt_queue v' = l" "vt_in_ok v'"
    using tq.pop_some[OF Cons.prems(3) p] Cons.prems(6) by auto
  have eof: "vt_eof v' = vt_eof (vt_at i t)" using p by (auto simp: vt_pop_def split: if_splits)
  note at = vt_at_pop[OF Cons.prems(2) p]
  let ?t1 = "upd_vt i (\<lambda>v. v\<lparr> vt_in_rd := (vt_in_rd v + 1) mod TTY_IBUF \<rparr>) t"
  have "int i = tt_cur ?t1" "i < length (tt_vts ?t1)" "vt_in_ok (vt_at i ?t1)"
    "flag (c_lflag (vt_tio (vt_at i ?t1))) TTY_ICANON" "\<not> vt_eof (vt_at i ?t1)"
    "vt_queue (vt_at i ?t1) = l" "tt_sigpend ?t1 = tt_sigpend t"
    using Cons.prems at c eof by (simp_all add: upd_vt_def)
  then obtain t' where t': "tty_read_go i sz (k + 1) m' ?t1 =
      (if tt_sigpend t AND NOT (SIGCHLD OR SIGWINCH) \<noteq> 0 then TtyRet (- EINTR) else TtySleep, l, t')"
      "vt_queue (vt_at i t') = []"
    using Cons.IH[of ?t1 m' "k + 1"] Cons.prems(7-9) m' by auto
  have go: "\<not> (c = 10 \<or> sz \<le> 1 \<or> (\<not> flag (c_lflag (vt_tio (vt_at i ?t1))) TTY_ICANON \<and>
      vt_in_rd (vt_at i ?t1) = vt_in_wr (vt_at i ?t1)))"
    using c(1) Cons.prems(4,7-9) at by auto
  have "tty_read_go i sz k m t =
      (if tt_sigpend t AND NOT (SIGCHLD OR SIGWINCH) \<noteq> 0 then TtyRet (- EINTR) else TtySleep, x # l, t')"
    unfolding m' tty_read_go.simps(2) Let_def at(2)[symmetric] if_not_P[OF go] t'(1)
    using Cons.prems(1) at c by simp
  then show ?case using t' by simp
qed

text \<open>
  An end-of-file character typed after some text moves that text to the queue, but a reader that
  wants more bytes than were typed does not get it: it takes them and goes back to sleep, since only
  a newline or a full buffer ends a canonical read.
\<close>

lemma tty_eof_midline_not_delivered:
  assumes "tty_ok t" "flag (c_lflag (vt_tio (vt_at (nat (tt_cur t)) t))) TTY_ICANON" "\<not> vt_eof (vt_at (nat (tt_cur t)) t)"
    and "vt_queue (vt_at (nat (tt_cur t)) t) = l" "10 \<notin> set l" "length l < unat sz"
    and "tt_sigpend t AND NOT (SIGCHLD OR SIGWINCH) = 0"
  shows "\<exists>t'. tty_read 0 sz buf [] t = Inr (length l, t')"
proof -
  have i: "nat (tt_cur t) < length (tt_vts t)" "int (nat (tt_cur t)) = tt_cur t" "tty_vt_range (tt_cur t)"
    using assms(1) by (auto simp: tty_ok_def tty_vt_range_def)
  then have "vt_in_ok (vt_at (nat (tt_cur t)) t)" using assms(1) by (auto simp: tty_ok_def vt_at_def)
  from tty_read_go_partial[OF i(2,1) this assms(2-6) order.refl, of 0]
  obtain t' where "tty_read_go (nat (tt_cur t)) (unat sz) 0 (unat sz) t = (TtySleep, l, t')"
    using assms(7) by auto
  moreover have "sz \<noteq> 0" using assms(6) by auto
  ultimately show ?thesis
    using i by (simp add: tty_read_def tty_read_step_def tty_index_def Let_def)
qed

text \<open>A signal that arrives then makes the read fail, and the bytes it had taken are gone.\<close>

lemma tty_eintr_loses_bytes:
  assumes "tty_ok t" "flag (c_lflag (vt_tio (vt_at (nat (tt_cur t)) t))) TTY_ICANON" "\<not> vt_eof (vt_at (nat (tt_cur t)) t)"
    and "vt_queue (vt_at (nat (tt_cur t)) t) = l" "10 \<notin> set l" "length l < unat sz"
    and "tt_sigpend t AND NOT (SIGCHLD OR SIGWINCH) \<noteq> 0"
  shows "\<exists>t'. tty_read 0 sz buf [] t = Inl (- EINTR, length l, t') \<and> vt_queue (vt_at (nat (tt_cur t)) t') = []"
proof -
  have i: "nat (tt_cur t) < length (tt_vts t)" "int (nat (tt_cur t)) = tt_cur t" "tty_vt_range (tt_cur t)"
    using assms(1) by (auto simp: tty_ok_def tty_vt_range_def)
  then have "vt_in_ok (vt_at (nat (tt_cur t)) t)" using assms(1) by (auto simp: tty_ok_def vt_at_def)
  from tty_read_go_partial[OF i(2,1) this assms(2-6) order.refl, of 0]
  obtain t' where "tty_read_go (nat (tt_cur t)) (unat sz) 0 (unat sz) t = (TtyRet (- EINTR), l, t')"
      "vt_queue (vt_at (nat (tt_cur t)) t') = []"
    using assms(7) by auto
  moreover have "sz \<noteq> 0" using assms(6) by auto
  ultimately show ?thesis
    using i by (simp add: tty_read_def tty_read_step_def tty_index_def Let_def vt_at_def)
qed

end
