(* ===== verification/Devfs.thy ===== *)
theory Devfs
  imports Prelude "HOL-Library.AList"
begin

text \<open>
  The device filesystem of \<open>Cact/fs/vfs/devfs/devfs.c\<close>: the entries of \<open>/dev\<close>, their group
  directories, symlinks and compatibility links, path resolution, registration and removal.

  An entry is named by its address. The list \<open>dv_list\<close> is the C list with the newest entry first;
  addresses come from a counter, so an entry that was freed is never an address of the list again
  and a pointer that is left behind is visible as an address that is not there. \<open>dv_oom k\<close> says
  whether the allocation number \<open>k\<close> fails, \<open>dv_freed\<close> lists the addresses given to \<open>kfree\<close>. Names
  are the bytes before the terminator; \<open>strlcpy(dst, s, n)\<close> keeps the first \<open>n - 1\<close> of them.
\<close>

section \<open>State\<close>

abbreviation (input) DEVFS_F_BLOCK :: u32 where "DEVFS_F_BLOCK \<equiv> 0x02"
abbreviation (input) DEVFS_F_CHAR :: u32 where "DEVFS_F_CHAR \<equiv> 0x04"
abbreviation (input) DEVFS_F_DIR :: u32 where "DEVFS_F_DIR \<equiv> 0x08"
abbreviation (input) DEVFS_F_LINK :: u32 where "DEVFS_F_LINK \<equiv> 0x10"
abbreviation (input) VFS_DIRECTORY :: nat where "VFS_DIRECTORY \<equiv> 2"
abbreviation (input) VFS_CHARDEVICE :: nat where "VFS_CHARDEVICE \<equiv> 3"
abbreviation (input) VFS_BLOCKDEVICE :: nat where "VFS_BLOCKDEVICE \<equiv> 4"
abbreviation (input) VFS_SYMLINK :: nat where "VFS_SYMLINK \<equiv> 7"
abbreviation (input) DEVFS_MAX_EXTRA :: nat where "DEVFS_MAX_EXTRA \<equiv> 24"

text \<open>A driver's table; every method is optional. \<open>'s\<close> is the state the driver works on.\<close>

record 's devfs_driver =
  drv_read :: "(nat \<Rightarrow> u32 \<Rightarrow> u32 \<Rightarrow> 's \<Rightarrow> int \<times> bytes \<times> 's) option"
  drv_write :: "(nat \<Rightarrow> u32 \<Rightarrow> bytes \<Rightarrow> 's \<Rightarrow> int \<times> 's) option"
  drv_ioctl :: "(nat \<Rightarrow> u32 \<Rightarrow> u32 \<Rightarrow> 's \<Rightarrow> int \<times> 's) option"
  drv_walk :: "(nat \<Rightarrow> bytes \<Rightarrow> nat option) option"
  drv_readdir :: "(nat \<Rightarrow> u32 \<Rightarrow> (bytes \<times> u32) option) option"

datatype node_ops = NoOps | DataOps | SubdirOps | GroupOps

record dev_node =
  dn_name :: bytes
  dn_type :: nat
  dn_mode :: nat
  dn_size :: u32
  dn_ops :: node_ops

record 's devfs_entry =
  de_name :: bytes
  de_flags :: u32
  de_drv :: "'s devfs_driver option"
  de_priv :: nat
  de_node :: dev_node
  de_parent :: "nat option"
  de_compat :: "nat option"
  de_link :: bytes

record 's devfs =
  dv_list :: "(nat \<times> 's devfs_entry) list"
  dv_next :: nat
  dv_oom :: "nat \<Rightarrow> bool"
  dv_freed :: "nat list"
  dv_extra :: "(bytes \<times> nat) list"

definition dv_at :: "nat \<Rightarrow> 's devfs \<Rightarrow> 's devfs_entry option" where
  "dv_at a st = map_of (dv_list st) a"

definition dv_upd :: "nat \<Rightarrow> ('s devfs_entry \<Rightarrow> 's devfs_entry) \<Rightarrow> 's devfs \<Rightarrow> 's devfs" where
  "dv_upd a f st = st\<lparr> dv_list := map (\<lambda>(b, e). (b, if b = a then f e else e)) (dv_list st) \<rparr>"

section \<open>Node operations\<close>

definition data_read :: "'s devfs_entry \<Rightarrow> u32 \<Rightarrow> u32 \<Rightarrow> 's \<Rightarrow> int \<times> bytes \<times> 's" where
  "data_read e off sz s = (case de_drv e of None \<Rightarrow> (-1, [], s)
     | Some d \<Rightarrow> (case drv_read d of None \<Rightarrow> (-1, [], s) | Some f \<Rightarrow> f (de_priv e) off sz s))"

definition data_write :: "'s devfs_entry \<Rightarrow> u32 \<Rightarrow> bytes \<Rightarrow> 's \<Rightarrow> int \<times> 's" where
  "data_write e off buf s = (case de_drv e of None \<Rightarrow> (-1, s)
     | Some d \<Rightarrow> (case drv_write d of None \<Rightarrow> (-1, s) | Some f \<Rightarrow> f (de_priv e) off buf s))"

definition data_ioctl :: "'s devfs_entry \<Rightarrow> u32 \<Rightarrow> u32 \<Rightarrow> 's \<Rightarrow> int \<times> 's" where
  "data_ioctl e cmd arg s = (case de_drv e of None \<Rightarrow> (-1, s)
     | Some d \<Rightarrow> (case drv_ioctl d of None \<Rightarrow> (-1, s) | Some f \<Rightarrow> f (de_priv e) cmd arg s))"

definition subdir_walk :: "'s devfs_entry \<Rightarrow> bytes \<Rightarrow> nat option" where
  "subdir_walk e name = (case de_drv e of None \<Rightarrow> None
     | Some d \<Rightarrow> (case drv_walk d of None \<Rightarrow> None | Some f \<Rightarrow> f (de_priv e) name))"

definition subdir_readdir :: "'s devfs_entry \<Rightarrow> u32 \<Rightarrow> (bytes \<times> u32) option" where
  "subdir_readdir e index = (case de_drv e of None \<Rightarrow> None
     | Some d \<Rightarrow> (case drv_readdir d of None \<Rightarrow> None | Some f \<Rightarrow> f (de_priv e) index))"

text \<open>The first entry with this parent and name (\<open>_find_in\<close>; \<open>None\<close> is the root).\<close>

fun find_in_list :: "nat option \<Rightarrow> bytes \<Rightarrow> (nat \<times> 's devfs_entry) list \<Rightarrow> nat option" where
  "find_in_list par name [] = None"
| "find_in_list par name ((a, e) # es) =
     (if de_parent e = par \<and> de_name e = name then Some a else find_in_list par name es)"

definition find_in :: "nat option \<Rightarrow> bytes \<Rightarrow> 's devfs \<Rightarrow> nat option" where
  "find_in par name st = find_in_list par name (dv_list st)"

definition group_walk :: "nat \<Rightarrow> bytes \<Rightarrow> 's devfs \<Rightarrow> nat option" where
  "group_walk g name st = find_in_list (Some g) name (dv_list st)"

text \<open>The scan of a directory: the entry found, or the next index.\<close>

fun dir_scan :: "nat option \<Rightarrow> nat \<Rightarrow> nat \<Rightarrow> (nat \<times> 's devfs_entry) list \<Rightarrow> (bytes \<times> nat) + nat" where
  "dir_scan par i index [] = Inr i"
| "dir_scan par i index ((a, e) # es) =
     (if de_parent e \<noteq> par then dir_scan par i index es
      else if i = index then Inl (take 127 (de_name e), i + 1)
      else dir_scan par (i + 1) index es)"

definition group_readdir :: "nat \<Rightarrow> nat \<Rightarrow> 's devfs \<Rightarrow> (bytes \<times> nat) option" where
  "group_readdir g index st = (case dir_scan (Some g) 0 index (dv_list st) of Inl r \<Rightarrow> Some r | Inr _ \<Rightarrow> None)"

datatype dev_walked = WModinfo | WEntry nat | WExtra nat

definition root_walk :: "bytes \<Rightarrow> 's devfs \<Rightarrow> dev_walked option" where
  "root_walk name st =
     (if name = cs ''modinfo'' then Some WModinfo
      else case find_in_list None name (dv_list st) of Some a \<Rightarrow> Some (WEntry a)
      | None \<Rightarrow> map_option WExtra (map_of (dv_extra st) name))"

fun extra_scan :: "nat \<Rightarrow> nat \<Rightarrow> (bytes \<times> nat) list \<Rightarrow> (bytes \<times> nat) option" where
  "extra_scan i index [] = None"
| "extra_scan i index ((n, a) # es) =
     (if i = index then Some (take 127 n, i + 1) else extra_scan (i + 1) index es)"

definition root_readdir :: "nat \<Rightarrow> 's devfs \<Rightarrow> (bytes \<times> nat) option" where
  "root_readdir index st =
     (if index = 0 then Some (cs ''modinfo'', 0)
      else case dir_scan None 1 index (dv_list st) of Inl r \<Rightarrow> Some r
      | Inr i \<Rightarrow> extra_scan i index (dv_extra st))"

section \<open>Entries\<close>

definition fill_entry :: "'s devfs_entry \<Rightarrow> 's devfs_entry" where
  "fill_entry e =
     (let n = \<lparr> dn_name = take 127 (de_name e), dn_type = 0, dn_mode = 0, dn_size = 0, dn_ops = NoOps \<rparr> in
      e\<lparr> de_node :=
        (if flag (de_flags e) DEVFS_F_LINK then
           n\<lparr> dn_type := VFS_SYMLINK, dn_mode := 511, dn_size := word_of_nat (length (de_link e)) \<rparr>
         else if flag (de_flags e) DEVFS_F_DIR then
           n\<lparr> dn_type := VFS_DIRECTORY,
              dn_ops := (case de_drv e of Some _ \<Rightarrow> SubdirOps | None \<Rightarrow> GroupOps) \<rparr>
         else
           n\<lparr> dn_type := (if flag (de_flags e) DEVFS_F_BLOCK then VFS_BLOCKDEVICE else VFS_CHARDEVICE),
              dn_ops := DataOps \<rparr>) \<rparr>)"

definition devfs_find :: "bytes \<Rightarrow> 's devfs \<Rightarrow> nat option" where
  "devfs_find name st = map_option fst (find (\<lambda>(a, e). de_name e = name) (dv_list st))"

definition unlink_entry :: "nat \<Rightarrow> 's devfs \<Rightarrow> 's devfs" where
  "unlink_entry a st = st\<lparr> dv_list := filter (\<lambda>p. fst p \<noteq> a) (dv_list st) \<rparr>"

definition dev_kfree :: "nat \<Rightarrow> 's devfs \<Rightarrow> 's devfs" where
  "dev_kfree a st = st\<lparr> dv_freed := a # dv_freed st \<rparr>"

definition new_entry ::
  "nat option \<Rightarrow> bytes \<Rightarrow> u32 \<Rightarrow> 's devfs_driver option \<Rightarrow> nat \<Rightarrow> 's devfs \<Rightarrow> nat option \<times> 's devfs" where
  "new_entry par name flags drv priv st =
     (let a = dv_next st; st1 = st\<lparr> dv_next := a + 1 \<rparr> in
      if dv_oom st a then (None, st1)
      else let e = fill_entry \<lparr> de_name = take 63 name, de_flags = flags, de_drv = drv, de_priv = priv,
               de_node = \<lparr> dn_name = [], dn_type = 0, dn_mode = 0, dn_size = 0, dn_ops = NoOps \<rparr>,
               de_parent = par, de_compat = None, de_link = [] \<rparr>
           in (Some a, st1\<lparr> dv_list := (a, e) # dv_list st \<rparr>))"

section \<open>Paths\<close>

text \<open>
  One component: slashes are skipped, then at most 63 characters up to the next slash are taken. A
  longer component is cut there and its rest is taken for the next component.
\<close>

definition path_comp :: "bytes \<Rightarrow> bytes \<times> bytes" where
  "path_comp p =
     (let q = dropWhile (\<lambda>c. c = 47) p; seg = take 63 (takeWhile (\<lambda>c. c \<noteq> 47) q)
      in (seg, drop (length seg) q))"

lemma length_path_comp: "path_comp p = (seg, rest) \<Longrightarrow> seg \<noteq> [] \<Longrightarrow> length rest < length p"
proof -
  assume a: "path_comp p = (seg, rest)" "seg \<noteq> []"
  let ?q = "dropWhile (\<lambda>c. c = 47) p"
  have e: "seg = take 63 (takeWhile (\<lambda>c. c \<noteq> 47) ?q)" "rest = drop (length seg) ?q"
    using a(1) by (auto simp: path_comp_def Let_def)
  have "length ?q \<le> length p" by (simp add: length_dropWhile_le)
  moreover have "length seg \<le> length ?q" unfolding e(1) using length_takeWhile_le[of "\<lambda>c. c \<noteq> 47" ?q] by simp
  moreover have "0 < length seg" using a(2) by simp
  ultimately show ?thesis unfolding e(2) length_drop by linarith
qed

function resolve_dir :: "bool \<Rightarrow> bytes \<Rightarrow> nat option \<Rightarrow> 's devfs \<Rightarrow> nat option \<times> 's devfs" where
  "resolve_dir create p par st =
     (let (seg, rest) = path_comp p in
      if seg = [] then (par, st)
      else case find_in par seg st of
        Some d \<Rightarrow> resolve_dir create rest (Some d) st
      | None \<Rightarrow>
          if \<not> create then (None, st)
          else case new_entry par seg DEVFS_F_DIR None 0 st of
            (None, st1) \<Rightarrow> (None, st1)
          | (Some d, st1) \<Rightarrow> resolve_dir create rest (Some d) st1)"
  by pat_completeness auto
termination
  by (relation "measure (\<lambda>(create, p, par, st). length p)") (auto dest: length_path_comp[OF sym])

declare resolve_dir.simps [simp del]

definition devfs_mkdir :: "bytes \<Rightarrow> 's devfs \<Rightarrow> nat option \<times> 's devfs" where
  "devfs_mkdir path st = (if path = [] then (None, st) else resolve_dir True path None st)"

text \<open>The position of the last slash.\<close>

fun last_slash :: "nat \<Rightarrow> bytes \<Rightarrow> nat option \<Rightarrow> nat option" where
  "last_slash i [] r = r"
| "last_slash i (c # p) r = last_slash (i + 1) p (if c = 47 then Some i else r)"

definition split_path :: "bool \<Rightarrow> bytes \<Rightarrow> 's devfs \<Rightarrow> (bytes \<times> nat option) option \<times> 's devfs" where
  "split_path create name st =
     (case last_slash 0 name None of
        None \<Rightarrow> (Some (name, None), st)
      | Some dl \<Rightarrow>
          if dl = 0 \<or> dl \<ge> 64 then (None, st)
          else case resolve_dir create (take dl name) None st of
            (None, st1) \<Rightarrow> (None, st1)
          | (Some d, st1) \<Rightarrow> (Some (drop (dl + 1) name, Some d), st1))"

section \<open>Registration and removal\<close>

definition register_chrdev ::
  "bytes \<Rightarrow> u32 \<Rightarrow> 's devfs_driver option \<Rightarrow> nat \<Rightarrow> 's devfs \<Rightarrow> nat option \<times> 's devfs" where
  "register_chrdev name flags drv priv st =
     (if name = [] \<or> Option.is_none drv then (None, st)
      else case split_path True name st of
        (None, st1) \<Rightarrow> (None, st1)
      | (Some (leaf, par), st1) \<Rightarrow>
          if leaf = [] then (None, st1)
          else if find_in par leaf st1 \<noteq> None then (None, st1)
          else case new_entry par leaf flags drv priv st1 of
            (None, st2) \<Rightarrow> (None, st2)
          | (Some a, st2) \<Rightarrow>
              if par \<noteq> None \<and> find_in None leaf st2 = None then
                (case new_entry None leaf DEVFS_F_LINK None 0 st2 of
                   (None, st3) \<Rightarrow> (Some a, st3)
                 | (Some c, st3) \<Rightarrow>
                     (Some a, dv_upd a (\<lambda>e. e\<lparr> de_compat := Some c \<rparr>)
                        (dv_upd c (\<lambda>e. fill_entry (e\<lparr> de_link := take 127 name \<rparr>)) st3)))
              else (Some a, st2))"

definition remove_path :: "bool \<Rightarrow> bytes \<Rightarrow> 's devfs \<Rightarrow> int \<times> 's devfs" where
  "remove_path allow_dir path st =
     (if path = [] then (-1, st)
      else case split_path False path st of
        (None, st1) \<Rightarrow> (-1, st1)
      | (Some (leaf, par), st1) \<Rightarrow>
          if leaf = [] then (-1, st1)
          else case find_in par leaf st1 of
            None \<Rightarrow> (-1, st1)
          | Some a \<Rightarrow>
              (case dv_at a st1 of None \<Rightarrow> (-1, st1)
               | Some e \<Rightarrow>
                  if \<not> allow_dir \<and> flag (de_flags e) DEVFS_F_DIR then (-1, st1)
                  else let st2 = dev_kfree a (unlink_entry a st1) in
                    (0, case de_compat e of None \<Rightarrow> st2 | Some c \<Rightarrow> dev_kfree c (unlink_entry c st2))))"

definition unregister_chrdev :: "bytes \<Rightarrow> 's devfs \<Rightarrow> int \<times> 's devfs" where
  "unregister_chrdev name st = remove_path True name st"

definition devfs_remove :: "bytes \<Rightarrow> 's devfs \<Rightarrow> int \<times> 's devfs" where
  "devfs_remove path st = remove_path False path st"

definition devfs_symlink :: "bytes \<Rightarrow> bytes \<Rightarrow> 's devfs \<Rightarrow> nat option \<times> 's devfs" where
  "devfs_symlink path target st =
     (if path = [] \<or> target = [] then (None, st)
      else case split_path True path st of
        (None, st1) \<Rightarrow> (None, st1)
      | (Some (leaf, par), st1) \<Rightarrow>
          if leaf = [] then (None, st1)
          else
            (case (case find_in par leaf st1 of
                     Some a \<Rightarrow> (if (case dv_at a st1 of None \<Rightarrow> True | Some e \<Rightarrow> \<not> flag (de_flags e) DEVFS_F_LINK)
                                then (None, st1) else (Some a, st1))
                   | None \<Rightarrow> new_entry par leaf DEVFS_F_LINK None 0 st1) of
               (None, st2) \<Rightarrow> (None, st2)
             | (Some a, st2) \<Rightarrow> (Some a, dv_upd a (\<lambda>e. fill_entry (e\<lparr> de_link := take 127 target \<rparr>)) st2)))"

definition devfs_add_node :: "bytes \<Rightarrow> nat \<Rightarrow> 's devfs \<Rightarrow> int \<times> 's devfs" where
  "devfs_add_node name node st =
     (if length (dv_extra st) \<ge> DEVFS_MAX_EXTRA then (-1, st)
      else if devfs_find name st \<noteq> None then (-1, st)
      else if map_of (dv_extra st) name \<noteq> None then (-1, st)
      else (0, st\<lparr> dv_extra := dv_extra st @ [(name, node)] \<rparr>))"

section \<open>Invariant\<close>

definition dv_live :: "'s devfs \<Rightarrow> nat set" where
  "dv_live st = fst ` set (dv_list st)"

definition de_key :: "nat \<times> 's devfs_entry \<Rightarrow> nat option \<times> bytes" where
  "de_key p = (de_parent (snd p), de_name (snd p))"

text \<open>
  Addresses are distinct and from the counter, nothing that was freed is listed and nothing was freed
  twice, the parent of an entry is a listed, older entry, a name occurs once in a directory, and the
  compatibility link of an entry is listed and belongs to it alone.
\<close>

definition dv_ok :: "'s devfs \<Rightarrow> bool" where
  "dv_ok st \<longleftrightarrow>
     distinct (map fst (dv_list st)) \<and> (\<forall>a \<in> dv_live st. a < dv_next st) \<and>
     distinct (dv_freed st) \<and> (\<forall>a \<in> set (dv_freed st). a < dv_next st \<and> a \<notin> dv_live st) \<and>
     (\<forall>p \<in> set (dv_list st). \<forall>q. de_parent (snd p) = Some q \<longrightarrow> q \<in> dv_live st \<and> q < fst p) \<and>
     distinct (map de_key (dv_list st)) \<and>
     (\<forall>p \<in> set (dv_list st). \<forall>c. de_compat (snd p) = Some c \<longrightarrow> c \<in> dv_live st \<and> c \<noteq> fst p \<and>
        (\<forall>r \<in> set (dv_list st). de_compat (snd r) = Some c \<longrightarrow> fst r = fst p))"

definition par_ok :: "'s devfs \<Rightarrow> nat option \<Rightarrow> bool" where
  "par_ok st par \<longleftrightarrow> (case par of None \<Rightarrow> True | Some d \<Rightarrow> d \<in> dv_live st)"

section \<open>Lookup\<close>

lemma find_in_list_Some:
  "find_in_list par name es = Some a \<Longrightarrow> \<exists>e. (a, e) \<in> set es \<and> de_parent e = par \<and> de_name e = name"
  by (induction par name es rule: find_in_list.induct) (auto split: if_splits)

lemma find_in_list_None:
  "find_in_list par name es = None \<longleftrightarrow> (\<forall>p \<in> set es. de_key p \<noteq> (par, name))"
  by (induction par name es rule: find_in_list.induct) (auto simp: de_key_def)

lemma find_in_list_iff:
  assumes "distinct (map de_key es)"
  shows "find_in_list par name es = Some a \<longleftrightarrow> (\<exists>e. (a, e) \<in> set es \<and> de_parent e = par \<and> de_name e = name)"
  using assms
proof (induction par name es rule: find_in_list.induct)
  case (2 par name b f es)
  show ?case
  proof (cases "de_parent f = par \<and> de_name f = name")
    case True
    then have "\<forall>p \<in> set es. de_key p \<noteq> (par, name)" using 2(2) by (auto simp: de_key_def image_iff)
    then show ?thesis using True by (force simp: de_key_def)
  next
    case False
    then show ?thesis using 2 by auto
  qed
qed simp

lemma find_in_live: "find_in par name st = Some a \<Longrightarrow> a \<in> dv_live st"
  unfolding find_in_def dv_live_def by (force dest: find_in_list_Some)

lemma dv_at_in: "dv_at a st = Some e \<Longrightarrow> (a, e) \<in> set (dv_list st)"
  unfolding dv_at_def by (rule map_of_SomeD)

lemma dv_at_live: "a \<in> dv_live st \<Longrightarrow> \<exists>e. dv_at a st = Some e"
  unfolding dv_at_def dv_live_def by (metis map_of_eq_None_iff not_None_eq)

section \<open>New entries\<close>

lemma fill_entry_fields [simp]:
  "de_name (fill_entry e) = de_name e" "de_parent (fill_entry e) = de_parent e"
  "de_compat (fill_entry e) = de_compat e" "de_drv (fill_entry e) = de_drv e"
  "de_flags (fill_entry e) = de_flags e" "de_priv (fill_entry e) = de_priv e" "de_link (fill_entry e) = de_link e"
  by (simp_all add: fill_entry_def Let_def)

lemma new_entry_cases:
  obtains (oom) "new_entry par name flags drv priv st = (None, st\<lparr> dv_next := Suc (dv_next st) \<rparr>)"
  | (new) e where "new_entry par name flags drv priv st =
        (Some (dv_next st), st\<lparr> dv_next := Suc (dv_next st), dv_list := (dv_next st, e) # dv_list st \<rparr>)"
      "de_name e = take 63 name" "de_parent e = par" "de_compat e = None" "de_drv e = drv" "de_priv e = priv"
      "de_flags e = flags"
  by (cases "dv_oom st (dv_next st)") (auto simp: new_entry_def Let_def)

lemmas dv_okD =
  dv_ok_def[THEN iffD1, THEN conjunct1]
  dv_ok_def[THEN iffD1, THEN conjunct2, THEN conjunct1, rule_format]
  dv_ok_def[THEN iffD1, THEN conjunct2, THEN conjunct2, THEN conjunct1]
  dv_ok_def[THEN iffD1, THEN conjunct2, THEN conjunct2, THEN conjunct2, THEN conjunct1, rule_format]
  dv_ok_def[THEN iffD1, THEN conjunct2, THEN conjunct2, THEN conjunct2, THEN conjunct2, THEN conjunct1, rule_format]
  dv_ok_def[THEN iffD1, THEN conjunct2, THEN conjunct2, THEN conjunct2, THEN conjunct2, THEN conjunct2, THEN conjunct1]
  dv_ok_def[THEN iffD1, THEN conjunct2, THEN conjunct2, THEN conjunct2, THEN conjunct2, THEN conjunct2, THEN conjunct2, rule_format]

lemma dv_ok_next:
  assumes ok: "dv_ok st"
  shows "dv_ok (st\<lparr> dv_next := Suc (dv_next st) \<rparr>)" (is "dv_ok ?st")
proof -
  have same: "dv_list ?st = dv_list st" "dv_freed ?st = dv_freed st" "dv_live ?st = dv_live st"
    "dv_next ?st = Suc (dv_next st)" by (simp_all add: dv_live_def)
  have "\<forall>a \<in> dv_live st. a < Suc (dv_next st)" "\<forall>a \<in> set (dv_freed st). a < Suc (dv_next st) \<and> a \<notin> dv_live st"
    using dv_okD(2,4)[OF ok] less_SucI by blast+
  then show ?thesis using ok unfolding dv_ok_def same by argo
qed

lemma dv_ok_insert:
  assumes ok: "dv_ok st" and "de_compat e = None" "par_ok st (de_parent e)"
    and "\<forall>p \<in> set (dv_list st). de_key p \<noteq> de_key (0, e)"
  shows "dv_ok (st\<lparr> dv_next := Suc (dv_next st), dv_list := (dv_next st, e) # dv_list st \<rparr>)" (is "dv_ok ?st")
proof -
  have live: "dv_live ?st = insert (dv_next st) (dv_live st)" by (simp add: dv_live_def)
  have fresh: "dv_next st \<notin> dv_live st" "dv_next st \<notin> set (dv_freed st)"
    using dv_okD(2,4)[OF ok] by blast+
  have par: "q \<in> dv_live st \<and> q < dv_next st" if "de_parent e = Some q" for q
    using assms(3) dv_okD(2)[OF ok] that by (simp add: par_ok_def)
  show ?thesis
    unfolding dv_ok_def live
  proof (intro conjI)
    show "distinct (map fst (dv_list ?st))" using dv_okD(1)[OF ok] fresh by (simp add: dv_live_def)
    show "\<forall>a \<in> insert (dv_next st) (dv_live st). a < dv_next ?st" using dv_okD(2)[OF ok] by (simp add: less_Suc_eq)
    show "distinct (dv_freed ?st)" using dv_okD(3)[OF ok] by simp
    show "\<forall>a \<in> set (dv_freed ?st). a < dv_next ?st \<and> a \<notin> insert (dv_next st) (dv_live st)"
      using dv_okD(4)[OF ok] by (auto simp: less_Suc_eq)
    show "\<forall>p \<in> set (dv_list ?st). \<forall>q. de_parent (snd p) = Some q \<longrightarrow> q \<in> insert (dv_next st) (dv_live st) \<and> q < fst p"
      using dv_okD(5)[OF ok] par by fastforce
    have "de_key (dv_next st, e) \<notin> de_key ` set (dv_list st)" using assms(4) by (auto simp: de_key_def)
    then show "distinct (map de_key (dv_list ?st))" using dv_okD(6)[OF ok] by simp
    show "\<forall>p \<in> set (dv_list ?st). \<forall>c. de_compat (snd p) = Some c \<longrightarrow> c \<in> insert (dv_next st) (dv_live st) \<and> c \<noteq> fst p \<and>
        (\<forall>r \<in> set (dv_list ?st). de_compat (snd r) = Some c \<longrightarrow> fst r = fst p)"
    proof (intro ballI allI impI)
      fix p c assume "p \<in> set (dv_list ?st)" and c: "de_compat (snd p) = Some c"
      then have p: "p \<in> set (dv_list st)" using assms(2) by auto
      note k = dv_okD(7)[OF ok p c]
      then have "\<forall>r \<in> set (dv_list ?st). de_compat (snd r) = Some c \<longrightarrow> fst r = fst p"
        using assms(2) by auto
      then show "c \<in> insert (dv_next st) (dv_live st) \<and> c \<noteq> fst p \<and>
          (\<forall>r \<in> set (dv_list ?st). de_compat (snd r) = Some c \<longrightarrow> fst r = fst p)" using k by blast
    qed
  qed
qed

lemma new_entry_ok:
  assumes "dv_ok st" "par_ok st par" "find_in par (take 63 name) st = None"
    and "new_entry par name flags drv priv st = (r, st')"
  shows "dv_ok st'" "dv_live st \<subseteq> dv_live st'" "\<forall>a. r = Some a \<longrightarrow> a \<in> dv_live st'"
proof -
  have "dv_ok st' \<and> dv_live st \<subseteq> dv_live st' \<and> (\<forall>a. r = Some a \<longrightarrow> a \<in> dv_live st')"
  proof (cases rule: new_entry_cases[of par name flags drv priv st])
    case oom
    then show ?thesis using assms by (auto simp: dv_ok_next dv_live_def)
  next
    case (new e)
    have "dv_ok (st\<lparr> dv_next := Suc (dv_next st), dv_list := (dv_next st, e) # dv_list st \<rparr>)"
      using assms(1-3) new by (intro dv_ok_insert) (auto simp: find_in_def find_in_list_None de_key_def)
    then show ?thesis using new assms(4) by (auto simp: dv_live_def)
  qed
  then show "dv_ok st'" "dv_live st \<subseteq> dv_live st'" "\<forall>a. r = Some a \<longrightarrow> a \<in> dv_live st'" by auto
qed

lemma path_comp_short: "path_comp p = (seg, rest) \<Longrightarrow> take 63 seg = seg"
  by (auto simp: path_comp_def Let_def)

lemma resolve_dir_ok:
  assumes "dv_ok st" "par_ok st par" "resolve_dir create p par st = (r, st')"
  shows "dv_ok st' \<and> dv_live st \<subseteq> dv_live st' \<and> par_ok st' r"
  using assms
proof (induction create p par st arbitrary: r st' rule: resolve_dir.induct)
  case (1 create p par st)
  obtain seg rest where pc: "path_comp p = (seg, rest)" by fastforce
  show ?case
  proof (cases "seg = []")
    case True
    then show ?thesis using 1(3-5) pc by (auto simp: resolve_dir.simps[of create p])
  next
    case ne: False
    show ?thesis
    proof (cases "find_in par seg st")
      case (Some d)
      have "par_ok st (Some d)" using find_in_live[OF Some] by (simp add: par_ok_def)
      then show ?thesis
        using 1(2)[OF pc[symmetric] refl ne Some 1(3), of r st'] 1(5) pc ne Some
        by (simp add: resolve_dir.simps[of create p])
    next
      case None
      note IH = 1(1)[OF pc[symmetric] refl ne None]
      obtain r1 st1 where n: "new_entry par seg DEVFS_F_DIR None 0 st = (r1, st1)" by fastforce
      have ok: "dv_ok st1" "dv_live st \<subseteq> dv_live st1" "\<forall>a. r1 = Some a \<longrightarrow> a \<in> dv_live st1"
        using new_entry_ok[OF 1(3,4) _ n] None path_comp_short[OF pc] by auto
      have e: "resolve_dir create p par st = (if \<not> create then (None, st)
          else case r1 of None \<Rightarrow> (None, st1) | Some d \<Rightarrow> resolve_dir create rest (Some d) st1)"
        using pc ne None n by (simp add: resolve_dir.simps[of create p] split: option.splits)
      show ?thesis
      proof (cases "create \<and> r1 \<noteq> None")
        case True
        then obtain d where d: "r1 = Some d" by blast
        have "par_ok st1 (Some d)" using ok(3) d by (simp add: par_ok_def)
        then show ?thesis
          using IH[OF _ n[symmetric] d ok(1), of r st'] True ok(2) 1(5) e d by auto
      next
        case False
        then show ?thesis using e 1(3,5) ok by (auto simp: par_ok_def split: if_splits option.splits)
      qed
    qed
  qed
qed

lemma split_path_ok:
  assumes "dv_ok st" "split_path create name st = (r, st')"
  shows "dv_ok st' \<and> dv_live st \<subseteq> dv_live st' \<and> (\<forall>leaf par. r = Some (leaf, par) \<longrightarrow> par_ok st' par)"
proof (cases "last_slash 0 name None")
  case None
  then show ?thesis using assms by (auto simp: split_path_def par_ok_def)
next
  case (Some dl)
  obtain d st1 where d: "resolve_dir create (take dl name) None st = (d, st1)" by fastforce
  have "dv_ok st1 \<and> dv_live st \<subseteq> dv_live st1 \<and> par_ok st1 d"
    using resolve_dir_ok[OF assms(1) _ d] by (simp add: par_ok_def)
  then show ?thesis
    using assms Some d by (auto simp: split_path_def split: if_splits option.splits)
qed

section \<open>Updates and removals keep the invariant\<close>

lemma dv_upd_same [simp]:
  "dv_live (dv_upd a f st) = dv_live st" "dv_next (dv_upd a f st) = dv_next st"
  "dv_freed (dv_upd a f st) = dv_freed st" "dv_oom (dv_upd a f st) = dv_oom st"
  "dv_extra (dv_upd a f st) = dv_extra st" "map fst (dv_list (dv_upd a f st)) = map fst (dv_list st)"
  by (auto simp: dv_upd_def dv_live_def comp_def case_prod_beta image_image)

lemma dv_upd_keys:
  assumes "\<And>e. de_parent (f e) = de_parent e" "\<And>e. de_name (f e) = de_name e"
  shows "map de_key (dv_list (dv_upd a f st)) = map de_key (dv_list st)"
  using assms by (auto simp: dv_upd_def de_key_def comp_def case_prod_beta)

lemma dv_upd_mem:
  "p \<in> set (dv_list (dv_upd a f st)) \<longleftrightarrow>
     (\<exists>q \<in> set (dv_list st). p = (fst q, if fst q = a then f (snd q) else snd q))"
  by (auto simp: dv_upd_def image_iff Bex_def case_prod_beta)

lemma dv_ok_upd:
  fixes st :: "'s devfs"
  assumes ok: "dv_ok st"
    and f: "\<And>e. de_parent (f e) = de_parent e" "\<And>e. de_name (f e) = de_name e" "\<And>e. de_compat (f e) = g (de_compat e)"
    and g: "g = id \<or> (\<exists>c. g = (\<lambda>_. Some c) \<and> c \<in> dv_live st \<and> c \<noteq> a \<and>
      (\<forall>r \<in> set (dv_list st). de_compat (snd r) \<noteq> Some c))"
  shows "dv_ok (dv_upd a f st)"
proof -
  let ?st = "dv_upd a f st"
  have par: "\<forall>p \<in> set (dv_list ?st). \<forall>q. de_parent (snd p) = Some q \<longrightarrow> q \<in> dv_live st \<and> q < fst p"
    using dv_okD(5)[OF ok] f(1) by (auto simp: dv_upd_mem split: if_splits)
  define k where "k q = (if fst q = a then g (de_compat (snd q)) else de_compat (snd q))" for q :: "nat \<times> 's devfs_entry"
  have k: "c \<in> dv_live st \<and> c \<noteq> fst q \<and> (\<forall>r \<in> set (dv_list st). k r = Some c \<longrightarrow> fst r = fst q)"
    if q: "q \<in> set (dv_list st)" and c: "k q = Some c" for q c
  proof (cases "g = id")
    case True
    then have "k = de_compat \<circ> snd" by (auto simp: k_def)
    then show ?thesis using dv_okD(7)[OF ok q, of c] c by simp
  next
    case False
    then obtain d where d: "g = (\<lambda>_. Some d)" "d \<in> dv_live st" "d \<noteq> a" "\<forall>r \<in> set (dv_list st). de_compat (snd r) \<noteq> Some d"
      using g by blast
    show ?thesis
    proof (cases "fst q = a")
      case True
      then have "c = d" using c d(1) by (simp add: k_def)
      then show ?thesis using d True by (auto simp: k_def split: if_splits)
    next
      case neq: False
      then have c': "de_compat (snd q) = Some c" using c by (simp add: k_def)
      then have "c \<noteq> d" using d(4) q by blast
      then show ?thesis using dv_okD(7)[OF ok q c'] d(1) by (auto simp: k_def split: if_splits)
    qed
  qed
  have kk: "de_compat (snd (fst q, if fst q = a then f (snd q) else snd q)) = k q" for q by (simp add: k_def f(3))
  have "\<forall>p \<in> set (dv_list ?st). \<forall>c. de_compat (snd p) = Some c \<longrightarrow> c \<in> dv_live st \<and> c \<noteq> fst p \<and>
      (\<forall>r \<in> set (dv_list ?st). de_compat (snd r) = Some c \<longrightarrow> fst r = fst p)"
  proof (intro ballI allI impI)
    fix p c assume "p \<in> set (dv_list ?st)" and c: "de_compat (snd p) = Some c"
    then obtain q where q: "q \<in> set (dv_list st)" "p = (fst q, if fst q = a then f (snd q) else snd q)"
      unfolding dv_upd_mem by blast
    then have "k q = Some c" using c kk by metis
    note K = k[OF q(1) this]
    have "fst r = fst p" if r: "r \<in> set (dv_list ?st)" "de_compat (snd r) = Some c" for r
    proof -
      obtain q' where "q' \<in> set (dv_list st)" "r = (fst q', if fst q' = a then f (snd q') else snd q')"
        using r(1) unfolding dv_upd_mem by blast
      then show ?thesis using K kk r(2) q(2) by (metis fst_conv)
    qed
    then show "c \<in> dv_live st \<and> c \<noteq> fst p \<and> (\<forall>r \<in> set (dv_list ?st). de_compat (snd r) = Some c \<longrightarrow> fst r = fst p)"
      using K q(2) by auto
  qed
  then show ?thesis
    using dv_okD(1-4,6)[OF ok] par unfolding dv_ok_def dv_upd_same dv_upd_keys[of f, OF f(1,2)] by blast
qed

lemma dv_ok_free:
  assumes ok: "dv_ok st" and a: "a \<in> dv_live st"
    and free: "\<forall>p \<in> set (dv_list st). de_parent (snd p) \<noteq> Some a \<and> de_compat (snd p) \<noteq> Some a"
  shows "dv_ok (dev_kfree a (unlink_entry a st))" (is "dv_ok ?st")
proof -
  have l: "dv_list ?st = filter (\<lambda>p. fst p \<noteq> a) (dv_list st)" "dv_freed ?st = a # dv_freed st" "dv_next ?st = dv_next st"
    by (simp_all add: dev_kfree_def unlink_entry_def case_prod_beta)
  have live: "dv_live ?st = dv_live st - {a}" unfolding dv_live_def l by auto
  show ?thesis
    unfolding dv_ok_def live l(2,3)
  proof (intro conjI)
    show "distinct (map fst (dv_list ?st))" using dv_okD(1)[OF ok] by (simp add: l distinct_map_filter)
    show "\<forall>b \<in> dv_live st - {a}. b < dv_next st" using dv_okD(2)[OF ok] by blast
    show "distinct (a # dv_freed st)" using dv_okD(3,4)[OF ok] a by auto
    show "\<forall>b \<in> set (a # dv_freed st). b < dv_next st \<and> b \<notin> dv_live st - {a}" using dv_okD(2,4)[OF ok] a by auto
    show "\<forall>p \<in> set (dv_list ?st). \<forall>q. de_parent (snd p) = Some q \<longrightarrow> q \<in> dv_live st - {a} \<and> q < fst p"
      using dv_okD(5)[OF ok] free by (auto simp: l)
    show "distinct (map de_key (dv_list ?st))" using dv_okD(6)[OF ok] by (simp add: l distinct_map_filter)
    show "\<forall>p \<in> set (dv_list ?st). \<forall>c. de_compat (snd p) = Some c \<longrightarrow> c \<in> dv_live st - {a} \<and> c \<noteq> fst p \<and>
        (\<forall>r \<in> set (dv_list ?st). de_compat (snd r) = Some c \<longrightarrow> fst r = fst p)"
    proof (intro ballI allI impI)
      fix p c assume "p \<in> set (dv_list ?st)" and c: "de_compat (snd p) = Some c"
      then have p: "p \<in> set (dv_list st)" by (simp add: l)
      show "c \<in> dv_live st - {a} \<and> c \<noteq> fst p \<and> (\<forall>r \<in> set (dv_list ?st). de_compat (snd r) = Some c \<longrightarrow> fst r = fst p)"
        using dv_okD(7)[OF ok p c] free[rule_format, OF p] c unfolding l set_filter by blast
    qed
  qed
qed

section \<open>Operations keep the invariant\<close>

definition path_leaf :: "bytes \<Rightarrow> bytes" where
  "path_leaf name = (case last_slash 0 name None of None \<Rightarrow> name | Some dl \<Rightarrow> drop (dl + 1) name)"

lemma split_path_leaf: "split_path create name st = (Some (leaf, par), st') \<Longrightarrow> leaf = path_leaf name"
  by (auto simp: split_path_def path_leaf_def split: option.splits if_splits prod.splits)

lemma compat_fresh:
  assumes "dv_ok st" "new_entry par name flags drv priv st = (Some c, st')"
  shows "\<forall>r \<in> set (dv_list st'). de_compat (snd r) \<noteq> Some c" "c \<in> dv_live st'" "\<forall>a \<in> dv_live st. c \<noteq> a"
proof -
  obtain e where e: "c = dv_next st" "st' = st\<lparr> dv_next := Suc (dv_next st), dv_list := (dv_next st, e) # dv_list st \<rparr>"
      "de_compat e = None"
    using assms(2) by (cases rule: new_entry_cases[of par name flags drv priv st]) auto
  show "\<forall>a \<in> dv_live st. c \<noteq> a" using dv_okD(2)[OF assms(1)] e(1) by blast
  have "de_compat (snd r) \<noteq> Some c" if "r \<in> set (dv_list st)" for r
    using dv_okD(7)[OF assms(1) that, of c] dv_okD(2)[OF assms(1), of c] e(1) by auto
  then show "\<forall>r \<in> set (dv_list st'). de_compat (snd r) \<noteq> Some c" using e by auto
  show "c \<in> dv_live st'" using e by (simp add: dv_live_def)
qed

lemma dv_ok_link:
  assumes "dv_ok st"
  shows "dv_ok (dv_upd a (\<lambda>e. fill_entry (e\<lparr> de_link := t \<rparr>)) st)"
  by (rule dv_ok_upd[where g = id, OF assms]) simp_all

lemma register_compat_ok:
  assumes ok: "dv_ok st" and a: "a \<in> dv_live st" and "find_in None leaf st = None" "take 63 leaf = leaf"
    and n: "new_entry None leaf DEVFS_F_LINK None 0 st = (Some c, st')"
  shows "dv_ok (dv_upd a (\<lambda>e. e\<lparr> de_compat := Some c \<rparr>) (dv_upd c (\<lambda>e. fill_entry (e\<lparr> de_link := t \<rparr>)) st'))"
proof -
  have n1: "dv_ok st'" "dv_live st \<subseteq> dv_live st'"
    using new_entry_ok[OF ok _ _ n] assms(3,4) by (simp_all add: par_ok_def)
  note fr = compat_fresh[OF ok n]
  let ?st = "dv_upd c (\<lambda>e. fill_entry (e\<lparr> de_link := t \<rparr>)) st'"
  have "\<forall>r \<in> set (dv_list ?st). de_compat (snd r) \<noteq> Some c"
  proof (intro ballI)
    fix r assume "r \<in> set (dv_list ?st)"
    then obtain q where q: "q \<in> set (dv_list st')" "r = (fst q, if fst q = c then fill_entry (snd q\<lparr> de_link := t \<rparr>) else snd q)"
      unfolding dv_upd_mem by blast
    then show "de_compat (snd r) \<noteq> Some c" using fr(1) q(1) by (cases "fst q = c") simp_all
  qed
  then have g: "\<exists>d. (\<lambda>_ :: nat option. Some c) = (\<lambda>_. Some d) \<and> d \<in> dv_live ?st \<and> d \<noteq> a \<and>
      (\<forall>r \<in> set (dv_list ?st). de_compat (snd r) \<noteq> Some d)"
    using fr(2,3) a by (intro exI[of _ c]) simp
  show ?thesis
    by (rule dv_ok_upd[where g = "\<lambda>_. Some c", OF dv_ok_link[OF n1(1)]]) (use g in simp_all)
qed

lemma register_chrdev_ok:
  assumes "dv_ok st" "length (path_leaf name) \<le> 63" "register_chrdev name flags drv priv st = (r, st')"
  shows "dv_ok st'"
proof -
  obtain sp st1 where sp: "split_path True name st = (sp, st1)" by fastforce
  have ok1: "dv_ok st1" "\<And>leaf par. sp = Some (leaf, par) \<Longrightarrow> par_ok st1 par" using split_path_ok[OF assms(1) sp] by auto
  show ?thesis
  proof (cases "name \<noteq> [] \<and> drv \<noteq> None \<and> (\<exists>leaf par. sp = Some (leaf, par) \<and> leaf \<noteq> [] \<and> find_in par leaf st1 = None)")
    case False
    then show ?thesis
      using assms(1,3) ok1(1) sp unfolding register_chrdev_def Option.is_none_def by (auto split: if_splits option.splits prod.splits)
  next
    case True
    then obtain leaf par where lp: "sp = Some (leaf, par)" "leaf \<noteq> []" "find_in par leaf st1 = None" by blast
    have short: "take 63 leaf = leaf" using split_path_leaf sp lp(1) assms(2) by fastforce
    obtain n st2 where n: "new_entry par leaf flags drv priv st1 = (n, st2)" by fastforce
    have ok2: "dv_ok st2" "\<forall>a. n = Some a \<longrightarrow> a \<in> dv_live st2"
      using new_entry_ok[OF ok1(1) ok1(2)[OF lp(1)] _ n] lp(3) short by auto
    obtain c st3 where c: "new_entry None leaf DEVFS_F_LINK None 0 st2 = (c, st3)" by fastforce
    have ok3: "dv_ok st3" if "find_in None leaf st2 = None"
      using new_entry_ok(1)[OF ok2(1) _ _ c] that short by (simp add: par_ok_def)
    have reg: "(r, st') = (case n of None \<Rightarrow> (None, st2) | Some a \<Rightarrow>
        if par \<noteq> None \<and> find_in None leaf st2 = None then
          (case c of None \<Rightarrow> (Some a, st3)
           | Some d \<Rightarrow> (Some a, dv_upd a (\<lambda>e. e\<lparr> de_compat := Some d \<rparr>)
               (dv_upd d (\<lambda>e. fill_entry (e\<lparr> de_link := take 127 name \<rparr>)) st3)))
        else (Some a, st2))"
      using assms(3) True sp lp n c by (auto simp: register_chrdev_def Option.is_none_def split: option.splits)
    show ?thesis
    proof (cases "\<exists>a d. n = Some a \<and> par \<noteq> None \<and> find_in None leaf st2 = None \<and> c = Some d")
      case True
      then obtain a d where ad: "n = Some a" "find_in None leaf st2 = None" "c = Some d" "par \<noteq> None" by blast
      have "dv_ok (dv_upd a (\<lambda>e. e\<lparr> de_compat := Some d \<rparr>)
               (dv_upd d (\<lambda>e. fill_entry (e\<lparr> de_link := take 127 name \<rparr>)) st3))"
        using register_compat_ok[OF ok2(1) _ ad(2) short] ok2(2) ad c by simp
      then show ?thesis using reg ad by simp
    next
      case False
      then show ?thesis using reg ok2(1) ok3 by (auto split: option.splits if_splits)
    qed
  qed
qed

lemma symlink_ok:
  assumes "dv_ok st" "length (path_leaf path) \<le> 63" "devfs_symlink path target st = (r, st')"
  shows "dv_ok st'"
proof -
  obtain sp st1 where sp: "split_path True path st = (sp, st1)" by fastforce
  have ok1: "dv_ok st1" "\<And>leaf par. sp = Some (leaf, par) \<Longrightarrow> par_ok st1 par" using split_path_ok[OF assms(1) sp] by auto
  have new: "dv_ok st2" if "sp = Some (leaf, par)" "find_in par leaf st1 = None"
      "new_entry par leaf DEVFS_F_LINK None 0 st1 = (c, st2)" for leaf par c st2
  proof -
    have "take 63 leaf = leaf" using split_path_leaf sp that(1) assms(2) by fastforce
    then show ?thesis using new_entry_ok(1)[OF ok1(1) ok1(2)[OF that(1)] _ that(3)] that(2) by simp
  qed
  show ?thesis
    using assms(1,3) ok1(1) sp new unfolding devfs_symlink_def
    by (auto split: if_splits option.splits prod.splits intro: dv_ok_link)
qed

lemma resolve_dir_find: "snd (resolve_dir False p par st) = st"
proof (induction False p par st rule: resolve_dir.induct)
  case (1 p par st)
  then show ?case
    by (subst resolve_dir.simps) (auto split: prod.splits option.splits)
qed

lemma split_path_find: "snd (split_path False name st) = st"
  using resolve_dir_find[of "take _ name" None st]
  by (auto simp: split_path_def split: option.splits prod.splits) (metis snd_conv)+

text \<open>The entry that a removal of this path takes out.\<close>

definition dv_target :: "bytes \<Rightarrow> 's devfs \<Rightarrow> nat option" where
  "dv_target path st = (case fst (split_path False path st) of None \<Rightarrow> None
     | Some (leaf, par) \<Rightarrow> if leaf = [] then None else find_in par leaf st)"

text \<open>
  An entry can go when nothing refers to it: it and its compatibility link have no children and it is
  not itself the compatibility link of another entry.
\<close>

definition dv_removable :: "nat \<Rightarrow> 's devfs \<Rightarrow> bool" where
  "dv_removable a st \<longleftrightarrow> (\<forall>p \<in> set (dv_list st). de_parent (snd p) \<noteq> Some a \<and> de_compat (snd p) \<noteq> Some a \<and>
     (fst p = a \<longrightarrow> (\<forall>c. de_compat (snd p) = Some c \<longrightarrow>
        (\<forall>q \<in> set (dv_list st). de_parent (snd q) \<noteq> Some c))))"

lemma remove_entry_ok:
  assumes ok: "dv_ok st" and e: "dv_at a st = Some e" and r: "dv_removable a st"
  shows "dv_ok (let st2 = dev_kfree a (unlink_entry a st)
    in case de_compat e of None \<Rightarrow> st2 | Some c \<Rightarrow> dev_kfree c (unlink_entry c st2))"
proof -
  let ?st = "dev_kfree a (unlink_entry a st)"
  have mem: "(a, e) \<in> set (dv_list st)" using e by (rule dv_at_in)
  then have a: "a \<in> dv_live st" by (force simp: dv_live_def)
  have ok2: "dv_ok ?st" using r by (intro dv_ok_free[OF ok a]) (auto simp: dv_removable_def)
  have l: "set (dv_list ?st) = {p \<in> set (dv_list st). fst p \<noteq> a}" by (simp add: dev_kfree_def unlink_entry_def)
  show ?thesis
  proof (cases "de_compat e")
    case None
    then show ?thesis using ok2 by simp
  next
    case (Some c)
    have c: "c \<in> dv_live st" "c \<noteq> a" "\<forall>q \<in> set (dv_list st). de_compat (snd q) = Some c \<longrightarrow> fst q = a"
      using dv_okD(7)[OF ok mem] Some by simp_all
    have "c \<in> dv_live ?st" using c(1,2) unfolding dv_live_def l by force
    moreover have "\<forall>p \<in> set (dv_list ?st). de_parent (snd p) \<noteq> Some c \<and> de_compat (snd p) \<noteq> Some c"
      using r mem Some c(3) unfolding dv_removable_def l by force
    ultimately have "dv_ok (dev_kfree c (unlink_entry c ?st))" by (rule dv_ok_free[OF ok2])
    then show ?thesis using Some by simp
  qed
qed

lemma remove_path_ok:
  assumes "dv_ok st" "\<forall>a. dv_target path st = Some a \<longrightarrow> dv_removable a st"
  shows "dv_ok (snd (remove_path allow_dir path st))"
proof -
  obtain sp where sp: "split_path False path st = (sp, st)" using split_path_find[of path st] by (metis prod.collapse)
  show ?thesis
  proof (cases "dv_target path st")
    case None
    then show ?thesis
      using assms(1) sp by (auto simp: remove_path_def dv_target_def split: option.splits if_splits)
  next
    case (Some a)
    then obtain leaf par where lp: "sp = Some (leaf, par)" "leaf \<noteq> []" "find_in par leaf st = Some a"
      using sp by (auto simp: dv_target_def split: option.splits if_splits)
    obtain e where e: "dv_at a st = Some e" using dv_at_live find_in_live[OF lp(3)] by blast
    have "dv_removable a st" using assms(2) Some by blast
    from remove_entry_ok[OF assms(1) e this] show ?thesis
      using assms(1) sp lp e unfolding remove_path_def Let_def by auto
  qed
qed

lemma dv_ok_extra [simp]: "dv_ok (st\<lparr> dv_extra := x \<rparr>) = dv_ok st"
  unfolding dv_ok_def dv_live_def by simp

text \<open>
  States reached through the interface with names of at most 63 characters, where callers remove
  only entries that nothing refers to.
\<close>

inductive dv_reach :: "'s devfs \<Rightarrow> bool" where
  reach_empty: "dv_list st = [] \<Longrightarrow> dv_freed st = [] \<Longrightarrow> dv_reach st"
| reach_mkdir: "dv_reach st \<Longrightarrow> devfs_mkdir path st = (r, st') \<Longrightarrow> dv_reach st'"
| reach_register: "dv_reach st \<Longrightarrow> length (path_leaf name) \<le> 63 \<Longrightarrow>
    register_chrdev name flags drv priv st = (r, st') \<Longrightarrow> dv_reach st'"
| reach_symlink: "dv_reach st \<Longrightarrow> length (path_leaf path) \<le> 63 \<Longrightarrow>
    devfs_symlink path target st = (r, st') \<Longrightarrow> dv_reach st'"
| reach_unregister: "dv_reach st \<Longrightarrow> \<forall>a. dv_target name st = Some a \<longrightarrow> dv_removable a st \<Longrightarrow>
    unregister_chrdev name st = (n, st') \<Longrightarrow> dv_reach st'"
| reach_remove: "dv_reach st \<Longrightarrow> \<forall>a. dv_target path st = Some a \<longrightarrow> dv_removable a st \<Longrightarrow>
    devfs_remove path st = (n, st') \<Longrightarrow> dv_reach st'"
| reach_add_node: "dv_reach st \<Longrightarrow> devfs_add_node name node st = (n, st') \<Longrightarrow> dv_reach st'"

lemma dv_reach_ok: "dv_reach st \<Longrightarrow> dv_ok st"
proof (induction rule: dv_reach.induct)
  case (reach_empty st)
  then show ?case by (simp add: dv_ok_def dv_live_def)
next
  case (reach_mkdir st path r st')
  then show ?case
    using resolve_dir_ok[of st None True path r st'] by (auto simp: devfs_mkdir_def par_ok_def split: if_splits)
next
  case (reach_register st name flags drv priv r st')
  then show ?case by (blast intro: register_chrdev_ok)
next
  case (reach_symlink st path target r st')
  then show ?case by (blast intro: symlink_ok)
next
  case (reach_unregister st name n st')
  then show ?case using remove_path_ok[of st name True] by (simp add: unregister_chrdev_def)
next
  case (reach_remove st path n st')
  then show ?case using remove_path_ok[of st path False] by (simp add: devfs_remove_def)
next
  case (reach_add_node st name node n st')
  then show ?case by (auto simp: devfs_add_node_def split: if_splits)
qed

section \<open>Properties\<close>

text \<open>
  C9: The device tree is sound. In every state reached by making directories, registering devices and
  links under names whose last part has at most 63 characters, adding nodes, and removing only entries
  that nothing refers to (the entry and its compatibility link have no children, and it is not the
  compatibility link of another entry): each entry's directory is an entry that is still listed, a
  name denotes at most one entry of a directory (so lookup does not depend on the order of the list),
  no listed entry has been freed and no entry was freed twice.
\<close>

theorem devfs_tree_sound:
  assumes "dv_reach st"
  shows "(\<forall>a e p. (a, e) \<in> set (dv_list st) \<and> de_parent e = Some p \<longrightarrow> (\<exists>f. (p, f) \<in> set (dv_list st))) \<and>
    (\<forall>par name a. find_in par name st = Some a \<longleftrightarrow>
       (\<exists>e. (a, e) \<in> set (dv_list st) \<and> de_parent e = par \<and> de_name e = name)) \<and>
    (\<forall>a e. (a, e) \<in> set (dv_list st) \<longrightarrow> a \<notin> set (dv_freed st)) \<and> distinct (dv_freed st)"
proof -
  have ok: "dv_ok st" using assms by (rule dv_reach_ok)
  have "\<exists>f. (p, f) \<in> set (dv_list st)" if "(a, e) \<in> set (dv_list st)" "de_parent e = Some p" for a e p
    using dv_okD(5)[OF ok that(1), of p] that(2) by (auto simp: dv_live_def)
  moreover have "a \<notin> set (dv_freed st)" if "(a, e) \<in> set (dv_list st)" for a e
    using dv_okD(4)[OF ok, of a] that by (force simp: dv_live_def)
  ultimately show ?thesis
    using find_in_list_iff[OF dv_okD(6)[OF ok]] dv_okD(3)[OF ok] unfolding find_in_def by blast
qed

text \<open>A driver with no methods and an empty device tree in which every allocation succeeds.\<close>

definition devfs_example_drv :: "unit devfs_driver" where
  "devfs_example_drv = \<lparr> drv_read = None, drv_write = None, drv_ioctl = None, drv_walk = None, drv_readdir = None \<rparr>"

definition devfs_example0 :: "unit devfs" where
  "devfs_example0 = \<lparr> dv_list = [], dv_next = 1, dv_oom = (\<lambda>_. False), dv_freed = [], dv_extra = [] \<rparr>"

lemma devfs_example0_reach: "dv_reach devfs_example0"
  by (rule reach_empty) (simp_all add: devfs_example0_def)

definition devfs_example1 :: "unit devfs" where
  "devfs_example1 = snd (register_chrdev (cs ''input/kbd'') DEVFS_F_CHAR (Some devfs_example_drv) 7 devfs_example0)"

lemma devfs_example1_reach: "dv_reach devfs_example1"
proof (rule reach_register[OF devfs_example0_reach])
  show "length (path_leaf (cs ''input/kbd'')) \<le> 63" by code_simp
  show "register_chrdev (cs ''input/kbd'') DEVFS_F_CHAR (Some devfs_example_drv) 7 devfs_example0 =
      (fst (register_chrdev (cs ''input/kbd'') DEVFS_F_CHAR (Some devfs_example_drv) 7 devfs_example0), devfs_example1)"
    by (simp add: devfs_example1_def)
qed

theorem devfs_tree_sound_witness:
  "find_in (Some 1) (cs ''kbd'') devfs_example1 = Some 2 \<and> distinct (dv_freed devfs_example1)"
proof -
  have "find_in (Some 1) (cs ''kbd'') devfs_example1 = Some 2" by code_simp
  then show ?thesis using devfs_tree_sound[OF devfs_example1_reach] by blast
qed

lemma last_slash_None: "47 \<notin> set p \<Longrightarrow> last_slash i p r = r"
  by (induction i p r rule: last_slash.induct) auto

text \<open>
  C30: Registration and lookup agree. In the states of C9, a device registered successfully under a name
  without a slash, of at most 63 characters and other than \<open>modinfo\<close>, is what \<open>/dev\<close> finds under that
  name, with the driver, the private pointer and the flags it was registered with; all other names
  resolve as before, and unregistering it at once succeeds and restores the list of entries.
\<close>

theorem devfs_register_lookup:
  assumes "dv_reach st" "register_chrdev name flags (Some d) priv st = (Some a, st1)"
    and "47 \<notin> set name" "length name \<le> 63" "name \<noteq> cs ''modinfo''"
  shows "root_walk name st1 = Some (WEntry a) \<and>
    (\<exists>e. dv_at a st1 = Some e \<and> de_drv e = Some d \<and> de_priv e = priv \<and> de_flags e = flags) \<and>
    (\<forall>n. n \<noteq> name \<longrightarrow> root_walk n st1 = root_walk n st) \<and>
    (\<exists>st2. unregister_chrdev name st1 = (0, st2) \<and> dv_list st2 = dv_list st)"
proof -
  have ok: "dv_ok st" using assms(1) by (rule dv_reach_ok)
  have sp: "split_path c name s = (Some (name, None), s)" for c and s :: "'a devfs"
    using assms(3) by (simp add: split_path_def last_slash_None)
  have ne: "name \<noteq> []" "find_in None name st = None" "new_entry None name flags (Some d) priv st = (Some a, st1)"
    using assms(2) by (auto simp: register_chrdev_def sp split: if_splits option.splits prod.splits)
  obtain e where e: "a = dv_next st" "de_name e = name" "de_parent e = None" "de_compat e = None" "de_drv e = Some d"
      "de_priv e = priv" "de_flags e = flags"
      "st1 = st\<lparr> dv_next := Suc (dv_next st), dv_list := (dv_next st, e) # dv_list st \<rparr>"
    using ne(3) assms(4) by (cases rule: new_entry_cases[of None name flags "Some d" priv st]) auto
  have fresh: "a \<notin> dv_live st" using dv_okD(2)[OF ok, of a] e(1) by auto
  have "filter (\<lambda>p. fst p \<noteq> a) (dv_list st) = dv_list st"
    using fresh by (intro filter_True) (auto simp: dv_live_def)
  moreover have "find_in None name st1 = Some a" "dv_at a st1 = Some e"
    using e by (simp_all add: find_in_def dv_at_def)
  ultimately have "unregister_chrdev name st1 = (0, dev_kfree a (unlink_entry a st1))"
    "dv_list (dev_kfree a (unlink_entry a st1)) = dv_list st"
    using ne(1) e by (simp_all add: unregister_chrdev_def remove_path_def sp dev_kfree_def unlink_entry_def)
  moreover have x: "dv_extra st1 = dv_extra st" "dv_list st1 = (a, e) # dv_list st" using e by simp_all
  have "\<forall>n. n \<noteq> name \<longrightarrow> root_walk n st1 = root_walk n st" "root_walk name st1 = Some (WEntry a)"
    using e(2,3) assms(5) unfolding root_walk_def x by simp_all
  ultimately show ?thesis using e \<open>dv_at a st1 = Some e\<close> by auto
qed

theorem devfs_register_lookup_witness:
  "\<exists>a st1. register_chrdev (cs ''sda'') DEVFS_F_BLOCK (Some devfs_example_drv) 3 devfs_example1 = (Some a, st1) \<and>
     root_walk (cs ''sda'') st1 = Some (WEntry a)"
proof -
  let ?r = "register_chrdev (cs ''sda'') DEVFS_F_BLOCK (Some devfs_example_drv) 3 devfs_example1"
  have f: "fst ?r = Some 4" by code_simp
  then have "?r = (Some 4, snd ?r)" by (metis prod.collapse)
  moreover have "47 \<notin> set (cs ''sda'')" "length (cs ''sda'') \<le> 63" "cs ''sda'' \<noteq> cs ''modinfo''"
    by (simp_all add: cs_def)
  ultimately show ?thesis using devfs_register_lookup[OF devfs_example1_reach] by blast
qed

section \<open>What the callers must not do\<close>

text \<open>
  Removing the compatibility link by its own name leaves the grouped entry pointing at freed memory;
  removing that entry then frees the link a second time.
\<close>

lemma devfs_compat_double_free:
  "\<not> distinct (dv_freed (snd (unregister_chrdev (cs ''input/kbd'') (snd (devfs_remove (cs ''kbd'') devfs_example1)))))"
  by code_simp

text \<open>Unregistering a group directory leaves the entries in it with a directory that does not exist.\<close>

lemma devfs_directory_removal_dangles:
  "let st = snd (unregister_chrdev (cs ''input'') devfs_example1)
   in map_option de_parent (dv_at 2 st) = Some (Some 1) \<and> dv_at 1 st = None"
  unfolding Let_def by (intro conjI; code_simp)

end
