(* ===== verification/Blkdev.thy ===== *)
theory Blkdev
  imports Kprintf Devfs
begin

text \<open>
  The block layer: the device table of \<open>Cact/drivers/block/blkdev/blkdev.c\<close>, the block nodes of
  \<open>Cact/fs/vfs/vfsdev/vfsdev.c\<close> and the swap attachment of \<open>Cact/kernel/core/kernel.c\<close>.

  A device is named by its slot in the table; a null pointer is \<open>None\<close>. The sector callbacks of a
  disk are functions on the state \<open>'hw\<close> of the hardware, stored in the table as the code stores
  the function pointers. \<open>'s\<close> is the state that the drivers of the device filesystem work on;
  \<open>bk_drv\<close> is the driver table of the block nodes. The result of the swap subsystem's
  \<open>swap_enable\<close> is the function \<open>bk_swap_rc\<close> of the number of slots.
\<close>

section \<open>State\<close>

definition BLKDEV_SLOTS :: nat where "BLKDEV_SLOTS = 136"
abbreviation (input) BLKDEV_PARTS_PER_DISK :: nat where "BLKDEV_PARTS_PER_DISK \<equiv> 16"
abbreviation (input) SWAP_MAX_SLOTS :: nat where "SWAP_MAX_SLOTS \<equiv> 65536"

record 'hw blkdev =
  bd_name :: bytes
  bd_id :: nat
  bd_max_lba :: u32
  bd_parent :: "nat option"
  bd_start_lba :: u32
  bd_part_no :: u32
  bd_table :: u8
  bd_ptype :: u8
  bd_devfs_registered :: bool
  bd_read :: "(u32 \<Rightarrow> 'hw \<Rightarrow> bytes \<times> 'hw) option"
  bd_write :: "(u32 \<Rightarrow> bytes \<Rightarrow> 'hw \<Rightarrow> 'hw) option"
  bd_ident :: bytes

definition blkdev_zero :: "'hw blkdev" where
  "blkdev_zero = \<lparr> bd_name = [], bd_id = 0, bd_max_lba = 0, bd_parent = None, bd_start_lba = 0, bd_part_no = 0,
     bd_table = 0, bd_ptype = 0, bd_devfs_registered = False, bd_read = None, bd_write = None, bd_ident = [] \<rparr>"

record ('hw, 's) blk =
  bk_devices :: "'hw blkdev list"
  bk_used :: "bool list"
  bk_count :: int
  bk_boot :: "nat option"
  bk_hw :: 'hw
  bk_devfs :: "'s devfs"
  bk_drv :: "'s devfs_driver"
  bk_node_count :: int
  bk_mounted :: "bytes list"
  bk_swap :: "nat option"
  bk_swap_rc :: "nat \<Rightarrow> int"

definition bk_dev :: "('hw, 's) blk \<Rightarrow> nat \<Rightarrow> 'hw blkdev" where
  "bk_dev s i = bk_devices s ! i"

definition bk_upd :: "nat \<Rightarrow> ('hw blkdev \<Rightarrow> 'hw blkdev) \<Rightarrow> ('hw, 's) blk \<Rightarrow> ('hw, 's) blk" where
  "bk_upd i f s = s\<lparr> bk_devices := (bk_devices s)[i := f (bk_devices s ! i)] \<rparr>"

section \<open>The table\<close>

definition alloc_slot :: "('hw, 's) blk \<Rightarrow> nat option" where
  "alloc_slot s = List.find (\<lambda>i. \<not> bk_used s ! i) [0..<BLKDEV_SLOTS]"

definition blkdev_is_disk :: "'hw blkdev \<Rightarrow> bool" where
  "blkdev_is_disk d \<longleftrightarrow> bd_parent d = None"

definition blkdev_pick_boot :: "('hw, 's) blk \<Rightarrow> ('hw, 's) blk" where
  "blkdev_pick_boot s = s\<lparr> bk_boot :=
     List.find (\<lambda>i. bk_used s ! i \<and> blkdev_is_disk (bk_dev s i)) [0..<BLKDEV_SLOTS] \<rparr>"

definition blkdev_find :: "bytes \<Rightarrow> ('hw, 's) blk \<Rightarrow> nat option" where
  "blkdev_find name s = List.find (\<lambda>i. bk_used s ! i \<and> bd_name (bk_dev s i) = name) [0..<BLKDEV_SLOTS]"

definition blkdev_by_id :: "u32 \<Rightarrow> ('hw, 's) blk \<Rightarrow> nat option" where
  "blkdev_by_id n s = (if unat n \<ge> BLKDEV_SLOTS then None else if bk_used s ! unat n then Some (unat n) else None)"

definition blkdev_get_boot :: "('hw, 's) blk \<Rightarrow> nat option" where
  "blkdev_get_boot s = bk_boot s"

definition blkdev_count :: "('hw, 's) blk \<Rightarrow> int" where
  "blkdev_count s = bk_count s"

definition blkdev_disk_count :: "('hw, 's) blk \<Rightarrow> nat" where
  "blkdev_disk_count s = length (filter (\<lambda>i. bk_used s ! i \<and> blkdev_is_disk (bk_dev s i)) [0..<BLKDEV_SLOTS])"

definition blkdev_init :: "('hw, 's) blk \<Rightarrow> ('hw, 's) blk" where
  "blkdev_init s = s\<lparr> bk_devices := replicate BLKDEV_SLOTS blkdev_zero, bk_used := replicate BLKDEV_SLOTS False,
     bk_count := 0, bk_boot := None \<rparr>"

definition bk_parts :: "nat \<Rightarrow> ('hw, 's) blk \<Rightarrow> nat list" where
  "bk_parts d s = filter (\<lambda>i. bk_used s ! i \<and> bd_parent (bk_dev s i) = Some d) [0..<BLKDEV_SLOTS]"

definition blkdev_part_count :: "nat \<Rightarrow> ('hw, 's) blk \<Rightarrow> nat" where
  "blkdev_part_count d s = length (bk_parts d s)"

definition blkdev_part_at :: "nat \<Rightarrow> nat \<Rightarrow> ('hw, 's) blk \<Rightarrow> nat option" where
  "blkdev_part_at d k s = (if k < length (bk_parts d s) then Some (bk_parts d s ! k) else None)"

section \<open>Swap attachment\<close>

definition swap_enable_device :: "nat \<Rightarrow> ('hw, 's) blk \<Rightarrow> int \<times> ('hw, 's) blk" where
  "swap_enable_device p s =
     (if bd_parent (bk_dev s p) = None \<or> unat (bd_max_lba (bk_dev s p)) \<le> 1 then (-1, s)
      else let sectors = unat (bd_max_lba (bk_dev s p)) - 1; slots = sectors div 8 in
      if slots = 0 then (-1, s)
      else let rc = bk_swap_rc s (min slots SWAP_MAX_SLOTS) in
        if rc \<noteq> 0 then (rc, s\<lparr> bk_swap := None \<rparr>) else (0, s\<lparr> bk_swap := Some p \<rparr>))"

definition swap_notify_device_gone :: "nat \<Rightarrow> ('hw, 's) blk \<Rightarrow> ('hw, 's) blk" where
  "swap_notify_device_gone p s = (if bk_swap s = Some p then s\<lparr> bk_swap := None \<rparr> else s)"

section \<open>Sector access\<close>

text \<open>
  A partition hands the request to its parent with the partition's offset added. The number is the
  depth of the calls that are left; a chain of parents longer than the table would be a cycle, and
  then the C recursion does not end.
\<close>

fun blkdev_read_n :: "nat \<Rightarrow> nat \<Rightarrow> u32 \<Rightarrow> bytes \<Rightarrow> ('hw, 's) blk \<Rightarrow> (int \<times> bytes \<times> ('hw, 's) blk) option" where
  "blkdev_read_n 0 i lba buf s = None"
| "blkdev_read_n (Suc k) i lba buf s =
     (let d = bk_dev s i in
      if \<not> lba < bd_max_lba d then Some (-1, buf, s)
      else case bd_parent d of
        None \<Rightarrow>
          (case bd_read d of None \<Rightarrow> Some (-1, buf, s)
           | Some f \<Rightarrow> (let (b, hw) = f lba (bk_hw s) in Some (0, b, s\<lparr> bk_hw := hw \<rparr>)))
      | Some p \<Rightarrow>
          (let plba = unat (bd_start_lba d) + unat lba in
           if plba > 0xFFFFFFFF then Some (-1, buf, s)
           else blkdev_read_n k p (word_of_nat plba) buf s))"

fun blkdev_write_n :: "nat \<Rightarrow> nat \<Rightarrow> u32 \<Rightarrow> bytes \<Rightarrow> ('hw, 's) blk \<Rightarrow> (int \<times> ('hw, 's) blk) option" where
  "blkdev_write_n 0 i lba buf s = None"
| "blkdev_write_n (Suc k) i lba buf s =
     (let d = bk_dev s i in
      if \<not> lba < bd_max_lba d then Some (-1, s)
      else case bd_parent d of
        None \<Rightarrow>
          (case bd_write d of None \<Rightarrow> Some (-1, s)
           | Some f \<Rightarrow> Some (0, s\<lparr> bk_hw := f lba buf (bk_hw s) \<rparr>))
      | Some p \<Rightarrow>
          (let plba = unat (bd_start_lba d) + unat lba in
           if plba > 0xFFFFFFFF then Some (-1, s)
           else blkdev_write_n k p (word_of_nat plba) buf s))"

definition blkdev_read :: "nat option \<Rightarrow> u32 \<Rightarrow> bytes \<Rightarrow> ('hw, 's) blk \<Rightarrow> (int \<times> bytes \<times> ('hw, 's) blk) option" where
  "blkdev_read dev lba buf s = (case dev of None \<Rightarrow> Some (-1, buf, s) | Some i \<Rightarrow> blkdev_read_n BLKDEV_SLOTS i lba buf s)"

definition blkdev_write :: "nat option \<Rightarrow> u32 \<Rightarrow> bytes \<Rightarrow> ('hw, 's) blk \<Rightarrow> (int \<times> ('hw, 's) blk) option" where
  "blkdev_write dev lba buf s = (case dev of None \<Rightarrow> Some (-1, s) | Some i \<Rightarrow> blkdev_write_n BLKDEV_SLOTS i lba buf s)"

definition blkdev_read_sector :: "u32 \<Rightarrow> bytes \<Rightarrow> ('hw, 's) blk \<Rightarrow> (bytes \<times> ('hw, 's) blk) option" where
  "blkdev_read_sector lba buf s =
     (if bk_boot s = None then Some (replicate 512 0, s)
      else map_option (\<lambda>(r, b, s'). (if r \<noteq> 0 then replicate 512 0 else b, s')) (blkdev_read (bk_boot s) lba buf s))"

definition blkdev_write_sector :: "u32 \<Rightarrow> bytes \<Rightarrow> ('hw, 's) blk \<Rightarrow> ('hw, 's) blk option" where
  "blkdev_write_sector lba buf s =
     (if bk_boot s = None then Some s else map_option snd (blkdev_write (bk_boot s) lba buf s))"

text \<open>The swap callbacks: \<open>sectors\<close> sectors from \<open>lba\<close> on, until one fails.\<close>

fun swap_disk_read :: "nat \<Rightarrow> u32 \<Rightarrow> ('hw, 's) blk \<Rightarrow> (int \<times> bytes \<times> ('hw, 's) blk) option" where
  "swap_disk_read 0 lba s = Some (if bk_swap s = None then -1 else 0, [], s)"
| "swap_disk_read (Suc n) lba s =
     (if bk_swap s = None then Some (-1, [], s)
      else case blkdev_read (bk_swap s) lba [] s of None \<Rightarrow> None
      | Some (r, b, s1) \<Rightarrow>
          if r \<noteq> 0 then Some (-1, [], s1)
          else map_option (\<lambda>(r, bs, s2). (r, b @ bs, s2)) (swap_disk_read n (lba + 1) s1))"

fun swap_disk_write :: "bytes list \<Rightarrow> u32 \<Rightarrow> ('hw, 's) blk \<Rightarrow> (int \<times> ('hw, 's) blk) option" where
  "swap_disk_write [] lba s = Some (if bk_swap s = None then -1 else 0, s)"
| "swap_disk_write (b # bs) lba s =
     (if bk_swap s = None then Some (-1, s)
      else case blkdev_write (bk_swap s) lba b s of None \<Rightarrow> None
      | Some (r, s1) \<Rightarrow> if r \<noteq> 0 then Some (-1, s1) else swap_disk_write bs (lba + 1) s1)"

section \<open>Block nodes\<close>

text \<open>What \<open>%u\<close> prints.\<close>

definition fmt_u :: "u32 \<Rightarrow> bytes" where
  "fmt_u n = rev (num_digits dig_dec 10 (unat n))"

definition by_id_path :: "nat \<Rightarrow> ('hw, 's) blk \<Rightarrow> bytes option" where
  "by_id_path i s =
     (let d = bk_dev s i in
      if bd_ident d \<noteq> [] then Some (take 95 (cs ''disk/by-id/'' @ bd_ident d))
      else case bd_parent d of None \<Rightarrow> None
      | Some p \<Rightarrow>
          if bd_ident (bk_dev s p) \<noteq> [] then
            Some (take 95 (cs ''disk/by-id/'' @ bd_ident (bk_dev s p) @ cs ''-part'' @ fmt_u (bd_part_no d)))
          else None)"

definition publish_by_id :: "nat \<Rightarrow> ('hw, 's) blk \<Rightarrow> ('hw, 's) blk" where
  "publish_by_id i s =
     (case by_id_path i s of None \<Rightarrow> s
      | Some link \<Rightarrow> s\<lparr> bk_devfs := snd (devfs_symlink link (take 23 (cs ''../../'' @ bd_name (bk_dev s i))) (bk_devfs s)) \<rparr>)"

definition vfsdev_set_block_ident :: "nat \<Rightarrow> ('hw, 's) blk \<Rightarrow> ('hw, 's) blk" where
  "vfsdev_set_block_ident i s = fold publish_by_id (bk_parts i s) (publish_by_id i s)"

definition blk_node_size :: "'hw blkdev \<Rightarrow> u32" where
  "blk_node_size d = (if unat (bd_max_lba d) * 512 < 0x100000000 then bd_max_lba d * 512 else 0xFFFFFFFF)"

definition vfsdev_register_block_device :: "nat \<Rightarrow> ('hw, 's) blk \<Rightarrow> int \<times> ('hw, 's) blk" where
  "vfsdev_register_block_device i s =
     (let d = bk_dev s i; sz = blk_node_size d;
          stamp = (\<lambda>a. dv_upd a (\<lambda>e. e\<lparr> de_node := (de_node e)\<lparr> dn_size := sz \<rparr> \<rparr>)) in
      if bd_name d = [] then (-1, s)
      else case devfs_find (bd_name d) (bk_devfs s) of
        Some a \<Rightarrow>
          (let link = (case dv_at a (bk_devfs s) of None \<Rightarrow> True | Some e \<Rightarrow> flag (de_flags e) DEVFS_F_LINK);
               s1 = (if \<not> link then s\<lparr> bk_devfs := stamp a (bk_devfs s) \<rparr> else s)
           in (0, publish_by_id i s1))
      | None \<Rightarrow>
          (case register_chrdev (bd_name d) DEVFS_F_BLOCK (Some (bk_drv s)) i (bk_devfs s) of
             (None, fs) \<Rightarrow> (-1, s\<lparr> bk_devfs := fs \<rparr>)
           | (Some a, fs) \<Rightarrow>
               (0, publish_by_id i (s\<lparr> bk_devfs := stamp a fs, bk_node_count := bk_node_count s + 1 \<rparr>))))"

definition vfsdev_unregister_block_device :: "nat \<Rightarrow> ('hw, 's) blk \<Rightarrow> int \<times> ('hw, 's) blk" where
  "vfsdev_unregister_block_device i s =
     (if bd_name (bk_dev s i) \<in> set (bk_mounted s) then (-2, s)
      else let fs1 = (case by_id_path i s of None \<Rightarrow> bk_devfs s | Some link \<Rightarrow> snd (devfs_remove link (bk_devfs s)));
               (r, fs2) = unregister_chrdev (bd_name (bk_dev s i)) fs1
           in (r, s\<lparr> bk_devfs := fs2,
                 bk_node_count := (if r = 0 \<and> bk_node_count s > 0 then bk_node_count s - 1 else bk_node_count s) \<rparr>))"

definition vfsdev_init :: "('hw, 's) blk \<Rightarrow> ('hw, 's) blk" where
  "vfsdev_init s = fold (\<lambda>i s. case blkdev_by_id (word_of_nat i) s of None \<Rightarrow> s
     | Some d \<Rightarrow> snd (vfsdev_register_block_device d s)) [0..<BLKDEV_SLOTS] s"

section \<open>Registration and removal of disks and partitions\<close>

text \<open>
  \<open>hook\<close> is the probe hook; it does nothing when none is set, and \<open>None\<close> is that it does not return. The routine \<open>strncpy\<close> of the kernel
  keeps one character less than its size argument, so a name has at most 14 characters.
\<close>

definition register_blkdev ::
  "(nat \<Rightarrow> ('hw, 's) blk \<Rightarrow> ('hw, 's) blk option) \<Rightarrow> bytes \<Rightarrow> u32 \<Rightarrow> (u32 \<Rightarrow> 'hw \<Rightarrow> bytes \<times> 'hw) option \<Rightarrow>
   (u32 \<Rightarrow> bytes \<Rightarrow> 'hw \<Rightarrow> 'hw) option \<Rightarrow> ('hw, 's) blk \<Rightarrow> (int \<times> ('hw, 's) blk) option" where
  "register_blkdev hook name max_lba rd wr s =
     (if name = [] \<or> Option.is_none rd \<or> Option.is_none wr then Some (-1, s)
      else if blkdev_find name s \<noteq> None then Some (-3, s)
      else if max_lba = 0 then Some (-1, s)
      else case alloc_slot s of None \<Rightarrow> Some (-2, s)
      | Some idx \<Rightarrow>
          (let d = blkdev_zero\<lparr> bd_name := take 14 name, bd_id := idx, bd_max_lba := max_lba, bd_read := rd, bd_write := wr \<rparr>;
               s1 = s\<lparr> bk_devices := (bk_devices s)[idx := d], bk_used := (bk_used s)[idx := True],
                 bk_count := bk_count s + 1, bk_boot := (if bk_boot s = None then Some idx else bk_boot s) \<rparr>
           in map_option (Pair 0) (hook idx s1)))"

definition blkdev_set_ident :: "bytes \<Rightarrow> bytes \<Rightarrow> ('hw, 's) blk \<Rightarrow> int \<times> ('hw, 's) blk" where
  "blkdev_set_ident name ident s =
     (if name = [] \<or> ident = [] then (-1, s)
      else case blkdev_find name s of None \<Rightarrow> (-1, s)
      | Some i \<Rightarrow>
          if \<not> blkdev_is_disk (bk_dev s i) then (-1, s)
          else (0, vfsdev_set_block_ident i (bk_upd i (\<lambda>d. d\<lparr> bd_ident := take 62 ident \<rparr>) s)))"

definition blkdev_partition_name :: "'hw blkdev \<Rightarrow> u32 \<Rightarrow> nat \<Rightarrow> bytes" where
  "blkdev_partition_name disk part_no cap =
     (let nm = bd_name disk; digit = (nm \<noteq> [] \<and> 48 \<le> last nm \<and> last nm \<le> 57);
          o1 = take (cap - 1) nm; o2 = (if digit then o1 @ [112] else o1)
      in o2 @ take (cap - 1 - length o2) (fmt_u part_no))"

definition blkdev_add_partition ::
  "nat \<Rightarrow> u32 \<Rightarrow> u32 \<Rightarrow> u32 \<Rightarrow> u8 \<Rightarrow> u8 \<Rightarrow> ('hw, 's) blk \<Rightarrow> nat option \<times> ('hw, 's) blk" where
  "blkdev_add_partition disk part_no start_lba len_lba ptype table s =
     (let dd = bk_dev s disk in
      if \<not> blkdev_is_disk dd \<or> part_no = 0 \<or> len_lba = 0 then (None, s)
      else if blkdev_part_count disk s \<ge> BLKDEV_PARTS_PER_DISK then (None, s)
      else if start_lba \<ge> bd_max_lba dd \<or> len_lba > bd_max_lba dd - start_lba then (None, s)
      else let name = blkdev_partition_name dd part_no 16 in
      if blkdev_find name s \<noteq> None then (None, s)
      else case alloc_slot s of None \<Rightarrow> (None, s)
      | Some idx \<Rightarrow>
          (let d = blkdev_zero\<lparr> bd_name := take 14 name, bd_id := idx, bd_max_lba := len_lba, bd_parent := Some disk,
                 bd_start_lba := start_lba, bd_part_no := part_no, bd_ptype := ptype, bd_table := table,
                 bd_ident := (if bd_ident dd \<noteq> [] then take 63 (bd_ident dd @ cs ''-part'' @ fmt_u part_no) else []) \<rparr>
           in (Some idx, s\<lparr> bk_devices := (bk_devices s)[idx := d], bk_used := (bk_used s)[idx := True],
                 bk_count := bk_count s + 1 \<rparr>)))"

definition blkdev_drop_slot :: "nat \<Rightarrow> ('hw, 's) blk \<Rightarrow> ('hw, 's) blk" where
  "blkdev_drop_slot i s =
     s\<lparr> bk_used := (bk_used s)[i := False], bk_devices := (bk_devices s)[i := blkdev_zero], bk_count := bk_count s - 1 \<rparr>"

definition cl_step :: "nat \<Rightarrow> nat \<Rightarrow> nat \<times> ('hw, 's) blk \<Rightarrow> nat \<times> ('hw, 's) blk" where
  "cl_step disk i = (\<lambda>(n, s).
     if \<not> bk_used s ! i \<or> bd_parent (bk_dev s i) \<noteq> Some disk then (n, s)
     else (n + 1, blkdev_drop_slot i (swap_notify_device_gone i s)))"

definition blkdev_clear_partitions :: "nat \<Rightarrow> ('hw, 's) blk \<Rightarrow> nat \<times> ('hw, 's) blk" where
  "blkdev_clear_partitions disk s = fold (cl_step disk) [0..<BLKDEV_SLOTS] (0, s)"

definition unregister_blkdev :: "bytes \<Rightarrow> ('hw, 's) blk \<Rightarrow> ('hw, 's) blk" where
  "unregister_blkdev name s =
     (case blkdev_find name s of None \<Rightarrow> s
      | Some i \<Rightarrow>
          if \<not> blkdev_is_disk (bk_dev s i) then s
          else
            (let s1 = fold (\<lambda>p s. snd (vfsdev_unregister_block_device p s)) (bk_parts i s) s;
                 s2 = snd (vfsdev_unregister_block_device i s1);
                 s3 = snd (blkdev_clear_partitions i s2)
             in blkdev_pick_boot (blkdev_drop_slot i s3)))"

section \<open>Byte access to a block node\<close>

text \<open>
  The sector loop of \<open>blk_byte_rw\<close>: \<open>lba\<close> is the next sector, \<open>soff\<close> the offset in it (below 512),
  \<open>dn\<close> of \<open>sz\<close> bytes are done.
\<close>

function blk_rw_loop ::
  "bool \<Rightarrow> nat \<Rightarrow> u32 \<Rightarrow> nat \<Rightarrow> nat \<Rightarrow> nat \<Rightarrow> bytes \<Rightarrow> ('hw, 's) blk \<Rightarrow> (nat \<times> bytes \<times> ('hw, 's) blk) option" where
  "blk_rw_loop wr i lba soff sz dn buf s =
     (if dn \<ge> sz \<or> soff \<ge> 512 then Some (dn, buf, s)
      else let chunk = min (sz - dn) (512 - soff); zero = replicate 512 0 in
      if wr then
        (case (if soff = 0 \<and> chunk = 512 then Some (slice dn 512 buf, s)
               else case blkdev_read (Some i) lba zero s of None \<Rightarrow> None
                 | Some (r, b, s1) \<Rightarrow>
                     (let sec = (if r \<noteq> 0 then zero else b)
                      in Some (take soff sec @ slice dn chunk buf @ drop (soff + chunk) sec, s1))) of
           None \<Rightarrow> None
         | Some (sec, s1) \<Rightarrow>
             (case blkdev_write (Some i) lba sec s1 of None \<Rightarrow> None
              | Some (r, s2) \<Rightarrow>
                  if r \<noteq> 0 then Some (dn, buf, s2)
                  else blk_rw_loop wr i (lba + 1) 0 sz (dn + chunk) buf s2))
      else
        (case blkdev_read (Some i) lba zero s of None \<Rightarrow> None
         | Some (r, b, s1) \<Rightarrow>
             if r \<noteq> 0 then Some (dn, buf, s1)
             else blk_rw_loop wr i (lba + 1) 0 sz (dn + chunk)
                    (take dn buf @ slice soff chunk b @ drop (dn + chunk) buf) s1))"
  by pat_completeness auto
termination
  by (relation "measure (\<lambda>(wr, i, lba, soff, sz, dn, buf, s). sz - dn)") auto

declare blk_rw_loop.simps [simp del]

definition blk_byte_rw ::
  "bool \<Rightarrow> nat \<Rightarrow> u32 \<Rightarrow> u32 \<Rightarrow> bytes \<Rightarrow> ('hw, 's) blk \<Rightarrow> (int \<times> bytes \<times> ('hw, 's) blk) option" where
  "blk_byte_rw wr i off sz buf s =
     (if sz = 0 then Some (0, buf, s)
      else let total = unat (bd_max_lba (bk_dev s i)) * 512 in
      if unat off \<ge> total then Some (0, buf, s)
      else let sz' = (if unat off + unat sz > total then total - unat off else unat sz)
        in map_option (\<lambda>(dn, buf', s'). (sint (word_of_nat dn :: u32), buf', s'))
             (blk_rw_loop wr i (word_of_nat (unat off div 512)) (unat off mod 512) sz' 0 buf s))"

definition blk_read :: "nat \<Rightarrow> u32 \<Rightarrow> u32 \<Rightarrow> bytes \<Rightarrow> ('hw, 's) blk \<Rightarrow> (int \<times> bytes \<times> ('hw, 's) blk) option" where
  "blk_read i off sz buf s = blk_byte_rw False i off sz buf s"

definition blk_write :: "nat \<Rightarrow> u32 \<Rightarrow> u32 \<Rightarrow> bytes \<Rightarrow> ('hw, 's) blk \<Rightarrow> (int \<times> bytes \<times> ('hw, 's) blk) option" where
  "blk_write i off sz buf s = blk_byte_rw True i off sz buf s"

section \<open>Invariant of the table\<close>

definition dev_ok :: "('hw, 's) blk \<Rightarrow> nat \<Rightarrow> bool" where
  "dev_ok s i \<longleftrightarrow>
     bd_id (bk_dev s i) = i \<and> bd_max_lba (bk_dev s i) \<noteq> 0 \<and>
     (case bd_parent (bk_dev s i) of
        None \<Rightarrow> bd_start_lba (bk_dev s i) = 0
      | Some p \<Rightarrow> p < BLKDEV_SLOTS \<and> bk_used s ! p \<and> bd_parent (bk_dev s p) = None \<and>
          unat (bd_start_lba (bk_dev s i)) + unat (bd_max_lba (bk_dev s i)) \<le> unat (bd_max_lba (bk_dev s p)))"

definition bk_tab_ok :: "('hw, 's) blk \<Rightarrow> bool" where
  "bk_tab_ok s \<longleftrightarrow>
     length (bk_devices s) = BLKDEV_SLOTS \<and> length (bk_used s) = BLKDEV_SLOTS \<and>
     bk_count s = int (count_list (bk_used s) True) \<and>
     (\<forall>i < BLKDEV_SLOTS. bk_used s ! i \<longrightarrow> dev_ok s i) \<and>
     (\<forall>p. bk_swap s = Some p \<longrightarrow> p < BLKDEV_SLOTS \<and> bk_used s ! p \<and> bd_parent (bk_dev s p) \<noteq> None)"

definition boot_ok :: "('hw, 's) blk \<Rightarrow> bool" where
  "boot_ok s \<longleftrightarrow>
     (case bk_boot s of
        None \<Rightarrow> \<forall>i < BLKDEV_SLOTS. bk_used s ! i \<longrightarrow> bd_parent (bk_dev s i) \<noteq> None
      | Some b \<Rightarrow> b < BLKDEV_SLOTS \<and> bk_used s ! b \<and> bd_parent (bk_dev s b) = None)"

definition bk_ok :: "('hw, 's) blk \<Rightarrow> bool" where
  "bk_ok s \<longleftrightarrow> bk_tab_ok s \<and> boot_ok s"

text \<open>The part of the state that the device nodes do not touch.\<close>

definition same_table :: "('hw, 's) blk \<Rightarrow> ('hw, 's) blk \<Rightarrow> bool" where
  "same_table s t \<longleftrightarrow> bk_devices t = bk_devices s \<and> bk_used t = bk_used s \<and> bk_count t = bk_count s \<and>
     bk_boot t = bk_boot s \<and> bk_swap t = bk_swap s \<and> bk_hw t = bk_hw s \<and> bk_mounted t = bk_mounted s"

named_theorems same_intros \<open>operations that leave the device table alone\<close>

lemma same_table_refl [same_intros]: "same_table s s"
  by (simp add: same_table_def)

lemma same_table_trans: "same_table s t \<Longrightarrow> same_table t u \<Longrightarrow> same_table s u"
  by (simp add: same_table_def)

lemma same_table_fold: "(\<And>x s. same_table s (f x s)) \<Longrightarrow> same_table s (fold f xs s)"
  by (induction xs arbitrary: s) (auto intro: same_table_trans same_table_refl)

lemma same_publish [same_intros]: "same_table s (publish_by_id i s)"
  by (simp add: publish_by_id_def same_table_def split: option.splits)

lemma same_set_block_ident [same_intros]: "same_table s (vfsdev_set_block_ident i s)"
  unfolding vfsdev_set_block_ident_def
  by (rule same_table_trans[OF same_publish]) (rule same_table_fold, rule same_publish)

lemma same_vfs_register [same_intros]: "same_table s (snd (vfsdev_register_block_device i s))"
proof -
  have dv: "same_table s (s\<lparr> bk_devfs := fs \<rparr>)" "same_table s (s\<lparr> bk_devfs := fs, bk_node_count := c \<rparr>)" for fs c
    by (simp_all add: same_table_def)
  show ?thesis
    unfolding vfsdev_register_block_device_def Let_def
    by (auto intro: same_table_refl same_publish same_table_trans[OF _ same_publish] dv split: option.splits prod.splits)
qed

lemma same_vfs_unregister [same_intros]: "same_table s (snd (vfsdev_unregister_block_device i s))"
  by (simp add: vfsdev_unregister_block_device_def same_table_def Let_def split: prod.splits)

lemma bk_ok_same:
  assumes "same_table s t"
  shows "bk_ok t = bk_ok s" "dev_ok t = dev_ok s" "bk_dev t = bk_dev s"
proof -
  have e: "bk_devices t = bk_devices s" "bk_used t = bk_used s" "bk_count t = bk_count s" "bk_boot t = bk_boot s"
    "bk_swap t = bk_swap s"
    using assms by (simp_all add: same_table_def)
  show d: "bk_dev t = bk_dev s" by (simp add: fun_eq_iff bk_dev_def e)
  show k: "dev_ok t = dev_ok s" unfolding dev_ok_def fun_eq_iff d e by simp
  show "bk_ok t = bk_ok s" unfolding bk_ok_def bk_tab_ok_def boot_ok_def d k e by (rule refl)
qed

section \<open>Adding and dropping slots\<close>

lemma alloc_slot_Some: "alloc_slot s = Some i \<Longrightarrow> i < BLKDEV_SLOTS \<and> \<not> bk_used s ! i"
  by (auto simp: alloc_slot_def find_Some_iff)

lemma count_list_pos: "i < length xs \<Longrightarrow> 0 < count_list xs (xs ! i)"
  by (metis count_list_0_iff gr0I nth_mem)

lemma count_list_update:
  "i < length xs \<Longrightarrow> count_list (xs[i := v]) x = count_list xs x - (if xs ! i = x then 1 else 0) + (if v = x then 1 else 0)"
proof (induction xs arbitrary: i)
  case (Cons a xs)
  show ?case
  proof (cases i)
    case (Suc j)
    have "xs ! j = x \<Longrightarrow> 0 < count_list xs x" using Suc Cons.prems count_list_pos[of j xs] by auto
    then show ?thesis using Cons Suc by auto
  qed simp
qed simp

lemma bk_ok_add:
  assumes ok: "bk_ok s" and i: "i < BLKDEV_SLOTS" "\<not> bk_used s ! i"
    and d: "bd_id d = i" "bd_max_lba d \<noteq> 0"
    and disk: "bd_parent d = None \<Longrightarrow> bd_start_lba d = 0"
    and part: "\<And>p. bd_parent d = Some p \<Longrightarrow> p < BLKDEV_SLOTS \<and> bk_used s ! p \<and> bd_parent (bk_dev s p) = None \<and>
      unat (bd_start_lba d) + unat (bd_max_lba d) \<le> unat (bd_max_lba (bk_dev s p))"
    and b: "b = (if bk_boot s = None \<and> bd_parent d = None then Some i else bk_boot s)"
    and t: "bk_devices t = (bk_devices s)[i := d]" "bk_used t = (bk_used s)[i := True]" "bk_count t = bk_count s + 1"
      "bk_boot t = b" "bk_swap t = bk_swap s"
  shows "bk_ok t"
proof -
  have l: "length (bk_devices s) = BLKDEV_SLOTS" "length (bk_used s) = BLKDEV_SLOTS"
    "bk_count s = int (count_list (bk_used s) True)"
    "\<And>j. j < BLKDEV_SLOTS \<Longrightarrow> bk_used s ! j \<Longrightarrow> dev_ok s j"
    "\<And>p. bk_swap s = Some p \<Longrightarrow> p < BLKDEV_SLOTS \<and> bk_used s ! p \<and> bd_parent (bk_dev s p) \<noteq> None"
    using ok by (auto simp: bk_ok_def bk_tab_ok_def)
  have dv: "bk_dev t j = (if j = i then d else bk_dev s j)" if "j < BLKDEV_SLOTS" for j
    using that i l by (simp add: bk_dev_def t)
  have us: "bk_used t ! j = (j = i \<or> bk_used s ! j)" if "j < BLKDEV_SLOTS" for j
    using that i l by (simp add: t nth_list_update)
  have "dev_ok t j" if j: "j < BLKDEV_SLOTS" "bk_used t ! j" for j
  proof (cases "j = i")
    case True
    have "p \<noteq> i" if "bd_parent d = Some p" for p using part[OF that] i by auto
    then show ?thesis
      using True j d disk part dv us unfolding dev_ok_def by (auto split: option.splits)
  next
    case False
    then have "dev_ok s j" using l(4) us j by simp
    moreover have "p \<noteq> i" if "bd_parent (bk_dev s j) = Some p" for p
      using calculation that i by (auto simp: dev_ok_def)
    ultimately show ?thesis using False j(1) dv us unfolding dev_ok_def by (auto split: option.splits)
  qed
  moreover have "count_list (bk_used t) True = count_list (bk_used s) True + 1"
    using i l(2) by (simp add: t count_list_update)
  moreover have "boot_ok t"
    using ok i b dv us by (auto simp: bk_ok_def boot_ok_def t split: option.splits)
  moreover have "p < BLKDEV_SLOTS \<and> bk_used t ! p \<and> bd_parent (bk_dev t p) \<noteq> None" if "bk_swap t = Some p" for p
    using l(5)[of p] that i dv us by (auto simp: t)
  ultimately show ?thesis using l(1-3) by (simp add: bk_ok_def bk_tab_ok_def t)
qed

lemma drop_slot_ok:
  assumes ok: "bk_tab_ok s" and i: "i < BLKDEV_SLOTS" "bk_used s ! i" "bk_swap s \<noteq> Some i"
    and free: "\<forall>j < BLKDEV_SLOTS. bk_used s ! j \<longrightarrow> bd_parent (bk_dev s j) \<noteq> Some i"
  shows "bk_tab_ok (blkdev_drop_slot i s)"
    and "boot_ok s \<Longrightarrow> bd_parent (bk_dev s i) \<noteq> None \<Longrightarrow> boot_ok (blkdev_drop_slot i s)"
proof -
  let ?t = "blkdev_drop_slot i s"
  have l: "length (bk_devices s) = BLKDEV_SLOTS" "length (bk_used s) = BLKDEV_SLOTS"
    "bk_count s = int (count_list (bk_used s) True)"
    "\<And>j. j < BLKDEV_SLOTS \<Longrightarrow> bk_used s ! j \<Longrightarrow> dev_ok s j"
    "\<And>p. bk_swap s = Some p \<Longrightarrow> p < BLKDEV_SLOTS \<and> bk_used s ! p \<and> bd_parent (bk_dev s p) \<noteq> None"
    using ok by (auto simp: bk_tab_ok_def)
  have t: "bk_devices ?t = (bk_devices s)[i := blkdev_zero]" "bk_used ?t = (bk_used s)[i := False]"
    "bk_count ?t = bk_count s - 1" "bk_boot ?t = bk_boot s" "bk_swap ?t = bk_swap s"
    by (simp_all add: blkdev_drop_slot_def)
  have dv: "bk_dev ?t j = bk_dev s j" if "j \<noteq> i" for j using that by (simp add: bk_dev_def t)
  have us: "bk_used ?t ! j = (j \<noteq> i \<and> bk_used s ! j)" if "j < BLKDEV_SLOTS" for j
    using that i l by (simp add: t nth_list_update)
  have "dev_ok ?t j" if j: "j < BLKDEV_SLOTS" "bk_used ?t ! j" for j
  proof -
    have "j \<noteq> i" "bk_used s ! j" using j us by auto
    moreover have "p \<noteq> i" if "bd_parent (bk_dev s j) = Some p" for p using free j calculation that by auto
    ultimately show ?thesis using l(4)[of j] j(1) dv us unfolding dev_ok_def by (auto split: option.splits)
  qed
  moreover have "count_list (bk_used s) True = count_list (bk_used ?t) True + 1"
  proof -
    have "0 < count_list (bk_used s) True" using i l(2) count_list_pos[of i "bk_used s"] by simp
    then show ?thesis using i l(2) by (simp add: t count_list_update)
  qed
  moreover have "p < BLKDEV_SLOTS \<and> bk_used ?t ! p \<and> bd_parent (bk_dev ?t p) \<noteq> None" if "bk_swap ?t = Some p" for p
    using l(5)[of p] that i(3) dv us by (auto simp: t)
  ultimately show "bk_tab_ok ?t" using l(1-3) by (simp add: bk_tab_ok_def t)
  assume "boot_ok s" "bd_parent (bk_dev s i) \<noteq> None"
  then show "boot_ok ?t"
    using us i unfolding boot_ok_def t(4) by (auto simp: dv split: option.splits) (metis dv option.distinct(1))
qed

lemma notify_fields [simp]:
  "bk_devices (swap_notify_device_gone p s) = bk_devices s" "bk_used (swap_notify_device_gone p s) = bk_used s"
  "bk_boot (swap_notify_device_gone p s) = bk_boot s" "bk_dev (swap_notify_device_gone p s) = bk_dev s"
  "bk_hw (swap_notify_device_gone p s) = bk_hw s" "bk_swap (swap_notify_device_gone p s) \<noteq> Some p"
  by (simp_all add: swap_notify_device_gone_def bk_dev_def fun_eq_iff)

lemma bk_ok_swap_boot:
  assumes "bk_tab_ok s" "bk_devices t = bk_devices s" "bk_used t = bk_used s" "bk_count t = bk_count s"
    and sw: "\<And>p. bk_swap t = Some p \<Longrightarrow> p < BLKDEV_SLOTS \<and> bk_used s ! p \<and> bd_parent (bk_dev s p) \<noteq> None"
  shows "bk_tab_ok t" "bk_boot t = bk_boot s \<Longrightarrow> boot_ok s \<Longrightarrow> boot_ok t" "bk_dev t = bk_dev s"
proof -
  show dv: "bk_dev t = bk_dev s" by (simp add: fun_eq_iff bk_dev_def assms)
  have "dev_ok t = dev_ok s" unfolding dev_ok_def fun_eq_iff dv assms by simp
  then show "bk_tab_ok t" using assms(1) sw unfolding bk_tab_ok_def assms dv by simp
  show "bk_boot t = bk_boot s \<Longrightarrow> boot_ok s \<Longrightarrow> boot_ok t" unfolding boot_ok_def dv assms(3) by simp
qed

lemma tab_swapD: "bk_tab_ok s \<Longrightarrow> bk_swap s = Some p \<Longrightarrow> p < BLKDEV_SLOTS \<and> bk_used s ! p \<and> bd_parent (bk_dev s p) \<noteq> None"
  by (simp add: bk_tab_ok_def)

lemma notify_ok: "bk_ok s \<Longrightarrow> bk_ok (swap_notify_device_gone p s)"
  using bk_ok_swap_boot[of s "swap_notify_device_gone p s"] tab_swapD[of s]
  by (auto simp: swap_notify_device_gone_def bk_ok_def)

lemma enable_fields [simp]:
  "bk_devices (snd (swap_enable_device p s)) = bk_devices s" "bk_used (snd (swap_enable_device p s)) = bk_used s"
  "bk_count (snd (swap_enable_device p s)) = bk_count s" "bk_boot (snd (swap_enable_device p s)) = bk_boot s"
  by (simp_all add: swap_enable_device_def Let_def)

lemma enable_swap:
  "bk_swap (snd (swap_enable_device p s)) = Some q \<Longrightarrow> bk_swap s = Some q \<or> q = p \<and> bd_parent (bk_dev s p) \<noteq> None"
  by (simp add: swap_enable_device_def Let_def split: if_splits)

lemma enable_ok:
  assumes "bk_ok s" "p < BLKDEV_SLOTS" "bk_used s ! p"
  shows "bk_ok (snd (swap_enable_device p s))"
proof -
  have k: "bk_tab_ok s" "boot_ok s" using assms(1) by (simp_all add: bk_ok_def)
  show ?thesis unfolding bk_ok_def
    using bk_ok_swap_boot[OF k(1), of "snd (swap_enable_device p s)"] k(2) enable_swap[of p s] tab_swapD[OF k(1)] assms(2,3)
    by (metis enable_fields)
qed

lemma pick_boot_ok: "bk_tab_ok s \<Longrightarrow> bk_ok (blkdev_pick_boot s)"
proof -
  assume ok: "bk_tab_ok s"
  let ?t = "blkdev_pick_boot s"
  have same: "bk_used ?t = bk_used s" by (simp add: blkdev_pick_boot_def)
  have t: "bk_tab_ok ?t" and dv: "bk_dev ?t = bk_dev s"
    using bk_ok_swap_boot[of s ?t] ok tab_swapD[OF ok] by (auto simp: blkdev_pick_boot_def)
  have "boot_ok ?t"
  proof (cases "bk_boot ?t")
    case None
    then have "\<forall>i < BLKDEV_SLOTS. \<not> (bk_used s ! i \<and> blkdev_is_disk (bk_dev s i))"
      by (auto simp: blkdev_pick_boot_def find_None_iff)
    then show ?thesis using None by (auto simp: boot_ok_def same dv blkdev_is_disk_def)
  next
    case (Some b)
    then have "b < BLKDEV_SLOTS \<and> bk_used s ! b \<and> blkdev_is_disk (bk_dev s b)"
      by (auto simp: blkdev_pick_boot_def find_Some_iff)
    then show ?thesis using Some by (simp add: boot_ok_def same dv blkdev_is_disk_def)
  qed
  then show ?thesis using t by (simp add: bk_ok_def)
qed

lemma register_ok:
  assumes ok: "bk_ok s"
    and hook: "\<And>i u. bk_ok u \<Longrightarrow> i < BLKDEV_SLOTS \<Longrightarrow> bk_used u ! i \<Longrightarrow> bd_parent (bk_dev u i) = None \<Longrightarrow>
      \<exists>v. hook i u = Some v \<and> bk_ok v"
  shows "\<exists>r t. register_blkdev hook name max_lba rd wr s = Some (r, t) \<and> bk_ok t"
proof (cases "(name = [] \<or> Option.is_none rd \<or> Option.is_none wr) \<or> blkdev_find name s \<noteq> None \<or> max_lba = 0 \<or> alloc_slot s = None")
  case True
  then show ?thesis using ok by (auto simp: register_blkdev_def)
next
  case False
  then obtain idx where idx: "alloc_slot s = Some idx" by blast
  let ?d = "blkdev_zero\<lparr> bd_name := take 14 name, bd_id := idx, bd_max_lba := max_lba, bd_read := rd, bd_write := wr \<rparr>"
  let ?u = "s\<lparr> bk_devices := (bk_devices s)[idx := ?d], bk_used := (bk_used s)[idx := True],
                 bk_count := bk_count s + 1, bk_boot := (if bk_boot s = None then Some idx else bk_boot s) \<rparr>"
  have e: "register_blkdev hook name max_lba rd wr s = map_option (Pair 0) (hook idx ?u)"
    using False by (simp add: register_blkdev_def idx Let_def)
  have i: "idx < BLKDEV_SLOTS" "\<not> bk_used s ! idx" using alloc_slot_Some[OF idx] by auto
  have "bk_ok ?u"
    by (rule bk_ok_add[OF ok i, where d = ?d]) (use False in \<open>simp_all add: blkdev_zero_def\<close>)
  moreover have "bk_used ?u ! idx" "bd_parent (bk_dev ?u idx) = None"
    using i ok by (simp_all add: bk_dev_def bk_ok_def bk_tab_ok_def blkdev_zero_def)
  ultimately show ?thesis using hook[of ?u idx] i(1) e by auto
qed

lemma add_partition_ok:
  assumes ok: "bk_ok s" and disk: "disk < BLKDEV_SLOTS" "bk_used s ! disk"
    and a: "blkdev_add_partition disk part_no start_lba len_lba ptype table s = (r, t)"
  shows "bk_ok t" and "r = Some p \<Longrightarrow> p < BLKDEV_SLOTS \<and> bk_used t ! p \<and> \<not> bk_used s ! p \<and>
      bd_parent (bk_dev t p) = Some disk \<and> bd_start_lba (bk_dev t p) = start_lba \<and> bd_max_lba (bk_dev t p) = len_lba"
    and "r = None \<Longrightarrow> t = s"
proof -
  let ?dd = "bk_dev s disk" let ?name = "blkdev_partition_name ?dd part_no 16"
  let ?d = "\<lambda>idx. blkdev_zero\<lparr> bd_name := take 14 ?name, bd_id := idx, bd_max_lba := len_lba, bd_parent := Some disk,
                 bd_start_lba := start_lba, bd_part_no := part_no, bd_ptype := ptype, bd_table := table,
                 bd_ident := (if bd_ident ?dd \<noteq> [] then take 63 (bd_ident ?dd @ cs ''-part'' @ fmt_u part_no) else []) \<rparr>"
  show "r = None \<Longrightarrow> t = s"
    using a by (auto simp: blkdev_add_partition_def Let_def split: if_splits option.splits)
  have some: "\<exists>idx. r = Some idx \<and> alloc_slot s = Some idx \<and> len_lba \<noteq> 0 \<and> bd_parent ?dd = None \<and>
      start_lba < bd_max_lba ?dd \<and> len_lba \<le> bd_max_lba ?dd - start_lba \<and>
      t = s\<lparr> bk_devices := (bk_devices s)[idx := ?d idx], bk_used := (bk_used s)[idx := True], bk_count := bk_count s + 1 \<rparr>"
    if "r \<noteq> None"
    using a that
    by (auto simp: blkdev_add_partition_def Let_def blkdev_is_disk_def not_le not_less split: if_splits option.splits)
  have fit: "unat start_lba + unat len_lba \<le> unat (bd_max_lba ?dd)"
    if "start_lba < bd_max_lba ?dd" "len_lba \<le> bd_max_lba ?dd - start_lba"
    using that by (simp add: word_less_nat_alt word_le_nat_alt unat_sub)
  show "bk_ok t"
  proof (cases "r = None")
    case True
    then show ?thesis using ok \<open>r = None \<Longrightarrow> t = s\<close> by simp
  next
    case False
    then obtain idx where x: "alloc_slot s = Some idx" "len_lba \<noteq> 0" "bd_parent ?dd = None"
        "start_lba < bd_max_lba ?dd" "len_lba \<le> bd_max_lba ?dd - start_lba"
        "t = s\<lparr> bk_devices := (bk_devices s)[idx := ?d idx], bk_used := (bk_used s)[idx := True], bk_count := bk_count s + 1 \<rparr>"
      using some by blast
    have i: "idx < BLKDEV_SLOTS" "\<not> bk_used s ! idx" using alloc_slot_Some[OF x(1)] by auto
    show ?thesis
      by (rule bk_ok_add[OF ok i, where d = "?d idx"])
        (use x fit disk in \<open>auto simp: blkdev_zero_def\<close>)
  qed
  assume "r = Some p"
  then obtain idx where x: "p = idx" "alloc_slot s = Some idx"
      "t = s\<lparr> bk_devices := (bk_devices s)[idx := ?d idx], bk_used := (bk_used s)[idx := True], bk_count := bk_count s + 1 \<rparr>"
    using some by auto
  have i: "idx < BLKDEV_SLOTS" "\<not> bk_used s ! idx" using alloc_slot_Some[OF x(2)] by auto
  then show "p < BLKDEV_SLOTS \<and> bk_used t ! p \<and> \<not> bk_used s ! p \<and> bd_parent (bk_dev t p) = Some disk \<and>
      bd_start_lba (bk_dev t p) = start_lba \<and> bd_max_lba (bk_dev t p) = len_lba"
    using ok x by (simp add: bk_ok_def bk_tab_ok_def bk_dev_def)
qed

lemma drop_part_ok:
  assumes ok: "bk_ok s" and i: "i < BLKDEV_SLOTS" "bk_used s ! i" "bd_parent (bk_dev s i) \<noteq> None"
  shows "bk_ok (blkdev_drop_slot i (swap_notify_device_gone i s))"
proof -
  let ?s = "swap_notify_device_gone i s"
  have k: "bk_tab_ok ?s" "boot_ok ?s" using notify_ok[OF ok] by (simp_all add: bk_ok_def)
  have free: "\<forall>j < BLKDEV_SLOTS. bk_used ?s ! j \<longrightarrow> bd_parent (bk_dev ?s j) \<noteq> Some i"
  proof (intro allI impI notI)
    fix j assume j: "j < BLKDEV_SLOTS" "bk_used ?s ! j" "bd_parent (bk_dev ?s j) = Some i"
    then have "dev_ok s j" using ok by (simp add: bk_ok_def bk_tab_ok_def)
    then show False using j i(3) by (simp add: dev_ok_def)
  qed
  show ?thesis
    unfolding bk_ok_def using drop_slot_ok[OF k(1) i(1) _ _ free] i(2,3) k(2) by simp
qed

lemma clear_fold:
  assumes "bk_ok s" "set xs \<subseteq> {..<BLKDEV_SLOTS}" "fold (cl_step disk) xs (n, s) = (m, t)"
  shows "bk_ok t \<and> bk_hw t = bk_hw s \<and> bk_boot t = bk_boot s \<and>
    (\<forall>i < BLKDEV_SLOTS. bk_used t ! i = (bk_used s ! i \<and> \<not> (i \<in> set xs \<and> bd_parent (bk_dev s i) = Some disk)) \<and>
        (bk_used t ! i \<longrightarrow> bk_dev t i = bk_dev s i))"
  using assms
proof (induction xs arbitrary: n s)
  case (Cons x xs)
  have x: "x < BLKDEV_SLOTS" using Cons.prems(2) by simp
  have len: "length (bk_used s) = BLKDEV_SLOTS" using Cons.prems(1) by (simp add: bk_ok_def bk_tab_ok_def)
  show ?case
  proof (cases "\<not> bk_used s ! x \<or> bd_parent (bk_dev s x) \<noteq> Some disk")
    case True
    then have "cl_step disk x (n, s) = (n, s)" by (simp add: cl_step_def)
    then show ?thesis using Cons.IH[of s n] Cons.prems True by auto
  next
    case False
    let ?u = "blkdev_drop_slot x (swap_notify_device_gone x s)"
    have e: "cl_step disk x (n, s) = (n + 1, ?u)" using False by (simp add: cl_step_def)
    have u: "bk_ok ?u" using drop_part_ok[OF Cons.prems(1) x] False by simp
    have f: "bk_hw ?u = bk_hw s" "bk_boot ?u = bk_boot s" "bk_used ?u ! i = (i \<noteq> x \<and> bk_used s ! i)"
      "i \<noteq> x \<longrightarrow> bk_dev ?u i = bk_dev s i" if "i < BLKDEV_SLOTS" for i
      using that len x by (auto simp: blkdev_drop_slot_def bk_dev_def nth_list_update split: if_splits)
    have ih: "bk_ok t \<and> bk_hw t = bk_hw ?u \<and> bk_boot t = bk_boot ?u \<and>
      (\<forall>i < BLKDEV_SLOTS. bk_used t ! i = (bk_used ?u ! i \<and> \<not> (i \<in> set xs \<and> bd_parent (bk_dev ?u i) = Some disk)) \<and>
        (bk_used t ! i \<longrightarrow> bk_dev t i = bk_dev ?u i))"
      using Cons.IH[OF u, of "n + 1"] Cons.prems(2,3) e by simp
    show ?thesis using ih f x False by (metis list.set_intros(1) set_ConsD list.set_intros(2))
  qed
qed simp

lemma clear_partitions_ok:
  assumes "bk_ok s" "blkdev_clear_partitions disk s = (m, t)"
  shows "bk_ok t" "bk_hw t = bk_hw s" "bk_boot t = bk_boot s"
    and "i < BLKDEV_SLOTS \<Longrightarrow> bk_used t ! i = (bk_used s ! i \<and> bd_parent (bk_dev s i) \<noteq> Some disk)"
    and "i < BLKDEV_SLOTS \<Longrightarrow> bk_used t ! i \<Longrightarrow> bk_dev t i = bk_dev s i"
  using clear_fold[OF assms(1) _ assms(2)[unfolded blkdev_clear_partitions_def]] by (auto simp: atLeast0LessThan)

lemma find_ok: "blkdev_find name s = Some i \<Longrightarrow> i < BLKDEV_SLOTS \<and> bk_used s ! i \<and> bd_name (bk_dev s i) = name"
  by (auto simp: blkdev_find_def find_Some_iff)

lemma unregister_ok:
  assumes ok: "bk_ok s"
  shows "bk_ok (unregister_blkdev name s)"
proof (cases "blkdev_find name s")
  case (Some i)
  show ?thesis
  proof (cases "blkdev_is_disk (bk_dev s i)")
    case True
    let ?s1 = "fold (\<lambda>p s. snd (vfsdev_unregister_block_device p s)) (bk_parts i s) s"
    let ?s2 = "snd (vfsdev_unregister_block_device i ?s1)"
    obtain m s3 where c: "blkdev_clear_partitions i ?s2 = (m, s3)" by fastforce
    have same: "same_table s ?s2"
      by (rule same_table_trans[OF same_table_fold same_vfs_unregister]) (rule same_vfs_unregister)
    have ok2: "bk_ok ?s2" using ok bk_ok_same(1)[OF same] by simp
    note c3 = clear_partitions_ok[OF ok2 c]
    have i: "i < BLKDEV_SLOTS" "bk_used s ! i" "bd_parent (bk_dev ?s2 i) = None"
      using find_ok[OF Some] True bk_ok_same(3)[OF same] by (auto simp: blkdev_is_disk_def)
    have u: "bk_used ?s2 ! i" using same i by (simp add: same_table_def)
    have u3: "bk_used s3 ! i" "bd_parent (bk_dev s3 i) = None" using c3(4,5)[OF i(1)] i u by auto
    have t3: "bk_tab_ok s3" using c3(1) by (simp add: bk_ok_def)
    have sw: "bk_swap s3 \<noteq> Some i" using tab_swapD[OF t3] u3 by auto
    have "\<forall>j < BLKDEV_SLOTS. bk_used s3 ! j \<longrightarrow> bd_parent (bk_dev s3 j) \<noteq> Some i" using c3(4,5) by auto
    then have "bk_tab_ok (blkdev_drop_slot i s3)" by (rule drop_slot_ok(1)[OF t3 i(1) u3(1) sw])
    then show ?thesis using Some True c by (simp add: unregister_blkdev_def Let_def pick_boot_ok)
  qed (use ok Some in \<open>simp add: unregister_blkdev_def\<close>)
qed (use ok in \<open>simp add: unregister_blkdev_def\<close>)

lemma fmt_u_renders: "vs_full m va (37 # 117 # 0 # rest) 0 = Some (fmt_u (va 0))"
  by (simp add: vs_directive_def vs_parse_def vs_get_width_def vs_get_prec_def vs_convert_def va_unsigned_def vs_spec0_def
      vs_precision_def vs_layout_def Let_def fmt_u_def)

lemma word_nat_add: "word_of_nat (unat a + unat b) = a + (b :: 'a :: len word)"
  by simp

section \<open>Where a request goes\<close>

text \<open>
  The disk behind a device and the sector of that disk that a sector of the device is. \<open>sector_disk\<close>
  is what the block layer relies on from a storage driver: its callbacks act on an array \<open>sec\<close> of
  512-byte sectors.
\<close>

definition blk_root :: "nat \<Rightarrow> ('hw, 's) blk \<Rightarrow> nat" where
  "blk_root i s = (case bd_parent (bk_dev s i) of None \<Rightarrow> i | Some p \<Rightarrow> p)"

definition sector_disk :: "('hw \<Rightarrow> u32 \<Rightarrow> bytes) \<Rightarrow> 'hw blkdev \<Rightarrow> bool" where
  "sector_disk sec d \<longleftrightarrow>
     (\<exists>rd wr. bd_read d = Some rd \<and> bd_write d = Some wr \<and>
        (\<forall>l hw. l < bd_max_lba d \<longrightarrow> rd l hw = (sec hw l, hw)) \<and>
        (\<forall>l b hw. l < bd_max_lba d \<longrightarrow> length b = 512 \<longrightarrow> sec (wr l b hw) = (sec hw)(l := b))) \<and>
     (\<forall>hw l. l < bd_max_lba d \<longrightarrow> length (sec hw l) = 512)"

definition disk_byte :: "('hw \<Rightarrow> u32 \<Rightarrow> bytes) \<Rightarrow> 'hw \<Rightarrow> nat \<Rightarrow> byte" where
  "disk_byte sec hw k = sec hw (word_of_nat (k div 512)) ! (k mod 512)"

lemma used_dev_ok: "bk_ok s \<Longrightarrow> i < BLKDEV_SLOTS \<Longrightarrow> bk_used s ! i \<Longrightarrow> dev_ok s i"
  by (simp add: bk_ok_def bk_tab_ok_def)

lemma slots_Suc: obtains n where "BLKDEV_SLOTS = Suc (Suc n)"
  by (rule that[of 134]) (simp add: BLKDEV_SLOTS_def)

lemma root_ok:
  assumes "bk_ok s" "i < BLKDEV_SLOTS" "bk_used s ! i"
  shows "blk_root i s < BLKDEV_SLOTS" "bk_used s ! blk_root i s" "bd_parent (bk_dev s (blk_root i s)) = None"
    and "unat (bd_start_lba (bk_dev s i)) + unat (bd_max_lba (bk_dev s i)) \<le> unat (bd_max_lba (bk_dev s (blk_root i s)))"
  using used_dev_ok[OF assms] assms(2,3) by (auto simp: dev_ok_def blk_root_def split: option.splits)

lemma root_lba:
  assumes "bk_ok s" "i < BLKDEV_SLOTS" "bk_used s ! i" "lba < bd_max_lba (bk_dev s i)"
  shows "unat (bd_start_lba (bk_dev s i) + lba) = unat (bd_start_lba (bk_dev s i)) + unat lba"
    and "bd_start_lba (bk_dev s i) + lba < bd_max_lba (bk_dev s (blk_root i s))"
    and "\<not> unat (bd_start_lba (bk_dev s i)) + unat lba > 0xFFFFFFFF"
proof -
  have "unat (bd_start_lba (bk_dev s i)) + unat lba < unat (bd_max_lba (bk_dev s (blk_root i s)))"
    using root_ok(4)[OF assms(1-3)] assms(4) by (simp add: word_less_nat_alt)
  moreover have "unat (bd_max_lba (bk_dev s (blk_root i s))) < 2 ^ 32" using unsigned_less[of "bd_max_lba (bk_dev s (blk_root i s))"] by simp
  ultimately have lt: "unat (bd_start_lba (bk_dev s i)) + unat lba < 2 ^ 32"
    "unat (bd_start_lba (bk_dev s i)) + unat lba < unat (bd_max_lba (bk_dev s (blk_root i s)))" by simp_all
  show u: "unat (bd_start_lba (bk_dev s i) + lba) = unat (bd_start_lba (bk_dev s i)) + unat lba"
    using lt(1) by (simp add: unat_word_ariths)
  show "bd_start_lba (bk_dev s i) + lba < bd_max_lba (bk_dev s (blk_root i s))"
    using lt(2) u by (simp add: word_less_nat_alt)
  show "\<not> unat (bd_start_lba (bk_dev s i)) + unat lba > 0xFFFFFFFF" using lt(1) by simp
qed

lemma read_eq:
  assumes "bk_ok s" "i < BLKDEV_SLOTS" "bk_used s ! i"
  shows "blkdev_read (Some i) lba buf s = Some
    (if lba < bd_max_lba (bk_dev s i) then
       (case bd_read (bk_dev s (blk_root i s)) of None \<Rightarrow> (-1, buf, s)
        | Some f \<Rightarrow> (0, fst (f (bd_start_lba (bk_dev s i) + lba) (bk_hw s)),
                     s\<lparr> bk_hw := snd (f (bd_start_lba (bk_dev s i) + lba) (bk_hw s)) \<rparr>))
     else (-1, buf, s))"
proof (cases "lba < bd_max_lba (bk_dev s i)")
  case True
  note l = root_lba[OF assms True]
  obtain n where n: "BLKDEV_SLOTS = Suc (Suc n)" by (rule slots_Suc)
  show ?thesis
    using used_dev_ok[OF assms] True l root_ok(3)[OF assms]
    by (cases "bd_parent (bk_dev s i)")
      (auto simp: blkdev_read_def n dev_ok_def blk_root_def Let_def word_nat_add split: option.splits prod.splits)
next
  case False
  obtain n where n: "BLKDEV_SLOTS = Suc (Suc n)" by (rule slots_Suc)
  show ?thesis using False by (simp add: blkdev_read_def n)
qed

lemma write_eq:
  assumes "bk_ok s" "i < BLKDEV_SLOTS" "bk_used s ! i"
  shows "blkdev_write (Some i) lba buf s = Some
    (if lba < bd_max_lba (bk_dev s i) then
       (case bd_write (bk_dev s (blk_root i s)) of None \<Rightarrow> (-1, s)
        | Some f \<Rightarrow> (0, s\<lparr> bk_hw := f (bd_start_lba (bk_dev s i) + lba) buf (bk_hw s) \<rparr>))
     else (-1, s))"
proof (cases "lba < bd_max_lba (bk_dev s i)")
  case True
  note l = root_lba[OF assms True]
  obtain n where n: "BLKDEV_SLOTS = Suc (Suc n)" by (rule slots_Suc)
  show ?thesis
    using used_dev_ok[OF assms] True l root_ok(3)[OF assms]
    by (cases "bd_parent (bk_dev s i)")
      (auto simp: blkdev_write_def n dev_ok_def blk_root_def Let_def word_nat_add split: option.splits)
next
  case False
  obtain n where n: "BLKDEV_SLOTS = Suc (Suc n)" by (rule slots_Suc)
  show ?thesis using False by (simp add: blkdev_write_def n)
qed

text \<open>The same for a disk whose callbacks keep the contract.\<close>

lemma sector_diskD:
  assumes "sector_disk sec d" "l < bd_max_lba d"
  shows "length (sec hw l) = 512" "\<exists>f. bd_read d = Some f \<and> f l hw = (sec hw l, hw)"
    "\<exists>f. bd_write d = Some f \<and> (length b = 512 \<longrightarrow> sec (f l b hw) = (sec hw)(l := b))"
  using assms by (auto simp: sector_disk_def)

lemma hw_same:
  "bk_dev (s\<lparr> bk_hw := h \<rparr>) = bk_dev s" "blk_root i (s\<lparr> bk_hw := h \<rparr>) = blk_root i s" "bk_ok (s\<lparr> bk_hw := h \<rparr>) = bk_ok s"
proof -
  show d: "bk_dev (s\<lparr> bk_hw := h \<rparr>) = bk_dev s" by (simp add: bk_dev_def fun_eq_iff)
  show "blk_root i (s\<lparr> bk_hw := h \<rparr>) = blk_root i s" by (simp add: blk_root_def d)
  have u: "bk_used (s\<lparr> bk_hw := h \<rparr>) = bk_used s" by simp
  have "dev_ok (s\<lparr> bk_hw := h \<rparr>) = dev_ok s" unfolding fun_eq_iff dev_ok_def d u by simp
  then show "bk_ok (s\<lparr> bk_hw := h \<rparr>) = bk_ok s" unfolding bk_ok_def bk_tab_ok_def boot_ok_def d u by simp
qed

lemma hw_id [simp]: "s\<lparr> bk_hw := bk_hw s \<rparr> = s" for s :: "('hw, 's) blk"
  by simp

lemma read_sec:
  assumes "bk_ok s" "i < BLKDEV_SLOTS" "bk_used s ! i" "lba < bd_max_lba (bk_dev s i)"
    and "sector_disk sec (bk_dev s (blk_root i s))"
  shows "blkdev_read (Some i) lba buf s = Some (0, sec (bk_hw s) (bd_start_lba (bk_dev s i) + lba), s)"
proof -
  obtain f where "bd_read (bk_dev s (blk_root i s)) = Some f"
    "f (bd_start_lba (bk_dev s i) + lba) (bk_hw s) = (sec (bk_hw s) (bd_start_lba (bk_dev s i) + lba), bk_hw s)"
    using sector_diskD(2)[OF assms(5) root_lba(2)[OF assms(1-4)]] by blast
  then show ?thesis using assms(4) by (simp add: read_eq[OF assms(1-3)])
qed

lemma write_sec:
  assumes "bk_ok s" "i < BLKDEV_SLOTS" "bk_used s ! i" "lba < bd_max_lba (bk_dev s i)"
    and "sector_disk sec (bk_dev s (blk_root i s))" "length b = 512"
  shows "\<exists>h. blkdev_write (Some i) lba b s = Some (0, s\<lparr> bk_hw := h \<rparr>) \<and>
    sec h = (sec (bk_hw s))(bd_start_lba (bk_dev s i) + lba := b)"
proof -
  obtain f where "bd_write (bk_dev s (blk_root i s)) = Some f"
    "sec (f (bd_start_lba (bk_dev s i) + lba) b (bk_hw s)) = (sec (bk_hw s))(bd_start_lba (bk_dev s i) + lba := b)"
    using sector_diskD(3)[OF assms(5) root_lba(2)[OF assms(1-4)]] assms(6) by blast
  then show ?thesis using assms(4)
    by (intro exI[of _ "f (bd_start_lba (bk_dev s i) + lba) b (bk_hw s)"]) (simp add: write_eq[OF assms(1-3)])
qed

text \<open>The bytes of one sector, as bytes of the disk.\<close>

lemma disk_byte_sector:
  fixes l :: u32
  assumes "k < 512"
  shows "disk_byte sec hw (unat l * 512 + k) = sec hw l ! k"
  using assms by (simp add: disk_byte_def)

lemma sector_slice:
  fixes l :: u32
  assumes "soff + n \<le> 512" "length (sec hw l) = 512"
  shows "slice soff n (sec hw l) = map (disk_byte sec hw) [unat l * 512 + soff ..< unat l * 512 + soff + n]"
proof (rule nth_equalityI)
  show "length (slice soff n (sec hw l)) = length (map (disk_byte sec hw) [unat l * 512 + soff ..< unat l * 512 + soff + n])"
    using assms by simp
  fix k assume "k < length (slice soff n (sec hw l))"
  then have k: "k < n" "soff + k < 512" using assms by auto
  then show "slice soff n (sec hw l) ! k = map (disk_byte sec hw) [unat l * 512 + soff ..< unat l * 512 + soff + n] ! k"
    using disk_byte_sector[OF k(2), of sec hw l] assms by (simp add: slice_def add.assoc)
qed

lemma disk_byte_upd:
  fixes l :: u32
  assumes sec: "sec h = (sec hw)(l := take soff old @ slice dn n buf @ drop (soff + n) old)"
    and len: "length old = 512" "soff + n \<le> 512" "dn + n \<le> length buf" and old: "old = sec hw l" and k: "k < 2 ^ 32 * 512"
  shows "disk_byte sec h k = (if unat l * 512 + soff \<le> k \<and> k < unat l * 512 + soff + n
     then buf ! (dn + (k - (unat l * 512 + soff))) else disk_byte sec hw k)"
proof (cases "k div 512 = unat l")
  case True
  then have k: "k = unat l * 512 + k mod 512" "word_of_nat (k div 512) = l"
    using div_mult_mod_eq[of k 512] by (metis, simp)
  let ?m = "k mod 512"
  have nth: "(take soff old @ slice dn n buf @ drop (soff + n) old) ! ?m =
    (if ?m < soff then old ! ?m else if ?m < soff + n then buf ! (dn + (?m - soff)) else old ! ?m)"
    using len by (auto simp: nth_append slice_def)
  have "disk_byte sec h k = (if ?m < soff then old ! ?m else if ?m < soff + n then buf ! (dn + (?m - soff)) else old ! ?m)"
    unfolding disk_byte_def k(2) sec by (simp only: fun_upd_same nth)
  moreover have "disk_byte sec hw k = old ! ?m" by (simp only: disk_byte_def k(2) old)
  moreover have "unat l * 512 + soff \<le> k \<longleftrightarrow> soff \<le> ?m" "k < unat l * 512 + soff + n \<longleftrightarrow> ?m < soff + n"
    "k - (unat l * 512 + soff) = ?m - soff" using k(1) by linarith+
  ultimately show ?thesis by auto
next
  case False
  have "k div 512 < 2 ^ 32" using k by simp
  then have "word_of_nat (k div 512) \<noteq> l" using False unat_of_nat32[of "k div 512"] by auto
  moreover have "\<not> (unat l * 512 + soff \<le> k \<and> k < unat l * 512 + soff + n)" using False len(2) by auto
  ultimately show ?thesis by (simp only: disk_byte_def sec fun_upd_other if_False not_False_eq_True)
qed

lemma rw_loop_read:
  assumes ok: "bk_ok s" "i < BLKDEV_SLOTS" "bk_used s ! i" and sd: "sector_disk sec (bk_dev s (blk_root i s))"
    and "soff < 512" "dn \<le> sz" "sz \<le> length buf" "unat lba * 512 + soff + (sz - dn) \<le> unat (bd_max_lba (bk_dev s i)) * 512"
  defines "B \<equiv> unat (bd_start_lba (bk_dev s i)) * 512"
  shows "blk_rw_loop False i lba soff sz dn buf s = Some (sz, take dn buf @
    map (disk_byte sec (bk_hw s)) [B + unat lba * 512 + soff ..< B + unat lba * 512 + soff + (sz - dn)] @ drop sz buf, s)"
  using assms(5-8)
proof (induction "sz - dn" arbitrary: lba soff dn buf rule: less_induct)
  case less
  show ?case
  proof (cases "dn = sz")
    case True
    then show ?thesis by (simp add: blk_rw_loop.simps)
  next
    case False
    let ?c = "min (sz - dn) (512 - soff)" and ?l = "bd_start_lba (bk_dev s i) + lba"
    have lt: "lba < bd_max_lba (bk_dev s i)" using less.prems False by (simp add: word_less_nat_alt)
    note l = root_lba[OF ok lt]
    have len: "length (sec (bk_hw s) ?l) = 512" by (rule sector_diskD(1)[OF sd l(2)])
    let ?b = "take dn buf @ slice soff ?c (sec (bk_hw s) ?l) @ drop (dn + ?c) buf"
    have lb: "length ?b = length buf" using less.prems False len by (simp add: min_def)
    have l1: "unat (lba + 1) = unat lba + 1"
      using lt unat_lt32[of "bd_max_lba (bk_dev s i)"] unat_add_nat32[of lba 1] by (simp add: word_less_nat_alt)
    have e: "blk_rw_loop False i lba soff sz dn buf s = blk_rw_loop False i (lba + 1) 0 sz (dn + ?c) ?b s"
      using less.prems False read_sec[OF ok lt sd]
      by (subst blk_rw_loop.simps) (simp add: Let_def)
    have sl: "slice soff ?c (sec (bk_hw s) ?l) = map (disk_byte sec (bk_hw s)) [B + unat lba * 512 + soff ..< B + unat lba * 512 + soff + ?c]"
      using sector_slice[of soff ?c sec "bk_hw s" ?l] less.prems len l(1) by (simp add: B_def algebra_simps)
    let ?r = "B + unat lba * 512 + soff"
    show ?thesis
    proof (cases "sz - dn \<le> 512 - soff")
      case True
      then have c: "?c = sz - dn" by simp
      have "blk_rw_loop False i (lba + 1) 0 sz (dn + ?c) ?b s = Some (sz, ?b, s)"
        using less.prems by (subst blk_rw_loop.simps) (simp add: c)
      then show ?thesis using e sl c less.prems by simp
    next
      case F: False
      then have c: "?c = 512 - soff" by simp
      have m: "sz - (dn + ?c) < sz - dn" "dn + ?c \<le> sz" "sz \<le> length ?b"
        "unat (lba + 1) * 512 + 0 + (sz - (dn + ?c)) \<le> unat (bd_max_lba (bk_dev s i)) * 512"
        using lb unfolding l1 c using less.prems F len by simp_all
      have ih: "blk_rw_loop False i (lba + 1) 0 sz (dn + ?c) ?b s = Some (sz, take (dn + ?c) ?b @
        map (disk_byte sec (bk_hw s)) [B + unat (lba + 1) * 512 + 0 ..< B + unat (lba + 1) * 512 + 0 + (sz - (dn + ?c))] @ drop sz ?b, s)"
        using less.hyps[OF m(1) _ m(2,3,4)] by simp
      have r: "B + unat (lba + 1) * 512 + 0 = ?r + ?c" "?r + ?c + (sz - (dn + ?c)) = ?r + (sz - dn)"
        using l1 less.prems F by (simp_all add: c)
      have tk: "take (dn + ?c) ?b = take dn buf @ slice soff ?c (sec (bk_hw s) ?l)"
        using less.prems F len by (simp add: c)
      have dr: "drop sz ?b = drop sz buf" using less.prems F len by (simp add: c)
      have up: "[?r ..< ?r + ?c] @ [?r + ?c ..< ?r + (sz - dn)] = [?r ..< ?r + (sz - dn)]"
        using upt_add_eq_append[of ?r "?r + ?c" "sz - dn - ?c"] F by (simp add: c add.assoc)
      show ?thesis
        unfolding e ih r tk dr by (simp only: sl up[symmetric] map_append append_assoc)
    qed
  qed
qed

lemma rw_loop_write_step:
  assumes ok: "bk_ok s" "i < BLKDEV_SLOTS" "bk_used s ! i" and sd: "sector_disk sec (bk_dev s (blk_root i s))"
    and lt: "lba < bd_max_lba (bk_dev s i)" and b: "soff < 512" "dn < sz" "sz \<le> length buf"
  defines "c \<equiv> min (sz - dn) (512 - soff)" and "A \<equiv> unat (bd_start_lba (bk_dev s i)) * 512 + unat lba * 512 + soff"
  shows "\<exists>h. blk_rw_loop True i lba soff sz dn buf s = blk_rw_loop True i (lba + 1) 0 sz (dn + c) buf (s\<lparr> bk_hw := h \<rparr>) \<and>
    (\<forall>k < 2 ^ 32 * 512. disk_byte sec h k = (if A \<le> k \<and> k < A + c then buf ! (dn + (k - A)) else disk_byte sec (bk_hw s) k))"
proof -
  note l = root_lba[OF ok lt]
  let ?l = "bd_start_lba (bk_dev s i) + lba"
  define old where "old = sec (bk_hw s) ?l"
  define new where "new = take soff old @ slice dn c buf @ drop (soff + c) old"
  have c: "soff + c \<le> 512" "dn + c \<le> length buf" "0 < c" using b by (auto simp: c_def)
  have len: "length old = 512" unfolding old_def by (rule sector_diskD(1)[OF sd l(2)])
  then have ln: "length new = 512" using c by (simp add: new_def)
  obtain h where h: "blkdev_write (Some i) lba new s = Some (0, s\<lparr> bk_hw := h \<rparr>)" "sec h = (sec (bk_hw s))(?l := new)"
    using write_sec[OF ok lt sd ln] by blast
  have full: "new = slice dn 512 buf" if "soff = 0" "c = 512" using that len by (simp add: new_def)
  have rd: "blkdev_read (Some i) lba (replicate 512 0) s = Some (0, old, s)"
    unfolding old_def by (rule read_sec[OF ok lt sd])
  have "blk_rw_loop True i lba soff sz dn buf s = blk_rw_loop True i (lba + 1) 0 sz (dn + c) buf (s\<lparr> bk_hw := h \<rparr>)"
    using b full rd h(1) unfolding new_def
    by (subst blk_rw_loop.simps) (auto simp: Let_def c_def[symmetric])
  moreover have "disk_byte sec h k = (if A \<le> k \<and> k < A + c then buf ! (dn + (k - A)) else disk_byte sec (bk_hw s) k)"
    if "k < 2 ^ 32 * 512" for k
    using disk_byte_upd[OF h(2)[unfolded new_def] len c(1,2) old_def that] l(1) by (simp add: A_def algebra_simps)
  ultimately show ?thesis by blast
qed

lemma rw_loop_write:
  assumes ok: "bk_ok s" "i < BLKDEV_SLOTS" "bk_used s ! i" and sd: "sector_disk sec (bk_dev s (blk_root i s))"
    and "soff < 512" "dn \<le> sz" "sz \<le> length buf" "unat lba * 512 + soff + (sz - dn) \<le> unat (bd_max_lba (bk_dev s i)) * 512"
  shows "\<exists>h. blk_rw_loop True i lba soff sz dn buf s = Some (sz, buf, s\<lparr> bk_hw := h \<rparr>) \<and>
    (let A = unat (bd_start_lba (bk_dev s i)) * 512 + unat lba * 512 + soff in
     \<forall>k < 2 ^ 32 * 512. disk_byte sec h k =
       (if A \<le> k \<and> k < A + (sz - dn) then buf ! (dn + (k - A)) else disk_byte sec (bk_hw s) k))"
  using assms
proof (induction "sz - dn" arbitrary: lba soff dn s rule: less_induct)
  case less
  show ?case
  proof (cases "dn = sz")
    case True
    then show ?thesis by (intro exI[of _ "bk_hw s"]) (auto simp: blk_rw_loop.simps Let_def)
  next
    case False
    let ?c = "min (sz - dn) (512 - soff)" and ?A = "unat (bd_start_lba (bk_dev s i)) * 512 + unat lba * 512 + soff"
    have lt: "lba < bd_max_lba (bk_dev s i)" using less.prems(5-8) False by (simp add: word_less_nat_alt)
    have dn: "dn < sz" using less.prems(6) False by simp
    obtain h where h: "blk_rw_loop True i lba soff sz dn buf s = blk_rw_loop True i (lba + 1) 0 sz (dn + ?c) buf (s\<lparr> bk_hw := h \<rparr>)"
      "\<And>k. k < 2 ^ 32 * 512 \<Longrightarrow> disk_byte sec h k = (if ?A \<le> k \<and> k < ?A + ?c then buf ! (dn + (k - ?A)) else disk_byte sec (bk_hw s) k)"
      using rw_loop_write_step[OF less.prems(1-4) lt less.prems(5) dn less.prems(7)] by blast
    let ?s = "s\<lparr> bk_hw := h \<rparr>"
    show ?thesis
    proof (cases "sz - dn \<le> 512 - soff")
      case True
      then have "blk_rw_loop True i (lba + 1) 0 sz (dn + ?c) buf ?s = Some (sz, buf, ?s)"
        using less.prems(6) by (subst blk_rw_loop.simps) simp
      then show ?thesis using h True by (intro exI[of _ h]) (simp add: Let_def)
    next
      case F: False
      have l1: "unat (lba + 1) = unat lba + 1"
        using lt unat_lt32[of "bd_max_lba (bk_dev s i)"] unat_add_nat32[of lba 1] by (simp add: word_less_nat_alt)
      have pre: "bk_ok ?s" "bk_used ?s ! i" "sector_disk sec (bk_dev ?s (blk_root i ?s))"
        "unat (lba + 1) * 512 + 0 + (sz - (dn + ?c)) \<le> unat (bd_max_lba (bk_dev ?s i)) * 512"
        using less.prems F l1 by (simp_all add: hw_same)
      have m: "sz - (dn + ?c) < sz - dn" "dn + ?c \<le> sz" using less.prems(5,6) F by auto
      let ?A' = "unat (bd_start_lba (bk_dev s i)) * 512 + unat (lba + 1) * 512 + 0"
      obtain h' where h': "blk_rw_loop True i (lba + 1) 0 sz (dn + ?c) buf ?s = Some (sz, buf, ?s\<lparr> bk_hw := h' \<rparr>)"
        "\<And>k. k < 2 ^ 32 * 512 \<Longrightarrow> disk_byte sec h' k =
          (if ?A' \<le> k \<and> k < ?A' + (sz - (dn + ?c)) then buf ! (dn + ?c + (k - ?A')) else disk_byte sec h k)"
        using less.hyps[OF m(1) pre(1) less.prems(2) pre(2,3) _ m(2) less.prems(7) pre(4)]
        by (auto simp: hw_same Let_def)
      have A: "?A' = ?A + ?c" using l1 F less.prems(5) by simp
      have "disk_byte sec h' k = (if ?A \<le> k \<and> k < ?A + (sz - dn) then buf ! (dn + (k - ?A)) else disk_byte sec (bk_hw s) k)"
        if k: "k < 2 ^ 32 * 512" for k
      proof -
        have "?A + ?c + (sz - (dn + ?c)) = ?A + (sz - dn)" using m(2) by simp
        moreover have "?A + ?c \<le> k \<Longrightarrow> dn + ?c + (k - (?A + ?c)) = dn + (k - ?A)" by simp
        moreover have "?c \<le> sz - dn" by simp
        ultimately show ?thesis unfolding h'(2)[OF k] h(2)[OF k] A by (smt (verit) add_le_cancel_left le_add1 le_trans less_le_trans not_le)
      qed
      then show ?thesis using h(1) h'(1) by (intro exI[of _ h']) (simp add: Let_def)
    qed
  qed
qed

section \<open>Byte access is access to an interval of the disk\<close>

definition blk_span :: "nat \<Rightarrow> u32 \<Rightarrow> u32 \<Rightarrow> ('hw, 's) blk \<Rightarrow> nat" where
  "blk_span i off sz s = min (unat sz) (unat (bd_max_lba (bk_dev s i)) * 512 - unat off)"

definition blk_base :: "nat \<Rightarrow> ('hw, 's) blk \<Rightarrow> nat" where
  "blk_base i s = unat (bd_start_lba (bk_dev s i)) * 512"

lemma byte_rw_eq:
  "blk_byte_rw wr i off sz buf s =
    (if blk_span i off sz s = 0 then Some (0, buf, s)
     else map_option (\<lambda>(dn, buf', s'). (sint (word_of_nat dn :: u32), buf', s'))
       (blk_rw_loop wr i (word_of_nat (unat off div 512)) (unat off mod 512) (blk_span i off sz s) 0 buf s))"
  by (auto simp: blk_byte_rw_def blk_span_def Let_def min_def unat_eq_0)

lemma off_div: "unat (word_of_nat (unat off div 512) :: u32) = unat off div 512" for off :: u32
  using unat_lt32[of off] by (simp add: unat_of_nat32)

lemma span_pre:
  assumes "blk_span i off sz s \<noteq> 0"
  shows "unat (word_of_nat (unat off div 512) :: u32) * 512 + unat off mod 512 + (blk_span i off sz s - 0)
    \<le> unat (bd_max_lba (bk_dev s i)) * 512"
  using assms div_mult_mod_eq[of "unat off" 512] by (auto simp: off_div blk_span_def)

lemma blk_read_bytes:
  fixes off :: u32
  assumes ok: "bk_ok s" "i < BLKDEV_SLOTS" "bk_used s ! i" "sector_disk sec (bk_dev s (blk_root i s))"
    and len: "unat sz \<le> length buf"
  defines "n \<equiv> blk_span i off sz s" and "A \<equiv> blk_base i s + unat off"
  shows "blk_read i off sz buf s =
    Some (sint (word_of_nat n :: u32), map (disk_byte sec (bk_hw s)) [A ..< A + n] @ drop n buf, s)"
proof (cases "n = 0")
  case False
  have "n \<le> length buf" using len by (simp add: n_def blk_span_def)
  then have "blk_rw_loop False i (word_of_nat (unat off div 512)) (unat off mod 512) n 0 buf s =
      Some (n, map (disk_byte sec (bk_hw s)) [A ..< A + n] @ drop n buf, s)"
    using rw_loop_read[OF ok, of "unat off mod 512" 0 n buf "word_of_nat (unat off div 512)"]
      span_pre[of i off sz s] False div_mult_mod_eq[of "unat off" 512]
    by (simp add: n_def off_div A_def blk_base_def add.assoc)
  then show ?thesis using False by (simp add: blk_read_def byte_rw_eq n_def)
qed (simp add: blk_read_def byte_rw_eq n_def)

lemma blk_write_bytes:
  fixes off :: u32
  assumes ok: "bk_ok s" "i < BLKDEV_SLOTS" "bk_used s ! i" "sector_disk sec (bk_dev s (blk_root i s))"
    and len: "unat sz \<le> length buf"
  defines "n \<equiv> blk_span i off sz s" and "A \<equiv> blk_base i s + unat off"
  shows "\<exists>h. blk_write i off sz buf s = Some (sint (word_of_nat n :: u32), buf, s\<lparr> bk_hw := h \<rparr>) \<and>
    (\<forall>k < 2 ^ 32 * 512. disk_byte sec h k = (if A \<le> k \<and> k < A + n then buf ! (k - A) else disk_byte sec (bk_hw s) k))"
proof (cases "n = 0")
  case False
  have l: "n \<le> length buf" using len by (simp add: n_def blk_span_def)
  have A: "unat (bd_start_lba (bk_dev s i)) * 512 + unat off div 512 * 512 + unat off mod 512 = A"
    by (simp add: A_def blk_base_def add.assoc)
  obtain h where h: "blk_rw_loop True i (word_of_nat (unat off div 512)) (unat off mod 512) n 0 buf s = Some (n, buf, s\<lparr> bk_hw := h \<rparr>)"
    "\<forall>k < 2 ^ 32 * 512. disk_byte sec h k = (if A \<le> k \<and> k < A + n then buf ! (k - A) else disk_byte sec (bk_hw s) k)"
    using rw_loop_write[OF ok, of "unat off mod 512" 0 n buf "word_of_nat (unat off div 512)"]
      span_pre[of i off sz s] False l unfolding n_def[symmetric] off_div Let_def A by auto
  then show ?thesis using False by (intro exI[of _ h]) (simp add: blk_write_def byte_rw_eq n_def)
qed (auto simp: blk_write_def byte_rw_eq n_def intro!: exI[of _ "bk_hw s"])

end
