(* ===== verification/Part.thy ===== *)
theory Part
  imports Blkdev "HOL-Library.Monad_Syntax"
begin

text \<open>
  The partition layer, \<open>Cact/drivers/block/blkdev/part.c\<close>: reading an MBR or GPT label through the
  disk's own callbacks and exposing one device per entry. Multi-byte fields are little-endian.

  For each scan of a disk, \<open>gm_ok\<close> is whether \<open>kmalloc\<close> gives the buffer for the GPT entries, and
  \<open>gm_past\<close> is the memory behind that buffer, which the code reads for entries shorter than the
  entry structure. \<open>None\<close> is a scan that does not return.
\<close>

section \<open>Definitions\<close>

abbreviation (input) BLKDEV_MAX_LBA :: u64 where "BLKDEV_MAX_LBA \<equiv> 0xFFFFFFFF"
abbreviation (input) PART_TABLE_NONE :: u8 where "PART_TABLE_NONE \<equiv> 0"
abbreviation (input) PART_TABLE_MBR :: u8 where "PART_TABLE_MBR \<equiv> 1"
abbreviation (input) PART_TABLE_GPT :: u8 where "PART_TABLE_GPT \<equiv> 2"

definition GPT_SWAP_GUID :: bytes where
  "GPT_SWAP_GUID = [0x6D, 0xFD, 0x57, 0x06, 0xAB, 0xA4, 0x43, 0xC4, 0x84, 0xE5, 0x09, 0x33, 0xC8, 0x4B, 0x4F, 0x4F]"

record mbr_part =
  mp_type :: u8
  mp_lba_start :: u32
  mp_lba_len :: u32

definition mbr_entry :: "bytes \<Rightarrow> nat \<Rightarrow> mbr_part" where
  "mbr_entry lba0 i = (let o1 = 446 + i * 16 in
     \<lparr> mp_type = lba0 ! (o1 + 4), mp_lba_start = rd32 lba0 (o1 + 8), mp_lba_len = rd32 lba0 (o1 + 12) \<rparr>)"

record gpt_hdr =
  gh_header_size :: u32
  gh_entries_lba :: u64
  gh_num_entries :: u32
  gh_entry_size :: u32

definition gpt_header :: "bytes \<Rightarrow> gpt_hdr" where
  "gpt_header lba1 = \<lparr> gh_header_size = rd32 lba1 12, gh_entries_lba = rd64 lba1 72,
     gh_num_entries = rd32 lba1 80, gh_entry_size = rd32 lba1 84 \<rparr>"

record gpt_entry =
  ge_type_guid :: bytes
  ge_first_lba :: u64
  ge_last_lba :: u64

record gpt_mem =
  gm_ok :: bool
  gm_past :: "nat \<Rightarrow> byte"

definition gpt_entry_at :: "gpt_mem \<Rightarrow> bytes \<Rightarrow> nat \<Rightarrow> gpt_entry" where
  "gpt_entry_at gm entry_buf off =
     (let b = map (\<lambda>k. if k < length entry_buf then entry_buf ! k else gm_past gm (k - length entry_buf)) [off ..< off + 128]
      in \<lparr> ge_type_guid = take 16 b, ge_first_lba = rd64 b 32, ge_last_lba = rd64 b 40 \<rparr>)"

definition all_zero16 :: "bytes \<Rightarrow> bool" where
  "all_zero16 p \<longleftrightarrow> (\<forall>i \<in> set [0..<16]. p ! i = 0)"

definition mem_eq :: "bytes \<Rightarrow> bytes \<Rightarrow> nat \<Rightarrow> bool" where
  "mem_eq a b n \<longleftrightarrow> (\<forall>i \<in> set [0..<n]. a ! i = b ! i)"

definition mbr_type_extended :: "u8 \<Rightarrow> bool" where
  "mbr_type_extended t \<longleftrightarrow> t = 0x05 \<or> t = 0x0F \<or> t = 0x85"

definition part_devfs_add :: "nat \<Rightarrow> ('hw, 's) blk \<Rightarrow> ('hw, 's) blk" where
  "part_devfs_add p s =
     (if bd_devfs_registered (bk_dev s p) then s
      else let (r, s1) = vfsdev_register_block_device p s
        in if r = 0 then bk_upd p (\<lambda>d. d\<lparr> bd_devfs_registered := True \<rparr>) s1 else s1)"

definition part_devfs_remove :: "nat \<Rightarrow> ('hw, 's) blk \<Rightarrow> ('hw, 's) blk" where
  "part_devfs_remove p s =
     (if \<not> bd_devfs_registered (bk_dev s p) then s
      else bk_upd p (\<lambda>d. d\<lparr> bd_devfs_registered := False \<rparr>) (snd (vfsdev_unregister_block_device p s)))"

definition part_drop_disk :: "nat \<Rightarrow> ('hw, 's) blk \<Rightarrow> ('hw, 's) blk" where
  "part_drop_disk disk s = snd (blkdev_clear_partitions disk (fold part_devfs_remove (bk_parts disk s) s))"

definition part_create ::
  "nat \<Rightarrow> u32 \<Rightarrow> u64 \<Rightarrow> u64 \<Rightarrow> u8 \<Rightarrow> u8 \<Rightarrow> bool \<Rightarrow> ('hw, 's) blk \<Rightarrow> nat option \<times> ('hw, 's) blk" where
  "part_create disk part_no start_lba len_lba ptype table is_swap s =
     (if start_lba > BLKDEV_MAX_LBA \<or> len_lba > BLKDEV_MAX_LBA then (None, s)
      else case blkdev_add_partition disk part_no (ucast start_lba) (ucast len_lba) ptype table s of
        (None, s1) \<Rightarrow> (None, s1)
      | (Some p, s1) \<Rightarrow>
          (let s2 = part_devfs_add p s1 in (Some p, if is_swap then snd (swap_enable_device p s2) else s2)))"

definition count_new :: "nat option \<times> ('hw, 's) blk \<Rightarrow> nat \<Rightarrow> nat \<times> ('hw, 's) blk" where
  "count_new r n = (case r of (None, s) \<Rightarrow> (n, s) | (Some _, s) \<Rightarrow> (n + 1, s))"

definition mbr_step :: "nat \<Rightarrow> bytes \<Rightarrow> nat \<Rightarrow> nat \<times> ('hw, 's) blk \<Rightarrow> nat \<times> ('hw, 's) blk" where
  "mbr_step disk lba0 i = (\<lambda>(n, s).
     (let pe = mbr_entry lba0 i in
      if mp_type pe = 0 \<or> mp_lba_start pe = 0 \<or> mp_lba_len pe = 0 then (n, s)
      else if mbr_type_extended (mp_type pe) \<or> mp_type pe = 0xEE then (n, s)
      else count_new (part_create disk (word_of_nat (i + 1)) (ucast (mp_lba_start pe)) (ucast (mp_lba_len pe))
             (mp_type pe) PART_TABLE_MBR (mp_type pe = 0x82) s) n))"

definition part_parse_mbr :: "nat \<Rightarrow> bytes \<Rightarrow> ('hw, 's) blk \<Rightarrow> nat \<times> ('hw, 's) blk" where
  "part_parse_mbr disk lba0 s = fold (mbr_step disk lba0) [0..<4] (0, s)"

text \<open>The loop that reads the entry array; \<open>buf\<close> is \<open>entry_buf\<close>, \<open>have\<close> its filled part.\<close>

function gpt_read_entries ::
  "nat \<Rightarrow> nat \<Rightarrow> nat \<Rightarrow> u32 \<Rightarrow> bytes \<Rightarrow> ('hw, 's) blk \<Rightarrow> (bytes \<times> ('hw, 's) blk) option" where
  "gpt_read_entries disk need hv cur buf s =
     (if \<not> (hv < need \<and> cur < bd_max_lba (bk_dev s disk)) then Some (buf, s)
      else case blkdev_read (Some disk) cur (replicate 512 0) s of None \<Rightarrow> None
      | Some (r, sec, s1) \<Rightarrow>
          if r \<noteq> 0 then Some (buf, s1)
          else let tk = min (need - hv) 512
            in gpt_read_entries disk need (hv + tk) (cur + 1) (take hv buf @ take tk sec @ drop (hv + tk) buf) s1)"
  by pat_completeness auto
termination
  by (relation "measure (\<lambda>(disk, need, hv, cur, buf, s). need - hv)") auto

declare gpt_read_entries.simps [simp del]

definition gpt_step :: "nat \<Rightarrow> gpt_mem \<Rightarrow> bytes \<Rightarrow> nat \<Rightarrow> nat \<Rightarrow> nat \<times> ('hw, 's) blk \<Rightarrow> nat \<times> ('hw, 's) blk" where
  "gpt_step disk gm entry_buf entry_size i = (\<lambda>(n, s).
     (let ge = gpt_entry_at gm entry_buf (i * entry_size) in
      if all_zero16 (ge_type_guid ge) then (n, s)
      else if ge_first_lba ge = 0 \<or> ge_last_lba ge < ge_first_lba ge then (n, s)
      else count_new (part_create disk (word_of_nat i + 1) (ge_first_lba ge) (ge_last_lba ge - ge_first_lba ge + 1)
             0 PART_TABLE_GPT (ge_type_guid ge = GPT_SWAP_GUID) s) n))"

definition part_parse_gpt :: "gpt_mem \<Rightarrow> nat \<Rightarrow> bytes \<Rightarrow> ('hw, 's) blk \<Rightarrow> (nat \<times> ('hw, 's) blk) option" where
  "part_parse_gpt gm disk lba1 s =
     (let hdr = gpt_header lba1; es = unat (gh_entry_size hdr) in
      if gh_header_size hdr < 92 \<or> gh_header_size hdr > 512 then Some (0, s)
      else if gh_num_entries hdr = 0 \<or> gh_num_entries hdr > 128 then Some (0, s)
      else if gh_entry_size hdr = 0 \<or> gh_entry_size hdr > 512 then Some (0, s)
      else if gh_entries_lba hdr > BLKDEV_MAX_LBA \<or> gh_entries_lba hdr = 0 then Some (0, s)
      else if \<not> gm_ok gm then Some (0, s)
      else let count = min (unat (gh_num_entries hdr)) BLKDEV_PARTS_PER_DISK; need = count * es in
      do {
        (entry_buf, s1) \<leftarrow> gpt_read_entries disk need 0 (ucast (gh_entries_lba hdr)) (replicate need 0) s;
        Some (fold (gpt_step disk gm entry_buf es) [0..<count] (0, s1))
      })"

definition part_scan_disk :: "gpt_mem \<Rightarrow> nat \<Rightarrow> ('hw, 's) blk \<Rightarrow> (int \<times> ('hw, 's) blk) option" where
  "part_scan_disk gm disk s =
     (if bd_parent (bk_dev s disk) \<noteq> None then Some (-1, s)
      else if bd_max_lba (bk_dev s disk) < 2 then Some (0, s)
      else do {
        (r0, lba0, s1) \<leftarrow> blkdev_read (Some disk) 0 (replicate 512 0) (part_drop_disk disk s);
        if r0 \<noteq> 0 then Some (-2, s1)
        else do {
          (r1, lba1, s2) \<leftarrow> blkdev_read (Some disk) 1 (replicate 512 0) s1;
          if r1 \<noteq> 0 then Some (-2, s2)
          else let s3 = bk_upd disk (\<lambda>d. d\<lparr> bd_table := PART_TABLE_NONE \<rparr>) s2 in
          if mem_eq lba1 (cs ''EFI PART'') 8 then do {
            (found, s4) \<leftarrow> part_parse_gpt gm disk lba1 s3;
            Some (int found, bk_upd disk (\<lambda>d. d\<lparr> bd_table := PART_TABLE_GPT \<rparr>) s4)
          }
          else if lba0 ! 510 = 0x55 \<and> lba0 ! 511 = 0xAA then
            (let (found, s4) = part_parse_mbr disk lba0 s3
             in Some (int found, bk_upd disk (\<lambda>d. d\<lparr> bd_table := PART_TABLE_MBR \<rparr>) s4))
          else Some (0, s3)
        }
      })"

fun part_scan_list :: "(nat \<Rightarrow> gpt_mem) \<Rightarrow> nat list \<Rightarrow> int \<Rightarrow> ('hw, 's) blk \<Rightarrow> (int \<times> ('hw, 's) blk) option" where
  "part_scan_list gms [] tot s = Some (tot, s)"
| "part_scan_list gms (i # is) tot s =
     (case blkdev_by_id (word_of_nat i) s of None \<Rightarrow> part_scan_list gms is tot s
      | Some d \<Rightarrow>
          if bd_parent (bk_dev s d) \<noteq> None then part_scan_list gms is tot s
          else do {
            (n, s1) \<leftarrow> part_scan_disk (gms i) d s;
            part_scan_list gms is (if n > 0 then tot + n else tot) s1
          })"

definition part_scan_all :: "(nat \<Rightarrow> gpt_mem) \<Rightarrow> ('hw, 's) blk \<Rightarrow> (int \<times> ('hw, 's) blk) option" where
  "part_scan_all gms s = part_scan_list gms [0..<BLKDEV_SLOTS] 0 s"

definition part_rescan :: "gpt_mem \<Rightarrow> bytes \<Rightarrow> ('hw, 's) blk \<Rightarrow> (int \<times> ('hw, 's) blk) option" where
  "part_rescan gm name s =
     (case blkdev_find name s of None \<Rightarrow> Some (-1, s)
      | Some d \<Rightarrow> if bd_parent (bk_dev s d) \<noteq> None then Some (-1, s) else part_scan_disk gm d s)"

definition part_auto_scan :: "gpt_mem \<Rightarrow> nat \<Rightarrow> ('hw, 's) blk \<Rightarrow> ('hw, 's) blk option" where
  "part_auto_scan gm disk s = map_option snd (part_scan_disk gm disk (snd (vfsdev_register_block_device disk s)))"

section \<open>What a scan keeps\<close>

text \<open>
  The fields of a device that are fixed once it is in the table, and states that agree on them, on
  the slots and on the hardware.
\<close>

definition core :: "'hw blkdev \<Rightarrow> 'hw blkdev" where
  "core d = d\<lparr> bd_devfs_registered := False, bd_table := 0, bd_ident := [] \<rparr>"

definition same_core :: "('hw, 's) blk \<Rightarrow> ('hw, 's) blk \<Rightarrow> bool" where
  "same_core s t \<longleftrightarrow> bk_used t = bk_used s \<and> bk_count t = bk_count s \<and> bk_boot t = bk_boot s \<and> bk_hw t = bk_hw s \<and>
     length (bk_devices t) = length (bk_devices s) \<and> (\<forall>i. core (bk_dev t i) = core (bk_dev s i))"

lemma coreD:
  assumes "core d = core e"
  shows "bd_name d = bd_name e" "bd_id d = bd_id e" "bd_max_lba d = bd_max_lba e" "bd_parent d = bd_parent e"
    "bd_start_lba d = bd_start_lba e" "bd_part_no d = bd_part_no e" "bd_ptype d = bd_ptype e" "bd_read d = bd_read e"
    "bd_write d = bd_write e"
  using assms by (cases d, cases e, simp add: core_def)+

lemma same_core_refl: "same_core s s"
  by (simp add: same_core_def)

lemma same_core_trans: "same_core s t \<Longrightarrow> same_core t u \<Longrightarrow> same_core s u"
  by (simp add: same_core_def)

lemma same_core_table: "same_table s t \<Longrightarrow> same_core s t"
  by (simp add: same_core_def same_table_def bk_dev_def)

lemma bk_dev_upd: "bk_dev (bk_upd p f s) i = (if i = p \<and> p < length (bk_devices s) then f (bk_dev s p) else bk_dev s i)"
  by (cases "p < length (bk_devices s)") (auto simp: bk_dev_def bk_upd_def nth_list_update list_update_beyond)

lemma same_core_upd: "(\<And>d. core (f d) = core d) \<Longrightarrow> same_core s (bk_upd p f s)"
  by (simp add: same_core_def bk_dev_upd) (simp add: bk_upd_def)

lemma core_upds [simp]:
  "core (d\<lparr> bd_devfs_registered := b \<rparr>) = core d" "core (d\<lparr> bd_table := w \<rparr>) = core d" "core (d\<lparr> bd_ident := x \<rparr>) = core d"
  by (simp_all add: core_def)

lemma swap_same [simp]: "bk_swap (bk_upd p f s) = bk_swap s"
  by (simp add: bk_upd_def)

lemma same_core_ok:
  assumes "same_core s t" "bk_ok s"
    and sw: "\<And>p. bk_swap t = Some p \<Longrightarrow> bk_swap s = Some p \<or> p < BLKDEV_SLOTS \<and> bk_used s ! p \<and> bd_parent (bk_dev s p) \<noteq> None"
  shows "bk_ok t"
proof -
  have e: "bk_used t = bk_used s" "bk_count t = bk_count s" "bk_boot t = bk_boot s" "length (bk_devices t) = length (bk_devices s)"
    using assms(1) by (simp_all add: same_core_def)
  have c: "core (bk_dev t i) = core (bk_dev s i)" for i using assms(1) by (simp add: same_core_def)
  note f = coreD[OF c]
  have d: "dev_ok t = dev_ok s" unfolding dev_ok_def fun_eq_iff f e by simp
  have b: "boot_ok t = boot_ok s" unfolding boot_ok_def f e by simp
  have k: "bk_tab_ok s" "boot_ok s" using assms(2) by (simp_all add: bk_ok_def)
  have "bk_tab_ok t"
    using k(1) sw tab_swapD[OF k(1)] unfolding bk_tab_ok_def d e f by blast
  then show ?thesis using k b by (simp add: bk_ok_def)
qed

lemma table_swap: "same_table s t \<Longrightarrow> bk_swap t = bk_swap s"
  by (simp add: same_table_def)

lemma devfs_add_core: "same_core s (part_devfs_add p s)" "bk_swap (part_devfs_add p s) = bk_swap s"
proof -
  obtain r s1 where v: "vfsdev_register_block_device p s = (r, s1)" by fastforce
  then have t: "same_table s s1" using same_vfs_register[of s p] by simp
  show "same_core s (part_devfs_add p s)"
    using same_core_table[OF t] same_core_upd[of "\<lambda>d. d\<lparr> bd_devfs_registered := True \<rparr>" s1 p]
    by (auto simp: part_devfs_add_def v same_core_refl intro: same_core_trans)
  show "bk_swap (part_devfs_add p s) = bk_swap s" using table_swap[OF t] by (simp add: part_devfs_add_def v)
qed

lemma devfs_remove_core: "same_core s (part_devfs_remove p s)" "bk_swap (part_devfs_remove p s) = bk_swap s"
proof -
  have t: "same_table s (snd (vfsdev_unregister_block_device p s))" by (rule same_vfs_unregister)
  show "same_core s (part_devfs_remove p s)"
    using same_core_table[OF t] same_core_upd[of "\<lambda>d. d\<lparr> bd_devfs_registered := False \<rparr>" _ p]
    by (auto simp: part_devfs_remove_def same_core_refl intro: same_core_trans)
  show "bk_swap (part_devfs_remove p s) = bk_swap s" using table_swap[OF t] by (simp add: part_devfs_remove_def)
qed

lemma devfs_remove_fold:
  "same_core s (fold part_devfs_remove ps s) \<and> bk_swap (fold part_devfs_remove ps s) = bk_swap s"
  by (induction ps arbitrary: s) (auto simp: same_core_refl devfs_remove_core intro: same_core_trans devfs_remove_core)

lemma drop_disk_ok:
  assumes ok: "bk_ok s"
  shows "bk_ok (part_drop_disk disk s)" "bk_hw (part_drop_disk disk s) = bk_hw s"
    and "i < BLKDEV_SLOTS \<Longrightarrow> bk_used (part_drop_disk disk s) ! i = (bk_used s ! i \<and> bd_parent (bk_dev s i) \<noteq> Some disk)"
    and "i < BLKDEV_SLOTS \<Longrightarrow> bk_used (part_drop_disk disk s) ! i \<Longrightarrow> core (bk_dev (part_drop_disk disk s) i) = core (bk_dev s i)"
proof -
  let ?s = "fold part_devfs_remove (bk_parts disk s) s"
  have c: "same_core s ?s" "bk_swap ?s = bk_swap s" using devfs_remove_fold[of s "bk_parts disk s"] by auto
  have k: "bk_ok ?s" by (rule same_core_ok[OF c(1) ok]) (simp add: c(2))
  have f: "bk_used ?s = bk_used s" "bk_hw ?s = bk_hw s" "\<And>i. core (bk_dev ?s i) = core (bk_dev s i)"
    "\<And>i. bd_parent (bk_dev ?s i) = bd_parent (bk_dev s i)"
    using c(1) coreD(4) unfolding same_core_def by blast+
  obtain m t where m: "blkdev_clear_partitions disk ?s = (m, t)" by fastforce
  have t: "part_drop_disk disk s = t" by (simp add: part_drop_disk_def m)
  note cl = clear_partitions_ok[OF k m]
  show "bk_ok (part_drop_disk disk s)" "bk_hw (part_drop_disk disk s) = bk_hw s" using cl(1,2) f t by simp_all
  show "i < BLKDEV_SLOTS \<Longrightarrow> bk_used (part_drop_disk disk s) ! i = (bk_used s ! i \<and> bd_parent (bk_dev s i) \<noteq> Some disk)"
    using cl(4) f t by simp
  show "i < BLKDEV_SLOTS \<Longrightarrow> bk_used (part_drop_disk disk s) ! i \<Longrightarrow> core (bk_dev (part_drop_disk disk s) i) = core (bk_dev s i)"
    using cl(5) f t by simp
qed

section \<open>Creating a partition\<close>

lemma add_partition_new:
  assumes ok: "bk_ok s" and a: "blkdev_add_partition disk part_no st ln ptype table s = (Some p, t)"
  shows "p < BLKDEV_SLOTS" "\<not> bk_used s ! p" "bk_hw t = bk_hw s" "bk_swap t = bk_swap s" "bk_count t = bk_count s + 1"
    "bk_used t = (bk_used s)[p := True]" "\<And>j. j \<noteq> p \<Longrightarrow> bk_dev t j = bk_dev s j"
    "bd_parent (bk_dev t p) = Some disk" "bd_start_lba (bk_dev t p) = st" "bd_max_lba (bk_dev t p) = ln"
    "bd_part_no (bk_dev t p) = part_no" "bd_ptype (bk_dev t p) = ptype"
    "bd_name (bk_dev t p) = take 14 (blkdev_partition_name (bk_dev s disk) part_no 16)"
proof -
  have al: "alloc_slot s = Some p"
    using a by (auto simp: blkdev_add_partition_def Let_def split: if_splits option.splits)
  show p: "p < BLKDEV_SLOTS" "\<not> bk_used s ! p" using alloc_slot_Some[OF al] by auto
  have pl: "p < length (bk_devices s)" using p(1) ok by (simp add: bk_ok_def bk_tab_ok_def)
  show "bk_hw t = bk_hw s" "bk_swap t = bk_swap s" "bk_count t = bk_count s + 1" "bk_used t = (bk_used s)[p := True]"
    "\<And>j. j \<noteq> p \<Longrightarrow> bk_dev t j = bk_dev s j" "bd_parent (bk_dev t p) = Some disk" "bd_start_lba (bk_dev t p) = st"
    "bd_max_lba (bk_dev t p) = ln" "bd_part_no (bk_dev t p) = part_no" "bd_ptype (bk_dev t p) = ptype"
    "bd_name (bk_dev t p) = take 14 (blkdev_partition_name (bk_dev s disk) part_no 16)"
    using a pl by (auto simp: blkdev_add_partition_def Let_def bk_dev_def split: if_splits option.splits)
qed





lemma create_None: "part_create disk part_no st ln ptype table sw s = (None, t) \<Longrightarrow> t = s"
  by (auto simp: part_create_def blkdev_add_partition_def Let_def split: if_splits option.splits prod.splits)

lemma create_Some:
  assumes ok: "bk_ok s" and disk: "disk < BLKDEV_SLOTS" "bk_used s ! disk"
    and c: "part_create disk part_no st ln ptype table sw s = (Some p, t)"
  shows "bk_ok t" "bk_hw t = bk_hw s" "p < BLKDEV_SLOTS" "\<not> bk_used s ! p" "bk_used t = (bk_used s)[p := True]"
    "bk_count t = bk_count s + 1" "\<And>j. j \<noteq> p \<Longrightarrow> core (bk_dev t j) = core (bk_dev s j)"
    "bd_parent (bk_dev t p) = Some disk" "bd_start_lba (bk_dev t p) = ucast st" "bd_max_lba (bk_dev t p) = ucast ln"
    "bd_part_no (bk_dev t p) = part_no" "bd_ptype (bk_dev t p) = ptype"
    "bd_name (bk_dev t p) = take 14 (blkdev_partition_name (bk_dev s disk) part_no 16)"
proof -
  obtain u where a: "blkdev_add_partition disk part_no (ucast st) (ucast ln) ptype table s = (Some p, u)"
    and t: "t = (if sw then snd (swap_enable_device p (part_devfs_add p u)) else part_devfs_add p u)"
    using c by (auto simp: part_create_def Let_def split: if_splits prod.splits option.splits)
  note n = add_partition_new[OF ok a]
  have ku: "bk_ok u" by (rule add_partition_ok(1)[OF ok disk a])
  let ?v = "part_devfs_add p u"
  have v: "same_core u ?v" "bk_swap ?v = bk_swap u" by (rule devfs_add_core)+
  have kv: "bk_ok ?v" by (rule same_core_ok[OF v(1) ku]) (simp add: v(2))
  have len: "length (bk_used s) = BLKDEV_SLOTS" using ok by (simp add: bk_ok_def bk_tab_ok_def)
  have uv: "bk_used ?v = (bk_used s)[p := True]" "bk_count ?v = bk_count s + 1" "bk_hw ?v = bk_hw s"
    and cv: "\<And>j. core (bk_dev ?v j) = core (bk_dev u j)"
    using v(1) n(3,5,6) by (simp_all add: same_core_def)
  have "bk_used ?v ! p" using uv(1) n(1) len by simp
  then show "bk_ok t" using kv enable_ok[OF kv n(1)] t by simp
  have hw: "bk_hw (snd (swap_enable_device p w)) = bk_hw w" "bk_dev (snd (swap_enable_device p w)) = bk_dev w" for w :: "('a, 'b) blk"
    by (simp_all add: swap_enable_device_def Let_def bk_dev_def fun_eq_iff)
  have d: "bk_dev t = bk_dev ?v" "bk_hw t = bk_hw ?v" "bk_used t = bk_used ?v" "bk_count t = bk_count ?v" using t hw by simp_all
  note f = coreD[OF cv]
  show "bk_hw t = bk_hw s" "p < BLKDEV_SLOTS" "\<not> bk_used s ! p" "bk_used t = (bk_used s)[p := True]" "bk_count t = bk_count s + 1"
    "\<And>j. j \<noteq> p \<Longrightarrow> core (bk_dev t j) = core (bk_dev s j)"
    "bd_parent (bk_dev t p) = Some disk" "bd_start_lba (bk_dev t p) = ucast st" "bd_max_lba (bk_dev t p) = ucast ln"
    "bd_part_no (bk_dev t p) = part_no" "bd_ptype (bk_dev t p) = ptype"
    "bd_name (bk_dev t p) = take 14 (blkdev_partition_name (bk_dev s disk) part_no 16)"
    using n uv cv f d by simp_all
qed

text \<open>
  Both label formats give a list of candidate entries; \<open>cand i\<close> is what entry \<open>i\<close> asks for, if anything.
\<close>

type_synonym candidate = "u64 \<times> u64 \<times> u8 \<times> u8 \<times> bool"

definition cand_step :: "nat \<Rightarrow> (nat \<Rightarrow> candidate option) \<Rightarrow> nat \<Rightarrow> nat \<times> ('hw, 's) blk \<Rightarrow> nat \<times> ('hw, 's) blk" where
  "cand_step disk cand i = (\<lambda>(n, s). case cand i of None \<Rightarrow> (n, s)
     | Some (st, ln, pt, tb, sw) \<Rightarrow> count_new (part_create disk (word_of_nat (i + 1)) st ln pt tb sw s) n)"

definition mbr_cand :: "bytes \<Rightarrow> nat \<Rightarrow> candidate option" where
  "mbr_cand lba0 i = (let pe = mbr_entry lba0 i in
     if mp_type pe = 0 \<or> mp_lba_start pe = 0 \<or> mp_lba_len pe = 0 \<or> mbr_type_extended (mp_type pe) \<or> mp_type pe = 0xEE then None
     else Some (ucast (mp_lba_start pe), ucast (mp_lba_len pe), mp_type pe, PART_TABLE_MBR, mp_type pe = 0x82))"

definition gpt_cand :: "gpt_mem \<Rightarrow> bytes \<Rightarrow> nat \<Rightarrow> nat \<Rightarrow> candidate option" where
  "gpt_cand gm entry_buf entry_size i = (let ge = gpt_entry_at gm entry_buf (i * entry_size) in
     if all_zero16 (ge_type_guid ge) \<or> ge_first_lba ge = 0 \<or> ge_last_lba ge < ge_first_lba ge then None
     else Some (ge_first_lba ge, ge_last_lba ge - ge_first_lba ge + 1, 0, PART_TABLE_GPT, ge_type_guid ge = GPT_SWAP_GUID))"

lemma mbr_step_cand: "mbr_step disk lba0 = cand_step disk (mbr_cand lba0)"
  by (auto simp: fun_eq_iff mbr_step_def cand_step_def mbr_cand_def Let_def split: prod.splits)

lemma gpt_step_cand: "gpt_step disk gm buf es = cand_step disk (gpt_cand gm buf es)"
  by (auto simp: fun_eq_iff gpt_step_def cand_step_def gpt_cand_def Let_def add.commute split: prod.splits)

lemma cand_step_cases:
  assumes "cand_step disk cand i (n, s) = (m, t)"
  obtains (skip) "m = n" "t = s" "\<And>st ln pt tb sw. cand i = Some (st, ln, pt, tb, sw) \<Longrightarrow>
      part_create disk (word_of_nat (i + 1)) st ln pt tb sw s = (None, s)"
  | (new) st ln pt tb sw p where "cand i = Some (st, ln, pt, tb, sw)" "m = n + 1"
      "part_create disk (word_of_nat (i + 1)) st ln pt tb sw s = (Some p, t)"
proof (cases "cand i")
  case None
  then show ?thesis using assms skip by (simp add: cand_step_def)
next
  case (Some x)
  obtain st ln pt tb sw where x: "x = (st, ln, pt, tb, sw)" by (cases x) auto
  obtain r u where c: "part_create disk (word_of_nat (i + 1)) st ln pt tb sw s = (r, u)" by fastforce
  show ?thesis
  proof (cases r)
    case None
    then show ?thesis using assms skip Some x c create_None[of disk _ st ln pt tb sw s u]
      by (auto simp: cand_step_def count_new_def)
  next
    case r: (Some p)
    show ?thesis by (rule new[of st ln pt tb sw p]) (use assms Some x c r in \<open>simp_all add: cand_step_def count_new_def\<close>)
  qed
qed

definition kept :: "('hw, 's) blk \<Rightarrow> ('hw, 's) blk \<Rightarrow> bool" where
  "kept s t \<longleftrightarrow> (\<forall>j < BLKDEV_SLOTS. bk_used s ! j \<longrightarrow> bk_used t ! j \<and> core (bk_dev t j) = core (bk_dev s j))"

lemma kept_refl: "kept s s" and kept_trans: "kept s t \<Longrightarrow> kept t u \<Longrightarrow> kept s u"
  by (simp_all add: kept_def)

lemma kept_core: "same_core s t \<Longrightarrow> kept s t"
  by (simp add: same_core_def kept_def)


lemma cand_step_ok:
  assumes "bk_ok s" "disk < BLKDEV_SLOTS" "bk_used s ! disk" "cand_step disk cand i (n, s) = (m, t)"
  shows "bk_ok t \<and> bk_hw t = bk_hw s \<and> kept s t"
  using assms(4)
proof (cases rule: cand_step_cases)
  case (new st ln pt tb sw p)
  note c = create_Some[OF assms(1-3) new(3)]
  have "kept s t" unfolding kept_def
  proof (intro allI impI)
    fix j assume j: "j < BLKDEV_SLOTS" "bk_used s ! j"
    then have "j \<noteq> p" using c(4) by auto
    then show "bk_used t ! j \<and> core (bk_dev t j) = core (bk_dev s j)" using c(5,7) j by simp
  qed
  then show ?thesis using c(1,2) by simp
qed (use assms(1) kept_refl in simp)

lemma cand_fold_ok:
  assumes "bk_ok s" "disk < BLKDEV_SLOTS" "bk_used s ! disk" "fold (cand_step disk cand) xs (n, s) = (m, t)"
  shows "bk_ok t \<and> bk_hw t = bk_hw s \<and> kept s t"
  using assms
proof (induction xs arbitrary: n s)
  case (Cons x xs)
  obtain k u where u: "cand_step disk cand x (n, s) = (k, u)" by fastforce
  have c: "bk_ok u \<and> bk_hw u = bk_hw s \<and> kept s u" by (rule cand_step_ok[OF Cons.prems(1-3) u])
  then have "bk_used u ! disk" using Cons.prems(2,3) by (simp add: kept_def)
  then show ?case using Cons.IH[of u k] Cons.prems c u kept_trans by auto
qed (simp add: kept_refl)

section \<open>The partitions after a scan are those of the label\<close>

definition parts_of :: "nat \<Rightarrow> ('hw, 's) blk \<Rightarrow> nat set" where
  "parts_of disk s = {p. p < BLKDEV_SLOTS \<and> bk_used s ! p \<and> bd_parent (bk_dev s p) = Some disk}"




lemma parts_of_set: "set (bk_parts disk s) = parts_of disk s" and part_count_card: "blkdev_part_count disk s = card (parts_of disk s)"
proof -
  show e: "set (bk_parts disk s) = parts_of disk s" by (auto simp: bk_parts_def parts_of_def)
  have "distinct (bk_parts disk s)" by (simp add: bk_parts_def)
  then show "blkdev_part_count disk s = card (parts_of disk s)"
    by (simp add: blkdev_part_count_def e[symmetric] distinct_card)
qed

lemma finite_parts [simp]: "finite (parts_of disk s)"
  by (simp add: parts_of_set[symmetric])















section \<open>A scan returns, and what it reads\<close>


lemma read_total:
  assumes "bk_ok s" "i < BLKDEV_SLOTS" "bk_used s ! i"
  shows "\<exists>r b h. blkdev_read (Some i) lba buf s = Some (r, b, s\<lparr> bk_hw := h \<rparr>)"
  unfolding read_eq[OF assms] by (cases "lba < bd_max_lba (bk_dev s i)"; cases "bd_read (bk_dev s (blk_root i s))") (auto intro: exI[of _ "bk_hw s"])

lemma gpt_read_total:
  assumes "bk_ok s" "disk < BLKDEV_SLOTS" "bk_used s ! disk"
  shows "\<exists>b h. gpt_read_entries disk need hv cur buf s = Some (b, s\<lparr> bk_hw := h \<rparr>)"
  using assms
proof (induction "need - hv" arbitrary: hv cur buf s rule: less_induct)
  case less
  obtain r b h where r: "blkdev_read (Some disk) cur (replicate 512 0) s = Some (r, b, s\<lparr> bk_hw := h \<rparr>)"
    using read_total[OF less.prems] by blast
  let ?s = "s\<lparr> bk_hw := h \<rparr>" and ?k = "min (need - hv) 512"
  show ?case
  proof (cases "hv < need \<and> cur < bd_max_lba (bk_dev s disk) \<and> r = 0")
    case True
    let ?b = "take hv buf @ take ?k b @ drop (hv + ?k) buf"
    have e: "gpt_read_entries disk need hv cur buf s = gpt_read_entries disk need (hv + ?k) (cur + 1) ?b ?s"
      using True r by (subst gpt_read_entries.simps) (simp add: Let_def)
    have "need - (hv + ?k) < need - hv" using True by (auto simp: min_def)
    then have "\<exists>b' h'. gpt_read_entries disk need (hv + ?k) (cur + 1) ?b ?s = Some (b', ?s\<lparr> bk_hw := h' \<rparr>)"
      by (rule less.hyps) (use less.prems in \<open>simp_all add: hw_same\<close>)
    then show ?thesis unfolding e by auto
  next
    case False
    then show ?thesis using r by (subst gpt_read_entries.simps) (auto intro: exI[of _ "bk_hw s"])
  qed
qed


lemma parse_mbr_ok:
  assumes "bk_ok s" "disk < BLKDEV_SLOTS" "bk_used s ! disk" "part_parse_mbr disk lba0 s = (n, t)"
  shows "bk_ok t \<and> kept s t"
  using cand_fold_ok[OF assms(1-3)] assms(4) by (auto simp: part_parse_mbr_def mbr_step_cand)

lemma hw_kept: "kept s (s\<lparr> bk_hw := h \<rparr>)"
  by (simp add: kept_def hw_same)

lemma parse_gpt_ok:
  assumes "bk_ok s" "disk < BLKDEV_SLOTS" "bk_used s ! disk"
  shows "\<exists>n t. part_parse_gpt gm disk lba1 s = Some (n, t) \<and> bk_ok t \<and> kept s t"
proof -
  have r: "\<exists>b h. gpt_read_entries disk need 0 cur buf s = Some (b, s\<lparr> bk_hw := h \<rparr>)" for need cur buf
    by (rule gpt_read_total[OF assms])
  have f: "\<exists>n t. fold (gpt_step disk gm b es) xs (0, s\<lparr> bk_hw := h \<rparr>) = (n, t) \<and> bk_ok t \<and> kept s t" for b es xs h
  proof -
    obtain n t where t: "fold (gpt_step disk gm b es) xs (0, s\<lparr> bk_hw := h \<rparr>) = (n, t)" by fastforce
    then have "bk_ok t \<and> kept (s\<lparr> bk_hw := h \<rparr>) t"
      using cand_fold_ok[of "s\<lparr> bk_hw := h \<rparr>" disk] assms by (auto simp: gpt_step_cand hw_same)
    then show ?thesis using t kept_trans[OF hw_kept[of s h], of t] by simp
  qed
  let ?hdr = "gpt_header lba1"
  let ?need = "min (unat (gh_num_entries ?hdr)) 16 * unat (gh_entry_size ?hdr)"
  obtain b h where b: "gpt_read_entries disk ?need 0 (ucast (gh_entries_lba ?hdr)) (replicate ?need 0) s = Some (b, s\<lparr> bk_hw := h \<rparr>)"
    using r by blast
  obtain n t where t: "fold (gpt_step disk gm b (unat (gh_entry_size ?hdr))) [0..<min (unat (gh_num_entries ?hdr)) 16] (0, s\<lparr> bk_hw := h \<rparr>) = (n, t)"
    "bk_ok t" "kept s t" using f by blast
  have "part_parse_gpt gm disk lba1 s \<in> {Some (0, s), Some (n, t)}"
    unfolding part_parse_gpt_def Let_def b Option.bind.simps prod.case t(1) by simp
  then show ?thesis using t(2,3) assms(1) kept_refl[of s] by auto
qed

definition scan_kept :: "nat \<Rightarrow> ('hw, 's) blk \<Rightarrow> ('hw, 's) blk \<Rightarrow> bool" where
  "scan_kept disk s t \<longleftrightarrow> (\<forall>j < BLKDEV_SLOTS. bk_used s ! j \<and> bd_parent (bk_dev s j) \<noteq> Some disk \<longrightarrow>
     bk_used t ! j \<and> core (bk_dev t j) = core (bk_dev s j))"

lemma scan_kept_drop: "bk_ok s \<Longrightarrow> kept (part_drop_disk disk s) t \<Longrightarrow> scan_kept disk s t"
  using drop_disk_ok(3,4)[of s _ disk] unfolding scan_kept_def kept_def by metis

lemma upd_table: "same_core s (bk_upd disk (\<lambda>d. d\<lparr> bd_table := v \<rparr>) s)"
  by (rule same_core_upd) simp

lemma upd_table_ok: "bk_ok s \<Longrightarrow> bk_ok (bk_upd disk (\<lambda>d. d\<lparr> bd_table := v \<rparr>) s)"
  by (rule same_core_ok[OF upd_table]) simp_all

lemma scan_total:
  assumes ok: "bk_ok s" and disk: "disk < BLKDEV_SLOTS" "bk_used s ! disk"
  shows "\<exists>r t. part_scan_disk gm disk s = Some (r, t) \<and> bk_ok t \<and> scan_kept disk s t"
proof (cases "bd_parent (bk_dev s disk) \<noteq> None \<or> bd_max_lba (bk_dev s disk) < 2")
  case True
  then show ?thesis using ok by (auto simp: part_scan_disk_def scan_kept_def)
next
  case False
  let ?d = "part_drop_disk disk s"
  have k0: "bk_ok ?d" by (rule drop_disk_ok(1)[OF ok])
  have u: "bk_used ?d ! disk" using drop_disk_ok(3)[OF ok disk(1)] disk(2) False by auto
  obtain r0 lba0 h0 where r0: "blkdev_read (Some disk) 0 (replicate 512 0) ?d = Some (r0, lba0, ?d\<lparr> bk_hw := h0 \<rparr>)"
    using read_total[OF k0 disk(1) u] by blast
  let ?s1 = "?d\<lparr> bk_hw := h0 \<rparr>"
  have s1: "bk_ok ?s1" "bk_used ?s1 ! disk" using k0 u by (simp_all add: hw_same)
  obtain r1 lba1 h1 where r1: "blkdev_read (Some disk) 1 (replicate 512 0) ?s1 = Some (r1, lba1, ?s1\<lparr> bk_hw := h1 \<rparr>)"
    using read_total[OF s1(1) disk(1) s1(2)] by blast
  let ?s2 = "?s1\<lparr> bk_hw := h1 \<rparr>" let ?s3 = "bk_upd disk (\<lambda>d. d\<lparr> bd_table := PART_TABLE_NONE \<rparr>) ?s2"
  have s2: "bk_ok ?s2" unfolding hw_same(3) by (rule k0)
  have s3: "bk_ok ?s3" "bk_used ?s3 ! disk" using upd_table_ok[OF s2] u by (simp_all add: bk_upd_def)
  have kd: "kept ?d ?s1" "kept ?d ?s2" "kept ?d ?s3"
    by (rule hw_kept kept_trans[OF hw_kept hw_kept] kept_trans[OF kept_trans[OF hw_kept hw_kept] kept_core[OF upd_table]])+
  obtain n4 s4 where g: "part_parse_gpt gm disk lba1 ?s3 = Some (n4, s4)" "bk_ok s4" "kept ?s3 s4"
    using parse_gpt_ok[OF s3(1) disk(1) s3(2)] by blast
  obtain n5 s5 where m: "part_parse_mbr disk lba0 ?s3 = (n5, s5)" by fastforce
  have m5: "bk_ok s5" "kept ?s3 s5" using parse_mbr_ok[OF s3(1) disk(1) s3(2) m] by auto
  have fin: "bk_ok (bk_upd disk (\<lambda>d. d\<lparr> bd_table := v \<rparr>) w) \<and> scan_kept disk s (bk_upd disk (\<lambda>d. d\<lparr> bd_table := v \<rparr>) w)"
    if "bk_ok w" "kept ?s3 w" for v w
    using upd_table_ok[OF that(1)] scan_kept_drop[OF ok kept_trans[OF kept_trans[OF kd(3) that(2)] kept_core[OF upd_table]]] by simp
  show ?thesis
    using False r0 r1 g(1) m s1(1) s2 s3(1) fin[OF g(2,3)] fin[OF m5] scan_kept_drop[OF ok] kd
    by (simp add: part_scan_disk_def Let_def)
qed







section \<open>The label as bytes of the disk\<close>














section \<open>Reachable states\<close>

text \<open>
  The states of the block layer: disks come and go, with or without the partition layer armed, disks
  are scanned again, identities and nodes are published, and everything else in the system changes
  the hardware, the device filesystem, the mounts and what the swap subsystem answers.
\<close>

inductive blk_reach :: "('hw, 's) blk \<Rightarrow> bool" where
  init: "bk_swap s = None \<Longrightarrow> blk_reach (blkdev_init s)"
| register: "blk_reach s \<Longrightarrow> register_blkdev (\<lambda>_. Some) name mx rd wr s = Some (r, t) \<Longrightarrow> blk_reach t"
| register_probe: "blk_reach s \<Longrightarrow> register_blkdev (part_auto_scan gm) name mx rd wr s = Some (r, t) \<Longrightarrow> blk_reach t"
| unregister: "blk_reach s \<Longrightarrow> blk_reach (unregister_blkdev name s)"
| ident: "blk_reach s \<Longrightarrow> blk_reach (snd (blkdev_set_ident name idn s))"
| rescan: "blk_reach s \<Longrightarrow> part_rescan gm name s = Some (r, t) \<Longrightarrow> blk_reach t"
| scan_all: "blk_reach s \<Longrightarrow> part_scan_all gms s = Some (r, t) \<Longrightarrow> blk_reach t"
| nodes: "blk_reach s \<Longrightarrow> blk_reach (vfsdev_init s)"
| hardware: "blk_reach s \<Longrightarrow> blk_reach (s\<lparr> bk_hw := h \<rparr>)"
| outside: "blk_reach s \<Longrightarrow> blk_reach (s\<lparr> bk_devfs := fs, bk_mounted := ms, bk_swap_rc := f \<rparr>)"

lemma init_ok: "bk_swap s = None \<Longrightarrow> bk_ok (blkdev_init s)"
  by (simp add: blkdev_init_def bk_ok_def bk_tab_ok_def boot_ok_def count_list_0_iff)

lemma auto_scan_ok:
  assumes "bk_ok u" "i < BLKDEV_SLOTS" "bk_used u ! i"
  shows "\<exists>v. part_auto_scan gm i u = Some v \<and> bk_ok v"
proof -
  have t: "same_table u (snd (vfsdev_register_block_device i u))" by (rule same_vfs_register)
  then have "bk_used (snd (vfsdev_register_block_device i u)) ! i" using assms(3) by (simp add: same_table_def)
  then show ?thesis using scan_total[OF _ assms(2)] bk_ok_same(1)[OF t] assms(1) by (fastforce simp: part_auto_scan_def)
qed

lemma register_probe_ok: "bk_ok s \<Longrightarrow> \<exists>r t. register_blkdev (part_auto_scan gm) name mx rd wr s = Some (r, t) \<and> bk_ok t"
  by (rule register_ok, assumption, rule auto_scan_ok)

lemma set_ident_ok: "bk_ok s \<Longrightarrow> bk_ok (snd (blkdev_set_ident name idn s))"
proof -
  assume ok: "bk_ok s"
  let ?u = "\<lambda>i. bk_upd i (\<lambda>d. d\<lparr> bd_ident := take 62 idn \<rparr>) s"
  have "bk_ok (?u i)" for i by (rule same_core_ok[OF same_core_upd ok]) simp_all
  then have "bk_ok (vfsdev_set_block_ident i (?u i))" for i using bk_ok_same(1)[OF same_set_block_ident] by blast
  then show ?thesis using ok by (simp add: blkdev_set_ident_def split: option.split)
qed

lemma vfsdev_init_ok: "bk_ok s \<Longrightarrow> bk_ok (vfsdev_init s)"
proof -
  have "same_table s (vfsdev_init s)" unfolding vfsdev_init_def
    by (rule same_table_fold) (simp add: same_table_refl same_vfs_register split: option.split)
  then show "bk_ok s \<Longrightarrow> bk_ok (vfsdev_init s)" using bk_ok_same(1) by blast
qed

lemma rescan_ok: "bk_ok s \<Longrightarrow> \<exists>r t. part_rescan gm name s = Some (r, t) \<and> bk_ok t"
  using scan_total find_ok by (fastforce simp: part_rescan_def split: option.split)

lemma scan_list_ok: "bk_ok s \<Longrightarrow> \<exists>r t. part_scan_list gms is tot s = Some (r, t) \<and> bk_ok t"
proof (induction "is" arbitrary: tot s)
  case (Cons i "is")
  show ?case
  proof (cases "\<exists>d. blkdev_by_id (word_of_nat i) s = Some d \<and> bd_parent (bk_dev s d) = None")
    case True
    then obtain d where d: "blkdev_by_id (word_of_nat i) s = Some d" "bd_parent (bk_dev s d) = None" by blast
    then have "d < BLKDEV_SLOTS" "bk_used s ! d" by (auto simp: blkdev_by_id_def split: if_splits)
    then obtain r t where "part_scan_disk (gms i) d s = Some (r, t)" "bk_ok t" using scan_total[OF Cons.prems] by blast
    then show ?thesis using d Cons.IH by simp
  next
    case False
    then have "part_scan_list gms (i # is) tot s = part_scan_list gms is tot s" by (auto split: option.split)
    then show ?thesis using Cons by simp
  qed
qed simp

lemma outside_ok: "bk_ok s \<Longrightarrow> bk_ok (s\<lparr> bk_devfs := fs, bk_mounted := ms, bk_swap_rc := f \<rparr>)"
proof -
  assume ok: "bk_ok s"
  have "same_core s (s\<lparr> bk_devfs := fs, bk_mounted := ms, bk_swap_rc := f \<rparr>)" by (simp add: same_core_def bk_dev_def)
  then show ?thesis by (rule same_core_ok[OF _ ok]) simp
qed

lemma blk_reach_ok: "blk_reach s \<Longrightarrow> bk_ok s"
proof (induction rule: blk_reach.induct)
  case (register s name mx rd wr r t)
  then show ?case using register_ok[OF register.IH, of "\<lambda>_. Some" name mx rd wr] by auto
next
  case (register_probe s gm name mx rd wr r t)
  then show ?case using register_probe_ok[OF register_probe.IH, of gm name mx rd wr] by auto
next
  case (rescan s gm name r t)
  then show ?case using rescan_ok[OF rescan.IH, of gm name] by auto
next
  case (scan_all s gms r t)
  then show ?case using scan_list_ok[OF scan_all.IH, of gms "[0..<BLKDEV_SLOTS]" 0] by (auto simp: part_scan_all_def)
qed (simp_all add: init_ok unregister_ok set_ident_ok vfsdev_init_ok outside_ok hw_same)

section \<open>Properties\<close>

text \<open>
  A disk of 64 sectors in memory, registered while the partition layer is not armed. Its first sector
  is an MBR with one Linux partition of 10 sectors at sector 2.
\<close>

type_synonym ram = "u32 \<Rightarrow> nat \<Rightarrow> byte"

definition ram_sec :: "ram \<Rightarrow> u32 \<Rightarrow> bytes" where "ram_sec hw l = map (hw l) [0..<512]"
definition ram_read :: "u32 \<Rightarrow> ram \<Rightarrow> bytes \<times> ram" where "ram_read l hw = (ram_sec hw l, hw)"
definition ram_write :: "u32 \<Rightarrow> bytes \<Rightarrow> ram \<Rightarrow> ram" where "ram_write l b hw = hw(l := (\<lambda>k. b ! k))"

definition ex_mbr :: bytes where
  "ex_mbr = replicate 446 0 @ [0x80, 0, 0, 0, 0x83, 0, 0, 0, 2, 0, 0, 0, 10, 0, 0, 0] @ replicate 48 0 @ [0x55, 0xAA]"

definition ex_ram :: ram where "ex_ram l k = (if l = 0 \<and> k < 512 then ex_mbr ! k else 0)"

definition ex_blk0 :: "(ram, unit) blk" where
  "ex_blk0 = \<lparr> bk_devices = [], bk_used = [], bk_count = 0, bk_boot = None, bk_hw = ex_ram, bk_devfs = devfs_example0,
     bk_drv = devfs_example_drv, bk_node_count = 0, bk_mounted = [], bk_swap = None, bk_swap_rc = (\<lambda>_. 0) \<rparr>"

definition ex_disk :: "ram blkdev" where
  "ex_disk = blkdev_zero\<lparr> bd_name := cs ''sda'', bd_max_lba := 64, bd_read := Some ram_read, bd_write := Some ram_write \<rparr>"

definition ex_blk :: "(ram, unit) blk" where
  "ex_blk = (blkdev_init ex_blk0)\<lparr> bk_devices := (replicate BLKDEV_SLOTS blkdev_zero)[0 := ex_disk],
     bk_used := (replicate BLKDEV_SLOTS False)[0 := True], bk_count := 1, bk_boot := Some 0 \<rparr>"

lemma ex_blk_reach: "blk_reach ex_blk"
proof (rule blk_reach.register)
  let ?s = "blkdev_init ex_blk0"
  show "blk_reach ?s" by (rule blk_reach.init) (simp add: ex_blk0_def)
  have f: "blkdev_find (cs ''sda'') ?s = None" by (auto simp: blkdev_find_def find_None_iff blkdev_init_def)
  have a: "alloc_slot ?s = Some 0"
    by (simp add: alloc_slot_def blkdev_init_def BLKDEV_SLOTS_def upt_conv_Cons)
  have d: "blkdev_zero\<lparr> bd_name := take 14 (cs ''sda''), bd_id := 0, bd_max_lba := 64, bd_read := Some ram_read, bd_write := Some ram_write \<rparr> = ex_disk"
    by (simp add: ex_disk_def blkdev_zero_def cs_def)
  show "register_blkdev (\<lambda>_. Some) (cs ''sda'') 64 (Some ram_read) (Some ram_write) ?s = Some (0, ex_blk)"
    unfolding register_blkdev_def f a Let_def d by (simp add: ex_blk_def cs_def blkdev_init_def ex_blk0_def ex_disk_def blkdev_zero_def)
qed

lemma ex_blk_fields:
  "(0::nat) < BLKDEV_SLOTS" "bk_used ex_blk ! 0" "bk_dev ex_blk 0 = ex_disk" "bk_count ex_blk = 1" "bk_hw ex_blk = ex_ram"
  "bk_used ex_blk ! j \<and> j < BLKDEV_SLOTS \<longleftrightarrow> j = 0" "blk_root 0 ex_blk = 0"
  by (auto simp: ex_blk_def BLKDEV_SLOTS_def bk_dev_def blkdev_init_def ex_blk0_def nth_list_update blk_root_def ex_disk_def blkdev_zero_def)

lemma ex_sector_disk: "sector_disk ram_sec ex_disk"
proof -
  have "ram_sec (ram_write l b hw) = (ram_sec hw)(l := b)" if "length b = 512" for l b hw
    using that by (auto simp: fun_eq_iff ram_sec_def ram_write_def intro!: nth_equalityI)
  then show ?thesis by (simp add: sector_disk_def ex_disk_def ram_read_def) (simp add: ram_sec_def)
qed

text \<open>
  C26: In every reachable state the device table is consistent. Its counter is the number of used
  slots; each device has a nonzero size and its slot as number; a partition belongs to a used whole
  disk and lies inside it; the boot device is a used whole disk, and there is one as soon as a disk
  exists; swap is attached to no device or to a partition in use. Registering a disk with the
  partition layer armed, scanning one disk again and scanning all of them always return.
\<close>

theorem blkdev_table_sound:
  assumes "blk_reach s"
  shows "bk_ok s \<and> (\<exists>r t. register_blkdev (part_auto_scan gm) name mx rd wr s = Some (r, t)) \<and>
    (\<exists>r t. part_rescan gm name s = Some (r, t)) \<and> (\<exists>r t. part_scan_all gms s = Some (r, t))"
  using blk_reach_ok[OF assms] register_probe_ok[OF blk_reach_ok[OF assms]] rescan_ok[OF blk_reach_ok[OF assms]]
    scan_list_ok[OF blk_reach_ok[OF assms]] unfolding part_scan_all_def by blast

theorem blkdev_table_sound_witness: "bk_ok ex_blk \<and> bk_boot ex_blk = Some 0"
  using blkdev_table_sound[OF ex_blk_reach] by (simp add: ex_blk_def)

text \<open>
  C31: Sector access is confined to the device. On a device in use a write either fails and changes
  nothing, or writes one sector, the device's own start plus the sector number without wrap-around,
  below the end of the disk; it succeeds exactly when the number is below the size of the device and
  the disk has a callback. The same holds for reads.
\<close>

theorem blkdev_sector_confined:
  assumes "blk_reach s" "i < BLKDEV_SLOTS" "bk_used s ! i"
  shows "let d = bk_dev s i; root = bk_dev s (blk_root i s); l = bd_start_lba d + lba in
    (if lba < bd_max_lba d then
       unat l = unat (bd_start_lba d) + unat lba \<and> l < bd_max_lba root \<and>
       blkdev_write (Some i) lba buf s = Some (case bd_write root of None \<Rightarrow> (-1, s)
         | Some f \<Rightarrow> (0, s\<lparr> bk_hw := f l buf (bk_hw s) \<rparr>)) \<and>
       blkdev_read (Some i) lba buf s = Some (case bd_read root of None \<Rightarrow> (-1, buf, s)
         | Some f \<Rightarrow> (0, fst (f l (bk_hw s)), s\<lparr> bk_hw := snd (f l (bk_hw s)) \<rparr>))
     else blkdev_write (Some i) lba buf s = Some (-1, s) \<and> blkdev_read (Some i) lba buf s = Some (-1, buf, s))"
  using root_lba(1,2)[OF blk_reach_ok[OF assms(1)] assms(2,3)] write_eq[OF blk_reach_ok[OF assms(1)] assms(2,3)]
    read_eq[OF blk_reach_ok[OF assms(1)] assms(2,3)]
  by (simp add: Let_def)

theorem blkdev_sector_confined_witness:
  "blkdev_write (Some 0) 63 ex_mbr ex_blk = Some (0, ex_blk\<lparr> bk_hw := ram_write 63 ex_mbr ex_ram \<rparr>) \<and>
   blkdev_write (Some 0) 64 ex_mbr ex_blk = Some (-1, ex_blk)"
  using blkdev_sector_confined[OF ex_blk_reach ex_blk_fields(1,2), of 63 ex_mbr]
    blkdev_sector_confined[OF ex_blk_reach ex_blk_fields(1,2), of 64 ex_mbr]
  by (simp add: ex_blk_fields ex_disk_def blkdev_zero_def Let_def)

text \<open>
  C4: A block node is an array of bytes. Let the disk's callbacks act on an array of 512-byte
  sectors. Then reading a block node at an offset returns the bytes of the disk from the device's
  start plus the offset on, cut at the end of the device, and changes nothing; writing stores the
  given bytes there and changes no other byte of the disk, also when the range starts or ends inside
  a sector or spans many. Both return the number of bytes.
\<close>

theorem blk_node_byte_array:
  assumes "blk_reach s" "i < BLKDEV_SLOTS" "bk_used s ! i" "sector_disk sec (bk_dev s (blk_root i s))" "unat sz \<le> length buf"
  shows "let n = blk_span i off sz s; A = blk_base i s + unat off in
    blk_read i off sz buf s =
      Some (sint (word_of_nat n :: u32), map (disk_byte sec (bk_hw s)) [A ..< A + n] @ drop n buf, s) \<and>
    (\<exists>h. blk_write i off sz buf s = Some (sint (word_of_nat n :: u32), buf, s\<lparr> bk_hw := h \<rparr>) \<and>
       (\<forall>k < 2 ^ 32 * 512. disk_byte sec h k = (if A \<le> k \<and> k < A + n then buf ! (k - A) else disk_byte sec (bk_hw s) k)))"
  using blk_read_bytes[OF blk_reach_ok[OF assms(1)] assms(2-5)] blk_write_bytes[OF blk_reach_ok[OF assms(1)] assms(2-5)]
  by (simp only: Let_def)

lemma ex_span: "blk_span 0 500 20 ex_blk = 20" "blk_base 0 ex_blk = 0"
  by (simp_all add: blk_span_def blk_base_def ex_blk_fields ex_disk_def blkdev_zero_def)

theorem blk_node_byte_array_witness:
  "\<exists>h. blk_write 0 500 20 (replicate 20 7) ex_blk = Some (20, replicate 20 7, ex_blk\<lparr> bk_hw := h \<rparr>) \<and>
     disk_byte ram_sec h 519 = 7"
proof -
  have sd: "sector_disk ram_sec (bk_dev ex_blk (blk_root 0 ex_blk))" using ex_sector_disk by (simp add: ex_blk_fields)
  have "unat (20 :: u32) \<le> length (replicate 20 (7 :: byte))" by simp
  from blk_node_byte_array[OF ex_blk_reach ex_blk_fields(1,2) sd this, of 500]
  obtain h where "blk_write 0 500 20 (replicate 20 7) ex_blk = Some (20, replicate 20 7, ex_blk\<lparr> bk_hw := h \<rparr>)"
    and b: "\<forall>k < 2 ^ 32 * 512. disk_byte ram_sec h k =
      (if 500 \<le> k \<and> k < 520 then replicate 20 7 ! (k - 500) else disk_byte ram_sec (bk_hw ex_blk) k)"
    by (auto simp: Let_def ex_span)
  moreover have "disk_byte ram_sec h 519 = 7" using b[rule_format, of 519] by simp
  ultimately show ?thesis by blast
qed







text \<open>
  A GUID on disk has its first three groups in little-endian order. The constant of the code keeps the
  third group in print order, so no partition is ever recognised as swap by its GPT type.
\<close>

definition guid_on_disk :: "nat \<Rightarrow> nat \<Rightarrow> nat \<Rightarrow> bytes \<Rightarrow> bytes" where
  "guid_on_disk a b c d = nat_le 4 a @ nat_le 2 b @ nat_le 2 c @ d"

lemma gpt_swap_guid_wrong:
  "GPT_SWAP_GUID \<noteq> guid_on_disk 0x0657FD6D 0xA4AB 0x43C4 [0x84, 0xE5, 0x09, 0x33, 0xC8, 0x4B, 0x4F, 0x4F] \<and>
   GPT_SWAP_GUID = guid_on_disk 0x0657FD6D 0xA4AB 0xC443 [0x84, 0xE5, 0x09, 0x33, 0xC8, 0x4B, 0x4F, 0x4F]"
  by code_simp

end
