(* ===== verification/Pagecache.thy ===== *)
theory Pagecache
  imports Part Links
begin

text \<open>
  The page cache, \<open>Cact/drivers/block/pagecache/pagecache.c\<close>: a fixed pool of page descriptors, a
  hash table of singly linked chains and a doubly linked list in order of use, all made of pointers
  between descriptors. A pointer to a descriptor is its index in the pool, a null pointer is \<open>None\<close>.
  The buffer of a page is the content of its descriptor's \<open>data\<close>; a caller's pointer to it is the
  index of the descriptor.

  Loops that follow pointers count their rounds and give \<open>None\<close> after one round more than there are
  pages, where the C loop would be running in a cycle.

  A routine that takes the lock, drops it and takes it again is split where the lock is dropped, and
  the parts are composed as the code composes them.
\<close>

section \<open>State\<close>

definition PC_MAX_PAGES :: nat where "PC_MAX_PAGES = 256"
definition PC_MAX_BLOCK_SIZE :: u32 where "PC_MAX_BLOCK_SIZE = 4096"
definition PC_HASH_SIZE :: nat where "PC_HASH_SIZE = 64"
abbreviation (input) PC_FLAG_VALID :: u8 where "PC_FLAG_VALID \<equiv> 1"
abbreviation (input) PC_FLAG_DIRTY :: u8 where "PC_FLAG_DIRTY \<equiv> 2"
abbreviation (input) PC_FLAG_USED :: u8 where "PC_FLAG_USED \<equiv> 4"

record page =
  pg_dev :: u32
  pg_flags :: u8
  pg_block_no :: u32
  pg_block_size :: u32
  pg_pin :: int
  pg_hash_next :: "nat option"
  pg_prev :: "nat option"
  pg_next :: "nat option"
  pg_data :: "bytes option"

definition page_zero :: page where
  "page_zero = \<lparr> pg_dev = 0, pg_flags = 0, pg_block_no = 0, pg_block_size = 0, pg_pin = 0, pg_hash_next = None,
     pg_prev = None, pg_next = None, pg_data = None \<rparr>"

record ('hw, 's) pc =
  pc_pool :: "page list"
  pc_hash :: "nat option list"
  pc_head :: "nat option"
  pc_tail :: "nat option"
  pc_hits :: u32
  pc_misses :: u32
  pc_evictions :: u32
  pc_writebacks :: u32
  pc_blk :: "('hw, 's) blk"

definition pg :: "('hw, 's) pc \<Rightarrow> nat \<Rightarrow> page" where "pg s i = pc_pool s ! i"

definition pg_upd :: "nat \<Rightarrow> (page \<Rightarrow> page) \<Rightarrow> ('hw, 's) pc \<Rightarrow> ('hw, 's) pc" where
  "pg_upd i f s = s\<lparr> pc_pool := (pc_pool s)[i := f (pc_pool s ! i)] \<rparr>"

definition pg_has :: "u8 \<Rightarrow> page \<Rightarrow> bool" where "pg_has w p \<longleftrightarrow> pg_flags p AND w \<noteq> 0"

definition pc_init :: "('hw, 's) pc \<Rightarrow> ('hw, 's) pc" where
  "pc_init s = s\<lparr> pc_pool := replicate PC_MAX_PAGES page_zero, pc_hash := replicate PC_HASH_SIZE None,
     pc_head := None, pc_tail := None, pc_hits := 0, pc_misses := 0, pc_evictions := 0, pc_writebacks := 0 \<rparr>"

section \<open>Hash table\<close>

definition hash_key :: "u32 \<Rightarrow> u32 \<Rightarrow> nat" where
  "hash_key dev block_no =
     (let h = dev XOR block_no; h = h XOR drop_bit 16 h; h = h * 0x45d9f3b; h = h XOR drop_bit 16 h
      in unat (h AND 63))"

fun hash_remove_loop :: "nat \<Rightarrow> nat \<Rightarrow> nat option \<Rightarrow> nat option \<Rightarrow> nat \<Rightarrow> ('hw, 's) pc \<Rightarrow> ('hw, 's) pc option" where
  "hash_remove_loop 0 b prev cur p s = None"
| "hash_remove_loop (Suc k) b prev cur p s =
     (case cur of None \<Rightarrow> Some s
      | Some c \<Rightarrow>
          if c = p then
            (let nx = pg_hash_next (pg s p);
                 s1 = (case prev of None \<Rightarrow> s\<lparr> pc_hash := (pc_hash s)[b := nx] \<rparr>
                       | Some q \<Rightarrow> pg_upd q (\<lambda>g. g\<lparr> pg_hash_next := nx \<rparr>) s)
             in Some (pg_upd p (\<lambda>g. g\<lparr> pg_hash_next := None \<rparr>) s1))
          else hash_remove_loop k b (Some c) (pg_hash_next (pg s c)) p s)"

definition hash_remove :: "nat \<Rightarrow> ('hw, 's) pc \<Rightarrow> ('hw, 's) pc option" where
  "hash_remove p s =
     (let b = hash_key (pg_dev (pg s p)) (pg_block_no (pg s p))
      in hash_remove_loop (PC_MAX_PAGES + 1) b None (pc_hash s ! b) p s)"

definition hash_insert :: "nat \<Rightarrow> ('hw, 's) pc \<Rightarrow> ('hw, 's) pc" where
  "hash_insert p s =
     (let b = hash_key (pg_dev (pg s p)) (pg_block_no (pg s p));
          s1 = pg_upd p (\<lambda>g. g\<lparr> pg_hash_next := pc_hash s ! b \<rparr>) s
      in s1\<lparr> pc_hash := (pc_hash s1)[b := Some p] \<rparr>)"

fun hash_find_loop :: "nat \<Rightarrow> nat option \<Rightarrow> u32 \<Rightarrow> u32 \<Rightarrow> ('hw, 's) pc \<Rightarrow> nat option option" where
  "hash_find_loop 0 cur dev block_no s = None"
| "hash_find_loop (Suc k) cur dev block_no s =
     (case cur of None \<Rightarrow> Some None
      | Some c \<Rightarrow>
          if pg_dev (pg s c) = dev \<and> pg_block_no (pg s c) = block_no then Some (Some c)
          else hash_find_loop k (pg_hash_next (pg s c)) dev block_no s)"

definition hash_find :: "u32 \<Rightarrow> u32 \<Rightarrow> ('hw, 's) pc \<Rightarrow> nat option option" where
  "hash_find dev block_no s = hash_find_loop (PC_MAX_PAGES + 1) (pc_hash s ! hash_key dev block_no) dev block_no s"

section \<open>Order of use\<close>

definition lru_remove :: "nat \<Rightarrow> ('hw, 's) pc \<Rightarrow> ('hw, 's) pc" where
  "lru_remove p s =
     (let pv = pg_prev (pg s p); nx = pg_next (pg s p);
          s1 = (case pv of Some q \<Rightarrow> pg_upd q (\<lambda>g. g\<lparr> pg_next := nx \<rparr>) s | None \<Rightarrow> s\<lparr> pc_head := nx \<rparr>);
          s2 = (case nx of Some q \<Rightarrow> pg_upd q (\<lambda>g. g\<lparr> pg_prev := pv \<rparr>) s1 | None \<Rightarrow> s1\<lparr> pc_tail := pv \<rparr>)
      in pg_upd p (\<lambda>g. g\<lparr> pg_prev := None, pg_next := None \<rparr>) s2)"

definition lru_push :: "nat \<Rightarrow> ('hw, 's) pc \<Rightarrow> ('hw, 's) pc" where
  "lru_push p s =
     (let s1 = pg_upd p (\<lambda>g. g\<lparr> pg_prev := None, pg_next := pc_head s \<rparr>) s;
          s2 = (case pc_head s1 of Some h \<Rightarrow> pg_upd h (\<lambda>g. g\<lparr> pg_prev := Some p \<rparr>) s1 | None \<Rightarrow> s1);
          s3 = s2\<lparr> pc_head := Some p \<rparr>
      in if pc_tail s3 = None then s3\<lparr> pc_tail := Some p \<rparr> else s3)"

definition lru_touch :: "nat \<Rightarrow> ('hw, 's) pc \<Rightarrow> ('hw, 's) pc" where
  "lru_touch p s =
     (if pc_head s = Some p then s
      else let s1 = (if pg_prev (pg s p) \<noteq> None \<or> pg_next (pg s p) \<noteq> None \<or> pc_tail s = Some p then lru_remove p s else s)
        in lru_push p s1)"

section \<open>Writing back\<close>

definition clear_dirty :: "nat \<Rightarrow> ('hw, 's) pc \<Rightarrow> ('hw, 's) pc" where
  "clear_dirty p = pg_upd p (\<lambda>g. g\<lparr> pg_flags := pg_flags g AND NOT PC_FLAG_DIRTY \<rparr>)"

fun write_sectors :: "nat list \<Rightarrow> nat \<Rightarrow> u32 \<Rightarrow> bytes \<Rightarrow> ('hw, 's) blk \<Rightarrow> ('hw, 's) blk option" where
  "write_sectors [] bd lba data b = Some b"
| "write_sectors (i # is) bd lba data b =
     (case blkdev_write (Some bd) (lba + word_of_nat i) (slice (i * 512) 512 data) b of None \<Rightarrow> None
      | Some (r, b1) \<Rightarrow> write_sectors is bd lba data b1)"

definition writeback :: "nat \<Rightarrow> ('hw, 's) pc \<Rightarrow> ('hw, 's) pc option" where
  "writeback p s =
     (let g = pg s p in
      if \<not> pg_has PC_FLAG_DIRTY g then Some s
      else case pg_data g of None \<Rightarrow> Some (clear_dirty p s)
      | Some data \<Rightarrow>
          (case blkdev_by_id (pg_dev g) (pc_blk s) of None \<Rightarrow> Some (clear_dirty p s)
           | Some bd \<Rightarrow>
               (let spb = pg_block_size g div 512; lba = pg_block_no g * spb in
                do {
                  b \<leftarrow> write_sectors [0..<unat spb] bd lba data (pc_blk s);
                  let s1 = clear_dirty p (s\<lparr> pc_blk := b \<rparr>);
                  Some (s1\<lparr> pc_writebacks := pc_writebacks s1 + 1 \<rparr>)
                })))"

definition pin_add :: "int \<Rightarrow> nat \<Rightarrow> ('hw, 's) pc \<Rightarrow> ('hw, 's) pc" where
  "pin_add d p = pg_upd p (\<lambda>g. g\<lparr> pg_pin := pg_pin g + d \<rparr>)"

definition writeback_pinned :: "nat \<Rightarrow> ('hw, 's) pc \<Rightarrow> ('hw, 's) pc option" where
  "writeback_pinned p s = map_option (pin_add (-1) p) (writeback p (pin_add 1 p s))"

section \<open>Allocation and eviction\<close>

definition page_clear :: "nat \<Rightarrow> ('hw, 's) pc \<Rightarrow> ('hw, 's) pc" where
  "page_clear p = pg_upd p (\<lambda>g. g\<lparr> pg_flags := 0, pg_pin := 0 \<rparr>)"

fun evict_loop :: "nat \<Rightarrow> nat option \<Rightarrow> ('hw, 's) pc \<Rightarrow> (nat option \<times> ('hw, 's) pc) option" where
  "evict_loop 0 cur s = None"
| "evict_loop (Suc k) cur s =
     (case cur of None \<Rightarrow> Some (None, s)
      | Some p \<Rightarrow>
          if pg_pin (pg s p) = 0 then
            do {
              s1 \<leftarrow> (if pg_has PC_FLAG_DIRTY (pg s p) then writeback p s else Some s);
              s2 \<leftarrow> hash_remove p (lru_remove p s1);
              let s3 = page_clear p s2;
              Some (Some p, s3\<lparr> pc_evictions := pc_evictions s3 + 1 \<rparr>)
            }
          else evict_loop k (pg_prev (pg s p)) s)"

definition evict_one :: "('hw, 's) pc \<Rightarrow> (nat option \<times> ('hw, 's) pc) option" where
  "evict_one s = evict_loop (PC_MAX_PAGES + 1) (pc_tail s) s"

definition alloc_page :: "('hw, 's) pc \<Rightarrow> (nat option \<times> ('hw, 's) pc) option" where
  "alloc_page s =
     (case List.find (\<lambda>i. \<not> pg_has PC_FLAG_USED (pg s i)) [0..<PC_MAX_PAGES] of
        Some i \<Rightarrow> Some (Some i, s) | None \<Rightarrow> evict_one s)"

section \<open>Getting a page\<close>

definition pc_get_lookup :: "u32 \<Rightarrow> u32 \<Rightarrow> ('hw, 's) pc \<Rightarrow> (nat option \<times> ('hw, 's) pc) option" where
  "pc_get_lookup dev block_no s =
     (case hash_find dev block_no s of None \<Rightarrow> None
      | Some (Some p) \<Rightarrow> Some (Some p, lru_touch p (pin_add 1 p (s\<lparr> pc_hits := pc_hits s + 1 \<rparr>)))
      | Some None \<Rightarrow> Some (None, s\<lparr> pc_misses := pc_misses s + 1 \<rparr>))"

text \<open>The checks made without the lock: \<open>None\<close> is refusal, otherwise the device to read from.\<close>

definition pc_get_check :: "u32 \<Rightarrow> u32 \<Rightarrow> u32 \<Rightarrow> ('hw, 's) blk \<Rightarrow> nat option option" where
  "pc_get_check dev block_no block_size b =
     (if block_size = 0 \<or> block_size mod 512 \<noteq> 0 then None
      else if block_size > PC_MAX_BLOCK_SIZE then None
      else let spb = block_size div 512;
               bd = (case blkdev_by_id dev b of None \<Rightarrow> blkdev_get_boot b | Some d \<Rightarrow> Some d)
        in case bd of None \<Rightarrow> Some None
           | Some d \<Rightarrow>
               if block_no > 0xFFFFFFFF div spb then None
               else let lba = block_no * spb; mx = bd_max_lba (bk_dev b d) in
                 if lba > mx \<or> spb > mx - lba then None else Some (Some d))"

definition pc_get_alloc :: "u32 \<Rightarrow> u32 \<Rightarrow> u32 \<Rightarrow> ('hw, 's) pc \<Rightarrow> (nat option \<times> ('hw, 's) pc) option" where
  "pc_get_alloc dev block_no block_size s =
     (case alloc_page s of None \<Rightarrow> None
      | Some (None, s1) \<Rightarrow> Some (None, s1)
      | Some (Some p, s1) \<Rightarrow>
          Some (Some p, pg_upd p (\<lambda>g. g\<lparr> pg_dev := dev, pg_block_no := block_no, pg_block_size := block_size,
            pg_flags := PC_FLAG_USED, pg_pin := 1 \<rparr>) s1))"

fun read_sectors :: "nat list \<Rightarrow> nat option \<Rightarrow> u32 \<Rightarrow> bytes \<Rightarrow> ('hw, 's) blk \<Rightarrow> (bytes \<times> ('hw, 's) blk) option" where
  "read_sectors [] bd lba data b = Some (data, b)"
| "read_sectors (i # is) bd lba data b =
     (case blkdev_read bd (lba + word_of_nat i) (slice (i * 512) 512 data) b of None \<Rightarrow> None
      | Some (r, sec, b1) \<Rightarrow> read_sectors is bd lba (take (i * 512) data @ sec @ drop (i * 512 + 512) data) b1)"

text \<open>Filling the page, without the lock. \<open>fresh\<close> is the page \<open>kalloc\<close> gives, if it gives one.\<close>

definition pc_get_fill :: "bytes option \<Rightarrow> nat \<Rightarrow> nat option \<Rightarrow> ('hw, 's) pc \<Rightarrow> (bool \<times> ('hw, 's) pc) option" where
  "pc_get_fill fresh p bd s =
     (let buf = (case pg_data (pg s p) of None \<Rightarrow> fresh | Some d \<Rightarrow> Some d) in
      case buf of None \<Rightarrow> Some (False, page_clear p s)
      | Some d \<Rightarrow>
          (let bs = unat (pg_block_size (pg s p)); spb = pg_block_size (pg s p) div 512;
               lba = pg_block_no (pg s p) * spb; dev = (case bd of None \<Rightarrow> blkdev_get_boot (pc_blk s) | Some d \<Rightarrow> Some d) in
           case read_sectors [0..<unat spb] dev lba (replicate bs 0 @ drop bs d) (pc_blk s) of None \<Rightarrow> None
           | Some (data, b) \<Rightarrow> Some (True, (pg_upd p (\<lambda>g. g\<lparr> pg_data := Some data \<rparr>) s)\<lparr> pc_blk := b \<rparr>)))"

definition pc_get_insert :: "nat \<Rightarrow> ('hw, 's) pc \<Rightarrow> (nat \<times> ('hw, 's) pc) option" where
  "pc_get_insert p s =
     (case hash_find (pg_dev (pg s p)) (pg_block_no (pg s p)) s of None \<Rightarrow> None
      | Some (Some e) \<Rightarrow> Some (e, page_clear p (lru_touch e (pin_add 1 e s)))
      | Some None \<Rightarrow> Some (p, lru_touch p (hash_insert p (pg_upd p (\<lambda>g. g\<lparr> pg_flags := pg_flags g OR PC_FLAG_VALID \<rparr>) s))))"

definition pc_get_page :: "bytes option \<Rightarrow> u32 \<Rightarrow> u32 \<Rightarrow> u32 \<Rightarrow> ('hw, 's) pc \<Rightarrow> (nat option \<times> ('hw, 's) pc) option" where
  "pc_get_page fresh dev block_no block_size s =
     do {
       (hit, s1) \<leftarrow> pc_get_lookup dev block_no s;
       if hit \<noteq> None then Some (hit, s1)
       else case pc_get_check dev block_no block_size (pc_blk s1) of None \<Rightarrow> Some (None, s1)
         | Some bd \<Rightarrow> do {
             (slot, s2) \<leftarrow> pc_get_alloc dev block_no block_size s1;
             case slot of None \<Rightarrow> Some (None, s2)
             | Some p \<Rightarrow> do {
                 (ok, s3) \<leftarrow> pc_get_fill fresh p bd s2;
                 if \<not> ok then Some (None, s3)
                 else map_option (\<lambda>(q, s4). (Some q, s4)) (pc_get_insert p s3)
               }
           }
     }"

section \<open>The other operations\<close>

definition pc_dirty_begin :: "u32 \<Rightarrow> u32 \<Rightarrow> ('hw, 's) pc \<Rightarrow> (nat option \<times> ('hw, 's) pc) option" where
  "pc_dirty_begin dev block_no s =
     (case hash_find dev block_no s of None \<Rightarrow> None
      | Some None \<Rightarrow> Some (None, s)
      | Some (Some p) \<Rightarrow> Some (Some p, pin_add 1 p (pg_upd p (\<lambda>g. g\<lparr> pg_flags := pg_flags g OR PC_FLAG_DIRTY \<rparr>) s)))"

definition pc_mark_dirty :: "u32 \<Rightarrow> u32 \<Rightarrow> ('hw, 's) pc \<Rightarrow> ('hw, 's) pc option" where
  "pc_mark_dirty dev block_no s =
     do {
       (r, s1) \<leftarrow> pc_dirty_begin dev block_no s;
       case r of None \<Rightarrow> Some s1 | Some p \<Rightarrow> map_option (pin_add (-1) p) (writeback p s1)
     }"

definition pc_put_page :: "u32 \<Rightarrow> u32 \<Rightarrow> ('hw, 's) pc \<Rightarrow> ('hw, 's) pc option" where
  "pc_put_page dev block_no s =
     (case hash_find dev block_no s of None \<Rightarrow> None
      | Some None \<Rightarrow> Some s
      | Some (Some p) \<Rightarrow> Some (if pg_pin (pg s p) = 0 then s else pin_add (-1) p s))"

fun flush_loop :: "u32 \<Rightarrow> nat list \<Rightarrow> ('hw, 's) pc \<Rightarrow> ('hw, 's) pc option" where
  "flush_loop dev [] s = Some s"
| "flush_loop dev (i # is) s =
     (if pg_flags (pg s i) AND 3 = 3 \<and> pg_dev (pg s i) = dev
      then writeback_pinned i s \<bind> flush_loop dev is else flush_loop dev is s)"

definition pc_flush_dev :: "u32 \<Rightarrow> ('hw, 's) pc \<Rightarrow> ('hw, 's) pc option" where
  "pc_flush_dev dev s = flush_loop dev [0..<PC_MAX_PAGES] s"

definition page_drop :: "nat \<Rightarrow> ('hw, 's) pc \<Rightarrow> ('hw, 's) pc option" where
  "page_drop p s = map_option (\<lambda>t. page_clear p (pg_upd p (\<lambda>g. g\<lparr> pg_data := None \<rparr>) t)) (hash_remove p (lru_remove p s))"

definition pc_invalidate_block :: "u32 \<Rightarrow> u32 \<Rightarrow> ('hw, 's) pc \<Rightarrow> ('hw, 's) pc option" where
  "pc_invalidate_block dev block_no s =
     (case hash_find dev block_no s of None \<Rightarrow> None
      | Some None \<Rightarrow> Some s
      | Some (Some p) \<Rightarrow>
          if pg_pin (pg s p) > 0 then Some s
          else (if pg_has PC_FLAG_DIRTY (pg s p) then writeback_pinned p s else Some s) \<bind> page_drop p)"

fun invalidate_loop :: "u32 \<Rightarrow> nat list \<Rightarrow> ('hw, 's) pc \<Rightarrow> ('hw, 's) pc option" where
  "invalidate_loop dev [] s = Some s"
| "invalidate_loop dev (i # is) s =
     (if pg_has PC_FLAG_VALID (pg s i) \<and> pg_dev (pg s i) = dev \<and> \<not> pg_pin (pg s i) > 0
      then page_drop i s \<bind> invalidate_loop dev is else invalidate_loop dev is s)"

definition pc_invalidate_dev :: "u32 \<Rightarrow> ('hw, 's) pc \<Rightarrow> ('hw, 's) pc option" where
  "pc_invalidate_dev dev s = pc_flush_dev dev s \<bind> invalidate_loop dev [0..<PC_MAX_PAGES]"

section \<open>The two structures as lists\<close>

lemma pg_upd_pg: "pg (pg_upd i f s) j = (if j = i \<and> i < length (pc_pool s) then f (pg s i) else pg s j)"
  by (cases "i < length (pc_pool s)") (auto simp: pg_def pg_upd_def nth_list_update list_update_beyond)

lemma pg_upd_fields [simp]:
  "length (pc_pool (pg_upd i f s)) = length (pc_pool s)" "pc_hash (pg_upd i f s) = pc_hash s" "pc_head (pg_upd i f s) = pc_head s"
  "pc_tail (pg_upd i f s) = pc_tail s" "pc_blk (pg_upd i f s) = pc_blk s" "pc_hits (pg_upd i f s) = pc_hits s"
  "pc_misses (pg_upd i f s) = pc_misses s" "pc_evictions (pg_upd i f s) = pc_evictions s" "pc_writebacks (pg_upd i f s) = pc_writebacks s"
  by (simp_all add: pg_upd_def)

lemma pg_fields [simp]:
  "pg (s\<lparr> pc_hash := a \<rparr>) = pg s" "pg (s\<lparr> pc_head := x \<rparr>) = pg s" "pg (s\<lparr> pc_tail := x \<rparr>) = pg s" "pg (s\<lparr> pc_blk := b \<rparr>) = pg s"
  "pg (s\<lparr> pc_hits := n \<rparr>) = pg s" "pg (s\<lparr> pc_misses := n \<rparr>) = pg s" "pg (s\<lparr> pc_evictions := n \<rparr>) = pg s" "pg (s\<lparr> pc_writebacks := n \<rparr>) = pg s"
  by (simp_all add: pg_def fun_eq_iff)

definition hkey :: "page \<Rightarrow> nat" where "hkey g = hash_key (pg_dev g) (pg_block_no g)"

definition lru_rep :: "('hw, 's) pc \<Rightarrow> nat list \<Rightarrow> bool" where
  "lru_rep s ll \<longleftrightarrow> distinct ll \<and> set ll \<subseteq> {..<length (pc_pool s)} \<and>
     seg (\<lambda>i. pg_next (pg s i)) (pc_head s) ll None \<and> seg (\<lambda>i. pg_prev (pg s i)) (pc_tail s) (rev ll) None \<and>
     (\<forall>i < length (pc_pool s). i \<notin> set ll \<longrightarrow> pg_prev (pg s i) = None \<and> pg_next (pg s i) = None)"

definition hash_rep :: "('hw, 's) pc \<Rightarrow> (nat \<Rightarrow> nat list) \<Rightarrow> bool" where
  "hash_rep s hl \<longleftrightarrow> length (pc_hash s) = PC_HASH_SIZE \<and> (\<forall>b < PC_HASH_SIZE. distinct (hl b) \<and> set (hl b) \<subseteq> {..<length (pc_pool s)} \<and>
     (\<forall>i \<in> set (hl b). hkey (pg s i) = b) \<and> seg (\<lambda>i. pg_hash_next (pg s i)) (pc_hash s ! b) (hl b) None)"

lemma lru_repD:
  assumes "lru_rep s ll"
  shows "distinct ll" "set ll \<subseteq> {..<length (pc_pool s)}" "seg (\<lambda>i. pg_next (pg s i)) (pc_head s) ll None"
    "seg (\<lambda>i. pg_prev (pg s i)) (pc_tail s) (rev ll) None"
    "i < length (pc_pool s) \<Longrightarrow> i \<notin> set ll \<Longrightarrow> pg_prev (pg s i) = None \<and> pg_next (pg s i) = None"
  using assms unfolding lru_rep_def by blast+

text \<open>Changes to one structure leave the rest of the state alone.\<close>

definition lru_frame :: "('hw, 's) pc \<Rightarrow> ('hw, 's) pc \<Rightarrow> bool" where
  "lru_frame s t \<longleftrightarrow> length (pc_pool t) = length (pc_pool s) \<and> pc_hash t = pc_hash s \<and> pc_blk t = pc_blk s \<and>
     (\<forall>i. (pg t i)\<lparr> pg_prev := None, pg_next := None \<rparr> = (pg s i)\<lparr> pg_prev := None, pg_next := None \<rparr>)"

definition hash_frame :: "('hw, 's) pc \<Rightarrow> ('hw, 's) pc \<Rightarrow> bool" where
  "hash_frame s t \<longleftrightarrow> length (pc_pool t) = length (pc_pool s) \<and> pc_head t = pc_head s \<and> pc_tail t = pc_tail s \<and> pc_blk t = pc_blk s \<and>
     (\<forall>i. (pg t i)\<lparr> pg_hash_next := None \<rparr> = (pg s i)\<lparr> pg_hash_next := None \<rparr>)"

lemma lru_frameD:
  assumes "lru_frame s t"
  shows "pg_dev (pg t i) = pg_dev (pg s i)" "pg_flags (pg t i) = pg_flags (pg s i)" "pg_block_no (pg t i) = pg_block_no (pg s i)"
    "pg_block_size (pg t i) = pg_block_size (pg s i)" "pg_pin (pg t i) = pg_pin (pg s i)"
    "pg_hash_next (pg t i) = pg_hash_next (pg s i)" "pg_data (pg t i) = pg_data (pg s i)"
proof -
  have "(pg t i)\<lparr> pg_prev := None, pg_next := None \<rparr> = (pg s i)\<lparr> pg_prev := None, pg_next := None \<rparr>"
    using assms by (simp add: lru_frame_def)
  then show "pg_dev (pg t i) = pg_dev (pg s i)" "pg_flags (pg t i) = pg_flags (pg s i)" "pg_block_no (pg t i) = pg_block_no (pg s i)"
    "pg_block_size (pg t i) = pg_block_size (pg s i)" "pg_pin (pg t i) = pg_pin (pg s i)"
    "pg_hash_next (pg t i) = pg_hash_next (pg s i)" "pg_data (pg t i) = pg_data (pg s i)"
    by (cases "pg t i", cases "pg s i", simp)+
qed

lemma hash_frameD:
  assumes "hash_frame s t"
  shows "pg_dev (pg t i) = pg_dev (pg s i)" "pg_flags (pg t i) = pg_flags (pg s i)" "pg_block_no (pg t i) = pg_block_no (pg s i)"
    "pg_block_size (pg t i) = pg_block_size (pg s i)" "pg_pin (pg t i) = pg_pin (pg s i)"
    "pg_prev (pg t i) = pg_prev (pg s i)" "pg_next (pg t i) = pg_next (pg s i)" "pg_data (pg t i) = pg_data (pg s i)"
proof -
  have "(pg t i)\<lparr> pg_hash_next := None \<rparr> = (pg s i)\<lparr> pg_hash_next := None \<rparr>"
    using assms by (simp add: hash_frame_def)
  then show "pg_dev (pg t i) = pg_dev (pg s i)" "pg_flags (pg t i) = pg_flags (pg s i)" "pg_block_no (pg t i) = pg_block_no (pg s i)"
    "pg_block_size (pg t i) = pg_block_size (pg s i)" "pg_pin (pg t i) = pg_pin (pg s i)"
    "pg_prev (pg t i) = pg_prev (pg s i)" "pg_next (pg t i) = pg_next (pg s i)" "pg_data (pg t i) = pg_data (pg s i)"
    by (cases "pg t i", cases "pg s i", simp)+
qed

lemma lru_rep_cong:
  assumes "length (pc_pool t) = length (pc_pool s)" "pc_head t = pc_head s" "pc_tail t = pc_tail s"
    "\<And>i. pg_prev (pg t i) = pg_prev (pg s i)" "\<And>i. pg_next (pg t i) = pg_next (pg s i)"
  shows "lru_rep t ll = lru_rep s ll"
  unfolding lru_rep_def assms by (rule refl)

lemma hash_rep_cong:
  assumes "length (pc_pool t) = length (pc_pool s)" "pc_hash t = pc_hash s" "\<And>i. pg_hash_next (pg t i) = pg_hash_next (pg s i)"
    "\<And>i. pg_dev (pg t i) = pg_dev (pg s i)" "\<And>i. pg_block_no (pg t i) = pg_block_no (pg s i)"
  shows "hash_rep t hl = hash_rep s hl"
  unfolding hash_rep_def hkey_def assms by (rule refl)

lemma hash_rep_members:
  assumes "hash_rep s hl" "length (pc_pool t) = length (pc_pool s)" "pc_hash t = pc_hash s"
    and eq: "\<And>b i. b < PC_HASH_SIZE \<Longrightarrow> i \<in> set (hl b) \<Longrightarrow>
      pg_hash_next (pg t i) = pg_hash_next (pg s i) \<and> hkey (pg t i) = hkey (pg s i)"
  shows "hash_rep t hl"
  using assms(1) unfolding hash_rep_def assms(2,3)
proof (intro conjI allI impI; elim conjE)
  fix b assume b: "b < PC_HASH_SIZE" and h: "\<forall>b < PC_HASH_SIZE. distinct (hl b) \<and> set (hl b) \<subseteq> {..<length (pc_pool s)} \<and>
     (\<forall>i \<in> set (hl b). hkey (pg s i) = b) \<and> seg (\<lambda>i. pg_hash_next (pg s i)) (pc_hash s ! b) (hl b) None"
  show "distinct (hl b)" "set (hl b) \<subseteq> {..<length (pc_pool s)}" using h b by auto
  show "\<forall>i \<in> set (hl b). hkey (pg t i) = b" using h b eq[OF b] by simp
  show "seg (\<lambda>i. pg_hash_next (pg t i)) (pc_hash s ! b) (hl b) None"
    by (rule seg_frame[of "\<lambda>i. pg_hash_next (pg s i)"]) (use h b eq[OF b] in auto)
qed

lemma hash_rep_lru:
  assumes "lru_frame s t"
  shows "hash_rep t hl = hash_rep s hl"
  by (rule hash_rep_cong; (rule lru_frameD[OF assms])?) (use assms in \<open>simp_all add: lru_frame_def\<close>)

lemma lru_rep_hash:
  assumes "hash_frame s t"
  shows "lru_rep t ll = lru_rep s ll"
  by (rule lru_rep_cong; (rule hash_frameD[OF assms])?) (use assms in \<open>simp_all add: hash_frame_def\<close>)

lemma ends_less:
  assumes "xs \<noteq> []" "set xs \<subseteq> {..<n}"
  shows "last xs < n" "hd xs < n"
  using assms last_in_set[OF assms(1)] hd_in_set[OF assms(1)] by blast+

text \<open>The neighbours in the list of uses.\<close>

lemma lru_links:
  assumes "lru_rep s (ys @ p # zs)"
  shows "pg_next (pg s p) = (case zs of [] \<Rightarrow> None | z # _ \<Rightarrow> Some z)"
    and "pg_prev (pg s p) = (if ys = [] then None else Some (last ys))"
proof -
  show "pg_next (pg s p) = (case zs of [] \<Rightarrow> None | z # _ \<Rightarrow> Some z)"
    using lru_repD(3)[OF assms] seg_hd by (auto simp: seg_append)
  have "seg (\<lambda>i. pg_prev (pg s i)) (pg_prev (pg s p)) (rev ys) None"
    using lru_repD(4)[OF assms] by (auto simp: seg_append)
  then show "pg_prev (pg s p) = (if ys = [] then None else Some (last ys))"
    using seg_hd by (cases ys rule: rev_cases) auto
qed

lemma lru_remove_pg:
  assumes "lru_rep s (ys @ p # zs)"
  defines "t \<equiv> lru_remove p s"
  shows "pg_next (pg t i) = (if i = p then None else if ys \<noteq> [] \<and> i = last ys then pg_next (pg s p) else pg_next (pg s i))"
    and "pg_prev (pg t i) = (if i = p then None else if zs \<noteq> [] \<and> i = hd zs then pg_prev (pg s p) else pg_prev (pg s i))"
    and "pc_head t = (if ys = [] then pg_next (pg s p) else pc_head s)"
    and "pc_tail t = (if zs = [] then pg_prev (pg s p) else pc_tail s)"
    and "lru_frame s t"
proof -
  have l: "distinct (ys @ p # zs)" "set (ys @ p # zs) \<subseteq> {..<length (pc_pool s)}" using lru_repD(1,2)[OF assms(1)] by auto
  note n = lru_links[OF assms(1)]
  have in_ys: "ys \<noteq> [] \<Longrightarrow> last ys < length (pc_pool s) \<and> last ys \<noteq> p" using l ends_less(1)[of ys] last_in_set[of ys] by auto
  have in_zs: "zs \<noteq> [] \<Longrightarrow> hd zs < length (pc_pool s) \<and> hd zs \<noteq> p" using l ends_less(2)[of zs] hd_in_set[of zs] by auto
  have p: "p < length (pc_pool s)" using l(2) by auto
  have z: "(case zs of [] \<Rightarrow> None | z # _ \<Rightarrow> Some z) = (if zs = [] then None else Some (hd zs))" by (cases zs) auto
  note d = t_def lru_remove_def Let_def n z
  show "pg_next (pg t i) = (if i = p then None else if ys \<noteq> [] \<and> i = last ys then pg_next (pg s p) else pg_next (pg s i))"
    using in_ys in_zs p unfolding d by (simp add: pg_upd_pg)
  show "pg_prev (pg t i) = (if i = p then None else if zs \<noteq> [] \<and> i = hd zs then pg_prev (pg s p) else pg_prev (pg s i))"
    using in_ys in_zs p unfolding d by (simp add: pg_upd_pg)
  show "pc_head t = (if ys = [] then pg_next (pg s p) else pc_head s)" unfolding d by simp
  show "pc_tail t = (if zs = [] then pg_prev (pg s p) else pc_tail s)" unfolding d by simp
  show "lru_frame s t" unfolding lru_frame_def d by (simp add: pg_upd_pg)
qed

lemma lru_remove_rep:
  assumes "lru_rep s (ys @ p # zs)"
  shows "lru_rep (lru_remove p s) (ys @ zs)" "lru_frame s (lru_remove p s)"
proof -
  note t = lru_remove_pg[OF assms] and l = lru_repD[OF assms]
  show f: "lru_frame s (lru_remove p s)" by (rule t(5))
  have d: "distinct (ys @ p # zs)" by (rule l(1))
  have "seg (\<lambda>i. pg_next (pg (lru_remove p s) i)) (if ys = [] then pg_next (pg s p) else pc_head s) (ys @ zs) None"
    by (rule seg_delete[OF l(3) d]) (use d in \<open>auto simp: t(1)\<close>)
  moreover have "seg (\<lambda>i. pg_prev (pg (lru_remove p s) i)) (if rev zs = [] then pg_prev (pg s p) else pc_tail s) (rev zs @ rev ys) None"
    by (rule seg_delete[where p = p and nx = "\<lambda>i. pg_prev (pg s i)"])
      (use l(4) d in \<open>auto simp: t(2) last_rev\<close>)
  moreover have "pg_prev (pg (lru_remove p s) i) = None \<and> pg_next (pg (lru_remove p s) i) = None"
    if "i < length (pc_pool s)" "i \<notin> set (ys @ zs)" for i
    using that l(5)[of i] by (cases "i = p") (auto simp: t(1,2))
  ultimately show "lru_rep (lru_remove p s) (ys @ zs)"
    using d l(2) f unfolding lru_rep_def by (simp add: t(3,4) lru_frame_def)
qed

lemma lru_push_rep:
  assumes "lru_rep s ll" "p < length (pc_pool s)" "p \<notin> set ll"
  shows "lru_rep (lru_push p s) (p # ll)" "lru_frame s (lru_push p s)"
proof -
  note l = lru_repD[OF assms(1)]
  let ?t = "lru_push p s"
  have h: "pc_head s = (if ll = [] then None else Some (hd ll))" using seg_hd[OF l(3)] by (cases ll) auto
  have tl: "pc_tail s = (if ll = [] then None else Some (last ll))" using seg_hd[OF l(4)] by (cases ll rule: rev_cases) auto
  have hl: "ll \<noteq> [] \<Longrightarrow> hd ll < length (pc_pool s) \<and> hd ll \<noteq> p" using l(2) assms(3) ends_less(2)[of ll] hd_in_set[of ll] by auto
  note d = lru_push_def Let_def h
  have nx: "pg_next (pg ?t i) = (if i = p then pc_head s else pg_next (pg s i))" for i
    unfolding d using hl assms(2) by (simp add: pg_upd_pg h)
  have pv: "pg_prev (pg ?t i) = (if i = p then None else if ll \<noteq> [] \<and> i = hd ll then Some p else pg_prev (pg s i))" for i
    unfolding d using hl assms(2) by (simp add: pg_upd_pg h)
  have ht: "pc_head ?t = Some p" "pc_tail ?t = (if ll = [] then Some p else pc_tail s)" unfolding d by (simp_all add: tl h)
  show f: "lru_frame s ?t" unfolding lru_frame_def d by (simp add: pg_upd_pg h)
  have "seg (\<lambda>i. pg_next (pg ?t i)) (pc_head s) ll None"
    by (rule seg_frame[OF l(3)]) (use nx assms(3) in auto)
  moreover have "seg (\<lambda>i. pg_prev (pg ?t i)) (if rev ll = [] then Some p else pc_tail s) (rev ll @ [p]) None"
    by (rule seg_snoc[OF l(4)]) (use l(1) assms(3) in \<open>auto simp: pv last_rev\<close>)
  moreover have "pg_prev (pg ?t i) = None \<and> pg_next (pg ?t i) = None" if "i < length (pc_pool s)" "i \<notin> set (p # ll)" for i
    using that l(5)[of i] hd_in_set[of ll] by (auto simp: nx pv)
  ultimately show "lru_rep ?t (p # ll)"
    using l(1,2) assms(2,3) f unfolding lru_rep_def by (simp add: ht nx lru_frame_def)
qed

lemma lru_frame_trans: "lru_frame s t \<Longrightarrow> lru_frame t u \<Longrightarrow> lru_frame s u"
  by (simp add: lru_frame_def)

lemma lru_touch_rep:
  assumes "lru_rep s ll" "p < length (pc_pool s)"
  shows "lru_rep (lru_touch p s) (p # remove1 p ll)" "lru_frame s (lru_touch p s)"
proof -
  have "lru_rep (lru_touch p s) (p # remove1 p ll) \<and> lru_frame s (lru_touch p s)"
  proof (cases "p \<in> set ll")
    case True
    then obtain ys zs where l: "ll = ys @ p # zs" "p \<notin> set ys" by (meson split_list_first)
    have r: "remove1 p ll = ys @ zs" using l by (simp add: remove1_append)
    note rep = assms(1)[unfolded l(1)]
    have hd: "pc_head s = Some p \<longleftrightarrow> ys = []" using seg_hd[OF lru_repD(3)[OF rep]] l(2) by (cases ys) auto
    show ?thesis
    proof (cases "ys = []")
      case True
      then show ?thesis using assms(1) l hd by (simp add: lru_touch_def lru_frame_def)
    next
      case False
      then have t: "lru_touch p s = lru_push p (lru_remove p s)"
        using hd lru_links(2)[OF rep] by (simp add: lru_touch_def)
      note q = lru_remove_rep[OF rep]
      have "p < length (pc_pool (lru_remove p s))" "p \<notin> set (ys @ zs)"
        using assms(2) q(2) lru_repD(1)[OF rep] by (auto simp: lru_frame_def)
      from lru_push_rep[OF q(1) this] show ?thesis unfolding t r using lru_frame_trans[OF q(2)] by blast
    qed
  next
    case False
    have "pg_prev (pg s p) = None" "pg_next (pg s p) = None" using lru_repD(5)[OF assms(1,2) False] by auto
    moreover have "pc_head s \<noteq> Some p" using seg_hd[OF lru_repD(3)[OF assms(1)]] False by (cases ll) auto
    moreover have "pc_tail s \<noteq> Some p" using seg_hd[OF lru_repD(4)[OF assms(1)]] False by (cases ll rule: rev_cases) auto
    ultimately have "lru_touch p s = lru_push p s" by (simp add: lru_touch_def)
    then show ?thesis using lru_push_rep[OF assms False] False by (simp add: remove1_idem)
  qed
  then show "lru_rep (lru_touch p s) (p # remove1 p ll)" "lru_frame s (lru_touch p s)" by auto
qed

section \<open>The hash chains\<close>

lemma hash_key_less: "hash_key dev block_no < PC_HASH_SIZE"
proof -
  have "unat (h AND 63) < 64" for h :: u32
    using word_and_le1[of h 63] by (simp add: word_le_nat_alt)
  then show ?thesis by (simp add: hash_key_def PC_HASH_SIZE_def Let_def)
qed

lemma hash_repD:
  assumes "hash_rep s hl" "b < PC_HASH_SIZE"
  shows "length (pc_hash s) = PC_HASH_SIZE" "distinct (hl b)" "set (hl b) \<subseteq> {..<length (pc_pool s)}"
    "i \<in> set (hl b) \<Longrightarrow> hkey (pg s i) = b" "seg (\<lambda>i. pg_hash_next (pg s i)) (pc_hash s ! b) (hl b) None"
  using assms unfolding hash_rep_def by blast+

lemma find_loop:
  assumes "seg (\<lambda>i. pg_hash_next (pg s i)) cur xs None" "length xs < k"
  shows "hash_find_loop k cur dev block_no s = Some (List.find (\<lambda>i. pg_dev (pg s i) = dev \<and> pg_block_no (pg s i) = block_no) xs)"
  using assms
proof (induction xs arbitrary: k cur)
  case Nil
  then show ?case by (cases k) auto
next
  case (Cons x xs)
  then show ?case by (cases k) auto
qed

lemma chain_short: "distinct xs \<Longrightarrow> set xs \<subseteq> {..<n} \<Longrightarrow> length xs \<le> n"
  using card_mono[of "{..<n}" "set xs"] by (simp add: distinct_card)

lemma hash_find_rep:
  assumes "hash_rep s hl" "length (pc_pool s) = PC_MAX_PAGES"
  shows "hash_find dev block_no s =
    Some (List.find (\<lambda>i. pg_dev (pg s i) = dev \<and> pg_block_no (pg s i) = block_no) (hl (hash_key dev block_no)))"
proof -
  note h = hash_repD[OF assms(1) hash_key_less[of dev block_no]]
  have "length (hl (hash_key dev block_no)) < PC_MAX_PAGES + 1" using chain_short[OF h(2,3)] assms(2) by simp
  then show ?thesis unfolding hash_find_def by (rule find_loop[OF h(5)])
qed

lemma hash_insert_rep:
  assumes "hash_rep s hl" "p < length (pc_pool s)" "\<And>b. b < PC_HASH_SIZE \<Longrightarrow> p \<notin> set (hl b)"
  defines "b \<equiv> hkey (pg s p)"
  shows "hash_rep (hash_insert p s) (hl(b := p # hl b))" "hash_frame s (hash_insert p s)"
proof -
  have b: "b < PC_HASH_SIZE" by (simp add: b_def hkey_def hash_key_less)
  let ?t = "hash_insert p s"
  have pgt: "pg ?t i = (if i = p then (pg s p)\<lparr> pg_hash_next := pc_hash s ! b \<rparr> else pg s i)" for i
    using assms(2) by (simp add: hash_insert_def Let_def pg_upd_pg b_def hkey_def)
  have ht: "pc_hash ?t = (pc_hash s)[b := Some p]" by (simp add: hash_insert_def Let_def b_def hkey_def)
  have len: "length (pc_pool ?t) = length (pc_pool s)" by (simp add: hash_insert_def Let_def)
  show "hash_frame s ?t" unfolding hash_frame_def by (simp add: pgt len) (simp add: hash_insert_def Let_def)
  have sg: "seg (\<lambda>i. pg_hash_next (pg ?t i)) (pc_hash s ! c) (hl c) None" if "c < PC_HASH_SIZE" for c
    by (rule seg_frame[OF hash_repD(5)[OF assms(1) that]]) (use assms(3)[OF that] in \<open>auto simp: pgt\<close>)
  have hk: "hkey (pg ?t i) = hkey (pg s i)" for i by (simp add: pgt hkey_def)
  show "hash_rep ?t (hl(b := p # hl b))"
    unfolding hash_rep_def
  proof (intro conjI allI impI)
    show "length (pc_hash ?t) = PC_HASH_SIZE" using hash_repD(1)[OF assms(1) b] by (simp add: ht)
    fix c assume c: "c < PC_HASH_SIZE"
    note h = hash_repD[OF assms(1) c]
    show "distinct ((hl(b := p # hl b)) c)" using h(2) assms(3)[OF c] by auto
    show "set ((hl(b := p # hl b)) c) \<subseteq> {..<length (pc_pool ?t)}" using h(3) assms(2) by (auto simp: len)
    show "\<forall>i \<in> set ((hl(b := p # hl b)) c). hkey (pg ?t i) = c" using h(4) by (auto simp: hk b_def)
    show "seg (\<lambda>i. pg_hash_next (pg ?t i)) (pc_hash ?t ! c) ((hl(b := p # hl b)) c) None"
      using sg[OF c] h(1) b by (auto simp: ht pgt nth_list_update)
  qed
qed

lemma remove_loop:
  assumes "seg (\<lambda>i. pg_hash_next (pg s i)) (Some c) (ys @ p # zs) None" "p \<notin> set ys" "length ys < k"
    and "c = hd (ys @ [p])"
  shows "hash_remove_loop k b prev (Some c) p s = hash_remove_loop (k - length ys) b (if ys = [] then prev else Some (last ys)) (Some p) p s"
  using assms
proof (induction ys arbitrary: k prev c)
  case (Cons y ys)
  obtain k' where k: "k = Suc k'" using Cons.prems(3) by (cases k) auto
  have c: "c = y" "y \<noteq> p" using Cons.prems by auto
  obtain d where d: "pg_hash_next (pg s y) = Some d" "d = hd (ys @ [p])" using Cons.prems(1) by (cases ys) auto
  have "hash_remove_loop k b prev (Some c) p s = hash_remove_loop k' b (Some y) (Some d) p s" using k c d by simp
  also have "\<dots> = hash_remove_loop (k' - length ys) b (if ys = [] then Some y else Some (last ys)) (Some p) p s"
    by (rule Cons.IH) (use Cons.prems c d k in auto)
  finally show ?case using k by simp
qed simp

lemma hash_remove_rep:
  assumes rep: "hash_rep s hl" and len: "length (pc_pool s) = PC_MAX_PAGES"
    and p: "p \<in> set (hl (hkey (pg s p)))"
  defines "b \<equiv> hkey (pg s p)"
  shows "\<exists>t. hash_remove p s = Some t \<and> hash_rep t (hl(b := remove1 p (hl b))) \<and> hash_frame s t"
proof -
  have b: "b < PC_HASH_SIZE" by (simp add: b_def hkey_def hash_key_less)
  note h = hash_repD[OF rep b]
  obtain ys zs where l: "hl b = ys @ p # zs" "p \<notin> set ys" using p unfolding b_def by (meson split_list_first)
  have r: "remove1 p (hl b) = ys @ zs" using l by (simp add: remove1_append)
  have pl: "p < length (pc_pool s)" and d: "distinct (ys @ p # zs)" and sg: "seg (\<lambda>i. pg_hash_next (pg s i)) (pc_hash s ! b) (ys @ p # zs) None"
    using h(2,3,5) l by auto
  have ly: "length ys < PC_MAX_PAGES + 1" using chain_short[OF h(2,3)] l len by simp
  let ?nx = "pg_hash_next (pg s p)"
  define t where "t = pg_upd p (\<lambda>g. g\<lparr> pg_hash_next := None \<rparr>) (if ys = [] then s\<lparr> pc_hash := (pc_hash s)[b := ?nx] \<rparr>
    else pg_upd (last ys) (\<lambda>g. g\<lparr> pg_hash_next := ?nx \<rparr>) s)"
  have hd: "pc_hash s ! b = Some (hd (ys @ [p]))" using seg_hd[OF sg] by (cases ys) auto
  have "hash_remove p s = hash_remove_loop (PC_MAX_PAGES + 1 - length ys) b (if ys = [] then None else Some (last ys)) (Some p) p s"
    using remove_loop[OF sg[unfolded hd] l(2) ly refl] by (simp add: hash_remove_def Let_def b_def[unfolded hkey_def, symmetric] hd)
  also have "PC_MAX_PAGES + 1 - length ys = Suc (PC_MAX_PAGES - length ys)" using ly by simp
  finally have e: "hash_remove p s = Some t" by (simp add: Let_def t_def)
  have lyp: "ys \<noteq> [] \<Longrightarrow> last ys \<noteq> p \<and> last ys < length (pc_pool s)" using l h(3) ends_less(1)[of ys] last_in_set[of ys] by auto
  have pgt: "pg t i = (if i = p then (pg s p)\<lparr> pg_hash_next := None \<rparr>
      else if ys \<noteq> [] \<and> i = last ys then (pg s i)\<lparr> pg_hash_next := ?nx \<rparr> else pg s i)" for i
    using pl lyp by (auto simp: pg_upd_pg t_def)
  have ht: "pc_hash t = (if ys = [] then (pc_hash s)[b := ?nx] else pc_hash s)" by (simp add: t_def)
  have lt: "length (pc_pool t) = length (pc_pool s)" by (simp add: t_def)
  have fr: "hash_frame s t" unfolding hash_frame_def lt by (simp add: pgt) (simp add: t_def)
  have hk: "hkey (pg t i) = hkey (pg s i)" for i by (simp add: pgt hkey_def)
  have other: "p \<notin> set (hl c) \<and> (ys \<noteq> [] \<longrightarrow> last ys \<notin> set (hl c))" if "c < PC_HASH_SIZE" "c \<noteq> b" for c
    using that hash_repD(4)[OF rep that(1)] h(4) l last_in_set[of ys] by fastforce
  have "hash_rep t (hl(b := remove1 p (hl b)))"
    unfolding hash_rep_def
  proof (intro conjI allI impI)
    show "length (pc_hash t) = PC_HASH_SIZE" using h(1) by (simp add: ht)
    fix c assume c: "c < PC_HASH_SIZE"
    note hc = hash_repD[OF rep c]
    show "distinct ((hl(b := remove1 p (hl b))) c)" using hc(2) h(2) by simp
    show "set ((hl(b := remove1 p (hl b))) c) \<subseteq> {..<length (pc_pool t)}" unfolding lt using hc(3) h(3) r l by auto
    show "\<forall>i \<in> set ((hl(b := remove1 p (hl b))) c). hkey (pg t i) = c" using hc(4) h(4) r l by (auto simp: hk)
    have "seg (\<lambda>i. pg_hash_next (pg t i)) (if ys = [] then ?nx else pc_hash s ! b) (ys @ zs) None"
      by (rule seg_delete[OF sg d]) (use d lyp in \<open>auto simp: pgt\<close>)
    moreover have "seg (\<lambda>i. pg_hash_next (pg t i)) (pc_hash s ! c) (hl c) None" if "c \<noteq> b"
      by (rule seg_frame[OF hc(5)]) (use other[OF c that] in \<open>auto simp: pgt\<close>)
    ultimately show "seg (\<lambda>i. pg_hash_next (pg t i)) (pc_hash t ! c) ((hl(b := remove1 p (hl b))) c) None"
      using h(1) b r by (auto simp: ht)
  qed
  then show ?thesis using e fr by blast
qed

section \<open>The structure invariant\<close>

definition pvalid :: "('hw, 's) pc \<Rightarrow> nat \<Rightarrow> bool" where "pvalid s i \<longleftrightarrow> pg_has PC_FLAG_VALID (pg s i)"

definition same_key :: "page \<Rightarrow> page \<Rightarrow> bool" where
  "same_key g h \<longleftrightarrow> pg_dev g = pg_dev h \<and> pg_block_no g = pg_block_no h"

definition pc_rep :: "('hw, 's) pc \<Rightarrow> nat list \<Rightarrow> (nat \<Rightarrow> nat list) \<Rightarrow> bool" where
  "pc_rep s ll hl \<longleftrightarrow> length (pc_pool s) = PC_MAX_PAGES \<and> lru_rep s ll \<and> hash_rep s hl \<and>
     (\<forall>i < PC_MAX_PAGES. i \<in> set ll \<longleftrightarrow> pvalid s i) \<and> (\<forall>i < PC_MAX_PAGES. i \<in> set (hl (hkey (pg s i))) \<longleftrightarrow> pvalid s i) \<and>
     (\<forall>i < PC_MAX_PAGES. \<forall>j < PC_MAX_PAGES. pvalid s i \<longrightarrow> pvalid s j \<longrightarrow> same_key (pg s i) (pg s j) \<longrightarrow> i = j)"

lemma pc_repD:
  assumes "pc_rep s ll hl"
  shows "length (pc_pool s) = PC_MAX_PAGES" "lru_rep s ll" "hash_rep s hl"
    "i < PC_MAX_PAGES \<Longrightarrow> i \<in> set ll \<longleftrightarrow> pvalid s i" "i < PC_MAX_PAGES \<Longrightarrow> i \<in> set (hl (hkey (pg s i))) \<longleftrightarrow> pvalid s i"
    "i < PC_MAX_PAGES \<Longrightarrow> j < PC_MAX_PAGES \<Longrightarrow> pvalid s i \<Longrightarrow> pvalid s j \<Longrightarrow> same_key (pg s i) (pg s j) \<Longrightarrow> i = j"
  using assms unfolding pc_rep_def by blast+

lemma hl_member:
  assumes "pc_rep s ll hl" "b < PC_HASH_SIZE" "i \<in> set (hl b)"
  shows "i < PC_MAX_PAGES" "pvalid s i" "hkey (pg s i) = b"
proof -
  note h = hash_repD[OF pc_repD(3)[OF assms(1)] assms(2)]
  show i: "i < PC_MAX_PAGES" using h(3) assms(3) pc_repD(1)[OF assms(1)] by auto
  show k: "hkey (pg s i) = b" by (rule h(4)[OF assms(3)])
  show "pvalid s i" using pc_repD(5)[OF assms(1) i] k assms(3) by simp
qed

lemma same_key_hkey: "same_key g h \<Longrightarrow> hkey g = hkey h"
  by (simp add: same_key_def hkey_def)

text \<open>A lookup finds the page with the key, if there is one.\<close>

lemma hash_find_Some:
  assumes "pc_rep s ll hl" "p < PC_MAX_PAGES" "pvalid s p"
  shows "hash_find (pg_dev (pg s p)) (pg_block_no (pg s p)) s = Some (Some p)"
proof -
  let ?P = "\<lambda>i. pg_dev (pg s i) = pg_dev (pg s p) \<and> pg_block_no (pg s i) = pg_block_no (pg s p)"
  have "p \<in> set (hl (hkey (pg s p)))" using pc_repD(5)[OF assms(1,2)] assms(3) by simp
  then have ne: "List.find ?P (hl (hkey (pg s p))) \<noteq> None" by (auto simp: find_None_iff)
  have u: "i = p" if "List.find ?P (hl (hkey (pg s p))) = Some i" for i
  proof -
    have "i \<in> set (hl (hkey (pg s p)))" "?P i" using that by (auto simp: find_Some_iff in_set_conv_nth)
    then show ?thesis
      using hl_member[OF assms(1), of "hkey (pg s p)" i] pc_repD(6)[OF assms(1) _ assms(2) _ assms(3)]
      by (auto simp: same_key_def hkey_def hash_key_less)
  qed
  show ?thesis
    unfolding hash_find_rep[OF pc_repD(3,1)[OF assms(1)]] using ne u by (auto simp: hkey_def)
qed

lemma hash_find_cases:
  assumes "pc_rep s ll hl"
  obtains (found) p where "hash_find dev block_no s = Some (Some p)" "p < PC_MAX_PAGES" "pvalid s p"
      "pg_dev (pg s p) = dev" "pg_block_no (pg s p) = block_no"
  | (absent) "hash_find dev block_no s = Some None"
      "\<And>i. i < PC_MAX_PAGES \<Longrightarrow> pvalid s i \<Longrightarrow> \<not> (pg_dev (pg s i) = dev \<and> pg_block_no (pg s i) = block_no)"
proof (cases "\<exists>i < PC_MAX_PAGES. pvalid s i \<and> pg_dev (pg s i) = dev \<and> pg_block_no (pg s i) = block_no")
  case True
  then show ?thesis using hash_find_Some[OF assms] found by blast
next
  case False
  have "List.find (\<lambda>i. pg_dev (pg s i) = dev \<and> pg_block_no (pg s i) = block_no) (hl (hash_key dev block_no)) = None"
    using False hl_member[OF assms hash_key_less[of dev block_no]] by (auto simp: find_None_iff)
  then show ?thesis using absent False hash_find_rep[OF pc_repD(3,1)[OF assms]] by auto
qed

section \<open>What the operations do to a page\<close>

text \<open>A page without its links.\<close>

definition pcore :: "page \<Rightarrow> page" where
  "pcore g = g\<lparr> pg_prev := None, pg_next := None, pg_hash_next := None \<rparr>"

lemma pcoreD:
  assumes "pcore g = pcore h"
  shows "pg_dev g = pg_dev h" "pg_flags g = pg_flags h" "pg_block_no g = pg_block_no h" "pg_block_size g = pg_block_size h"
    "pg_pin g = pg_pin h" "pg_data g = pg_data h"
  using assms by (cases g, cases h, simp add: pcore_def)+

lemma pcore_upds [simp]:
  "pcore (g\<lparr> pg_pin := n \<rparr>) = (pcore g)\<lparr> pg_pin := n \<rparr>" "pcore (g\<lparr> pg_flags := w \<rparr>) = (pcore g)\<lparr> pg_flags := w \<rparr>"
  "pcore (g\<lparr> pg_data := d \<rparr>) = (pcore g)\<lparr> pg_data := d \<rparr>"
  by (simp_all add: pcore_def)

lemma pcore_sel [simp]:
  "pg_pin (pcore g) = pg_pin g" "pg_flags (pcore g) = pg_flags g" "pg_data (pcore g) = pg_data g" "pg_dev (pcore g) = pg_dev g"
  "pg_block_no (pcore g) = pg_block_no g" "pg_block_size (pcore g) = pg_block_size g"
  by (simp_all add: pcore_def)

definition pc_same :: "('hw, 's) pc \<Rightarrow> ('hw, 's) pc \<Rightarrow> bool" where
  "pc_same s t \<longleftrightarrow> (\<forall>i. pcore (pg t i) = pcore (pg s i)) \<and> pc_blk t = pc_blk s"

lemma lru_frame_same: "lru_frame s t \<Longrightarrow> pc_same s t"
proof -
  assume f: "lru_frame s t"
  have "pcore (pg t i) = pcore (pg s i)" for i
  proof -
    have "(pg t i)\<lparr> pg_prev := None, pg_next := None \<rparr> = (pg s i)\<lparr> pg_prev := None, pg_next := None \<rparr>"
      using f by (simp add: lru_frame_def)
    from arg_cong[where f = "\<lambda>g. g\<lparr> pg_hash_next := None \<rparr>", OF this] show ?thesis by (simp add: pcore_def)
  qed
  then show ?thesis using f by (simp add: pc_same_def lru_frame_def)
qed

lemma hash_frame_same: "hash_frame s t \<Longrightarrow> pc_same s t"
proof -
  assume f: "hash_frame s t"
  have "pcore (pg t i) = pcore (pg s i)" for i
  proof -
    have "(pg t i)\<lparr> pg_hash_next := None \<rparr> = (pg s i)\<lparr> pg_hash_next := None \<rparr>" using f by (simp add: hash_frame_def)
    then show ?thesis by (cases "pg t i", cases "pg s i") (simp add: pcore_def)
  qed
  then show ?thesis using f by (simp add: pc_same_def hash_frame_def)
qed

lemma pc_same_trans: "pc_same s t \<Longrightarrow> pc_same t u \<Longrightarrow> pc_same s u"
  by (simp add: pc_same_def)

lemma pc_sameD:
  assumes "pc_same s t"
  shows "pvalid t i = pvalid s i" "hkey (pg t i) = hkey (pg s i)" "same_key (pg t i) (pg t j) = same_key (pg s i) (pg s j)"
proof -
  have c: "pcore (pg t i) = pcore (pg s i)" for i using assms by (simp add: pc_same_def)
  show "pvalid t i = pvalid s i" using pcoreD(2)[OF c] by (simp add: pvalid_def pg_has_def)
  show "hkey (pg t i) = hkey (pg s i)" using pcoreD(1,3)[OF c] by (simp add: hkey_def)
  show "same_key (pg t i) (pg t j) = same_key (pg s i) (pg s j)" using pcoreD(1,3)[OF c] by (simp add: same_key_def)
qed

lemma touch_rep:
  assumes "pc_rep s ll hl" "p < PC_MAX_PAGES" "pvalid s p"
  shows "pc_rep (lru_touch p s) (p # remove1 p ll) hl" "pc_same s (lru_touch p s)"
proof -
  note r = pc_repD[OF assms(1)]
  have pl: "p < length (pc_pool s)" using assms(2) r(1) by simp
  note t = lru_touch_rep[OF r(2) pl]
  show sm: "pc_same s (lru_touch p s)" by (rule lru_frame_same[OF t(2)])
  note d = pc_sameD[OF sm]
  have "set (p # remove1 p ll) = set ll" using r(4)[OF assms(2)] assms(3) lru_repD(1)[OF r(2)] by (auto simp: set_remove1_eq)
  then show "pc_rep (lru_touch p s) (p # remove1 p ll) hl"
    using t r hash_rep_lru[OF t(2)] unfolding pc_rep_def d lru_frame_def by metis
qed

text \<open>Changing a page without touching links, key and validity.\<close>

lemma upd_rep:
  assumes "pc_rep s ll hl"
    and "\<And>g. pg_prev (f g) = pg_prev g \<and> pg_next (f g) = pg_next g \<and> pg_hash_next (f g) = pg_hash_next g \<and>
      pg_dev (f g) = pg_dev g \<and> pg_block_no (f g) = pg_block_no g \<and> pg_flags (f g) AND PC_FLAG_VALID = pg_flags g AND PC_FLAG_VALID"
  shows "pc_rep (pg_upd i f s) ll hl"
proof -
  let ?t = "pg_upd i f s"
  have e: "pg_prev (pg ?t j) = pg_prev (pg s j)" "pg_next (pg ?t j) = pg_next (pg s j)" "pg_hash_next (pg ?t j) = pg_hash_next (pg s j)"
    "pg_dev (pg ?t j) = pg_dev (pg s j)" "pg_block_no (pg ?t j) = pg_block_no (pg s j)"
    "pg_flags (pg ?t j) AND PC_FLAG_VALID = pg_flags (pg s j) AND PC_FLAG_VALID" for j
    using assms(2) by (simp_all add: pg_upd_pg)
  have "lru_rep ?t ll = lru_rep s ll" by (rule lru_rep_cong) (simp_all add: e)
  moreover have "hash_rep ?t hl = hash_rep s hl" by (rule hash_rep_cong) (simp_all add: e)
  moreover have "pvalid ?t = pvalid s" by (simp add: fun_eq_iff pvalid_def pg_has_def e)
  moreover have "hkey (pg ?t j) = hkey (pg s j)" "same_key (pg ?t j) (pg ?t k) = same_key (pg s j) (pg s k)" for j k
    by (simp_all add: hkey_def same_key_def e)
  ultimately show ?thesis using assms(1) by (simp add: pc_rep_def)
qed

lemma fields_rep:
  assumes "pc_rep s ll hl" "pc_pool t = pc_pool s" "pc_hash t = pc_hash s" "pc_head t = pc_head s" "pc_tail t = pc_tail s"
  shows "pc_rep t ll hl"
proof -
  have e: "pg t = pg s" by (simp add: pg_def fun_eq_iff assms)
  have v: "pvalid t = pvalid s" by (simp add: fun_eq_iff pvalid_def e)
  show ?thesis using assms(1) unfolding pc_rep_def lru_rep_def hash_rep_def e v assms(2-5) .
qed

lemma flag_facts [simp]:
  "(w OR 2) AND 1 = w AND (1 :: u8)" "(w AND NOT 2) AND 1 = w AND (1 :: u8)" "(w OR 1) AND 1 = (1 :: u8)"
  "(w AND NOT 2) AND 2 = (0 :: u8)" "(w OR 2) AND 2 = (2 :: u8)" "(w AND NOT 2) AND 4 = w AND (4 :: u8)" "(w OR 2) AND 4 = w AND (4 :: u8)"
  "(w OR 1) AND 2 = w AND (2 :: u8)" "(w OR 1) AND 4 = w AND (4 :: u8)"
  "(w AND - 3) AND 1 = w AND (1 :: u8)" "(w AND - 3) AND 2 = (0 :: u8)" "(w AND - 3) AND 4 = w AND (4 :: u8)"
  by (simp_all add: bit.conj_disj_distrib2 and.assoc)

lemma pin_rep: "pc_rep s ll hl \<Longrightarrow> pc_rep (pin_add d p s) ll hl"
  unfolding pin_add_def by (rule upd_rep) simp_all

lemma dirty_rep: "pc_rep s ll hl \<Longrightarrow> pc_rep (pg_upd p (\<lambda>g. g\<lparr> pg_flags := pg_flags g OR PC_FLAG_DIRTY \<rparr>) s) ll hl"
  by (rule upd_rep) simp_all

lemma clean_rep: "pc_rep s ll hl \<Longrightarrow> pc_rep (clear_dirty p s) ll hl"
  unfolding clear_dirty_def by (rule upd_rep) simp_all

text \<open>Changing a page that is in neither structure.\<close>

lemma upd_free_reps:
  assumes "lru_rep s ll" "hash_rep s hl" "\<And>b. b < PC_HASH_SIZE \<Longrightarrow> p \<notin> set (hl b)"
    and "\<And>g. pg_prev (f g) = pg_prev g \<and> pg_next (f g) = pg_next g"
  shows "lru_rep (pg_upd p f s) ll" "hash_rep (pg_upd p f s) hl"
proof -
  have "lru_rep (pg_upd p f s) ll = lru_rep s ll" by (rule lru_rep_cong) (simp_all add: pg_upd_pg assms(4))
  then show "lru_rep (pg_upd p f s) ll" using assms(1) by simp
  show "hash_rep (pg_upd p f s) hl"
    by (rule hash_rep_members[OF assms(2)]) (use assms(3) in \<open>auto simp: pg_upd_pg\<close>)
qed

lemma invalid_free:
  assumes "pc_rep s ll hl" "p < PC_MAX_PAGES" "\<not> pvalid s p"
  shows "p \<notin> set ll" "b < PC_HASH_SIZE \<Longrightarrow> p \<notin> set (hl b)"
  using pc_repD(4)[OF assms(1,2)] assms(3) hl_member[OF assms(1)] by auto

lemma upd_invalid_rep:
  assumes rep: "pc_rep s ll hl" and p: "p < PC_MAX_PAGES" "\<not> pvalid s p"
    and f: "\<And>g. pg_prev (f g) = pg_prev g \<and> pg_next (f g) = pg_next g" and nv: "\<not> pg_has PC_FLAG_VALID (f (pg s p))"
  shows "pc_rep (pg_upd p f s) ll hl"
proof -
  note r = pc_repD[OF rep]
  let ?t = "pg_upd p f s"
  have fr: "p \<notin> set ll" "\<And>b. b < PC_HASH_SIZE \<Longrightarrow> p \<notin> set (hl b)" using invalid_free[OF rep p] by auto
  have v: "pvalid ?t i = pvalid s i" for i using nv p by (auto simp: pvalid_def pg_upd_pg)
  have "lru_rep ?t ll" "hash_rep ?t hl" using upd_free_reps[OF r(2,3) fr(2)] f by auto
  moreover have "i \<in> set (hl (hkey (pg ?t i))) \<longleftrightarrow> pvalid s i" if "i < PC_MAX_PAGES" for i
    using r(5)[OF that] fr(2) p by (auto simp: pg_upd_pg hkey_def hash_key_less)
  moreover have "i = j" if "i < PC_MAX_PAGES" "j < PC_MAX_PAGES" "pvalid s i" "pvalid s j" "same_key (pg ?t i) (pg ?t j)" for i j
    using that r(6)[OF that(1-4)] p by (auto simp: pg_upd_pg split: if_splits)
  ultimately show ?thesis using r(1,4) unfolding pc_rep_def v by simp
qed

lemma unlink_rep:
  assumes rep: "pc_rep s ll hl" and p: "p < PC_MAX_PAGES" "pvalid s p"
  shows "\<exists>t hl'. hash_remove p (lru_remove p s) = Some t \<and> pc_same s t \<and>
    (\<forall>f. (\<forall>g. pg_prev (f g) = pg_prev g \<and> pg_next (f g) = pg_next g \<and> pg_flags (f g) = 0) \<longrightarrow> pc_rep (pg_upd p f t) (remove1 p ll) hl')"
proof -
  note r = pc_repD[OF rep]
  have "p \<in> set ll" using r(4)[OF p(1)] p(2) by simp
  then obtain ys zs where l: "ll = ys @ p # zs" "p \<notin> set ys" by (meson split_list_first)
  have rl: "remove1 p ll = ys @ zs" using l by (simp add: remove1_append)
  let ?u = "lru_remove p s"
  have u: "lru_rep ?u (ys @ zs)" "lru_frame s ?u" using lru_remove_rep r(2) l by auto
  have hu: "hash_rep ?u hl" "length (pc_pool ?u) = PC_MAX_PAGES" using hash_rep_lru[OF u(2)] r(1,3) u(2) by (auto simp: lru_frame_def)
  have us: "pc_same s ?u" by (rule lru_frame_same[OF u(2)])
  let ?b = "hkey (pg s p)" let ?hl = "hl(?b := remove1 p (hl ?b))"
  have k: "hkey (pg ?u p) = ?b" by (rule pc_sameD(2)[OF us])
  have pin: "p \<in> set (hl (hkey (pg ?u p)))" using r(5)[OF p(1)] p(2) k by simp
  obtain t where t: "hash_remove p ?u = Some t" "hash_rep t ?hl" "hash_frame ?u t"
    using hash_remove_rep[OF hu pin] unfolding k by blast
  have st: "pc_same s t" using pc_same_trans[OF us hash_frame_same[OF t(3)]] .
  note d = pc_sameD[OF st]
  have lt: "lru_rep t (ys @ zs)" "length (pc_pool t) = PC_MAX_PAGES"
    using lru_rep_hash[OF t(3)] u(1) hu(2) t(3) by (auto simp: hash_frame_def)
  have dist: "distinct (hl ?b)" using hash_repD(2)[OF r(3), of ?b] by (simp add: hkey_def hash_key_less)
  have np: "p \<notin> set (?hl b)" if "b < PC_HASH_SIZE" for b
    using hl_member(3)[OF rep that] dist by (auto simp: set_remove1_eq)
  have "pc_rep (pg_upd p f t) (remove1 p ll) ?hl"
    if f: "\<And>g. pg_prev (f g) = pg_prev g \<and> pg_next (f g) = pg_next g \<and> pg_flags (f g) = 0" for f
  proof -
    let ?v = "pg_upd p f t"
    have v: "pvalid ?v i \<longleftrightarrow> i \<noteq> p \<and> pvalid s i" if "i < PC_MAX_PAGES" for i
      using d(1)[of i] f that lt(2) p(1) by (auto simp: pvalid_def pg_has_def pg_upd_pg)
    have f': "\<And>g. pg_prev (f g) = pg_prev g \<and> pg_next (f g) = pg_next g" using f by blast
    note reps = upd_free_reps[OF lt(1) t(2) np f']
    have m1: "i \<in> set (ys @ zs) \<longleftrightarrow> i \<noteq> p \<and> pvalid s i" if "i < PC_MAX_PAGES" for i
      using r(4)[OF that] l lru_repD(1)[OF r(2)] by auto
    have m2: "i \<in> set (?hl (hkey (pg ?v i))) \<longleftrightarrow> i \<noteq> p \<and> pvalid s i" if "i < PC_MAX_PAGES" for i
      using r(5)[OF that] d(2)[of i] np dist by (cases "i = p") (auto simp: pg_upd_pg set_remove1_eq hkey_def hash_key_less)
    have m3: "i = j" if "i < PC_MAX_PAGES" "j < PC_MAX_PAGES" "i \<noteq> p \<and> pvalid s i" "j \<noteq> p \<and> pvalid s j" "same_key (pg ?v i) (pg ?v j)" for i j
      using that r(6)[OF that(1,2)] d(3)[of i j] by (auto simp: pg_upd_pg)
    show ?thesis unfolding pc_rep_def rl using reps lt(2) m1 m2 m3 v by (simp add: fun_upd_def)
  qed
  then show ?thesis using t(1) st by blast
qed

lemma insert_rep:
  assumes rep: "pc_rep s ll hl" and p: "p < PC_MAX_PAGES" "\<not> pvalid s p"
    and new: "\<And>i. i < PC_MAX_PAGES \<Longrightarrow> pvalid s i \<Longrightarrow> \<not> same_key (pg s i) (pg s p)"
  defines "u \<equiv> pg_upd p (\<lambda>g. g\<lparr> pg_flags := pg_flags g OR PC_FLAG_VALID \<rparr>) s"
  shows "\<exists>hl'. pc_rep (lru_touch p (hash_insert p u)) (p # ll) hl'" "pc_same u (lru_touch p (hash_insert p u))"
proof -
  note r = pc_repD[OF rep]
  have fr: "p \<notin> set ll" "\<And>b. b < PC_HASH_SIZE \<Longrightarrow> p \<notin> set (hl b)" using invalid_free[OF rep p] by auto
  have pgu: "pg u i = (if i = p then (pg s p)\<lparr> pg_flags := pg_flags (pg s p) OR PC_FLAG_VALID \<rparr> else pg s i)" for i
    using p(1) r(1) by (simp add: u_def pg_upd_pg)
  have ru: "lru_rep u ll" "hash_rep u hl" "length (pc_pool u) = PC_MAX_PAGES"
    using upd_free_reps[OF r(2,3) fr(2)] r(1) by (auto simp: u_def)
  have vu: "pvalid u i \<longleftrightarrow> i = p \<or> pvalid s i" for i by (simp add: pvalid_def pg_has_def pgu)
  have ku: "hkey (pg u i) = hkey (pg s i)" "same_key (pg u i) (pg u j) = same_key (pg s i) (pg s j)" for i j
    by (auto simp: pgu hkey_def same_key_def)
  let ?b = "hkey (pg u p)" let ?hl = "hl(?b := p # hl ?b)" let ?v = "hash_insert p u" let ?t = "lru_touch p ?v"
  have pl: "p < length (pc_pool u)" using p(1) ru(3) by simp
  have v: "hash_rep ?v ?hl" "hash_frame u ?v" using hash_insert_rep[OF ru(2) pl fr(2)] by auto
  have lv: "lru_rep ?v ll" "p < length (pc_pool ?v)" using lru_rep_hash[OF v(2)] ru(1) pl v(2) by (auto simp: hash_frame_def)
  have t: "lru_rep ?t (p # ll)" "lru_frame ?v ?t" using lru_touch_rep[OF lv] fr(1) by (auto simp: remove1_idem)
  show sm: "pc_same u ?t" using pc_same_trans[OF hash_frame_same[OF v(2)] lru_frame_same[OF t(2)]] .
  note d = pc_sameD[OF sm]
  have "hash_rep ?t ?hl" using hash_rep_lru[OF t(2)] v(1) by simp
  moreover have "length (pc_pool ?t) = PC_MAX_PAGES" using t(2) v(2) ru(3) by (simp add: lru_frame_def hash_frame_def)
  moreover have "i \<in> set (p # ll) \<longleftrightarrow> pvalid u i" if "i < PC_MAX_PAGES" for i using r(4)[OF that] vu by auto
  moreover have "i \<in> set (?hl (hkey (pg u i))) \<longleftrightarrow> pvalid u i" if "i < PC_MAX_PAGES" for i
    using r(5)[OF that] vu ku fr(2) by (auto simp: hkey_def hash_key_less)
  moreover have "i = j" if "i < PC_MAX_PAGES" "j < PC_MAX_PAGES" "pvalid u i" "pvalid u j" "same_key (pg u i) (pg u j)" for i j
  proof -
    have k: "same_key (pg s i) (pg s j)" "same_key (pg s j) (pg s i)" using that(5) ku(2) by (simp_all add: same_key_def)
    show ?thesis
      using that(1-4) k vu[of i] vu[of j] new[of i] new[of j] r(6)[OF that(1,2)] by (cases "i = p"; cases "j = p") simp_all
  qed
  ultimately have "pc_rep ?t (p # ll) ?hl" using t(1) unfolding pc_rep_def d by simp
  then show "\<exists>hl'. pc_rep ?t (p # ll) hl'" by blast
qed

section \<open>Writing back and eviction\<close>

lemma write_total:
  assumes "bk_ok b" "i < BLKDEV_SLOTS" "bk_used b ! i"
  shows "\<exists>r h. blkdev_write (Some i) lba buf b = Some (r, b\<lparr> bk_hw := h \<rparr>)"
  unfolding write_eq[OF assms]
  by (cases "lba < bd_max_lba (bk_dev b i)"; cases "bd_write (bk_dev b (blk_root i b))") (auto intro: exI[of _ "bk_hw b"])

lemma write_sectors_total:
  assumes "bk_ok b" "bd < BLKDEV_SLOTS" "bk_used b ! bd"
  shows "\<exists>h. write_sectors is bd lba data b = Some (b\<lparr> bk_hw := h \<rparr>)"
  using assms
proof (induction "is" arbitrary: b)
  case Nil
  then show ?case by (auto intro: exI[of _ "bk_hw b"])
next
  case (Cons i "is")
  obtain r h where w: "blkdev_write (Some bd) (lba + word_of_nat i) (slice (i * 512) 512 data) b = Some (r, b\<lparr> bk_hw := h \<rparr>)"
    using write_total[OF Cons.prems] by blast
  have "\<exists>h'. write_sectors is bd lba data (b\<lparr> bk_hw := h \<rparr>) = Some ((b\<lparr> bk_hw := h \<rparr>)\<lparr> bk_hw := h' \<rparr>)"
    by (rule Cons.IH) (use Cons.prems in \<open>simp_all add: hw_same\<close>)
  then show ?case using w by auto
qed

lemma by_id_ok: "blkdev_by_id n b = Some d \<Longrightarrow> d < BLKDEV_SLOTS \<and> bk_used b ! d"
  by (auto simp: blkdev_by_id_def split: if_splits)

text \<open>The page after a write back, and the rest of the cache, which stays as it is.\<close>

definition clean :: "page \<Rightarrow> page" where "clean g = g\<lparr> pg_flags := pg_flags g AND NOT PC_FLAG_DIRTY \<rparr>"

lemma writeback_total:
  assumes rep: "pc_rep s ll hl" and ok: "bk_ok (pc_blk s)" and p: "p < PC_MAX_PAGES"
  shows "\<exists>t. writeback p s = Some t \<and> pc_rep t ll hl \<and> bk_ok (pc_blk t) \<and>
    (\<forall>i. pg t i = (if i = p \<and> pg_has PC_FLAG_DIRTY (pg s p) then clean (pg s p) else pg s i))"
proof -
  note r = pc_repD[OF rep]
  have cl: "pc_rep (clear_dirty p (s\<lparr> pc_blk := b \<rparr>)) ll hl" "pg (clear_dirty p (s\<lparr> pc_blk := b \<rparr>)) i = (if i = p then clean (pg s p) else pg s i)" for b i
    using clean_rep[OF fields_rep[OF rep, of "s\<lparr> pc_blk := b \<rparr>"]] p r(1) by (simp_all add: clear_dirty_def pg_upd_pg clean_def)
  have id: "s\<lparr> pc_blk := pc_blk s \<rparr> = s" by simp
  show ?thesis
  proof (cases "\<not> pg_has PC_FLAG_DIRTY (pg s p) \<or> pg_data (pg s p) = None \<or> blkdev_by_id (pg_dev (pg s p)) (pc_blk s) = None")
    case True
    then show ?thesis using rep ok cl[of "pc_blk s"] unfolding id
      by (auto simp: writeback_def Let_def clear_dirty_def split: option.splits)
  next
    case False
    then obtain data bd where d: "pg_data (pg s p) = Some data" "blkdev_by_id (pg_dev (pg s p)) (pc_blk s) = Some bd" by auto
    let ?spb = "pg_block_size (pg s p) div 512"
    obtain h where h: "write_sectors [0..<unat ?spb] bd (pg_block_no (pg s p) * ?spb) data (pc_blk s) = Some ((pc_blk s)\<lparr> bk_hw := h \<rparr>)"
      using write_sectors_total[OF ok] by_id_ok[OF d(2)] by blast
    let ?u = "clear_dirty p (s\<lparr> pc_blk := (pc_blk s)\<lparr> bk_hw := h \<rparr> \<rparr>)" let ?t = "?u\<lparr> pc_writebacks := pc_writebacks ?u + 1 \<rparr>"
    have "writeback p s = Some ?t" using False d h by (simp add: writeback_def Let_def)
    moreover have "pc_rep ?t ll hl" by (rule fields_rep[OF cl(1)]) simp_all
    moreover have "bk_ok (pc_blk ?t)" using ok by (simp add: clear_dirty_def hw_same)
    moreover have "pg ?t i = (if i = p \<and> pg_has PC_FLAG_DIRTY (pg s p) then clean (pg s p) else pg s i)" for i using cl(2) False by simp
    ultimately show ?thesis by blast
  qed
qed

text \<open>
  Eviction takes the least recently used page without pins. Such a page is not dirty, so nothing is
  written.
\<close>

lemma evict_loop_spec:
  assumes rep: "pc_rep s ll hl" and clean: "\<And>i. i < PC_MAX_PAGES \<Longrightarrow> pg_pin (pg s i) = 0 \<Longrightarrow> \<not> pg_has PC_FLAG_DIRTY (pg s i)"
    and sg: "seg (\<lambda>i. pg_prev (pg s i)) cur xs None" "length xs < k" "set xs \<subseteq> set ll"
  shows "case List.find (\<lambda>i. pg_pin (pg s i) = 0) xs of
      None \<Rightarrow> evict_loop k cur s = Some (None, s)
    | Some p \<Rightarrow> \<exists>t hl'. evict_loop k cur s = Some (Some p, t) \<and> pc_rep t (remove1 p ll) hl' \<and> pc_blk t = pc_blk s \<and>
        (\<forall>i. pcore (pg t i) = (if i = p then (pcore (pg s p))\<lparr> pg_flags := 0, pg_pin := 0 \<rparr> else pcore (pg s i)))"
  using sg
proof (induction xs arbitrary: k cur)
  case Nil
  then show ?case by (cases k) auto
next
  case (Cons x xs)
  obtain k' where k: "k = Suc k'" using Cons.prems(2) by (cases k) auto
  have c: "cur = Some x" "seg (\<lambda>i. pg_prev (pg s i)) (pg_prev (pg s x)) xs None" using Cons.prems(1) by auto
  show ?case
  proof (cases "pg_pin (pg s x) = 0")
    case True
    have x: "x < PC_MAX_PAGES" "pvalid s x"
      using Cons.prems(3) lru_repD(2)[OF pc_repD(2)[OF rep]] pc_repD(1,4)[OF rep] by auto
    obtain t hl' where t: "hash_remove x (lru_remove x s) = Some t" "pc_same s t"
      "\<And>f. (\<And>g. pg_prev (f g) = pg_prev g \<and> pg_next (f g) = pg_next g \<and> pg_flags (f g) = 0) \<Longrightarrow> pc_rep (pg_upd x f t) (remove1 x ll) hl'"
      using unlink_rep[OF rep x] by blast
    let ?u = "page_clear x t" let ?v = "?u\<lparr> pc_evictions := pc_evictions ?u + 1 \<rparr>"
    have ru: "pc_rep ?u (remove1 x ll) hl'" unfolding page_clear_def by (rule t(3)) simp
    then have xl: "x < length (pc_pool t)" using pc_repD(1)[OF ru] x(1) by (simp add: page_clear_def)
    have "evict_loop k cur s = Some (Some x, ?v)" using k c True clean[OF x(1)] t(1) by (simp add: Let_def)
    moreover have "pc_rep ?v (remove1 x ll) hl'" by (rule fields_rep[OF ru]) simp_all
    moreover have "pcore (pg ?v i) = (if i = x then (pcore (pg s x))\<lparr> pg_flags := 0, pg_pin := 0 \<rparr> else pcore (pg s i))" for i
      using t(2) xl by (simp add: page_clear_def pg_upd_pg pc_same_def)
    moreover have "pc_blk ?v = pc_blk s" using t(2) by (simp add: page_clear_def pc_same_def)
    ultimately show ?thesis using True by auto
  next
    case False
    then have e: "evict_loop k cur s = evict_loop k' (pg_prev (pg s x)) s"
      "List.find (\<lambda>i. pg_pin (pg s i) = 0) (x # xs) = List.find (\<lambda>i. pg_pin (pg s i) = 0) xs" using k c by simp_all
    show ?thesis unfolding e by (rule Cons.IH[OF c(2)]) (use Cons.prems(2,3) k in auto)
  qed
qed

end
