(* ===== verification/Pagecache_Conc.thy ===== *)
theory Pagecache_Conc
  imports Pagecache
begin

text \<open>
  The page cache in use: the critical sections of \<open>pagecache.c\<close> as steps that threads interleave, the
  invariant of every reachable state and what the operations guarantee in it.
\<close>

section \<open>Concurrent use\<close>

text \<open>
  The cache together with what the threads in it are doing: the pages being filled and the filled
  pages not yet in the table (\<open>pc_get_page\<close> between its critical sections), the pages being written
  back and those whose writer has only to drop its pin (\<open>pc_mark_dirty\<close>, \<open>pc_flush_dev\<close>), and the
  number of references callers hold on each page. A step is one critical section or one of the parts
  that run without the lock. The contract of the callers is that \<open>pc_put_page\<close> gives back a
  reference of the caller and that only holders of a reference write to a page; the device that a
  thread fills a page from stays registered until the page is filled. Writing back a page goes on
  without the lock, sector by sector, and ends by clearing the flag (or at once when some other
  thread has cleared it); filling touches a page that no other thread can reach and is one step.
\<close>

record ('hw, 's) pcx =
  x_pc :: "('hw, 's) pc"
  x_new :: "nat list"
  x_full :: "nat list"
  x_wr :: "nat list"
  x_done :: "nat list"
  x_ref :: "nat \<Rightarrow> nat"

inductive pcx_reach :: "('hw, 's) pcx \<Rightarrow> bool" where
  init: "blk_reach (pc_blk s) \<Longrightarrow> pcx_reach \<lparr> x_pc = pc_init s, x_new = [], x_full = [], x_wr = [], x_done = [], x_ref = (\<lambda>_. 0) \<rparr>"
| hit: "pcx_reach x \<Longrightarrow> pc_get_lookup dev blk (x_pc x) = Some (Some p, t) \<Longrightarrow>
    pcx_reach (x\<lparr> x_pc := t, x_ref := (x_ref x)(p := x_ref x p + 1) \<rparr>)"
| miss: "pcx_reach x \<Longrightarrow> pc_get_lookup dev blk (x_pc x) = Some (None, t) \<Longrightarrow> pcx_reach (x\<lparr> x_pc := t \<rparr>)"
| alloc: "pcx_reach x \<Longrightarrow> pc_get_alloc dev blk bs (x_pc x) = Some (Some p, t) \<Longrightarrow> pcx_reach (x\<lparr> x_pc := t, x_new := p # x_new x \<rparr>)"
| alloc_none: "pcx_reach x \<Longrightarrow> pc_get_alloc dev blk bs (x_pc x) = Some (None, t) \<Longrightarrow> pcx_reach (x\<lparr> x_pc := t \<rparr>)"
| fill: "pcx_reach x \<Longrightarrow> p \<in> set (x_new x) \<Longrightarrow> pc_get_fill fresh p bd (x_pc x) = Some (True, t) \<Longrightarrow>
    (\<forall>d. bd = Some d \<longrightarrow> d < BLKDEV_SLOTS \<and> bk_used (pc_blk (x_pc x)) ! d) \<Longrightarrow>
    pcx_reach (x\<lparr> x_pc := t, x_new := remove1 p (x_new x), x_full := p # x_full x \<rparr>)"
| fill_fails: "pcx_reach x \<Longrightarrow> p \<in> set (x_new x) \<Longrightarrow> pc_get_fill fresh p bd (x_pc x) = Some (False, t) \<Longrightarrow>
    pcx_reach (x\<lparr> x_pc := t, x_new := remove1 p (x_new x) \<rparr>)"
| insert: "pcx_reach x \<Longrightarrow> p \<in> set (x_full x) \<Longrightarrow> pc_get_insert p (x_pc x) = Some (q, t) \<Longrightarrow>
    pcx_reach (x\<lparr> x_pc := t, x_full := remove1 p (x_full x), x_ref := (x_ref x)(q := x_ref x q + 1) \<rparr>)"
| dirty: "pcx_reach x \<Longrightarrow> pc_dirty_begin dev blk (x_pc x) = Some (Some p, t) \<Longrightarrow> pcx_reach (x\<lparr> x_pc := t, x_wr := p # x_wr x \<rparr>)"
| flush: "pcx_reach x \<Longrightarrow> p < PC_MAX_PAGES \<Longrightarrow> pg_flags (pg (x_pc x) p) AND 3 = 3 \<Longrightarrow>
    pcx_reach (x\<lparr> x_pc := pin_add 1 p (x_pc x), x_wr := p # x_wr x \<rparr>)"
| write_sector: "pcx_reach x \<Longrightarrow> p \<in> set (x_wr x) \<Longrightarrow> pg_data (pg (x_pc x) p) = Some d \<Longrightarrow>
    blkdev_by_id (pg_dev (pg (x_pc x) p)) (pc_blk (x_pc x)) = Some bd \<Longrightarrow>
    write_sectors [i] bd (pg_block_no (pg (x_pc x) p) * (pg_block_size (pg (x_pc x) p) div 512)) d (pc_blk (x_pc x)) = Some b \<Longrightarrow>
    pcx_reach (x\<lparr> x_pc := (x_pc x)\<lparr> pc_blk := b \<rparr> \<rparr>)"
| written: "pcx_reach x \<Longrightarrow> p \<in> set (x_wr x) \<Longrightarrow> n \<in> {0, 1} \<Longrightarrow>
    pcx_reach (x\<lparr> x_pc := (clear_dirty p (x_pc x))\<lparr> pc_writebacks := pc_writebacks (x_pc x) + n \<rparr>,
      x_wr := remove1 p (x_wr x), x_done := p # x_done x \<rparr>)"
| not_dirty: "pcx_reach x \<Longrightarrow> p \<in> set (x_wr x) \<Longrightarrow> \<not> pg_has PC_FLAG_DIRTY (pg (x_pc x) p) \<Longrightarrow>
    pcx_reach (x\<lparr> x_wr := remove1 p (x_wr x), x_done := p # x_done x \<rparr>)"
| unpin: "pcx_reach x \<Longrightarrow> p \<in> set (x_done x) \<Longrightarrow> pcx_reach (x\<lparr> x_pc := pin_add (-1) p (x_pc x), x_done := remove1 p (x_done x) \<rparr>)"
| put: "pcx_reach x \<Longrightarrow> hash_find dev blk (x_pc x) = Some (Some p) \<Longrightarrow> 0 < x_ref x p \<Longrightarrow> pc_put_page dev blk (x_pc x) = Some t \<Longrightarrow>
    pcx_reach (x\<lparr> x_pc := t, x_ref := (x_ref x)(p := x_ref x p - 1) \<rparr>)"
| modify: "pcx_reach x \<Longrightarrow> 0 < x_ref x p \<Longrightarrow> pcx_reach (x\<lparr> x_pc := pg_upd p (\<lambda>g. g\<lparr> pg_data := Some d \<rparr>) (x_pc x) \<rparr>)"
| invalidate: "pcx_reach x \<Longrightarrow> pc_invalidate_block dev blk (x_pc x) = Some t \<Longrightarrow> pcx_reach (x\<lparr> x_pc := t \<rparr>)"
| invalidate_page: "pcx_reach x \<Longrightarrow> p < PC_MAX_PAGES \<Longrightarrow> pg_has PC_FLAG_VALID (pg (x_pc x) p) \<Longrightarrow> \<not> pg_pin (pg (x_pc x) p) > 0 \<Longrightarrow>
    page_drop p (x_pc x) = Some t \<Longrightarrow> pcx_reach (x\<lparr> x_pc := t \<rparr>)"
| block: "pcx_reach x \<Longrightarrow> blk_reach b \<Longrightarrow> pcx_reach (x\<lparr> x_pc := (x_pc x)\<lparr> pc_blk := b \<rparr> \<rparr>)"

definition slot_ok :: "page \<Rightarrow> bool \<Rightarrow> bool \<Rightarrow> nat \<Rightarrow> nat \<Rightarrow> nat \<Rightarrow> bool" where
  "slot_ok g n f w d r \<longleftrightarrow>
     (pg_has PC_FLAG_USED g \<and> \<not> pg_has PC_FLAG_VALID g \<longleftrightarrow> n \<or> f) \<and> (pg_has PC_FLAG_VALID g \<longrightarrow> pg_has PC_FLAG_USED g) \<and>
     pg_pin g = int (w + d + r) + (if n \<or> f then 1 else 0) \<and> (pg_has PC_FLAG_DIRTY g \<longrightarrow> 0 < w) \<and>
     (0 < w + d + r \<longrightarrow> pg_has PC_FLAG_VALID g) \<and> (f \<or> pg_has PC_FLAG_VALID g \<longrightarrow> pg_data g \<noteq> None)"

definition x_slot :: "('hw, 's) pcx \<Rightarrow> nat \<Rightarrow> bool" where
  "x_slot x i \<longleftrightarrow> slot_ok (pcore (pg (x_pc x) i)) (i \<in> set (x_new x)) (i \<in> set (x_full x))
     (count_list (x_wr x) i) (count_list (x_done x) i) (x_ref x i)"

definition pcx_ok :: "('hw, 's) pcx \<Rightarrow> bool" where
  "pcx_ok x \<longleftrightarrow> (\<exists>ll hl. pc_rep (x_pc x) ll hl) \<and> bk_ok (pc_blk (x_pc x)) \<and> distinct (x_new x @ x_full x) \<and>
     set (x_new x @ x_full x) \<subseteq> {..<PC_MAX_PAGES} \<and>
     (\<forall>i \<ge> PC_MAX_PAGES. count_list (x_wr x) i = 0 \<and> count_list (x_done x) i = 0 \<and> x_ref x i = 0) \<and>
     (\<forall>i < PC_MAX_PAGES. x_slot x i)"

lemma pcx_okD:
  assumes "pcx_ok x"
  obtains ll hl where "pc_rep (x_pc x) ll hl" "bk_ok (pc_blk (x_pc x))" "distinct (x_new x @ x_full x)"
    "set (x_new x @ x_full x) \<subseteq> {..<PC_MAX_PAGES}" "\<And>i. i \<ge> PC_MAX_PAGES \<Longrightarrow> count_list (x_wr x) i = 0 \<and> count_list (x_done x) i = 0 \<and> x_ref x i = 0"
    "\<And>i. i < PC_MAX_PAGES \<Longrightarrow> x_slot x i"
  using assms unfolding pcx_ok_def by blast

text \<open>The shape of every step: one page changes.\<close>

lemma pcx_ok_step:
  assumes ok: "pcx_ok x" and rep: "pc_rep (x_pc y) ll hl" "bk_ok (pc_blk (x_pc y))"
    and lists: "distinct (x_new y @ x_full y)" "set (x_new y @ x_full y) \<subseteq> {..<PC_MAX_PAGES}"
    and same: "\<And>i. i \<notin> Q \<Longrightarrow> pcore (pg (x_pc y) i) = pcore (pg (x_pc x) i) \<and> (i \<in> set (x_new y) \<longleftrightarrow> i \<in> set (x_new x)) \<and>
      (i \<in> set (x_full y) \<longleftrightarrow> i \<in> set (x_full x)) \<and> count_list (x_wr y) i = count_list (x_wr x) i \<and>
      count_list (x_done y) i = count_list (x_done x) i \<and> x_ref y i = x_ref x i"
    and Q: "Q \<subseteq> {..<PC_MAX_PAGES}" "\<And>i. i \<in> Q \<Longrightarrow> x_slot y i"
  shows "pcx_ok y"
proof -
  have "x_slot y i" if "i < PC_MAX_PAGES" for i
  proof (cases "i \<in> Q")
    case False
    have "x_slot x i" using ok that by (simp add: pcx_ok_def)
    then show ?thesis using same[OF False] by (simp add: x_slot_def)
  qed (rule Q(2))
  moreover have "count_list (x_wr y) i = 0 \<and> count_list (x_done y) i = 0 \<and> x_ref y i = 0" if "i \<ge> PC_MAX_PAGES" for i
    using same[of i] Q(1) that ok by (force simp: pcx_ok_def)
  ultimately show ?thesis using rep lists unfolding pcx_ok_def by blast
qed

lemma x_slotD:
  assumes "pcx_ok x" "i < PC_MAX_PAGES"
  shows "pg_has PC_FLAG_USED (pg (x_pc x) i) \<and> \<not> pvalid (x_pc x) i \<longleftrightarrow> i \<in> set (x_new x) \<or> i \<in> set (x_full x)"
    and "pvalid (x_pc x) i \<Longrightarrow> pg_has PC_FLAG_USED (pg (x_pc x) i)"
    and "pg_pin (pg (x_pc x) i) = int (count_list (x_wr x) i + count_list (x_done x) i + x_ref x i) +
      (if i \<in> set (x_new x) \<or> i \<in> set (x_full x) then 1 else 0)"
    and "pg_has PC_FLAG_DIRTY (pg (x_pc x) i) \<Longrightarrow> 0 < count_list (x_wr x) i"
    and "0 < count_list (x_wr x) i + count_list (x_done x) i + x_ref x i \<Longrightarrow> pvalid (x_pc x) i"
    and "i \<in> set (x_full x) \<or> pvalid (x_pc x) i \<Longrightarrow> pg_data (pg (x_pc x) i) \<noteq> None"
  using assms unfolding pcx_ok_def x_slot_def slot_ok_def pg_has_def pvalid_def by (simp_all only: pcore_sel) metis+

lemma unpinned_clean:
  assumes "pcx_ok x" "i < PC_MAX_PAGES" "pg_pin (pg (x_pc x) i) = 0"
  shows "\<not> pg_has PC_FLAG_DIRTY (pg (x_pc x) i)"
    and "count_list (x_wr x) i = 0" "count_list (x_done x) i = 0" "x_ref x i = 0" "i \<notin> set (x_new x)" "i \<notin> set (x_full x)"
  using x_slotD(3,4)[OF assms(1,2)] assms(3) by (auto split: if_splits)

lemma pin_nonneg: "pcx_ok x \<Longrightarrow> i < PC_MAX_PAGES \<Longrightarrow> 0 \<le> pg_pin (pg (x_pc x) i)"
  by (simp add: x_slotD(3))

lemma find_memberD: "List.find P xs = Some a \<Longrightarrow> P a \<and> a \<in> set xs"
  by (auto simp: find_Some_iff)

lemma evict_one_spec:
  assumes ok: "pcx_ok x" and rep: "pc_rep (x_pc x) ll hl"
  shows "case List.find (\<lambda>i. pg_pin (pg (x_pc x) i) = 0) (rev ll) of
      None \<Rightarrow> evict_one (x_pc x) = Some (None, x_pc x)
    | Some p \<Rightarrow> \<exists>t hl'. evict_one (x_pc x) = Some (Some p, t) \<and> pc_rep t (remove1 p ll) hl' \<and> pc_blk t = pc_blk (x_pc x) \<and>
        (\<forall>i. pcore (pg t i) = (if i = p then (pcore (pg (x_pc x) p))\<lparr> pg_flags := 0, pg_pin := 0 \<rparr> else pcore (pg (x_pc x) i)))"
proof -
  note r = pc_repD[OF rep]
  have "length (rev ll) < PC_MAX_PAGES + 1" using chain_short[OF lru_repD(1,2)[OF r(2)]] r(1) by simp
  then show ?thesis
    unfolding evict_one_def
    using evict_loop_spec[OF rep unpinned_clean(1)[OF ok] lru_repD(4)[OF r(2)]] by simp
qed

lemma count_list_member: "p \<in> set xs \<Longrightarrow> 0 < count_list xs p"
  by (metis count_list_0_iff gr0I)

lemma fields_ok:
  assumes "pcx_ok x" "pc_pool t = pc_pool (x_pc x)" "pc_hash t = pc_hash (x_pc x)" "pc_head t = pc_head (x_pc x)"
    "pc_tail t = pc_tail (x_pc x)" "bk_ok (pc_blk t)"
  shows "pcx_ok (x\<lparr> x_pc := t \<rparr>)"
proof -
  obtain ll hl where r: "pc_rep (x_pc x) ll hl" "distinct (x_new x @ x_full x)" "set (x_new x @ x_full x) \<subseteq> {..<PC_MAX_PAGES}"
    using pcx_okD[OF assms(1)] by metis
  have "pg t = pg (x_pc x)" by (simp add: pg_def fun_eq_iff assms)
  then show ?thesis
    using r assms(6) fields_rep[OF r(1) assms(2-5)] by (intro pcx_ok_step[OF assms(1), where Q = "{}"]) auto
qed

lemma reader: "pcx_ok x \<Longrightarrow> distinct (x_new x @ x_full x) \<and> set (x_new x @ x_full x) \<subseteq> {..<PC_MAX_PAGES} \<and> bk_ok (pc_blk (x_pc x))"
  unfolding pcx_ok_def by blast

text \<open>A new reference to a page in the table, which becomes the most recently used one.\<close>

lemma pin_touch_ok:
  assumes ok: "pcx_ok x" and p: "p < PC_MAX_PAGES" "pvalid (x_pc x) p"
  defines "t \<equiv> lru_touch p (pin_add 1 p (x_pc x))"
  shows "pcx_ok (x\<lparr> x_pc := t, x_ref := (x_ref x)(p := x_ref x p + 1) \<rparr>)" "pc_rep (x_pc x) ll hl \<Longrightarrow> pc_rep t (p # remove1 p ll) hl"
    "pcore (pg t i) = (if i = p then (pcore (pg (x_pc x) p))\<lparr> pg_pin := pg_pin (pg (x_pc x) p) + 1 \<rparr> else pcore (pg (x_pc x) i))"
    "pc_blk t = pc_blk (x_pc x)"
proof -
  let ?s = "x_pc x" let ?u = "pin_add 1 p ?s"
  obtain l h where r: "pc_rep ?s l h" using pcx_okD[OF ok] by metis
  have pu: "pg ?u i = (if i = p then (pg ?s p)\<lparr> pg_pin := pg_pin (pg ?s p) + 1 \<rparr> else pg ?s i)" for i
    using pc_repD(1)[OF r] p(1) by (simp add: pin_add_def pg_upd_pg)
  have vu: "pvalid ?u p" using p(2) by (simp add: pvalid_def pg_has_def pu)
  note tr = touch_rep[OF pin_rep p(1) vu, folded t_def]
  show "pc_rep t (p # remove1 p ll) hl" if "pc_rep ?s ll hl" by (rule tr(1)[OF that])
  have sm: "pcore (pg t i) = pcore (pg ?u i)" for i using tr(2)[OF r] by (simp add: pc_same_def)
  show c: "pcore (pg t i) = (if i = p then (pcore (pg ?s p))\<lparr> pg_pin := pg_pin (pg ?s p) + 1 \<rparr> else pcore (pg ?s i))" for i
    by (simp add: sm pu)
  show b: "pc_blk t = pc_blk ?s" using tr(2)[OF r] by (simp add: pc_same_def pin_add_def)
  show "pcx_ok (x\<lparr> x_pc := t, x_ref := (x_ref x)(p := x_ref x p + 1) \<rparr>)"
    by (rule pcx_ok_step[OF ok, where Q = "{p}" and ll = "p # remove1 p l" and hl = h])
      (use tr(1)[OF r] reader[OF ok] p x_slotD[OF ok p(1)] in \<open>auto simp: c b x_slot_def slot_ok_def pg_has_def pvalid_def\<close>)
qed

lemma lookup_ok:
  assumes ok: "pcx_ok x"
  obtains (hit) p t where "pc_get_lookup dev blk (x_pc x) = Some (Some p, t)" "pcx_ok (x\<lparr> x_pc := t, x_ref := (x_ref x)(p := x_ref x p + 1) \<rparr>)"
      "hash_find dev blk (x_pc x) = Some (Some p)" "\<And>ll hl. pc_rep (x_pc x) ll hl \<Longrightarrow> pc_rep t (p # remove1 p ll) hl"
      "pg_data (pg t p) = pg_data (pg (x_pc x) p)" "pc_blk t = pc_blk (x_pc x)"
  | (miss) t where "pc_get_lookup dev blk (x_pc x) = Some (None, t)" "pcx_ok (x\<lparr> x_pc := t \<rparr>)" "hash_find dev blk (x_pc x) = Some None"
      "t = (x_pc x)\<lparr> pc_misses := pc_misses (x_pc x) + 1 \<rparr>"
proof -
  let ?s = "x_pc x"
  obtain ll hl where r: "pc_rep ?s ll hl" using pcx_okD[OF ok] by metis
  have b: "bk_ok (pc_blk ?s)" using reader[OF ok] by simp
  show thesis
    using r
  proof (cases rule: hash_find_cases[where dev = dev and block_no = blk])
    case (found p)
    let ?y = "x\<lparr> x_pc := ?s\<lparr> pc_hits := pc_hits ?s + 1 \<rparr> \<rparr>" let ?t = "lru_touch p (pin_add 1 p (x_pc ?y))"
    have y: "pcx_ok ?y" by (rule fields_ok[OF ok]) (simp_all add: b)
    have v: "pvalid (x_pc ?y) p" using found(3) by (simp add: pvalid_def)
    note t = pin_touch_ok[OF y found(2) v]
    have lk: "pc_get_lookup dev blk ?s = Some (Some p, ?t)" using found(1) by (simp add: pc_get_lookup_def)
    have rep: "pc_rep ?t (p # remove1 p l) h" if "pc_rep ?s l h" for l h by (rule t(2), rule fields_rep[OF that]) simp_all
    have d: "pg_data (pg ?t p) = pg_data (pg ?s p)" using arg_cong[OF t(3)[of p], of pg_data] by simp
    show thesis by (rule hit[OF lk _ found(1) rep d]) (use t(1,4) in simp_all)
  next
    case absent
    let ?t = "?s\<lparr> pc_misses := pc_misses ?s + 1 \<rparr>"
    have "pcx_ok (x\<lparr> x_pc := ?t \<rparr>)" by (rule fields_ok[OF ok]) (simp_all add: b)
    then show thesis using miss[of ?t] absent(1) by (simp add: pc_get_lookup_def)
  qed
qed

lemma alloc_page_ok:
  assumes ok: "pcx_ok x"
  obtains (slot) p t ll hl where "alloc_page (x_pc x) = Some (Some p, t)" "pc_rep t ll hl" "pc_blk t = pc_blk (x_pc x)" "p < PC_MAX_PAGES"
      "\<not> pvalid t p" "\<And>i. i \<noteq> p \<Longrightarrow> pcore (pg t i) = pcore (pg (x_pc x) i)"
      "count_list (x_wr x) p = 0" "count_list (x_done x) p = 0" "x_ref x p = 0" "p \<notin> set (x_new x)" "p \<notin> set (x_full x)"
  | (none) "alloc_page (x_pc x) = Some (None, x_pc x)" "\<And>i. i < PC_MAX_PAGES \<Longrightarrow> 0 < pg_pin (pg (x_pc x) i)"
proof -
  let ?s = "x_pc x"
  obtain ll hl where r: "pc_rep ?s ll hl" using pcx_okD[OF ok] by metis
  show thesis
  proof (cases "List.find (\<lambda>i. \<not> pg_has PC_FLAG_USED (pg ?s i)) [0..<PC_MAX_PAGES]")
    case (Some p)
    then have p: "p < PC_MAX_PAGES" "\<not> pg_has PC_FLAG_USED (pg ?s p)" by (auto simp: find_Some_iff)
    note sl = x_slotD[OF ok p(1)]
    have v: "\<not> pvalid ?s p" using sl(2) p(2) by auto
    have z: "count_list (x_wr x) p + count_list (x_done x) p + x_ref x p = 0" using sl(5) v by (metis gr0I)
    show thesis
      by (rule slot[OF _ r refl p(1) v]) (use Some sl(1) p(2) z in \<open>simp_all add: alloc_page_def\<close>)
  next
    case None
    then have used: "pg_has PC_FLAG_USED (pg ?s i)" if "i < PC_MAX_PAGES" for i using that by (auto simp: find_None_iff)
    have al: "alloc_page ?s = evict_one ?s" using None by (simp add: alloc_page_def)
    note sp = evict_one_spec[OF ok r]
    show thesis
    proof (cases "List.find (\<lambda>i. pg_pin (pg ?s i) = 0) (rev ll)")
      case None
      have "0 < pg_pin (pg ?s i)" if i: "i < PC_MAX_PAGES" for i
      proof (cases "pvalid ?s i")
        case True
        then have "i \<in> set ll" using pc_repD(4)[OF r i] by simp
        then have "pg_pin (pg ?s i) \<noteq> 0" using None by (auto simp: find_None_iff)
        then show ?thesis using pin_nonneg[OF ok i] by linarith
      next
        case False
        then show ?thesis using x_slotD(1,3)[OF ok i] used[OF i] by simp
      qed
      then show thesis using none sp None al by simp
    next
      case (Some p)
      then obtain t hl' where t: "evict_one ?s = Some (Some p, t)" "pc_rep t (remove1 p ll) hl'" "pc_blk t = pc_blk ?s"
        "\<And>i. pcore (pg t i) = (if i = p then (pcore (pg ?s p))\<lparr> pg_flags := 0, pg_pin := 0 \<rparr> else pcore (pg ?s i))"
        using sp by auto
      have "p \<in> set ll" "pg_pin (pg ?s p) = 0" using find_memberD[OF Some] by simp_all
      then have p: "p < PC_MAX_PAGES" "pg_pin (pg ?s p) = 0" using lru_repD(2)[OF pc_repD(2)[OF r]] pc_repD(1)[OF r] by auto
      have fl: "pg_flags (pg t p) = 0" using arg_cong[OF t(4)[of p], of pg_flags] by simp
      show thesis
        by (rule slot[OF _ t(2,3) p(1)]) (use t al fl unpinned_clean[OF ok p] in \<open>auto simp: pvalid_def pg_has_def\<close>)
    qed
  qed
qed

lemma get_alloc_ok:
  assumes ok: "pcx_ok x"
  obtains (slot) p t where "pc_get_alloc dev blk bs (x_pc x) = Some (Some p, t)" "pcx_ok (x\<lparr> x_pc := t, x_new := p # x_new x \<rparr>)"
      "p < PC_MAX_PAGES" "pg_dev (pg t p) = dev" "pg_block_no (pg t p) = blk" "pg_block_size (pg t p) = bs" "pc_blk t = pc_blk (x_pc x)"
      "\<And>i. i \<noteq> p \<Longrightarrow> pcore (pg t i) = pcore (pg (x_pc x) i)"
  | (none) "pc_get_alloc dev blk bs (x_pc x) = Some (None, x_pc x)" "\<And>i. i < PC_MAX_PAGES \<Longrightarrow> 0 < pg_pin (pg (x_pc x) i)"
  using ok
proof (cases rule: alloc_page_ok)
  case (slot p t ll hl)
  let ?f = "\<lambda>g. g\<lparr> pg_dev := dev, pg_block_no := blk, pg_block_size := bs, pg_flags := PC_FLAG_USED, pg_pin := 1 \<rparr>"
  let ?t = "pg_upd p ?f t" let ?y = "x\<lparr> x_pc := ?t, x_new := p # x_new x \<rparr>"
  have g: "pg ?t i = (if i = p then ?f (pg t p) else pg t i)" for i using pc_repD(1)[OF slot(2)] slot(4) by (simp add: pg_upd_pg)
  have rep: "pc_rep ?t ll hl" by (rule upd_invalid_rep[OF slot(2,4,5)]) (simp_all add: pg_has_def)
  have "pcx_ok ?y"
    by (rule pcx_ok_step[OF ok, where Q = "{p}" and ll = ll and hl = hl])
      (use reader[OF ok] rep slot in \<open>auto simp: g x_slot_def slot_ok_def pg_has_def\<close>)
  then show thesis using that(1)[of p ?t] slot by (simp add: pc_get_alloc_def g)
next
  case none
  then show thesis using that(2) by (simp add: pc_get_alloc_def)
qed

lemma read_opt_total:
  assumes "bk_ok b" "\<And>d. bd = Some d \<Longrightarrow> d < BLKDEV_SLOTS \<and> bk_used b ! d"
  shows "\<exists>r sec h. blkdev_read bd lba buf b = Some (r, sec, b\<lparr> bk_hw := h \<rparr>)"
proof (cases bd)
  case None
  then show ?thesis by (auto simp: blkdev_read_def intro: exI[of _ "bk_hw b"])
next
  case (Some d)
  then show ?thesis using read_total[OF assms(1)] assms(2) by simp
qed

lemma read_sectors_total:
  assumes "bk_ok b" "\<And>d. bd = Some d \<Longrightarrow> d < BLKDEV_SLOTS \<and> bk_used b ! d"
  shows "\<exists>data' h. read_sectors is bd lba data b = Some (data', b\<lparr> bk_hw := h \<rparr>)"
  using assms
proof (induction "is" arbitrary: b data)
  case Nil
  then show ?case by (auto intro: exI[of _ "bk_hw b"])
next
  case (Cons i "is")
  obtain r sec h where w: "blkdev_read bd (lba + word_of_nat i) (slice (i * 512) 512 data) b = Some (r, sec, b\<lparr> bk_hw := h \<rparr>)"
    using read_opt_total[OF Cons.prems] by blast
  have "\<exists>data' h'. read_sectors is bd lba (take (i * 512) data @ sec @ drop (i * 512 + 512) data) (b\<lparr> bk_hw := h \<rparr>) =
      Some (data', (b\<lparr> bk_hw := h \<rparr>)\<lparr> bk_hw := h' \<rparr>)"
    by (rule Cons.IH) (use Cons.prems in \<open>simp_all add: hw_same\<close>)
  then show ?case using w by auto
qed

lemma boot_dev_ok: "bk_ok b \<Longrightarrow> blkdev_get_boot b = Some d \<Longrightarrow> d < BLKDEV_SLOTS \<and> bk_used b ! d"
  by (auto simp: bk_ok_def boot_ok_def blkdev_get_boot_def)

lemma new_slot:
  assumes ok: "pcx_ok x" and p: "p \<in> set (x_new x) \<or> p \<in> set (x_full x)"
  shows "p < PC_MAX_PAGES" "\<not> pvalid (x_pc x) p" "pg_has PC_FLAG_USED (pg (x_pc x) p)" "pg_pin (pg (x_pc x) p) = 1"
    "count_list (x_wr x) p = 0" "count_list (x_done x) p = 0" "x_ref x p = 0" "\<not> pg_has PC_FLAG_DIRTY (pg (x_pc x) p)"
proof -
  show l: "p < PC_MAX_PAGES" using reader[OF ok] p by auto
  note d = x_slotD[OF ok l]
  show v: "\<not> pvalid (x_pc x) p" and u: "pg_has PC_FLAG_USED (pg (x_pc x) p)" using d(1) p by auto
  have z: "count_list (x_wr x) p + count_list (x_done x) p + x_ref x p = 0" using d(5) v by (metis gr0I)
  then show "count_list (x_wr x) p = 0" "count_list (x_done x) p = 0" "x_ref x p = 0" by simp_all
  show "pg_pin (pg (x_pc x) p) = 1" using d(3) p z by simp
  show "\<not> pg_has PC_FLAG_DIRTY (pg (x_pc x) p)" using d(4) z by auto
qed

text \<open>A page that is given up goes back to the free slots.\<close>

lemma clear_new_ok:
  assumes ok: "pcx_ok x" and p: "p \<in> set (x_new x) \<or> p \<in> set (x_full x)"
  shows "pcx_ok (x\<lparr> x_pc := page_clear p (x_pc x), x_new := remove1 p (x_new x), x_full := remove1 p (x_full x) \<rparr>)" (is "pcx_ok ?y")
proof -
  obtain ll hl where r: "pc_rep (x_pc x) ll hl" using pcx_okD[OF ok] by metis
  note n = new_slot[OF ok p]
  have rep: "pc_rep (page_clear p (x_pc x)) ll hl" unfolding page_clear_def by (rule upd_invalid_rep[OF r n(1,2)]) (simp_all add: pg_has_def)
  have g: "pg (page_clear p (x_pc x)) i = (if i = p then (pg (x_pc x) p)\<lparr> pg_flags := 0, pg_pin := 0 \<rparr> else pg (x_pc x) i)" for i
    using pc_repD(1)[OF r] n(1) by (simp add: page_clear_def pg_upd_pg)
  have b: "pc_blk (page_clear p (x_pc x)) = pc_blk (x_pc x)" by (simp add: page_clear_def)
  show ?thesis
    by (rule pcx_ok_step[OF ok, where Q = "{p}" and ll = ll and hl = hl])
      (use reader[OF ok] rep n in \<open>auto simp: g b x_slot_def slot_ok_def pg_has_def set_remove1_eq dest: in_set_remove1\<close>)
qed

lemma fill_ok:
  fixes x :: "('hw, 's) pcx"
  assumes ok: "pcx_ok x" and p: "p \<in> set (x_new x)" and bd: "\<forall>d. bd = Some d \<longrightarrow> d < BLKDEV_SLOTS \<and> bk_used (pc_blk (x_pc x)) ! d"
  obtains (filled) t d data where "pc_get_fill fresh p bd (x_pc x) = Some (True, t)"
      "pcx_ok (x\<lparr> x_pc := t, x_new := remove1 p (x_new x), x_full := p # x_full x \<rparr>)"
      "\<And>i. pg t i = (if i = p then (pg (x_pc x) p)\<lparr> pg_data := Some data \<rparr> else pg (x_pc x) i)"
      "(case pg_data (pg (x_pc x) p) of None \<Rightarrow> fresh | Some d \<Rightarrow> Some d) = Some d"
      "read_sectors [0..<unat (pg_block_size (pg (x_pc x) p) div 512)] (case bd of None \<Rightarrow> blkdev_get_boot (pc_blk (x_pc x)) | Some d \<Rightarrow> Some d)
         (pg_block_no (pg (x_pc x) p) * (pg_block_size (pg (x_pc x) p) div 512))
         (replicate (unat (pg_block_size (pg (x_pc x) p))) 0 @ drop (unat (pg_block_size (pg (x_pc x) p))) d) (pc_blk (x_pc x)) = Some (data, pc_blk t)"
      "\<exists>h. pc_blk t = (pc_blk (x_pc x))\<lparr> bk_hw := h \<rparr>"
  | (fails) t where "pc_get_fill fresh p bd (x_pc x) = Some (False, t)" "pcx_ok (x\<lparr> x_pc := t, x_new := remove1 p (x_new x) \<rparr>)" "fresh = None"
proof -
  let ?s = "x_pc x" let ?g = "pg ?s p"
  obtain ll hl where r: "pc_rep ?s ll hl" using pcx_okD[OF ok] by metis
  have n: "p < PC_MAX_PAGES" "\<not> pvalid ?s p" "p \<notin> set (x_full x)" using new_slot[OF ok] p reader[OF ok] by auto
  show thesis
  proof (cases "case pg_data ?g of None \<Rightarrow> fresh | Some d \<Rightarrow> Some d")
    case None
    then have "pc_get_fill fresh p bd ?s = Some (False, page_clear p ?s)" "fresh = None" by (auto simp: pc_get_fill_def split: option.splits)
    moreover have "pcx_ok (x\<lparr> x_pc := page_clear p ?s, x_new := remove1 p (x_new x) \<rparr>)"
      using clear_new_ok[OF ok, of p] p n(3) by (cases x) (simp add: remove1_idem)
    ultimately show thesis using fails by blast
  next
    case (Some d)
    let ?spb = "pg_block_size ?g div 512"
    have dv: "bk_ok (pc_blk ?s)" "\<And>e. (case bd of None \<Rightarrow> blkdev_get_boot (pc_blk ?s) | Some d \<Rightarrow> Some d) = Some e \<Longrightarrow> e < BLKDEV_SLOTS \<and> bk_used (pc_blk ?s) ! e"
      using reader[OF ok] bd boot_dev_ok by (auto split: option.splits)
    obtain data h where rd: "read_sectors [0..<unat ?spb] (case bd of None \<Rightarrow> blkdev_get_boot (pc_blk ?s) | Some d \<Rightarrow> Some d) (pg_block_no ?g * ?spb)
        (replicate (unat (pg_block_size ?g)) 0 @ drop (unat (pg_block_size ?g)) d) (pc_blk ?s) = Some (data, (pc_blk ?s)\<lparr> bk_hw := h \<rparr>)"
      using read_sectors_total[OF dv] by blast
    let ?u = "pg_upd p (\<lambda>g. g\<lparr> pg_data := Some data \<rparr>) ?s" let ?t = "?u\<lparr> pc_blk := (pc_blk ?s)\<lparr> bk_hw := h \<rparr> \<rparr>"
    have e: "pc_get_fill fresh p bd ?s = Some (True, ?t)" using Some rd by (simp add: pc_get_fill_def Let_def)
    have g: "pg ?u i = (if i = p then ?g\<lparr> pg_data := Some data \<rparr> else pg ?s i)" for i using pc_repD(1)[OF r] n(1) by (simp add: pg_upd_pg)
    have "pc_rep ?u ll hl" by (rule upd_rep[OF r]) simp
    then have rep: "pc_rep ?t ll hl" by (rule fields_rep) simp_all
    have b: "bk_ok (pc_blk ?t)" using dv(1) by (simp add: hw_same)
    have "pcx_ok (x\<lparr> x_pc := ?t, x_new := remove1 p (x_new x), x_full := p # x_full x \<rparr>)"
      by (rule pcx_ok_step[OF ok, where Q = "{p}" and ll = ll and hl = hl])
        (use reader[OF ok] rep b n(1,3) p x_slotD[OF ok n(1)] in
          \<open>auto simp: g x_slot_def slot_ok_def pg_has_def pvalid_def set_remove1_eq dest: in_set_remove1\<close>)
    from filled[OF e this _ Some] show thesis using rd g by auto
  qed
qed

lemma insert_ok:
  assumes ok: "pcx_ok x" and p: "p \<in> set (x_full x)"
  defines "dev \<equiv> pg_dev (pg (x_pc x) p)" and "blk \<equiv> pg_block_no (pg (x_pc x) p)"
  obtains (old) q t where "pc_get_insert p (x_pc x) = Some (q, t)" "hash_find dev blk (x_pc x) = Some (Some q)"
      "pcx_ok (x\<lparr> x_pc := t, x_full := remove1 p (x_full x), x_ref := (x_ref x)(q := x_ref x q + 1) \<rparr>)"
      "pg_data (pg t q) = pg_data (pg (x_pc x) q)" "pc_blk t = pc_blk (x_pc x)"
  | (new) t where "pc_get_insert p (x_pc x) = Some (p, t)" "hash_find dev blk (x_pc x) = Some None"
      "pcx_ok (x\<lparr> x_pc := t, x_full := remove1 p (x_full x), x_ref := (x_ref x)(p := x_ref x p + 1) \<rparr>)"
      "pg_data (pg t p) = pg_data (pg (x_pc x) p)" "pc_blk t = pc_blk (x_pc x)" "hash_find dev blk t = Some (Some p)"
      "\<And>ll hl. pc_rep (x_pc x) ll hl \<Longrightarrow> \<exists>hl'. pc_rep t (p # ll) hl'" "pg_block_size (pg t p) = pg_block_size (pg (x_pc x) p)"
proof -
  let ?s = "x_pc x"
  obtain ll hl where r: "pc_rep ?s ll hl" using pcx_okD[OF ok] by metis
  have n: "p < PC_MAX_PAGES" "\<not> pvalid ?s p" "p \<notin> set (x_new x)" using new_slot[OF ok] p reader[OF ok] by auto
  show thesis
    using r
  proof (cases rule: hash_find_cases[where dev = dev and block_no = blk])
    case (found q)
    let ?u = "lru_touch q (pin_add 1 q ?s)" let ?y = "x\<lparr> x_pc := ?u, x_ref := (x_ref x)(q := x_ref x q + 1) \<rparr>"
    note t = pin_touch_ok[OF ok found(2,3)]
    have qp: "q \<noteq> p" using found(3) n(2) by auto
    have "pcx_ok (x\<lparr> x_pc := page_clear p ?u, x_full := remove1 p (x_full x), x_ref := (x_ref x)(q := x_ref x q + 1) \<rparr>)"
      using clear_new_ok[OF t(1), of p] p n(3) by (cases x) (simp add: remove1_idem)
    moreover have "pc_get_insert p ?s = Some (q, page_clear p ?u)" using found(1) by (simp add: pc_get_insert_def dev_def blk_def)
    moreover have "pg_data (pg (page_clear p ?u) q) = pg_data (pg ?s q)"
      using arg_cong[OF t(3)[of q], of pg_data] qp by (simp add: page_clear_def pg_upd_pg)
    moreover have "pc_blk (page_clear p ?u) = pc_blk ?s" using t(4) by (simp add: page_clear_def)
    ultimately show thesis using old found(1) by blast
  next
    case absent
    let ?u = "pg_upd p (\<lambda>g. g\<lparr> pg_flags := pg_flags g OR PC_FLAG_VALID \<rparr>) ?s" let ?t = "lru_touch p (hash_insert p ?u)"
    have new_key: "\<not> same_key (pg ?s i) (pg ?s p)" if "i < PC_MAX_PAGES" "pvalid ?s i" for i
      using absent(2)[OF that] by (simp add: same_key_def dev_def blk_def)
    have rep: "\<exists>hl'. pc_rep ?t (p # l) hl'" "pc_same ?u ?t" if "pc_rep ?s l h" for l h
      using insert_rep[OF that n(1,2) new_key] by auto
    have gu: "pg ?u i = (if i = p then (pg ?s p)\<lparr> pg_flags := pg_flags (pg ?s p) OR PC_FLAG_VALID \<rparr> else pg ?s i)" for i
      using pc_repD(1)[OF r] n(1) by (simp add: pg_upd_pg)
    have c: "pcore (pg ?t i) = pcore (pg ?u i)" "pc_blk ?t = pc_blk ?s" for i using rep(2)[OF r] by (simp_all add: pc_same_def)
    obtain hl' where r': "pc_rep ?t (p # ll) hl'" using rep(1)[OF r] by blast
    have d: "pg_dev (pg ?t p) = dev" "pg_block_no (pg ?t p) = blk" "pg_data (pg ?t p) = pg_data (pg ?s p)" "pg_flags (pg ?t p) AND 1 \<noteq> 0"
      "pg_block_size (pg ?t p) = pg_block_size (pg ?s p)"
      using pcoreD[OF c(1)[of p]] by (simp_all add: gu dev_def blk_def)
    have f: "hash_find dev blk ?t = Some (Some p)" using hash_find_Some[OF r' n(1)] d by (simp add: pvalid_def pg_has_def)
    have e: "pc_get_insert p ?s = Some (p, ?t)" using absent(1) by (simp add: pc_get_insert_def dev_def blk_def)
    have "pcx_ok (x\<lparr> x_pc := ?t, x_full := remove1 p (x_full x), x_ref := (x_ref x)(p := x_ref x p + 1) \<rparr>)"
      by (rule pcx_ok_step[OF ok, where Q = "{p}" and ll = "p # ll" and hl = hl'])
        (use r' reader[OF ok] p n x_slotD[OF ok n(1)] in
          \<open>auto simp: c gu x_slot_def slot_ok_def pg_has_def pvalid_def set_remove1_eq dest: in_set_remove1\<close>)
    from new[OF e absent(1) this d(3) c(2) f rep(1) d(5)] show thesis .
  qed
qed

text \<open>Steps that change pins, the dirty flag or the content of one page.\<close>

lemma upd_ok:
  assumes ok: "pcx_ok x" and p: "p < PC_MAX_PAGES"
    and f: "\<And>g. pg_prev (f g) = pg_prev g \<and> pg_next (f g) = pg_next g \<and> pg_hash_next (f g) = pg_hash_next g \<and>
      pg_dev (f g) = pg_dev g \<and> pg_block_no (f g) = pg_block_no g \<and> pg_flags (f g) AND PC_FLAG_VALID = pg_flags g AND PC_FLAG_VALID"
    and y: "x_pc y = (pg_upd p f (x_pc x))\<lparr> pc_writebacks := n \<rparr>" "x_new y = x_new x" "x_full y = x_full x"
      "\<And>i. i \<noteq> p \<Longrightarrow> count_list (x_wr y) i = count_list (x_wr x) i \<and> count_list (x_done y) i = count_list (x_done x) i \<and> x_ref y i = x_ref x i"
    and sl: "slot_ok (f (pg (x_pc x) p)) (p \<in> set (x_new x)) (p \<in> set (x_full x)) (count_list (x_wr y) p) (count_list (x_done y) p) (x_ref y p)"
  shows "pcx_ok y"
proof -
  obtain ll hl where r: "pc_rep (x_pc x) ll hl" using pcx_okD[OF ok] by metis
  have rep: "pc_rep (x_pc y) ll hl" unfolding y(1) by (rule fields_rep[OF upd_rep[OF r f]]) simp_all
  have g: "pg (pg_upd p f (x_pc x)) i = (if i = p then f (pg (x_pc x) p) else pg (x_pc x) i)" for i
    using pc_repD(1)[OF r] p by (simp add: pg_upd_pg)
  show ?thesis
    by (rule pcx_ok_step[OF ok rep, where Q = "{p}"])
      (use reader[OF ok] p y sl in \<open>simp_all add: g x_slot_def slot_ok_def pg_has_def\<close>)
qed

lemma writebacks_id: "(pg_upd p f s)\<lparr> pc_writebacks := pc_writebacks s \<rparr> = pg_upd p f s"
  by (simp add: pg_upd_def)

lemma dirty_ok:
  assumes ok: "pcx_ok x"
  obtains (dirtied) p t where "pc_dirty_begin dev blk (x_pc x) = Some (Some p, t)" "pcx_ok (x\<lparr> x_pc := t, x_wr := p # x_wr x \<rparr>)"
      "hash_find dev blk (x_pc x) = Some (Some p)" "p < PC_MAX_PAGES"
      "\<And>i. pg t i = (if i = p then (pg (x_pc x) p)\<lparr> pg_flags := pg_flags (pg (x_pc x) p) OR PC_FLAG_DIRTY, pg_pin := pg_pin (pg (x_pc x) p) + 1 \<rparr> else pg (x_pc x) i)"
      "pc_blk t = pc_blk (x_pc x)"
  | (absent) "pc_dirty_begin dev blk (x_pc x) = Some (None, x_pc x)" "hash_find dev blk (x_pc x) = Some None"
proof -
  let ?s = "x_pc x"
  obtain ll hl where r: "pc_rep ?s ll hl" using pcx_okD[OF ok] by metis
  show thesis
    using r
  proof (cases rule: hash_find_cases[where dev = dev and block_no = blk])
    case (found p)
    let ?f = "\<lambda>g. g\<lparr> pg_flags := pg_flags g OR PC_FLAG_DIRTY, pg_pin := pg_pin g + 1 \<rparr>" let ?t = "pg_upd p ?f ?s"
    have tt: "pin_add 1 p (pg_upd p (\<lambda>g. g\<lparr> pg_flags := pg_flags g OR PC_FLAG_DIRTY \<rparr>) ?s) = ?t"
      using pc_repD(1)[OF r] found(2) by (simp add: pin_add_def pg_upd_def)
    have e: "pc_dirty_begin dev blk ?s = Some (Some p, ?t)" using found(1) by (simp add: pc_dirty_begin_def tt)
    have "pcx_ok (x\<lparr> x_pc := ?t, x_wr := p # x_wr x \<rparr>)"
      by (rule upd_ok[OF ok found(2), where f = ?f and n = "pc_writebacks ?s"])
        (use x_slotD[OF ok found(2)] found(3) in \<open>auto simp: writebacks_id slot_ok_def pg_has_def pvalid_def\<close>)
    then show thesis using dirtied[OF e _ found(1,2)] pc_repD(1)[OF r] found(2) by (simp add: pg_upd_pg)
  next
    case absent
    then show thesis using that(2) by (simp add: pc_dirty_begin_def)
  qed
qed

lemma flush_ok:
  assumes ok: "pcx_ok x" and p: "p < PC_MAX_PAGES" "pg_flags (pg (x_pc x) p) AND 3 = 3"
  shows "pcx_ok (x\<lparr> x_pc := pin_add 1 p (x_pc x), x_wr := p # x_wr x \<rparr>)"
proof -
  have "pg_flags (pg (x_pc x) p) AND 1 = (pg_flags (pg (x_pc x) p) AND 3) AND 1" by (simp add: and.assoc)
  then have v: "pvalid (x_pc x) p" using p(2) by (simp add: pvalid_def pg_has_def)
  show ?thesis
    by (rule upd_ok[OF ok p(1), where f = "\<lambda>g. g\<lparr> pg_pin := pg_pin g + 1 \<rparr>" and n = "pc_writebacks (x_pc x)"])
      (use x_slotD[OF ok p(1)] v in \<open>auto simp: writebacks_id pin_add_def slot_ok_def pg_has_def pvalid_def\<close>)
qed

lemma busy_slot:
  assumes ok: "pcx_ok x" and "0 < count_list (x_wr x) p + count_list (x_done x) p + x_ref x p"
  shows "p < PC_MAX_PAGES" "pvalid (x_pc x) p" "p \<notin> set (x_new x)" "p \<notin> set (x_full x)"
proof -
  show p: "p < PC_MAX_PAGES" using ok assms(2) unfolding pcx_ok_def by (metis add_cancel_right_right less_irrefl linorder_not_less)
  show "pvalid (x_pc x) p" "p \<notin> set (x_new x)" "p \<notin> set (x_full x)" using x_slotD(1,5)[OF ok p] assms(2) by auto
qed

lemma written_ok:
  assumes ok: "pcx_ok x" and p: "p \<in> set (x_wr x)"
  shows "pcx_ok (x\<lparr> x_pc := (clear_dirty p (x_pc x))\<lparr> pc_writebacks := n \<rparr>, x_wr := remove1 p (x_wr x), x_done := p # x_done x \<rparr>)"
    and "\<not> pg_has PC_FLAG_DIRTY (pg (x_pc x) p) \<Longrightarrow> pcx_ok (x\<lparr> x_wr := remove1 p (x_wr x), x_done := p # x_done x \<rparr>)"
proof -
  have c: "0 < count_list (x_wr x) p" by (rule count_list_member[OF p])
  have b: "p < PC_MAX_PAGES" "pvalid (x_pc x) p" "p \<notin> set (x_new x)" "p \<notin> set (x_full x)" using busy_slot[OF ok, of p] c by auto
  show "pcx_ok (x\<lparr> x_pc := (clear_dirty p (x_pc x))\<lparr> pc_writebacks := n \<rparr>, x_wr := remove1 p (x_wr x), x_done := p # x_done x \<rparr>)"
    by (rule upd_ok[OF ok b(1), where f = "\<lambda>g. g\<lparr> pg_flags := pg_flags g AND NOT PC_FLAG_DIRTY \<rparr>" and n = n])
      (use x_slotD[OF ok b(1)] b c in \<open>auto simp: clear_dirty_def slot_ok_def pg_has_def pvalid_def count_list_remove1\<close>)
  show "pcx_ok (x\<lparr> x_wr := remove1 p (x_wr x), x_done := p # x_done x \<rparr>)" if "\<not> pg_has PC_FLAG_DIRTY (pg (x_pc x) p)"
    by (rule upd_ok[OF ok b(1), where f = "\<lambda>g. g" and n = "pc_writebacks (x_pc x)"])
      (use x_slotD[OF ok b(1)] b c that in \<open>auto simp: pg_upd_def slot_ok_def pg_has_def pvalid_def count_list_remove1\<close>)
qed

lemma unpin_ok:
  assumes ok: "pcx_ok x" and p: "p \<in> set (x_done x)"
  shows "pcx_ok (x\<lparr> x_pc := pin_add (-1) p (x_pc x), x_done := remove1 p (x_done x) \<rparr>)"
proof -
  have c: "0 < count_list (x_done x) p" by (rule count_list_member[OF p])
  have b: "p < PC_MAX_PAGES" "pvalid (x_pc x) p" "p \<notin> set (x_new x)" "p \<notin> set (x_full x)" using busy_slot[OF ok, of p] c by auto
  show ?thesis
    by (rule upd_ok[OF ok b(1), where f = "\<lambda>g. g\<lparr> pg_pin := pg_pin g + (-1) \<rparr>" and n = "pc_writebacks (x_pc x)"])
      (use x_slotD[OF ok b(1)] b c in \<open>auto simp: writebacks_id pin_add_def slot_ok_def pg_has_def pvalid_def count_list_remove1\<close>)
qed

lemma put_ok:
  assumes ok: "pcx_ok x" and f: "hash_find dev blk (x_pc x) = Some (Some p)" and p: "0 < x_ref x p"
  shows "\<exists>t. pc_put_page dev blk (x_pc x) = Some t \<and> pcx_ok (x\<lparr> x_pc := t, x_ref := (x_ref x)(p := x_ref x p - 1) \<rparr>)"
proof -
  have b: "p < PC_MAX_PAGES" "pvalid (x_pc x) p" "p \<notin> set (x_new x)" "p \<notin> set (x_full x)" using busy_slot[OF ok, of p] p by auto
  note sl = x_slotD[OF ok b(1)]
  have "pg_pin (pg (x_pc x) p) \<noteq> 0" using sl(3) p b by simp
  then have e: "pc_put_page dev blk (x_pc x) = Some (pin_add (-1) p (x_pc x))" using f by (simp add: pc_put_page_def)
  have "pcx_ok (x\<lparr> x_pc := pin_add (-1) p (x_pc x), x_ref := (x_ref x)(p := x_ref x p - 1) \<rparr>)"
    by (rule upd_ok[OF ok b(1), where f = "\<lambda>g. g\<lparr> pg_pin := pg_pin g + (-1) \<rparr>" and n = "pc_writebacks (x_pc x)"])
      (use sl b p in \<open>auto simp: writebacks_id pin_add_def slot_ok_def pg_has_def pvalid_def\<close>)
  then show ?thesis using e by blast
qed

lemma modify_ok:
  assumes ok: "pcx_ok x" and p: "0 < x_ref x p"
  shows "pcx_ok (x\<lparr> x_pc := pg_upd p (\<lambda>g. g\<lparr> pg_data := Some d \<rparr>) (x_pc x) \<rparr>)"
proof -
  have b: "p < PC_MAX_PAGES" "pvalid (x_pc x) p" "p \<notin> set (x_new x)" "p \<notin> set (x_full x)" using busy_slot[OF ok, of p] p by auto
  show ?thesis
    by (rule upd_ok[OF ok b(1), where f = "\<lambda>g. g\<lparr> pg_data := Some d \<rparr>" and n = "pc_writebacks (x_pc x)"])
      (use x_slotD[OF ok b(1)] b in \<open>auto simp: writebacks_id slot_ok_def pg_has_def pvalid_def\<close>)
qed

lemma drop_ok:
  assumes ok: "pcx_ok x" and p: "p < PC_MAX_PAGES" "pvalid (x_pc x) p" "\<not> pg_pin (pg (x_pc x) p) > 0"
  shows "\<exists>t. page_drop p (x_pc x) = Some t \<and> pcx_ok (x\<lparr> x_pc := t \<rparr>) \<and> \<not> pvalid t p \<and> (\<forall>i. i \<noteq> p \<longrightarrow> pcore (pg t i) = pcore (pg (x_pc x) i)) \<and>
    pc_blk t = pc_blk (x_pc x)"
proof -
  let ?s = "x_pc x"
  obtain ll hl where r: "pc_rep ?s ll hl" using pcx_okD[OF ok] by metis
  have pin: "pg_pin (pg ?s p) = 0" using pin_nonneg[OF ok p(1)] p(3) by simp
  obtain u hl' where u: "hash_remove p (lru_remove p ?s) = Some u" "pc_same ?s u"
    "\<And>f. (\<And>g. pg_prev (f g) = pg_prev g \<and> pg_next (f g) = pg_next g \<and> pg_flags (f g) = 0) \<Longrightarrow> pc_rep (pg_upd p f u) (remove1 p ll) hl'"
    using unlink_rep[OF r p(1,2)] by blast
  let ?f = "\<lambda>g. g\<lparr> pg_data := None, pg_flags := 0, pg_pin := 0 \<rparr>" let ?t = "pg_upd p ?f u"
  have rep: "pc_rep ?t (remove1 p ll) hl'" by (rule u(3)) simp
  have len: "length (pc_pool u) = PC_MAX_PAGES" using pc_repD(1)[OF rep] by simp
  have g: "pg ?t i = (if i = p then ?f (pg u p) else pg u i)" for i using len p(1) by (simp add: pg_upd_pg)
  have c: "pcore (pg u i) = pcore (pg ?s i)" "pc_blk u = pc_blk ?s" for i using u(2) by (simp_all add: pc_same_def)
  have e: "page_drop p ?s = Some ?t" using u(1) len p(1) by (simp add: page_drop_def page_clear_def pg_upd_def)
  have "pcx_ok (x\<lparr> x_pc := ?t \<rparr>)"
    by (rule pcx_ok_step[OF ok, where Q = "{p}" and ll = "remove1 p ll" and hl = hl'])
      (use rep reader[OF ok] p(1) unpinned_clean[OF ok p(1) pin] in \<open>auto simp: g c x_slot_def slot_ok_def pg_has_def\<close>)
  then show ?thesis using e by (auto simp: g c pvalid_def pg_has_def)
qed

lemma invalidate_ok:
  assumes ok: "pcx_ok x"
  shows "\<exists>t. pc_invalidate_block dev blk (x_pc x) = Some t \<and> pcx_ok (x\<lparr> x_pc := t \<rparr>)"
proof -
  let ?s = "x_pc x"
  obtain ll hl where r: "pc_rep ?s ll hl" using pcx_okD[OF ok] by metis
  have same: "pcx_ok (x\<lparr> x_pc := ?s \<rparr>)" using ok by simp
  show ?thesis
    using r
  proof (cases rule: hash_find_cases[where dev = dev and block_no = blk])
    case (found p)
    show ?thesis
    proof (cases "pg_pin (pg ?s p) > 0")
      case True
      then show ?thesis using found(1) same by (simp add: pc_invalidate_block_def)
    next
      case False
      then have "pg_pin (pg ?s p) = 0" using pin_nonneg[OF ok found(2)] by simp
      then have "\<not> pg_has PC_FLAG_DIRTY (pg ?s p)" by (rule unpinned_clean(1)[OF ok found(2)])
      then show ?thesis using found(1) False drop_ok[OF ok found(2,3) False] by (auto simp: pc_invalidate_block_def)
    qed
  next
    case absent
    then show ?thesis using same by (simp add: pc_invalidate_block_def)
  qed
qed

lemma init_pcx_ok:
  assumes "bk_ok (pc_blk s)"
  shows "pcx_ok \<lparr> x_pc = pc_init s, x_new = [], x_full = [], x_wr = [], x_done = [], x_ref = (\<lambda>_. 0) \<rparr>"
proof -
  have g: "pg (pc_init s) i = page_zero" if "i < PC_MAX_PAGES" for i using that by (simp add: pg_def pc_init_def)
  have h: "pc_hash (pc_init s) ! b = None" if "b < PC_HASH_SIZE" for b using that by (simp add: pc_init_def)
  have v: "\<not> pvalid (pc_init s) i" if "i < PC_MAX_PAGES" for i using g[OF that] by (simp add: pvalid_def pg_has_def page_zero_def)
  have len: "length (pc_pool (pc_init s)) = PC_MAX_PAGES" "length (pc_hash (pc_init s)) = PC_HASH_SIZE" "pc_head (pc_init s) = None" "pc_tail (pc_init s) = None"
    by (simp_all add: pc_init_def)
  have "lru_rep (pc_init s) []" unfolding lru_rep_def len using g by (simp add: page_zero_def)
  moreover have "hash_rep (pc_init s) (\<lambda>_. [])" unfolding hash_rep_def len using h by simp
  ultimately have "pc_rep (pc_init s) [] (\<lambda>_. [])" unfolding pc_rep_def using len v by simp
  moreover have "pc_blk (pc_init s) = pc_blk s" by (simp add: pc_init_def)
  moreover have "slot_ok (pcore (pg (pc_init s) i)) False False 0 0 0" if "i < PC_MAX_PAGES" for i
    using g[OF that] by (simp add: slot_ok_def pg_has_def page_zero_def)
  ultimately show ?thesis using assms unfolding pcx_ok_def x_slot_def by auto
qed

lemma write_sector_ok:
  assumes "bk_ok b" "blkdev_by_id dv b = Some bd" "write_sectors is bd lba d b = Some b'"
  shows "bk_ok b'"
proof -
  obtain h where "write_sectors is bd lba d b = Some (b\<lparr> bk_hw := h \<rparr>)"
    using write_sectors_total[OF assms(1)] by_id_ok[OF assms(2)] by blast
  then show ?thesis using assms by (simp add: hw_same)
qed

lemma pcx_reach_ok: "pcx_reach x \<Longrightarrow> pcx_ok x"
proof (induction rule: pcx_reach.induct)
  case (init s)
  then show ?case by (intro init_pcx_ok blk_reach_ok)
next
  case (hit x dev blk p t)
  from hit.IH show ?case by (cases rule: lookup_ok[where dev = dev and blk = blk]) (use hit.hyps in auto)
next
  case (miss x dev blk t)
  from miss.IH show ?case by (cases rule: lookup_ok[where dev = dev and blk = blk]) (use miss.hyps in auto)
next
  case (alloc x dev blk bs p t)
  from alloc.IH show ?case by (cases rule: get_alloc_ok[where dev = dev and blk = blk and bs = bs]) (use alloc.hyps in auto)
next
  case (alloc_none x dev blk bs t)
  from alloc_none.IH show ?case
    by (cases rule: get_alloc_ok[where dev = dev and blk = blk and bs = bs]) (use alloc_none.hyps alloc_none.IH in auto)
next
  case (fill x p fresh bd t)
  from fill.IH fill.hyps(2,4) show ?case by (cases rule: fill_ok[where fresh = fresh]) (use fill.hyps in auto)
next
  case (fill_fails x p fresh bd t)
  have "t = page_clear p (x_pc x)" using fill_fails.hyps(3) by (auto simp: pc_get_fill_def Let_def split: option.splits)
  moreover have "p \<notin> set (x_full x)" using fill_fails.hyps(2) reader[OF fill_fails.IH] by auto
  ultimately show ?case using clear_new_ok[OF fill_fails.IH, of p] fill_fails.hyps(2) by (cases x) (simp add: remove1_idem)
next
  case (insert x p q t)
  from insert.IH insert.hyps(2) show ?case by (cases rule: insert_ok) (use insert.hyps in auto)
next
  case (dirty x dev blk p t)
  from dirty.IH show ?case by (cases rule: dirty_ok[where dev = dev and blk = blk]) (use dirty.hyps in auto)
next
  case (flush x p)
  then show ?case by (intro flush_ok)
next
  case (write_sector x p d bd i b)
  have "bk_ok b" by (rule write_sector_ok[OF _ write_sector.hyps(4,5)]) (use reader[OF write_sector.IH] in simp)
  then show ?case by (intro fields_ok[OF write_sector.IH]) simp_all
next
  case (written x p n)
  then show ?case by (intro written_ok)
next
  case (not_dirty x p)
  then show ?case by (intro written_ok)
next
  case (unpin x p)
  then show ?case by (intro unpin_ok)
next
  case (put x dev blk p t)
  then show ?case using put_ok[OF put.IH put.hyps(2,3)] by auto
next
  case (modify x p d)
  then show ?case by (intro modify_ok)
next
  case (invalidate x dev blk t)
  then show ?case using invalidate_ok[OF invalidate.IH, of dev blk] by auto
next
  case (invalidate_page x p t)
  then show ?case using drop_ok[OF invalidate_page.IH, of p] by (auto simp: pvalid_def)
next
  case (block x b)
  then show ?case by (intro fields_ok) (auto intro: blk_reach_ok)
qed

section \<open>The operations return\<close>

lemma writeback_ok:
  assumes ok: "pcx_ok x" and p: "p \<in> set (x_wr x)"
  shows "\<exists>t. writeback p (x_pc x) = Some t \<and> pcx_ok (x\<lparr> x_pc := t, x_wr := remove1 p (x_wr x), x_done := p # x_done x \<rparr>)"
proof -
  let ?s = "x_pc x"
  obtain ll hl where r: "pc_rep ?s ll hl" using pcx_okD[OF ok] by metis
  have c: "0 < count_list (x_wr x) p" by (rule count_list_member[OF p])
  have b: "p < PC_MAX_PAGES" "pvalid ?s p" "p \<notin> set (x_new x)" "p \<notin> set (x_full x)" using busy_slot[OF ok, of p] c by auto
  obtain t where t: "writeback p ?s = Some t" "pc_rep t ll hl" "bk_ok (pc_blk t)"
    "\<And>i. pg t i = (if i = p \<and> pg_has PC_FLAG_DIRTY (pg ?s p) then clean (pg ?s p) else pg ?s i)"
    using writeback_total[OF r _ b(1)] reader[OF ok] by auto
  have "pcx_ok (x\<lparr> x_pc := t, x_wr := remove1 p (x_wr x), x_done := p # x_done x \<rparr>)"
    by (rule pcx_ok_step[OF ok, where Q = "{p}" and ll = ll and hl = hl])
      (use t reader[OF ok] b c x_slotD[OF ok b(1)] in
        \<open>auto simp: clean_def x_slot_def slot_ok_def pg_has_def pvalid_def count_list_remove1\<close>)
  then show ?thesis using t(1) by blast
qed

lemma writeback_pinned_ok:
  assumes ok: "pcx_ok x" and p: "p < PC_MAX_PAGES" "pg_flags (pg (x_pc x) p) AND 3 = 3"
  shows "\<exists>t. writeback_pinned p (x_pc x) = Some t \<and> pcx_ok (x\<lparr> x_pc := t \<rparr>)"
proof -
  let ?y = "x\<lparr> x_pc := pin_add 1 p (x_pc x), x_wr := p # x_wr x \<rparr>"
  have "pcx_ok ?y" by (rule flush_ok[OF ok p])
  from writeback_ok[OF this, of p] obtain t where t: "writeback p (pin_add 1 p (x_pc x)) = Some t"
    "pcx_ok (?y\<lparr> x_pc := t, x_wr := remove1 p (x_wr ?y), x_done := p # x_done ?y \<rparr>)" by auto
  have "pcx_ok (x\<lparr> x_pc := pin_add (-1) p t \<rparr>)" using unpin_ok[OF t(2), of p] by (cases x) simp
  then show ?thesis using t(1) by (simp add: writeback_pinned_def)
qed

lemma flush_loop_ok: "pcx_ok x \<Longrightarrow> set is \<subseteq> {..<PC_MAX_PAGES} \<Longrightarrow> \<exists>t. flush_loop dev is (x_pc x) = Some t \<and> pcx_ok (x\<lparr> x_pc := t \<rparr>)"
proof (induction "is" arbitrary: x)
  case Nil
  then show ?case by simp
next
  case (Cons i "is")
  show ?case
  proof (cases "pg_flags (pg (x_pc x) i) AND 3 = 3 \<and> pg_dev (pg (x_pc x) i) = dev")
    case True
    then obtain t where t: "writeback_pinned i (x_pc x) = Some t" "pcx_ok (x\<lparr> x_pc := t \<rparr>)"
      using writeback_pinned_ok[OF Cons.prems(1)] Cons.prems(2) by auto
    then show ?thesis using Cons.IH[OF t(2)] Cons.prems(2) True by simp
  next
    case False
    then have "flush_loop dev (i # is) (x_pc x) = flush_loop dev is (x_pc x)" unfolding flush_loop.simps by (rule if_not_P)
    then show ?thesis using Cons.IH[OF Cons.prems(1)] Cons.prems(2) by simp
  qed
qed

lemma invalidate_loop_ok: "pcx_ok x \<Longrightarrow> set is \<subseteq> {..<PC_MAX_PAGES} \<Longrightarrow> \<exists>t. invalidate_loop dev is (x_pc x) = Some t \<and> pcx_ok (x\<lparr> x_pc := t \<rparr>)"
proof (induction "is" arbitrary: x)
  case Nil
  then show ?case by simp
next
  case (Cons i "is")
  show ?case
  proof (cases "pg_has PC_FLAG_VALID (pg (x_pc x) i) \<and> pg_dev (pg (x_pc x) i) = dev \<and> \<not> pg_pin (pg (x_pc x) i) > 0")
    case True
    then obtain t where t: "page_drop i (x_pc x) = Some t" "pcx_ok (x\<lparr> x_pc := t \<rparr>)"
      using drop_ok[OF Cons.prems(1), of i] Cons.prems(2) by (auto simp: pvalid_def)
    then show ?thesis using Cons.IH[OF t(2)] Cons.prems(2) True by simp
  next
    case False
    then have "invalidate_loop dev (i # is) (x_pc x) = invalidate_loop dev is (x_pc x)" unfolding invalidate_loop.simps by (rule if_not_P)
    then show ?thesis using Cons.IH[OF Cons.prems(1)] Cons.prems(2) by simp
  qed
qed

lemma flush_dev_ok: "pcx_ok x \<Longrightarrow> \<exists>t. pc_flush_dev dev (x_pc x) = Some t \<and> pcx_ok (x\<lparr> x_pc := t \<rparr>)"
  unfolding pc_flush_dev_def by (rule flush_loop_ok) auto

lemma invalidate_dev_ok:
  assumes "pcx_ok x"
  shows "\<exists>t. pc_invalidate_dev dev (x_pc x) = Some t \<and> pcx_ok (x\<lparr> x_pc := t \<rparr>)"
proof -
  obtain t where t: "pc_flush_dev dev (x_pc x) = Some t" "pcx_ok (x\<lparr> x_pc := t \<rparr>)" using flush_dev_ok[OF assms] by blast
  have "set [0..<PC_MAX_PAGES] \<subseteq> {..<PC_MAX_PAGES}" by auto
  from invalidate_loop_ok[OF t(2) this, of dev] t(1) show ?thesis by (simp add: pc_invalidate_dev_def)
qed

lemma mark_dirty_ok:
  assumes ok: "pcx_ok x"
  shows "\<exists>t. pc_mark_dirty dev blk (x_pc x) = Some t \<and> pcx_ok (x\<lparr> x_pc := t \<rparr>)"
  using ok
proof (cases rule: dirty_ok[where dev = dev and blk = blk])
  case (dirtied p u)
  let ?y = "x\<lparr> x_pc := u, x_wr := p # x_wr x \<rparr>"
  obtain t where t: "writeback p u = Some t" "pcx_ok (?y\<lparr> x_pc := t, x_wr := remove1 p (x_wr ?y), x_done := p # x_done ?y \<rparr>)"
    using writeback_ok[OF dirtied(2), of p] by auto
  have "pcx_ok (x\<lparr> x_pc := pin_add (-1) p t \<rparr>)" using unpin_ok[OF t(2), of p] by (cases x) simp
  then show ?thesis using dirtied(1) t(1) by (simp add: pc_mark_dirty_def)
next
  case absent
  then show ?thesis using ok by (simp add: pc_mark_dirty_def)
qed

lemma put_returns:
  assumes ok: "pcx_ok x"
  shows "\<exists>t. pc_put_page dev blk (x_pc x) = Some t"
proof -
  obtain ll hl where r: "pc_rep (x_pc x) ll hl" using pcx_okD[OF ok] by metis
  from r show ?thesis by (cases rule: hash_find_cases[where dev = dev and block_no = blk]) (simp_all add: pc_put_page_def)
qed

lemma check_dev:
  assumes "bk_ok b" "pc_get_check dev blk bs b = Some bd" "bd = Some d"
  shows "d < BLKDEV_SLOTS \<and> bk_used b ! d"
proof -
  have "(case blkdev_by_id dev b of None \<Rightarrow> blkdev_get_boot b | Some d \<Rightarrow> Some d) = Some d"
    using assms(2,3) by (auto simp: pc_get_check_def Let_def split: if_splits option.splits)
  then show ?thesis using by_id_ok boot_dev_ok[OF assms(1)] by (auto split: option.splits)
qed

text \<open>A call of \<open>pc_get_page\<close> that no other thread interrupts.\<close>

lemma get_page_ok:
  assumes ok: "pcx_ok x"
  shows "\<exists>r t. pc_get_page fresh dev blk bs (x_pc x) = Some (r, t) \<and>
    pcx_ok (case r of None \<Rightarrow> x\<lparr> x_pc := t \<rparr> | Some p \<Rightarrow> x\<lparr> x_pc := t, x_ref := (x_ref x)(p := x_ref x p + 1) \<rparr>)"
  using ok
proof (cases rule: lookup_ok[where dev = dev and blk = blk])
  case (hit p t)
  then show ?thesis by (simp add: pc_get_page_def)
next
  case (miss s1)
  let ?x1 = "x\<lparr> x_pc := s1 \<rparr>"
  show ?thesis
  proof (cases "pc_get_check dev blk bs (pc_blk s1)")
    case None
    then show ?thesis using miss by (simp add: pc_get_page_def)
  next
    case (Some bd)
    have b1: "bk_ok (pc_blk s1)" using reader[OF miss(2)] by simp
    show ?thesis
      using miss(2)
    proof (cases rule: get_alloc_ok[where dev = dev and blk = blk and bs = bs])
      case (slot p s2)
      let ?x2 = "?x1\<lparr> x_pc := s2, x_new := p # x_new x \<rparr>"
      have x2: "pcx_ok ?x2" "p \<in> set (x_new ?x2)" using slot(2) by simp_all
      have d: "\<forall>d. bd = Some d \<longrightarrow> d < BLKDEV_SLOTS \<and> bk_used (pc_blk (x_pc ?x2)) ! d" using check_dev[OF b1 Some] slot(7) by simp
      note pre = miss(1) Some slot(1)
      show ?thesis
        using x2 d
      proof (cases rule: fill_ok[where fresh = fresh])
        case (filled s3 db data)
        let ?x3 = "?x2\<lparr> x_pc := s3, x_new := remove1 p (x_new ?x2), x_full := p # x_full ?x2 \<rparr>"
        have x3: "p \<in> set (x_full ?x3)" by simp
        have "\<exists>q t. pc_get_insert p s3 = Some (q, t) \<and> pcx_ok (x\<lparr> x_pc := t, x_ref := (x_ref x)(q := x_ref x q + 1) \<rparr>)"
          using filled(2) x3
        proof (cases rule: insert_ok)
          case (old q t)
          then show ?thesis by (cases x) auto
        next
          case (new t)
          then show ?thesis by (cases x) auto
        qed
        then show ?thesis using pre filled(1) by (auto simp: pc_get_page_def)
      next
        case (fails s3)
        have "pcx_ok (x\<lparr> x_pc := s3 \<rparr>)" using fails(2) by (cases x) simp
        then show ?thesis using pre fails(1) by (simp add: pc_get_page_def)
      qed
    next
      case none
      then show ?thesis using miss Some by (simp add: pc_get_page_def)
    qed
  qed
qed

section \<open>The order of use, read off the pointers\<close>

fun lru_list :: "nat \<Rightarrow> nat option \<Rightarrow> ('hw, 's) pc \<Rightarrow> nat list" where
  "lru_list 0 c s = []"
| "lru_list (Suc k) c s = (case c of None \<Rightarrow> [] | Some p \<Rightarrow> p # lru_list k (pg_next (pg s p)) s)"

definition lru_order :: "('hw, 's) pc \<Rightarrow> nat list" where "lru_order s = lru_list PC_MAX_PAGES (pc_head s) s"

lemma lru_list_seg: "seg (\<lambda>i. pg_next (pg s i)) c ll None \<Longrightarrow> length ll \<le> k \<Longrightarrow> lru_list k c s = ll"
proof (induction ll arbitrary: k c)
  case Nil
  then show ?case by (cases k) auto
next
  case (Cons p ll)
  then show ?case by (cases k) auto
qed

lemma lru_order_rep:
  assumes "pc_rep s ll hl"
  shows "lru_order s = ll"
proof -
  note l = lru_repD[OF pc_repD(2)[OF assms]]
  show ?thesis unfolding lru_order_def by (rule lru_list_seg[OF l(3)]) (use chain_short[OF l(1,2)] pc_repD(1)[OF assms] in simp)
qed

section \<open>The bytes of a block\<close>

lemma sector_at:
  assumes ok: "bk_ok b" "d < BLKDEV_SLOTS" "bk_used b ! d" and sd: "sector_disk sec (bk_dev b (blk_root d b))"
    and l: "unat lba + m < unat (bd_max_lba (bk_dev b d))"
  shows "unat (bd_start_lba (bk_dev b d) + (lba + word_of_nat m)) * 512 = blk_base d b + unat lba * 512 + m * 512"
    and "lba + word_of_nat m < bd_max_lba (bk_dev b d)" "length (sec hw (bd_start_lba (bk_dev b d) + (lba + word_of_nat m))) = 512"
proof -
  have "unat lba + m < 2 ^ 32" using l unat_lt32[of "bd_max_lba (bk_dev b d)"] by simp
  then have u: "unat (lba + word_of_nat m) = unat lba + m" using unat_add_nat32[of lba m] by simp
  show lt: "lba + word_of_nat m < bd_max_lba (bk_dev b d)" using u l by (simp add: word_less_nat_alt)
  note r = root_lba[OF ok lt]
  show "unat (bd_start_lba (bk_dev b d) + (lba + word_of_nat m)) * 512 = blk_base d b + unat lba * 512 + m * 512"
    using r(1) u by (simp add: blk_base_def)
  show "length (sec hw (bd_start_lba (bk_dev b d) + (lba + word_of_nat m))) = 512" by (rule sector_diskD(1)[OF sd r(2)])
qed

lemma read_sectors_disk:
  fixes lba :: u32
  assumes ok: "bk_ok b" "d < BLKDEV_SLOTS" "bk_used b ! d" and sd: "sector_disk sec (bk_dev b (blk_root d b))"
    and l: "unat lba + n \<le> unat (bd_max_lba (bk_dev b d))" and len: "n * 512 \<le> length data" and m: "m \<le> n"
  defines "A \<equiv> blk_base d b + unat lba * 512"
  shows "read_sectors [m..<n] (Some d) lba (map (disk_byte sec (bk_hw b)) [A ..< A + m * 512] @ drop (m * 512) data) b =
    Some (map (disk_byte sec (bk_hw b)) [A ..< A + n * 512] @ drop (n * 512) data, b)"
  using m
proof (induction rule: inc_induct)
  case base
  then show ?case by simp
next
  case (step m)
  let ?l = "bd_start_lba (bk_dev b d) + (lba + word_of_nat m)" let ?D = "disk_byte sec (bk_hw b)"
  have lm: "unat lba + m < unat (bd_max_lba (bk_dev b d))" using l step.hyps by simp
  note sa = sector_at[OF ok sd lm]
  have rd: "blkdev_read (Some d) (lba + word_of_nat m) buf b = Some (0, sec (bk_hw b) ?l, b)" for buf
    by (rule read_sec[OF ok sa(2) sd])
  have sec: "sec (bk_hw b) ?l = map ?D [A + m * 512 ..< A + Suc m * 512]"
    using sector_slice[of 0 512 sec "bk_hw b" ?l] sa(1,3) by (simp add: slice_def A_def add.commute add.left_commute)
  have "[A ..< A + Suc m * 512] = [A ..< A + m * 512] @ [A + m * 512 ..< A + Suc m * 512]"
    using upt_add_eq_append[of A "A + m * 512" 512] by (simp add: add.assoc add.commute add.left_commute)
  then have e: "take (m * 512) (map ?D [A ..< A + m * 512] @ drop (m * 512) data) @ sec (bk_hw b) ?l @
      drop (m * 512 + 512) (map ?D [A ..< A + m * 512] @ drop (m * 512) data) = map ?D [A ..< A + Suc m * 512] @ drop (Suc m * 512) data"
    unfolding sec by (simp add: add.commute)
  have u: "[m..<n] = m # [Suc m..<n]" using step.hyps(2) by (rule upt_conv_Cons)
  show ?case unfolding u using step.IH rd by (simp only: read_sectors.simps e option.case prod.case)
qed

lemma write_sectors_append:
  "write_sectors (is @ js) bd lba data b = (case write_sectors is bd lba data b of None \<Rightarrow> None | Some b1 \<Rightarrow> write_sectors js bd lba data b1)"
  by (induction "is" arbitrary: b) (auto split: option.splits)

lemma write_sectors_disk:
  fixes lba :: u32
  assumes ok: "bk_ok b" "d < BLKDEV_SLOTS" "bk_used b ! d" and sd: "sector_disk sec (bk_dev b (blk_root d b))"
    and "unat lba + n \<le> unat (bd_max_lba (bk_dev b d))" "n * 512 \<le> length data"
  defines "A \<equiv> blk_base d b + unat lba * 512"
  shows "\<exists>h. write_sectors [0..<n] d lba data b = Some (b\<lparr> bk_hw := h \<rparr>) \<and>
    (\<forall>k < 2 ^ 32 * 512. disk_byte sec h k = (if A \<le> k \<and> k < A + n * 512 then data ! (k - A) else disk_byte sec (bk_hw b) k))"
  using assms(5,6)
proof (induction n)
  case 0
  then show ?case by (auto intro: exI[of _ "bk_hw b"])
next
  case (Suc n)
  then obtain h where h: "write_sectors [0..<n] d lba data b = Some (b\<lparr> bk_hw := h \<rparr>)"
    "\<And>k. k < 2 ^ 32 * 512 \<Longrightarrow> disk_byte sec h k = (if A \<le> k \<and> k < A + n * 512 then data ! (k - A) else disk_byte sec (bk_hw b) k)" by auto
  let ?b = "b\<lparr> bk_hw := h \<rparr>" let ?l = "bd_start_lba (bk_dev b d) + (lba + word_of_nat n)" let ?v = "slice (n * 512) 512 data"
  have ln: "unat lba + n < unat (bd_max_lba (bk_dev b d))" using Suc.prems by simp
  note sa = sector_at[OF ok sd ln]
  have okb: "bk_ok ?b" "bk_used ?b ! d" "lba + word_of_nat n < bd_max_lba (bk_dev ?b d)" "sector_disk sec (bk_dev ?b (blk_root d ?b))"
    using ok sd sa(2) by (simp_all add: hw_same)
  have lv: "length ?v = 512" using Suc.prems(2) by simp
  obtain h' where w: "blkdev_write (Some d) (lba + word_of_nat n) ?v ?b = Some (0, b\<lparr> bk_hw := h' \<rparr>)" "sec h' = (sec h)(?l := ?v)"
    using write_sec[OF okb(1) ok(2) okb(2-4) lv] by (auto simp: hw_same)
  have up: "disk_byte sec h' k = (if unat ?l * 512 \<le> k \<and> k < unat ?l * 512 + 512 then data ! (n * 512 + (k - unat ?l * 512)) else disk_byte sec h k)"
    if "k < 2 ^ 32 * 512" for k
    using disk_byte_upd[of sec h' h ?l 0 "sec h ?l" "n * 512" 512 data k] w(2) sa(3) Suc.prems(2) that by simp
  have ul: "unat ?l * 512 = A + n * 512" using sa(1) by (simp add: A_def)
  have "disk_byte sec h' k = (if A \<le> k \<and> k < A + Suc n * 512 then data ! (k - A) else disk_byte sec (bk_hw b) k)" if k: "k < 2 ^ 32 * 512" for k
    unfolding up[OF k] h(2)[OF k] ul by auto
  moreover have "write_sectors [0..<Suc n] d lba data b = Some (b\<lparr> bk_hw := h' \<rparr>)" using h(1) w(1) by (simp add: write_sectors_append)
  ultimately show ?case by blast
qed

text \<open>The blocks \<open>pc_get_page\<close> accepts, in exact arithmetic.\<close>

definition pc_accepts :: "u32 \<Rightarrow> u32 \<Rightarrow> u32 \<Rightarrow> ('hw, 's) blk \<Rightarrow> bool" where
  "pc_accepts dev blk bs b \<longleftrightarrow> unat bs \<in> {512 * n | n. 1 \<le> n \<and> n \<le> 8} \<and>
     (case (case blkdev_by_id dev b of None \<Rightarrow> blkdev_get_boot b | Some d \<Rightarrow> Some d) of None \<Rightarrow> True
      | Some d \<Rightarrow> unat blk * unat bs + unat bs \<le> unat (bd_max_lba (bk_dev b d)) * 512)"

lemma size_ok:
  fixes bs :: u32
  shows "\<not> (bs = 0 \<or> bs mod 512 \<noteq> 0) \<and> \<not> bs > PC_MAX_BLOCK_SIZE \<longleftrightarrow> unat bs \<in> {512 * n | n. 1 \<le> n \<and> n \<le> 8}"
proof -
  have "bs mod 512 = 0 \<longleftrightarrow> unat bs mod 512 = 0" by (simp add: word_unat_eq_iff unat_mod)
  moreover have "bs > PC_MAX_BLOCK_SIZE \<longleftrightarrow> unat bs > 4096" by (simp add: PC_MAX_BLOCK_SIZE_def word_less_nat_alt)
  moreover have "bs = 0 \<longleftrightarrow> unat bs = 0" by (simp add: unat_eq_0)
  ultimately show ?thesis by (auto simp: mod_eq_0_iff_dvd dvd_def)
qed

lemma range_ok:
  fixes blk spb mx :: u32
  assumes "0 < unat spb"
  shows "\<not> blk > 0xFFFFFFFF div spb \<and> \<not> (blk * spb > mx \<or> spb > mx - blk * spb) \<longleftrightarrow> unat blk * unat spb + unat spb \<le> unat mx"
    and "\<not> blk > 0xFFFFFFFF div spb \<Longrightarrow> unat (blk * spb) = unat blk * unat spb"
proof -
  have d: "blk > 0xFFFFFFFF div spb \<longleftrightarrow> (2 ^ 32 - 1) div unat spb < unat blk" by (simp add: word_less_nat_alt unat_div)
  have big: "2 ^ 32 - 1 < unat blk * unat spb" if "blk > 0xFFFFFFFF div spb"
    using that assms unfolding d by (simp add: div_less_iff_less_mult)
  show mu: "unat (blk * spb) = unat blk * unat spb" if "\<not> blk > 0xFFFFFFFF div spb"
  proof -
    have "unat blk \<le> (2 ^ 32 - 1) div unat spb" using that unfolding d by simp
    then have "unat blk * unat spb \<le> 2 ^ 32 - 1" using assms by (simp add: less_eq_div_iff_mult_less_eq)
    then show ?thesis by (simp add: unat_word_ariths)
  qed
  show "\<not> blk > 0xFFFFFFFF div spb \<and> \<not> (blk * spb > mx \<or> spb > mx - blk * spb) \<longleftrightarrow> unat blk * unat spb + unat spb \<le> unat mx"
  proof (cases "blk > 0xFFFFFFFF div spb")
    case True
    then show ?thesis using big[OF True] unat_lt32[of mx] by simp
  next
    case False
    then show ?thesis using mu[OF False] by (auto simp: word_less_nat_alt word_le_nat_alt unat_sub_if')
  qed
qed

lemma check_accepts:
  "pc_get_check dev blk bs b =
    (if pc_accepts dev blk bs b then Some (case blkdev_by_id dev b of None \<Rightarrow> blkdev_get_boot b | Some d \<Rightarrow> Some d) else None)"
proof (cases "unat bs \<in> {512 * n | n. 1 \<le> n \<and> n \<le> 8}")
  case False
  then have "bs = 0 \<or> bs mod 512 \<noteq> 0 \<or> bs > PC_MAX_BLOCK_SIZE" unfolding size_ok[symmetric] by argo
  then have "pc_get_check dev blk bs b = None" by (elim disjE) (simp_all add: pc_get_check_def)
  then show ?thesis using False by (simp add: pc_accepts_def)
next
  case True
  then obtain n where n: "unat bs = 512 * n" "1 \<le> n" "n \<le> 8" by auto
  have s: "unat (bs div 512) = n" using n by (simp add: unat_div)
  have z: "\<not> (bs = 0 \<or> bs mod 512 \<noteq> 0)" "\<not> bs > PC_MAX_BLOCK_SIZE" using size_ok[of bs] True by auto
  have r: "\<not> blk > 0xFFFFFFFF div (bs div 512) \<and> \<not> (blk * (bs div 512) > mx \<or> bs div 512 > mx - blk * (bs div 512)) \<longleftrightarrow>
      unat blk * unat bs + unat bs \<le> unat mx * 512" for mx
    using range_ok(1)[of "bs div 512" blk mx] n s by auto
  show ?thesis unfolding pc_get_check_def pc_accepts_def Let_def using z True r
    by (auto split: option.splits)
qed

section \<open>Properties\<close>

lemma find_validD:
  assumes "pc_rep s ll hl" "hash_find dev blk s = Some (Some p)"
  shows "p < PC_MAX_PAGES" "pvalid s p" "pg_dev (pg s p) = dev" "pg_block_no (pg s p) = blk"
  using assms(1) by (cases rule: hash_find_cases[where dev = dev and block_no = blk]; use assms(2) in simp)+

lemma find_None_iff_absent:
  assumes "pc_rep s ll hl"
  shows "hash_find dev blk s = Some None \<longleftrightarrow> (\<forall>i < PC_MAX_PAGES. pvalid s i \<longrightarrow> \<not> (pg_dev (pg s i) = dev \<and> pg_block_no (pg s i) = blk))"
  using assms by (cases rule: hash_find_cases[where dev = dev and block_no = blk]) auto

lemma still_absent:
  assumes ok: "pcx_ok x" and absent: "hash_find dev blk (x_pc x) = Some None" and y: "pcx_ok y"
    and p: "\<not> pvalid (x_pc y) p" "\<And>i. i \<noteq> p \<Longrightarrow> pcore (pg (x_pc y) i) = pcore (pg (x_pc x) i)"
  shows "hash_find dev blk (x_pc y) = Some None"
proof -
  obtain ll hl where r: "pc_rep (x_pc x) ll hl" using pcx_okD[OF ok] by metis
  obtain ll' hl' where r': "pc_rep (x_pc y) ll' hl'" using pcx_okD[OF y] by metis
  have "\<not> (pg_dev (pg (x_pc y) i) = dev \<and> pg_block_no (pg (x_pc y) i) = blk)" if i: "i < PC_MAX_PAGES" "pvalid (x_pc y) i" for i
  proof -
    have "pcore (pg (x_pc y) i) = pcore (pg (x_pc x) i)" using p that by metis
    then have "pg_dev (pg (x_pc y) i) = pg_dev (pg (x_pc x) i)" "pg_block_no (pg (x_pc y) i) = pg_block_no (pg (x_pc x) i)" "pvalid (x_pc x) i"
      using i(2) by (auto dest: pcoreD simp: pvalid_def pg_has_def)
    then show ?thesis using absent i(1) unfolding find_None_iff_absent[OF r] by simp
  qed
  then show ?thesis unfolding find_None_iff_absent[OF r'] by blast
qed

text \<open>
  A call of \<open>pc_get_page\<close> that misses: what it returns, on every branch.
\<close>

lemma get_page_miss:
  assumes ok: "pcx_ok x" and absent: "hash_find dev blk (x_pc x) = Some None"
  defines "b \<equiv> pc_blk (x_pc x)" and "s1 \<equiv> (x_pc x)\<lparr> pc_misses := pc_misses (x_pc x) + 1 \<rparr>"
  obtains (refused) "pc_get_page fresh dev blk bs (x_pc x) = Some (None, s1)" "\<not> pc_accepts dev blk bs b"
  | (full) "pc_get_page fresh dev blk bs (x_pc x) = Some (None, s1)" "pc_accepts dev blk bs b" "\<And>i. i < PC_MAX_PAGES \<Longrightarrow> 0 < pg_pin (pg (x_pc x) i)"
  | (no_memory) t where "pc_get_page fresh dev blk bs (x_pc x) = Some (None, t)" "pc_accepts dev blk bs b" "fresh = None" "pcx_ok (x\<lparr> x_pc := t \<rparr>)"
  | (cached) p t d data where "pc_get_page fresh dev blk bs (x_pc x) = Some (Some p, t)" "pc_accepts dev blk bs b"
      "pcx_ok (x\<lparr> x_pc := t, x_ref := (x_ref x)(p := x_ref x p + 1) \<rparr>)" "hash_find dev blk t = Some (Some p)" "pg_data (pg t p) = Some data"
      "read_sectors [0..<unat (bs div 512)]
         (case (case blkdev_by_id dev b of None \<Rightarrow> blkdev_get_boot b | Some d \<Rightarrow> Some d) of None \<Rightarrow> blkdev_get_boot b | Some d \<Rightarrow> Some d)
         (blk * (bs div 512)) (replicate (unat bs) 0 @ drop (unat bs) d) b = Some (data, pc_blk t)"
      "pg_block_size (pg t p) = bs"
  using ok
proof (cases rule: lookup_ok[where dev = dev and blk = blk])
  case (hit p t)
  then show thesis using absent by simp
next
  case (miss u)
  have u: "u = s1" "pc_blk u = b" "pg u = pg (x_pc x)" using miss(4) by (simp_all add: s1_def b_def)
  show thesis
  proof (cases "pc_accepts dev blk bs b")
    case False
    then show thesis using that(1) miss(1) u by (simp add: pc_get_page_def check_accepts)
  next
    case True
    let ?bd = "case blkdev_by_id dev b of None \<Rightarrow> blkdev_get_boot b | Some d \<Rightarrow> Some d"
    have ck: "pc_get_check dev blk bs (pc_blk u) = Some ?bd" using True u by (simp add: check_accepts)
    have b1: "bk_ok (pc_blk u)" using reader[OF miss(2)] by simp
    show thesis
      using miss(2)
    proof (cases rule: get_alloc_ok[where dev = dev and blk = blk and bs = bs])
      case (slot p s2)
      let ?x2 = "x\<lparr> x_pc := s2, x_new := p # x_new x \<rparr>"
      have x2: "pcx_ok ?x2" "p \<in> set (x_new ?x2)" using slot(2) by (cases x, simp_all)
      have bd: "\<forall>d. ?bd = Some d \<longrightarrow> d < BLKDEV_SLOTS \<and> bk_used (pc_blk (x_pc ?x2)) ! d" using check_dev[OF b1 ck] slot(7) by simp
      have b2: "pc_blk s2 = b" using slot(7) u by simp
      note pre = miss(1) ck slot(1)
      show thesis
        using x2 bd
      proof (cases rule: fill_ok[where fresh = fresh])
        case (filled s3 d data)
        let ?x3 = "?x2\<lparr> x_pc := s3, x_new := remove1 p (x_new ?x2), x_full := p # x_full ?x2 \<rparr>"
        have x3: "p \<in> set (x_full ?x3)" by simp
        have g3: "pg_dev (pg s3 p) = dev" "pg_block_no (pg s3 p) = blk" "pg_block_size (pg s3 p) = bs" "pg_data (pg s3 p) = Some data"
          using filled(3) slot(4-6) by simp_all
        have sx: "x_pc ?x2 = s2" by simp
        have nf: "hash_find dev blk s3 = Some None"
          using still_absent[OF ok absent filled(2), of p] new_slot(2)[OF x2(1)] filled(3) slot(8) u by (simp add: pvalid_def pg_has_def)
        show thesis
          using filled(2) x3
        proof (cases rule: insert_ok)
          case (old q t)
          then show thesis using nf g3 by simp
        next
          case (new t)
          have e: "pc_get_page fresh dev blk bs (x_pc x) = Some (Some p, t)" using pre filled(1) new(1) by (simp add: pc_get_page_def)
          have y: "pcx_ok (x\<lparr> x_pc := t, x_ref := (x_ref x)(p := x_ref x p + 1) \<rparr>)" using new(3) by (cases x) simp
          have rd: "read_sectors [0..<unat (bs div 512)] (case ?bd of None \<Rightarrow> blkdev_get_boot b | Some d \<Rightarrow> Some d)
              (blk * (bs div 512)) (replicate (unat bs) 0 @ drop (unat bs) d) b = Some (data, pc_blk t)"
            using filled(5) new(5) unfolding sx slot(4-6) b2 by simp
          show thesis
            by (rule that(4)[OF e True y _ _ rd]) (use new(4,6,8) g3 in \<open>simp_all\<close>)
        qed
      next
        case (fails s3)
        have "pcx_ok (x\<lparr> x_pc := s3 \<rparr>)" using fails(2) by (cases x) simp
        then show thesis using that(3)[OF _ True fails(3)] pre fails(1) by (simp add: pc_get_page_def)
      qed
    next
      case none
      then show thesis using that(2)[OF _ True] miss(1) ck u by (simp add: pc_get_page_def)
    qed
  qed
qed

lemma get_page_full:
  assumes ok: "pcx_ok x" and absent: "hash_find dev blk (x_pc x) = Some None" and full: "\<And>i. i < PC_MAX_PAGES \<Longrightarrow> 0 < pg_pin (pg (x_pc x) i)"
  shows "pc_get_page fresh dev blk bs (x_pc x) = Some (None, (x_pc x)\<lparr> pc_misses := pc_misses (x_pc x) + 1 \<rparr>)"
  using ok
proof (cases rule: lookup_ok[where dev = dev and blk = blk])
  case (hit p t)
  then show ?thesis using absent by simp
next
  case (miss u)
  show ?thesis
  proof (cases "pc_get_check dev blk bs (pc_blk u)")
    case None
    then show ?thesis using miss by (simp add: pc_get_page_def)
  next
    case (Some bd)
    have "alloc_page u = Some (None, u)"
      using miss(2)
    proof (cases rule: alloc_page_ok)
      case (slot p t ll hl)
      have "pg_pin (pg u p) = 0" using x_slotD(3)[OF miss(2) slot(4)] slot by simp
      then show ?thesis using full[OF slot(4)] miss(4) by simp
    qed simp
    then show ?thesis using miss Some by (simp add: pc_get_page_def pc_get_alloc_def)
  qed
qed

lemma pool_length: "pcx_ok x \<Longrightarrow> length (pc_pool (x_pc x)) = PC_MAX_PAGES"
  using pcx_okD pc_repD(1) by metis

lemma accepted_block:
  assumes "pc_accepts dev blk bs b" "blkdev_by_id dev b = Some d"
  obtains n where "unat bs = n * 512" "unat (bs div 512) = n" "unat (blk * (bs div 512)) = unat blk * n" "unat blk * n + n \<le> unat (bd_max_lba (bk_dev b d))"
proof -
  obtain n where n: "unat bs = 512 * n" "1 \<le> n" "n \<le> 8" using assms(1) by (auto simp: pc_accepts_def)
  have u: "unat (bs div 512) = n" using n by (simp add: unat_div)
  have r: "unat blk * n + n \<le> unat (bd_max_lba (bk_dev b d))" using assms n by (auto simp: pc_accepts_def)
  have "\<not> blk > 0xFFFFFFFF div (bs div 512)" using range_ok(1)[of "bs div 512" blk "bd_max_lba (bk_dev b d)"] r u n by auto
  then have "unat (blk * (bs div 512)) = unat blk * n" using range_ok(2)[of "bs div 512" blk] u n by simp
  then show thesis using that n u r by simp
qed

lemma get_page_content:
  assumes ok: "pcx_ok x" and miss: "hash_find dev blk (x_pc x) = Some None" and acc: "pc_accepts dev blk bs (pc_blk (x_pc x))"
    and dv: "blkdev_by_id dev (pc_blk (x_pc x)) = Some d" "sector_disk sec (bk_dev (pc_blk (x_pc x)) (blk_root d (pc_blk (x_pc x))))"
    and res: "fresh \<noteq> None" "\<exists>i < PC_MAX_PAGES. pg_pin (pg (x_pc x) i) = 0"
  defines "b \<equiv> pc_blk (x_pc x)"
  defines "A \<equiv> blk_base d b + unat blk * unat bs"
  shows "\<exists>p t data. pc_get_page fresh dev blk bs (x_pc x) = Some (Some p, t) \<and> hash_find dev blk t = Some (Some p) \<and> pc_blk t = b \<and>
    pcx_ok (x\<lparr> x_pc := t, x_ref := (x_ref x)(p := x_ref x p + 1) \<rparr>) \<and>
    pg_data (pg t p) = Some data \<and> take (unat bs) data = map (disk_byte sec (bk_hw b)) [A ..< A + unat bs] \<and> unat bs \<le> length data \<and>
    pg_block_size (pg t p) = bs"
  using ok miss
proof (cases rule: get_page_miss[where bs = bs and fresh = fresh])
  case (cached p t dd data)
  have okb: "bk_ok b" "d < BLKDEV_SLOTS" "bk_used b ! d" using reader[OF ok] by_id_ok[OF dv(1)] by (auto simp: b_def)
  obtain n where n: "unat bs = n * 512" "unat (bs div 512) = n" "unat (blk * (bs div 512)) = unat blk * n" "unat blk * n + n \<le> unat (bd_max_lba (bk_dev b d))"
    using accepted_block[OF acc dv(1)] unfolding b_def by metis
  let ?lba = "blk * (bs div 512)" let ?z = "replicate (unat bs) 0 @ drop (unat bs) dd"
  have A: "blk_base d b + unat ?lba * 512 = A" using n by (simp add: A_def)
  have l: "unat ?lba + n \<le> unat (bd_max_lba (bk_dev b d))" "n * 512 \<le> length ?z" using n by simp_all
  have "read_sectors [0..<n] (Some d) ?lba ?z b = Some (data, pc_blk t)" using cached(6) dv(1) n(2) by (simp add: b_def)
  then have "data = map (disk_byte sec (bk_hw b)) [A ..< A + n * 512] @ drop (n * 512) ?z \<and> pc_blk t = b"
    using read_sectors_disk[OF okb dv(2)[folded b_def] l, of 0] unfolding A by simp
  then show ?thesis using cached(1,3,4,5,7) n(1) by auto
qed (use acc res in fastforce)+

lemma mark_dirty_content:
  assumes ok: "pcx_ok x" and hit: "hash_find dev blk (x_pc x) = Some (Some p)" and dat: "pg_data (pg (x_pc x) p) = Some data"
    and bs: "pg_block_size (pg (x_pc x) p) = bs" "unat bs \<le> length data" and acc: "pc_accepts dev blk bs (pc_blk (x_pc x))"
    and dv: "blkdev_by_id dev (pc_blk (x_pc x)) = Some d" "sector_disk sec (bk_dev (pc_blk (x_pc x)) (blk_root d (pc_blk (x_pc x))))"
  defines "b \<equiv> pc_blk (x_pc x)"
  defines "A \<equiv> blk_base d b + unat blk * unat bs"
  shows "\<exists>t h. pc_mark_dirty dev blk (x_pc x) = Some t \<and> pc_blk t = b\<lparr> bk_hw := h \<rparr> \<and> \<not> pg_has PC_FLAG_DIRTY (pg t p) \<and>
    (\<forall>i. pg_data (pg t i) = pg_data (pg (x_pc x) i) \<and> pg_pin (pg t i) = pg_pin (pg (x_pc x) i)) \<and>
    (\<forall>k < 2 ^ 32 * 512. disk_byte sec h k = (if A \<le> k \<and> k < A + unat bs then data ! (k - A) else disk_byte sec (bk_hw b) k))"
proof -
  let ?s = "x_pc x"
  obtain ll hl where r: "pc_rep ?s ll hl" using pcx_okD[OF ok] by metis
  have key: "pg_dev (pg ?s p) = dev \<and> pg_block_no (pg ?s p) = blk \<and> p < PC_MAX_PAGES"
    using find_validD[OF r hit] by simp
  obtain n where n: "unat bs = n * 512" "unat (bs div 512) = n" "unat (blk * (bs div 512)) = unat blk * n" "unat blk * n + n \<le> unat (bd_max_lba (bk_dev b d))"
    using accepted_block[OF acc dv(1)] unfolding b_def by metis
  have okb: "bk_ok b" "d < BLKDEV_SLOTS" "bk_used b ! d" using reader[OF ok] by_id_ok[OF dv(1)] by (auto simp: b_def)
  have A: "blk_base d b + unat (blk * (bs div 512)) * 512 = A" using n by (simp add: A_def)
  obtain h where h: "write_sectors [0..<n] d (blk * (bs div 512)) data b = Some (b\<lparr> bk_hw := h \<rparr>)"
    "\<forall>k < 2 ^ 32 * 512. disk_byte sec h k = (if A \<le> k \<and> k < A + n * 512 then data ! (k - A) else disk_byte sec (bk_hw b) k)"
    using write_sectors_disk[OF okb dv(2)[folded b_def], of "blk * (bs div 512)" n data] n bs(2) unfolding A by auto
  show ?thesis
    using ok
  proof (cases rule: dirty_ok[where dev = dev and blk = blk])
    case (dirtied q u)
    have q: "q = p" using dirtied(3) hit by simp
    have gu: "pg u p = (pg ?s p)\<lparr> pg_flags := pg_flags (pg ?s p) OR PC_FLAG_DIRTY, pg_pin := pg_pin (pg ?s p) + 1 \<rparr>" "length (pc_pool u) = PC_MAX_PAGES"
      using dirtied(5) q pool_length[OF dirtied(2)] by auto
    let ?v = "clear_dirty p (u\<lparr> pc_blk := b\<lparr> bk_hw := h \<rparr> \<rparr>)" let ?t = "pin_add (-1) p (?v\<lparr> pc_writebacks := pc_writebacks ?v + 1 \<rparr>)"
    have "pg_has PC_FLAG_DIRTY (pg u p)" "pg_data (pg u p) = Some data" "pg_dev (pg u p) = dev" "pg_block_no (pg u p) = blk" "pg_block_size (pg u p) = bs"
      using gu(1) dat bs(1) key by (simp_all add: pg_has_def)
    then have "writeback p u = Some (?v\<lparr> pc_writebacks := pc_writebacks ?v + 1 \<rparr>)"
      using dv(1) h(1) n(2) dirtied(6) by (simp add: writeback_def Let_def b_def)
    then have e: "pc_mark_dirty dev blk ?s = Some ?t" using dirtied(1) q by (simp add: pc_mark_dirty_def)
    have g: "pg ?t i = (if i = p then (pg ?s p)\<lparr> pg_flags := (pg_flags (pg ?s p) OR PC_FLAG_DIRTY) AND NOT PC_FLAG_DIRTY \<rparr> else pg ?s i)" for i
      using gu key dirtied(5)[of i] q by (simp add: pin_add_def clear_dirty_def pg_upd_pg)
    have "\<not> pg_has PC_FLAG_DIRTY (pg ?t p)" "\<forall>i. pg_data (pg ?t i) = pg_data (pg ?s i) \<and> pg_pin (pg ?t i) = pg_pin (pg ?s i)"
      by (simp_all add: g pg_has_def)
    moreover have "pc_blk ?t = b\<lparr> bk_hw := h \<rparr>" by (simp add: pin_add_def clear_dirty_def)
    ultimately show ?thesis using e h(2) n(1) by auto
  next
    case absent
    then show ?thesis using hit by simp
  qed
qed

text \<open>A call of \<open>pc_get_page\<close> that is not interrupted is a sequence of the steps above.\<close>

lemma get_page_steps:
  assumes x: "pcx_reach x" and g: "pc_get_page fresh dev blk bs (x_pc x) = Some (r, t)"
  shows "pcx_reach (case r of None \<Rightarrow> x\<lparr> x_pc := t \<rparr> | Some p \<Rightarrow> x\<lparr> x_pc := t, x_ref := (x_ref x)(p := x_ref x p + 1) \<rparr>)"
proof -
  obtain hit s1 where l: "pc_get_lookup dev blk (x_pc x) = Some (hit, s1)" using g by (auto simp: pc_get_page_def bind_eq_Some_conv)
  show ?thesis
  proof (cases hit)
    case (Some p)
    then have "r = Some p" "s1 = t" using l g by (auto simp: pc_get_page_def)
    then show ?thesis using pcx_reach.hit[OF x, of dev blk p t] l Some by simp
  next
    case None
    let ?x1 = "x\<lparr> x_pc := s1 \<rparr>"
    have x1: "pcx_reach ?x1" using pcx_reach.miss[OF x] l None by simp
    show ?thesis
    proof (cases "pc_get_check dev blk bs (pc_blk s1)")
      case N: None
      then show ?thesis using g l None x1 by (simp add: pc_get_page_def)
    next
      case (Some bd)
      then obtain slot s2 where a: "pc_get_alloc dev blk bs s1 = Some (slot, s2)" using g l None by (auto simp: pc_get_page_def bind_eq_Some_conv)
      show ?thesis
      proof (cases slot)
        case N: None
        then show ?thesis using pcx_reach.alloc_none[OF x1, of dev blk bs s2] g l None Some a by (cases x) (simp add: pc_get_page_def)
      next
        case S: (Some p)
        let ?x2 = "?x1\<lparr> x_pc := s2, x_new := p # x_new ?x1 \<rparr>"
        have x2: "pcx_reach ?x2" using pcx_reach.alloc[OF x1] a S by simp
        have p2: "p \<in> set (x_new ?x2)" by simp
        have b1: "bk_ok (pc_blk s1)" using reader[OF pcx_reach_ok[OF x1]] by simp
        have "pc_blk s2 = pc_blk s1" using pcx_reach_ok[OF x1] by (cases rule: get_alloc_ok[where dev = dev and blk = blk and bs = bs]) (use a S in auto)
        then have bd: "\<forall>d. bd = Some d \<longrightarrow> d < BLKDEV_SLOTS \<and> bk_used (pc_blk (x_pc ?x2)) ! d" using check_dev[OF b1 Some] by simp
        obtain fl s3 where f: "pc_get_fill fresh p bd s2 = Some (fl, s3)" using g l None Some a S by (auto simp: pc_get_page_def bind_eq_Some_conv)
        show ?thesis
        proof (cases fl)
          case False
          then show ?thesis using pcx_reach.fill_fails[OF x2 p2, of fresh bd s3] g l None Some a S f by (cases x) (simp add: pc_get_page_def)
        next
          case True
          have x3: "pcx_reach (?x2\<lparr> x_pc := s3, x_new := remove1 p (x_new ?x2), x_full := p # x_full ?x2 \<rparr>)"
            by (rule pcx_reach.fill[OF x2 p2 _ bd, of fresh]) (use f True in simp)
          obtain q where q: "pc_get_insert p s3 = Some (q, t)" "r = Some q" using g l None Some a S f True by (auto simp: pc_get_page_def)
          show ?thesis using pcx_reach.insert[OF x3, of p q t] q by (cases x) simp
        qed
      qed
    qed
  qed
qed

text \<open>
  A cache over the example disk: freshly initialised, and after one thread has taken block 0.
\<close>

definition ex_pc :: "(ram, unit) pc" where
  "ex_pc = \<lparr> pc_pool = [], pc_hash = [], pc_head = None, pc_tail = None, pc_hits = 0, pc_misses = 0, pc_evictions = 0, pc_writebacks = 0,
     pc_blk = ex_blk \<rparr>"

definition ex_pcx :: "(ram, unit) pcx" where
  "ex_pcx = \<lparr> x_pc = pc_init ex_pc, x_new = [], x_full = [], x_wr = [], x_done = [], x_ref = (\<lambda>_. 0) \<rparr>"

lemma ex_pcx_reach: "pcx_reach ex_pcx"
  unfolding ex_pcx_def by (rule pcx_reach.init) (simp add: ex_pc_def ex_blk_reach)

lemma ex_pcx_blk: "pc_blk (x_pc ex_pcx) = ex_blk"
  by (simp add: ex_pcx_def pc_init_def ex_pc_def)

lemma ex_pcx_page: "i < PC_MAX_PAGES \<Longrightarrow> pg (x_pc ex_pcx) i = page_zero"
  by (simp add: ex_pcx_def pg_def pc_init_def)

lemma ex_pcx_empty: "hash_find dev blk (x_pc ex_pcx) = Some None"
proof -
  obtain ll hl where r: "pc_rep (x_pc ex_pcx) ll hl" using pcx_okD[OF pcx_reach_ok[OF ex_pcx_reach]] by metis
  show ?thesis unfolding find_None_iff_absent[OF r] by (simp add: ex_pcx_page pvalid_def pg_has_def page_zero_def)
qed

lemma ex_pcx_dev: "blkdev_by_id 0 ex_blk = Some 0"
  using ex_blk_fields(1,2) by (simp add: blkdev_by_id_def)

lemma ex_pcx_accepts: "pc_accepts 0 0 512 ex_blk"
proof -
  have "unat (512 :: u32) \<in> {512 * n | n. 1 \<le> n \<and> n \<le> 8}" by (auto intro: exI[of _ 1])
  then show ?thesis by (simp add: pc_accepts_def ex_pcx_dev ex_blk_fields ex_disk_def)
qed

lemma ex_get:
  "\<exists>p t data. pc_get_page (Some []) 0 0 512 (x_pc ex_pcx) = Some (Some p, t) \<and> hash_find 0 0 t = Some (Some p) \<and> pc_blk t = ex_blk \<and>
    pcx_reach (ex_pcx\<lparr> x_pc := t, x_ref := (x_ref ex_pcx)(p := x_ref ex_pcx p + 1) \<rparr>) \<and>
    pg_data (pg t p) = Some data \<and> 512 \<le> length data \<and> pg_block_size (pg t p) = 512"
proof -
  have d: "sector_disk ram_sec (bk_dev ex_blk (blk_root 0 ex_blk))" using ex_sector_disk by (simp add: ex_blk_fields)
  have ok: "pcx_ok ex_pcx" by (rule pcx_reach_ok[OF ex_pcx_reach])
  have free: "\<exists>i < PC_MAX_PAGES. pg_pin (pg (x_pc ex_pcx) i) = 0"
    by (rule exI[of _ 0]) (simp add: ex_pcx_page PC_MAX_PAGES_def page_zero_def)
  obtain p t data where g: "pc_get_page (Some []) 0 0 512 (x_pc ex_pcx) = Some (Some p, t)" "hash_find 0 0 t = Some (Some p)" "pc_blk t = ex_blk"
      "pg_data (pg t p) = Some data" "512 \<le> length data" "pg_block_size (pg t p) = 512"
    using get_page_content[OF ok ex_pcx_empty, of 0 0 512 0 ram_sec "Some []"] d free by (auto simp: ex_pcx_blk ex_pcx_accepts ex_pcx_dev)
  from get_page_steps[OF ex_pcx_reach g(1)] g show ?thesis by (intro exI conjI) simp_all
qed

text \<open>
  C1: In every state that threads using the page cache can reach, the cache is consistent. The use
  list and the hash chains are proper linked lists of exactly the valid pages, no two of which have
  the same device and block; so a lookup finds every valid page. A page that a caller holds a
  reference to is in the table, has its buffer and is pinned, so it is not evicted or freed. A page
  is dirty only while a thread that has announced to write it back (\<open>x_wr\<close>) has it pinned.
\<close>

theorem pagecache_sound:
  assumes "pcx_reach x"
  shows "pcx_ok x \<and>
    (\<forall>i < PC_MAX_PAGES. pvalid (x_pc x) i \<longrightarrow> hash_find (pg_dev (pg (x_pc x) i)) (pg_block_no (pg (x_pc x) i)) (x_pc x) = Some (Some i)) \<and>
    (\<forall>i. 0 < x_ref x i \<longrightarrow> i < PC_MAX_PAGES \<and> pvalid (x_pc x) i \<and> pg_data (pg (x_pc x) i) \<noteq> None \<and> 0 < pg_pin (pg (x_pc x) i)) \<and>
    (\<forall>i < PC_MAX_PAGES. pg_has PC_FLAG_DIRTY (pg (x_pc x) i) \<longrightarrow> i \<in> set (x_wr x) \<and> 0 < pg_pin (pg (x_pc x) i))"
proof (intro conjI allI impI)
  have ok: "pcx_ok x" by (rule pcx_reach_ok[OF assms])
  obtain ll hl where r: "pc_rep (x_pc x) ll hl" using pcx_okD[OF ok] by metis
  show "pcx_ok x" by (rule ok)
  show "hash_find (pg_dev (pg (x_pc x) i)) (pg_block_no (pg (x_pc x) i)) (x_pc x) = Some (Some i)" if "i < PC_MAX_PAGES" "pvalid (x_pc x) i" for i
    by (rule hash_find_Some[OF r that])
  fix i
  { assume ref: "0 < x_ref x i"
    have b: "i < PC_MAX_PAGES" "pvalid (x_pc x) i" using busy_slot[OF ok, of i] ref by auto
    then show "i < PC_MAX_PAGES" "pvalid (x_pc x) i" "pg_data (pg (x_pc x) i) \<noteq> None" "0 < pg_pin (pg (x_pc x) i)"
      using x_slotD(3,6)[OF ok b(1)] ref by auto }
  assume i: "i < PC_MAX_PAGES" "pg_has PC_FLAG_DIRTY (pg (x_pc x) i)"
  have "0 < count_list (x_wr x) i" by (rule x_slotD(4)[OF ok i])
  then show "i \<in> set (x_wr x)" "0 < pg_pin (pg (x_pc x) i)" using x_slotD(3)[OF ok i(1)] count_list_0_iff[of "x_wr x" i] by auto
qed

theorem pagecache_sound_witness:
  "\<exists>p t. pc_get_page (Some []) 0 0 512 (x_pc ex_pcx) = Some (Some p, t) \<and> p < PC_MAX_PAGES \<and> pvalid t p \<and> 0 < pg_pin (pg t p)"
proof -
  obtain p t where g: "pc_get_page (Some []) 0 0 512 (x_pc ex_pcx) = Some (Some p, t)" using ex_get by blast
  from get_page_steps[OF ex_pcx_reach this] have "pcx_reach (ex_pcx\<lparr> x_pc := t, x_ref := (x_ref ex_pcx)(p := x_ref ex_pcx p + 1) \<rparr>)" by simp
  from pagecache_sound[OF this] g show ?thesis by auto
qed

definition ref_add :: "nat \<Rightarrow> ('hw, 's) pc \<Rightarrow> ('hw, 's) pcx \<Rightarrow> ('hw, 's) pcx" where
  "ref_add p t x = x\<lparr> x_pc := t, x_ref := (x_ref x)(p := x_ref x p + 1) \<rparr>"

text \<open>
  C29: Every operation of the page cache returns in every reachable state, although its loops follow
  pointers and have no counter, and leaves a consistent cache. Getting a page, in one go, gives either
  no page or one to which the caller now has a reference. Each of its four parts (lookup, taking a
  slot, filling it, inserting the page), between which other threads run, returns and keeps the cache
  consistent too; a slot that was taken or filled is the caller's until the next part, and filling
  reads from a registered device or, when none is given, from the boot device. Marking a page dirty, flushing a device and
  invalidating a block or a device change no reference. Giving a page back returns always; the cache
  stays consistent when the caller has a reference to the page, which it loses. Memory for a new
  buffer may or may not be there.
\<close>

theorem pagecache_returns:
  assumes "pcx_reach x"
  shows "(\<exists>r t. pc_get_page fresh dev blk bs (x_pc x) = Some (r, t) \<and> pcx_ok (case r of None \<Rightarrow> x\<lparr> x_pc := t \<rparr> | Some p \<Rightarrow> ref_add p t x)) \<and>
    (\<exists>r t. pc_get_lookup dev blk (x_pc x) = Some (r, t) \<and> pcx_ok (case r of None \<Rightarrow> x\<lparr> x_pc := t \<rparr> | Some p \<Rightarrow> ref_add p t x)) \<and>
    (\<exists>r t. pc_get_alloc dev blk bs (x_pc x) = Some (r, t) \<and>
       pcx_ok (case r of None \<Rightarrow> x\<lparr> x_pc := t \<rparr> | Some p \<Rightarrow> x\<lparr> x_pc := t, x_new := p # x_new x \<rparr>)) \<and>
    (\<forall>p \<in> set (x_new x). \<forall>bd. (\<forall>d. bd = Some d \<longrightarrow> d < BLKDEV_SLOTS \<and> bk_used (pc_blk (x_pc x)) ! d) \<longrightarrow>
       (\<exists>r t. pc_get_fill fresh p bd (x_pc x) = Some (r, t) \<and>
          pcx_ok (x\<lparr> x_pc := t, x_new := remove1 p (x_new x), x_full := (if r then p # x_full x else x_full x) \<rparr>))) \<and>
    (\<forall>p \<in> set (x_full x). \<exists>q t. pc_get_insert p (x_pc x) = Some (q, t) \<and> pcx_ok (x\<lparr> x_pc := t, x_full := remove1 p (x_full x), x_ref := (x_ref x)(q := x_ref x q + 1) \<rparr>)) \<and>
    (\<exists>t. pc_mark_dirty dev blk (x_pc x) = Some t \<and> pcx_ok (x\<lparr> x_pc := t \<rparr>)) \<and>
    (\<exists>t. pc_put_page dev blk (x_pc x) = Some t \<and> (\<forall>p. hash_find dev blk (x_pc x) = Some (Some p) \<and> 0 < x_ref x p \<longrightarrow>
       pcx_ok (x\<lparr> x_pc := t, x_ref := (x_ref x)(p := x_ref x p - 1) \<rparr>))) \<and>
    (\<exists>t. pc_flush_dev dev (x_pc x) = Some t \<and> pcx_ok (x\<lparr> x_pc := t \<rparr>)) \<and>
    (\<exists>t. pc_invalidate_block dev blk (x_pc x) = Some t \<and> pcx_ok (x\<lparr> x_pc := t \<rparr>)) \<and>
    (\<exists>t. pc_invalidate_dev dev (x_pc x) = Some t \<and> pcx_ok (x\<lparr> x_pc := t \<rparr>))"
proof (intro conjI ballI allI impI)
  note ok = pcx_reach_ok[OF assms]
  show "\<exists>r t. pc_get_page fresh dev blk bs (x_pc x) = Some (r, t) \<and> pcx_ok (case r of None \<Rightarrow> x\<lparr> x_pc := t \<rparr> | Some p \<Rightarrow> ref_add p t x)"
    using get_page_ok[OF ok] unfolding ref_add_def .
  show "\<exists>r t. pc_get_lookup dev blk (x_pc x) = Some (r, t) \<and> pcx_ok (case r of None \<Rightarrow> x\<lparr> x_pc := t \<rparr> | Some p \<Rightarrow> ref_add p t x)"
    using ok by (cases rule: lookup_ok[where dev = dev and blk = blk]) (auto simp: ref_add_def)
  show "\<exists>r t. pc_get_alloc dev blk bs (x_pc x) = Some (r, t) \<and>
      pcx_ok (case r of None \<Rightarrow> x\<lparr> x_pc := t \<rparr> | Some p \<Rightarrow> x\<lparr> x_pc := t, x_new := p # x_new x \<rparr>)"
    using ok by (cases rule: get_alloc_ok[where dev = dev and blk = blk and bs = bs]) (auto simp: ok)
  show "\<exists>r t. pc_get_fill fresh p bd (x_pc x) = Some (r, t) \<and>
      pcx_ok (x\<lparr> x_pc := t, x_new := remove1 p (x_new x), x_full := (if r then p # x_full x else x_full x) \<rparr>)"
    if "p \<in> set (x_new x)" "\<forall>d. bd = Some d \<longrightarrow> d < BLKDEV_SLOTS \<and> bk_used (pc_blk (x_pc x)) ! d" for p bd
    using ok that by (cases rule: fill_ok[where fresh = fresh]) auto
  show "\<exists>q t. pc_get_insert p (x_pc x) = Some (q, t) \<and> pcx_ok (x\<lparr> x_pc := t, x_full := remove1 p (x_full x), x_ref := (x_ref x)(q := x_ref x q + 1) \<rparr>)" if "p \<in> set (x_full x)" for p
    using ok that by (cases rule: insert_ok) (auto simp: ref_add_def)
  show "\<exists>t. pc_mark_dirty dev blk (x_pc x) = Some t \<and> pcx_ok (x\<lparr> x_pc := t \<rparr>)" by (rule mark_dirty_ok[OF ok])
  show "\<exists>t. pc_put_page dev blk (x_pc x) = Some t \<and> (\<forall>p. hash_find dev blk (x_pc x) = Some (Some p) \<and> 0 < x_ref x p \<longrightarrow>
      pcx_ok (x\<lparr> x_pc := t, x_ref := (x_ref x)(p := x_ref x p - 1) \<rparr>))"
    using put_returns[OF ok, of dev blk] put_ok[OF ok, of dev blk] by fastforce
  show "\<exists>t. pc_flush_dev dev (x_pc x) = Some t \<and> pcx_ok (x\<lparr> x_pc := t \<rparr>)" by (rule flush_dev_ok[OF ok])
  show "\<exists>t. pc_invalidate_block dev blk (x_pc x) = Some t \<and> pcx_ok (x\<lparr> x_pc := t \<rparr>)" by (rule invalidate_ok[OF ok])
  show "\<exists>t. pc_invalidate_dev dev (x_pc x) = Some t \<and> pcx_ok (x\<lparr> x_pc := t \<rparr>)" by (rule invalidate_dev_ok[OF ok])
qed

theorem pagecache_returns_witness: "\<exists>t. pc_invalidate_dev 0 (x_pc ex_pcx) = Some t"
  using pagecache_returns[OF ex_pcx_reach, of None 0 0 512] by blast

text \<open>
  C18: The page cache implements least-recently-used replacement. Following the pointers from the
  head gives a list without repetition of exactly the valid pages. A hit moves the page to the front
  and a new page is put in front. Eviction takes the last page in this list that is not pinned,
  removes it and keeps the order of the others; when all are pinned it changes nothing. It never has
  to write a page back.
\<close>

theorem pagecache_lru:
  assumes "pcx_reach x"
  shows "distinct (lru_order (x_pc x)) \<and> set (lru_order (x_pc x)) = {i. i < PC_MAX_PAGES \<and> pvalid (x_pc x) i} \<and>
    (\<forall>p t. pc_get_lookup dev blk (x_pc x) = Some (Some p, t) \<longrightarrow> lru_order t = p # remove1 p (lru_order (x_pc x))) \<and>
    (\<forall>p t. p \<in> set (x_full x) \<longrightarrow> pc_get_insert p (x_pc x) = Some (p, t) \<longrightarrow> lru_order t = p # lru_order (x_pc x)) \<and>
    (case List.find (\<lambda>i. pg_pin (pg (x_pc x) i) = 0) (rev (lru_order (x_pc x))) of
       None \<Rightarrow> evict_one (x_pc x) = Some (None, x_pc x)
     | Some p \<Rightarrow> \<exists>t. evict_one (x_pc x) = Some (Some p, t) \<and> lru_order t = remove1 p (lru_order (x_pc x)) \<and> pc_blk t = pc_blk (x_pc x))"
proof (intro conjI allI impI)
  let ?s = "x_pc x"
  have ok: "pcx_ok x" by (rule pcx_reach_ok[OF assms])
  obtain ll hl where r: "pc_rep ?s ll hl" using pcx_okD[OF ok] by metis
  have o: "lru_order ?s = ll" by (rule lru_order_rep[OF r])
  note l = lru_repD(1,2)[OF pc_repD(2)[OF r]]
  show "distinct (lru_order ?s)" using l(1) o by simp
  show "set (lru_order ?s) = {i. i < PC_MAX_PAGES \<and> pvalid ?s i}" using l(2) pc_repD(1,4)[OF r] o by auto
  show "lru_order t = p # remove1 p (lru_order ?s)" if "pc_get_lookup dev blk ?s = Some (Some p, t)" for p t
    using ok
  proof (cases rule: lookup_ok[where dev = dev and blk = blk])
    case (hit q u)
    then show ?thesis using lru_order_rep[OF hit(4)[OF r]] that o by simp
  qed (use that in simp)
  show "lru_order t = p # lru_order ?s" if p: "p \<in> set (x_full x)" "pc_get_insert p ?s = Some (p, t)" for p t
    using ok p(1)
  proof (cases rule: insert_ok)
    case (old q u)
    have "q = p" using old(1) p(2) by simp
    then show ?thesis using find_validD(2)[OF r old(2)] p(1) new_slot(2)[OF ok, of p] by blast
  next
    case (new u)
    then show ?thesis using new(7)[OF r] lru_order_rep p(2) o by auto
  qed
  show "case List.find (\<lambda>i. pg_pin (pg ?s i) = 0) (rev (lru_order ?s)) of
       None \<Rightarrow> evict_one ?s = Some (None, ?s)
     | Some p \<Rightarrow> \<exists>t. evict_one ?s = Some (Some p, t) \<and> lru_order t = remove1 p (lru_order ?s) \<and> pc_blk t = pc_blk ?s"
    using evict_one_spec[OF ok r] lru_order_rep unfolding o by (fastforce split: option.splits)
qed

theorem pagecache_lru_witness: "lru_order (x_pc ex_pcx) = [] \<and> evict_one (x_pc ex_pcx) = Some (None, x_pc ex_pcx)"
proof -
  have e: "lru_order (x_pc ex_pcx) = []"
    by (simp add: ex_pcx_def lru_order_def pc_init_def PC_MAX_PAGES_def numeral_eq_Suc)
  then show ?thesis using pagecache_lru[OF ex_pcx_reach, of 0 0] by simp
qed

text \<open>
  C23: Getting a block that is not cached reads it from its device. For an accepted block of a device
  whose callbacks act on an array of sectors, when a page buffer can be had and some page is not
  pinned, the call returns a page that later lookups find, whose first bytes are the bytes of the
  disk from the start of the block on, and it changes nothing on the disk.
\<close>

theorem pc_get_page_reads_block:
  assumes "pcx_reach x" "hash_find dev blk (x_pc x) = Some None" "pc_accepts dev blk bs (pc_blk (x_pc x))"
    and "blkdev_by_id dev (pc_blk (x_pc x)) = Some d" "sector_disk sec (bk_dev (pc_blk (x_pc x)) (blk_root d (pc_blk (x_pc x))))"
    and "fresh \<noteq> None" "\<exists>i < PC_MAX_PAGES. pg_pin (pg (x_pc x) i) = 0"
  shows "let b = pc_blk (x_pc x); A = blk_base d b + unat blk * unat bs in
    \<exists>p t data. pc_get_page fresh dev blk bs (x_pc x) = Some (Some p, t) \<and> hash_find dev blk t = Some (Some p) \<and> pc_blk t = b \<and>
      pg_data (pg t p) = Some data \<and> take (unat bs) data = map (disk_byte sec (bk_hw b)) [A ..< A + unat bs]"
  using get_page_content[OF pcx_reach_ok[OF assms(1)] assms(2-7)] unfolding Let_def by blast

theorem pc_get_page_reads_block_witness:
  "\<exists>p t data. pc_get_page (Some []) 0 0 512 (x_pc ex_pcx) = Some (Some p, t) \<and> pg_data (pg t p) = Some data \<and> data ! 510 = 0x55"
proof -
  have d: "sector_disk ram_sec (bk_dev ex_blk (blk_root 0 ex_blk))" using ex_sector_disk by (simp add: ex_blk_fields)
  have free: "\<exists>i < PC_MAX_PAGES. pg_pin (pg (x_pc ex_pcx) i) = 0"
    by (rule exI[of _ 0]) (simp add: ex_pcx_page PC_MAX_PAGES_def page_zero_def)
  obtain p t data where g: "pc_get_page (Some []) 0 0 512 (x_pc ex_pcx) = Some (Some p, t)" "pg_data (pg t p) = Some data"
      "take 512 data = map (disk_byte ram_sec ex_ram) [0 ..< 512]"
    using pc_get_page_reads_block[OF ex_pcx_reach ex_pcx_empty, of 0 0 512 0 ram_sec "Some []"] d free
    by (auto simp: ex_pcx_blk ex_pcx_accepts ex_pcx_dev Let_def ex_span(2) ex_blk_fields(5))
  have "disk_byte ram_sec ex_ram 510 = 0x55"
    by (simp add: disk_byte_def ram_sec_def ex_ram_def ex_mbr_def nth_append)
  then have "take 512 data ! 510 = 0x55" unfolding g(3) by simp
  then show ?thesis using g(1,2) by auto
qed

text \<open>
  C24: Marking a cached block dirty stores it. For a block of its device whose callbacks act on an
  array of sectors, a call of \<open>pc_mark_dirty\<close> that no other thread interrupts puts the bytes of the page on the disk at the place of the block,
  changes no other byte of the disk, leaves the contents and the pins of all pages as they were and
  the page clean.
\<close>

theorem pc_mark_dirty_stores_block:
  assumes "pcx_reach x" "hash_find dev blk (x_pc x) = Some (Some p)" "pg_data (pg (x_pc x) p) = Some data"
    and "pg_block_size (pg (x_pc x) p) = bs" "unat bs \<le> length data" "pc_accepts dev blk bs (pc_blk (x_pc x))"
    and "blkdev_by_id dev (pc_blk (x_pc x)) = Some d" "sector_disk sec (bk_dev (pc_blk (x_pc x)) (blk_root d (pc_blk (x_pc x))))"
  shows "let b = pc_blk (x_pc x); A = blk_base d b + unat blk * unat bs in
    \<exists>t h. pc_mark_dirty dev blk (x_pc x) = Some t \<and> pc_blk t = b\<lparr> bk_hw := h \<rparr> \<and> \<not> pg_has PC_FLAG_DIRTY (pg t p) \<and>
      (\<forall>i. pg_data (pg t i) = pg_data (pg (x_pc x) i) \<and> pg_pin (pg t i) = pg_pin (pg (x_pc x) i)) \<and>
      (\<forall>k < 2 ^ 32 * 512. disk_byte sec h k = (if A \<le> k \<and> k < A + unat bs then data ! (k - A) else disk_byte sec (bk_hw b) k))"
  using mark_dirty_content[OF pcx_reach_ok[OF assms(1)] assms(2-8)] unfolding Let_def .

theorem pc_mark_dirty_stores_block_witness:
  "\<exists>p s data t h. pc_get_page (Some []) 0 0 512 (x_pc ex_pcx) = Some (Some p, s) \<and> pg_data (pg s p) = Some data \<and>
     pc_mark_dirty 0 0 s = Some t \<and> pc_blk t = ex_blk\<lparr> bk_hw := h \<rparr> \<and> disk_byte ram_sec h 5 = data ! 5"
proof -
  have d: "sector_disk ram_sec (bk_dev ex_blk (blk_root 0 ex_blk))" using ex_sector_disk by (simp add: ex_blk_fields)
  obtain p s data where g: "pc_get_page (Some []) 0 0 512 (x_pc ex_pcx) = Some (Some p, s)" "hash_find 0 0 s = Some (Some p)" "pc_blk s = ex_blk"
      "pcx_reach (ex_pcx\<lparr> x_pc := s, x_ref := (x_ref ex_pcx)(p := x_ref ex_pcx p + 1) \<rparr>)"
      "pg_data (pg s p) = Some data" "512 \<le> length data" "pg_block_size (pg s p) = 512"
    using ex_get by blast
  obtain t h where t: "pc_mark_dirty 0 0 s = Some t" "pc_blk t = ex_blk\<lparr> bk_hw := h \<rparr>"
    "\<forall>k < 2 ^ 32 * 512. disk_byte ram_sec h k = (if k < 512 then data ! k else disk_byte ram_sec (bk_hw ex_blk) k)"
    using pc_mark_dirty_stores_block[OF g(4), of 0 0 p data 512 0 ram_sec] g d ex_pcx_accepts ex_pcx_dev by (auto simp: Let_def ex_span(2))
  have "disk_byte ram_sec h 5 = data ! 5" using t(3) by simp
  then show ?thesis using g(1,5) t(1,2) by blast
qed

text \<open>
  C32: Getting a block fails exactly in three cases, and then takes no page. A block that is not
  cached is refused when its size is not 512 to 4096 bytes in steps of 512 or when its last byte, in
  exact arithmetic, is beyond the end of the device (of the boot device when no device has the number), and when all pages are pinned; both leave the
  cache as it was but for the number of misses. Otherwise the call fails only when no memory for a
  buffer is left, and then every reference and the consistency of the cache are kept.
\<close>

theorem pc_get_page_fails:
  assumes "pcx_reach x" "hash_find dev blk (x_pc x) = Some None"
  shows "let res = pc_get_page fresh dev blk bs (x_pc x); acc = pc_accepts dev blk bs (pc_blk (x_pc x));
      full = (\<forall>i < PC_MAX_PAGES. 0 < pg_pin (pg (x_pc x) i)) in
    (\<not> acc \<or> full \<longrightarrow> res = Some (None, (x_pc x)\<lparr> pc_misses := pc_misses (x_pc x) + 1 \<rparr>)) \<and>
    (acc \<and> \<not> full \<and> fresh \<noteq> None \<longrightarrow> (\<exists>p t. res = Some (Some p, t))) \<and>
    (\<forall>t. res = Some (None, t) \<longrightarrow> pcx_ok (x\<lparr> x_pc := t \<rparr>))"
proof -
  note ok = pcx_reach_ok[OF assms(1)]
  have none: "pcx_ok (x\<lparr> x_pc := t \<rparr>)" if "pc_get_page fresh dev blk bs (x_pc x) = Some (None, t)" for t
    using get_page_ok[OF ok, of fresh dev blk bs] that by auto
  have full: "pc_get_page fresh dev blk bs (x_pc x) = Some (None, (x_pc x)\<lparr> pc_misses := pc_misses (x_pc x) + 1 \<rparr>)"
    if "\<forall>i < PC_MAX_PAGES. 0 < pg_pin (pg (x_pc x) i)"
    by (rule get_page_full[OF ok assms(2)]) (use that in blast)
  from ok assms(2) show ?thesis
  proof (cases rule: get_page_miss[where bs = bs and fresh = fresh])
    case refused
    then show ?thesis using none by (simp add: Let_def)
  next
    case full
    then show ?thesis using none by (simp add: Let_def)
  next
    case (no_memory t)
    then show ?thesis using none full by (auto simp: Let_def)
  next
    case (cached p t d data)
    then show ?thesis using none full by (auto simp: Let_def)
  qed
qed

theorem pc_get_page_fails_witness:
  "pc_get_page (Some []) 0 0 100 (x_pc ex_pcx) = Some (None, (x_pc ex_pcx)\<lparr> pc_misses := pc_misses (x_pc ex_pcx) + 1 \<rparr>)"
proof -
  have "\<not> pc_accepts 0 0 100 ex_blk" by (auto simp: pc_accepts_def)
  then show ?thesis using pc_get_page_fails[OF ex_pcx_reach ex_pcx_empty, of "Some []" 0 0 100] by (simp add: Let_def ex_pcx_blk)
qed

text \<open>
  Two writers of one page. The second one changes the page and marks it dirty while the first is
  still writing the old sectors; when the first then clears the flag, the second finds the page clean
  and writes nothing, so its change does not reach the disk.
\<close>

lemma second_writer_skips:
  assumes "pc_dirty_begin dev blk s = Some (Some p, t)" "p < length (pc_pool t)"
  shows "writeback p (clear_dirty p t) = Some (clear_dirty p t)"
  using assms(2) by (simp add: writeback_def Let_def clear_dirty_def pg_has_def pg_upd_pg)

end
