(* ===== verification/Unixsock.thy ===== *)
theory Unixsock
  imports Usermem Fifo Links
begin

text \<open>
  Local stream sockets, \<open>Cact/kernel/core/syscall/sock/unix_sock.c\<close>, with \<open>alloc_fd\<close> of
  \<open>Cact/kernel/core/syscall/helper.c\<close> and what it uses of the file layer (\<open>file_alloc\<close>,
  \<open>file_unref\<close> and \<open>vfs_make_abs\<close> of \<open>Cact/fs/rust_vfs/src/file.rs\<close>).

  Endpoints and nodes are heap objects under addresses that are not used again; \<open>us_bad\<close> is set when
  the code touches an object that has been freed or a registry that was never allocated, and when the nesting of \<open>ep_destroy\<close> gets deeper
  than the model follows. References to other files, as passed by \<open>sendmsg\<close>, are counted in
  \<open>us_frefs\<close>. The results of \<open>kmalloc\<close> in a call are given by \<open>km\<close>, in order. The mutexes are the
  atomicity of one round of a call between two sleeps.
\<close>

section \<open>State\<close>

definition UNIX_PATH_MAX :: nat where "UNIX_PATH_MAX = 108"
definition UNIX_BUF_SIZE :: nat where "UNIX_BUF_SIZE = 4096"
definition UNIX_BACKLOG :: nat where "UNIX_BACKLOG = 4"
definition UNIX_BOUND_MAX :: nat where "UNIX_BOUND_MAX = 32"
definition UNIX_FD_QUEUE_MAX :: nat where "UNIX_FD_QUEUE_MAX = 16"
definition MAX_FD :: nat where "MAX_FD = 256"

abbreviation (input) ENOENT :: int where "ENOENT \<equiv> 2"
abbreviation (input) EMFILE :: int where "EMFILE \<equiv> 24"
abbreviation (input) EPIPE :: int where "EPIPE \<equiv> 32"
abbreviation (input) ENOTSOCK :: int where "ENOTSOCK \<equiv> 88"
abbreviation (input) ENOPROTOOPT :: int where "ENOPROTOOPT \<equiv> 92"
abbreviation (input) EOPNOTSUPP :: int where "EOPNOTSUPP \<equiv> 95"
abbreviation (input) EADDRINUSE :: int where "EADDRINUSE \<equiv> 98"
abbreviation (input) ECONNREFUSED :: int where "ECONNREFUSED \<equiv> 111"
abbreviation (input) VFS_POLLHUP :: u32 where "VFS_POLLHUP \<equiv> 16"

datatype uep_kind = UEP_NONE | UEP_BOUND | UEP_LISTEN | UEP_CONN

datatype ufile = FSock nat | FOther nat

type_synonym ufds = "ufile option list"

record uep =
  ue_kind :: uep_kind
  ue_used :: bool
  ue_shut_rd :: bool
  ue_shut_wr :: bool
  ue_eof :: bool
  ue_peer_no_read :: bool
  ue_nonblock :: bool
  ue_peer :: "nat option"
  ue_refs :: nat
  ue_rx :: bytes
  ue_rx_len :: nat
  ue_rx_off :: nat
  ue_fdq :: "ufile list"
  ue_bound :: bytes
  ue_backlog :: nat
  ue_pend_head :: "nat option"
  ue_pend_tail :: "nat option"
  ue_pend_next :: "nat option"
  ue_pend_count :: nat
  ue_sndbuf :: u32
  ue_rcvbuf :: u32
  ue_node :: "nat option"

record us =
  us_ep :: "nat \<Rightarrow> uep option"
  us_node :: "nat \<Rightarrow> nat option option"
  us_next :: nat
  us_bound :: "(bytes \<times> nat) option list"
  us_ready :: bool
  us_mem :: umem
  us_sig :: bool
  us_sigpipe :: nat
  us_frefs :: "ufile \<Rightarrow> int"
  us_bad :: bool

definition uep_new :: uep where
  "uep_new = \<lparr> ue_kind = UEP_NONE, ue_used = True, ue_shut_rd = False, ue_shut_wr = False, ue_eof = False,
     ue_peer_no_read = False, ue_nonblock = False, ue_peer = None, ue_refs = 0, ue_rx = replicate UNIX_BUF_SIZE 0,
     ue_rx_len = 0, ue_rx_off = 0, ue_fdq = [], ue_bound = [], ue_backlog = UNIX_BACKLOG, ue_pend_head = None,
     ue_pend_tail = None, ue_pend_next = None, ue_pend_count = 0, ue_sndbuf = 0, ue_rcvbuf = 0, ue_node = None \<rparr>"

definition us_fault :: "us \<Rightarrow> us" where "us_fault s = s\<lparr> us_bad := True \<rparr>"

definition ep_upd :: "nat \<Rightarrow> (uep \<Rightarrow> uep) \<Rightarrow> us \<Rightarrow> us" where
  "ep_upd e f s = (case us_ep s e of None \<Rightarrow> us_fault s | Some x \<Rightarrow> s\<lparr> us_ep := (us_ep s)(e \<mapsto> f x) \<rparr>)"

definition ep_free :: "nat \<Rightarrow> us \<Rightarrow> us" where "ep_free e s = s\<lparr> us_ep := (us_ep s)(e := None) \<rparr>"

definition ep_dead :: "nat \<Rightarrow> us \<Rightarrow> bool" where
  "ep_dead e s \<longleftrightarrow> (case us_ep s e of None \<Rightarrow> False | Some x \<Rightarrow> ue_refs x = 0)"

definition fref_add :: "int \<Rightarrow> ufile \<Rightarrow> us \<Rightarrow> us" where
  "fref_add d f s = s\<lparr> us_frefs := (us_frefs s)(f := us_frefs s f + d) \<rparr>"

section \<open>Endpoints\<close>

definition ep_alloc :: "bool \<Rightarrow> us \<Rightarrow> nat option \<times> us" where
  "ep_alloc ok s =
     (if ok then (Some (us_next s), s\<lparr> us_ep := (us_ep s)(us_next s \<mapsto> uep_new), us_next := us_next s + 1 \<rparr>) else (None, s))"

definition ep_link :: "nat \<Rightarrow> nat \<Rightarrow> us \<Rightarrow> us" where
  "ep_link a b s =
     ep_upd b (\<lambda>y. y\<lparr> ue_peer := Some a, ue_refs := ue_refs y + 1 \<rparr>)
       (ep_upd a (\<lambda>x. x\<lparr> ue_peer := Some b, ue_refs := ue_refs x + 1 \<rparr>) s)"

definition ep_unref :: "uep \<Rightarrow> uep" where "ep_unref x = x\<lparr> ue_refs := ue_refs x - 1 \<rparr>"

text \<open>What a peer is told when its other end goes away.\<close>

definition ep_gone :: "uep \<Rightarrow> uep" where
  "ep_gone y = ep_unref (y\<lparr> ue_peer := None, ue_eof := True, ue_peer_no_read := True \<rparr>)"

definition unix_bound_remove :: "nat \<Rightarrow> us \<Rightarrow> us" where
  "unix_bound_remove e s =
     (if \<not> us_ready s then us_fault s else
      case List.find (\<lambda>i. map_option snd (us_bound s ! i) = Some e) [0..<length (us_bound s)] of None \<Rightarrow> s
      | Some i \<Rightarrow> s\<lparr> us_bound := (us_bound s)[i := None] \<rparr>)"

text \<open>
  The loop of \<open>ep_destroy\<close> over the pending endpoints; \<open>put\<close> is \<open>ep_put\<close>. An endpoint is in a queue
  once, so there are no more rounds than addresses given out.
\<close>

fun pend_drop :: "(nat \<Rightarrow> us \<Rightarrow> us) \<Rightarrow> nat \<Rightarrow> nat option \<Rightarrow> us \<Rightarrow> us" where
  "pend_drop put 0 pend s = us_fault s"
| "pend_drop put (Suc k) pend s =
     (case pend of None \<Rightarrow> s
      | Some p \<Rightarrow>
          (case us_ep s p of None \<Rightarrow> us_fault s
           | Some x \<Rightarrow> pend_drop put k (ue_pend_next x) (put p (ep_upd p (\<lambda>x. x\<lparr> ue_pend_next := None \<rparr>) s))))"

definition ep_put_with :: "(nat \<Rightarrow> us \<Rightarrow> us) \<Rightarrow> nat \<Rightarrow> us \<Rightarrow> us" where
  "ep_put_with destroy e s = (let s1 = ep_upd e ep_unref s in if ep_dead e s1 then destroy e s1 else s1)"

primrec ep_destroy_n :: "nat \<Rightarrow> nat \<Rightarrow> us \<Rightarrow> us" where
  "ep_destroy_n 0 = (\<lambda>e s. us_fault s)"
| "ep_destroy_n (Suc k) = (\<lambda>e s.
     case us_ep s e of None \<Rightarrow> us_fault s
     | Some x \<Rightarrow>
         if \<not> ue_used x then s
         else
           let s1 = ep_upd e (\<lambda>x. x\<lparr> ue_used := False, ue_peer := None, ue_pend_head := None, ue_pend_tail := None,
                  ue_pend_count := 0 \<rparr>) s;
               s2 = (if ue_kind x = UEP_BOUND \<or> ue_kind x = UEP_LISTEN then unix_bound_remove e s1 else s1);
               s3 = (case ue_peer x of None \<Rightarrow> s2
                     | Some p \<Rightarrow> let t = ep_upd p ep_gone s2 in if ep_dead p t then ep_destroy_n k p t else t);
               s4 = pend_drop (ep_put_with (ep_destroy_n k)) (us_next s + 1) (ue_pend_head x) s3;
               s5 = fold (fref_add (-1)) (ue_fdq x) s4
           in ep_free e s5)"

definition ep_destroy :: "nat \<Rightarrow> us \<Rightarrow> us" where "ep_destroy = ep_destroy_n 3"

definition ep_put :: "nat \<Rightarrow> us \<Rightarrow> us" where "ep_put = ep_put_with ep_destroy"

definition ep_break :: "nat \<Rightarrow> us \<Rightarrow> us" where
  "ep_break e s =
     (case us_ep s e of None \<Rightarrow> us_fault s
      | Some x \<Rightarrow>
          let s1 = (if ue_peer x \<noteq> None then ep_upd e (\<lambda>x. ep_unref (x\<lparr> ue_peer := None \<rparr>)) s else s);
              dead_self = ep_dead e s1;
              s2 = (case ue_peer x of None \<Rightarrow> s1 | Some p \<Rightarrow> ep_upd p ep_gone s1);
              dead_peer = (case ue_peer x of None \<Rightarrow> False | Some p \<Rightarrow> ep_dead p s2);
              s3 = (if dead_self then ep_destroy e s2 else s2)
          in if dead_peer then ep_destroy (the (ue_peer x)) s3 else s3)"

definition unix_node_close_conn :: "nat \<Rightarrow> us \<Rightarrow> us" where
  "unix_node_close_conn e s =
     (case us_ep s e of None \<Rightarrow> us_fault s
      | Some x \<Rightarrow> ep_put e (if ue_peer x \<noteq> None then ep_break e s else s))"

section \<open>Path registry\<close>

definition unix_sock_init :: "bool \<Rightarrow> us \<Rightarrow> us" where
  "unix_sock_init ok s = (if us_ready s then s else if \<not> ok then s
     else s\<lparr> us_bound := replicate UNIX_BOUND_MAX None, us_ready := True \<rparr>)"

definition c_str :: "bytes \<Rightarrow> bytes" where "c_str bs = takeWhile (\<lambda>c. c \<noteq> 0) bs"

definition vfs_make_abs :: "bytes \<Rightarrow> bytes \<Rightarrow> nat \<Rightarrow> bytes" where
  "vfs_make_abs cwd path mx =
     (let pre = (if take 1 path = [47] then []
                 else let c = take (mx - 2) cwd in if c \<noteq> [] \<and> last c \<noteq> 47 then c @ [47] else c)
      in pre @ take (mx - 1 - length pre) path)"

text \<open>\<open>cwd\<close> is the directory of the calling task, if there is one.\<close>

definition unix_path_canon :: "bytes option \<Rightarrow> bytes \<Rightarrow> nat \<Rightarrow> int + bytes" where
  "unix_path_canon cwd path mx =
     (if path ! 0 = 0 then
        if path ! 1 = 0 then Inl (- EINVAL) else Inr (1 # take (mx - 2) (c_str (drop 1 path)))
      else case cwd of Some d \<Rightarrow> Inr (vfs_make_abs d (c_str path) mx) | None \<Rightarrow> Inr (take (mx - 1) (c_str path)))"

definition unix_bound_insert :: "bytes \<Rightarrow> nat \<Rightarrow> us \<Rightarrow> int \<times> us" where
  "unix_bound_insert path e s =
     (if \<not> us_ready s then (-1, us_fault s)
      else if \<exists>b \<in> set (us_bound s). map_option fst b = Some path then (- EADDRINUSE, s)
      else case List.find (\<lambda>i. us_bound s ! i = None) [0..<length (us_bound s)] of
        None \<Rightarrow> (- EADDRINUSE, s)
      | Some i \<Rightarrow> (0, s\<lparr> us_bound := (us_bound s)[i := Some (take (UNIX_PATH_MAX - 1) path, e)] \<rparr>))"

definition unix_bound_lookup :: "bytes \<Rightarrow> us \<Rightarrow> nat option \<times> us" where
  "unix_bound_lookup path s =
     (if \<not> us_ready s then (None, us_fault s) else
      case List.find (\<lambda>b. map_option fst b = Some path) (us_bound s) of
        Some (Some (p, e)) \<Rightarrow>
          (case us_ep s e of None \<Rightarrow> (None, us_fault s)
           | Some x \<Rightarrow> if ue_used x then (Some e, ep_upd e (\<lambda>x. x\<lparr> ue_refs := ue_refs x + 1 \<rparr>) s) else (None, s))
      | _ \<Rightarrow> (None, s))"

section \<open>Nodes\<close>

definition unix_make_node :: "bool \<Rightarrow> nat \<Rightarrow> us \<Rightarrow> nat option \<times> us" where
  "unix_make_node ok e s =
     (if ok then
        let n = us_next s; s1 = s\<lparr> us_node := (us_node s)(n \<mapsto> Some e), us_next := n + 1 \<rparr>
        in (Some n, ep_upd e (\<lambda>x. x\<lparr> ue_node := Some n, ue_refs := ue_refs x + 1 \<rparr>) s1)
      else (None, s))"

definition ep_from_node :: "nat \<Rightarrow> us \<Rightarrow> nat option" where
  "ep_from_node n s =
     (case us_node s n of Some (Some e) \<Rightarrow>
        (case us_ep s e of Some x \<Rightarrow> if ue_used x then Some e else None | None \<Rightarrow> None)
      | _ \<Rightarrow> None)"

definition unix_sock_is_node :: "nat \<Rightarrow> us \<Rightarrow> bool" where "unix_sock_is_node n s \<longleftrightarrow> us_node s n \<noteq> None"

text \<open>\<open>kfree(node)\<close>, and the assignment \<open>node->priv = NULL\<close> before it.\<close>

definition node_clear :: "nat \<Rightarrow> us \<Rightarrow> us" where
  "node_clear n s = (case us_node s n of None \<Rightarrow> us_fault s | Some _ \<Rightarrow> s\<lparr> us_node := (us_node s)(n \<mapsto> None) \<rparr>)"

definition node_free :: "nat \<Rightarrow> us \<Rightarrow> us" where
  "node_free n s = (case us_node s n of None \<Rightarrow> us_fault s | Some _ \<Rightarrow> s\<lparr> us_node := (us_node s)(n := None) \<rparr>)"

definition unix_node_close :: "nat \<Rightarrow> us \<Rightarrow> us" where
  "unix_node_close n s =
     (case us_node s n of None \<Rightarrow> us_fault s
      | Some priv \<Rightarrow>
          let s1 = node_clear n s;
              s2 = (case priv of None \<Rightarrow> s1
                    | Some e \<Rightarrow>
                        (case us_ep s1 e of None \<Rightarrow> us_fault s1
                         | Some x \<Rightarrow>
                             if ue_used x then
                               if ue_kind x = UEP_CONN then unix_node_close_conn e s1 else ep_destroy e s1
                             else s1))
          in node_free n s2)"

text \<open>
  \<open>alloc_fd\<close>: when the file object is allocated but the table is full, dropping the file closes the
  node.
\<close>

definition fd_free :: "ufds \<Rightarrow> nat option" where
  "fd_free fds = List.find (\<lambda>i. fds ! i = None) [3..<MAX_FD]"

definition alloc_fd :: "bool \<Rightarrow> nat \<Rightarrow> ufds \<times> us \<Rightarrow> int \<times> ufds \<times> us" where
  "alloc_fd ok n = (\<lambda>(fds, s).
     if \<not> ok then (-1, fds, s)
     else case fd_free fds of
       Some i \<Rightarrow> (int i, fds[i := Some (FSock n)], s)
     | None \<Rightarrow> (-1, fds, unix_node_close n s))"

text \<open>\<open>file_unref\<close> of a descriptor that a call has just installed.\<close>

definition close_new_fd :: "nat \<Rightarrow> ufds \<times> us \<Rightarrow> ufds \<times> us" where
  "close_new_fd i = (\<lambda>(fds, s).
     (fds[i := None], case fds ! i of Some (FSock n) \<Rightarrow> unix_node_close n s | _ \<Rightarrow> s))"

section \<open>Receive buffer and descriptor queue\<close>

definition ep_push1 :: "byte \<Rightarrow> uep \<Rightarrow> uep" where
  "ep_push1 c x = x\<lparr> ue_rx := (ue_rx x)[(ue_rx_off x + ue_rx_len x) mod UNIX_BUF_SIZE := c], ue_rx_len := ue_rx_len x + 1 \<rparr>"

definition ep_push :: "bytes \<Rightarrow> uep \<Rightarrow> uep" where "ep_push src x = fold ep_push1 src x"

fun ep_pop_loop :: "nat \<Rightarrow> uep \<Rightarrow> bytes \<times> uep" where
  "ep_pop_loop 0 x = ([], x)"
| "ep_pop_loop (Suc k) x =
     (let (bs, x') = ep_pop_loop k (x\<lparr> ue_rx_off := (ue_rx_off x + 1) mod UNIX_BUF_SIZE \<rparr>)
      in (ue_rx x ! ue_rx_off x # bs, x'))"

definition ep_pop :: "nat \<Rightarrow> uep \<Rightarrow> bytes \<times> uep" where
  "ep_pop mx x =
     (let n = min (ue_rx_len x) mx; (bs, x1) = ep_pop_loop n x; x2 = x1\<lparr> ue_rx_len := ue_rx_len x1 - n \<rparr>
      in (bs, if ue_rx_len x2 = 0 then x2\<lparr> ue_rx_off := 0 \<rparr> else x2))"

definition ep_fdq_push :: "ufile list \<Rightarrow> uep \<Rightarrow> int \<times> uep" where
  "ep_fdq_push files x =
     (if length (ue_fdq x) + length files > UNIX_FD_QUEUE_MAX then (- EAGAIN, x) else (0, x\<lparr> ue_fdq := ue_fdq x @ files \<rparr>))"

definition ep_fdq_pop :: "nat \<Rightarrow> uep \<Rightarrow> ufile list \<times> uep" where
  "ep_fdq_pop n x = (take n (ue_fdq x), x\<lparr> ue_fdq := drop n (ue_fdq x) \<rparr>)"

section \<open>Reading and writing\<close>

definition c_int :: "nat \<Rightarrow> int" where "c_int n = sint (word_of_nat n :: u32)"

definition or_err :: "nat \<Rightarrow> int \<Rightarrow> int" where "or_err written err = (if written \<noteq> 0 then c_int written else err)"

definition unix_read_step :: "u32 \<Rightarrow> u32 \<Rightarrow> nat \<Rightarrow> us \<Rightarrow> (int \<times> us) + us" where
  "unix_read_step buf sz e s =
     (case us_ep s e of None \<Rightarrow> Inl (-1, us_fault s)
      | Some x \<Rightarrow>
          if ue_shut_rd x then Inl (0, s)
          else if ue_rx_len x > 0 then
            (let (bs, x') = ep_pop (unat sz) x
             in Inl (int (length bs), (ep_upd e (\<lambda>_. x') s)\<lparr> us_mem := mem_write (us_mem s) buf bs \<rparr>))
          else if ue_eof x then Inl (0, s)
          else if ue_nonblock x then Inl (- EAGAIN, s)
          else if us_sig s then Inl (- EINTR, s)
          else if \<not> validate_user_ptr buf sz then Inl (-1, s)
          else Inr s)"

definition unix_node_read :: "nat \<Rightarrow> u32 \<Rightarrow> u32 \<Rightarrow> (us \<Rightarrow> us) list \<Rightarrow> us \<Rightarrow> (int \<times> us) + us" where
  "unix_node_read n sz buf others s =
     (case ep_from_node n s of None \<Rightarrow> Inl (-1, s)
      | Some e \<Rightarrow>
          if sz = 0 then Inl (-1, s)
          else if map_option ue_kind (us_ep s e) \<noteq> Some UEP_CONN then Inl (-1, s)
          else if \<not> validate_user_ptr buf sz then Inl (-1, s)
          else run_blocking (unix_read_step buf sz e) others s)"

text \<open>
  One round of the write loop; the count is of the bytes written so far. \<open>ep_write_payload\<close> of
  \<open>sendmsg\<close> is the same loop without the checks of \<open>shut_wr\<close>, \<open>nonblock\<close> and signals.
\<close>

definition sigpipe :: "us \<Rightarrow> us" where "sigpipe s = s\<lparr> us_sigpipe := us_sigpipe s + 1 \<rparr>"

text \<open>
  A round reads \<open>ep->peer\<close> without a lock and then locks the endpoint it found; the second part is a
  definition of its own, on the state in which the lock is taken.
\<close>

definition unix_write_peer :: "u32 \<Rightarrow> u32 \<Rightarrow> bool \<Rightarrow> nat \<Rightarrow> nat \<times> us \<Rightarrow> (int \<times> nat \<times> us) + (nat \<times> us)" where
  "unix_write_peer buf sz nonblock p = (\<lambda>(w, s).
     case us_ep s p of None \<Rightarrow> Inl (-1, w, us_fault s)
     | Some y \<Rightarrow>
         if \<not> ue_used y \<or> ue_peer_no_read y \<or> ue_shut_rd y then Inl (or_err w (- EPIPE), w, sigpipe s)
         else let space = UNIX_BUF_SIZE - ue_rx_len y in
         if space = 0 then
           if nonblock then Inl (or_err w (- EAGAIN), w, s)
           else if us_sig s then Inl (or_err w (- EINTR), w, s)
           else if \<not> validate_user_ptr (buf + word_of_nat w) 1 then Inl (or_err w (-1), w, s)
           else Inr (w, s)
         else
           let chunk = min (unat sz - w) space;
               s1 = ep_upd p (ep_push (mem_read (us_mem s) (buf + word_of_nat w) chunk)) s; w1 = w + chunk in
           if w1 = unat sz then Inl (if w1 > 0x7FFFFFFF then 0x7FFFFFFF else int w1, w1, s1)
           else if nonblock then Inl (c_int w1, w1, s1)
           else if us_sig s1 then Inl (c_int w1, w1, s1)
           else if \<not> validate_user_ptr (buf + word_of_nat w1) 1 then Inl (or_err w1 (-1), w1, s1)
           else Inr (w1, s1))"

definition unix_write_step :: "u32 \<Rightarrow> u32 \<Rightarrow> nat \<Rightarrow> nat \<times> us \<Rightarrow> (int \<times> nat \<times> us) + (nat \<times> us)" where
  "unix_write_step buf sz e = (\<lambda>(w, s).
     case us_ep s e of None \<Rightarrow> Inl (-1, w, us_fault s)
     | Some x \<Rightarrow>
         if ue_shut_wr x then Inl (or_err w (- EPIPE), w, s)
         else case ue_peer x of None \<Rightarrow> Inl (or_err w (- EPIPE), w, sigpipe s)
         | Some p \<Rightarrow> unix_write_peer buf sz (ue_nonblock x) p (w, s))"

definition unix_node_write :: "nat \<Rightarrow> u32 \<Rightarrow> u32 \<Rightarrow> (us \<Rightarrow> us) list \<Rightarrow> us \<Rightarrow> (int \<times> nat \<times> us) + (nat \<times> us)" where
  "unix_node_write n sz buf others s =
     (case ep_from_node n s of None \<Rightarrow> Inl (-1, 0, s)
      | Some e \<Rightarrow>
          if sz = 0 then Inl (-1, 0, s)
          else if map_option ue_kind (us_ep s e) \<noteq> Some UEP_CONN then Inl (-1, 0, s)
          else if \<not> validate_user_ptr buf sz then Inl (-1, 0, s)
          else run_blocking (unix_write_step buf sz e) (lift_others others) (0, s))"

definition ep_payload_peer :: "u32 \<Rightarrow> u32 \<Rightarrow> nat \<Rightarrow> nat \<times> us \<Rightarrow> (int \<times> nat \<times> us) + (nat \<times> us)" where
  "ep_payload_peer buf sz p = (\<lambda>(w, s).
     case us_ep s p of None \<Rightarrow> Inl (-1, w, us_fault s)
     | Some y \<Rightarrow>
         if \<not> ue_used y \<or> ue_peer_no_read y \<or> ue_shut_rd y then Inl (or_err w (- EPIPE), w, s)
         else let space = UNIX_BUF_SIZE - ue_rx_len y in
         if space = 0 then
           if \<not> validate_user_ptr (buf + word_of_nat w) 1 then Inl (or_err w (-1), w, s) else Inr (w, s)
         else
           let chunk = min (unat sz - w) space;
               s1 = ep_upd p (ep_push (mem_read (us_mem s) (buf + word_of_nat w) chunk)) s; w1 = w + chunk in
           if w1 = unat sz then Inl (c_int w1, w1, s1)
           else if \<not> validate_user_ptr (buf + word_of_nat w1) 1 then Inl (or_err w1 (-1), w1, s1)
           else Inr (w1, s1))"

definition ep_write_payload_step :: "u32 \<Rightarrow> u32 \<Rightarrow> nat \<Rightarrow> nat \<times> us \<Rightarrow> (int \<times> nat \<times> us) + (nat \<times> us)" where
  "ep_write_payload_step buf sz e = (\<lambda>(w, s).
     case us_ep s e of None \<Rightarrow> Inl (-1, w, us_fault s)
     | Some x \<Rightarrow>
         case ue_peer x of None \<Rightarrow> Inl (or_err w (- EPIPE), w, s)
         | Some p \<Rightarrow> ep_payload_peer buf sz p (w, s))"

definition ep_write_payload :: "nat \<Rightarrow> u32 \<Rightarrow> u32 \<Rightarrow> (us \<Rightarrow> us) list \<Rightarrow> us \<Rightarrow> (int \<times> nat \<times> us) + (nat \<times> us)" where
  "ep_write_payload e buf sz others s =
     (if sz = 0 then Inl (0, 0, s)
      else if \<not> validate_user_ptr buf sz then Inl (- EFAULT, 0, s)
      else run_blocking (ep_write_payload_step buf sz e) (lift_others others) (0, s))"

definition unix_node_poll :: "nat \<Rightarrow> u32 \<Rightarrow> us \<Rightarrow> u32" where
  "unix_node_poll n events s =
     (case ep_from_node n s of None \<Rightarrow> VFS_POLLERR
      | Some e \<Rightarrow>
          (case us_ep s e of None \<Rightarrow> VFS_POLLERR
           | Some x \<Rightarrow>
               if ue_kind x = UEP_LISTEN then
                 (if flag events VFS_POLLIN \<and> ue_pend_count x > 0 then VFS_POLLIN else 0) OR
                 (if flag events VFS_POLLOUT then VFS_POLLOUT else 0)
               else if ue_kind x = UEP_BOUND then (if flag events VFS_POLLOUT then VFS_POLLOUT else 0)
               else
                 (if flag events VFS_POLLIN \<and> (ue_rx_len x > 0 \<or> ue_eof x) then VFS_POLLIN else 0) OR
                 (if flag events VFS_POLLOUT \<and> \<not> ue_shut_wr x \<and> \<not> ue_peer_no_read x \<and> ue_peer x \<noteq> None then VFS_POLLOUT else 0) OR
                 (if ue_peer_no_read x \<or> ue_peer x = None then VFS_POLLERR else 0) OR
                 (if ue_eof x \<and> ue_rx_len x = 0 then VFS_POLLHUP else 0)))"

definition unix_sock_set_nonblock :: "nat \<Rightarrow> bool \<Rightarrow> us \<Rightarrow> int \<times> us" where
  "unix_sock_set_nonblock n on s =
     (case ep_from_node n s of None \<Rightarrow> (-1, s) | Some e \<Rightarrow> (0, ep_upd e (\<lambda>x. x\<lparr> ue_nonblock := on \<rparr>) s))"

section \<open>Creation\<close>

definition unix_sock_create :: "(nat \<Rightarrow> bool) \<Rightarrow> int \<Rightarrow> us \<Rightarrow> nat option \<times> us" where
  "unix_sock_create km ty s =
     (let s0 = unix_sock_init (km 0) s in
      if ty \<noteq> 1 then (None, s0)
      else case ep_alloc (km 1) s0 of (None, s1) \<Rightarrow> (None, s1)
        | (Some e, s1) \<Rightarrow>
            (case unix_make_node (km 2) e s1 of (None, s2) \<Rightarrow> (None, ep_free e s2) | (Some n, s2) \<Rightarrow> (Some n, s2)))"

text \<open>The result and the two descriptors. \<open>task\<close> is whether there is a current task.\<close>

definition unix_socketpair :: "(nat \<Rightarrow> bool) \<Rightarrow> bool \<Rightarrow> int \<Rightarrow> ufds \<times> us \<Rightarrow> (int \<times> int \<times> int) \<times> ufds \<times> us" where
  "unix_socketpair km task ty = (\<lambda>(fds, s).
     if ty \<noteq> 1 then ((- EOPNOTSUPP, 0, 0), fds, s)
     else if \<not> task then ((-1, 0, 0), fds, s)
     else
       let s0 = unix_sock_init (km 0) s; (oa, s1) = ep_alloc (km 1) s0; (ob, s2) = ep_alloc (km 2) s1 in
       case (oa, ob) of
         (Some a, Some b) \<Rightarrow>
           let s3 = ep_upd b (\<lambda>y. y\<lparr> ue_kind := UEP_CONN \<rparr>) (ep_upd a (\<lambda>x. x\<lparr> ue_kind := UEP_CONN \<rparr>) s2);
               s4 = ep_link a b s3;
               (na, s5) = unix_make_node (km 3) a s4;
               (nb, s6) = (if na \<noteq> None then unix_make_node (km 4) b s5 else (None, s5)) in
           (case (na, nb) of
              (Some n, Some m) \<Rightarrow>
                (case alloc_fd (km 5) n (fds, s6) of (fa, fds7, s7) \<Rightarrow>
                   if fa < 0 then ((- EMFILE, 0, 0), fds7, unix_node_close m (unix_node_close n s7))
                   else case alloc_fd (km 6) m (fds7, s7) of (fb, fds8, s8) \<Rightarrow>
                     if fb < 0 then ((- EMFILE, 0, 0), close_new_fd (nat fa) (fds8, unix_node_close m s8))
                     else ((0, fa, fb), fds8, s8))
            | _ \<Rightarrow>
                let s7 = ep_break a s6;
                    s8 = (case na of None \<Rightarrow> s7 | Some n \<Rightarrow> node_free n (ep_put a (node_clear n s7)));
                    s9 = (case nb of None \<Rightarrow> s8 | Some m \<Rightarrow> node_free m (ep_put b (node_clear m s8)))
                in ((- ENOMEM, 0, 0), fds, s9))
       | _ \<Rightarrow>
           ((- ENOMEM, 0, 0), fds, (case ob of None \<Rightarrow> id | Some b \<Rightarrow> ep_free b) ((case oa of None \<Rightarrow> id | Some a \<Rightarrow> ep_free a) s2)))"

section \<open>Control calls\<close>

text \<open>The path in a user's \<open>cact_unix_addr_t\<close>, with the last byte cleared.\<close>

definition user_addr :: "u32 \<Rightarrow> us \<Rightarrow> bytes option" where
  "user_addr arg s = map_option (\<lambda>bs. bs[UNIX_PATH_MAX - 1 := 0]) (copy_from_user (us_mem s) arg UNIX_PATH_MAX)"

definition ep_kind :: "nat \<Rightarrow> us \<Rightarrow> uep_kind option" where "ep_kind e s = map_option ue_kind (us_ep s e)"

definition unix_bind_ioctl :: "bytes option \<Rightarrow> nat \<Rightarrow> u32 \<Rightarrow> us \<Rightarrow> int \<times> us" where
  "unix_bind_ioctl cwd e arg s =
     (if ep_kind e s \<noteq> Some UEP_NONE then (- EINVAL, s)
      else if arg = 0 then (- EINVAL, s)
      else case user_addr arg s of None \<Rightarrow> (- EFAULT, s)
        | Some path \<Rightarrow>
            (case unix_path_canon cwd path 512 of Inl r \<Rightarrow> (r, s)
             | Inr canon \<Rightarrow>
                 if take 1 canon \<noteq> [47] \<and> take 1 canon \<noteq> [1] then (- EINVAL, s)
                 else case unix_bound_insert canon e s of (r, s1) \<Rightarrow>
                   if r < 0 then (r, s1)
                   else (0, ep_upd e (\<lambda>x. x\<lparr> ue_kind := UEP_BOUND, ue_bound := take (UNIX_PATH_MAX - 1) canon \<rparr>) s1)))"

definition pend_append :: "nat \<Rightarrow> nat \<Rightarrow> us \<Rightarrow> us" where
  "pend_append lis srv s =
     (let s1 = ep_upd srv (\<lambda>y. y\<lparr> ue_pend_next := None \<rparr>) s in
      case us_ep s1 lis of None \<Rightarrow> us_fault s1
      | Some l \<Rightarrow>
          (let s2 = (case ue_pend_tail l of Some t \<Rightarrow> ep_upd t (\<lambda>y. y\<lparr> ue_pend_next := Some srv \<rparr>) s1
                     | None \<Rightarrow> ep_upd lis (\<lambda>l. l\<lparr> ue_pend_head := Some srv \<rparr>) s1);
               s3 = ep_upd lis (\<lambda>l. l\<lparr> ue_pend_tail := Some srv, ue_pend_count := ue_pend_count l + 1 \<rparr>) s2
           in ep_upd srv (\<lambda>y. y\<lparr> ue_refs := ue_refs y + 1 \<rparr>) s3))"

text \<open>
  \<open>connect\<close> has two parts, and other calls can run between them: it looks up the listener, takes a
  reference on it and finds room in its queue; then, with the listener's lock released in between, it
  makes the endpoint of the server and appends it.
\<close>

definition unix_connect_check :: "bytes option \<Rightarrow> nat \<Rightarrow> u32 \<Rightarrow> us \<Rightarrow> (int \<times> us) + (nat \<times> us)" where
  "unix_connect_check cwd e arg s =
     (if ep_kind e s \<noteq> Some UEP_NONE then Inl (- EINVAL, s)
      else if arg = 0 then Inl (- EINVAL, s)
      else case user_addr arg s of None \<Rightarrow> Inl (- EFAULT, s)
        | Some path \<Rightarrow>
            (case unix_path_canon cwd path 512 of Inl r \<Rightarrow> Inl (r, s)
             | Inr canon \<Rightarrow>
                 (case unix_bound_lookup canon s of (None, s1) \<Rightarrow> Inl (- ENOENT, s1)
                  | (Some lis, s1) \<Rightarrow>
                      (case us_ep s1 lis of None \<Rightarrow> Inl (-1, us_fault s1)
                       | Some l \<Rightarrow>
                           if \<not> (ue_kind l = UEP_LISTEN \<and> ue_pend_count l < ue_backlog l) then Inl (- ECONNREFUSED, ep_put lis s1)
                           else Inr (lis, s1)))))"

definition unix_connect_append :: "bool \<Rightarrow> nat \<Rightarrow> nat \<Rightarrow> us \<Rightarrow> int \<times> us" where
  "unix_connect_append ok lis e s1 =
     (case ep_alloc ok s1 of (None, s2) \<Rightarrow> (- ENOMEM, ep_put lis s2)
      | (Some srv, s2) \<Rightarrow>
          (let s3 = ep_link srv e (ep_upd srv (\<lambda>y. y\<lparr> ue_kind := UEP_CONN \<rparr>) s2);
               s4 = ep_upd e (\<lambda>x. x\<lparr> ue_kind := UEP_CONN \<rparr>) s3
           in (0, ep_put lis (pend_append lis srv s4))))"

definition unix_connect_ioctl :: "(nat \<Rightarrow> bool) \<Rightarrow> bytes option \<Rightarrow> nat \<Rightarrow> u32 \<Rightarrow> us \<Rightarrow> int \<times> us" where
  "unix_connect_ioctl km cwd e arg s =
     (case unix_connect_check cwd e arg s of Inl r \<Rightarrow> r | Inr (lis, s1) \<Rightarrow> unix_connect_append (km 0) lis e s1)"

definition unix_listen_ioctl :: "nat \<Rightarrow> us \<Rightarrow> int \<times> us" where
  "unix_listen_ioctl e s =
     (if ep_kind e s \<noteq> Some UEP_BOUND then (- EINVAL, s)
      else (0, ep_upd e (\<lambda>x. x\<lparr> ue_kind := UEP_LISTEN, ue_backlog := UNIX_BACKLOG \<rparr>) s))"

definition unix_accept_step :: "(nat \<Rightarrow> bool) \<Rightarrow> u32 \<Rightarrow> nat \<Rightarrow> ufds \<times> us \<Rightarrow> (int \<times> ufds \<times> us) + (ufds \<times> us)" where
  "unix_accept_step km arg e = (\<lambda>(fds, s).
     case us_ep s e of None \<Rightarrow> Inl (-1, fds, us_fault s)
     | Some x \<Rightarrow>
         if ue_pend_count x > 0 then
           case ue_pend_head x of None \<Rightarrow> Inl (-1, fds, us_fault s)
           | Some v \<Rightarrow>
               (case us_ep s v of None \<Rightarrow> Inl (-1, fds, us_fault s)
                | Some y \<Rightarrow>
                    let nx = ue_pend_next y;
                        s1 = ep_upd e (\<lambda>x. x\<lparr> ue_pend_head := nx, ue_pend_tail := (if nx = None then None else ue_pend_tail x),
                               ue_pend_count := ue_pend_count x - 1 \<rparr>) s;
                        s2 = ep_upd v (\<lambda>y. y\<lparr> ue_pend_next := None \<rparr>) s1 in
                    (case unix_make_node (km 0) v s2 of
                       (None, s3) \<Rightarrow> Inl (- ENOMEM, fds, ep_put v s3)
                     | (Some n, s3) \<Rightarrow>
                         (case alloc_fd (km 1) n (fds, s3) of (fd, fds4, s4) \<Rightarrow>
                            if fd < 0 then Inl (- EMFILE, fds4, node_free n (ep_put v (ep_put v (node_clear n s4))))
                            else if arg \<noteq> 0 then
                              (case copy_to_user (us_mem s4) arg (replicate 12 0) of (r, m) \<Rightarrow>
                                 if r \<noteq> 0 then
                                   (case close_new_fd (nat fd) (fds4, s4) of (fds5, s5) \<Rightarrow> Inl (- EFAULT, fds5, ep_put v s5))
                                 else Inl (fd, fds4, ep_put v (s4\<lparr> us_mem := m \<rparr>)))
                            else Inl (fd, fds4, ep_put v s4))))
         else if us_sig s then Inl (- EINTR, fds, s)
         else Inr (fds, s))"

definition unix_accept_ioctl ::
  "(nat \<Rightarrow> bool) \<Rightarrow> nat \<Rightarrow> u32 \<Rightarrow> (ufds \<times> us \<Rightarrow> ufds \<times> us) list \<Rightarrow> ufds \<times> us \<Rightarrow> (int \<times> ufds \<times> us) + (ufds \<times> us)" where
  "unix_accept_ioctl km e arg others fs =
     (if ep_kind e (snd fs) \<noteq> Some UEP_LISTEN then Inl (- EINVAL, fs)
      else run_blocking (unix_accept_step km arg e) others fs)"

definition ep_tell_peer :: "nat \<Rightarrow> (uep \<Rightarrow> uep) \<Rightarrow> us \<Rightarrow> us" where
  "ep_tell_peer e f s = (case us_ep s e of None \<Rightarrow> us_fault s
     | Some x \<Rightarrow> (case ue_peer x of None \<Rightarrow> s | Some p \<Rightarrow> ep_upd p f s))"

definition unix_shutdown_ioctl :: "nat \<Rightarrow> u32 \<Rightarrow> us \<Rightarrow> int \<times> us" where
  "unix_shutdown_ioctl e arg s =
     (if arg = 0 then (- EINVAL, s)
      else case copy_from_user (us_mem s) arg 4 of None \<Rightarrow> (- EFAULT, s)
        | Some bs \<Rightarrow>
            (let how = rd32 bs 0 in
             if how \<noteq> 0 \<and> how \<noteq> 1 \<and> how \<noteq> 2 then (- EINVAL, s)
             else
               let s1 = (if how = 0 \<or> how = 2 then
                           ep_tell_peer e (\<lambda>y. y\<lparr> ue_peer_no_read := True \<rparr>) (ep_upd e (\<lambda>x. x\<lparr> ue_shut_rd := True \<rparr>) s) else s);
                   s2 = (if how = 1 \<or> how = 2 then
                           ep_tell_peer e (\<lambda>y. y\<lparr> ue_eof := True \<rparr>) (ep_upd e (\<lambda>x. x\<lparr> ue_shut_wr := True \<rparr>) s1) else s1)
               in (0, s2)))"

section \<open>Messages with descriptors\<close>

text \<open>The descriptors that are passed: resolved one by one, with a reference taken on each.\<close>

fun hold_fds :: "int list \<Rightarrow> ufds \<Rightarrow> ufile list \<Rightarrow> us \<Rightarrow> ufile list option \<times> us" where
  "hold_fds [] fds held s = (Some held, s)"
| "hold_fds (fd # r) fds held s =
     (if fd < 0 \<or> fd \<ge> int MAX_FD then (None, fold (fref_add (-1)) held s)
      else case fds ! nat fd of None \<Rightarrow> (None, fold (fref_add (-1)) held s)
        | Some f \<Rightarrow> hold_fds r fds (held @ [f]) (fref_add 1 f s))"

definition rd_fds :: "bytes \<Rightarrow> nat \<Rightarrow> int list" where "rd_fds bs n = map (\<lambda>i. sint (rd32 bs (4 * i))) [0..<n]"

text \<open>\<open>sendmsg\<close> up to its payload: the result, or the buffer and the length still to be sent.\<close>

definition unix_sendmsg_begin :: "bool \<Rightarrow> nat \<Rightarrow> u32 \<Rightarrow> ufds \<Rightarrow> us \<Rightarrow> (int + u32 \<times> u32) \<times> us" where
  "unix_sendmsg_begin task e arg fds s =
     (if \<not> task then (Inl (-1), s)
      else if arg = 0 then (Inl (- EINVAL), s)
      else case us_ep s e of None \<Rightarrow> (Inl (-1), us_fault s)
        | Some x \<Rightarrow>
            if ue_kind x \<noteq> UEP_CONN then (Inl (- EINVAL), s)
            else case copy_from_user (us_mem s) arg 16 of None \<Rightarrow> (Inl (- EFAULT), s)
              | Some a \<Rightarrow>
                  (let buf = rd32 a 0; len = rd32 a 4; ufds = rd32 a 8; nfds = rd32 a 12 in
                   if unat nfds > UNIX_FD_QUEUE_MAX then (Inl (- EINVAL), s)
                   else if len \<noteq> 0 \<and> \<not> validate_user_ptr buf len then (Inl (- EFAULT), s)
                   else if nfds \<noteq> 0 \<and> \<not> validate_user_ptr ufds (4 * nfds) then (Inl (- EFAULT), s)
                   else
                     case hold_fds (if nfds = 0 then [] else rd_fds (mem_read (us_mem s) ufds (4 * unat nfds)) (unat nfds)) fds [] s of
                       (None, s1) \<Rightarrow> (Inl (- EBADF), s1)
                     | (Some hold, s1) \<Rightarrow>
                         (case ue_peer x of None \<Rightarrow> (Inl (- EPIPE), fold (fref_add (-1)) hold s1)
                          | Some p \<Rightarrow>
                              if hold = [] then (Inr (buf, len), s1)
                              else case us_ep s1 p of None \<Rightarrow> (Inl (-1), us_fault s1)
                                | Some y \<Rightarrow>
                                    (case ep_fdq_push hold y of (r, y') \<Rightarrow>
                                       if r \<noteq> 0 then (Inl r, fold (fref_add (-1)) hold s1)
                                       else (Inr (buf, len), ep_upd p (\<lambda>_. y') s1)))))"

definition unix_sendmsg_ioctl ::
  "bool \<Rightarrow> nat \<Rightarrow> u32 \<Rightarrow> ufds \<Rightarrow> (us \<Rightarrow> us) list \<Rightarrow> us \<Rightarrow> (int \<times> nat \<times> us) + (nat \<times> us)" where
  "unix_sendmsg_ioctl task e arg fds others s =
     (case unix_sendmsg_begin task e arg fds s of (Inl r, s1) \<Rightarrow> Inl (r, 0, s1)
      | (Inr (buf, len), s1) \<Rightarrow> ep_write_payload e buf len others s1)"

text \<open>Installing received descriptors: the slots they get.\<close>

fun install_fds :: "ufile list \<Rightarrow> ufds \<times> us \<Rightarrow> nat list \<times> ufds \<times> us" where
  "install_fds [] (fds, s) = ([], fds, s)"
| "install_fds (f # r) (fds, s) =
     (case fd_free fds of None \<Rightarrow> install_fds r (fds, fref_add (-1) f s)
      | Some i \<Rightarrow> (case install_fds r (fds[i := Some f], s) of (out, fs) \<Rightarrow> (i # out, fs)))"

definition unix_recvmsg_step :: "u32 \<Rightarrow> bytes \<Rightarrow> nat \<Rightarrow> ufds \<times> us \<Rightarrow> (int \<times> ufds \<times> us) + (ufds \<times> us)" where
  "unix_recvmsg_step arg a e = (\<lambda>(fds, s).
     let buf = rd32 a 0; cap = rd32 a 4; ufds = rd32 a 8; fds_cap = rd32 a 12 in
     case us_ep s e of None \<Rightarrow> Inl (-1, fds, us_fault s)
     | Some x \<Rightarrow>
         if \<not> (ue_rx_len x > 0 \<or> ue_eof x \<or> ue_shut_rd x \<or> (ue_fdq x \<noteq> [] \<and> fds_cap \<noteq> 0)) then
           if us_sig s then Inl (- EINTR, fds, s) else Inr (fds, s)
         else
           let got = (if \<not> ue_shut_rd x \<and> cap \<noteq> 0 \<and> buf \<noteq> 0 then min (ue_rx_len x) (unat cap) else 0);
               (bs, x1) = (if got > 0 then ep_pop got x else ([], x));
               s1 = ep_upd e (\<lambda>_. x1) s; (r, m) = (if got > 0 then copy_to_user (us_mem s1) buf bs else (0, us_mem s1)) in
           if r \<noteq> 0 then Inl (- EFAULT, fds, s1)
           else
             let s2 = s1\<lparr> us_mem := m \<rparr>;
                 room = length (filter (\<lambda>i. fds ! i = None) [3..<MAX_FD]);
                 want = (if fds_cap \<noteq> 0 \<and> ufds \<noteq> 0 then min (min (unat fds_cap) (length (ue_fdq x1))) room else 0);
                 (files, x2) = ep_fdq_pop want x1;
                 (out, fds3, s3) = install_fds files (fds, ep_upd e (\<lambda>_. x2) s2);
                 m4 = (if out \<noteq> [] then snd (copy_to_user (us_mem s3) ufds (concat (map (nat_le 4) out))) else us_mem s3);
                 (r5, m5) = copy_to_user m4 arg (take 16 a @ nat_le 4 (length out))
             in Inl (if r5 \<noteq> 0 then - EFAULT else int (length bs), fds3, s3\<lparr> us_mem := m5 \<rparr>))"

definition unix_recvmsg_ioctl ::
  "bool \<Rightarrow> nat \<Rightarrow> u32 \<Rightarrow> (ufds \<times> us \<Rightarrow> ufds \<times> us) list \<Rightarrow> ufds \<times> us \<Rightarrow> (int \<times> ufds \<times> us) + (ufds \<times> us)" where
  "unix_recvmsg_ioctl task e arg others = (\<lambda>(fds, s).
     if \<not> task then Inl (-1, fds, s)
     else if arg = 0 then Inl (- EINVAL, fds, s)
     else if ep_kind e s \<noteq> Some UEP_CONN then Inl (- EINVAL, fds, s)
     else case copy_from_user (us_mem s) arg 20 of None \<Rightarrow> Inl (- EFAULT, fds, s)
       | Some a \<Rightarrow>
           if rd32 a 4 \<noteq> 0 \<and> \<not> validate_user_ptr (rd32 a 0) (rd32 a 4) then Inl (- EFAULT, fds, s)
           else if rd32 a 12 \<noteq> 0 \<and> \<not> validate_user_ptr (rd32 a 8) (4 * rd32 a 12) then Inl (- EFAULT, fds, s)
           else if unat (rd32 a 12) > UNIX_FD_QUEUE_MAX then Inl (- EINVAL, fds, s)
           else run_blocking (unix_recvmsg_step arg a e) others (fds, s))"

definition unix_sockopt_ioctl :: "nat \<Rightarrow> u32 \<Rightarrow> bool \<Rightarrow> us \<Rightarrow> int \<times> us" where
  "unix_sockopt_ioctl e arg is_get s =
     (if arg = 0 then (- EFAULT, s)
      else case copy_from_user (us_mem s) arg 16 of None \<Rightarrow> (- EFAULT, s)
        | Some a \<Rightarrow>
            (let opt = rd32 a 4; val = rd32 a 8;
                 put = (\<lambda>v t. if is_get then
                     (case copy_to_user (us_mem t) arg (take 12 a @ nat_le 4 (unat v)) of (r, m) \<Rightarrow>
                        if r \<noteq> 0 then (- EFAULT, t) else (0, t\<lparr> us_mem := m \<rparr>)) else (0, t)) in
             if rd32 a 0 \<noteq> 1 then (- ENOPROTOOPT, s)
             else if opt = 3 then if \<not> is_get then (- ENOPROTOOPT, s) else put 1 s
             else if opt = 4 then if \<not> is_get then (- ENOPROTOOPT, s) else put 0 s
             else if opt = 2 \<or> opt = 15 \<or> opt = 9 then put 0 s
             else if opt = 7 then
               case us_ep s e of None \<Rightarrow> (-1, us_fault s)
               | Some x \<Rightarrow> put (if ue_sndbuf x \<noteq> 0 then ue_sndbuf x else 212992)
                   (if is_get then s else ep_upd e (\<lambda>x. x\<lparr> ue_sndbuf := val \<rparr>) s)
             else if opt = 8 then
               case us_ep s e of None \<Rightarrow> (-1, us_fault s)
               | Some x \<Rightarrow> put (if ue_rcvbuf x \<noteq> 0 then ue_rcvbuf x else 212992)
                   (if is_get then s else ep_upd e (\<lambda>x. x\<lparr> ue_rcvbuf := val \<rparr>) s)
             else (- ENOPROTOOPT, s)))"

text \<open>The dispatcher; \<open>cwd\<close> is the directory of the current task, if there is one.\<close>

definition unix_sock_ioctl ::
  "(nat \<Rightarrow> bool) \<Rightarrow> bytes option \<Rightarrow> (us \<Rightarrow> us) list \<Rightarrow> nat \<Rightarrow> u32 \<Rightarrow> u32 \<Rightarrow> ufds \<times> us \<Rightarrow> (int \<times> ufds \<times> us) + (ufds \<times> us)" where
  "unix_sock_ioctl km cwd others n cmd arg = (\<lambda>(fds, s).
     case ep_from_node n s of None \<Rightarrow> Inl (- ENOTSOCK, fds, s)
     | Some e \<Rightarrow>
         let ret = (\<lambda>(r, t). Inl (r, fds, t)) in
         if cmd = 0x330A then ret (unix_bind_ioctl cwd e arg s)
         else if cmd = 0x330B then ret (unix_connect_ioctl km cwd e arg s)
         else if cmd = 0x3303 then ret (unix_listen_ioctl e s)
         else if cmd = 0x3304 then unix_accept_ioctl km e arg (lift_others others) (fds, s)
         else if cmd = 0x3305 then ret (unix_shutdown_ioctl e arg s)
         else if cmd = 0x330C then
           (case unix_sendmsg_ioctl (cwd \<noteq> None) e arg fds others s of Inl (r, w, t) \<Rightarrow> Inl (r, fds, t) | Inr (w, t) \<Rightarrow> Inr (fds, t))
         else if cmd = 0x330D then unix_recvmsg_ioctl (cwd \<noteq> None) e arg (lift_others others) (fds, s)
         else if cmd = 0x3306 then ret (unix_sockopt_ioctl e arg False s)
         else if cmd = 0x3307 then ret (unix_sockopt_ioctl e arg True s)
         else Inl (- EINVAL, fds, s))"

section \<open>The receive buffer is a queue of bytes\<close>

definition rx_ok :: "uep \<Rightarrow> bool" where
  "rx_ok x \<longleftrightarrow> length (ue_rx x) = UNIX_BUF_SIZE \<and> ue_rx_off x < UNIX_BUF_SIZE \<and> ue_rx_len x \<le> UNIX_BUF_SIZE"

definition rx_list :: "uep \<Rightarrow> bytes" where
  "rx_list x = map (\<lambda>k. ue_rx x ! ((ue_rx_off x + k) mod UNIX_BUF_SIZE)) [0..<ue_rx_len x]"

definition ep_get :: "uep \<Rightarrow> (byte \<times> uep) option" where
  "ep_get x = (if ue_rx_len x = 0 then None else case ep_pop 1 x of (bs, x') \<Rightarrow> Some (hd bs, x'))"

definition ep_add :: "byte \<Rightarrow> uep \<Rightarrow> uep" where
  "ep_add c x = (if UNIX_BUF_SIZE - ue_rx_len x = 0 then x else ep_push1 c x)"

lemma unix_buf_pos: "0 < UNIX_BUF_SIZE"
  by (simp add: UNIX_BUF_SIZE_def)

lemma length_rx_list [simp]: "length (rx_list x) = ue_rx_len x"
  by (simp add: rx_list_def)

lemma mod_slot_neq:
  assumes "i < k" "k < (N :: nat)"
  shows "(off + i) mod N \<noteq> (off + k) mod N"
proof
  assume "(off + i) mod N = (off + k) mod N"
  then have "N dvd (off + k) - (off + i)" using assms(1) by (metis add_le_cancel_left less_imp_le_nat mod_eq_dvd_iff_nat)
  then have "N dvd k - i" by simp
  then show False using assms by (auto dest: dvd_imp_le)
qed

lemma push1_ok:
  assumes "rx_ok x" "ue_rx_len x < UNIX_BUF_SIZE"
  shows "rx_ok (ep_push1 c x)" "rx_list (ep_push1 c x) = rx_list x @ [c]"
proof -
  show "rx_ok (ep_push1 c x)" using assms by (simp add: rx_ok_def ep_push1_def)
  let ?p = "(ue_rx_off x + ue_rx_len x) mod UNIX_BUF_SIZE"
  have p: "?p < length (ue_rx x)" using assms unix_buf_pos by (simp add: rx_ok_def)
  have "(ue_rx x)[?p := c] ! ((ue_rx_off x + k) mod UNIX_BUF_SIZE) = ue_rx x ! ((ue_rx_off x + k) mod UNIX_BUF_SIZE)" if "k < ue_rx_len x" for k
    using mod_slot_neq[OF that assms(2), of "ue_rx_off x"] by (metis nth_list_update_neq)
  then show "rx_list (ep_push1 c x) = rx_list x @ [c]" using p by (simp add: rx_list_def ep_push1_def)
qed

lemma pop_loop:
  assumes "rx_ok x" "n \<le> ue_rx_len x"
  shows "ep_pop_loop n x = (take n (rx_list x), x\<lparr> ue_rx_off := (ue_rx_off x + n) mod UNIX_BUF_SIZE \<rparr>)"
proof -
  have "ep_pop_loop n x = (map (\<lambda>k. ue_rx x ! ((ue_rx_off x + k) mod UNIX_BUF_SIZE)) [0..<n], x\<lparr> ue_rx_off := (ue_rx_off x + n) mod UNIX_BUF_SIZE \<rparr>)"
    if "ue_rx_off x < UNIX_BUF_SIZE" for x :: uep and n
    using that
  proof (induction n arbitrary: x)
    case (Suc n)
    let ?y = "x\<lparr> ue_rx_off := (ue_rx_off x + 1) mod UNIX_BUF_SIZE \<rparr>"
    have "ue_rx_off ?y < UNIX_BUF_SIZE" using unix_buf_pos by simp
    from Suc.IH[OF this] have e: "ep_pop_loop n ?y = (map (\<lambda>k. ue_rx x ! ((ue_rx_off x + Suc k) mod UNIX_BUF_SIZE)) [0..<n],
      x\<lparr> ue_rx_off := (ue_rx_off x + Suc n) mod UNIX_BUF_SIZE \<rparr>)" by (simp add: mod_simps)
    have m: "map f [0..<Suc n] = f 0 # map (\<lambda>k. f (Suc k)) [0..<n]" for f :: "nat \<Rightarrow> byte"
      by (simp add: upt_rec[of 0] map_Suc_upt[symmetric] del: upt_Suc)
    show ?case unfolding m using e Suc.prems by simp
  qed simp
  then show ?thesis using assms by (simp add: rx_ok_def rx_list_def take_map)
qed

lemma pop_ok:
  assumes "rx_ok x"
  shows "fst (ep_pop n x) = take n (rx_list x)" "rx_ok (snd (ep_pop n x))" "rx_list (snd (ep_pop n x)) = drop n (rx_list x)"
proof -
  let ?m = "min (ue_rx_len x) n" let ?y = "x\<lparr> ue_rx_off := (ue_rx_off x + ?m) mod UNIX_BUF_SIZE, ue_rx_len := ue_rx_len x - ?m \<rparr>"
  have e: "ep_pop n x = (take ?m (rx_list x), if ue_rx_len x - ?m = 0 then ?y\<lparr> ue_rx_off := 0 \<rparr> else ?y)"
    using pop_loop[OF assms, of ?m] by (simp add: ep_pop_def Let_def)
  show "fst (ep_pop n x) = take n (rx_list x)" unfolding e by (simp add: min_def)
  show "rx_ok (snd (ep_pop n x))" unfolding e using assms unix_buf_pos by (auto simp: rx_ok_def)
  have "rx_list ?y = drop ?m (rx_list x)"
    by (rule nth_equalityI) (auto simp: rx_list_def mod_simps add.assoc)
  moreover have "drop ?m (rx_list x) = drop n (rx_list x)" by (simp add: min_def)
  ultimately show "rx_list (snd (ep_pop n x)) = drop n (rx_list x)" unfolding e by (auto simp: rx_list_def min_def split: if_splits)
qed

interpretation uq: byte_fifo rx_ok rx_list UNIX_BUF_SIZE ep_add ep_get
proof
  fix x y :: uep and c :: byte
  assume ok: "rx_ok x"
  show "length (rx_list x) \<le> UNIX_BUF_SIZE" using ok by (simp add: rx_ok_def)
  show "rx_ok (ep_add c x)" using ok push1_ok(1)[OF ok] by (auto simp: ep_add_def)
  show "rx_list (ep_add c x) = (if length (rx_list x) < UNIX_BUF_SIZE then rx_list x @ [c] else rx_list x)"
    using push1_ok(2)[OF ok] by (auto simp: ep_add_def)
  show "ep_get x = None \<longleftrightarrow> rx_list x = []" by (auto simp: ep_get_def rx_list_def split: prod.splits)
  assume g: "ep_get x = Some (c, y)"
  then have len: "ue_rx_len x \<noteq> 0" and y: "y = snd (ep_pop 1 x)" "c = hd (fst (ep_pop 1 x))" by (auto simp: ep_get_def split: if_splits prod.splits)
  have "rx_list x \<noteq> []" using len by (simp add: rx_list_def)
  then have "take 1 (rx_list x) @ drop 1 (rx_list x) = c # rx_list y" using pop_ok[OF ok, of 1] y by (cases "rx_list x") auto
  then show "rx_ok y \<and> rx_list x = c # rx_list y" using pop_ok(2)[OF ok, of 1] y by simp
qed

lemma push_ok:
  assumes "rx_ok x" "ue_rx_len x + length bs \<le> UNIX_BUF_SIZE"
  shows "rx_ok (ep_push bs x)" "rx_list (ep_push bs x) = rx_list x @ bs"
proof -
  have e: "ep_push bs x = fold ep_add bs x"
    using assms(2)
  proof (induction bs arbitrary: x)
    case (Cons c bs)
    have "ep_push bs (ep_push1 c x) = fold ep_add bs (ep_push1 c x)" by (rule Cons.IH) (use Cons.prems in \<open>simp add: ep_push1_def\<close>)
    moreover have "ep_add c x = ep_push1 c x" using Cons.prems by (simp add: ep_add_def)
    ultimately show ?case by (simp add: ep_push_def)
  qed (simp add: ep_push_def)
  show "rx_ok (ep_push bs x)" unfolding e by (rule uq.fold_push_ok[OF assms(1)])
  show "rx_list (ep_push bs x) = rx_list x @ bs" unfolding e by (rule uq.fold_push_fits) (use assms in simp_all)
qed

end
