(* ===== verification/Unixsock_Inv.thy ===== *)
theory Unixsock_Inv
  imports Unixsock
begin

text \<open>
  What holds of the local sockets between any two critical sections: every endpoint counts exactly
  the references to it, connections are symmetric, the queues of the listeners and the registry hold
  live endpoints only, and nothing that was freed is touched.
\<close>

section \<open>Invariant\<close>

definition held :: "us \<Rightarrow> nat \<Rightarrow> bool" where "held s e \<longleftrightarrow> (\<exists>n. us_node s n = Some (Some e))"

definition queued :: "(nat \<Rightarrow> nat list) \<Rightarrow> nat \<Rightarrow> bool" where "queued pl e \<longleftrightarrow> (\<exists>l. e \<in> set (pl l))"

definition ep_peer :: "us \<Rightarrow> nat \<Rightarrow> nat option" where "ep_peer s e = Option.bind (us_ep s e) ue_peer"
definition ep_next :: "us \<Rightarrow> nat \<Rightarrow> nat option" where "ep_next s e = Option.bind (us_ep s e) ue_pend_next"
definition ep_head :: "us \<Rightarrow> nat \<Rightarrow> nat option" where "ep_head s e = Option.bind (us_ep s e) ue_pend_head"
definition ep_tail :: "us \<Rightarrow> nat \<Rightarrow> nat option" where "ep_tail s e = Option.bind (us_ep s e) ue_pend_tail"

text \<open>
  One endpoint: \<open>h\<close> and \<open>q\<close> say that a node and a queue refer to it, \<open>k\<close> counts the references that
  the running calls hold, \<open>n\<close> is the length of its own queue.
\<close>

definition ep_loc :: "bool \<Rightarrow> bool \<Rightarrow> nat \<Rightarrow> nat \<Rightarrow> uep \<Rightarrow> bool" where
  "ep_loc h q k n x \<longleftrightarrow>
     ue_used x \<and> rx_ok x \<and> length (ue_fdq x) \<le> UNIX_FD_QUEUE_MAX \<and> ue_backlog x = UNIX_BACKLOG \<and>
     ue_refs x = of_bool h + of_bool q + of_bool (ue_peer x \<noteq> None) + k \<and> 0 < ue_refs x \<and> \<not> (h \<and> q) \<and>
     (ue_kind x \<noteq> UEP_CONN \<longrightarrow> ue_peer x = None \<and> h) \<and>
     (ue_kind x = UEP_CONN \<and> ue_peer x = None \<and> (h \<or> q) \<longrightarrow> ue_eof x \<and> ue_peer_no_read x) \<and>
     ue_pend_count x = n"

lemma ep_locD:
  assumes "ep_loc h q k n x"
  shows "ue_used x" "rx_ok x" "length (ue_fdq x) \<le> UNIX_FD_QUEUE_MAX" "ue_backlog x = UNIX_BACKLOG"
    "ue_refs x = of_bool h + of_bool q + of_bool (ue_peer x \<noteq> None) + k" "0 < ue_refs x" "\<not> (h \<and> q)"
    "ue_kind x \<noteq> UEP_CONN \<Longrightarrow> ue_peer x = None \<and> h"
    "ue_kind x = UEP_CONN \<Longrightarrow> ue_peer x = None \<Longrightarrow> h \<or> q \<Longrightarrow> ue_eof x \<and> ue_peer_no_read x" "ue_pend_count x = n"
  using assms unfolding ep_loc_def by blast+

lemma ep_loc_next [simp]: "ep_loc h q k n (x\<lparr> ue_pend_next := z \<rparr>) = ep_loc h q k n x"
  by (simp add: ep_loc_def rx_ok_def)

definition eps_ok :: "us \<Rightarrow> (nat \<Rightarrow> nat list) \<Rightarrow> (nat \<Rightarrow> nat) \<Rightarrow> bool" where
  "eps_ok s pl X \<longleftrightarrow>
     (\<forall>e x. us_ep s e = Some x \<longrightarrow> ep_loc (held s e) (queued pl e) (X e) (length (pl e)) x) \<and> (\<forall>e. us_ep s e = None \<longrightarrow> X e = 0)"

definition peers_ok :: "us \<Rightarrow> bool" where
  "peers_ok s \<longleftrightarrow> (\<forall>e p. ep_peer s e = Some p \<longrightarrow> p \<noteq> e \<and> ep_peer s p = Some e)"

definition queues_ok :: "us \<Rightarrow> (nat \<Rightarrow> nat list) \<Rightarrow> bool" where
  "queues_ok s pl \<longleftrightarrow>
     (\<forall>l. seg (ep_next s) (ep_head s l) (pl l) None \<and> ep_tail s l = (if pl l = [] then None else Some (last (pl l))) \<and>
        distinct (pl l) \<and> (pl l \<noteq> [] \<longrightarrow> ep_kind l s = Some UEP_LISTEN)) \<and>
     (\<forall>l v. v \<in> set (pl l) \<longrightarrow> ep_kind v s = Some UEP_CONN) \<and>
     (\<forall>l l' v. v \<in> set (pl l) \<longrightarrow> v \<in> set (pl l') \<longrightarrow> l = l')"

lemma queuesD:
  assumes "queues_ok s pl"
  shows "seg (ep_next s) (ep_head s l) (pl l) None" "ep_tail s l = (if pl l = [] then None else Some (last (pl l)))"
    "distinct (pl l)" "pl l \<noteq> [] \<Longrightarrow> ep_kind l s = Some UEP_LISTEN"
    "v \<in> set (pl l) \<Longrightarrow> ep_kind v s = Some UEP_CONN" "v \<in> set (pl l) \<Longrightarrow> v \<in> set (pl l') \<Longrightarrow> l = l'"
  using assms unfolding queues_ok_def by blast+

lemma queuesI:
  assumes "\<And>l. seg (ep_next s) (ep_head s l) (pl l) None" "\<And>l. ep_tail s l = (if pl l = [] then None else Some (last (pl l)))"
    "\<And>l. distinct (pl l)" "\<And>l. pl l \<noteq> [] \<Longrightarrow> ep_kind l s = Some UEP_LISTEN"
    "\<And>l v. v \<in> set (pl l) \<Longrightarrow> ep_kind v s = Some UEP_CONN" "\<And>l l' v. v \<in> set (pl l) \<Longrightarrow> v \<in> set (pl l') \<Longrightarrow> l = l'"
  shows "queues_ok s pl"
  unfolding queues_ok_def using assms by blast

definition nodes_ok :: "us \<Rightarrow> bool" where
  "nodes_ok s \<longleftrightarrow>
     (\<forall>n e. us_node s n = Some (Some e) \<longrightarrow> us_ep s e \<noteq> None) \<and>
     (\<forall>n m e. us_node s n = Some (Some e) \<longrightarrow> us_node s m = Some (Some e) \<longrightarrow> n = m)"

definition named :: "uep \<Rightarrow> bool" where "named x \<longleftrightarrow> ue_kind x = UEP_BOUND \<or> ue_kind x = UEP_LISTEN"

definition registry_ok :: "us \<Rightarrow> bool" where
  "registry_ok s \<longleftrightarrow>
     (\<forall>e x. us_ep s e = Some x \<longrightarrow> named x \<longrightarrow> Some (ue_bound x, e) \<in> set (us_bound s)) \<and>
     (\<forall>i < length (us_bound s). \<forall>p e. us_bound s ! i = Some (p, e) \<longrightarrow>
        (\<exists>x. us_ep s e = Some x \<and> named x) \<and> (\<forall>j < length (us_bound s). \<forall>q. us_bound s ! j = Some (q, e) \<longrightarrow> i = j))"

definition fresh_ok :: "us \<Rightarrow> bool" where
  "fresh_ok s \<longleftrightarrow> us_ready s \<and> \<not> us_bad s \<and> (\<forall>a \<ge> us_next s. us_ep s a = None \<and> us_node s a = None)"

definition us_inv :: "us \<Rightarrow> (nat \<Rightarrow> nat list) \<Rightarrow> (nat \<Rightarrow> nat) \<Rightarrow> bool" where
  "us_inv s pl X \<longleftrightarrow> fresh_ok s \<and> eps_ok s pl X \<and> peers_ok s \<and> queues_ok s pl \<and> nodes_ok s \<and> registry_ok s"

lemma us_invI:
  assumes "fresh_ok s" "eps_ok s pl X" "peers_ok s" "queues_ok s pl" "nodes_ok s" "registry_ok s"
  shows "us_inv s pl X"
  using assms by (simp add: us_inv_def)

lemma us_invD:
  assumes "us_inv s pl X"
  shows "fresh_ok s" "eps_ok s pl X" "peers_ok s" "queues_ok s pl" "nodes_ok s" "registry_ok s"
  using assms by (simp_all add: us_inv_def)

text \<open>The part of an endpoint that other objects depend on.\<close>

definition ue_shape :: "uep \<Rightarrow> uep_kind \<times> nat option \<times> nat option \<times> nat option \<times> nat option \<times> bytes" where
  "ue_shape x = (ue_kind x, ue_peer x, ue_pend_next x, ue_pend_head x, ue_pend_tail x, ue_bound x)"

text \<open>Two states that differ in their endpoints, the memory and the counters of files only.\<close>

definition us_same :: "us \<Rightarrow> us \<Rightarrow> bool" where
  "us_same s t \<longleftrightarrow> us_node t = us_node s \<and> us_bound t = us_bound s \<and> us_next t = us_next s \<and> us_ready t = us_ready s \<and> us_bad t = us_bad s"

lemma ep_viewsI:
  assumes "us_ep s e = Some x"
  shows "ep_peer s e = ue_peer x" "ep_next s e = ue_pend_next x" "ep_head s e = ue_pend_head x" "ep_tail s e = ue_pend_tail x"
    "ep_kind e s = Some (ue_kind x)"
  using assms by (simp_all add: ep_peer_def ep_next_def ep_head_def ep_tail_def ep_kind_def)

lemma ep_viewsN:
  assumes "us_ep s e = None"
  shows "ep_peer s e = None" "ep_next s e = None" "ep_head s e = None" "ep_tail s e = None" "ep_kind e s = None"
  using assms by (simp_all add: ep_peer_def ep_next_def ep_head_def ep_tail_def ep_kind_def)

lemma ep_kindD: "ep_kind e s = Some k \<Longrightarrow> \<exists>x. us_ep s e = Some x \<and> ue_kind x = k"
  by (auto simp: ep_kind_def)

lemma inv_loc:
  assumes "us_inv s pl X" "us_ep s e = Some x"
  shows "ep_loc (held s e) (queued pl e) (X e) (length (pl e)) x"
  using us_invD(2)[OF assms(1)] assms(2) by (simp add: eps_ok_def)

lemma inv_dead:
  assumes "us_inv s pl X" "us_ep s e = None"
  shows "X e = 0" "pl e = []" "\<not> held s e" "\<not> queued pl e"
proof -
  show "X e = 0" using us_invD(2)[OF assms(1)] assms(2) by (simp add: eps_ok_def)
  show "pl e = []" using us_invD(4)[OF assms(1)] assms(2) unfolding queues_ok_def ep_kind_def by fastforce
  show "\<not> held s e" using us_invD(5)[OF assms(1)] assms(2) unfolding nodes_ok_def held_def by metis
  show "\<not> queued pl e" using us_invD(4)[OF assms(1)] assms(2) unfolding queues_ok_def queued_def ep_kind_def by fastforce
qed

lemma held_same: "us_same s t \<Longrightarrow> held t = held s"
  by (simp add: us_same_def held_def fun_eq_iff)

text \<open>An update of one endpoint that keeps its shape.\<close>

lemma inv_upd:
  assumes inv: "us_inv s pl X" and x: "us_ep s e = Some x"
    and same: "us_same s t" "us_ep t = (us_ep s)(e \<mapsto> x')"
    and x': "ue_shape x' = ue_shape x" "ep_loc (held s e) (queued pl e) (Y e) (length (pl e)) x'" "\<And>a. a \<noteq> e \<Longrightarrow> Y a = X a"
  shows "us_inv t pl Y"
proof -
  note sh = x'(1)[unfolded ue_shape_def prod.inject]
  have views: "ep_peer t = ep_peer s" "ep_next t = ep_next s" "ep_head t = ep_head s" "ep_tail t = ep_tail s" "\<And>a. ep_kind a t = ep_kind a s"
    using x same(2) sh by (auto simp: fun_eq_iff ep_peer_def ep_next_def ep_head_def ep_tail_def ep_kind_def)
  note s = same(1)[unfolded us_same_def]
  show ?thesis
  proof (rule us_invI)
    show "fresh_ok t" using us_invD(1)[OF inv] s same(2) x by (auto simp: fresh_ok_def)
    show "eps_ok t pl Y" unfolding eps_ok_def held_same[OF same(1)] same(2)
    proof (intro conjI allI impI)
      fix a y assume "((us_ep s)(e \<mapsto> x')) a = Some y"
      then show "ep_loc (held s a) (queued pl a) (Y a) (length (pl a)) y"
        using inv_loc[OF inv, of a y] x'(2) x'(3)[of a] by (cases "a = e") auto
    next
      fix a assume "((us_ep s)(e \<mapsto> x')) a = None"
      then show "Y a = 0" using inv_dead(1)[OF inv, of a] x'(3)[of a] by (cases "a = e") auto
    qed
    show "peers_ok t" using us_invD(3)[OF inv] unfolding peers_ok_def views .
    show "queues_ok t pl" using us_invD(4)[OF inv] unfolding queues_ok_def views .
    show "nodes_ok t" using us_invD(5)[OF inv] s same(2) by (auto simp: nodes_ok_def)
    have n: "named x' = named x" "ue_bound x' = ue_bound x" using sh by (auto simp: named_def)
    show "registry_ok t" unfolding registry_ok_def
    proof (intro conjI allI impI)
      fix a y assume "us_ep t a = Some y" "named y"
      then show "Some (ue_bound y, a) \<in> set (us_bound t)"
        using us_invD(6)[OF inv] s same(2) x n by (auto simp: registry_ok_def split: if_splits)
    next
      fix i p a assume i: "i < length (us_bound t)" "us_bound t ! i = Some (p, a)"
      then have r: "(\<exists>x. us_ep s a = Some x \<and> named x) \<and> (\<forall>j < length (us_bound s). \<forall>q. us_bound s ! j = Some (q, a) \<longrightarrow> i = j)"
        using us_invD(6)[OF inv] s by (simp add: registry_ok_def)
      then show "\<exists>x. us_ep t a = Some x \<and> named x" using same(2) x n by auto
      fix j q assume "j < length (us_bound t)" "us_bound t ! j = Some (q, a)"
      then show "i = j" using r s by simp
    qed
  qed
qed

lemma inv_same:
  assumes "us_inv s pl X" "us_same s t" "us_ep t = us_ep s"
  shows "us_inv t pl X"
proof -
  have s: "us_node t = us_node s" "us_bound t = us_bound s" "us_next t = us_next s" "us_ready t = us_ready s" "us_bad t = us_bad s"
    using assms(2) by (simp_all add: us_same_def)
  have views: "ep_peer t = ep_peer s" "ep_next t = ep_next s" "ep_head t = ep_head s" "ep_tail t = ep_tail s" "\<And>a. ep_kind a t = ep_kind a s"
    using assms(3) by (auto simp: fun_eq_iff ep_peer_def ep_next_def ep_head_def ep_tail_def ep_kind_def)
  note eqs = views assms(3) held_same[OF assms(2)] s
  show ?thesis using assms(1)
    unfolding us_inv_def fresh_ok_def eps_ok_def peers_ok_def queues_ok_def nodes_ok_def registry_ok_def eqs .
qed

section \<open>Giving up references\<close>

lemma ep_upd_live: "us_ep s e = Some x \<Longrightarrow> ep_upd e f s = s\<lparr> us_ep := (us_ep s)(e \<mapsto> f x) \<rparr>"
  by (simp add: ep_upd_def)

lemma fref_fold: "fold (fref_add d) fs s = s\<lparr> us_frefs := fold (\<lambda>f m. m(f := m f + d)) fs (us_frefs s) \<rparr>"
proof (induction fs arbitrary: s)
  case (Cons f fs)
  show ?case unfolding fold_Cons o_apply Cons.IH by (simp add: fref_add_def)
qed simp

lemma destroy_conn:
  assumes "us_ep s e = Some x" "ue_used x" "ue_kind x = UEP_CONN" "ue_peer x = None" "ue_pend_head x = None"
  shows "ep_destroy_n (Suc k) e s = ep_free e (fold (fref_add (-1)) (ue_fdq x) s)"
  using assms by (simp add: Let_def ep_upd_live fref_fold ep_free_def)

definition put_res :: "nat \<Rightarrow> us \<Rightarrow> us" where
  "put_res e s = (case us_ep s e of None \<Rightarrow> s
     | Some x \<Rightarrow> if ue_refs x = 1 then ep_free e (fold (fref_add (-1)) (ue_fdq x) s) else s\<lparr> us_ep := (us_ep s)(e \<mapsto> ep_unref x) \<rparr>)"

lemma put_local:
  assumes "us_ep s e = Some x" "0 < ue_refs x"
    and "ue_refs x = 1 \<Longrightarrow> ue_used x \<and> ue_kind x = UEP_CONN \<and> ue_peer x = None \<and> ue_pend_head x = None"
  shows "ep_put_with (ep_destroy_n (Suc k)) e s = put_res e s"
proof -
  let ?s = "s\<lparr> us_ep := (us_ep s)(e \<mapsto> ep_unref x) \<rparr>"
  have d: "ep_dead e ?s \<longleftrightarrow> ue_refs x = 1" using assms(2) by (auto simp: ep_dead_def ep_unref_def)
  have "ep_destroy_n (Suc k) e ?s = ep_free e (fold (fref_add (-1)) (ue_fdq x) ?s)" if "ue_refs x = 1"
    using destroy_conn[of ?s e "ep_unref x" k] assms(3)[OF that] by (simp add: ep_unref_def del: ep_destroy_n.simps)
  then show ?thesis
    using d by (simp add: ep_put_with_def Let_def ep_upd_live[OF assms(1)] put_res_def assms(1) fref_fold ep_free_def del: ep_destroy_n.simps)
qed

lemma inv_no_queue:
  assumes "us_inv s pl X" "us_ep s e = Some x" "ue_kind x \<noteq> UEP_LISTEN"
  shows "pl e = []" "ue_pend_head x = None" "ue_pend_tail x = None"
proof -
  have q: "seg (ep_next s) (ep_head s e) (pl e) None" "ep_tail s e = (if pl e = [] then None else Some (last (pl e)))"
    "pl e \<noteq> [] \<longrightarrow> ep_kind e s = Some UEP_LISTEN"
    using us_invD(4)[OF assms(1)] by (simp_all add: queues_ok_def)
  show pl: "pl e = []" using q(3) assms(3) ep_viewsI(5)[OF assms(2)] by auto
  show "ue_pend_head x = None" "ue_pend_tail x = None" using q(1,2) pl ep_viewsI[OF assms(2)] by simp_all
qed

lemma last_ref_arith: "(1 :: nat) = of_bool h + of_bool q + of_bool p + k \<Longrightarrow> 0 < k \<Longrightarrow> \<not> h \<and> \<not> q \<and> \<not> p \<and> k = 1"
  by (cases h; cases q; cases p) auto

lemma inv_last_ref:
  assumes "us_inv s pl X" "us_ep s e = Some x" "0 < X e" "ue_refs x = 1"
  shows "ue_used x \<and> ue_kind x = UEP_CONN \<and> ue_peer x = None \<and> ue_pend_head x = None" "\<not> held s e" "\<not> queued pl e" "X e = 1"
proof -
  have l: "ep_loc (held s e) (queued pl e) (X e) (length (pl e)) x" by (rule inv_loc[OF assms(1,2)])
  show h: "\<not> held s e" "\<not> queued pl e" "X e = 1" using last_ref_arith[OF ep_locD(5)[OF l, unfolded assms(4)] assms(3)] by blast+
  have k: "ue_used x" "ue_kind x = UEP_CONN" "ue_peer x = None"
    using ep_locD(1,8)[OF l] last_ref_arith[OF ep_locD(5)[OF l, unfolded assms(4)] assms(3)] by blast+
  then show "ue_used x \<and> ue_kind x = UEP_CONN \<and> ue_peer x = None \<and> ue_pend_head x = None"
    using inv_no_queue(2)[OF assms(1,2)] by simp
qed

lemma inv_refs_pos: "us_inv s pl X \<Longrightarrow> us_ep s e = Some x \<Longrightarrow> 0 < ue_refs x"
  using ep_locD(6)[OF inv_loc] .

lemma put_eq:
  assumes "us_inv s pl X" "us_ep s e = Some x" "0 < X e"
  shows "ep_put_with (ep_destroy_n (Suc k)) e s = put_res e s"
  by (rule put_local[OF assms(2) inv_refs_pos[OF assms(1,2)]]) (rule inv_last_ref(1)[OF assms])

lemma inv_free:
  assumes inv: "us_inv s pl X" and x: "us_ep s e = Some x" "ue_kind x = UEP_CONN" "ue_peer x = None"
    and alone: "\<not> held s e" "\<not> queued pl e" and t: "us_same s t" "us_ep t = (us_ep s)(e := None)"
  shows "us_inv t pl (X(e := 0))"
proof -
  have s: "us_node t = us_node s" "us_bound t = us_bound s" "us_next t = us_next s" "us_ready t = us_ready s" "us_bad t = us_bad s"
    using t(1) by (simp_all add: us_same_def)
  have views: "ep_peer t = ep_peer s" "\<And>a. a \<noteq> e \<Longrightarrow> ep_next t a = ep_next s a" "ep_head t = ep_head s" "ep_tail t = ep_tail s"
      "\<And>a. a \<noteq> e \<Longrightarrow> ep_kind a t = ep_kind a s"
    using t(2) x inv_no_queue(2,3)[OF inv x(1)]
    by (auto simp: fun_eq_iff ep_peer_def ep_next_def ep_head_def ep_tail_def ep_kind_def)
  have ple: "pl e = []" using inv_no_queue(1)[OF inv x(1)] x(2) by simp
  have qs: "queues_ok s pl" by (rule us_invD(4)[OF inv])
  show ?thesis
  proof (rule us_invI)
    show "fresh_ok t" using us_invD(1)[OF inv] s t(2) by (auto simp: fresh_ok_def)
    show "eps_ok t pl (X(e := 0))"
      using us_invD(2)[OF inv] t(2) held_same[OF t(1)] by (simp add: eps_ok_def)
    show "peers_ok t" using us_invD(3)[OF inv] unfolding peers_ok_def views .
    have m: "v \<in> set (pl l) \<Longrightarrow> v \<noteq> e" for v l using alone(2) by (auto simp: queued_def)
    show "queues_ok t pl"
    proof (rule queuesI)
      fix l v l'
      show "seg (ep_next t) (ep_head t l) (pl l) None" unfolding views(3)
        by (rule seg_frame[OF queuesD(1)[OF qs]]) (rule views(2)[OF m])
      show "pl l \<noteq> [] \<Longrightarrow> ep_kind l t = Some UEP_LISTEN" using queuesD(4)[OF qs, of l] views(5)[of l] ple by (cases "l = e") simp_all
      show "v \<in> set (pl l) \<Longrightarrow> ep_kind v t = Some UEP_CONN" using queuesD(5)[OF qs, of v l] views(5)[OF m, of v l] by simp
    qed (use queuesD(2,3)[OF qs] queuesD(6)[OF qs] views(4) in simp_all)
    show "nodes_ok t" using us_invD(5)[OF inv] alone(1) s t(2) by (auto simp: nodes_ok_def held_def)
    show "registry_ok t" using us_invD(6)[OF inv] x s t(2) unfolding registry_ok_def by (auto simp: named_def)
  qed
qed

lemma put_same: "us_same s (put_res e s)"
  by (auto simp: us_same_def put_res_def ep_free_def fref_fold split: option.splits)

lemma inv_put:
  assumes "us_inv s pl X" "0 < X e"
  shows "us_inv (put_res e s) pl (X(e := X e - 1))"
proof -
  obtain x where x: "us_ep s e = Some x" using inv_dead(1)[OF assms(1)] assms(2) by fastforce
  show ?thesis
  proof (cases "ue_refs x = 1")
    case True
    note l = inv_last_ref[OF assms(1) x assms(2) True]
    have "us_inv (put_res e s) pl (X(e := 0))"
      by (rule inv_free[OF assms(1) x _ _ l(2,3) put_same]) (use l(1) True x in \<open>auto simp: put_res_def ep_free_def fref_fold\<close>)
    then show ?thesis using l(4) by simp
  next
    case False
    have l: "ep_loc (held s e) (queued pl e) (X e) (length (pl e)) x" by (rule inv_loc[OF assms(1) x])
    show ?thesis
      by (rule inv_upd[OF assms(1) x put_same, of _ "ep_unref x"])
        (use l False assms(2) x in \<open>auto simp: put_res_def ue_shape_def ep_unref_def ep_loc_def rx_ok_def\<close>)
  qed
qed

lemma queues_cong:
  assumes "ep_next t = ep_next s" "ep_head t = ep_head s" "ep_tail t = ep_tail s" "\<And>a. ep_kind a t = ep_kind a s" "queues_ok s pl"
  shows "queues_ok t pl"
  using assms(5) unfolding queues_ok_def assms(1-4) .

lemma registry_cong:
  assumes "us_bound t = us_bound s"
    and v: "\<And>a. map_option (\<lambda>x. (named x, ue_bound x)) (us_ep t a) = map_option (\<lambda>x. (named x, ue_bound x)) (us_ep s a)"
    and r: "registry_ok s"
  shows "registry_ok t"
proof -
  have n: "(\<exists>x. us_ep t a = Some x \<and> named x) = (\<exists>x. us_ep s a = Some x \<and> named x)" for a
    using v[of a] by (cases "us_ep t a"; cases "us_ep s a") auto
  have "\<exists>y. us_ep s a = Some y \<and> named y \<and> ue_bound y = ue_bound x" if "us_ep t a = Some x" "named x" for a x
    using v[of a] that by (cases "us_ep s a") auto
  then have "\<forall>e x. us_ep t e = Some x \<longrightarrow> named x \<longrightarrow> Some (ue_bound x, e) \<in> set (us_bound s)"
    using r unfolding registry_ok_def by metis
  then show ?thesis using r unfolding registry_ok_def assms(1) n by blast
qed

section \<open>Breaking a connection\<close>

definition unlinked :: "nat \<Rightarrow> nat \<Rightarrow> us \<Rightarrow> us" where
  "unlinked e p s = ep_upd p (\<lambda>y. y\<lparr> ue_peer := None, ue_eof := True, ue_peer_no_read := True \<rparr>)
     (ep_upd e (\<lambda>x. x\<lparr> ue_peer := None \<rparr>) s)"

lemma inv_peer:
  assumes "us_inv s pl X" "us_ep s e = Some x" "ue_peer x = Some p"
  shows "p \<noteq> e" "\<exists>y. us_ep s p = Some y \<and> ue_peer y = Some e \<and> ue_kind y = UEP_CONN" "ue_kind x = UEP_CONN"
proof -
  have "ep_peer s e = Some p" using ep_viewsI(1)[OF assms(2)] assms(3) by simp
  then have pp: "p \<noteq> e \<and> ep_peer s p = Some e" using us_invD(3)[OF assms(1)] unfolding peers_ok_def by blast
  then show "p \<noteq> e" by blast
  obtain y where y: "us_ep s p = Some y" "ue_peer y = Some e" using pp by (auto simp: ep_peer_def bind_eq_Some_conv)
  then show "\<exists>y. us_ep s p = Some y \<and> ue_peer y = Some e \<and> ue_kind y = UEP_CONN" using ep_locD(8)[OF inv_loc[OF assms(1) y(1)]] by auto
  show "ue_kind x = UEP_CONN" using ep_locD(8)[OF inv_loc[OF assms(1,2)]] assms(3) by auto
qed

lemma unlinked_eq:
  assumes "us_ep s e = Some x" "us_ep s p = Some y" "p \<noteq> e"
  shows "unlinked e p s = s\<lparr> us_ep := (us_ep s)(e \<mapsto> x\<lparr> ue_peer := None \<rparr>, p \<mapsto> y\<lparr> ue_peer := None, ue_eof := True, ue_peer_no_read := True \<rparr>) \<rparr>"
  using assms by (simp add: unlinked_def ep_upd_def)

lemma inv_unlinked:
  assumes inv: "us_inv s pl X" and x: "us_ep s e = Some x" "ue_peer x = Some p" and alone: "\<not> held s e" "\<not> queued pl e"
  shows "us_inv (unlinked e p s) pl (X(e := X e + 1, p := X p + 1))"
proof -
  note pe = inv_peer[OF inv x]
  obtain y where y: "us_ep s p = Some y" "ue_peer y = Some e" "ue_kind y = UEP_CONN" using pe(2) by blast
  let ?t = "unlinked e p s"
  have t: "us_ep ?t = (us_ep s)(e \<mapsto> x\<lparr> ue_peer := None \<rparr>, p \<mapsto> y\<lparr> ue_peer := None, ue_eof := True, ue_peer_no_read := True \<rparr>)"
    and same: "us_same s ?t" unfolding unlinked_eq[OF x(1) y(1) pe(1)] by (simp_all add: us_same_def)
  have views: "ep_peer ?t = (ep_peer s)(e := None, p := None)" "ep_next ?t = ep_next s" "ep_head ?t = ep_head s" "ep_tail ?t = ep_tail s" "\<And>a. ep_kind a ?t = ep_kind a s"
    using t x(1) y(1) pe(1) by (auto simp: fun_eq_iff ep_peer_def ep_next_def ep_head_def ep_tail_def ep_kind_def)
  have s: "us_node ?t = us_node s" "us_bound ?t = us_bound s" "us_next ?t = us_next s" "us_ready ?t = us_ready s" "us_bad ?t = us_bad s"
    using same by (simp_all add: us_same_def)
  have lx: "ep_loc (held s e) (queued pl e) (X e + 1) (length (pl e)) (x\<lparr> ue_peer := None \<rparr>)"
    using inv_loc[OF inv x(1)] x(2) pe(3) alone by (simp add: ep_loc_def rx_ok_def)
  have ly: "ep_loc (held s p) (queued pl p) (X p + 1) (length (pl p)) (y\<lparr> ue_peer := None, ue_eof := True, ue_peer_no_read := True \<rparr>)"
    using inv_loc[OF inv y(1)] y(2,3) by (simp add: ep_loc_def rx_ok_def)
  show ?thesis
  proof (rule us_invI)
    show "fresh_ok ?t" using us_invD(1)[OF inv] x(1) y(1) by (auto simp: fresh_ok_def s t)
    show "eps_ok ?t pl (X(e := X e + 1, p := X p + 1))" unfolding eps_ok_def held_same[OF same]
    proof (intro conjI allI impI)
      fix a z assume "us_ep ?t a = Some z"
      then show "ep_loc (held s a) (queued pl a) ((X(e := X e + 1, p := X p + 1)) a) (length (pl a)) z"
        using inv_loc[OF inv, of a z] lx ly t pe(1) by (cases "a = e"; cases "a = p") auto
    next
      fix a assume "us_ep ?t a = None"
      then show "(X(e := X e + 1, p := X p + 1)) a = 0" using inv_dead(1)[OF inv, of a] t by (auto split: if_splits)
    qed
    show "peers_ok ?t" unfolding peers_ok_def
    proof (intro allI impI)
      fix a b assume ab: "ep_peer ?t a = Some b"
      then have a: "a \<noteq> e" "a \<noteq> p" "ep_peer s a = Some b" using views(1) by (auto split: if_splits)
      have b: "b \<noteq> a" "ep_peer s b = Some a" using us_invD(3)[OF inv] a(3) unfolding peers_ok_def by blast+
      have "b \<noteq> e" "b \<noteq> p" using b(2) a ep_viewsI(1)[OF x(1)] ep_viewsI(1)[OF y(1)] x(2) y(2) by auto
      then show "b \<noteq> a \<and> ep_peer ?t b = Some a" using b views(1) by simp
    qed
    show "queues_ok ?t pl" by (rule queues_cong[OF views(2-5) us_invD(4)[OF inv]])
    show "nodes_ok ?t" using us_invD(5)[OF inv] t s(1) by (auto simp: nodes_ok_def)
    show "registry_ok ?t" by (rule registry_cong[OF s(2) _ us_invD(6)[OF inv]]) (simp add: t x(1) y(1) named_def)
  qed
qed

lemma break_eq:
  assumes inv: "us_inv s pl X" and x: "us_ep s e = Some x" "ue_peer x = Some p"
  shows "ep_break e s = put_res p (put_res e (unlinked e p s))"
proof -
  note pe = inv_peer[OF inv x]
  obtain y where y: "us_ep s p = Some y" "ue_peer y = Some e" "ue_kind y = UEP_CONN" using pe(2) by blast
  have r: "0 < ue_refs x" "0 < ue_refs y" using inv_refs_pos[OF inv] x(1) y(1) by auto
  let ?x = "ep_unref (x\<lparr> ue_peer := None \<rparr>)" let ?y = "ep_gone y"
  let ?s = "s\<lparr> us_ep := (us_ep s)(e \<mapsto> ?x, p \<mapsto> ?y) \<rparr>"
  have e2: "ep_upd p ep_gone (ep_upd e (\<lambda>x. ep_unref (x\<lparr> ue_peer := None \<rparr>)) s) = ?s"
    using x(1) y(1) pe(1) by (simp add: ep_upd_def)
  have d: "ep_dead e (ep_upd e (\<lambda>x. ep_unref (x\<lparr> ue_peer := None \<rparr>)) s) \<longleftrightarrow> ue_refs x = 1" "ep_dead p ?s \<longleftrightarrow> ue_refs y = 1"
    using x(1) r by (auto simp: ep_upd_def ep_dead_def ep_unref_def ep_gone_def)
  have b: "ep_break e s = (let s3 = (if ue_refs x = 1 then ep_destroy e ?s else ?s) in if ue_refs y = 1 then ep_destroy p s3 else s3)"
    using x e2 d by (simp add: ep_break_def Let_def)
  have hx: "ue_pend_head x = None" using inv_no_queue(2)[OF inv x(1)] pe(3) by simp
  have hy: "ue_pend_head y = None" using inv_no_queue(2)[OF inv y(1)] y(3) by simp
  have us: "ue_used x" "ue_used y" using ep_locD(1)[OF inv_loc[OF inv]] x(1) y(1) by auto
  have de: "ep_destroy e ?s = ep_free e (fold (fref_add (-1)) (ue_fdq x) ?s)"
    using destroy_conn[of ?s e ?x 2] x pe us hx by (simp add: ep_destroy_def ep_unref_def numeral_3_eq_3 del: ep_destroy_n.simps)
  have dp: "ep_destroy p t = ep_free p (fold (fref_add (-1)) (ue_fdq y) t)" if "us_ep t p = Some ?y" for t
    using destroy_conn[of t p ?y 2] that y us hy by (simp add: ep_destroy_def ep_unref_def ep_gone_def numeral_3_eq_3 del: ep_destroy_n.simps)
  have "us_ep (ep_destroy e ?s) p = Some ?y" using pe(1) unfolding de by (simp add: ep_free_def fref_fold)
  note dp' = dp[OF this] dp[of ?s, simplified]
  show ?thesis unfolding b unlinked_eq[OF x(1) y(1) pe(1)]
    using dp' de pe(1) by (auto simp: Let_def put_res_def ep_free_def fref_fold ep_unref_def ep_gone_def fun_upd_twist)
qed

section \<open>Closing a connected socket\<close>

lemma ep_views_cong:
  assumes "us_ep t = us_ep s"
  shows "ep_peer t = ep_peer s" "ep_next t = ep_next s" "ep_head t = ep_head s" "ep_tail t = ep_tail s" "\<And>a. ep_kind a t = ep_kind a s"
  using assms by (auto simp: fun_eq_iff ep_peer_def ep_next_def ep_head_def ep_tail_def ep_kind_def)

lemma inv_other_node:
  assumes "us_inv s pl X" "us_node s n = Some (Some e)" "us_node s m = Some (Some e)"
  shows "m = n"
  using us_invD(5)[OF assms(1)] assms(2,3) unfolding nodes_ok_def by blast

lemma inv_node_live:
  assumes "us_inv s pl X" "us_node s n = Some (Some e)"
  shows "\<exists>x. us_ep s e = Some x" "held s e" "\<not> queued pl e"
proof -
  show ex: "\<exists>x. us_ep s e = Some x" using us_invD(5)[OF assms(1)] assms(2) unfolding nodes_ok_def by blast
  show h: "held s e" using assms(2) by (auto simp: held_def)
  show "\<not> queued pl e" using ex ep_locD(7)[OF inv_loc[OF assms(1)]] h by blast
qed

lemma inv_node_clear:
  assumes inv: "us_inv s pl X" and n: "us_node s n = Some (Some e)" and x: "us_ep s e = Some x" "ue_kind x = UEP_CONN"
  shows "us_inv (node_clear n s) pl (X(e := X e + 1))" "\<not> held (node_clear n s) e" "us_node (node_clear n s) = (us_node s)(n \<mapsto> None)"
    "us_ep (node_clear n s) = us_ep s"
proof -
  let ?t = "node_clear n s"
  show nd: "us_node ?t = (us_node s)(n \<mapsto> None)" and ep: "us_ep ?t = us_ep s" by (simp_all add: node_clear_def n)
  have s: "us_bound ?t = us_bound s" "us_next ?t = us_next s" "us_ready ?t = us_ready s" "us_bad ?t = us_bad s" by (simp_all add: node_clear_def n)
  have h: "held ?t a = (held s a \<and> a \<noteq> e)" for a
  proof
    assume "held ?t a"
    then obtain m where "m \<noteq> n" "us_node s m = Some (Some a)" unfolding held_def nd by (auto split: if_splits)
    then show "held s a \<and> a \<noteq> e" using inv_other_node[OF inv n, of m] by (auto simp: held_def)
  next
    assume a: "held s a \<and> a \<noteq> e"
    then obtain m where m: "us_node s m = Some (Some a)" by (auto simp: held_def)
    then have "m \<noteq> n" using a n by auto
    then show "held ?t a" using m unfolding held_def nd by auto
  qed
  then show "\<not> held ?t e" by simp
  note he = inv_node_live[OF inv n]
  show "us_inv ?t pl (X(e := X e + 1))"
  proof (rule us_invI)
    show "fresh_ok ?t" using us_invD(1)[OF inv] n unfolding fresh_ok_def s nd ep by auto
    have lx: "ep_loc False (queued pl e) (X e + 1) (length (pl e)) x"
      using inv_loc[OF inv x(1)] x(2) he by (simp add: ep_loc_def)
    show "eps_ok ?t pl (X(e := X e + 1))" unfolding eps_ok_def ep h
    proof (intro conjI allI impI)
      fix a y assume "us_ep s a = Some y"
      then show "ep_loc (held s a \<and> a \<noteq> e) (queued pl a) ((X(e := X e + 1)) a) (length (pl a)) y"
        using inv_loc[OF inv, of a y] lx x(1) by (cases "a = e") auto
    next
      fix a assume "us_ep s a = None"
      then show "(X(e := X e + 1)) a = 0" using inv_dead(1)[OF inv, of a] x(1) by auto
    qed
    show "peers_ok ?t" using us_invD(3)[OF inv] unfolding peers_ok_def ep_views_cong[OF ep] .
    show "queues_ok ?t pl" by (rule queues_cong[OF ep_views_cong(2-5)[OF ep] us_invD(4)[OF inv]])
    show "nodes_ok ?t" using us_invD(5)[OF inv] unfolding nodes_ok_def nd ep by (auto split: if_splits)
    show "registry_ok ?t" by (rule registry_cong[OF s(1) _ us_invD(6)[OF inv]]) (simp add: ep)
  qed
qed

lemma inv_node_free:
  assumes inv: "us_inv s pl X" and n: "us_node s n = Some None"
  shows "us_inv (node_free n s) pl X"
proof -
  let ?t = "node_free n s"
  have nd: "us_node ?t = (us_node s)(n := None)" and ep: "us_ep ?t = us_ep s" and
    s: "us_bound ?t = us_bound s" "us_next ?t = us_next s" "us_ready ?t = us_ready s" "us_bad ?t = us_bad s" by (simp_all add: node_free_def n)
  have h: "held ?t = held s" unfolding held_def nd fun_upd_apply using n by (intro ext) (metis option.distinct(1) option.inject)
  show ?thesis
  proof (rule us_invI)
    show "fresh_ok ?t" using us_invD(1)[OF inv] unfolding fresh_ok_def s nd ep by auto
    show "eps_ok ?t pl X" using us_invD(2)[OF inv] unfolding eps_ok_def ep h .
    show "peers_ok ?t" using us_invD(3)[OF inv] unfolding peers_ok_def ep_views_cong[OF ep] .
    show "queues_ok ?t pl" by (rule queues_cong[OF ep_views_cong(2-5)[OF ep] us_invD(4)[OF inv]])
    show "nodes_ok ?t" using us_invD(5)[OF inv] unfolding nodes_ok_def nd ep by (auto split: if_splits)
    show "registry_ok ?t" by (rule registry_cong[OF s(1) _ us_invD(6)[OF inv]]) (simp add: ep)
  qed
qed

lemma put_node [simp]: "us_node (put_res e s) = us_node s"
  using put_same[of s e] by (simp add: us_same_def)

lemma unlinked_node [simp]: "us_node (unlinked e p s) = us_node s"
  by (simp add: unlinked_def ep_upd_def us_fault_def split: option.splits)

lemma ep_put_eq:
  assumes "us_inv s pl X" "0 < X e"
  shows "ep_put e s = put_res e s"
proof -
  obtain x where x: "us_ep s e = Some x" using inv_dead(1)[OF assms(1)] assms(2) by fastforce
  show ?thesis using put_eq[OF assms(1) x assms(2), of 2] by (simp add: ep_put_def ep_destroy_def numeral_3_eq_3 del: ep_destroy_n.simps)
qed

lemma inv_ep_put: "us_inv s pl X \<Longrightarrow> 0 < X e \<Longrightarrow> us_inv (ep_put e s) pl (X(e := X e - 1)) \<and> us_node (ep_put e s) = us_node s"
  using ep_put_eq inv_put by simp

lemma inv_break:
  assumes "us_inv s pl X" "us_ep s e = Some x" "ue_peer x = Some p" "\<not> held s e" "\<not> queued pl e"
  shows "us_inv (ep_break e s) pl X" "us_node (ep_break e s) = us_node s"
proof -
  note pe = inv_peer[OF assms(1-3)]
  have "us_inv (put_res e (unlinked e p s)) pl ((X(e := X e + 1, p := X p + 1))(e := (X(e := X e + 1, p := X p + 1)) e - 1))"
    by (rule inv_put[OF inv_unlinked[OF assms]]) (use pe(1) in simp)
  then have "us_inv (put_res e (unlinked e p s)) pl (X(p := X p + 1))" using pe(1) by (simp add: fun_upd_twist)
  from inv_put[OF this, of p] show "us_inv (ep_break e s) pl X" unfolding break_eq[OF assms(1-3)] by simp
  show "us_node (ep_break e s) = us_node s" unfolding break_eq[OF assms(1-3)] by simp
qed

lemma inv_close_conn:
  assumes inv: "us_inv s pl X" and x: "us_ep s e = Some x" "0 < X e" and alone: "\<not> held s e" "\<not> queued pl e"
  shows "us_inv (unix_node_close_conn e s) pl (X(e := X e - 1))" "us_node (unix_node_close_conn e s) = us_node s"
proof -
  let ?s = "if ue_peer x \<noteq> None then ep_break e s else s"
  have "us_inv ?s pl X \<and> us_node ?s = us_node s" using inv inv_break[OF inv x(1) _ alone] by (cases "ue_peer x") auto
  then show "us_inv (unix_node_close_conn e s) pl (X(e := X e - 1))" "us_node (unix_node_close_conn e s) = us_node s"
    using inv_ep_put[of ?s pl X e] x unfolding unix_node_close_conn_def by simp_all
qed

lemma close_connected:
  assumes inv: "us_inv s pl X" and n: "us_node s n = Some (Some e)" and x: "us_ep s e = Some x" "ue_kind x = UEP_CONN"
  shows "us_inv (unix_node_close n s) pl X"
proof -
  note c = inv_node_clear[OF inv n x]
  have used: "ue_used x" by (rule ep_locD(1)[OF inv_loc[OF inv x(1)]])
  have "us_ep (node_clear n s) e = Some x" by (simp add: c(4) x(1))
  note cc = inv_close_conn[OF c(1) this _ c(2) inv_node_live(3)[OF inv n], simplified]
  have "us_inv (node_free n (unix_node_close_conn e (node_clear n s))) pl X"
    by (rule inv_node_free[OF cc(1)]) (simp add: cc(2) c(3))
  then show ?thesis using n c(4) x used by (simp add: unix_node_close_def Let_def)
qed

section \<open>Queues of pending connections\<close>

lemma queued_append: "queued (pl(l := pl l @ [v])) a \<longleftrightarrow> queued pl a \<or> a = v"
  unfolding queued_def by (auto split: if_splits)

lemma queued_tl:
  assumes "queues_ok s pl" "pl l = v # r"
  shows "queued (pl(l := r)) a \<longleftrightarrow> queued pl a \<and> a \<noteq> v"
proof
  assume "queued (pl(l := r)) a"
  then obtain k where k: "a \<in> set ((pl(l := r)) k)" by (auto simp: queued_def)
  then have "a \<in> set (pl k)" using assms(2) by (auto split: if_splits)
  moreover have "a \<noteq> v"
  proof
    assume a: "a = v"
    then have "k = l" using queuesD(6)[OF assms(1), of a k l] \<open>a \<in> set (pl k)\<close> assms(2) by simp
    then show False using k a queuesD(3)[OF assms(1), of l] assms(2) by simp
  qed
  ultimately show "queued pl a \<and> a \<noteq> v" by (auto simp: queued_def)
next
  assume "queued pl a \<and> a \<noteq> v"
  then obtain k where "a \<in> set (pl k)" "a \<noteq> v" by (auto simp: queued_def)
  then have "a \<in> set ((pl(l := r)) k)" using assms(2) by auto
  then show "queued (pl(l := r)) a" unfolding queued_def by blast
qed

text \<open>The state after appending \<open>v\<close> to the queue of \<open>l\<close>, whose last element so far is \<open>z\<close>.\<close>

definition enq_ep :: "nat option \<Rightarrow> nat \<Rightarrow> nat \<Rightarrow> (nat \<Rightarrow> uep option) \<Rightarrow> nat \<Rightarrow> uep option" where
  "enq_ep z l v g a =
     (if a = v then map_option (\<lambda>y. y\<lparr> ue_pend_next := None, ue_refs := ue_refs y + 1 \<rparr>) (g a)
      else if a = l then map_option (\<lambda>x. x\<lparr> ue_pend_head := (if z = None then Some v else ue_pend_head x), ue_pend_tail := Some v,
        ue_pend_count := ue_pend_count x + 1 \<rparr>) (g a)
      else if z = Some a then map_option (\<lambda>x. x\<lparr> ue_pend_next := Some v \<rparr>) (g a) else g a)"

lemma inv_queue_live:
  assumes "us_inv s pl X" "v \<in> set (pl l)"
  shows "\<exists>y. us_ep s v = Some y \<and> ue_kind y = UEP_CONN" "queued pl v" "v \<noteq> l" "\<exists>x. us_ep s l = Some x \<and> ue_kind x = UEP_LISTEN"
proof -
  note q = us_invD(4)[OF assms(1)]
  show v: "\<exists>y. us_ep s v = Some y \<and> ue_kind y = UEP_CONN" using queuesD(5)[OF q assms(2)] by (rule ep_kindD)
  show "queued pl v" using assms(2) by (auto simp: queued_def)
  have "ep_kind l s = Some UEP_LISTEN" by (rule queuesD(4)[OF q]) (use assms(2) in auto)
  then show "\<exists>x. us_ep s l = Some x \<and> ue_kind x = UEP_LISTEN" by (rule ep_kindD)
  then show "v \<noteq> l" using v by auto
qed

lemma inv_enqueue:
  assumes inv: "us_inv s pl X" and y: "us_ep s v = Some y" "ue_kind y = UEP_CONN" "ue_peer y \<noteq> None" "\<not> held s v" "\<not> queued pl v"
    and x: "us_ep s l = Some x" "ue_kind x = UEP_LISTEN"
    and t: "us_same s t" "us_ep t = enq_ep (ue_pend_tail x) l v (us_ep s)"
  shows "us_inv t (pl(l := pl l @ [v])) X"
proof -
  let ?pl = "pl(l := pl l @ [v])"
  note q = us_invD(4)[OF inv]
  have vl: "v \<noteq> l" using x y by auto
  have z: "ue_pend_tail x = (if pl l = [] then None else Some (last (pl l)))" using queuesD(2)[OF q, of l] ep_viewsI(4)[OF x(1)] by simp
  have m: "u \<in> set (pl k) \<Longrightarrow> u \<noteq> v" for u k using y(5) by (auto simp: queued_def)
  have views: "ep_peer t = ep_peer s" "ep_next t = (\<lambda>a. if a = v then None else if ue_pend_tail x = Some a then Some v else ep_next s a)"
    "ep_head t = (ep_head s)(l := if ue_pend_tail x = None then Some v else ep_head s l)" "ep_tail t = (ep_tail s)(l := Some v)"
    "\<And>a. ep_kind a t = ep_kind a s"
  proof -
    have zk: "\<exists>y. us_ep s a = Some y \<and> ue_kind y = UEP_CONN" if "ue_pend_tail x = Some a" for a
      using that z inv_queue_live(1)[OF inv, of a l] by (auto split: if_splits)
    show "ep_peer t = ep_peer s" "ep_kind a t = ep_kind a s" for a
      by (auto simp: fun_eq_iff ep_peer_def ep_kind_def t(2) enq_ep_def option.map_comp o_def bind_map_option)
    show "ep_next t = (\<lambda>a. if a = v then None else if ue_pend_tail x = Some a then Some v else ep_next s a)"
    proof
      fix a show "ep_next t a = (if a = v then None else if ue_pend_tail x = Some a then Some v else ep_next s a)"
        using zk[of a] x(1,2) vl y(1) by (auto simp: ep_next_def t(2) enq_ep_def)
    qed
    show "ep_head t = (ep_head s)(l := if ue_pend_tail x = None then Some v else ep_head s l)" "ep_tail t = (ep_tail s)(l := Some v)"
      using x(1) vl by (auto simp: fun_eq_iff ep_head_def ep_tail_def t(2) enq_ep_def bind_map_option o_def)
  qed
  have s: "us_node t = us_node s" "us_bound t = us_bound s" "us_next t = us_next s" "us_ready t = us_ready s" "us_bad t = us_bad s"
    using t(1) by (simp_all add: us_same_def)
  show ?thesis
  proof (rule us_invI)
    show "fresh_ok t" using us_invD(1)[OF inv] unfolding fresh_ok_def s by (auto simp: t(2) enq_ep_def)
    have lv: "ep_loc (held s v) True (X v) (length (pl v)) (y\<lparr> ue_pend_next := None, ue_refs := ue_refs y + 1 \<rparr>)"
      using inv_loc[OF inv y(1)] y by (auto simp: ep_loc_def rx_ok_def)
    have ll: "ep_loc (held s l) (queued pl l) (X l) (length (pl l) + 1)
        (x\<lparr> ue_pend_head := h, ue_pend_tail := Some v, ue_pend_count := ue_pend_count x + 1 \<rparr>)" for h
      using inv_loc[OF inv x(1)] x(2) by (simp add: ep_loc_def rx_ok_def)
    have ln: "ep_loc (held s a) (queued pl a) (X a) (length (pl a)) (w\<lparr> ue_pend_next := Some v \<rparr>)" if "us_ep s a = Some w" for a w
      using inv_loc[OF inv that] by simp
    show "eps_ok t ?pl X" unfolding eps_ok_def held_same[OF t(1)] queued_append
    proof (intro conjI allI impI)
      fix a w assume "us_ep t a = Some w"
      then show "ep_loc (held s a) (queued pl a \<or> a = v) (X a) (length (?pl a)) w"
        using lv ll ll[of "ue_pend_head x"] ln[of a] vl x(1) y(1) inv_loc[OF inv, of a w]
        by (cases "a = v"; cases "a = l"; cases "ue_pend_tail x = Some a") (auto simp: t(2) enq_ep_def)
    qed (use inv_dead(1)[OF inv] in \<open>auto simp: t(2) enq_ep_def split: if_splits\<close>)
    show "peers_ok t" using us_invD(3)[OF inv] unfolding peers_ok_def views(1) .
    show "queues_ok t ?pl"
    proof (rule queuesI)
      fix k u k'
      show "seg (ep_next t) (ep_head t k) (?pl k) None"
      proof (cases "k = l")
        case True
        have "seg (ep_next t) (if pl l = [] then Some v else ep_head s l) (pl l @ [v]) None"
          by (rule seg_snoc[OF queuesD(1)[OF q] queuesD(3)[OF q]]) (use m m[OF last_in_set] z in \<open>auto simp: views(2)\<close>)
        then show ?thesis using True z by (simp add: views(3) split: if_splits)
      next
        case False
        have "ep_next t u = ep_next s u" if "u \<in> set (pl k)" for u
          using m[OF that] z queuesD(6)[OF q that, of l] False by (auto simp: views(2) split: if_splits)
        then show ?thesis using False seg_frame[OF queuesD(1)[OF q, of k]] by (simp add: views(3))
      qed
      show "ep_tail t k = (if ?pl k = [] then None else Some (last (?pl k)))" using queuesD(2)[OF q, of k] by (simp add: views(4))
      show "distinct (?pl k)" using queuesD(3)[OF q, of k] m by auto
      show "?pl k \<noteq> [] \<Longrightarrow> ep_kind k t = Some UEP_LISTEN"
        using queuesD(4)[OF q, of k] ep_viewsI(5)[OF x(1)] x(2) by (cases "k = l") (simp_all add: views(5))
      show "u \<in> set (?pl k) \<Longrightarrow> ep_kind u t = Some UEP_CONN"
        using queuesD(5)[OF q, of u k] ep_viewsI(5)[OF y(1)] y(2) by (auto simp: views(5) split: if_splits)
      show "u \<in> set (?pl k) \<Longrightarrow> u \<in> set (?pl k') \<Longrightarrow> k = k'"
        using queuesD(6)[OF q, of u k k'] m[of u] by (auto split: if_splits)
    qed
    show "nodes_ok t" using us_invD(5)[OF inv] unfolding nodes_ok_def s(1) by (auto simp: t(2) enq_ep_def)
    show "registry_ok t" by (rule registry_cong[OF s(2) _ us_invD(6)[OF inv]]) (auto simp: t(2) enq_ep_def option.map_comp o_def named_def)
  qed
qed

lemma pend_append_eq:
  assumes inv: "us_inv s pl X" and y: "us_ep s v = Some y" and x: "us_ep s l = Some x" "ue_kind x = UEP_LISTEN" and vl: "v \<noteq> l" "\<not> queued pl v"
  shows "us_same s (pend_append l v s)" "us_ep (pend_append l v s) = enq_ep (ue_pend_tail x) l v (us_ep s)"
proof -
  have z: "ue_pend_tail x = (if pl l = [] then None else Some (last (pl l)))"
    using queuesD(2)[OF us_invD(4)[OF inv], of l] ep_viewsI(4)[OF x(1)] by simp
  have zk: "(\<exists>w. us_ep s a = Some w) \<and> a \<noteq> l \<and> a \<noteq> v" if "ue_pend_tail x = Some a" for a
  proof -
    have "a \<in> set (pl l)" using that z by (auto split: if_splits)
    from inv_queue_live[OF inv this] show ?thesis using vl(2) by auto
  qed
  let ?s1 = "s\<lparr> us_ep := (us_ep s)(v \<mapsto> y\<lparr> ue_pend_next := None \<rparr>) \<rparr>"
  let ?fin = "\<lambda>s2. ep_upd v (\<lambda>y. y\<lparr> ue_refs := ue_refs y + 1 \<rparr>) (ep_upd l (\<lambda>l. l\<lparr> ue_pend_tail := Some v, ue_pend_count := ue_pend_count l + 1 \<rparr>) s2)"
  have e: "pend_append l v s = ?fin (case ue_pend_tail x of Some t \<Rightarrow> ep_upd t (\<lambda>y. y\<lparr> ue_pend_next := Some v \<rparr>) ?s1
      | None \<Rightarrow> ep_upd l (\<lambda>l. l\<lparr> ue_pend_head := Some v \<rparr>) ?s1)"
    using y x(1) vl(1) by (simp add: pend_append_def ep_upd_live[OF y] Let_def)
  have "us_same s (pend_append l v s) \<and> us_ep (pend_append l v s) = enq_ep (ue_pend_tail x) l v (us_ep s)"
  proof (cases "ue_pend_tail x")
    case None
    then show ?thesis unfolding e using y x(1) vl(1) by (auto simp: ep_upd_def us_same_def enq_ep_def fun_eq_iff)
  next
    case (Some a)
    obtain w where "us_ep s a = Some w" "a \<noteq> l" "a \<noteq> v" using zk[OF Some] by blast
    then show ?thesis unfolding e using Some y x(1) vl(1) by (auto simp: ep_upd_def us_same_def enq_ep_def fun_eq_iff)
  qed
  then show "us_same s (pend_append l v s)" "us_ep (pend_append l v s) = enq_ep (ue_pend_tail x) l v (us_ep s)" by blast+
qed

text \<open>The state after taking the first element \<open>v\<close> out of the queue of \<open>l\<close>.\<close>

definition deq_ep :: "nat \<Rightarrow> nat \<Rightarrow> (nat \<Rightarrow> uep option) \<Rightarrow> nat \<Rightarrow> uep option" where
  "deq_ep l v g = (let nx = Option.bind (g v) ue_pend_next in
     g(l := map_option (\<lambda>x. x\<lparr> ue_pend_head := nx, ue_pend_tail := (if nx = None then None else ue_pend_tail x),
         ue_pend_count := ue_pend_count x - 1 \<rparr>) (g l),
       v := map_option (\<lambda>y. y\<lparr> ue_pend_next := None \<rparr>) (g v)))"

lemma inv_dequeue:
  assumes inv: "us_inv s pl X" and pl: "pl l = v # r" and t: "us_same s t" "us_ep t = deq_ep l v (us_ep s)"
  shows "us_inv t (pl(l := r)) (X(v := X v + 1))"
proof -
  let ?pl = "pl(l := r)"
  note q = us_invD(4)[OF inv]
  have vin: "v \<in> set (pl l)" using pl by simp
  note vl = inv_queue_live[OF inv vin]
  obtain y where y: "us_ep s v = Some y" "ue_kind y = UEP_CONN" using vl(1) by blast
  obtain x where x: "us_ep s l = Some x" "ue_kind x = UEP_LISTEN" using vl(4) by blast
  have nr: "ep_next s v = (case r of [] \<Rightarrow> None | u # _ \<Rightarrow> Some u)" using queuesD(1)[OF q, of l] pl by (cases r) auto
  have m: "u \<in> set (?pl k) \<Longrightarrow> u \<noteq> v" for u k
    using queued_tl[OF q pl, of u] by (auto simp: queued_def)
  have views: "ep_peer t = ep_peer s" "ep_next t = (ep_next s)(v := None)" "ep_head t = (ep_head s)(l := ep_next s v)"
    "ep_tail t = (ep_tail s)(l := if ep_next s v = None then None else ep_tail s l)" "\<And>a. ep_kind a t = ep_kind a s"
    using x(1) y(1) vl(3) by (auto simp: t(2) deq_ep_def Let_def fun_eq_iff ep_peer_def ep_next_def ep_head_def ep_tail_def ep_kind_def)
  have s: "us_node t = us_node s" "us_bound t = us_bound s" "us_next t = us_next s" "us_ready t = us_ready s" "us_bad t = us_bad s"
    using t(1) by (simp_all add: us_same_def)
  show ?thesis
  proof (rule us_invI)
    show "fresh_ok t" using us_invD(1)[OF inv] unfolding fresh_ok_def s by (auto simp: t(2) deq_ep_def Let_def)
    have lv: "ep_loc (held s v) False (X v + 1) (length (pl v)) (y\<lparr> ue_pend_next := None \<rparr>)"
      using inv_loc[OF inv y(1)] y(2) vl(2) by (simp add: ep_loc_def rx_ok_def)
    have ll: "ep_loc (held s l) (queued pl l) (X l) (length r) (x\<lparr> ue_pend_head := h, ue_pend_tail := z, ue_pend_count := ue_pend_count x - 1 \<rparr>)" for h z
      using inv_loc[OF inv x(1)] x(2) pl by (simp add: ep_loc_def rx_ok_def)
    show "eps_ok t ?pl (X(v := X v + 1))" unfolding eps_ok_def held_same[OF t(1)] queued_tl[OF q pl]
    proof (intro conjI allI impI)
      fix a w assume "us_ep t a = Some w"
      then show "ep_loc (held s a) (queued pl a \<and> a \<noteq> v) ((X(v := X v + 1)) a) (length (?pl a)) w"
        using lv ll vl(3) x(1) y(1) inv_loc[OF inv, of a w]
        by (cases "a = v"; cases "a = l") (auto simp: t(2) deq_ep_def Let_def)
    qed (use inv_dead(1)[OF inv] x(1) y(1) in \<open>auto simp: t(2) deq_ep_def Let_def split: if_splits\<close>)
    show "peers_ok t" using us_invD(3)[OF inv] unfolding peers_ok_def views(1) .
    show "queues_ok t ?pl"
    proof (rule queuesI)
      fix k u k'
      have "seg (ep_next s) (ep_head t k) (?pl k) None" using queuesD(1)[OF q, of k] pl by (auto simp: views(3))
      then show "seg (ep_next t) (ep_head t k) (?pl k) None" by (rule seg_frame) (simp add: views(2) m)
      show "ep_tail t k = (if ?pl k = [] then None else Some (last (?pl k)))"
        using queuesD(2)[OF q, of k] nr pl by (auto simp: views(4) split: list.splits)
      show "distinct (?pl k)" using queuesD(3)[OF q, of k] pl by auto
      show "?pl k \<noteq> [] \<Longrightarrow> ep_kind k t = Some UEP_LISTEN" using queuesD(4)[OF q, of k] pl by (auto simp: views(5) split: if_splits)
      show "u \<in> set (?pl k) \<Longrightarrow> ep_kind u t = Some UEP_CONN" using queuesD(5)[OF q, of u k] pl by (auto simp: views(5) split: if_splits)
      show "u \<in> set (?pl k) \<Longrightarrow> u \<in> set (?pl k') \<Longrightarrow> k = k'"
        using queuesD(6)[OF q, of u k k'] pl by (auto split: if_splits)
    qed
    show "nodes_ok t" using us_invD(5)[OF inv] unfolding nodes_ok_def s(1) by (auto simp: t(2) deq_ep_def Let_def)
    show "registry_ok t" by (rule registry_cong[OF s(2) _ us_invD(6)[OF inv]]) (auto simp: t(2) deq_ep_def Let_def option.map_comp o_def named_def)
  qed
qed

section \<open>New endpoints and nodes\<close>

lemma inv_next:
  assumes inv: "us_inv s pl X" and t: "us_ep t = us_ep s" "us_node t = us_node s" "us_bound t = us_bound s" "us_ready t = us_ready s" "us_bad t = us_bad s"
      "us_next s \<le> us_next t"
  shows "us_inv t pl X"
proof -
  have h: "held t = held s" by (simp add: held_def t(2) fun_eq_iff)
  show ?thesis
  proof (rule us_invI)
    show "fresh_ok t" using us_invD(1)[OF inv] t(6) by (simp add: fresh_ok_def t(1-5))
    show "eps_ok t pl X" using us_invD(2)[OF inv] unfolding eps_ok_def t(1) h .
    show "peers_ok t" using us_invD(3)[OF inv] unfolding peers_ok_def ep_views_cong[OF t(1)] .
    show "queues_ok t pl" by (rule queues_cong[OF ep_views_cong(2-5)[OF t(1)] us_invD(4)[OF inv]])
    show "nodes_ok t" using us_invD(5)[OF inv] unfolding nodes_ok_def t(1,2) .
    show "registry_ok t" by (rule registry_cong[OF t(3) _ us_invD(6)[OF inv]]) (simp add: t(1))
  qed
qed

text \<open>Two endpoints are connected: a new one, and one that is new or has not been used so far.\<close>

lemma inv_pair:
  assumes inv: "us_inv s pl X"
    and ab: "us_ep s a = None" "a \<noteq> b" "us_ep s b = None \<or> (\<exists>z. us_ep s b = Some z \<and> ue_kind z = UEP_NONE)"
    and t: "us_ep t = (us_ep s)(a \<mapsto> x, b \<mapsto> y)" "us_node t = us_node s" "us_bound t = us_bound s" "us_ready t = us_ready s" "us_bad t = us_bad s"
      "us_next s \<le> us_next t" "a < us_next t" "b < us_next t"
    and x: "ue_kind x = UEP_CONN" "ue_peer x = Some b" "ue_pend_head x = None" "ue_pend_tail x = None" "ep_loc (held s a) False (X a) 0 x"
    and y: "ue_kind y = UEP_CONN" "ue_peer y = Some a" "ue_pend_head y = None" "ue_pend_tail y = None" "ep_loc (held s b) False (X b) 0 y"
  shows "us_inv t pl X"
proof -
  note q = us_invD(4)[OF inv]
  have h: "held t = held s" by (simp add: held_def t(2) fun_eq_iff)
  have peer0: "ep_peer s a = None" "ep_peer s b = None"
    using ab(1,3) ep_locD(8)[OF inv_loc[OF inv, of b]] by (auto simp: ep_peer_def)
  have nq: "\<not> queued pl a" "\<not> queued pl b"
    using inv_dead(4)[OF inv ab(1)] inv_dead(4)[OF inv, of b] ab(3) inv_queue_live(1)[OF inv, of b] by (auto simp: queued_def)
  have pab: "pl a = []" "pl b = []" using inv_dead(2)[OF inv ab(1)] inv_dead(2)[OF inv, of b] inv_no_queue(1)[OF inv, of b] ab(3) by auto
  have hd0: "ep_head s a = None" "ep_head s b = None" "ep_tail s a = None" "ep_tail s b = None"
    using queuesD(1,2)[OF q, of a] queuesD(1,2)[OF q, of b] pab by auto
  have views: "ep_peer t = (ep_peer s)(a := Some b, b := Some a)" "\<And>u. u \<noteq> a \<Longrightarrow> u \<noteq> b \<Longrightarrow> ep_next t u = ep_next s u"
    "ep_head t = ep_head s" "ep_tail t = ep_tail s" "\<And>u. u \<noteq> a \<Longrightarrow> u \<noteq> b \<Longrightarrow> ep_kind u t = ep_kind u s"
    using x y ab(2) hd0 by (auto simp: t(1) fun_eq_iff ep_peer_def ep_next_def ep_head_def ep_tail_def ep_kind_def)
  have m: "u \<in> set (pl k) \<Longrightarrow> u \<noteq> a \<and> u \<noteq> b" for u k using nq by (auto simp: queued_def)
  show ?thesis
  proof (rule us_invI)
    show "fresh_ok t" using us_invD(1)[OF inv] t(6-8) by (auto simp: fresh_ok_def t(1-5))
    show "eps_ok t pl X" unfolding eps_ok_def h
    proof (intro conjI allI impI)
      fix u w assume "us_ep t u = Some w"
      then show "ep_loc (held s u) (queued pl u) (X u) (length (pl u)) w"
        using inv_loc[OF inv, of u w] x(5) y(5) nq pab by (auto simp: t(1) split: if_splits)
    qed (use inv_dead(1)[OF inv] in \<open>auto simp: t(1) split: if_splits\<close>)
    show "peers_ok t" unfolding peers_ok_def
    proof (intro allI impI)
      fix u w assume uw: "ep_peer t u = Some w"
      show "w \<noteq> u \<and> ep_peer t w = Some u"
      proof (cases "u = a \<or> u = b")
        case True
        then show ?thesis using uw ab(2) by (auto simp: views(1))
      next
        case False
        then have "ep_peer s u = Some w" using uw by (simp add: views(1))
        then have w: "w \<noteq> u" "ep_peer s w = Some u" using us_invD(3)[OF inv] unfolding peers_ok_def by blast+
        then have "w \<noteq> a" "w \<noteq> b" using peer0 by auto
        then show ?thesis using w by (simp add: views(1))
      qed
    qed
    show "queues_ok t pl"
    proof (rule queuesI)
      fix k u k'
      show "seg (ep_next t) (ep_head t k) (pl k) None" unfolding views(3)
        by (rule seg_frame[OF queuesD(1)[OF q]]) (use m views(2) in auto)
      show "pl k \<noteq> [] \<Longrightarrow> ep_kind k t = Some UEP_LISTEN" using queuesD(4)[OF q, of k] views(5)[of k] pab by (cases "k = a \<or> k = b") auto
      show "u \<in> set (pl k) \<Longrightarrow> ep_kind u t = Some UEP_CONN" using queuesD(5)[OF q, of u k] views(5)[of u] m[of u k] by simp
    qed (use queuesD(2,3)[OF q] queuesD(6)[OF q] views(4) in simp_all)
    show "nodes_ok t" using us_invD(5)[OF inv] by (auto simp: nodes_ok_def t(1,2))
    have r: "registry_ok s" by (rule us_invD(6)[OF inv])
    have nb: "u \<noteq> a \<and> u \<noteq> b" if "us_ep s u = Some w" "named w" for u w using that ab by (auto simp: named_def)
    show "registry_ok t" unfolding registry_ok_def t(3)
    proof (intro conjI allI impI)
      fix u w assume "us_ep t u = Some w" "named w"
      then show "Some (ue_bound w, u) \<in> set (us_bound s)" using r x(1) y(1) unfolding registry_ok_def by (auto simp: t(1) named_def split: if_splits)
    next
      fix i p u assume i: "i < length (us_bound s)" "us_bound s ! i = Some (p, u)"
      then have "\<exists>w. us_ep s u = Some w \<and> named w" using r unfolding registry_ok_def by blast
      then show "\<exists>w. us_ep t u = Some w \<and> named w" using nb by (auto simp: t(1))
      fix j qq assume "j < length (us_bound s)" "us_bound s ! j = Some (qq, u)"
      then show "i = j" using r i unfolding registry_ok_def by blast
    qed
  qed
qed

lemma inv_fresh: "us_inv s pl X \<Longrightarrow> us_next s \<le> a \<Longrightarrow> us_ep s a = None \<and> us_node s a = None"
  using us_invD(1)[of s pl X] by (simp add: fresh_ok_def)

lemma queue_length:
  assumes inv: "us_inv s pl X"
  shows "length (pl l) \<le> us_next s"
proof -
  have "set (pl l) \<subseteq> {..<us_next s}"
  proof
    fix v assume "v \<in> set (pl l)"
    then have "us_ep s v \<noteq> None" using inv_queue_live(1)[OF inv] by fastforce
    then show "v \<in> {..<us_next s}" using inv_fresh[OF inv, of v] by (cases "us_next s \<le> v") auto
  qed
  then have "card (set (pl l)) \<le> us_next s" using card_mono[of "{..<us_next s}"] by simp
  then show ?thesis using distinct_card[OF queuesD(3)[OF us_invD(4)[OF inv], of l]] by simp
qed

lemma held_new:
  assumes "us_node t = (us_node s)(n \<mapsto> Some e)" "us_node s n = None"
  shows "held t a \<longleftrightarrow> held s a \<or> a = e"
  unfolding held_def assms(1) fun_upd_apply using assms(2) by (metis option.distinct(1) option.inject)

lemma nodes_new:
  assumes "nodes_ok s" "\<not> held s e" "us_node t = (us_node s)(n \<mapsto> Some e)" "us_ep t e \<noteq> None" "\<And>a. us_ep s a \<noteq> None \<Longrightarrow> us_ep t a \<noteq> None"
  shows "nodes_ok t"
proof -
  have nh: "us_node s m \<noteq> Some (Some e)" for m using assms(2) by (auto simp: held_def)
  have "us_node s m = Some (Some a) \<Longrightarrow> us_ep t a \<noteq> None" for m a using assms(1,5) unfolding nodes_ok_def by blast
  moreover have "us_node s m = Some (Some a) \<Longrightarrow> us_node s k = Some (Some a) \<Longrightarrow> m = k" for m k a using assms(1) unfolding nodes_ok_def by blast
  ultimately show ?thesis unfolding nodes_ok_def assms(3) fun_upd_apply using nh assms(4) by (metis option.inject)
qed

lemma inv_make_node:
  assumes inv: "us_inv s pl X" and x: "us_ep s e = Some x" "ue_kind x = UEP_CONN" "ue_peer x = None \<Longrightarrow> ue_eof x \<and> ue_peer_no_read x"
    and alone: "\<not> held s e" "\<not> queued pl e" and mk: "unix_make_node True e s = (Some n, t)"
  shows "us_inv t pl X" "n = us_next s" "us_node t = (us_node s)(n \<mapsto> Some e)" "us_ep t = (us_ep s)(e \<mapsto> x\<lparr> ue_node := Some n, ue_refs := ue_refs x + 1 \<rparr>)"
proof -
  let ?x = "x\<lparr> ue_node := Some n, ue_refs := ue_refs x + 1 \<rparr>"
  show n: "n = us_next s" and nd: "us_node t = (us_node s)(n \<mapsto> Some e)" and ep: "us_ep t = (us_ep s)(e \<mapsto> ?x)"
    using mk x(1) by (auto simp: unix_make_node_def Let_def ep_upd_def)
  have s: "us_bound t = us_bound s" "us_next t = us_next s + 1" "us_ready t = us_ready s" "us_bad t = us_bad s"
    using mk x(1) by (auto simp: unix_make_node_def Let_def ep_upd_def)
  note fr = inv_fresh[OF inv, of n, simplified n, simplified]
  note h = held_new[OF nd]
  have views: "ep_peer t = ep_peer s" "ep_next t = ep_next s" "ep_head t = ep_head s" "ep_tail t = ep_tail s" "\<And>a. ep_kind a t = ep_kind a s"
    using x(1) by (auto simp: ep fun_eq_iff ep_peer_def ep_next_def ep_head_def ep_tail_def ep_kind_def)
  show "us_inv t pl X"
  proof (rule us_invI)
    show "fresh_ok t" using us_invD(1)[OF inv] x(1) by (auto simp: fresh_ok_def s nd ep n)
    have lx: "ep_loc True (queued pl e) (X e) (length (pl e)) ?x"
      using inv_loc[OF inv x(1)] x(2,3) alone by (auto simp: ep_loc_def rx_ok_def)
    show "eps_ok t pl X" unfolding eps_ok_def
    proof (intro conjI allI impI)
      fix a w assume "us_ep t a = Some w"
      then show "ep_loc (held t a) (queued pl a) (X a) (length (pl a)) w"
        using h[of a] fr n lx inv_loc[OF inv, of a w] by (cases "a = e") (auto simp: ep)
    qed (use inv_dead(1)[OF inv] in \<open>auto simp: ep split: if_splits\<close>)
    show "peers_ok t" using us_invD(3)[OF inv] unfolding peers_ok_def views(1) .
    show "queues_ok t pl" by (rule queues_cong[OF views(2-5) us_invD(4)[OF inv]])
    show "nodes_ok t" by (rule nodes_new[OF us_invD(5)[OF inv] alone(1) nd]) (auto simp: ep)
    show "registry_ok t" by (rule registry_cong[OF s(1) _ us_invD(6)[OF inv]]) (simp add: ep x(1) named_def)
  qed
qed

lemma rx_ok_new: "rx_ok uep_new"
  by (simp add: rx_ok_def uep_new_def unix_buf_pos)

text \<open>A new endpoint with its node.\<close>

lemma inv_create:
  assumes inv: "us_inv s pl X" and mk: "ep_alloc True s = (Some e, s1)" "unix_make_node True e s1 = (Some n, t)"
  shows "us_inv t pl X"
proof -
  let ?x = "uep_new\<lparr> ue_node := Some n, ue_refs := 1 \<rparr>"
  have e: "e = us_next s" and n: "n = us_next s + 1" and ep: "us_ep t = (us_ep s)(e \<mapsto> ?x)" and nd: "us_node t = (us_node s)(n \<mapsto> Some e)"
    and s: "us_bound t = us_bound s" "us_next t = us_next s + 2" "us_ready t = us_ready s" "us_bad t = us_bad s"
    using mk by (auto simp: ep_alloc_def unix_make_node_def Let_def ep_upd_def uep_new_def)
  note fr = inv_fresh[OF inv]
  have fe: "us_ep s e = None" and fn: "us_node s n = None" using fr[of e] fr[of n] e n by auto
  note dead = inv_dead[OF inv fe]
  note h = held_new[OF nd fn]
  have k: "ue_kind ?x = UEP_NONE" "ue_peer ?x = None" "ue_pend_head ?x = None" "ue_pend_tail ?x = None" "ue_pend_next ?x = None"
    by (simp_all add: uep_new_def)
  have views: "ep_peer t = ep_peer s" "ep_next t = ep_next s" "ep_head t = ep_head s" "ep_tail t = ep_tail s" "\<And>a. a \<noteq> e \<Longrightarrow> ep_kind a t = ep_kind a s"
    using fe k by (auto simp: ep fun_eq_iff ep_peer_def ep_next_def ep_head_def ep_tail_def ep_kind_def)
  note q = us_invD(4)[OF inv]
  show ?thesis
  proof (rule us_invI)
    show "fresh_ok t" using us_invD(1)[OF inv] by (auto simp: fresh_ok_def s nd ep n e)
    have lx: "ep_loc True False 0 0 ?x" using rx_ok_new by (simp add: ep_loc_def rx_ok_def uep_new_def)
    show "eps_ok t pl X" unfolding eps_ok_def h
    proof (intro conjI allI impI)
      fix a w assume "us_ep t a = Some w"
      then show "ep_loc (held s a \<or> a = e) (queued pl a) (X a) (length (pl a)) w"
        using lx dead inv_loc[OF inv, of a w] by (cases "a = e") (auto simp: ep)
    qed (use inv_dead(1)[OF inv] in \<open>auto simp: ep split: if_splits\<close>)
    show "peers_ok t" using us_invD(3)[OF inv] unfolding peers_ok_def views(1) .
    show "queues_ok t pl"
    proof (rule queuesI)
      fix k u k'
      show "pl k \<noteq> [] \<Longrightarrow> ep_kind k t = Some UEP_LISTEN" using queuesD(4)[OF q, of k] views(5)[of k] dead(2) by (cases "k = e") auto
      show "u \<in> set (pl k) \<Longrightarrow> ep_kind u t = Some UEP_CONN"
        using queuesD(5)[OF q, of u k] views(5)[of u] dead(4) by (cases "u = e") (auto simp: queued_def)
    qed (use queuesD(1,2,3)[OF q] queuesD(6)[OF q] views(2,3,4) in simp_all)
    show "nodes_ok t" by (rule nodes_new[OF us_invD(5)[OF inv] dead(3) nd]) (auto simp: ep)
    have r: "registry_ok s" by (rule us_invD(6)[OF inv])
    show "registry_ok t" unfolding registry_ok_def s(1)
    proof (intro conjI allI impI)
      fix u w assume "us_ep t u = Some w" "named w"
      then show "Some (ue_bound w, u) \<in> set (us_bound s)" using r k(1) unfolding registry_ok_def by (auto simp: ep named_def split: if_splits)
    next
      fix i p u assume i: "i < length (us_bound s)" "us_bound s ! i = Some (p, u)"
      then have "\<exists>w. us_ep s u = Some w \<and> named w" using r unfolding registry_ok_def by blast
      then show "\<exists>w. us_ep t u = Some w \<and> named w" using fe by (auto simp: ep)
      fix j qq assume "j < length (us_bound s)" "us_bound s ! j = Some (qq, u)"
      then show "i = j" using r i unfolding registry_ok_def by blast
    qed
  qed
qed

end
