(* ===== verification/Unixsock_Ops.thy ===== *)
theory Unixsock_Ops
  imports Unixsock_Inv
begin

text \<open>
  Every call on a local socket keeps the invariant of \<open>Unixsock_Inv\<close>: one lemma per call, from the
  release of an endpoint up to the messages with descriptors.
\<close>

section \<open>Closing a socket that is not connected\<close>

definition drop1 :: "nat \<Rightarrow> us \<Rightarrow> us" where
  "drop1 v s = put_res v (ep_upd v (\<lambda>x. x\<lparr> ue_pend_next := None \<rparr>) s)"

definition gone1 :: "uep \<Rightarrow> uep option" where
  "gone1 y = (if ue_refs y = 1 then None else Some (ep_unref (y\<lparr> ue_pend_next := None \<rparr>)))"

lemma drop1_ep:
  assumes "us_ep s v = Some y"
  shows "us_ep (drop1 v s) = (us_ep s)(v := gone1 y)" "us_same s (drop1 v s)"
  using assms by (auto simp: drop1_def put_res_def ep_upd_def gone1_def ep_free_def fref_fold us_same_def fun_eq_iff)

lemma us_same_trans: "us_same s t \<Longrightarrow> us_same t u \<Longrightarrow> us_same s u"
  by (simp add: us_same_def)

lemma us_same_refl: "us_same s s"
  by (simp add: us_same_def)

lemma drops_ep:
  assumes "distinct vs" "\<forall>v \<in> set vs. us_ep s v \<noteq> None"
  shows "us_same s (fold drop1 vs s)" "us_ep (fold drop1 vs s) = (\<lambda>a. if a \<in> set vs then Option.bind (us_ep s a) gone1 else us_ep s a)"
proof -
  have "us_same s (fold drop1 vs s) \<and> us_ep (fold drop1 vs s) = (\<lambda>a. if a \<in> set vs then Option.bind (us_ep s a) gone1 else us_ep s a)"
    using assms
  proof (induction vs arbitrary: s)
    case Nil
    then show ?case by (simp add: us_same_refl)
  next
    case (Cons v vs)
    obtain y where y: "us_ep s v = Some y" using Cons.prems(2) by auto
    note d = drop1_ep[OF y]
    have "\<forall>u \<in> set vs. us_ep (drop1 v s) u \<noteq> None" using Cons.prems by (auto simp: d(1))
    note ih = Cons.IH[OF _ this]
    show ?case using ih Cons.prems(1) us_same_trans[OF d(2)] y by (auto simp: d(1) fun_eq_iff)
  qed
  then show "us_same s (fold drop1 vs s)" "us_ep (fold drop1 vs s) = (\<lambda>a. if a \<in> set vs then Option.bind (us_ep s a) gone1 else us_ep s a)"
    by blast+
qed

definition drop_ready :: "us \<Rightarrow> nat \<Rightarrow> bool" where
  "drop_ready s v \<longleftrightarrow> (case us_ep s v of None \<Rightarrow> False
     | Some y \<Rightarrow> 0 < ue_refs y \<and> (ue_refs y = 1 \<longrightarrow> ue_used y \<and> ue_kind y = UEP_CONN \<and> ue_peer y = None \<and> ue_pend_head y = None))"

lemma pend_drop_fold:
  assumes "seg (ep_next s) h vs None" "distinct vs" "length vs < k" "\<forall>v \<in> set vs. drop_ready s v"
  shows "pend_drop (ep_put_with (ep_destroy_n (Suc j))) k h s = fold drop1 vs s"
  using assms
proof (induction vs arbitrary: h k s)
  case Nil
  then show ?case by (cases k) auto
next
  case (Cons v vs)
  obtain k' where k: "k = Suc k'" using Cons.prems(3) by (cases k) auto
  obtain y where y: "us_ep s v = Some y" "0 < ue_refs y"
    "ue_refs y = 1 \<Longrightarrow> ue_used y \<and> ue_kind y = UEP_CONN \<and> ue_peer y = None \<and> ue_pend_head y = None"
    using Cons.prems(4) by (auto simp: drop_ready_def split: option.splits)
  let ?s = "ep_upd v (\<lambda>x. x\<lparr> ue_pend_next := None \<rparr>) s"
  have "us_ep ?s v = Some (y\<lparr> ue_pend_next := None \<rparr>)" using y by (simp add: ep_upd_def)
  then have p: "ep_put_with (ep_destroy_n (Suc j)) v ?s = drop1 v s"
    unfolding drop1_def by (rule put_local) (use y in simp_all)
  note d = drop1_ep(1)[OF y(1)]
  have "pend_drop (ep_put_with (ep_destroy_n (Suc j))) k' (ue_pend_next y) (drop1 v s) = fold drop1 vs (drop1 v s)"
  proof (rule Cons.IH)
    have "seg (ep_next s) (ue_pend_next y) vs None" using Cons.prems(1) ep_viewsI(2)[OF y(1)] by simp
    then show "seg (ep_next (drop1 v s)) (ue_pend_next y) vs None"
      by (rule seg_frame) (use Cons.prems(2) in \<open>auto simp: ep_next_def d\<close>)
    show "\<forall>u \<in> set vs. drop_ready (drop1 v s) u" using Cons.prems(2,4) by (auto simp: drop_ready_def d)
  qed (use Cons.prems k in auto)
  then show ?case using Cons.prems(1) k y p by simp
qed

lemma inv_next_none:
  assumes inv: "us_inv s pl X" and y: "us_ep s v = Some y" "\<not> queued pl v"
  shows "us_inv (ep_upd v (\<lambda>x. x\<lparr> ue_pend_next := None \<rparr>) s) pl X"
proof -
  let ?t = "ep_upd v (\<lambda>x. x\<lparr> ue_pend_next := None \<rparr>) s"
  have ep: "us_ep ?t = (us_ep s)(v \<mapsto> y\<lparr> ue_pend_next := None \<rparr>)" and same: "us_same s ?t" using y(1) by (simp_all add: ep_upd_def us_same_def)
  have s: "us_node ?t = us_node s" "us_bound ?t = us_bound s" "us_next ?t = us_next s" "us_ready ?t = us_ready s" "us_bad ?t = us_bad s"
    using same by (simp_all add: us_same_def)
  have views: "ep_peer ?t = ep_peer s" "ep_next ?t = (ep_next s)(v := None)" "ep_head ?t = ep_head s" "ep_tail ?t = ep_tail s" "\<And>a. ep_kind a ?t = ep_kind a s"
    using y(1) by (auto simp: ep fun_eq_iff ep_peer_def ep_next_def ep_head_def ep_tail_def ep_kind_def)
  note q = us_invD(4)[OF inv]
  show ?thesis
  proof (rule us_invI)
    show "fresh_ok ?t" using us_invD(1)[OF inv] y(1) by (auto simp: fresh_ok_def s ep)
    show "eps_ok ?t pl X" unfolding eps_ok_def held_same[OF same]
    proof (intro conjI allI impI)
      fix a w assume "us_ep ?t a = Some w"
      then show "ep_loc (held s a) (queued pl a) (X a) (length (pl a)) w"
        using inv_loc[OF inv, of a] y(1) by (cases "a = v") (auto simp: ep)
    qed (use inv_dead(1)[OF inv] y(1) in \<open>auto simp: ep split: if_splits\<close>)
    show "peers_ok ?t" using us_invD(3)[OF inv] unfolding peers_ok_def views(1) .
    show "queues_ok ?t pl"
    proof (rule queuesI)
      fix l show "seg (ep_next ?t) (ep_head ?t l) (pl l) None" unfolding views(3)
        by (rule seg_frame[OF queuesD(1)[OF q]]) (use y(2) in \<open>auto simp: views(2) queued_def\<close>)
    qed (use queuesD[OF q] in \<open>simp_all only: views\<close>)
    show "nodes_ok ?t" using us_invD(5)[OF inv] by (auto simp: nodes_ok_def s ep)
    show "registry_ok ?t" by (rule registry_cong[OF s(2) _ us_invD(6)[OF inv]]) (simp add: ep y(1) named_def)
  qed
qed

lemma inv_drops:
  assumes "us_inv s pl X" "distinct vs" "\<forall>v \<in> set vs. 0 < X v \<and> \<not> queued pl v"
  shows "us_inv (fold drop1 vs s) pl (\<lambda>a. X a - of_bool (a \<in> set vs))"
  using assms
proof (induction vs arbitrary: s X)
  case (Cons v vs)
  have v: "0 < X v" "\<not> queued pl v" using Cons.prems(3) by auto
  obtain y where y: "us_ep s v = Some y" using inv_dead(1)[OF Cons.prems(1), of v] v(1) by fastforce
  have "us_inv (drop1 v s) pl (X(v := X v - 1))" unfolding drop1_def
    by (rule inv_put[OF inv_next_none[OF Cons.prems(1) y v(2)] v(1)])
  then have "us_inv (fold drop1 vs (drop1 v s)) pl (\<lambda>a. (X(v := X v - 1)) a - of_bool (a \<in> set vs))"
    by (rule Cons.IH) (use Cons.prems in auto)
  moreover have "(\<lambda>a. (X(v := X v - 1)) a - of_bool (a \<in> set vs)) = (\<lambda>a. X a - of_bool (a \<in> set (v # vs)))"
    using Cons.prems(2) by (auto simp: fun_eq_iff)
  ultimately show ?case by simp
qed simp

lemma registry_entry:
  assumes "registry_ok s" "i < length (us_bound s)" "us_bound s ! i = Some (p, e)"
  shows "\<exists>x. us_ep s e = Some x \<and> named x" "j < length (us_bound s) \<Longrightarrow> us_bound s ! j = Some (q, e) \<Longrightarrow> i = j"
  using assms unfolding registry_ok_def by blast+

lemma registry_name:
  assumes "registry_ok s" "us_ep s e = Some x" "named x"
  shows "\<exists>i < length (us_bound s). us_bound s ! i = Some (ue_bound x, e)"
  using assms unfolding registry_ok_def by (metis in_set_conv_nth)

definition forgotten :: "us \<Rightarrow> nat \<Rightarrow> uep \<Rightarrow> (bytes \<times> nat) option list \<Rightarrow> bool" where
  "forgotten s e x B \<longleftrightarrow> (if named x then \<exists>i < length (us_bound s). us_bound s ! i = Some (ue_bound x, e) \<and> B = (us_bound s)[i := None] else B = us_bound s)"

lemma bound_remove_eq:
  assumes r: "registry_ok s" "us_ep s e = Some x" "named x" and t: "us_ready t" "us_bound t = us_bound s"
  shows "\<exists>B. forgotten s e x B \<and> unix_bound_remove e t = t\<lparr> us_bound := B \<rparr>"
proof -
  obtain i where i: "i < length (us_bound s)" "us_bound s ! i = Some (ue_bound x, e)" using registry_name[OF r] by blast
  let ?P = "\<lambda>i. map_option snd (us_bound s ! i) = Some e"
  have "List.find ?P [0..<length (us_bound s)] \<noteq> None" unfolding find_None_iff using i by auto
  then obtain j where j: "List.find ?P [0..<length (us_bound s)] = Some j" by blast
  then have jl: "j < length (us_bound s)" "?P j" by (auto simp: find_Some_iff)
  then obtain p where "us_bound s ! j = Some (p, e)" by (cases "us_bound s ! j") auto
  then have "j = i" using registry_entry(2)[OF r(1) i] jl(1) by blast
  then show ?thesis using i j t r(3) by (auto simp: unix_bound_remove_def forgotten_def)
qed

lemma queued_cleared:
  assumes "queues_ok s pl"
  shows "queued (pl(e := [])) a \<longleftrightarrow> queued pl a \<and> a \<notin> set (pl e)"
  using queuesD(6)[OF assms] unfolding queued_def by (metis empty_iff empty_set fun_upd_apply)

lemma registry_forgotten:
  assumes r: "registry_ok s" and x: "us_ep s e = Some x" and t: "us_ep t = (us_ep s)(e := None)" "forgotten s e x (us_bound t)"
  shows "registry_ok t"
proof -
  have keep: "us_bound t ! i = us_bound s ! i" if "i < length (us_bound s)" "us_bound s ! i = Some (p, a)" "a \<noteq> e" for i p a
    using t(2) that unfolding forgotten_def by (auto simp: nth_list_update split: if_splits)
  have bk: "us_bound s ! i = Some (p, a) \<and> a \<noteq> e" if "i < length (us_bound s)" "us_bound t ! i = Some (p, a)" for i p a
  proof (cases "named x")
    case True
    then obtain k where k: "k < length (us_bound s)" "us_bound s ! k = Some (ue_bound x, e)" "us_bound t = (us_bound s)[k := None]"
      using t(2) by (auto simp: forgotten_def)
    then have "i \<noteq> k" "us_bound s ! i = Some (p, a)" using that by (auto simp: nth_list_update split: if_splits)
    then show ?thesis using registry_entry(2)[OF r k(1,2) that(1)] by auto
  next
    case False
    then have "us_bound s ! i = Some (p, a)" using t(2) that by (simp add: forgotten_def)
    then show ?thesis using registry_entry(1)[OF r that(1)] x False by auto
  qed
  have len: "length (us_bound t) = length (us_bound s)" using t(2) by (auto simp: forgotten_def split: if_splits)
  show ?thesis unfolding registry_ok_def len
  proof (intro conjI allI impI)
    fix a y assume a: "us_ep t a = Some y" "named y"
    then have a': "a \<noteq> e" "us_ep s a = Some y" by (auto simp: t(1) split: if_splits)
    obtain i where "i < length (us_bound s)" "us_bound s ! i = Some (ue_bound y, a)" using registry_name[OF r a'(2) a(2)] by blast
    then show "Some (ue_bound y, a) \<in> set (us_bound t)" using keep[OF _ _ a'(1)] len by (metis nth_mem)
  next
    fix i p a assume i: "i < length (us_bound s)" "us_bound t ! i = Some (p, a)"
    note b = bk[OF i]
    then show "\<exists>y. us_ep t a = Some y \<and> named y" using registry_entry(1)[OF r i(1)] by (simp add: t(1))
    fix j q assume j: "j < length (us_bound s)" "us_bound t ! j = Some (q, a)"
    show "i = j" using registry_entry(2)[OF r i(1) _ j(1)] b bk[OF j] by blast
  qed
qed

lemma inv_forget:
  assumes inv: "us_inv s pl X" and n: "us_node s n = Some (Some e)" and x: "us_ep s e = Some x" "ue_kind x \<noteq> UEP_CONN" "X e = 0"
    and t: "us_ep t = (us_ep s)(e := None)" "us_node t = (us_node s)(n := None)" "us_next t = us_next s" "us_ready t = us_ready s" "us_bad t = us_bad s"
      "forgotten s e x (us_bound t)"
  shows "us_inv t (pl(e := [])) (\<lambda>a. X a + of_bool (a \<in> set (pl e)))"
proof -
  note q = us_invD(4)[OF inv]
  have px: "ue_peer x = None" using ep_locD(8)[OF inv_loc[OF inv x(1)] x(2)] by blast
  have views: "ep_peer t = ep_peer s" "\<And>a. a \<noteq> e \<Longrightarrow> ep_next t a = ep_next s a" "\<And>a. a \<noteq> e \<Longrightarrow> ep_head t a = ep_head s a"
    "\<And>a. a \<noteq> e \<Longrightarrow> ep_tail t a = ep_tail s a" "\<And>a. a \<noteq> e \<Longrightarrow> ep_kind a t = ep_kind a s" "ep_head t e = None" "ep_tail t e = None"
    using x(1) px by (auto simp: t(1) fun_eq_iff ep_peer_def ep_next_def ep_head_def ep_tail_def ep_kind_def)
  have h: "held t a \<longleftrightarrow> held s a" if "a \<noteq> e" for a
    unfolding held_def t(2) fun_upd_apply using n that by (metis option.distinct(1) option.inject)
  have m: "u \<in> set (pl k) \<Longrightarrow> u \<noteq> e" for u k using inv_queue_live(1)[OF inv, of u k] x by auto
  show ?thesis
  proof (rule us_invI)
    show "fresh_ok t" using us_invD(1)[OF inv] by (auto simp: fresh_ok_def t(1-5))
    show "eps_ok t (pl(e := [])) (\<lambda>a. X a + of_bool (a \<in> set (pl e)))" unfolding eps_ok_def queued_cleared[OF q]
    proof (intro conjI allI impI)
      fix a y assume "us_ep t a = Some y"
      then have a: "a \<noteq> e" "us_ep s a = Some y" by (auto simp: t(1) split: if_splits)
      have "a \<in> set (pl e) \<Longrightarrow> queued pl a" by (auto simp: queued_def)
      then show "ep_loc (held t a) (queued pl a \<and> a \<notin> set (pl e)) (X a + of_bool (a \<in> set (pl e))) (length ((pl(e := [])) a)) y"
        using inv_loc[OF inv a(2)] h[OF a(1)] a(1) by (cases "a \<in> set (pl e)") (auto simp: ep_loc_def)
    next
      fix a assume "us_ep t a = None"
      then show "X a + of_bool (a \<in> set (pl e)) = 0"
        using inv_dead(1)[OF inv, of a] inv_queue_live(1)[OF inv, of a e] x m by (cases "a = e") (auto simp: t(1))
    qed
    show "peers_ok t" using us_invD(3)[OF inv] unfolding peers_ok_def views(1) .
    show "queues_ok t (pl(e := []))"
    proof (rule queuesI)
      fix k u k'
      show "seg (ep_next t) (ep_head t k) ((pl(e := [])) k) None"
      proof (cases "k = e")
        case False
        then have "seg (ep_next s) (ep_head t k) (pl k) None" using queuesD(1)[OF q, of k] views(3) by simp
        then have "seg (ep_next t) (ep_head t k) (pl k) None" by (rule seg_frame) (rule views(2)[OF m])
        then show ?thesis using False by simp
      qed (simp add: views(6))
      show "ep_tail t k = (if (pl(e := [])) k = [] then None else Some (last ((pl(e := [])) k)))"
        using queuesD(2)[OF q, of k] views(4)[of k] views(7) by (cases "k = e") simp_all
      show "(pl(e := [])) k \<noteq> [] \<Longrightarrow> ep_kind k t = Some UEP_LISTEN" using queuesD(4)[OF q, of k] views(5)[of k] by (cases "k = e") simp_all
      show "u \<in> set ((pl(e := [])) k) \<Longrightarrow> ep_kind u t = Some UEP_CONN"
        using queuesD(5)[OF q, of u k] views(5)[of u] m[of u k] by (cases "k = e") simp_all
      show "u \<in> set ((pl(e := [])) k) \<Longrightarrow> u \<in> set ((pl(e := [])) k') \<Longrightarrow> k = k'"
        using queuesD(6)[OF q, of u k k'] by (cases "k = e"; cases "k' = e") simp_all
    qed (use queuesD(3)[OF q] in simp_all)
    show "nodes_ok t" using us_invD(5)[OF inv] n unfolding nodes_ok_def t(1,2) by (auto split: if_splits)
    show "registry_ok t" by (rule registry_forgotten[OF us_invD(6)[OF inv] x(1) t(1,6)])
  qed
qed

lemma queue_drop_ready:
  assumes inv: "us_inv s pl X" and v: "v \<in> set (pl l)" and t: "us_ep t v = us_ep s v"
  shows "drop_ready t v"
proof -
  note ql = inv_queue_live[OF inv v]
  obtain y where y: "us_ep s v = Some y" "ue_kind y = UEP_CONN" using ql(1) by blast
  note loc = inv_loc[OF inv y(1)]
  have "ue_peer y = None" if "ue_refs y = 1" using ep_locD(5)[OF loc] that ql(2) by (cases "ue_peer y") auto
  then show ?thesis using y t ep_locD(1,6)[OF loc] inv_no_queue(2)[OF inv y(1)] by (simp add: drop_ready_def)
qed

text \<open>What closing a socket that is not connected leaves behind.\<close>

definition closed_other :: "us \<Rightarrow> nat \<Rightarrow> nat \<Rightarrow> nat list \<Rightarrow> us \<Rightarrow> bool" where
  "closed_other s n e vs t \<longleftrightarrow>
     us_ep t = (\<lambda>a. if a = e then None else if a \<in> set vs then Option.bind (us_ep s a) gone1 else us_ep s a) \<and>
     us_node t = (us_node s)(n := None) \<and> us_next t = us_next s \<and> us_ready t = us_ready s \<and> us_bad t = us_bad s"

lemma close_other_eq:
  assumes inv: "us_inv s pl X" and n: "us_node s n = Some (Some e)" and x: "us_ep s e = Some x" "ue_kind x \<noteq> UEP_CONN"
  shows "closed_other s n e (pl e) (unix_node_close n s)" "forgotten s e x (us_bound (unix_node_close n s))"
proof -
  note loc = inv_loc[OF inv x(1)]
  have used: "ue_used x" and px: "ue_peer x = None" using ep_locD(1)[OF loc] ep_locD(8)[OF loc x(2)] by auto
  let ?x = "x\<lparr> ue_used := False, ue_peer := None, ue_pend_head := None, ue_pend_tail := None, ue_pend_count := 0 \<rparr>"
  let ?t1 = "s\<lparr> us_node := (us_node s)(n \<mapsto> None), us_ep := (us_ep s)(e \<mapsto> ?x) \<rparr>"
  have ready: "us_ready s" using us_invD(1)[OF inv] by (simp add: fresh_ok_def)
  define t2 where "t2 = (if named x then unix_bound_remove e ?t1 else ?t1)"
  obtain B where B: "forgotten s e x B" "t2 = ?t1\<lparr> us_bound := B \<rparr>"
    using bound_remove_eq[OF us_invD(6)[OF inv] x(1), of ?t1] ready unfolding t2_def by (cases "named x") (auto simp: forgotten_def)
  have m: "v \<noteq> e" if "v \<in> set (pl e)" for v using inv_queue_live(3)[OF inv that] .
  define dr where "dr = pend_drop (ep_put_with (ep_destroy_n 2)) (us_next s + 1) (ue_pend_head x) t2"
  have d: "dr = fold drop1 (pl e) t2" unfolding dr_def numeral_2_eq_2
  proof (rule pend_drop_fold)
    have "seg (ep_next s) (ue_pend_head x) (pl e) None" using queuesD(1)[OF us_invD(4)[OF inv], of e] ep_viewsI(3)[OF x(1)] by simp
    then show "seg (ep_next t2) (ue_pend_head x) (pl e) None" by (rule seg_frame) (use m in \<open>auto simp: B(2) ep_next_def\<close>)
    show "\<forall>v \<in> set (pl e). drop_ready t2 v" using queue_drop_ready[OF inv, of _ e t2] m by (auto simp: B(2))
    show "distinct (pl e)" "length (pl e) < us_next s + 1" using queuesD(3)[OF us_invD(4)[OF inv], of e] queue_length[OF inv, of e] by simp_all
  qed
  have live: "\<forall>v \<in> set (pl e). us_ep t2 v \<noteq> None" 
  proof
    fix v assume v: "v \<in> set (pl e)"
    show "us_ep t2 v \<noteq> None" using inv_queue_live(1)[OF inv v] m[OF v] by (auto simp: B(2))
  qed
  note de = drops_ep[OF queuesD(3)[OF us_invD(4)[OF inv], of e] live, folded d]
  let ?s1 = "s\<lparr> us_node := (us_node s)(n \<mapsto> None) \<rparr>"
  have c1: "unix_node_close n s = node_free n (ep_destroy_n (Suc 2) e ?s1)"
    using n x used by (simp add: unix_node_close_def node_clear_def ep_destroy_def del: ep_destroy_n.simps)
  have "ep_destroy_n (Suc 2) e ?s1 = ep_free e (fold (fref_add (-1)) (ue_fdq x) dr)"
    unfolding ep_destroy_n.simps(2) using x used px by (simp add: Let_def ep_upd_live t2_def named_def dr_def del: ep_destroy_n.simps pend_drop.simps)
  then have c: "unix_node_close n s = node_free n (ep_free e (fold (fref_add (-1)) (ue_fdq x) dr))" using c1 by simp
  have nd: "us_node dr = (us_node s)(n \<mapsto> None)" and rest: "us_bound dr = B" "us_next dr = us_next s" "us_ready dr = us_ready s" "us_bad dr = us_bad s"
    using de(1) by (simp_all add: us_same_def B(2))
  have c2: "us_ep (unix_node_close n s) = (us_ep dr)(e := None)" "us_node (unix_node_close n s) = (us_node s)(n := None)"
    "us_bound (unix_node_close n s) = B" "us_next (unix_node_close n s) = us_next s" "us_ready (unix_node_close n s) = us_ready s" "us_bad (unix_node_close n s) = us_bad s"
    unfolding c by (simp_all add: node_free_def ep_free_def fref_fold nd rest)
  show "closed_other s n e (pl e) (unix_node_close n s)"
    unfolding closed_other_def c2 using m by (simp add: fun_eq_iff de(2) B(2))
  show "forgotten s e x (us_bound (unix_node_close n s))" using B(1) c2(3) by simp
qed

lemma close_other:
  assumes inv: "us_inv s pl X" and n: "us_node s n = Some (Some e)" and x: "us_ep s e = Some x" "ue_kind x \<noteq> UEP_CONN" "X e = 0"
  shows "us_inv (unix_node_close n s) (pl(e := [])) X"
proof -
  note q = us_invD(4)[OF inv]
  note c = close_other_eq[OF inv n x(1,2)]
  let ?F = "unix_node_close n s"
  let ?D = "s\<lparr> us_ep := (us_ep s)(e := None), us_node := (us_node s)(n := None), us_bound := us_bound ?F \<rparr>"
  have D: "us_inv ?D (pl(e := [])) (\<lambda>a. X a + of_bool (a \<in> set (pl e)))"
    by (rule inv_forget[OF inv n x]) (use c(2) in simp_all)
  have nq: "\<forall>v \<in> set (pl e). 0 < X v + of_bool (v \<in> set (pl e)) \<and> \<not> queued (pl(e := [])) v"
    using queued_cleared[OF q, of e] by auto
  note i = inv_drops[OF D queuesD(3)[OF q] nq]
  have live: "\<forall>v \<in> set (pl e). us_ep ?D v \<noteq> None"
  proof
    fix v assume v: "v \<in> set (pl e)"
    show "us_ep ?D v \<noteq> None" using inv_queue_live(1,3)[OF inv v] by auto
  qed
  note d = drops_ep[OF queuesD(3)[OF q] live]
  have m: "v \<in> set (pl e) \<Longrightarrow> v \<noteq> e" for v using inv_queue_live(3)[OF inv, of v e] .
  have "us_inv ?F (pl(e := [])) (\<lambda>a. X a + of_bool (a \<in> set (pl e)) - of_bool (a \<in> set (pl e)))"
  proof (rule inv_same[OF i])
    show "us_same (fold drop1 (pl e) ?D) ?F" using d(1) c(1) by (simp add: us_same_def closed_other_def)
    show "us_ep ?F = us_ep (fold drop1 (pl e) ?D)" using c(1) m unfolding d(2) by (auto simp: closed_other_def fun_eq_iff)
  qed
  then show ?thesis by simp
qed

lemma inv_node_close:
  assumes inv: "us_inv s pl X" and n: "us_node s n = Some z" and z: "\<And>e. z = Some e \<Longrightarrow> ep_kind e s \<noteq> Some UEP_CONN \<Longrightarrow> X e = 0"
  shows "\<exists>pl'. us_inv (unix_node_close n s) pl' X"
proof (cases z)
  case None
  have "us_inv (node_free n (node_clear n s)) pl X"
  proof -
    have "node_clear n s = s" using n None by (cases s) (simp add: node_clear_def fun_upd_idem)
    then show ?thesis using inv_node_free[OF inv] n None by simp
  qed
  then show ?thesis using n None by (auto simp: unix_node_close_def Let_def)
next
  case (Some e)
  obtain x where x: "us_ep s e = Some x" using inv_node_live(1)[OF inv] n Some by blast
  then show ?thesis using close_connected[OF inv _ x] close_other[OF inv _ x] n Some z ep_viewsI(5)[OF x] by (cases "ue_kind x = UEP_CONN") auto
qed

section \<open>Reading, writing and settings\<close>

text \<open>The state after one round of a call, whether it returns or goes to sleep.\<close>

definition rs :: "('a \<times> 'b) + 'b \<Rightarrow> 'b" where "rs r = (case r of Inl (a, s) \<Rightarrow> s | Inr s \<Rightarrow> s)"

lemma rs_simps [simp]: "rs (Inl (a, s)) = s" "rs (Inr s) = s"
  by (simp_all add: rs_def)

lemma rs_if [simp]: "rs (if b then r else r') = (if b then rs r else rs r')"
  by simp

text \<open>Changes to an endpoint that nobody else depends on.\<close>

definition ue_quiet :: "uep \<Rightarrow> uep \<Rightarrow> bool" where
  "ue_quiet x y \<longleftrightarrow> ue_shape y = ue_shape x \<and> ue_used y = ue_used x \<and> ue_refs y = ue_refs x \<and> ue_backlog y = ue_backlog x \<and>
     ue_pend_count y = ue_pend_count x \<and> rx_ok y \<and> length (ue_fdq y) \<le> UNIX_FD_QUEUE_MAX \<and>
     (ue_eof x \<longrightarrow> ue_eof y) \<and> (ue_peer_no_read x \<longrightarrow> ue_peer_no_read y)"

lemma inv_quiet:
  assumes "us_inv s pl X" "us_ep s e = Some x" "rx_ok x \<Longrightarrow> length (ue_fdq x) \<le> UNIX_FD_QUEUE_MAX \<Longrightarrow> ue_quiet x (f x)"
  shows "us_inv (ep_upd e f s) pl X"
proof -
  note loc = inv_loc[OF assms(1,2)]
  note qt = assms(3)[OF ep_locD(2,3)[OF loc]]
  note eq = qt[unfolded ue_quiet_def ue_shape_def prod.inject]
  have "ep_loc (held s e) (queued pl e) (X e) (length (pl e)) (f x)"
    unfolding ep_loc_def using eq ep_locD[OF loc] by simp
  then show ?thesis
    by (intro inv_upd[OF assms(1,2), of _ "f x"]) (use qt assms(2) in \<open>auto simp: ue_quiet_def ep_upd_def us_same_def\<close>)
qed

lemma inv_env [simp]:
  "us_inv (s\<lparr> us_mem := m \<rparr>) pl X = us_inv s pl X" "us_inv (s\<lparr> us_sig := g \<rparr>) pl X = us_inv s pl X"
  "us_inv (s\<lparr> us_sigpipe := k \<rparr>) pl X = us_inv s pl X" "us_inv (s\<lparr> us_frefs := fr \<rparr>) pl X = us_inv s pl X"
  by (auto elim!: inv_same simp: us_same_def)

lemma inv_sigpipe [simp]: "us_inv (sigpipe s) pl X = us_inv s pl X"
  by (simp add: sigpipe_def)

lemma inv_fref [simp]: "us_inv (fref_add d f s) pl X = us_inv s pl X" "us_inv (fold (fref_add d) fs s) pl X = us_inv s pl X"
  by (simp_all add: fref_fold fref_add_def)

lemma quiet_pop: "rx_ok x \<Longrightarrow> length (ue_fdq x) \<le> UNIX_FD_QUEUE_MAX \<Longrightarrow> ue_quiet x (snd (ep_pop n x))"
  using pop_ok(2)[of x n] pop_loop[of x "min (ue_rx_len x) n"] by (auto simp: ue_quiet_def ue_shape_def ep_pop_def Let_def)

lemma push1_quiet: "ue_shape (ep_push1 c x) = ue_shape x" "ue_used (ep_push1 c x) = ue_used x" "ue_refs (ep_push1 c x) = ue_refs x"
  "ue_backlog (ep_push1 c x) = ue_backlog x" "ue_pend_count (ep_push1 c x) = ue_pend_count x" "ue_fdq (ep_push1 c x) = ue_fdq x"
  "ue_eof (ep_push1 c x) = ue_eof x" "ue_peer_no_read (ep_push1 c x) = ue_peer_no_read x"
  by (simp_all add: ep_push1_def ue_shape_def)

lemma push_fields: "ue_shape (ep_push bs x) = ue_shape x" "ue_used (ep_push bs x) = ue_used x" "ue_refs (ep_push bs x) = ue_refs x"
  "ue_backlog (ep_push bs x) = ue_backlog x" "ue_pend_count (ep_push bs x) = ue_pend_count x" "ue_fdq (ep_push bs x) = ue_fdq x"
  "ue_eof (ep_push bs x) = ue_eof x" "ue_peer_no_read (ep_push bs x) = ue_peer_no_read x"
  unfolding ep_push_def by (induction bs arbitrary: x) (simp_all add: push1_quiet)

lemma quiet_push:
  assumes "rx_ok x" "length (ue_fdq x) \<le> UNIX_FD_QUEUE_MAX" "length bs \<le> UNIX_BUF_SIZE - ue_rx_len x"
  shows "ue_quiet x (ep_push bs x)"
proof -
  have "ue_rx_len x + length bs \<le> UNIX_BUF_SIZE" using assms(1,3) unfolding rx_ok_def by linarith
  then show ?thesis using push_ok(1)[OF assms(1)] assms(2) by (simp add: ue_quiet_def push_fields)
qed

lemma read_inv:
  assumes "us_inv s pl X" "us_ep s e = Some x"
  shows "us_inv (rs (unix_read_step buf sz e s)) pl X"
proof -
  have "us_inv (ep_upd e (\<lambda>_. snd (ep_pop (unat sz) x)) s) pl X" by (rule inv_quiet[OF assms]) (rule quiet_pop)
  then show ?thesis using assms by (simp add: unix_read_step_def case_prod_beta Let_def)
qed

lemma write_peer_inv:
  assumes "us_inv s pl X" "us_ep s p = Some y"
  shows "us_inv (snd (rs (unix_write_peer buf sz nb p (w, s)))) pl X" "us_inv (snd (rs (ep_payload_peer buf sz p (w, s)))) pl X"
proof -
  have st: "us_inv (ep_upd p (ep_push (mem_read (us_mem s) a k)) s) pl X" if "k \<le> UNIX_BUF_SIZE - ue_rx_len y" for k a
    by (rule inv_quiet[OF assms]) (rule quiet_push, use that in simp_all)
  show "us_inv (snd (rs (unix_write_peer buf sz nb p (w, s)))) pl X" "us_inv (snd (rs (ep_payload_peer buf sz p (w, s)))) pl X"
    using assms by (auto simp: unix_write_peer_def ep_payload_peer_def Let_def min_def simp del: mem_read_0 intro!: st)
qed

lemma write_inv:
  assumes "us_inv s pl X" "us_ep s e = Some x"
  shows "us_inv (snd (rs (unix_write_step buf sz e (w, s)))) pl X" "us_inv (snd (rs (ep_write_payload_step buf sz e (w, s)))) pl X"
proof -
  have "\<exists>y. us_ep s p = Some y" if "ue_peer x = Some p" for p using inv_peer(2)[OF assms that] by blast
  then have "ue_peer x = None \<or> (\<exists>p y. ue_peer x = Some p \<and> us_ep s p = Some y)" by (cases "ue_peer x") auto
  then show "us_inv (snd (rs (unix_write_step buf sz e (w, s)))) pl X" "us_inv (snd (rs (ep_write_payload_step buf sz e (w, s)))) pl X"
    using assms write_peer_inv[OF assms(1)] by (auto simp: unix_write_step_def ep_write_payload_step_def)
qed

lemma ep_upd_dom: "us_ep (ep_upd a f s) e = None \<longleftrightarrow> us_ep s e = None"
  by (auto simp: ep_upd_def us_fault_def split: option.splits)

lemma ep_tell_dom: "us_ep (ep_tell_peer a f s) e = None \<longleftrightarrow> us_ep s e = None"
  unfolding ep_tell_peer_def using ep_upd_dom by (auto simp: us_fault_def split: option.splits)

lemma shutdown_inv:
  assumes "us_inv s pl X" "us_ep s e = Some x"
  shows "us_inv (snd (unix_shutdown_ioctl e arg s)) pl X"
proof -
  have tell: "us_inv (ep_tell_peer e f (ep_upd e g t)) pl X"
    if "us_inv t pl X" "us_ep t e = Some y" "\<And>x. rx_ok x \<Longrightarrow> length (ue_fdq x) \<le> UNIX_FD_QUEUE_MAX \<Longrightarrow> ue_quiet x (f x) \<and> ue_quiet x (g x)" for t y f g
  proof -
    have g: "us_inv (ep_upd e g t) pl X" by (rule inv_quiet[OF that(1,2)]) (use that(3) in blast)
    have ge: "us_ep (ep_upd e g t) e = Some (g y)" using that(2) by (simp add: ep_upd_def)
    show ?thesis
    proof (cases "ue_peer (g y)")
      case (Some p)
      obtain z where "us_ep (ep_upd e g t) p = Some z" using inv_peer(2)[OF g ge Some] by blast
      then show ?thesis using inv_quiet[OF g, of p z f] that(3)[of z] ge Some by (simp add: ep_tell_peer_def)
    qed (use g ge in \<open>simp add: ep_tell_peer_def\<close>)
  qed
  let ?s1 = "ep_tell_peer e (\<lambda>y. y\<lparr> ue_peer_no_read := True \<rparr>) (ep_upd e (\<lambda>x. x\<lparr> ue_shut_rd := True \<rparr>) s)"
  have q: "ue_quiet x (x\<lparr> ue_peer_no_read := True \<rparr>) \<and> ue_quiet x (x\<lparr> ue_shut_rd := True \<rparr>) \<and> ue_quiet x (x\<lparr> ue_eof := True \<rparr>) \<and> ue_quiet x (x\<lparr> ue_shut_wr := True \<rparr>)"
    if "rx_ok x" "length (ue_fdq x) \<le> UNIX_FD_QUEUE_MAX" for x using that by (simp add: ue_quiet_def ue_shape_def rx_ok_def)
  have s1: "us_inv ?s1 pl X" by (rule tell[OF assms]) (use q in blast)
  have "us_ep ?s1 e \<noteq> None" unfolding ep_tell_dom ep_upd_dom using assms(2) by simp
  then obtain y where y: "us_ep ?s1 e = Some y" by blast
  have w: "us_inv (ep_tell_peer e (\<lambda>y. y\<lparr> ue_eof := True \<rparr>) (ep_upd e (\<lambda>x. x\<lparr> ue_shut_wr := True \<rparr>) t)) pl X"
    if "us_inv t pl X" "us_ep t e = Some y" for t y by (rule tell[OF that]) (use q in blast)
  show ?thesis using assms(1) s1 w[OF s1 y] w[OF assms] by (simp add: unix_shutdown_ioctl_def Let_def split: option.splits)
qed

lemma sockopt_inv:
  assumes "us_inv s pl X" "us_ep s e = Some x"
  shows "us_inv (snd (unix_sockopt_ioctl e arg g s)) pl X"
proof -
  have "us_inv (ep_upd e (\<lambda>x. x\<lparr> ue_sndbuf := v \<rparr>) s) pl X" "us_inv (ep_upd e (\<lambda>x. x\<lparr> ue_rcvbuf := v \<rparr>) s) pl X" for v
    by (rule inv_quiet[OF assms]; simp add: ue_quiet_def ue_shape_def rx_ok_def)+
  then show ?thesis using assms by (cases "copy_from_user (us_mem s) arg 16") (simp_all add: unix_sockopt_ioctl_def Let_def case_prod_beta)
qed

lemma nonblock_inv:
  assumes "us_inv s pl X"
  shows "us_inv (snd (unix_sock_set_nonblock n on s)) pl X"
proof (cases "ep_from_node n s")
  case (Some e)
  then obtain x where x: "us_ep s e = Some x" by (auto simp: ep_from_node_def split: option.splits if_splits)
  have "us_inv (ep_upd e (\<lambda>x. x\<lparr> ue_nonblock := on \<rparr>) s) pl X"
    by (rule inv_quiet[OF assms x]) (simp add: ue_quiet_def ue_shape_def rx_ok_def)
  then show ?thesis using Some by (simp add: unix_sock_set_nonblock_def)
qed (use assms in \<open>simp add: unix_sock_set_nonblock_def\<close>)

lemma hold_inv:
  "hold_fds fl fds hl s = (r, t) \<Longrightarrow> us_ep t = us_ep s \<and> (us_inv t pl X = us_inv s pl X)"
proof (induction fl arbitrary: hl s)
  case (Cons fd fl)
  have drop: "us_ep (fold (fref_add (-1)) hl s) = us_ep s" by (simp add: fref_fold)
  show ?case
  proof (cases "(fd < 0 \<or> fd \<ge> int MAX_FD) \<or> fds ! nat fd = None")
    case True
    then have "t = fold (fref_add (-1)) hl s" using Cons.prems by (auto split: if_splits)
    then show ?thesis using drop by simp
  next
    case False
    then obtain f where "fds ! nat fd = Some f" by blast
    then have "hold_fds fl fds (hl @ [f]) (fref_add 1 f s) = (r, t)" using Cons.prems False by simp
    from Cons.IH[OF this] show ?thesis by (simp add: fref_add_def)
  qed
qed simp

lemma sendmsg_inv:
  assumes "us_inv s pl X" "us_ep s e = Some x"
  shows "us_inv (snd (unix_sendmsg_begin task e arg fds s)) pl X"
proof -
  have fdq: "us_inv (ep_upd p (\<lambda>_. y') t) pl X" if "ep_fdq_push hold y = (0, y')" "us_ep t p = Some y" "us_inv t pl X" for p y y' hold t
    by (rule inv_quiet[OF that(3,2)]) (use that(1) in \<open>auto simp: ep_fdq_push_def ue_quiet_def ue_shape_def rx_ok_def split: if_splits\<close>)
  have st: "us_inv (snd (case hold_fds fl fds [] s of (None, s1) \<Rightarrow> (Inl (- EBADF), s1)
      | (Some hold, s1) \<Rightarrow>
          (case ue_peer x of None \<Rightarrow> (Inl (- EPIPE), fold (fref_add (-1)) hold s1)
           | Some p \<Rightarrow>
               if hold = [] then (Inr (buf, len), s1)
               else case us_ep s1 p of None \<Rightarrow> (Inl (-1), us_fault s1)
                 | Some y \<Rightarrow>
                     (case ep_fdq_push hold y of (r, y') \<Rightarrow>
                        if r \<noteq> 0 then (Inl r, fold (fref_add (-1)) hold s1)
                        else (Inr (buf, len), ep_upd p (\<lambda>_. y') s1))))) pl X" for fl and buf len :: u32
  proof -
    obtain r s1 where h: "hold_fds fl fds [] s = (r, s1)" by fastforce
    have s1: "us_inv s1 pl X" "us_ep s1 = us_ep s" using hold_inv[OF h, of pl X] assms(1) by auto
    have "ue_peer x = None \<or> (\<exists>p y. ue_peer x = Some p \<and> us_ep s p = Some y)" using inv_peer(2)[OF assms] by (cases "ue_peer x") auto
    then show ?thesis using h s1 fdq[OF _ _ s1(1)] by (auto split: option.splits prod.splits)
  qed
  show ?thesis unfolding unix_sendmsg_begin_def using assms st by (simp add: Let_def split: option.splits)
qed

lemma install_inv:
  "install_fds fl (fds, s) = (out, fds', t) \<Longrightarrow> us_inv t pl X = us_inv s pl X"
proof (induction fl arbitrary: fds s out fds' t)
  case (Cons f fl)
  show ?case
  proof (cases "fd_free fds")
    case None
    then show ?thesis using Cons.IH[of fds "fref_add (-1) f s"] Cons.prems by simp
  next
    case (Some i)
    obtain o2 g t2 where i: "install_fds fl (fds[i := Some f], s) = (o2, g, t2)" by (metis prod_cases3)
    then show ?thesis using Cons.IH[OF i] Cons.prems Some by simp
  qed
qed simp

lemma recvmsg_inv:
  assumes "us_inv s pl X" "us_ep s e = Some x"
  shows "us_inv (snd (rs (unix_recvmsg_step arg a e (fds, s)))) pl X"
proof -
  define got where "got = (if \<not> ue_shut_rd x \<and> rd32 a 4 \<noteq> 0 \<and> rd32 a 0 \<noteq> 0 then min (ue_rx_len x) (unat (rd32 a 4)) else 0)"
  define px where "px = (if 0 < got then ep_pop got x else ([], x))"
  let ?x1 = "snd px" let ?s1 = "ep_upd e (\<lambda>_. ?x1) s"
  have s1: "us_inv ?s1 pl X"
    by (rule inv_quiet[OF assms]) (use quiet_pop[of x got] in \<open>auto simp: ue_quiet_def px_def\<close>)
  have e1: "us_ep ?s1 e = Some ?x1" using assms(2) by (simp add: ep_upd_def)
  have s2: "us_inv (ep_upd e (\<lambda>_. snd (ep_fdq_pop k ?x1)) (?s1\<lparr> us_mem := m \<rparr>)) pl X" for m k
  proof (rule inv_quiet)
    show "us_inv (?s1\<lparr> us_mem := m \<rparr>) pl X" using s1 by simp
    show "us_ep (?s1\<lparr> us_mem := m \<rparr>) e = Some ?x1" using e1 by simp
  qed (simp add: ep_fdq_pop_def ue_quiet_def ue_shape_def rx_ok_def)
  have s3: "us_inv (snd (snd (install_fds fl (fds, ep_upd e (\<lambda>_. snd (ep_fdq_pop k ?x1)) (?s1\<lparr> us_mem := m \<rparr>))))) pl X" for m k fl
    using s2[of k m] install_inv[of fl fds _ _ _ _ pl X] by (metis prod.collapse)
  show ?thesis unfolding unix_recvmsg_step_def Let_def prod.case assms(2) option.case got_def[symmetric] px_def[symmetric]
    using assms s1 s3 by (simp add: case_prod_beta del: install_fds.simps)
qed

section \<open>Names, connections, creation\<close>

lemma inv_rename:
  assumes inv: "us_inv s pl X" and x: "us_ep s e = Some x" "ue_kind x = UEP_NONE \<or> ue_kind x = UEP_BOUND" "k \<noteq> UEP_CONN"
    and t: "us_ep t = (us_ep s)(e \<mapsto> x\<lparr> ue_kind := k, ue_bound := b, ue_backlog := UNIX_BACKLOG \<rparr>)" "us_node t = us_node s" "us_next t = us_next s"
      "us_ready t = us_ready s" "us_bad t = us_bad s" "registry_ok t"
  shows "us_inv t pl X"
proof -
  have h: "held t = held s" by (simp add: held_def t(2) fun_eq_iff)
  note q = us_invD(4)[OF inv]
  have views: "ep_peer t = ep_peer s" "ep_next t = ep_next s" "ep_head t = ep_head s" "ep_tail t = ep_tail s" "\<And>a. a \<noteq> e \<Longrightarrow> ep_kind a t = ep_kind a s"
    using x(1) by (auto simp: t(1) fun_eq_iff ep_peer_def ep_next_def ep_head_def ep_tail_def ep_kind_def)
  have ple: "pl e = []" by (rule inv_no_queue(1)[OF inv x(1)]) (use x(2) in auto)
  have m: "u \<in> set (pl l) \<Longrightarrow> u \<noteq> e" for u l using inv_queue_live(1)[OF inv, of u l] x by auto
  note loc = inv_loc[OF inv x(1)]
  have "ue_kind x \<noteq> UEP_CONN" using x(2) by auto
  note pn = ep_locD(8)[OF loc this]
  have lx: "ep_loc (held s e) (queued pl e) (X e) (length (pl e)) (x\<lparr> ue_kind := k, ue_bound := b, ue_backlog := UNIX_BACKLOG \<rparr>)"
    using ep_locD(1,2,3,5,6,7,10)[OF loc] pn x(3) by (simp add: ep_loc_def rx_ok_def)
  show ?thesis
  proof (rule us_invI)
    show "fresh_ok t" using us_invD(1)[OF inv] x(1) by (auto simp: fresh_ok_def t(1-5))
    show "eps_ok t pl X" unfolding eps_ok_def h
    proof (intro conjI allI impI)
      fix a w assume "us_ep t a = Some w"
      then show "ep_loc (held s a) (queued pl a) (X a) (length (pl a)) w"
        using lx inv_loc[OF inv, of a w] by (cases "a = e") (auto simp: t(1))
    qed (use inv_dead(1)[OF inv] x(1) in \<open>auto simp: t(1) split: if_splits\<close>)
    show "peers_ok t" using us_invD(3)[OF inv] unfolding peers_ok_def views(1) .
    show "queues_ok t pl"
    proof (rule queuesI)
      fix l u
      show "pl l \<noteq> [] \<Longrightarrow> ep_kind l t = Some UEP_LISTEN" using queuesD(4)[OF q, of l] views(5)[of l] ple by (cases "l = e") auto
      show "u \<in> set (pl l) \<Longrightarrow> ep_kind u t = Some UEP_CONN" using queuesD(5)[OF q, of u l] views(5)[OF m, of u l] by simp
    qed (use queuesD(1,2,3)[OF q] queuesD(6)[OF q] views(2,3,4) in simp_all)
    show "nodes_ok t" using us_invD(5)[OF inv] by (auto simp: nodes_ok_def t(1,2))
    show "registry_ok t" by (rule t(6))
  qed
qed

lemma listen_inv:
  assumes inv: "us_inv s pl X" and x: "us_ep s e = Some x"
  shows "us_inv (snd (unix_listen_ioctl e s)) pl X"
proof (cases "ue_kind x = UEP_BOUND")
  case True
  let ?t = "s\<lparr> us_ep := (us_ep s)(e \<mapsto> x\<lparr> ue_kind := UEP_LISTEN, ue_bound := ue_bound x, ue_backlog := UNIX_BACKLOG \<rparr>) \<rparr>"
  have "us_inv ?t pl X"
  proof (rule inv_rename[OF inv x, of UEP_LISTEN _ "ue_bound x"])
    show "registry_ok ?t" by (rule registry_cong[OF _ _ us_invD(6)[OF inv]]) (use True x in \<open>simp_all add: named_def\<close>)
  qed (use True in simp_all)
  then show ?thesis using True ep_viewsI(5)[OF x] by (simp add: unix_listen_ioctl_def ep_upd_live[OF x])
qed (use inv ep_viewsI(5)[OF x] in \<open>simp add: unix_listen_ioctl_def\<close>)

lemma registry_insert:
  assumes r: "registry_ok s" and x: "us_ep s e = Some x" "\<not> named x" and i: "i < length (us_bound s)" "us_bound s ! i = None"
    and t: "us_ep t = (us_ep s)(e \<mapsto> y)" "named y" "us_bound t = (us_bound s)[i := Some (ue_bound y, e)]"
  shows "registry_ok t"
proof -
  have e0: "us_bound s ! j \<noteq> Some (p, e)" if "j < length (us_bound s)" for j p using registry_entry(1)[OF r that] x by auto
  have len: "length (us_bound t) = length (us_bound s)" by (simp add: t(3))
  have nth: "us_bound t ! j = (if j = i then Some (ue_bound y, e) else us_bound s ! j)" if "j < length (us_bound s)" for j
    using that by (simp add: t(3) nth_list_update)
  show ?thesis unfolding registry_ok_def len
  proof (intro conjI allI impI)
    fix a w assume a: "us_ep t a = Some w" "named w"
    show "Some (ue_bound w, a) \<in> set (us_bound t)"
    proof (cases "a = e")
      case True
      then have "Some (ue_bound w, a) = us_bound t ! i" using a nth[OF i(1)] by (simp add: t(1))
      then show ?thesis using i(1) len nth_mem[of i "us_bound t"] by simp
    next
      case False
      then obtain j where "j < length (us_bound s)" "us_bound s ! j = Some (ue_bound w, a)" using registry_name[OF r, of a w] a t(1) by auto
      then show ?thesis using nth[of j] i(2) len by (metis nth_mem option.distinct(1))
    qed
  next
    fix j p a assume j: "j < length (us_bound s)" "us_bound t ! j = Some (p, a)"
    show "\<exists>w. us_ep t a = Some w \<and> named w"
      using j nth[OF j(1)] registry_entry(1)[OF r j(1), of p a] t(1,2) by (cases "j = i") auto
    fix k q assume k: "k < length (us_bound s)" "us_bound t ! k = Some (q, a)"
    show "j = k" using j k nth[OF j(1)] nth[OF k(1)] e0[OF j(1)] e0[OF k(1)] registry_entry(2)[OF r j(1) _ k(1)] by (auto split: if_splits)
  qed
qed

lemma insert_cases:
  assumes "us_ready s" "unix_bound_insert path e s = (r, t)"
  shows "r < 0 \<and> t = s \<or> (\<exists>i < length (us_bound s). us_bound s ! i = None \<and> r = 0 \<and> t = s\<lparr> us_bound := (us_bound s)[i := Some (take (UNIX_PATH_MAX - 1) path, e)] \<rparr>)"
  using assms by (auto simp: unix_bound_insert_def find_Some_iff split: if_splits option.splits)

lemma bind_inv:
  assumes inv: "us_inv s pl X" and x: "us_ep s e = Some x"
  shows "us_inv (snd (unix_bind_ioctl cwd e arg s)) pl X"
proof -
  have ready: "us_ready s" using us_invD(1)[OF inv] by (simp add: fresh_ok_def)
  have ok: "us_inv (ep_upd e (\<lambda>x. x\<lparr> ue_kind := UEP_BOUND, ue_bound := take (UNIX_PATH_MAX - 1) canon \<rparr>) t) pl X"
    if "ue_kind x = UEP_NONE" and i: "i < length (us_bound s)" "us_bound s ! i = None" and t: "t = s\<lparr> us_bound := (us_bound s)[i := Some (take (UNIX_PATH_MAX - 1) canon, e)] \<rparr>"
    for canon i t
  proof -
    let ?y = "x\<lparr> ue_kind := UEP_BOUND, ue_bound := take (UNIX_PATH_MAX - 1) canon, ue_backlog := UNIX_BACKLOG \<rparr>"
    have bl: "ue_backlog x = UNIX_BACKLOG" by (rule ep_locD(4)[OF inv_loc[OF inv x]])
    have y: "?y = x\<lparr> ue_kind := UEP_BOUND, ue_bound := take (UNIX_PATH_MAX - 1) canon \<rparr>" using bl by (cases x) simp
    let ?t = "t\<lparr> us_ep := (us_ep s)(e \<mapsto> ?y) \<rparr>"
    have "us_inv ?t pl X"
    proof (rule inv_rename[OF inv x, of UEP_BOUND _ "take (UNIX_PATH_MAX - 1) canon"])
      show "registry_ok ?t" by (rule registry_insert[OF us_invD(6)[OF inv] x _ i, of _ ?y]) (use that in \<open>simp_all add: named_def\<close>)
    qed (use that in simp_all)
    then show ?thesis unfolding y using x t by (simp add: ep_upd_def)
  qed
  have "us_inv (snd (case unix_bound_insert canon e s of (r, s1) \<Rightarrow> if r < 0 then (r, s1)
      else (0, ep_upd e (\<lambda>x. x\<lparr> ue_kind := UEP_BOUND, ue_bound := take (UNIX_PATH_MAX - 1) canon \<rparr>) s1))) pl X" if "ue_kind x = UEP_NONE" for canon
  proof -
    obtain r t where rt: "unix_bound_insert canon e s = (r, t)" by fastforce
    from insert_cases[OF ready rt] show ?thesis using rt inv ok[OF that] by auto
  qed
  then show ?thesis using inv ep_viewsI(5)[OF x] by (simp add: unix_bind_ioctl_def split: option.splits sum.splits)
qed

lemma lookup_cases:
  assumes inv: "us_inv s pl X" and l: "unix_bound_lookup path s = (r, t)"
  shows "r = None \<and> t = s \<or> (\<exists>l z. r = Some l \<and> us_ep s l = Some z \<and> named z \<and> Some (path, l) \<in> set (us_bound s) \<and>
    t = s\<lparr> us_ep := (us_ep s)(l \<mapsto> z\<lparr> ue_refs := ue_refs z + 1 \<rparr>) \<rparr>)"
proof -
  have ready: "us_ready s" using us_invD(1)[OF inv] by (simp add: fresh_ok_def)
  show ?thesis
  proof (cases "List.find (\<lambda>b. map_option fst b = Some path) (us_bound s)")
    case None
    then show ?thesis using l ready by (simp add: unix_bound_lookup_def)
  next
    case (Some b)
    then obtain i where i: "i < length (us_bound s)" "us_bound s ! i = b" "map_option fst b = Some path" by (auto simp: find_Some_iff)
    obtain e where b: "b = Some (path, e)" using i(3) by (cases b) auto
    obtain z where z: "us_ep s e = Some z" "named z" using registry_entry(1)[OF us_invD(6)[OF inv] i(1)] i(2) b by blast
    have "ue_used z" by (rule ep_locD(1)[OF inv_loc[OF inv z(1)]])
    moreover have "Some (path, e) \<in> set (us_bound s)" using i b nth_mem by fastforce
    ultimately show ?thesis using l ready Some b z by (auto simp: unix_bound_lookup_def ep_upd_live)
  qed
qed

lemma inv_hold:
  assumes "us_inv s pl X" "us_ep s l = Some z"
  shows "us_inv (s\<lparr> us_ep := (us_ep s)(l \<mapsto> z\<lparr> ue_refs := ue_refs z + 1 \<rparr>) \<rparr>) pl (X(l := X l + 1))"
proof (rule inv_upd[OF assms])
  show "ep_loc (held s l) (queued pl l) ((X(l := X l + 1)) l) (length (pl l)) (z\<lparr> ue_refs := ue_refs z + 1 \<rparr>)"
    using inv_loc[OF assms] by (auto simp: ep_loc_def rx_ok_def)
qed (simp_all add: us_same_def ue_shape_def)

lemma put_res_other: "a \<noteq> e \<Longrightarrow> us_ep (put_res e s) a = us_ep s a"
  by (auto simp: put_res_def ep_free_def fref_fold split: option.splits)

text \<open>The server side of a new connection, and the client.\<close>

definition srv_ep :: "nat \<Rightarrow> uep" where
  "srv_ep e = uep_new\<lparr> ue_kind := UEP_CONN, ue_peer := Some e, ue_refs := 1 \<rparr>"

lemma connect_pair:
  assumes inv: "us_inv s pl X" and x: "us_ep s e = Some x" "ue_kind x = UEP_NONE" and al: "ep_alloc True s = (Some v, s2)"
    and t: "t = ep_upd e (\<lambda>x. x\<lparr> ue_kind := UEP_CONN \<rparr>) (ep_link v e (ep_upd v (\<lambda>y. y\<lparr> ue_kind := UEP_CONN \<rparr>) s2))"
  shows "us_inv t pl X" "us_ep s v = None" "v \<noteq> e" "us_node t = us_node s" "\<not> held s v" "\<not> queued pl v"
    "us_ep t = (us_ep s)(v \<mapsto> srv_ep e, e \<mapsto> x\<lparr> ue_kind := UEP_CONN, ue_peer := Some v, ue_refs := ue_refs x + 1 \<rparr>)"
proof -
  have v: "v = us_next s" and s2: "s2 = s\<lparr> us_ep := (us_ep s)(v \<mapsto> uep_new), us_next := us_next s + 1 \<rparr>" using al by (auto simp: ep_alloc_def)
  show vn: "us_ep s v = None" using inv_fresh[OF inv, of v] v by simp
  then show ve: "v \<noteq> e" using x(1) by auto
  note dead = inv_dead[OF inv vn]
  show "\<not> held s v" "\<not> queued pl v" by (rule dead)+
  let ?x = "x\<lparr> ue_kind := UEP_CONN, ue_peer := Some v, ue_refs := ue_refs x + 1 \<rparr>"
  show ep: "us_ep t = (us_ep s)(v \<mapsto> srv_ep e, e \<mapsto> ?x)" and nd: "us_node t = us_node s"
    using ve x(1) by (auto simp: t s2 ep_link_def ep_upd_def srv_ep_def uep_new_def)
  have s: "us_bound t = us_bound s" "us_ready t = us_ready s" "us_bad t = us_bad s" "us_next t = us_next s + 1"
    using ve x(1) by (auto simp: t s2 ep_link_def ep_upd_def)
  have en: "e < us_next s" using inv_fresh[OF inv, of e] x(1) by (cases "us_next s \<le> e") auto
  have nq: "\<not> queued pl e" using inv_queue_live(1)[OF inv, of e] x by (auto simp: queued_def)
  note nqe = inv_no_queue[OF inv x(1)] x(2)
  note loc = inv_loc[OF inv x(1)]
  show "us_inv t pl X"
  proof (rule inv_pair[OF inv vn ve _ ep nd s(1-3)])
    show "us_ep s e = None \<or> (\<exists>z. us_ep s e = Some z \<and> ue_kind z = UEP_NONE)" using x by auto
    show "ep_loc (held s v) False (X v) 0 (srv_ep e)" using dead rx_ok_new by (simp add: ep_loc_def srv_ep_def uep_new_def rx_ok_def)
    have pn: "ue_peer x = None" "held s e" using ep_locD(8)[OF loc] x(2) by auto
    show "ep_loc (held s e) False (X e) 0 ?x"
      using ep_locD(1-4,10)[OF loc] ep_locD(5)[OF loc] pn nq nqe by (simp add: ep_loc_def rx_ok_def)
  qed (use nqe s v en in \<open>simp_all add: srv_ep_def uep_new_def\<close>)
qed

lemma check_inv:
  assumes inv: "us_inv s pl X" and x: "us_ep s e = Some x" and c: "unix_connect_check cwd e arg s = r"
  shows "(\<exists>q t. r = Inl (q, t) \<and> q \<noteq> 0 \<and> us_inv t pl X) \<or>
    (\<exists>path canon l s1. r = Inr (l, s1) \<and> user_addr arg s = Some path \<and> unix_path_canon cwd path 512 = Inr canon \<and>
       Some (canon, l) \<in> set (us_bound s) \<and> ue_kind x = UEP_NONE \<and> ep_kind l s = Some UEP_LISTEN \<and> length (pl l) < UNIX_BACKLOG \<and>
       us_inv s1 pl (X(l := X l + 1)) \<and> (\<exists>z. us_ep s l = Some z \<and> s1 = s\<lparr> us_ep := (us_ep s)(l \<mapsto> z\<lparr> ue_refs := ue_refs z + 1 \<rparr>) \<rparr>))"
proof (cases "ue_kind x = UEP_NONE \<and> arg \<noteq> 0")
  case False
  then have "r = Inl (- EINVAL, s)" using c ep_viewsI(5)[OF x] by (auto simp: unix_connect_check_def split: if_splits)
  then show ?thesis using inv by simp
next
  case True
  then have k: "ue_kind x = UEP_NONE" by simp
  show ?thesis
  proof (cases "\<exists>canon l z. (case user_addr arg s of None \<Rightarrow> False | Some path \<Rightarrow> unix_path_canon cwd path 512 = Inr canon) \<and>
      unix_bound_lookup canon s = (Some l, z)")
    case False
    note d = unix_connect_check_def[of cwd e arg s, unfolded c]
    have g: "\<not> ep_kind e s \<noteq> Some UEP_NONE" "arg \<noteq> 0" using ep_viewsI(5)[OF x] True by simp_all
    have "\<exists>q. r = Inl (q, s) \<and> q \<noteq> 0"
    proof (cases "user_addr arg s")
      case None
      then show ?thesis using d g by simp
    next
      case (Some path)
      show ?thesis
      proof (cases "unix_path_canon cwd path 512")
        case (Inl q)
        then have "q \<noteq> 0" by (auto simp: unix_path_canon_def split: if_splits option.splits)
        then show ?thesis using d g Some Inl by simp
      next
        case (Inr canon)
        obtain o1 t where o: "unix_bound_lookup canon s = (o1, t)" by (cases "unix_bound_lookup canon s")
        have "o1 = None" using False Some Inr o by (cases o1) auto
        then show ?thesis using d g Some Inr o lookup_cases[OF inv o] by simp
      qed
    qed
    then show ?thesis using inv by auto
  next
    case True2: True
    then obtain canon l s1 path where up: "user_addr arg s = Some path" "unix_path_canon cwd path 512 = Inr canon" "unix_bound_lookup canon s = (Some l, s1)"
      by (auto split: option.splits)
    obtain z where z: "us_ep s l = Some z" "s1 = s\<lparr> us_ep := (us_ep s)(l \<mapsto> z\<lparr> ue_refs := ue_refs z + 1 \<rparr>) \<rparr>" "Some (canon, l) \<in> set (us_bound s)"
      using lookup_cases[OF inv up(3)] by auto
    have i1: "us_inv s1 pl (X(l := X l + 1))" using inv_hold[OF inv z(1)] z(2) by simp
    have eq: "r = (if \<not> (ue_kind z = UEP_LISTEN \<and> ue_pend_count z < ue_backlog z) then Inl (- ECONNREFUSED, ep_put l s1) else Inr (l, s1))"
      unfolding c[symmetric] unix_connect_check_def using up True ep_viewsI(5)[OF x] z(2) by simp
    show ?thesis
    proof (cases "ue_kind z = UEP_LISTEN \<and> ue_pend_count z < ue_backlog z")
      case False
      then have "r = Inl (- ECONNREFUSED, ep_put l s1)" using eq by auto
      then show ?thesis using inv_ep_put[OF i1, of l] by simp
    next
      case T3: True
      have "length (pl l) < UNIX_BACKLOG" using ep_locD(4,10)[OF inv_loc[OF inv z(1)]] T3 by simp
      moreover have "ep_kind l s = Some UEP_LISTEN" using ep_viewsI(5)[OF z(1)] T3 by simp
      ultimately show ?thesis using eq T3 up(1,2) z k i1 by auto
    qed
  qed
qed

lemma append_inv:
  assumes inv: "us_inv s pl X" and l: "0 < X l" "us_ep s l = Some z" "ue_kind z = UEP_LISTEN" and x: "us_ep s e = Some x" "ue_kind x = UEP_NONE"
    and c: "unix_connect_append ok l e s = (r, t)"
  shows "r \<noteq> 0 \<and> us_inv t pl (X(l := X l - 1)) \<or>
    r = 0 \<and> (\<exists>v. us_ep s v = None \<and> us_inv t (pl(l := pl l @ [v])) (X(l := X l - 1)) \<and> ep_peer t e = Some v) \<and>
      us_node t = us_node s \<and> (\<forall>a. a \<noteq> e \<longrightarrow> a \<noteq> l \<longrightarrow> us_ep s a \<noteq> None \<longrightarrow> ep_kind a t = ep_kind a s)"
proof (cases ok)
  case False
  then have "r \<noteq> 0 \<and> t = ep_put l s" using c by (auto simp: unix_connect_append_def ep_alloc_def)
  then show ?thesis using inv_ep_put[OF inv l(1)] by simp
next
  case True
  obtain v s2 where al: "ep_alloc True s = (Some v, s2)" by (auto simp: ep_alloc_def)
  define u where "u = ep_upd e (\<lambda>x. x\<lparr> ue_kind := UEP_CONN \<rparr>) (ep_link v e (ep_upd v (\<lambda>y. y\<lparr> ue_kind := UEP_CONN \<rparr>) s2))"
  note p = connect_pair[OF inv x al u_def]
  have rt: "r = 0" "t = ep_put l (pend_append l v u)" using c True al by (auto simp: unix_connect_append_def u_def Let_def)
  have vl: "v \<noteq> l" and le: "l \<noteq> e" using p(2) l x by auto
  have ul: "us_ep u l = Some z" and uv: "us_ep u v = Some (srv_ep e)" using p(3,7) le vl l(2) by auto
  note ap = pend_append_eq[OF p(1) uv ul l(3) vl p(6)]
  have nh: "\<not> held u v" using p(4,5) by (simp add: held_def)
  have i2: "us_inv (pend_append l v u) (pl(l := pl l @ [v])) X"
    by (rule inv_enqueue[OF p(1) uv _ _ nh p(6) ul l(3) ap]) (simp_all add: srv_ep_def)
  have "ep_peer (pend_append l v u) e = Some v" using p(3,7) le by (simp add: ep_peer_def ap(2) enq_ep_def option.map_comp bind_map_option o_def)
  then have "ep_peer t e = Some v" using le ep_put_eq[OF i2 l(1)] put_res_other[of e l] by (simp add: rt(2) ep_peer_def)
  moreover have "ep_kind a t = ep_kind a s" if "a \<noteq> e" "a \<noteq> l" "us_ep s a \<noteq> None" for a
  proof -
    have av: "a \<noteq> v" using that(3) p(2) by auto
    have "us_ep t a = us_ep (pend_append l v u) a" using that(2) ep_put_eq[OF i2 l(1)] put_res_other[of a l] by (simp add: rt(2))
    moreover have "us_ep u a = us_ep s a" using p(3,7) that av by auto
    ultimately show ?thesis using that(2) av by (auto simp: ep_kind_def ap(2) enq_ep_def option.map_comp o_def)
  qed
  moreover have "us_node t = us_node s" using inv_ep_put[OF i2 l(1)] ap(1) p(4) by (simp add: rt(2) us_same_def)
  ultimately show ?thesis using inv_ep_put[OF i2 l(1)] rt p(2) by auto
qed

end
