(* ===== verification/Unixsock_Reach.thy ===== *)
theory Unixsock_Reach
  imports Unixsock_Ops
begin

text \<open>
  Accepting and creating sockets, the states of the local sockets that any sequence of calls can
  reach, and the properties of these states.
\<close>

section \<open>Accepting\<close>

lemma fd_freeD: "fd_free fds = Some i \<Longrightarrow> 3 \<le> i \<and> i < MAX_FD \<and> fds ! i = None"
  by (auto simp: fd_free_def find_Some_iff)

text \<open>The state after the first pending connection has been taken out of the queue.\<close>

definition accept_pop :: "nat \<Rightarrow> nat \<Rightarrow> us \<Rightarrow> us" where
  "accept_pop e v s =
     (let nx = ep_next s v in ep_upd v (\<lambda>y. y\<lparr> ue_pend_next := None \<rparr>)
       (ep_upd e (\<lambda>x. x\<lparr> ue_pend_head := nx, ue_pend_tail := (if nx = None then None else ue_pend_tail x),
          ue_pend_count := ue_pend_count x - 1 \<rparr>) s))"

lemma accept_pop_inv:
  assumes inv: "us_inv s pl X" and pl: "pl e = v # r"
  shows "us_inv (accept_pop e v s) (pl(e := r)) (X(v := X v + 1))" "us_same s (accept_pop e v s)" "us_ep (accept_pop e v s) = deq_ep e v (us_ep s)"
proof -
  note q = inv_queue_live[OF inv, of v e, unfolded pl, simplified]
  show same: "us_same s (accept_pop e v s)" and ep: "us_ep (accept_pop e v s) = deq_ep e v (us_ep s)"
    using q by (auto simp: accept_pop_def Let_def ep_upd_def us_same_def deq_ep_def ep_next_def)
  show "us_inv (accept_pop e v s) (pl(e := r)) (X(v := X v + 1))" by (rule inv_dequeue[OF inv pl same ep])
qed

text \<open>What happens to the connection once it is out of the queue.\<close>

definition accept_rest :: "(nat \<Rightarrow> bool) \<Rightarrow> u32 \<Rightarrow> nat \<Rightarrow> ufds \<times> us \<Rightarrow> int \<times> ufds \<times> us" where
  "accept_rest km arg v = (\<lambda>(fds, s2).
     case unix_make_node (km 0) v s2 of
       (None, s3) \<Rightarrow> (- ENOMEM, fds, ep_put v s3)
     | (Some n, s3) \<Rightarrow>
         (case alloc_fd (km 1) n (fds, s3) of (fd, fds4, s4) \<Rightarrow>
            if fd < 0 then (- EMFILE, fds4, node_free n (ep_put v (ep_put v (node_clear n s4))))
            else if arg \<noteq> 0 then
              (case copy_to_user (us_mem s4) arg (replicate 12 0) of (r, m) \<Rightarrow>
                 if r \<noteq> 0 then
                   (case close_new_fd (nat fd) (fds4, s4) of (fds5, s5) \<Rightarrow> (- EFAULT, fds5, ep_put v s5))
                 else (fd, fds4, ep_put v (s4\<lparr> us_mem := m \<rparr>)))
            else (fd, fds4, ep_put v s4)))"

lemma accept_step_eq:
  assumes inv: "us_inv s pl X" and x: "us_ep s e = Some x"
  shows "unix_accept_step km arg e (fds, s) =
    (case pl e of [] \<Rightarrow> if us_sig s then Inl (- EINTR, fds, s) else Inr (fds, s)
     | v # r \<Rightarrow> Inl (accept_rest km arg v (fds, accept_pop e v s)))"
proof (cases "pl e")
  case Nil
  then show ?thesis using ep_locD(10)[OF inv_loc[OF inv x]] x by (simp add: unix_accept_step_def)
next
  case (Cons v r)
  have cnt: "ue_pend_count x > 0" using ep_locD(10)[OF inv_loc[OF inv x]] Cons by simp
  have hd: "ue_pend_head x = Some v" using queuesD(1)[OF us_invD(4)[OF inv], of e] ep_viewsI(3)[OF x] Cons by simp
  obtain y where y: "us_ep s v = Some y" using inv_queue_live(1)[OF inv, of v e] Cons by auto
  have pop: "ep_upd v (\<lambda>y. y\<lparr> ue_pend_next := None \<rparr>) (ep_upd e (\<lambda>x. x\<lparr> ue_pend_head := ue_pend_next y,
      ue_pend_tail := (if ue_pend_next y = None then None else ue_pend_tail x), ue_pend_count := ue_pend_count x - 1 \<rparr>) s) = accept_pop e v s"
    by (simp add: accept_pop_def ep_viewsI(2)[OF y] Let_def)
  show ?thesis unfolding Cons list.case accept_rest_def prod.case unix_accept_step_def Let_def x option.case if_P[OF cnt] hd y pop
    by (simp split: prod.splits option.splits)
qed

lemma alloc_fd_room:
  assumes "fd_free fds = Some i"
  shows "alloc_fd ok n (fds, s) = (if ok then (int i, fds[i := Some (FSock n)], s) else (-1, fds, s))"
  using assms by (simp add: alloc_fd_def)

lemma accept_rest_inv:
  assumes inv: "us_inv s pl X" and y: "us_ep s v = Some y" "ue_kind y = UEP_CONN" "ue_peer y = None \<Longrightarrow> ue_eof y \<and> ue_peer_no_read y" "0 < X v"
    and alone: "\<not> held s v" "\<not> queued pl v" and fds: "length fds = MAX_FD" "fd_free fds = Some i"
  shows "us_inv (snd (snd (accept_rest km arg v (fds, s)))) pl (X(v := X v - 1))"
proof (cases "km 0")
  case False
  then show ?thesis using inv_ep_put[OF inv y(4)] by (simp add: accept_rest_def unix_make_node_def)
next
  case True
  obtain n s3 where mk: "unix_make_node True v s = (Some n, s3)" by (auto simp: unix_make_node_def Let_def)
  note m = inv_make_node[OF inv y(1-3) alone mk]
  have nn: "us_node s3 n = Some (Some v)" using m(3) by simp
  obtain y3 where y3: "us_ep s3 v = Some y3" "ue_kind y3 = UEP_CONN" using m(4) y(2) by simp
  have put: "us_inv (ep_put v t) pl (X(v := X v - 1))" if "us_inv t pl X" for t using inv_ep_put[OF that y(4)] by simp
  have fail: "us_inv (node_free n (ep_put v (ep_put v (node_clear n s3)))) pl (X(v := X v - 1))"
  proof -
    note c = inv_node_clear[OF m(1) nn y3]
    have p1: "us_inv (ep_put v (node_clear n s3)) pl X" "us_node (ep_put v (node_clear n s3)) = us_node (node_clear n s3)"
      using inv_ep_put[OF c(1), of v] by simp_all
    have p2: "us_node (ep_put v (ep_put v (node_clear n s3))) n = Some None" using inv_ep_put[OF p1(1) y(4)] p1(2) c(3) by simp
    show ?thesis by (rule inv_node_free[OF put[OF p1(1)] p2])
  qed
  have il: "i < length fds" using fd_freeD[OF fds(2)] fds(1) by simp
  have undo: "us_inv (ep_put v (unix_node_close n s3)) pl (X(v := X v - 1))" by (rule put[OF close_connected[OF m(1) nn y3]])
  show ?thesis using True mk fail undo put[OF m(1)] put[of "s3\<lparr> us_mem := u \<rparr>" for u] m(1) il
    by (simp add: accept_rest_def alloc_fd_room[OF fds(2)] close_new_fd_def case_prod_beta)
qed

lemma accept_inv:
  assumes inv: "us_inv s pl X" and x: "us_ep s e = Some x" and fds: "length fds = MAX_FD" "fd_free fds = Some i"
  shows "us_inv (snd (rs (unix_accept_step km arg e (fds, s)))) (pl(e := tl (pl e))) X"
proof (cases "pl e")
  case Nil
  then show ?thesis using inv by (simp add: accept_step_eq[OF inv x] fun_upd_idem)
next
  case (Cons v r)
  note p = accept_pop_inv[OF inv Cons]
  have vin: "v \<in> set (pl e)" using Cons by simp
  note q = inv_queue_live[OF inv vin]
  obtain y where y: "us_ep s v = Some y" "ue_kind y = UEP_CONN" using q(1) by blast
  note loc = inv_loc[OF inv y(1)]
  have nh: "\<not> held s v" using ep_locD(7)[OF loc] q(2) by blast
  have "us_inv (snd (snd (accept_rest km arg v (fds, accept_pop e v s)))) (pl(e := r)) ((X(v := X v + 1))(v := (X(v := X v + 1)) v - 1))"
  proof (rule accept_rest_inv[OF p(1) _ _ _ _ _ _ fds])
    show "us_ep (accept_pop e v s) v = Some (y\<lparr> ue_pend_next := None \<rparr>)" using y(1) q(3) by (simp add: p(3) deq_ep_def Let_def)
    show "\<not> held (accept_pop e v s) v" using nh held_same[OF p(2)] by simp
    show "\<not> queued (pl(e := r)) v" using queued_tl[OF us_invD(4)[OF inv] Cons] by simp
    show "ue_peer (y\<lparr> ue_pend_next := None \<rparr>) = None \<Longrightarrow> ue_eof (y\<lparr> ue_pend_next := None \<rparr>) \<and> ue_peer_no_read (y\<lparr> ue_pend_next := None \<rparr>)"
      using ep_locD(9)[OF loc y(2)] q(2) by simp
  qed (use y in simp_all)
  then show ?thesis by (simp add: accept_step_eq[OF inv x] Cons rs_def case_prod_beta)
qed

section \<open>Creating\<close>

lemma create_inv:
  assumes inv: "us_inv s pl X"
  shows "us_inv (snd (unix_sock_create km ty s)) pl X"
proof -
  have "us_ready s" using us_invD(1)[OF inv] by (simp add: fresh_ok_def)
  then have i: "unix_sock_init k s = s" for k by (simp add: unix_sock_init_def)
  have fr: "us_ep s (us_next s) = None" using inv_fresh[OF inv] by simp
  obtain e s1 where al: "ep_alloc True s = (Some e, s1)" by (auto simp: ep_alloc_def)
  obtain n t where mk: "unix_make_node True e s1 = (Some n, t)" by (auto simp: unix_make_node_def Let_def)
  have undo: "us_inv (ep_free e s1) pl X" by (rule inv_next[OF inv]) (use al fr in \<open>auto simp: ep_alloc_def ep_free_def\<close>)
  show ?thesis
  proof (cases "ty \<noteq> 1 \<or> \<not> km 1")
    case True
    then show ?thesis using inv i by (auto simp: unix_sock_create_def ep_alloc_def)
  next
    case False
    then show ?thesis using i al mk undo inv_create[OF inv al mk]
      by (cases "km 2") (simp_all add: unix_sock_create_def unix_make_node_def)
  qed
qed

lemma close_node:
  assumes inv: "us_inv s pl X" and n: "us_node s n = Some z"
  shows "us_node (unix_node_close n s) = (us_node s)(n := None)"
proof (cases z)
  case None
  then show ?thesis using n by (simp add: unix_node_close_def node_clear_def node_free_def)
next
  case (Some e)
  then have n': "us_node s n = Some (Some e)" using n by simp
  obtain x where x: "us_ep s e = Some x" using inv_node_live(1)[OF inv n'] by blast
  show ?thesis
  proof (cases "ue_kind x = UEP_CONN")
    case True
    note c = inv_node_clear[OF inv n' x True]
    have "us_ep (node_clear n s) e = Some x" by (simp add: c(4) x)
    note cc = inv_close_conn[OF c(1) this _ c(2) inv_node_live(3)[OF inv n'], simplified]
    have "unix_node_close n s = node_free n (unix_node_close_conn e (node_clear n s))"
      using n' c(4) x True ep_locD(1)[OF inv_loc[OF inv x]] by (simp add: unix_node_close_def Let_def)
    then show ?thesis using cc(2) c(3) by (simp add: node_free_def)
  next
    case False
    then show ?thesis using close_other_eq(1)[OF inv n' x] by (simp add: closed_other_def)
  qed
qed

lemma put_res_node: "put_res e (s\<lparr> us_node := f \<rparr>) = (put_res e s)\<lparr> us_node := f \<rparr>"
  by (auto simp: put_res_def ep_free_def fref_fold split: option.splits)

lemma unlinked_nodes: "unlinked e p (s\<lparr> us_node := f \<rparr>) = (unlinked e p s)\<lparr> us_node := f \<rparr>"
  by (auto simp: unlinked_def ep_upd_def us_fault_def split: option.splits)

text \<open>Giving up a socket while it is being set up: the connection is broken before the node goes.\<close>

lemma break_then_clear:
  assumes inv: "us_inv s pl X" and n: "us_node s n = Some (Some a)" and x: "us_ep s a = Some x" "ue_peer x = Some b"
  shows "us_inv (node_free n (ep_put a (node_clear n (ep_break a s)))) pl X"
proof -
  have k: "ue_kind x = UEP_CONN" by (rule inv_peer(3)[OF inv x])
  note c = inv_node_clear[OF inv n x(1) k]
  have xc: "us_ep (node_clear n s) a = Some x" by (simp add: c(4) x(1))
  have nc: "node_clear n s = s\<lparr> us_node := (us_node s)(n \<mapsto> None) \<rparr>" by (simp add: node_clear_def n)
  have nb: "us_node (ep_break a s) = us_node s" unfolding break_eq[OF inv x] by simp
  have "ep_break a (node_clear n s) = node_clear n (ep_break a s)"
  proof -
    have "ep_break a (node_clear n s) = put_res b (put_res a (unlinked a b (node_clear n s)))" by (rule break_eq[OF c(1) xc x(2)])
    also have "\<dots> = (put_res b (put_res a (unlinked a b s)))\<lparr> us_node := (us_node s)(n \<mapsto> None) \<rparr>" unfolding nc unlinked_nodes put_res_node ..
    also have "\<dots> = node_clear n (ep_break a s)" using nb n by (simp add: node_clear_def break_eq[OF inv x])
    finally show ?thesis .
  qed
  moreover note b = inv_break[OF c(1) xc x(2) c(2) inv_node_live(3)[OF inv n]]
  ultimately have "us_inv (ep_put a (node_clear n (ep_break a s))) pl X" "us_node (ep_put a (node_clear n (ep_break a s))) n = Some None"
    using inv_ep_put[OF b(1), of a] b(2) c(3) by simp_all
  then show ?thesis by (rule inv_node_free)
qed

lemma two_free:
  assumes "length fds = MAX_FD" "fd_free fds = Some i" "fd_free (fds[i := Some f]) \<noteq> None"
  shows "\<exists>j. fd_free (fds[i := Some g]) = Some j \<and> j \<noteq> i"
proof -
  have i: "i < length fds" using fd_freeD[OF assms(2)] assms(1) by simp
  have "fd_free (fds[i := Some g]) = fd_free (fds[i := Some f])" unfolding fd_free_def
    by (rule find_cong[OF refl]) (use i in \<open>auto simp: nth_list_update\<close>)
  then obtain j where j: "fd_free (fds[i := Some g]) = Some j" using assms(3) by auto
  then show ?thesis using fd_freeD[OF j] i by (cases "j = i") auto
qed

definition pair_up :: "nat \<Rightarrow> nat \<Rightarrow> us \<Rightarrow> us" where
  "pair_up a b s = ep_link a b (ep_upd b (\<lambda>y. y\<lparr> ue_kind := UEP_CONN \<rparr>) (ep_upd a (\<lambda>x. x\<lparr> ue_kind := UEP_CONN \<rparr>) s))"

lemma pair_new:
  assumes inv: "us_inv s pl X" and al: "ep_alloc True s = (Some a, s1)" "ep_alloc True s1 = (Some b, s2)"
  shows "us_inv (pair_up a b s2) pl X" "us_ep (pair_up a b s2) = (us_ep s)(a \<mapsto> srv_ep b, b \<mapsto> srv_ep a)" "a \<noteq> b"
    "\<not> held (pair_up a b s2) a" "\<not> queued pl a" "\<not> held (pair_up a b s2) b" "\<not> queued pl b"
proof -
  have ab: "a = us_next s" "b = us_next s + 1" and s2: "s2 = s\<lparr> us_ep := (us_ep s)(a \<mapsto> uep_new, b \<mapsto> uep_new), us_next := us_next s + 2 \<rparr>"
    using al by (auto simp: ep_alloc_def)
  show ne: "a \<noteq> b" using ab by simp
  have fr: "us_ep s a = None" "us_ep s b = None" using inv_fresh[OF inv, of a] inv_fresh[OF inv, of b] ab by auto
  show ep: "us_ep (pair_up a b s2) = (us_ep s)(a \<mapsto> srv_ep b, b \<mapsto> srv_ep a)"
    using ne by (auto simp: pair_up_def ep_link_def ep_upd_def s2 srv_ep_def uep_new_def)
  have s: "us_node (pair_up a b s2) = us_node s" "us_bound (pair_up a b s2) = us_bound s" "us_ready (pair_up a b s2) = us_ready s"
    "us_bad (pair_up a b s2) = us_bad s" "us_next (pair_up a b s2) = us_next s + 2"
    using ne by (auto simp: pair_up_def ep_link_def ep_upd_def s2)
  note da = inv_dead[OF inv fr(1)] note db = inv_dead[OF inv fr(2)]
  show "\<not> held (pair_up a b s2) a" "\<not> queued pl a" "\<not> held (pair_up a b s2) b" "\<not> queued pl b" using da db s(1) by (simp_all add: held_def)
  show "us_inv (pair_up a b s2) pl X"
  proof (rule inv_pair[OF inv fr(1) ne _ ep s(1-4)])
    show "ep_loc (held s a) False (X a) 0 (srv_ep b)" "ep_loc (held s b) False (X b) 0 (srv_ep a)"
      using da db rx_ok_new by (simp_all add: ep_loc_def srv_ep_def uep_new_def rx_ok_def)
  qed (use fr s(5) ab in \<open>simp_all add: srv_ep_def uep_new_def\<close>)
qed

text \<open>The last part of \<open>unix_socketpair\<close>, with both nodes made.\<close>

definition pair_install :: "(nat \<Rightarrow> bool) \<Rightarrow> nat \<Rightarrow> nat \<Rightarrow> ufds \<times> us \<Rightarrow> (int \<times> int \<times> int) \<times> ufds \<times> us" where
  "pair_install km n m = (\<lambda>(fds, s6).
     case alloc_fd (km 5) n (fds, s6) of (fa, fds7, s7) \<Rightarrow>
       if fa < 0 then ((- EMFILE, 0, 0), fds7, unix_node_close m (unix_node_close n s7))
       else case alloc_fd (km 6) m (fds7, s7) of (fb, fds8, s8) \<Rightarrow>
         if fb < 0 then ((- EMFILE, 0, 0), close_new_fd (nat fa) (fds8, unix_node_close m s8))
         else ((0, fa, fb), fds8, s8))"

lemma close_two:
  assumes "us_inv s pl X" "us_node s n = Some (Some a)" "us_node s m = Some (Some b)" "n \<noteq> m" "X a = 0" "X b = 0"
  shows "\<exists>pl'. us_inv (unix_node_close m (unix_node_close n s)) pl' X"
proof -
  obtain pl' where "us_inv (unix_node_close n s) pl' X" using inv_node_close[OF assms(1,2)] assms(5) by auto
  moreover have "us_node (unix_node_close n s) m = Some (Some b)" using close_node[OF assms(1,2)] assms(3,4) by simp
  ultimately show ?thesis using inv_node_close[of _ _ X m "Some b"] assms(6) by blast
qed

lemma install_pair_inv:
  assumes inv: "us_inv s pl X" and n: "us_node s n = Some (Some a)" "us_node s m = Some (Some b)" "n \<noteq> m" and X: "X a = 0" "X b = 0"
    and fds: "length fds = MAX_FD" "fd_free fds = Some i" "fd_free (fds[i := Some f]) \<noteq> None"
  shows "\<exists>pl'. us_inv (snd (snd (pair_install km n m (fds, s)))) pl' X"
proof -
  obtain j where j: "fd_free (fds[i := Some (FSock n)]) = Some j" "j \<noteq> i" using two_free[OF fds] by blast
  have i: "i < length fds" using fd_freeD[OF fds(2)] fds(1) by simp
  have c: "\<exists>pl'. us_inv (unix_node_close m (unix_node_close n s)) pl' X" by (rule close_two[OF inv n X])
  have c': "\<exists>pl'. us_inv (unix_node_close n (unix_node_close m s)) pl' X" by (rule close_two[OF inv n(2,1) _ X(2,1)]) (use n(3) in simp)
  show ?thesis
  proof (cases "km 5")
    case False
    then show ?thesis using c by (simp add: pair_install_def alloc_fd_room[OF fds(2)])
  next
    case True
    then show ?thesis using c' inv i j by (cases "km 6") (auto simp: pair_install_def alloc_fd_room[OF fds(2)] alloc_fd_room[OF j(1)] close_new_fd_def)
  qed
qed

lemma socketpair_inv:
  assumes inv: "us_inv s pl X" and fds: "length fds = MAX_FD" "fd_free fds = Some i" "fd_free (fds[i := Some f]) \<noteq> None"
  shows "\<exists>pl'. us_inv (snd (snd (unix_socketpair km task ty (fds, s)))) pl' X"
proof (cases "ty = 1 \<and> task")
  case False
  then show ?thesis using inv by (auto simp: unix_socketpair_def)
next
  case T: True
  have "us_ready s" using us_invD(1)[OF inv] by (simp add: fresh_ok_def)
  then have i: "unix_sock_init k s = s" for k by (simp add: unix_sock_init_def)
  show ?thesis
  proof (cases "km 1 \<and> km 2")
    case False
    have fr: "us_ep s (us_next s) = None" using inv_fresh[OF inv] by simp
    have "us_inv (snd (snd (unix_socketpair km task ty (fds, s)))) pl X"
      by (rule inv_next[OF inv]) (use T False fr in \<open>auto simp: unix_socketpair_def i ep_alloc_def ep_free_def fun_eq_iff\<close>)
    then show ?thesis by blast
  next
    case True
    obtain a s1 b s2 where al: "ep_alloc True s = (Some a, s1)" "ep_alloc True s1 = (Some b, s2)" by (auto simp: ep_alloc_def)
    note p = pair_new[OF inv al]
    define s4 where "s4 = pair_up a b s2"
    have ea: "us_ep s4 a = Some (srv_ep b)" and eb: "us_ep s4 b = Some (srv_ep a)" using p(2,3) by (simp_all add: s4_def)
    have X0: "X a = 0" "X b = 0" using al inv_fresh[OF inv] inv_dead(1)[OF inv] by (auto simp: ep_alloc_def)
    have sp: "unix_socketpair km task ty (fds, s) =
        (let (na, s5) = unix_make_node (km 3) a s4; (nb, s6) = (if na \<noteq> None then unix_make_node (km 4) b s5 else (None, s5)) in
         case (na, nb) of (Some n, Some m) \<Rightarrow> pair_install km n m (fds, s6)
         | _ \<Rightarrow> ((- ENOMEM, 0, 0), fds, let s7 = ep_break a s6;
               s8 = (case na of None \<Rightarrow> s7 | Some n \<Rightarrow> node_free n (ep_put a (node_clear n s7)))
             in case nb of None \<Rightarrow> s8 | Some m \<Rightarrow> node_free m (ep_put b (node_clear m s8))))"
      using T True al unfolding unix_socketpair_def pair_install_def Let_def s4_def pair_up_def by (simp add: i split: option.splits prod.splits)
    show ?thesis
    proof (cases "km 3")
      case False
      then show ?thesis using inv_break(1)[OF p(1), folded s4_def, OF ea _ p(4,5)[folded s4_def]]
        by (auto simp: sp unix_make_node_def srv_ep_def)
    next
      case k3: True
      obtain n s5 where mk: "unix_make_node True a s4 = (Some n, s5)" by (auto simp: unix_make_node_def Let_def)
      note m5 = inv_make_node[OF p(1)[folded s4_def] ea _ _ p(4,5)[folded s4_def] mk, unfolded srv_ep_def, simplified]
      have nn: "us_node s5 n = Some (Some a)" using m5(3) by simp
      have e5a: "us_ep s5 a = Some ((srv_ep b)\<lparr> ue_node := Some n, ue_refs := ue_refs (srv_ep b) + 1 \<rparr>)" using m5(4) by (simp add: srv_ep_def)
      have e5b: "us_ep s5 b = Some (srv_ep a)" using m5(4) eb p(3) by simp
      show ?thesis
      proof (cases "km 4")
        case False
        have "us_inv (node_free n (ep_put a (node_clear n (ep_break a s5)))) pl X"
          by (rule break_then_clear[OF m5(1) nn e5a]) (simp add: srv_ep_def)
        then show ?thesis using k3 mk False by (auto simp: sp unix_make_node_def[of False])
      next
        case k4: True
        obtain m s6 where mk6: "unix_make_node True b s5 = (Some m, s6)" by (auto simp: unix_make_node_def Let_def)
        have hb: "\<not> held s5 b" using held_new[of s5 s4 n a b] m5(3) inv_fresh[OF p(1)[folded s4_def], of n] m5(2) p(3,6) by (simp add: s4_def)
        note m6 = inv_make_node[OF m5(1) e5b _ _ hb p(7) mk6, unfolded srv_ep_def, simplified]
        have nm: "n \<noteq> m" using nn inv_fresh[OF m5(1), of m] m6(2) by auto
        have "us_node s6 n = Some (Some a)" "us_node s6 m = Some (Some b)" using m6(3) nn nm by simp_all
        from install_pair_inv[OF m6(1) this nm X0 fds, of km] show ?thesis using k3 k4 mk mk6 by (simp add: sp)
      qed
    qed
  qed
qed

section \<open>Reachable states\<close>

definition us_boot :: "umem \<Rightarrow> us" where
  "us_boot m = \<lparr> us_ep = (\<lambda>_. None), us_node = (\<lambda>_. None), us_next = 0, us_bound = [], us_ready = False, us_mem = m, us_sig = False,
     us_sigpipe = 0, us_frefs = (\<lambda>_. 0), us_bad = False \<rparr>"

text \<open>
  The calls in any order and by any number of tasks, those that sleep one round at a time, on nodes that
  are open when the step is made. \<open>X\<close> counts for every endpoint the calls of \<open>connect\<close> that have
  found it as their listener and have not appended yet: any other calls can run in between. So can
  they between the two parts of a round of writing, as long as the endpoint that was read from
  \<open>ep->peer\<close> has not been freed.

  The conditions: the registry could be allocated; \<open>accept\<close> and \<open>socketpair\<close> find room in the table of
  descriptors; a node whose endpoint is not connected is not closed while a \<open>connect\<close> to it is
  between its parts, and no other call binds or connects the caller's endpoint meanwhile. Between the
  steps other programs change their memory and signals come and go.
\<close>

abbreviation none_held :: "nat \<Rightarrow> nat" where "none_held \<equiv> \<lambda>_. 0"

inductive us_run :: "us \<Rightarrow> (nat \<Rightarrow> nat) \<Rightarrow> bool" where
  boot: "us_run (unix_sock_init True (us_boot m)) none_held"
| env: "us_run s X \<Longrightarrow> us_run (s\<lparr> us_mem := m, us_sig := g \<rparr>) X"
| create: "us_run s X \<Longrightarrow> us_run (snd (unix_sock_create km ty s)) X"
| socketpair: "us_run s X \<Longrightarrow> length fds = MAX_FD \<Longrightarrow> fd_free fds = Some i \<Longrightarrow> fd_free (fds[i := Some f]) \<noteq> None \<Longrightarrow>
    us_run (snd (snd (unix_socketpair km task ty (fds, s)))) X"
| nclose: "us_run s X \<Longrightarrow> us_node s n = Some z \<Longrightarrow> (\<And>e. z = Some e \<Longrightarrow> ep_kind e s \<noteq> Some UEP_CONN \<Longrightarrow> X e = 0) \<Longrightarrow>
    us_run (unix_node_close n s) X"
| nonblock: "us_run s X \<Longrightarrow> us_run (snd (unix_sock_set_nonblock n on s)) X"
| nread: "us_run s X \<Longrightarrow> us_node s n = Some (Some e) \<Longrightarrow> us_run (rs (unix_read_step buf sz e s)) X"
| nwrite: "us_run s X \<Longrightarrow> us_node s n = Some (Some e) \<Longrightarrow> us_run (snd (rs (unix_write_step buf sz e (w, s)))) X"
| nwrite_peer: "us_run s X \<Longrightarrow> us_ep s p \<noteq> None \<Longrightarrow> us_run (snd (rs (unix_write_peer buf sz nb p (w, s)))) X"
| payload: "us_run s X \<Longrightarrow> us_node s n = Some (Some e) \<Longrightarrow> us_run (snd (rs (ep_write_payload_step buf sz e (w, s)))) X"
| payload_peer: "us_run s X \<Longrightarrow> us_ep s p \<noteq> None \<Longrightarrow> us_run (snd (rs (ep_payload_peer buf sz p (w, s)))) X"
| bind: "us_run s X \<Longrightarrow> us_node s n = Some (Some e) \<Longrightarrow> us_run (snd (unix_bind_ioctl cwd e arg s)) X"
| refuse: "us_run s X \<Longrightarrow> us_node s n = Some (Some e) \<Longrightarrow> unix_connect_check cwd e arg s = Inl (r, t) \<Longrightarrow> us_run t X"
| check: "us_run s X \<Longrightarrow> us_node s n = Some (Some e) \<Longrightarrow> unix_connect_check cwd e arg s = Inr (l, t) \<Longrightarrow> us_run t (X(l := X l + 1))"
| append: "us_run s X \<Longrightarrow> us_node s n = Some (Some e) \<Longrightarrow> ep_kind e s = Some UEP_NONE \<Longrightarrow> 0 < X l \<Longrightarrow> ep_kind l s = Some UEP_LISTEN \<Longrightarrow>
    us_run (snd (unix_connect_append ok l e s)) (X(l := X l - 1))"
| listen: "us_run s X \<Longrightarrow> us_node s n = Some (Some e) \<Longrightarrow> us_run (snd (unix_listen_ioctl e s)) X"
| accept: "us_run s X \<Longrightarrow> us_node s n = Some (Some e) \<Longrightarrow> length fds = MAX_FD \<Longrightarrow> fd_free fds = Some i \<Longrightarrow>
    us_run (snd (rs (unix_accept_step km arg e (fds, s)))) X"
| shutdown: "us_run s X \<Longrightarrow> us_node s n = Some (Some e) \<Longrightarrow> us_run (snd (unix_shutdown_ioctl e arg s)) X"
| sendmsg: "us_run s X \<Longrightarrow> us_node s n = Some (Some e) \<Longrightarrow> us_run (snd (unix_sendmsg_begin task e arg fds s)) X"
| recvmsg: "us_run s X \<Longrightarrow> us_node s n = Some (Some e) \<Longrightarrow> us_run (snd (rs (unix_recvmsg_step arg a e (fds, s)))) X"
| sockopt: "us_run s X \<Longrightarrow> us_node s n = Some (Some e) \<Longrightarrow> us_run (snd (unix_sockopt_ioctl e arg g s)) X"

text \<open>The states in which no \<open>connect\<close> is between its two parts.\<close>

definition us_reach :: "us \<Rightarrow> bool" where "us_reach s \<longleftrightarrow> us_run s none_held"

lemma boot_inv: "us_inv (unix_sock_init True (us_boot m)) (\<lambda>_. []) none_held"
  by (rule us_invI)
    (auto simp: unix_sock_init_def us_boot_def fresh_ok_def eps_ok_def peers_ok_def ep_peer_def queues_ok_def ep_head_def ep_tail_def nodes_ok_def registry_ok_def)

lemma on_node:
  assumes "\<exists>pl. us_inv s pl X" "us_node s n = Some (Some e)" "\<And>pl x. us_inv s pl X \<Longrightarrow> us_ep s e = Some x \<Longrightarrow> \<exists>pl'. us_inv t pl' X"
  shows "\<exists>pl. us_inv t pl X"
  using assms inv_node_live(1) by metis

lemma run_inv:
  assumes "us_run s X"
  shows "\<exists>pl. us_inv s pl X"
  using assms
proof (induction rule: us_run.induct)
  case (boot m)
  then show ?case using boot_inv by blast
next
  case (env s X m g)
  then show ?case by simp
next
  case (create s X km ty)
  then show ?case using create_inv by blast
next
  case (socketpair s X fds i f km task ty)
  then show ?case using socketpair_inv by blast
next
  case (nclose s X n z)
  then show ?case using inv_node_close by blast
next
  case (nonblock s X n on)
  then show ?case using nonblock_inv by blast
next
  case (nread s X n e buf sz)
  show ?case by (rule on_node[OF nread(3,2)]) (rule exI, rule read_inv)
next
  case (nwrite s X n e buf sz w)
  show ?case by (rule on_node[OF nwrite(3,2)]) (rule exI, rule write_inv(1))
next
  case (payload s X n e buf sz w)
  show ?case by (rule on_node[OF payload(3,2)]) (rule exI, rule write_inv(2))
next
  case (bind s X n e cwd arg)
  show ?case by (rule on_node[OF bind(3,2)]) (rule exI, rule bind_inv)
next
  case (nwrite_peer s X p buf sz nb w)
  then show ?case using write_peer_inv(1) by blast
next
  case (payload_peer s X p buf sz w)
  then show ?case using write_peer_inv(2) by blast
next
  case (refuse s X n e cwd arg r t)
  then obtain pl x where "us_inv s pl X" "us_ep s e = Some x" using inv_node_live(1) by blast
  from check_inv[OF this refuse(3)] show ?case by auto
next
  case (check s X n e cwd arg l t)
  then obtain pl x where "us_inv s pl X" "us_ep s e = Some x" using inv_node_live(1) by blast
  from check_inv[OF this check(3)] show ?case by (auto simp: fun_upd_def)
next
  case (append s X n e l ok)
  obtain pl where inv: "us_inv s pl X" using append.IH by blast
  obtain x z where "us_ep s e = Some x" "ue_kind x = UEP_NONE" "us_ep s l = Some z" "ue_kind z = UEP_LISTEN"
    using append(3,5) by (auto simp: ep_kind_def)
  then show ?case using append_inv[OF inv append(4), of z e x ok] by (cases "unix_connect_append ok l e s") (auto simp: fun_upd_def)
next
  case (listen s X n e)
  show ?case by (rule on_node[OF listen(3,2)]) (rule exI, rule listen_inv)
next
  case (accept s X n e fds i km arg)
  show ?case by (rule on_node[OF accept(5,2)]) (rule exI, rule accept_inv[OF _ _ accept(3,4)])
next
  case (shutdown s X n e arg)
  show ?case by (rule on_node[OF shutdown(3,2)]) (rule exI, rule shutdown_inv)
next
  case (sendmsg s X n e task arg fds)
  show ?case by (rule on_node[OF sendmsg(3,2)]) (rule exI, rule sendmsg_inv)
next
  case (recvmsg s X n e arg a fds)
  show ?case by (rule on_node[OF recvmsg(3,2)]) (rule exI, rule recvmsg_inv)
next
  case (sockopt s X n e arg g)
  show ?case by (rule on_node[OF sockopt(3,2)]) (rule exI, rule sockopt_inv)
qed

lemma reach_inv: "us_reach s \<Longrightarrow> \<exists>pl. us_inv s pl none_held"
  unfolding us_reach_def by (rule run_inv)

text \<open>A \<open>connect\<close> that no other call interrupts is one of these runs.\<close>

lemma run_connect:
  assumes s: "us_run s X" and n: "us_node s n = Some (Some e)"
  shows "us_run (snd (unix_connect_ioctl km cwd e arg s)) X"
proof (cases "unix_connect_check cwd e arg s")
  case (Inl q)
  then show ?thesis using us_run.refuse[OF s n, of cwd arg "fst q" "snd q"] by (simp add: unix_connect_ioctl_def)
next
  case (Inr q)
  obtain l t where q: "q = (l, t)" by (cases q)
  obtain pl where inv: "us_inv s pl X" using run_inv[OF s] by blast
  obtain x where x: "us_ep s e = Some x" using inv_node_live(1)[OF inv n] by blast
  obtain z where z: "ue_kind x = UEP_NONE" "us_ep s l = Some z" "ue_kind z = UEP_LISTEN" "t = s\<lparr> us_ep := (us_ep s)(l \<mapsto> z\<lparr> ue_refs := ue_refs z + 1 \<rparr>) \<rparr>"
    using check_inv[OF inv x refl, of cwd arg] Inr q by (auto simp: ep_kind_def)
  have "us_run (snd (unix_connect_append (km 0) l e t)) ((X(l := X l + 1))(l := (X(l := X l + 1)) l - 1))"
    by (rule us_run.append[OF us_run.check[OF s n Inr[unfolded q]], of n]) (use n x z in \<open>auto simp: ep_kind_def\<close>)
  then show ?thesis using Inr q by (simp add: unix_connect_ioctl_def)
qed

lemma reach_steps:
  assumes "us_reach s"
  shows "us_reach (s\<lparr> us_mem := m, us_sig := g \<rparr>)" "us_reach (snd (unix_sock_create km ty s))"
    "us_node s n = Some z \<Longrightarrow> us_reach (unix_node_close n s)"
    "us_node s n = Some (Some e) \<Longrightarrow> us_reach (rs (unix_read_step buf sz e s))"
    "us_node s n = Some (Some e) \<Longrightarrow> us_reach (snd (rs (unix_write_step buf sz e (w, s))))"
    "us_node s n = Some (Some e) \<Longrightarrow> us_reach (snd (rs (ep_write_payload_step buf sz e (w, s))))"
    "us_node s n = Some (Some e) \<Longrightarrow> us_reach (snd (unix_bind_ioctl cwd e arg s))"
    "us_node s n = Some (Some e) \<Longrightarrow> us_reach (snd (unix_connect_ioctl km cwd e arg s))"
    "us_node s n = Some (Some e) \<Longrightarrow> us_reach (snd (unix_listen_ioctl e s))"
    "length fds = MAX_FD \<Longrightarrow> fd_free fds = Some i \<Longrightarrow> fd_free (fds[i := Some f]) \<noteq> None \<Longrightarrow> us_reach (snd (snd (unix_socketpair km task ty (fds, s))))"
  using assms unfolding us_reach_def by (auto intro: us_run.intros run_connect)

end
