(* ===== verification/Unixsock_Props.thy ===== *)
theory Unixsock_Props
  imports Unixsock_Reach
begin

text \<open>
  The properties of local sockets: memory safety and exact reference counts, the byte stream of a
  connection, what the other side sees of a close, and the queue of a listener. Lemmas at the end
  show where the code does not do what it means to.
\<close>

section \<open>The byte stream\<close>

text \<open>One round of writing takes some bytes from the user and appends them to the peer's buffer.\<close>

definition pushed :: "us \<Rightarrow> u32 \<Rightarrow> nat \<Rightarrow> uep \<Rightarrow> us \<Rightarrow> bool" where
  "pushed s a k x t \<longleftrightarrow>
     us_ep t = (case ue_peer x of None \<Rightarrow> us_ep s | Some p \<Rightarrow> (us_ep s)(p := map_option (ep_push (mem_read (us_mem s) a k)) (us_ep s p))) \<and>
     (\<forall>p y. ue_peer x = Some p \<longrightarrow> us_ep s p = Some y \<longrightarrow> k \<le> UNIX_BUF_SIZE - ue_rx_len y)"

lemma push_nil [simp]: "ep_push [] = id"
  by (simp add: ep_push_def fun_eq_iff)

lemma pushed_nothing: "us_ep t = us_ep s \<Longrightarrow> pushed s a 0 x t"
  by (auto simp: pushed_def fun_eq_iff option.map_id split: option.splits)

lemma pushed_chunk:
  assumes "ue_peer x = Some p" "us_ep s p = Some y" "k \<le> UNIX_BUF_SIZE - ue_rx_len y"
  shows "pushed s a k x (ep_upd p (ep_push (mem_read (us_mem s) a k)) s)"
  using assms by (auto simp: pushed_def ep_upd_live)

lemma write_pushes:
  assumes inv: "us_inv s pl X" and x: "us_ep s a = Some x" and w: "w \<le> unat sz"
  shows "rs (unix_write_step buf sz a (w, s)) = (w', t) \<Longrightarrow> \<exists>k. w' = w + k \<and> pushed s (buf + word_of_nat w) k x t"
    and "rs (ep_write_payload_step buf sz a (w, s)) = (w', t) \<Longrightarrow> \<exists>k. w' = w + k \<and> pushed s (buf + word_of_nat w) k x t"
proof -
  consider "ue_peer x = None" | p y where "ue_peer x = Some p" "us_ep s p = Some y"
    using inv_peer(2)[OF inv x] by (cases "ue_peer x") auto
  note peer = this
  let ?st = "\<lambda>p y. ep_upd p (ep_push (mem_read (us_mem s) (buf + word_of_nat w) (min (unat sz - w) (UNIX_BUF_SIZE - ue_rx_len y)))) s"
  have chunk: "\<exists>k. w + min (unat sz - w) (UNIX_BUF_SIZE - ue_rx_len y) = w + k \<and> pushed s (buf + word_of_nat w) k x (?st p y)"
    if "ue_peer x = Some p" "us_ep s p = Some y" for p y
    by (rule exI[of _ "min (unat sz - w) (UNIX_BUF_SIZE - ue_rx_len y)"]) (use pushed_chunk[OF that] in simp)
  have shape: "rs (unix_write_step buf sz a (w, s)) \<in> {(w, s), (w, sigpipe s)} \<union>
      {(w + min (unat sz - w) (UNIX_BUF_SIZE - ue_rx_len y), ?st p y) | p y. ue_peer x = Some p \<and> us_ep s p = Some y}"
    "rs (ep_write_payload_step buf sz a (w, s)) \<in> {(w, s), (w, sigpipe s)} \<union>
      {(w + min (unat sz - w) (UNIX_BUF_SIZE - ue_rx_len y), ?st p y) | p y. ue_peer x = Some p \<and> us_ep s p = Some y}"
    by (cases rule: peer; simp add: unix_write_step_def unix_write_peer_def ep_write_payload_step_def ep_payload_peer_def x Let_def; blast?)+
  have sp: "us_ep (sigpipe s) = us_ep s" by (simp add: sigpipe_def)
  show "rs (unix_write_step buf sz a (w, s)) = (w', t) \<Longrightarrow> \<exists>k. w' = w + k \<and> pushed s (buf + word_of_nat w) k x t"
    using shape(1) chunk pushed_nothing[OF refl] pushed_nothing[OF sp] by auto
  show "rs (ep_write_payload_step buf sz a (w, s)) = (w', t) \<Longrightarrow> \<exists>k. w' = w + k \<and> pushed s (buf + word_of_nat w) k x t"
    using shape(2) chunk pushed_nothing[OF refl] pushed_nothing[OF sp] by auto
qed

text \<open>
  What is sent to the endpoint \<open>e\<close> and what is received from it: rounds of writes and reads on any
  sockets, with \<open>tx\<close> the bytes taken from the users' memory by those whose peer is \<open>e\<close>, and \<open>rx\<close> the
  bytes that readers of \<open>e\<close> find in their memory.
\<close>

inductive us_flow :: "nat \<Rightarrow> us \<Rightarrow> bytes \<Rightarrow> bytes \<Rightarrow> us \<Rightarrow> bool" for e s0 where
  start: "us_flow e s0 [] [] s0"
| other: "us_flow e s0 tx rx s \<Longrightarrow> us_flow e s0 tx rx (s\<lparr> us_mem := m, us_sig := g \<rparr>)"
| send: "us_flow e s0 tx rx s \<Longrightarrow> us_node s n = Some (Some a) \<Longrightarrow> w \<le> unat sz \<Longrightarrow> rs (unix_write_step buf sz a (w, s)) = (w', t) \<Longrightarrow>
    us_flow e s0 (tx @ (if ep_peer s a = Some e then mem_read (us_mem s) (buf + word_of_nat w) (w' - w) else [])) rx t"
| sendmsg: "us_flow e s0 tx rx s \<Longrightarrow> us_node s n = Some (Some a) \<Longrightarrow> w \<le> unat sz \<Longrightarrow> rs (ep_write_payload_step buf sz a (w, s)) = (w', t) \<Longrightarrow>
    us_flow e s0 (tx @ (if ep_peer s a = Some e then mem_read (us_mem s) (buf + word_of_nat w) (w' - w) else [])) rx t"
| recv: "us_flow e s0 tx rx s \<Longrightarrow> us_node s n = Some (Some a) \<Longrightarrow> unix_read_step buf sz a s = Inl (r, t) \<Longrightarrow>
    us_flow e s0 tx (rx @ (if a = e then mem_read (us_mem t) buf (nat r) else [])) t"

lemma pushed_stream:
  assumes inv: "us_inv s pl X" and x: "us_ep s a = Some x" and p: "pushed s b k x t" and y: "us_ep s e = Some y"
  shows "\<exists>y'. us_ep t e = Some y' \<and> rx_list y' = rx_list y @ (if ep_peer s a = Some e then mem_read (us_mem s) b k else [])"
proof (cases "ue_peer x = Some e")
  case True
  have "ue_rx_len y + k \<le> UNIX_BUF_SIZE" using p True y ep_locD(2)[OF inv_loc[OF inv y]] unfolding pushed_def rx_ok_def by fastforce
  then show ?thesis
    using p True y push_ok(2)[OF ep_locD(2)[OF inv_loc[OF inv y]], of "mem_read (us_mem s) b k"] ep_viewsI(1)[OF x] by (simp add: pushed_def)
next
  case False
  then show ?thesis using p y ep_viewsI(1)[OF x] by (auto simp: pushed_def split: option.splits)
qed

lemma read_stream:
  assumes inv: "us_inv s pl X" and x: "us_ep s a = Some x" and r: "unix_read_step buf sz a s = Inl (r, t)" and y: "us_ep s e = Some y"
  shows "\<exists>y'. us_ep t e = Some y' \<and> rx_list y = (if a = e then mem_read (us_mem t) buf (nat r) else []) @ rx_list y'"
proof (cases "\<not> ue_shut_rd x \<and> 0 < ue_rx_len x")
  case True
  have ok: "rx_ok x" by (rule ep_locD(2)[OF inv_loc[OF inv x]])
  let ?bs = "take (unat sz) (rx_list x)"
  have t: "r = int (length ?bs)" "t = (ep_upd a (\<lambda>_. snd (ep_pop (unat sz) x)) s)\<lparr> us_mem := mem_write (us_mem s) buf ?bs \<rparr>"
    using r True pop_ok(1)[OF ok, of "unat sz"] by (auto simp: unix_read_step_def x case_prod_beta)
  have len: "length ?bs \<le> 2 ^ 32" using ok by (auto simp: rx_ok_def UNIX_BUF_SIZE_def min_def)
  have "mem_read (us_mem t) buf (nat r) = ?bs" unfolding t nat_int using mem_read_write[OF len] by simp
  moreover have "us_ep t = (us_ep s)(a \<mapsto> snd (ep_pop (unat sz) x))" by (simp add: t(2) ep_upd_live[OF x])
  ultimately show ?thesis using pop_ok(3)[OF ok, of "unat sz"] x y by auto
next
  case False
  then have "nat r = 0 \<and> t = s" using r by (auto simp: unix_read_step_def x split: if_splits)
  then show ?thesis using y by simp
qed

lemma flow_inv:
  assumes "us_flow e s0 tx rx s" "us_reach s0" "us_ep s0 e = Some x0"
  shows "us_reach s \<and> (\<exists>x. us_ep s e = Some x \<and> rx_list x0 @ tx = rx @ rx_list x)"
  using assms
proof (induction rule: us_flow.induct)
  case (other tx rx s m g)
  then show ?case using reach_steps(1) by auto
next
  case (send tx rx s n a w sz buf w' t)
  then obtain y where y: "us_reach s" "us_ep s e = Some y" "rx_list x0 @ tx = rx @ rx_list y" by blast
  obtain pl where inv: "us_inv s pl none_held" using reach_inv[OF y(1)] by blast
  obtain x where x: "us_ep s a = Some x" using inv_node_live(1)[OF inv send(2)] by blast
  obtain k where "w' = w + k" "pushed s (buf + word_of_nat w) k x t" using write_pushes(1)[OF inv x send(3,4)] by blast
  moreover have "us_reach t" using reach_steps(5)[OF y(1) send(2), of buf sz w] send(4) by simp
  ultimately show ?case using pushed_stream[OF inv x _ y(2), of "buf + word_of_nat w" k t] y(3) by fastforce
next
  case (sendmsg tx rx s n a w sz buf w' t)
  then obtain y where y: "us_reach s" "us_ep s e = Some y" "rx_list x0 @ tx = rx @ rx_list y" by blast
  obtain pl where inv: "us_inv s pl none_held" using reach_inv[OF y(1)] by blast
  obtain x where x: "us_ep s a = Some x" using inv_node_live(1)[OF inv sendmsg(2)] by blast
  obtain k where "w' = w + k" "pushed s (buf + word_of_nat w) k x t" using write_pushes(2)[OF inv x sendmsg(3,4)] by blast
  moreover have "us_reach t" using reach_steps(6)[OF y(1) sendmsg(2), of buf sz w] sendmsg(4) by simp
  ultimately show ?case using pushed_stream[OF inv x _ y(2), of "buf + word_of_nat w" k t] y(3) by fastforce
next
  case (recv tx rx s n a buf sz r t)
  then obtain y where y: "us_reach s" "us_ep s e = Some y" "rx_list x0 @ tx = rx @ rx_list y" by blast
  obtain pl where inv: "us_inv s pl none_held" using reach_inv[OF y(1)] by blast
  obtain x where x: "us_ep s a = Some x" using inv_node_live(1)[OF inv recv(2)] by blast
  have "us_reach t" using reach_steps(4)[OF y(1) recv(2), of buf sz] recv(3) by simp
  then show ?case using read_stream[OF inv x recv(3) y(2)] y(3) by fastforce
qed simp

section \<open>Closing one end\<close>

text \<open>What rounds of reads and writes leave alone.\<close>

definition ep_flags :: "uep \<Rightarrow> nat option \<times> bool \<times> bool \<times> bool \<times> bool" where
  "ep_flags x = (ue_peer x, ue_eof x, ue_peer_no_read x, ue_shut_rd x, ue_shut_wr x)"

lemma flags_push [simp]: "ep_flags (ep_push bs x) = ep_flags x"
  unfolding ep_push_def by (induction bs arbitrary: x) (simp_all add: ep_flags_def ep_push1_def)

lemma flags_pop [simp]: "ep_flags (snd (ep_pop n x)) = ep_flags x"
proof -
  have "ep_flags (snd (ep_pop_loop k x)) = ep_flags x" for k x
    by (induction k arbitrary: x) (simp_all add: ep_flags_def case_prod_beta)
  then show ?thesis by (auto simp: ep_pop_def ep_flags_def Let_def case_prod_beta)
qed

lemma pushed_flags: "pushed s b k x t \<Longrightarrow> map_option ep_flags (us_ep t e) = map_option ep_flags (us_ep s e)"
  by (auto simp: pushed_def option.map_comp o_def split: option.splits)

lemma read_flags: "unix_read_step buf sz a s = Inl (r, t) \<Longrightarrow> us_ep s a \<noteq> None \<Longrightarrow> map_option ep_flags (us_ep t e) = map_option ep_flags (us_ep s e)"
  by (auto simp: unix_read_step_def ep_upd_def case_prod_beta split: if_splits)

lemma no_writer:
  assumes "us_inv s pl X" "map_option ep_flags (us_ep s e) = Some (ep_flags x0)" "ue_peer x0 = None"
  shows "ep_peer s a \<noteq> Some e"
proof
  assume "ep_peer s a = Some e"
  then have "ep_peer s e = Some a" using us_invD(3)[OF assms(1)] unfolding peers_ok_def by blast
  then show False using assms(2,3) by (auto simp: ep_peer_def ep_flags_def)
qed

text \<open>To an endpoint without a peer nothing is sent, and its flags stay.\<close>

lemma flow_gone:
  assumes "us_flow e s0 tx rx s" "us_reach s0" "us_ep s0 e = Some x0" "ue_peer x0 = None"
  shows "tx = [] \<and> us_reach s \<and> map_option ep_flags (us_ep s e) = Some (ep_flags x0)"
  using assms
proof (induction rule: us_flow.induct)
  case (other tx rx s m g)
  then show ?case using reach_steps(1) by auto
next
  case (send tx rx s n a w sz buf w' t)
  then have h: "tx = []" "us_reach s" "map_option ep_flags (us_ep s e) = Some (ep_flags x0)" by blast+
  obtain pl where inv: "us_inv s pl none_held" using reach_inv[OF h(2)] by blast
  obtain x where x: "us_ep s a = Some x" using inv_node_live(1)[OF inv send(2)] by blast
  obtain k where "pushed s (buf + word_of_nat w) k x t" using write_pushes(1)[OF inv x send(3,4)] by blast
  moreover have "us_reach t" using reach_steps(5)[OF h(2) send(2), of buf sz w] send(4) by simp
  ultimately show ?case using h(1,3) no_writer[OF inv h(3) send(8)] pushed_flags by simp
next
  case (sendmsg tx rx s n a w sz buf w' t)
  then have h: "tx = []" "us_reach s" "map_option ep_flags (us_ep s e) = Some (ep_flags x0)" by blast+
  obtain pl where inv: "us_inv s pl none_held" using reach_inv[OF h(2)] by blast
  obtain x where x: "us_ep s a = Some x" using inv_node_live(1)[OF inv sendmsg(2)] by blast
  obtain k where "pushed s (buf + word_of_nat w) k x t" using write_pushes(2)[OF inv x sendmsg(3,4)] by blast
  moreover have "us_reach t" using reach_steps(6)[OF h(2) sendmsg(2), of buf sz w] sendmsg(4) by simp
  ultimately show ?case using h(1,3) no_writer[OF inv h(3) sendmsg(8)] pushed_flags by simp
next
  case (recv tx rx s n a buf sz r t)
  then have h: "tx = []" "us_reach s" "map_option ep_flags (us_ep s e) = Some (ep_flags x0)" by blast+
  obtain pl where inv: "us_inv s pl none_held" using reach_inv[OF h(2)] by blast
  have "us_ep s a \<noteq> None" using inv_node_live(1)[OF inv recv(2)] by blast
  moreover have "us_reach t" using reach_steps(4)[OF h(2) recv(2), of buf sz] recv(3) by simp
  ultimately show ?case using h(1,3) read_flags[OF recv(3)] by simp
qed simp

lemma read_rest:
  assumes inv: "us_inv s pl X" and z: "us_ep s b = Some z" "ue_eof z"
  shows "rx_list z = [] \<or> ue_shut_rd z \<Longrightarrow> unix_read_step buf sz b s = Inl (0, s)"
    and "rx_list z \<noteq> [] \<Longrightarrow> \<not> ue_shut_rd z \<Longrightarrow> \<exists>v. unix_read_step buf sz b s = Inl (int (min (unat sz) (length (rx_list z))), v) \<and>
      mem_read (us_mem v) buf (min (unat sz) (length (rx_list z))) = take (unat sz) (rx_list z)"
proof -
  have ok: "rx_ok z" by (rule ep_locD(2)[OF inv_loc[OF inv z(1)]])
  have len: "0 < ue_rx_len z \<longleftrightarrow> rx_list z \<noteq> []" by (simp flip: length_rx_list)
  show "rx_list z = [] \<or> ue_shut_rd z \<Longrightarrow> unix_read_step buf sz b s = Inl (0, s)"
    using z len by (auto simp: unix_read_step_def)
  assume a: "rx_list z \<noteq> []" "\<not> ue_shut_rd z"
  then have "0 < ue_rx_len z" using len by simp
  then obtain v where v: "unix_read_step buf sz b s = Inl (int (length (take (unat sz) (rx_list z))), v)"
    using a z pop_ok(1)[OF ok, of "unat sz"] by (simp add: unix_read_step_def case_prod_beta)
  obtain y' where "rx_list z = mem_read (us_mem v) buf (nat (int (length (take (unat sz) (rx_list z))))) @ rx_list y'"
    using read_stream[OF inv z(1) v z(1)] by auto
  then have "mem_read (us_mem v) buf (min (unat sz) (length (rx_list z))) = take (unat sz) (rx_list z)"
    by (metis append_eq_conv_conj length_mem_read length_take min.commute nat_int take_take take_all_iff append_take_drop_id same_append_eq length_append)
  then show "\<exists>v. unix_read_step buf sz b s = Inl (int (min (unat sz) (length (rx_list z))), v) \<and>
      mem_read (us_mem v) buf (min (unat sz) (length (rx_list z))) = take (unat sz) (rx_list z)"
    using v by (simp add: min.commute)
qed

lemma close_peer:
  assumes inv: "us_inv s pl none_held" and n: "us_node s n = Some (Some a)" and x: "us_ep s a = Some x" "ue_peer x = Some b"
    and y: "us_ep s b = Some y" "held s b"
  shows "us_ep (unix_node_close n s) = (us_ep s)(a := None, b \<mapsto> ep_gone y)"
proof -
  note pe = inv_peer[OF inv x]
  note nl = inv_node_live[OF inv n]
  note c = inv_node_clear[OF inv n x(1) pe(3)]
  let ?s1 = "node_clear n s"
  have e1: "us_ep ?s1 a = Some x" "us_ep ?s1 b = Some y" using x(1) y(1) by (simp_all add: c(4))
  have yp: "ue_peer y = Some a" using pe(2) y(1) by auto
  have rx: "ue_refs x = 2" using ep_locD(5)[OF inv_loc[OF inv x(1)]] nl x(2) by simp
  have nq: "\<not> queued pl b" using ep_locD(7)[OF inv_loc[OF inv y(1)]] y(2) by blast
  have ry: "ue_refs y = 2" using ep_locD(5)[OF inv_loc[OF inv y(1)]] y(2) yp nq by simp
  have b: "ep_break a ?s1 = put_res b (put_res a (unlinked a b ?s1))" by (rule break_eq[OF c(1) e1(1) x(2)])
  have ub: "us_ep (ep_break a ?s1) = (us_ep s)(a \<mapsto> ep_unref (x\<lparr> ue_peer := None \<rparr>), b \<mapsto> ep_gone y)"
    unfolding b unlinked_eq[OF e1 pe(1)] using pe(1) rx ry by (simp add: put_res_def ep_unref_def ep_gone_def c(4) fun_upd_twist)
  have ib: "us_inv (ep_break a ?s1) pl (none_held(a := 0 + 1))" by (rule inv_break(1)[OF c(1) e1(1) x(2) c(2) nl(3)])
  have p: "ep_put a (ep_break a ?s1) = put_res a (ep_break a ?s1)" by (rule ep_put_eq[OF ib]) simp
  have up: "us_ep (ep_put a (ep_break a ?s1)) = (us_ep s)(a := None, b \<mapsto> ep_gone y)"
    unfolding p using ub rx pe(1) by (simp add: put_res_def ep_unref_def ep_free_def fref_fold fun_upd_twist)
  have used: "ue_used x" by (rule ep_locD(1)[OF inv_loc[OF inv x(1)]])
  have "unix_node_close n s = node_free n (ep_put a (ep_break a ?s1))"
    using n c(4) x pe(3) used by (simp add: unix_node_close_def unix_node_close_conn_def Let_def)
  then show ?thesis using up by (simp add: node_free_def us_fault_def split: option.splits)
qed

section \<open>The queue of a listener\<close>

fun pend_walk :: "(nat \<Rightarrow> nat option) \<Rightarrow> nat \<Rightarrow> nat option \<Rightarrow> nat list" where
  "pend_walk nx 0 h = []"
| "pend_walk nx (Suc k) h = (case h of None \<Rightarrow> [] | Some v \<Rightarrow> v # pend_walk nx k (nx v))"

text \<open>The pending connections of a listener, first come first.\<close>

definition pend_list :: "us \<Rightarrow> nat \<Rightarrow> nat list" where "pend_list s l = pend_walk (ep_next s) (us_next s) (ep_head s l)"

lemma pend_walk_seg: "seg nx h xs None \<Longrightarrow> length xs \<le> k \<Longrightarrow> pend_walk nx k h = xs"
proof (induction xs arbitrary: h k)
  case Nil
  then show ?case by (cases k) auto
next
  case (Cons v xs)
  then show ?case by (cases k) auto
qed

lemma pend_list_eq: "us_inv s pl X \<Longrightarrow> pend_list s = pl"
  unfolding pend_list_def fun_eq_iff by (intro allI pend_walk_seg) (rule queuesD(1)[OF us_invD(4)] queue_length, assumption)+

lemma accept_gives:
  assumes inv: "us_inv s pl X" and v: "us_ep s v = Some y" "ue_kind y = UEP_CONN" "0 < X v" "ue_peer y = None \<Longrightarrow> ue_eof y \<and> ue_peer_no_read y"
    and alone: "\<not> held s v" "\<not> queued pl v" and fds: "length fds = MAX_FD" "fd_free fds = Some i"
    and r: "accept_rest km arg v (fds, s) = (fd, fds', t)" "0 \<le> fd"
  shows "\<exists>n. fds' ! nat fd = Some (FSock n) \<and> us_node t n = Some (Some v)"
proof -
  have km: "km 0" "km 1" using r by (auto simp: accept_rest_def unix_make_node_def alloc_fd_room[OF fds(2)] split: if_splits option.splits prod.splits)
  obtain n s3 where mk: "unix_make_node True v s = (Some n, s3)" by (auto simp: unix_make_node_def Let_def)
  note m = inv_make_node[OF inv v(1,2,4) alone mk]
  have put: "us_node (ep_put v u) n = Some (Some v)" if "us_inv u pl X" "us_node u = us_node s3" for u
    using inv_ep_put[OF that(1) v(3)] that(2) m(3) by simp
  have il: "i < length fds" using fd_freeD[OF fds(2)] fds(1) by simp
  have "fd = int i \<and> fds' = fds[i := Some (FSock n)] \<and> us_node t n = Some (Some v)"
    using r km mk put[OF m(1)] put[of "s3\<lparr> us_mem := u \<rparr>" for u] m(1)
    by (auto simp: accept_rest_def alloc_fd_room[OF fds(2)] case_prod_beta split: if_splits)
  then show ?thesis using il by auto
qed

lemma check_queue:
  assumes inv: "us_inv s pl X" and x: "us_ep s e = Some x" and c: "unix_connect_check cwd e arg s = Inr (l, t)"
  shows "(\<exists>path canon. user_addr arg s = Some path \<and> unix_path_canon cwd path 512 = Inr canon \<and> Some (canon, l) \<in> set (us_bound s)) \<and>
    ep_kind l s = Some UEP_LISTEN \<and> length (pend_list s l) < UNIX_BACKLOG \<and> pend_list t = pend_list s"
  using check_inv[OF inv x c] pend_list_eq[OF inv] pend_list_eq[of t pl "X(l := X l + 1)"] by auto

lemma append_queue:
  assumes inv: "us_inv s pl X" and x: "us_ep s e = Some x"
    and c: "0 < X l \<and> ep_kind l s = Some UEP_LISTEN \<and> ep_kind e s = Some UEP_NONE \<and> unix_connect_append ok l e s = (0, t)"
  shows "\<exists>v. us_ep s v = None \<and> pend_list t = (pend_list s)(l := pend_list s l @ [v]) \<and> ep_peer t e = Some v \<and> ep_peer t v = Some e"
proof -
  obtain z where z: "us_ep s l = Some z" "ue_kind z = UEP_LISTEN" "ue_kind x = UEP_NONE" using c x by (auto simp: ep_kind_def)
  obtain v where v: "us_ep s v = None" "us_inv t (pl(l := pl l @ [v])) (X(l := X l - 1))" "ep_peer t e = Some v"
    using append_inv[OF inv _ z(1,2) x z(3), of ok 0 t] c by auto
  have "ep_peer t v = Some e" using us_invD(3)[OF v(2)] v(3) unfolding peers_ok_def by blast
  then show ?thesis using v pend_list_eq[OF inv] pend_list_eq[OF v(2)] by auto
qed

lemma connect_queue:
  assumes inv: "us_inv s pl X" and x: "us_ep s e = Some x" and c: "unix_connect_ioctl km cwd e arg s = (0, t)"
  shows "\<exists>path canon k v. user_addr arg s = Some path \<and> unix_path_canon cwd path 512 = Inr canon \<and> Some (canon, k) \<in> set (us_bound s) \<and>
    us_ep s v = None \<and> pend_list t = (pend_list s)(k := pend_list s k @ [v]) \<and> length (pend_list t k) \<le> UNIX_BACKLOG \<and>
    ep_peer t e = Some v \<and> ep_peer t v = Some e"
proof (cases "unix_connect_check cwd e arg s")
  case (Inl q)
  then show ?thesis using check_inv[OF inv x Inl] c by (auto simp: unix_connect_ioctl_def)
next
  case (Inr q)
  obtain k s1 where q: "q = (k, s1)" by (cases q)
  note ck = check_queue[OF inv x Inr[unfolded q]]
  obtain z where z: "ue_kind x = UEP_NONE" "us_inv s1 pl (X(k := X k + 1))" "us_ep s k = Some z" "ue_kind z = UEP_LISTEN"
    "s1 = s\<lparr> us_ep := (us_ep s)(k \<mapsto> z\<lparr> ue_refs := ue_refs z + 1 \<rparr>) \<rparr>"
    using check_inv[OF inv x Inr[unfolded q]] by (auto simp: ep_kind_def)
  have x1: "us_ep s1 e = Some x" using x z by auto
  have "0 < (X(k := X k + 1)) k \<and> ep_kind k s1 = Some UEP_LISTEN \<and> ep_kind e s1 = Some UEP_NONE \<and> unix_connect_append (km 0) k e s1 = (0, t)"
    using c Inr q x1 z by (simp add: unix_connect_ioctl_def ep_kind_def)
  from append_queue[OF z(2) x1 this] obtain v where v: "us_ep s1 v = None" "pend_list t = (pend_list s1)(k := pend_list s1 k @ [v])"
    "ep_peer t e = Some v" "ep_peer t v = Some e" by blast
  then have "us_ep s v = None" using z(3,5) by (auto split: if_splits)
  then show ?thesis using ck v by (auto simp: Suc_le_eq)
qed

lemma accept_queue:
  assumes inv: "us_inv s pl X" and x: "us_ep s e = Some x"
    and fds: "length fds = MAX_FD" "fd_free fds = Some i" and a: "unix_accept_step km arg e (fds, s) = Inl (fd, fds', u)" "0 \<le> fd"
  shows "\<exists>v r m. pend_list s e = v # r \<and> pend_list u = (pend_list s)(e := r) \<and> fds' ! nat fd = Some (FSock m) \<and> us_node u m = Some (Some v)"
proof (cases "pl e")
  case Nil
  then show ?thesis using a by (auto simp: accept_step_eq[OF inv x] split: if_splits)
next
  case (Cons v r)
  have iu: "us_inv u (pl(e := r)) X" using accept_inv[OF inv x fds, of km arg] a(1) Cons by simp
  note p = accept_pop_inv[OF inv Cons]
  have vin: "v \<in> set (pl e)" using Cons by simp
  note q = inv_queue_live[OF inv vin]
  obtain y where y: "us_ep s v = Some y" "ue_kind y = UEP_CONN" using q(1) by blast
  note loc = inv_loc[OF inv y(1)]
  have nh: "\<not> held s v" using ep_locD(7)[OF loc] q(2) by blast
  have ar: "accept_rest km arg v (fds, accept_pop e v s) = (fd, fds', u)" using a(1) Cons by (simp add: accept_step_eq[OF inv x])
  have "\<exists>m. fds' ! nat fd = Some (FSock m) \<and> us_node u m = Some (Some v)"
  proof (rule accept_gives[OF p(1) _ _ _ _ _ _ fds ar a(2)])
    show "us_ep (accept_pop e v s) v = Some (y\<lparr> ue_pend_next := None \<rparr>)" using y(1) q(3) by (simp add: p(3) deq_ep_def Let_def)
    show "\<not> held (accept_pop e v s) v" using nh held_same[OF p(2)] by simp
    show "\<not> queued (pl(e := r)) v" using queued_tl[OF us_invD(4)[OF inv] Cons] by simp
    show "ue_peer (y\<lparr> ue_pend_next := None \<rparr>) = None \<Longrightarrow> ue_eof (y\<lparr> ue_pend_next := None \<rparr>) \<and> ue_peer_no_read (y\<lparr> ue_pend_next := None \<rparr>)"
      using ep_locD(9)[OF loc y(2)] q(2) by simp
  qed (use y in simp_all)
  then show ?thesis using Cons pend_list_eq[OF inv] pend_list_eq[OF iu] by auto
qed

section \<open>An example\<close>

lemma uep_new_simps [simp]:
  "ue_kind uep_new = UEP_NONE" "ue_used uep_new" "ue_peer uep_new = None" "ue_refs uep_new = 0" "ue_rx_len uep_new = 0" "ue_rx_off uep_new = 0"
  "ue_backlog uep_new = UNIX_BACKLOG" "ue_pend_head uep_new = None" "ue_pend_tail uep_new = None" "ue_pend_next uep_new = None" "ue_pend_count uep_new = 0"
  "\<not> ue_shut_rd uep_new" "\<not> ue_shut_wr uep_new" "\<not> ue_eof uep_new" "\<not> ue_peer_no_read uep_new" "\<not> ue_nonblock uep_new"
  by (simp_all add: uep_new_def)

text \<open>A server binds a name, listens, and a client connects; the name is made of slashes.\<close>

definition ex_sock0 :: us where "ex_sock0 = unix_sock_init True (us_boot (\<lambda>_. 47))"
definition ex_sock1 :: us where "ex_sock1 = snd (unix_sock_create (\<lambda>_. True) 1 ex_sock0)"
definition ex_sock2 :: us where "ex_sock2 = snd (unix_listen_ioctl 0 (snd (unix_bind_ioctl None 0 0x08000000 ex_sock1)))"
definition ex_sock3 :: us where "ex_sock3 = snd (unix_sock_create (\<lambda>_. True) 1 ex_sock2)"
definition ex_sock4 :: us where "ex_sock4 = snd (unix_connect_ioctl (\<lambda>_. True) None 2 0x08000000 ex_sock3)"

definition ex_name :: bytes where "ex_name = replicate 107 47"

lemma ex_addr:
  assumes "us_mem s = (\<lambda>_. 47)"
  shows "user_addr 0x08000000 s = Some (ex_name @ [0])"
proof -
  have "validate_user_ptr 0x08000000 (word_of_nat UNIX_PATH_MAX)" by (simp add: validate_user_ptr_def USER_SPACE_START_def KERNEL_BASE_def UNIX_PATH_MAX_def)
  moreover have "mem_read (\<lambda>_. 47) 0x08000000 UNIX_PATH_MAX = ex_name @ [47]"
    by (simp add: mem_read_def map_replicate_const UNIX_PATH_MAX_def ex_name_def replicate_append_same flip: replicate_Suc)
  ultimately show ?thesis using assms by (simp add: user_addr_def copy_from_user_def UNIX_PATH_MAX_def ex_name_def list_update_append)
qed

lemma ex_canon: "unix_path_canon None (ex_name @ [0]) 512 = Inr ex_name"
proof -
  have "c_str (ex_name @ [0]) = ex_name" unfolding c_str_def ex_name_def by (subst takeWhile_append2) simp_all
  moreover have "(ex_name @ [0]) ! 0 = 47" by (simp add: ex_name_def nth_append)
  ultimately show ?thesis by (simp add: unix_path_canon_def ex_name_def)
qed

lemma ex_name_start: "take 1 ex_name = [47]" "take (UNIX_PATH_MAX - 1) ex_name = ex_name"
  by (simp_all add: ex_name_def UNIX_PATH_MAX_def take_replicate)

lemma ex_sock1_eq:
  "us_ep ex_sock1 = [0 \<mapsto> uep_new\<lparr> ue_node := Some 1, ue_refs := 1 \<rparr>]" "us_node ex_sock1 = [1 \<mapsto> Some 0]" "us_next ex_sock1 = 2"
  "us_bound ex_sock1 = replicate UNIX_BOUND_MAX None" "us_ready ex_sock1" "us_mem ex_sock1 = (\<lambda>_. 47)" "us_bad ex_sock1 = False"
  by (simp_all add: ex_sock1_def ex_sock0_def unix_sock_create_def unix_sock_init_def us_boot_def ep_alloc_def unix_make_node_def Let_def ep_upd_def)

lemma ex_bind: "unix_bind_ioctl None 0 0x08000000 ex_sock1 = (0, ep_upd 0 (\<lambda>x. x\<lparr> ue_kind := UEP_BOUND, ue_bound := ex_name \<rparr>)
    (ex_sock1\<lparr> us_bound := (replicate UNIX_BOUND_MAX None)[0 := Some (ex_name, 0)] \<rparr>))"
proof -
  have f: "List.find (\<lambda>i. replicate UNIX_BOUND_MAX (None :: (bytes \<times> nat) option) ! i = None) [0..<UNIX_BOUND_MAX] = Some 0"
    by (simp add: UNIX_BOUND_MAX_def upt_conv_Cons)
  have "unix_bound_insert ex_name 0 ex_sock1 = (0, ex_sock1\<lparr> us_bound := (replicate UNIX_BOUND_MAX None)[0 := Some (ex_name, 0)] \<rparr>)"
    using f ex_name_start(2) by (simp add: unix_bound_insert_def ex_sock1_eq)
  then show ?thesis using ex_addr[OF ex_sock1_eq(6)] ex_canon ex_name_start by (simp add: unix_bind_ioctl_def ep_kind_def ex_sock1_eq)
qed

lemma ex_sock2_eq:
  "us_ep ex_sock2 = [0 \<mapsto> uep_new\<lparr> ue_node := Some 1, ue_refs := 1, ue_bound := ex_name, ue_kind := UEP_LISTEN, ue_backlog := UNIX_BACKLOG \<rparr>]"
  "us_node ex_sock2 = [1 \<mapsto> Some 0]" "us_next ex_sock2 = 2"
  "us_bound ex_sock2 = (replicate UNIX_BOUND_MAX None)[0 := Some (ex_name, 0)]" "us_ready ex_sock2" "us_mem ex_sock2 = (\<lambda>_. 47)"
  by (simp_all add: ex_sock2_def ex_bind unix_listen_ioctl_def ep_kind_def ep_upd_def ex_sock1_eq)

lemma ex_sock3_eq:
  "us_ep ex_sock3 = [0 \<mapsto> uep_new\<lparr> ue_node := Some 1, ue_refs := 1, ue_bound := ex_name, ue_kind := UEP_LISTEN, ue_backlog := UNIX_BACKLOG \<rparr>,
     2 \<mapsto> uep_new\<lparr> ue_node := Some 3, ue_refs := 1 \<rparr>]" "us_node ex_sock3 = [1 \<mapsto> Some 0, 3 \<mapsto> Some 2]" "us_next ex_sock3 = 4"
  "us_bound ex_sock3 = (replicate UNIX_BOUND_MAX None)[0 := Some (ex_name, 0)]" "us_ready ex_sock3" "us_mem ex_sock3 = (\<lambda>_. 47)"
  by (simp_all add: ex_sock3_def unix_sock_create_def unix_sock_init_def ep_alloc_def unix_make_node_def Let_def ep_upd_def ex_sock2_eq)

lemma reach_boot: "us_reach (unix_sock_init True (us_boot m))"
  unfolding us_reach_def by (rule us_run.boot)

lemma ex_reach: "us_reach ex_sock1" "us_reach ex_sock2" "us_reach ex_sock3" "us_reach ex_sock4"
proof -
  show r1: "us_reach ex_sock1" unfolding ex_sock1_def ex_sock0_def by (rule reach_steps(2)[OF reach_boot])
  have "us_reach (snd (unix_bind_ioctl None 0 0x08000000 ex_sock1))" by (rule reach_steps(7)[OF r1, of 1]) (simp add: ex_sock1_eq)
  then show r2: "us_reach ex_sock2" unfolding ex_sock2_def by (rule reach_steps(9)[of _ 1]) (simp add: ex_bind ep_upd_def ex_sock1_eq)
  show r3: "us_reach ex_sock3" unfolding ex_sock3_def by (rule reach_steps(2)[OF r2])
  show "us_reach ex_sock4" unfolding ex_sock4_def by (rule reach_steps(8)[OF r3, of 3]) (simp add: ex_sock3_eq)
qed

lemma ex_lookup: "unix_bound_lookup ex_name ex_sock3 = (Some 0, ep_upd 0 (\<lambda>x. x\<lparr> ue_refs := ue_refs x + 1 \<rparr>) ex_sock3)"
proof -
  have "List.find (\<lambda>b. map_option fst b = Some ex_name) ((replicate UNIX_BOUND_MAX None)[0 := Some (ex_name, 0 :: nat)]) = Some (Some (ex_name, 0))"
    by (simp add: UNIX_BOUND_MAX_def list_update_code numeral_eq_Suc)
  then show ?thesis by (simp add: unix_bound_lookup_def ex_sock3_eq)
qed

lemma ex_check: "unix_connect_check None 2 0x08000000 ex_sock3 = Inr (0, ep_upd 0 (\<lambda>x. x\<lparr> ue_refs := ue_refs x + 1 \<rparr>) ex_sock3)"
  unfolding unix_connect_check_def
  by (simp add: ep_kind_def ex_sock3_eq ex_addr ex_canon ex_lookup ep_upd_def UNIX_BACKLOG_def)

lemma ex_connect: "fst (unix_connect_ioctl (\<lambda>_. True) None 2 0x08000000 ex_sock3) = 0"
  by (simp add: unix_connect_ioctl_def ex_check unix_connect_append_def ep_alloc_def Let_def)

lemma ex_connect_eq: "unix_connect_ioctl (\<lambda>_. True) None 2 0x08000000 ex_sock3 = (0, ex_sock4)"
  using ex_connect by (simp add: ex_sock4_def prod_eq_iff)

lemma ex_room: "fd_free (replicate MAX_FD None) = Some 3" "fd_free ((replicate MAX_FD None)[3 := Some f]) = Some 4"
  by (simp_all add: fd_free_def MAX_FD_def upt_conv_Cons)

text \<open>A pair of connected sockets.\<close>

definition ex_pair :: us where "ex_pair = snd (snd (unix_socketpair (\<lambda>_. True) True 1 (replicate MAX_FD None, ex_sock0)))"

lemma ex_pair_eq:
  "us_ep ex_pair = [0 \<mapsto> (srv_ep 1)\<lparr> ue_node := Some 2, ue_refs := 2 \<rparr>, 1 \<mapsto> (srv_ep 0)\<lparr> ue_node := Some 3, ue_refs := 2 \<rparr>]"
  "us_node ex_pair = [2 \<mapsto> Some 0, 3 \<mapsto> Some 1]" "us_mem ex_pair = (\<lambda>_. 47)"
proof -
  let ?s2 = "ex_sock0\<lparr> us_ep := [0 \<mapsto> uep_new, 1 \<mapsto> uep_new], us_next := 2 \<rparr>"
  let ?s4 = "ex_sock0\<lparr> us_ep := [0 \<mapsto> srv_ep 1, 1 \<mapsto> srv_ep 0], us_next := 2 \<rparr>"
  have al: "ep_alloc True ex_sock0 = (Some 0, ex_sock0\<lparr> us_ep := [0 \<mapsto> uep_new], us_next := 1 \<rparr>)"
    "ep_alloc True (ex_sock0\<lparr> us_ep := [0 \<mapsto> uep_new], us_next := 1 \<rparr>) = (Some 1, ?s2)"
    by (simp_all add: ep_alloc_def ex_sock0_def unix_sock_init_def us_boot_def)
  have p: "pair_up 0 1 ?s2 = ?s4" by (simp add: pair_up_def ep_link_def ep_upd_def srv_ep_def uep_new_def)
  let ?s5 = "ex_sock0\<lparr> us_ep := [0 \<mapsto> (srv_ep 1)\<lparr> ue_node := Some 2, ue_refs := 2 \<rparr>, 1 \<mapsto> srv_ep 0], us_next := 3, us_node := [2 \<mapsto> Some 0] \<rparr>"
  let ?s6 = "ex_sock0\<lparr> us_ep := [0 \<mapsto> (srv_ep 1)\<lparr> ue_node := Some 2, ue_refs := 2 \<rparr>, 1 \<mapsto> (srv_ep 0)\<lparr> ue_node := Some 3, ue_refs := 2 \<rparr>], us_next := 4,
    us_node := [2 \<mapsto> Some 0, 3 \<mapsto> Some 1] \<rparr>"
  have mk: "unix_make_node True 0 ?s4 = (Some 2, ?s5)" "unix_make_node True 1 ?s5 = (Some 3, ?s6)"
    by (simp_all add: unix_make_node_def Let_def ep_upd_def srv_ep_def ex_sock0_def unix_sock_init_def us_boot_def fun_upd_twist numeral_2_eq_2)
  have i: "unix_sock_init True ex_sock0 = ex_sock0" by (simp add: unix_sock_init_def ex_sock0_def us_boot_def)
  have e: "ex_pair = ?s6" unfolding ex_pair_def unix_socketpair_def Let_def
    using al mk p[unfolded pair_up_def] by (simp add: i alloc_fd_room[OF ex_room(1)] alloc_fd_room[OF ex_room(2)])
  show "us_ep ex_pair = [0 \<mapsto> (srv_ep 1)\<lparr> ue_node := Some 2, ue_refs := 2 \<rparr>, 1 \<mapsto> (srv_ep 0)\<lparr> ue_node := Some 3, ue_refs := 2 \<rparr>]"
    "us_node ex_pair = [2 \<mapsto> Some 0, 3 \<mapsto> Some 1]" "us_mem ex_pair = (\<lambda>_. 47)"
    unfolding e by (simp_all add: ex_sock0_def unix_sock_init_def us_boot_def)
qed

lemma ex_pair_reach: "us_reach ex_pair"
  unfolding ex_pair_def ex_sock0_def by (rule reach_steps(10)[OF reach_boot _ ex_room(1), where f = "FSock 0"]) (simp_all add: ex_room)

lemma ex_pair_flow:
  "\<exists>t. us_flow 1 ex_pair [47, 47, 47] [] t"
proof -
  obtain w' t where wt: "rs (unix_write_step 0x08000000 3 0 (0, ex_pair)) = (w', t)" by fastforce
  have w3: "w' = 3" using wt by (simp add: unix_write_step_def unix_write_peer_def ex_pair_eq srv_ep_def Let_def UNIX_BUF_SIZE_def split: if_splits)
  have "us_flow 1 ex_pair ([] @ (if ep_peer ex_pair 0 = Some 1 then mem_read (us_mem ex_pair) (0x08000000 + word_of_nat 0) (w' - 0) else [])) [] t"
    by (rule us_flow.send[OF us_flow.start _ _ wt, of 2]) (simp_all add: ex_pair_eq)
  moreover have "ep_peer ex_pair 0 = Some 1" by (simp add: ep_peer_def ex_pair_eq srv_ep_def)
  moreover have "mem_read (us_mem ex_pair) (0x08000000 + word_of_nat 0) 3 = [47, 47, 47]" by (simp add: ex_pair_eq mem_read_def numeral_3_eq_3)
  ultimately show ?thesis using w3 by auto
qed

section \<open>Properties\<close>



text \<open>
  C12: Local sockets, the byte stream. In any interleaving of rounds of writes, \<open>sendmsg\<close> payloads and
  reads on any sockets, the bytes sent to an endpoint are exactly the bytes received from it followed
  by those in its buffer, in the order in which they were sent.
\<close>

theorem unix_stream_fifo:
  assumes "us_reach s0" "us_ep s0 e = Some x0" "us_flow e s0 tx rx s"
  shows "\<exists>x. us_ep s e = Some x \<and> rx_list x0 @ tx = rx @ rx_list x"
  using flow_inv[OF assms(3,1,2)] by blast

theorem unix_stream_fifo_witness:
  "\<exists>t x. us_flow 1 ex_pair [47, 47, 47] [] t \<and> us_ep t 1 = Some x \<and> rx_list x = [47, 47, 47]"
proof -
  obtain t where t: "us_flow 1 ex_pair [47, 47, 47] [] t" using ex_pair_flow by blast
  have e: "us_ep ex_pair 1 = Some ((srv_ep 0)\<lparr> ue_node := Some 3, ue_refs := 2 \<rparr>)" by (simp add: ex_pair_eq)
  from unix_stream_fifo[OF ex_pair_reach e t] show ?thesis using t by (auto simp: rx_list_def srv_ep_def)
qed

text \<open>
  C38: Local sockets, closing one end. When a connected socket whose other end has an open node is
  closed, its endpoint and node are freed and the other end is always marked: it has no peer, end of
  file is set, and it keeps the bytes it has not read. From then on, through any rounds of reads and
  writes on any sockets, nothing more is sent to it, the reads return its unread bytes in order, as
  many as asked for and left, and once they are consumed (or if the end was shut down for reading) a
  read returns 0 and changes nothing. Every write fails with \<open>EPIPE\<close>, raising the signal unless the
  end had been shut down for writing.
\<close>

theorem unix_close_seen_by_peer:
  assumes s: "us_reach s" and n: "us_node s n = Some (Some a)" "us_ep s a = Some x" "ue_peer x = Some b"
    and m: "us_node s m = Some (Some b)" "us_ep s b = Some y"
  shows "us_node (unix_node_close n s) n = None \<and> us_ep (unix_node_close n s) a = None \<and>
    (\<exists>z. us_ep (unix_node_close n s) b = Some z \<and> ue_peer z = None \<and> ue_eof z \<and> ue_peer_no_read z \<and> rx_list z = rx_list y) \<and>
    (\<forall>tx rx u. us_flow b (unix_node_close n s) tx rx u \<longrightarrow> tx = [] \<and>
      (\<exists>rest. rx_list y = rx @ rest \<and>
        (rest = [] \<or> ue_shut_rd y \<longrightarrow> unix_read_step buf sz b u = Inl (0, u)) \<and>
        (rest \<noteq> [] \<and> \<not> ue_shut_rd y \<longrightarrow> (\<exists>v. unix_read_step buf sz b u = Inl (int (min (unat sz) (length rest)), v) \<and>
           mem_read (us_mem v) buf (min (unat sz) (length rest)) = take (unat sz) rest)) \<and>
        unix_write_step buf sz b (0, u) = Inl (- EPIPE, 0, if ue_shut_wr y then u else sigpipe u)))"
proof -
  obtain pl where inv: "us_inv s pl none_held" using reach_inv[OF s] by blast
  let ?t = "unix_node_close n s"
  have hb: "held s b" using m(1) by (auto simp: held_def)
  have ab: "b \<noteq> a" by (rule inv_peer(1)[OF inv n(2,3)])
  note c = close_peer[OF inv n m(2) hb]
  have z: "us_ep ?t b = Some (ep_gone y)" "us_ep ?t a = None" using ab by (simp_all add: c)
  have g: "ue_peer (ep_gone y) = None" "rx_list (ep_gone y) = rx_list y" "ue_eof (ep_gone y)" "ue_peer_no_read (ep_gone y)"
    "ue_shut_wr (ep_gone y) = ue_shut_wr y" "ue_shut_rd (ep_gone y) = ue_shut_rd y"
    by (simp_all add: ep_gone_def ep_unref_def rx_list_def)
  have rt: "us_reach ?t" by (rule reach_steps(3)[OF s n(1)])
  have "tx = [] \<and> (\<exists>rest. rx_list y = rx @ rest \<and> (rest = [] \<or> ue_shut_rd y \<longrightarrow> unix_read_step buf sz b u = Inl (0, u)) \<and>
      (rest \<noteq> [] \<and> \<not> ue_shut_rd y \<longrightarrow> (\<exists>v. unix_read_step buf sz b u = Inl (int (min (unat sz) (length rest)), v) \<and>
         mem_read (us_mem v) buf (min (unat sz) (length rest)) = take (unat sz) rest)) \<and>
      unix_write_step buf sz b (0, u) = Inl (- EPIPE, 0, if ue_shut_wr y then u else sigpipe u))"
    if f: "us_flow b ?t tx rx u" for tx rx u
  proof -
    note k = flow_gone[OF f rt z(1) g(1)]
    obtain w where w: "us_ep u b = Some w" "rx_list (ep_gone y) @ tx = rx @ rx_list w" using flow_inv[OF f rt z(1)] by blast
    obtain ql where iu: "us_inv u ql none_held" using k reach_inv by blast
    have e: "ue_peer w = None" "ue_eof w" "ue_shut_rd w = ue_shut_rd y" "ue_shut_wr w = ue_shut_wr y"
      using k w(1) g by (auto simp: ep_flags_def)
    have "unix_write_step buf sz b (0, u) = Inl (- EPIPE, 0, if ue_shut_wr y then u else sigpipe u)"
      using e by (simp add: unix_write_step_def w(1) or_err_def)
    then show ?thesis using read_rest[OF iu w(1) e(2), of buf sz] w(2) g(2) k e(3) by auto
  qed
  then show ?thesis using z g close_node[OF inv n(1)] by simp
qed

theorem unix_close_seen_by_peer_witness:
  "us_ep (unix_node_close 2 ex_pair) 0 = None \<and> unix_read_step 0x08000000 8 1 (unix_node_close 2 ex_pair) = Inl (0, unix_node_close 2 ex_pair)"
proof -
  have e: "us_node ex_pair 2 = Some (Some 0)" "us_ep ex_pair 0 = Some ((srv_ep 1)\<lparr> ue_node := Some 2, ue_refs := 2 \<rparr>)"
    "ue_peer ((srv_ep 1)\<lparr> ue_node := Some 2, ue_refs := 2 \<rparr>) = Some 1" "us_node ex_pair 3 = Some (Some 1)"
    "us_ep ex_pair 1 = Some ((srv_ep 0)\<lparr> ue_node := Some 3, ue_refs := 2 \<rparr>)"
    by (simp_all add: ex_pair_eq srv_ep_def)
  show ?thesis using unix_close_seen_by_peer[OF ex_pair_reach e, of "0x08000000" 8] us_flow.start[of 1 "unix_node_close 2 ex_pair"]
    by (auto simp: srv_ep_def rx_list_def)
qed

text \<open>
  C39: Local sockets, the queue of a listener, in the states of C2. The first part of \<open>connect\<close>
  succeeds only for the listener registered under the caller's path, when fewer than four connections
  wait there, and leaves the queues alone. The second part appends one new endpoint, connected to the
  caller's, at the end of that queue, however many wait by then. When no other call runs in between,
  a \<open>connect\<close> that returns 0 leaves at most four in the queue. \<open>accept\<close> takes the oldest one out and
  returns a descriptor whose socket is that endpoint.
\<close>

theorem unix_listen_queue:
  assumes s: "us_run s X" and n: "us_node s n = Some (Some e)"
  shows "(unix_connect_check cwd e arg s = Inr (l, t) \<longrightarrow>
      (\<exists>path canon. user_addr arg s = Some path \<and> unix_path_canon cwd path 512 = Inr canon \<and> Some (canon, l) \<in> set (us_bound s)) \<and>
      ep_kind l s = Some UEP_LISTEN \<and> length (pend_list s l) < UNIX_BACKLOG \<and> pend_list t = pend_list s) \<and>
    (0 < X l \<and> ep_kind l s = Some UEP_LISTEN \<and> ep_kind e s = Some UEP_NONE \<and> unix_connect_append ok l e s = (0, t) \<longrightarrow>
      (\<exists>v. us_ep s v = None \<and> pend_list t = (pend_list s)(l := pend_list s l @ [v]) \<and> ep_peer t e = Some v \<and> ep_peer t v = Some e)) \<and>
    (unix_connect_ioctl km cwd e arg s = (0, t) \<longrightarrow>
      (\<exists>path canon k v. user_addr arg s = Some path \<and> unix_path_canon cwd path 512 = Inr canon \<and> Some (canon, k) \<in> set (us_bound s) \<and>
        us_ep s v = None \<and> pend_list t = (pend_list s)(k := pend_list s k @ [v]) \<and> length (pend_list t k) \<le> UNIX_BACKLOG \<and>
        ep_peer t e = Some v \<and> ep_peer t v = Some e)) \<and>
    (length fds = MAX_FD \<longrightarrow> fd_free fds = Some i \<longrightarrow> unix_accept_step km arg e (fds, s) = Inl (fd, fds', u) \<longrightarrow> 0 \<le> fd \<longrightarrow>
      (\<exists>v r m. pend_list s e = v # r \<and> pend_list u = (pend_list s)(e := r) \<and> fds' ! nat fd = Some (FSock m) \<and> us_node u m = Some (Some v)))"
proof -
  obtain pl where inv: "us_inv s pl X" using run_inv[OF s] by blast
  obtain x where x: "us_ep s e = Some x" using inv_node_live(1)[OF inv n] by blast
  note ps = pend_list_eq[OF inv]
  show ?thesis using check_queue[OF inv x, of cwd arg l t] append_queue[OF inv x, of l ok t] connect_queue[OF inv x, of km cwd arg t]
    accept_queue[OF inv x, of fds i km arg fd fds' u] by blast
qed

theorem unix_listen_queue_witness:
  "\<exists>k v. pend_list ex_sock4 = (pend_list ex_sock3)(k := pend_list ex_sock3 k @ [v]) \<and> us_ep ex_sock3 v = None \<and> ep_peer ex_sock4 2 = Some v \<and>
    length (pend_list ex_sock4 k) \<le> UNIX_BACKLOG"
proof -
  have "us_node ex_sock3 3 = Some (Some 2)" by (simp add: ex_sock3_eq)
  note q = unix_listen_queue[OF ex_reach(3)[unfolded us_reach_def] this, where km = "\<lambda>_. True" and cwd = None and arg = "0x08000000" and t = ex_sock4]
  from mp[OF conjunct1[OF conjunct2[OF conjunct2[OF q]]] ex_connect_eq] show ?thesis by (elim exE conjE) (intro exI conjI)
qed

section \<open>Where the code falls short\<close>

lemma bad_upd: "us_bad s \<Longrightarrow> us_bad (ep_upd e f s)"
  by (auto simp: ep_upd_def us_fault_def split: option.splits)

lemma bad_drop:
  assumes "\<And>p s. us_bad s \<Longrightarrow> us_bad (put p s)"
  shows "us_bad s \<Longrightarrow> us_bad (pend_drop put k h s)"
proof (induction k arbitrary: h s)
  case (Suc k)
  then show ?case using assms bad_upd by (auto simp: us_fault_def split: option.splits)
qed (simp add: us_fault_def)

lemma bad_destroy: "us_bad s \<Longrightarrow> us_bad (ep_destroy_n k e s)"
proof (induction k arbitrary: e s)
  case (Suc k)
  have put: "us_bad s \<Longrightarrow> us_bad (ep_put_with (ep_destroy_n k) p s)" for p s
    using Suc.IH bad_upd by (simp add: ep_put_with_def Let_def)
  have rm: "us_bad s \<Longrightarrow> us_bad (unix_bound_remove e s)" for s by (auto simp: unix_bound_remove_def us_fault_def split: option.splits)
  show ?case
  proof (cases "us_ep s e")
    case (Some x)
    have drop: "us_bad t \<Longrightarrow> us_bad (pend_drop (ep_put_with (ep_destroy_n k)) j h t)" for j h t by (rule bad_drop[OF put])
    have peer: "us_bad (case ue_peer x of None \<Rightarrow> t | Some p \<Rightarrow> if ep_dead p (ep_upd p ep_gone t) then ep_destroy_n k p (ep_upd p ep_gone t) else ep_upd p ep_gone t)"
      if "us_bad t" for t using that Suc.IH bad_upd by (auto split: option.splits)
    show ?thesis unfolding ep_destroy_n.simps Let_def ep_free_def fref_fold Some option.case
      using Suc.prems bad_upd[OF Suc.prems] rm peer drop by (simp del: pend_drop.simps)
  qed (simp add: us_fault_def)
qed (simp add: us_fault_def)

lemma bad_put: "us_bad s \<Longrightarrow> us_bad (ep_put e s)"
  using bad_upd bad_destroy by (simp add: ep_put_def ep_put_with_def ep_destroy_def Let_def)

lemma bad_append: "us_bad s \<Longrightarrow> us_bad (pend_append l v s)"
  using bad_upd by (auto simp: pend_append_def us_fault_def Let_def split: option.splits)

text \<open>
  A listener that is closed after \<open>connect\<close> has found it is freed in spite of the reference, and
  \<open>connect\<close> appends to the freed memory.
\<close>

lemma connect_uses_closed_listener:
  assumes inv: "us_inv s pl X" and x: "us_ep s e = Some x" and c: "unix_connect_check cwd e arg s = Inr (l, t)"
    and n: "us_node s n = Some (Some l)"
  shows "us_bad (snd (unix_connect_append True l e (unix_node_close n t)))"
proof -
  obtain z where z: "us_inv t pl (X(l := X l + 1))" "us_ep s l = Some z" "ue_kind z = UEP_LISTEN"
    "t = s\<lparr> us_ep := (us_ep s)(l \<mapsto> z\<lparr> ue_refs := ue_refs z + 1 \<rparr>) \<rparr>"
    using check_inv[OF inv x c] by (auto simp: ep_kind_def)
  let ?u = "unix_node_close n t"
  have "closed_other t n l (pl l) ?u" by (rule close_other_eq(1)[OF z(1), of _ _ "z\<lparr> ue_refs := ue_refs z + 1 \<rparr>"]) (use z(3,4) n in simp_all)
  then have u: "us_ep ?u l = None" "us_next ?u = us_next t" by (simp_all add: closed_other_def)
  have "us_ep t l \<noteq> None" using z(4) by simp
  then have ln: "l \<noteq> us_next t" using inv_fresh[OF z(1), of "us_next t"] by auto
  have gone: "us_bad (pend_append l v w)" if "us_ep w l = None" for v w
    using that ep_upd_dom[of v _ w l] by (simp add: pend_append_def Let_def us_fault_def)
  have "us_ep (ep_upd e f (ep_link v e (ep_upd v g (snd (ep_alloc True ?u))))) l = None" for f g v
    using u ln by (simp add: ep_upd_dom ep_link_def ep_alloc_def)
  then show ?thesis using bad_put gone by (simp add: unix_connect_append_def ep_alloc_def Let_def)
qed

text \<open>
  Two calls of \<open>connect\<close> that both find room for one more connection both append: the queue then holds
  more than \<open>UNIX_BACKLOG\<close>.
\<close>

lemma overlapping_connects_exceed_backlog:
  assumes s: "us_run s X" and e: "us_node s n1 = Some (Some e1)" "us_node s n2 = Some (Some e2)" "e1 \<noteq> e2"
    and c: "unix_connect_check cwd1 e1 arg1 s = Inr (l, s1)" "unix_connect_check cwd2 e2 arg2 s1 = Inr (l, s2)"
    and full: "length (pend_list s l) = UNIX_BACKLOG - 1"
  shows "length (pend_list (snd (unix_connect_append True l e2 (snd (unix_connect_append True l e1 s2)))) l) = UNIX_BACKLOG + 1"
proof -
  obtain pl where inv: "us_inv s pl X" using run_inv[OF s] by blast
  obtain x1 where x1: "us_ep s e1 = Some x1" using inv_node_live(1)[OF inv e(1)] by blast
  obtain z where z: "us_inv s1 pl (X(l := X l + 1))" "ue_kind x1 = UEP_NONE" "us_ep s l = Some z" "ue_kind z = UEP_LISTEN"
    "s1 = s\<lparr> us_ep := (us_ep s)(l \<mapsto> z\<lparr> ue_refs := ue_refs z + 1 \<rparr>) \<rparr>" using check_inv[OF inv x1 c(1)] by (auto simp: ep_kind_def)
  obtain x2 where x2: "us_ep s1 e2 = Some x2" using inv_node_live(1)[OF z(1), of n2 e2] e(2) by (auto simp: z(5))
  let ?z = "z\<lparr> ue_refs := ue_refs z + 1, ue_refs := ue_refs z + 2 \<rparr>" let ?X = "X(l := X l + 2)"
  have y: "ue_kind x2 = UEP_NONE" "us_inv s2 pl ?X" "s2 = s1\<lparr> us_ep := (us_ep s1)(l \<mapsto> ?z) \<rparr>"
    using check_inv[OF z(1) x2 c(2)] by (auto simp: z(5) numeral_2_eq_2)
  have ne: "e1 \<noteq> l" "e2 \<noteq> l" using z(2-5) y(1) x1 x2 by auto
  have v: "us_ep s2 l = Some ?z" "us_ep s2 e1 = Some x1" "us_ep s2 e2 = Some x2" using x1 x2 ne by (simp_all add: y(3) z(5))
  define t where "t = snd (unix_connect_append True l e1 s2)"
  have t: "unix_connect_append True l e1 s2 = (0, t)" by (simp add: t_def unix_connect_append_def ep_alloc_def Let_def)
  obtain w where w: "us_inv t (pl(l := pl l @ [w])) (X(l := X l + 1))" "\<forall>a. a \<noteq> e1 \<longrightarrow> a \<noteq> l \<longrightarrow> us_ep s2 a \<noteq> None \<longrightarrow> ep_kind a t = ep_kind a s2"
    using append_inv[OF y(2) _ v(1) _ v(2) z(2) t] z(4) by auto
  have kl: "ep_kind l t = Some UEP_LISTEN" using queuesD(4)[OF us_invD(4)[OF w(1)], of l] by simp
  have k2: "ep_kind e2 t = Some UEP_NONE" using w(2) e(3) ne(2) v(3) y(1) by (auto simp: ep_kind_def)
  obtain x where x: "us_ep t e2 = Some x" using k2 by (auto simp: ep_kind_def)
  define u where "u = snd (unix_connect_append True l e2 t)"
  have u: "unix_connect_append True l e2 t = (0, u)" by (simp add: u_def unix_connect_append_def ep_alloc_def Let_def)
  obtain w2 where "pend_list u = (pend_list t)(l := pend_list t l @ [w2])" using append_queue[OF w(1) x, of l True u] kl k2 u by auto
  then show ?thesis using full unfolding t_def[symmetric] u_def[symmetric] pend_list_eq[OF inv] pend_list_eq[OF w(1)] by (simp add: UNIX_BACKLOG_def)
qed

text \<open>
  A writer reads \<open>ep->peer\<close> without a lock. When the peer is closed before the writer locks it, the
  writer locks freed memory, although its own endpoint is open.
\<close>

lemma writer_uses_closed_peer:
  assumes "us_reach s" "us_node s n = Some (Some a)" "us_ep s a = Some x" "ue_peer x = Some b" "us_node s m = Some (Some b)"
  shows "unix_write_peer buf sz nb b (w, unix_node_close m s) = Inl (-1, w, us_fault (unix_node_close m s))"
proof -
  obtain pl where inv: "us_inv s pl none_held" using reach_inv[OF assms(1)] by blast
  obtain y where y: "us_ep s b = Some y" "ue_peer y = Some a" "b \<noteq> a" using inv_peer(1,2)[OF inv assms(3,4)] by blast
  have "held s a" using assms(2) by (auto simp: held_def)
  from close_peer[OF inv assms(5) y(1,2) assms(3) this] have "us_ep (unix_node_close m s) b = None" using y(3) by simp
  then show ?thesis by (simp add: unix_write_peer_def)
qed

text \<open>
  With a full table of descriptors \<open>alloc_fd\<close> has closed and freed the node already when \<open>accept\<close>
  takes the error path that uses and frees it once more.
\<close>

lemma accept_full_table_double_free:
  assumes inv: "us_inv s pl X" and x: "us_ep s e = Some x" and pl: "pl e = v # r" and full: "fd_free fds = None"
  shows "us_bad (snd (rs (unix_accept_step (\<lambda>_. True) arg e (fds, s))))"
proof -
  note p = accept_pop_inv[OF inv pl]
  have vin: "v \<in> set (pl e)" using pl by simp
  note q = inv_queue_live[OF inv vin]
  obtain y where y: "us_ep s v = Some y" "ue_kind y = UEP_CONN" using q(1) by blast
  note loc = inv_loc[OF inv y(1)]
  have py: "us_ep (accept_pop e v s) v = Some (y\<lparr> ue_pend_next := None \<rparr>)" using y(1) q(3) by (simp add: p(3) deq_ep_def Let_def)
  have nh: "\<not> held (accept_pop e v s) v" using ep_locD(7)[OF loc] q(2) held_same[OF p(2)] by simp
  have nq: "\<not> queued (pl(e := r)) v" using queued_tl[OF us_invD(4)[OF inv] pl] by simp
  obtain n s3 where mk: "unix_make_node True v (accept_pop e v s) = (Some n, s3)" by (auto simp: unix_make_node_def Let_def)
  note m = inv_make_node[OF p(1) py _ _ nh nq mk, simplified, OF y(2)]
  have "us_inv s3 (pl(e := r)) (X(v := X v + 1))" "us_node s3 n = Some (Some v)" using m ep_locD(9)[OF loc y(2)] q(2) by auto
  then have "us_node (unix_node_close n s3) n = None" using close_node by fastforce
  then have "us_bad (node_clear n (unix_node_close n s3))" by (simp add: node_clear_def us_fault_def)
  then have "us_bad (node_free n (ep_put v (ep_put v (node_clear n (unix_node_close n s3)))))"
    using bad_put by (auto simp: node_free_def us_fault_def split: option.splits)
  then show ?thesis using mk full by (simp add: accept_step_eq[OF inv x] pl accept_rest_def alloc_fd_def)
qed

text \<open>
  Shutting down reading marks the peer, but a writer looks for the mark on the endpoint it writes to:
  it is the own writes that fail then.
\<close>

lemma shut_rd_breaks_own_writes:
  assumes "us_inv s pl X" "us_ep s e = Some x" "ue_peer x = Some p" "\<not> ue_shut_wr x" "arg \<noteq> 0"
    and "copy_from_user (us_mem s) arg 4 = Some bs" "rd32 bs 0 = 0"
  shows "unix_write_step buf sz e (0, snd (unix_shutdown_ioctl e arg s)) = Inl (- EPIPE, 0, sigpipe (snd (unix_shutdown_ioctl e arg s)))"
proof -
  obtain y where y: "us_ep s p = Some y" "p \<noteq> e" using inv_peer(1,2)[OF assms(1-3)] by blast
  let ?t = "ep_tell_peer e (\<lambda>y. y\<lparr> ue_peer_no_read := True \<rparr>) (ep_upd e (\<lambda>x. x\<lparr> ue_shut_rd := True \<rparr>) s)"
  have t: "snd (unix_shutdown_ioctl e arg s) = ?t" using assms(5-7) by (simp add: unix_shutdown_ioctl_def)
  have "us_ep ?t e = Some (x\<lparr> ue_shut_rd := True \<rparr>)" "us_ep ?t p = Some (y\<lparr> ue_peer_no_read := True \<rparr>)"
    using assms(2,3) y by (simp_all add: ep_tell_peer_def ep_upd_def)
  then show ?thesis unfolding t using assms(3,4) by (simp add: unix_write_step_def unix_write_peer_def or_err_def)
qed

text \<open>\<open>sendmsg\<close> still sends after writing was shut down.\<close>

lemma sendmsg_after_shutdown:
  assumes "us_ep s e = Some x" "ue_shut_wr x" "ue_peer x = Some p" "us_ep s p = Some y" "ue_used y" "\<not> ue_peer_no_read y" "\<not> ue_shut_rd y"
    and "unat sz \<le> UNIX_BUF_SIZE - ue_rx_len y" "sz \<noteq> 0"
  shows "ep_write_payload_step buf sz e (0, s) = Inl (c_int (unat sz), unat sz, ep_upd p (ep_push (mem_read (us_mem s) buf (unat sz))) s)"
    and "unix_write_step buf sz e (0, s) = Inl (- EPIPE, 0, s)"
proof -
  have "0 < unat sz" using assms(9) by (simp add: unat_gt_0)
  then have "UNIX_BUF_SIZE - ue_rx_len y \<noteq> 0" using assms(8) by linarith
  then show "ep_write_payload_step buf sz e (0, s) = Inl (c_int (unat sz), unat sz, ep_upd p (ep_push (mem_read (us_mem s) buf (unat sz))) s)"
    using assms(1,3-8) by (simp add: ep_write_payload_step_def ep_payload_peer_def Let_def min_def)
  show "unix_write_step buf sz e (0, s) = Inl (- EPIPE, 0, s)" using assms(1,2) by (simp add: unix_write_step_def unix_write_peer_def or_err_def)
qed

text \<open>
  A client whose connection was never accepted is not told when the listener is closed: its peer stays
  allocated, with no node and in no queue, and a read goes on waiting.
\<close>

lemma listener_close_strands_client:
  assumes inv: "us_inv s pl none_held" and n: "us_node s n = Some (Some l)" and v: "v \<in> set (pl l)" "ep_peer s v = Some c" "held s c"
  shows "us_ep (unix_node_close n s) c = us_ep s c" "us_ep (unix_node_close n s) v \<noteq> None" "ep_peer (unix_node_close n s) c = Some v"
proof -
  note q = inv_queue_live[OF inv v(1)]
  obtain x where x: "us_ep s l = Some x" "ue_kind x = UEP_LISTEN" using q(4) by blast
  obtain y where y: "us_ep s v = Some y" "ue_peer y = Some c" using q(1) v(2) by (auto simp: ep_peer_def)
  note c = close_other_eq(1)[OF inv n x(1), unfolded x(2) closed_other_def, simplified]
  have pc: "ep_peer s c = Some v" using us_invD(3)[OF inv] v(2) unfolding peers_ok_def by blast
  obtain z where z: "us_ep s c = Some z" using pc by (auto simp: ep_peer_def bind_eq_Some_conv)
  have "\<not> queued pl c" using ep_locD(7)[OF inv_loc[OF inv z]] v(3) by blast
  moreover have "c \<noteq> l" using pc ep_locD(8)[OF inv_loc[OF inv x(1)]] x ep_viewsI(1)[OF x(1)] by auto
  ultimately show ec: "us_ep (unix_node_close n s) c = us_ep s c" using c by (auto simp: queued_def)
  have "ue_refs y = 2" using ep_locD(5)[OF inv_loc[OF inv y(1)]] y(2) q(2) ep_locD(7)[OF inv_loc[OF inv y(1)]] by auto
  then show "us_ep (unix_node_close n s) v \<noteq> None" using c v(1) q(3) y(1) by (simp add: gone1_def)
  show "ep_peer (unix_node_close n s) c = Some v" using pc ec by (simp add: ep_peer_def)
qed

text \<open>A name of more than 107 characters can be bound, but nobody can connect to it.\<close>

lemma long_name_unreachable:
  assumes "unix_bound_insert path e s = (0, t)" "UNIX_PATH_MAX - 1 < length path"
  shows "unix_bound_lookup path t = (None, t)"
proof -
  have ready: "us_ready s" using assms(1) by (auto simp: unix_bound_insert_def split: if_splits)
  have no: "\<forall>b \<in> set (us_bound s). map_option fst b \<noteq> Some path" using assms(1) by (auto simp: unix_bound_insert_def split: if_splits option.splits)
  obtain i where t: "t = s\<lparr> us_bound := (us_bound s)[i := Some (take (UNIX_PATH_MAX - 1) path, e)] \<rparr>" using insert_cases[OF ready assms(1)] by auto
  have ne: "take (UNIX_PATH_MAX - 1) path \<noteq> path" using assms(2) by (metis length_take min.absorb4 nat_neq_iff)
  have sub: "set (us_bound t) \<subseteq> insert (Some (take (UNIX_PATH_MAX - 1) path, e)) (set (us_bound s))"
    using set_update_subset_insert[of "us_bound s" i] by (simp add: t)
  have "\<forall>b \<in> set (us_bound t). map_option fst b \<noteq> Some path"
  proof
    fix b assume "b \<in> set (us_bound t)"
    then have "b = Some (take (UNIX_PATH_MAX - 1) path, e) \<or> b \<in> set (us_bound s)" using sub by blast
    then show "map_option fst b \<noteq> Some path"
    proof
      assume "b = Some (take (UNIX_PATH_MAX - 1) path, e)"
      then have "map_option fst b = Some (take (UNIX_PATH_MAX - 1) path)" by simp
      then show ?thesis using ne by (simp only: option.inject) blast
    qed (use no in blast)
  qed
  then have "List.find (\<lambda>b. map_option fst b = Some path) (us_bound t) = None" by (simp add: find_None_iff)
  then show ?thesis using ready by (simp add: unix_bound_lookup_def t)
qed

end
