(* ===== verification/Elf.thy ===== *)
theory Elf
  imports Prelude Usermem
begin

text \<open>
  The loader of 32-bit ELF programs, \<open>kernel/elf/elf_loader.c\<close>: the checks on headers and segments,
  the mapping of the segments page by page (\<open>load_elf\<close>, and \<open>_map_image\<close> for a program with an
  interpreter), the interpreter path, the start of the heap and the symbol table kept for
  traces, with the lookup of \<open>kernel/elf/sym.c\<close> in it.

  A file is its size and its \<open>read_vfs\<close>, which returns a result and the bytes it stored (never more
  than asked for). The memory manager is in another crate and appears through the answers of \<open>kalloc\<close>
  and \<open>proc_tracker_add\<close>, by the number of the request, and through the list of the calls that reach
  it. A local structure that a short read leaves partly unset holds the bytes found on the stack.
\<close>

section \<open>Data\<close>

abbreviation (input) PAGE_SIZE :: u32 where "PAGE_SIZE \<equiv> 0x1000"
abbreviation (input) USER_STACK_TOP :: u32 where "USER_STACK_TOP \<equiv> 0xC0000000"
abbreviation (input) USER_FRAME_CEIL :: u32 where "USER_FRAME_CEIL \<equiv> 0x80000000"
abbreviation (input) RESERVED_END :: u32 where "RESERVED_END \<equiv> 0x20000000"
abbreviation (input) ELF_MAGIC :: u32 where "ELF_MAGIC \<equiv> 0x464C457F"
abbreviation (input) PT_LOAD :: u32 where "PT_LOAD \<equiv> 1"
abbreviation (input) PT_INTERP :: u32 where "PT_INTERP \<equiv> 3"
abbreviation (input) SHT_SYMTAB :: u32 where "SHT_SYMTAB \<equiv> 2"
abbreviation (input) SHT_STRTAB :: u32 where "SHT_STRTAB \<equiv> 3"

record Elf32_Ehdr =
  e_ident :: bytes
  e_machine :: u16
  e_entry :: u32
  e_phoff :: u32
  e_shoff :: u32
  e_phentsize :: u16
  e_phnum :: u16
  e_shentsize :: u16
  e_shnum :: u16
  e_shstrndx :: u16

record Elf32_Phdr =
  p_type :: u32
  p_offset :: u32
  p_vaddr :: u32
  p_filesz :: u32
  p_memsz :: u32

record Elf32_Shdr =
  sh_type :: u32
  sh_offset :: u32
  sh_size :: u32
  sh_link :: u32
  sh_entsize :: u32

definition rd16 :: "bytes \<Rightarrow> nat \<Rightarrow> u16" where
  "rd16 bs off = word_of_nat (le_nat (slice off 2 bs))"

definition get_ehdr :: "bytes \<Rightarrow> Elf32_Ehdr" where
  "get_ehdr b = \<lparr> e_ident = slice 0 16 b, e_machine = rd16 b 18, e_entry = rd32 b 24, e_phoff = rd32 b 28,
     e_shoff = rd32 b 32, e_phentsize = rd16 b 42, e_phnum = rd16 b 44, e_shentsize = rd16 b 46,
     e_shnum = rd16 b 48, e_shstrndx = rd16 b 50 \<rparr>"

definition get_phdr :: "bytes \<Rightarrow> Elf32_Phdr" where
  "get_phdr b = \<lparr> p_type = rd32 b 0, p_offset = rd32 b 4, p_vaddr = rd32 b 8, p_filesz = rd32 b 16,
     p_memsz = rd32 b 20 \<rparr>"

definition get_shdr :: "bytes \<Rightarrow> Elf32_Shdr" where
  "get_shdr b = \<lparr> sh_type = rd32 b 4, sh_offset = rd32 b 16, sh_size = rd32 b 20, sh_link = rd32 b 24,
     sh_entsize = rd32 b 36 \<rparr>"

record elf_file =
  vf_size :: u32
  vf_read :: "u32 \<Rightarrow> u32 \<Rightarrow> int \<times> bytes"

text \<open>
  The answers of the memory manager, and the stale bytes of the stack and of fresh heap blocks, which
  the loops find in the structures of their \<open>i\<close>th round.
\<close>
record elf_env =
  ev_kalloc :: "nat \<Rightarrow> u32"
  ev_tracker_add :: "nat \<Rightarrow> bool"
  ev_stack :: "nat \<Rightarrow> nat \<Rightarrow> bytes"
  ev_kmalloc :: "nat \<Rightarrow> u32 \<Rightarrow> bytes option"

datatype elf_call =
    Kalloc u32
  | Tracker_add u32
  | Free_page u32
  | Vmm_map u32 u32
  | Proc_free_pages u32

record elf_state =
  es_page_dir :: u32
  es_calls :: "elf_call list"
  es_frames :: "u32 \<Rightarrow> bytes"
  es_n :: nat

record elf_interp_info =
  main_entry :: u32
  main_base :: u32
  main_phdr :: u32
  main_phnum :: u32
  interp_base :: u32

definition buf_put :: "bytes \<Rightarrow> nat \<Rightarrow> bytes \<Rightarrow> bytes" where
  "buf_put b off bs = take off b @ bs @ drop (off + length bs) b"

definition call :: "elf_call \<Rightarrow> elf_state \<Rightarrow> elf_state" where
  "call c s = s\<lparr> es_calls := es_calls s @ [c] \<rparr>"

text \<open>\<open>proc_free_pages\<close> releases the address space that the tracker names, and forgets it.\<close>
definition proc_free_pages :: "elf_state \<Rightarrow> elf_state" where
  "proc_free_pages s = call (Proc_free_pages (es_page_dir s)) s\<lparr> es_page_dir := 0 \<rparr>"

text \<open>\<open>read_vfs\<close> into a buffer: the result, and the buffer with the bytes stored at the offset.\<close>
definition read_into :: "elf_file \<Rightarrow> u32 \<Rightarrow> u32 \<Rightarrow> bytes \<Rightarrow> nat \<Rightarrow> int \<times> bytes" where
  "read_into f off n b at = (case vf_read f off n of (r, bs) \<Rightarrow> (r, buf_put b at (take (unat n) bs)))"

section \<open>Headers\<close>

definition read_ehdr :: "elf_env \<Rightarrow> elf_file \<Rightarrow> Elf32_Ehdr option" where
  "read_ehdr ev f = (case read_into f 0 52 (ev_stack ev 0 0) 0 of
      (r, b) \<Rightarrow> if r \<le> 0 then None else Some (get_ehdr b))"

definition ph_off :: "Elf32_Ehdr \<Rightarrow> nat \<Rightarrow> u32" where
  "ph_off hdr i = ucast (ucast (e_phoff hdr) + word_of_nat i * ucast (e_phentsize hdr) :: u64)"

definition read_phdr :: "elf_env \<Rightarrow> nat \<Rightarrow> elf_file \<Rightarrow> Elf32_Ehdr \<Rightarrow> nat \<Rightarrow> Elf32_Phdr option" where
  "read_phdr ev pass f hdr i = (case read_into f (ph_off hdr i) 32 (ev_stack ev pass i) 0 of
      (r, b) \<Rightarrow> if r \<le> 0 then None else Some (get_phdr b))"

definition ph_end_check :: "Elf32_Ehdr \<Rightarrow> u64" where
  "ph_end_check hdr = ucast (e_phoff hdr) + ucast (e_phnum hdr) * ucast (e_phentsize hdr)"

definition elf_magic_ok :: "Elf32_Ehdr \<Rightarrow> bool" where
  "elf_magic_ok hdr = (rd32 (e_ident hdr) 0 = ELF_MAGIC)"

definition elf_machine_ok :: "Elf32_Ehdr \<Rightarrow> bool" where
  "elf_machine_ok hdr = (elf_magic_ok hdr \<and> e_ident hdr ! 4 = 1 \<and> e_ident hdr ! 5 = 1 \<and> e_machine hdr = 3)"

definition elf_phtab_ok :: "elf_file \<Rightarrow> Elf32_Ehdr \<Rightarrow> bool" where
  "elf_phtab_ok f hdr = (\<not> e_phentsize hdr < 32 \<and> \<not> (ucast (e_phnum hdr) :: u32) > 65535 \<and>
     \<not> ph_end_check hdr > ucast (vf_size f))"

definition elf_hdr_ok :: "elf_file \<Rightarrow> Elf32_Ehdr \<Rightarrow> bool" where
  "elf_hdr_ok f hdr = (elf_machine_ok hdr \<and> e_ident hdr ! 6 = 1 \<and> elf_phtab_ok f hdr)"

section \<open>Segments\<close>

definition elf_seg_ok :: "u32 \<Rightarrow> u32 \<Rightarrow> bool" where
  "elf_seg_ok seg_start seg_end = (
     if seg_end < seg_start then False
     else if seg_end > USER_STACK_TOP then False
     else if seg_start < PAGE_SIZE then False
     else if seg_start < USER_FRAME_CEIL \<and> seg_end > RESERVED_END then False
     else True)"

definition page_down :: "u32 \<Rightarrow> u32" where
  "page_down a = a AND NOT 0xFFF"

definition seg_start :: "Elf32_Phdr \<Rightarrow> u32" where
  "seg_start ph = page_down (p_vaddr ph)"

definition seg_end :: "Elf32_Phdr \<Rightarrow> u32" where
  "seg_end ph = page_down (p_vaddr ph + p_memsz ph + 0xFFF)"

definition file_end :: "Elf32_Phdr \<Rightarrow> u32" where
  "file_end ph = p_vaddr ph + p_filesz ph"

text \<open>The addresses of \<open>for (va = seg_start; va < seg_end; va += PAGE_SIZE)\<close>, up to the top of memory.\<close>
function seg_pages :: "u32 \<Rightarrow> u32 \<Rightarrow> u32 list" where
  "seg_pages va hi = (if va < hi \<and> va < va + PAGE_SIZE then va # seg_pages (va + PAGE_SIZE) hi else [])"
  by pat_completeness auto

termination seg_pages
proof (relation "measure (\<lambda>(va, hi). 2 ^ 32 - unat va)")
  fix va hi :: u32 assume "va < hi \<and> va < va + PAGE_SIZE"
  then have "unat va < unat (va + PAGE_SIZE)" by (simp add: word_less_nat_alt)
  moreover have "unat (va + PAGE_SIZE) < 2 ^ 32" using unsigned_less [of "va + PAGE_SIZE"] by simp
  ultimately show "((va + PAGE_SIZE, hi), va, hi) \<in> measure (\<lambda>(va, hi). 2 ^ 32 - unat va)" by simp
qed simp

declare seg_pages.simps [simp del]

text \<open>A frame from \<open>kalloc\<close>, entered in the tracker and cleared.\<close>
definition new_page :: "elf_env \<Rightarrow> elf_state \<Rightarrow> u32 option \<times> elf_state" where
  "new_page ev s =
     (let phys = ev_kalloc ev (es_n s);
          tracked = ev_tracker_add ev (es_n s);
          s1 = call (Kalloc phys) s\<lparr> es_n := Suc (es_n s) \<rparr>
      in if phys = 0 then (None, s1)
         else if \<not> tracked then (None, call (Free_page phys) s1)
         else (Some phys, call (Tracker_add phys) s1\<lparr> es_frames := (es_frames s)(phys := replicate 4096 0) \<rparr>))"

definition copy_page :: "elf_file \<Rightarrow> Elf32_Phdr \<Rightarrow> u32 \<Rightarrow> bytes \<Rightarrow> int \<times> bytes" where
  "copy_page f ph va p =
     (if va < file_end ph then
        let copy_start = (if va > p_vaddr ph then va else p_vaddr ph);
            copy_end = (if va + PAGE_SIZE < file_end ph then va + PAGE_SIZE else file_end ph)
        in if copy_end > copy_start
           then read_into f (p_offset ph + (copy_start - p_vaddr ph)) (copy_end - copy_start) p
                  (unat (copy_start - va))
           else (1, p)
      else (1, p))"

definition map_page :: "elf_env \<Rightarrow> elf_file \<Rightarrow> Elf32_Phdr \<Rightarrow> u32 \<Rightarrow> elf_state \<Rightarrow> bool \<times> elf_state" where
  "map_page ev f ph va s =
     (case new_page ev s of
        (None, s1) \<Rightarrow> (False, s1)
      | (Some phys, s1) \<Rightarrow>
          (case copy_page f ph va (es_frames s1 phys) of (rd, p) \<Rightarrow>
             let s2 = s1\<lparr> es_frames := (es_frames s1)(phys := p) \<rparr>
             in if rd \<le> 0 then (False, s2) else (True, call (Vmm_map va phys) s2)))"

fun map_pages :: "elf_env \<Rightarrow> elf_file \<Rightarrow> Elf32_Phdr \<Rightarrow> u32 list \<Rightarrow> elf_state \<Rightarrow> bool \<times> elf_state" where
  "map_pages ev f ph [] s = (True, s)"
| "map_pages ev f ph (va # vas) s =
     (case map_page ev f ph va s of
        (False, s1) \<Rightarrow> (False, s1)
      | (True, s1) \<Rightarrow> map_pages ev f ph vas s1)"

text \<open>The headers whose segment is mapped; the others are passed over.\<close>
definition loadable :: "Elf32_Phdr \<Rightarrow> bool" where
  "loadable ph = (p_type ph = PT_LOAD \<and> p_memsz ph \<noteq> 0 \<and> \<not> p_vaddr ph + p_memsz ph < p_vaddr ph \<and>
     \<not> p_vaddr ph + p_filesz ph < p_vaddr ph)"

text \<open>One round of the loop over the program headers, of \<open>load_elf\<close> and of the second loop of
  \<open>_map_image\<close>: whether the loop goes on, the header it has read, and the state.\<close>
definition load_segment :: "elf_env \<Rightarrow> nat \<Rightarrow> elf_file \<Rightarrow> Elf32_Ehdr \<Rightarrow> nat \<Rightarrow> elf_state \<Rightarrow>
    Elf32_Phdr option \<times> elf_state" where
  "load_segment ev pass f hdr i s =
     (case read_phdr ev pass f hdr i of
        None \<Rightarrow> (None, s)
      | Some ph \<Rightarrow>
          if \<not> loadable ph then (Some ph, s)
          else if \<not> elf_seg_ok (seg_start ph) (seg_end ph) then (None, s)
          else (case map_pages ev f ph (seg_pages (seg_start ph) (seg_end ph)) s of
              (ok, s1) \<Rightarrow> (if ok then Some ph else None, s1)))"

fun load_segments :: "elf_env \<Rightarrow> nat \<Rightarrow> elf_file \<Rightarrow> Elf32_Ehdr \<Rightarrow> nat list \<Rightarrow> elf_state \<Rightarrow>
    Elf32_Phdr list option \<times> elf_state" where
  "load_segments ev pass f hdr [] s = (Some [], s)"
| "load_segments ev pass f hdr (i # is) s =
     (case load_segment ev pass f hdr i s of
        (None, s1) \<Rightarrow> (None, s1)
      | (Some ph, s1) \<Rightarrow>
          (case load_segments ev pass f hdr is s1 of
             (None, s2) \<Rightarrow> (None, s2)
           | (Some phs, s2) \<Rightarrow> (Some (ph # phs), s2)))"

definition load_elf :: "elf_env \<Rightarrow> u32 \<Rightarrow> elf_file option \<Rightarrow> elf_state \<Rightarrow> u32 \<times> elf_state" where
  "load_elf ev pd fo s0 =
     (let s = s0\<lparr> es_page_dir := pd \<rparr>
      in case fo of None \<Rightarrow> (0, s)
      | Some f \<Rightarrow>
          (case read_ehdr ev f of None \<Rightarrow> (0, s)
           | Some hdr \<Rightarrow>
               if \<not> elf_hdr_ok f hdr then (0, s)
               else (case load_segments ev 1 f hdr [0..<unat (e_phnum hdr)] s of
                   (None, s1) \<Rightarrow> (0, proc_free_pages s1)
                 | (Some phs, s1) \<Rightarrow> (e_entry hdr, s1))))"

section \<open>Programs with an interpreter\<close>

fun scan_segments :: "elf_env \<Rightarrow> elf_file \<Rightarrow> Elf32_Ehdr \<Rightarrow> nat list \<Rightarrow> u32 \<Rightarrow> u32 option" where
  "scan_segments ev f hdr [] min_vaddr = Some min_vaddr"
| "scan_segments ev f hdr (i # is) min_vaddr =
     (case read_phdr ev 1 f hdr i of
        None \<Rightarrow> None
      | Some ph \<Rightarrow>
          if p_type ph \<noteq> PT_LOAD \<or> p_memsz ph = 0 then scan_segments ev f hdr is min_vaddr
          else if p_vaddr ph + p_memsz ph < p_vaddr ph then None
          else if \<not> elf_seg_ok (seg_start ph) (seg_end ph) then None
          else scan_segments ev f hdr is (if seg_start ph < min_vaddr then seg_start ph else min_vaddr))"

definition phdr_bytes :: "Elf32_Ehdr \<Rightarrow> u32" where
  "phdr_bytes hdr = ucast (ph_end_check hdr - ucast (e_phoff hdr))"

fun phdr_covered :: "Elf32_Ehdr \<Rightarrow> Elf32_Phdr list \<Rightarrow> u32 option" where
  "phdr_covered hdr [] = None"
| "phdr_covered hdr (ph # phs) =
     (if loadable ph \<and> \<not> e_phoff hdr < p_offset ph \<and>
         (ucast (e_phoff hdr) + ucast (phdr_bytes hdr) :: u64) \<le> ucast (p_offset ph) + ucast (p_filesz ph)
      then Some (p_vaddr ph + (e_phoff hdr - p_offset ph)) else phdr_covered hdr phs)"

definition map_phdr_page :: "elf_env \<Rightarrow> elf_file \<Rightarrow> Elf32_Ehdr \<Rightarrow> u32 \<Rightarrow> elf_state \<Rightarrow> u32 option \<times> elf_state" where
  "map_phdr_page ev f hdr min_vaddr s =
     (let page_off = e_phoff hdr AND 0xFFF;
          copy_sz = (if phdr_bytes hdr > PAGE_SIZE - page_off then PAGE_SIZE - page_off else phdr_bytes hdr)
      in case new_page ev s of
           (None, s1) \<Rightarrow> (None, s1)
         | (Some phys, s1) \<Rightarrow>
             let s2 = (if copy_sz > 0
                       then s1\<lparr> es_frames := (es_frames s1)(phys :=
                              snd (read_into f (e_phoff hdr) copy_sz (es_frames s1 phys) (unat page_off))) \<rparr>
                       else s1)
             in if min_vaddr < PAGE_SIZE then (None, s2)
                else (Some (min_vaddr - 0x1000 + page_off), call (Vmm_map (min_vaddr - 0x1000) phys) s2))"

text \<open>The result is the entry point, the lowest page, the address of the program headers and their number.\<close>
definition map_image :: "elf_env \<Rightarrow> elf_file \<Rightarrow> elf_state \<Rightarrow> (u32 \<times> u32 \<times> u32 \<times> u32) option \<times> elf_state" where
  "map_image ev f s =
     (case read_ehdr ev f of None \<Rightarrow> (None, s)
      | Some hdr \<Rightarrow>
          if \<not> elf_hdr_ok f hdr then (None, s)
          else (case scan_segments ev f hdr [0..<unat (e_phnum hdr)] 0xFFFFFFFF of None \<Rightarrow> (None, s)
                | Some min_vaddr \<Rightarrow>
                    if min_vaddr = 0xFFFFFFFF \<or> min_vaddr < PAGE_SIZE then (None, s)
                    else (case load_segments ev 2 f hdr [0..<unat (e_phnum hdr)] s of
                        (None, s1) \<Rightarrow> (None, s1)
                      | (Some phs, s1) \<Rightarrow>
                          (case phdr_covered hdr phs of
                             Some phdr_vaddr \<Rightarrow> (Some (e_entry hdr, min_vaddr, phdr_vaddr, ucast (e_phnum hdr)), s1)
                           | None \<Rightarrow>
                               (case map_phdr_page ev f hdr min_vaddr s1 of
                                  (None, s2) \<Rightarrow> (None, s2)
                                | (Some phdr_vaddr, s2) \<Rightarrow>
                                    (Some (e_entry hdr, min_vaddr, phdr_vaddr, ucast (e_phnum hdr)), s2))))))"

definition load_elf_interp :: "elf_env \<Rightarrow> elf_env \<Rightarrow> elf_file option \<Rightarrow> elf_file option \<Rightarrow> elf_state \<Rightarrow>
    u32 \<times> elf_interp_info \<times> elf_state" where
  "load_elf_interp ev ev' main interp s =
     (let info = \<lparr> main_entry = 0, main_base = 0, main_phdr = 0, main_phnum = 0, interp_base = 0 \<rparr>
      in case main of None \<Rightarrow> (0, info, s)
         | Some main_file \<Rightarrow>
             (case interp of None \<Rightarrow> (0, info, s)
              | Some interp_file \<Rightarrow>
                  (case map_image ev main_file s of
                     (None, s1) \<Rightarrow> (0, info, proc_free_pages s1)
                   | (Some (m_entry, m_min, m_phdr, m_phnum), s1) \<Rightarrow>
                       let info1 = info\<lparr> main_entry := m_entry, main_base := m_min, main_phdr := m_phdr,
                                         main_phnum := m_phnum \<rparr>
                       in (case map_image ev' interp_file s1 of
                             (None, s2) \<Rightarrow> (0, info1, proc_free_pages s2)
                           | (Some (i_entry, i_min, i_phdr, i_phnum), s2) \<Rightarrow>
                               (i_entry, info1\<lparr> interp_base := i_min \<rparr>, s2)))))"

section \<open>Interpreter path and start of the heap\<close>

fun find_interp :: "elf_env \<Rightarrow> elf_file \<Rightarrow> Elf32_Ehdr \<Rightarrow> nat list \<Rightarrow> bytes \<Rightarrow> int \<Rightarrow> int \<times> bytes" where
  "find_interp ev f hdr [] out out_max = (-1, out)"
| "find_interp ev f hdr (i # is) out out_max =
     (case read_phdr ev 1 f hdr i of
        None \<Rightarrow> (-1, out)
      | Some ph \<Rightarrow>
          if p_type ph \<noteq> PT_INTERP then find_interp ev f hdr is out out_max
          else if p_filesz ph = 0 \<or> p_filesz ph > word_of_int out_max then (-1, out)
          else (case read_into f (p_offset ph) (p_filesz ph) out 0 of (n, out1) \<Rightarrow>
                  if n \<le> 0 then (-1, out1)
                  else let n1 = (if n \<ge> out_max then out_max - 1 else n)
                       in (n1, out1[nat n1 := 0])))"

definition elf_get_interp_path :: "elf_env \<Rightarrow> elf_file option \<Rightarrow> bytes \<Rightarrow> int \<Rightarrow> int \<times> bytes" where
  "elf_get_interp_path ev fo out out_max =
     (if out_max \<le> 0 then (-1, out)
      else case fo of None \<Rightarrow> (-1, out)
      | Some f \<Rightarrow>
          (case read_ehdr ev f of None \<Rightarrow> (-1, out)
           | Some hdr \<Rightarrow>
               if \<not> (elf_machine_ok hdr \<and> elf_phtab_ok f hdr) then (-1, out)
               else find_interp ev f hdr [0..<unat (e_phnum hdr)] out out_max))"

fun brk_scan :: "elf_env \<Rightarrow> elf_file \<Rightarrow> Elf32_Ehdr \<Rightarrow> nat list \<Rightarrow> u32 \<Rightarrow> u32" where
  "brk_scan ev f hdr [] highest = highest"
| "brk_scan ev f hdr (i # is) highest =
     (case read_phdr ev 1 f hdr i of
        None \<Rightarrow> highest
      | Some ph \<Rightarrow>
          if p_type ph \<noteq> PT_LOAD then brk_scan ev f hdr is highest
          else if p_vaddr ph + p_memsz ph < p_vaddr ph then brk_scan ev f hdr is highest
          else if \<not> elf_seg_ok (seg_start ph) (seg_end ph) then brk_scan ev f hdr is highest
          else brk_scan ev f hdr is
                 (if p_vaddr ph + p_memsz ph > highest then p_vaddr ph + p_memsz ph else highest))"

definition elf_get_brk_start :: "elf_env \<Rightarrow> elf_file option \<Rightarrow> u32" where
  "elf_get_brk_start ev fo =
     (case fo of None \<Rightarrow> 0
      | Some f \<Rightarrow>
          (case read_ehdr ev f of None \<Rightarrow> 0
           | Some hdr \<Rightarrow>
               if \<not> (elf_magic_ok hdr \<and> elf_phtab_ok f hdr) then 0
               else page_down (brk_scan ev f hdr [0..<unat (e_phnum hdr)] 0 + PAGE_SIZE - 1)))"

section \<open>The symbol table kept for traces\<close>

text \<open>
  The fields of the process. The blocks that hold the section headers and their names are freed before
  every return after their allocation; the names are read and never used, so they leave no trace here.
\<close>
record exec_syms =
  exec_base :: u32
  exec_symtab :: "bytes option"
  exec_strtab :: "bytes option"
  exec_symtab_count :: u32

fun load_base_scan :: "elf_env \<Rightarrow> elf_file \<Rightarrow> Elf32_Ehdr \<Rightarrow> nat list \<Rightarrow> u32 \<Rightarrow> u32" where
  "load_base_scan ev f hdr [] load_base = load_base"
| "load_base_scan ev f hdr (i # is) load_base =
     (if e_phentsize hdr < 32 then load_base
      else case read_phdr ev 1 f hdr i of
             None \<Rightarrow> load_base
           | Some ph \<Rightarrow> load_base_scan ev f hdr is
               (if p_type ph = PT_LOAD \<and> p_vaddr ph < load_base then p_vaddr ph else load_base))"

fun find_symtab :: "Elf32_Shdr list \<Rightarrow> Elf32_Shdr option" where
  "find_symtab [] = None"
| "find_symtab (sh # shs) = (if sh_type sh = SHT_SYMTAB then Some sh else find_symtab shs)"

fun find_strtab :: "Elf32_Shdr list \<Rightarrow> Elf32_Shdr option \<Rightarrow> Elf32_Shdr option" where
  "find_strtab [] acc = acc"
| "find_strtab (sh # shs) acc =
     find_strtab shs (if sh_type sh = SHT_STRTAB \<and> sh_entsize sh = 0 then Some sh else acc)"

text \<open>The two tables, allocated before either allocation is checked; when one is refused the other is freed.\<close>
definition load_tables :: "elf_env \<Rightarrow> elf_file \<Rightarrow> Elf32_Shdr \<Rightarrow> Elf32_Shdr \<Rightarrow> exec_syms \<Rightarrow> exec_syms" where
  "load_tables ev f sym_sh str_sh p =
     (case (ev_kmalloc ev 2 (sh_size sym_sh), ev_kmalloc ev 3 (sh_size str_sh)) of
        (Some b, Some b') \<Rightarrow>
          p\<lparr> exec_symtab := Some (snd (read_into f (sh_offset sym_sh) (sh_size sym_sh) b 0)),
             exec_strtab := Some (snd (read_into f (sh_offset str_sh) (sh_size str_sh) b' 0)),
             exec_symtab_count := sh_size sym_sh div 16 \<rparr>
      | _ \<Rightarrow> p)"

definition elf_load_exec_symtab :: "elf_env \<Rightarrow> elf_file option \<Rightarrow> exec_syms \<Rightarrow> exec_syms" where
  "elf_load_exec_symtab ev fo p0 =
     (let p = p0\<lparr> exec_symtab := None, exec_strtab := None, exec_symtab_count := 0 \<rparr>
      in case fo of None \<Rightarrow> p
         | Some f \<Rightarrow>
             (case read_ehdr ev f of None \<Rightarrow> p
              | Some hdr \<Rightarrow>
                  if \<not> elf_magic_ok hdr \<or> e_shentsize hdr < 40 \<or> e_shnum hdr > 256 then p
                  else let load_base = load_base_scan ev f hdr [0..<unat (e_phnum hdr)] 0xFFFFFFFF;
                           p1 = p\<lparr> exec_base := (if load_base = 0xFFFFFFFF then 0 else load_base) \<rparr>;
                           n = ucast (e_shnum hdr) * 40
                       in case ev_kmalloc ev 0 n of None \<Rightarrow> p1
                          | Some b \<Rightarrow>
                              (case read_into f (e_shoff hdr) n b 0 of (r, b1) \<Rightarrow>
                                 if r \<le> 0 then p1
                                 else let shs = map (\<lambda>i. get_shdr (drop (40 * i) b1)) [0..<unat (e_shnum hdr)]
                                      in case find_symtab shs of None \<Rightarrow> p1
                                         | Some sym_sh \<Rightarrow>
                                             (case (if sh_link sym_sh < ucast (e_shnum hdr)
                                                    then Some (shs ! unat (sh_link sym_sh)) else find_strtab shs None) of
                                                None \<Rightarrow> p1
                                              | Some str_sh \<Rightarrow>
                                                  if sh_size sym_sh > 0 then load_tables ev f sym_sh str_sh p1 else p1))))"
section \<open>Names of addresses\<close>

text \<open>\<open>sym_resolve_addr\<close> of \<open>kernel/elf/sym.c\<close> on the fields of the current process; the result is the
  offset of the name in the string table and the distance from the symbol.\<close>

record Elf32_Sym =
  st_name :: u32
  st_value :: u32
  st_size :: u32
  st_info :: u8

definition get_sym :: "bytes \<Rightarrow> nat \<Rightarrow> Elf32_Sym" where
  "get_sym b j = \<lparr> st_name = rd32 b (16 * j), st_value = rd32 b (16 * j + 4), st_size = rd32 b (16 * j + 8),
     st_info = b ! (16 * j + 12) \<rparr>"

definition sym_fits :: "u32 \<Rightarrow> Elf32_Sym \<Rightarrow> bool" where
  "sym_fits rel y = (st_value y > 0 \<and> st_value y \<le> rel \<and>
     (st_info y AND 15 = 2 \<or> st_info y AND 15 = 0 \<or> st_info y AND 15 = 1) \<and>
     \<not> (st_size y > 0 \<and> rel - st_value y \<ge> st_size y))"

fun sym_best :: "bytes \<Rightarrow> u32 \<Rightarrow> nat list \<Rightarrow> nat option \<Rightarrow> nat option" where
  "sym_best b rel [] best = best"
| "sym_best b rel (j # js) best =
     sym_best b rel js
       (if sym_fits rel (get_sym b j) \<and>
           (case best of None \<Rightarrow> True
            | Some k \<Rightarrow> rel - st_value (get_sym b j) < rel - st_value (get_sym b k))
        then Some j else best)"

definition sym_resolve_addr :: "exec_syms option \<Rightarrow> u32 \<Rightarrow> (u32 \<times> u32) option" where
  "sym_resolve_addr po addr =
     (case po of None \<Rightarrow> None
      | Some p \<Rightarrow>
          if addr < USER_SPACE_START \<or> addr \<ge> KERNEL_BASE then None
          else (case (exec_symtab p, exec_strtab p) of
              (Some symtab, Some strtab) \<Rightarrow>
                let rel = addr - exec_base p
                in (case sym_best symtab rel [0..<unat (exec_symtab_count p)] None of
                      None \<Rightarrow> None
                    | Some best \<Rightarrow> Some (st_name (get_sym symtab best), rel - st_value (get_sym symtab best)))
            | _ \<Rightarrow> None))"

section \<open>Pages\<close>

lemma unat_page_down: "unat (page_down a) = unat a div 4096 * 4096"
proof -
  have "page_down a = push_bit 12 (drop_bit 12 a)"
  proof (rule bit_word_eqI)
    fix n assume "n < LENGTH(32)"
    moreover have "bit (0xFFF :: u32) n = (n < 12)" if "n < 32"
      using that mask_eq_exp_minus_1 [of 12, where ?'a = u32] bit_mask_iff [of 12 n, where ?'a = u32]
      by simp
    ultimately show "bit (page_down a) n = bit (push_bit 12 (drop_bit 12 a)) n"
      by (auto simp: page_down_def bit_simps)
  qed
  moreover have "unat a < 2 ^ LENGTH(32)" by (rule unsigned_less)
  then have "take_bit 32 (push_bit 12 (drop_bit 12 (unat a))) = unat a div 4096 * 4096"
    by (simp add: drop_bit_eq_div push_bit_eq_mult take_bit_nat_eq_self)
  moreover have "take_bit 32 (unat a) = unat a" using \<open>unat a < 2 ^ LENGTH(32)\<close> by (simp add: take_bit_nat_eq_self)
  ultimately show ?thesis by (simp only: unsigned_push_bit_eq unsigned_drop_bit_eq) simp
qed

definition aligned :: "u32 \<Rightarrow> bool" where
  "aligned va = (unat va mod 4096 = 0)"

lemma aligned_page_down [simp]: "aligned (page_down a)"
  by (simp add: aligned_def unat_page_down)

definition user_page :: "u32 \<Rightarrow> bool" where
  "user_page va = (aligned va \<and> PAGE_SIZE \<le> va \<and> unat va + 4096 \<le> unat USER_STACK_TOP \<and>
     (unat va + 4096 \<le> unat RESERVED_END \<or> USER_FRAME_CEIL \<le> va))"

lemma unat_next_page:
  "va < hi \<Longrightarrow> hi \<le> USER_STACK_TOP \<Longrightarrow> unat (va + PAGE_SIZE) = unat va + 4096"
  by (subst unat_add_lem [THEN iffD1]) (simp_all add: word_less_nat_alt word_le_nat_alt)

lemma aligned_next: "aligned va \<Longrightarrow> va < hi \<Longrightarrow> hi \<le> USER_STACK_TOP \<Longrightarrow> aligned (va + PAGE_SIZE)"
  unfolding aligned_def by (simp add: unat_next_page)

lemma next_page_cases:
  assumes "aligned va" "aligned w" "va \<le> w"
  shows "w = va \<or> unat va + 4096 \<le> unat w"
proof -
  obtain m k where "unat va = 4096 * m" "unat w = 4096 * k" using assms(1,2) unfolding aligned_def
    by (meson dvdE mod_0_imp_dvd)
  moreover have "unat va \<le> unat w" using assms(3) by (simp add: word_le_nat_alt)
  ultimately have "unat w = unat va \<or> unat va + 4096 \<le> unat w" by auto
  then show ?thesis by (simp only: word_unat_eq_iff)
qed

lemma seg_pages_nil [simp]: "\<not> va < hi \<Longrightarrow> seg_pages va hi = []"
  by (subst seg_pages.simps) simp

lemma seg_pages_step:
  assumes "va < hi" "hi \<le> USER_STACK_TOP"
  shows "seg_pages va hi = va # seg_pages (va + PAGE_SIZE) hi"
proof -
  have "va < va + PAGE_SIZE" using unat_next_page [OF assms] by (simp only: word_less_nat_alt)
  then show ?thesis by (subst seg_pages.simps) (simp only: assms if_True simp_thms)
qed

text \<open>The loop over the pages of a range visits every page of it once and ends.\<close>
lemma seg_pages_exact:
  assumes "aligned va" "aligned hi" "hi \<le> USER_STACK_TOP"
  shows "set (seg_pages va hi) = {w. aligned w \<and> va \<le> w \<and> w < hi} \<and> distinct (seg_pages va hi)"
  using assms
proof (induction va hi rule: seg_pages.induct)
  case (1 va hi)
  show ?case
  proof (cases "va < hi")
    case False
    then have "{w. aligned w \<and> va \<le> w \<and> w < hi} = {}" by auto
    with False show ?thesis by simp
  next
    case True
    note n = unat_next_page [OF True 1(4)]
    have lt: "va < va + PAGE_SIZE" by (simp only: word_less_nat_alt n)
    have ih: "set (seg_pages (va + PAGE_SIZE) hi) = {w. aligned w \<and> va + PAGE_SIZE \<le> w \<and> w < hi}"
      "distinct (seg_pages (va + PAGE_SIZE) hi)"
      using 1(1) [OF conjI [OF True lt] aligned_next [OF 1(2) True 1(4)] 1(3,4)] by blast+
    have "w = va \<or> va + PAGE_SIZE \<le> w" if "aligned w" "va \<le> w" for w
      using next_page_cases [OF 1(2) that] by (simp only: word_le_nat_alt n)
    moreover have "va \<le> w" if "va + PAGE_SIZE \<le> w" for w using lt that by (rule less_le_trans [THEN less_imp_le])
    ultimately have "{w. aligned w \<and> va \<le> w \<and> w < hi} = insert va {w. aligned w \<and> va + PAGE_SIZE \<le> w \<and> w < hi}"
      using 1(2) True by blast
    moreover have "va \<notin> {w. aligned w \<and> va + PAGE_SIZE \<le> w \<and> w < hi}" using lt by (auto simp only: mem_Collect_eq not_le [symmetric])
    ultimately show ?thesis unfolding seg_pages_step [OF True 1(4)] by (simp only: list.set distinct.simps ih simp_thms)
  qed
qed

lemma elf_seg_okD:
  assumes "elf_seg_ok lo hi"
  shows "lo \<le> hi" "hi \<le> USER_STACK_TOP" "PAGE_SIZE \<le> lo" "USER_FRAME_CEIL \<le> lo \<or> hi \<le> RESERVED_END"
  using assms unfolding elf_seg_ok_def by (simp_all only: not_less split: if_splits) (meson not_less)+

lemma user_page_of_segment:
  assumes ok: "elf_seg_ok lo hi" and al: "aligned lo" "aligned hi" and va: "va \<in> set (seg_pages lo hi)"
  shows "user_page va"
proof -
  note top = elf_seg_okD(2) [OF ok] and lo = elf_seg_okD(3) [OF ok] and gap = elf_seg_okD(4) [OF ok]
  have m: "aligned va" "lo \<le> va" "va < hi" using va seg_pages_exact [OF al top] by auto
  have "va \<noteq> hi" using m(3) by simp
  then have u: "unat va + 4096 \<le> unat hi" using next_page_cases [OF m(1) al(2) less_imp_le [OF m(3)]] by blast
  have "unat hi \<le> unat USER_STACK_TOP" using top by (simp only: word_le_nat_alt)
  moreover have "hi \<le> RESERVED_END \<Longrightarrow> unat hi \<le> unat RESERVED_END" by (simp only: word_le_nat_alt)
  ultimately show ?thesis
    using m(1) order_trans [OF lo m(2)] gap u order_trans [OF _ m(2)] unfolding user_page_def by (meson order_trans)
qed
section \<open>What reaches the memory manager\<close>

text \<open>
  A page that is mapped makes three calls in a row: its frame is taken, tracked, and entered in the
  page table. A page that fails ends the loading with the calls of one of the four tails.
\<close>

type_synonym elf_map = "Elf32_Phdr \<times> u32 \<times> u32"

abbreviation map_va :: "elf_map \<Rightarrow> u32" where "map_va x \<equiv> fst (snd x)"
abbreviation map_frame :: "elf_map \<Rightarrow> u32" where "map_frame x \<equiv> snd (snd x)"

definition page_calls :: "u32 \<times> u32 \<Rightarrow> elf_call list" where
  "page_calls x = [Kalloc (snd x), Tracker_add (snd x), Vmm_map (fst x) (snd x)]"

definition stop_calls :: "elf_call list \<Rightarrow> bool" where
  "stop_calls t = (t = [] \<or> t = [Kalloc 0] \<or>
     (\<exists>p. p \<noteq> 0 \<and> (t = [Kalloc p, Free_page p] \<or> t = [Kalloc p, Tracker_add p])))"

text \<open>The frame of a page after the copy, from a cleared frame.\<close>
definition page_image :: "elf_file \<Rightarrow> Elf32_Phdr \<Rightarrow> u32 \<Rightarrow> bytes" where
  "page_image f ph va = snd (copy_page f ph va (replicate 4096 0))"

definition put_image :: "elf_file \<Rightarrow> elf_map \<Rightarrow> (u32 \<Rightarrow> bytes) \<Rightarrow> u32 \<Rightarrow> bytes" where
  "put_image f x m = m(map_frame x := page_image f (fst x) (map_va x))"

definition loads :: "elf_env \<Rightarrow> elf_file \<Rightarrow> elf_state \<Rightarrow> elf_map list \<Rightarrow> elf_state \<Rightarrow> bool" where
  "loads ev f s vs s' =
     (es_page_dir s' = es_page_dir s \<and>
      es_calls s' = es_calls s @ concat (map (page_calls \<circ> snd) vs) \<and>
      es_n s' = es_n s + length vs \<and>
      map map_frame vs = map (ev_kalloc ev) [es_n s..<es_n s + length vs] \<and>
      0 \<notin> map_frame ` set vs \<and>
      es_frames s' = fold (put_image f) vs (es_frames s))"

definition stops :: "elf_state \<Rightarrow> (u32 \<times> u32) list \<Rightarrow> elf_state \<Rightarrow> bool" where
  "stops s vs s' = (es_page_dir s' = es_page_dir s \<and> (\<exists>t. stop_calls t \<and> es_calls s' = es_calls s @ concat (map page_calls vs) @ t))"

lemma call_sel [simp]:
  "es_calls (call c s) = es_calls s @ [c]" "es_n (call c s) = es_n s" "es_frames (call c s) = es_frames s"
  "es_page_dir (call c s) = es_page_dir s"
  by (simp_all add: call_def)

lemma loads_nil [simp]: "loads ev f s [] s' = (es_page_dir s' = es_page_dir s \<and> es_calls s' = es_calls s \<and> es_n s' = es_n s \<and> es_frames s' = es_frames s)"
  by (simp add: loads_def)

lemma loads_trans:
  assumes "loads ev f s vs s1" "loads ev f s1 ws s2" shows "loads ev f s (vs @ ws) s2"
proof -
  have "[es_n s..<es_n s + length (vs @ ws)] =
        [es_n s..<es_n s + length vs] @ [es_n s + length vs..<es_n s + length vs + length ws]"
    using upt_add_eq_append [of "es_n s" "es_n s + length vs" "length ws"] by (simp add: add.assoc)
  then show ?thesis using assms unfolding loads_def by (simp add: add.assoc image_Un)
qed

lemma loads_stops:
  assumes "loads ev f s vs s1" "stops s1 ws s2" shows "stops s (map snd vs @ ws) s2"
  using assms unfolding loads_def stops_def by auto

lemma new_page_some:
  assumes "new_page ev s = (Some phys, s1)"
  shows "phys = ev_kalloc ev (es_n s)" "phys \<noteq> 0" "es_n s1 = Suc (es_n s)"
    "es_calls s1 = es_calls s @ [Kalloc phys, Tracker_add phys]"
    "es_frames s1 = (es_frames s)(phys := replicate 4096 0)" "es_page_dir s1 = es_page_dir s"
  using assms by (auto simp: new_page_def Let_def split: if_splits)

lemma stop_calls_intros:
  "stop_calls []" "stop_calls [Kalloc 0]" "p \<noteq> 0 \<Longrightarrow> stop_calls [Kalloc p, Free_page p]"
  "p \<noteq> 0 \<Longrightarrow> stop_calls [Kalloc p, Tracker_add p]"
  unfolding stop_calls_def by blast+

lemma stopsI:
  "es_calls s' = es_calls s @ t \<Longrightarrow> stop_calls t \<Longrightarrow> es_page_dir s' = es_page_dir s \<Longrightarrow> stops s [] s'"
  unfolding stops_def by (rule conjI, assumption, rule exI [of _ t]) simp

lemma new_page_none:
  assumes "new_page ev s = (None, s1)" shows "stops s [] s1"
proof -
  have d: "es_page_dir s1 = es_page_dir s" using assms by (auto simp: new_page_def Let_def split: if_splits)
  show ?thesis
  proof (cases "ev_kalloc ev (es_n s) = 0")
    case True
    then have "es_calls s1 = es_calls s @ [Kalloc 0]" using assms by (auto simp: new_page_def Let_def)
    then show ?thesis using stop_calls_intros(2) d by (rule stopsI)
  next
    case False
    then have "es_calls s1 = es_calls s @ [Kalloc (ev_kalloc ev (es_n s)), Free_page (ev_kalloc ev (es_n s))]"
      using assms by (auto simp: new_page_def Let_def split: if_splits)
    then show ?thesis using stop_calls_intros(3) [OF False] d by (rule stopsI)
  qed
qed

lemma new_page_stop:
  assumes "new_page ev s = (Some phys, s1)" "es_calls s2 = es_calls s1" "es_page_dir s2 = es_page_dir s1"
  shows "stops s [] s2"
proof (rule stopsI)
  show "es_calls s2 = es_calls s @ [Kalloc phys, Tracker_add phys]" using new_page_some(4) [OF assms(1)] assms(2) by simp
  show "stop_calls [Kalloc phys, Tracker_add phys]" using new_page_some(2) [OF assms(1)] by (rule stop_calls_intros)
  show "es_page_dir s2 = es_page_dir s" using new_page_some(6) [OF assms(1)] assms(3) by simp
qed

lemma map_page_ok:
  assumes "map_page ev f ph va s = (True, s')"
  shows "\<exists>p. loads ev f s [(ph, va, p)] s'"
proof -
  obtain phys s1 where n: "new_page ev s = (Some phys, s1)"
    using assms by (auto simp: map_page_def split: prod.splits option.splits)
  note p = new_page_some [OF n]
  have "s' = call (Vmm_map va phys) (s1\<lparr> es_frames := (es_frames s1)(phys := page_image f ph va) \<rparr>)"
    using assms n p(5) by (auto simp: map_page_def page_image_def Let_def split: prod.splits if_splits)
  then show ?thesis using p
    by (intro exI [of _ phys]) (simp add: loads_def page_calls_def put_image_def)
qed

lemma map_page_fail:
  assumes "map_page ev f ph va s = (False, s')" shows "stops s [] s'"
proof (cases "new_page ev s")
  case (Pair r s1)
  show ?thesis
  proof (cases r)
    case None
    with assms Pair show ?thesis by (auto simp: map_page_def intro: new_page_none)
  next
    case (Some phys)
    then have "es_calls s' = es_calls s1" "es_page_dir s' = es_page_dir s1"
      using assms Pair by (auto simp: map_page_def Let_def split: prod.splits if_splits)
    with new_page_stop [OF Pair [unfolded Some]] show ?thesis by blast
  qed
qed

lemma map_pages_ok:
  assumes "map_pages ev f ph vas s = (True, s')"
  shows "\<exists>vs. loads ev f s vs s' \<and> map (\<lambda>x. (fst x, map_va x)) vs = map (Pair ph) vas"
  using assms
proof (induction vas arbitrary: s)
  case (Cons va vas)
  obtain s1 where m: "map_page ev f ph va s = (True, s1)" and r: "map_pages ev f ph vas s1 = (True, s')"
    using Cons.prems by (auto split: prod.splits bool.splits)
  obtain p where "loads ev f s [(ph, va, p)] s1" using map_page_ok [OF m] ..
  moreover obtain vs where "loads ev f s1 vs s'" "map (\<lambda>x. (fst x, map_va x)) vs = map (Pair ph) vas"
    using Cons.IH [OF r] by blast
  ultimately show ?case by (intro exI [of _ "(ph, va, p) # vs"]) (use loads_trans in fastforce)
qed simp

lemma map_pages_fail:
  assumes "map_pages ev f ph vas s = (False, s')"
  shows "\<exists>vs. stops s vs s' \<and> fst ` set vs \<subseteq> set vas \<and> 0 \<notin> snd ` set vs"
  using assms
proof (induction vas arbitrary: s)
  case (Cons va vas)
  show ?case
  proof (cases "map_page ev f ph va s")
    case (Pair ok s1)
    show ?thesis
    proof (cases ok)
      case False
      then have "stops s [] s'" using Cons.prems Pair map_page_fail by auto
      then show ?thesis by (intro exI [of _ "[]"]) simp
    next
      case True
      then obtain p where l: "loads ev f s [(ph, va, p)] s1" using Pair map_page_ok by fastforce
      then have "p \<noteq> 0" by (auto simp: loads_def)
      moreover obtain vs where "stops s1 vs s'" "fst ` set vs \<subseteq> set vas" "0 \<notin> snd ` set vs"
        using Cons.IH [of s1] Cons.prems True Pair by auto
      ultimately show ?thesis
        using loads_stops [OF l] by (intro exI [of _ "(va, p) # vs"]) auto
    qed
  qed
qed simp
text \<open>The pages of a segment, and the outcome of the loop over the program headers.\<close>

definition seg_maps :: "Elf32_Phdr \<Rightarrow> (Elf32_Phdr \<times> u32) list" where
  "seg_maps ph = (if loadable ph then map (Pair ph) (seg_pages (seg_start ph) (seg_end ph)) else [])"

definition seg_fits :: "Elf32_Phdr \<Rightarrow> bool" where
  "seg_fits ph = (loadable ph \<longrightarrow> elf_seg_ok (seg_start ph) (seg_end ph))"

definition user_maps :: "(u32 \<times> u32) list \<Rightarrow> bool" where
  "user_maps vs = list_all (\<lambda>(va, p). user_page va \<and> p \<noteq> 0) vs"

lemma user_maps_append [simp]: "user_maps (vs @ ws) = (user_maps vs \<and> user_maps ws)"
  by (simp add: user_maps_def)

lemma user_maps_nil [simp]: "user_maps []"
  by (simp add: user_maps_def)

lemma aligned_seg [simp]: "aligned (seg_start ph)" "aligned (seg_end ph)"
  by (simp_all add: seg_start_def seg_end_def)

lemma seg_maps_user:
  assumes "(ph, va) \<in> set (seg_maps ph')" "seg_fits ph'" shows "user_page va"
  using assms user_page_of_segment [of "seg_start ph'" "seg_end ph'" va]
  by (auto simp: seg_maps_def seg_fits_def split: if_splits)

lemma load_segment_ok:
  assumes "load_segment ev pass f hdr i s = (Some ph, s')"
  shows "read_phdr ev pass f hdr i = Some ph" "seg_fits ph"
    "\<exists>vs. loads ev f s vs s' \<and> map (\<lambda>x. (fst x, map_va x)) vs = seg_maps ph"
proof -
  show r: "read_phdr ev pass f hdr i = Some ph"
    using assms by (auto simp: load_segment_def split: option.splits if_splits prod.splits)
  show "seg_fits ph"
    using assms r by (auto simp: load_segment_def seg_fits_def split: if_splits)
  show "\<exists>vs. loads ev f s vs s' \<and> map (\<lambda>x. (fst x, map_va x)) vs = seg_maps ph"
  proof (cases "loadable ph")
    case False
    then have "s' = s" using assms r by (simp add: load_segment_def)
    with False show ?thesis by (intro exI [of _ "[]"]) (simp add: seg_maps_def)
  next
    case True
    then have "map_pages ev f ph (seg_pages (seg_start ph) (seg_end ph)) s = (True, s')"
      using assms r by (auto simp: load_segment_def split: if_splits prod.splits)
    from map_pages_ok [OF this] True show ?thesis by (simp add: seg_maps_def)
  qed
qed

lemma loads_user:
  assumes "loads ev f s vs s'" "map (\<lambda>x. (fst x, map_va x)) vs = seg_maps ph" "seg_fits ph"
  shows "user_maps (map snd vs)"
proof -
  have "user_page (map_va x) \<and> map_frame x \<noteq> 0" if "x \<in> set vs" for x
  proof -
    have "(fst x, map_va x) \<in> (\<lambda>x. (fst x, map_va x)) ` set vs" using that by (rule imageI)
    then have "(fst x, map_va x) \<in> set (seg_maps ph)" unfolding assms(2) [symmetric] by (simp only: set_map)
    then have "user_page (map_va x)" using assms(3) by (rule seg_maps_user)
    moreover have "map_frame x \<noteq> 0" using assms(1) imageI [OF that, of map_frame] unfolding loads_def by metis
    ultimately show ?thesis ..
  qed
  then show ?thesis by (auto simp: user_maps_def list_all_iff)
qed

lemma load_segment_fail:
  assumes "load_segment ev pass f hdr i s = (None, s')"
  shows "\<exists>vs. stops s vs s' \<and> user_maps vs"
proof (cases "s' = s")
  case True
  then show ?thesis by (intro exI [of _ "[]"]) (simp add: stops_def stop_calls_intros)
next
  case False
  obtain ph where r: "read_phdr ev pass f hdr i = Some ph"
    using assms False by (auto simp: load_segment_def split: option.splits)
  have ok: "elf_seg_ok (seg_start ph) (seg_end ph)"
    and m: "map_pages ev f ph (seg_pages (seg_start ph) (seg_end ph)) s = (False, s')"
    using assms False r by (auto simp: load_segment_def split: if_splits prod.splits)
  obtain vs where vs: "stops s vs s'" "fst ` set vs \<subseteq> set (seg_pages (seg_start ph) (seg_end ph))" "0 \<notin> snd ` set vs"
    using map_pages_fail [OF m] by blast
  have "user_maps vs" unfolding user_maps_def list_all_iff
    using vs(2,3) user_page_of_segment [OF ok aligned_seg] by force
  with vs(1) show ?thesis by blast
qed

lemma load_segments_ok:
  assumes "load_segments ev pass f hdr is s = (Some phs, s')"
  shows "map Some phs = map (read_phdr ev pass f hdr) is \<and> list_all seg_fits phs \<and>
    (\<exists>vs. loads ev f s vs s' \<and> map (\<lambda>x. (fst x, map_va x)) vs = concat (map seg_maps phs) \<and> user_maps (map snd vs))"
  using assms
proof (induction "is" arbitrary: s phs)
  case (Cons i "is")
  obtain ph s1 ps where l: "load_segment ev pass f hdr i s = (Some ph, s1)"
    and r: "load_segments ev pass f hdr is s1 = (Some ps, s')" and phs: "phs = ph # ps"
    using Cons.prems by (auto split: prod.splits option.splits)
  note seg = load_segment_ok [OF l] and ih = Cons.IH [OF r]
  obtain vs where vs: "loads ev f s vs s1" "map (\<lambda>x. (fst x, map_va x)) vs = seg_maps ph" using seg(3) by blast
  obtain ws where ws: "loads ev f s1 ws s'" "map (\<lambda>x. (fst x, map_va x)) ws = concat (map seg_maps ps)"
    "user_maps (map snd ws)" using ih by blast
  have "loads ev f s (vs @ ws) s' \<and> map (\<lambda>x. (fst x, map_va x)) (vs @ ws) = concat (map seg_maps phs) \<and>
      user_maps (map snd (vs @ ws))"
    using loads_trans [OF vs(1) ws(1)] vs(2) ws(2,3) loads_user [OF vs seg(2)] phs by simp
  moreover have "map Some phs = map (read_phdr ev pass f hdr) (i # is)" "list_all seg_fits phs"
    using seg(1,2) ih phs by simp_all
  ultimately show ?case by blast
qed auto

lemma load_segments_fail:
  assumes "load_segments ev pass f hdr is s = (None, s')"
  shows "\<exists>vs. stops s vs s' \<and> user_maps vs"
  using assms
proof (induction "is" arbitrary: s)
  case (Cons i "is")
  show ?case
  proof (cases "load_segment ev pass f hdr i s")
    case (Pair r s1)
    show ?thesis
    proof (cases r)
      case None
      with Cons.prems Pair load_segment_fail show ?thesis by auto
    next
      case (Some ph)
      then have l: "load_segment ev pass f hdr i s = (Some ph, s1)" using Pair by simp
      obtain vs where vs: "loads ev f s vs s1" "map (\<lambda>x. (fst x, map_va x)) vs = seg_maps ph"
        using load_segment_ok(3) [OF l] by blast
      have "load_segments ev pass f hdr is s1 = (None, s')"
        using Cons.prems l by (auto split: prod.splits option.splits)
      then obtain ws where "stops s1 ws s'" "user_maps ws" using Cons.IH by blast
      then show ?thesis
        using loads_stops [OF vs(1)] loads_user [OF vs load_segment_ok(2) [OF l]]
        by (intro exI [of _ "map snd vs @ ws"]) simp
    qed
  qed
qed simp
lemma load_elf_calls:
  assumes "load_elf ev pd fo s = (r, s')"
  shows "\<exists>vs t. es_calls s' = es_calls s @ concat (map page_calls vs) @ t \<and> user_maps vs \<and>
    (t = [] \<and> (vs = [] \<or> (\<exists>f hdr. fo = Some f \<and> read_ehdr ev f = Some hdr \<and> r = e_entry hdr)) \<or>
     r = 0 \<and> (\<exists>u. stop_calls u \<and> t = u @ [Proc_free_pages pd]))"
proof (cases "s' = s\<lparr> es_page_dir := pd \<rparr>")
  case True
  then show ?thesis by (intro exI [of _ "[]"]) simp
next
  case False
  let ?s = "s\<lparr> es_page_dir := pd \<rparr>"
  obtain f hdr where h: "fo = Some f" "read_ehdr ev f = Some hdr" "elf_hdr_ok f hdr"
    using assms False by (auto simp: load_elf_def Let_def split: option.splits if_splits)
  obtain o1 s1 where l: "load_segments ev 1 f hdr [0..<unat (e_phnum hdr)] ?s = (o1, s1)" by fastforce
  show ?thesis
  proof (cases o1)
    case None
    obtain vs t where "user_maps vs" "stop_calls t" "es_page_dir s1 = pd"
      "es_calls s1 = es_calls s @ concat (map page_calls vs) @ t"
      using load_segments_fail [OF l [unfolded None]] by (auto simp: stops_def)
    then show ?thesis using assms h l None
      by (intro exI [of _ vs] exI [of _ "t @ [Proc_free_pages pd]"]) (auto simp: load_elf_def Let_def proc_free_pages_def)
  next
    case (Some phs)
    obtain vs where "loads ev f ?s vs s1" "user_maps (map snd vs)"
      using load_segments_ok [OF l [unfolded Some]] by blast
    then show ?thesis using assms h l Some
      by (intro exI [of _ "map snd vs"] exI [of _ "[]"]) (auto simp: load_elf_def Let_def loads_def)
  qed
qed

text \<open>The page for the program headers lies one page below a page of the image.\<close>

definition header_page :: "u32 \<Rightarrow> bool" where
  "header_page va = user_page (va + PAGE_SIZE)"

definition image_maps :: "(u32 \<times> u32) list \<Rightarrow> bool" where
  "image_maps vs = list_all (\<lambda>(va, p). (user_page va \<or> header_page va) \<and> p \<noteq> 0) vs"

lemma image_maps_append [simp]: "image_maps (vs @ ws) = (image_maps vs \<and> image_maps ws)"
  by (simp add: image_maps_def)

lemma user_image_maps: "user_maps vs \<Longrightarrow> image_maps vs"
  by (auto simp: image_maps_def user_maps_def list_all_iff)

lemma unat_round_up:
  assumes "0 < unat v" "unat v + 4095 < 2 ^ 32"
  shows "unat v \<le> unat (page_down (v + 0xFFF))"
proof -
  have "unat (v + 0xFFF) = unat v + 4095"
    using assms(2) by (subst unat_add_lem [THEN iffD1]) simp_all
  then show ?thesis by (simp only: unat_page_down)
qed

lemma round_up_wraps:
  assumes "2 ^ 32 \<le> unat v + 4095" shows "unat (page_down (v + 0xFFF)) = 0"
proof -
  have lt: "unat v < 2 ^ LENGTH(32)" by (rule unsigned_less)
  have "unat (v + 0xFFF) = (unat v + 4095) mod 2 ^ 32" by (simp only: unat_word_ariths) simp
  also have "\<dots> = (unat v + 4095 - 2 ^ 32) mod 2 ^ 32" using assms by (rule le_mod_geq)
  also have "\<dots> < 4096" by (rule order_le_less_trans [OF mod_less_eq_dividend]) (use lt in simp)
  finally show ?thesis by (simp only: unat_page_down) simp
qed

lemma seg_no_wrap:
  assumes ok: "elf_seg_ok (seg_start ph) (seg_end ph)"
  shows "unat (p_vaddr ph + p_memsz ph) + 4095 < 2 ^ 32"
proof (rule ccontr)
  assume "\<not> ?thesis"
  then have "unat (seg_end ph) = 0" unfolding seg_end_def by (intro round_up_wraps) simp
  moreover have "unat PAGE_SIZE \<le> unat (seg_end ph)"
    using order_trans [OF elf_seg_okD(3,1) [OF ok]] by (simp only: word_le_nat_alt)
  ultimately show False by simp
qed

lemma seg_end_covers:
  assumes m: "p_memsz ph \<noteq> 0" "\<not> p_vaddr ph + p_memsz ph < p_vaddr ph"
    and ok: "elf_seg_ok (seg_start ph) (seg_end ph)"
  shows "unat (p_vaddr ph) < unat (p_vaddr ph + p_memsz ph)" "unat (p_vaddr ph + p_memsz ph) \<le> unat (seg_end ph)"
proof -
  let ?e = "p_vaddr ph + p_memsz ph"
  have "p_vaddr ph \<noteq> ?e" using m(1) by simp
  then have "p_vaddr ph < ?e" using leI [OF m(2)] by (simp only: order.strict_iff_order simp_thms)
  then show e: "unat (p_vaddr ph) < unat ?e" by (simp only: word_less_nat_alt)
  show "unat ?e \<le> unat (seg_end ph)" using unat_round_up [OF _ seg_no_wrap [OF ok]] e by (simp add: seg_end_def)
qed

lemma seg_start_le: "unat (seg_start ph) \<le> unat (p_vaddr ph)"
  by (simp add: seg_start_def unat_page_down)

lemma user_page_seg_start:
  assumes m: "p_memsz ph \<noteq> 0" "\<not> p_vaddr ph + p_memsz ph < p_vaddr ph"
    and ok: "elf_seg_ok (seg_start ph) (seg_end ph)"
  shows "user_page (seg_start ph)"
proof -
  have "unat (seg_start ph) < unat (seg_end ph)" using seg_end_covers [OF m ok] seg_start_le [of ph] by linarith
  then have "seg_start ph < seg_end ph" by (simp only: word_less_nat_alt)
  then have "seg_start ph \<in> set (seg_pages (seg_start ph) (seg_end ph))"
    using seg_pages_step [OF _ elf_seg_okD(2) [OF ok]] by (metis list.set_intros(1))
  with user_page_of_segment [OF ok aligned_seg] show ?thesis by blast
qed

lemma scan_segments_user:
  assumes "scan_segments ev f hdr is m = Some m'" "m = 0xFFFFFFFF \<or> user_page m"
  shows "m' = 0xFFFFFFFF \<or> user_page m'"
  using assms
proof (induction "is" arbitrary: m)
  case (Cons i "is")
  obtain ph where r: "read_phdr ev 1 f hdr i = Some ph" using Cons.prems(1) by (auto split: option.splits)
  show ?case
  proof (cases "p_type ph \<noteq> PT_LOAD \<or> p_memsz ph = 0")
    case True
    then have "scan_segments ev f hdr is m = Some m'" using Cons.prems(1) r by simp
    then show ?thesis using Cons.prems(2) by (rule Cons.IH)
  next
    case False
    then have ok: "\<not> p_vaddr ph + p_memsz ph < p_vaddr ph" "elf_seg_ok (seg_start ph) (seg_end ph)"
      and s: "scan_segments ev f hdr is (if seg_start ph < m then seg_start ph else m) = Some m'"
      using Cons.prems(1) r by (simp_all split: if_splits)
    have "user_page (seg_start ph)" using user_page_seg_start ok False by blast
    then show ?thesis using Cons.IH [OF s] Cons.prems(2) by (simp split: if_splits)
  qed
qed simp
definition runs :: "elf_state \<Rightarrow> (u32 \<times> u32) list \<Rightarrow> elf_state \<Rightarrow> bool" where
  "runs s vs s' = (es_page_dir s' = es_page_dir s \<and> es_calls s' = es_calls s @ concat (map page_calls vs))"

lemma runs_trans: "runs s vs s1 \<Longrightarrow> runs s1 ws s2 \<Longrightarrow> runs s (vs @ ws) s2"
  by (simp add: runs_def)

lemma runs_stops: "runs s vs s1 \<Longrightarrow> stops s1 ws s2 \<Longrightarrow> stops s (vs @ ws) s2"
  by (auto simp: runs_def stops_def)

lemma loads_runs: "loads ev f s vs s' \<Longrightarrow> runs s (map snd vs) s'"
  by (simp add: loads_def runs_def)

lemma map_phdr_page_ok:
  assumes "map_phdr_page ev f hdr m s = (Some v, s')" "user_page m"
  shows "\<exists>vs. runs s vs s' \<and> image_maps vs"
proof -
  obtain phys s1 where n: "new_page ev s = (Some phys, s1)"
    using assms(1) by (auto simp: map_phdr_page_def Let_def split: prod.splits option.splits)
  note p = new_page_some [OF n]
  have "es_calls s' = es_calls s1 @ [Vmm_map (m - 0x1000) phys]" "es_page_dir s' = es_page_dir s1"
    using assms(1) n by (auto simp: map_phdr_page_def Let_def split: if_splits)
  then have "runs s [(m - 0x1000, phys)] s'" using p by (simp add: runs_def page_calls_def)
  moreover have "image_maps [(m - 0x1000, phys)]" using assms(2) p(2) by (simp add: image_maps_def header_page_def)
  ultimately show ?thesis by blast
qed

lemma map_phdr_page_fail:
  assumes "map_phdr_page ev f hdr m s = (None, s')" shows "stops s [] s'"
proof (cases "new_page ev s")
  case (Pair r s1)
  show ?thesis
  proof (cases r)
    case None
    with assms Pair show ?thesis by (auto simp: map_phdr_page_def Let_def intro: new_page_none)
  next
    case (Some phys)
    then have "es_calls s' = es_calls s1" "es_page_dir s' = es_page_dir s1"
      using assms Pair by (auto simp: map_phdr_page_def Let_def split: if_splits)
    with new_page_stop [OF Pair [unfolded Some]] show ?thesis by blast
  qed
qed

definition image_outcome :: "bool \<Rightarrow> elf_state \<Rightarrow> elf_state \<Rightarrow> bool" where
  "image_outcome ok s s' = (\<exists>vs. (if ok then runs s vs s' else stops s vs s') \<and> image_maps vs)"

lemma image_outcome_refl: "image_outcome False s s"
  unfolding image_outcome_def by (rule exI [of _ "[]"]) (simp add: stops_def stop_calls_intros image_maps_def)

lemma image_outcome_trans:
  assumes "image_outcome True s s1" "image_outcome ok s1 s2" shows "image_outcome ok s s2"
proof -
  obtain vs where "runs s vs s1" "image_maps vs" using assms(1) by (auto simp: image_outcome_def)
  moreover obtain ws where "if ok then runs s1 ws s2 else stops s1 ws s2" "image_maps ws"
    using assms(2) unfolding image_outcome_def by blast
  ultimately have "(if ok then runs s (vs @ ws) s2 else stops s (vs @ ws) s2) \<and> image_maps (vs @ ws)"
    using runs_trans runs_stops by (cases ok) simp_all
  then show ?thesis unfolding image_outcome_def by (rule exI)
qed

lemma load_segments_outcome:
  assumes "load_segments ev pass f hdr is s = (r, s')" shows "image_outcome (r \<noteq> None) s s'"
proof (cases r)
  case None
  with assms load_segments_fail user_image_maps show ?thesis unfolding image_outcome_def by fastforce
next
  case (Some phs)
  with assms load_segments_ok [of ev pass f hdr "is" s phs s'] loads_runs user_image_maps show ?thesis
    unfolding image_outcome_def by fastforce
qed

lemma map_phdr_page_outcome:
  assumes "map_phdr_page ev f hdr m s = (r, s')" "user_page m" shows "image_outcome (r \<noteq> None) s s'"
proof (cases r)
  case None
  then have "stops s [] s'" using assms(1) map_phdr_page_fail by simp
  with None show ?thesis unfolding image_outcome_def by (intro exI [of _ "[]"]) (simp add: image_maps_def)
next
  case (Some v)
  with assms map_phdr_page_ok show ?thesis unfolding image_outcome_def by fastforce
qed

lemma map_image_outcome:
  assumes "map_image ev f s = (r, s')" shows "image_outcome (r \<noteq> None) s s'"
proof (cases "r = None \<and> s' = s")
  case True
  then show ?thesis by (simp add: image_outcome_refl)
next
  case False
  obtain hdr m where h: "read_ehdr ev f = Some hdr" "elf_hdr_ok f hdr"
    and m: "scan_segments ev f hdr [0..<unat (e_phnum hdr)] 0xFFFFFFFF = Some m" "m \<noteq> 0xFFFFFFFF" "\<not> m < PAGE_SIZE"
    using assms False unfolding map_image_def by (auto split: option.splits if_splits)
  have u: "user_page m" using scan_segments_user [OF m(1)] m(2) by blast
  obtain o1 s1 where l: "load_segments ev 2 f hdr [0..<unat (e_phnum hdr)] s = (o1, s1)" by fastforce
  note lo = load_segments_outcome [OF l]
  show ?thesis
  proof (cases "o1 = None \<or> (\<exists>phs v. o1 = Some phs \<and> phdr_covered hdr phs = Some v)")
    case True
    then have "s' = s1 \<and> (r = None) = (o1 = None)"
      using assms h m l unfolding map_image_def by auto
    with lo show ?thesis by simp
  next
    case False
    then obtain phs where p: "o1 = Some phs" "phdr_covered hdr phs = None" by fastforce
    obtain o2 s2 where q: "map_phdr_page ev f hdr m s1 = (o2, s2)" by fastforce
    have "s' = s2 \<and> (r = None) = (o2 = None)"
      using assms h m l p q unfolding map_image_def by (auto split: option.splits)
    with image_outcome_trans [of s s1 "o2 \<noteq> None" s2] lo p map_phdr_page_outcome [OF q u] show ?thesis by simp
  qed
qed

lemma map_image_base: "map_image ev f s = (Some n, s') \<Longrightarrow> fst (snd n) \<noteq> 0"
  unfolding map_image_def by (auto split: option.splits if_splits prod.splits)

lemma load_elf_interp_calls:
  assumes "load_elf_interp ev ev' main interp s = (r, info, s')"
  shows "\<exists>vs t. es_calls s' = es_calls s @ concat (map page_calls vs) @ t \<and> image_maps vs \<and>
    (t = [] \<and> (vs = [] \<or> interp_base info \<noteq> 0) \<or>
     r = 0 \<and> (\<exists>u. stop_calls u \<and> t = u @ [Proc_free_pages (es_page_dir s)]))"
proof -
  have fin: ?thesis if out: "image_outcome False s s1" and s': "s' = proc_free_pages s1" "r = 0" for s1
  proof -
    obtain vs u where "image_maps vs" "stop_calls u" "es_page_dir s1 = es_page_dir s"
      "es_calls s1 = es_calls s @ concat (map page_calls vs) @ u"
      using out by (auto simp: image_outcome_def stops_def)
    with s' show ?thesis
      by (intro exI [of _ vs] exI [of _ "u @ [Proc_free_pages (es_page_dir s)]"]) (simp add: proc_free_pages_def)
  qed
  have okay: ?thesis if "image_outcome True s s'" "interp_base info \<noteq> 0"
    using that by (fastforce simp: image_outcome_def runs_def)
  consider (none) "main = None \<or> interp = None" | (both) mf f where "main = Some mf" "interp = Some f" by fastforce
  then show ?thesis
  proof cases
    case none
    then have "s' = s" using assms by (auto simp: load_elf_interp_def Let_def split: option.splits)
    then show ?thesis by (intro exI [of _ "[]"]) (simp add: image_maps_def)
  next
    case both
    obtain o1 s1 o2 s2 where i: "map_image ev mf s = (o1, s1)" "map_image ev' f s1 = (o2, s2)" by fastforce
    note out = map_image_outcome [OF i(1)] map_image_outcome [OF i(2)]
    show ?thesis
    proof (cases o1)
      case None
      then have "s' = proc_free_pages s1" "r = 0" using assms both i by (auto simp: load_elf_interp_def Let_def)
      with fin out(1) None show ?thesis by simp
    next
      case (Some m)
      note tr = image_outcome_trans [OF out(1) [unfolded Some, simplified] out(2)]
      show ?thesis
      proof (cases o2)
        case None
        then have "s' = proc_free_pages s2" "r = 0"
          using assms both i Some by (auto simp: load_elf_interp_def Let_def split: prod.splits)
        with fin tr None show ?thesis by simp
      next
        case (Some n)
        with \<open>o1 = Some m\<close> have "s' = s2" "interp_base info = fst (snd n)"
          using assms both i by (auto simp: load_elf_interp_def Let_def split: prod.splits)
        moreover have "fst (snd n) \<noteq> 0" using map_image_base [OF i(2) [unfolded Some]] .
        ultimately show ?thesis using okay tr Some by simp
      qed
    qed
  qed
qed
section \<open>Interpreter path and heap\<close>

lemma length_buf_put: "off + length bs \<le> length b \<Longrightarrow> length (buf_put b off bs) = length b"
  by (simp add: buf_put_def)

text \<open>The path is terminated inside the caller's buffer, whatever number the read reports.\<close>
lemma find_interp_bounds:
  assumes "find_interp ev f hdr is out out_max = (n, out')" "length out = nat out_max" "0 < out_max" "out_max < 2 ^ 31"
  shows "length out' = length out \<and> (n = -1 \<or> 0 \<le> n \<and> n < out_max \<and> out' ! nat n = 0)"
  using assms(1)
proof (induction "is")
  case (Cons i "is")
  show ?case
  proof (cases "read_phdr ev 1 f hdr i")
    case None
    then show ?thesis using Cons.prems by simp
  next
    case (Some ph)
    consider (skip) "p_type ph \<noteq> PT_INTERP" | (bad) "p_type ph = PT_INTERP" "p_filesz ph = 0 \<or> p_filesz ph > word_of_int out_max"
      | (found) "p_type ph = PT_INTERP" "p_filesz ph \<noteq> 0" "p_filesz ph \<le> word_of_int out_max" by fastforce
    then show ?thesis
    proof cases
      case skip
      then show ?thesis using Cons Some by simp
    next
      case bad
      then show ?thesis using Cons.prems Some by auto
    next
      case found
      obtain r bs where rd: "vf_read f (p_offset ph) (p_filesz ph) = (r, bs)" by fastforce
      have "unat (word_of_int out_max :: u32) = nat out_max" using assms(3,4) by (simp add: unsigned_of_int take_bit_int_eq_self)
      then have "unat (p_filesz ph) \<le> length out" using found(3) assms(2) by (simp add: word_le_nat_alt)
      then have len: "length (buf_put out 0 (take (unat (p_filesz ph)) bs)) = length out"
        by (intro length_buf_put) simp
      show ?thesis using Cons.prems Some found rd len assms(2,3)
        by (auto simp: read_into_def Let_def not_less split: if_splits)
    qed
  qed
qed simp

lemma interp_path_bounds:
  assumes "elf_get_interp_path ev fo out out_max = (n, out')" "length out = nat out_max" "out_max < 2 ^ 31"
  shows "length out' = length out \<and> (n = -1 \<or> 0 \<le> n \<and> n < out_max \<and> out' ! nat n = 0)"
proof (cases "n = -1 \<and> out' = out")
  case False
  then obtain f hdr where "0 < out_max" "find_interp ev f hdr [0..<unat (e_phnum hdr)] out out_max = (n, out')"
    using assms(1) by (auto simp: elf_get_interp_path_def split: if_splits option.splits)
  then show ?thesis using find_interp_bounds assms(2,3) by blast
qed simp

lemma brk_scan_ge: "highest \<le> brk_scan ev f hdr is highest"
proof (induction "is" arbitrary: highest)
  case (Cons i "is")
  then show ?case by (auto split: option.splits intro: order_trans [OF less_imp_le])
qed simp

definition brk_counts :: "Elf32_Phdr \<Rightarrow> bool" where
  "brk_counts ph = (p_type ph = PT_LOAD \<and> \<not> p_vaddr ph + p_memsz ph < p_vaddr ph \<and> elf_seg_ok (seg_start ph) (seg_end ph))"

lemma brk_scan_cons:
  assumes "read_phdr ev 1 f hdr i = Some ph"
  shows "brk_scan ev f hdr (i # is) highest = brk_scan ev f hdr is (if brk_counts ph \<and> highest < p_vaddr ph + p_memsz ph
    then p_vaddr ph + p_memsz ph else highest)"
  using assms by (auto simp: brk_counts_def)

lemma brk_scan_covers:
  assumes "\<And>j. j \<in> set is \<Longrightarrow> read_phdr ev 1 f hdr j \<noteq> None"
    "i \<in> set is" "read_phdr ev 1 f hdr i = Some ph" "brk_counts ph"
  shows "p_vaddr ph + p_memsz ph \<le> brk_scan ev f hdr is highest"
  using assms
proof (induction "is" arbitrary: highest)
  case (Cons j "is")
  obtain ph' where r: "read_phdr ev 1 f hdr j = Some ph'" using Cons.prems(1) by fastforce
  show ?case
  proof (cases "i = j")
    case True
    then have "ph' = ph" using r Cons.prems(3) by simp
    then have "p_vaddr ph + p_memsz ph \<le> (if brk_counts ph \<and> highest < p_vaddr ph + p_memsz ph
      then p_vaddr ph + p_memsz ph else highest)" using Cons.prems(4) by (simp add: not_less)
    then show ?thesis unfolding brk_scan_cons [OF r] \<open>ph' = ph\<close> using brk_scan_ge by (rule order_trans)
  next
    case False
    then show ?thesis unfolding brk_scan_cons [OF r] using Cons by simp
  qed
qed simp

text \<open>The end of an accepted segment, even an empty one, is not above the end of its last page.\<close>
lemma end_below_top:
  assumes "\<not> p_vaddr ph + p_memsz ph < p_vaddr ph" "elf_seg_ok (seg_start ph) (seg_end ph)"
  shows "p_vaddr ph + p_memsz ph \<le> USER_STACK_TOP"
proof (cases "p_memsz ph = 0")
  case False
  have "p_vaddr ph + p_memsz ph \<le> seg_end ph"
    using seg_end_covers(2) [OF False assms] by (simp only: word_le_nat_alt)
  then show ?thesis using elf_seg_okD(2) [OF assms(2)] by (rule order_trans)
next
  case True
  have "0 < unat (p_vaddr ph)" using elf_seg_okD(3) [OF assms(2)] seg_start_le [of ph] by (simp add: word_le_nat_alt)
  then have "p_vaddr ph \<le> seg_end ph"
    using unat_round_up [OF _ seg_no_wrap [OF assms(2)]] True by (simp add: seg_end_def word_le_nat_alt)
  then show ?thesis using True order_trans [OF _ elf_seg_okD(2) [OF assms(2)]] by simp
qed

lemma brk_scan_top:
  assumes "highest \<le> USER_STACK_TOP" shows "brk_scan ev f hdr is highest \<le> USER_STACK_TOP"
  using assms
proof (induction "is" arbitrary: highest)
  case (Cons i "is")
  show ?case
  proof (cases "read_phdr ev 1 f hdr i")
    case None
    then show ?thesis using Cons.prems by simp
  next
    case (Some ph)
    have "p_vaddr ph + p_memsz ph \<le> USER_STACK_TOP" if "brk_counts ph"
      using that end_below_top unfolding brk_counts_def by blast
    then show ?thesis unfolding brk_scan_cons [OF Some] using Cons by simp
  qed
qed simp

lemma page_down_mono: "unat a \<le> unat b \<Longrightarrow> page_down a \<le> page_down b"
  unfolding word_le_nat_alt unat_page_down by (intro mult_le_mono1 div_le_mono)

lemma unat_plus_4095: "unat v + 4095 < 2 ^ 32 \<Longrightarrow> unat (v + 0xFFF :: u32) = unat v + 4095"
  by (subst unat_add_lem [THEN iffD1]) simp_all

lemma brk_start_above:
  assumes hdr: "read_ehdr ev f = Some hdr" "elf_magic_ok hdr" "elf_phtab_ok f hdr"
    and rd: "\<And>j. j < unat (e_phnum hdr) \<Longrightarrow> read_phdr ev 1 f hdr j \<noteq> None"
    and i: "i < unat (e_phnum hdr)" "read_phdr ev 1 f hdr i = Some ph" "brk_counts ph"
  shows "aligned (elf_get_brk_start ev (Some f))" "seg_end ph \<le> elf_get_brk_start ev (Some f)"
    "elf_get_brk_start ev (Some f) \<le> USER_STACK_TOP"
proof -
  let ?h = "brk_scan ev f hdr [0..<unat (e_phnum hdr)] 0"
  have b: "elf_get_brk_start ev (Some f) = page_down (?h + 0xFFF)"
    using hdr by (simp add: elf_get_brk_start_def add.commute add_diff_eq [symmetric])
  show "aligned (elf_get_brk_start ev (Some f))" unfolding b by simp
  have top: "unat ?h \<le> unat USER_STACK_TOP" using brk_scan_top [of 0] by (simp only: word_le_nat_alt) simp
  have h: "unat (?h + 0xFFF) = unat ?h + 4095" by (rule unat_plus_4095) (use top in simp)
  have "p_vaddr ph + p_memsz ph \<le> ?h" using brk_scan_covers [where i = i] rd i by (metis atLeastLessThan_iff le0 set_upt)
  then have le: "unat (p_vaddr ph + p_memsz ph) \<le> unat ?h" by (simp only: word_le_nat_alt)
  have "elf_seg_ok (seg_start ph) (seg_end ph)" using i(3) by (simp add: brk_counts_def)
  then have "unat (p_vaddr ph + p_memsz ph + 0xFFF) = unat (p_vaddr ph + p_memsz ph) + 4095"
    by (intro unat_plus_4095 seg_no_wrap)
  then show "seg_end ph \<le> elf_get_brk_start ev (Some f)" unfolding b seg_end_def using le h by (intro page_down_mono) simp
  have "(unat ?h + 4095) div 4096 * 4096 \<le> unat USER_STACK_TOP" using top by simp
  then show "elf_get_brk_start ev (Some f) \<le> USER_STACK_TOP" unfolding b word_le_nat_alt unat_page_down h .
qed

section \<open>What the program sees\<close>

text \<open>
  The user half of an address space: which entries of the page directory name a page table of its own,
  the user pages mapped there, and how many page tables have been asked for.
\<close>
record user_map =
  um_private :: "u32 \<Rightarrow> bool"
  um_page :: "u32 \<Rightarrow> u32 option"
  um_asked :: nat

definition pd_index :: "u32 \<Rightarrow> u32" where "pd_index vaddr = drop_bit 22 vaddr AND 0x3FF"

text \<open>
  \<open>vmm_map\<close> with the flags that the loader passes, which ask for a user page. The first mapping behind an entry of the
  directory needs a page table of its own, fresh or a copy of the shared one; \<open>pt\<close> says which of these allocations
  succeed. A failure is only reported on the console.
\<close>
definition vmm_map :: "(nat \<Rightarrow> bool) \<Rightarrow> u32 \<Rightarrow> u32 \<Rightarrow> u32 \<Rightarrow> user_map \<Rightarrow> user_map" where
  "vmm_map pt pd va p m =
     (if pd = 0 then m
      else if \<not> aligned va \<or> \<not> aligned p then m
      else if va \<ge> USER_STACK_TOP then m
      else if um_private m (pd_index va) then m\<lparr> um_page := (um_page m)(va \<mapsto> p) \<rparr>
      else if \<not> pt (um_asked m) then m\<lparr> um_asked := um_asked m + 1 \<rparr>
      else m\<lparr> um_private := (um_private m)(pd_index va := True), um_page := (um_page m)(va \<mapsto> p), um_asked := um_asked m + 1 \<rparr>)"

fun pt_step :: "(nat \<Rightarrow> bool) \<Rightarrow> u32 \<Rightarrow> elf_call \<Rightarrow> user_map \<Rightarrow> user_map" where
  "pt_step pt pd (Vmm_map va p) m = vmm_map pt pd va p m"
| "pt_step pt pd _ m = m"

text \<open>The address space after the calls, and the byte that the program reads at an address.\<close>
definition page_table :: "(nat \<Rightarrow> bool) \<Rightarrow> u32 \<Rightarrow> elf_call list \<Rightarrow> user_map" where
  "page_table pt pd trace = fold (pt_step pt pd) trace \<lparr> um_private = (\<lambda>_. False), um_page = (\<lambda>_. None), um_asked = 0 \<rparr>"

definition user_byte :: "(nat \<Rightarrow> bool) \<Rightarrow> elf_state \<Rightarrow> u32 \<Rightarrow> byte option" where
  "user_byte pt s a = map_option (\<lambda>p. es_frames s p ! (unat a mod 4096)) (um_page (page_table pt (es_page_dir s) (es_calls s)) (page_down a))"

text \<open>A file whose reads return the bytes of \<open>data\<close> that the request covers.\<close>
definition vf_holds :: "elf_file \<Rightarrow> bytes \<Rightarrow> bool" where
  "vf_holds f data = (length data < 2 ^ 32 \<and> vf_size f = word_of_nat (length data) \<and>
     (\<forall>off n. vf_read f off n = (int (length (slice (unat off) (unat n) data)), slice (unat off) (unat n) data)))"

definition put_map :: "elf_map \<Rightarrow> (u32 \<Rightarrow> u32 option) \<Rightarrow> u32 \<Rightarrow> u32 option" where
  "put_map x m = m(map_va x \<mapsto> map_frame x)"

lemma page_table_append:
  assumes "pd \<noteq> 0" "\<And>i. pt i" "user_maps (map snd vs)" "\<forall>x \<in> set vs. aligned (map_frame x)"
  shows "um_page (fold (pt_step pt pd) (concat (map (page_calls \<circ> snd) vs)) m) = fold put_map vs (um_page m)"
  using assms(3,4)
proof (induction vs arbitrary: m)
  case (Cons x vs)
  have u: "user_page (map_va x)" using Cons.prems(1) by (auto simp: user_maps_def split: prod.splits)
  then have "\<not> map_va x \<ge> USER_STACK_TOP" "aligned (map_va x)" by (auto simp: user_page_def word_le_nat_alt)
  then have "um_page (vmm_map pt pd (map_va x) (map_frame x) m) = put_map x (um_page m)"
    using assms(1,2) Cons.prems(2) by (simp add: vmm_map_def put_map_def)
  moreover have "user_maps (map snd vs)" using Cons.prems(1) by (simp add: user_maps_def)
  ultimately show ?case using Cons.IH Cons.prems(2) by (simp add: page_calls_def)
qed simp

lemma fold_map_skip: "filter (\<lambda>x. map_va x = va) vs = [] \<Longrightarrow> fold put_map vs m va = m va"
  by (induction vs arbitrary: m) (auto simp: put_map_def split: if_splits)

lemma fold_map_lookup:
  "filter (\<lambda>x. map_va x = va) vs = [x] \<Longrightarrow> fold put_map vs m va = Some (map_frame x)"
proof (induction vs arbitrary: m)
  case (Cons v vs)
  show ?case
  proof (cases "map_va v = va")
    case True
    then have "v = x" "filter (\<lambda>x. map_va x = va) vs = []" using Cons.prems by simp_all
    then have "fold put_map (v # vs) m va = put_map x m va" by (simp only: fold_Cons o_apply fold_map_skip)
    also have "\<dots> = Some (map_frame x)" using True \<open>v = x\<close> by (simp add: put_map_def)
    finally show ?thesis .
  next
    case False
    then show ?thesis using Cons by simp
  qed
qed simp

lemma fold_image_skip: "p \<notin> map_frame ` set vs \<Longrightarrow> fold (put_image f) vs m p = m p"
  by (induction vs arbitrary: m) (auto simp: put_image_def)

lemma fold_put_image:
  assumes "distinct (map map_frame vs)" "x \<in> set vs"
  shows "fold (put_image f) vs m (map_frame x) = page_image f (fst x) (map_va x)"
  using assms
proof (induction vs arbitrary: m)
  case (Cons v vs)
  show ?case
  proof (cases "x = v")
    case True
    then have "map_frame x \<notin> map_frame ` set vs" using Cons.prems(1) by simp
    then have "fold (put_image f) vs (put_image f v m) (map_frame x) = put_image f v m (map_frame x)"
      by (rule fold_image_skip)
    also have "\<dots> = page_image f (fst x) (map_va x)" using True by (simp add: put_image_def)
    finally show ?thesis by (simp only: fold_Cons o_apply)
  next
    case False
    then show ?thesis using Cons by simp
  qed
qed simp

lemma loads_distinct:
  assumes "loads ev f s vs s'" and inj: "\<And>i j. ev_kalloc ev i \<noteq> 0 \<Longrightarrow> ev_kalloc ev i = ev_kalloc ev j \<Longrightarrow> i = j"
  shows "distinct (map map_frame vs)"
proof -
  have m: "map map_frame vs = map (ev_kalloc ev) [es_n s..<es_n s + length vs]"
    using assms(1) by (simp add: loads_def)
  have z: "0 \<notin> set (map map_frame vs)" using assms(1) unfolding loads_def set_map by blast
  have "inj_on (ev_kalloc ev) (set [es_n s..<es_n s + length vs])"
  proof (rule inj_onI)
    fix i j assume i: "i \<in> set [es_n s..<es_n s + length vs]" and e: "ev_kalloc ev i = ev_kalloc ev j"
    have "ev_kalloc ev i \<in> set (map map_frame vs)" unfolding m set_map using i by (rule imageI)
    with z have "ev_kalloc ev i \<noteq> 0" by metis
    then show "i = j" using e by (rule inj)
  qed
  then show ?thesis unfolding m by (simp add: distinct_map)
qed

lemma nth_buf_put:
  assumes "off + length bs \<le> length b" "k < length b"
  shows "buf_put b off bs ! k = (if off \<le> k \<and> k < off + length bs then bs ! (k - off) else b ! k)"
  using assms by (auto simp: buf_put_def nth_append min_def)

lemma slice_nth: "i < n \<Longrightarrow> off + n \<le> length b \<Longrightarrow> slice off n b ! i = b ! (off + i)"
  by (simp add: slice_def)
text \<open>One page of a segment: its bytes are those of the file where the file has them, zero elsewhere.\<close>
lemma page_image_nth:
  assumes f: "vf_holds f data" and A: "unat va + 4096 \<le> unat USER_STACK_TOP"
    and F: "unat (file_end ph) = unat (p_vaddr ph) + unat (p_filesz ph)"
    and O: "unat (p_offset ph) + unat (p_filesz ph) \<le> length data" and k: "k < 4096"
  defines "q \<equiv> unat va + k"
  shows "page_image f ph va ! k =
    (if unat (p_vaddr ph) \<le> q \<and> q < unat (file_end ph) then data ! (unat (p_offset ph) + (q - unat (p_vaddr ph))) else 0)"
proof -
  define lo where "lo = (if va > p_vaddr ph then va else p_vaddr ph)"
  define hi where "hi = (if va + PAGE_SIZE < file_end ph then va + PAGE_SIZE else file_end ph)"
  have va': "unat (va + PAGE_SIZE) = unat va + 4096"
    using A by (subst unat_add_lem [THEN iffD1]) simp_all
  have ulo: "unat lo = max (unat va) (unat (p_vaddr ph))" by (simp add: lo_def word_less_nat_alt max_def)
  have uhi: "unat hi = min (unat va + 4096) (unat (file_end ph))" unfolding hi_def
    by (simp only: word_less_nat_alt va' if_distrib [of unat]) (simp add: min_def)
  show ?thesis
  proof (cases "va < file_end ph \<and> lo < hi")
    case False
    then have "page_image f ph va = replicate 4096 0"
      unfolding page_image_def copy_page_def Let_def lo_def [symmetric] hi_def [symmetric] by auto
    moreover have "\<not> (unat (p_vaddr ph) \<le> q \<and> q < unat (file_end ph))"
      using False k ulo uhi unfolding q_def word_less_nat_alt by linarith
    ultimately show ?thesis using k by (simp only: if_False) simp
  next
    case True
    then have lh: "unat lo < unat hi" by (simp add: word_less_nat_alt)
    let ?off = "p_offset ph + (lo - p_vaddr ph)"
    define n where "n = unat hi - unat lo"
    have le: "unat (lo - p_vaddr ph) = unat lo - unat (p_vaddr ph)" "unat (hi - lo) = n" "unat (lo - va) = unat lo - unat va"
      unfolding n_def using ulo lh by (simp_all add: unat_sub_if_size)
    have "unat (p_offset ph) + (unat lo - unat (p_vaddr ph)) < 2 ^ 32"
      using f O F lh ulo uhi unfolding vf_holds_def by linarith
    then have off: "unat ?off = unat (p_offset ph) + (unat lo - unat (p_vaddr ph))"
      using le(1) by (subst unat_add_lem [THEN iffD1]) simp_all
    define bs where "bs = slice (unat ?off) n data"
    have fit: "unat ?off + n \<le> length data" using O F lh ulo uhi off unfolding n_def by linarith
    then have len: "length bs = n" by (simp add: bs_def)
    have "page_image f ph va = buf_put (replicate 4096 0) (unat lo - unat va) bs"
      using True f len unfolding page_image_def copy_page_def Let_def lo_def [symmetric] hi_def [symmetric] read_into_def
        vf_holds_def by (simp add: le bs_def)
    moreover have "unat lo - unat va + length bs \<le> 4096" using len ulo uhi lh unfolding n_def by linarith
    ultimately have "page_image f ph va ! k = (if unat lo - unat va \<le> k \<and> k < unat lo - unat va + n
        then data ! (unat ?off + (k - (unat lo - unat va))) else 0)"
      using k len slice_nth [OF _ fit, of "k - (unat lo - unat va)"] unfolding bs_def
      by (cases "unat lo - unat va \<le> k \<and> k < unat lo - unat va + n") (auto simp: nth_buf_put)
    moreover have "(unat lo - unat va \<le> k \<and> k < unat lo - unat va + n) =
        (unat (p_vaddr ph) \<le> q \<and> q < unat (file_end ph))"
      using ulo uhi lh k unfolding n_def q_def by linarith
    moreover have "unat ?off + (k - (unat lo - unat va)) = unat (p_offset ph) + (q - unat (p_vaddr ph))"
      if "unat lo - unat va \<le> k" using that ulo off unfolding q_def by linarith
    ultimately show ?thesis by (auto simp only: split: if_splits)
  qed
qed
lemma filter_eq_single: "distinct xs \<Longrightarrow> x \<in> set xs \<Longrightarrow> filter (\<lambda>y. y = x) xs = [x]"
  by (induction xs) (auto simp: filter_empty_conv)

lemma filter_concat_unique:
  assumes "i < length xss" "\<And>j. j < length xss \<Longrightarrow> j \<noteq> i \<Longrightarrow> filter P (xss ! j) = []"
  shows "filter P (concat xss) = filter P (xss ! i)"
proof -
  have nil: "filter P (concat yss) = []" if "\<And>ys. ys \<in> set yss \<Longrightarrow> filter P ys = []" for yss
    using that by (induction yss) simp_all
  have "filter P (concat (take i xss)) = []" "filter P (concat (drop (Suc i) xss)) = []"
    using assms by (auto intro!: nil simp: in_set_conv_nth)
  then show ?thesis
    using arg_cong [OF id_take_nth_drop [OF assms(1)], of "\<lambda>l. filter P (concat l)"] by simp
qed

lemma filter_seg_maps:
  assumes "loadable ph" "seg_end ph \<le> USER_STACK_TOP" "aligned va" "seg_start ph \<le> va" "va < seg_end ph"
  shows "filter (\<lambda>q. snd q = va) (seg_maps ph) = [(ph, va)]"
proof -
  note ex = seg_pages_exact [OF aligned_seg(1) aligned_seg(2) assms(2)]
  have "va \<in> set (seg_pages (seg_start ph) (seg_end ph))" using ex assms(3-5) by blast
  then have "filter (\<lambda>y. y = va) (seg_pages (seg_start ph) (seg_end ph)) = [va]"
    using ex by (intro filter_eq_single) blast+
  then show ?thesis using assms(1) by (simp add: seg_maps_def filter_map o_def)
qed

lemma filter_seg_maps_apart:
  assumes "seg_fits ph'" "seg_start ph \<le> va" "va < seg_end ph"
    and "loadable ph' \<Longrightarrow> seg_end ph' \<le> seg_start ph \<or> seg_end ph \<le> seg_start ph'"
  shows "filter (\<lambda>q. snd q = va) (seg_maps ph') = []"
proof (cases "loadable ph'")
  case True
  then have "seg_end ph' \<le> USER_STACK_TOP"
    using assms(1) elf_seg_okD unfolding seg_fits_def by blast
  then have "set (seg_pages (seg_start ph') (seg_end ph')) = {w. aligned w \<and> seg_start ph' \<le> w \<and> w < seg_end ph'}"
    using seg_pages_exact aligned_seg by blast
  moreover have "\<not> (seg_start ph' \<le> va \<and> va < seg_end ph')" using assms(2-4) True by (meson leD order_trans less_le_trans)
  ultimately have "va \<notin> set (seg_pages (seg_start ph') (seg_end ph'))" by blast
  then show ?thesis using True by (auto simp: seg_maps_def filter_empty_conv)
qed (simp add: seg_maps_def)
lemma segment_address:
  assumes ld: "loadable ph" and ok: "elf_seg_ok (seg_start ph) (seg_end ph)" and k: "k < unat (p_memsz ph)"
  defines "a \<equiv> p_vaddr ph + word_of_nat k"
  shows "unat a = unat (p_vaddr ph) + k" "seg_start ph \<le> page_down a" "page_down a < seg_end ph"
proof -
  have m: "p_memsz ph \<noteq> 0" "\<not> p_vaddr ph + p_memsz ph < p_vaddr ph" using ld by (simp_all add: loadable_def)
  note c = seg_end_covers [OF m ok]
  have sum: "unat (p_vaddr ph + p_memsz ph) = unat (p_vaddr ph) + unat (p_memsz ph)"
    by (rule unat_plus_simple [THEN iffD1, OF leI [OF m(2)]])
  have lt: "unat (p_vaddr ph + p_memsz ph) < 2 ^ LENGTH(32)" by (rule unsigned_less)
  have uk: "unat (word_of_nat k :: u32) = k" using k unsigned_less [of "p_memsz ph"]
    by (metis le_unat_uoi less_imp_le)
  show u: "unat a = unat (p_vaddr ph) + k" unfolding a_def
    by (subst unat_add_lem [THEN iffD1]) (use uk sum lt k in simp_all)
  show "seg_start ph \<le> page_down a"
    unfolding seg_start_def word_le_nat_alt unat_page_down u by (intro mult_le_mono1 div_le_mono) simp
  have "unat (page_down a) \<le> unat a" by (simp add: unat_page_down)
  then show "page_down a < seg_end ph" unfolding word_less_nat_alt using u sum k c(2) by linarith
qed

lemma load_elf_ok:
  assumes "load_elf ev pd (Some f) s = (r, s')" "r \<noteq> 0" "read_ehdr ev f = Some hdr"
  obtains phs where "load_segments ev 1 f hdr [0..<unat (e_phnum hdr)] (s\<lparr> es_page_dir := pd \<rparr>) = (Some phs, s')"
    "elf_hdr_ok f hdr"
  using assms unfolding load_elf_def by (auto simp: Let_def split: if_splits prod.splits option.splits)

lemma user_byte_of_map:
  assumes l: "loads ev f s vs s'" and d: "distinct (map map_frame vs)"
    and x: "filter (\<lambda>x. map_va x = page_down (p_vaddr ph + word_of_nat k)) vs = [x]"
      "fst x = ph" "map_va x = page_down (p_vaddr ph + word_of_nat k)"
    and f: "vf_holds f data" and ld: "loadable ph" and ok: "elf_seg_ok (seg_start ph) (seg_end ph)"
    and inside: "unat (p_offset ph) + unat (p_filesz ph) \<le> length data" and k: "k < unat (p_memsz ph)"
    and m: "es_page_dir s \<noteq> 0" "\<And>i. pt i" "user_maps (map snd vs)" "\<And>i. aligned (ev_kalloc ev i)"
  shows "user_byte pt s' (p_vaddr ph + word_of_nat k) =
    Some (if k < unat (p_filesz ph) then data ! (unat (p_offset ph) + k) else 0)"
proof -
  let ?a = "p_vaddr ph + word_of_nat k"
  note ad = segment_address [OF ld ok k]
  have "set (map map_frame vs) \<subseteq> range (ev_kalloc ev)" using l unfolding loads_def by (metis set_map image_subset_iff rangeI subsetI)
  then have al: "\<forall>x \<in> set vs. aligned (map_frame x)" using m(4) by auto
  have "um_page (page_table pt (es_page_dir s') (es_calls s')) (page_down ?a) = Some (map_frame x)"
    using l fold_map_lookup [OF x(1)] page_table_append [OF m(1-3) al] by (simp add: loads_def page_table_def)
  note pt = this
  have "x \<in> set (filter (\<lambda>x. map_va x = page_down ?a) vs)" unfolding x(1) by (simp only: list.set_intros)
  then have "x \<in> set vs" by (simp only: set_filter mem_Collect_eq)
  then have fr: "es_frames s' (map_frame x) = page_image f ph (page_down ?a)"
    using l fold_put_image [OF d] x(2,3) by (simp add: loads_def)
  have "page_down ?a \<in> set (seg_pages (seg_start ph) (seg_end ph))"
    using seg_pages_exact [OF aligned_seg(1) aligned_seg(2) elf_seg_okD(2) [OF ok]] ad(2,3) aligned_page_down by blast
  then have "user_page (page_down ?a)" by (rule user_page_of_segment [OF ok aligned_seg])
  then have top: "unat (page_down ?a) + 4096 \<le> unat USER_STACK_TOP" unfolding user_page_def by blast
  have "\<not> p_vaddr ph + p_filesz ph < p_vaddr ph" using ld by (simp add: loadable_def)
  then have fe: "unat (file_end ph) = unat (p_vaddr ph) + unat (p_filesz ph)"
    unfolding file_end_def by (intro unat_plus_simple [THEN iffD1] leI)
  have q: "unat (page_down ?a) + unat ?a mod 4096 = unat (p_vaddr ph) + k"
    using ad(1) unfolding unat_page_down by (simp only: div_mult_mod_eq)
  have "page_image f ph (page_down ?a) ! (unat ?a mod 4096) =
      (if k < unat (p_filesz ph) then data ! (unat (p_offset ph) + k) else 0)"
    using page_image_nth [OF f top fe inside, of "unat ?a mod 4096"] unfolding q fe by simp
  then show ?thesis by (simp add: user_byte_def pt fr)
qed

lemma load_elf_byte:
  assumes f: "vf_holds f data"
    and frames: "\<And>i j. ev_kalloc ev i \<noteq> 0 \<Longrightarrow> ev_kalloc ev i = ev_kalloc ev j \<Longrightarrow> i = j"
    and run: "load_elf ev pd (Some f) s = (r, s')" "r \<noteq> 0"
    and hdr: "read_ehdr ev f = Some hdr" "i < unat (e_phnum hdr)" "read_phdr ev 1 f hdr i = Some ph" "loadable ph"
    and inside: "unat (p_offset ph) + unat (p_filesz ph) \<le> length data"
    and apart: "\<And>j ph'. j < unat (e_phnum hdr) \<Longrightarrow> j \<noteq> i \<Longrightarrow> read_phdr ev 1 f hdr j = Some ph' \<Longrightarrow> loadable ph' \<Longrightarrow>
      seg_end ph' \<le> seg_start ph \<or> seg_end ph \<le> seg_start ph'"
    and k: "k < unat (p_memsz ph)"
    and m: "pd \<noteq> 0" "\<And>i. pt i" "\<And>i. aligned (ev_kalloc ev i)"
  shows "user_byte pt s' (p_vaddr ph + word_of_nat k) =
    Some (if k < unat (p_filesz ph) then data ! (unat (p_offset ph) + k) else 0)"
proof -
  let ?a = "p_vaddr ph + word_of_nat k" and ?s = "s\<lparr> es_page_dir := pd \<rparr>" and ?n = "unat (e_phnum hdr)"
  define va where "va = page_down ?a"
  obtain phs where l: "load_segments ev 1 f hdr [0..<?n] ?s = (Some phs, s')" using load_elf_ok [OF run hdr(1)] by blast
  obtain vs where phs: "map Some phs = map (read_phdr ev 1 f hdr) [0..<?n]" "list_all seg_fits phs"
    and vs: "loads ev f ?s vs s'" "map (\<lambda>x. (fst x, map_va x)) vs = concat (map seg_maps phs)" "user_maps (map snd vs)"
    using load_segments_ok [OF l] by blast
  have len: "length phs = ?n" using arg_cong [OF phs(1), of length] by simp
  have rd: "read_phdr ev 1 f hdr j = Some (phs ! j)" if "j < ?n" for j
    using arg_cong [OF phs(1), of "\<lambda>l. l ! j"] that len by simp
  have fits: "seg_fits (phs ! j)" if "j < ?n" for j using phs(2) that len by (simp add: list_all_length)
  have ph: "phs ! i = ph" using rd [OF hdr(2)] hdr(3) by simp
  have ok: "elf_seg_ok (seg_start ph) (seg_end ph)" using fits [OF hdr(2)] ph hdr(4) by (simp add: seg_fits_def)
  note ad = segment_address [OF hdr(4) ok k, folded va_def]
  have "filter (\<lambda>q. snd q = va) (concat (map seg_maps phs)) = filter (\<lambda>q. snd q = va) (map seg_maps phs ! i)"
  proof (rule filter_concat_unique)
    fix j assume j: "j < length (map seg_maps phs)" "j \<noteq> i"
    then have "filter (\<lambda>q. snd q = va) (seg_maps (phs ! j)) = []"
      using filter_seg_maps_apart [OF fits ad(2,3)] apart rd len by simp
    then show "filter (\<lambda>q. snd q = va) (map seg_maps phs ! j) = []" using j by simp
  qed (simp add: len hdr(2))
  also have "\<dots> = [(ph, va)]" using filter_seg_maps [OF hdr(4) elf_seg_okD(2) [OF ok] _ ad(2,3)] ph len hdr(2)
    by (simp add: va_def)
  finally have "map (\<lambda>x. (fst x, map_va x)) (filter (\<lambda>x. map_va x = va) vs) = [(ph, va)]"
    unfolding vs(2) [symmetric] by (simp add: filter_map o_def)
  then obtain x where x: "filter (\<lambda>x. map_va x = va) vs = [x]" "fst x = ph" "map_va x = va" by auto
  have "es_page_dir ?s \<noteq> 0" using m(1) by simp
  from user_byte_of_map [OF vs(1) loads_distinct [OF vs(1) frames] x [unfolded va_def] f hdr(4) ok inside k this m(2) vs(3) m(3)]
  show ?thesis .
qed

end
