(* ===== verification/Elf_Props.thy ===== *)
theory Elf_Props
  imports Elf
begin

text \<open>
  The properties of the ELF loader: which calls reach the memory manager, and what the loaded program
  sees in its memory, with a small program as the concrete instance, and the behaviours of the loader
  that depart from its comments.
\<close>

section \<open>A small program\<close>

text \<open>One segment of four bytes of the file and four of cleared memory at \<open>0x08048000\<close>.\<close>

definition ex_phdr :: "u8 list \<Rightarrow> bytes" where
  "ex_phdr vaddr = [1, 0, 0, 0,  0x54, 0, 0, 0] @ vaddr @ [0, 0, 0, 0,  4, 0, 0, 0,  8, 0, 0, 0,  5, 0, 0, 0,  0, 0x10, 0, 0]"

definition ex_data :: "u8 list \<Rightarrow> bytes" where
  "ex_data vaddr = [0x7F, 0x45, 0x4C, 0x46, 1, 1, 1, 0, 0, 0, 0, 0, 0, 0, 0, 0,
     2, 0,  3, 0,  1, 0, 0, 0,  0, 0x80, 0x04, 0x08,  0x34, 0, 0, 0,  0, 0, 0, 0,  0, 0, 0, 0,
     0x34, 0,  0x20, 0,  1, 0,  0x28, 0,  0, 0,  0, 0] @ ex_phdr vaddr @ [0xDE, 0xAD, 0xBE, 0xEF]"

definition ex_file :: "bytes \<Rightarrow> elf_file" where
  "ex_file data = \<lparr> vf_size = word_of_nat (length data),
     vf_read = (\<lambda>off n. (int (length (slice (unat off) (unat n) data)), slice (unat off) (unat n) data)) \<rparr>"

definition ex_env :: elf_env where
  "ex_env = \<lparr> ev_kalloc = (\<lambda>n. if n < 1000 then 0x30000000 + word_of_nat n * 0x1000 else 0), ev_tracker_add = (\<lambda>_. True),
     ev_stack = (\<lambda>_ _. []), ev_kmalloc = (\<lambda>_ _. None) \<rparr>"

definition ex_state :: elf_state where
  "ex_state = \<lparr> es_page_dir = 0, es_calls = [], es_frames = (\<lambda>_. []), es_n = 0 \<rparr>"

lemma ex_file_holds: "length data < 2 ^ 32 \<Longrightarrow> vf_holds (ex_file data) data"
  by (simp add: vf_holds_def ex_file_def)

definition ex_hdr :: Elf32_Ehdr where
  "ex_hdr = \<lparr> e_ident = [0x7F, 0x45, 0x4C, 0x46, 1, 1, 1, 0, 0, 0, 0, 0, 0, 0, 0, 0], e_machine = 3,
     e_entry = 0x08048000, e_phoff = 52, e_shoff = 0, e_phentsize = 32, e_phnum = 1, e_shentsize = 40,
     e_shnum = 0, e_shstrndx = 0 \<rparr>"

definition ex_ph :: "u32 \<Rightarrow> Elf32_Phdr" where
  "ex_ph v = \<lparr> p_type = 1, p_offset = 84, p_vaddr = v, p_filesz = 4, p_memsz = 8 \<rparr>"

lemmas ex_defs = ex_file_def ex_env_def ex_data_def ex_phdr_def ex_hdr_def ex_ph_def

lemma ex_ehdr: "length v = 4 \<Longrightarrow> read_ehdr ex_env (ex_file (ex_data v)) = Some ex_hdr"
  by (simp add: read_ehdr_def read_into_def ex_defs buf_put_def get_ehdr_def rd16_def rd32_def slice_def)

lemma ex_read_phdr:
  assumes "length v = 4" shows "read_phdr ex_env pass (ex_file (ex_data v)) ex_hdr 0 = Some (ex_ph (rd32 v 0))"
proof -
  obtain a b c d where v: "v = [a, b, c, d]" using assms by (auto simp: length_Suc_conv numeral_eq_Suc)
  show ?thesis unfolding v
    by (simp add: read_phdr_def ph_off_def read_into_def ex_defs buf_put_def get_phdr_def rd32_def slice_def)
qed

lemma ex_hdr_ok: "length v = 4 \<Longrightarrow> elf_hdr_ok (ex_file (ex_data v)) ex_hdr"
  by (simp add: elf_hdr_ok_def elf_machine_ok_def elf_magic_ok_def elf_phtab_ok_def ph_end_check_def ex_defs rd32_def
      slice_def)

lemma one_page:
  assumes "0 < fst (copy_page f ph va (replicate 4096 0))" "ev_kalloc ev (es_n s) \<noteq> 0" "ev_tracker_add ev (es_n s)"
  obtains s' where "map_page ev f ph va s = (True, s')" "es_n s' = Suc (es_n s)"
    "es_calls s' = es_calls s @ page_calls (va, ev_kalloc ev (es_n s))"
  by (rule that [of "snd (map_page ev f ph va s)"])
    (use assms in \<open>auto simp: map_page_def new_page_def Let_def page_calls_def split: prod.splits\<close>)

lemma one_segment:
  assumes "read_phdr ev pass f hdr 0 = Some ph" "loadable ph" "elf_seg_ok (seg_start ph) (seg_end ph)"
    "seg_pages (seg_start ph) (seg_end ph) = [va]" "e_phnum hdr = 1"
    and "0 < fst (copy_page f ph va (replicate 4096 0))" "ev_kalloc ev (es_n s) \<noteq> 0" "ev_tracker_add ev (es_n s)"
  obtains s' where "load_segments ev pass f hdr [0..<unat (e_phnum hdr)] s = (Some [ph], s')" "es_n s' = Suc (es_n s)"
    "es_calls s' = es_calls s @ page_calls (va, ev_kalloc ev (es_n s))"
proof -
  obtain s' where "map_page ev f ph va s = (True, s')" "es_n s' = Suc (es_n s)"
    "es_calls s' = es_calls s @ page_calls (va, ev_kalloc ev (es_n s))" using assms(6-8) by (rule one_page)
  then show thesis using assms(1-5) by (intro that) (simp_all add: load_segment_def)
qed

lemma ex_hdr_sel [simp]: "e_phnum ex_hdr = 1" "e_entry ex_hdr = 0x08048000" "e_phoff ex_hdr = 52"
  by (simp_all add: ex_hdr_def)

lemma ex_env_sel [simp]: "ev_kalloc ex_env 0 = 0x30000000" "ev_kalloc ex_env (Suc 0) = 0x30001000" "ev_tracker_add ex_env n"
  by (simp_all add: ex_env_def)

lemma ex_state_sel [simp]: "es_n ex_state = 0" "es_calls ex_state = []"
  by (simp_all add: ex_state_def)

lemma ex_loadable: "v \<le> 0xF0000000 \<Longrightarrow> loadable (ex_ph v)"
  by (simp add: loadable_def ex_ph_def) (unat_arith, simp)

lemma ex_copy:
  assumes "length v = 4" "va \<le> 0xF0000000" "va AND 0xFFF = 0"
  shows "0 < fst (copy_page (ex_file (ex_data v)) (ex_ph va) va b)"
proof -
  have "va < va + 4" "\<not> va + 0x1000 < va + 4" using assms(2) by (unat_arith, simp)+
  then show ?thesis using assms(1) by (simp add: copy_page_def file_end_def read_into_def ex_defs slice_def Let_def)
qed

abbreviation ex_prog :: elf_file where "ex_prog \<equiv> ex_file (ex_data [0, 0x80, 4, 8])"

lemma ex_prog_phdr: "read_phdr ex_env pass ex_prog ex_hdr 0 = Some (ex_ph 0x08048000)"
  using ex_read_phdr [of "[0, 0x80, 4, 8]"] by (simp add: rd32_def slice_def)

lemma ex_segment:
  "seg_start (ex_ph 0x08048000) = 0x08048000" "seg_end (ex_ph 0x08048000) = 0x08049000"
  "elf_seg_ok 0x08048000 0x08049000" "seg_pages 0x08048000 0x08049000 = [0x08048000]"
  by (simp_all add: seg_start_def seg_end_def page_down_def ex_ph_def elf_seg_ok_def seg_pages_step)

lemma ex_load:
  obtains s' where "load_elf ex_env pd (Some ex_prog) ex_state = (0x08048000, s')"
    "es_calls s' = [Kalloc 0x30000000, Tracker_add 0x30000000, Vmm_map 0x08048000 0x30000000]"
proof -
  obtain s' where "load_segments ex_env 1 ex_prog ex_hdr [0..<unat (e_phnum ex_hdr)] (ex_state\<lparr> es_page_dir := pd \<rparr>) =
      (Some [ex_ph 0x08048000], s')" "es_calls s' = es_calls (ex_state\<lparr> es_page_dir := pd \<rparr>) @ page_calls (0x08048000, 0x30000000)"
    by (rule one_segment [where ev = ex_env and pass = 1 and f = ex_prog and hdr = ex_hdr and ph = "ex_ph 0x08048000"
        and va = "0x08048000" and s = "ex_state\<lparr> es_page_dir := pd \<rparr>"])
      (simp_all add: ex_prog_phdr ex_loadable ex_segment ex_copy)
  then show thesis by (intro that [of s']) (simp_all add: load_elf_def ex_ehdr ex_hdr_ok Let_def page_calls_def)
qed
section \<open>Properties\<close>

text \<open>C5: Whatever file is loaded and whatever the memory manager answers, the loader makes only these
  calls: for each page it maps, the frame is taken, tracked and entered in the page table, in this
  order; for a plain program every page is aligned, above the first page, below the kernel half and
  outside the range of addresses that name live frames; for a program with an interpreter a page may
  also be the one below such a page. When the loading fails after it began, the unfinished page leaves
  one of three traces, the whole address space of the tracker is released, and the result is null.\<close>
theorem elf_maps_user_pages_only:
  "(case load_elf ev pd fo s of (r, s') \<Rightarrow>
      \<exists>vs t. es_calls s' = es_calls s @ concat (map page_calls vs) @ t \<and> user_maps vs \<and>
        (t = [] \<and> (vs = [] \<or> (\<exists>f hdr. fo = Some f \<and> read_ehdr ev f = Some hdr \<and> r = e_entry hdr)) \<or>
         r = 0 \<and> (\<exists>u. stop_calls u \<and> t = u @ [Proc_free_pages pd]))) \<and>
   (case load_elf_interp ev ev' main interp s of (r, info, s') \<Rightarrow>
      \<exists>vs t. es_calls s' = es_calls s @ concat (map page_calls vs) @ t \<and> image_maps vs \<and>
        (t = [] \<and> (vs = [] \<or> interp_base info \<noteq> 0) \<or>
         r = 0 \<and> (\<exists>u. stop_calls u \<and> t = u @ [Proc_free_pages (es_page_dir s)])))"
proof -
  obtain r1 s1 r2 info s2 where "load_elf ev pd fo s = (r1, s1)" "load_elf_interp ev ev' main interp s = (r2, info, s2)"
    by (metis prod_cases3 surj_pair)
  with load_elf_calls [OF this(1)] load_elf_interp_calls [OF this(2)] show ?thesis by simp
qed

theorem elf_maps_user_pages_only_witness:
  "\<exists>s' vs. load_elf ex_env 1 (Some ex_prog) ex_state = (0x08048000, s') \<and>
     es_calls s' = concat (map page_calls vs) \<and> user_maps vs \<and> Vmm_map 0x08048000 0x30000000 \<in> set (es_calls s')"
proof -
  obtain s' where l: "load_elf ex_env 1 (Some ex_prog) ex_state = (0x08048000, s')"
    "es_calls s' = [Kalloc 0x30000000, Tracker_add 0x30000000, Vmm_map 0x08048000 0x30000000]" by (rule ex_load)
  have "\<exists>vs. es_calls s' = concat (map page_calls vs) \<and> user_maps vs"
    using conjunct1 [OF elf_maps_user_pages_only [where ev = ex_env and pd = 1 and fo = "Some ex_prog" and s = ex_state]] l(1)
    by simp blast
  then show ?thesis using l by auto
qed

text \<open>C13: When \<open>load_elf\<close> returns an entry point, every byte of every segment that shares no page with
  another one is in the program's memory: the bytes of the file up to the file size of the segment and
  zeros from there to its memory size. The page directory is not null, the frames of \<open>kalloc\<close> are aligned
  and distinct, the page tables that \<open>vmm_map\<close> needs can be allocated (it says nothing when they cannot),
  and the file holds the bytes that the segment names.\<close>
theorem elf_image_exact:
  assumes "vf_holds f data"
    and "\<And>i j. ev_kalloc ev i \<noteq> 0 \<Longrightarrow> ev_kalloc ev i = ev_kalloc ev j \<Longrightarrow> i = j"
    and "load_elf ev pd (Some f) s = (r, s')" "r \<noteq> 0"
    and "read_ehdr ev f = Some hdr" "i < unat (e_phnum hdr)" "read_phdr ev 1 f hdr i = Some ph" "loadable ph"
    and "unat (p_offset ph) + unat (p_filesz ph) \<le> length data"
    and "\<And>j ph'. j < unat (e_phnum hdr) \<Longrightarrow> j \<noteq> i \<Longrightarrow> read_phdr ev 1 f hdr j = Some ph' \<Longrightarrow> loadable ph' \<Longrightarrow>
      seg_end ph' \<le> seg_start ph \<or> seg_end ph \<le> seg_start ph'"
    and "k < unat (p_memsz ph)" "pd \<noteq> 0" "\<And>i. pt i" "\<And>i. aligned (ev_kalloc ev i)"
  shows "user_byte pt s' (p_vaddr ph + word_of_nat k) =
    Some (if k < unat (p_filesz ph) then data ! (unat (p_offset ph) + k) else 0)"
  using assms by (rule load_elf_byte)

lemma ex_frames:
  assumes "ev_kalloc ex_env i \<noteq> 0" "ev_kalloc ex_env i = ev_kalloc ex_env j" shows "i = j"
proof -
  have "unat (ev_kalloc ex_env n) = 0x30000000 + n * 0x1000" if "n < 1000" for n
  proof -
    have "ev_kalloc ex_env n = word_of_nat (0x30000000 + n * 0x1000)" using that by (simp add: ex_env_def)
    then show ?thesis using that by (simp only: unsigned_of_nat) (simp add: take_bit_nat_eq_self)
  qed
  moreover have "i < 1000 \<and> j < 1000" using assms by (auto simp: ex_env_def split: if_splits)
  ultimately show ?thesis using arg_cong [OF assms(2), of unat] by simp
qed

lemma ex_aligned: "aligned (ev_kalloc ex_env i)"
proof (cases "i < 1000")
  case True
  have "ev_kalloc ex_env i = word_of_nat (0x30000000 + i * 0x1000)" using True by (simp add: ex_env_def)
  then have "unat (ev_kalloc ex_env i) = (0x30000 + i) * 4096" using True by (simp only: unsigned_of_nat) (simp add: take_bit_nat_eq_self)
  then show ?thesis by (simp add: aligned_def)
qed (simp add: ex_env_def aligned_def)

theorem elf_image_exact_witness:
  "\<exists>s'. load_elf ex_env 1 (Some ex_prog) ex_state = (0x08048000, s') \<and>
     user_byte (\<lambda>_. True) s' 0x08048001 = Some 0xAD \<and> user_byte (\<lambda>_. True) s' 0x08048006 = Some 0"
proof -
  obtain s' where l: "load_elf ex_env 1 (Some ex_prog) ex_state = (0x08048000, s')" by (rule ex_load)
  have "vf_holds ex_prog (ex_data [0, 0x80, 4, 8])" by (rule ex_file_holds) (simp add: ex_data_def ex_phdr_def)
  note th = elf_image_exact [OF this ex_frames l _ ex_ehdr _ ex_prog_phdr ex_loadable, where pt = "\<lambda>_. True"]
  have "user_byte (\<lambda>_. True) s' (p_vaddr (ex_ph 0x08048000) + word_of_nat 1) = Some 0xAD"
    by (subst th) (simp_all add: ex_ph_def ex_data_def ex_phdr_def ex_aligned)
  moreover have "user_byte (\<lambda>_. True) s' (p_vaddr (ex_ph 0x08048000) + word_of_nat 6) = Some 0"
    by (subst th) (simp_all add: ex_ph_def ex_data_def ex_phdr_def ex_aligned)
  ultimately show ?thesis using l by (simp add: ex_ph_def)
qed

text \<open>When no page table can be allocated, the loader reports success all the same and the program's pages are missing.\<close>

lemma load_without_page_tables:
  "\<exists>s'. load_elf ex_env 1 (Some ex_prog) ex_state = (0x08048000, s') \<and> user_byte (\<lambda>_. False) s' a = None"
proof -
  have "um_page (fold (pt_step (\<lambda>_. False) pd) t m) = um_page m \<and> um_private (fold (pt_step (\<lambda>_. False) pd) t m) = um_private m"
    if "um_private m = (\<lambda>_. False)" for t m pd
    using that
  proof (induction t arbitrary: m)
    case (Cons c t)
    have "um_page (pt_step (\<lambda>_. False) pd c m) = um_page m \<and> um_private (pt_step (\<lambda>_. False) pd c m) = um_private m"
      using Cons.prems by (cases c) (simp_all add: vmm_map_def)
    then show ?case using Cons by simp
  qed simp
  then have "user_byte (\<lambda>_. False) s' a = None" for s' by (simp add: user_byte_def page_table_def)
  then show ?thesis using ex_load by metis
qed


text \<open>C40: After a successful load the heap starts at a page boundary, at or above the end of the last
  page of every segment that was mapped, and not above the top of the user's memory, when the file
  answers the reads of its headers as during the load.\<close>
theorem elf_heap_above_image:
  assumes "load_elf ev pd (Some f) s = (r, s')" "r \<noteq> 0"
    and "read_ehdr ev f = Some hdr" "i < unat (e_phnum hdr)" "read_phdr ev 1 f hdr i = Some ph" "loadable ph"
  shows "aligned (elf_get_brk_start ev (Some f)) \<and> seg_end ph \<le> elf_get_brk_start ev (Some f) \<and>
    elf_get_brk_start ev (Some f) \<le> USER_STACK_TOP"
proof -
  obtain phs where l: "load_segments ev 1 f hdr [0..<unat (e_phnum hdr)] (s\<lparr> es_page_dir := pd \<rparr>) = (Some phs, s')"
    and h: "elf_hdr_ok f hdr" using load_elf_ok [OF assms(1-3)] by blast
  have m: "map Some phs = map (read_phdr ev 1 f hdr) [0..<unat (e_phnum hdr)]" "list_all seg_fits phs"
    using load_segments_ok [OF l] by blast+
  have len: "length phs = unat (e_phnum hdr)" using arg_cong [OF m(1), of length] by simp
  have rd: "read_phdr ev 1 f hdr j = Some (phs ! j)" if "j < unat (e_phnum hdr)" for j
    using arg_cong [OF m(1), of "\<lambda>l. l ! j"] that len by simp
  have "seg_fits ph" using m(2) rd [OF assms(4)] assms(4,5) len by (auto simp: list_all_length)
  then have "brk_counts ph" using assms(6) by (simp add: brk_counts_def seg_fits_def loadable_def)
  then show ?thesis
    using brk_start_above [OF assms(3) _ _ _ assms(4,5)] h rd unfolding elf_hdr_ok_def elf_machine_ok_def by simp
qed

theorem elf_heap_above_image_witness:
  "\<exists>s'. load_elf ex_env 1 (Some ex_prog) ex_state = (0x08048000, s') \<and>
     0x08049000 \<le> elf_get_brk_start ex_env (Some ex_prog)"
proof -
  obtain s' where l: "load_elf ex_env 1 (Some ex_prog) ex_state = (0x08048000, s')" by (rule ex_load)
  have "seg_end (ex_ph 0x08048000) \<le> elf_get_brk_start ex_env (Some ex_prog)"
    using elf_heap_above_image [OF l _ ex_ehdr _ ex_prog_phdr ex_loadable] by simp
  then show ?thesis using l by (simp only: ex_segment) blast
qed

section \<open>Departures from the comments\<close>

lemma ex_map_image:
  assumes v: "length v = 4" "rd32 v 0 = va" "va \<le> 0xB0000000" "va AND 0xFFF = 0"
    and seg: "seg_start (ex_ph va) = va" "seg_end (ex_ph va) = va + 0x1000" "elf_seg_ok va (va + 0x1000)"
      "seg_pages va (va + 0x1000) = [va]"
  shows "Vmm_map (va - 0x1000) 0x30001000 \<in> set (es_calls (snd (map_image ex_env (ex_file (ex_data v)) ex_state)))"
proof -
  let ?f = "ex_file (ex_data v)"
  have ph: "read_phdr ex_env pass ?f ex_hdr 0 = Some (ex_ph va)" for pass using ex_read_phdr [OF v(1)] v(2) by simp
  have small: "va \<le> 0xF0000000" "va \<noteq> 0xFFFFFFFF" "va < 0xFFFFFFFF" using v(3) by (rule order_trans, simp) (use v(3) in unat_arith)+
  obtain s1 where l: "load_segments ex_env 2 ?f ex_hdr [0..<unat (e_phnum ex_hdr)] ex_state = (Some [ex_ph va], s1)"
    and n: "es_n s1 = Suc (es_n ex_state)"
    by (rule one_segment [where ev = ex_env and pass = 2 and f = ?f and hdr = ex_hdr and ph = "ex_ph va" and va = va
          and s = ex_state]) (simp_all add: ph seg ex_loadable [OF small(1)] ex_copy [OF v(1) small(1) v(4)])
  have sc: "scan_segments ex_env ?f ex_hdr [0..<unat (e_phnum ex_hdr)] 0xFFFFFFFF = Some va"
    using ph [of 1] seg small ex_loadable [OF small(1)] by (simp add: loadable_def)
  have cov: "phdr_covered ex_hdr [ex_ph va] = None" by (simp add: ex_ph_def)
  have lo: "\<not> va < PAGE_SIZE" using elf_seg_okD(3) [OF seg(3)] by (simp add: not_less)
  have "Vmm_map (va - 0x1000) 0x30001000 \<in> set (es_calls (snd (map_phdr_page ex_env ?f ex_hdr va s1)))"
    using n lo by (simp add: map_phdr_page_def new_page_def Let_def)
  then show ?thesis
    using l sc cov lo small(2) ex_ehdr [OF v(1)] ex_hdr_ok [OF v(1)] unfolding map_image_def
    by (auto split: prod.splits option.splits)
qed

text \<open>The segment checks refuse the first page and the addresses of live frames; the page for the
  program headers, mapped without them, can be either.\<close>
lemma header_page_is_null_page:
  "Vmm_map 0 0x30001000 \<in> set (es_calls (snd (map_image ex_env (ex_file (ex_data [0, 0x10, 0, 0])) ex_state)))"
  using ex_map_image [where v = "[0, 0x10, 0, 0]" and va = "0x1000"]
  by (simp add: rd32_def slice_def seg_start_def seg_end_def page_down_def ex_ph_def elf_seg_ok_def seg_pages_step)

lemma header_page_shadows_frames:
  "Vmm_map 0x7FFFF000 0x30001000 \<in>
     set (es_calls (snd (map_image ex_env (ex_file (ex_data [0, 0, 0, 0x80])) ex_state)))"
  "\<not> user_page 0x7FFFF000"
  using ex_map_image [where v = "[0, 0, 0, 0x80]" and va = "0x80000000"]
  by (simp_all add: rd32_def slice_def seg_start_def seg_end_def page_down_def ex_ph_def elf_seg_ok_def seg_pages_step
      user_page_def)

text \<open>A page whose read fails is tracked and not mapped, and releasing the address space frees the mapped
  frames only.\<close>
lemma failed_read_loses_frame:
  assumes "ev_kalloc ev (es_n s) \<noteq> 0" "ev_tracker_add ev (es_n s)" "fst (copy_page f ph va (replicate 4096 0)) \<le> 0"
  shows "es_calls (snd (map_page ev f ph va s)) =
    es_calls s @ [Kalloc (ev_kalloc ev (es_n s)), Tracker_add (ev_kalloc ev (es_n s))]"
  using assms by (auto simp: map_page_def new_page_def Let_def split: prod.splits)

text \<open>Symbol values of a program that is loaded where it was linked are addresses; the lookup compares
  them with the distance from the lowest segment.\<close>
lemma sym_best_none:
  "(\<And>j. j \<in> set js \<Longrightarrow> \<not> sym_fits rel (get_sym b j)) \<Longrightarrow> sym_best b rel js None = None"
  by (induction js) simp_all

lemma linked_symbols_not_found:
  assumes "\<And>j. j < unat (exec_symtab_count p) \<Longrightarrow> addr - exec_base p < st_value (get_sym (the (exec_symtab p)) j)"
  shows "sym_resolve_addr (Some p) addr = None"
proof -
  have "sym_best (the (exec_symtab p)) (addr - exec_base p) [0..<unat (exec_symtab_count p)] None = None"
    using assms by (intro sym_best_none) (auto simp: sym_fits_def not_le)
  then show ?thesis by (auto simp: sym_resolve_addr_def Let_def split: option.splits)
qed

end
