(* ===== verification/Tmpfs.thy ===== *)
theory Tmpfs
  imports Heap "HOL-Library.Monad_Syntax"
begin

text \<open>
  The RAM file system \<open>fs/vfs/tmpfs/tmpfs.c\<close>: inodes with their link and reference counts on a heap,
  the directory entries of each directory in list order, and the operations of \<open>tmpfs_ops\<close>. An
  operation that follows a pointer to a freed inode has no result (\<open>None\<close>). The contents of files are
  in the page cache of the VFS layer, another crate, and appear as the operations \<open>vfs_as_*\<close> on a state
  of their own, under the key of owner and inode number. Each operation is one step: the code takes no
  lock. Answers of \<open>kmalloc\<close> are arguments.
\<close>

section \<open>State\<close>

abbreviation (input) VFS_FILE :: u32 where "VFS_FILE \<equiv> 1"
abbreviation (input) VFS_DIRECTORY :: u32 where "VFS_DIRECTORY \<equiv> 2"
abbreviation (input) TMPFS_NAME_LEN :: nat where "TMPFS_NAME_LEN \<equiv> 128"

record tmpfs_node =
  tn_type :: u32
  tn_inode :: u32
  tn_nlink :: u32
  tn_children :: "(bytes \<times> nat) list" \<comment> \<open>name and inode of each \<open>tmpfs_dirent\<close>\<close>
  vn_name :: bytes
  vn_type :: u32
  vn_size :: u32
  vn_inode :: u32
  vn_mode :: u32
  vn_refcount :: u32

record 'a as_ops =
  vfs_as_setsize :: "nat \<Rightarrow> u32 \<Rightarrow> u32 \<Rightarrow> 'a \<Rightarrow> 'a"
  vfs_as_size :: "nat \<Rightarrow> u32 \<Rightarrow> 'a \<Rightarrow> int"
  vfs_as_read :: "nat \<Rightarrow> u32 \<Rightarrow> u32 \<Rightarrow> u32 \<Rightarrow> 'a \<Rightarrow> (int \<times> bytes) \<times> 'a"
  vfs_as_write :: "nat \<Rightarrow> u32 \<Rightarrow> u32 \<Rightarrow> bytes \<Rightarrow> 'a \<Rightarrow> int \<times> 'a"
  vfs_as_truncate :: "nat \<Rightarrow> u32 \<Rightarrow> u32 \<Rightarrow> 'a \<Rightarrow> int \<times> 'a"
  vfs_as_backing :: "nat \<Rightarrow> u32 \<Rightarrow> u32 \<Rightarrow> u32 \<Rightarrow> 'a \<Rightarrow> (int \<times> int \<times> u32) \<times> 'a"
  vfs_as_release :: "nat \<Rightarrow> u32 \<Rightarrow> 'a \<Rightarrow> 'a"

record 'a tmpfs =
  tf_nodes :: "(nat \<times> tmpfs_node) list"
  tmpfs_inode_ctr :: u32
  tmpfs_ready :: bool
  tmp_de :: "bytes \<times> u32"
  tf_as :: 'a

text \<open>The static root node has the address 0; \<open>kmalloc\<close> never returns it.\<close>

abbreviation (input) tmpfs_root_node :: nat where "tmpfs_root_node \<equiv> 0"

definition zero_node :: tmpfs_node where
  "zero_node = \<lparr> tn_type = 0, tn_inode = 0, tn_nlink = 0, tn_children = [], vn_name = [], vn_type = 0,
     vn_size = 0, vn_inode = 0, vn_mode = 0, vn_refcount = 0 \<rparr>"

definition tmpfs_boot :: "'a \<Rightarrow> 'a tmpfs" where
  "tmpfs_boot x = \<lparr> tf_nodes = [(tmpfs_root_node, zero_node)], tmpfs_inode_ctr = 1, tmpfs_ready = False,
     tmp_de = ([], 0), tf_as = x \<rparr>"

definition tn_at :: "'a tmpfs \<Rightarrow> nat \<Rightarrow> tmpfs_node option" where
  "tn_at fs a = map_of (tf_nodes fs) a"

definition tn_put :: "nat \<Rightarrow> tmpfs_node \<Rightarrow> 'a tmpfs \<Rightarrow> 'a tmpfs" where
  "tn_put a n fs = fs\<lparr> tf_nodes := AList.update a n (tf_nodes fs) \<rparr>"

definition tn_upd :: "nat \<Rightarrow> (tmpfs_node \<Rightarrow> tmpfs_node) \<Rightarrow> 'a tmpfs \<Rightarrow> 'a tmpfs option" where
  "tn_upd a f fs = map_option (\<lambda>n. tn_put a (f n) fs) (tn_at fs a)"

section \<open>Names\<close>

fun find_name :: "bytes \<Rightarrow> (bytes \<times> nat) list \<Rightarrow> nat option" where
  "find_name name [] = None"
| "find_name name (e # es) = (if fst e = name then Some 0 else map_option Suc (find_name name es))"

definition find_dirent :: "tmpfs_node \<Rightarrow> bytes \<Rightarrow> nat option" where
  "find_dirent dir name = (if tn_type dir \<noteq> VFS_DIRECTORY then None else find_name name (tn_children dir))"

definition find_child :: "tmpfs_node \<Rightarrow> bytes \<Rightarrow> nat option" where
  "find_child dir name = map_option (\<lambda>i. snd (tn_children dir ! i)) (find_dirent dir name)"

text \<open>\<open>strlcpy\<close> into a name field.\<close>
definition name_field :: "bytes \<Rightarrow> bytes" where
  "name_field name = take (TMPFS_NAME_LEN - 1) name"

definition init_vnode :: "bytes \<Rightarrow> tmpfs_node \<Rightarrow> tmpfs_node" where
  "init_vnode name n = n\<lparr> vn_name := take 127 name, vn_type := tn_type n, vn_size := 0, vn_inode := tn_inode n,
     vn_mode := 511, vn_refcount := 0 \<rparr>"

definition free_inode :: "'a as_ops \<Rightarrow> nat \<Rightarrow> 'a tmpfs \<Rightarrow> 'a tmpfs option" where
  "free_inode as a fs =
     (if a = tmpfs_root_node then Some fs
      else do {
        n \<leftarrow> tn_at fs a;
        Some (fs\<lparr> tf_as := vfs_as_release as a (vn_inode n) (tf_as fs), tf_nodes := AList.delete a (tf_nodes fs) \<rparr>)
      })"

section \<open>Contents\<close>

definition tmp_read :: "'a as_ops \<Rightarrow> nat \<Rightarrow> u32 \<Rightarrow> u32 \<Rightarrow> 'a tmpfs \<Rightarrow> ((int \<times> bytes) \<times> 'a tmpfs) option" where
  "tmp_read as a off sz fs = do {
     n \<leftarrow> tn_at fs a;
     if tn_type n \<noteq> VFS_FILE then Some ((-1, []), fs)
     else let x = vfs_as_setsize as a (vn_inode n) (vn_size n) (tf_as fs)
          in case vfs_as_read as a (vn_inode n) off sz x of (r, y) \<Rightarrow> Some (r, fs\<lparr> tf_as := y \<rparr>)
   }"

definition tmp_write :: "'a as_ops \<Rightarrow> nat \<Rightarrow> u32 \<Rightarrow> bytes \<Rightarrow> 'a tmpfs \<Rightarrow> (int \<times> 'a tmpfs) option" where
  "tmp_write as a off buf fs = do {
     n \<leftarrow> tn_at fs a;
     if tn_type n \<noteq> VFS_FILE then Some (-1, fs)
     else case vfs_as_write as a (vn_inode n) off buf (tf_as fs) of (w, y) \<Rightarrow>
            let s = vfs_as_size as a (vn_inode n) y; fs1 = fs\<lparr> tf_as := y \<rparr>
            in if w > 0 \<and> s \<ge> 0 then Some (w, tn_put a (n\<lparr> vn_size := word_of_int s \<rparr>) fs1) else Some (w, fs1)
   }"

definition tmp_truncate :: "'a as_ops \<Rightarrow> nat \<Rightarrow> u32 \<Rightarrow> 'a tmpfs \<Rightarrow> (int \<times> 'a tmpfs) option" where
  "tmp_truncate as a len fs = do {
     n \<leftarrow> tn_at fs a;
     if tn_type n \<noteq> VFS_FILE then Some (-1, fs)
     else case vfs_as_truncate as a (vn_inode n) len (tf_as fs) of (r, y) \<Rightarrow>
            let fs1 = fs\<lparr> tf_as := y \<rparr>
            in if r = 0 then Some (r, tn_put a (n\<lparr> vn_size := len \<rparr>) fs1) else Some (r, fs1)
   }"

definition tmp_mmap_backing :: "'a as_ops \<Rightarrow> nat \<Rightarrow> u32 \<Rightarrow> u32 \<Rightarrow> 'a tmpfs \<Rightarrow>
    ((int \<times> int \<times> u32) \<times> 'a tmpfs) option" where
  "tmp_mmap_backing as a off len fs = do {
     n \<leftarrow> tn_at fs a;
     if tn_type n \<noteq> VFS_FILE then Some ((-1, 0, 0), fs)
     else let x = vfs_as_setsize as a (vn_inode n) (vn_size n) (tf_as fs)
          in case vfs_as_backing as a (vn_inode n) off len x of (r, y) \<Rightarrow> Some (r, fs\<lparr> tf_as := y \<rparr>)
   }"

section \<open>References\<close>

definition tmp_open :: "nat \<Rightarrow> 'a tmpfs \<Rightarrow> 'a tmpfs option" where
  "tmp_open a fs = tn_upd a (\<lambda>n. n\<lparr> vn_refcount := vn_refcount n + 1 \<rparr>) fs"

text \<open>\<open>__sync_fetch_and_sub\<close> of the reference count, and the release of the inode with the last one.\<close>
definition drop_ref :: "'a as_ops \<Rightarrow> nat \<Rightarrow> 'a tmpfs \<Rightarrow> 'a tmpfs option" where
  "drop_ref as a fs = do {
     n \<leftarrow> tn_at fs a;
     let fs1 = tn_put a (n\<lparr> vn_refcount := vn_refcount n - 1 \<rparr>) fs
     in if vn_refcount n = 1 then free_inode as a fs1 else Some fs1
   }"

definition tmp_close :: "'a as_ops \<Rightarrow> nat \<Rightarrow> 'a tmpfs \<Rightarrow> 'a tmpfs option" where
  "tmp_close as a fs = do {
     n \<leftarrow> tn_at fs a;
     if vn_refcount n = 0 then Some fs else drop_ref as a fs
   }"

section \<open>Directories\<close>

definition tmp_walk :: "nat \<Rightarrow> bytes \<Rightarrow> 'a tmpfs \<Rightarrow> nat option option" where
  "tmp_walk d name fs = map_option (\<lambda>n. find_child n name) (tn_at fs d)"

definition tmp_readdir :: "nat \<Rightarrow> nat \<Rightarrow> 'a tmpfs \<Rightarrow> ((bytes \<times> u32) option \<times> 'a tmpfs) option" where
  "tmp_readdir d index fs = do {
     n \<leftarrow> tn_at fs d;
     if tn_type n \<noteq> VFS_DIRECTORY then Some (None, fs)
     else if index < length (tn_children n) then do {
       c \<leftarrow> tn_at fs (snd (tn_children n ! index));
       let de = (take 127 (fst (tn_children n ! index)), tn_inode c)
       in Some (Some de, fs\<lparr> tmp_de := de \<rparr>) }
     else Some (None, fs)
   }"

definition add_dirent :: "bool \<Rightarrow> nat \<Rightarrow> bytes \<Rightarrow> nat \<Rightarrow> 'a tmpfs \<Rightarrow> (int \<times> 'a tmpfs) option" where
  "add_dirent mem d name a fs = do {
     dir \<leftarrow> tn_at fs d;
     if find_dirent dir name \<noteq> None then Some (-1, fs)
     else if \<not> mem then Some (-1, fs)
     else do {
       fs1 \<leftarrow> tn_upd d (\<lambda>n. n\<lparr> tn_children := (name_field name, a) # tn_children n \<rparr>) fs;
       fs2 \<leftarrow> tn_upd a (\<lambda>n. n\<lparr> tn_nlink := tn_nlink n + 1 \<rparr>) fs1;
       fs3 \<leftarrow> tn_upd a (\<lambda>n. n\<lparr> vn_refcount := vn_refcount n + 1 \<rparr>) fs2;
       Some (0, fs3) }
   }"

text \<open>\<open>_alloc_inode\<close> at the address that \<open>kmalloc\<close> returned.\<close>
definition alloc_inode :: "nat \<Rightarrow> u32 \<Rightarrow> 'a tmpfs \<Rightarrow> 'a tmpfs" where
  "alloc_inode a type fs =
     (tn_put a (zero_node\<lparr> tn_type := type, tn_inode := tmpfs_inode_ctr fs \<rparr>) fs)\<lparr> tmpfs_inode_ctr := tmpfs_inode_ctr fs + 1 \<rparr>"

text \<open>The common body of \<open>_tmp_create\<close> and \<open>_tmp_mkdir\<close>; \<open>al\<close> and \<open>mem\<close> are the answers of the two allocations.\<close>
definition tmp_make :: "'a as_ops \<Rightarrow> u32 \<Rightarrow> nat option \<Rightarrow> bool \<Rightarrow> nat \<Rightarrow> bytes \<Rightarrow> 'a tmpfs \<Rightarrow> (int \<times> 'a tmpfs) option" where
  "tmp_make as type al mem d name fs = do {
     dir \<leftarrow> tn_at fs d;
     if tn_type dir \<noteq> VFS_DIRECTORY then Some (-1, fs)
     else case al of None \<Rightarrow> Some (-1, fs)
       | Some a \<Rightarrow> do {
           fs1 \<leftarrow> tn_upd a (init_vnode name) (alloc_inode a type fs);
           (r, fs2) \<leftarrow> add_dirent mem d name a fs1;
           if r \<noteq> 0 then do { fs3 \<leftarrow> free_inode as a fs2; Some (-1, fs3) } else Some (0, fs2) }
   }"

definition tmp_create :: "'a as_ops \<Rightarrow> nat option \<Rightarrow> bool \<Rightarrow> nat \<Rightarrow> bytes \<Rightarrow> 'a tmpfs \<Rightarrow> (int \<times> 'a tmpfs) option" where
  "tmp_create as al mem d name fs = tmp_make as VFS_FILE al mem d name fs"

definition tmp_mkdir :: "'a as_ops \<Rightarrow> nat option \<Rightarrow> bool \<Rightarrow> nat \<Rightarrow> bytes \<Rightarrow> 'a tmpfs \<Rightarrow> (int \<times> 'a tmpfs) option" where
  "tmp_mkdir as al mem d name fs = tmp_make as VFS_DIRECTORY al mem d name fs"

definition del_nth :: "nat \<Rightarrow> 'b list \<Rightarrow> 'b list" where
  "del_nth i xs = take i xs @ drop (Suc i) xs"

text \<open>\<open>if (ino->nlink) ino->nlink--\<close>.\<close>
definition nlink_dec :: "tmpfs_node \<Rightarrow> tmpfs_node" where
  "nlink_dec n = (if tn_nlink n \<noteq> 0 then n\<lparr> tn_nlink := tn_nlink n - 1 \<rparr> else n)"

definition tmp_delete :: "'a as_ops \<Rightarrow> nat \<Rightarrow> bytes \<Rightarrow> 'a tmpfs \<Rightarrow> (int \<times> 'a tmpfs) option" where
  "tmp_delete as d name fs = do {
     dir \<leftarrow> tn_at fs d;
     if tn_type dir \<noteq> VFS_DIRECTORY then Some (-1, fs)
     else case find_name name (tn_children dir) of
         None \<Rightarrow> Some (-1, fs)
       | Some i \<Rightarrow>
           let ino = snd (tn_children dir ! i)
           in do {
             fs1 \<leftarrow> tn_upd d (\<lambda>n. n\<lparr> tn_children := del_nth i (tn_children n) \<rparr>) fs;
             fs2 \<leftarrow> tn_upd ino nlink_dec fs1;
             fs3 \<leftarrow> drop_ref as ino fs2;
             Some (0, fs3) }
   }"

definition tmp_rmdir :: "'a as_ops \<Rightarrow> nat \<Rightarrow> bytes \<Rightarrow> 'a tmpfs \<Rightarrow> (int \<times> 'a tmpfs) option" where
  "tmp_rmdir as d name fs = do {
     dir \<leftarrow> tn_at fs d;
     if tn_type dir \<noteq> VFS_DIRECTORY then Some (-1, fs)
     else case find_dirent dir name of
         None \<Rightarrow> Some (-1, fs)
       | Some i \<Rightarrow> do {
           c \<leftarrow> tn_at fs (snd (tn_children dir ! i));
           if tn_type c \<noteq> VFS_DIRECTORY \<or> tn_children c \<noteq> [] then Some (-1, fs)
           else tmp_delete as d name fs }
   }"

definition tmp_rename :: "nat \<Rightarrow> bytes \<Rightarrow> bytes \<Rightarrow> 'a tmpfs \<Rightarrow> (int \<times> 'a tmpfs) option" where
  "tmp_rename d oldname newname fs = do {
     dir \<leftarrow> tn_at fs d;
     if tn_type dir \<noteq> VFS_DIRECTORY then Some (-1, fs)
     else case find_dirent dir oldname of
         None \<Rightarrow> Some (-1, fs)
       | Some i \<Rightarrow>
           if find_dirent dir newname \<noteq> None then Some (-1, fs)
           else let ino = snd (tn_children dir ! i)
                in do {
                  fs1 \<leftarrow> tn_upd d (\<lambda>n. n\<lparr> tn_children := (tn_children n)[i := (name_field newname, ino)] \<rparr>) fs;
                  fs2 \<leftarrow> tn_upd ino (\<lambda>n. if tn_nlink n \<le> 1 then n\<lparr> vn_name := take 127 newname \<rparr> else n) fs1;
                  Some (0, fs2) }
   }"

definition tmp_rename2 :: "bool \<Rightarrow> nat \<Rightarrow> bytes \<Rightarrow> nat \<Rightarrow> bytes \<Rightarrow> 'a tmpfs \<Rightarrow> (int \<times> 'a tmpfs) option" where
  "tmp_rename2 mem olddir oldname newdir newname fs = do {
     od \<leftarrow> tn_at fs olddir;
     nd \<leftarrow> tn_at fs newdir;
     if tn_type od \<noteq> VFS_DIRECTORY then Some (-1, fs)
     else if tn_type nd \<noteq> VFS_DIRECTORY then Some (-1, fs)
     else case find_dirent od oldname of
         None \<Rightarrow> Some (-1, fs)
       | Some i \<Rightarrow>
           if find_dirent nd newname \<noteq> None then Some (-1, fs)
           else if \<not> mem then Some (-1, fs)
           else let ino = snd (tn_children od ! i)
                in do {
                  fs1 \<leftarrow> tn_upd olddir (\<lambda>n. n\<lparr> tn_children := del_nth i (tn_children n) \<rparr>) fs;
                  fs2 \<leftarrow> tn_upd ino nlink_dec fs1;
                  fs3 \<leftarrow> tn_upd newdir (\<lambda>n. n\<lparr> tn_children := (name_field newname, ino) # tn_children n \<rparr>) fs2;
                  fs4 \<leftarrow> tn_upd ino (\<lambda>n. n\<lparr> tn_nlink := tn_nlink n + 1 \<rparr>) fs3;
                  fs5 \<leftarrow> tn_upd ino (\<lambda>n. n\<lparr> vn_name := take 127 newname \<rparr>) fs4;
                  Some (0, fs5) }
   }"

definition tmp_link :: "bool \<Rightarrow> nat \<Rightarrow> bytes \<Rightarrow> nat \<Rightarrow> 'a tmpfs \<Rightarrow> (int \<times> 'a tmpfs) option" where
  "tmp_link mem d name target fs = do {
     dir \<leftarrow> tn_at fs d;
     if tn_type dir \<noteq> VFS_DIRECTORY then Some (-1, fs)
     else do {
       ino \<leftarrow> tn_at fs target;
       if tn_type ino = VFS_DIRECTORY then Some (-1, fs) else add_dirent mem d name target fs }
   }"

section \<open>Instances\<close>

definition root_init :: "nat \<Rightarrow> bytes \<Rightarrow> 'a tmpfs \<Rightarrow> 'a tmpfs" where
  "root_init a name fs =
     (tn_put a ((init_vnode name (zero_node\<lparr> tn_type := VFS_DIRECTORY, tn_inode := tmpfs_inode_ctr fs \<rparr>))\<lparr> vn_refcount := 1 \<rparr>) fs)
       \<lparr> tmpfs_inode_ctr := tmpfs_inode_ctr fs + 1 \<rparr>"

definition tmpfs_create_root :: "nat option \<Rightarrow> bytes option \<Rightarrow> 'a tmpfs \<Rightarrow> nat option \<times> 'a tmpfs" where
  "tmpfs_create_root al name fs =
     (case al of None \<Rightarrow> (None, fs)
      | Some a \<Rightarrow> (Some a, root_init a (case name of Some nm \<Rightarrow> nm | None \<Rightarrow> [0x72, 0x6F, 0x6F, 0x74, 0x66, 0x73]) fs))"

definition tmpfs_init :: "'a tmpfs \<Rightarrow> 'a tmpfs" where
  "tmpfs_init fs = (if tmpfs_ready fs then fs
     else (root_init tmpfs_root_node [0x74, 0x6D, 0x70] fs)\<lparr> tmpfs_ready := True \<rparr>)"

definition tmpfs_get_root :: nat where
  "tmpfs_get_root = tmpfs_root_node"

end
