(* ===== verification/Tmpfs_Props.thy ===== *)
theory Tmpfs_Props
  imports Tmpfs
begin

text \<open>
  The inodes of tmpfs are well typed and their counts are right in every reachable state, and no
  operation follows a pointer to a freed inode (preservation and progress); and the directories are
  finite maps from names to inodes.

  Between two assignments of an operation the counts are off by one. The invariant therefore carries
  two offsets: how many more entries than \<open>nlink\<close> an inode may have, and by how much its reference
  count exceeds its links, open handles and the reference of a root.
\<close>

section \<open>Invariant\<close>

definition entries :: "nat \<Rightarrow> tmpfs_node \<Rightarrow> nat" where
  "entries c n = count_list (map snd (tn_children n)) c"

definition links :: "'a tmpfs \<Rightarrow> nat \<Rightarrow> nat" where
  "links fs c = heap_sum (entries c) (tf_nodes fs)"

definition node_ok :: "bool \<Rightarrow> nat \<Rightarrow> tmpfs_node \<Rightarrow> bool" where
  "node_ok ready a n =
     (if a = tmpfs_root_node \<and> \<not> ready then n = zero_node
      else (tn_type n = VFS_FILE \<or> tn_type n = VFS_DIRECTORY) \<and> (tn_type n = VFS_FILE \<longrightarrow> tn_children n = []) \<and>
        (tn_type n = VFS_DIRECTORY \<longrightarrow> tn_nlink n \<le> 1) \<and>
        vn_type n = tn_type n \<and> vn_inode n = tn_inode n \<and>
        list_all (\<lambda>e. length (fst e) < TMPFS_NAME_LEN) (tn_children n) \<and> length (vn_name n) < TMPFS_NAME_LEN)"

definition node_inv :: "'a tmpfs \<Rightarrow> (nat \<Rightarrow> nat) \<Rightarrow> nat set \<Rightarrow> (nat \<Rightarrow> int) \<Rightarrow> (nat \<Rightarrow> int) \<Rightarrow> nat \<Rightarrow> tmpfs_node \<Rightarrow> bool" where
  "node_inv fs op R X Z a n =
     (node_ok (tmpfs_ready fs) a n \<and> int (links fs a) \<le> uint (tn_nlink n) + X a \<and>
      uint (vn_refcount n) = uint (tn_nlink n) + int (op a) + of_bool (a \<in> R) + Z a \<and>
      (\<forall>c \<in> snd ` set (tn_children n). tn_at fs c \<noteq> None))"

definition tmp_inv :: "'a tmpfs \<Rightarrow> (nat \<Rightarrow> nat) \<Rightarrow> nat set \<Rightarrow> (nat \<Rightarrow> int) \<Rightarrow> (nat \<Rightarrow> int) \<Rightarrow> bool" where
  "tmp_inv fs op R X Z =
     (distinct (map fst (tf_nodes fs)) \<and> tn_at fs tmpfs_root_node \<noteq> None \<and>
      (\<forall>a n. tn_at fs a = Some n \<longrightarrow> node_inv fs op R X Z a n) \<and>
      (\<forall>a. tn_at fs a = None \<longrightarrow> op a = 0 \<and> a \<notin> R))"

lemma tn_at_put: "tn_at (tn_put a n fs) b = (if b = a then Some n else tn_at fs b)"
  by (simp add: tn_at_def tn_put_def heap_lookup_update)

lemma tn_put_sel [simp]:
  "tmpfs_inode_ctr (tn_put a n fs) = tmpfs_inode_ctr fs" "tmpfs_ready (tn_put a n fs) = tmpfs_ready fs"
  "tmp_de (tn_put a n fs) = tmp_de fs" "tf_as (tn_put a n fs) = tf_as fs"
  by (simp_all add: tn_put_def)

lemma tn_upd_some [simp]: "tn_at fs a = Some n \<Longrightarrow> tn_upd a f fs = Some (tn_put a (f n) fs)"
  by (simp add: tn_upd_def)

lemma links_put:
  assumes "tn_at fs a = Some n"
  shows "int (links (tn_put a n' fs) c) = int (links fs c) - int (entries c n) + int (entries c n')"
  using heap_sum_update_old [of "tf_nodes fs" a n "entries c" n'] assms
  by (simp add: links_def tn_put_def tn_at_def)

lemma entries_links: "tn_at fs a = Some n \<Longrightarrow> entries c n \<le> links fs c"
  unfolding links_def tn_at_def by (rule heap_sum_member)

lemma node_invD:
  assumes "tmp_inv fs op R X Z" "tn_at fs a = Some n" shows "node_inv fs op R X Z a n"
  using assms unfolding tmp_inv_def by blast

lemma keys_put: "distinct (map fst (tf_nodes fs)) \<Longrightarrow> distinct (map fst (tf_nodes (tn_put a n fs)))"
  by (simp add: tn_put_def heap_keys_update)

lemma offset_zero [simp]: "(\<lambda>_. 0 :: int)(a := 0) = (\<lambda>_. 0)"
  by auto

text \<open>A store to a live inode.\<close>
lemma tmp_inv_put:
  assumes inv: "tmp_inv fs op R X Z" and a: "tn_at fs a = Some n" and ok: "node_ok (tmpfs_ready fs) a n'"
    and live: "\<forall>c \<in> snd ` set (tn_children n'). tn_at fs c \<noteq> None"
    and X': "\<And>b. X' b = X b + int (entries b n') - int (entries b n) +
        (if b = a then uint (tn_nlink n) - uint (tn_nlink n') else 0)"
    and Z': "\<And>b. Z' b = Z b + (if b = a then uint (vn_refcount n') - uint (vn_refcount n) -
        (uint (tn_nlink n') - uint (tn_nlink n)) else 0)"
  shows "tmp_inv (tn_put a n' fs) op R X' Z'"
proof -
  have "node_inv (tn_put a n' fs) op R X' Z' b m" if "tn_at (tn_put a n' fs) b = Some m" for b m
  proof (cases "b = a")
    case True
    then have "m = n'" using that by (simp add: tn_at_put)
    with True node_invD [OF inv a] ok live show ?thesis
      by (auto simp: node_inv_def links_put [OF a] tn_at_put X' Z')
  next
    case False
    then have "tn_at fs b = Some m" using that by (simp add: tn_at_put)
    from node_invD [OF inv this] False show ?thesis
      by (auto simp: node_inv_def links_put [OF a] tn_at_put X' Z')
  qed
  moreover have "tn_at (tn_put a n' fs) tmpfs_root_node \<noteq> None"
    "\<And>b. tn_at (tn_put a n' fs) b = None \<Longrightarrow> op b = 0 \<and> b \<notin> R"
    using inv a by (auto simp: tmp_inv_def tn_at_put split: if_splits)
  ultimately show ?thesis using inv keys_put unfolding tmp_inv_def by blast
qed
text \<open>The inodes a client may pass: live ones, the static root only once it is set up.\<close>
definition usable :: "'a tmpfs \<Rightarrow> nat \<Rightarrow> bool" where
  "usable fs a = (tn_at fs a \<noteq> None \<and> (a = tmpfs_root_node \<longrightarrow> tmpfs_ready fs))"

lemma usable_put [simp]: "tn_at fs a = Some n \<Longrightarrow> usable (tn_put a n' fs) b = usable fs b"
  by (auto simp: usable_def tn_at_put)

definition typed_node :: "tmpfs_node \<Rightarrow> bool" where
  "typed_node n = ((tn_type n = VFS_FILE \<or> tn_type n = VFS_DIRECTORY) \<and> (tn_type n = VFS_FILE \<longrightarrow> tn_children n = []) \<and>
     (tn_type n = VFS_DIRECTORY \<longrightarrow> tn_nlink n \<le> 1) \<and> vn_type n = tn_type n \<and> vn_inode n = tn_inode n \<and>
     list_all (\<lambda>e. length (fst e) < TMPFS_NAME_LEN) (tn_children n) \<and> length (vn_name n) < TMPFS_NAME_LEN)"

lemma node_ok_typed: "usable fs a \<Longrightarrow> node_ok (tmpfs_ready fs) a n = typed_node n"
  by (auto simp: usable_def node_ok_def typed_node_def)

lemma dir_usable:
  "tmp_inv fs op R X Z \<Longrightarrow> tn_at fs d = Some n \<Longrightarrow> tn_type n = VFS_DIRECTORY \<Longrightarrow> usable fs d"
  by (auto simp: usable_def node_inv_def node_ok_def zero_node_def dest!: node_invD split: if_splits)

lemma inv_typed: "tmp_inv fs op R X Z \<Longrightarrow> tn_at fs a = Some n \<Longrightarrow> usable fs a \<Longrightarrow> typed_node n"
  using node_invD node_ok_typed unfolding node_inv_def by blast

lemma inv_entries:
  assumes inv: "tmp_inv fs op R X Z" and d: "tn_at fs d = Some n" "tn_type n = VFS_DIRECTORY"
    and short: "list_all (\<lambda>e. length (fst e) < TMPFS_NAME_LEN) xs" and live: "\<forall>c \<in> snd ` set xs. tn_at fs c \<noteq> None"
    and X': "\<And>b. X' b = X b + int (count_list (map snd xs) b) - int (count_list (map snd (tn_children n)) b)"
  shows "tmp_inv (tn_put d (n\<lparr> tn_children := xs \<rparr>) fs) op R X' Z"
proof (rule tmp_inv_put [OF inv d(1)])
  note u = dir_usable [OF inv d]
  show "node_ok (tmpfs_ready fs) d (n\<lparr> tn_children := xs \<rparr>)"
    using inv_typed [OF inv d(1) u] d(2) short by (simp add: node_ok_typed [OF u] typed_node_def)
qed (use live X' in \<open>auto simp: entries_def\<close>)

lemma inv_fields:
  assumes inv: "tmp_inv fs op R X Z" and a: "tn_at fs a = Some n" "usable fs a" and t: "typed_node n'"
    and same: "tn_children n' = tn_children n"
    and X': "X' = X(a := X a + uint (tn_nlink n) - uint (tn_nlink n'))"
    and Z': "Z' = Z(a := Z a + uint (vn_refcount n') - uint (vn_refcount n) -
        (uint (tn_nlink n') - uint (tn_nlink n)))"
  shows "tmp_inv (tn_put a n' fs) op R X' Z'"
proof (rule tmp_inv_put [OF inv a(1)])
  show "node_ok (tmpfs_ready fs) a n'" using t node_ok_typed [OF a(2)] by simp
  show "\<forall>c\<in>snd ` set (tn_children n'). tn_at fs c \<noteq> None"
    using node_invD [OF inv a(1)] same by (simp add: node_inv_def)
qed (use same X' Z' in \<open>auto simp: entries_def\<close>)

lemma uint_inc: "uint (w :: u32) < 2 ^ 32 - 1 \<Longrightarrow> uint (w + 1) = uint w + 1"
  by (simp add: uint_word_ariths)

lemma uint_dec: "w \<noteq> 0 \<Longrightarrow> uint (w - 1 :: u32) = uint w - 1"
proof -
  assume "w \<noteq> 0"
  then have "uint w \<noteq> 0" by (simp add: uint_0_iff)
  moreover have "0 \<le> uint w" by simp
  ultimately have "1 \<le> uint w" by presburger
  moreover have "uint w < 2 ^ LENGTH(32)" by (rule uint_lt2p)
  ultimately show ?thesis by (simp add: uint_word_ariths)
qed

lemma u32_le_1: "(w :: u32) \<le> 1 \<longleftrightarrow> w = 0 \<or> w = 1"
proof
  assume "w \<le> 1"
  then have "unat w = 0 \<or> unat w = unat (1 :: u32)" unfolding word_le_nat_alt by (simp add: le_Suc_eq)
  then show "w = 0 \<or> w = 1" by (simp only: unat_eq_zero word_unat_eq_iff [symmetric])
qed auto

lemma inv_nlink_inc:
  assumes inv: "tmp_inv fs op R X Z" and a: "tn_at fs a = Some n" "usable fs a"
    and b: "uint (tn_nlink n) < 2 ^ 32 - 1" "tn_type n = VFS_FILE \<or> tn_nlink n = 0"
  shows "tmp_inv (tn_put a (n\<lparr> tn_nlink := tn_nlink n + 1 \<rparr>) fs) op R (X(a := X a - 1)) (Z(a := Z a - 1))"
  by (rule inv_fields [OF inv a]) (use inv_typed [OF inv a] b in \<open>auto simp: typed_node_def uint_inc\<close>)

lemma inv_nlink_dec:
  assumes inv: "tmp_inv fs op R X Z" and a: "tn_at fs a = Some n" "usable fs a" and b: "tn_nlink n \<noteq> 0"
  shows "tmp_inv (tn_put a (nlink_dec n) fs) op R (X(a := X a + 1)) (Z(a := Z a + 1))"
proof (rule inv_fields [OF inv a])
  show "typed_node (nlink_dec n)" using inv_typed [OF inv a] b by (auto simp: typed_node_def nlink_dec_def u32_le_1)
qed (use b in \<open>auto simp: nlink_dec_def uint_dec\<close>)

lemma inv_ref_inc:
  assumes inv: "tmp_inv fs op R X Z" and a: "tn_at fs a = Some n" "usable fs a" and b: "uint (vn_refcount n) < 2 ^ 32 - 1"
  shows "tmp_inv (tn_put a (n\<lparr> vn_refcount := vn_refcount n + 1 \<rparr>) fs) op R X (Z(a := Z a + 1))"
  by (rule inv_fields [OF inv a]) (use inv_typed [OF inv a] b in \<open>auto simp: typed_node_def uint_inc\<close>)

lemma inv_ref_dec:
  assumes inv: "tmp_inv fs op R X Z" and a: "tn_at fs a = Some n" "usable fs a" and b: "vn_refcount n \<noteq> 0"
  shows "tmp_inv (tn_put a (n\<lparr> vn_refcount := vn_refcount n - 1 \<rparr>) fs) op R X (Z(a := Z a - 1))"
  by (rule inv_fields [OF inv a]) (use inv_typed [OF inv a] b in \<open>auto simp: typed_node_def uint_dec\<close>)
text \<open>Fields outside the heap do not matter.\<close>
lemma tmp_inv_other [simp]:
  "tmp_inv (fs\<lparr> tmpfs_inode_ctr := i \<rparr>) op R X Z = tmp_inv fs op R X Z"
  "tmp_inv (fs\<lparr> tmp_de := e \<rparr>) op R X Z = tmp_inv fs op R X Z"
  "tmp_inv (fs\<lparr> tf_as := x \<rparr>) op R X Z = tmp_inv fs op R X Z"
  "tn_at (fs\<lparr> tmpfs_inode_ctr := i \<rparr>) = tn_at fs" "tn_at (fs\<lparr> tmp_de := e \<rparr>) = tn_at fs"
  "tn_at (fs\<lparr> tf_as := x \<rparr>) = tn_at fs" "tn_at (fs\<lparr> tmpfs_ready := b \<rparr>) = tn_at fs"
  by (simp_all add: tmp_inv_def node_inv_def links_def tn_at_def fun_eq_iff)

lemma entries_zero: "entries c n = 0 \<longleftrightarrow> c \<notin> snd ` set (tn_children n)"
  by (simp add: entries_def count_list_0_iff)

lemma links_zero:
  "distinct (map fst (tf_nodes fs)) \<Longrightarrow> links fs c = 0 \<longleftrightarrow> (\<forall>a n. tn_at fs a = Some n \<longrightarrow> c \<notin> snd ` set (tn_children n))"
  unfolding links_def tn_at_def by (simp add: heap_sum_zero_map_of entries_zero)

lemma dead_links: "tmp_inv fs op R X Z \<Longrightarrow> tn_at fs c = None \<Longrightarrow> links fs c = 0"
  unfolding tmp_inv_def node_inv_def by (subst links_zero) fastforce+

lemma inv_new:
  assumes inv: "tmp_inv fs op R (\<lambda>_. 0) (\<lambda>_. 0)" and a: "tn_at fs a = None" and ok: "typed_node n"
    and n: "tn_nlink n = 0" "tn_children n = []" "uint (vn_refcount n) = of_bool (a \<in> R')" and R': "R' = R \<or> R' = insert a R"
  shows "tmp_inv (tn_put a n fs) op R' (\<lambda>_. 0) (\<lambda>_. 0)"
proof -
  have a0: "a \<noteq> tmpfs_root_node" "op a = 0" using inv a unfolding tmp_inv_def by metis+
  have l: "links (tn_put a n fs) c = links fs c" for c
    using heap_sum_update_new [of "tf_nodes fs" a "entries c" n] a n(2)
    by (simp add: links_def tn_put_def tn_at_def entries_def)
  have "node_inv (tn_put a n fs) op R' (\<lambda>_. 0) (\<lambda>_. 0) b m" if "tn_at (tn_put a n fs) b = Some m" for b m
  proof (cases "b = a")
    case True
    then have "m = n" using that by (simp add: tn_at_put)
    with True show ?thesis using ok n a0 dead_links [OF inv a]
      by (auto simp: node_inv_def l node_ok_def typed_node_def)
  next
    case False
    then have "tn_at fs b = Some m" using that by (simp add: tn_at_put)
    from node_invD [OF inv this] False R' show ?thesis by (auto simp: node_inv_def l tn_at_put)
  qed
  moreover have "tn_at (tn_put a n fs) tmpfs_root_node \<noteq> None"
    "\<And>b. tn_at (tn_put a n fs) b = None \<Longrightarrow> op b = 0 \<and> b \<notin> R'"
    using inv R' by (auto simp: tmp_inv_def tn_at_put split: if_splits)
  ultimately show ?thesis using inv keys_put unfolding tmp_inv_def by blast
qed

text \<open>The release of an inode that nothing refers to.\<close>
lemma tmp_inv_free:
  assumes inv: "tmp_inv fs op R (\<lambda>_. 0) (\<lambda>_. 0)" and a: "tn_at fs a = Some n" "vn_refcount n = 0"
  shows "\<exists>fs'. free_inode as a fs = Some fs' \<and> tmp_inv fs' op R (\<lambda>_. 0) (\<lambda>_. 0)"
proof (cases "a = tmpfs_root_node")
  case True
  with inv show ?thesis by (simp add: free_inode_def)
next
  case False
  define fs' where "fs' = fs\<lparr> tf_as := vfs_as_release as a (vn_inode n) (tf_as fs), tf_nodes := AList.delete a (tf_nodes fs) \<rparr>"
  have at: "tn_at fs' b = (if b = a then None else tn_at fs b)" for b
    by (simp add: fs'_def tn_at_def heap_lookup_delete)
  have "0 = uint (tn_nlink n) + int (op a) + of_bool (a \<in> R)" and nl: "int (links fs a) \<le> uint (tn_nlink n)"
    using node_invD [OF inv a(1)] a(2) by (simp_all add: node_inv_def)
  moreover have "0 \<le> uint (tn_nlink n)" "0 \<le> (of_bool (a \<in> R) :: int)" by simp_all
  ultimately have "uint (tn_nlink n) = 0" "int (op a) = 0" "(of_bool (a \<in> R) :: int) = 0" by linarith+
  then have z: "op a = 0" "a \<notin> R" "links fs a = 0" using nl by simp_all
  have d: "distinct (map fst (tf_nodes fs))" using inv by (simp add: tmp_inv_def)
  have l: "links fs' b \<le> links fs b" for b
    using heap_sum_delete [OF d, of a n "entries b"] a(1) by (simp add: links_def fs'_def tn_at_def)
  have "node_inv fs' op R (\<lambda>_. 0) (\<lambda>_. 0) b m" if b: "tn_at fs b = Some m" for b m
  proof -
    have "a \<notin> snd ` set (tn_children m)" using z(3) links_zero [OF d] b by blast
    moreover have "int (links fs' b) \<le> int (links fs b)" using l by simp
    moreover have "tmpfs_ready fs' = tmpfs_ready fs" by (simp add: fs'_def)
    ultimately show ?thesis using node_invD [OF inv b] unfolding node_inv_def at by auto
  qed
  then have "tmp_inv fs' op R (\<lambda>_. 0) (\<lambda>_. 0)"
    using inv False z(1,2) unfolding tmp_inv_def at by (auto simp: fs'_def heap_keys_delete split: if_splits)
  then show ?thesis using a(1) False by (auto simp: free_inode_def fs'_def)
qed

lemma find_name_nth: "find_name name xs = Some i \<Longrightarrow> i < length xs \<and> fst (xs ! i) = name"
  by (induction xs arbitrary: i) (auto split: if_splits)

lemma count_del_nth:
  assumes "i < length xs"
  shows "int (count_list (map snd (del_nth i xs)) b) = int (count_list (map snd xs) b) - of_bool (b = snd (xs ! i))"
  using arg_cong [OF id_take_nth_drop [OF assms], of "\<lambda>l. count_list (map snd l) b"] by (simp add: del_nth_def)

lemma set_del_nth: "set (del_nth i xs) \<subseteq> set xs"
  unfolding del_nth_def by (auto dest: in_set_takeD in_set_dropD)

lemma list_all_del_nth: "list_all P xs \<Longrightarrow> list_all P (del_nth i xs)"
  using set_del_nth by (fastforce simp: list_all_iff)
section \<open>Operations\<close>

lemma count_push: "int (count_list (map snd ((nm, a) # xs)) b) = int (count_list (map snd xs) b) + of_bool (b = a)"
  by simp

text \<open>A new entry for a live inode.\<close>
lemma inv_push:
  assumes inv: "tmp_inv fs op R X Z" and d: "tn_at fs d = Some n" "tn_type n = VFS_DIRECTORY" and a: "tn_at fs a \<noteq> None"
  shows "tmp_inv (tn_put d (n\<lparr> tn_children := (name_field name, a) # tn_children n \<rparr>) fs) op R (X(a := X a + 1)) Z"
proof (rule inv_entries [OF inv d])
  have "typed_node n" using inv_typed [OF inv d(1) dir_usable [OF inv d]] .
  then show "list_all (\<lambda>e. length (fst e) < TMPFS_NAME_LEN) ((name_field name, a) # tn_children n)"
    by (simp add: typed_node_def name_field_def)
  show "\<forall>c\<in>snd ` set ((name_field name, a) # tn_children n). tn_at fs c \<noteq> None"
    using node_invD [OF inv d(1)] a by (simp add: node_inv_def)
qed (auto simp: count_push)

text \<open>The removal of an entry.\<close>
lemma inv_remove:
  assumes inv: "tmp_inv fs op R X Z" and d: "tn_at fs d = Some n" "tn_type n = VFS_DIRECTORY"
    and i: "i < length (tn_children n)" and c: "c = snd (tn_children n ! i)"
  shows "tmp_inv (tn_put d (n\<lparr> tn_children := del_nth i (tn_children n) \<rparr>) fs) op R (X(c := X c - 1)) Z"
proof (rule inv_entries [OF inv d])
  have "typed_node n" using inv_typed [OF inv d(1) dir_usable [OF inv d]] .
  then show "list_all (\<lambda>e. length (fst e) < TMPFS_NAME_LEN) (del_nth i (tn_children n))"
    by (simp add: typed_node_def list_all_del_nth)
  show "\<forall>c\<in>snd ` set (del_nth i (tn_children n)). tn_at fs c \<noteq> None"
    using node_invD [OF inv d(1)] set_del_nth unfolding node_inv_def by fast
qed (simp add: count_del_nth [OF i] c)

text \<open>What the removed entry refers to is live and still has the link of that entry.\<close>
lemma entry_node:
  assumes inv: "tmp_inv fs op R (\<lambda>_. 0) (\<lambda>_. 0)" and d: "tn_at fs d = Some n" "tn_type n = VFS_DIRECTORY"
    and i: "i < length (tn_children n)" and c: "c = snd (tn_children n ! i)"
  obtains m where "tn_at fs c = Some m" "tn_nlink m \<noteq> 0" "vn_refcount m \<noteq> 0" "usable fs c"
proof -
  have mem: "c \<in> snd ` set (tn_children n)" using i c by simp
  then obtain m where m: "tn_at fs c = Some m" using node_invD [OF inv d(1)] by (auto simp: node_inv_def)
  have "0 < links fs c" using entries_links [OF d(1), of c] mem entries_zero [of c n] by linarith
  then have nl: "0 < uint (tn_nlink m)" and "uint (tn_nlink m) \<le> uint (vn_refcount m)"
    using node_invD [OF inv m] by (auto simp: node_inv_def)
  then have ne: "tn_nlink m \<noteq> 0" "vn_refcount m \<noteq> 0" by auto
  have "usable fs c" using node_invD [OF inv m] ne(1) m
    by (auto simp: usable_def node_inv_def node_ok_def zero_node_def split: if_splits)
  then show thesis using that m ne by blast
qed

lemma drop_ref_inv:
  assumes inv: "tmp_inv fs op R (\<lambda>_. 0) ((\<lambda>_. 0)(a := 1))" and a: "tn_at fs a = Some n" "usable fs a" "vn_refcount n \<noteq> 0"
  shows "\<exists>fs'. drop_ref as a fs = Some fs' \<and> tmp_inv fs' op R (\<lambda>_. 0) (\<lambda>_. 0)"
proof -
  let ?fs = "tn_put a (n\<lparr> vn_refcount := vn_refcount n - 1 \<rparr>) fs"
  have i: "tmp_inv ?fs op R (\<lambda>_. 0) (\<lambda>_. 0)" using inv_ref_dec [OF inv a] by simp
  show ?thesis
  proof (cases "vn_refcount n = 1")
    case True
    have "tn_at ?fs a = Some (n\<lparr> vn_refcount := vn_refcount n - 1 \<rparr>)" by (simp add: tn_at_put)
    from tmp_inv_free [OF i this] True a(1) show ?thesis by (simp add: drop_ref_def Let_def)
  next
    case False
    then show ?thesis using i a(1) by (simp add: drop_ref_def Let_def)
  qed
qed

lemma tmp_delete_inv:
  assumes inv: "tmp_inv fs op R (\<lambda>_. 0) (\<lambda>_. 0)" and d: "tn_at fs d = Some n"
  shows "\<exists>r fs'. tmp_delete as d name fs = Some (r, fs') \<and> tmp_inv fs' op R (\<lambda>_. 0) (\<lambda>_. 0)"
proof (cases "tn_type n = VFS_DIRECTORY \<and> find_name name (tn_children n) \<noteq> None")
  case False
  then show ?thesis using inv d by (auto simp: tmp_delete_def)
next
  case True
  then obtain i where t: "tn_type n = VFS_DIRECTORY" and f: "find_name name (tn_children n) = Some i" by blast
  define c where "c = snd (tn_children n ! i)"
  have i: "i < length (tn_children n)" using find_name_nth [OF f] by simp
  obtain m where m: "tn_at fs c = Some m" "tn_nlink m \<noteq> 0" "vn_refcount m \<noteq> 0" "usable fs c"
    using entry_node [OF inv d t i c_def] .
  let ?f1 = "tn_put d (n\<lparr> tn_children := del_nth i (tn_children n) \<rparr>) fs"
  have i1: "tmp_inv ?f1 op R ((\<lambda>_. 0)(c := -1)) (\<lambda>_. 0)" using inv_remove [OF inv d t i c_def] by simp
  obtain m1 where m1: "tn_at ?f1 c = Some m1" "tn_nlink m1 \<noteq> 0" "vn_refcount m1 \<noteq> 0"
    using m d by (cases "c = d") (simp_all add: tn_at_put)
  have u1: "usable ?f1 c" using m(4) d by simp
  let ?f2 = "tn_put c (nlink_dec m1) ?f1"
  have i2: "tmp_inv ?f2 op R (\<lambda>_. 0) ((\<lambda>_. 0)(c := 1))" using inv_nlink_dec [OF i1 m1(1) u1 m1(2)] by simp
  have m2: "tn_at ?f2 c = Some (nlink_dec m1)" by (simp add: tn_at_put)
  have u2: "usable ?f2 c" using u1 m1(1) by simp
  have "vn_refcount (nlink_dec m1) \<noteq> 0" using m1(3) by (simp add: nlink_dec_def)
  from drop_ref_inv [OF i2 m2 u2 this] obtain fs' where "drop_ref as c ?f2 = Some fs'" "tmp_inv fs' op R (\<lambda>_. 0) (\<lambda>_. 0)"
    by blast
  then show ?thesis using d t f m1(1) by (simp add: tmp_delete_def c_def [symmetric] Let_def)
qed
lemma add_dirent_inv:
  assumes inv: "tmp_inv fs op R (\<lambda>_. 0) (\<lambda>_. 0)" and d: "tn_at fs d = Some n" "tn_type n = VFS_DIRECTORY"
    and a: "tn_at fs a = Some m" "usable fs a" "uint (vn_refcount m) < 2 ^ 32 - 1" "tn_type m = VFS_FILE \<or> tn_nlink m = 0"
  shows "\<exists>r fs'. add_dirent mem d name a fs = Some (r, fs') \<and> tmp_inv fs' op R (\<lambda>_. 0) (\<lambda>_. 0) \<and> (r \<noteq> 0 \<longrightarrow> fs' = fs)"
proof (cases "find_dirent n name \<noteq> None \<or> \<not> mem")
  case True
  then show ?thesis using inv d(1) by (auto simp: add_dirent_def)
next
  case False
  let ?f1 = "tn_put d (n\<lparr> tn_children := (name_field name, a) # tn_children n \<rparr>) fs"
  have i1: "tmp_inv ?f1 op R ((\<lambda>_. 0)(a := 1)) (\<lambda>_. 0)" using inv_push [OF inv d, of a] a(1) by simp
  obtain m1 where m1: "tn_at ?f1 a = Some m1" "vn_refcount m1 = vn_refcount m" "tn_nlink m1 = tn_nlink m" "tn_type m1 = tn_type m"
    using a d by (cases "a = d") (simp_all add: tn_at_put)
  have u1: "usable ?f1 a" using a(2) d(1) by simp
  have "uint (vn_refcount m) = uint (tn_nlink m) + int (op a) + of_bool (a \<in> R)"
    using node_invD [OF inv a(1)] by (simp add: node_inv_def)
  moreover have "0 \<le> (of_bool (a \<in> R) :: int)" by simp
  ultimately have lt: "uint (tn_nlink m1) < 2 ^ 32 - 1" using a(3) unfolding m1(3) by linarith
  let ?f2 = "tn_put a (m1\<lparr> tn_nlink := tn_nlink m1 + 1 \<rparr>) ?f1"
  have i2: "tmp_inv ?f2 op R (\<lambda>_. 0) ((\<lambda>_. 0)(a := -1))"
    using inv_nlink_inc [OF i1 m1(1) u1 lt] a(4) m1(3,4) by simp
  let ?m2 = "m1\<lparr> tn_nlink := tn_nlink m1 + 1 \<rparr>"
  have m2: "tn_at ?f2 a = Some ?m2" by (simp add: tn_at_put)
  have u2: "usable ?f2 a" using u1 m1(1) by simp
  have "tmp_inv (tn_put a (?m2\<lparr> vn_refcount := vn_refcount ?m2 + 1 \<rparr>) ?f2) op R (\<lambda>_. 0) (\<lambda>_. 0)"
    using inv_ref_inc [OF i2 m2 u2] a(3) m1(2) by simp
  then show ?thesis using False d(1) m1(1) m2 by (simp add: add_dirent_def)
qed

lemma tmp_make_inv:
  assumes inv: "tmp_inv fs op R (\<lambda>_. 0) (\<lambda>_. 0)" and d: "tn_at fs d = Some n"
    and al: "\<And>a. al = Some a \<Longrightarrow> tn_at fs a = None" and t: "t = VFS_FILE \<or> t = VFS_DIRECTORY"
  shows "\<exists>r fs'. tmp_make as t al mem d name fs = Some (r, fs') \<and> tmp_inv fs' op R (\<lambda>_. 0) (\<lambda>_. 0)"
proof (cases "tn_type n = VFS_DIRECTORY \<and> al \<noteq> None")
  case False
  then show ?thesis using inv d by (auto simp: tmp_make_def split: option.splits)
next
  case True
  then obtain a where n: "tn_type n = VFS_DIRECTORY" and a: "al = Some a" by blast
  define z where "z = zero_node\<lparr> tn_type := t, tn_inode := tmpfs_inode_ctr fs \<rparr>"
  define f1 where "f1 = (tn_put a (init_vnode name z) (alloc_inode a t fs))"
  have eq: "tn_upd a (init_vnode name) (alloc_inode a t fs) = Some f1"
    by (simp add: tn_upd_def alloc_inode_def tn_at_put z_def f1_def)
  have "a \<notin> R" using inv al [OF a] unfolding tmp_inv_def by blast
  then have "tmp_inv (tn_put a (init_vnode name z) fs) op R (\<lambda>_. 0) (\<lambda>_. 0)"
    using t by (intro inv_new [OF inv al [OF a]]) (auto simp: typed_node_def init_vnode_def z_def zero_node_def)
  moreover have "f1 = (tn_put a (init_vnode name z) fs)\<lparr> tmpfs_inode_ctr := tmpfs_inode_ctr fs + 1 \<rparr>"
    by (simp add: f1_def alloc_inode_def tn_put_def)
  ultimately have i1: "tmp_inv f1 op R (\<lambda>_. 0) (\<lambda>_. 0)" by simp
  have at: "tn_at f1 b = (if b = a then Some (init_vnode name z) else tn_at fs b)" for b
    by (simp add: f1_def alloc_inode_def tn_at_put)
  have ad: "a \<noteq> d" using al [OF a] d by auto
  have "a \<noteq> tmpfs_root_node" using inv al [OF a] unfolding tmp_inv_def by metis
  then have u: "usable f1 a" by (simp add: usable_def at)
  have dn: "tn_at f1 d = Some n" and an: "tn_at f1 a = Some (init_vnode name z)" using d ad by (simp_all add: at)
  have "uint (vn_refcount (init_vnode name z)) < 2 ^ 32 - 1"
    "tn_type (init_vnode name z) = VFS_FILE \<or> tn_nlink (init_vnode name z) = 0"
    by (simp_all add: init_vnode_def z_def zero_node_def)
  from add_dirent_inv [OF i1 dn n an u this] obtain r f2 where r: "add_dirent mem d name a f1 = Some (r, f2)"
    "tmp_inv f2 op R (\<lambda>_. 0) (\<lambda>_. 0)" "r \<noteq> 0 \<longrightarrow> f2 = f1" by blast
  show ?thesis
  proof (cases "r = 0")
    case True
    then show ?thesis using r d n a eq by (simp add: tmp_make_def)
  next
    case False
    obtain f3 where "free_inode as a f1 = Some f3" "tmp_inv f3 op R (\<lambda>_. 0) (\<lambda>_. 0)"
      using tmp_inv_free [OF i1, of a "init_vnode name z"] by (auto simp: at init_vnode_def)
    then show ?thesis using False r d n a eq by (simp add: tmp_make_def)
  qed
qed

lemma tmp_rename_inv:
  assumes inv: "tmp_inv fs op R (\<lambda>_. 0) (\<lambda>_. 0)" and d: "tn_at fs d = Some n"
  shows "\<exists>r fs'. tmp_rename d oldname newname fs = Some (r, fs') \<and> tmp_inv fs' op R (\<lambda>_. 0) (\<lambda>_. 0)"
proof (cases "tn_type n = VFS_DIRECTORY \<and> find_dirent n oldname \<noteq> None \<and> find_dirent n newname = None")
  case False
  then show ?thesis using inv d by (auto simp: tmp_rename_def split: option.splits)
next
  case True
  then obtain i where t: "tn_type n = VFS_DIRECTORY" and f: "find_dirent n oldname = Some i" "find_dirent n newname = None" by blast
  define c where "c = snd (tn_children n ! i)"
  have i: "i < length (tn_children n)" using f(1) t find_name_nth by (fastforce simp: find_dirent_def)
  let ?xs = "(tn_children n)[i := (name_field newname, c)]" and ?n = "n\<lparr> tn_children := (tn_children n)[i := (name_field newname, c)] \<rparr>"
  have same: "map snd ?xs = map snd (tn_children n)"
    by (simp add: map_update c_def) (metis i length_map list_update_id nth_map)
  have ty: "typed_node n" using inv_typed [OF inv d dir_usable [OF inv d t]] .
  have i1: "tmp_inv (tn_put d ?n fs) op R (\<lambda>_. 0) (\<lambda>_. 0)"
  proof (rule inv_entries [OF inv d t])
    show "list_all (\<lambda>e. length (fst e) < TMPFS_NAME_LEN) ?xs"
      using ty set_update_subset_insert [of "tn_children n" i "(name_field newname, c)"]
      by (auto simp: typed_node_def name_field_def list_all_iff)
    show "\<forall>c\<in>snd ` set ?xs. tn_at fs c \<noteq> None"
      using node_invD [OF inv d] unfolding node_inv_def set_map [symmetric] same by blast
  qed (simp only: same)
  obtain m where m: "tn_at fs c = Some m" "usable fs c" using entry_node [OF inv d t i c_def] by metis
  obtain m1 where m1: "tn_at (tn_put d ?n fs) c = Some m1" using m(1) by (cases "c = d") (simp_all add: tn_at_put)
  have u: "usable (tn_put d ?n fs) c" using m(2) d by simp
  have "tmp_inv (tn_put c (if tn_nlink m1 \<le> 1 then m1\<lparr> vn_name := take 127 newname \<rparr> else m1) (tn_put d ?n fs)) op R (\<lambda>_. 0) (\<lambda>_. 0)"
    using inv_typed [OF i1 m1 u] by (intro inv_fields [OF i1 m1 u]) (auto simp: typed_node_def)
  then show ?thesis using d t f m1 by (simp add: tmp_rename_def c_def [symmetric] Let_def)
qed
lemma tmp_rename2_inv:
  assumes inv: "tmp_inv fs op R (\<lambda>_. 0) (\<lambda>_. 0)" and d: "tn_at fs olddir = Some od" "tn_at fs newdir = Some nd"
  shows "\<exists>r fs'. tmp_rename2 mem olddir oldname newdir newname fs = Some (r, fs') \<and> tmp_inv fs' op R (\<lambda>_. 0) (\<lambda>_. 0)"
proof (cases "tn_type od = VFS_DIRECTORY \<and> tn_type nd = VFS_DIRECTORY \<and> find_dirent od oldname \<noteq> None \<and>
    find_dirent nd newname = None \<and> mem")
  case False
  then show ?thesis using inv d by (auto simp: tmp_rename2_def split: option.splits)
next
  case True
  then obtain i where t: "tn_type od = VFS_DIRECTORY" "tn_type nd = VFS_DIRECTORY"
    and f: "find_dirent od oldname = Some i" "find_dirent nd newname = None" by blast
  define c where "c = snd (tn_children od ! i)"
  have i: "i < length (tn_children od)" using f(1) t find_name_nth by (fastforce simp: find_dirent_def)
  obtain m where m: "tn_at fs c = Some m" "tn_nlink m \<noteq> 0" "usable fs c" using entry_node [OF inv d(1) t(1) i c_def] by metis
  define f1 where "f1 = tn_put olddir (od\<lparr> tn_children := del_nth i (tn_children od) \<rparr>) fs"
  have i1: "tmp_inv f1 op R ((\<lambda>_. 0)(c := -1)) (\<lambda>_. 0)" using inv_remove [OF inv d(1) t(1) i c_def] by (simp add: f1_def)
  obtain m1 where m1: "tn_at f1 c = Some m1" "tn_nlink m1 \<noteq> 0"
    using m d by (cases "c = olddir") (simp_all add: tn_at_put f1_def)
  have u1: "usable f1 c" using m(3) d(1) by (simp add: f1_def)
  define f2 where "f2 = tn_put c (nlink_dec m1) f1"
  have i2: "tmp_inv f2 op R (\<lambda>_. 0) ((\<lambda>_. 0)(c := 1))" using inv_nlink_dec [OF i1 m1(1) u1 m1(2)] by (simp add: f2_def)
  obtain n2 where n2: "tn_at f2 newdir = Some n2" "tn_type n2 = VFS_DIRECTORY"
    using d t m1(1) by (cases "newdir = c"; cases "newdir = olddir") (auto simp: f2_def f1_def tn_at_put nlink_dec_def)
  have c2: "tn_at f2 c = Some (nlink_dec m1)" by (simp add: f2_def tn_at_put)
  have u2: "usable f2 c" using u1 m1(1) by (simp add: f2_def)
  define f3 where "f3 = tn_put newdir (n2\<lparr> tn_children := (name_field newname, c) # tn_children n2 \<rparr>) f2"
  have i3: "tmp_inv f3 op R ((\<lambda>_. 0)(c := 1)) ((\<lambda>_. 0)(c := 1))" using inv_push [OF i2 n2, of c] c2 by (simp add: f3_def)
  obtain m3 where m3: "tn_at f3 c = Some m3" "tn_nlink m3 = tn_nlink m1 - 1" "tn_type m3 = tn_type m1"
    using c2 n2 m1(2) by (cases "c = newdir") (auto simp: f3_def tn_at_put nlink_dec_def)
  have u3: "usable f3 c" using u2 n2(1) by (simp add: f3_def)
  have ty: "typed_node m1" using inv_typed [OF i1 m1(1) u1] .
  have "uint (tn_nlink m3) < 2 ^ 32 - 1"
    using uint_dec [OF m1(2)] uint_lt2p [of "tn_nlink m1"] unfolding m3(2) by simp
  moreover have "tn_type m3 = VFS_FILE \<or> tn_nlink m3 = 0" using ty m1(2) m3(2,3) by (auto simp: typed_node_def u32_le_1)
  ultimately have i4: "tmp_inv (tn_put c (m3\<lparr> tn_nlink := tn_nlink m3 + 1 \<rparr>) f3) op R (\<lambda>_. 0) (\<lambda>_. 0)"
    using inv_nlink_inc [OF i3 m3(1) u3] by simp
  let ?m4 = "m3\<lparr> tn_nlink := tn_nlink m3 + 1 \<rparr>" and ?f4 = "tn_put c (m3\<lparr> tn_nlink := tn_nlink m3 + 1 \<rparr>) f3"
  have m4: "tn_at ?f4 c = Some ?m4" and u4: "usable ?f4 c" using u3 m3(1) by (simp_all add: tn_at_put)
  have "tmp_inv (tn_put c (?m4\<lparr> vn_name := take 127 newname \<rparr>) ?f4) op R (\<lambda>_. 0) (\<lambda>_. 0)"
    using inv_typed [OF i4 m4 u4] by (intro inv_fields [OF i4 m4 u4]) (auto simp: typed_node_def)
  moreover have "tn_upd olddir (\<lambda>n. n\<lparr> tn_children := del_nth i (tn_children n) \<rparr>) fs = Some f1"
    using d(1) by (simp add: f1_def)
  moreover have "tn_upd c nlink_dec f1 = Some f2" using m1(1) by (simp add: f2_def)
  moreover have "tn_upd newdir (\<lambda>n. n\<lparr> tn_children := (name_field newname, c) # tn_children n \<rparr>) f2 = Some f3"
    using n2(1) by (simp add: f3_def)
  ultimately show ?thesis using True d t f m3(1) m4 by (simp add: tmp_rename2_def c_def [symmetric] Let_def)
qed

lemma tmp_link_inv:
  assumes inv: "tmp_inv fs op R (\<lambda>_. 0) (\<lambda>_. 0)" and d: "tn_at fs d = Some n"
    and a: "tn_at fs a = Some m" "usable fs a" "uint (vn_refcount m) < 2 ^ 32 - 1"
  shows "\<exists>r fs'. tmp_link mem d name a fs = Some (r, fs') \<and> tmp_inv fs' op R (\<lambda>_. 0) (\<lambda>_. 0)"
proof (cases "tn_type n = VFS_DIRECTORY \<and> tn_type m = VFS_FILE")
  case False
  then show ?thesis using inv d a inv_typed [OF inv a(1,2)] by (auto simp: tmp_link_def typed_node_def)
next
  case True
  then have "tmp_link mem d name a fs = add_dirent mem d name a fs" using d a(1) by (simp add: tmp_link_def)
  then show ?thesis using add_dirent_inv [OF inv d _ a] True by metis
qed

text \<open>Opening and closing move the count of open handles with the reference count.\<close>
lemma inv_handles:
  assumes "tmp_inv fs op R X Z" "tn_at fs a \<noteq> None" "\<And>b. b \<noteq> a \<Longrightarrow> op' b = op b"
    "Z' = Z(a := Z a + int (op a) - int (op' a))"
  shows "tmp_inv fs op' R X Z'"
  unfolding tmp_inv_def
proof (intro conjI allI impI)
  fix b n assume "tn_at fs b = Some n"
  from node_invD [OF assms(1) this] show "node_inv fs op' R X Z' b n"
    using assms(3,4) by (cases "b = a") (auto simp: node_inv_def)
next
  fix b assume b: "tn_at fs b = None"
  then have "b \<noteq> a" using assms(2) by auto
  with b assms(1,3) show "op' b = 0" "b \<notin> R" by (auto simp: tmp_inv_def)
qed (use assms(1) in \<open>simp_all add: tmp_inv_def\<close>)

lemma tmp_open_inv:
  assumes inv: "tmp_inv fs op R (\<lambda>_. 0) (\<lambda>_. 0)" and a: "tn_at fs a = Some n" "usable fs a" "uint (vn_refcount n) < 2 ^ 32 - 1"
  shows "\<exists>fs'. tmp_open a fs = Some fs' \<and> tmp_inv fs' (op(a := op a + 1)) R (\<lambda>_. 0) (\<lambda>_. 0)"
proof -
  let ?fs = "tn_put a (n\<lparr> vn_refcount := vn_refcount n + 1 \<rparr>) fs"
  have i: "tmp_inv ?fs op R (\<lambda>_. 0) ((\<lambda>_. 0)(a := 1))" using inv_ref_inc [OF inv a] by simp
  have "tmp_inv ?fs (op(a := op a + 1)) R (\<lambda>_. 0) (\<lambda>_. 0)"
    by (rule inv_handles [OF i, of a]) (simp_all add: tn_at_put)
  then show ?thesis using a(1) by (simp add: tmp_open_def)
qed

lemma tmp_close_inv:
  assumes inv: "tmp_inv fs op R (\<lambda>_. 0) (\<lambda>_. 0)" and a: "tn_at fs a = Some n" "usable fs a" "0 < op a"
  shows "\<exists>fs'. tmp_close as a fs = Some fs' \<and> tmp_inv fs' (op(a := op a - 1)) R (\<lambda>_. 0) (\<lambda>_. 0)"
proof -
  have "uint (vn_refcount n) = uint (tn_nlink n) + int (op a) + of_bool (a \<in> R)"
    using node_invD [OF inv a(1)] by (simp add: node_inv_def)
  moreover have "0 \<le> uint (tn_nlink n)" "0 \<le> (of_bool (a \<in> R) :: int)" by simp_all
  ultimately have "uint (vn_refcount n) \<noteq> 0" using a(3) by linarith
  then have ne: "vn_refcount n \<noteq> 0" by auto
  have "tmp_inv fs (op(a := op a - 1)) R (\<lambda>_. 0) ((\<lambda>_. 0)(a := 1))"
    by (rule inv_handles [OF inv, of a]) (use a in \<open>simp_all add: of_nat_diff\<close>)
  from drop_ref_inv [OF this a(1,2) ne] show ?thesis using a(1) ne by (simp add: tmp_close_def)
qed
section \<open>Calls\<close>

text \<open>The calls of the VFS layer, with the answers of \<open>kmalloc\<close>, and the state each leaves.\<close>

datatype tmp_call =
    CRead nat u32 u32
  | CWrite nat u32 bytes
  | CTruncate nat u32
  | CBacking nat u32 u32
  | COpen nat
  | CClose nat
  | CReaddir nat nat
  | CCreate "nat option" bool nat bytes
  | CMkdir "nat option" bool nat bytes
  | CDelete nat bytes
  | CRmdir nat bytes
  | CRename nat bytes bytes
  | CRename2 bool nat bytes nat bytes
  | CLink bool nat bytes nat
  | CRoot "nat option" "bytes option"
  | CInit

fun tmp_exec :: "'a as_ops \<Rightarrow> tmp_call \<Rightarrow> 'a tmpfs \<Rightarrow> 'a tmpfs option" where
  "tmp_exec as (CRead a off sz) fs = map_option snd (tmp_read as a off sz fs)"
| "tmp_exec as (CWrite a off buf) fs = map_option snd (tmp_write as a off buf fs)"
| "tmp_exec as (CTruncate a len) fs = map_option snd (tmp_truncate as a len fs)"
| "tmp_exec as (CBacking a off len) fs = map_option snd (tmp_mmap_backing as a off len fs)"
| "tmp_exec as (COpen a) fs = tmp_open a fs"
| "tmp_exec as (CClose a) fs = tmp_close as a fs"
| "tmp_exec as (CReaddir d i) fs = map_option snd (tmp_readdir d i fs)"
| "tmp_exec as (CCreate al mem d name) fs = map_option snd (tmp_create as al mem d name fs)"
| "tmp_exec as (CMkdir al mem d name) fs = map_option snd (tmp_mkdir as al mem d name fs)"
| "tmp_exec as (CDelete d name) fs = map_option snd (tmp_delete as d name fs)"
| "tmp_exec as (CRmdir d name) fs = map_option snd (tmp_rmdir as d name fs)"
| "tmp_exec as (CRename d old new) fs = map_option snd (tmp_rename d old new fs)"
| "tmp_exec as (CRename2 mem od old nd new) fs = map_option snd (tmp_rename2 mem od old nd new fs)"
| "tmp_exec as (CLink mem d name a) fs = map_option snd (tmp_link mem d name a fs)"
| "tmp_exec as (CRoot al name) fs = Some (snd (tmpfs_create_root al name fs))"
| "tmp_exec as CInit fs = Some (tmpfs_init fs)"

text \<open>
  What the callers keep to: they pass inodes that are live, \<open>kmalloc\<close> returns unused addresses, a
  handle is closed only if it is open, and no reference count reaches its maximum.
\<close>

definition fresh :: "'a tmpfs \<Rightarrow> nat option \<Rightarrow> bool" where
  "fresh fs al = (case al of None \<Rightarrow> True | Some a \<Rightarrow> tn_at fs a = None)"

definition below_max :: "'a tmpfs \<Rightarrow> nat \<Rightarrow> bool" where
  "below_max fs a = (case tn_at fs a of None \<Rightarrow> False | Some n \<Rightarrow> uint (vn_refcount n) < 2 ^ 32 - 1)"

fun allowed :: "'a tmpfs \<Rightarrow> (nat \<Rightarrow> nat) \<Rightarrow> tmp_call \<Rightarrow> bool" where
  "allowed fs op (CRead a off sz) = usable fs a"
| "allowed fs op (CWrite a off buf) = usable fs a"
| "allowed fs op (CTruncate a len) = usable fs a"
| "allowed fs op (CBacking a off len) = usable fs a"
| "allowed fs op (COpen a) = (usable fs a \<and> below_max fs a)"
| "allowed fs op (CClose a) = (usable fs a \<and> 0 < op a)"
| "allowed fs op (CReaddir d i) = usable fs d"
| "allowed fs op (CCreate al mem d name) = (usable fs d \<and> fresh fs al)"
| "allowed fs op (CMkdir al mem d name) = (usable fs d \<and> fresh fs al)"
| "allowed fs op (CDelete d name) = usable fs d"
| "allowed fs op (CRmdir d name) = usable fs d"
| "allowed fs op (CRename d old new) = usable fs d"
| "allowed fs op (CRename2 mem od old nd new) = (usable fs od \<and> usable fs nd)"
| "allowed fs op (CLink mem d name a) = (usable fs d \<and> usable fs a \<and> below_max fs a)"
| "allowed fs op (CRoot al name) = fresh fs al"
| "allowed fs op CInit = True"

fun handles :: "tmp_call \<Rightarrow> (nat \<Rightarrow> nat) \<Rightarrow> nat \<Rightarrow> nat" where
  "handles (COpen a) op = op(a := op a + 1)"
| "handles (CClose a) op = op(a := op a - 1)"
| "handles _ op = op"

fun roots :: "'a tmpfs \<Rightarrow> tmp_call \<Rightarrow> nat set \<Rightarrow> nat set" where
  "roots fs (CRoot (Some a) name) R = insert a R"
| "roots fs CInit R = (if tmpfs_ready fs then R else insert tmpfs_root_node R)"
| "roots fs _ R = R"

inductive tmp_reach :: "'a as_ops \<Rightarrow> 'a tmpfs \<Rightarrow> (nat \<Rightarrow> nat) \<Rightarrow> nat set \<Rightarrow> bool" for as :: "'a as_ops" where
  boot: "tmp_reach as (tmpfs_boot x) (\<lambda>_. 0) {}"
| step: "tmp_reach as fs op R \<Longrightarrow> allowed fs op c \<Longrightarrow> tmp_exec as c fs = Some fs' \<Longrightarrow>
    tmp_reach as fs' (handles c op) (roots fs c R)"

lemma usableD: "usable fs a \<Longrightarrow> \<exists>n. tn_at fs a = Some n"
  by (auto simp: usable_def)

abbreviation good :: "'a tmpfs \<Rightarrow> (nat \<Rightarrow> nat) \<Rightarrow> nat set \<Rightarrow> bool" where
  "good fs op R \<equiv> tmp_inv fs op R (\<lambda>_. 0) (\<lambda>_. 0)"

lemma data_inv:
  assumes "good fs op R" "usable fs a" shows
    "\<exists>r fs'. tmp_read as a off sz fs = Some (r, fs') \<and> good fs' op R"
    "\<exists>r fs'. tmp_write as a off buf fs = Some (r, fs') \<and> good fs' op R"
    "\<exists>r fs'. tmp_truncate as a len fs = Some (r, fs') \<and> good fs' op R"
    "\<exists>r fs'. tmp_mmap_backing as a off len fs = Some (r, fs') \<and> good fs' op R"
proof -
  obtain n where n: "tn_at fs a = Some n" using usableD [OF assms(2)] ..
  have put: "good (tn_put a (n\<lparr> vn_size := w \<rparr>) (fs\<lparr> tf_as := y \<rparr>)) op R" for w y
    using inv_typed [OF assms(1) n assms(2)] n assms
    by (intro inv_fields [of "fs\<lparr> tf_as := y \<rparr>"]) (auto simp: typed_node_def usable_def)
  show "\<exists>r fs'. tmp_read as a off sz fs = Some (r, fs') \<and> good fs' op R"
    "\<exists>r fs'. tmp_mmap_backing as a off len fs = Some (r, fs') \<and> good fs' op R"
    using n assms(1) by (auto simp: tmp_read_def tmp_mmap_backing_def Let_def split: prod.splits)
  show "\<exists>r fs'. tmp_write as a off buf fs = Some (r, fs') \<and> good fs' op R"
    "\<exists>r fs'. tmp_truncate as a len fs = Some (r, fs') \<and> good fs' op R"
    using n assms(1) put by (auto simp: tmp_write_def tmp_truncate_def Let_def split: prod.splits)
qed
lemma root_init_inv:
  assumes "good fs op R" "tn_at fs a = None"
  shows "good (root_init a name fs) op (insert a R)"
proof -
  define n where "n = (init_vnode name (zero_node\<lparr> tn_type := VFS_DIRECTORY, tn_inode := tmpfs_inode_ctr fs \<rparr>))\<lparr> vn_refcount := 1 \<rparr>"
  have "good (tn_put a n fs) op (insert a R)"
    by (rule inv_new [OF assms]) (auto simp: n_def typed_node_def init_vnode_def zero_node_def)
  then show ?thesis by (simp add: root_init_def n_def)
qed

lemma tmpfs_init_inv:
  assumes g: "good fs op R" and r: "\<not> tmpfs_ready fs"
  shows "good (tmpfs_init fs) op (insert tmpfs_root_node R)"
proof -
  define n where "n = (init_vnode [0x74, 0x6D, 0x70] (zero_node\<lparr> tn_type := VFS_DIRECTORY, tn_inode := tmpfs_inode_ctr fs \<rparr>))\<lparr> vn_refcount := 1 \<rparr>"
  obtain z where z: "tn_at fs tmpfs_root_node = Some z" using g by (auto simp: tmp_inv_def)
  have zn: "z = zero_node" and zi: "node_inv fs op R (\<lambda>_. 0) (\<lambda>_. 0) tmpfs_root_node z"
    using node_invD [OF g z] r by (auto simp: node_inv_def node_ok_def)
  have "int (op 0) + of_bool (0 \<in> R) = 0" "links fs 0 = 0" using zi by (auto simp: node_inv_def zn zero_node_def)
  then have c: "op 0 = 0" "0 \<notin> R" "links fs 0 = 0" by (cases "0 \<in> R", simp_all)+
  let ?fs = "(tn_put 0 n fs)\<lparr> tmpfs_inode_ctr := tmpfs_inode_ctr fs + 1, tmpfs_ready := True \<rparr>"
  have eq: "tmpfs_init fs = ?fs" using r by (simp add: tmpfs_init_def root_init_def n_def)
  have at: "tn_at ?fs b = (if b = 0 then Some n else tn_at fs b)" for b by (simp add: tn_at_put)
  have l: "int (links ?fs b) = int (links fs b)" for b
    using links_put [OF z, of n b] by (simp add: links_def zn entries_def n_def init_vnode_def zero_node_def)
  have "node_inv ?fs op (insert 0 R) (\<lambda>_. 0) (\<lambda>_. 0) b m" if "tn_at ?fs b = Some m" for b m
  proof (cases "b = 0")
    case True
    then have "m = n" using that by (simp add: tn_at_put)
    with True c show ?thesis unfolding node_inv_def l by (simp add: n_def node_ok_def init_vnode_def zero_node_def)
  next
    case False
    then have b: "tn_at fs b = Some m" using that by (simp add: tn_at_put)
    have "node_ok True b m" using node_invD [OF g b] False by (simp add: node_inv_def node_ok_def)
    with node_invD [OF g b] False show ?thesis unfolding node_inv_def l at by auto
  qed
  moreover have "distinct (map fst (tf_nodes ?fs))" using g keys_put [of fs 0 n] by (simp add: tmp_inv_def)
  moreover have "tn_at ?fs 0 \<noteq> None" "\<And>b. tn_at ?fs b = None \<Longrightarrow> op b = 0 \<and> b \<notin> insert 0 R"
    using g unfolding at by (auto simp: tmp_inv_def split: if_splits)
  ultimately show ?thesis unfolding eq tmp_inv_def by blast
qed

lemma readdir_inv:
  assumes "good fs op R" "usable fs d"
  shows "\<exists>r fs'. tmp_readdir d i fs = Some (r, fs') \<and> good fs' op R"
proof -
  obtain n where n: "tn_at fs d = Some n" using usableD [OF assms(2)] ..
  have "tn_at fs (snd (tn_children n ! i)) \<noteq> None" if "i < length (tn_children n)"
    using node_invD [OF assms(1) n] that by (auto simp: node_inv_def)
  then show ?thesis using n assms(1) by (auto simp: tmp_readdir_def Let_def)
qed

lemma tmp_rmdir_inv:
  assumes "good fs op R" "usable fs d"
  shows "\<exists>r fs'. tmp_rmdir as d name fs = Some (r, fs') \<and> good fs' op R"
proof -
  obtain n where n: "tn_at fs d = Some n" using usableD [OF assms(2)] ..
  have "tn_at fs (snd (tn_children n ! i)) \<noteq> None" if "find_dirent n name = Some i" for i
    using node_invD [OF assms(1) n] find_name_nth [of name "tn_children n" i] that
    by (auto simp: node_inv_def find_dirent_def split: if_splits)
  then show ?thesis using n assms(1) tmp_delete_inv [OF assms(1) n]
    by (fastforce simp: tmp_rmdir_def split: option.splits)
qed

lemma below_maxD: "below_max fs a \<Longrightarrow> tn_at fs a = Some n \<Longrightarrow> uint (vn_refcount n) < 2 ^ 32 - 1"
  by (simp add: below_max_def)

text \<open>Progress and preservation for one call.\<close>
lemma tmp_exec_good:
  assumes g: "good fs op R" and al: "allowed fs op c"
  shows "\<exists>fs'. tmp_exec as c fs = Some fs' \<and> good fs' (handles c op) (roots fs c R)"
proof (cases c)
  case (COpen a)
  then obtain n where "tn_at fs a = Some n" using al usableD by fastforce
  then show ?thesis using tmp_open_inv [OF g] al COpen below_maxD by fastforce
next
  case (CClose a)
  then obtain n where "tn_at fs a = Some n" using al usableD by fastforce
  then show ?thesis using tmp_close_inv [OF g] al CClose by fastforce
next
  case (CRoot alo name)
  then show ?thesis using g al root_init_inv [OF g]
    by (cases alo) (auto simp: tmpfs_create_root_def fresh_def)
next
  case CInit
  then show ?thesis using g tmpfs_init_inv [OF g] by (auto simp: tmpfs_init_def)
next
  case (CLink mem d name a)
  then obtain n m where n: "tn_at fs d = Some n" and m: "tn_at fs a = Some m" using al usableD by fastforce
  have "uint (vn_refcount m) < 2 ^ 32 - 1" "usable fs a" using al CLink below_maxD [OF _ m] by simp_all
  then have "\<exists>r fs'. tmp_link mem d name a fs = Some (r, fs') \<and> good fs' op R" using tmp_link_inv [OF g n m] by simp
  then show ?thesis using CLink by auto
next
  case (CRename2 mem od old nd new)
  then obtain n m where "tn_at fs od = Some n" "tn_at fs nd = Some m" using al usableD by fastforce
  from tmp_rename2_inv [OF g this, of mem old new] show ?thesis using CRename2 by auto
next
  case (CCreate alo mem d name)
  then obtain n where n: "tn_at fs d = Some n" using al usableD by fastforce
  have "\<exists>r fs'. tmp_make as VFS_FILE alo mem d name fs = Some (r, fs') \<and> good fs' op R"
    by (rule tmp_make_inv [OF g n]) (use al CCreate in \<open>auto simp: fresh_def\<close>)
  then show ?thesis using CCreate by (auto simp: tmp_create_def)
next
  case (CMkdir alo mem d name)
  then obtain n where n: "tn_at fs d = Some n" using al usableD by fastforce
  have "\<exists>r fs'. tmp_make as VFS_DIRECTORY alo mem d name fs = Some (r, fs') \<and> good fs' op R"
    by (rule tmp_make_inv [OF g n]) (use al CMkdir in \<open>auto simp: fresh_def\<close>)
  then show ?thesis using CMkdir by (auto simp: tmp_mkdir_def)
next
  case (CDelete d name)
  then obtain n where "tn_at fs d = Some n" using al usableD by fastforce
  from tmp_delete_inv [OF g this, of as name] show ?thesis using CDelete by auto
next
  case (CRename d old new)
  then obtain n where "tn_at fs d = Some n" using al usableD by fastforce
  from tmp_rename_inv [OF g this, of old new] show ?thesis using CRename by auto
next
  case (CRmdir d name)
  then show ?thesis using al tmp_rmdir_inv [OF g, of d as name] by auto
next
  case (CReaddir d i)
  then show ?thesis using al readdir_inv [OF g, of d i] by auto
next
  case (CRead a off sz)
  then show ?thesis using al data_inv(1) [OF g, of a as off sz] by auto
next
  case (CWrite a off buf)
  then show ?thesis using al data_inv(2) [OF g, of a as off buf] by auto
next
  case (CTruncate a len)
  then show ?thesis using al data_inv(3) [OF g, of a as len] by auto
next
  case (CBacking a off len)
  then show ?thesis using al data_inv(4) [OF g, of a as off len] by auto
qed
lemma reach_good: "tmp_reach as fs op R \<Longrightarrow> good fs op R"
proof (induction rule: tmp_reach.induct)
  case (boot x)
  have at: "tn_at (tmpfs_boot x) a = (if a = 0 then Some zero_node else None)" for a
    by (simp add: tn_at_def tmpfs_boot_def)
  show ?case unfolding tmp_inv_def node_inv_def at
    by (auto simp: tmpfs_boot_def links_def entries_def node_ok_def zero_node_def split: if_splits)
next
  case (step fs op R c fs')
  then show ?case using tmp_exec_good [OF step.IH step.hyps(2), of as] by auto
qed

lemma entry_usable:
  assumes g: "good fs op R" and n: "tn_at fs d = Some n" and c: "find_child n name = Some c" shows "usable fs c"
proof -
  obtain i where t: "tn_type n = VFS_DIRECTORY" and f: "find_name name (tn_children n) = Some i" "c = snd (tn_children n ! i)"
    using c by (auto simp: find_child_def find_dirent_def split: if_splits)
  then show ?thesis using entry_node [OF g n t _ f(2)] find_name_nth by metis
qed

section \<open>Directories as maps\<close>

definition dir_map :: "tmpfs_node \<Rightarrow> bytes \<Rightarrow> nat option" where
  "dir_map n = (if tn_type n = VFS_DIRECTORY then map_of (tn_children n) else (\<lambda>_. None))"

definition names :: "'a tmpfs \<Rightarrow> nat \<Rightarrow> bytes \<Rightarrow> nat option" where
  "names fs d = (case tn_at fs d of None \<Rightarrow> (\<lambda>_. None) | Some n \<Rightarrow> dir_map n)"

definition distinct_names :: "'a tmpfs \<Rightarrow> bool" where
  "distinct_names fs = (\<forall>d n. tn_at fs d = Some n \<longrightarrow> distinct (map fst (tn_children n)))"

lemma find_name_none: "find_name name xs = None \<longleftrightarrow> name \<notin> fst ` set xs"
  by (induction xs) auto

lemma find_name_some: "find_name name xs = Some i \<Longrightarrow> map_of xs name = Some (snd (xs ! i))"
  by (induction xs arbitrary: i) (auto split: if_splits)

lemma find_child_map: "find_child n name = dir_map n name"
proof (cases "tn_type n = VFS_DIRECTORY")
  case True
  show ?thesis
  proof (cases "find_name name (tn_children n)")
    case None
    moreover have "map_of (tn_children n) name = None" using None by (simp add: map_of_eq_None_iff find_name_none)
    ultimately show ?thesis using True by (simp add: find_child_def find_dirent_def dir_map_def)
  next
    case (Some i)
    with True find_name_some [OF Some] show ?thesis by (simp add: find_child_def find_dirent_def dir_map_def)
  qed
qed (simp add: find_child_def find_dirent_def dir_map_def)

lemma split_at_name:
  assumes "find_name name xs = Some i" "distinct (map fst xs)"
  obtains ys zs where "xs = ys @ (name, snd (xs ! i)) # zs" "length ys = i" "name \<notin> fst ` set ys" "name \<notin> fst ` set zs"
proof -
  have i: "i < length xs" "fst (xs ! i) = name" using find_name_nth [OF assms(1)] by simp_all
  have e: "xs = take i xs @ (name, snd (xs ! i)) # drop (Suc i) xs"
    using id_take_nth_drop [OF i(1)] i(2) by (metis prod.collapse)
  have "distinct (map fst (take i xs @ (name, snd (xs ! i)) # drop (Suc i) xs))" using assms(2) e by metis
  then show thesis using that [OF e] i(1) by simp
qed

lemma map_of_del:
  assumes "find_name name xs = Some i" "distinct (map fst xs)"
  shows "map_of (del_nth i xs) = (map_of xs)(name := None)" "distinct (map fst (del_nth i xs))"
proof -
  obtain ys zs where s: "xs = ys @ (name, snd (xs ! i)) # zs" "length ys = i" "name \<notin> fst ` set ys" "name \<notin> fst ` set zs"
    using split_at_name [OF assms] .
  have d: "del_nth i xs = ys @ zs" using s(2) by (subst s(1)) (simp add: del_nth_def)
  have "map_of ys name = None" "map_of zs name = None" using s(3,4) by (simp_all add: map_of_eq_None_iff)
  then show "map_of (del_nth i xs) = (map_of xs)(name := None)"
    unfolding d by (subst s(1)) (auto simp: fun_eq_iff map_add_def split: option.splits)
  have "distinct (map fst (ys @ (name, snd (xs ! i)) # zs))" using assms(2) s(1) by metis
  then show "distinct (map fst (del_nth i xs))" unfolding d by simp
qed

lemma map_of_rename:
  assumes "find_name old xs = Some i" "find_name new xs = None" "distinct (map fst xs)"
  shows "map_of (xs[i := (new, snd (xs ! i))]) = (map_of xs)(old := None, new := map_of xs old)"
    "distinct (map fst (xs[i := (new, snd (xs ! i))]))"
proof -
  obtain ys zs where s: "xs = ys @ (old, snd (xs ! i)) # zs" "length ys = i" "old \<notin> fst ` set ys" "old \<notin> fst ` set zs"
    using split_at_name [OF assms(1,3)] .
  define c where "c = snd (xs ! i)"
  note s' = s(1) [folded c_def]
  have d: "xs[i := (new, c)] = ys @ (new, c) # zs" using s(2) by (subst s') (simp add: list_update_append)
  have new: "new \<notin> fst ` set (ys @ (old, c) # zs)" using assms(2) s' by (simp add: find_name_none)
  have m: "map_of ys old = None" "map_of zs old = None" "map_of ys new = None" "map_of zs new = None" "new \<noteq> old"
    using s(3,4) new by (auto simp: map_of_eq_None_iff)
  show "map_of (xs[i := (new, snd (xs ! i))]) = (map_of xs)(old := None, new := map_of xs old)"
    unfolding c_def [symmetric] d unfolding s' using m
    by (auto simp: fun_eq_iff map_add_def split: option.splits)
  have "distinct (map fst (ys @ (old, c) # zs))" using assms(3) s' by metis
  then show "distinct (map fst (xs[i := (new, snd (xs ! i))]))" unfolding c_def [symmetric] d using new by auto
qed

text \<open>How the elementary steps change the maps.\<close>

lemma names_put: "names (tn_put a n fs) = (names fs)(a := dir_map n)"
  by (auto simp: names_def tn_at_put)

lemma names_other [simp]: "names (fs\<lparr> tmpfs_inode_ctr := i \<rparr>) = names fs"
  by (simp add: names_def fun_eq_iff)

lemma distinct_put: "distinct_names fs \<Longrightarrow> distinct (map fst (tn_children n)) \<Longrightarrow> distinct_names (tn_put a n fs)"
  by (simp add: distinct_names_def tn_at_put)

lemma upd_same:
  assumes "tn_upd a f fs = Some fs'" "\<And>n. tn_type (f n) = tn_type n" "\<And>n. tn_children (f n) = tn_children n"
  shows "names fs' = names fs" "distinct_names fs \<Longrightarrow> distinct_names fs'"
proof -
  obtain n where n: "tn_at fs a = Some n" "fs' = tn_put a (f n) fs" using assms(1) by (auto simp: tn_upd_def)
  have "dir_map (f n) = names fs a" using n(1) assms(2,3) by (simp add: names_def dir_map_def)
  then show "names fs' = names fs" by (simp add: n(2) names_put)
  show "distinct_names fs \<Longrightarrow> distinct_names fs'"
    using n assms(3) unfolding n(2) by (intro distinct_put) (simp_all add: distinct_names_def)
qed

lemma upd_entries:
  assumes "tn_upd d (\<lambda>n. n\<lparr> tn_children := g (tn_children n) \<rparr>) fs = Some fs'" "tn_at fs d = Some n" "tn_type n = VFS_DIRECTORY"
  shows "names fs' = (names fs)(d := map_of (g (tn_children n)))"
    "distinct_names fs \<Longrightarrow> distinct (map fst (g (tn_children n))) \<Longrightarrow> distinct_names fs'"
  using assms by (auto simp: names_put dir_map_def intro!: distinct_put)

lemma names_dir: "tn_at fs d = Some n \<Longrightarrow> tn_type n = VFS_DIRECTORY \<Longrightarrow> names fs d = map_of (tn_children n)"
  by (simp add: names_def dir_map_def)

lemma distinct_dir: "distinct_names fs \<Longrightarrow> tn_at fs d = Some n \<Longrightarrow> distinct (map fst (tn_children n))"
  by (simp add: distinct_names_def)

lemma name_field_short [simp]: "length name < TMPFS_NAME_LEN \<Longrightarrow> name_field name = name"
  by (simp add: name_field_def)

lemma nlink_dec_same [simp]: "tn_type (nlink_dec n) = tn_type n" "tn_children (nlink_dec n) = tn_children n"
  by (simp_all add: nlink_dec_def)

lemma drop_ref_names:
  assumes "drop_ref as a fs = Some fs'"
  shows "tn_at fs' b \<noteq> None \<Longrightarrow> names fs' b = names fs b" "distinct_names fs \<Longrightarrow> distinct_names fs'"
proof -
  obtain n where n: "tn_at fs a = Some n" using assms by (auto simp: drop_ref_def split: Option.bind_splits)
  let ?n = "n\<lparr> vn_refcount := vn_refcount n - 1 \<rparr>"
  have s: "names (tn_put a ?n fs) = names fs" "distinct_names fs \<Longrightarrow> distinct_names (tn_put a ?n fs)"
    using upd_same [of a "\<lambda>n. n\<lparr> vn_refcount := vn_refcount n - 1 \<rparr>" fs "tn_put a ?n fs"] n by simp_all
  consider "fs' = tn_put a ?n fs" | x where "fs' = (tn_put a ?n fs)\<lparr> tf_as := x, tf_nodes := AList.delete a (tf_nodes (tn_put a ?n fs)) \<rparr>"
    using assms n by (auto simp: drop_ref_def free_inode_def Let_def tn_at_put split: if_splits Option.bind_splits)
  then have at: "tn_at fs' c = tn_at (tn_put a ?n fs) c \<or> tn_at fs' c = None" for c
    by cases (auto simp: tn_at_def heap_lookup_delete)
  show "names fs' b = names fs b" if "tn_at fs' b \<noteq> None"
  proof -
    have "tn_at fs' b = tn_at (tn_put a ?n fs) b" using at [of b] that by blast
    then have "names fs' b = names (tn_put a ?n fs) b" by (simp only: names_def)
    then show ?thesis by (simp only: s(1))
  qed
  show "distinct_names fs \<Longrightarrow> distinct_names fs'" using at s(2) unfolding distinct_names_def by (metis option.distinct(1))
qed

lemma add_dirent_names:
  assumes a: "add_dirent mem d name a fs = Some (0, fs')" and d: "tn_at fs d = Some n" "tn_type n = VFS_DIRECTORY"
    and s: "length name < TMPFS_NAME_LEN"
  shows "names fs d name = None" "names fs' = (names fs)(d := (names fs d)(name \<mapsto> a))"
    "distinct_names fs \<Longrightarrow> distinct_names fs'"
proof -
  have f: "find_name name (tn_children n) = None" using a d by (auto simp: add_dirent_def find_dirent_def split: if_splits)
  obtain f1 f2 where u: "tn_upd d (\<lambda>n. n\<lparr> tn_children := (name_field name, a) # tn_children n \<rparr>) fs = Some f1"
    "tn_upd a (\<lambda>n. n\<lparr> tn_nlink := tn_nlink n + 1 \<rparr>) f1 = Some f2"
    "tn_upd a (\<lambda>n. n\<lparr> vn_refcount := vn_refcount n + 1 \<rparr>) f2 = Some fs'"
    using a d by (auto simp: add_dirent_def split: if_splits Option.bind_splits)
  note e = upd_entries [OF u(1) d] and e2 = upd_same [OF u(2)] and e3 = upd_same [OF u(3)]
  show "names fs d name = None" using f d by (simp add: names_dir map_of_eq_None_iff find_name_none)
  show "names fs' = (names fs)(d := (names fs d)(name \<mapsto> a))" using e(1) e2(1) e3(1) d s by (simp add: names_dir)
  show "distinct_names fs'" if "distinct_names fs"
    using e(2) [OF that] e2(2) e3(2) f s distinct_dir [OF that d(1)] by (simp add: find_name_none)
qed

lemma make_names:
  assumes m: "tmp_make as t (Some a) mem d name fs = Some (0, fs')" and a: "tn_at fs a = None"
    and s: "length name < TMPFS_NAME_LEN"
  shows "names fs d name = None \<and> names fs' = (names fs)(d := (names fs d)(name \<mapsto> a)) \<and>
    (distinct_names fs \<longrightarrow> distinct_names fs')"
proof -
  obtain n where d: "tn_at fs d = Some n" "tn_type n = VFS_DIRECTORY"
    using m by (auto simp: tmp_make_def split: Option.bind_splits if_splits)
  define z where "z = zero_node\<lparr> tn_type := t, tn_inode := tmpfs_inode_ctr fs \<rparr>"
  define f1 where "f1 = tn_put a (init_vnode name z) (alloc_inode a t fs)"
  have "tn_upd a (init_vnode name) (alloc_inode a t fs) = Some f1"
    by (simp add: tn_upd_def alloc_inode_def tn_at_put z_def f1_def)
  then have ad: "add_dirent mem d name a f1 = Some (0, fs')"
    using m d by (auto simp: tmp_make_def split: Option.bind_splits if_splits)
  have ne: "d \<noteq> a" using a d(1) by auto
  have e: "dir_map (init_vnode name z) = (\<lambda>_. None)" "tn_children (init_vnode name z) = []" "tn_children z = []"
    by (simp_all add: dir_map_def init_vnode_def z_def zero_node_def)
  have al: "alloc_inode a t fs = (tn_put a z fs)\<lparr> tmpfs_inode_ctr := tmpfs_inode_ctr fs + 1 \<rparr>"
    by (simp add: alloc_inode_def z_def)
  have "names fs a = (\<lambda>_. None)" using a by (simp add: names_def)
  then have nm: "names f1 = names fs" by (simp add: f1_def al names_put e fun_upd_idem_iff)
  have dn: "tn_at f1 d = Some n" using d(1) ne by (simp add: f1_def al tn_at_put)
  have di: "distinct_names f1" if "distinct_names fs"
    using that e by (auto simp: f1_def al distinct_names_def tn_at_put)
  from add_dirent_names [OF ad dn d(2) s] show ?thesis unfolding nm using di by blast
qed

lemma delete_names:
  assumes m: "tmp_delete as d name fs = Some (0, fs')" and di: "distinct_names fs"
  shows "names fs d name \<noteq> None \<and> distinct_names fs' \<and>
    (\<forall>b. tn_at fs' b \<noteq> None \<longrightarrow> names fs' b = ((names fs)(d := (names fs d)(name := None))) b)"
proof -
  obtain n i where d: "tn_at fs d = Some n" "tn_type n = VFS_DIRECTORY" and f: "find_name name (tn_children n) = Some i"
    using m by (auto simp: tmp_delete_def split: Option.bind_splits if_splits option.splits)
  define c where "c = snd (tn_children n ! i)"
  obtain f1 f2 where u: "tn_upd d (\<lambda>n. n\<lparr> tn_children := del_nth i (tn_children n) \<rparr>) fs = Some f1"
    "tn_upd c nlink_dec f1 = Some f2" "drop_ref as c f2 = Some fs'"
    using m d f by (auto simp: tmp_delete_def c_def Let_def split: Option.bind_splits)
  note e = upd_entries [OF u(1) d] and e2 = upd_same [OF u(2)] and e3 = drop_ref_names [OF u(3)]
  note md = map_of_del [OF f distinct_dir [OF di d(1)]]
  have "names f2 = (names fs)(d := (names fs d)(name := None))" using e(1) e2(1) md(1) names_dir [OF d] by simp
  moreover have "distinct_names fs'" using e(2) [OF di md(2)] e2(2) e3(2) by simp
  moreover have "names fs d name \<noteq> None" using find_name_some [OF f] names_dir [OF d] by simp
  ultimately show ?thesis using e3(1) by metis
qed

lemma rename_names:
  assumes m: "tmp_rename d old new fs = Some (0, fs')" and di: "distinct_names fs" and s: "length new < TMPFS_NAME_LEN"
  shows "names fs d old \<noteq> None \<and> names fs d new = None \<and> distinct_names fs' \<and>
    names fs' = (names fs)(d := (names fs d)(old := None, new := names fs d old))"
proof -
  obtain n i where d: "tn_at fs d = Some n" "tn_type n = VFS_DIRECTORY"
    and f: "find_name old (tn_children n) = Some i" "find_name new (tn_children n) = None"
    using m by (auto simp: tmp_rename_def find_dirent_def split: Option.bind_splits if_splits option.splits)
  define c where "c = snd (tn_children n ! i)"
  obtain f1 where u: "tn_upd d (\<lambda>n. n\<lparr> tn_children := (tn_children n)[i := (new, c)] \<rparr>) fs = Some f1"
    "tn_upd c (\<lambda>n. if tn_nlink n \<le> 1 then n\<lparr> vn_name := take 127 new \<rparr> else n) f1 = Some fs'"
    using m d f s by (auto simp: tmp_rename_def find_dirent_def c_def Let_def split: Option.bind_splits)
  note e = upd_entries [OF u(1) d] and e2 = upd_same [OF u(2)]
  note md = map_of_rename [OF f distinct_dir [OF di d(1)], folded c_def]
  have "names fs' = (names fs)(d := (names fs d)(old := None, new := names fs d old))"
    using e(1) e2(1) md(1) names_dir [OF d] by simp
  moreover have "distinct_names fs'" using e(2) [OF di md(2)] e2(2) by simp
  moreover have "names fs d old \<noteq> None" "names fs d new = None"
    using find_name_some [OF f(1)] f(2) names_dir [OF d] by (simp_all add: find_name_none map_of_eq_None_iff)
  ultimately show ?thesis by blast
qed

lemma rename2_target:
  assumes "tn_upd od (\<lambda>n. n\<lparr> tn_children := g (tn_children n) \<rparr>) fs = Some f1" "tn_upd c nlink_dec f1 = Some f2"
    "tn_at fs od = Some o1" "tn_type o1 = VFS_DIRECTORY" "tn_at fs nd = Some n1" "tn_type n1 = VFS_DIRECTORY"
  obtains n2 where "tn_at f2 nd = Some n2" "tn_type n2 = VFS_DIRECTORY"
proof -
  obtain m1 where "tn_at f1 c = Some m1" "f2 = tn_put c (nlink_dec m1) f1" using assms(2) by (auto simp: tn_upd_def)
  then show thesis using assms that by (cases "nd = c"; cases "nd = od") (auto simp: tn_at_put)
qed

lemma rename2_names:
  assumes m: "tmp_rename2 mem od old nd new fs = Some (0, fs')" and di: "distinct_names fs" and s: "length new < TMPFS_NAME_LEN"
  defines "M \<equiv> (names fs)(od := (names fs od)(old := None))"
  shows "names fs od old \<noteq> None \<and> names fs nd new = None \<and> distinct_names fs' \<and>
    names fs' = M(nd := (M nd)(new := names fs od old))"
proof -
  obtain o1 n1 i where d: "tn_at fs od = Some o1" "tn_type o1 = VFS_DIRECTORY" "tn_at fs nd = Some n1" "tn_type n1 = VFS_DIRECTORY"
    and f: "find_name old (tn_children o1) = Some i" "find_name new (tn_children n1) = None"
    using m by (auto simp: tmp_rename2_def find_dirent_def split: Option.bind_splits if_splits option.splits)
  define c where "c = snd (tn_children o1 ! i)"
  obtain f1 f2 f3 f4 where u: "tn_upd od (\<lambda>n. n\<lparr> tn_children := del_nth i (tn_children n) \<rparr>) fs = Some f1"
    "tn_upd c nlink_dec f1 = Some f2" "tn_upd nd (\<lambda>n. n\<lparr> tn_children := (new, c) # tn_children n \<rparr>) f2 = Some f3"
    "tn_upd c (\<lambda>n. n\<lparr> tn_nlink := tn_nlink n + 1 \<rparr>) f3 = Some f4"
    "tn_upd c (\<lambda>n. n\<lparr> vn_name := take 127 new \<rparr>) f4 = Some fs'"
    using m d f s by (auto simp: tmp_rename2_def find_dirent_def c_def Let_def split: Option.bind_splits if_splits)
  note md = map_of_del [OF f(1) distinct_dir [OF di d(1)]]
  note e1 = upd_entries [OF u(1) d(1,2)] and e2 = upd_same [OF u(2)]
  have c: "names fs od old = Some c" using find_name_some [OF f(1)] names_dir [OF d(1,2)] by (simp add: c_def)
  have M2: "names f2 = M" using e1(1) e2(1) md(1) names_dir [OF d(1,2)] by (simp add: M_def)
  have new: "names fs nd new = None" using f(2) names_dir [OF d(3,4)] by (simp add: find_name_none map_of_eq_None_iff)
  obtain n2 where n2: "tn_at f2 nd = Some n2" "tn_type n2 = VFS_DIRECTORY" using rename2_target [OF u(1,2) d] .
  note e3 = upd_entries [OF u(3) n2] and e4 = upd_same [OF u(4)] and e5 = upd_same [OF u(5)]
  have "M nd new = None" using new unfolding M_def by (cases "nd = od") simp_all
  then have "new \<notin> fst ` set (tn_children n2)" using names_dir [OF n2] M2 by (simp add: map_of_eq_None_iff)
  moreover have d2: "distinct_names f2" using e1(2) [OF di md(2)] e2(2) by simp
  ultimately have "distinct_names fs'" using e3(2) e4(2) e5(2) distinct_dir [OF d2 n2(1)] by simp
  moreover have "names fs' = M(nd := (M nd)(new := names fs od old))"
    using e3(1) e4(1) e5(1) M2 names_dir [OF n2] c by simp
  ultimately show ?thesis using c new by simp
qed

lemma walk_names: "tmp_walk d name fs = map_option (\<lambda>_. names fs d name) (tn_at fs d)"
  by (cases "tn_at fs d") (simp_all add: tmp_walk_def find_child_map names_def)

lemma link_names:
  assumes l: "tmp_link mem d name a fs = Some (0, fs')" and s: "length name < TMPFS_NAME_LEN"
  shows "names fs d name = None \<and> names fs' = (names fs)(d := (names fs d)(name \<mapsto> a)) \<and>
    (distinct_names fs \<longrightarrow> distinct_names fs')"
proof -
  obtain n where d: "tn_at fs d = Some n" "tn_type n = VFS_DIRECTORY" and ad: "add_dirent mem d name a fs = Some (0, fs')"
    using l by (auto simp: tmp_link_def split: Option.bind_splits if_splits)
  from add_dirent_names [OF ad d s] show ?thesis by blast
qed

section \<open>Properties\<close>

text \<open>C6: In every reachable state of tmpfs each inode is a file or a directory, its VFS node agrees with
  it, only directories have entries, every entry refers to an inode that has not been freed, a directory
  has at most one link, and the counts are right: \<open>nlink\<close> covers the entries of the inode, and the
  reference count is the links plus the open handles, plus one for a root. Consequently no call that
  keeps to the contract follows a pointer to a freed inode, and a lookup returns a live inode.\<close>
theorem tmpfs_well_typed:
  assumes "tmp_reach as fs op R"
  shows "(\<forall>a n. tn_at fs a = Some n \<longrightarrow> usable fs a \<longrightarrow> typed_node n \<and> list_all (\<lambda>e. tn_at fs (snd e) \<noteq> None) (tn_children n) \<and>
      int (links fs a) \<le> uint (tn_nlink n) \<and>
      uint (vn_refcount n) = uint (tn_nlink n) + int (op a) + of_bool (a \<in> R)) \<and>
    (\<forall>c. allowed fs op c \<longrightarrow> tmp_exec as c fs \<noteq> None) \<and>
    (\<forall>d name. usable fs d \<longrightarrow> (\<exists>r. tmp_walk d name fs = Some r \<and> (\<forall>c. r = Some c \<longrightarrow> usable fs c)))"
proof (intro conjI allI impI)
  note g = reach_good [OF assms]
  fix a n assume a: "tn_at fs a = Some n" "usable fs a"
  show "typed_node n" using inv_typed [OF g a] .
  show "list_all (\<lambda>e. tn_at fs (snd e) \<noteq> None) (tn_children n)" "int (links fs a) \<le> uint (tn_nlink n)"
    "uint (vn_refcount n) = uint (tn_nlink n) + int (op a) + of_bool (a \<in> R)"
    using node_invD [OF g a(1)] by (auto simp: node_inv_def list_all_iff)
next
  fix c assume "allowed fs op c"
  from tmp_exec_good [OF reach_good [OF assms] this] show "tmp_exec as c fs \<noteq> None" by fastforce
next
  fix d name assume "usable fs d"
  then obtain n where n: "tn_at fs d = Some n" using usableD by blast
  then show "\<exists>r. tmp_walk d name fs = Some r \<and> (\<forall>c. r = Some c \<longrightarrow> usable fs c)"
    using entry_usable [OF reach_good [OF assms] n] by (simp add: tmp_walk_def)
qed

text \<open>A page cache that keeps nothing, and a file system with one file.\<close>

definition ex_as :: "unit as_ops" where
  "ex_as = \<lparr> vfs_as_setsize = (\<lambda>_ _ _ x. x), vfs_as_size = (\<lambda>_ _ _. 0), vfs_as_read = (\<lambda>_ _ _ _ x. ((0, []), x)),
     vfs_as_write = (\<lambda>_ _ _ _ x. (0, x)), vfs_as_truncate = (\<lambda>_ _ _ x. (0, x)),
     vfs_as_backing = (\<lambda>_ _ _ _ x. ((-1, 0, 0), x)), vfs_as_release = (\<lambda>_ _ x. x) \<rparr>"

definition ex_fs0 :: "unit tmpfs" where "ex_fs0 = tmpfs_init (tmpfs_boot ())"

definition ex_fs1 :: "unit tmpfs" where "ex_fs1 = the (tmp_exec ex_as (CCreate (Some 1) True 0 [97]) ex_fs0)"

lemma tmp_ex_reach: "tmp_reach ex_as ex_fs1 (\<lambda>_. 0) {0}"
proof -
  have r0: "tmp_reach ex_as ex_fs0 (\<lambda>_. 0) {0}"
    using tmp_reach.step [OF tmp_reach.boot [of ex_as "()"], of CInit ex_fs0] by (simp add: ex_fs0_def tmpfs_boot_def)
  have "allowed ex_fs0 (\<lambda>_. 0) (CCreate (Some 1) True 0 [97])"
    "tmp_exec ex_as (CCreate (Some 1) True 0 [97]) ex_fs0 = Some ex_fs1"
    unfolding ex_fs1_def by (code_simp, code_simp)
  from tmp_reach.step [OF r0 this] show ?thesis by simp
qed

theorem tmpfs_well_typed_witness:
  "tmp_reach ex_as ex_fs1 (\<lambda>_. 0) {0} \<and> allowed ex_fs1 (\<lambda>_. 0) (CDelete 0 [97]) \<and>
   tmp_exec ex_as (CDelete 0 [97]) ex_fs1 \<noteq> None"
proof -
  have "allowed ex_fs1 (\<lambda>_. 0) (CDelete 0 [97])" by code_simp
  then show ?thesis using tmp_ex_reach tmpfs_well_typed [OF tmp_ex_reach] by blast
qed
text \<open>C14: The directories of tmpfs are finite maps from names to inodes, for names of at most 127 bytes. A
  lookup is the map. A create, a \<open>mkdir\<close> or a link that reports success adds one name that was free, a
  delete removes one that was there, a rename moves one to a free name, in one directory or between two;
  every other directory keeps its map, and no name is there twice afterwards.\<close>
theorem tmpfs_namespace:
  assumes "distinct_names fs" "length name < TMPFS_NAME_LEN" "length newname < TMPFS_NAME_LEN"
  shows "tmp_walk d name fs = map_option (\<lambda>_. names fs d name) (tn_at fs d) \<and>
    (tn_at fs a = None \<longrightarrow>
      tmp_create as (Some a) mem d name fs = Some (0, fs') \<or> tmp_mkdir as (Some a) mem d name fs = Some (0, fs') \<longrightarrow>
      names fs d name = None \<and> names fs' = (names fs)(d := (names fs d)(name \<mapsto> a)) \<and> distinct_names fs') \<and>
    (tmp_link mem d name a fs = Some (0, fs') \<longrightarrow>
      names fs d name = None \<and> names fs' = (names fs)(d := (names fs d)(name \<mapsto> a)) \<and> distinct_names fs') \<and>
    (tmp_delete as d name fs = Some (0, fs') \<longrightarrow> names fs d name \<noteq> None \<and> distinct_names fs' \<and>
      (\<forall>b. tn_at fs' b \<noteq> None \<longrightarrow> names fs' b = ((names fs)(d := (names fs d)(name := None))) b)) \<and>
    (tmp_rename d name newname fs = Some (0, fs') \<longrightarrow>
      names fs d name \<noteq> None \<and> names fs d newname = None \<and> distinct_names fs' \<and>
      names fs' = (names fs)(d := (names fs d)(name := None, newname := names fs d name))) \<and>
    (tmp_rename2 mem d name nd newname fs = Some (0, fs') \<longrightarrow>
      names fs d name \<noteq> None \<and> names fs nd newname = None \<and> distinct_names fs' \<and>
      (let M = (names fs)(d := (names fs d)(name := None)) in names fs' = M(nd := (M nd)(newname := names fs d name))))"
proof (intro conjI [OF walk_names] conjI [OF impI [OF impI]] conjI [OF impI] impI)
  show "names fs d name = None \<and> names fs' = (names fs)(d := (names fs d)(name \<mapsto> a)) \<and> distinct_names fs'"
    if "tn_at fs a = None"
      "tmp_create as (Some a) mem d name fs = Some (0, fs') \<or> tmp_mkdir as (Some a) mem d name fs = Some (0, fs')"
    using that make_names assms(1,2) unfolding tmp_create_def tmp_mkdir_def by blast
  show "names fs d name = None \<and> names fs' = (names fs)(d := (names fs d)(name \<mapsto> a)) \<and> distinct_names fs'"
    if "tmp_link mem d name a fs = Some (0, fs')" using link_names [OF that] assms(1,2) by blast
  show "names fs d name \<noteq> None \<and> distinct_names fs' \<and>
      (\<forall>b. tn_at fs' b \<noteq> None \<longrightarrow> names fs' b = ((names fs)(d := (names fs d)(name := None))) b)"
    if "tmp_delete as d name fs = Some (0, fs')" using that assms(1) by (rule delete_names)
  show "names fs d name \<noteq> None \<and> names fs d newname = None \<and> distinct_names fs' \<and>
      names fs' = (names fs)(d := (names fs d)(name := None, newname := names fs d name))"
    if "tmp_rename d name newname fs = Some (0, fs')" using that assms(1,3) by (rule rename_names)
  show "names fs d name \<noteq> None \<and> names fs nd newname = None \<and> distinct_names fs' \<and>
      (let M = (names fs)(d := (names fs d)(name := None)) in names fs' = M(nd := (M nd)(newname := names fs d name)))"
    if "tmp_rename2 mem d name nd newname fs = Some (0, fs')"
    using that assms(1,3) unfolding Let_def by (rule rename2_names)
qed

definition ex_fs2 :: "unit tmpfs" where "ex_fs2 = the (tmp_exec ex_as (CDelete 0 [97]) ex_fs1)"

theorem tmpfs_namespace_witness:
  "tmp_create ex_as (Some 1) True 0 [97] ex_fs0 = Some (0, ex_fs1) \<and> names ex_fs1 0 [97] = Some 1 \<and>
   tmp_delete ex_as 0 [97] ex_fs1 = Some (0, ex_fs2) \<and> names ex_fs2 0 [97] = None"
proof -
  have d0: "distinct_names ex_fs0" unfolding distinct_names_def
    by (auto simp: ex_fs0_def tmpfs_init_def root_init_def tmpfs_boot_def tn_at_def tn_put_def init_vnode_def zero_node_def
        split: if_splits)
  have c: "tmp_create ex_as (Some 1) True 0 [97] ex_fs0 = Some (0, ex_fs1)" "tn_at ex_fs0 1 = None"
    unfolding ex_fs1_def by (code_simp, code_simp)
  have n: "names ex_fs1 = (names ex_fs0)(0 := (names ex_fs0 0)([97] \<mapsto> 1)) \<and> distinct_names ex_fs1"
    using tmpfs_namespace [OF d0, where name = "[97]" and newname = "[97]" and a = 1 and as = ex_as and mem = True and d = 0
      and fs' = ex_fs1] c by simp
  have e: "tmp_delete ex_as 0 [97] ex_fs1 = Some (0, ex_fs2)" "tn_at ex_fs2 0 \<noteq> None"
    unfolding ex_fs2_def ex_fs1_def by (code_simp, code_simp)
  have "names ex_fs2 0 = (names ex_fs1 0)([97] := None)"
    using tmpfs_namespace [where fs = ex_fs1 and name = "[97]" and newname = "[97]" and as = ex_as and d = 0
      and fs' = ex_fs2] n e by simp
  then show ?thesis using c e n by simp
qed

section \<open>Departures from the comments\<close>

text \<open>A directory can be moved into itself: it is then in no other directory, and never freed.\<close>
lemma rename2_detaches_directory:
  assumes d: "tn_at fs d = Some n" "tn_type n = VFS_DIRECTORY" "tn_children n = [([97], c)]"
    and c: "tn_at fs c = Some m" "tn_type m = VFS_DIRECTORY" "tn_children m = []" "tn_nlink m = 1" "c \<noteq> d"
  shows "\<exists>fs'. tmp_rename2 True d [97] c [98] fs = Some (0, fs') \<and>
    names fs' d = (\<lambda>_. None) \<and> names fs' c = [[98] \<mapsto> c]"
  using assms by (auto simp: tmp_rename2_def find_dirent_def Let_def tn_at_put nlink_dec_def del_nth_def names_def dir_map_def
      name_field_def)

text \<open>A name of more than 127 bytes is cut when it is stored and compared in full: the file cannot be
  found under its name, and can be created again.\<close>
lemma long_name_not_found:
  assumes "tn_type n = VFS_DIRECTORY" "tn_children n = [(name_field name, a)]" "127 < length name"
  shows "find_dirent n name = None"
  using assms by (auto simp: find_dirent_def name_field_def dest!: arg_cong [of _ _ length])

text \<open>Deleting a directory does not look at its entries: their inodes keep a link that no directory has.\<close>
lemma delete_orphans_entries:
  assumes d: "tn_at fs d = Some n" "tn_type n = VFS_DIRECTORY" "tn_children n = [(name, c)]" "d \<noteq> tmpfs_root_node"
    and c: "tn_at fs c = Some m" "vn_refcount m = 1" "tn_nlink m = 1" "c \<noteq> d" "c \<noteq> tmpfs_root_node"
    and e: "(nm, b) \<in> set (tn_children m)" "tn_at fs b = Some k" "b \<noteq> c" "b \<noteq> d"
  shows "\<exists>fs'. tmp_delete as d name fs = Some (0, fs') \<and> tn_at fs' c = None \<and> tn_at fs' b = Some k"
proof -
  let ?f1 = "tn_put d (n\<lparr> tn_children := [] \<rparr>) fs"
  let ?f2 = "tn_put c (m\<lparr> tn_nlink := 0 \<rparr>) ?f1"
  have u: "tn_upd c nlink_dec ?f1 = Some ?f2" using c by (simp add: tn_at_put nlink_dec_def)
  have at: "tn_at ?f2 c = Some (m\<lparr> tn_nlink := 0 \<rparr>)" by (simp add: tn_at_put)
  let ?f3 = "tn_put c (m\<lparr> tn_nlink := 0, vn_refcount := 0 \<rparr>) ?f2"
  have "drop_ref as c ?f2 = free_inode as c ?f3" using at c(2) by (simp add: drop_ref_def Let_def)
  also have "\<dots> = Some (?f3\<lparr> tf_as := vfs_as_release as c (vn_inode m) (tf_as ?f3), tf_nodes := AList.delete c (tf_nodes ?f3) \<rparr>)"
    using c(5) by (simp add: free_inode_def tn_at_put)
  finally have dr: "drop_ref as c ?f2 = \<dots>" .
  have "tmp_delete as d name fs = map_option (Pair 0) (drop_ref as c ?f2)"
    using d u by (cases "drop_ref as c ?f2") (simp_all add: tmp_delete_def del_nth_def Let_def)
  moreover have "tn_at (?f3\<lparr> tf_as := x, tf_nodes := AList.delete c (tf_nodes ?f3) \<rparr>) y =
      (if y = c then None else tn_at ?f3 y)" for x y
    by (simp add: tn_at_def heap_lookup_delete)
  ultimately show ?thesis using dr e by (simp add: tn_at_put)
qed

end
