(* ===== verification/Pmm.thy ===== *)
theory Pmm
  imports Prelude
begin

text \<open>
  The physical memory manager \<open>kernel/memory/rust_mm/src/pmm.rs\<close> with its arithmetic (\<open>pmm_math.rs\<close>): a bitmap
  with one bit per frame (set: in use), a 16-bit reference count per frame, and the index from which
  the search for a free frame starts. The two static arrays are functions from indices, since they have a
  million entries; the code reads and writes them below \<open>TOTAL_PAGES\<close> only. A call that holds
  \<open>PAGE_LOCK\<close> is one step. \<open>kalloc\<close> gives up the lock between its rounds, in which pages are
  reclaimed: the frames that a round of reclaim passes to \<open>free_page\<close> are arguments.
\<close>

section \<open>Arithmetic\<close>

abbreviation (input) PAGE_SIZE :: nat where "PAGE_SIZE \<equiv> 4096"
abbreviation (input) TOTAL_PAGES :: nat where "TOTAL_PAGES \<equiv> 1048576"
abbreviation (input) BITMAP_SIZE :: nat where "BITMAP_SIZE \<equiv> 131072"
abbreviation (input) PMM_MAX_ADDR :: nat where "PMM_MAX_ADDR \<equiv> 4294967296"
abbreviation (input) PCI_HOLE_START :: nat where "PCI_HOLE_START \<equiv> 0xC0000000"
abbreviation (input) RESERVED_END :: nat where "RESERVED_END \<equiv> 0x20000000"
abbreviation (input) USER_FRAME_CEIL :: nat where "USER_FRAME_CEIL \<equiv> 0x80000000"
abbreviation (input) HEAP_SIZE :: nat where "HEAP_SIZE \<equiv> 0x1000000"
abbreviation (input) ALIGN_2M :: nat where "ALIGN_2M \<equiv> 0x200000"
abbreviation (input) MB2_MMAP_MAX_ENTRIES :: nat where "MB2_MMAP_MAX_ENTRIES \<equiv> 128"
abbreviation (input) MB2_MMAP_TYPE_AVAILABLE :: nat where "MB2_MMAP_TYPE_AVAILABLE \<equiv> 1"

definition page_to_addr :: "nat \<Rightarrow> nat" where
  "page_to_addr idx = idx * PAGE_SIZE"

definition addr_to_page :: "nat \<Rightarrow> nat" where
  "addr_to_page addr = addr div PAGE_SIZE"

definition bitmap_byte :: "nat \<Rightarrow> nat" where
  "bitmap_byte idx = idx div 8"

definition bitmap_mask :: "nat \<Rightarrow> u8" where
  "bitmap_mask idx = push_bit (idx mod 8) 1"

text \<open>\<open>saturating_add\<close> on 64 and on 32 bits.\<close>

definition sat64 :: "nat \<Rightarrow> nat" where
  "sat64 x = min x (2 ^ 64 - 1)"

definition sat32 :: "nat \<Rightarrow> nat" where
  "sat32 x = min x (2 ^ 32 - 1)"

definition clip_to_limit :: "nat \<Rightarrow> nat \<Rightarrow> nat \<Rightarrow> (nat \<times> nat) option" where
  "clip_to_limit base len limit =
     (if len = 0 then None
      else let e = min (sat64 (base + len)) limit
           in if base \<ge> e then None else Some (base, e))"

text \<open>Rounding to a multiple of the page size, and the 32-bit truncation of the result.\<close>

definition aligned_page_range :: "nat \<Rightarrow> nat \<Rightarrow> nat \<times> nat" where
  "aligned_page_range base e =
     (let first_addr = (base + (PAGE_SIZE - 1)) div PAGE_SIZE * PAGE_SIZE; last_addr = e div PAGE_SIZE * PAGE_SIZE
      in (addr_to_page (first_addr mod 2 ^ 32), addr_to_page (last_addr mod 2 ^ 32)))"

definition ram_end_from_candidate :: "nat \<Rightarrow> nat \<Rightarrow> nat \<Rightarrow> nat option" where
  "ram_end_from_candidate candidate reserved_end limit =
     (if candidate = 0 then None
      else let re0 = (candidate + (PAGE_SIZE - 1)) div PAGE_SIZE * PAGE_SIZE;
               re = (if re0 \<ge> limit then limit - PAGE_SIZE else re0)
           in if re \<ge> reserved_end then Some re else None)"

definition mmio_window_base :: "nat \<Rightarrow> nat \<Rightarrow> nat" where
  "mmio_window_base ram_end hole_start = (max ram_end hole_start + (ALIGN_2M - 1)) div ALIGN_2M * ALIGN_2M"

section \<open>State\<close>

record mb2_mmap =
  mm_base :: nat
  mm_len :: nat
  mm_ty :: nat

record pmm =
  pm_bitmap :: "nat \<Rightarrow> u8"
  pm_refs :: "nat \<Rightarrow> u16"
  pm_first :: nat \<comment> \<open>\<open>FIRST_AVAILABLE_PAGE\<close>\<close>
  pm_ram_end :: nat
  pm_window :: nat
  pm_total :: nat
  pm_reserved_end :: nat \<comment> \<open>\<open>BOOT_RESERVED_END\<close>\<close>
  pm_mmap :: "mb2_mmap list"

definition pmm_static :: pmm where
  "pmm_static = \<lparr> pm_bitmap = (\<lambda>_. 0), pm_refs = (\<lambda>_. 0), pm_first = 0, pm_ram_end = PCI_HOLE_START,
     pm_window = PCI_HOLE_START, pm_total = 0, pm_reserved_end = RESERVED_END, pm_mmap = [] \<rparr>"

definition heap_start :: "pmm \<Rightarrow> nat" where
  "heap_start s = pm_reserved_end s"

definition heap_end :: "pmm \<Rightarrow> nat" where
  "heap_end s = min (sat32 (heap_start s + HEAP_SIZE)) PCI_HOLE_START"

definition bitmap_set :: "nat \<Rightarrow> (nat \<Rightarrow> u8) \<Rightarrow> nat \<Rightarrow> u8" where
  "bitmap_set idx bm = bm(bitmap_byte idx := bm (bitmap_byte idx) OR bitmap_mask idx)"

definition bitmap_clear :: "nat \<Rightarrow> (nat \<Rightarrow> u8) \<Rightarrow> nat \<Rightarrow> u8" where
  "bitmap_clear idx bm = bm(bitmap_byte idx := bm (bitmap_byte idx) AND NOT (bitmap_mask idx))"

definition bitmap_test :: "nat \<Rightarrow> (nat \<Rightarrow> u8) \<Rightarrow> bool" where
  "bitmap_test idx bm \<longleftrightarrow> bm (bitmap_byte idx) AND bitmap_mask idx \<noteq> 0"

section \<open>Start-up\<close>

definition pmm_reserve_boot_images :: "nat \<Rightarrow> pmm \<Rightarrow> nat \<times> pmm" where
  "pmm_reserve_boot_images e s =
     (let aligned = (if e + (ALIGN_2M - 1) < 2 ^ 32 then (e + (ALIGN_2M - 1)) div ALIGN_2M * ALIGN_2M else RESERVED_END);
          v = (if aligned > RESERVED_END then aligned else RESERVED_END)
      in (v, s\<lparr> pm_reserved_end := v \<rparr>))"

definition clip_entry :: "mb2_mmap \<Rightarrow> mb2_mmap" where
  "clip_entry e = (case clip_to_limit (mm_base e) (mm_len e) USER_FRAME_CEIL of
     Some (base, z) \<Rightarrow> e\<lparr> mm_base := base, mm_len := z - base \<rparr>
   | None \<Rightarrow> e\<lparr> mm_len := 0 \<rparr>)"

definition pmm_init_from_mmap :: "mb2_mmap list option \<Rightarrow> pmm \<Rightarrow> pmm" where
  "pmm_init_from_mmap mmap s = (case mmap of None \<Rightarrow> s
     | Some es \<Rightarrow> s\<lparr> pm_mmap := map clip_entry (take MB2_MMAP_MAX_ENTRIES es) \<rparr>)"

text \<open>One entry of the boot map: the bitmap, the frames counted, the highest end so far.\<close>

definition install_region :: "mb2_mmap \<Rightarrow> (nat \<Rightarrow> u8) \<times> nat \<times> nat \<Rightarrow> (nat \<Rightarrow> u8) \<times> nat \<times> nat" where
  "install_region e = (\<lambda>(bm, usable, cand).
     if mm_ty e \<noteq> MB2_MMAP_TYPE_AVAILABLE \<or> mm_len e = 0 then (bm, usable, cand)
     else let clip_end = min (sat64 (mm_base e + mm_len e)) PMM_MAX_ADDR
          in if mm_base e \<ge> clip_end then (bm, usable, cand)
             else let cand1 = max cand clip_end; r = aligned_page_range (mm_base e) clip_end;
                      pgs = filter (\<lambda>pg. pg < TOTAL_PAGES) [fst r..<snd r]
                  in (fold bitmap_clear pgs bm, usable + length pgs, cand1))"

definition init_memory_manager :: "pmm \<Rightarrow> pmm" where
  "init_memory_manager s =
     (let bm0 = (\<lambda>_. 0xFF);
          fallback = [addr_to_page (pm_reserved_end s)..<addr_to_page PCI_HOLE_START];
          (bm1, usable, cand) =
            (if pm_mmap s \<noteq> [] then fold install_region (pm_mmap s) (bm0, 0, 0)
             else (fold bitmap_clear fallback bm0, length fallback, 0));
          ram_end = (case ram_end_from_candidate cand (pm_reserved_end s) USER_FRAME_CEIL of
                       None \<Rightarrow> PCI_HOLE_START | Some r \<Rightarrow> r);
          bm2 = fold bitmap_set [0..<addr_to_page (pm_reserved_end s)] bm1;
          hs = addr_to_page (heap_start s); he = addr_to_page (heap_end s);
          bm3 = (if hs < he then fold bitmap_set [hs..<he] bm2 else bm2)
      in s\<lparr> pm_bitmap := bm3, pm_ram_end := ram_end, pm_window := mmio_window_base ram_end PCI_HOLE_START,
            pm_total := usable, pm_first := he \<rparr>)"

section \<open>Frames\<close>

text \<open>The first-fit search under the lock.\<close>

function find_free :: "(nat \<Rightarrow> u8) \<Rightarrow> nat \<Rightarrow> nat \<Rightarrow> nat option" where
  "find_free bm i limit = (if i < limit then if \<not> bitmap_test i bm then Some i else find_free bm (i + 1) limit else None)"
  by pat_completeness auto
termination by (relation "measure (\<lambda>(_, i, limit). limit - i)") auto

definition kalloc_scan :: "pmm \<Rightarrow> (nat \<times> pmm) option" where
  "kalloc_scan s = map_option (\<lambda>i. (page_to_addr i,
       s\<lparr> pm_bitmap := bitmap_set i (pm_bitmap s), pm_refs := (pm_refs s)(i := 1), pm_first := i + 1 \<rparr>))
     (find_free (pm_bitmap s) (pm_first s) (addr_to_page (pm_ram_end s)))"

definition free_page :: "nat \<Rightarrow> pmm \<Rightarrow> pmm" where
  "free_page addr s =
     (if addr = 0 then s
      else if addr mod PAGE_SIZE \<noteq> 0 then s
      else let page_idx = addr_to_page addr
        in if page_idx \<ge> TOTAL_PAGES then s
           else if addr < pm_reserved_end s then s
           else if addr \<ge> heap_start s \<and> addr < heap_end s then s
           else let rc = pm_refs s page_idx
             in if rc > 1 then s\<lparr> pm_refs := (pm_refs s)(page_idx := rc - 1) \<rparr>
                else s\<lparr> pm_refs := (pm_refs s)(page_idx := 0), pm_bitmap := bitmap_clear page_idx (pm_bitmap s),
                        pm_first := (if page_idx < pm_first s then page_idx else pm_first s) \<rparr>)"

abbreviation (input) MAX_RECLAIM_ROUNDS :: nat where "MAX_RECLAIM_ROUNDS \<equiv> 4"

text \<open>The rounds of \<open>kalloc\<close>: a list of frames freed for each reclaim that succeeded. Null is 0.\<close>

fun kalloc_rounds :: "nat list list \<Rightarrow> pmm \<Rightarrow> nat \<times> pmm" where
  "kalloc_rounds [] s = (case kalloc_scan s of Some r \<Rightarrow> r | None \<Rightarrow> (0, s))"
| "kalloc_rounds (ps # rs) s = (case kalloc_scan s of Some r \<Rightarrow> r | None \<Rightarrow> kalloc_rounds rs (fold free_page ps s))"

definition kalloc :: "nat list list \<Rightarrow> pmm \<Rightarrow> nat \<times> pmm" where
  "kalloc rs s = kalloc_rounds (take MAX_RECLAIM_ROUNDS rs) s"

definition page_ref_inc :: "nat \<Rightarrow> pmm \<Rightarrow> pmm" where
  "page_ref_inc addr s =
     (if addr < pm_reserved_end s then s
      else let idx = addr_to_page addr
        in if idx \<ge> TOTAL_PAGES then s
           else s\<lparr> pm_refs := (pm_refs s)(idx := (if pm_refs s idx = 0xFFFF then 0xFFFF else pm_refs s idx + 1)) \<rparr>)"

definition page_ref_get :: "nat \<Rightarrow> pmm \<Rightarrow> u16" where
  "page_ref_get addr s =
     (if addr < pm_reserved_end s then 0
      else let idx = addr_to_page addr in if idx \<ge> TOTAL_PAGES then 0 else pm_refs s idx)"

definition pmm_total_frames :: "pmm \<Rightarrow> nat" where
  "pmm_total_frames s = pm_total s"

definition count_ones :: "u8 \<Rightarrow> nat" where
  "count_ones b = length (filter (bit b) [0..<8])"

definition pmm_free_frames :: "pmm \<Rightarrow> nat" where
  "pmm_free_frames s = sum_list (map (\<lambda>i. 8 - count_ones (pm_bitmap s i)) [0..<BITMAP_SIZE])"
section \<open>Lemmas on the bitmap\<close>

lemma bitmap_test_bit: "bitmap_test i bm \<longleftrightarrow> bit (bm (i div 8)) (i mod 8)"
  by (simp add: bitmap_test_def bitmap_byte_def bitmap_mask_def bit_iff_and_push_bit_not_eq_0)

lemma mask_bit: "n < 8 \<Longrightarrow> bit (bitmap_mask j) n \<longleftrightarrow> n = j mod 8"
  by (auto simp: bitmap_mask_def bit_exp_iff)

lemma same_bit: "i div 8 = j div 8 \<Longrightarrow> i mod 8 = j mod 8 \<longleftrightarrow> i = j" for i j :: nat
  by (metis div_mult_mod_eq)

lemma test_set [simp]: "bitmap_test i (bitmap_set j bm) \<longleftrightarrow> i = j \<or> bitmap_test i bm"
  using same_bit[of i j] mask_bit[of "i mod 8" j]
  by (auto simp: bitmap_test_bit bitmap_set_def bitmap_byte_def bit_or_iff)

lemma test_clear [simp]: "bitmap_test i (bitmap_clear j bm) \<longleftrightarrow> i \<noteq> j \<and> bitmap_test i bm"
  using same_bit[of i j] mask_bit[of "i mod 8" j]
  by (auto simp: bitmap_test_bit bitmap_clear_def bitmap_byte_def bit_and_iff bit_not_iff)

lemma test_sets [simp]: "bitmap_test i (fold bitmap_set js bm) \<longleftrightarrow> i \<in> set js \<or> bitmap_test i bm"
  by (induction js arbitrary: bm) auto

lemma test_clears [simp]: "bitmap_test i (fold bitmap_clear js bm) \<longleftrightarrow> i \<notin> set js \<and> bitmap_test i bm"
  by (induction js arbitrary: bm) auto

lemma test_full [simp]: "bitmap_test i (\<lambda>_. 0xFF)"
proof -
  have "(0xFF :: u8) = -1" by simp
  then show ?thesis by (simp only: bitmap_test_bit) simp
qed

lemma find_free_some:
  assumes "find_free bm i limit = Some p"
  shows "i \<le> p" "p < limit" "\<not> bitmap_test p bm" "\<And>q. i \<le> q \<Longrightarrow> q < p \<Longrightarrow> bitmap_test q bm"
proof -
  have "i \<le> p \<and> p < limit \<and> \<not> bitmap_test p bm \<and> (\<forall>q. i \<le> q \<longrightarrow> q < p \<longrightarrow> bitmap_test q bm)"
    using assms
  proof (induction bm i limit rule: find_free.induct)
    case (1 bm i limit)
    show ?case
    proof (cases "i < limit \<and> bitmap_test i bm")
      case True
      then have e: "find_free bm (i + 1) limit = Some p" using 1(2) by simp
      have "i + 1 \<le> p \<and> p < limit \<and> \<not> bitmap_test p bm \<and> (\<forall>q. i + 1 \<le> q \<longrightarrow> q < p \<longrightarrow> bitmap_test q bm)"
        by (rule 1(1)[OF _ _ e]) (use True in auto)
      moreover have "i = q \<or> i + 1 \<le> q" if "i \<le> q" for q using that by linarith
      ultimately show ?thesis using True by (metis Suc_eq_plus1 Suc_leD)
    next
      case False
      then show ?thesis using 1(2) by (auto split: if_splits)
    qed
  qed
  then show "i \<le> p" "p < limit" "\<not> bitmap_test p bm" "\<And>q. i \<le> q \<Longrightarrow> q < p \<Longrightarrow> bitmap_test q bm" by auto
qed

lemma find_free_none: "find_free bm i limit = None \<Longrightarrow> i \<le> q \<Longrightarrow> q < limit \<Longrightarrow> bitmap_test q bm"
proof (induction bm i limit rule: find_free.induct)
  case (1 bm i limit)
  then show ?case by (cases "q = i") (auto split: if_splits)
qed

declare find_free.simps [simp del]

lemma count_zeros: "8 - count_ones b = card {n. n < 8 \<and> \<not> bit b n}"
proof -
  have "count_ones b = card {n. n < 8 \<and> bit b n}"
    by (simp add: count_ones_def distinct_length_filter Int_def conj_commute)
  moreover have "{n. n < 8 \<and> bit b n} \<union> {n. n < 8 \<and> \<not> bit b n} = {..<8}" by auto
  then have "card {n. n < 8 \<and> bit b n} + card {n. n < 8 \<and> \<not> bit b n} = 8"
    using card_Un_disjoint[of "{n. n < 8 \<and> bit b n}" "{n. n < 8 \<and> \<not> bit b n}"] by auto
  ultimately show ?thesis by linarith
qed

lemma free_frames_upto:
  "sum_list (map (\<lambda>i. 8 - count_ones (bm i)) [0..<N]) = card {p. p < 8 * N \<and> \<not> bitmap_test p bm}"
proof (induction N)
  case (Suc N)
  let ?A = "{p. p < 8 * N \<and> \<not> bitmap_test p bm}" and ?B = "{n. n < 8 \<and> \<not> bit (bm N) n}"
  have split: "p < 8 * Suc N \<longleftrightarrow> p < 8 * N \<or> (\<exists>n < 8. p = 8 * N + n)" for p :: nat
    by presburger
  have "{p. p < 8 * Suc N \<and> \<not> bitmap_test p bm} = ?A \<union> (\<lambda>n. 8 * N + n) ` ?B"
    unfolding split by (auto simp: bitmap_test_bit)
  moreover have "card (?A \<union> (\<lambda>n. 8 * N + n) ` ?B) = card ?A + card ((\<lambda>n. 8 * N + n) ` ?B)"
    by (rule card_Un_disjoint) auto
  moreover have "card ((\<lambda>n. 8 * N + n) ` ?B) = card ?B" by (rule card_image) simp
  ultimately show ?case using Suc by (simp add: count_zeros)
qed simp

lemma pmm_free_frames_exact: "pmm_free_frames s = card {p. p < TOTAL_PAGES \<and> \<not> bitmap_test p (pm_bitmap s)}"
  unfolding pmm_free_frames_def free_frames_upto by simp

section \<open>The invariant\<close>

text \<open>
  \<open>held p\<close> is the number of references to frame \<open>p\<close> that callers hold. The manager counts them exactly, a free
  frame is outside the reservation and the heap window, and no free frame is below the search index.
\<close>

definition managed :: "pmm \<Rightarrow> nat \<Rightarrow> bool" where
  "managed s p \<longleftrightarrow> 0 < p \<and> p < TOTAL_PAGES \<and> pm_reserved_end s \<le> page_to_addr p \<and>
     \<not> (heap_start s \<le> page_to_addr p \<and> page_to_addr p < heap_end s)"

definition pmm_inv :: "pmm \<Rightarrow> (nat \<Rightarrow> nat) \<Rightarrow> bool" where
  "pmm_inv s held \<longleftrightarrow>
     (\<forall>p. unat (pm_refs s p) = held p) \<and>
     (\<forall>p. 0 < held p \<longrightarrow> bitmap_test p (pm_bitmap s) \<and> managed s p \<and> p < addr_to_page (pm_ram_end s)) \<and>
     (\<forall>p. \<not> bitmap_test p (pm_bitmap s) \<longrightarrow> managed s p) \<and>
     (\<forall>p < pm_first s. bitmap_test p (pm_bitmap s))"

lemma managed_cong [simp]:
  "managed (s\<lparr> pm_bitmap := b \<rparr>) = managed s" "managed (s\<lparr> pm_refs := r \<rparr>) = managed s" "managed (s\<lparr> pm_first := f \<rparr>) = managed s"
  by (simp_all add: fun_eq_iff managed_def heap_start_def heap_end_def)

lemma page_addr [simp]: "addr_to_page (page_to_addr p) = p" "page_to_addr p mod PAGE_SIZE = 0"
  by (simp_all add: addr_to_page_def page_to_addr_def)

lemma scan_inv:
  assumes inv: "pmm_inv s held" and scan: "kalloc_scan s = Some (a, s')"
  shows "pmm_inv s' (held(addr_to_page a := 1))" "held (addr_to_page a) = 0" "a = page_to_addr (addr_to_page a)"
    "\<not> bitmap_test (addr_to_page a) (pm_bitmap s)"
proof -
  obtain i where i: "find_free (pm_bitmap s) (pm_first s) (addr_to_page (pm_ram_end s)) = Some i" "a = page_to_addr i"
    and s': "s' = s\<lparr> pm_bitmap := bitmap_set i (pm_bitmap s), pm_refs := (pm_refs s)(i := 1), pm_first := i + 1 \<rparr>"
    using scan by (auto simp: kalloc_scan_def)
  note f = find_free_some[OF i(1)]
  show free: "\<not> bitmap_test (addr_to_page a) (pm_bitmap s)" using f(3) i(2) by simp
  then show z: "held (addr_to_page a) = 0" using inv by (auto simp: pmm_inv_def)
  show "a = page_to_addr (addr_to_page a)" using i(2) by simp
  have "bitmap_test q (pm_bitmap s)" if "q < i" for q
    using f(4)[of q] inv that by (cases "pm_first s \<le> q") (auto simp: pmm_inv_def)
  then have "\<forall>p < i + 1. p = i \<or> bitmap_test p (pm_bitmap s)" by (simp add: less_Suc_eq)
  moreover have "managed s i" using inv f(3) by (auto simp: pmm_inv_def)
  ultimately show "pmm_inv s' (held(addr_to_page a := 1))" using inv f(2) i(2) by (auto simp: pmm_inv_def s')
qed

lemma scan_none: "pmm_inv s held \<Longrightarrow> kalloc_scan s = None \<Longrightarrow> p < addr_to_page (pm_ram_end s) \<Longrightarrow> bitmap_test p (pm_bitmap s)"
  using find_free_none[of "pm_bitmap s" "pm_first s" "addr_to_page (pm_ram_end s)" p]
  by (cases "pm_first s \<le> p") (auto simp: pmm_inv_def kalloc_scan_def)

lemma free_managed:
  assumes "managed s p"
  shows "free_page (page_to_addr p) s =
    (if pm_refs s p > 1 then s\<lparr> pm_refs := (pm_refs s)(p := pm_refs s p - 1) \<rparr>
     else s\<lparr> pm_refs := (pm_refs s)(p := 0), pm_bitmap := bitmap_clear p (pm_bitmap s), pm_first := min p (pm_first s) \<rparr>)"
proof -
  have "page_to_addr p \<noteq> 0" using assms by (simp add: managed_def page_to_addr_def)
  then show ?thesis using assms by (auto simp: free_page_def Let_def managed_def min_def)
qed

lemma free_inv:
  assumes inv: "pmm_inv s held" and h: "0 < held p"
  shows "pmm_inv (free_page (page_to_addr p) s) (held(p := held p - 1))"
proof -
  have r: "unat (pm_refs s p) = held p" and m: "managed s p" using inv h by (auto simp: pmm_inv_def)
  show ?thesis
  proof (cases "pm_refs s p > 1")
    case True
    then have "1 < held p" using r by (simp add: word_less_nat_alt)
    moreover have "unat (pm_refs s p - 1) = held p - 1"
      using True r by (subst unat_sub) (auto simp: word_less_nat_alt word_le_nat_alt)
    ultimately show ?thesis using inv True by (auto simp: free_managed[OF m] pmm_inv_def)
  next
    case False
    then have "held p = 1" using r h by (simp add: word_less_nat_alt)
    then show ?thesis using inv m False by (auto simp: free_managed[OF m] pmm_inv_def)
  qed
qed

lemma inc_inv:
  assumes inv: "pmm_inv s held" and h: "0 < held p" "held p < 65535"
  shows "pmm_inv (page_ref_inc (page_to_addr p) s) (held(p := held p + 1))"
proof -
  have r: "unat (pm_refs s p) = held p" and m: "managed s p" using inv h by (auto simp: pmm_inv_def)
  have "unat (pm_refs s p + 1) = held p + 1" using r h by (subst unat_word_ariths) simp
  moreover have "pm_refs s p \<noteq> 0xFFFF" using r h by auto
  moreover have "\<not> page_to_addr p < pm_reserved_end s" "\<not> TOTAL_PAGES \<le> p" using m by (auto simp: managed_def)
  ultimately have "page_ref_inc (page_to_addr p) s = s\<lparr> pm_refs := (pm_refs s)(p := pm_refs s p + 1) \<rparr>"
    unfolding page_ref_inc_def Let_def by simp
  then show ?thesis using inv m \<open>unat (pm_refs s p + 1) = held p + 1\<close> h(1) by (simp add: pmm_inv_def)
qed

lemma held_exact:
  assumes inv: "pmm_inv s held" and h: "0 < held p"
  shows "bitmap_test p (pm_bitmap s) \<and> unat (page_ref_get (page_to_addr p) s) = held p"
proof -
  have t: "bitmap_test p (pm_bitmap s)" and m: "managed s p" and r: "unat (pm_refs s p) = held p"
    using inv h by (simp_all add: pmm_inv_def)
  have "\<not> page_to_addr p < pm_reserved_end s" "\<not> TOTAL_PAGES \<le> p" using m by (simp_all add: managed_def)
  then have "page_ref_get (page_to_addr p) s = pm_refs s p" unfolding page_ref_get_def Let_def by simp
  then show ?thesis using t r by simp
qed

section \<open>Start-up establishes the invariant\<close>

definition pmm_boot :: "nat \<Rightarrow> mb2_mmap list option \<Rightarrow> pmm" where
  "pmm_boot images mmap =
     init_memory_manager (pmm_init_from_mmap mmap (snd (pmm_reserve_boot_images images pmm_static)))"

definition region_end :: "mb2_mmap \<Rightarrow> nat" where
  "region_end e = snd (aligned_page_range (mm_base e) (min (sat64 (mm_base e + mm_len e)) PMM_MAX_ADDR))"

lemma install_free:
  "\<not> bitmap_test p (fst (install_region e x)) \<Longrightarrow> bitmap_test p (fst x) \<Longrightarrow> p < TOTAL_PAGES \<and> mm_len e \<noteq> 0 \<and> p < region_end e"
  by (auto simp: install_region_def region_end_def Let_def split: prod.splits if_splits)

lemma installs_free:
  "\<not> bitmap_test p (fst (fold install_region es x)) \<Longrightarrow> bitmap_test p (fst x) \<Longrightarrow>
     p < TOTAL_PAGES \<and> (\<exists>e \<in> set es. mm_len e \<noteq> 0 \<and> p < region_end e)"
proof (induction es arbitrary: x)
  case (Cons e es)
  show ?case
  proof (cases "bitmap_test p (fst (install_region e x))")
    case True
    then show ?thesis using Cons.IH[of "install_region e x"] Cons.prems(1) by auto
  next
    case False
    then show ?thesis using install_free[OF _ Cons.prems(2)] by auto
  qed
qed simp

lemma region_end_le:
  assumes "mm_base e + mm_len e \<le> USER_FRAME_CEIL"
  shows "region_end e \<le> USER_FRAME_CEIL div PAGE_SIZE"
proof -
  let ?z = "min (sat64 (mm_base e + mm_len e)) PMM_MAX_ADDR"
  have "region_end e = (?z div PAGE_SIZE * PAGE_SIZE mod 2 ^ 32) div PAGE_SIZE"
    by (simp only: region_end_def aligned_page_range_def addr_to_page_def Let_def snd_conv)
  also have "\<dots> \<le> (?z div PAGE_SIZE * PAGE_SIZE) div PAGE_SIZE" by (rule div_le_mono) (rule mod_less_eq_dividend)
  also have "\<dots> = ?z div PAGE_SIZE" by (rule nonzero_mult_div_cancel_right) simp
  also have "\<dots> \<le> USER_FRAME_CEIL div PAGE_SIZE"
    using assms by (intro div_le_mono) (simp add: sat64_def min_def)
  finally show ?thesis .
qed

lemma clipped_end: "mm_len (clip_entry e) \<noteq> 0 \<Longrightarrow> region_end (clip_entry e) \<le> USER_FRAME_CEIL div PAGE_SIZE"
  by (rule region_end_le) (auto simp: clip_entry_def clip_to_limit_def Let_def split: if_splits)

lemma reserve_aligned: "pm_reserved_end (snd (pmm_reserve_boot_images e s)) mod PAGE_SIZE = 0"
  "RESERVED_END \<le> pm_reserved_end (snd (pmm_reserve_boot_images e s))"
proof -
  have "x * ALIGN_2M = x * 512 * PAGE_SIZE" for x :: nat by simp
  then have "x * ALIGN_2M mod PAGE_SIZE = 0" for x :: nat by (metis mod_mult_self2_is_0)
  then show "pm_reserved_end (snd (pmm_reserve_boot_images e s)) mod PAGE_SIZE = 0"
    by (auto simp: pmm_reserve_boot_images_def Let_def)
  show "RESERVED_END \<le> pm_reserved_end (snd (pmm_reserve_boot_images e s))"
    by (auto simp: pmm_reserve_boot_images_def Let_def)
qed

lemma heap_end_aligned: "pm_reserved_end s mod PAGE_SIZE = 0 \<Longrightarrow> heap_end s mod PAGE_SIZE = 0"
  by (auto simp: heap_end_def heap_start_def sat32_def min_def)

lemma aligned_le: "a mod PAGE_SIZE = 0 \<Longrightarrow> a \<le> page_to_addr p \<longleftrightarrow> addr_to_page a \<le> p"
  by (auto simp: page_to_addr_def addr_to_page_def)

lemma init_fields: "pm_refs (init_memory_manager s) = pm_refs s" "pm_reserved_end (init_memory_manager s) = pm_reserved_end s"
  "pm_first (init_memory_manager s) = addr_to_page (heap_end s)" "heap_end (init_memory_manager s) = heap_end s"
  "heap_start (init_memory_manager s) = heap_start s"
  by (simp_all add: init_memory_manager_def heap_end_def heap_start_def Let_def split: prod.splits)

lemma init_free:
  assumes "\<not> bitmap_test p (pm_bitmap (init_memory_manager s))"
  shows "addr_to_page (pm_reserved_end s) \<le> p" "\<not> (addr_to_page (heap_start s) \<le> p \<and> p < addr_to_page (heap_end s))"
    "p < TOTAL_PAGES" "pm_mmap s \<noteq> [] \<Longrightarrow> \<exists>e \<in> set (pm_mmap s). mm_len e \<noteq> 0 \<and> p < region_end e"
proof -
  let ?x = "if pm_mmap s \<noteq> [] then fold install_region (pm_mmap s) (\<lambda>_. 0xFF, 0, 0)
    else (fold bitmap_clear [addr_to_page (pm_reserved_end s)..<addr_to_page PCI_HOLE_START] (\<lambda>_. 0xFF),
      length [addr_to_page (pm_reserved_end s)..<addr_to_page PCI_HOLE_START], 0)"
  have f: "addr_to_page (pm_reserved_end s) \<le> p \<and> \<not> (addr_to_page (heap_start s) \<le> p \<and> p < addr_to_page (heap_end s)) \<and>
      \<not> bitmap_test p (fst ?x)"
    using assms unfolding init_memory_manager_def Let_def case_prod_beta by (auto split: if_splits)
  then show "addr_to_page (pm_reserved_end s) \<le> p" "\<not> (addr_to_page (heap_start s) \<le> p \<and> p < addr_to_page (heap_end s))"
    by auto
  have "p < addr_to_page PCI_HOLE_START" if "pm_mmap s = []" using f that by auto
  then show "p < TOTAL_PAGES"
    using f installs_free[of p "pm_mmap s" "(\<lambda>_. 0xFF, 0, 0)"] by (cases "pm_mmap s = []") (auto simp: addr_to_page_def)
  show "\<exists>e \<in> set (pm_mmap s). mm_len e \<noteq> 0 \<and> p < region_end e" if "pm_mmap s \<noteq> []"
    using f that installs_free[of p "pm_mmap s" "(\<lambda>_. 0xFF, 0, 0)"] by simp
qed

lemma init_inv:
  assumes a: "pm_reserved_end s mod PAGE_SIZE = 0" "RESERVED_END \<le> pm_reserved_end s" and r: "pm_refs s = (\<lambda>_. 0)"
  shows "pmm_inv (init_memory_manager s) (\<lambda>_. 0)"
proof -
  have m: "managed (init_memory_manager s) p" if "\<not> bitmap_test p (pm_bitmap (init_memory_manager s))" for p
  proof -
    note f = init_free[OF that]
    have "pm_reserved_end s \<le> page_to_addr p" using f(1) aligned_le[OF a(1)] by simp
    moreover have "\<not> (heap_start s \<le> page_to_addr p \<and> page_to_addr p < heap_end s)"
      using f(1,2) aligned_le[OF heap_end_aligned[OF a(1)], of p] by (auto simp: heap_start_def)
    moreover have "0 < p" using calculation(1) a(2) by (cases p) (auto simp: page_to_addr_def)
    ultimately show ?thesis using f(3) by (simp add: managed_def init_fields)
  qed
  have "bitmap_test p (pm_bitmap (init_memory_manager s))" if "p < addr_to_page (heap_end s)" for p
    using init_free(1,2)[of p s] that by (auto simp: heap_start_def)
  then show ?thesis using m r by (auto simp: pmm_inv_def init_fields)
qed

lemma pmm_boot_inv: "pmm_inv (pmm_boot images mmap) (\<lambda>_. 0)"
  unfolding pmm_boot_def
  by (rule init_inv)
     (use reserve_aligned[of images pmm_static] in
       \<open>auto simp: pmm_init_from_mmap_def pmm_reserve_boot_images_def pmm_static_def Let_def split: option.splits\<close>)

section \<open>Reachable states\<close>

inductive pmm_reach :: "pmm \<Rightarrow> (nat \<Rightarrow> nat) \<Rightarrow> bool" where
  pr_boot: "pmm_reach (pmm_boot images mmap) (\<lambda>_. 0)"
| pr_alloc: "pmm_reach s held \<Longrightarrow> kalloc_scan s = Some (a, s') \<Longrightarrow> pmm_reach s' (held(addr_to_page a := 1))"
| pr_free: "pmm_reach s held \<Longrightarrow> 0 < held p \<Longrightarrow> pmm_reach (free_page (page_to_addr p) s) (held(p := held p - 1))"
| pr_ref: "pmm_reach s held \<Longrightarrow> 0 < held p \<Longrightarrow> held p < 65535 \<Longrightarrow>
    pmm_reach (page_ref_inc (page_to_addr p) s) (held(p := held p + 1))"

lemma pmm_reach_inv: "pmm_reach s held \<Longrightarrow> pmm_inv s held"
  by (induction rule: pmm_reach.induct) (blast intro: pmm_boot_inv scan_inv(1) free_inv inc_inv)+

text \<open>With a boot map, no frame at or above \<open>USER_FRAME_CEIL\<close> is free or in use by a caller.\<close>

definition pmm_low :: "pmm \<Rightarrow> (nat \<Rightarrow> nat) \<Rightarrow> bool" where
  "pmm_low s held \<longleftrightarrow> (\<forall>p. pm_mmap s \<noteq> [] \<longrightarrow> \<not> bitmap_test p (pm_bitmap s) \<or> 0 < held p \<longrightarrow> page_to_addr p < USER_FRAME_CEIL)"

lemma step_mmap [simp]: "pm_mmap (free_page a s) = pm_mmap s" "pm_mmap (page_ref_inc a s) = pm_mmap s"
  by (simp_all add: free_page_def page_ref_inc_def Let_def)

lemma step_bitmap: "bitmap_test p (pm_bitmap (page_ref_inc a s)) = bitmap_test p (pm_bitmap s)"
  "\<not> bitmap_test p (pm_bitmap (free_page a s)) \<Longrightarrow> \<not> bitmap_test p (pm_bitmap s) \<or> p = addr_to_page a"
  by (auto simp: free_page_def page_ref_inc_def Let_def split: if_splits)

lemma boot_low: "pmm_low (pmm_boot images mmap) (\<lambda>_. 0)"
proof -
  let ?s = "pmm_init_from_mmap mmap (snd (pmm_reserve_boot_images images pmm_static))"
  have m: "set (pm_mmap ?s) \<subseteq> range clip_entry"
    by (auto simp: pmm_init_from_mmap_def pmm_reserve_boot_images_def pmm_static_def Let_def split: option.splits)
  have e: "pm_mmap (init_memory_manager ?s) = pm_mmap ?s"
    by (simp add: init_memory_manager_def Let_def split: prod.splits)
  have "page_to_addr p < USER_FRAME_CEIL" if n: "pm_mmap ?s \<noteq> []" and f: "\<not> bitmap_test p (pm_bitmap (init_memory_manager ?s))" for p
  proof -
    obtain x where "mm_len (clip_entry x) \<noteq> 0" "p < region_end (clip_entry x)" using init_free(4)[OF f n] m by blast
    then have "p < USER_FRAME_CEIL div PAGE_SIZE" using clipped_end[of x] by linarith
    then show ?thesis by (simp add: page_to_addr_def)
  qed
  then show ?thesis by (simp add: pmm_low_def pmm_boot_def e)
qed

lemma reach_low: "pmm_reach s held \<Longrightarrow> pmm_low s held"
proof (induction rule: pmm_reach.induct)
  case (pr_boot images mmap)
  show ?case by (rule boot_low)
next
  case (pr_alloc s held a s')
  have "pm_mmap s' = pm_mmap s" "\<And>p. bitmap_test p (pm_bitmap s') \<longleftrightarrow> p = addr_to_page a \<or> bitmap_test p (pm_bitmap s)"
    using pr_alloc(2) by (auto simp: kalloc_scan_def)
  then show ?case using pr_alloc(3) scan_inv(4)[OF pmm_reach_inv[OF pr_alloc(1)] pr_alloc(2)] by (auto simp: pmm_low_def)
next
  case (pr_free s held p)
  then show ?case using step_bitmap(2)[of _ "page_to_addr p" s] by (auto simp: pmm_low_def)
next
  case (pr_ref s held p)
  then show ?case by (auto simp: pmm_low_def step_bitmap)
qed

text \<open>Dropping the references that a list of \<open>free_page\<close> calls gives back, and that they are there to drop.\<close>

fun release :: "nat list \<Rightarrow> (nat \<Rightarrow> nat) \<Rightarrow> nat \<Rightarrow> nat" where
  "release [] h = h"
| "release (a # as) h = release as (h(addr_to_page a := h (addr_to_page a) - 1))"

fun releasable :: "nat list \<Rightarrow> (nat \<Rightarrow> nat) \<Rightarrow> bool" where
  "releasable [] h \<longleftrightarrow> True"
| "releasable (a # as) h \<longleftrightarrow> a mod PAGE_SIZE = 0 \<and> 0 < h (addr_to_page a) \<and> releasable as (h(addr_to_page a := h (addr_to_page a) - 1))"

lemma releasable_append: "releasable (as @ bs) h \<longleftrightarrow> releasable as h \<and> releasable bs (release as h)"
  by (induction as arbitrary: h) auto

lemma release_append: "release (as @ bs) h = release bs (release as h)"
  by (induction as arbitrary: h) auto

lemma addr_page: "a mod PAGE_SIZE = 0 \<Longrightarrow> page_to_addr (addr_to_page a) = a"
  by (auto simp: page_to_addr_def addr_to_page_def)

lemma frees_reach: "pmm_reach s h \<Longrightarrow> releasable as h \<Longrightarrow> pmm_reach (fold free_page as s) (release as h)"
proof (induction as arbitrary: s h)
  case (Cons a as)
  then have "a mod PAGE_SIZE = 0" "0 < h (addr_to_page a)" by auto
  then have "pmm_reach (free_page a s) (h(addr_to_page a := h (addr_to_page a) - 1))"
    using pr_free[OF Cons.prems(1), of "addr_to_page a"] by (simp only: addr_page)
  then show ?case using Cons.IH Cons.prems(2) by (simp only: fold_simps release.simps releasable.simps o_apply)
qed simp

lemma frees_mmap [simp]: "pm_mmap (fold free_page as s) = pm_mmap s"
  by (induction as arbitrary: s) auto

definition alloc_post :: "pmm \<Rightarrow> (nat \<Rightarrow> nat) \<Rightarrow> nat \<times> pmm \<Rightarrow> bool" where
  "alloc_post s h r \<longleftrightarrow> (case r of (a, s') \<Rightarrow>
     if a = 0 then pmm_reach s' h \<and> (\<forall>p < addr_to_page (pm_ram_end s'). bitmap_test p (pm_bitmap s'))
     else a mod PAGE_SIZE = 0 \<and> h (addr_to_page a) = 0 \<and> managed s' (addr_to_page a) \<and>
          pmm_reach s' (h(addr_to_page a := 1)) \<and> (pm_mmap s \<noteq> [] \<longrightarrow> a < USER_FRAME_CEIL))"

lemma alloc_post_mmap: "pm_mmap s = pm_mmap t \<Longrightarrow> alloc_post s h r = alloc_post t h r"
  by (simp add: alloc_post_def)

lemma scan_post:
  assumes "pmm_reach s h"
  shows "case kalloc_scan s of Some r \<Rightarrow> alloc_post s h r | None \<Rightarrow> alloc_post s h (0, s)"
proof (cases "kalloc_scan s")
  case None
  then show ?thesis using assms scan_none[OF pmm_reach_inv[OF assms] None] by (simp add: alloc_post_def)
next
  case (Some r)
  obtain a s' where r: "r = (a, s')" by (cases r)
  have scan: "kalloc_scan s = Some (a, s')" using Some r by simp
  note i = scan_inv[OF pmm_reach_inv[OF assms] scan]
  have m: "managed s' (addr_to_page a)" using i(1) unfolding pmm_inv_def by (metis fun_upd_same zero_less_one)
  then have "a \<noteq> 0" using i(3) by (simp add: managed_def page_to_addr_def)
  moreover have "a mod PAGE_SIZE = 0" by (subst i(3)) (rule page_addr)
  moreover have "pm_mmap s \<noteq> [] \<longrightarrow> a < USER_FRAME_CEIL" using reach_low[OF assms] i(3,4) unfolding pmm_low_def by metis
  ultimately show ?thesis using Some r i(2) m pr_alloc[OF assms scan] by (simp add: alloc_post_def)
qed

lemma rounds_post:
  "pmm_reach s h \<Longrightarrow> releasable (concat rs) h \<Longrightarrow> \<exists>k \<le> length rs. alloc_post s (release (concat (take k rs)) h) (kalloc_rounds rs s)"
proof (induction rs arbitrary: s h)
  case Nil
  then show ?case using scan_post[OF Nil(1)] by (auto split: option.splits)
next
  case (Cons ps rs)
  show ?case
  proof (cases "kalloc_scan s")
    case None
    have rel: "releasable ps h" "releasable (concat rs) (release ps h)" using Cons.prems(2) by (auto simp: releasable_append)
    obtain k where "k \<le> length rs" "alloc_post (fold free_page ps s) (release (concat (take k rs)) (release ps h)) (kalloc_rounds rs (fold free_page ps s))"
      using Cons.IH[OF frees_reach[OF Cons.prems(1) rel(1)] rel(2)] by blast
    then show ?thesis using None alloc_post_mmap[OF frees_mmap, of ps s] by (intro exI[of _ "Suc k"]) (simp add: release_append)
  next
    case (Some r)
    then show ?thesis using scan_post[OF Cons.prems(1)] by (intro exI[of _ 0]) simp
  qed
qed

section \<open>Properties\<close>

text \<open>
  C7: Frames are handed out exclusively. In every state that start-up, allocation, release of a held
  reference and sharing up to 65535 references of a frame can produce, the manager's count of a frame is the
  number of references its callers hold, and such a frame is marked used. \<open>kalloc\<close>, whatever references its
  rounds of reclaim give back, returns either an aligned frame to which nobody holds a reference, outside the
  boot reservation and the heap window and, with a boot map, below \<open>USER_FRAME_CEIL\<close>; or null, and then no
  frame below \<open>RAM_END\<close> is free. (The counter saturates at 65535, and with memory up to \<open>USER_FRAME_CEIL\<close> the
  last frame is above \<open>RAM_END\<close>: see the last section.)
\<close>

theorem pmm_frames_exclusive:
  assumes "pmm_reach s held" "releasable (concat (take MAX_RECLAIM_ROUNDS rs)) held" "kalloc rs s = (a, s')"
  shows "(\<forall>p. 0 < held p \<longrightarrow> bitmap_test p (pm_bitmap s) \<and> unat (page_ref_get (page_to_addr p) s) = held p) \<and>
    (\<exists>k \<le> MAX_RECLAIM_ROUNDS. let h = release (concat (take k rs)) held in
       if a = 0 then pmm_reach s' h \<and> (\<forall>p < addr_to_page (pm_ram_end s'). bitmap_test p (pm_bitmap s'))
       else a mod PAGE_SIZE = 0 \<and> h (addr_to_page a) = 0 \<and> managed s' (addr_to_page a) \<and>
            pmm_reach s' (h(addr_to_page a := 1)) \<and> (pm_mmap s \<noteq> [] \<longrightarrow> a < USER_FRAME_CEIL))"
proof
  show "\<forall>p. 0 < held p \<longrightarrow> bitmap_test p (pm_bitmap s) \<and> unat (page_ref_get (page_to_addr p) s) = held p"
    using held_exact[OF pmm_reach_inv[OF assms(1)]] by blast
  obtain k where k: "k \<le> length (take MAX_RECLAIM_ROUNDS rs)"
    "alloc_post s (release (concat (take k (take MAX_RECLAIM_ROUNDS rs))) held) (a, s')"
    using rounds_post[OF assms(1,2)] assms(3) unfolding kalloc_def by metis
  then have "k \<le> MAX_RECLAIM_ROUNDS" by simp
  then have "k \<le> MAX_RECLAIM_ROUNDS" and t: "take k (take MAX_RECLAIM_ROUNDS rs) = take k rs" by (simp_all add: min_def)
  then show "\<exists>k \<le> MAX_RECLAIM_ROUNDS. let h = release (concat (take k rs)) held in
       if a = 0 then pmm_reach s' h \<and> (\<forall>p < addr_to_page (pm_ram_end s'). bitmap_test p (pm_bitmap s'))
       else a mod PAGE_SIZE = 0 \<and> h (addr_to_page a) = 0 \<and> managed s' (addr_to_page a) \<and>
            pmm_reach s' (h(addr_to_page a := 1)) \<and> (pm_mmap s \<noteq> [] \<longrightarrow> a < USER_FRAME_CEIL)"
    using k(2) unfolding t alloc_post_def Let_def prod.case by (intro exI[of _ k] conjI)
qed

text \<open>A machine whose map ends two frames above the heap window.\<close>

definition pmm_example :: pmm where
  "pmm_example = pmm_boot 0 (Some [\<lparr> mm_base = 0, mm_len = 0x21002000, mm_ty = 1 \<rparr>])"

lemma example_state: "pm_ram_end pmm_example = 0x21002000" "pm_first pmm_example = 0x21000" "pm_mmap pmm_example \<noteq> []"
  by (simp_all add: pmm_example_def pmm_boot_def init_memory_manager_def pmm_init_from_mmap_def pmm_reserve_boot_images_def
      pmm_static_def clip_entry_def clip_to_limit_def sat64_def sat32_def install_region_def aligned_page_range_def
      ram_end_from_candidate_def heap_end_def heap_start_def Let_def) (simp_all add: addr_to_page_def)

lemma example_free: "\<not> bitmap_test 0x21000 (pm_bitmap pmm_example)"
  by (simp add: pmm_example_def pmm_boot_def init_memory_manager_def pmm_init_from_mmap_def pmm_reserve_boot_images_def
      pmm_static_def clip_entry_def clip_to_limit_def sat64_def sat32_def install_region_def aligned_page_range_def
      heap_end_def heap_start_def Let_def) (simp add: addr_to_page_def)

lemma example_kalloc: "fst (kalloc [] pmm_example) = 0x21000000"
proof -
  have "find_free (pm_bitmap pmm_example) 0x21000 0x21002 = Some 0x21000"
    using example_free by (subst find_free.simps) simp
  then show ?thesis by (simp add: kalloc_def kalloc_scan_def example_state addr_to_page_def page_to_addr_def)
qed

theorem pmm_frames_exclusive_witness:
  "pmm_reach pmm_example (\<lambda>_. 0) \<and> fst (kalloc [] pmm_example) = 0x21000000 \<and>
   pmm_reach (snd (kalloc [] pmm_example)) ((\<lambda>_. 0)(0x21000 := 1))"
proof -
  have r: "pmm_reach pmm_example (\<lambda>_. 0)" unfolding pmm_example_def by (rule pr_boot)
  have "releasable (concat (take MAX_RECLAIM_ROUNDS [])) (\<lambda>_. 0)" by simp
  from pmm_frames_exclusive[OF r this prod.collapse[symmetric]] r
  show ?thesis by (auto simp: example_kalloc Let_def addr_to_page_def)
qed

section \<open>Where the code departs from its comments\<close>

text \<open>Without a boot map the manager offers frames above \<open>USER_FRAME_CEIL\<close>, where user mappings shadow them.\<close>

lemma fallback_offers_high_frames:
  "\<not> bitmap_test 0x80000 (pm_bitmap (pmm_boot 0 None)) \<and> 0x80000 < addr_to_page (pm_ram_end (pmm_boot 0 None)) \<and>
   page_to_addr 0x80000 = USER_FRAME_CEIL"
  by (simp add: pmm_boot_def init_memory_manager_def pmm_init_from_mmap_def pmm_reserve_boot_images_def pmm_static_def
      ram_end_from_candidate_def heap_end_def heap_start_def sat32_def Let_def) (simp add: addr_to_page_def page_to_addr_def)

text \<open>
  With memory up to \<open>USER_FRAME_CEIL\<close> the end of the search is one frame too low: the last frame is free
  and is never handed out.
\<close>

lemma last_frame_never_offered:
  "let s = pmm_boot 0 (Some [\<lparr> mm_base = 0, mm_len = USER_FRAME_CEIL, mm_ty = 1 \<rparr>]) in
     \<not> bitmap_test 0x7FFFF (pm_bitmap s) \<and> addr_to_page (pm_ram_end s) = 0x7FFFF \<and> page_to_addr 0x7FFFF + PAGE_SIZE = USER_FRAME_CEIL"
  by (simp add: pmm_boot_def init_memory_manager_def pmm_init_from_mmap_def pmm_reserve_boot_images_def
      pmm_static_def clip_entry_def clip_to_limit_def sat64_def sat32_def install_region_def aligned_page_range_def
      ram_end_from_candidate_def heap_end_def heap_start_def Let_def) (simp add: addr_to_page_def page_to_addr_def)

text \<open>The reference count saturates, and a release then counts one holder too few.\<close>

lemma saturated_reference_lost:
  assumes "managed s p" "pm_refs s p = 0xFFFF"
  shows "pm_refs (free_page (page_to_addr p) (page_ref_inc (page_to_addr p) s)) p = 0xFFFE"
proof -
  have "page_ref_inc (page_to_addr p) s = s" using assms by (simp add: page_ref_inc_def Let_def fun_upd_idem)
  then show ?thesis using assms by (simp add: free_managed)
qed


end
