(* ===== verification/Memfd.thy ===== *)
theory Memfd
  imports Usermem "HOL-Library.Multiset" "HOL-Library.Monad_Syntax"
begin

text \<open>
  Memory files: the object table of \<open>kernel/memory/rust_mm/src/process/memfd.rs\<close> and the file nodes of
  \<open>fs/memfd/memfd.c\<close> on top of it. An object owns an array of frame addresses; its bytes are in the frames.
  The answers of the frame allocator and of \<open>kmalloc\<close> during a call are part of the state, in order (none
  left: null), and so are the frames received and given back so far, in the reverse order. A slot read
  outside the array, or a null frame followed, has no result (\<open>None\<close>). The caller's buffer is never null. Every call holds
  \<open>MEMFD_LOCK\<close> and is one step. Sizes and offsets are 32-bit words at the interface; inside they
  are numbers, since the code keeps them below \<open>MEMFD_PAGES_MAX\<close> pages.
\<close>

section \<open>State\<close>

abbreviation (input) PAGE :: nat where "PAGE \<equiv> 4096"
abbreviation (input) MEMFD_MAX :: nat where "MEMFD_MAX \<equiv> 128"
abbreviation (input) MEMFD_PAGES_INITIAL :: nat where "MEMFD_PAGES_INITIAL \<equiv> 1024"
abbreviation (input) MEMFD_PAGES_GROW :: nat where "MEMFD_PAGES_GROW \<equiv> 16384"
abbreviation (input) MEMFD_PAGES_MAX :: nat where "MEMFD_PAGES_MAX \<equiv> 0x80000"
abbreviation (input) MEMFD_NAME_MAX :: nat where "MEMFD_NAME_MAX \<equiv> 128"

record memfd =
  mf_name :: bytes
  mf_size :: nat
  mf_num_pages :: nat
  mf_pages_cap :: nat
  mf_pages :: "u32 list" \<comment> \<open>the block of frame pointers; empty while it is null\<close>
  mf_flags :: u32
  mf_fds :: nat
  mf_maps :: nat
  mf_valid :: bool

definition MEMFD_EMPTY :: memfd where
  "MEMFD_EMPTY = \<lparr> mf_name = [], mf_size = 0, mf_num_pages = 0, mf_pages_cap = 0, mf_pages = [], mf_flags = 0,
     mf_fds = 0, mf_maps = 0, mf_valid = False \<rparr>"

record mfs =
  mf_table :: "memfd list"
  mf_ram :: umem
  mf_kalloc :: "u32 list" \<comment> \<open>answers of \<open>kalloc\<close> to come\<close>
  mf_kmalloc :: "bool list" \<comment> \<open>answers of \<open>kmalloc\<close> to come\<close>
  mf_got :: "u32 list"
  mf_gave :: "u32 list"

definition memfd_boot :: "umem \<Rightarrow> mfs" where
  "memfd_boot m = \<lparr> mf_table = replicate MEMFD_MAX MEMFD_EMPTY, mf_ram = m, mf_kalloc = [], mf_kmalloc = [], mf_got = [], mf_gave = [] \<rparr>"

section \<open>Frames\<close>

definition kalloc_next :: "mfs \<Rightarrow> u32 \<times> mfs" where
  "kalloc_next s = (case mf_kalloc s of [] \<Rightarrow> (0, s)
     | p # ks \<Rightarrow> (p, s\<lparr> mf_kalloc := ks, mf_got := (if p = 0 then mf_got s else p # mf_got s) \<rparr>))"

definition kmalloc_next :: "mfs \<Rightarrow> bool \<times> mfs" where
  "kmalloc_next s = (case mf_kmalloc s of [] \<Rightarrow> (False, s) | b # bs \<Rightarrow> (b, s\<lparr> mf_kmalloc := bs \<rparr>))"

definition give_frame :: "u32 \<Rightarrow> mfs \<Rightarrow> mfs" where
  "give_frame p s = (if p = 0 then s else s\<lparr> mf_gave := p # mf_gave s \<rparr>)"

definition zero_frame :: "u32 \<Rightarrow> mfs \<Rightarrow> mfs" where
  "zero_frame p s = (if p = 0 then s else s\<lparr> mf_ram := mem_write (mf_ram s) p (replicate PAGE 0) \<rparr>)"

definition slot :: "u32 list \<Rightarrow> nat \<Rightarrow> u32 option" where
  "slot ps i = (if i < length ps then Some (ps ! i) else None)"

section \<open>Growing an object\<close>

definition ceil_pages :: "nat \<Rightarrow> nat" where
  "ceil_pages n = (n + (PAGE - 1)) div PAGE"

text \<open>The capacity loop; the caller has checked \<open>need_pages <= MEMFD_PAGES_MAX\<close>.\<close>

function grow_cap :: "nat \<Rightarrow> nat \<Rightarrow> nat" where
  "grow_cap cap need =
     (if cap < need \<and> need \<le> MEMFD_PAGES_MAX then grow_cap (min (cap + MEMFD_PAGES_GROW) MEMFD_PAGES_MAX) need else cap)"
  by pat_completeness auto
termination by (relation "measure (\<lambda>(cap, need). need - cap)") auto

definition ensure_capacity_locked :: "nat \<Rightarrow> memfd \<Rightarrow> mfs \<Rightarrow> bool \<times> memfd \<times> mfs" where
  "ensure_capacity_locked need o1 s =
     (if need \<le> mf_pages_cap o1 then (True, o1, s)
      else if need > MEMFD_PAGES_MAX then (False, o1, s)
      else let cap = grow_cap (if mf_pages_cap o1 = 0 then MEMFD_PAGES_INITIAL else mf_pages_cap o1) need
        in case kmalloc_next s of (ok, s1) \<Rightarrow>
          if \<not> ok then (False, o1, s1)
          else let live = (if mf_pages o1 = [] then [] else take (mf_num_pages o1) (mf_pages o1))
            in (True, o1\<lparr> mf_pages := live @ replicate (cap - length live) 0, mf_pages_cap := cap \<rparr>, s1))"

fun roll_back :: "nat list \<Rightarrow> u32 list \<Rightarrow> mfs \<Rightarrow> (u32 list \<times> mfs) option" where
  "roll_back [] ps s = Some (ps, s)"
| "roll_back (j # js) ps s = do { p \<leftarrow> slot ps j; roll_back js (ps[j := 0]) (give_frame p s) }"

text \<open>The loop over the new slots: \<open>i\<close> is the next one, \<open>n\<close> are left.\<close>

fun grow_loop :: "nat \<Rightarrow> nat \<Rightarrow> nat \<Rightarrow> u32 list \<Rightarrow> mfs \<Rightarrow> (bool \<times> u32 list \<times> mfs) option" where
  "grow_loop start i 0 ps s = Some (True, ps, s)"
| "grow_loop start i (Suc n) ps s =
     (case kalloc_next s of (p, s1) \<Rightarrow>
        if p = 0 then map_option (\<lambda>r. (False, r)) (roll_back [start..<i] ps s1)
        else do { _ \<leftarrow> slot ps i; grow_loop start (i + 1) n (ps[i := p]) (zero_frame p s1) })"

definition grow_locked :: "nat \<Rightarrow> memfd \<Rightarrow> mfs \<Rightarrow> (bool \<times> memfd \<times> mfs) option" where
  "grow_locked need o1 s =
     (if need \<le> mf_num_pages o1 then Some (True, o1, s)
      else case ensure_capacity_locked need o1 s of (ok, o2, s1) \<Rightarrow>
        if \<not> ok then Some (False, o2, s1)
        else do {
          (done1, ps, s2) \<leftarrow> grow_loop (mf_num_pages o2) (mf_num_pages o2) (need - mf_num_pages o2) (mf_pages o2) s1;
          Some (done1, if done1 then o2\<lparr> mf_pages := ps, mf_num_pages := need \<rparr> else o2\<lparr> mf_pages := ps \<rparr>, s2)
        })"

section \<open>The table\<close>

definition handle_valid :: "int \<Rightarrow> mfs \<Rightarrow> bool" where
  "handle_valid h s \<longleftrightarrow> 1 \<le> h \<and> h \<le> int MEMFD_MAX \<and> mf_valid (mf_table s ! nat (h - 1))"

definition mf_obj :: "int \<Rightarrow> mfs \<Rightarrow> memfd" where
  "mf_obj h s = mf_table s ! nat (h - 1)"

definition mf_put :: "int \<Rightarrow> memfd \<Rightarrow> mfs \<Rightarrow> mfs" where
  "mf_put h o1 s = s\<lparr> mf_table := (mf_table s)[nat (h - 1) := o1] \<rparr>"

fun give_slots :: "nat list \<Rightarrow> u32 list \<Rightarrow> mfs \<Rightarrow> mfs option" where
  "give_slots [] ps s = Some s"
| "give_slots (i # is) ps s = do { p \<leftarrow> slot ps i; give_slots is ps (give_frame p s) }"

definition maybe_free_locked :: "int \<Rightarrow> mfs \<Rightarrow> mfs option" where
  "maybe_free_locked h s =
     (let o1 = mf_obj h s in
      if \<not> mf_valid o1 \<or> mf_fds o1 \<noteq> 0 \<or> mf_maps o1 \<noteq> 0 then Some s
      else map_option (mf_put h (o1\<lparr> mf_pages := [], mf_pages_cap := 0, mf_num_pages := 0, mf_size := 0,
             mf_name := [], mf_flags := 0, mf_valid := False \<rparr>)) (give_slots [0..<mf_num_pages o1] (mf_pages o1) s))"

fun free_slot :: "memfd list \<Rightarrow> nat option" where
  "free_slot [] = None"
| "free_slot (x # xs) = (if \<not> mf_valid x then Some 0 else map_option Suc (free_slot xs))"

definition memfd_create :: "bytes \<Rightarrow> u32 \<Rightarrow> mfs \<Rightarrow> int \<times> mfs" where
  "memfd_create name flags s =
     (case free_slot (mf_table s) of None \<Rightarrow> (-1, s)
      | Some k \<Rightarrow> (int k + 1, mf_put (int k + 1) ((mf_table s ! k)\<lparr> mf_name := take (MEMFD_NAME_MAX - 1) name, mf_size := 0,
           mf_num_pages := 0, mf_pages_cap := 0, mf_flags := flags, mf_fds := 0, mf_maps := 0, mf_valid := True \<rparr>) s))"

definition memfd_ref :: "int \<Rightarrow> mfs \<Rightarrow> int \<times> mfs" where
  "memfd_ref h s = (if \<not> handle_valid h s then (-1, s)
     else (h, mf_put h ((mf_obj h s)\<lparr> mf_fds := mf_fds (mf_obj h s) + 1 \<rparr>) s))"

definition memfd_close :: "int \<Rightarrow> mfs \<Rightarrow> (int \<times> mfs) option" where
  "memfd_close h s = (if \<not> handle_valid h s then Some (-1, s)
     else map_option (Pair 0) (maybe_free_locked h (mf_put h ((mf_obj h s)\<lparr> mf_fds := mf_fds (mf_obj h s) - 1 \<rparr>) s)))"

definition memfd_map_inc :: "int \<Rightarrow> mfs \<Rightarrow> int \<times> mfs" where
  "memfd_map_inc h s = (if \<not> handle_valid h s then (-1, s)
     else (0, mf_put h ((mf_obj h s)\<lparr> mf_maps := mf_maps (mf_obj h s) + 1 \<rparr>) s))"

definition memfd_map_dec :: "int \<Rightarrow> mfs \<Rightarrow> (int \<times> mfs) option" where
  "memfd_map_dec h s = (if \<not> handle_valid h s then Some (-1, s)
     else map_option (Pair 0) (maybe_free_locked h (mf_put h ((mf_obj h s)\<lparr> mf_maps := mf_maps (mf_obj h s) - 1 \<rparr>) s)))"

text \<open>The size as a signed 32-bit result.\<close>

definition memfd_size :: "int \<Rightarrow> mfs \<Rightarrow> int" where
  "memfd_size h s = (if handle_valid h s then sint (word_of_nat (mf_size (mf_obj h s)) :: u32) else -1)"

definition memfd_grow_to :: "int \<Rightarrow> u32 \<Rightarrow> mfs \<Rightarrow> (int \<times> mfs) option" where
  "memfd_grow_to h e s =
     (if \<not> handle_valid h s then Some (-1, s)
      else do {
        (ok, o1, s1) \<leftarrow> grow_locked (ceil_pages (unat e)) (mf_obj h s) s;
        Some (if ok then (0, mf_put h (if unat e > mf_size o1 then o1\<lparr> mf_size := unat e \<rparr> else o1) s1)
              else (-1, mf_put h o1 s1))
      })"

definition memfd_get_page :: "int \<Rightarrow> nat \<Rightarrow> mfs \<Rightarrow> u32 option" where
  "memfd_get_page h idx s =
     (if handle_valid h s \<and> idx < mf_num_pages (mf_obj h s) then slot (mf_pages (mf_obj h s)) idx else Some 0)"
section \<open>Contents\<close>

function read_loop :: "umem \<Rightarrow> u32 list \<Rightarrow> nat \<Rightarrow> nat \<Rightarrow> bytes option" where
  "read_loop m ps pos n =
     (if n = 0 then Some []
      else let page_idx = pos div PAGE; in_page = pos mod PAGE; chunk = min n (PAGE - in_page)
        in do {
          page \<leftarrow> slot ps page_idx;
          if page = 0 then None
          else map_option ((@) (mem_read m (page + word_of_nat in_page) chunk)) (read_loop m ps (pos + chunk) (n - chunk))
        })"
  by pat_completeness auto
termination by (relation "measure (\<lambda>(_, _, _, n). n)") auto

function write_loop :: "umem \<Rightarrow> u32 list \<Rightarrow> nat \<Rightarrow> bytes \<Rightarrow> umem option" where
  "write_loop m ps pos bs =
     (if bs = [] then Some m
      else let page_idx = pos div PAGE; in_page = pos mod PAGE; chunk = min (length bs) (PAGE - in_page)
        in do {
          page \<leftarrow> slot ps page_idx;
          if page = 0 then None
          else write_loop (mem_write m (page + word_of_nat in_page) (take chunk bs)) ps (pos + chunk) (drop chunk bs)
        })"
  by pat_completeness auto
termination by (relation "measure (\<lambda>(_, _, _, bs). length bs)") auto

text \<open>The count and the bytes put into the caller's buffer.\<close>

definition memfd_read :: "int \<Rightarrow> u32 \<Rightarrow> u32 \<Rightarrow> mfs \<Rightarrow> (int \<times> bytes) option" where
  "memfd_read h off sz s =
     (if sz = 0 then Some (0, [])
      else if \<not> handle_valid h s then Some (-1, [])
      else let o1 = mf_obj h s in
        if unat off \<ge> mf_size o1 then Some (0, [])
        else let n = (if unat off + unat sz < 2 ^ 32 \<and> unat off + unat sz \<le> mf_size o1 then unat sz else mf_size o1 - unat off)
          in map_option (\<lambda>bs. (int (length bs), bs)) (read_loop (mf_ram s) (mf_pages o1) (unat off) n))"

definition memfd_write :: "int \<Rightarrow> u32 \<Rightarrow> bytes \<Rightarrow> mfs \<Rightarrow> (int \<times> mfs) option" where
  "memfd_write h off buf s =
     (if buf = [] then Some (0, s)
      else if \<not> handle_valid h s then Some (-1, s)
      else let e = min (unat off + length buf) (2 ^ 32 - 1) in
        if e < unat off \<or> ceil_pages e > MEMFD_PAGES_MAX then Some (-1, s)
        else do {
          (ok, o1, s1) \<leftarrow> grow_locked (ceil_pages e) (mf_obj h s) s;
          if \<not> ok then Some (-1, mf_put h o1 s1)
          else let o2 = (if e > mf_size o1 then o1\<lparr> mf_size := e \<rparr> else o1)
            in do {
              m \<leftarrow> write_loop (mf_ram s1) (mf_pages o2) (unat off) buf;
              Some (int (length buf), mf_put h o2 (s1\<lparr> mf_ram := m \<rparr>))
            }
        })"

definition memfd_truncate :: "int \<Rightarrow> u32 \<Rightarrow> mfs \<Rightarrow> (int \<times> mfs) option" where
  "memfd_truncate h new_size s =
     (if ceil_pages (unat new_size) > MEMFD_PAGES_MAX then Some (-1, s)
      else if \<not> handle_valid h s then Some (-1, s)
      else if unat new_size > mf_size (mf_obj h s) then do {
        (ok, o1, s1) \<leftarrow> grow_locked (ceil_pages (unat new_size)) (mf_obj h s) s;
        Some (if ok then (0, mf_put h (o1\<lparr> mf_size := unat new_size \<rparr>) s1) else (-1, mf_put h o1 s1))
      }
      else Some (0, mf_put h ((mf_obj h s)\<lparr> mf_size := unat new_size \<rparr>) s))"

section \<open>File nodes\<close>

text \<open>
  The nodes of \<open>memfd.c\<close>: \<open>mn_ops\<close> is \<open>node->ops == &memfd_ops\<close>. A node that the close of its last
  reference has freed is \<open>None\<close>.
\<close>

record memfd_node =
  mn_ops :: bool
  mn_name :: bytes
  mn_size :: u32
  mn_inode :: u32
  mn_refcount :: nat
  mn_priv :: int

definition node_handle :: "memfd_node \<Rightarrow> int" where
  "node_handle n = (if \<not> mn_ops n then -1 else mn_priv n)"

text \<open>The descriptor table's answer for \<open>fd\<close>: \<open>None\<close> when there is no file or it has no node.\<close>

definition memfd_fd_handle :: "memfd_node option \<Rightarrow> int" where
  "memfd_fd_handle f = (case f of None \<Rightarrow> -1 | Some n \<Rightarrow> node_handle n)"

definition note_size :: "int \<Rightarrow> mfs \<Rightarrow> memfd_node \<Rightarrow> memfd_node" where
  "note_size h s n = (if memfd_size h s \<ge> 0 then n\<lparr> mn_size := word_of_int (memfd_size h s) \<rparr> else n)"

definition memfd_node_read :: "u32 \<Rightarrow> u32 \<Rightarrow> memfd_node \<Rightarrow> mfs \<Rightarrow> ((int \<times> bytes) \<times> memfd_node) option" where
  "memfd_node_read off sz n s =
     (let h = node_handle n in
      if h < 0 then Some ((-1, []), n)
      else do { r \<leftarrow> memfd_read h off sz s; Some (r, if fst r \<ge> 0 then note_size h s n else n) })"

definition memfd_node_write :: "u32 \<Rightarrow> bytes \<Rightarrow> memfd_node \<Rightarrow> mfs \<Rightarrow> (int \<times> memfd_node \<times> mfs) option" where
  "memfd_node_write off buf n s =
     (let h = node_handle n in
      if h < 0 then Some (-1, n, s)
      else do { (r, s1) \<leftarrow> memfd_write h off buf s; Some (r, if r \<ge> 0 then note_size h s1 n else n, s1) })"

definition memfd_node_open :: "memfd_node \<Rightarrow> mfs \<Rightarrow> memfd_node \<times> mfs" where
  "memfd_node_open n s =
     (let h = node_handle n in
      if h < 0 then (n, s) else (n\<lparr> mn_refcount := mn_refcount n + 1 \<rparr>, snd (memfd_ref h s)))"

definition memfd_node_close :: "memfd_node \<Rightarrow> mfs \<Rightarrow> (memfd_node option \<times> mfs) option" where
  "memfd_node_close n s =
     (let h = node_handle n; n1 = n\<lparr> mn_refcount := mn_refcount n - 1 \<rparr> in
      if mn_refcount n1 \<noteq> 0 then Some (Some n1, s)
      else if h < 0 then Some (None, s)
      else map_option (\<lambda>r. (None, snd r)) (memfd_close h s))"

definition memfd_node_truncate :: "u32 \<Rightarrow> memfd_node \<Rightarrow> mfs \<Rightarrow> (int \<times> memfd_node \<times> mfs) option" where
  "memfd_node_truncate len n s =
     (let h = node_handle n in
      if h < 0 then Some (-1, n, s)
      else do { (r, s1) \<leftarrow> memfd_truncate h len s; Some (if r \<noteq> 0 then (-1, n, s1) else (0, n\<lparr> mn_size := len \<rparr>, s1)) })"

text \<open>What \<open>_memfd_stat\<close> leaves in the node before the generic fill of the buffer.\<close>

definition memfd_node_stat :: "memfd_node \<Rightarrow> mfs \<Rightarrow> int \<times> memfd_node" where
  "memfd_node_stat n s = (let h = node_handle n in if h < 0 then (-1, n) else (0, note_size h s n))"

definition memfd_vnode_from_handle :: "bool \<Rightarrow> int \<Rightarrow> bytes option \<Rightarrow> u32 \<Rightarrow> memfd_node option" where
  "memfd_vnode_from_handle alloc h name sz =
     (if h < 0 then None
      else if \<not> alloc then None
      else Some \<lparr> mn_ops = True, mn_name = take 127 (case name of None \<Rightarrow> cs ''memfd'' | Some x \<Rightarrow> x), mn_size = sz,
             mn_inode = word_of_int h, mn_refcount = 0, mn_priv = h \<rparr>)"

definition memfd_create_vnode :: "bool \<Rightarrow> bytes option \<Rightarrow> u32 \<Rightarrow> mfs \<Rightarrow> memfd_node option \<times> mfs" where
  "memfd_create_vnode alloc name flags s =
     (let nm = (case name of None \<Rightarrow> cs ''memfd'' | Some x \<Rightarrow> x)
      in case memfd_create (take 127 nm) flags s of (h, s1) \<Rightarrow>
        if h < 0 then (None, s1) else (memfd_vnode_from_handle alloc h (Some nm) 0, s1))"


end
