(* ===== verification/Memfd_Props.thy ===== *)
theory Memfd_Props
  imports Memfd Pmm
begin

text \<open>
  Correctness of memory files: the invariant of the object table, the effect of growing an object, the
  refinement of reads, writes and truncation to operations on a list of bytes, and the exact account of frames.
\<close>

section \<open>Frame addresses\<close>

definition frame_ok :: "u32 \<Rightarrow> bool" where
  "frame_ok p \<longleftrightarrow> p \<noteq> 0 \<and> unat p mod PAGE = 0"

lemma frame_addr: "frame_ok p \<Longrightarrow> i < PAGE \<Longrightarrow> unat (p + word_of_nat i) = unat p + i"
proof -
  assume p: "frame_ok p" and i: "i < PAGE"
  obtain k where k: "unat p = PAGE * k" using p unfolding frame_ok_def by auto
  have "unat p < 4294967296" by (rule unat_lt32)
  then have "k < 1048576" using k by simp
  then have "unat p + i < 2 ^ 32" using k i by simp
  then show ?thesis by (rule unat_add_nat32)
qed

lemma frame_inj:
  assumes "frame_ok p" "frame_ok q" "i < PAGE" "j < PAGE" "p + word_of_nat i = q + word_of_nat j"
  shows "p = q \<and> i = j"
proof -
  have e: "unat p + i = unat q + j" using assms frame_addr by metis
  have m: "unat p mod PAGE = 0" "unat q mod PAGE = 0" using assms(1,2) by (simp_all add: frame_ok_def)
  have "i = (unat p + i) mod PAGE" using m(1) assms(3) by (metis add.left_neutral mod_add_left_eq mod_less)
  moreover have "j = (unat q + j) mod PAGE" using m(2) assms(4) by (metis add.left_neutral mod_add_left_eq mod_less)
  ultimately have "i = j" using e by simp
  then show ?thesis using e by (simp add: word_unat_eq_iff)
qed

text \<open>A write inside one frame changes the bytes of that frame only.\<close>

lemma frame_write:
  assumes "frame_ok p" "frame_ok q" "i < PAGE" "j + length bs \<le> PAGE"
  shows "mem_write m (p + word_of_nat j) bs (q + word_of_nat i) =
    (if q = p \<and> j \<le> i \<and> i < j + length bs then bs ! (i - j) else m (q + word_of_nat i))"
proof (cases "bs = []")
  case False
  then have j: "j < PAGE" using assms(4) by (cases bs) auto
  let ?d = "(q + word_of_nat i) - (p + word_of_nat j)"
  show ?thesis
  proof (cases "unat ?d < length bs")
    case True
    have "p + word_of_nat (j + unat ?d) = q + word_of_nat i" by simp
    moreover have "j + unat ?d < PAGE" using True assms(4) by linarith
    ultimately have e: "p = q" "j + unat ?d = i" using frame_inj[OF assms(1,2) _ assms(3)] by blast+
    have "j \<le> i" "i < j + length bs" "unat ?d = i - j" using e(2) True by linarith+
    then show ?thesis using True e(1) unfolding mem_write_def by metis
  next
    case out: False
    have "\<not> (q = p \<and> j \<le> i \<and> i < j + length bs)"
    proof
      assume a: "q = p \<and> j \<le> i \<and> i < j + length bs"
      then have "?d = word_of_nat (i - j)" by (simp add: of_nat_diff)
      moreover have "i - j < 2 ^ 32" using assms(3) by simp
      ultimately have "unat ?d = i - j" by (metis unat_of_nat32)
      then show "False" using out a by linarith
    qed
    then show ?thesis using out by (auto simp: mem_write_def)
  qed
qed auto

lemma frame_zero:
  assumes "frame_ok p" "frame_ok q" "i < PAGE"
  shows "mem_write m p (replicate PAGE 0) (q + word_of_nat i) = (if q = p then 0 else m (q + word_of_nat i))"
  using frame_write[OF assms, of 0 "replicate PAGE 0" m] assms(3) by simp

section \<open>The invariant\<close>

definition obj_frames :: "memfd \<Rightarrow> u32 list" where
  "obj_frames x = take (mf_num_pages x) (mf_pages x)"

definition mf_frames :: "mfs \<Rightarrow> u32 list" where
  "mf_frames s = concat (map obj_frames (mf_table s))"

definition obj_ok :: "memfd \<Rightarrow> bool" where
  "obj_ok x \<longleftrightarrow> length (mf_pages x) = mf_pages_cap x \<and> mf_num_pages x \<le> mf_pages_cap x \<and> mf_pages_cap x \<le> MEMFD_PAGES_MAX \<and>
     mf_size x \<le> mf_num_pages x * PAGE \<and> (\<not> mf_valid x \<longrightarrow> mf_pages_cap x = 0 \<and> mf_fds x = 0 \<and> mf_maps x = 0)"

definition mfs_inv :: "mfs \<Rightarrow> bool" where
  "mfs_inv s \<longleftrightarrow> length (mf_table s) = MEMFD_MAX \<and> (\<forall>x \<in> set (mf_table s). obj_ok x) \<and> distinct (mf_frames s) \<and>
     (\<forall>p \<in> set (mf_frames s). frame_ok p) \<and> mset (mf_got s) = mset (mf_gave s) + mset (mf_frames s)"

text \<open>What the frame allocator promises of its answers during one call.\<close>

definition answers_ok :: "u32 list \<Rightarrow> mfs \<Rightarrow> bool" where
  "answers_ok ks s \<longleftrightarrow> distinct (filter (\<lambda>p. p \<noteq> 0) ks) \<and> (\<forall>p \<in> set ks. p \<noteq> 0 \<longrightarrow> frame_ok p \<and> p \<notin> set (mf_frames s))"
section \<open>Growing an object\<close>

lemma fold_null: "length (fold (\<lambda>j xs. xs[j := 0]) js ps) = length ps"
  "(\<And>j. j \<in> set js \<Longrightarrow> n \<le> j) \<Longrightarrow> take n (fold (\<lambda>j xs. xs[j := 0]) js ps) = take n ps"
  by (induction js arbitrary: ps) auto

lemma roll_back_some:
  assumes "distinct js" "\<And>j. j \<in> set js \<Longrightarrow> j < length ps \<and> ps ! j \<noteq> 0"
  shows "roll_back js ps s = Some (fold (\<lambda>j xs. xs[j := 0]) js ps, s\<lparr> mf_gave := rev (map ((!) ps) js) @ mf_gave s \<rparr>)"
  using assms
proof (induction js arbitrary: ps s)
  case (Cons j js)
  have "roll_back js (ps[j := 0]) (give_frame (ps ! j) s) = Some (fold (\<lambda>j xs. xs[j := 0]) js (ps[j := 0]),
      (give_frame (ps ! j) s)\<lparr> mf_gave := rev (map ((!) (ps[j := 0])) js) @ mf_gave (give_frame (ps ! j) s) \<rparr>)"
    by (rule Cons.IH) (use Cons.prems in \<open>auto simp: nth_list_update\<close>)
  moreover have "map ((!) (ps[j := 0])) js = map ((!) ps) js" using Cons.prems(1) by (auto intro!: nth_list_update_neq)
  ultimately show ?case using Cons.prems(2)[of j] by (simp add: slot_def give_frame_def)
qed simp

text \<open>The frames taken are a prefix \<open>new\<close> of the answers; on failure all of them are given back.\<close>

definition grown :: "mfs \<Rightarrow> u32 list \<Rightarrow> mfs \<Rightarrow> bool" where
  "grown s new s' \<longleftrightarrow> (\<exists>rest. mf_kalloc s = new @ rest) \<and> 0 \<notin> set new \<and> mf_table s' = mf_table s \<and>
     mset (mf_got s') = mset (mf_got s) + mset new \<and>
     mf_ram s' = fold (\<lambda>p m. mem_write m p (replicate PAGE 0)) new (mf_ram s)"

lemma grown_cons:
  assumes "mf_kalloc s = p # ks" "p \<noteq> 0" "grown (zero_frame p (snd (kalloc_next s))) new s'"
  shows "grown s (p # new) s'"
  using assms by (auto simp: grown_def kalloc_next_def zero_frame_def simp del: replicate.simps)

lemma grow_loop_some:
  assumes "start \<le> i" "i + n \<le> length ps" "\<And>j. start \<le> j \<Longrightarrow> j < i \<Longrightarrow> ps ! j \<noteq> 0"
  shows "\<exists>ok ps' s' new. grow_loop start i n ps s = Some (ok, ps', s') \<and> grown s new s' \<and> length ps' = length ps \<and>
    (if ok then ps' = take i ps @ new @ drop (i + n) ps \<and> length new = n \<and> mf_gave s' = mf_gave s
     else take start ps' = take start ps \<and> mset (mf_gave s') = mset (mf_gave s) + mset (drop start (take i ps)) + mset new)"
  using assms
proof (induction n arbitrary: i ps s)
  case 0
  then show ?case by (intro exI[of _ True] exI[of _ ps] exI[of _ s] exI[of _ "[]"]) (auto simp: grown_def)
next
  case (Suc n)
  obtain p s1 where k: "kalloc_next s = (p, s1)" by (cases "kalloc_next s")
  show ?case
  proof (cases "p = 0")
    case True
    have s1: "mf_got s1 = mf_got s" "mf_gave s1 = mf_gave s" "mf_table s1 = mf_table s" "mf_ram s1 = mf_ram s"
      using k True by (auto simp: kalloc_next_def split: list.splits)
    have rb: "roll_back [start..<i] ps s1 = Some (fold (\<lambda>j xs. xs[j := 0]) [start..<i] ps,
        s1\<lparr> mf_gave := rev (map ((!) ps) [start..<i]) @ mf_gave s1 \<rparr>)"
      by (rule roll_back_some) (use Suc.prems in auto)
    have "map ((!) ps) [start..<i] = drop start (take i ps)"
      using Suc.prems(1,2) by (intro nth_equalityI) auto
    then show ?thesis using k True rb s1 fold_null(1)[of "[start..<i]" ps] fold_null(2)[of "[start..<i]" start ps]
      by (intro exI[of _ False] exI[of _ "fold (\<lambda>j xs. xs[j := 0]) [start..<i] ps"] exI[of _ "s1\<lparr> mf_gave := rev (map ((!) ps) [start..<i]) @ mf_gave s1 \<rparr>"] exI[of _ "[]"])
         (simp add: grown_def)
  next
    case False
    then obtain ks where ks: "mf_kalloc s = p # ks" using k by (auto simp: kalloc_next_def split: list.splits)
    have i: "i < length ps" using Suc.prems(2) by simp
    have "ps[i := p] ! j \<noteq> 0" if "start \<le> j" "j < i + 1" for j using that Suc.prems(3)[of j] False i by (cases "j = i") auto
    then obtain ok ps' s' new where g: "grow_loop start (i + 1) n (ps[i := p]) (zero_frame p s1) = Some (ok, ps', s')"
      "grown (zero_frame p s1) new s'" "length ps' = length ps"
      "if ok then ps' = take (i + 1) (ps[i := p]) @ new @ drop (i + 1 + n) (ps[i := p]) \<and> length new = n \<and> mf_gave s' = mf_gave (zero_frame p s1)
       else take start ps' = take start (ps[i := p]) \<and>
         mset (mf_gave s') = mset (mf_gave (zero_frame p s1)) + mset (drop start (take (i + 1) (ps[i := p]))) + mset new"
      using Suc.IH[of "i + 1" "ps[i := p]" "zero_frame p s1"] Suc.prems(1,2) by auto
    have gv: "mf_gave (zero_frame p s1) = mf_gave s" using k ks by (auto simp: zero_frame_def kalloc_next_def)
    have t: "take (i + 1) (ps[i := p]) = take i ps @ [p]" using i by (simp add: take_Suc_conv_app_nth)
    have "grown s (p # new) s'" using grown_cons[OF ks False] g(2) k by simp
    moreover have "grow_loop start i (Suc n) ps s = Some (ok, ps', s')" using k False g(1) i by (simp add: slot_def)
    moreover have "if ok then ps' = take i ps @ (p # new) @ drop (i + Suc n) ps \<and> length (p # new) = Suc n \<and> mf_gave s' = mf_gave s
       else take start ps' = take start ps \<and> mset (mf_gave s') = mset (mf_gave s) + mset (drop start (take i ps)) + mset (p # new)"
      using g(4) t gv Suc.prems(1) i by (auto simp: min_def split: if_splits)
    ultimately show ?thesis using g(3) by blast
  qed
qed

lemma grow_cap_bounds: "cap \<le> MEMFD_PAGES_MAX \<Longrightarrow> need \<le> MEMFD_PAGES_MAX \<Longrightarrow> need \<le> grow_cap cap need \<and> grow_cap cap need \<le> MEMFD_PAGES_MAX"
proof (induction cap need rule: grow_cap.induct)
  case (1 cap need)
  then show ?case by (cases "cap < need") (simp_all add: grow_cap.simps[of cap need])
qed

declare grow_cap.simps [simp del]

lemma grow_cap_ge: "cap \<le> grow_cap cap need"
proof (induction cap need rule: grow_cap.induct)
  case (1 cap need)
  then show ?case by (subst grow_cap.simps) (auto simp: min_def split: if_splits)
qed

text \<open>The fields that growing leaves alone.\<close>

definition same_file :: "memfd \<Rightarrow> memfd \<Rightarrow> bool" where
  "same_file x y \<longleftrightarrow> mf_size y = mf_size x \<and> mf_fds y = mf_fds x \<and> mf_maps y = mf_maps x \<and> mf_valid y = mf_valid x"

lemma ensure_capacity:
  assumes x: "obj_ok x" and e: "ensure_capacity_locked need x s = (ok, x', s')"
  shows "length (mf_pages x') = mf_pages_cap x'" "mf_pages_cap x' \<le> MEMFD_PAGES_MAX" "mf_num_pages x \<le> mf_pages_cap x'"
    "obj_frames x' = obj_frames x" "ok \<Longrightarrow> need \<le> mf_pages_cap x'"
    "same_file x x' \<and> mf_num_pages x' = mf_num_pages x" "\<exists>b. s' = s\<lparr> mf_kmalloc := b \<rparr>" "\<not> ok \<Longrightarrow> x' = x"
proof -
  have o: "length (mf_pages x) = mf_pages_cap x" "mf_num_pages x \<le> mf_pages_cap x" "mf_pages_cap x \<le> MEMFD_PAGES_MAX"
    using x by (auto simp: obj_ok_def)
  let ?init = "if mf_pages_cap x = 0 then MEMFD_PAGES_INITIAL else mf_pages_cap x"
  let ?c = "grow_cap ?init need" and ?live = "if mf_pages x = [] then [] else take (mf_num_pages x) (mf_pages x)"
  have live: "?live = obj_frames x" "length (obj_frames x) = mf_num_pages x" using o by (auto simp: obj_frames_def)
  have c: "mf_num_pages x \<le> ?c" using o(2) grow_cap_ge[of ?init need] by (auto split: if_splits)
  consider (same) "x' = x" "\<exists>b. s' = s\<lparr> mf_kmalloc := b \<rparr>" "ok \<Longrightarrow> need \<le> mf_pages_cap x"
    | (new) "ok" "need \<le> MEMFD_PAGES_MAX" "x' = x\<lparr> mf_pages := ?live @ replicate (?c - length ?live) 0, mf_pages_cap := ?c \<rparr>" "\<exists>b. s' = s\<lparr> mf_kmalloc := b \<rparr>"
  proof -
    obtain b s1 where k: "kmalloc_next s = (b, s1)" by (cases "kmalloc_next s")
    have ks: "\<exists>b. s1 = s\<lparr> mf_kmalloc := b \<rparr>"
      using k by (intro exI[of _ "mf_kmalloc s1"]) (auto simp: kmalloc_next_def split: list.splits)
    have s: "\<exists>b. s = s\<lparr> mf_kmalloc := b \<rparr>" by (intro exI[of _ "mf_kmalloc s"]) simp
    show thesis
    proof (cases "need \<le> mf_pages_cap x \<or> need > MEMFD_PAGES_MAX \<or> \<not> b")
      case True
      then have "x' = x \<and> (s' = s \<or> s' = s1) \<and> (ok \<longrightarrow> need \<le> mf_pages_cap x)"
        using e k unfolding ensure_capacity_locked_def Let_def by (auto split: if_splits)
      then show thesis using same ks s by blast
    next
      case False
      then have "ok \<and> x' = x\<lparr> mf_pages := ?live @ replicate (?c - length ?live) 0, mf_pages_cap := ?c \<rparr> \<and> s' = s1"
        using e k unfolding ensure_capacity_locked_def Let_def by simp
      then show thesis using new ks False by simp
    qed
  qed
  note cases = this
  have g: "need \<le> ?c \<and> ?c \<le> MEMFD_PAGES_MAX" if "need \<le> MEMFD_PAGES_MAX" by (rule grow_cap_bounds) (use o(3) that in auto)
  show "length (mf_pages x') = mf_pages_cap x'" by (cases rule: cases) (use o c live in \<open>simp_all add: live\<close>)
  show "mf_pages_cap x' \<le> MEMFD_PAGES_MAX" by (cases rule: cases) (use o g in simp_all)
  show "mf_num_pages x \<le> mf_pages_cap x'" by (cases rule: cases) (use o c in simp_all)
  show "obj_frames x' = obj_frames x" by (cases rule: cases) (use live in \<open>simp_all add: live obj_frames_def[of "x\<lparr> mf_pages := _, mf_pages_cap := _ \<rparr>"]\<close>)
  show "need \<le> mf_pages_cap x'" if ok using that by (cases rule: cases) (use g in simp_all)
  show "same_file x x' \<and> mf_num_pages x' = mf_num_pages x" by (cases rule: cases) (simp_all add: same_file_def)
  show "\<exists>b. s' = s\<lparr> mf_kmalloc := b \<rparr>" by (cases rule: cases) auto
  show "x' = x" if "\<not> ok" using that by (cases rule: cases) auto
qed

lemma zeroed:
  assumes "frame_ok q" "i < PAGE" "\<And>p. p \<in> set new \<Longrightarrow> frame_ok p"
  shows "fold (\<lambda>p m. mem_write m p (replicate PAGE 0)) new m (q + word_of_nat i) = (if q \<in> set new then 0 else m (q + word_of_nat i))"
  using assms(3)
proof (induction new arbitrary: m)
  case (Cons p new)
  have "mem_write m p (replicate PAGE 0) (q + word_of_nat i) = (if q = p then 0 else m (q + word_of_nat i))"
    by (rule frame_zero) (use Cons.prems assms in auto)
  then show ?case using Cons by (cases "q = p") simp_all
qed simp

text \<open>Everything \<open>grow_locked\<close> does, with \<open>F\<close> the frames in use before.\<close>

definition grow_post :: "u32 set \<Rightarrow> nat \<Rightarrow> memfd \<Rightarrow> mfs \<Rightarrow> bool \<Rightarrow> memfd \<Rightarrow> mfs \<Rightarrow> u32 list \<Rightarrow> bool" where
  "grow_post F need x s ok x' s' new \<longleftrightarrow>
     obj_ok x' \<and> mf_table s' = mf_table s \<and> same_file x x' \<and>
     distinct new \<and> (\<forall>p \<in> set new. frame_ok p \<and> p \<notin> F) \<and> mset (mf_got s') = mset (mf_got s) + mset new \<and>
     (\<forall>q i. frame_ok q \<longrightarrow> i < PAGE \<longrightarrow> mf_ram s' (q + word_of_nat i) = (if q \<in> set new then 0 else mf_ram s (q + word_of_nat i))) \<and>
     (if ok then obj_frames x' = obj_frames x @ new \<and> mf_num_pages x' = max need (mf_num_pages x) \<and> mset (mf_gave s') = mset (mf_gave s)
      else obj_frames x' = obj_frames x \<and> mf_num_pages x' = mf_num_pages x \<and> mset (mf_gave s') = mset (mf_gave s) + mset new)"

lemma grow_post_same: "obj_ok x \<Longrightarrow> need \<le> mf_num_pages x \<or> \<not> ok \<Longrightarrow> \<exists>b. s' = s\<lparr> mf_kmalloc := b \<rparr> \<Longrightarrow> grow_post F need x s ok x s' []"
  by (auto simp: grow_post_def same_file_def)

lemma grow_locked_some:
  assumes x: "obj_ok x" and d: "distinct (filter (\<lambda>p. p \<noteq> 0) (mf_kalloc s))"
    and fr: "\<And>p. p \<in> set (mf_kalloc s) \<Longrightarrow> p \<noteq> 0 \<Longrightarrow> frame_ok p \<and> p \<notin> F" and v: "mf_valid x"
  shows "\<exists>ok x' s' new. grow_locked need x s = Some (ok, x', s') \<and> grow_post F need x s ok x' s' new"
proof (cases "need \<le> mf_num_pages x")
  case True
  have "grow_post F need x s True x s []"
    by (rule grow_post_same) (use x True in \<open>auto intro!: exI[of _ "mf_kmalloc s"]\<close>)
  then show ?thesis using True unfolding grow_locked_def by auto
next
  case need: False
  obtain ok1 y s1 where e: "ensure_capacity_locked need x s = (ok1, y, s1)" by (cases "ensure_capacity_locked need x s") auto
  note c = ensure_capacity[OF x e]
  show ?thesis
  proof (cases ok1)
    case False
    have "grow_post F need x s False y s1 []"
      unfolding c(8)[OF False] by (rule grow_post_same) (use x c(7) in auto)
    then show ?thesis using need e False by (auto simp: grow_locked_def)
  next
    case True
    have n: "mf_num_pages y = mf_num_pages x" using c(6) by blast
    have s1: "mf_kalloc s1 = mf_kalloc s" "mf_table s1 = mf_table s" "mf_got s1 = mf_got s" "mf_gave s1 = mf_gave s" "mf_ram s1 = mf_ram s"
      using c(7) by auto
    have len: "mf_num_pages x + (need - mf_num_pages x) \<le> length (mf_pages y)" using need c(1) c(5)[OF True] by simp
    obtain ok ps s' new where g: "grow_loop (mf_num_pages x) (mf_num_pages x) (need - mf_num_pages x) (mf_pages y) s1 = Some (ok, ps, s')"
      "grown s1 new s'" "length ps = length (mf_pages y)"
      "if ok then ps = take (mf_num_pages x) (mf_pages y) @ new @ drop (mf_num_pages x + (need - mf_num_pages x)) (mf_pages y) \<and>
           length new = need - mf_num_pages x \<and> mf_gave s' = mf_gave s1
       else take (mf_num_pages x) ps = take (mf_num_pages x) (mf_pages y) \<and> mset (mf_gave s') = mset (mf_gave s1) + mset (drop (mf_num_pages x) (take (mf_num_pages x) (mf_pages y))) + mset new"
      using grow_loop_some[of "mf_num_pages x" "mf_num_pages x", OF order_refl len] by fastforce
    let ?x' = "if ok then y\<lparr> mf_pages := ps, mf_num_pages := need \<rparr> else y\<lparr> mf_pages := ps \<rparr>"
    obtain rest where rest: "mf_kalloc s = new @ rest" "0 \<notin> set new" using g(2) s1(1) by (auto simp: grown_def)
    have new: "distinct new" "\<And>p. p \<in> set new \<Longrightarrow> frame_ok p \<and> p \<notin> F"
    proof -
      have "filter (\<lambda>p. p \<noteq> 0) new = new" using rest(2) by (intro filter_True ballI) (metis)
      then show "distinct new" using d rest(1) by auto
      show "frame_ok p \<and> p \<notin> F" if "p \<in> set new" for p using fr[of p] that rest by auto
    qed
    have tk: "take (mf_num_pages x) (mf_pages y) = obj_frames x" using c(4) n by (simp add: obj_frames_def)
    have lx: "length (obj_frames x) = mf_num_pages x" using x by (simp add: obj_frames_def obj_ok_def)
    have fs: "obj_frames ?x' = (if ok then obj_frames x @ new else obj_frames x)"
      using g(4) tk lx need n by (cases ok) (auto simp: obj_frames_def)
    have cap: "length (mf_pages ?x') = mf_pages_cap ?x'" "mf_num_pages ?x' \<le> mf_pages_cap ?x'" "mf_pages_cap ?x' \<le> MEMFD_PAGES_MAX"
      using g(3) c(1,2,3) c(5)[OF True] n by auto
    have xf: "same_file x ?x'" using c(6) by (simp add: same_file_def)
    have "mf_size ?x' = mf_size x" "mf_valid ?x'" using xf v by (simp_all only: same_file_def)
    moreover have "mf_num_pages x \<le> mf_num_pages ?x'" using need n by simp
    moreover have "mf_size x \<le> mf_num_pages x * PAGE" using x by (simp only: obj_ok_def)
    ultimately have sz: "mf_size ?x' \<le> mf_num_pages ?x' * PAGE" "mf_valid ?x'" by linarith+
    have "obj_ok ?x'" unfolding obj_ok_def using cap sz by blast
    moreover have "\<forall>q i. frame_ok q \<longrightarrow> i < PAGE \<longrightarrow> mf_ram s' (q + word_of_nat i) = (if q \<in> set new then 0 else mf_ram s (q + word_of_nat i))"
      using zeroed[of _ _ new] new(2) g(2) s1(5) by (simp add: grown_def)
    moreover have "mf_table s' = mf_table s" "mset (mf_got s') = mset (mf_got s) + mset new" using g(2) s1 by (simp_all add: grown_def)
    moreover have "if ok then mf_gave s' = mf_gave s else mset (mf_gave s') = mset (mf_gave s) + mset new" using g(4) s1(4) by (auto split: if_splits)
    ultimately have "grow_post F need x s ok ?x' s' new" using xf new fs need n unfolding grow_post_def by (cases ok) auto
    moreover have "grow_locked need x s = Some (ok, ?x', s')" using need e True g(1) n by (simp add: grow_locked_def)
    ultimately show ?thesis by blast
  qed
qed

section \<open>The loops over the contents\<close>

definition byte_at :: "umem \<Rightarrow> u32 list \<Rightarrow> nat \<Rightarrow> byte" where
  "byte_at m ps i = m (ps ! (i div PAGE) + word_of_nat (i mod PAGE))"

declare read_loop.simps [simp del] write_loop.simps [simp del]

lemma at_page: "d < PAGE \<Longrightarrow> (a * PAGE + d) div PAGE = a \<and> (a * PAGE + d) mod PAGE = d"
  by simp

lemma page_range:
  assumes "i < PAGE" "r + l \<le> PAGE"
  shows "a * PAGE + r \<le> j * PAGE + i \<and> j * PAGE + i < a * PAGE + r + l \<longleftrightarrow> j = a \<and> r \<le> i \<and> i < r + l"
proof (cases j a rule: linorder_cases)
  case less
  then have "(j + 1) * PAGE \<le> a * PAGE" by (intro mult_le_mono1) simp
  then show ?thesis using assms less by auto
next
  case greater
  then have "(a + 1) * PAGE \<le> j * PAGE" by (intro mult_le_mono1) simp
  then show ?thesis using assms greater by auto
qed auto

lemma in_page: "k < PAGE - pos mod PAGE \<Longrightarrow> (pos + k) div PAGE = pos div PAGE \<and> (pos + k) mod PAGE = pos mod PAGE + k"
proof -
  assume k: "k < PAGE - pos mod PAGE"
  have e: "pos + k = pos div PAGE * PAGE + (pos mod PAGE + k)" by simp
  have "pos mod PAGE + k < PAGE" using k by linarith
  then show ?thesis using at_page[of "pos mod PAGE + k" "pos div PAGE"] e by metis
qed

lemma read_chunk: "c \<le> PAGE - pos mod PAGE \<Longrightarrow> mem_read m (ps ! (pos div PAGE) + word_of_nat (pos mod PAGE)) c = map (byte_at m ps) [pos..<pos + c]"
proof (intro nth_equalityI, goal_cases)
  case (2 k)
  then have k: "k < c" "k < PAGE - pos mod PAGE" by simp_all
  then show ?case using in_page[OF k(2)] by (simp add: byte_at_def add.assoc)
qed simp

lemma chunk_pos: "n \<noteq> 0 \<Longrightarrow> 0 < min n (PAGE - pos mod PAGE)"
  by simp

lemma slot_in: "pos < num * PAGE \<Longrightarrow> num \<le> length ps \<Longrightarrow> pos div PAGE < num \<and> slot ps (pos div PAGE) = Some (ps ! (pos div PAGE))"
  using div_less_iff_less_mult[of PAGE pos num] by (auto simp: slot_def)

lemma read_loop_step:
  assumes "n \<noteq> 0" "slot ps (pos div PAGE) = Some p" "p \<noteq> 0" "c = min n (PAGE - pos mod PAGE)"
  shows "read_loop m ps pos n = map_option ((@) (mem_read m (p + word_of_nat (pos mod PAGE)) c)) (read_loop m ps (pos + c) (n - c))"
  unfolding read_loop.simps[of m ps pos n] Let_def assms(2,4) Option.bind.simps using assms(1,3) by (simp only: if_False)

lemma write_loop_step:
  assumes "bs \<noteq> []" "slot ps (pos div PAGE) = Some p" "p \<noteq> 0" "c = min (length bs) (PAGE - pos mod PAGE)"
  shows "write_loop m ps pos bs = write_loop (mem_write m (p + word_of_nat (pos mod PAGE)) (take c bs)) ps (pos + c) (drop c bs)"
  unfolding write_loop.simps[of m ps pos bs] Let_def assms(2,4) Option.bind.simps using assms(1,3) by (simp only: if_False)

lemma read_loop_some:
  assumes "num \<le> length ps" "\<And>j. j < num \<Longrightarrow> ps ! j \<noteq> 0" "pos + n \<le> num * PAGE"
  shows "read_loop m ps pos n = Some (map (byte_at m ps) [pos..<pos + n])"
  using assms(3)
proof (induction n arbitrary: pos rule: less_induct)
  case (less n)
  show ?case
  proof (cases "n = 0")
    case False
    obtain c where c: "c = min n (PAGE - pos mod PAGE)" "0 < c" "c \<le> n" "c \<le> PAGE - pos mod PAGE" using chunk_pos[OF False] by simp
    have "pos < num * PAGE" using less.prems False by linarith
    then have sl: "pos div PAGE < num" "slot ps (pos div PAGE) = Some (ps ! (pos div PAGE))" using slot_in[OF _ assms(1), of pos] by blast+
    have "n - c < n" "pos + c + (n - c) \<le> num * PAGE" and e: "pos + c + (n - c) = pos + n" using c(2,3) less.prems by linarith+
    then have "read_loop m ps (pos + c) (n - c) = Some (map (byte_at m ps) [pos + c..<pos + n])" using less.IH[of "n - c" "pos + c"] by simp
    moreover have "[pos..<pos + n] = [pos..<pos + c] @ [pos + c..<pos + n]" using upt_add_eq_append[of pos "pos + c" "n - c"] e by simp
    ultimately show ?thesis
      unfolding read_loop_step[OF False sl(2) assms(2)[OF sl(1)] c(1)] read_chunk[OF c(4), of m ps] by (simp only: option.map map_append)
  qed (simp add: read_loop.simps)
qed

text \<open>The bytes of the frames after a write: those of the range are new, all others as before.\<close>

definition written :: "umem \<Rightarrow> u32 list \<Rightarrow> nat \<Rightarrow> nat \<Rightarrow> bytes \<Rightarrow> umem \<Rightarrow> bool" where
  "written m ps num pos bs m' \<longleftrightarrow>
     (\<forall>j i. j < num \<longrightarrow> i < PAGE \<longrightarrow> m' (ps ! j + word_of_nat i) =
        (if pos \<le> j * PAGE + i \<and> j * PAGE + i < pos + length bs then bs ! (j * PAGE + i - pos) else m (ps ! j + word_of_nat i))) \<and>
     (\<forall>q i. frame_ok q \<longrightarrow> q \<notin> set (take num ps) \<longrightarrow> i < PAGE \<longrightarrow> m' (q + word_of_nat i) = m (q + word_of_nat i))"

lemma written_chunk:
  assumes ps: "num \<le> length ps" "\<And>j. j < num \<Longrightarrow> frame_ok (ps ! j)" "distinct (take num ps)"
    and c: "pos div PAGE < num" "length bs \<le> PAGE - pos mod PAGE"
  shows "written m ps num pos bs (mem_write m (ps ! (pos div PAGE) + word_of_nat (pos mod PAGE)) bs)"
proof -
  let ?p = "ps ! (pos div PAGE)"
  have e: "pos = pos div PAGE * PAGE + pos mod PAGE" by simp
  have "pos mod PAGE < PAGE" by simp
  then have b: "pos mod PAGE + length bs \<le> PAGE" using c(2) by linarith
  have w: "mem_write m (?p + word_of_nat (pos mod PAGE)) bs (q + word_of_nat i) =
      (if q = ?p \<and> pos mod PAGE \<le> i \<and> i < pos mod PAGE + length bs then bs ! (i - pos mod PAGE) else m (q + word_of_nat i))"
    if "frame_ok q" "i < PAGE" for q i by (rule frame_write[OF ps(2)[OF c(1)] that b])
  have same: "ps ! j = ?p \<longleftrightarrow> j = pos div PAGE" if "j < num" for j
    using nth_eq_iff_index_eq[OF ps(3), of j "pos div PAGE"] that c(1) ps(1) by simp
  have rng: "(pos \<le> j * PAGE + i \<and> j * PAGE + i < pos + length bs) \<longleftrightarrow> (j = pos div PAGE \<and> pos mod PAGE \<le> i \<and> i < pos mod PAGE + length bs)"
    if "i < PAGE" for j i using page_range[OF that b, of "pos div PAGE" j] e by simp
  have "?p \<in> set (take num ps)" using c(1) ps(1) by (auto simp: in_set_conv_nth)
  moreover have "j * PAGE + i - pos = i - pos mod PAGE" if "j = pos div PAGE" for j i using e that by linarith
  ultimately show ?thesis unfolding written_def using w ps(2) same rng by auto
qed

lemma written_trans:
  assumes "written m ps num pos as m1" "written m1 ps num (pos + length as) bs m2"
  shows "written m ps num pos (as @ bs) m2"
  using assms unfolding written_def by (auto simp: nth_append)

lemma write_loop_some:
  assumes ps: "num \<le> length ps" "\<And>j. j < num \<Longrightarrow> frame_ok (ps ! j)" "distinct (take num ps)" and "pos + length bs \<le> num * PAGE"
  shows "\<exists>m'. write_loop m ps pos bs = Some m' \<and> written m ps num pos bs m'"
  using assms(4)
proof (induction "length bs" arbitrary: m pos bs rule: less_induct)
  case less
  show ?case
  proof (cases "bs = []")
    case True
    then show ?thesis by (auto simp: write_loop.simps written_def)
  next
    case False
    then have n: "length bs \<noteq> 0" by simp
    obtain c where c: "c = min (length bs) (PAGE - pos mod PAGE)" "0 < c" "c \<le> length bs" "c \<le> PAGE - pos mod PAGE" using chunk_pos[OF n] by simp
    have "pos < num * PAGE" using less.prems n by linarith
    then have sl: "pos div PAGE < num" "slot ps (pos div PAGE) = Some (ps ! (pos div PAGE))" using slot_in[OF _ ps(1), of pos] by blast+
    have p: "ps ! (pos div PAGE) \<noteq> 0" using ps(2)[OF sl(1)] by (simp add: frame_ok_def)
    let ?m = "mem_write m (ps ! (pos div PAGE) + word_of_nat (pos mod PAGE)) (take c bs)"
    have "length (drop c bs) < length bs" "pos + c + length (drop c bs) \<le> num * PAGE" using c(2,3) less.prems by simp_all
    then obtain m' where m': "write_loop ?m ps (pos + c) (drop c bs) = Some m'" "written ?m ps num (pos + c) (drop c bs) m'"
      using less.hyps[of "drop c bs" "pos + c" ?m] by blast
    have t: "length (take c bs) = c" using c(3) by simp
    have le: "length (take c bs) \<le> PAGE - pos mod PAGE" unfolding t by (rule c(4))
    have "written m ps num pos (take c bs) ?m" by (rule written_chunk[OF ps sl(1) le])
    then have "written m ps num pos (take c bs @ drop c bs) m'" by (rule written_trans) (use m'(2) t in simp)
    then show ?thesis using write_loop_step[OF False sl(2) p c(1), of m] m'(1) by simp
  qed
qed

section \<open>The table\<close>

lemma table_at: "mfs_inv s \<Longrightarrow> handle_valid h s \<Longrightarrow> nat (h - 1) < length (mf_table s) \<and> mf_valid (mf_obj h s) \<and> obj_ok (mf_obj h s)"
  by (auto simp: mfs_inv_def handle_valid_def mf_obj_def)

lemma frames_split:
  assumes "k < length (mf_table s)"
  shows "mset (mf_frames s) = mset (obj_frames (mf_table s ! k)) + mset (concat (map obj_frames (take k (mf_table s) @ drop (Suc k) (mf_table s))))"
proof -
  have "mf_frames s = concat (map obj_frames (take k (mf_table s) @ mf_table s ! k # drop (Suc k) (mf_table s)))"
    unfolding mf_frames_def by (subst id_take_nth_drop[OF assms]) (rule refl)
  then show ?thesis by simp
qed

lemma frames_put:
  assumes "k < length (mf_table s)"
  shows "mset (concat (map obj_frames ((mf_table s)[k := x]))) + mset (obj_frames (mf_table s ! k)) = mset (mf_frames s) + mset (obj_frames x)"
proof -
  have "(mf_table s)[k := x] = take k (mf_table s) @ x # drop (Suc k) (mf_table s)" using assms by (rule upd_conv_take_nth_drop)
  then show ?thesis using frames_split[OF assms] by (simp add: ac_simps)
qed

lemma put_simps [simp]: "mf_ram (mf_put h x s) = mf_ram s" "mf_got (mf_put h x s) = mf_got s" "mf_gave (mf_put h x s) = mf_gave s"
  "mf_table (mf_put h x s) = (mf_table s)[nat (h - 1) := x]"
  by (simp_all add: mf_put_def)

text \<open>Replacing one object, with \<open>new\<close> frames added to it.\<close>

lemma put_inv:
  assumes inv: "mfs_inv s" and h: "handle_valid h s" and t: "mf_table t = mf_table s" and x: "obj_ok x" "mset (obj_frames x) = mset (obj_frames (mf_obj h s)) + mset new"
    and new: "distinct new" "\<And>p. p \<in> set new \<Longrightarrow> frame_ok p \<and> p \<notin> set (mf_frames s)"
    and acc: "mset (mf_got t) + mset (mf_gave s) = mset (mf_got s) + mset (mf_gave t) + mset new"
  shows "mfs_inv (mf_put h x t)"
proof -
  let ?k = "nat (h - 1)"
  have k: "?k < length (mf_table s)" using table_at[OF inv h] by simp
  have "mset (mf_frames (mf_put h x t)) + mset (obj_frames (mf_obj h s)) = mset (mf_frames s) + mset (obj_frames x)"
    using frames_put[OF k, of x] t by (simp add: mf_frames_def mf_obj_def)
  then have m: "mset (mf_frames (mf_put h x t)) = mset (mf_frames s @ new)" using x(2) by simp
  then have d: "distinct (mf_frames (mf_put h x t)) \<longleftrightarrow> distinct (mf_frames s @ new)" by (rule mset_eq_imp_distinct_iff)
  have st: "set (mf_frames (mf_put h x t)) = set (mf_frames s @ new)" using m by (rule mset_eq_setD)
  have "obj_ok y" if "y \<in> set ((mf_table s)[?k := x])" for y using set_update_subset_insert[of "mf_table s" ?k x] that inv x(1) by (auto simp: mfs_inv_def)
  moreover have "mset (mf_got t) = mset (mf_gave t) + mset (mf_frames (mf_put h x t))" using acc inv m by (simp add: mfs_inv_def)
  ultimately show ?thesis using inv d st new t unfolding mfs_inv_def by auto
qed

lemma put_same_inv:
  "mfs_inv s \<Longrightarrow> handle_valid h s \<Longrightarrow> obj_ok x \<Longrightarrow> obj_frames x = obj_frames (mf_obj h s) \<Longrightarrow> mfs_inv (mf_put h x s)"
  by (rule put_inv[where new = "[]"]) auto

section \<open>Files as lists of bytes\<close>

definition store :: "umem \<Rightarrow> memfd \<Rightarrow> bytes" where
  "store m x = map (byte_at m (mf_pages x)) [0..<mf_num_pages x * PAGE]"

text \<open>The size of a file and the bytes it owns, of which those below the size can be read.\<close>

definition file_of :: "int \<Rightarrow> mfs \<Rightarrow> (nat \<times> bytes) option" where
  "file_of h s = (if handle_valid h s then Some (mf_size (mf_obj h s), store (mf_ram s) (mf_obj h s)) else None)"

definition pad :: "nat \<Rightarrow> bytes \<Rightarrow> bytes" where
  "pad n st = st @ replicate (n - length st) 0"

definition patch :: "nat \<Rightarrow> bytes \<Rightarrow> bytes \<Rightarrow> bytes" where
  "patch off bs st = take off st @ bs @ drop (off + length bs) st"

lemma length_store [simp]: "length (store m x) = mf_num_pages x * PAGE"
  by (simp add: store_def)

lemma nth_store: "i < mf_num_pages x * PAGE \<Longrightarrow> store m x ! i = byte_at m (mf_pages x) i"
  by (simp add: store_def)

lemma page_of: "i < num * PAGE \<Longrightarrow> i div PAGE < num" for i :: nat
  by (simp add: div_less_iff_less_mult)

text \<open>The store depends on the frames of the object only.\<close>

lemma store_cong:
  assumes "obj_ok x" "obj_frames y = obj_frames x" "mf_num_pages y = mf_num_pages x" "obj_ok y"
    and "\<And>p i. p \<in> set (obj_frames x) \<Longrightarrow> i < PAGE \<Longrightarrow> m' (p + word_of_nat i) = m (p + word_of_nat i)"
  shows "store m' y = store m x"
proof (rule nth_equalityI)
  fix i assume "i < length (store m' y)"
  then have i: "i < mf_num_pages x * PAGE" using assms(3) by simp
  let ?k = "i div PAGE"
  have k: "?k < mf_num_pages x" by (rule page_of[OF i])
  have "mf_pages y ! ?k = obj_frames y ! ?k" "mf_pages x ! ?k = obj_frames x ! ?k" using k assms(3) by (simp_all add: obj_frames_def)
  moreover have "obj_frames x ! ?k \<in> set (obj_frames x)" using k assms(1) by (intro nth_mem) (simp add: obj_frames_def obj_ok_def)
  ultimately show "store m' y ! i = store m x ! i" using i assms(2,3,5) by (simp add: nth_store byte_at_def)
qed (use assms(3) in simp)

lemma frame_in: "x \<in> set (mf_table s) \<Longrightarrow> set (obj_frames x) \<subseteq> set (mf_frames s)"
  by (auto simp: mf_frames_def)

lemma obj_in: "mfs_inv s \<Longrightarrow> handle_valid h s \<Longrightarrow> mf_obj h s \<in> set (mf_table s)"
  by (auto simp: mf_obj_def dest: table_at)

lemma other_handle:
  assumes "g \<noteq> h" "1 \<le> h"
  shows "handle_valid g (mf_put h x t) \<longleftrightarrow> handle_valid g t" "1 \<le> g \<Longrightarrow> mf_obj g (mf_put h x t) = mf_obj g t"
proof -
  have "nat (h - 1) \<noteq> nat (g - 1)" if "1 \<le> g" using assms that by linarith
  then show "handle_valid g (mf_put h x t) \<longleftrightarrow> handle_valid g t" "1 \<le> g \<Longrightarrow> mf_obj g (mf_put h x t) = mf_obj g t"
    by (auto simp: handle_valid_def mf_obj_def)
qed

lemma nth_rest:
  assumes "i < length xs" "i \<noteq> k"
  shows "xs ! i \<in> set (take k xs @ drop (Suc k) xs)"
proof (cases "i < k")
  case True
  then have "take k xs ! i \<in> set (take k xs)" using assms by (intro nth_mem) simp
  then show ?thesis using True by simp
next
  case False
  then have "drop (Suc k) xs ! (i - Suc k) \<in> set (drop (Suc k) xs)" using assms by (intro nth_mem) auto
  moreover have "drop (Suc k) xs ! (i - Suc k) = xs ! i" using False assms by (subst nth_drop) auto
  ultimately show ?thesis by simp
qed

text \<open>Two live objects have no frame in common.\<close>

lemma frames_apart:
  assumes inv: "mfs_inv s" and g: "handle_valid g s" and h: "handle_valid h s" and "g \<noteq> h" and p: "p \<in> set (obj_frames (mf_obj g s))"
  shows "p \<notin> set (obj_frames (mf_obj h s))"
proof -
  let ?i = "nat (g - 1)" and ?k = "nat (h - 1)"
  have i: "?i < length (mf_table s)" "?k < length (mf_table s)" using table_at[OF inv] g h by auto
  have ne: "?i \<noteq> ?k" using assms(4) g h by (auto simp: handle_valid_def)
  let ?rest = "take ?k (mf_table s) @ drop (Suc ?k) (mf_table s)"
  have "mf_table s ! ?i \<in> set ?rest" by (rule nth_rest[OF i(1) ne])
  then have pr: "p \<in> set (concat (map obj_frames ?rest))" using p by (auto simp: mf_obj_def)
  have "distinct (obj_frames (mf_table s ! ?k) @ concat (map obj_frames ?rest))"
    using mset_eq_imp_distinct_iff[of "mf_frames s" "obj_frames (mf_table s ! ?k) @ concat (map obj_frames ?rest)"] frames_split[OF i(2)] inv
    by (simp add: mfs_inv_def)
  then show ?thesis using pr by (auto simp: mf_obj_def)
qed

section \<open>Growing, writing and truncating\<close>

lemma frames_nth: "k < mf_num_pages x \<Longrightarrow> mf_pages x ! k = obj_frames x ! k"
  by (simp add: obj_frames_def)

lemma length_frames: "obj_ok x \<Longrightarrow> length (obj_frames x) = mf_num_pages x"
  by (simp add: obj_frames_def obj_ok_def)

lemma grow_put_inv:
  assumes "mfs_inv s" "handle_valid h s" "grow_post (set (mf_frames s)) need (mf_obj h s) s ok x s' new"
    and "obj_ok y" "obj_frames y = obj_frames x" "mf_table t = mf_table s'" "mf_got t = mf_got s'" "mf_gave t = mf_gave s'"
  shows "mfs_inv (mf_put h y t)"
proof (rule put_inv[OF assms(1,2), where new = "if ok then new else []"])
  show "mset (obj_frames y) = mset (obj_frames (mf_obj h s)) + mset (if ok then new else [])" using assms(3,5) by (auto simp: grow_post_def)
  show "mset (mf_got t) + mset (mf_gave s) = mset (mf_got s) + mset (mf_gave t) + mset (if ok then new else [])"
    using assms(3,7,8) by (auto simp: grow_post_def)
qed (use assms in \<open>auto simp: grow_post_def split: if_splits\<close>)

lemma grow_ram_old:
  assumes "mfs_inv s" "grow_post (set (mf_frames s)) need x0 s ok x s' new" "p \<in> set (mf_frames s)" "i < PAGE"
  shows "mf_ram s' (p + word_of_nat i) = mf_ram s (p + word_of_nat i)"
  using assms unfolding grow_post_def mfs_inv_def by metis

lemma grow_store:
  assumes inv: "mfs_inv s" and h: "handle_valid h s" and post: "grow_post (set (mf_frames s)) need (mf_obj h s) s ok x s' new"
  shows "store (mf_ram s') x = (if ok then pad (need * PAGE) (store (mf_ram s) (mf_obj h s)) else store (mf_ram s) (mf_obj h s))"
proof -
  let ?o = "mf_obj h s"
  have o: "obj_ok ?o" using table_at[OF inv h] by simp
  have x: "obj_ok x" using post by (simp add: grow_post_def)
  have old: "mf_ram s' (p + word_of_nat i) = mf_ram s (p + word_of_nat i)" if "p \<in> set (obj_frames ?o)" "i < PAGE" for p i
    by (rule grow_ram_old[OF inv post _ that(2)]) (use frame_in[OF obj_in[OF inv h]] that(1) in blast)
  show ?thesis
  proof (cases ok)
    case False
    then have f: "obj_frames x = obj_frames ?o" "mf_num_pages x = mf_num_pages ?o" using post by (simp_all add: grow_post_def)
    have "store (mf_ram s') x = store (mf_ram s) ?o" by (rule store_cong[OF o f x]) (rule old)
    then show ?thesis using False by simp
  next
    case True
    have fs: "obj_frames x = obj_frames ?o @ new" and n: "mf_num_pages x = max need (mf_num_pages ?o)"
      and new: "\<And>p. p \<in> set new \<Longrightarrow> frame_ok p" and ram: "\<And>q i. frame_ok q \<Longrightarrow> i < PAGE \<Longrightarrow> mf_ram s' (q + word_of_nat i) = (if q \<in> set new then 0 else mf_ram s (q + word_of_nat i))"
      using post True unfolding grow_post_def by simp_all
    have "store (mf_ram s') x = pad (need * PAGE) (store (mf_ram s) ?o)"
    proof (rule nth_equalityI)
      show len: "length (store (mf_ram s') x) = length (pad (need * PAGE) (store (mf_ram s) ?o))"
        by (simp add: pad_def n max_def)
      fix i assume "i < length (store (mf_ram s') x)"
      then have i: "i < mf_num_pages x * PAGE" by simp
      let ?k = "i div PAGE"
      have k: "?k < mf_num_pages x" by (rule page_of[OF i])
      have b: "store (mf_ram s') x ! i = mf_ram s' ((obj_frames ?o @ new) ! ?k + word_of_nat (i mod PAGE))"
        using nth_store[OF i] frames_nth[OF k] fs by (simp add: byte_at_def)
      show "store (mf_ram s') x ! i = pad (need * PAGE) (store (mf_ram s) ?o) ! i"
      proof (cases "i < mf_num_pages ?o * PAGE")
        case True
        have ko: "?k < mf_num_pages ?o" by (rule page_of[OF True])
        then have m: "obj_frames ?o ! ?k \<in> set (obj_frames ?o)" using length_frames[OF o] by (intro nth_mem) simp
        have "store (mf_ram s') x ! i = mf_ram s (obj_frames ?o ! ?k + word_of_nat (i mod PAGE))"
          using b old[OF m, of "i mod PAGE"] ko length_frames[OF o] by (simp add: nth_append)
        then show ?thesis using True nth_store[OF True, of "mf_ram s"] frames_nth[OF ko] by (simp add: pad_def nth_append byte_at_def)
      next
        case False
        then have ko: "\<not> ?k < mf_num_pages ?o" using div_less_iff_less_mult[of PAGE i "mf_num_pages ?o"] by simp
        have "?k - mf_num_pages ?o < length new" using k ko length_frames[OF o] length_frames[OF x] fs by simp
        then have m: "new ! (?k - mf_num_pages ?o) \<in> set new" by (rule nth_mem)
        have "store (mf_ram s') x ! i = 0" using b ram[OF new[OF m], of "i mod PAGE"] m ko length_frames[OF o] by (simp add: nth_append)
        moreover have "i < length (pad (need * PAGE) (store (mf_ram s) ?o))" using i len by simp
        ultimately show ?thesis using False by (simp add: pad_def nth_append)
      qed
    qed
    then show ?thesis using True by simp
  qed
qed

text \<open>A change of one object and of memory outside the frames of the others leaves the other files alone.\<close>

lemma other_file:
  assumes inv: "mfs_inv s" and h: "handle_valid h s" and t: "mf_table t = mf_table s" and "g \<noteq> h"
    and ram: "\<And>p i. p \<in> set (mf_frames s) \<Longrightarrow> p \<notin> set (obj_frames (mf_obj h s)) \<Longrightarrow> i < PAGE \<Longrightarrow> mf_ram t (p + word_of_nat i) = mf_ram s (p + word_of_nat i)"
  shows "file_of g (mf_put h y t) = file_of g s"
proof -
  have h1: "1 \<le> h" using h by (simp add: handle_valid_def)
  have v: "handle_valid g (mf_put h y t) \<longleftrightarrow> handle_valid g s" using other_handle(1)[OF assms(4) h1, of y t] t by (simp add: handle_valid_def)
  show ?thesis
  proof (cases "handle_valid g s")
    case True
    have o: "mf_obj g (mf_put h y t) = mf_obj g s" using other_handle(2)[OF assms(4) h1, of y t] True t by (simp add: handle_valid_def mf_obj_def)
    have ok: "obj_ok (mf_obj g s)" using table_at[OF inv True] by simp
    have "store (mf_ram t) (mf_obj g s) = store (mf_ram s) (mf_obj g s)"
    proof (rule store_cong[OF ok refl refl ok])
      fix p and i :: nat assume p: "p \<in> set (obj_frames (mf_obj g s))" "i < PAGE"
      show "mf_ram t (p + word_of_nat i) = mf_ram s (p + word_of_nat i)"
        by (rule ram[OF _ _ p(2)]) (use frame_in[OF obj_in[OF inv True]] p(1) frames_apart[OF inv True h assms(4)] in auto)
    qed
    then show ?thesis using True v o by (simp add: file_of_def)
  qed (use v in \<open>simp add: file_of_def\<close>)
qed

lemma put_self: "mfs_inv s \<Longrightarrow> handle_valid h s \<Longrightarrow> mf_table t = mf_table s \<Longrightarrow> mf_valid y \<Longrightarrow> file_of h (mf_put h y t) = Some (mf_size y, store (mf_ram t) y)"
  using table_at[of s h] by (simp add: file_of_def handle_valid_def mf_obj_def)

text \<open>What an answered call does to the files: its own becomes \<open>f\<close>, the others stay.\<close>

definition only_file :: "int \<Rightarrow> (nat \<times> bytes) option \<Rightarrow> mfs \<Rightarrow> mfs \<Rightarrow> bool" where
  "only_file h f s t \<longleftrightarrow> mfs_inv t \<and> file_of h t = f \<and> (\<forall>g. g \<noteq> h \<longrightarrow> file_of g t = file_of g s)"

lemma grow_call:
  assumes inv: "mfs_inv s" and h: "handle_valid h s" and a: "answers_ok (mf_kalloc s) s"
  obtains ok x s' new where "grow_locked need (mf_obj h s) s = Some (ok, x, s')" "grow_post (set (mf_frames s)) need (mf_obj h s) s ok x s' new"
proof -
  have "\<exists>ok x s' new. grow_locked need (mf_obj h s) s = Some (ok, x, s') \<and> grow_post (set (mf_frames s)) need (mf_obj h s) s ok x s' new"
    by (rule grow_locked_some) (use table_at[OF inv h] a in \<open>auto simp: answers_ok_def\<close>)
  then show ?thesis using that by blast
qed

lemma grow_only_file:
  assumes inv: "mfs_inv s" and h: "handle_valid h s" and post: "grow_post (set (mf_frames s)) need (mf_obj h s) s ok x s' new"
    and n: "n \<le> mf_num_pages x * PAGE"
  shows "only_file h (Some (n, if ok then pad (need * PAGE) (store (mf_ram s) (mf_obj h s)) else store (mf_ram s) (mf_obj h s))) s (mf_put h (x\<lparr> mf_size := n \<rparr>) s')"
proof -
  have x: "obj_ok x" "mf_valid x" and t: "mf_table s' = mf_table s"
    using post table_at[OF inv h] by (simp_all add: grow_post_def same_file_def)
  have y: "obj_ok (x\<lparr> mf_size := n \<rparr>)" "obj_frames (x\<lparr> mf_size := n \<rparr>) = obj_frames x" using x n by (simp_all add: obj_ok_def obj_frames_def)
  have "store (mf_ram s') (x\<lparr> mf_size := n \<rparr>) = store (mf_ram s') x" by (simp add: store_def)
  then show ?thesis unfolding only_file_def
    using grow_put_inv[OF inv h post y refl refl refl] put_self[OF inv h t, of "x\<lparr> mf_size := n \<rparr>"] x(2) grow_store[OF inv h post]
      other_file[OF inv h t, of _ "x\<lparr> mf_size := n \<rparr>"] grow_ram_old[OF inv post] by simp
qed

lemma put_size: "x\<lparr> mf_size := mf_size x \<rparr> = x"
  by simp

lemma ceil_covers: "n \<le> ceil_pages n * PAGE"
  using div_mult_mod_eq[of "n + (PAGE - 1)" PAGE] mod_less_divisor[of PAGE "n + (PAGE - 1)"] unfolding ceil_pages_def by linarith

lemma truncate_some:
  assumes inv: "mfs_inv s" and a: "answers_ok (mf_kalloc s) s" and f: "file_of h s = Some (n, st)"
  shows "\<exists>r t. memfd_truncate h len s = Some (r, t) \<and>
    (r = 0 \<and> only_file h (Some (unat len, if n < unat len then pad (ceil_pages (unat len) * PAGE) st else st)) s t \<or> r = -1 \<and> only_file h (Some (n, st)) s t)"
proof -
  have h: "handle_valid h s" and n: "n = mf_size (mf_obj h s)" and st: "st = store (mf_ram s) (mf_obj h s)" using f by (auto simp: file_of_def split: if_splits)
  have o: "obj_ok (mf_obj h s)" using table_at[OF inv h] by simp
  have same: "only_file h (Some (n, st)) s s" using inv f by (simp add: only_file_def)
  consider "ceil_pages (unat len) > MEMFD_PAGES_MAX" | "ceil_pages (unat len) \<le> MEMFD_PAGES_MAX" "unat len \<le> n" | "ceil_pages (unat len) \<le> MEMFD_PAGES_MAX" "n < unat len"
    by linarith
  then show ?thesis
  proof cases
    case 1
    then show ?thesis using same by (simp add: memfd_truncate_def)
  next
    case 2
    have "unat len \<le> mf_num_pages (mf_obj h s) * PAGE" using 2(2) n o by (simp add: obj_ok_def)
    moreover have "grow_post (set (mf_frames s)) 0 (mf_obj h s) s False (mf_obj h s) s []"
      by (rule grow_post_same[OF o]) (auto intro!: exI[of _ "mf_kmalloc s"])
    ultimately have "only_file h (Some (unat len, st)) s (mf_put h ((mf_obj h s)\<lparr> mf_size := unat len \<rparr>) s)" using grow_only_file[OF inv h] st by fastforce
    then show ?thesis using 2 h n by (simp add: memfd_truncate_def)
  next
    case 3
    obtain ok x s' new where g: "grow_locked (ceil_pages (unat len)) (mf_obj h s) s = Some (ok, x, s')"
      and post: "grow_post (set (mf_frames s)) (ceil_pages (unat len)) (mf_obj h s) s ok x s' new" by (rule grow_call[OF inv h a])
    have sz: "mf_size x = n" "n \<le> mf_num_pages x * PAGE" using post n by (auto simp: grow_post_def same_file_def obj_ok_def)
    show ?thesis
    proof (cases ok)
      case True
      have "ceil_pages (unat len) \<le> mf_num_pages x" using post True by (simp add: grow_post_def)
      then have "unat len \<le> mf_num_pages x * PAGE" using ceil_covers[of "unat len"] by (meson mult_le_mono1 order_trans)
      then show ?thesis using grow_only_file[OF inv h post] 3 True g h n st by (simp add: memfd_truncate_def)
    next
      case False
      have "x\<lparr> mf_size := n \<rparr> = x" using put_size[of x] sz(1) by metis
      then have "only_file h (Some (n, st)) s (mf_put h x s')" using grow_only_file[OF inv h post sz(2)] False st by simp
      then show ?thesis using 3 False g h n by (simp add: memfd_truncate_def)
    qed
  qed
qed

text \<open>After the bytes are written, the file is patched.\<close>

lemma written_file:
  assumes inv: "mfs_inv t" and h: "handle_valid h t" and x: "x = mf_obj h t" and fit: "off + length bs \<le> mf_num_pages x * PAGE"
  shows "\<exists>m. write_loop (mf_ram t) (mf_pages x) off bs = Some m \<and> only_file h (Some (mf_size x, patch off bs (store (mf_ram t) x))) t (t\<lparr> mf_ram := m \<rparr>)"
proof -
  have o: "obj_ok x" using table_at[OF inv h] x by simp
  have num: "mf_num_pages x \<le> length (mf_pages x)" using o by (simp add: obj_ok_def)
  have sub: "set (obj_frames x) \<subseteq> set (mf_frames t)" using frame_in[OF obj_in[OF inv h]] x by simp
  have fr: "frame_ok (mf_pages x ! j)" if "j < mf_num_pages x" for j
  proof -
    have "obj_frames x ! j \<in> set (obj_frames x)" using that length_frames[OF o] by (intro nth_mem) simp
    then show ?thesis using frames_nth[OF that] sub inv unfolding mfs_inv_def by (metis subsetD)
  qed
  have "distinct (obj_frames x)" using obj_in[OF inv h] x inv by (auto simp: mfs_inv_def mf_frames_def distinct_concat_iff)
  then have d: "distinct (take (mf_num_pages x) (mf_pages x))" by (simp add: obj_frames_def)
  obtain m where w: "write_loop (mf_ram t) (mf_pages x) off bs = Some m" "written (mf_ram t) (mf_pages x) (mf_num_pages x) off bs m"
    using write_loop_some[OF num fr d fit, of "mf_ram t"] by blast
  have "store m x = patch off bs (store (mf_ram t) x)"
  proof (rule nth_equalityI)
    show "length (store m x) = length (patch off bs (store (mf_ram t) x))" using fit by (simp add: patch_def)
    fix i assume "i < length (store m x)"
    then have i: "i < mf_num_pages x * PAGE" by simp
    have e: "i div PAGE * PAGE + i mod PAGE = i" by simp
    have "i mod PAGE < PAGE" by simp
    then have "byte_at m (mf_pages x) i = (if off \<le> i \<and> i < off + length bs then bs ! (i - off) else byte_at (mf_ram t) (mf_pages x) i)"
      using w(2) page_of[OF i] unfolding written_def byte_at_def by (metis e)
    then show "store m x ! i = patch off bs (store (mf_ram t) x) ! i"
      using i fit nth_store[OF i, of m] nth_store[OF i, of "mf_ram t"] by (auto simp: patch_def nth_append)
  qed
  moreover have "mfs_inv (t\<lparr> mf_ram := m \<rparr>)" using inv by (simp add: mfs_inv_def mf_frames_def)
  moreover have "file_of g (t\<lparr> mf_ram := m \<rparr>) = file_of g t" if "g \<noteq> h" for g
  proof -
    have p: "mf_put h x (t\<lparr> mf_ram := m \<rparr>) = t\<lparr> mf_ram := m \<rparr>" using x by (simp add: mf_put_def mf_obj_def)
    have "file_of g (mf_put h x (t\<lparr> mf_ram := m \<rparr>)) = file_of g t"
    proof (rule other_file[OF inv h _ that])
      fix p and i :: nat assume "p \<in> set (mf_frames t)" "p \<notin> set (obj_frames (mf_obj h t))" "i < PAGE"
      then show "mf_ram (t\<lparr> mf_ram := m \<rparr>) (p + word_of_nat i) = mf_ram t (p + word_of_nat i)"
        using w(2) inv x unfolding written_def obj_frames_def mfs_inv_def by simp
    qed simp
    then show ?thesis using p by simp
  qed
  ultimately show ?thesis using w(1) h x unfolding only_file_def by (auto simp: file_of_def handle_valid_def mf_obj_def)
qed

lemma only_file_trans: "only_file h f s t \<Longrightarrow> only_file h f' t u \<Longrightarrow> only_file h f' s u"
  by (simp add: only_file_def)

lemma write_some:
  assumes inv: "mfs_inv s" and a: "answers_ok (mf_kalloc s) s" and f: "file_of h s = Some (n, st)" and b: "bs \<noteq> []"
  shows "\<exists>r t. memfd_write h off bs s = Some (r, t) \<and>
    (r = int (length bs) \<and> only_file h (Some (max n (unat off + length bs), patch (unat off) bs (pad (ceil_pages (unat off + length bs) * PAGE) st))) s t
     \<or> r = -1 \<and> only_file h (Some (n, st)) s t)"
proof -
  have h: "handle_valid h s" and n: "n = mf_size (mf_obj h s)" and st: "st = store (mf_ram s) (mf_obj h s)" using f by (auto simp: file_of_def split: if_splits)
  have same: "only_file h (Some (n, st)) s s" using inv f by (simp add: only_file_def)
  let ?e = "min (unat off + length bs) (2 ^ 32 - 1)" and ?l = "unat off + length bs"
  show ?thesis
  proof (cases "?e < unat off \<or> ceil_pages ?e > MEMFD_PAGES_MAX")
    case True
    then show ?thesis using same b h by (simp add: memfd_write_def Let_def)
  next
    case False
    have "ceil_pages (2 ^ 32 - 1) > MEMFD_PAGES_MAX" by (simp add: ceil_pages_def)
    then have e: "?e = ?l" using False by (cases "?l \<le> 2 ^ 32 - 1") (simp_all add: min_def)
    obtain ok x s' new where g: "grow_locked (ceil_pages ?l) (mf_obj h s) s = Some (ok, x, s')"
      and post: "grow_post (set (mf_frames s)) (ceil_pages ?l) (mf_obj h s) s ok x s' new" by (rule grow_call[OF inv h a])
    have sz: "mf_size x = n" "n \<le> mf_num_pages x * PAGE" using post n by (auto simp: grow_post_def same_file_def obj_ok_def)
    have gd: "memfd_write h off bs s = (if \<not> ok then Some (-1, mf_put h x s')
        else let o2 = x\<lparr> mf_size := max n ?l \<rparr> in map_option (\<lambda>m. (int (length bs), mf_put h o2 (s'\<lparr> mf_ram := m \<rparr>))) (write_loop (mf_ram s') (mf_pages o2) (unat off) bs))"
    proof -
      have "x\<lparr> mf_size := n \<rparr> = x" using put_size[of x] sz(1) by metis
      then have "(if ?l > mf_size x then x\<lparr> mf_size := ?l \<rparr> else x) = x\<lparr> mf_size := max n ?l \<rparr>" using sz(1) by (simp add: max_def)
      then show ?thesis using False b h g unfolding memfd_write_def Let_def e by (simp add: map_option_case split: option.splits)
    qed
    show ?thesis
    proof (cases ok)
      case False
      have "x\<lparr> mf_size := n \<rparr> = x" using put_size[of x] sz(1) by metis
      then have "only_file h (Some (n, st)) s (mf_put h x s')" using grow_only_file[OF inv h post sz(2)] False st by simp
      then show ?thesis using gd False by simp
    next
      case True
      let ?o = "x\<lparr> mf_size := max n ?l \<rparr>" and ?t = "mf_put h (x\<lparr> mf_size := max n ?l \<rparr>) s'"
      have "ceil_pages ?l \<le> mf_num_pages x" using post True by (simp add: grow_post_def)
      then have fit: "?l \<le> mf_num_pages x * PAGE" using ceil_covers[of ?l] by (meson mult_le_mono1 order_trans)
      then have of: "only_file h (Some (max n ?l, pad (ceil_pages ?l * PAGE) st)) s ?t" using grow_only_file[OF inv h post, of "max n ?l"] sz(2) True st by simp
      then have t: "mfs_inv ?t" "file_of h ?t = Some (max n ?l, pad (ceil_pages ?l * PAGE) st)" by (simp_all add: only_file_def)
      then have v: "handle_valid h ?t" by (simp add: file_of_def split: if_splits)
      have "nat (h - 1) < length (mf_table s')" using table_at[OF inv h] post by (simp add: grow_post_def)
      then have ot: "?o = mf_obj h ?t" by (simp add: mf_obj_def)
      then have "store (mf_ram s') ?o = pad (ceil_pages ?l * PAGE) st" using t(2) v by (simp add: file_of_def)
      then obtain m where m: "write_loop (mf_ram s') (mf_pages ?o) (unat off) bs = Some m"
        "only_file h (Some (max n ?l, patch (unat off) bs (pad (ceil_pages ?l * PAGE) st))) ?t (?t\<lparr> mf_ram := m \<rparr>)"
        using written_file[OF t(1) v ot, of "unat off" bs] fit by auto
      have "?t\<lparr> mf_ram := m \<rparr> = mf_put h ?o (s'\<lparr> mf_ram := m \<rparr>)" by (simp add: mf_put_def)
      then show ?thesis using gd True m only_file_trans[OF of m(2)] by (simp add: Let_def)
    qed
  qed
qed

lemma slice_upt: "n \<le> N \<Longrightarrow> slice off sz (take n (map f [0..<N])) = map f [off..<min (off + sz) n]"
  by (cases "off + sz \<le> n") (simp_all add: slice_def take_map drop_map take_upt min_def)

lemma no_pages: "mf_num_pages x = 0 \<Longrightarrow> obj_frames x = []"
  by (simp add: obj_frames_def)

lemma read_some:
  assumes inv: "mfs_inv s" and f: "file_of h s = Some (n, st)"
  shows "memfd_read h off sz s = Some (int (length (slice (unat off) (unat sz) (take n st))), slice (unat off) (unat sz) (take n st))"
proof -
  have h: "handle_valid h s" and n: "n = mf_size (mf_obj h s)" and st: "st = store (mf_ram s) (mf_obj h s)" using f by (auto simp: file_of_def split: if_splits)
  let ?x = "mf_obj h s"
  have o: "obj_ok ?x" using table_at[OF inv h] by simp
  have num: "mf_num_pages ?x \<le> length (mf_pages ?x)" "n \<le> mf_num_pages ?x * PAGE" using o n by (simp_all add: obj_ok_def)
  have nz: "mf_pages ?x ! j \<noteq> 0" if "j < mf_num_pages ?x" for j
  proof -
    have "obj_frames ?x ! j \<in> set (obj_frames ?x)" using that length_frames[OF o] by (intro nth_mem) simp
    then show ?thesis using frames_nth[OF that] frame_in[OF obj_in[OF inv h]] inv unfolding mfs_inv_def frame_ok_def by (metis subsetD)
  qed
  show ?thesis
  proof (cases "sz = 0 \<or> unat off \<ge> n")
    case True
    then show ?thesis using h n by (auto simp: memfd_read_def Let_def slice_def)
  next
    case False
    let ?k = "if unat off + unat sz < 2 ^ 32 \<and> unat off + unat sz \<le> n then unat sz else n - unat off"
    have n32: "n < 2 ^ 32" using num(2) o by (simp add: obj_ok_def)
    then have k: "unat off + ?k = min (unat off + unat sz) n" using False by (simp add: min_def)
    then have "read_loop (mf_ram s) (mf_pages ?x) (unat off) ?k = Some (map (byte_at (mf_ram s) (mf_pages ?x)) [unat off..<min (unat off + unat sz) n])"
      using read_loop_some[OF num(1) nz, of "unat off" ?k "mf_ram s"] num(2) by simp
    moreover have "map (byte_at (mf_ram s) (mf_pages ?x)) [unat off..<min (unat off + unat sz) n] = slice (unat off) (unat sz) (take n st)"
      unfolding st store_def by (rule slice_upt[OF num(2), symmetric])
    ultimately show ?thesis using False h n by (auto simp: memfd_read_def Let_def split: if_splits)
  qed
qed

section \<open>References\<close>

lemma field_put:
  assumes "mfs_inv s" "handle_valid h s" "x = (mf_obj h s)\<lparr> mf_fds := a, mf_maps := b \<rparr>"
  shows "mfs_inv (mf_put h x s)" "file_of g (mf_put h x s) = file_of g s"
proof -
  have t: "obj_ok (mf_obj h s)" "mf_valid (mf_obj h s)" using table_at[OF assms(1,2)] by simp_all
  then show "mfs_inv (mf_put h x s)" by (intro put_same_inv[OF assms(1,2)]) (simp_all add: assms(3) obj_ok_def obj_frames_def)
  show "file_of g (mf_put h x s) = file_of g s"
  proof (cases "g = h")
    case True
    then show ?thesis using put_self[OF assms(1,2) refl, of x] t(2) assms(2,3) by (simp add: file_of_def store_def)
  next
    case False
    then show ?thesis by (rule other_file[OF assms(1,2) refl]) simp
  qed
qed

lemma give_slots_some:
  "(\<And>i. i \<in> set is \<Longrightarrow> i < length ps \<and> ps ! i \<noteq> 0) \<Longrightarrow> give_slots is ps s = Some (s\<lparr> mf_gave := rev (map ((!) ps) is) @ mf_gave s \<rparr>)"
  by (induction "is" arbitrary: s) (auto simp: slot_def give_frame_def)

text \<open>An object without references goes, and its frames are given back; otherwise nothing happens.\<close>

lemma maybe_free_some:
  assumes inv: "mfs_inv s" and h: "handle_valid h s" and u: "mf_fds (mf_obj h s) = 0" "mf_maps (mf_obj h s) = 0"
  shows "\<exists>t. maybe_free_locked h s = Some t \<and> only_file h None s t \<and> mset (mf_gave t) = mset (mf_gave s) + mset (obj_frames (mf_obj h s)) \<and> mf_got t = mf_got s"
proof -
  let ?x = "mf_obj h s" and ?y = "(mf_obj h s)\<lparr> mf_pages := [], mf_pages_cap := 0, mf_num_pages := 0, mf_size := 0, mf_name := [], mf_flags := 0, mf_valid := False \<rparr>"
  have k: "nat (h - 1) < length (mf_table s)" and o: "obj_ok ?x" and v: "mf_valid ?x" using table_at[OF inv h] by simp_all
  have len: "mf_num_pages ?x \<le> length (mf_pages ?x)" using o by (simp add: obj_ok_def)
  have fs: "map ((!) (mf_pages ?x)) [0..<mf_num_pages ?x] = obj_frames ?x" using len by (intro nth_equalityI) (auto simp: obj_frames_def)
  have sub: "set (obj_frames ?x) \<subseteq> set (mf_frames s)" by (rule frame_in[OF obj_in[OF inv h]])
  have nz: "mf_pages ?x ! i \<noteq> 0" if "i < mf_num_pages ?x" for i
  proof -
    have "obj_frames ?x ! i \<in> set (obj_frames ?x)" using that length_frames[OF o] by (intro nth_mem) simp
    then show ?thesis using frames_nth[OF that] sub inv unfolding mfs_inv_def frame_ok_def by (metis subsetD)
  qed
  let ?s = "s\<lparr> mf_gave := rev (obj_frames ?x) @ mf_gave s \<rparr>"
  have "give_slots [0..<mf_num_pages ?x] (mf_pages ?x) s = Some ?s"
    using give_slots_some[of "[0..<mf_num_pages ?x]" "mf_pages ?x" s] nz len fs by simp
  then have m: "maybe_free_locked h s = Some (mf_put h ?y ?s)" using v u by (simp add: maybe_free_locked_def Let_def)
  have "mset (mf_frames (mf_put h ?y ?s)) + mset (obj_frames ?x) = mset (mf_frames s)"
    using frames_put[OF k, of ?y] by (simp add: mf_frames_def mf_obj_def no_pages)
  then have fr: "mset (mf_frames (mf_put h ?y ?s) @ obj_frames ?x) = mset (mf_frames s)" by simp
  have "distinct (mf_frames (mf_put h ?y ?s))" using mset_eq_imp_distinct_iff[OF fr] inv by (simp add: mfs_inv_def)
  moreover have "set (mf_frames (mf_put h ?y ?s)) \<subseteq> set (mf_frames s)" using mset_eq_setD[OF fr] by auto
  moreover have "obj_ok z" if "z \<in> set ((mf_table s)[nat (h - 1) := ?y])" for z
    using set_update_subset_insert[of "mf_table s" "nat (h - 1)" ?y] that inv u by (auto simp: mfs_inv_def obj_ok_def)
  moreover have "mset (mf_got s) = mset (mf_gave ?s) + mset (mf_frames (mf_put h ?y ?s))" using inv fr[symmetric] by (simp add: mfs_inv_def)
  ultimately have i: "mfs_inv (mf_put h ?y ?s)" using inv unfolding mfs_inv_def by auto
  have "file_of h (mf_put h ?y ?s) = None" using k by (simp add: file_of_def handle_valid_def)
  moreover have "file_of g (mf_put h ?y ?s) = file_of g s" if "g \<noteq> h" for g by (rule other_file[OF inv h _ that]) simp_all
  ultimately show ?thesis using m i by (simp add: only_file_def)
qed

lemma maybe_keep: "mf_fds (mf_obj h s) \<noteq> 0 \<or> mf_maps (mf_obj h s) \<noteq> 0 \<Longrightarrow> maybe_free_locked h s = Some s"
  by (auto simp: maybe_free_locked_def Let_def)

text \<open>Both calls that drop a reference: \<open>a\<close> and \<open>b\<close> are the counts they leave.\<close>

definition dropped :: "int \<Rightarrow> nat \<Rightarrow> nat \<Rightarrow> mfs \<Rightarrow> mfs \<Rightarrow> bool" where
  "dropped h a b s t \<longleftrightarrow> mf_got t = mf_got s \<and>
     (if a = 0 \<and> b = 0 then only_file h None s t \<and> mset (mf_gave t) = mset (mf_gave s) + mset (obj_frames (mf_obj h s))
      else only_file h (file_of h s) s t \<and> mf_gave t = mf_gave s \<and> mf_fds (mf_obj h t) = a \<and> mf_maps (mf_obj h t) = b)"

lemma drop_some:
  assumes inv: "mfs_inv s" and h: "handle_valid h s" and x: "x = (mf_obj h s)\<lparr> mf_fds := a, mf_maps := b \<rparr>"
  shows "\<exists>t. maybe_free_locked h (mf_put h x s) = Some t \<and> dropped h a b s t"
proof -
  have k: "nat (h - 1) < length (mf_table s)" and v: "mf_valid (mf_obj h s)" using table_at[OF inv h] by simp_all
  note p = field_put[OF inv h x]
  have ob: "mf_obj h (mf_put h x s) = x" using k by (simp add: mf_obj_def)
  have vp: "handle_valid h (mf_put h x s)" using h k v x by (simp add: handle_valid_def)
  show ?thesis
  proof (cases "a = 0 \<and> b = 0")
    case True
    have fx: "obj_frames x = obj_frames (mf_obj h s)" using x by (simp add: obj_frames_def)
    obtain t where t: "maybe_free_locked h (mf_put h x s) = Some t" "only_file h None (mf_put h x s) t"
      "mset (mf_gave t) = mset (mf_gave s) + mset (obj_frames (mf_obj h s))" "mf_got t = mf_got s"
      using maybe_free_some[OF p(1) vp] True x ob fx by auto
    then show ?thesis using True p(2) by (simp add: dropped_def only_file_def)
  next
    case False
    then have "maybe_free_locked h (mf_put h x s) = Some (mf_put h x s)" by (intro maybe_keep) (use ob x in auto)
    then show ?thesis using False p ob x by (auto simp: dropped_def only_file_def)
  qed
qed

section \<open>Reachable tables\<close>

definition feed :: "u32 list \<Rightarrow> bool list \<Rightarrow> mfs \<Rightarrow> mfs" where
  "feed ks hs s = s\<lparr> mf_kalloc := ks, mf_kmalloc := hs \<rparr>"

text \<open>
  Every sequence of calls. Before a call that allocates, the answers it will get are fixed; memory may
  change at any time, since mapped frames are written by programs.
\<close>

inductive mf_reach :: "mfs \<Rightarrow> bool" where
  mr_boot: "mf_reach (memfd_boot m)"
| mr_ram: "mf_reach s \<Longrightarrow> mf_reach (s\<lparr> mf_ram := m \<rparr>)"
| mr_create: "mf_reach s \<Longrightarrow> mf_reach (snd (memfd_create name flags s))"
| mr_ref: "mf_reach s \<Longrightarrow> mf_reach (snd (memfd_ref h s))"
| mr_close: "mf_reach s \<Longrightarrow> memfd_close h s = Some (r, t) \<Longrightarrow> mf_reach t"
| mr_map_inc: "mf_reach s \<Longrightarrow> mf_reach (snd (memfd_map_inc h s))"
| mr_map_dec: "mf_reach s \<Longrightarrow> memfd_map_dec h s = Some (r, t) \<Longrightarrow> mf_reach t"
| mr_grow: "mf_reach s \<Longrightarrow> answers_ok ks s \<Longrightarrow> memfd_grow_to h e (feed ks hs s) = Some (r, t) \<Longrightarrow> mf_reach t"
| mr_write: "mf_reach s \<Longrightarrow> answers_ok ks s \<Longrightarrow> memfd_write h off bs (feed ks hs s) = Some (r, t) \<Longrightarrow> mf_reach t"
| mr_truncate: "mf_reach s \<Longrightarrow> answers_ok ks s \<Longrightarrow> memfd_truncate h len (feed ks hs s) = Some (r, t) \<Longrightarrow> mf_reach t"

lemma feed_simps [simp]: "mfs_inv (feed ks hs s) = mfs_inv s" "file_of h (feed ks hs s) = file_of h s" "handle_valid h (feed ks hs s) = handle_valid h s"
  "mf_kalloc (feed ks hs s) = ks" "answers_ok ks' (feed ks hs s) = answers_ok ks' s" "only_file h f (feed ks hs s) t = only_file h f s t"
  by (simp_all add: feed_def mfs_inv_def mf_frames_def file_of_def handle_valid_def mf_obj_def answers_ok_def only_file_def)

lemma free_slot_some: "free_slot xs = Some k \<Longrightarrow> k < length xs \<and> \<not> mf_valid (xs ! k)"
  by (induction xs arbitrary: k) (auto split: if_splits)

lemma mf_create_inv:
  assumes inv: "mfs_inv s"
  shows "mfs_inv (snd (memfd_create name flags s))"
proof (cases "free_slot (mf_table s)")
  case (Some k)
  then have k: "k < length (mf_table s)" "\<not> mf_valid (mf_table s ! k)" using free_slot_some by auto
  let ?y = "(mf_table s ! k)\<lparr> mf_name := take (MEMFD_NAME_MAX - 1) name, mf_size := 0, mf_num_pages := 0, mf_pages_cap := 0, mf_flags := flags, mf_fds := 0, mf_maps := 0, mf_valid := True \<rparr>"
  have o: "obj_ok (mf_table s ! k)" using inv k(1) by (simp add: mfs_inv_def)
  then have y: "obj_ok ?y" "obj_frames (mf_table s ! k) = []" "obj_frames ?y = []" using k(2) by (simp_all add: obj_ok_def no_pages)
  have e: "snd (memfd_create name flags s) = mf_put (int k + 1) ?y s" using Some by (simp add: memfd_create_def)
  have m: "mset (mf_frames (mf_put (int k + 1) ?y s)) = mset (mf_frames s)" using frames_put[OF k(1), of ?y] y(2,3) by (simp add: mf_frames_def)
  have "obj_ok z" if "z \<in> set ((mf_table s)[k := ?y])" for z using set_update_subset_insert[of "mf_table s" k ?y] that inv y(1) by (auto simp: mfs_inv_def)
  then show ?thesis using inv m mset_eq_imp_distinct_iff[OF m] mset_eq_setD[OF m] unfolding e mfs_inv_def by simp
qed (use inv in \<open>simp add: memfd_create_def\<close>)

lemma grow_to_some:
  assumes inv: "mfs_inv s" and a: "answers_ok (mf_kalloc s) s" and h: "handle_valid h s"
  shows "\<exists>r t. memfd_grow_to h e s = Some (r, t) \<and> mfs_inv t"
proof -
  obtain ok x s' new where g: "grow_locked (ceil_pages (unat e)) (mf_obj h s) s = Some (ok, x, s')"
    and post: "grow_post (set (mf_frames s)) (ceil_pages (unat e)) (mf_obj h s) s ok x s' new" by (rule grow_call[OF inv h a])
  have sz: "mf_size x \<le> mf_num_pages x * PAGE" using post by (simp add: grow_post_def obj_ok_def)
  have "mfs_inv (mf_put h (x\<lparr> mf_size := n \<rparr>) s')" if "n \<le> mf_num_pages x * PAGE" for n
    using grow_only_file[OF inv h post that] by (simp add: only_file_def)
  note p = this
  have "mfs_inv (mf_put h x s')" using p[OF sz] by simp
  moreover have "mfs_inv (mf_put h (x\<lparr> mf_size := unat e \<rparr>) s')" if ok
  proof (rule p)
    have "ceil_pages (unat e) \<le> mf_num_pages x" using post that by (simp add: grow_post_def)
    then show "unat e \<le> mf_num_pages x * PAGE" using ceil_covers[of "unat e"] by (meson mult_le_mono1 order_trans)
  qed
  ultimately show ?thesis using g h by (simp add: memfd_grow_to_def)
qed

lemma one_count:
  "(mf_obj h s)\<lparr> mf_fds := a \<rparr> = (mf_obj h s)\<lparr> mf_fds := a, mf_maps := mf_maps (mf_obj h s) \<rparr>"
  "(mf_obj h s)\<lparr> mf_maps := a \<rparr> = (mf_obj h s)\<lparr> mf_fds := mf_fds (mf_obj h s), mf_maps := a \<rparr>"
  by simp_all

lemma close_some:
  assumes inv: "mfs_inv s" and h: "handle_valid h s"
  shows "\<exists>t. memfd_close h s = Some (0, t) \<and> dropped h (mf_fds (mf_obj h s) - 1) (mf_maps (mf_obj h s)) s t"
    "\<exists>t. memfd_map_dec h s = Some (0, t) \<and> dropped h (mf_fds (mf_obj h s)) (mf_maps (mf_obj h s) - 1) s t"
proof -
  show "\<exists>t. memfd_close h s = Some (0, t) \<and> dropped h (mf_fds (mf_obj h s) - 1) (mf_maps (mf_obj h s)) s t"
    using drop_some[OF inv h one_count(1)] h by (auto simp: memfd_close_def)
  show "\<exists>t. memfd_map_dec h s = Some (0, t) \<and> dropped h (mf_fds (mf_obj h s)) (mf_maps (mf_obj h s) - 1) s t"
    using drop_some[OF inv h one_count(2)] h by (auto simp: memfd_map_dec_def)
qed

lemma dropped_inv: "dropped h a b s t \<Longrightarrow> mfs_inv t"
  by (simp add: dropped_def only_file_def split: if_splits)

lemma ref_inv:
  assumes "mfs_inv s"
  shows "mfs_inv (snd (memfd_ref h s))" "mfs_inv (snd (memfd_map_inc h s))"
  using field_put(1)[OF assms _ one_count(1)] field_put(1)[OF assms _ one_count(2)] assms
  by (simp_all add: memfd_ref_def memfd_map_inc_def)

lemma boot_frames: "mf_frames (memfd_boot m) = []"
  by (simp add: mf_frames_def memfd_boot_def MEMFD_EMPTY_def obj_frames_def)

lemma mf_boot_inv: "mfs_inv (memfd_boot m)"
proof -
  have "\<forall>x \<in> set (mf_table (memfd_boot m)). obj_ok x" "length (mf_table (memfd_boot m)) = MEMFD_MAX" "mf_got (memfd_boot m) = []" "mf_gave (memfd_boot m) = []"
    unfolding memfd_boot_def by (auto simp: obj_ok_def MEMFD_EMPTY_def in_set_replicate simp del: replicate.simps)
  then show ?thesis unfolding mfs_inv_def boot_frames by simp
qed

lemma mf_call_inv:
  assumes inv: "mfs_inv s"
  shows "memfd_close h s = Some (r, t) \<Longrightarrow> mfs_inv t" "memfd_map_dec h s = Some (r, t) \<Longrightarrow> mfs_inv t"
    "answers_ok (mf_kalloc s) s \<Longrightarrow> memfd_grow_to h e s = Some (r, t) \<Longrightarrow> mfs_inv t"
    "answers_ok (mf_kalloc s) s \<Longrightarrow> memfd_write h off bs s = Some (r, t) \<Longrightarrow> mfs_inv t"
    "answers_ok (mf_kalloc s) s \<Longrightarrow> memfd_truncate h e s = Some (r, t) \<Longrightarrow> mfs_inv t"
proof -
  have f: "\<exists>n st. file_of h s = Some (n, st)" if "handle_valid h s" using that by (simp add: file_of_def)
  show "mfs_inv t" if "memfd_close h s = Some (r, t)"
    using close_some(1)[OF inv, of h] dropped_inv that inv by (cases "handle_valid h s") (auto simp: memfd_close_def[of h s])
  show "mfs_inv t" if "memfd_map_dec h s = Some (r, t)"
    using close_some(2)[OF inv, of h] dropped_inv that inv by (cases "handle_valid h s") (auto simp: memfd_map_dec_def[of h s])
  show "mfs_inv t" if "answers_ok (mf_kalloc s) s" "memfd_grow_to h e s = Some (r, t)"
    using grow_to_some[OF inv that(1), of h e] that(2) inv by (cases "handle_valid h s") (auto simp: memfd_grow_to_def[of h e s])
  show "mfs_inv t" if "answers_ok (mf_kalloc s) s" "memfd_write h off bs s = Some (r, t)"
  proof (cases "bs = [] \<or> \<not> handle_valid h s")
    case True
    then show ?thesis using that(2) inv by (auto simp: memfd_write_def split: if_splits)
  next
    case False
    then obtain n st where "file_of h s = Some (n, st)" using f by blast
    then show ?thesis using write_some[OF inv that(1), of h n st bs off] False that(2) by (auto simp: only_file_def)
  qed
  show "mfs_inv t" if "answers_ok (mf_kalloc s) s" "memfd_truncate h e s = Some (r, t)"
  proof (cases "handle_valid h s")
    case True
    then obtain n st where "file_of h s = Some (n, st)" using f by blast
    then show ?thesis using truncate_some[OF inv that(1), of h n st e] that(2) by (auto simp: only_file_def)
  qed (use that(2) inv in \<open>auto simp: memfd_truncate_def split: if_splits\<close>)
qed

lemma mf_reach_inv: "mf_reach s \<Longrightarrow> mfs_inv s"
proof (induction rule: mf_reach.induct)
  case (mr_boot m)
  show ?case by (rule mf_boot_inv)
next
  case (mr_ram s m)
  then show ?case by (simp add: mfs_inv_def mf_frames_def)
next
  case (mr_grow s ks h e hs r t)
  then show ?case using mf_call_inv(3)[of "feed ks hs s"] by simp
next
  case (mr_write s ks h off bs hs r t)
  then show ?case using mf_call_inv(4)[of "feed ks hs s"] by simp
next
  case (mr_truncate s ks h len hs r t)
  then show ?case using mf_call_inv(5)[of "feed ks hs s"] by simp
qed (blast intro: mf_create_inv ref_inv mf_call_inv)+

section \<open>Properties\<close>

text \<open>
  C8: A memory file is an array of bytes. For every file of every reachable table and whatever the allocators
  answer (the frame allocator: null or distinct frames that are not in use): a read returns the bytes of the range that lie below the size; a write of at least one byte either replaces exactly its range, after zeros
  up to the last page it needs, and raises the size to its end, or returns -1 and changes nothing; a
  truncation sets the size and adds zero pages when it grows, or returns -1 and changes nothing. No call
  touches another file, and none follows a pointer outside the object's frames.
\<close>

theorem memfd_byte_array:
  assumes "mf_reach s" "answers_ok ks s" "file_of h s = Some (n, st)" "bs \<noteq> []"
  shows "memfd_read h off sz s = Some (int (length (slice (unat off) (unat sz) (take n st))), slice (unat off) (unat sz) (take n st)) \<and>
    (\<exists>r t. memfd_write h off bs (feed ks hs s) = Some (r, t) \<and>
       (r = int (length bs) \<and> file_of h t = Some (max n (unat off + length bs), patch (unat off) bs (pad (ceil_pages (unat off + length bs) * PAGE) st))
        \<or> r = -1 \<and> file_of h t = Some (n, st)) \<and> (\<forall>g. g \<noteq> h \<longrightarrow> file_of g t = file_of g s)) \<and>
    (\<exists>r t. memfd_truncate h len (feed ks hs s) = Some (r, t) \<and>
       (r = 0 \<and> file_of h t = Some (unat len, if n < unat len then pad (ceil_pages (unat len) * PAGE) st else st)
        \<or> r = -1 \<and> file_of h t = Some (n, st)) \<and> (\<forall>g. g \<noteq> h \<longrightarrow> file_of g t = file_of g s))"
proof (intro conjI)
  have inv: "mfs_inv s" using assms(1) by (rule mf_reach_inv)
  then have i: "mfs_inv (feed ks hs s)" "answers_ok (mf_kalloc (feed ks hs s)) (feed ks hs s)" "file_of h (feed ks hs s) = Some (n, st)" using assms by simp_all
  show "memfd_read h off sz s = Some (int (length (slice (unat off) (unat sz) (take n st))), slice (unat off) (unat sz) (take n st))"
    by (rule read_some[OF inv assms(3)])
  show "\<exists>r t. memfd_write h off bs (feed ks hs s) = Some (r, t) \<and>
       (r = int (length bs) \<and> file_of h t = Some (max n (unat off + length bs), patch (unat off) bs (pad (ceil_pages (unat off + length bs) * PAGE) st))
        \<or> r = -1 \<and> file_of h t = Some (n, st)) \<and> (\<forall>g. g \<noteq> h \<longrightarrow> file_of g t = file_of g s)"
    using write_some[OF i assms(4), of off] unfolding feed_simps only_file_def by blast
  show "\<exists>r t. memfd_truncate h len (feed ks hs s) = Some (r, t) \<and>
       (r = 0 \<and> file_of h t = Some (unat len, if n < unat len then pad (ceil_pages (unat len) * PAGE) st else st)
        \<or> r = -1 \<and> file_of h t = Some (n, st)) \<and> (\<forall>g. g \<noteq> h \<longrightarrow> file_of g t = file_of g s)"
    using truncate_some[OF i, of len] unfolding feed_simps only_file_def by blast
qed

definition mf_example :: mfs where
  "mf_example = snd (memfd_ref 1 (snd (memfd_create [] 0 (memfd_boot (\<lambda>_. 0)))))"

lemma mf_example_reach: "mf_reach mf_example"
  unfolding mf_example_def by (intro mr_ref mr_create mr_boot)

lemma mf_example_file: "file_of 1 mf_example = Some (0, [])" "handle_valid 1 mf_example" "mf_fds (mf_obj 1 mf_example) = 1" "mf_maps (mf_obj 1 mf_example) = 0"
  by code_simp+

lemma mf_example_answers: "answers_ok [0x21000000] mf_example"
  by code_simp

lemma mf_example_obj: "mf_num_pages (mf_obj 1 mf_example) = 0" "mf_pages_cap (mf_obj 1 mf_example) = 0" "mf_pages (mf_obj 1 mf_example) = []"
  by code_simp+

lemma mf_example_grow: "\<exists>x s'. grow_locked 1 (mf_obj 1 mf_example) (feed [0x21000000] [True] mf_example) = Some (True, x, s')"
proof -
  have "grow_cap MEMFD_PAGES_INITIAL 1 = MEMFD_PAGES_INITIAL" by (simp add: grow_cap.simps)
  then show ?thesis
    by (simp add: grow_locked_def ensure_capacity_locked_def mf_example_obj kmalloc_next_def kalloc_next_def feed_def slot_def Let_def One_nat_def[symmetric] del: One_nat_def)
       (simp add: slot_def kalloc_next_def)
qed

lemma mf_example_write: "memfd_write 1 2 [7, 8] (feed [0x21000000] [True] mf_example) = Some (r, t) \<Longrightarrow> r = 2"
proof -
  assume w: "memfd_write 1 2 [7, 8] (feed [0x21000000] [True] mf_example) = Some (r, t)"
  obtain x s' where g: "grow_locked 1 (mf_obj 1 mf_example) (feed [0x21000000] [True] mf_example) = Some (True, x, s')" using mf_example_grow by blast
  have "mf_obj 1 (feed [0x21000000] [True] mf_example) = mf_obj 1 mf_example" by (simp add: feed_def mf_obj_def)
  moreover have "ceil_pages 4 = 1" by (simp add: ceil_pages_def)
  ultimately show "r = 2" using w g mf_example_file(2) by (auto simp: memfd_write_def Let_def split: bind_splits)
qed

theorem memfd_byte_array_witness:
  "\<exists>t. memfd_write 1 2 [7, 8] (feed [0x21000000] [True] mf_example) = Some (2, t) \<and> file_of 1 t = Some (4, patch 2 [7, 8] (pad PAGE []))"
proof -
  obtain r t where w: "memfd_write 1 2 [7, 8] (feed [0x21000000] [True] mf_example) = Some (r, t)"
    "r = 2 \<and> file_of 1 t = Some (4, patch 2 [7, 8] (pad PAGE [])) \<or> r = -1"
    using memfd_byte_array[OF mf_example_reach mf_example_answers mf_example_file(1), of "[7, 8]" 2 0 "[True]" 0] by (auto simp: ceil_pages_def)
  then show ?thesis using mf_example_write[OF w(1)] by auto
qed

text \<open>
  C15: Memory files neither leak nor share frames. In every reachable table the frames received from the
  allocator are exactly those given back and those of the live objects, each counted once, and no
  frame is in two objects. Dropping a descriptor or a mapping of an object never fails; with the last of both the
  object ends and all its frames are given back at once, and before that it keeps its bytes. Other objects are not
  touched.
\<close>

theorem memfd_frames_exact:
  assumes "mf_reach s" "handle_valid h s"
  shows "mset (mf_got s) = mset (mf_gave s) + mset (mf_frames s) \<and> distinct (mf_frames s) \<and>
    (\<exists>t. memfd_close h s = Some (0, t) \<and> dropped h (mf_fds (mf_obj h s) - 1) (mf_maps (mf_obj h s)) s t) \<and>
    (\<exists>t. memfd_map_dec h s = Some (0, t) \<and> dropped h (mf_fds (mf_obj h s)) (mf_maps (mf_obj h s) - 1) s t)"
proof -
  have inv: "mfs_inv s" using assms(1) by (rule mf_reach_inv)
  then show ?thesis using close_some[OF inv assms(2)] by (simp add: mfs_inv_def)
qed

theorem memfd_frames_exact_witness:
  "mf_fds (mf_obj 1 mf_example) = 1 \<and> (\<exists>t. memfd_close 1 mf_example = Some (0, t) \<and> file_of 1 t = None)"
  using memfd_frames_exact[OF mf_example_reach mf_example_file(2)] mf_example_file(3,4) by (auto simp: dropped_def only_file_def)

text \<open>
  The allocator of \<open>Pmm\<close> keeps the promise the theorems rely on: while every frame of a memory file is
  held, and reclaim leaves it held, an answer of \<open>kalloc\<close> is a fresh frame or null.
\<close>

lemma kalloc_answers_ok:
  assumes reach: "pmm_reach p held" and rel: "releasable (concat (take MAX_RECLAIM_ROUNDS rs)) held" and m: "pm_mmap p \<noteq> []"
    and own: "\<And>k f. f \<in> set (mf_frames s) \<Longrightarrow> 0 < release (concat (take k (take MAX_RECLAIM_ROUNDS rs))) held (addr_to_page (unat f))"
  shows "answers_ok [word_of_nat (fst (kalloc rs p))] s"
proof -
  obtain k where post: "alloc_post p (release (concat (take k (take MAX_RECLAIM_ROUNDS rs))) held) (kalloc rs p)"
    using rounds_post[OF reach rel] unfolding kalloc_def by blast
  let ?a = "fst (kalloc rs p)" and ?h = "release (concat (take k (take MAX_RECLAIM_ROUNDS rs))) held"
  show ?thesis
  proof (cases "?a = 0")
    case True
    then show ?thesis by (simp add: answers_ok_def)
  next
    case False
    then have a: "?a mod PAGE = 0" "?h (addr_to_page ?a) = 0" "?a < 0x80000000" using post m by (auto simp: alloc_post_def split: prod.splits)
    then have u: "unat (word_of_nat ?a :: u32) = ?a" by (intro unat_of_nat32) simp
    then have "frame_ok (word_of_nat ?a)" using a(1) False by (auto simp: frame_ok_def)
    moreover have "word_of_nat ?a \<notin> set (mf_frames s)" using own[of "word_of_nat ?a" k] u a(2) by auto
    ultimately show ?thesis by (simp add: answers_ok_def)
  qed
qed

section \<open>Where the code departs from its comments\<close>

text \<open>Truncating to nothing and back brings the old bytes back instead of zeros.\<close>

lemma truncated_bytes_return:
  assumes "mfs_inv s" "handle_valid h s" and pos: "0 < mf_size (mf_obj h s)"
  shows "\<exists>t. memfd_truncate h 0 s = Some (0, t) \<and> memfd_size h t = 0 \<and>
    memfd_truncate h (word_of_nat (mf_size (mf_obj h s))) t = Some (0, s)"
proof -
  let ?x = "mf_obj h s" and ?t = "mf_put h ((mf_obj h s)\<lparr> mf_size := 0 \<rparr>) s"
  have k: "nat (h - 1) < length (mf_table s)" and o: "obj_ok ?x" and v: "mf_valid ?x" using table_at[OF assms(1,2)] by simp_all
  have n: "mf_size ?x \<le> mf_num_pages ?x * PAGE" "mf_num_pages ?x \<le> MEMFD_PAGES_MAX" using o by (simp_all add: obj_ok_def)
  then have u: "unat (word_of_nat (mf_size ?x) :: u32) = mf_size ?x" by (intro unat_of_nat32) simp
  have c: "ceil_pages (mf_size ?x) \<le> mf_num_pages ?x"
    using n(1) less_mult_imp_div_less[of "mf_size ?x + (PAGE - 1)" "mf_num_pages ?x + 1" PAGE] unfolding ceil_pages_def by simp
  have ob: "mf_obj h ?t = ?x\<lparr> mf_size := 0 \<rparr>" "handle_valid h ?t" using k v assms(2) by (simp_all add: mf_obj_def handle_valid_def)
  have orig: "mf_put h (?x\<lparr> mf_size := mf_size ?x \<rparr>) ?t = s" by (simp add: mf_put_def mf_obj_def)
  have z: "memfd_truncate h 0 s = Some (0, ?t)" using assms(2) by (simp add: memfd_truncate_def ceil_pages_def)
  have "memfd_truncate h (word_of_nat (mf_size ?x)) ?t = Some (0, s)"
    using c n(2) u ob orig pos by (auto simp: memfd_truncate_def grow_locked_def)
  then show ?thesis using z ob by (auto simp: memfd_size_def)
qed

text \<open>A node opened twice and closed twice leaves one descriptor reference behind: the object is never freed.\<close>

lemma reopened_node_leaks:
  assumes "handle_valid h s" "length (mf_table s) = MEMFD_MAX" "mn_ops n" "mn_priv n = h" "mn_refcount n = 0" "mf_fds (mf_obj h s) = 0" "1 \<le> h"
  shows "\<exists>n1 n2 s2 t. memfd_node_open n s = (n1, snd (memfd_ref h s)) \<and> memfd_node_open n1 (snd (memfd_ref h s)) = (n2, s2) \<and>
    do { (n3, s3) \<leftarrow> memfd_node_close n2 s2; n4 \<leftarrow> n3; memfd_node_close n4 s3 } = Some (None, t) \<and> mf_fds (mf_obj h t) = 1 \<and> handle_valid h t"
proof -
  have k: "nat (h - 1) < length (mf_table s)" using assms(1,2) by (auto simp: handle_valid_def)
  let ?x = "mf_obj h s"
  have r: "memfd_ref h s = (h, mf_put h (?x\<lparr> mf_fds := 1 \<rparr>) s)" using assms(1,6) by (simp add: memfd_ref_def)
  have r2: "memfd_ref h (mf_put h (?x\<lparr> mf_fds := 1 \<rparr>) s) = (h, mf_put h (?x\<lparr> mf_fds := 2 \<rparr>) s)"
    using k assms(1) by (simp add: memfd_ref_def handle_valid_def mf_obj_def mf_put_def numeral_2_eq_2)
  have c: "memfd_close h (mf_put h (?x\<lparr> mf_fds := 2 \<rparr>) s) = Some (0, mf_put h (?x\<lparr> mf_fds := 1 \<rparr>) s)"
    using k assms(1) by (simp add: memfd_close_def handle_valid_def mf_obj_def mf_put_def maybe_free_locked_def)
  have v: "handle_valid h (mf_put h (?x\<lparr> mf_fds := 1 \<rparr>) s)" "mf_fds (mf_obj h (mf_put h (?x\<lparr> mf_fds := 1 \<rparr>) s)) = 1"
    using k assms(1) by (simp_all add: handle_valid_def mf_obj_def)
  show ?thesis using assms(3,4,5,7) r r2 c v by (simp add: memfd_node_open_def memfd_node_close_def node_handle_def Let_def)
qed

text \<open>When the node of a new object cannot be allocated, the object stays in the table without a reference.\<close>

lemma failed_node_leaks:
  assumes "free_slot (mf_table s) = Some k" "length (mf_table s) = MEMFD_MAX"
  shows "fst (memfd_create_vnode False name flags s) = None \<and> handle_valid (int k + 1) (snd (memfd_create_vnode False name flags s)) \<and>
    mf_fds (mf_obj (int k + 1) (snd (memfd_create_vnode False name flags s))) = 0"
  using assms free_slot_some[OF assms(1)]
  by (simp add: memfd_create_vnode_def memfd_create_def memfd_vnode_from_handle_def handle_valid_def mf_obj_def)


end
