(* ===== verification/Spec2Isabelle.thy ===== *)
theory Spec2Isabelle
  imports Prelude Fifo Links Heap Usermem Kstring Kprintf Eventfd Timerfd Mqueue Pty Tty Devfs Blkdev Part Pagecache
    Pagecache_Conc Unixsock Unixsock_Inv Unixsock_Ops Unixsock_Reach Unixsock_Props Elf Elf_Props Tmpfs Tmpfs_Props
    Pmm Memfd Memfd_Props
begin

text \<open>
  CactKernel-x86\_32: models and correctness of the C parts of the kernel.

  \<^bold>\<open>The program.\<close> CactKernel is a 32-bit x86 kernel. Its C code (under \<open>Cact/\<close>) holds the drivers, the file
  systems other than the VFS core, the character devices and sockets, the string library and the
  loading of programs; the VFS core, the memory manager, the scheduler, the locks and the network stack
  are Rust crates that the C code calls. A system call checks the user's pointers (\<open>validate.c\<close>), then
  reaches a node of the VFS: an event counter, timer, message queue, terminal, local socket, a device
  under \<open>/dev\<close> or a file of tmpfs. Block nodes reach a disk through the page cache and the table of
  block devices, which the partition layer fills from the labels it finds on the disks. \<open>exec\<close> maps a
  program with the ELF loader.

  \<^bold>\<open>Conventions.\<close> A \<open>uint32_t\<close> that can wrap is a 32-bit word; an index that the code keeps below a
  constant is a \<open>nat\<close>; results of calls are \<open>int\<close>s with negated error numbers; buffers are lists of bytes and
  user memory is a function from addresses to bytes. Objects that the code allocates and frees live under
  their addresses, so that a use after free or a double free is visible: such a call has the outcome
  \<open>None\<close>, or sets the fault flag of the state. Answers of \<open>kmalloc\<close>, of the Rust crates and of hardware
  callbacks are arguments. A critical section is one step; a call that sleeps is a sequence of rounds
  between which other tasks run (\<open>run_blocking\<close> in \<open>Prelude\<close>).

  \<^bold>\<open>Shared theories.\<close> \<open>Prelude\<close>: machine types, error numbers, little-endian reads, blocking loops, ring
  arithmetic. \<open>Fifo\<close>: the contract of a byte queue as a locale, with what follows for any interleaving of
  puts and gets; it is interpreted on the rings of \<open>Pty\<close>, \<open>Tty\<close> and \<open>Unixsock\<close>. \<open>Links\<close>: lists made of
  pointers, for the page cache and the queues of listeners. \<open>Heap\<close>: finite heaps and totals over
  them, for message queues and tmpfs.

  \<^bold>\<open>Components.\<close>

  \<^item> \<open>Usermem\<close> (\<open>core/syscall/validate.c\<close>): range checks and copies between kernel and user memory. The copies
    touch user space only, and paths are read exactly.

  \<^item> \<open>Kstring\<close>, \<open>Kprintf\<close> (\<open>core/klib.c\<close>): string routines on a memory with aliasing, \<open>vsnprintf\<close> with all
    its conversions. No write leaves the buffer, and integers survive printing and reading. The output buffer
    does not overlap string arguments.

  \<^item> \<open>Eventfd\<close>, \<open>Timerfd\<close> (\<open>fs/eventfd\<close>, \<open>fs/timerfd\<close>): 64-bit counters and timers on 32-bit ticks, with sleeping
    readers. Nothing is lost or invented, expiries are counted exactly, and a write wakes a reader.

  \<^item> \<open>Mqueue\<close> (\<open>fs/mqueue\<close>): message lists by priority, a byte budget for all queues, reference-counted
    nodes. Order of delivery, the budget as an exact sum, and no use of a freed node.

  \<^item> \<open>Pty\<close>, \<open>Tty\<close> (\<open>fs/pty\<close>, \<open>drivers/tty\<close>): pseudo-terminals as two byte rings, virtual terminals with a line
    discipline refined to a specification on lists, scrollback and switching.

  \<^item> \<open>Devfs\<close> (\<open>fs/vfs/devfs\<close>): the tree under \<open>/dev\<close> with groups and links on a heap; it stays a tree of live
    entries, and registration and lookup agree.

  \<^item> \<open>Blkdev\<close>, \<open>Part\<close> (\<open>drivers/block/blkdev\<close>, \<open>fs/vfs/vfsdev\<close>): the table of disks and partitions, sector
    access, byte access to block nodes, MBR and GPT labels. A node is an array of bytes, access stays
    inside a partition, a scan exposes what the label says. The walk to the parent of a partition is one
    step deep, because a partition's parent is a disk; this is part of the table's invariant.

  \<^item> \<open>Pagecache\<close>, \<open>Pagecache_Conc\<close> (\<open>drivers/block/pagecache\<close>): 256 descriptors on hash chains and a use
    list by pointers. The loops follow pointers and have a bound of one more than the number of
    descriptors; in a consistent cache every list is shorter, so no loop reaches it
    (\<open>pagecache_returns\<close>). \<open>Pagecache_Conc\<close> interleaves the critical sections of any number of threads and
    shows consistency, least-recently-used replacement, and what a get and a store do to the disk.

  \<^item> \<open>Unixsock\<close> (\<open>core/syscall/sock/unix_sock.c\<close>): endpoints with reference counts, connections, listeners with
    queues, the registry of names, passing of descriptors. \<open>Unixsock_Inv\<close> states the invariant, with the queues
    and temporary holds as ghost state; \<open>Unixsock_Ops\<close> has one preservation lemma per call;
    \<open>Unixsock_Reach\<close> the relation \<open>us_run\<close> of all interleavings of the calls, with \<open>connect\<close> and the rounds of writing in
    two parts each, as the locks divide them, and \<open>us_reach\<close>, its states with no \<open>connect\<close> under way;
    \<open>Unixsock_Props\<close> the properties: no use after free, streams in order, what a peer sees of a close, the
    queue of a listener. The destruction of an endpoint calls itself: fuel 3 is enough because an endpoint of
    a listener's queue has no queue of its own; a listener's queue is emptied with fuel for as many rounds
    as there are addresses in use. \<open>us_run\<close> excludes the calls that the findings are about: accepting with a full
    descriptor table, closing a listener while a \<open>connect\<close> holds it, freeing the peer under a writer.

  \<^item> \<open>Elf\<close>, \<open>Elf_Props\<close> (\<open>kernel/elf/elf_loader.c\<close>, \<open>sym.c\<close>): the checks, the mapping of programs and
    interpreters, heap start, interpreter path, symbols. For any file and any answers of the memory
    manager, only user pages are mapped, tracked first, and released on failure; a loaded segment has
    the bytes of the file and zeros, as far as \<open>vmm_map\<close> (\<open>rust_mm/src/vmm/paging.rs\<close>, modelled for the user
    pages that the loader asks for) finds its page tables; the heap starts above it. The loop over pages stops at the top
    of memory, which the segment check excludes.

  \<^item> \<open>Tmpfs\<close>, \<open>Tmpfs_Props\<close> (\<open>fs/vfs/tmpfs\<close>): inodes, entries, links and handles. Well-typedness with exact
    reference counts and progress of every call (as for a type system), and directories as finite maps.

  \<^item> \<open>Pmm\<close> (\<open>kernel/memory/rust_mm/src/pmm.rs\<close>, \<open>pmm_math.rs\<close>): the bitmap and reference counts of frames. Counts
    are exact, a frame is handed out only when nobody holds it, and an allocation fails only when no frame
    below the end of RAM is free. The search ends at the top of RAM, and \<open>kalloc\<close> tries at most five times.

  \<^item> \<open>Memfd\<close>, \<open>Memfd_Props\<close> (\<open>kernel/memory/rust_mm/src/process/memfd.rs\<close>, \<open>fs/memfd/memfd.c\<close>): memory files as arrays of
    frames. Reads, writes and truncation refine operations on lists of bytes, and frames received are exactly
    those given back and those in use. The capacity loop ends because the need is checked against
    \<open>MEMFD_PAGES_MAX\<close> first. The answers of the frame allocator are assumed fresh; \<open>kalloc_answers_ok\<close> shows that
    \<open>Pmm\<close> gives such answers.

  \<^bold>\<open>Findings.\<close> Lemmas next to the properties of \<open>Tty\<close> and at the end of \<open>Pagecache_Conc\<close>, \<open>Unixsock_Props\<close>, \<open>Elf_Props\<close>, \<open>Tmpfs_Props\<close>, \<open>Pmm\<close> and \<open>Memfd_Props\<close> show where the
  code departs from its comments; they are stated on the models above.

  \<^bold>\<open>Not modelled.\<close> The Rust crates (VFS core, paging and swap of the memory manager, scheduler, locks, network, DRM, cryptography) and
  the vendored zstd, uACPI and rustls: the models take from them only the answers the C code uses. The
  drivers of PCI, USB, ACPI, video, input and timers, and start-up, descriptor tables and processor
  bring-up: what they do is access to registers, ports and tables of the hardware. Epoll, signalfd and pipes: readiness
  sets polled over nodes of every other kind, and pending signals kept by the scheduler. Procfs and the text nodes
  of \<open>/dev\<close>, which format values of other subsystems; the directories \<open>/bin\<close>, \<open>/etc\<close> and the like, fixed trees wired at
  boot. Routines that only print are left out of the modelled components. Interrupts inside a critical section
  and weak memory ordering are outside the models.
\<close>

end
